(* ===== verification/Prelude.thy ===== *)
theory Prelude
  imports Main "HOL-Library.Word" "HOL-Library.AList"
begin

text \<open>
  Shared vocabulary of the development: the Go machine types the sources use, the
  big-endian codecs of \<^verbatim>\<open>encoding/binary\<close>, the binary search of \<^verbatim>\<open>sort.Search\<close>, the
  sources of randomness, and generic facts on association lists and lists.

  Go's fixed-width unsigned integers are words of that width.  \<^verbatim>\<open>int\<close> and \<^verbatim>\<open>int64\<close>
  quantities that count bytes, channels or nanoseconds are \<^typ>\<open>int\<close>; the component
  theories prove the bounds that keep them far from the 64-bit limits.  Go maps are
  association lists with distinct keys (so that \<^verbatim>\<open>len(m)\<close> computes), Go strings are
  \<^typ>\<open>string\<close>, one \<^typ>\<open>char\<close> per byte.
\<close>

unbundle bit_operations_syntax

type_synonym byte = "8 word"
type_synonym u16 = "16 word"
type_synonym u32 = "32 word"
type_synonym u64 = "64 word"
type_synonym bytes = "8 word list"
type_synonym time = int
type_synonym duration = int

named_theorems wire_simps \<open>round trips and lengths of the byte codecs\<close>
named_theorems alist_simps \<open>lookup, keys, lengths and sums of association lists\<close>

section \<open>Time\<close>

text \<open>
  A \<^verbatim>\<open>time.Time\<close> is a number of nanoseconds since Go's zero time, so \<^verbatim>\<open>IsZero\<close> is
  \<open>t = 0\<close>; a \<^verbatim>\<open>time.Duration\<close> is a number of nanoseconds.
\<close>

definition zero_time :: time where
  "zero_time = 0"

definition is_zero :: "time \<Rightarrow> bool" where
  "is_zero t \<longleftrightarrow> t = zero_time"

definition seconds :: "int \<Rightarrow> duration" where
  "seconds n = n * 1000000000"

section \<open>Randomness\<close>

text \<open>
  The sources draw random numbers from \<^verbatim>\<open>crypto/rand\<close> and fall back to \<^verbatim>\<open>math/rand\<close>
  when the read fails.  One draw is a value of this type: the four bytes read, or the
  number behind the call of \<^verbatim>\<open>mrand.Intn(n)\<close>, which is below \<open>n\<close>.
\<close>

datatype entropy = CryptoRand u32 | MathRand nat

section \<open>Big-endian integers\<close>

definition put16 :: "u16 \<Rightarrow> bytes" where
  "put16 w = [ucast (drop_bit 8 w), ucast w]"

definition put32 :: "u32 \<Rightarrow> bytes" where
  "put32 w = [ucast (drop_bit 24 w), ucast (drop_bit 16 w), ucast (drop_bit 8 w), ucast w]"

definition put64 :: "u64 \<Rightarrow> bytes" where
  "put64 w =
     [ucast (drop_bit 56 w), ucast (drop_bit 48 w), ucast (drop_bit 40 w), ucast (drop_bit 32 w),
      ucast (drop_bit 24 w), ucast (drop_bit 16 w), ucast (drop_bit 8 w), ucast w]"

text \<open>
  Reading shifts the bytes in from the left.  The Go functions index the slice, so they
  are only called where enough bytes are there; each use below is behind the length check
  the source has.
\<close>

definition be_word :: "bytes \<Rightarrow> 'a::len word" where
  "be_word bs = foldl (\<lambda>acc b. push_bit 8 acc OR ucast b) 0 bs"

definition get16 :: "bytes \<Rightarrow> u16" where
  "get16 bs = be_word (take 2 bs)"

definition get32 :: "bytes \<Rightarrow> u32" where
  "get32 bs = be_word (take 4 bs)"

definition get64 :: "bytes \<Rightarrow> u64" where
  "get64 bs = be_word (take 8 bs)"

lemma length_put [simp, wire_simps]:
  "length (put16 a) = 2" "length (put32 b) = 4" "length (put64 c) = 8"
  by (simp_all add: put16_def put32_def put64_def)

text \<open>
  Both directions are proved once, for a number \<open>k\<close> of bytes, over the recursive
  \<open>be_bytes\<close>, of which the three writers are instances.
\<close>

fun be_bytes :: "nat \<Rightarrow> 'a::len word \<Rightarrow> bytes" where
  "be_bytes 0 w = []"
| "be_bytes (Suc k) w = be_bytes k (drop_bit 8 w) @ [ucast w]"

lemma put_be_bytes:
  "put16 a = be_bytes 2 a" "put32 b = be_bytes 4 b" "put64 c = be_bytes 8 c"
  by (simp_all add: put16_def put32_def put64_def eval_nat_numeral drop_bit_drop_bit)

lemma be_word_Nil [simp]: "be_word [] = 0"
  by (simp add: be_word_def)

lemma be_word_snoc [simp]: "be_word (bs @ [b]) = push_bit 8 (be_word bs) OR ucast b"
  by (simp add: be_word_def)

lemma byte_below:
  fixes w :: "'a::len word"
  shows "push_bit 8 (take_bit m (drop_bit 8 w)) OR ucast (ucast w :: byte) = take_bit (m + 8) w"
  by (rule bit_word_eqI) (auto simp: bit_simps not_le less_diff_conv dest: bit_imp_le_length)

lemma be_word_be_bytes: "be_word (be_bytes k w) = take_bit (8 * k) w"
  by (induction k arbitrary: w) (simp_all add: byte_below add.commute)

lemma be_word_bit: "bit (be_word bs :: 'a::len word) n \<Longrightarrow> n < 8 * length bs"
proof (induction bs arbitrary: n rule: rev_induct)
  case (snoc b bs)
  have "n - 8 < 8 * length bs" if "bit (be_word bs :: 'a word) (n - 8)"
    using that by (rule snoc.IH)
  with snoc.prems show ?case
    by (auto simp: bit_simps dest: bit_imp_le_length)
qed simp

lemma be_bytes_be_word:
  "8 * length bs \<le> LENGTH('a) \<Longrightarrow> be_bytes (length bs) (be_word bs :: 'a::len word) = bs"
proof (induction bs rule: rev_induct)
  case Nil
  then show ?case by simp
next
  case (snoc b bs)
  let ?w = "be_word bs :: 'a word"
  have "drop_bit 8 (push_bit 8 ?w OR ucast b) = ?w"
    using snoc.prems
    by (intro bit_word_eqI) (auto simp: bit_simps dest: be_word_bit bit_imp_le_length)
  moreover have "(ucast (push_bit 8 ?w OR ucast b) :: byte) = b"
    using snoc.prems by (intro bit_word_eqI) (auto simp: bit_simps dest: bit_imp_le_length)
  ultimately show ?case
    using snoc by simp
qed

lemma take_bit_all [simp]: "LENGTH('a) \<le> n \<Longrightarrow> take_bit n (w :: 'a::len word) = w"
  by (rule bit_word_eqI) (auto simp: bit_simps)

lemma get_put_append [simp, wire_simps]:
  "get16 (put16 a @ rest) = a" "get32 (put32 b @ rest) = b" "get64 (put64 c @ rest) = c"
  by (simp_all add: get16_def get32_def get64_def)
    (simp_all add: put_be_bytes be_word_be_bytes)

lemma get_put [simp, wire_simps]:
  "get16 (put16 a) = a" "get32 (put32 b) = b" "get64 (put64 c) = c"
  using get_put_append(1) [of a "[]"] get_put_append(2) [of b "[]"] get_put_append(3) [of c "[]"]
  by simp_all

lemma put_get:
  "length bs = 2 \<Longrightarrow> put16 (get16 bs) = bs"
  "length bs = 4 \<Longrightarrow> put32 (get32 bs) = bs"
  "length bs = 8 \<Longrightarrow> put64 (get64 bs) = bs"
  using be_bytes_be_word [of bs, where 'a = 16] be_bytes_be_word [of bs, where 'a = 32]
    be_bytes_be_word [of bs, where 'a = 64]
  by (simp_all add: get16_def get32_def get64_def put_be_bytes)

section \<open>Binary search\<close>

text \<open>
  \<^verbatim>\<open>sort.Search(n, f)\<close> of the Go library: the smallest index below \<open>n\<close> with \<open>f\<close>, or
  \<open>n\<close>, found by bisection.  Its contract needs \<open>f\<close> to be monotone.
\<close>

function search_between :: "(nat \<Rightarrow> bool) \<Rightarrow> nat \<Rightarrow> nat \<Rightarrow> nat" where
  "search_between f i j =
     (if i < j then
        (let h = (i + j) div 2
         in if \<not> f h then search_between f (Suc h) j else search_between f i h)
      else i)"
  by pat_completeness auto
termination
  by (relation "measure (\<lambda>(f, i, j). j - i)") auto

declare search_between.simps [simp del]

definition sort_Search :: "nat \<Rightarrow> (nat \<Rightarrow> bool) \<Rightarrow> nat" where
  "sort_Search n f = search_between f 0 n"

lemma search_between_spec:
  assumes "i \<le> j" and mono: "\<And>a b. a \<le> b \<Longrightarrow> b < j \<Longrightarrow> f a \<Longrightarrow> f b"
    and "\<And>a. a < i \<Longrightarrow> \<not> f a"
  shows "i \<le> search_between f i j \<and> search_between f i j \<le> j \<and>
    (\<forall>a < search_between f i j. \<not> f a) \<and>
    (search_between f i j < j \<longrightarrow> f (search_between f i j))"
  using assms
proof (induction f i j rule: search_between.induct)
  case (1 f i j)
  show ?case
  proof (cases "i < j")
    case False
    then have "search_between f i j = i" by (simp add: search_between.simps [of f i j])
    with "1.prems" False show ?thesis by auto
  next
    case True
    define h where "h = (i + j) div 2"
    have h: "i \<le> h" "h < j" using True by (auto simp: h_def)
    show ?thesis
    proof (cases "f h")
      case True
      have "i \<le> search_between f i h \<and> search_between f i h \<le> h \<and>
          (\<forall>a < search_between f i h. \<not> f a) \<and> (search_between f i h < h \<longrightarrow> f (search_between f i h))"
        using "1.IH"(2) [OF \<open>i < j\<close> h_def] True h "1.prems" by (metis less_trans not_le)
      moreover have "search_between f i j = search_between f i h"
        using \<open>i < j\<close> True by (simp add: search_between.simps [of f i j] h_def Let_def)
      ultimately show ?thesis
        using h True by (cases "search_between f i h = h") auto
    next
      case False
      have below: "\<not> f a" if "a < Suc h" for a
        using False h "1.prems"(2) that by (metis less_Suc_eq_le)
      have "Suc h \<le> search_between f (Suc h) j \<and> search_between f (Suc h) j \<le> j \<and>
          (\<forall>a < search_between f (Suc h) j. \<not> f a) \<and>
          (search_between f (Suc h) j < j \<longrightarrow> f (search_between f (Suc h) j))"
      proof (rule "1.IH"(1) [OF \<open>i < j\<close> h_def False])
        show "Suc h \<le> j" using h by simp
        show "\<And>a b. a \<le> b \<Longrightarrow> b < j \<Longrightarrow> f a \<Longrightarrow> f b" by (rule "1.prems"(2))
      qed (rule below)
      moreover have "search_between f i j = search_between f (Suc h) j"
        using \<open>i < j\<close> False by (simp add: search_between.simps [of f i j] h_def Let_def)
      ultimately show ?thesis using h by auto
    qed
  qed
qed

lemma sort_Search_spec:
  assumes "\<And>a b. a \<le> b \<Longrightarrow> b < n \<Longrightarrow> f a \<Longrightarrow> f b"
  shows "sort_Search n f \<le> n" "a < sort_Search n f \<Longrightarrow> \<not> f a"
    "sort_Search n f < n \<Longrightarrow> f (sort_Search n f)"
  using search_between_spec [of 0 n f] assms by (auto simp: sort_Search_def)

lemma sort_Search_le: "sort_Search n f \<le> n"
proof -
  have "i \<le> j \<Longrightarrow> search_between f i j \<le> j" for i j
  proof (induction f i j rule: search_between.induct)
    case (1 f i j)
    have "i < j \<Longrightarrow> i \<le> (i + j) div 2 \<and> (i + j) div 2 < j" by auto
    with 1 show ?case
      by (force simp: search_between.simps [of f i j] Let_def)
  qed
  then show ?thesis by (simp add: sort_Search_def)
qed

section \<open>Association lists\<close>

abbreviation keys :: "('k \<times> 'v) list \<Rightarrow> 'k list" where
  "keys al \<equiv> map fst al"

lemma length_update [alist_simps]:
  "length (AList.update k v al) = (if k \<in> set (keys al) then length al else Suc (length al))"
  by (induction al) auto

lemma update_notin [alist_simps]: "k \<notin> set (keys al) \<Longrightarrow> AList.update k v al = al @ [(k, v)]"
  by (induction al) auto

lemma sum_update [alist_simps]:
  fixes f :: "'v \<Rightarrow> int"
  assumes "distinct (keys al)"
  shows "sum_list (map (f \<circ> snd) (AList.update k v al)) =
    sum_list (map (f \<circ> snd) al) + f v - (case map_of al k of None \<Rightarrow> 0 | Some w \<Rightarrow> f w)"
  using assms by (induction al) (auto simp: map_of_eq_None_iff split: option.splits)

lemma sum_delete [alist_simps]:
  fixes f :: "'v \<Rightarrow> int"
  assumes "distinct (keys al)"
  shows "sum_list (map (f \<circ> snd) (AList.delete k al)) =
    sum_list (map (f \<circ> snd) al) - (case map_of al k of None \<Rightarrow> 0 | Some w \<Rightarrow> f w)"
  using assms
proof (induction al)
  case (Cons p al)
  then show ?case
    by (cases p) (auto simp: map_of_eq_None_iff image_iff split: option.splits)
qed simp

lemma map_of_delete_other [alist_simps]:
  "map_of (AList.delete k al) = (map_of al)(k := None)"
  by (rule delete_conv')

lemma update_again [simp, alist_simps]: "AList.update k v (AList.update k w al) = AList.update k v al"
  by (induction al) auto

lemma delete_update_same [simp, alist_simps]: "AList.delete k (AList.update k v al) = AList.delete k al"
  by (induction al) auto

lemma sum_list_member_le:
  fixes f :: "'a \<Rightarrow> int"
  assumes "x \<in> set xs" and "\<And>y. y \<in> set xs \<Longrightarrow> 0 \<le> f y"
  shows "f x \<le> sum_list (map f xs)"
  using assms
proof (induction xs)
  case (Cons y ys)
  then have "0 \<le> sum_list (map f ys)" by (auto intro!: sum_list_nonneg)
  moreover have "0 \<le> f y" using Cons.prems by simp
  moreover have "x \<noteq> y \<Longrightarrow> f x \<le> sum_list (map f ys)" using Cons by simp
  ultimately show ?case by (cases "x = y") auto
qed simp

end
