(* ===== verification/Constants.thy ===== *)
theory Constants
  imports Prelude
begin

text \<open>
  The protocol constants of \<^verbatim>\<open>pkg/constants/constants.go\<close> that the components use, with
  the derived sizes written as the source derives them.
\<close>

definition KeepAliveChannelID :: byte where "KeepAliveChannelID = 0"
definition TimestampChannelID :: byte where "TimestampChannelID = 1"
definition FlowControlChannelID :: byte where "FlowControlChannelID = 2"
definition ChannelRequestChannelID :: byte where "ChannelRequestChannelID = 3"
definition MaxProxyHopCount :: int where "MaxProxyHopCount = 16"
definition ReverseRouteChannelID :: byte where "ReverseRouteChannelID = 4"
definition FirstChannelID :: byte where "FirstChannelID = 8"

definition ChannelIDSize :: nat where "ChannelIDSize = 1"
definition PacketLengthSize :: nat where "PacketLengthSize = 2"
definition PaddingSizeLen :: nat where "PaddingSizeLen = 2"
definition HeaderMACSize :: nat where "HeaderMACSize = 3"
definition PacketMACSize :: nat where "PacketMACSize = 4"
definition DataObfHeaderSize :: nat where "DataObfHeaderSize = 6"

definition HeaderSize :: nat where
  "HeaderSize = ChannelIDSize + PacketLengthSize + HeaderMACSize"

definition MaxPacketSize :: nat where "MaxPacketSize = 32768"

definition MaxPacketPayloadSize :: nat where
  "MaxPacketPayloadSize = MaxPacketSize - DataObfHeaderSize - HeaderSize - PacketMACSize"

definition ClientIDSize :: nat where "ClientIDSize = 8"
definition TimestampSize :: nat where "TimestampSize = 8"
definition TimestampPayloadSize :: nat where "TimestampPayloadSize = ClientIDSize + TimestampSize"
definition ReplayWindowSeconds :: int where "ReplayWindowSeconds = 5 * 60"
definition MaxTimeDrift :: duration where "MaxTimeDrift = seconds ReplayWindowSeconds"

definition MaxChannelAllocations :: int where "MaxChannelAllocations = 128"
definition MaxConfigurableChannelAllocations :: int where "MaxConfigurableChannelAllocations = 224"
definition MaxConcurrentChannels :: int where "MaxConcurrentChannels = 32"

definition FlowControlMinWindowSize :: int where "FlowControlMinWindowSize = 64 * 1024"
definition FlowControlInitialWindowSize :: int where "FlowControlInitialWindowSize = 256 * 1024"
definition FlowControlMaxWindowSize :: int where "FlowControlMaxWindowSize = 128 * 1024 * 1024"

definition KeepAlivePayloadSize :: nat where "KeepAlivePayloadSize = 2"
definition KeepAliveMuxTarget :: byte where "KeepAliveMuxTarget = 0"
definition KeepAliveModeNormal :: byte where "KeepAliveModeNormal = 0x00"
definition KeepAliveModeRefreshIdle :: byte where "KeepAliveModeRefreshIdle = 0x01"
definition KeepAliveModeAuthOK :: byte where "KeepAliveModeAuthOK = 0x02"
definition ChannelResponseOK :: byte where "ChannelResponseOK = 0x00"
definition ChannelResponseFailed :: byte where "ChannelResponseFailed = 0x01"
definition ChannelControlFIN :: byte where "ChannelControlFIN = 0x02"
definition ChannelControlClose :: byte where "ChannelControlClose = 0x03"
definition ChannelResponseAccepted :: byte where "ChannelResponseAccepted = 0x04"
definition FlowControlMessageSize :: nat where "FlowControlMessageSize = 6"
definition FlowControlWindowUpdate :: byte where "FlowControlWindowUpdate = 1"

definition SocketIdleTimeout :: int where "SocketIdleTimeout = 120"
definition NoDataTimeout :: int where "NoDataTimeout = 600"
definition KeepAliveMinInterval :: int where "KeepAliveMinInterval = 16"
definition KeepAliveMaxInterval :: int where "KeepAliveMaxInterval = 79"
definition ConnTypeTCP :: byte where "ConnTypeTCP = 1"
definition ConnTypeUDP :: byte where "ConnTypeUDP = 2"

lemmas channel_id_defs =
  KeepAliveChannelID_def TimestampChannelID_def FlowControlChannelID_def
  ChannelRequestChannelID_def ReverseRouteChannelID_def FirstChannelID_def

lemmas flow_window_defs =
  FlowControlMinWindowSize_def FlowControlInitialWindowSize_def FlowControlMaxWindowSize_def

lemmas channel_control_defs =
  KeepAliveModeNormal_def KeepAliveModeRefreshIdle_def KeepAliveModeAuthOK_def
  ChannelResponseOK_def ChannelResponseFailed_def ChannelControlFIN_def
  ChannelControlClose_def ChannelResponseAccepted_def KeepAliveMuxTarget_def

lemma MaxPacketPayloadSize_value: "MaxPacketPayloadSize = 32752"
  by (simp add: MaxPacketPayloadSize_def MaxPacketSize_def DataObfHeaderSize_def HeaderSize_def
      ChannelIDSize_def PacketLengthSize_def HeaderMACSize_def PacketMACSize_def)

text \<open>Obfuscation headers, padding and their tables.\<close>

definition HandshakeObfHeaderSize :: nat where "HandshakeObfHeaderSize = 32"
definition HandshakeObfHeaderMinLen :: nat where "HandshakeObfHeaderMinLen = 3"
definition HandshakeObfMagicMaxLen :: nat where "HandshakeObfMagicMaxLen = 8"
definition HandshakeObfHeaderAuthSize :: nat where "HandshakeObfHeaderAuthSize = 8"
definition HandshakeObfPrefixSize :: nat where "HandshakeObfPrefixSize = HandshakeObfHeaderSize + HandshakeObfHeaderAuthSize"
definition DataObfHeaderMinLen :: nat where "DataObfHeaderMinLen = 2"
definition DataObfPacketIDSize :: nat where "DataObfPacketIDSize = 2"
definition FakePaddingThreshold :: nat where "FakePaddingThreshold = 1500"
definition FakePaddingSplitMin :: nat where "FakePaddingSplitMin = 256"
definition FakePaddingSplitMaxExclusive :: nat where "FakePaddingSplitMaxExclusive = 1280"
definition PaddingHeaderMACSize :: nat where "PaddingHeaderMACSize = HeaderMACSize - PaddingSizeLen"
definition MinPacketSize :: nat where "MinPacketSize = DataObfHeaderSize + HeaderSize + PacketMACSize"
definition MaxDataPaddingSize :: nat where "MaxDataPaddingSize = 511"
definition MinPaddingMin :: nat where "MinPaddingMin = 16"
definition MaxPaddingMin :: nat where "MaxPaddingMin = 4096"
definition MaxPaddingMax :: nat where "MaxPaddingMax = 8191"
definition PaddingLogOffset :: int where "PaddingLogOffset = 10"
definition PaddingBucketCount :: nat where "PaddingBucketCount = 256"
definition PaddingShuffleCount :: nat where "PaddingShuffleCount = PaddingBucketCount - 1"
definition ServerKeyDerivationIterations :: nat where "ServerKeyDerivationIterations = 1024"
definition UserPasswordDerivationIterations :: nat where "UserPasswordDerivationIterations = 32"
definition NoPaddingThreshold :: nat where "NoPaddingThreshold = MaxPacketPayloadSize - MaxDataPaddingSize"

lemmas obf_consts = HandshakeObfHeaderSize_def HandshakeObfHeaderMinLen_def HandshakeObfMagicMaxLen_def
  HandshakeObfHeaderAuthSize_def HandshakeObfPrefixSize_def DataObfHeaderMinLen_def DataObfPacketIDSize_def
  FakePaddingThreshold_def FakePaddingSplitMin_def FakePaddingSplitMaxExclusive_def PaddingHeaderMACSize_def
  MinPacketSize_def MaxDataPaddingSize_def MinPaddingMin_def MaxPaddingMin_def MaxPaddingMax_def PaddingLogOffset_def
  PaddingBucketCount_def PaddingShuffleCount_def NoPaddingThreshold_def DataObfHeaderSize_def HeaderSize_def
  PacketMACSize_def HeaderMACSize_def PaddingSizeLen_def ChannelIDSize_def PacketLengthSize_def MaxPacketPayloadSize_def
  MaxPacketSize_def

end
