(* ===== verification/FlowControl.thy ===== *)
theory FlowControl
  imports Constants
begin

text \<open>
  Window sizes, update thresholds and window-update messages of
  \<^verbatim>\<open>pkg/mux/flow_control.go\<close>.  The debug and activity-log flags only guard log output and
  are left out, and with them \<^verbatim>\<open>flowControlLogSize\<close>, which only formats log lines.
\<close>

definition flowControlGrowHits :: int where "flowControlGrowHits = 3"
definition flowControlShrinkHits :: int where "flowControlShrinkHits = 16"
definition flowControlInitialWindowIndex :: int where "flowControlInitialWindowIndex = 2"
definition flowControlMaxWindowIndex :: int where "flowControlMaxWindowIndex = 11"

lemmas flow_index_defs =
  flowControlGrowHits_def flowControlShrinkHits_def flowControlInitialWindowIndex_def
  flowControlMaxWindowIndex_def

definition flowControlWindowForIndex :: "int \<Rightarrow> int" where
  "flowControlWindowForIndex index =
     (let i = (if index < 0 then 0 else index);
          j = (if flowControlMaxWindowIndex < i then flowControlMaxWindowIndex else i)
      in FlowControlMinWindowSize * 2 ^ nat j)"

text \<open>
  The threshold draws four random bytes, or falls back to \<^verbatim>\<open>math/rand\<close>.  \<^verbatim>\<open>uint32(span)\<close> is a
  conversion to 32 bits; for the windows of this protocol the span is at most
  25165825, so it is neither cut off nor zero.
\<close>

definition randomFlowControlUpdateThreshold :: "entropy \<Rightarrow> int \<Rightarrow> int" where
  "randomFlowControlUpdateThreshold e window =
     (let mn = window div 16; mx = window div 4; span = mx - mn + 1
      in if span \<le> 0 then mn
         else case e of
           MathRand n \<Rightarrow> mn + int n mod span
         | CryptoRand w \<Rightarrow> mn + uint (w mod (word_of_int span :: u32)))"

definition encodeWindowUpdate :: "byte \<Rightarrow> int \<Rightarrow> bytes" where
  "encodeWindowUpdate channelID credit =
     (if credit \<le> 0 then []
      else [FlowControlWindowUpdate, channelID] @ put32 (word_of_int credit))"

definition decodeWindowUpdate :: "bytes \<Rightarrow> (byte \<times> u32) option" where
  "decodeWindowUpdate payload =
     (if length payload \<noteq> FlowControlMessageSize then None
      else if payload ! 0 \<noteq> FlowControlWindowUpdate then None
      else Some (payload ! 1, get32 (drop 2 payload)))"

section \<open>Windows\<close>

lemma window_index:
  "0 \<le> i \<Longrightarrow> i \<le> 11 \<Longrightarrow> flowControlWindowForIndex i = 65536 * 2 ^ nat i"
  by (simp add: flowControlWindowForIndex_def flow_index_defs flow_window_defs Let_def)

lemma window_next:
  "0 \<le> i \<Longrightarrow> i < 11 \<Longrightarrow> flowControlWindowForIndex (i + 1) = 2 * flowControlWindowForIndex i"
  by (simp add: window_index nat_add_distrib)

lemma window_prev:
  assumes "0 < i" and "i \<le> 11"
  shows "2 * flowControlWindowForIndex (i - 1) = flowControlWindowForIndex i"
  using window_next [of "i - 1"] assms by simp

lemma window_bounds:
  "FlowControlMinWindowSize \<le> flowControlWindowForIndex i"
  "flowControlWindowForIndex i \<le> FlowControlMaxWindowSize"
proof -
  let ?j = "if 11 < (if i < 0 then 0 else i) then 11 else if i < 0 then 0 else i"
  have "(2::int) ^ nat ?j \<le> 2 ^ 11" "(1::int) \<le> 2 ^ nat ?j"
    by (intro power_increasing) auto
  then show "FlowControlMinWindowSize \<le> flowControlWindowForIndex i"
    "flowControlWindowForIndex i \<le> FlowControlMaxWindowSize"
    by (auto simp: flowControlWindowForIndex_def flow_index_defs flow_window_defs Let_def)
qed

lemma window_pos [simp]: "0 < flowControlWindowForIndex i"
  using window_bounds(1) [of i] by (simp add: flow_window_defs)

lemma window_initial: "flowControlWindowForIndex flowControlInitialWindowIndex = FlowControlInitialWindowSize"
  by (simp add: window_index flow_index_defs flow_window_defs)

lemma uint_u32: "0 \<le> n \<Longrightarrow> n < 2 ^ 32 \<Longrightarrow> uint (word_of_int n :: u32) = n"
  by (simp add: uint_word_of_int)

lemma threshold_bounds:
  assumes "FlowControlMinWindowSize \<le> w" and "w \<le> FlowControlMaxWindowSize"
  shows "w div 16 \<le> randomFlowControlUpdateThreshold e w"
    and "randomFlowControlUpdateThreshold e w \<le> w div 4"
proof -
  let ?s = "w div 4 - w div 16 + 1"
  have s: "0 < ?s" "?s < 2 ^ 32" using assms by (auto simp: flow_window_defs)
  have us: "uint (word_of_int ?s :: u32) = ?s" by (rule uint_u32) (use s in simp_all)
  have m: "0 \<le> uint (x mod (word_of_int ?s :: u32))" "uint (x mod (word_of_int ?s :: u32)) < ?s" for x :: u32
    unfolding uint_mod us by (rule pos_mod_sign [OF s(1)], rule pos_mod_bound [OF s(1)])
  have n: "0 \<le> int k mod ?s" "int k mod ?s < ?s" for k
    by (rule pos_mod_sign [OF s(1)], rule pos_mod_bound [OF s(1)])
  show "w div 16 \<le> randomFlowControlUpdateThreshold e w"
    using s(1) m(1) n(1)
    by (cases e) (auto simp: randomFlowControlUpdateThreshold_def Let_def)
  show "randomFlowControlUpdateThreshold e w \<le> w div 4"
  proof (cases e)
    case (CryptoRand x)
    then show ?thesis using s(1) m(2) [of x] by (simp add: randomFlowControlUpdateThreshold_def Let_def)
  next
    case (MathRand k)
    then show ?thesis using s(1) n(2) [of k] by (simp add: randomFlowControlUpdateThreshold_def Let_def)
  qed
qed

section \<open>Window updates\<close>

lemma decode_encode_update:
  assumes "0 < credit" and "credit < 2 ^ 32"
  shows "decodeWindowUpdate (encodeWindowUpdate i credit) = Some (i, word_of_int credit)"
    and "uint (word_of_int credit :: u32) = credit"
  using assms by (auto simp: decodeWindowUpdate_def encodeWindowUpdate_def FlowControlMessageSize_def
      uint_word_of_int)

lemma encode_decode_update:
  assumes "decodeWindowUpdate payload = Some (i, w)" and "w \<noteq> 0"
  shows "payload = encodeWindowUpdate i (uint w)"
proof -
  have len: "length payload = 6" and tag: "payload ! 0 = FlowControlWindowUpdate"
    and vals: "payload ! 1 = i" "get32 (drop 2 payload) = w"
    using assms(1) by (auto simp: decodeWindowUpdate_def FlowControlMessageSize_def split: if_splits)
  obtain a b rest where p: "payload = a # b # rest" "length rest = 4"
    using len by (metis (no_types) Suc_length_conv numeral_eq_Suc pred_numeral_simps(2,3)
        semiring_norm(28))
  have "put32 w = rest" using p vals put_get(2) [of rest] by simp
  moreover have "0 < uint w" using assms(2) uint_0_iff [of w] uint_ge_0 [of w] by linarith
  ultimately show ?thesis using p tag vals by (simp add: encodeWindowUpdate_def)
qed

section \<open>Properties\<close>

text \<open>
  Window updates: every credit that fits 32 bits survives encoding and decoding, every
  accepted message with a nonzero credit is the encoding of what it decodes to, and no
  message is sent for a credit that is not positive.
\<close>

theorem window_update_roundtrip:
  "(0 < credit \<and> credit < 2 ^ 32 \<longrightarrow>
     map_option (\<lambda>(j, w). (j, uint w)) (decodeWindowUpdate (encodeWindowUpdate i credit)) = Some (i, credit)) \<and>
   (credit \<le> 0 \<longrightarrow> encodeWindowUpdate i credit = []) \<and>
   (\<forall>payload j w. decodeWindowUpdate payload = Some (j, w) \<and> w \<noteq> 0 \<longrightarrow>
     payload = encodeWindowUpdate j (uint w))"
  using decode_encode_update(1) [of credit i] decode_encode_update(2) [of credit] encode_decode_update encodeWindowUpdate_def [of i credit]
  by auto

theorem window_update_roundtrip_witness:
  "map_option (\<lambda>(j, w). (j, uint w)) (decodeWindowUpdate (encodeWindowUpdate 9 262144)) = Some (9, 262144) \<and>
   encodeWindowUpdate 9 0 = [] \<and>
   [1, 9, 0, 4, 0, 0] = encodeWindowUpdate 9 262144"
  using window_update_roundtrip [of 262144 9] window_update_roundtrip [of 0 9]
  by (auto simp: encodeWindowUpdate_def put32_def FlowControlWindowUpdate_def)

end
