(* ===== verification/WindowBudget.thy ===== *)
theory WindowBudget
  imports Constants
begin

text \<open>
  The receive-window budget of \<^verbatim>\<open>pkg/mux/receive_window_budget.go\<close>, shared by all mux
  connections of a server.

  A mux pointer is a \<open>nat option\<close> (\<open>None\<close> is nil) and the budget pointer an option of the
  record.  Every method body runs under the budget's mutex, so each operation is one step.
  The map entries are pointers to allocation structs that only the map holds, so an update
  through such a pointer is an update of the map.  The invariant keeps all
  counters between 0 and the limit or a requested allocation, inside \<^verbatim>\<open>int64\<close>.
\<close>

section \<open>State and operations\<close>

record mux_alloc =
  ma_channels :: "(byte \<times> int) list"
  ma_excess :: int

record budget =
  b_limit :: int
  b_used :: int
  b_muxes :: "(nat \<times> mux_alloc) list"

record budget_snapshot =
  bs_Limit :: int
  bs_Used :: int
  bs_MuxCount :: int
  bs_ChannelCount :: int

type_synonym mux_ptr = "nat option"
type_synonym budget_ptr = "budget option"

definition receiveWindowExcess :: "int \<Rightarrow> int" where
  "receiveWindowExcess allocation =
     (let excess = allocation - FlowControlInitialWindowSize
      in if excess < 0 then 0 else excess)"

definition NewReceiveWindowBudget :: "int \<Rightarrow> budget" where
  "NewReceiveWindowBudget limit =
     \<lparr>b_limit = (if limit < 0 then 0 else limit), b_used = 0, b_muxes = []\<rparr>"

definition RegisterChannel :: "budget_ptr \<Rightarrow> mux_ptr \<Rightarrow> byte \<Rightarrow> budget_ptr" where
  "RegisterChannel bp mcp channelID =
     (case (bp, mcp) of
        (Some b, Some mc) \<Rightarrow>
          (let allocation = (case map_of (b_muxes b) mc of
                               None \<Rightarrow> \<lparr>ma_channels = [], ma_excess = 0\<rparr> | Some a \<Rightarrow> a);
               b1 = b\<lparr>b_muxes := AList.update mc allocation (b_muxes b)\<rparr>
           in case map_of (ma_channels allocation) channelID of
                Some _ \<Rightarrow> Some b1
              | None \<Rightarrow>
                  Some (b1\<lparr>b_muxes := AList.update mc
                    (allocation\<lparr>ma_channels :=
                       AList.update channelID FlowControlInitialWindowSize (ma_channels allocation)\<rparr>)
                    (b_muxes b1)\<rparr>))
      | _ \<Rightarrow> bp)"

definition TryResizeChannel ::
  "budget_ptr \<Rightarrow> mux_ptr \<Rightarrow> byte \<Rightarrow> int \<Rightarrow> budget_ptr \<times> bool" where
  "TryResizeChannel bp mcp channelID newAllocation =
     (case bp of
        None \<Rightarrow> (bp, True)
      | Some b \<Rightarrow>
          (case mcp of
             None \<Rightarrow> (bp, False)
           | Some mc \<Rightarrow>
               if newAllocation < 0 then (bp, False)
               else
                 (case map_of (b_muxes b) mc of
                    None \<Rightarrow> (bp, False)
                  | Some muxAllocation \<Rightarrow>
                      (case map_of (ma_channels muxAllocation) channelID of
                         None \<Rightarrow> (bp, False)
                       | Some oldAllocation \<Rightarrow>
                           (let delta = receiveWindowExcess newAllocation - receiveWindowExcess oldAllocation
                            in if 0 < delta \<and> (b_limit b < b_used b \<or> b_limit b - b_used b < delta)
                               then (bp, False)
                               else if delta < 0 \<and> (ma_excess muxAllocation < - delta \<or> b_used b < - delta)
                               then (bp, False)
                               else
                                 (Some (b\<lparr>b_muxes := AList.update mc
                                    (muxAllocation\<lparr>ma_channels :=
                                       AList.update channelID newAllocation (ma_channels muxAllocation),
                                       ma_excess := ma_excess muxAllocation + delta\<rparr>) (b_muxes b),
                                    b_used := b_used b + delta\<rparr>), True))))))"

definition RemoveChannel :: "budget_ptr \<Rightarrow> mux_ptr \<Rightarrow> byte \<Rightarrow> budget_ptr" where
  "RemoveChannel bp mcp channelID =
     (case (bp, mcp) of
        (Some b, Some mc) \<Rightarrow>
          (case map_of (b_muxes b) mc of
             None \<Rightarrow> bp
           | Some muxAllocation \<Rightarrow>
               (case map_of (ma_channels muxAllocation) channelID of
                  None \<Rightarrow> bp
                | Some allocation \<Rightarrow>
                    (let excess = receiveWindowExcess allocation;
                         a = muxAllocation\<lparr>ma_channels := AList.delete channelID (ma_channels muxAllocation),
                               ma_excess := ma_excess muxAllocation - excess\<rparr>;
                         b1 = b\<lparr>b_muxes := AList.update mc a (b_muxes b), b_used := b_used b - excess\<rparr>
                     in Some (if length (ma_channels a) = 0
                              then b1\<lparr>b_muxes := AList.delete mc (b_muxes b1)\<rparr> else b1))))
      | _ \<Rightarrow> bp)"

definition RemoveMux :: "budget_ptr \<Rightarrow> mux_ptr \<Rightarrow> budget_ptr" where
  "RemoveMux bp mcp =
     (case (bp, mcp) of
        (Some b, Some mc) \<Rightarrow>
          (case map_of (b_muxes b) mc of
             None \<Rightarrow> bp
           | Some muxAllocation \<Rightarrow>
               Some (b\<lparr>b_muxes := AList.delete mc (b_muxes b),
                       b_used := b_used b - ma_excess muxAllocation\<rparr>))
      | _ \<Rightarrow> bp)"

definition Snapshot :: "budget_ptr \<Rightarrow> budget_snapshot" where
  "Snapshot bp =
     (case bp of
        None \<Rightarrow> \<lparr>bs_Limit = 0, bs_Used = 0, bs_MuxCount = 0, bs_ChannelCount = 0\<rparr>
      | Some b \<Rightarrow>
          \<lparr>bs_Limit = b_limit b, bs_Used = b_used b, bs_MuxCount = int (length (b_muxes b)),
           bs_ChannelCount =
             sum_list (map (\<lambda>(_, allocation). int (length (ma_channels allocation))) (b_muxes b))\<rparr>)"

definition MuxExcess :: "budget_ptr \<Rightarrow> mux_ptr \<Rightarrow> int" where
  "MuxExcess bp mcp =
     (case (bp, mcp) of
        (Some b, Some mc) \<Rightarrow>
          (case map_of (b_muxes b) mc of Some allocation \<Rightarrow> ma_excess allocation | None \<Rightarrow> 0)
      | _ \<Rightarrow> 0)"

definition ChannelAllocation :: "budget_ptr \<Rightarrow> mux_ptr \<Rightarrow> byte \<Rightarrow> int option" where
  "ChannelAllocation bp mcp channelID =
     (case (bp, mcp) of
        (Some b, Some mc) \<Rightarrow>
          (case map_of (b_muxes b) mc of
             None \<Rightarrow> None
           | Some allocation \<Rightarrow> map_of (ma_channels allocation) channelID)
      | _ \<Rightarrow> None)"

section \<open>Invariant\<close>

definition alloc_inv :: "mux_alloc \<Rightarrow> bool" where
  "alloc_inv a \<longleftrightarrow>
     distinct (keys (ma_channels a)) \<and> ma_channels a \<noteq> [] \<and>
     ma_excess a = sum_list (map (receiveWindowExcess \<circ> snd) (ma_channels a))"

definition budget_inv :: "budget \<Rightarrow> bool" where
  "budget_inv b \<longleftrightarrow>
     distinct (keys (b_muxes b)) \<and> (\<forall>p \<in> set (b_muxes b). alloc_inv (snd p)) \<and>
     b_used b = sum_list (map (ma_excess \<circ> snd) (b_muxes b)) \<and> b_used b \<le> b_limit b"

lemma excess_nonneg [simp]: "0 \<le> receiveWindowExcess n"
  by (simp add: receiveWindowExcess_def Let_def)

lemma excess_initial [simp]: "receiveWindowExcess FlowControlInitialWindowSize = 0"
  by (simp add: receiveWindowExcess_def Let_def)

lemma excess_mono: "m \<le> n \<Longrightarrow> receiveWindowExcess m \<le> receiveWindowExcess n"
  by (simp add: receiveWindowExcess_def Let_def)

lemma le_initial_excess: "n \<le> FlowControlInitialWindowSize + receiveWindowExcess n"
  by (simp add: receiveWindowExcess_def Let_def)

lemma alloc_inv_nonneg: "alloc_inv a \<Longrightarrow> 0 \<le> ma_excess a"
  by (auto simp: alloc_inv_def intro!: sum_list_nonneg)

lemma budget_inv_alloc: "budget_inv b \<Longrightarrow> map_of (b_muxes b) mc = Some a \<Longrightarrow> alloc_inv a"
  by (force simp: budget_inv_def dest: map_of_SomeD)

lemma budget_inv_used: "budget_inv b \<Longrightarrow> 0 \<le> b_used b"
  by (auto simp: budget_inv_def intro!: sum_list_nonneg alloc_inv_nonneg)

lemma alloc_excess_le:
  assumes "alloc_inv a" and "map_of (ma_channels a) i = Some n"
  shows "receiveWindowExcess n \<le> ma_excess a"
  using sum_list_member_le [of "(i, n)" "ma_channels a" "receiveWindowExcess \<circ> snd"] assms
  by (auto simp: alloc_inv_def dest: map_of_SomeD)

lemma mux_excess_le:
  assumes "budget_inv b" and "map_of (b_muxes b) mc = Some a"
  shows "ma_excess a \<le> b_used b"
  using sum_list_member_le [of "(mc, a)" "b_muxes b" "ma_excess \<circ> snd"] assms
  by (auto simp: budget_inv_def intro: alloc_inv_nonneg dest!: map_of_SomeD)

text \<open>
  All operations replace the allocation of one mux by a well-formed one, or delete it, and
  correct \<open>b_used\<close> by the difference.
\<close>

lemma set_update_subset: "set (AList.update k v al) \<subseteq> insert (k, v) (set al)"
  by (induction al) auto

lemma budget_inv_update:
  assumes "budget_inv b" and "alloc_inv a"
    and "u = b_used b + ma_excess a - (case map_of (b_muxes b) mc of None \<Rightarrow> 0 | Some w \<Rightarrow> ma_excess w)"
    and "u \<le> b_limit b"
  shows "budget_inv (b\<lparr>b_muxes := AList.update mc a (b_muxes b), b_used := u\<rparr>)"
proof -
  have "\<forall>p \<in> set (AList.update mc a (b_muxes b)). alloc_inv (snd p)"
    using assms(1,2) set_update_subset [of mc a "b_muxes b"] by (auto simp: budget_inv_def)
  with assms show ?thesis
    by (simp add: budget_inv_def distinct_update sum_update split: option.splits)
qed

lemma budget_inv_delete:
  assumes "budget_inv b" and "map_of (b_muxes b) mc = Some a" and "u = b_used b - ma_excess a"
  shows "budget_inv (b\<lparr>b_muxes := AList.delete mc (b_muxes b), b_used := u\<rparr>)"
proof -
  have "set (AList.delete mc (b_muxes b)) \<subseteq> set (b_muxes b)"
    by (auto simp: AList.delete_eq)
  then have "\<forall>p \<in> set (AList.delete mc (b_muxes b)). alloc_inv (snd p)"
    using assms(1) by (auto simp: budget_inv_def)
  moreover have "0 \<le> ma_excess a" using assms budget_inv_alloc alloc_inv_nonneg by blast
  ultimately show ?thesis
    using assms by (simp add: budget_inv_def distinct_delete sum_delete)
qed

section \<open>What each operation does to the allocations\<close>

lemma register_effect:
  assumes "budget_inv b"
  shows "\<exists>b'. RegisterChannel (Some b) (Some mc) i = Some b' \<and> budget_inv b' \<and>
    b_used b' = b_used b \<and> b_limit b' = b_limit b \<and>
    (\<forall>m j. ChannelAllocation (Some b') (Some m) j =
      (if m = mc \<and> j = i \<and> ChannelAllocation (Some b) (Some mc) i = None
       then Some FlowControlInitialWindowSize else ChannelAllocation (Some b) (Some m) j))"
proof -
  define a where "a = (case map_of (b_muxes b) mc of
      None \<Rightarrow> \<lparr>ma_channels = [], ma_excess = 0\<rparr> | Some a \<Rightarrow> a)"
  have a: "map_of (b_muxes b) mc = Some x \<Longrightarrow> alloc_inv x \<and> a = x" for x
    using budget_inv_alloc [OF assms] by (simp add: a_def)
  have none: "map_of (b_muxes b) mc = None \<Longrightarrow> a = \<lparr>ma_channels = [], ma_excess = 0\<rparr>"
    by (simp add: a_def)
  have ex: "ma_excess a = (case map_of (b_muxes b) mc of None \<Rightarrow> 0 | Some w \<Rightarrow> ma_excess w)"
    by (simp add: a_def split: option.split)
  have base: "distinct (keys (ma_channels a))"
    "ma_excess a = sum_list (map (receiveWindowExcess \<circ> snd) (ma_channels a))"
    using a none by (cases "map_of (b_muxes b) mc"; auto simp: alloc_inv_def)+
  show ?thesis
  proof (cases "map_of (ma_channels a) i")
    case (Some n)
    then have nn: "map_of (b_muxes b) mc = Some a" using none a
      by (cases "map_of (b_muxes b) mc") auto
    have "RegisterChannel (Some b) (Some mc) i = Some (b\<lparr>b_muxes := AList.update mc a (b_muxes b), b_used := b_used b\<rparr>)"
      unfolding RegisterChannel_def a_def [symmetric] using Some by (simp add: Let_def a_def)
    moreover have "budget_inv (b\<lparr>b_muxes := AList.update mc a (b_muxes b), b_used := b_used b\<rparr>)"
    proof (rule budget_inv_update [OF assms])
      show "alloc_inv a" using a [OF nn] by simp
      show "b_used b \<le> b_limit b" using assms by (simp add: budget_inv_def)
    qed (simp add: nn)
    ultimately show ?thesis using nn Some by (simp add: ChannelAllocation_def update_conv')
  next
    case None
    let ?a = "a\<lparr>ma_channels := AList.update i FlowControlInitialWindowSize (ma_channels a)\<rparr>"
    let ?b = "b\<lparr>b_muxes := AList.update mc a (b_muxes b), b_used := b_used b\<rparr>"
    have "alloc_inv ?a"
      using base None update_notin [of i "ma_channels a" FlowControlInitialWindowSize]
      by (auto simp: alloc_inv_def distinct_update sum_update map_of_eq_None_iff)
    then have "budget_inv (b\<lparr>b_muxes := AList.update mc ?a (b_muxes b), b_used := b_used b\<rparr>)"
    proof (rule budget_inv_update [OF assms])
      show "b_used b \<le> b_limit b" using assms by (simp add: budget_inv_def)
    qed (simp add: ex)
    moreover have "RegisterChannel (Some b) (Some mc) i =
        Some (b\<lparr>b_muxes := AList.update mc ?a (b_muxes b), b_used := b_used b\<rparr>)"
      unfolding RegisterChannel_def a_def [symmetric] using None by (simp add: Let_def a_def)
    moreover have "ChannelAllocation (Some b) (Some mc) j = map_of (ma_channels a) j" for j
      by (simp add: ChannelAllocation_def a_def split: option.split)
    ultimately show ?thesis using None
      by (auto simp: ChannelAllocation_def update_conv' split: option.split)
  qed
qed

lemma resize_effect:
  assumes inv: "budget_inv b" and al: "ChannelAllocation (Some b) (Some mc) i = Some old"
    and n: "0 \<le> n"
    and fits: "receiveWindowExcess n \<le> receiveWindowExcess old \<or>
      b_used b + receiveWindowExcess n - receiveWindowExcess old \<le> b_limit b"
  shows "\<exists>b'. TryResizeChannel (Some b) (Some mc) i n = (Some b', True) \<and> budget_inv b' \<and>
    b_used b' = b_used b + receiveWindowExcess n - receiveWindowExcess old \<and>
    b_limit b' = b_limit b \<and>
    (\<forall>m j. ChannelAllocation (Some b') (Some m) j =
      (if m = mc \<and> j = i then Some n else ChannelAllocation (Some b) (Some m) j))"
proof -
  obtain a where a: "map_of (b_muxes b) mc = Some a" "map_of (ma_channels a) i = Some old"
    using al by (auto simp: ChannelAllocation_def split: option.splits)
  let ?d = "receiveWindowExcess n - receiveWindowExcess old"
  let ?a = "a\<lparr>ma_channels := AList.update i n (ma_channels a), ma_excess := ma_excess a + ?d\<rparr>"
  let ?b = "b\<lparr>b_muxes := AList.update mc ?a (b_muxes b), b_used := b_used b + ?d\<rparr>"
  have ai: "alloc_inv a" using inv a(1) by (rule budget_inv_alloc)
  have "receiveWindowExcess old \<le> ma_excess a" "ma_excess a \<le> b_used b" "b_used b \<le> b_limit b"
    using alloc_excess_le [OF ai a(2)] mux_excess_le [OF inv a(1)] inv by (auto simp: budget_inv_def)
  then have "\<not> (0 < ?d \<and> (b_limit b < b_used b \<or> b_limit b - b_used b < ?d))"
    and "\<not> (?d < 0 \<and> (ma_excess a < - ?d \<or> b_used b < - ?d))"
    using fits excess_nonneg [of n] by linarith+
  then have "TryResizeChannel (Some b) (Some mc) i n = (Some ?b, True)"
    unfolding TryResizeChannel_def using a n by (simp only: Let_def option.case if_False not_less) simp
  moreover have "alloc_inv ?a"
    using ai a(2) by (auto simp: alloc_inv_def distinct_update sum_update update_nonempty)
  then have "budget_inv ?b"
    using inv a(1) fits \<open>b_used b \<le> b_limit b\<close> by (intro budget_inv_update) auto
  ultimately show ?thesis
    using a by (auto simp: ChannelAllocation_def update_conv')
qed

lemma resize_denied:
  assumes inv: "budget_inv b"
    and no: "ChannelAllocation (Some b) (Some mc) i = None \<or> n < 0 \<or>
      (\<exists>old. ChannelAllocation (Some b) (Some mc) i = Some old \<and> receiveWindowExcess old < receiveWindowExcess n \<and>
        b_limit b < b_used b + receiveWindowExcess n - receiveWindowExcess old)"
  shows "TryResizeChannel (Some b) (Some mc) i n = (Some b, False)"
  using no by (auto simp: TryResizeChannel_def ChannelAllocation_def Let_def split: option.splits)

lemma remove_effect:
  assumes inv: "budget_inv b"
  shows "\<exists>b'. RemoveChannel (Some b) (Some mc) i = Some b' \<and> budget_inv b' \<and>
    b_used b' = b_used b - (case ChannelAllocation (Some b) (Some mc) i of
      None \<Rightarrow> 0 | Some n \<Rightarrow> receiveWindowExcess n) \<and> b_limit b' = b_limit b \<and>
    (\<forall>m j. ChannelAllocation (Some b') (Some m) j =
      (if m = mc \<and> j = i then None else ChannelAllocation (Some b) (Some m) j))"
proof (cases "ChannelAllocation (Some b) (Some mc) i")
  case None
  then have "RemoveChannel (Some b) (Some mc) i = Some b"
    by (auto simp: RemoveChannel_def ChannelAllocation_def split: option.splits)
  with None inv show ?thesis by auto
next
  case (Some n)
  then obtain a where a: "map_of (b_muxes b) mc = Some a" "map_of (ma_channels a) i = Some n"
    by (auto simp: ChannelAllocation_def split: option.splits)
  let ?e = "receiveWindowExcess n"
  let ?a = "a\<lparr>ma_channels := AList.delete i (ma_channels a), ma_excess := ma_excess a - ?e\<rparr>"
  let ?b = "b\<lparr>b_muxes := AList.update mc ?a (b_muxes b), b_used := b_used b - ?e\<rparr>"
  have ai: "alloc_inv a" using inv a(1) by (rule budget_inv_alloc)
  have sum: "ma_excess a - ?e = sum_list (map (receiveWindowExcess \<circ> snd) (AList.delete i (ma_channels a)))"
    using ai a(2) by (simp add: alloc_inv_def sum_delete)
  have "b_used b \<le> b_limit b" using inv by (simp add: budget_inv_def)
  then have le: "b_used b - ?e \<le> b_limit b" using excess_nonneg [of n] by linarith
  show ?thesis
  proof (cases "AList.delete i (ma_channels a) = []")
    case True
    with sum have e: "ma_excess a = ?e" by simp
    have other: "map_of (ma_channels a) j = None" if "j \<noteq> i" for j
      using True that map_of_delete_other [of i "ma_channels a"] by (metis fun_upd_other map_of.simps(1))
    have "RemoveChannel (Some b) (Some mc) i =
        Some (b\<lparr>b_muxes := AList.delete mc (b_muxes b), b_used := b_used b - ?e\<rparr>)"
      using a True by (simp add: RemoveChannel_def Let_def)
    moreover have "budget_inv (b\<lparr>b_muxes := AList.delete mc (b_muxes b), b_used := b_used b - ?e\<rparr>)"
      using budget_inv_delete [OF inv a(1)] e by simp
    ultimately show ?thesis
      using Some a other by (auto simp: ChannelAllocation_def map_of_delete_other)
  next
    case False
    have "alloc_inv ?a" using ai False sum by (simp add: alloc_inv_def distinct_delete)
    then have "budget_inv ?b" using inv a(1) le by (intro budget_inv_update) auto
    moreover have "RemoveChannel (Some b) (Some mc) i = Some ?b"
      using a False by (simp add: RemoveChannel_def Let_def)
    ultimately show ?thesis
      using Some a by (auto simp: ChannelAllocation_def update_conv' map_of_delete_other)
  qed
qed

lemma remove_mux_effect:
  assumes inv: "budget_inv b"
  shows "\<exists>b'. RemoveMux (Some b) (Some mc) = Some b' \<and> budget_inv b' \<and>
    b_used b' = b_used b - MuxExcess (Some b) (Some mc) \<and> b_limit b' = b_limit b \<and>
    (\<forall>m j. ChannelAllocation (Some b') (Some m) j =
      (if m = mc then None else ChannelAllocation (Some b) (Some m) j))"
proof (cases "map_of (b_muxes b) mc")
  case None
  with inv show ?thesis by (auto simp: RemoveMux_def MuxExcess_def ChannelAllocation_def)
next
  case (Some a)
  with budget_inv_delete [OF inv Some refl] show ?thesis
    by (auto simp: RemoveMux_def MuxExcess_def ChannelAllocation_def map_of_delete_other
        split: option.split)
qed

lemma no_allocation_empty:
  assumes "budget_inv b" and "\<And>m j. ChannelAllocation (Some b) (Some m) j = None"
  shows "b_muxes b = []"
proof (rule ccontr)
  assume "b_muxes b \<noteq> []"
  then obtain m a where ma: "(m, a) \<in> set (b_muxes b)"
    by (metis list.set_intros(1) neq_Nil_conv prod.collapse)
  with assms(1) have m: "map_of (b_muxes b) m = Some a" by (simp add: budget_inv_def)
  then have "ma_channels a \<noteq> []" using budget_inv_alloc [OF assms(1)] by (simp add: alloc_inv_def)
  then obtain j n where "map_of (ma_channels a) j = Some n"
    by (metis list.exhaust map_of_Cons_code(2) prod.collapse)
  with assms(2) [of m j] m show False by (simp add: ChannelAllocation_def)
qed

lemma finite_allocations: "finite {(m, i). ChannelAllocation (Some b) (Some m) i \<noteq> None}"
proof (rule finite_subset)
  show "{(m, i). ChannelAllocation (Some b) (Some m) i \<noteq> None} \<subseteq> set (keys (b_muxes b)) \<times> UNIV"
    by (auto simp: ChannelAllocation_def image_iff split: option.splits dest!: map_of_SomeD) force
qed simp

section \<open>The contract of the budget\<close>

text \<open>
  What a channel relies on.  The allocation of a channel changes only by the operations on
  it; shrinking never fails; a refused growth changes nothing; the excess over the initial
  window is charged to the budget exactly.
\<close>

locale window_budget =
  fixes inv :: "'b \<Rightarrow> bool"
    and used :: "'b \<Rightarrow> int"
    and limit :: "'b \<Rightarrow> int"
    and alloc :: "'b \<Rightarrow> 'm \<Rightarrow> byte \<Rightarrow> int option"
    and register :: "'b \<Rightarrow> 'm \<Rightarrow> byte \<Rightarrow> 'b"
    and resize :: "'b \<Rightarrow> 'm \<Rightarrow> byte \<Rightarrow> int \<Rightarrow> 'b \<times> bool"
    and remove :: "'b \<Rightarrow> 'm \<Rightarrow> byte \<Rightarrow> 'b"
  assumes used_bounds: "inv b \<Longrightarrow> 0 \<le> used b \<and> used b \<le> limit b"
    and unused: "inv b \<Longrightarrow> (\<And>m j. alloc b m j = None) \<Longrightarrow> used b = 0"
    and register_law: "inv b \<Longrightarrow> inv (register b m i) \<and> used (register b m i) = used b \<and>
      limit (register b m i) = limit b \<and>
      alloc (register b m i) m' j =
        (if m' = m \<and> j = i \<and> alloc b m i = None then Some FlowControlInitialWindowSize else alloc b m' j)"
    and resize_ok: "inv b \<Longrightarrow> alloc b m i = Some old \<Longrightarrow> 0 \<le> n \<Longrightarrow>
      receiveWindowExcess n \<le> receiveWindowExcess old \<or>
        used b + receiveWindowExcess n - receiveWindowExcess old \<le> limit b \<Longrightarrow>
      inv (fst (resize b m i n)) \<and> snd (resize b m i n) \<and>
      used (fst (resize b m i n)) = used b + receiveWindowExcess n - receiveWindowExcess old \<and>
      limit (fst (resize b m i n)) = limit b \<and>
      alloc (fst (resize b m i n)) m' j = (if m' = m \<and> j = i then Some n else alloc b m' j)"
    and resize_no: "inv b \<Longrightarrow>
      alloc b m i = None \<or> n < 0 \<or> (\<exists>old. alloc b m i = Some old \<and>
        receiveWindowExcess old < receiveWindowExcess n \<and>
        limit b < used b + receiveWindowExcess n - receiveWindowExcess old) \<Longrightarrow>
      resize b m i n = (b, False)"
    and remove_law: "inv b \<Longrightarrow> inv (remove b m i) \<and>
      used (remove b m i) = used b - (case alloc b m i of None \<Rightarrow> 0 | Some n \<Rightarrow> receiveWindowExcess n) \<and>
      limit (remove b m i) = limit b \<and>
      alloc (remove b m i) m' j = (if m' = m \<and> j = i then None else alloc b m' j)"
begin

text \<open>A client that tracks its own allocation keeps tracking it across any resize.\<close>

lemma resize_tracks:
  assumes "inv b" and "alloc b m i = Some old" and "0 \<le> n"
  shows "inv (fst (resize b m i n)) \<and> limit (fst (resize b m i n)) = limit b \<and>
    alloc (fst (resize b m i n)) m i = Some (if snd (resize b m i n) then n else old) \<and>
    (m' \<noteq> m \<or> j \<noteq> i \<longrightarrow> alloc (fst (resize b m i n)) m' j = alloc b m' j)"
proof (cases "receiveWindowExcess n \<le> receiveWindowExcess old \<or>
        used b + receiveWindowExcess n - receiveWindowExcess old \<le> limit b")
  case True
  from resize_ok [OF assms True] show ?thesis by auto
next
  case False
  then have "resize b m i n = (b, False)"
    using assms(2) by (intro resize_no [OF assms(1)]) auto
  with assms show ?thesis by simp
qed

lemma shrink_succeeds:
  assumes "inv b" and "alloc b m i = Some old" and "0 \<le> n" and "n \<le> old"
  shows "snd (resize b m i n)"
  using resize_ok [OF assms(1-3)] excess_mono [OF assms(4)] by blast

lemma used_sum:
  assumes "finite K" and "inv b" and "K = {(m, i). alloc b m i \<noteq> None}"
  shows "used b = (\<Sum>(m, i) \<in> K. receiveWindowExcess (the (alloc b m i)))"
  using assms
proof (induction K arbitrary: b rule: finite_induct)
  case empty
  then have "\<And>m j. alloc b m j = None" by auto
  with empty show ?case using unused by simp
next
  case (insert x K)
  obtain m i where x: "x = (m, i)" by (cases x)
  have "(m, i) \<in> {(m, i). alloc b m i \<noteq> None}" using x insert.prems(2) by blast
  then obtain n where n: "alloc b m i = Some n" by auto
  let ?b = "remove b m i"
  have K: "K = {(m, i). alloc ?b m i \<noteq> None}"
    using insert.prems insert.hyps(2) x remove_law [OF insert.prems(1)] by auto
  then have "used ?b = (\<Sum>(m, i) \<in> K. receiveWindowExcess (the (alloc ?b m i)))"
    using insert.IH remove_law [OF insert.prems(1)] by blast
  also have "\<dots> = (\<Sum>(m, i) \<in> K. receiveWindowExcess (the (alloc b m i)))"
    using insert.hyps(2) x remove_law [OF insert.prems(1)] by (intro sum.cong) auto
  finally show ?case
    using insert.hyps x n remove_law [OF insert.prems(1), of m i] by simp
qed

text \<open>The memory all channels together may use: the limit plus one initial window each.\<close>

lemma total_allocation:
  assumes "finite K" and "inv b" and "K = {(m, i). alloc b m i \<noteq> None}"
  shows "(\<Sum>(m, i) \<in> K. the (alloc b m i)) \<le> limit b + int (card K) * FlowControlInitialWindowSize"
proof -
  have "(\<Sum>(m, i) \<in> K. the (alloc b m i)) \<le>
      (\<Sum>(m, i) \<in> K. FlowControlInitialWindowSize + receiveWindowExcess (the (alloc b m i)))"
    by (rule sum_mono) (auto simp: le_initial_excess)
  also have "\<dots> = int (card K) * FlowControlInitialWindowSize + used b"
    unfolding used_sum [OF assms] case_prod_unfold by (simp add: sum.distrib)
  finally show ?thesis using used_bounds [OF assms(2)] by linarith
qed

end

interpretation wb: window_budget
  budget_inv b_used b_limit "\<lambda>b m. ChannelAllocation (Some b) (Some m)"
  "\<lambda>b m i. the (RegisterChannel (Some b) (Some m) i)"
  "\<lambda>b m i n. (the (fst (TryResizeChannel (Some b) (Some m) i n)), snd (TryResizeChannel (Some b) (Some m) i n))"
  "\<lambda>b m i. the (RemoveChannel (Some b) (Some m) i)"
proof (unfold_locales, goal_cases)
  case (1 b)
  then show ?case using budget_inv_used by (simp add: budget_inv_def)
next
  case (2 b)
  then have "b_muxes b = []" by (intro no_allocation_empty)
  with 2(1) show ?case by (simp add: budget_inv_def)
next
  case (3 b m i m' j)
  then show ?case using register_effect [of b m i] by auto
next
  case (4 b m i old n m' j)
  then show ?case using resize_effect [OF 4] by auto
next
  case (5 b m i n)
  then show ?case by (simp add: resize_denied)
next
  case (6 b m i m' j)
  then show ?case using remove_effect [of b m i] by auto
qed

section \<open>Runs\<close>

datatype budget_op =
  BRegister mux_ptr byte | BResize mux_ptr byte int | BRemove mux_ptr byte | BRemoveMux mux_ptr

fun budget_do :: "budget_ptr \<Rightarrow> budget_op \<Rightarrow> budget_ptr" where
  "budget_do b (BRegister m i) = RegisterChannel b m i"
| "budget_do b (BResize m i n) = fst (TryResizeChannel b m i n)"
| "budget_do b (BRemove m i) = RemoveChannel b m i"
| "budget_do b (BRemoveMux m) = RemoveMux b m"

lemma nil_mux [simp]:
  "RegisterChannel b None i = b" "RemoveChannel b None i = b" "RemoveMux b None = b"
  by (auto simp: RegisterChannel_def RemoveChannel_def RemoveMux_def split: option.split)

lemma budget_do_inv:
  assumes "budget_inv b"
  shows "\<exists>b'. budget_do (Some b) op = Some b' \<and> budget_inv b' \<and> b_limit b' = b_limit b"
proof (cases op)
  case (BRegister m i)
  then show ?thesis using register_effect [OF assms, of "the m" i] assms by (cases m) auto
next
  case (BResize m i n)
  show ?thesis
  proof (cases m)
    case None
    with BResize assms show ?thesis by (simp add: TryResizeChannel_def)
  next
    case (Some mc)
    have eq: "fst (TryResizeChannel (Some b) (Some mc) i n) \<noteq> None"
      by (auto simp: TryResizeChannel_def Let_def split: option.splits)
    show ?thesis
    proof (cases "ChannelAllocation (Some b) (Some mc) i = None \<or> n < 0")
      case True
      then show ?thesis using resize_denied [OF assms, of mc i n] BResize Some assms by auto
    next
      case False
      then obtain old where "ChannelAllocation (Some b) (Some mc) i = Some old" "0 \<le> n" by auto
      then show ?thesis
        using wb.resize_tracks [OF assms, of mc i old n] BResize Some eq by auto
    qed
  qed
next
  case (BRemove m i)
  then show ?thesis using remove_effect [OF assms, of "the m" i] assms by (cases m) auto
next
  case (BRemoveMux m)
  then show ?thesis using remove_mux_effect [OF assms, of "the m"] assms by (cases m) auto
qed

lemma budget_run_inv:
  "budget_inv b \<Longrightarrow> \<exists>b'. foldl budget_do (Some b) ops = Some b' \<and> budget_inv b' \<and> b_limit b' = b_limit b"
proof (induction ops arbitrary: b)
  case (Cons op ops)
  then show ?case using budget_do_inv [OF Cons.prems, of op] by force
qed simp

lemma new_budget_inv: "budget_inv (NewReceiveWindowBudget limit)"
  by (simp add: budget_inv_def NewReceiveWindowBudget_def)

section \<open>Properties\<close>

text \<open>
  C7. Whatever sequence of registrations, resizes and removals the muxes perform, nil
  pointers included, the budget charges exactly the excess of the registered channels over
  the initial window, and never more than its limit.
\<close>

theorem budget_accounting:
  "\<exists>b. foldl budget_do (Some (NewReceiveWindowBudget limit)) ops = Some b \<and>
    (let K = {(m, i). ChannelAllocation (Some b) (Some m) i \<noteq> None} in
     finite K \<and>
     bs_Used (Snapshot (Some b)) = (\<Sum>(m, i) \<in> K. receiveWindowExcess (the (ChannelAllocation (Some b) (Some m) i))) \<and>
     0 \<le> bs_Used (Snapshot (Some b)) \<and> bs_Used (Snapshot (Some b)) \<le> max 0 limit \<and>
     (\<Sum>(m, i) \<in> K. the (ChannelAllocation (Some b) (Some m) i)) \<le>
       max 0 limit + int (card K) * FlowControlInitialWindowSize)"
proof -
  obtain b where b: "foldl budget_do (Some (NewReceiveWindowBudget limit)) ops = Some b" "budget_inv b"
    "b_limit b = max 0 limit"
    using budget_run_inv [OF new_budget_inv, of limit ops] by (auto simp: NewReceiveWindowBudget_def)
  show ?thesis
    using b finite_allocations [of b] wb.used_sum [OF finite_allocations b(2) refl]
      wb.total_allocation [OF finite_allocations b(2) refl] wb.used_bounds [OF b(2)]
    by (simp add: Snapshot_def Let_def)
qed

text \<open>
  \<^verbatim>\<open>TryResizeChannel\<close> on a registered channel: shrinking always succeeds; growth succeeds
  exactly when the added excess fits the budget; success changes that allocation alone and
  charges the difference; refusal changes nothing.
\<close>

theorem resize_exact:
  assumes "budget_inv b" and "ChannelAllocation (Some b) (Some mc) i = Some old" and "0 \<le> n"
  shows "(snd (TryResizeChannel (Some b) (Some mc) i n) \<longleftrightarrow>
      n \<le> old \<or> receiveWindowExcess n \<le> receiveWindowExcess old \<or>
      b_used b + receiveWindowExcess n - receiveWindowExcess old \<le> b_limit b) \<and>
    (if snd (TryResizeChannel (Some b) (Some mc) i n)
     then \<exists>b'. fst (TryResizeChannel (Some b) (Some mc) i n) = Some b' \<and> budget_inv b' \<and>
       b_used b' = b_used b + receiveWindowExcess n - receiveWindowExcess old \<and>
       (\<forall>m j. ChannelAllocation (Some b') (Some m) j =
         (if m = mc \<and> j = i then Some n else ChannelAllocation (Some b) (Some m) j))
     else fst (TryResizeChannel (Some b) (Some mc) i n) = Some b)"
proof (cases "receiveWindowExcess n \<le> receiveWindowExcess old \<or>
      b_used b + receiveWindowExcess n - receiveWindowExcess old \<le> b_limit b")
  case True
  then show ?thesis using resize_effect [OF assms True] by auto
next
  case False
  then have "TryResizeChannel (Some b) (Some mc) i n = (Some b, False)"
    using assms by (intro resize_denied) auto
  moreover have "\<not> n \<le> old" using False excess_mono by blast
  ultimately show ?thesis using False by simp
qed

theorem resize_exact_witness:
  "\<exists>b. RegisterChannel (Some (NewReceiveWindowBudget 262144)) (Some 1) 8 = Some b \<and>
    snd (TryResizeChannel (Some b) (Some 1) 8 524288) \<and>
    \<not> snd (TryResizeChannel (Some b) (Some 1) 8 1048576)"
proof -
  obtain b where b: "RegisterChannel (Some (NewReceiveWindowBudget 262144)) (Some 1) 8 = Some b"
    "budget_inv b" "b_used b = 0" "b_limit b = 262144"
    "ChannelAllocation (Some b) (Some 1) 8 = Some FlowControlInitialWindowSize"
    using register_effect [OF new_budget_inv, of 262144 1 8]
    by (auto simp: NewReceiveWindowBudget_def ChannelAllocation_def)
  show ?thesis
    using b resize_exact [OF b(2,5), of 524288] resize_exact [OF b(2,5), of 1048576]
    by (simp add: receiveWindowExcess_def flow_window_defs Let_def)
qed

text \<open>
  \<^verbatim>\<open>RemoveChannel\<close> and \<^verbatim>\<open>RemoveMux\<close> release exactly what was charged, leave the other
  allocations alone, and removing a channel a second time, or after its mux, does nothing.
\<close>

theorem removal_exact:
  assumes "budget_inv b"
  shows "\<exists>b1 b2. RemoveChannel (Some b) (Some mc) i = Some b1 \<and> budget_inv b1 \<and>
    b_used b1 = b_used b - (case ChannelAllocation (Some b) (Some mc) i of
      None \<Rightarrow> 0 | Some n \<Rightarrow> receiveWindowExcess n) \<and>
    (\<forall>m j. ChannelAllocation (Some b1) (Some m) j =
      (if m = mc \<and> j = i then None else ChannelAllocation (Some b) (Some m) j)) \<and>
    RemoveChannel (Some b1) (Some mc) i = Some b1 \<and>
    RemoveMux (Some b) (Some mc) = Some b2 \<and> budget_inv b2 \<and>
    b_used b2 = b_used b - MuxExcess (Some b) (Some mc) \<and>
    (\<forall>m j. ChannelAllocation (Some b2) (Some m) j =
      (if m = mc then None else ChannelAllocation (Some b) (Some m) j)) \<and>
    RemoveChannel (Some b2) (Some mc) i = Some b2"
proof -
  have gone: "RemoveChannel (Some x) (Some mc) i = Some x"
    if "ChannelAllocation (Some x) (Some mc) i = None" for x
    using that by (auto simp: RemoveChannel_def ChannelAllocation_def split: option.splits)
  obtain b1 where b1: "RemoveChannel (Some b) (Some mc) i = Some b1" "budget_inv b1"
    "b_used b1 = b_used b - (case ChannelAllocation (Some b) (Some mc) i of
      None \<Rightarrow> 0 | Some n \<Rightarrow> receiveWindowExcess n)"
    "\<forall>m j. ChannelAllocation (Some b1) (Some m) j =
      (if m = mc \<and> j = i then None else ChannelAllocation (Some b) (Some m) j)"
    using remove_effect [OF assms, of mc i] by blast
  obtain b2 where b2: "RemoveMux (Some b) (Some mc) = Some b2" "budget_inv b2"
    "b_used b2 = b_used b - MuxExcess (Some b) (Some mc)"
    "\<forall>m j. ChannelAllocation (Some b2) (Some m) j =
      (if m = mc then None else ChannelAllocation (Some b) (Some m) j)"
    using remove_mux_effect [OF assms, of mc] by blast
  have "RemoveChannel (Some b1) (Some mc) i = Some b1" "RemoveChannel (Some b2) (Some mc) i = Some b2"
    using b1(4) b2(4) by (auto intro!: gone)
  with b1 b2 show ?thesis by blast
qed

theorem removal_exact_witness:
  "\<exists>b b1 b2. RegisterChannel (Some (NewReceiveWindowBudget 5)) (Some 1) 8 = Some b \<and>
    ChannelAllocation (Some b) (Some 1) 8 = Some FlowControlInitialWindowSize \<and>
    RemoveChannel (Some b) (Some 1) 8 = Some b1 \<and> RemoveMux (Some b) (Some 1) = Some b2 \<and>
    ChannelAllocation (Some b1) (Some 1) 8 = None \<and> ChannelAllocation (Some b2) (Some 1) 8 = None"
proof -
  obtain b where b: "RegisterChannel (Some (NewReceiveWindowBudget 5)) (Some 1) 8 = Some b"
    "budget_inv b" "ChannelAllocation (Some b) (Some 1) 8 = Some FlowControlInitialWindowSize"
    using register_effect [OF new_budget_inv, of 5 1 8]
    by (auto simp: NewReceiveWindowBudget_def ChannelAllocation_def)
  show ?thesis using b removal_exact [OF b(2), of 1 8] by auto
qed

end
