(* ===== verification/Channel.thy ===== *)
theory Channel
  imports FlowControl WindowBudget
begin

text \<open>
  One data channel of \<^verbatim>\<open>pkg/mux/channel.go\<close>: receive queue, adaptive receive window,
  credit accounting, send credit, half-close and close.

  The record is the Go struct without its mutexes, conditions and mux pointer.  Each
  operation is the body that runs under the channel's lock; it takes the shared budget and
  the mux pointer where the source goes through \<^verbatim>\<open>ch.mux\<close>, and returns the credit that
  the source sends to the peer after unlocking.  Waiting on a condition variable is the
  outcome \<open>Blocked\<close>: the state is unchanged and the operation is tried again later.
\<close>

section \<open>State\<close>

record chan =
  ch_ID :: byte
  recvQueue :: "bytes list"
  recvBuffered :: int
  recvCreditPending :: int
  recvUpdateTarget :: int
  recvWindowIndex :: int
  recvHighCount :: int
  recvLowCount :: int
  recvLowBytes :: int
  recvThroughputBytes :: int
  recvThroughputCount :: int
  recvCreditDebt :: int
  remoteWriteClosed :: bool
  sendCredit :: int
  closedFlag :: bool
  localFIN :: bool

datatype chan_err =
  ErrChannelClosed | ErrChannelDataAfterFIN | ErrFlowControlWindowExceeded
| ErrChannelWriteClosed | ErrDeadlineExceeded | ErrEOF | ErrSend

definition newChannel :: "budget_ptr \<Rightarrow> mux_ptr \<Rightarrow> byte \<Rightarrow> entropy \<Rightarrow> budget_ptr \<times> chan" where
  "newChannel bp mc i e =
     (let ch = \<lparr>ch_ID = i, recvQueue = [], recvBuffered = 0, recvCreditPending = 0,
                recvUpdateTarget = randomFlowControlUpdateThreshold e
                  (flowControlWindowForIndex flowControlInitialWindowIndex),
                recvWindowIndex = flowControlInitialWindowIndex,
                recvHighCount = 0, recvLowCount = 0, recvLowBytes = 0,
                recvThroughputBytes = 0, recvThroughputCount = 0, recvCreditDebt = 0,
                remoteWriteClosed = False, sendCredit = FlowControlInitialWindowSize,
                closedFlag = False, localFIN = False\<rparr>
      in (if mc \<noteq> None \<and> bp \<noteq> None then RegisterChannel bp mc i else bp, ch))"

section \<open>Receiving\<close>

definition recvWindowLocked :: "chan \<Rightarrow> int" where
  "recvWindowLocked ch = flowControlWindowForIndex (recvWindowIndex ch)"

definition recvAllowedWindowLocked :: "chan \<Rightarrow> int" where
  "recvAllowedWindowLocked ch =
     (let window = recvWindowLocked ch + recvCreditDebt ch
      in if FlowControlMaxWindowSize < window then FlowControlMaxWindowSize else window)"

definition resetReceiveWindowCountersLocked :: "chan \<Rightarrow> chan" where
  "resetReceiveWindowCountersLocked ch =
     ch\<lparr>recvHighCount := 0, recvLowCount := 0, recvLowBytes := 0,
        recvThroughputBytes := 0, recvThroughputCount := 0\<rparr>"

text \<open>The counters that \<^verbatim>\<open>adjustReceiveWindowLocked\<close> updates first.\<close>

definition countPayload :: "chan \<Rightarrow> int \<Rightarrow> chan" where
  "countPayload ch payloadLen =
     (let window = recvWindowLocked ch;
          ch1 = ch\<lparr>recvThroughputBytes := recvThroughputBytes ch + payloadLen\<rparr>;
          ch2 = (if window \<le> recvThroughputBytes ch1
                 then ch1\<lparr>recvThroughputCount := recvThroughputCount ch1 + 1,
                          recvThroughputBytes := recvThroughputBytes ch1 mod window\<rparr>
                 else ch1)
      in if window div 2 \<le> recvBuffered ch2
         then ch2\<lparr>recvHighCount := recvHighCount ch2 + 1, recvLowCount := 0, recvLowBytes := 0\<rparr>
         else if recvBuffered ch2 < window div 8
         then ch2\<lparr>recvLowCount := recvLowCount ch2 + 1, recvLowBytes := recvLowBytes ch2 + payloadLen,
                  recvHighCount := 0\<rparr>
         else ch2\<lparr>recvHighCount := 0, recvLowCount := 0, recvLowBytes := 0\<rparr>)"

definition adjustReceiveWindowLocked ::
  "budget_ptr \<Rightarrow> mux_ptr \<Rightarrow> chan \<Rightarrow> int \<Rightarrow> entropy \<Rightarrow> budget_ptr \<times> chan \<times> int" where
  "adjustReceiveWindowLocked bp mc ch0 payloadLen e =
     (let window = recvWindowLocked ch0;
          ch = countPayload ch0 payloadLen
      in if (flowControlGrowHits \<le> recvHighCount ch \<or> flowControlGrowHits \<le> recvThroughputCount ch)
            \<and> recvWindowIndex ch < flowControlMaxWindowIndex
         then
           (let newWindow = flowControlWindowForIndex (recvWindowIndex ch + 1);
                sum = newWindow + recvCreditDebt ch;
                newAllocation = (if FlowControlMaxWindowSize < sum then FlowControlMaxWindowSize else sum);
                (bp1, ok) = (if bp \<noteq> None then TryResizeChannel bp mc (ch_ID ch) newAllocation
                             else (bp, True))
            in if \<not> ok then (bp1, resetReceiveWindowCountersLocked ch, 0)
               else
                 (bp1,
                  (resetReceiveWindowCountersLocked (ch\<lparr>recvWindowIndex := recvWindowIndex ch + 1\<rparr>))
                    \<lparr>recvUpdateTarget := randomFlowControlUpdateThreshold e newWindow\<rparr>,
                  newWindow - window))
         else if flowControlShrinkHits \<le> recvLowCount ch \<and> recvLowBytes ch < window div 2
                 \<and> 0 < recvWindowIndex ch
         then
           (let nextWindow = flowControlWindowForIndex (recvWindowIndex ch - 1)
            in if recvBuffered ch \<le> nextWindow
               then
                 (let ch1 = ch\<lparr>recvWindowIndex := recvWindowIndex ch - 1\<rparr>;
                      newWindow = recvWindowLocked ch1
                  in (bp,
                      (resetReceiveWindowCountersLocked
                        (ch1\<lparr>recvCreditDebt := recvCreditDebt ch1 + (window - newWindow)\<rparr>))
                        \<lparr>recvUpdateTarget := randomFlowControlUpdateThreshold e newWindow\<rparr>,
                      0))
               else (bp, ch, 0))
         else (bp, ch, 0))"

text \<open>The result is the error, or the extra credit to announce to the peer.\<close>

definition enqueuePayload ::
  "budget_ptr \<Rightarrow> mux_ptr \<Rightarrow> chan \<Rightarrow> bytes \<Rightarrow> entropy \<Rightarrow> budget_ptr \<times> chan \<times> (chan_err + int)" where
  "enqueuePayload bp mc ch payload e =
     (if payload = [] then (bp, ch, Inr 0)
      else
        (let payloadLen = int (length payload)
         in if closedFlag ch then (bp, ch, Inl ErrChannelClosed)
            else if remoteWriteClosed ch then (bp, ch, Inl ErrChannelDataAfterFIN)
            else
              (let window = recvAllowedWindowLocked ch
               in if window < payloadLen \<or> window < recvBuffered ch + payloadLen
                  then (bp, ch, Inl ErrFlowControlWindowExceeded)
                  else
                    (let ch1 = ch\<lparr>recvQueue := recvQueue ch @ [payload],
                                  recvBuffered := recvBuffered ch + payloadLen\<rparr>;
                         (bp', ch', extraCredit) = adjustReceiveWindowLocked bp mc ch1 payloadLen e
                     in (bp', ch', Inr extraCredit)))))"

definition releaseReceiveCredit ::
  "budget_ptr \<Rightarrow> mux_ptr \<Rightarrow> chan \<Rightarrow> int \<Rightarrow> entropy \<Rightarrow> entropy \<Rightarrow> budget_ptr \<times> chan \<times> int" where
  "releaseReceiveCredit bp mc ch n e1 e2 =
     (if n \<le> 0 then (bp, ch, 0)
      else if closedFlag ch then (bp, ch, 0)
      else
        (let ch1 = ch\<lparr>recvCreditPending := recvCreditPending ch + n\<rparr>;
             (bp2, ch2) =
               (if 0 < recvCreditDebt ch1
                then
                  (let withheld = (if recvCreditDebt ch1 < recvCreditPending ch1
                                   then recvCreditDebt ch1 else recvCreditPending ch1);
                       ch' = ch1\<lparr>recvCreditPending := recvCreditPending ch1 - withheld,
                                 recvCreditDebt := recvCreditDebt ch1 - withheld\<rparr>
                   in (if 0 < withheld \<and> bp \<noteq> None
                       then fst (TryResizeChannel bp mc (ch_ID ch') (recvAllowedWindowLocked ch'))
                       else bp, ch'))
                else (bp, ch1));
             ch3 = (if recvUpdateTarget ch2 \<le> 0
                    then ch2\<lparr>recvUpdateTarget := randomFlowControlUpdateThreshold e1 (recvWindowLocked ch2)\<rparr>
                    else ch2)
         in if recvUpdateTarget ch3 \<le> recvCreditPending ch3
            then (bp2,
                  ch3\<lparr>recvCreditPending := 0,
                      recvUpdateTarget := randomFlowControlUpdateThreshold e2 (recvWindowLocked ch3)\<rparr>,
                  recvCreditPending ch3)
            else (bp2, ch3, 0)))"

text \<open>
  Reading.  \<^verbatim>\<open>Read\<close>, \<^verbatim>\<open>ReadWithTimeout\<close> and \<^verbatim>\<open>readWithDeadline\<close> differ in when they give up
  waiting: never, once the timer has fired, or once the deadline is past (a nil deadline
  function and a zero deadline never are).  The code takes the lock once for the payload and
  once more for the credit; here both are one step.
\<close>

datatype read_outcome = ReadData bytes int | ReadErr chan_err | ReadTimedOut | ReadBlocked

definition take_queued ::
  "budget_ptr \<Rightarrow> mux_ptr \<Rightarrow> chan \<Rightarrow> entropy \<Rightarrow> entropy \<Rightarrow> budget_ptr \<times> chan \<times> read_outcome" where
  "take_queued bp mc ch e1 e2 =
     (let data = hd (recvQueue ch);
          ch1 = ch\<lparr>recvQueue := tl (recvQueue ch), recvBuffered := recvBuffered ch - int (length data)\<rparr>;
          (bp', ch', credit) = releaseReceiveCredit bp mc ch1 (int (length data)) e1 e2
      in (bp', ch', ReadData data credit))"

definition Channel_Read ::
  "budget_ptr \<Rightarrow> mux_ptr \<Rightarrow> chan \<Rightarrow> entropy \<Rightarrow> entropy \<Rightarrow> budget_ptr \<times> chan \<times> read_outcome" where
  "Channel_Read bp mc ch e1 e2 =
     (if recvQueue ch = [] \<and> \<not> closedFlag ch \<and> \<not> remoteWriteClosed ch then (bp, ch, ReadBlocked)
      else if recvQueue ch = [] \<and> closedFlag ch then (bp, ch, ReadErr ErrChannelClosed)
      else if recvQueue ch = [] \<and> remoteWriteClosed ch then (bp, ch, ReadErr ErrEOF)
      else take_queued bp mc ch e1 e2)"

definition ReadWithTimeout ::
  "budget_ptr \<Rightarrow> mux_ptr \<Rightarrow> chan \<Rightarrow> duration \<Rightarrow> bool \<Rightarrow> entropy \<Rightarrow> entropy
    \<Rightarrow> budget_ptr \<times> chan \<times> read_outcome" where
  "ReadWithTimeout bp mc ch timeout timedOut e1 e2 =
     (if timeout \<le> 0 then Channel_Read bp mc ch e1 e2
      else if recvQueue ch = [] \<and> \<not> closedFlag ch \<and> \<not> remoteWriteClosed ch \<and> \<not> timedOut
      then (bp, ch, ReadBlocked)
      else if recvQueue ch = [] \<and> closedFlag ch then (bp, ch, ReadErr ErrChannelClosed)
      else if recvQueue ch = [] \<and> remoteWriteClosed ch then (bp, ch, ReadErr ErrEOF)
      else if recvQueue ch = [] \<and> timedOut then (bp, ch, ReadTimedOut)
      else take_queued bp mc ch e1 e2)"

definition readWithDeadline ::
  "budget_ptr \<Rightarrow> mux_ptr \<Rightarrow> chan \<Rightarrow> time option \<Rightarrow> time \<Rightarrow> entropy \<Rightarrow> entropy
    \<Rightarrow> budget_ptr \<times> chan \<times> read_outcome" where
  "readWithDeadline bp mc ch deadline now e1 e2 =
     (if recvQueue ch = [] \<and> \<not> closedFlag ch \<and> \<not> remoteWriteClosed ch
      then (case deadline of
              None \<Rightarrow> (bp, ch, ReadBlocked)
            | Some d \<Rightarrow> if \<not> is_zero d \<and> d - now \<le> 0 then (bp, ch, ReadTimedOut)
                        else (bp, ch, ReadBlocked))
      else if recvQueue ch = [] \<and> closedFlag ch then (bp, ch, ReadErr ErrChannelClosed)
      else if recvQueue ch = [] \<and> remoteWriteClosed ch then (bp, ch, ReadErr ErrEOF)
      else take_queued bp mc ch e1 e2)"

section \<open>Sending\<close>

definition addSendCredit :: "chan \<Rightarrow> int \<Rightarrow> chan" where
  "addSendCredit ch credit =
     (if credit \<le> 0 then ch
      else if closedFlag ch then ch
      else
        (let c = sendCredit ch + credit
         in ch\<lparr>sendCredit := (if FlowControlMaxWindowSize < c then FlowControlMaxWindowSize else c)\<rparr>))"

datatype reserve_outcome = Reserved int | ReserveTimedOut | ReserveErr chan_err | ReserveBlocked

definition reserveSendCreditWithDeadline ::
  "chan \<Rightarrow> bool \<Rightarrow> int \<Rightarrow> time option \<Rightarrow> time \<Rightarrow> chan \<times> reserve_outcome" where
  "reserveSendCreditWithDeadline ch muxClosed maxBytes deadline now =
     (if maxBytes \<le> 0 then (ch, Reserved 0)
      else if sendCredit ch \<le> 0 \<and> \<not> closedFlag ch \<and> \<not> muxClosed
      then (case deadline of
              None \<Rightarrow> (ch, ReserveBlocked)
            | Some d \<Rightarrow> if \<not> is_zero d \<and> d - now \<le> 0 then (ch, ReserveTimedOut)
                        else (ch, ReserveBlocked))
      else if closedFlag ch \<or> muxClosed then (ch, ReserveErr ErrChannelClosed)
      else
        (let n = (if sendCredit ch < maxBytes then sendCredit ch else maxBytes)
         in (ch\<lparr>sendCredit := sendCredit ch - n\<rparr>, Reserved n)))"

definition reserveSendCredit :: "chan \<Rightarrow> bool \<Rightarrow> int \<Rightarrow> time \<Rightarrow> chan \<times> reserve_outcome" where
  "reserveSendCredit ch muxClosed maxBytes now =
     (case reserveSendCreditWithDeadline ch muxClosed maxBytes None now of
        (ch', ReserveTimedOut) \<Rightarrow> (ch', ReserveErr ErrDeadlineExceeded)
      | r \<Rightarrow> r)"

definition deadlineExceeded :: "time option \<Rightarrow> time \<Rightarrow> bool" where
  "deadlineExceeded deadline now =
     (case deadline of None \<Rightarrow> False | Some d \<Rightarrow> \<not> is_zero d \<and> \<not> now < d)"

text \<open>
  \<^verbatim>\<open>writeWithDeadline\<close> runs beside the reader, which adds credit or closes the channel.  One
  round of its loop sees the environment at that moment: the credits that arrived and
  whether the channel or the mux was closed since the last round, the deadline and the time,
  and whether \<^verbatim>\<open>SendPacket\<close> fails.  A round that has to wait leaves the loop where it is.
\<close>

record write_round =
  wr_credits :: "int list"
  wr_closed :: bool
  wr_muxClosed :: bool
  wr_deadline :: "time option"
  wr_now :: time
  wr_sendErr :: bool

record write_result =
  w_offset :: nat
  w_timedOut :: bool
  w_err :: "chan_err option"

definition wr_env :: "write_round \<Rightarrow> chan \<Rightarrow> chan" where
  "wr_env r ch =
     (let ch1 = foldl addSendCredit ch (wr_credits r)
      in if wr_closed r then ch1\<lparr>closedFlag := True, recvQueue := [], recvBuffered := 0\<rparr> else ch1)"

definition write_step ::
  "bytes \<Rightarrow> write_round \<Rightarrow> chan \<times> nat \<Rightarrow> (chan \<times> nat) \<times> bytes list \<times> write_result option" where
  "write_step data r = (\<lambda>(ch0, offset).
     (let ch = wr_env r ch0
      in if deadlineExceeded (wr_deadline r) (wr_now r)
         then ((ch, offset), [], Some \<lparr>w_offset = offset, w_timedOut = True, w_err = None\<rparr>)
         else
           (let maxChunk = min (length data - offset) MaxPacketPayloadSize
            in case reserveSendCreditWithDeadline ch (wr_muxClosed r) (int maxChunk)
                      (wr_deadline r) (wr_now r) of
                 (ch1, ReserveTimedOut) \<Rightarrow>
                   ((ch1, offset), [], Some \<lparr>w_offset = offset, w_timedOut = True, w_err = None\<rparr>)
               | (ch1, ReserveErr err) \<Rightarrow>
                   ((ch1, offset), [], Some \<lparr>w_offset = offset, w_timedOut = False, w_err = Some err\<rparr>)
               | (ch1, ReserveBlocked) \<Rightarrow> ((ch1, offset), [], None)
               | (ch1, Reserved chunkLen) \<Rightarrow>
                   if chunkLen = 0 then ((ch1, offset), [], None)
                   else if wr_sendErr r
                   then ((addSendCredit ch1 chunkLen, offset), [],
                         Some \<lparr>w_offset = offset, w_timedOut = False, w_err = Some ErrSend\<rparr>)
                   else ((ch1, offset + nat chunkLen), [take (nat chunkLen) (drop offset data)], None))))"

fun write_loop ::
  "bytes \<Rightarrow> write_round list \<Rightarrow> chan \<times> nat \<Rightarrow> bytes list \<Rightarrow> chan \<times> bytes list \<times> write_result option" where
  "write_loop data rs (ch, offset) sent =
     (if length data \<le> offset
      then (ch, sent, Some \<lparr>w_offset = offset, w_timedOut = False, w_err = None\<rparr>)
      else case rs of
        [] \<Rightarrow> (ch, sent, None)
      | r # rs' \<Rightarrow>
          (case write_step data r (ch, offset) of
             (st, pkts, Some res) \<Rightarrow> (fst st, sent @ pkts, Some res)
           | (st, pkts, None) \<Rightarrow> write_loop data rs' st (sent @ pkts)))"

declare write_loop.simps [simp del]

text \<open>
  The packets handed to \<^verbatim>\<open>SendPacket\<close> for this channel, and the result; no result means the
  call is still waiting after the given rounds.
\<close>

definition writeWithDeadline ::
  "chan \<Rightarrow> bytes \<Rightarrow> time option \<Rightarrow> time \<Rightarrow> bool \<Rightarrow> write_round list
    \<Rightarrow> chan \<times> bytes list \<times> write_result option" where
  "writeWithDeadline ch data deadline now sendErr rs =
     (if closedFlag ch
      then (ch, [], Some \<lparr>w_offset = 0, w_timedOut = False, w_err = Some ErrChannelClosed\<rparr>)
      else if localFIN ch
      then (ch, [], Some \<lparr>w_offset = 0, w_timedOut = False, w_err = Some ErrChannelWriteClosed\<rparr>)
      else if data = []
      then if deadlineExceeded deadline now
           then (ch, [], Some \<lparr>w_offset = 0, w_timedOut = True, w_err = None\<rparr>)
           else (ch, (if sendErr then [] else [data]),
                 Some \<lparr>w_offset = 0, w_timedOut = False,
                       w_err = (if sendErr then Some ErrSend else None)\<rparr>)
      else write_loop data rs (ch, 0) [])"

section \<open>Half-close and close\<close>

definition receiveFIN :: "chan \<Rightarrow> chan" where
  "receiveFIN ch = (if \<not> closedFlag ch then ch\<lparr>remoteWriteClosed := True\<rparr> else ch)"

text \<open>The FIN is put on the wire by the mux; the boolean says whether that failed.\<close>

definition sendFIN :: "chan \<Rightarrow> bool \<Rightarrow> chan \<times> bool \<times> chan_err option" where
  "sendFIN ch sendErr =
     (if closedFlag ch then (ch, False, Some ErrChannelClosed)
      else if localFIN ch then (ch, False, None)
      else if sendErr then (ch\<lparr>localFIN := False\<rparr>, False, Some ErrSend)
      else (ch\<lparr>localFIN := True\<rparr>, True, None))"

definition markClosed :: "budget_ptr \<Rightarrow> mux_ptr \<Rightarrow> chan \<Rightarrow> budget_ptr \<times> chan \<times> bool" where
  "markClosed bp mc ch =
     (if closedFlag ch then (bp, ch, False)
      else
        (if mc \<noteq> None \<and> bp \<noteq> None then RemoveChannel bp mc (ch_ID ch) else bp,
         ch\<lparr>closedFlag := True, recvQueue := [], recvBuffered := 0\<rparr>, True))"

section \<open>Invariant and accounting\<close>

text \<open>
  \<open>grant\<close> is the window plus the credit still to be withheld after a shrink; \<open>outstanding\<close>
  is the part of it that is neither buffered nor waiting to be returned, that is the credit
  the peer holds or has in flight.
\<close>

definition grant :: "chan \<Rightarrow> int" where
  "grant ch = recvWindowLocked ch + recvCreditDebt ch"

definition outstanding :: "chan \<Rightarrow> int" where
  "outstanding ch = grant ch - recvBuffered ch - recvCreditPending ch"

definition chan_inv :: "chan \<Rightarrow> bool" where
  "chan_inv ch \<longleftrightarrow>
     0 \<le> recvWindowIndex ch \<and> recvWindowIndex ch \<le> flowControlMaxWindowIndex \<and>
     recvBuffered ch = int (length (concat (recvQueue ch))) \<and> [] \<notin> set (recvQueue ch) \<and>
     recvBuffered ch \<le> FlowControlMaxWindowSize \<and>
     0 \<le> recvCreditPending ch \<and> recvCreditPending ch \<le> FlowControlMaxWindowSize div 4 \<and>
     0 \<le> recvCreditDebt ch \<and> 4 * recvCreditPending ch \<le> recvWindowLocked ch + recvCreditDebt ch \<and>
     recvWindowLocked ch div 16 \<le> recvUpdateTarget ch \<and> recvUpdateTarget ch \<le> recvWindowLocked ch div 4 \<and>
     0 \<le> sendCredit ch \<and> sendCredit ch \<le> FlowControlMaxWindowSize \<and>
     (closedFlag ch \<longrightarrow> recvQueue ch = [])"

text \<open>The budget charges the channel exactly what it may buffer.\<close>

definition charged :: "budget_ptr \<Rightarrow> mux_ptr \<Rightarrow> chan \<Rightarrow> bool" where
  "charged bp mc ch \<longleftrightarrow>
     (case bp of None \<Rightarrow> True
      | Some b \<Rightarrow> budget_inv b \<and> (\<exists>m. mc = Some m \<and>
          ChannelAllocation bp mc (ch_ID ch) = Some (recvAllowedWindowLocked ch)))"

lemma allowed_grant: "recvAllowedWindowLocked ch = min FlowControlMaxWindowSize (grant ch)"
  by (auto simp: recvAllowedWindowLocked_def grant_def Let_def)

lemma window_locked [simp]: "0 < recvWindowLocked ch"
  "FlowControlMinWindowSize \<le> recvWindowLocked ch" "recvWindowLocked ch \<le> FlowControlMaxWindowSize"
  by (simp_all add: recvWindowLocked_def window_bounds)

lemma locked_threshold:
  "recvWindowLocked ch div 16 \<le> randomFlowControlUpdateThreshold e (recvWindowLocked ch)"
  "randomFlowControlUpdateThreshold e (recvWindowLocked ch) \<le> recvWindowLocked ch div 4"
  by (rule threshold_bounds; simp)+

lemma countPayload_keeps [simp]:
  "ch_ID (countPayload ch n) = ch_ID ch" "recvQueue (countPayload ch n) = recvQueue ch"
  "recvBuffered (countPayload ch n) = recvBuffered ch"
  "recvCreditPending (countPayload ch n) = recvCreditPending ch"
  "recvUpdateTarget (countPayload ch n) = recvUpdateTarget ch"
  "recvWindowIndex (countPayload ch n) = recvWindowIndex ch"
  "recvCreditDebt (countPayload ch n) = recvCreditDebt ch"
  "remoteWriteClosed (countPayload ch n) = remoteWriteClosed ch"
  "sendCredit (countPayload ch n) = sendCredit ch" "closedFlag (countPayload ch n) = closedFlag ch"
  "localFIN (countPayload ch n) = localFIN ch"
  by (simp_all add: countPayload_def Let_def)

lemma adjust_cases:
  assumes "adjustReceiveWindowLocked bp mc ch n e = (bp', ch', x)"
  obtains
    (keep) "bp' = bp" "ch' = countPayload ch n" "x = 0"
  | (denied) "bp \<noteq> None" "recvWindowIndex ch < flowControlMaxWindowIndex"
      "TryResizeChannel bp mc (ch_ID ch)
        (min FlowControlMaxWindowSize (flowControlWindowForIndex (recvWindowIndex ch + 1) + recvCreditDebt ch))
        = (bp', False)"
      "ch' = resetReceiveWindowCountersLocked (countPayload ch n)" "x = 0"
  | (grow) "recvWindowIndex ch < flowControlMaxWindowIndex"
      "(if bp \<noteq> None then TryResizeChannel bp mc (ch_ID ch)
        (min FlowControlMaxWindowSize (flowControlWindowForIndex (recvWindowIndex ch + 1) + recvCreditDebt ch))
        else (bp, True)) = (bp', True)"
      "ch' = (resetReceiveWindowCountersLocked ((countPayload ch n)\<lparr>recvWindowIndex := recvWindowIndex ch + 1\<rparr>))
        \<lparr>recvUpdateTarget := randomFlowControlUpdateThreshold e (flowControlWindowForIndex (recvWindowIndex ch + 1))\<rparr>"
      "x = flowControlWindowForIndex (recvWindowIndex ch + 1) - flowControlWindowForIndex (recvWindowIndex ch)"
  | (shrink) "bp' = bp" "0 < recvWindowIndex ch"
      "recvBuffered ch \<le> flowControlWindowForIndex (recvWindowIndex ch - 1)"
      "ch' = (resetReceiveWindowCountersLocked ((countPayload ch n)\<lparr>recvWindowIndex := recvWindowIndex ch - 1,
          recvCreditDebt := recvCreditDebt ch + (flowControlWindowForIndex (recvWindowIndex ch)
            - flowControlWindowForIndex (recvWindowIndex ch - 1))\<rparr>))
        \<lparr>recvUpdateTarget := randomFlowControlUpdateThreshold e (flowControlWindowForIndex (recvWindowIndex ch - 1))\<rparr>"
      "x = 0"
proof -
  have mn: "(if FlowControlMaxWindowSize < y then FlowControlMaxWindowSize else y) = min FlowControlMaxWindowSize y" for y
    by (simp add: min_def)
  let ?alloc = "min FlowControlMaxWindowSize (flowControlWindowForIndex (recvWindowIndex ch + 1) + recvCreditDebt ch)"
  obtain bp1 ok where r: "(if bp \<noteq> None then TryResizeChannel bp mc (ch_ID ch) ?alloc else (bp, True)) = (bp1, ok)"
    by (metis surj_pair)
  note eq = assms [unfolded adjustReceiveWindowLocked_def Let_def countPayload_keeps mn r prod.case]
  show ?thesis
  proof (cases "(flowControlGrowHits \<le> recvHighCount (countPayload ch n) \<or>
      flowControlGrowHits \<le> recvThroughputCount (countPayload ch n)) \<and> recvWindowIndex ch < flowControlMaxWindowIndex")
    case True
    show ?thesis
    proof (cases ok)
      case ok: True
      then show ?thesis using True eq r by (intro grow) (auto simp: recvWindowLocked_def)
    next
      case no: False
      then have "bp \<noteq> None" using r by (auto split: if_splits)
      with no show ?thesis using True eq r by (intro denied) auto
    qed
  next
    case False
    then show ?thesis using eq
      by (auto simp: recvWindowLocked_def split: if_splits intro: keep shrink)
  qed
qed

lemma chan_update_simps [simp]:
  "recvWindowLocked (resetReceiveWindowCountersLocked ch) = recvWindowLocked ch"
  "recvWindowLocked (ch\<lparr>recvUpdateTarget := t\<rparr>) = recvWindowLocked ch"
  "recvWindowLocked (ch\<lparr>recvQueue := q\<rparr>) = recvWindowLocked ch"
  "recvWindowLocked (ch\<lparr>recvBuffered := n\<rparr>) = recvWindowLocked ch"
  "recvWindowLocked (ch\<lparr>recvCreditPending := n\<rparr>) = recvWindowLocked ch"
  "recvWindowLocked (ch\<lparr>recvCreditDebt := n\<rparr>) = recvWindowLocked ch"
  "recvWindowLocked (ch\<lparr>sendCredit := n\<rparr>) = recvWindowLocked ch"
  "recvWindowLocked (ch\<lparr>closedFlag := c\<rparr>) = recvWindowLocked ch"
  "recvWindowLocked (ch\<lparr>remoteWriteClosed := c\<rparr>) = recvWindowLocked ch"
  "recvWindowLocked (ch\<lparr>localFIN := c\<rparr>) = recvWindowLocked ch"
  "recvWindowLocked (countPayload ch n) = recvWindowLocked ch"
  "recvWindowLocked (ch\<lparr>recvWindowIndex := i\<rparr>) = flowControlWindowForIndex i"
  by (simp_all add: recvWindowLocked_def resetReceiveWindowCountersLocked_def)

lemma reset_keeps [simp]:
  "ch_ID (resetReceiveWindowCountersLocked ch) = ch_ID ch"
  "recvQueue (resetReceiveWindowCountersLocked ch) = recvQueue ch"
  "recvBuffered (resetReceiveWindowCountersLocked ch) = recvBuffered ch"
  "recvCreditPending (resetReceiveWindowCountersLocked ch) = recvCreditPending ch"
  "recvUpdateTarget (resetReceiveWindowCountersLocked ch) = recvUpdateTarget ch"
  "recvWindowIndex (resetReceiveWindowCountersLocked ch) = recvWindowIndex ch"
  "recvCreditDebt (resetReceiveWindowCountersLocked ch) = recvCreditDebt ch"
  "remoteWriteClosed (resetReceiveWindowCountersLocked ch) = remoteWriteClosed ch"
  "sendCredit (resetReceiveWindowCountersLocked ch) = sendCredit ch"
  "closedFlag (resetReceiveWindowCountersLocked ch) = closedFlag ch"
  "localFIN (resetReceiveWindowCountersLocked ch) = localFIN ch"
  by (simp_all add: resetReceiveWindowCountersLocked_def)

lemma adjust_effect:
  assumes inv: "chan_inv ch" and adj: "adjustReceiveWindowLocked bp mc ch n e = (bp', ch', x)"
  shows "chan_inv ch'" and "0 \<le> x" and "x \<le> FlowControlMaxWindowSize" and "grant ch' = grant ch + x"
    and "ch_ID ch' = ch_ID ch" and "recvQueue ch' = recvQueue ch" and "recvBuffered ch' = recvBuffered ch"
    and "recvCreditPending ch' = recvCreditPending ch" and "remoteWriteClosed ch' = remoteWriteClosed ch"
    and "sendCredit ch' = sendCredit ch" and "closedFlag ch' = closedFlag ch" and "localFIN ch' = localFIN ch"
proof -
  have i: "0 \<le> recvWindowIndex ch" "recvWindowIndex ch \<le> 11"
    using inv by (simp_all add: chan_inv_def flow_index_defs)
  note thr = threshold_bounds [OF window_bounds]
  have *: "chan_inv ch' \<and> 0 \<le> x \<and> x \<le> FlowControlMaxWindowSize \<and> grant ch' = grant ch + x"
    using adj
  proof (cases rule: adjust_cases)
    case keep
    then show ?thesis using inv by (simp add: chan_inv_def grant_def flow_window_defs)
  next
    case denied
    then show ?thesis using inv by (simp add: chan_inv_def grant_def flow_window_defs)
  next
    case grow
    let ?w = "flowControlWindowForIndex (recvWindowIndex ch + 1)"
    have x: "x = flowControlWindowForIndex (recvWindowIndex ch)"
      using grow i window_next [of "recvWindowIndex ch"] by (simp add: flow_index_defs)
    have "4 * recvCreditPending ch \<le> flowControlWindowForIndex (recvWindowIndex ch) + recvCreditDebt ch"
      using inv by (simp add: chan_inv_def recvWindowLocked_def)
    then have p: "4 * recvCreditPending ch \<le> ?w + recvCreditDebt ch"
      using window_next [of "recvWindowIndex ch"] i grow(1) window_pos [of "recvWindowIndex ch"]
      unfolding flow_index_defs by linarith
    have t: "?w div 16 \<le> randomFlowControlUpdateThreshold e ?w" "randomFlowControlUpdateThreshold e ?w \<le> ?w div 4"
      by (rule thr)+
    have "0 \<le> x" "x \<le> FlowControlMaxWindowSize"
      unfolding x using window_bounds(2) less_imp_le [OF window_pos] by blast+
    with grow inv p t show ?thesis
      by (simp add: chan_inv_def grant_def recvWindowLocked_def flow_index_defs)
  next
    case shrink
    have "flowControlWindowForIndex (recvWindowIndex ch - 1) \<le> flowControlWindowForIndex (recvWindowIndex ch)"
      using window_prev [of "recvWindowIndex ch"] window_pos [of "recvWindowIndex ch - 1"] i shrink(2) by linarith
    with shrink inv thr show ?thesis
      by (simp add: chan_inv_def grant_def recvWindowLocked_def flow_index_defs flow_window_defs)
  qed
  then show "chan_inv ch'" and "0 \<le> x" and "x \<le> FlowControlMaxWindowSize" and "grant ch' = grant ch + x"
    by auto
  show "ch_ID ch' = ch_ID ch" "recvQueue ch' = recvQueue ch" "recvBuffered ch' = recvBuffered ch"
    "recvCreditPending ch' = recvCreditPending ch" "remoteWriteClosed ch' = remoteWriteClosed ch"
    "sendCredit ch' = sendCredit ch" "closedFlag ch' = closedFlag ch" "localFIN ch' = localFIN ch"
    using adj by (cases rule: adjust_cases; simp)+
qed

text \<open>The channel keeps its charge through the budget contract \<open>wb\<close>.\<close>

lemma charged_resize:
  assumes "charged bp mc ch" and "bp \<noteq> None" and "0 \<le> n"
    and "TryResizeChannel bp mc (ch_ID ch) n = (bp', ok)"
    and "ok \<Longrightarrow> recvAllowedWindowLocked ch' = n"
    and "\<not> ok \<Longrightarrow> recvAllowedWindowLocked ch' = recvAllowedWindowLocked ch" and "ch_ID ch' = ch_ID ch"
  shows "charged bp' mc ch'"
    and "m' \<noteq> mc \<or> j \<noteq> ch_ID ch \<Longrightarrow> ChannelAllocation bp' m' j = ChannelAllocation bp m' j"
proof -
  obtain b m where b: "bp = Some b" "budget_inv b" "mc = Some m"
    "ChannelAllocation (Some b) (Some m) (ch_ID ch) = Some (recvAllowedWindowLocked ch)"
    using assms(1,2) by (auto simp: charged_def)
  obtain b' where b': "bp' = Some b'"
    using assms(4) b by (auto simp: TryResizeChannel_def Let_def split: option.splits if_splits)
  note r = wb.resize_tracks [OF b(2,4) assms(3), of "the m'" j]
  show "charged bp' mc ch'"
    using r b b' assms(4-7) by (cases ok) (auto simp: charged_def)
  show "m' \<noteq> mc \<or> j \<noteq> ch_ID ch \<Longrightarrow> ChannelAllocation bp' m' j = ChannelAllocation bp m' j"
    using r b b' assms(4) by (cases m') (auto simp: ChannelAllocation_def)
qed

lemma charged_cong:
  "charged bp mc ch \<Longrightarrow> grant ch' = grant ch \<Longrightarrow> ch_ID ch' = ch_ID ch \<Longrightarrow> charged bp mc ch'"
  by (auto simp: charged_def allowed_grant split: option.splits)

lemma adjust_charged:
  assumes inv: "chan_inv ch" and ch: "charged bp mc ch"
    and adj: "adjustReceiveWindowLocked bp mc ch n e = (bp', ch', x)"
  shows "charged bp' mc ch'"
    and "m' \<noteq> mc \<or> j \<noteq> ch_ID ch \<Longrightarrow> ChannelAllocation bp' m' j = ChannelAllocation bp m' j"
proof -
  let ?n = "min FlowControlMaxWindowSize (flowControlWindowForIndex (recvWindowIndex ch + 1) + recvCreditDebt ch)"
  have n: "0 \<le> ?n"
    using inv less_imp_le [OF window_pos, of "recvWindowIndex ch + 1"]
    by (auto simp: chan_inv_def flow_window_defs intro!: add_nonneg_nonneg)
  have "charged bp' mc ch' \<and> (m' \<noteq> mc \<or> j \<noteq> ch_ID ch \<longrightarrow> ChannelAllocation bp' m' j = ChannelAllocation bp m' j)"
    using adj
  proof (cases rule: adjust_cases)
    case keep
    then show ?thesis using charged_cong [OF ch, of ch'] by (simp add: grant_def)
  next
    case denied
    then show ?thesis using charged_resize [OF ch denied(1) n denied(3), of ch']
      by (simp add: allowed_grant grant_def)
  next
    case grow
    show ?thesis
    proof (cases "bp = None")
      case True
      then show ?thesis using grow ch by (simp add: charged_def)
    next
      case False
      with grow(2) have r: "TryResizeChannel bp mc (ch_ID ch) ?n = (bp', True)" by simp
      show ?thesis using grow charged_resize [OF ch False n r, of ch']
        by (simp add: allowed_grant grant_def)
    qed
  next
    case shrink
    then have "grant ch' = grant ch" by (simp add: grant_def recvWindowLocked_def)
    with shrink show ?thesis using charged_cong [OF ch, of ch'] by simp
  qed
  then show "charged bp' mc ch'"
    and "m' \<noteq> mc \<or> j \<noteq> ch_ID ch \<Longrightarrow> ChannelAllocation bp' m' j = ChannelAllocation bp m' j"
    by auto
qed

text \<open>
  Receiving a payload: accepted exactly when the channel is open in this direction and the
  payload fits the allowed window.
\<close>

definition accepts :: "chan \<Rightarrow> bytes \<Rightarrow> bool" where
  "accepts ch payload \<longleftrightarrow>
     \<not> closedFlag ch \<and> \<not> remoteWriteClosed ch \<and>
     recvBuffered ch + int (length payload) \<le> recvAllowedWindowLocked ch"

lemma buffered_nonneg: "chan_inv ch \<Longrightarrow> 0 \<le> recvBuffered ch"
  by (simp add: chan_inv_def)

lemma grant_update_simps [simp]:
  "grant (ch\<lparr>recvQueue := q\<rparr>) = grant ch" "grant (ch\<lparr>recvBuffered := n\<rparr>) = grant ch"
  "grant (ch\<lparr>recvCreditPending := n\<rparr>) = grant ch" "grant (ch\<lparr>recvUpdateTarget := n\<rparr>) = grant ch"
  "grant (ch\<lparr>sendCredit := n\<rparr>) = grant ch" "grant (ch\<lparr>closedFlag := c\<rparr>) = grant ch"
  "grant (ch\<lparr>remoteWriteClosed := c\<rparr>) = grant ch" "grant (ch\<lparr>localFIN := c\<rparr>) = grant ch"
  by (simp_all add: grant_def)

lemma enqueue_accepted:
  assumes inv: "chan_inv ch" and ch: "charged bp mc ch" and ne: "payload \<noteq> []" and ok: "accepts ch payload"
    and enq: "enqueuePayload bp mc ch payload e = (bp', ch', r)"
  shows "\<exists>x. r = Inr x \<and> 0 \<le> x \<and> x \<le> FlowControlMaxWindowSize \<and> chan_inv ch' \<and> charged bp' mc ch' \<and>
    recvQueue ch' = recvQueue ch @ [payload] \<and> grant ch' = grant ch + x \<and>
    outstanding ch' = outstanding ch - int (length payload) + x \<and>
    recvCreditPending ch' = recvCreditPending ch \<and> sendCredit ch' = sendCredit ch \<and> ch_ID ch' = ch_ID ch \<and>
    closedFlag ch' = closedFlag ch \<and> remoteWriteClosed ch' = remoteWriteClosed ch \<and> localFIN ch' = localFIN ch \<and>
    recvBuffered ch' \<le> recvAllowedWindowLocked ch'"
proof -
  let ?n = "int (length payload)"
  let ?c = "ch\<lparr>recvQueue := recvQueue ch @ [payload], recvBuffered := recvBuffered ch + ?n\<rparr>"
  obtain bp1 c1 x where adj: "adjustReceiveWindowLocked bp mc ?c ?n e = (bp1, c1, x)"
    using prod_cases3 by blast
  have fit: "recvBuffered ch + ?n \<le> recvAllowedWindowLocked ch" using ok by (simp add: accepts_def)
  moreover have "?n \<le> recvAllowedWindowLocked ch" using fit buffered_nonneg [OF inv] by linarith
  ultimately have res: "bp' = bp1" "ch' = c1" "r = Inr x"
    using enq ne ok adj by (auto simp: enqueuePayload_def accepts_def Let_def)
  have "recvBuffered ch + ?n \<le> FlowControlMaxWindowSize" using fit by (simp add: allowed_grant)
  then have ci: "chan_inv ?c" using inv ok ne by (simp add: chan_inv_def accepts_def)
  have cc: "charged bp mc ?c" by (rule charged_cong [OF ch]) simp_all
  note a = adjust_effect [OF ci adj]
  have "recvBuffered c1 \<le> recvAllowedWindowLocked c1"
    using a(2,4,7) fit by (simp add: allowed_grant)
  with a res adjust_charged(1) [OF ci cc adj] show ?thesis
    by (simp add: outstanding_def)
qed

lemma enqueue_rejected:
  assumes "payload \<noteq> []" and "\<not> accepts ch payload" and "0 \<le> recvBuffered ch"
  shows "\<exists>err. enqueuePayload bp mc ch payload e = (bp, ch, Inl err) \<and>
    err = (if closedFlag ch then ErrChannelClosed else if remoteWriteClosed ch then ErrChannelDataAfterFIN
           else ErrFlowControlWindowExceeded)"
  using assms by (auto simp: enqueuePayload_def accepts_def Let_def)

text \<open>Returning credit: what is not withheld is pending or announced.\<close>

lemma release_effect:
  assumes inv: "chan_inv ch" and ch: "charged bp mc ch" and n: "0 < n" and op: "\<not> closedFlag ch"
    and rel: "releaseReceiveCredit bp mc ch n e1 e2 = (bp', ch', credit)"
  shows "chan_inv ch' \<and> charged bp' mc ch' \<and> 0 \<le> credit \<and> credit \<le> recvCreditPending ch + n \<and>
    recvQueue ch' = recvQueue ch \<and> recvBuffered ch' = recvBuffered ch \<and> ch_ID ch' = ch_ID ch \<and>
    outstanding ch' = outstanding ch - n + credit \<and> grant ch' \<le> grant ch \<and>
    recvWindowIndex ch' = recvWindowIndex ch \<and>
    sendCredit ch' = sendCredit ch \<and> closedFlag ch' = closedFlag ch \<and>
    remoteWriteClosed ch' = remoteWriteClosed ch \<and> localFIN ch' = localFIN ch \<and>
    recvCreditPending ch' < recvUpdateTarget ch'"
proof -
  define c1 where "c1 = ch\<lparr>recvCreditPending := recvCreditPending ch + n\<rparr>"
  define h where "h = (if 0 < recvCreditDebt ch then min (recvCreditDebt ch) (recvCreditPending ch + n) else 0)"
  define c2 where "c2 = c1\<lparr>recvCreditPending := recvCreditPending ch + n - h, recvCreditDebt := recvCreditDebt ch - h\<rparr>"
  define bp2 where "bp2 = (if 0 < recvCreditDebt ch \<and> bp \<noteq> None
      then fst (TryResizeChannel bp mc (ch_ID ch) (recvAllowedWindowLocked c2)) else bp)"
  have p0: "0 \<le> recvCreditPending ch" "0 \<le> recvCreditDebt ch" using inv by (auto simp: chan_inv_def)
  have h: "0 \<le> h" "h \<le> recvCreditDebt ch" "h \<le> recvCreditPending ch + n"
    using p0 n by (auto simp: h_def)
  have w0: "recvWindowLocked ch div 16 \<ge> 4096"
    using window_locked(2) [of ch] by (simp add: flow_window_defs)
  then have t0: "0 < recvUpdateTarget ch" using inv by (auto simp: chan_inv_def)
  have c2i: "chan_inv (c2\<lparr>recvCreditPending := p\<rparr>)" if "0 \<le> p" "p \<le> FlowControlMaxWindowSize div 4" "4 * p \<le> recvWindowLocked ch" for p
    using inv h that by (simp add: chan_inv_def c2_def c1_def)
  have c2f: "recvUpdateTarget c2 = recvUpdateTarget ch" "recvWindowLocked c2 = recvWindowLocked ch"
    "ch_ID c2 = ch_ID ch" "recvCreditPending c2 = recvCreditPending ch + n - h"
    "grant c2 = grant ch - h"
    by (simp_all add: c2_def c1_def grant_def)
  have eq: "releaseReceiveCredit bp mc ch n e1 e2 =
     (if recvUpdateTarget c2 \<le> recvCreditPending c2
      then (bp2, c2\<lparr>recvCreditPending := 0,
          recvUpdateTarget := randomFlowControlUpdateThreshold e2 (recvWindowLocked c2)\<rparr>, recvCreditPending c2)
      else (bp2, c2, 0))"
  proof (cases "0 < recvCreditDebt ch")
    case True
    show ?thesis
    proof (cases "recvCreditDebt ch < recvCreditPending ch + n")
      case less: True
      then have "h = recvCreditDebt ch" using True by (simp add: h_def)
      then show ?thesis
        using less n op True t0 c2f(1)
        by (simp add: releaseReceiveCredit_def Let_def bp2_def c2_def c1_def)
    next
      case False
      then have "h = recvCreditPending ch + n" using True by (simp add: h_def)
      moreover have "0 < recvCreditPending ch + n" using p0 n by linarith
      ultimately show ?thesis
        using False n op True t0 c2f(1)
        by (simp add: releaseReceiveCredit_def Let_def bp2_def c2_def c1_def)
    qed
  next
    case False
    then have "c2 = c1" "bp2 = bp" by (simp_all add: c2_def c1_def h_def bp2_def)
    with False n op t0 c2f(1) show ?thesis
      by (simp add: releaseReceiveCredit_def Let_def c1_def)
  qed
  have ch2: "charged bp2 mc c2"
  proof (cases "0 < recvCreditDebt ch \<and> bp \<noteq> None")
    case True
    obtain ok where r: "TryResizeChannel bp mc (ch_ID ch) (recvAllowedWindowLocked c2) = (bp2, ok)"
      using True by (metis bp2_def prod.collapse)
    have le: "recvAllowedWindowLocked c2 \<le> recvAllowedWindowLocked ch"
      using h(1) c2f by (simp add: allowed_grant)
    have nn: "0 \<le> recvAllowedWindowLocked c2"
      using h(2) less_imp_le [OF window_locked(1), of ch]
      by (auto simp: allowed_grant c2_def c1_def grant_def flow_window_defs)
    obtain b m where b: "bp = Some b" "budget_inv b" "mc = Some m"
      "ChannelAllocation (Some b) (Some m) (ch_ID ch) = Some (recvAllowedWindowLocked ch)"
      using ch True by (auto simp: charged_def)
    have ok using wb.shrink_succeeds [OF b(2,4) nn le] r b by simp
    then show ?thesis
      using charged_resize(1) [OF ch _ nn r, of c2] True c2f by simp
  next
    case False
    then have "bp2 = bp" "bp = None \<or> h = 0" using p0 by (auto simp: bp2_def h_def)
    then show ?thesis using ch c2f charged_cong [OF ch, of c2] by (auto simp: charged_def)
  qed
  have out: "outstanding c2 = outstanding ch - n"
    by (simp add: outstanding_def c2_def c1_def grant_def)
  show ?thesis
  proof (cases "recvUpdateTarget c2 \<le> recvCreditPending c2")
    case True
    define c3 where "c3 = c2\<lparr>recvCreditPending := 0,
      recvUpdateTarget := randomFlowControlUpdateThreshold e2 (recvWindowLocked c2)\<rparr>"
    have res: "bp' = bp2" "ch' = c3" "credit = recvCreditPending c2"
      using rel eq True by (simp_all add: c3_def)
    note thr = locked_threshold [where ch = c2 and e = e2]
    have "chan_inv c3" using c2i [of 0] thr less_imp_le [OF window_locked(1), of ch]
      by (simp add: chan_inv_def c3_def flow_window_defs)
    moreover have "0 < recvUpdateTarget c3" using thr(1) w0 c2f by (simp add: c3_def)
    moreover have "charged bp2 mc c3" by (rule charged_cong [OF ch2]) (simp_all add: c3_def)
    ultimately show ?thesis
      using res h out c2f n p0 by (simp add: c3_def outstanding_def c2_def c1_def grant_def)
  next
    case False
    then have res: "bp' = bp2" "ch' = c2" "credit = 0" using rel eq by simp_all
    have "recvCreditPending c2 \<le> FlowControlMaxWindowSize div 4"
      using False c2f(1) inv window_locked(3) [of ch] by (auto simp: chan_inv_def flow_window_defs)
    moreover have "0 \<le> recvCreditPending c2" using c2f(4) h(3) by linarith
    moreover have "4 * recvCreditPending c2 \<le> recvWindowLocked ch"
      using False c2f(1) inv by (auto simp: chan_inv_def)
    moreover have "c2\<lparr>recvCreditPending := recvCreditPending c2\<rparr> = c2" by simp
    ultimately have "chan_inv c2" using c2i [of "recvCreditPending c2"] by metis
    then show ?thesis using res False ch2 out h c2f n p0 by (simp add: c2_def c1_def grant_def)
  qed
qed

lemma take_queued_effect:
  assumes inv: "chan_inv ch" and ch: "charged bp mc ch" and q: "recvQueue ch = data # rest"
    and tk: "take_queued bp mc ch e1 e2 = (bp', ch', r)"
  shows "\<exists>credit. r = ReadData data credit \<and> 0 \<le> credit \<and>
    credit \<le> FlowControlMaxWindowSize div 4 + FlowControlMaxWindowSize \<and> chan_inv ch' \<and> charged bp' mc ch' \<and>
    recvQueue ch' = rest \<and> outstanding ch' = outstanding ch + credit \<and> grant ch' \<le> grant ch \<and>
    ch_ID ch' = ch_ID ch \<and> sendCredit ch' = sendCredit ch \<and> closedFlag ch' = closedFlag ch \<and>
    remoteWriteClosed ch' = remoteWriteClosed ch \<and> localFIN ch' = localFIN ch \<and>
    recvWindowIndex ch' = recvWindowIndex ch"
proof -
  let ?n = "int (length data)"
  let ?c = "ch\<lparr>recvQueue := tl (recvQueue ch), recvBuffered := recvBuffered ch - ?n\<rparr>"
  obtain bp1 c1 x where rel: "releaseReceiveCredit bp mc ?c ?n e1 e2 = (bp1, c1, x)"
    using prod_cases3 by blast
  have op: "\<not> closedFlag ch" using inv q by (auto simp: chan_inv_def)
  have ci: "chan_inv ?c" using inv q by (simp add: chan_inv_def)
  have cc: "charged bp mc ?c" by (rule charged_cong [OF ch]) simp_all
  have "0 < ?n" using inv q by (auto simp: chan_inv_def)
  note eff = release_effect [OF ci cc this _ rel]
  have "bp' = bp1" "ch' = c1" "r = ReadData data x"
    using tk q rel by (simp_all add: take_queued_def Let_def)
  moreover have "?n \<le> FlowControlMaxWindowSize" "recvCreditPending ch \<le> FlowControlMaxWindowSize div 4"
    using inv q by (auto simp: chan_inv_def)
  ultimately show ?thesis using eff op q by (auto simp: outstanding_def)
qed

text \<open>The three reads agree wherever none of them gives up.\<close>

lemma reads_take_queued:
  assumes "recvQueue ch \<noteq> []"
  shows "Channel_Read bp mc ch e1 e2 = take_queued bp mc ch e1 e2"
    and "ReadWithTimeout bp mc ch timeout to e1 e2 = take_queued bp mc ch e1 e2"
    and "readWithDeadline bp mc ch dl now e1 e2 = take_queued bp mc ch e1 e2"
  using assms by (simp_all add: Channel_Read_def ReadWithTimeout_def readWithDeadline_def)

section \<open>Sending\<close>

lemma addSendCredit_keeps [simp]:
  "ch_ID (addSendCredit ch c) = ch_ID ch" "recvQueue (addSendCredit ch c) = recvQueue ch"
  "recvBuffered (addSendCredit ch c) = recvBuffered ch" "grant (addSendCredit ch c) = grant ch"
  "recvCreditPending (addSendCredit ch c) = recvCreditPending ch"
  "closedFlag (addSendCredit ch c) = closedFlag ch" "localFIN (addSendCredit ch c) = localFIN ch"
  "remoteWriteClosed (addSendCredit ch c) = remoteWriteClosed ch"
  "outstanding (addSendCredit ch c) = outstanding ch"
  by (simp_all add: addSendCredit_def Let_def outstanding_def)

lemma addSendCredit_inv:
  assumes "chan_inv ch"
  shows "chan_inv (addSendCredit ch c)"
  using assms by (auto simp: addSendCredit_def Let_def chan_inv_def)

lemma addSendCredit_bounds:
  assumes "chan_inv ch"
  shows "sendCredit ch \<le> sendCredit (addSendCredit ch c)"
    and "sendCredit (addSendCredit ch c) \<le> sendCredit ch + max 0 c"
    and "\<not> closedFlag ch \<Longrightarrow> 0 < c \<Longrightarrow> 0 < sendCredit (addSendCredit ch c)"
  using assms by (auto simp: addSendCredit_def Let_def chan_inv_def flow_window_defs)

lemma reserve_cases:
  assumes "chan_inv ch" and "0 < n"
  shows "case reserveSendCreditWithDeadline ch mcl n dl now of
      (ch', Reserved k) \<Rightarrow> 0 < k \<and> k \<le> n \<and> k = min n (sendCredit ch) \<and>
        ch' = ch\<lparr>sendCredit := sendCredit ch - k\<rparr> \<and> chan_inv ch'
    | (ch', _) \<Rightarrow> ch' = ch"
proof -
  have inv: "0 \<le> k \<Longrightarrow> k \<le> sendCredit ch \<Longrightarrow> chan_inv (ch\<lparr>sendCredit := sendCredit ch - k\<rparr>)" for k
    using assms(1) by (simp add: chan_inv_def)
  consider (wait) "sendCredit ch \<le> 0 \<and> \<not> closedFlag ch \<and> \<not> mcl"
    | (closed) "closedFlag ch \<or> mcl" | (go) "0 < sendCredit ch" "\<not> closedFlag ch" "\<not> mcl"
    by linarith
  then show ?thesis
  proof cases
    case wait
    with assms(2) show ?thesis
      by (simp add: reserveSendCreditWithDeadline_def split: option.split)
  next
    case closed
    have "reserveSendCreditWithDeadline ch mcl n dl now = (ch, ReserveErr ErrChannelClosed)"
      using assms(2) closed by (cases "closedFlag ch"; cases mcl) (simp_all add: reserveSendCreditWithDeadline_def)
    then show ?thesis by simp
  next
    case go
    with assms(2) inv show ?thesis by (simp add: reserveSendCreditWithDeadline_def Let_def min_def)
  qed
qed

lemma foldl_credit_inv: "chan_inv ch \<Longrightarrow> chan_inv (foldl addSendCredit ch cs)"
  by (induction cs arbitrary: ch) (auto simp: addSendCredit_inv)

lemma foldl_credit_bound:
  "chan_inv ch \<Longrightarrow> sendCredit (foldl addSendCredit ch cs) \<le> sendCredit ch + sum_list (map (max 0) cs)"
proof (induction cs arbitrary: ch)
  case (Cons c cs)
  then show ?case
    using Cons.IH [OF addSendCredit_inv [OF Cons.prems, of c]] addSendCredit_bounds(2) [OF Cons.prems, of c]
    by simp
qed simp

lemma foldl_credit_mono:
  "chan_inv ch \<Longrightarrow> sendCredit ch \<le> sendCredit (foldl addSendCredit ch cs)"
proof (induction cs arbitrary: ch)
  case (Cons c cs)
  then show ?case
    using Cons.IH [OF addSendCredit_inv [OF Cons.prems, of c]] addSendCredit_bounds(1) [OF Cons.prems, of c]
    by simp
qed simp

lemma foldl_credit_closed [simp]: "closedFlag (foldl addSendCredit ch cs) = closedFlag ch"
  by (induction cs arbitrary: ch) auto

lemma wr_env_inv: "chan_inv ch \<Longrightarrow> chan_inv (wr_env r ch)"
  using foldl_credit_inv [of ch "wr_credits r"] by (auto simp: wr_env_def Let_def chan_inv_def)

lemma wr_env_credit:
  "chan_inv ch \<Longrightarrow> sendCredit (wr_env r ch) \<le> sendCredit ch + sum_list (map (max 0) (wr_credits r))"
  using foldl_credit_bound [of ch "wr_credits r"] by (simp add: wr_env_def Let_def)

text \<open>
  One round: what has been sent stays the prefix up to the offset, cut into packets that
  fit, and the bytes sent are paid for by the credit that was there or came in.
\<close>

definition packets_ok :: "bytes list \<Rightarrow> bool" where
  "packets_ok ps \<longleftrightarrow> list_all (\<lambda>p. p \<noteq> [] \<and> length p \<le> MaxPacketPayloadSize) ps"

lemma write_step_effect:
  assumes inv: "chan_inv ch" and off: "offset < length data"
    and st: "write_step data r (ch, offset) = ((ch', offset'), pkts, res)"
  shows "chan_inv ch' \<and> packets_ok pkts \<and> offset \<le> offset' \<and> offset' \<le> length data \<and>
    take offset data @ concat pkts = take offset' data \<and>
    int offset' + sendCredit ch' \<le> int offset + sendCredit ch + sum_list (map (max 0) (wr_credits r)) \<and>
    (\<forall>x. res = Some x \<longrightarrow> w_offset x = offset' \<and> offset' = offset)"
proof -
  let ?c = "wr_env r ch"
  let ?m = "min (length data - offset) MaxPacketPayloadSize"
  have ci: "chan_inv ?c" using inv by (rule wr_env_inv)
  have cb: "sendCredit ?c \<le> sendCredit ch + sum_list (map (max 0) (wr_credits r))"
    using inv by (rule wr_env_credit)
  have m: "0 < int ?m" "?m \<le> length data - offset" "?m \<le> MaxPacketPayloadSize"
    using off by (auto simp: MaxPacketPayloadSize_value)
  obtain c1 oc where rs: "reserveSendCreditWithDeadline ?c (wr_muxClosed r) (int ?m) (wr_deadline r) (wr_now r) = (c1, oc)"
    by fastforce
  note rc = reserve_cases [OF ci m(1), of "wr_muxClosed r" "wr_deadline r" "wr_now r", unfolded rs prod.case]
  show ?thesis
  proof (cases "deadlineExceeded (wr_deadline r) (wr_now r)")
    case True
    then show ?thesis using st ci cb off by (auto simp: write_step_def Let_def packets_ok_def)
  next
    case False
    note step = st [unfolded write_step_def prod.case Let_def rs] 
    show ?thesis
    proof (cases oc)
      case (Reserved k)
      with rc have k: "0 < k" "k \<le> int ?m" "c1 = ?c\<lparr>sendCredit := sendCredit ?c - k\<rparr>" "chan_inv c1"
        unfolding Reserved reserve_outcome.case by blast+
      have len: "nat k \<le> length data - offset" "nat k \<le> MaxPacketPayloadSize" using k m by linarith+
      show ?thesis
      proof (cases "wr_sendErr r")
        case True
        have "sendCredit (addSendCredit c1 k) \<le> sendCredit c1 + k"
          using addSendCredit_bounds(2) [OF k(4), of k] k(1) by simp
        then show ?thesis
          using False True step Reserved k cb off addSendCredit_inv [OF k(4)] by (auto simp: packets_ok_def)
      next
        case no: False
        have "take offset data @ take (nat k) (drop offset data) = take (offset + nat k) data"
          by (simp add: take_add)
        moreover have "take (nat k) (drop offset data) \<noteq> []" using k(1) off by simp
        ultimately show ?thesis
          using False no step Reserved k cb off len by (auto simp: packets_ok_def)
      qed
    qed (use False step rc ci cb off in \<open>auto simp: packets_ok_def\<close>)
  qed
qed

lemma write_loop_effect:
  assumes "chan_inv ch" and "offset \<le> length data" and "packets_ok sent"
    and "concat sent = take offset data"
    and "write_loop data rs (ch, offset) sent = (ch', sent', res)"
  shows "chan_inv ch' \<and> packets_ok sent' \<and>
    (\<exists>k. offset \<le> k \<and> k \<le> length data \<and> concat sent' = take k data \<and>
      int k + sendCredit ch' \<le> int offset + sendCredit ch + sum_list (map (max 0) (concat (map wr_credits rs))) \<and>
      (\<forall>x. res = Some x \<longrightarrow> w_offset x = k))"
  using assms
proof (induction rs arbitrary: ch offset sent)
  case Nil
  then show ?case by (auto simp: write_loop.simps split: if_splits)
next
  case (Cons r rs)
  show ?case
  proof (cases "length data \<le> offset")
    case True
    have "0 \<le> sum_list (map (max (0::int)) (concat (map wr_credits (r # rs))))"
      by (rule sum_list_nonneg) auto
    with True Cons.prems show ?thesis by (auto simp: write_loop.simps [of data "r # rs"] intro!: exI [of _ offset])
  next
    case False
    obtain c1 o1 pk rv where st: "write_step data r (ch, offset) = ((c1, o1), pk, rv)" by (metis surj_pair)
    from False have "offset < length data" by simp
    note eff = write_step_effect [OF Cons.prems(1) this st]
    have ok: "packets_ok (sent @ pk)" "concat (sent @ pk) = take o1 data"
      using eff Cons.prems(3,4) by (auto simp: packets_ok_def)
    have nn: "0 \<le> sum_list (map (max (0::int)) (concat (map wr_credits rs)))"
      by (rule sum_list_nonneg) auto
    show ?thesis
    proof (cases rv)
      case (Some x)
      with Cons.prems(5) st False have "ch' = c1" "sent' = sent @ pk" "res = Some x"
        by (simp_all add: write_loop.simps [of data "r # rs"])
      with eff ok nn Some show ?thesis by (auto intro!: exI [of _ o1])
    next
      case None
      with Cons.prems(5) st False have rec: "write_loop data rs (c1, o1) (sent @ pk) = (ch', sent', res)"
        by (simp add: write_loop.simps [of data "r # rs"])
      have "chan_inv c1" "o1 \<le> length data" using eff by auto
      from Cons.IH [OF this ok rec] obtain k where k: "chan_inv ch'" "packets_ok sent'" "o1 \<le> k"
        "k \<le> length data" "concat sent' = take k data"
        "int k + sendCredit ch' \<le> int o1 + sendCredit c1 + sum_list (map (max 0) (concat (map wr_credits rs)))"
        "\<forall>x. res = Some x \<longrightarrow> w_offset x = k" by blast
      with eff show ?thesis by (auto intro!: exI [of _ k])
    qed
  qed
qed

text \<open>
  A live round: nothing failed or was closed, the deadline is not past, and credit came in.
\<close>

definition wr_live :: "write_round \<Rightarrow> bool" where
  "wr_live r \<longleftrightarrow> \<not> wr_closed r \<and> \<not> wr_muxClosed r \<and> \<not> wr_sendErr r \<and>
     \<not> deadlineExceeded (wr_deadline r) (wr_now r) \<and> list_ex (\<lambda>c. 0 < c) (wr_credits r)"

lemma foldl_credit_pos:
  assumes "chan_inv ch" and "\<not> closedFlag ch" and "list_ex (\<lambda>c. 0 < c) cs"
  shows "0 < sendCredit (foldl addSendCredit ch cs)"
  using assms
proof (induction cs arbitrary: ch)
  case (Cons c cs)
  note inv = addSendCredit_inv [OF Cons.prems(1), of c]
  show ?case
  proof (cases "0 < c")
    case True
    then show ?thesis
      using foldl_credit_mono [OF inv, of cs] addSendCredit_bounds(3) [OF Cons.prems(1,2) True] by simp
  next
    case False
    then show ?thesis using Cons inv by simp
  qed
qed simp

lemma write_step_live:
  assumes inv: "chan_inv ch" and op: "\<not> closedFlag ch" and off: "offset < length data" and live: "wr_live r"
  shows "\<exists>ch' o' pkts. write_step data r (ch, offset) = ((ch', o'), pkts, None) \<and> offset < o' \<and> \<not> closedFlag ch'"
proof -
  let ?c = "foldl addSendCredit ch (wr_credits r)"
  have env: "wr_env r ch = ?c" using live by (simp add: wr_env_def wr_live_def)
  have pos: "0 < sendCredit ?c"
    using foldl_credit_pos [OF inv op] live by (simp add: wr_live_def)
  let ?m = "int (min (length data - offset) MaxPacketPayloadSize)"
  have m: "0 < ?m" using off by (auto simp: MaxPacketPayloadSize_value)
  define k where "k = (if sendCredit ?c < ?m then sendCredit ?c else ?m)"
  have k: "0 < k" using pos m by (simp add: k_def)
  have "reserveSendCreditWithDeadline ?c (wr_muxClosed r) ?m (wr_deadline r) (wr_now r) =
      (?c\<lparr>sendCredit := sendCredit ?c - k\<rparr>, Reserved k)"
    using m pos live op
    by (simp only: reserveSendCreditWithDeadline_def k_def Let_def wr_live_def not_le [symmetric]
        foldl_credit_closed if_False simp_thms)
  then show ?thesis
    using live k op by (simp add: write_step_def env Let_def wr_live_def)
qed

lemma write_loop_live:
  assumes "chan_inv ch" and "\<not> closedFlag ch" and "offset \<le> length data"
    and "list_all wr_live rs" and "length data - offset \<le> length rs"
  shows "\<exists>ch' sent'. write_loop data rs (ch, offset) sent =
    (ch', sent', Some \<lparr>w_offset = length data, w_timedOut = False, w_err = None\<rparr>)"
  using assms
proof (induction rs arbitrary: ch offset sent)
  case Nil
  then show ?case by (simp add: write_loop.simps)
next
  case (Cons r rs)
  show ?case
  proof (cases "length data \<le> offset")
    case True
    with Cons.prems(3) show ?thesis by (simp add: write_loop.simps [of data "r # rs"])
  next
    case False
    then have off: "offset < length data" by simp
    have live: "wr_live r" using Cons.prems(4) by simp
    obtain c1 o1 pk where st: "write_step data r (ch, offset) = ((c1, o1), pk, None)"
      "offset < o1" "\<not> closedFlag c1"
      using write_step_live [OF Cons.prems(1,2) off live] by blast
    have inv1: "chan_inv c1" and le1: "o1 \<le> length data"
      using write_step_effect [OF Cons.prems(1) off st(1)] by auto
    from Cons.IH [OF inv1 st(3) le1, of "sent @ pk"] Cons.prems(4,5) st(1,2) off show ?thesis
      by (simp add: write_loop.simps [of data "r # rs"])
  qed
qed

section \<open>Life of a channel\<close>

lemma newChannel_inv:
  assumes "newChannel bp mc i e = (bp', ch)"
  shows "chan_inv ch" "ch_ID ch = i" "\<not> closedFlag ch" "recvQueue ch = []"
    "grant ch = FlowControlInitialWindowSize" "outstanding ch = FlowControlInitialWindowSize"
    "sendCredit ch = FlowControlInitialWindowSize" "\<not> remoteWriteClosed ch" "\<not> localFIN ch"
proof -
  have ch: "ch = snd (newChannel bp mc i e)" using assms by simp
  have w: "recvWindowLocked ch = FlowControlInitialWindowSize"
    by (simp add: ch newChannel_def Let_def recvWindowLocked_def window_initial)
  note thr = locked_threshold [where ch = ch and e = e, unfolded w]
  show "chan_inv ch"
    using thr unfolding chan_inv_def w
    by (simp add: ch newChannel_def Let_def window_index flow_index_defs flow_window_defs)
  show "grant ch = FlowControlInitialWindowSize" "outstanding ch = FlowControlInitialWindowSize"
    unfolding outstanding_def grant_def w by (simp_all add: ch newChannel_def Let_def)
qed (use assms in \<open>auto simp: newChannel_def Let_def\<close>)

lemma newChannel_charged:
  assumes "newChannel bp mc i e = (bp', ch)"
    and "\<And>b. bp = Some b \<Longrightarrow> budget_inv b \<and> (\<exists>m. mc = Some m \<and> ChannelAllocation bp mc i = None)"
  shows "charged bp' mc ch"
proof (cases bp)
  case None
  then show ?thesis using assms(1) by (auto simp: charged_def newChannel_def Let_def)
next
  case (Some b)
  then obtain m where m: "budget_inv b" "mc = Some m" "ChannelAllocation (Some b) (Some m) i = None"
    using assms(2) by auto
  have "bp' = RegisterChannel (Some b) (Some m) i" "recvAllowedWindowLocked ch = FlowControlInitialWindowSize"
    using assms(1) Some m(2) newChannel_inv(5) [OF assms(1)]
    by (auto simp: newChannel_def Let_def allowed_grant flow_window_defs)
  with register_effect [OF m(1), of m i] m newChannel_inv(2) [OF assms(1)] show ?thesis
    by (auto simp: charged_def)
qed

lemma markClosed_effect:
  assumes inv: "chan_inv ch" and op: "\<not> closedFlag ch" and mk: "markClosed bp mc ch = (bp', ch', r)"
  shows "chan_inv ch' \<and> r \<and> closedFlag ch' \<and> recvQueue ch' = [] \<and> ch_ID ch' = ch_ID ch \<and>
    (charged bp mc ch \<longrightarrow> ChannelAllocation bp' mc (ch_ID ch) = None \<and> (\<forall>b. bp' = Some b \<longrightarrow> budget_inv b))"
proof -
  have "ChannelAllocation bp' mc (ch_ID ch) = None \<and> (\<forall>b. bp' = Some b \<longrightarrow> budget_inv b)" if "charged bp mc ch"
  proof (cases bp)
    case None
    then show ?thesis using mk op by (auto simp: markClosed_def ChannelAllocation_def)
  next
    case (Some b)
    with that obtain m where m: "budget_inv b" "mc = Some m" by (auto simp: charged_def)
    from remove_effect [OF m(1), of m "ch_ID ch"] Some m(2) mk op show ?thesis
      by (auto simp: markClosed_def)
  qed
  with inv op mk show ?thesis by (auto simp: markClosed_def chan_inv_def)
qed

datatype chan_op =
  COpEnqueue bytes entropy | COpRead entropy entropy | COpReadTimeout duration bool entropy entropy
| COpReadDeadline "time option" time entropy entropy | COpCredit int
| COpReserve bool int "time option" time | COpFIN | COpSendFIN bool | COpClose

fun chan_do :: "mux_ptr \<Rightarrow> budget_ptr \<times> chan \<Rightarrow> chan_op \<Rightarrow> budget_ptr \<times> chan" where
  "chan_do mc (bp, ch) (COpEnqueue p e) =
     (case enqueuePayload bp mc ch p e of (bp', ch', _) \<Rightarrow> (bp', ch'))"
| "chan_do mc (bp, ch) (COpRead e1 e2) =
     (case Channel_Read bp mc ch e1 e2 of (bp', ch', _) \<Rightarrow> (bp', ch'))"
| "chan_do mc (bp, ch) (COpReadTimeout t to e1 e2) =
     (case ReadWithTimeout bp mc ch t to e1 e2 of (bp', ch', _) \<Rightarrow> (bp', ch'))"
| "chan_do mc (bp, ch) (COpReadDeadline dl now e1 e2) =
     (case readWithDeadline bp mc ch dl now e1 e2 of (bp', ch', _) \<Rightarrow> (bp', ch'))"
| "chan_do mc (bp, ch) (COpCredit c) = (bp, addSendCredit ch c)"
| "chan_do mc (bp, ch) (COpReserve mcl n dl now) =
     (bp, fst (reserveSendCreditWithDeadline ch mcl n dl now))"
| "chan_do mc (bp, ch) COpFIN = (bp, receiveFIN ch)"
| "chan_do mc (bp, ch) (COpSendFIN err) = (bp, fst (sendFIN ch err))"
| "chan_do mc (bp, ch) COpClose = (case markClosed bp mc ch of (bp', ch', _) \<Rightarrow> (bp', ch'))"

text \<open>
  The state of one channel between operations: open and charged, or closed, empty and
  released.
\<close>

definition chan_ok :: "mux_ptr \<Rightarrow> budget_ptr \<times> chan \<Rightarrow> bool" where
  "chan_ok mc = (\<lambda>(bp, ch). chan_inv ch \<and>
     (if closedFlag ch then ChannelAllocation bp mc (ch_ID ch) = None else charged bp mc ch))"

lemma reads_empty:
  assumes "recvQueue ch = []"
  shows "\<exists>r. Channel_Read bp mc ch e1 e2 = (bp, ch, r)"
    and "\<exists>r. ReadWithTimeout bp mc ch t to e1 e2 = (bp, ch, r)"
    and "\<exists>r. readWithDeadline bp mc ch dl now e1 e2 = (bp, ch, r)"
  using assms
  by (auto simp: Channel_Read_def ReadWithTimeout_def readWithDeadline_def split: option.split)

lemma read_ok:
  assumes ok: "chan_ok mc (bp, ch)"
    and rd: "(\<exists>r. R = (bp, ch, r)) \<or> (recvQueue ch \<noteq> [] \<and> R = take_queued bp mc ch e1 e2)"
  shows "chan_ok mc (case R of (bp', ch', _) \<Rightarrow> (bp', ch')) \<and>
    ch_ID (snd (case R of (bp', ch', _) \<Rightarrow> (bp', ch'))) = ch_ID ch"
  using rd
proof
  assume "\<exists>r. R = (bp, ch, r)"
  then show ?thesis using ok by auto
next
  assume r: "recvQueue ch \<noteq> [] \<and> R = take_queued bp mc ch e1 e2"
  then obtain d q where q: "recvQueue ch = d # q" by (cases "recvQueue ch") auto
  have op: "\<not> closedFlag ch" using ok q by (auto simp: chan_ok_def chan_inv_def)
  obtain b c x where R: "R = (b, c, x)" by (rule prod_cases3)
  then have tk: "take_queued bp mc ch e1 e2 = (b, c, x)" using r by simp
  have "chan_inv ch" "charged bp mc ch" using ok op by (auto simp: chan_ok_def)
  from take_queued_effect [OF this q tk] op show ?thesis
    unfolding R prod.case chan_ok_def by auto
qed

lemma chan_do_ok:
  assumes "chan_ok mc (bp, ch)"
  shows "chan_ok mc (chan_do mc (bp, ch) op) \<and> ch_ID (snd (chan_do mc (bp, ch) op)) = ch_ID ch"
proof -
  have inv: "chan_inv ch" using assms by (simp add: chan_ok_def)
  have same: "chan_ok mc (bp, ch') \<and> ch_ID ch' = ch_ID ch"
    if "chan_inv ch'" "ch_ID ch' = ch_ID ch" "closedFlag ch' = closedFlag ch" "grant ch' = grant ch" for ch'
    using that assms charged_cong [of bp mc ch ch'] by (auto simp: chan_ok_def)
  show ?thesis
  proof (cases op)
    case (COpEnqueue p e)
    obtain b c x where R: "enqueuePayload bp mc ch p e = (b, c, x)" by (rule prod_cases3)
    consider "p = []" | "p \<noteq> []" "\<not> accepts ch p" | "p \<noteq> []" "accepts ch p" by blast
    then show ?thesis
    proof cases
      case 1
      then show ?thesis using COpEnqueue assms by (simp add: enqueuePayload_def)
    next
      case 2
      then show ?thesis
        using COpEnqueue assms enqueue_rejected [OF 2 buffered_nonneg [OF inv], of bp mc e] by auto
    next
      case 3
      then have "\<not> closedFlag ch" "charged bp mc ch" using assms by (auto simp: chan_ok_def accepts_def)
      with enqueue_accepted [OF inv _ 3 R] show ?thesis
        using COpEnqueue R by (auto simp: chan_ok_def)
    qed
  next
    case (COpRead e1 e2)
    show ?thesis unfolding COpRead chan_do.simps
      by (rule read_ok [OF assms, where ?e1.0 = e1 and ?e2.0 = e2]) (metis reads_empty(1) reads_take_queued(1))
  next
    case (COpReadTimeout t to e1 e2)
    show ?thesis unfolding COpReadTimeout chan_do.simps
      by (rule read_ok [OF assms, where ?e1.0 = e1 and ?e2.0 = e2]) (metis reads_empty(2) reads_take_queued(2))
  next
    case (COpReadDeadline dl now e1 e2)
    show ?thesis unfolding COpReadDeadline chan_do.simps
      by (rule read_ok [OF assms, where ?e1.0 = e1 and ?e2.0 = e2]) (metis reads_empty(3) reads_take_queued(3))
  next
    case (COpCredit c)
    then show ?thesis using same [of "addSendCredit ch c"] addSendCredit_inv [OF inv] by simp
  next
    case (COpReserve mcl n dl now)
    have "chan_inv (fst (reserveSendCreditWithDeadline ch mcl n dl now)) \<and>
      (\<exists>k. fst (reserveSendCreditWithDeadline ch mcl n dl now) = ch\<lparr>sendCredit := k\<rparr>)"
    proof (cases "0 < n")
      case True
      have "\<exists>k. ch = ch\<lparr>sendCredit := k\<rparr>" by (rule exI [of _ "sendCredit ch"]) simp
      with reserve_cases [OF inv True, of mcl dl now] inv show ?thesis
        by (cases "reserveSendCreditWithDeadline ch mcl n dl now")
          (auto split: reserve_outcome.splits)
    next
      case False
      then show ?thesis using inv by (auto simp: reserveSendCreditWithDeadline_def intro: exI [of _ "sendCredit ch"])
    qed
    then show ?thesis using same COpReserve by auto
  next
    case COpFIN
    then show ?thesis using inv same [of "receiveFIN ch"] by (simp add: receiveFIN_def chan_inv_def)
  next
    case (COpSendFIN err)
    then show ?thesis using inv same [of "fst (sendFIN ch err)"] by (simp add: sendFIN_def chan_inv_def)
  next
    case COpClose
    obtain b c x where R: "markClosed bp mc ch = (b, c, x)" by (rule prod_cases3)
    show ?thesis
    proof (cases "closedFlag ch")
      case True
      then show ?thesis using COpClose assms by (simp add: markClosed_def)
    next
      case False
      with markClosed_effect [OF inv False R] assms show ?thesis
        using COpClose R by (auto simp: chan_ok_def)
    qed
  qed
qed

lemma chan_run_ok:
  "chan_ok mc s \<Longrightarrow> chan_ok mc (foldl (chan_do mc) s ops) \<and> ch_ID (snd (foldl (chan_do mc) s ops)) = ch_ID (snd s)"
proof (induction ops arbitrary: s)
  case (Cons op ops)
  obtain bp ch where s: "s = (bp, ch)" by (cases s)
  from chan_do_ok [of mc bp ch op] Cons.IH [of "chan_do mc s op"] Cons.prems s show ?case by simp
qed simp

section \<open>Properties\<close>

text \<open>
  C4. Whatever sequence of payloads, reads, window updates, reservations, half-closes and
  closes a new channel sees, its buffered bytes are those of its queue and never exceed the
  maximum window, its send credit stays between 0 and the maximum window, and the shared budget
  is charged exactly the window the channel may fill while it is open and nothing once closed.
\<close>

theorem channel_run_accounting:
  assumes "budget_inv b" and "ChannelAllocation (Some b) (Some m) i = None"
    and "foldl (chan_do (Some m)) (newChannel (Some b) (Some m) i e) ops = (bp, ch)"
  shows "recvBuffered ch = int (length (concat (recvQueue ch))) \<and>
    recvBuffered ch \<le> FlowControlMaxWindowSize \<and>
    0 \<le> sendCredit ch \<and> sendCredit ch \<le> FlowControlMaxWindowSize \<and>
    ChannelAllocation bp (Some m) i =
      (if closedFlag ch then None else Some (recvAllowedWindowLocked ch)) \<and>
    (closedFlag ch \<longrightarrow> recvQueue ch = [])"
proof -
  obtain bp0 ch0 where new: "newChannel (Some b) (Some m) i e = (bp0, ch0)" by fastforce
  have some: "bp0 \<noteq> None" using new register_effect [OF assms(1), of m i] by (auto simp: newChannel_def Let_def)
  have "charged bp0 (Some m) ch0" by (rule newChannel_charged [OF new]) (use assms in auto)
  then have "chan_ok (Some m) (bp0, ch0)" using newChannel_inv [OF new] by (simp add: chan_ok_def)
  from chan_run_ok [OF this, of ops] assms(3) new newChannel_inv(2) [OF new]
  have ok: "chan_ok (Some m) (bp, ch)" "ch_ID ch = i" by simp_all
  have step: "fst s \<noteq> None \<Longrightarrow> fst (chan_do (Some m) s op) \<noteq> None" for s op
  proof (cases op)
    case (COpEnqueue p e)
    then show "fst s \<noteq> None \<Longrightarrow> ?thesis"
      by (cases s) (auto simp: enqueuePayload_def Let_def adjustReceiveWindowLocked_def
          TryResizeChannel_def split: option.splits)
  qed (cases s; auto simp: Channel_Read_def ReadWithTimeout_def readWithDeadline_def take_queued_def
      releaseReceiveCredit_def markClosed_def RemoveChannel_def TryResizeChannel_def Let_def
      split: option.splits)+
  have "fst (foldl (chan_do (Some m)) (bp0, ch0) ops) \<noteq> None"
    using some
  proof (induction ops rule: rev_induct)
    case (snoc op ops)
    then show ?case using step by simp
  qed simp
  then have "bp \<noteq> None" using assms(3) new by simp
  with ok show ?thesis by (auto simp: chan_ok_def chan_inv_def charged_def)
qed

theorem channel_run_accounting_witness:
  "\<exists>bp ch. foldl (chan_do (Some 1)) (newChannel (Some (NewReceiveWindowBudget 0)) (Some 1) 8 (MathRand 0))
      [COpEnqueue [1, 2] (MathRand 0), COpRead (MathRand 0) (MathRand 0), COpEnqueue [3] (MathRand 0), COpFIN] = (bp, ch) \<and>
    recvBuffered ch = int (length (concat (recvQueue ch))) \<and>
    ChannelAllocation bp (Some 1) 8 = (if closedFlag ch then None else Some (recvAllowedWindowLocked ch))"
proof -
  obtain bp ch where run: "foldl (chan_do (Some 1)) (newChannel (Some (NewReceiveWindowBudget 0)) (Some 1) 8 (MathRand 0))
      [COpEnqueue [1, 2] (MathRand 0), COpRead (MathRand 0) (MathRand 0), COpEnqueue [3] (MathRand 0), COpFIN] = (bp, ch)"
    by fastforce
  have "ChannelAllocation (Some (NewReceiveWindowBudget 0)) (Some 1) 8 = None"
    by (simp add: ChannelAllocation_def NewReceiveWindowBudget_def)
  from channel_run_accounting [OF new_budget_inv this run] run show ?thesis by blast
qed

text \<open>
  C5. A payload is accepted exactly when the channel is open, the peer has not half-closed and
  the payload fits what the window leaves; then it is appended to the queue and the
  credit announced is exactly the growth of the window; otherwise nothing changes and
  the error names the first condition that failed.
\<close>

theorem enqueue_exact:
  assumes "chan_inv ch" and "charged bp mc ch" and "payload \<noteq> []"
    and "enqueuePayload bp mc ch payload e = (bp', ch', r)"
  shows "if closedFlag ch then (bp', ch', r) = (bp, ch, Inl ErrChannelClosed)
    else if remoteWriteClosed ch then (bp', ch', r) = (bp, ch, Inl ErrChannelDataAfterFIN)
    else if recvAllowedWindowLocked ch < recvBuffered ch + int (length payload)
    then (bp', ch', r) = (bp, ch, Inl ErrFlowControlWindowExceeded)
    else \<exists>x. r = Inr x \<and> 0 \<le> x \<and> recvQueue ch' = recvQueue ch @ [payload] \<and>
      recvWindowLocked ch' + recvCreditDebt ch' = recvWindowLocked ch + recvCreditDebt ch + x \<and>
      chan_inv ch' \<and> charged bp' mc ch' \<and> recvBuffered ch' \<le> recvAllowedWindowLocked ch'"
proof (cases "accepts ch payload")
  case True
  with enqueue_accepted [OF assms(1-3) True assms(4)] show ?thesis
    by (auto simp: accepts_def grant_def)
next
  case False
  with enqueue_rejected [OF assms(3) False buffered_nonneg [OF assms(1)], of bp mc e] assms(4) show ?thesis
    by (auto simp: accepts_def)
qed

theorem enqueue_exact_witness:
  "case newChannel None None 8 (MathRand 0) of (bp, ch) \<Rightarrow>
    (case enqueuePayload bp None ch [1, 2, 3] (MathRand 0) of
      (bp', ch', r) \<Rightarrow> \<exists>x. r = Inr x \<and> recvQueue ch' = [[1, 2, 3]])"
proof -
  obtain bp ch where new: "newChannel None None 8 (MathRand 0) = (bp, ch)" by fastforce
  obtain bp' ch' r where enq: "enqueuePayload bp None ch [1, 2, 3] (MathRand 0) = (bp', ch', r)"
    by (rule prod_cases3)
  have "bp = None" using new by (simp add: newChannel_def Let_def)
  then have c: "charged bp None ch" by (simp add: charged_def)
  have "recvBuffered ch = 0" using newChannel_inv(1,4) [OF new] by (simp add: chan_inv_def)
  with enqueue_exact [OF newChannel_inv(1) [OF new] c _ enq] newChannel_inv(3-5,8) [OF new] new enq show ?thesis
    by (auto simp: allowed_grant flow_window_defs)
qed

text \<open>
  Whatever happens around it (credit, closes, deadlines, send errors), a write puts a
  prefix of the data on the wire, in order, in packets that are not empty and fit the packet
  payload limit; the count it reports is the length of that prefix; and the bytes sent
  never exceed the credit it had plus the credit it received.
\<close>

theorem write_sends_prefix:
  assumes "chan_inv ch" and "data \<noteq> []"
    and "writeWithDeadline ch data dl now serr rs = (ch', sent, res)"
  shows "list_all (\<lambda>p. p \<noteq> [] \<and> length p \<le> MaxPacketPayloadSize) sent \<and>
    (\<exists>k \<le> length data. concat sent = take k data \<and> (\<forall>x. res = Some x \<longrightarrow> w_offset x = k)) \<and>
    int (length (concat sent)) + sendCredit ch' \<le>
      sendCredit ch + sum_list (map (max 0) (concat (map wr_credits rs)))"
proof (cases "closedFlag ch \<or> localFIN ch")
  case True
  have "0 \<le> sum_list (map (max (0::int)) (concat (map wr_credits rs)))"
    by (rule sum_list_nonneg) auto
  with True assms(3) show ?thesis by (auto simp: writeWithDeadline_def split: if_splits)
next
  case False
  with assms(2,3) have loop: "write_loop data rs (ch, 0) [] = (ch', sent, res)"
    by (simp add: writeWithDeadline_def)
  have "packets_ok []" by (simp add: packets_ok_def)
  from write_loop_effect [OF assms(1) _ this _ loop] obtain k where
    k: "packets_ok sent" "k \<le> length data" "concat sent = take k data"
      "int k + sendCredit ch' \<le> sendCredit ch + sum_list (map (max 0) (concat (map wr_credits rs)))"
      "\<forall>x. res = Some x \<longrightarrow> w_offset x = k"
    by auto
  then show ?thesis by (auto simp: packets_ok_def min_def)
qed

definition demo_round :: write_round where
  "demo_round = \<lparr>wr_credits = [5], wr_closed = False, wr_muxClosed = False, wr_deadline = None,
     wr_now = 0, wr_sendErr = False\<rparr>"

theorem write_sends_prefix_witness:
  "\<exists>ch' sent res. writeWithDeadline (snd (newChannel None None 8 (MathRand 0))) [1, 2, 3] None 0 False [demo_round]
      = (ch', sent, res) \<and> concat sent = take (length (concat sent)) [1, 2, 3]"
proof -
  obtain bp ch where new: "newChannel None None 8 (MathRand 0) = (bp, ch)" by fastforce
  obtain ch' sent res where w: "writeWithDeadline ch [1, 2, 3] None 0 False [demo_round] = (ch', sent, res)"
    by (rule prod_cases3)
  from write_sends_prefix [OF newChannel_inv(1) [OF new] _ w] new w show ?thesis by (auto simp: min_def)
qed

text \<open>
  C6. A write on an open channel completes: if in every round some credit arrives and nothing
  fails, at most one round per byte is needed and all data is sent.
\<close>

theorem write_completes:
  assumes "chan_inv ch" and "\<not> closedFlag ch" and "\<not> localFIN ch" and "data \<noteq> []"
    and "list_all wr_live rs" and "length data \<le> length rs"
  shows "\<exists>ch' sent. writeWithDeadline ch data dl now serr rs =
      (ch', sent, Some \<lparr>w_offset = length data, w_timedOut = False, w_err = None\<rparr>) \<and> concat sent = data"
proof -
  obtain ch' sent where w: "write_loop data rs (ch, 0) [] =
      (ch', sent, Some \<lparr>w_offset = length data, w_timedOut = False, w_err = None\<rparr>)"
    using write_loop_live [OF assms(1,2) _ assms(5)] assms(6) by fastforce
  have "packets_ok []" by (simp add: packets_ok_def)
  from write_loop_effect [OF assms(1) _ this _ w] have "concat sent = data" by auto
  with w assms(2-4) show ?thesis by (simp add: writeWithDeadline_def)
qed

theorem write_completes_witness:
  "\<exists>ch' sent. writeWithDeadline (snd (newChannel None None 8 (MathRand 0))) [1, 2, 3] None 0 False
      (replicate 3 demo_round) = (ch', sent, Some \<lparr>w_offset = 3, w_timedOut = False, w_err = None\<rparr>) \<and>
    concat sent = [1, 2, 3]"
proof -
  obtain bp ch where new: "newChannel None None 8 (MathRand 0) = (bp, ch)" by fastforce
  have "list_all wr_live (replicate 3 demo_round)"
    by (simp add: wr_live_def demo_round_def deadlineExceeded_def eval_nat_numeral)
  from write_completes [OF newChannel_inv(1,3,9) [OF new] _ this, of "[1, 2, 3]" None 0 False] new
  show ?thesis by (simp add: numeral_3_eq_3)
qed

end
