(* ===== verification/FlowLink.thy ===== *)
theory FlowLink
  imports Channel
begin

text \<open>
  The flow-control protocol between the two ends of a channel: the sending side of one
  \<^verbatim>\<open>Channel\<close>, the receiving side of its peer, and the data packets and window updates in
  flight between them, each in order.  The steps call the channel operations of
  \<open>Channel\<close>; any interleaving of them is a run.

  The contract a receiver offers is a locale, interpreted on the channel model; the
  invariant of the protocol is proved from it.
\<close>

section \<open>The contract of a receiver\<close>

locale credit_receiver =
  fixes inv :: "'r \<Rightarrow> bool"
    and out :: "'r \<Rightarrow> int"
    and granted :: "'r \<Rightarrow> int"
    and queue :: "'r \<Rightarrow> bytes list"
    and recv :: "'r \<Rightarrow> bytes \<Rightarrow> entropy \<Rightarrow> 'r \<times> (chan_err + int)"
    and read :: "'r \<Rightarrow> entropy \<Rightarrow> entropy \<Rightarrow> 'r \<times> read_outcome"
  assumes out_le: "inv r \<Longrightarrow> out r + int (length (concat (queue r))) \<le> granted r"
    and out_empty: "inv r \<Longrightarrow> queue r = [] \<Longrightarrow> 0 < out r"
    and recv_ok: "inv r \<Longrightarrow> p \<noteq> [] \<Longrightarrow> recv r p e = (r', Inr x) \<Longrightarrow>
      inv r' \<and> 0 \<le> x \<and> x \<le> FlowControlMaxWindowSize \<and> queue r' = queue r @ [p] \<and>
      out r' = out r - int (length p) + x"
    and recv_no: "inv r \<Longrightarrow> p \<noteq> [] \<Longrightarrow> recv r p e = (r', Inl err) \<Longrightarrow>
      r' = r \<and> min FlowControlMaxWindowSize (granted r) < int (length (concat (queue r))) + int (length p)"
    and read_ok: "inv r \<Longrightarrow> read r e1 e2 = (r', ReadData d c) \<Longrightarrow>
      inv r' \<and> 0 \<le> c \<and> c \<le> FlowControlMaxWindowSize div 4 + FlowControlMaxWindowSize \<and>
      queue r = d # queue r' \<and> out r' = out r + c"
    and read_data: "inv r \<Longrightarrow> queue r \<noteq> [] \<Longrightarrow> \<exists>r' d c. read r e1 e2 = (r', ReadData d c)"
begin

lemma honest_accepted:
  assumes "inv r" and "p \<noteq> []" and "int (length p) \<le> out r" and "granted r \<le> FlowControlMaxWindowSize"
    and "recv r p e = (r', res)"
  shows "\<exists>x. res = Inr x"
proof (cases res)
  case (Inl err)
  then show ?thesis using recv_no [OF assms(1,2)] assms(3-5) out_le [OF assms(1)] by force
qed auto

lemma starved_readable:
  assumes "inv r" and "out r \<le> 0"
  shows "\<exists>r' d c. read r e1 e2 = (r', ReadData d c)"
  using assms out_empty read_data by force

end

text \<open>The receiving side of an open channel, with the shared budget.\<close>

type_synonym rcv_end = "budget_ptr \<times> chan"

definition rcv_ok :: "mux_ptr \<Rightarrow> rcv_end \<Rightarrow> bool" where
  "rcv_ok mc r \<longleftrightarrow> chan_inv (snd r) \<and> charged (fst r) mc (snd r) \<and>
     \<not> closedFlag (snd r) \<and> \<not> remoteWriteClosed (snd r)"

definition rcv_enqueue :: "mux_ptr \<Rightarrow> rcv_end \<Rightarrow> bytes \<Rightarrow> entropy \<Rightarrow> rcv_end \<times> (chan_err + int)" where
  "rcv_enqueue mc r p e =
     (case enqueuePayload (fst r) mc (snd r) p e of (bp, ch, res) \<Rightarrow> ((bp, ch), res))"

definition rcv_read :: "mux_ptr \<Rightarrow> rcv_end \<Rightarrow> entropy \<Rightarrow> entropy \<Rightarrow> rcv_end \<times> read_outcome" where
  "rcv_read mc r e1 e2 =
     (case Channel_Read (fst r) mc (snd r) e1 e2 of (bp, ch, res) \<Rightarrow> ((bp, ch), res))"

lemma rcv_enqueue_ok:
  assumes "rcv_ok mc r" and "p \<noteq> []" and "rcv_enqueue mc r p e = (r', Inr x)"
  shows "rcv_ok mc r' \<and> 0 \<le> x \<and> x \<le> FlowControlMaxWindowSize \<and>
    recvQueue (snd r') = recvQueue (snd r) @ [p] \<and>
    outstanding (snd r') = outstanding (snd r) - int (length p) + x"
proof -
  obtain bp ch where r': "r' = (bp, ch)" by (cases r')
  have e: "enqueuePayload (fst r) mc (snd r) p e = (bp, ch, Inr x)"
    using assms(3) r' by (auto simp: rcv_enqueue_def split: prod.splits)
  have inv: "chan_inv (snd r)" "charged (fst r) mc (snd r)" using assms(1) by (auto simp: rcv_ok_def)
  have "accepts (snd r) p"
  proof (rule ccontr)
    assume "\<not> accepts (snd r) p"
    from enqueue_rejected [OF assms(2) this buffered_nonneg [OF inv(1)], of "fst r" mc e] e show False by auto
  qed
  from enqueue_accepted [OF inv assms(2) this e] assms(1) show ?thesis by (auto simp: r' rcv_ok_def)
qed

lemma rcv_enqueue_no:
  assumes "rcv_ok mc r" and "p \<noteq> []" and "rcv_enqueue mc r p e = (r', Inl err)"
  shows "r' = r \<and> err = ErrFlowControlWindowExceeded \<and> min FlowControlMaxWindowSize (grant (snd r)) <
    int (length (concat (recvQueue (snd r)))) + int (length p)"
proof -
  have inv: "chan_inv (snd r)" "charged (fst r) mc (snd r)" using assms(1) by (auto simp: rcv_ok_def)
  obtain bp ch where e: "r' = (bp, ch)" "enqueuePayload (fst r) mc (snd r) p e = (bp, ch, Inl err)"
    using assms(3) by (auto simp: rcv_enqueue_def split: prod.splits)
  have no: "\<not> accepts (snd r) p" using enqueue_accepted [OF inv assms(2) _ e(2)] by auto
  from enqueue_rejected [OF assms(2) no buffered_nonneg [OF inv(1)], of "fst r" mc "e"] e assms(1) no inv(1)
  show ?thesis
    by (cases r) (auto simp: rcv_ok_def accepts_def allowed_grant chan_inv_def)
qed

lemma rcv_read_ok:
  assumes "rcv_ok mc r" and "rcv_read mc r e1 e2 = (r', ReadData d c)"
  shows "rcv_ok mc r' \<and> 0 \<le> c \<and> c \<le> FlowControlMaxWindowSize div 4 + FlowControlMaxWindowSize \<and>
    recvQueue (snd r) = d # recvQueue (snd r') \<and> outstanding (snd r') = outstanding (snd r) + c \<and>
    grant (snd r') \<le> grant (snd r)"
proof -
  obtain bp ch where e: "r' = (bp, ch)" "Channel_Read (fst r) mc (snd r) e1 e2 = (bp, ch, ReadData d c)"
    using assms(2) by (auto simp: rcv_read_def split: prod.splits)
  have inv: "chan_inv (snd r)" "charged (fst r) mc (snd r)" using assms(1) by (auto simp: rcv_ok_def)
  have "recvQueue (snd r) \<noteq> []"
    using e(2) assms(1) by (auto simp: Channel_Read_def rcv_ok_def split: if_splits)
  then obtain d' rest where q: "recvQueue (snd r) = d' # rest" by (cases "recvQueue (snd r)") auto
  have tk: "take_queued (fst r) mc (snd r) e1 e2 = (bp, ch, ReadData d c)"
    using e(2) reads_take_queued(1) [of "snd r"] q by simp
  from take_queued_effect [OF inv q tk] assms(1) q show ?thesis by (auto simp: e(1) rcv_ok_def)
qed

interpretation cr: credit_receiver
  "rcv_ok mc" "\<lambda>r. outstanding (snd r)" "\<lambda>r. grant (snd r)" "\<lambda>r. recvQueue (snd r)"
  "rcv_enqueue mc" "rcv_read mc" for mc
proof (unfold_locales, goal_cases)
  case (1 r)
  then show ?case by (auto simp: rcv_ok_def outstanding_def chan_inv_def)
next
  case (2 r)
  then have "chan_inv (snd r)" "recvQueue (snd r) = []" by (auto simp: rcv_ok_def)
  then have "4 * recvCreditPending (snd r) \<le> grant (snd r)" "recvBuffered (snd r) = 0" "0 \<le> recvCreditDebt (snd r)"
    by (auto simp: chan_inv_def grant_def)
  moreover have "0 < grant (snd r)"
    using calculation(3) window_locked(1) [of "snd r"] unfolding grant_def by linarith
  ultimately show ?case unfolding outstanding_def by linarith
next
  case (3 r p e r' x)
  then show ?case using rcv_enqueue_ok by simp
next
  case (4 r p e r' err)
  then show ?case using rcv_enqueue_no [OF 4] by simp
next
  case (5 r e1 e2 r' d c)
  then show ?case using rcv_read_ok [OF 5] by simp
next
  case (6 r e1 e2)
  then obtain d rest where q: "recvQueue (snd r) = d # rest" by (cases "recvQueue (snd r)") auto
  have inv: "chan_inv (snd r)" "charged (fst r) mc (snd r)" using 6 by (auto simp: rcv_ok_def)
  obtain bp ch res where tk: "take_queued (fst r) mc (snd r) e1 e2 = (bp, ch, res)" by (rule prod_cases3)
  from take_queued_effect [OF inv q tk] tk q show ?case
    by (auto simp: rcv_read_def reads_take_queued(1))
qed

section \<open>The link\<close>

text \<open>
  \<open>l_written\<close> and \<open>l_read\<close> are the bytes the sender has put on the wire and the reader has
  taken; \<open>l_entered\<close> are the bytes that entered the receive queue.  \<open>l_status\<close> counts the
  bytes the receiver's own mux put there (a channel response is queued as a one-byte
  payload, \<^verbatim>\<open>handleChannelResponse\<close>), which no sender pays for.  \<open>l_peak\<close> is the largest grant
  so far, and \<open>l_rejected\<close> records a payload of this sender that the receiver refused, which
  invalidates the whole mux.
\<close>

record link =
  l_snd :: chan
  l_rcv :: rcv_end
  l_data :: "bytes list"
  l_upds :: "bytes list"
  l_written :: bytes
  l_entered :: bytes
  l_read :: bytes
  l_status :: nat
  l_peak :: int
  l_rejected :: bool

definition announce :: "byte \<Rightarrow> int \<Rightarrow> bytes list" where
  "announce i credit = (if 0 < credit then [encodeWindowUpdate i credit] else [])"

inductive link_step :: "mux_ptr \<Rightarrow> link \<Rightarrow> link \<Rightarrow> bool" for mc where
  send: "reserveSendCreditWithDeadline (l_snd s) False (int n) None 0 = (c, Reserved k) \<Longrightarrow>
    0 < n \<Longrightarrow> n \<le> MaxPacketPayloadSize \<Longrightarrow> int (length p) = k \<Longrightarrow>
    link_step mc s (s\<lparr>l_snd := c, l_data := l_data s @ [p], l_written := l_written s @ p\<rparr>)"
| deliver: "l_data s = p # ps \<Longrightarrow> rcv_enqueue mc (l_rcv s) p e = (r, Inr x) \<Longrightarrow>
    link_step mc s (s\<lparr>l_rcv := r, l_data := ps, l_upds := l_upds s @ announce (ch_ID (l_snd s)) x,
      l_entered := l_entered s @ p, l_peak := max (l_peak s) (grant (snd r))\<rparr>)"
| reject: "l_data s = p # ps \<Longrightarrow> rcv_enqueue mc (l_rcv s) p e = (r, Inl err) \<Longrightarrow>
    link_step mc s (s\<lparr>l_rejected := True\<rparr>)"
| status: "rcv_enqueue mc (l_rcv s) [b] e = (r, Inr x) \<Longrightarrow>
    link_step mc s (s\<lparr>l_rcv := r, l_upds := l_upds s @ announce (ch_ID (l_snd s)) x,
      l_entered := l_entered s @ [b], l_status := Suc (l_status s), l_peak := max (l_peak s) (grant (snd r))\<rparr>)"
| read: "rcv_read mc (l_rcv s) e1 e2 = (r, ReadData d c) \<Longrightarrow>
    link_step mc s (s\<lparr>l_rcv := r, l_upds := l_upds s @ announce (ch_ID (l_snd s)) c, l_read := l_read s @ d\<rparr>)"
| update: "l_upds s = m # ms \<Longrightarrow> decodeWindowUpdate m = Some (i, w) \<Longrightarrow> i = ch_ID (l_snd s) \<Longrightarrow> w \<noteq> 0 \<Longrightarrow>
    link_step mc s (s\<lparr>l_snd := addSendCredit (l_snd s) (uint w), l_upds := ms\<rparr>)"
| others: "charged bp mc (snd (l_rcv s)) \<Longrightarrow>
    link_step mc s (s\<lparr>l_rcv := (bp, snd (l_rcv s))\<rparr>)"

inductive link_reach :: "mux_ptr \<Rightarrow> link \<Rightarrow> link \<Rightarrow> bool" for mc s where
  start: "link_reach mc s s"
| step: "link_reach mc s t \<Longrightarrow> link_step mc t u \<Longrightarrow> link_reach mc s u"

text \<open>Both ends of a new channel; the receiver's registration is in the budget.\<close>

definition link_init :: "byte \<Rightarrow> entropy \<Rightarrow> budget_ptr \<Rightarrow> mux_ptr \<Rightarrow> entropy \<Rightarrow> link" where
  "link_init i e1 bp mc e2 =
     \<lparr>l_snd = snd (newChannel None None i e1), l_rcv = newChannel bp mc i e2, l_data = [], l_upds = [],
      l_written = [], l_entered = [], l_read = [], l_status = 0,
      l_peak = FlowControlInitialWindowSize, l_rejected = False\<rparr>"

section \<open>Invariant\<close>

definition credit_in :: "bytes \<Rightarrow> int" where
  "credit_in m = (case decodeWindowUpdate m of None \<Rightarrow> 0 | Some (i, w) \<Rightarrow> uint w)"

definition in_flight :: "link \<Rightarrow> int" where
  "in_flight s = int (length (concat (l_data s))) + sum_list (map credit_in (l_upds s))"

definition good_update :: "byte \<Rightarrow> bytes \<Rightarrow> bool" where
  "good_update i m \<longleftrightarrow> (\<exists>w. decodeWindowUpdate m = Some (i, w) \<and> w \<noteq> 0)"

text \<open>
  The credit identity: what the sender may still send, what is in flight and what the
  receiver still has to account for add up.  It is an equation as long as the grant and the
  status bytes stay within the maximum window, because then the sender's clamp never cuts.
\<close>

definition link_inv :: "mux_ptr \<Rightarrow> link \<Rightarrow> bool" where
  "link_inv mc s \<longleftrightarrow>
     chan_inv (l_snd s) \<and> \<not> closedFlag (l_snd s) \<and> rcv_ok mc (l_rcv s) \<and>
     [] \<notin> set (l_data s) \<and> list_all (good_update (ch_ID (l_snd s))) (l_upds s) \<and>
     sendCredit (l_snd s) + in_flight s \<le> outstanding (snd (l_rcv s)) + int (l_status s) \<and>
     (l_peak s + int (l_status s) \<le> FlowControlMaxWindowSize \<longrightarrow>
       sendCredit (l_snd s) + in_flight s = outstanding (snd (l_rcv s)) + int (l_status s)) \<and>
     l_entered s = l_read s @ concat (recvQueue (snd (l_rcv s))) \<and>
     (l_status s = 0 \<longrightarrow> l_written s = l_entered s @ concat (l_data s)) \<and>
     grant (snd (l_rcv s)) \<le> l_peak s \<and>
     (l_rejected s \<longrightarrow> FlowControlMaxWindowSize < l_peak s \<or> l_status s \<noteq> 0)"

lemma announce_good:
  assumes "c \<le> FlowControlMaxWindowSize div 4 + FlowControlMaxWindowSize" and "0 \<le> c"
  shows "list_all (good_update i) (announce i c)" "sum_list (map credit_in (announce i c)) = c"
proof -
  have "c < 2 ^ 32" using assms by (simp add: flow_window_defs)
  then show "list_all (good_update i) (announce i c)" "sum_list (map credit_in (announce i c)) = c"
    using decode_encode_update [of c] assms
    by (auto simp: announce_def good_update_def credit_in_def)
qed

lemma credit_in_nonneg: "0 \<le> sum_list (map credit_in ms)"
  by (rule sum_list_nonneg) (auto simp: credit_in_def split: option.splits)

lemma concat_nonempty: "p \<in> set ps \<Longrightarrow> length p \<le> length (concat ps)"
  by (induction ps) auto

lemma outstanding_le_grant: "rcv_ok mc r \<Longrightarrow> outstanding (snd r) \<le> grant (snd r)"
  using cr.out_le [of mc r] by linarith

lemma link_step_inv:
  assumes "link_step mc s t" and "link_inv mc s"
  shows "link_inv mc t"
  using assms
proof (cases rule: link_step.cases)
  case (send n c k p)
  have inv: "chan_inv (l_snd s)" using assms(2) by (simp add: link_inv_def)
  have "0 < int n" using send by simp
  note rc = reserve_cases [OF inv this, of False None 0, unfolded send(2) prod.case reserve_outcome.case]
  have k: "0 < k" "c = (l_snd s)\<lparr>sendCredit := sendCredit (l_snd s) - k\<rparr>" "chan_inv c"
    using rc by blast+
  then have "p \<noteq> []" using send by auto
  with assms(2) send k show ?thesis by (simp add: link_inv_def in_flight_def)
next
  case (deliver p ps e r x)
  have pne: "p \<noteq> []" and ok: "rcv_ok mc (l_rcv s)" using assms(2) deliver by (auto simp: link_inv_def)
  note r = cr.recv_ok [OF ok pne deliver(3)]
  have "x \<le> FlowControlMaxWindowSize div 4 + FlowControlMaxWindowSize" using r by (simp add: flow_window_defs)
  note a = announce_good [OF this, of "ch_ID (l_snd s)"]
  from assms(2) deliver r a show ?thesis by (auto simp: link_inv_def in_flight_def)
next
  case (reject p ps e r err)
  have pne: "p \<noteq> []" and ok: "rcv_ok mc (l_rcv s)" using assms(2) reject by (auto simp: link_inv_def)
  have "FlowControlMaxWindowSize < l_peak s \<or> l_status s \<noteq> 0"
  proof (rule ccontr)
    assume "\<not> ?thesis"
    then have st: "l_peak s \<le> FlowControlMaxWindowSize" "l_status s = 0" by auto
    have "int (length p) \<le> in_flight s" using reject credit_in_nonneg by (simp add: in_flight_def)
    then have "int (length p) \<le> outstanding (snd (l_rcv s))"
      using assms(2) st by (auto simp: link_inv_def chan_inv_def)
    moreover have "grant (snd (l_rcv s)) \<le> FlowControlMaxWindowSize"
      using assms(2) st by (auto simp: link_inv_def)
    ultimately show False using cr.honest_accepted [OF ok pne _ _ reject(3)] by auto
  qed
  with assms(2) reject show ?thesis by (auto simp: link_inv_def in_flight_def)
next
  case (status b e r x)
  have ok: "rcv_ok mc (l_rcv s)" using assms(2) by (simp add: link_inv_def)
  note r = cr.recv_ok [OF ok _ status(2)]
  have "x \<le> FlowControlMaxWindowSize div 4 + FlowControlMaxWindowSize" using r by (simp add: flow_window_defs)
  note a = announce_good [OF this, of "ch_ID (l_snd s)"]
  from assms(2) status r a show ?thesis by (auto simp: link_inv_def in_flight_def)
next
  case (read e1 e2 r d c)
  have ok: "rcv_ok mc (l_rcv s)" using assms(2) by (simp add: link_inv_def)
  note r = rcv_read_ok [OF ok read(2)]
  note a = announce_good [of c "ch_ID (l_snd s)"]
  from assms(2) read r a show ?thesis by (auto simp: link_inv_def in_flight_def)
next
  case (update m ms i w)
  have inv: "chan_inv (l_snd s)" "\<not> closedFlag (l_snd s)" using assms(2) by (auto simp: link_inv_def)
  have w: "0 \<le> uint w" "credit_in m = uint w" using update by (auto simp: credit_in_def)
  let ?c = "addSendCredit (l_snd s) (uint w)"
  have le: "sendCredit ?c \<le> sendCredit (l_snd s) + uint w"
    using addSendCredit_bounds(2) [OF inv(1), of "uint w"] w by simp
  have flight: "in_flight s = int (length (concat (l_data s))) + uint w + sum_list (map credit_in ms)"
    using update w by (simp add: in_flight_def)
  have eq: "sendCredit ?c = sendCredit (l_snd s) + uint w"
    if "l_peak s + int (l_status s) \<le> FlowControlMaxWindowSize"
  proof -
    have "sendCredit (l_snd s) + in_flight s = outstanding (snd (l_rcv s)) + int (l_status s)"
      using assms(2) that by (auto simp: link_inv_def)
    moreover have "outstanding (snd (l_rcv s)) \<le> l_peak s"
      using assms(2) outstanding_le_grant [of mc "l_rcv s"] by (auto simp: link_inv_def)
    ultimately have "sendCredit (l_snd s) + uint w \<le> FlowControlMaxWindowSize"
      using flight credit_in_nonneg [of ms] that by linarith
    with inv w show ?thesis by (auto simp: addSendCredit_def Let_def)
  qed
  from assms(2) update flight le eq addSendCredit_inv [OF inv(1), of "uint w"] show ?thesis
    by (auto simp: link_inv_def in_flight_def)
next
  case (others bp)
  with assms(2) show ?thesis by (auto simp: link_inv_def rcv_ok_def in_flight_def)
qed

lemma link_init_inv:
  assumes "\<And>b. bp = Some b \<Longrightarrow> budget_inv b \<and> (\<exists>m. mc = Some m \<and> ChannelAllocation bp mc i = None)"
  shows "link_inv mc (link_init i e1 bp mc e2)"
proof -
  obtain bp1 ch1 where s: "newChannel None None i e1 = (bp1, ch1)" by fastforce
  obtain bp2 ch2 where r: "newChannel bp mc i e2 = (bp2, ch2)" by fastforce
  have "charged bp2 mc ch2" by (rule newChannel_charged [OF r assms])
  then show ?thesis
    using newChannel_inv [OF s] newChannel_inv [OF r]
    by (simp add: link_inv_def link_init_def s r rcv_ok_def in_flight_def)
qed

lemma link_reach_inv:
  assumes "link_reach mc s t" and "link_inv mc s"
  shows "link_inv mc t"
  using assms by (induction rule: link_reach.induct) (auto intro: link_step_inv)

section \<open>Executable runs\<close>

text \<open>
  A scheduler that picks one step at a time, with zero bytes as data and a fixed random draw;
  an action that is not enabled does nothing.  Its runs are runs of the link.
\<close>

definition zeros :: "nat \<Rightarrow> bytes" where
  "zeros n = replicate n 0"

lemma length_zeros [simp]: "length (zeros n) = n"
  by (simp add: zeros_def)

lemma zeros_Nil [simp]: "zeros n = [] \<longleftrightarrow> n = 0"
  by (simp add: zeros_def)

datatype link_act = ASend nat | ADeliver | AStatus byte | ARead | AUpdate

definition link_exec :: "mux_ptr \<Rightarrow> link \<Rightarrow> link_act \<Rightarrow> link" where
  "link_exec mc s a =
     (case a of
        ASend n \<Rightarrow>
          (case reserveSendCreditWithDeadline (l_snd s) False (int n) None 0 of
             (c, Reserved k) \<Rightarrow>
               if 0 < n \<and> n \<le> MaxPacketPayloadSize
               then s\<lparr>l_snd := c, l_data := l_data s @ [zeros (nat k)], l_written := l_written s @ zeros (nat k)\<rparr>
               else s
           | _ \<Rightarrow> s)
      | ADeliver \<Rightarrow>
          (case l_data s of
             [] \<Rightarrow> s
           | p # ps \<Rightarrow>
               (case rcv_enqueue mc (l_rcv s) p (MathRand 0) of
                  (r, Inr x) \<Rightarrow> s\<lparr>l_rcv := r, l_data := ps,
                      l_upds := l_upds s @ announce (ch_ID (l_snd s)) x,
                      l_entered := l_entered s @ p, l_peak := max (l_peak s) (grant (snd r))\<rparr>
                | (r, Inl err) \<Rightarrow> s\<lparr>l_rejected := True\<rparr>))
      | AStatus b \<Rightarrow>
          (case rcv_enqueue mc (l_rcv s) [b] (MathRand 0) of
             (r, Inr x) \<Rightarrow> s\<lparr>l_rcv := r, l_upds := l_upds s @ announce (ch_ID (l_snd s)) x,
                 l_entered := l_entered s @ [b], l_status := Suc (l_status s),
                 l_peak := max (l_peak s) (grant (snd r))\<rparr>
           | (r, Inl err) \<Rightarrow> s)
      | ARead \<Rightarrow>
          (case rcv_read mc (l_rcv s) (MathRand 0) (MathRand 0) of
             (r, ReadData d c) \<Rightarrow> s\<lparr>l_rcv := r, l_upds := l_upds s @ announce (ch_ID (l_snd s)) c,
                 l_read := l_read s @ d\<rparr>
           | _ \<Rightarrow> s)
      | AUpdate \<Rightarrow>
          (case l_upds s of
             [] \<Rightarrow> s
           | m # ms \<Rightarrow>
               (case decodeWindowUpdate m of
                  None \<Rightarrow> s
                | Some (i, w) \<Rightarrow>
                    if i = ch_ID (l_snd s) \<and> w \<noteq> 0
                    then s\<lparr>l_snd := addSendCredit (l_snd s) (uint w), l_upds := ms\<rparr> else s)))"

lemmas link_eval = link_exec_def link_init_def newChannel_def rcv_enqueue_def rcv_read_def
  enqueuePayload_def adjustReceiveWindowLocked_def countPayload_def Channel_Read_def take_queued_def
  releaseReceiveCredit_def recvAllowedWindowLocked_def recvWindowLocked_def
  resetReceiveWindowCountersLocked_def reserveSendCreditWithDeadline_def addSendCredit_def
  TryResizeChannel_def RegisterChannel_def NewReceiveWindowBudget_def receiveWindowExcess_def
  randomFlowControlUpdateThreshold_def flowControlWindowForIndex_def flow_index_defs flow_window_defs
  MaxPacketPayloadSize_value announce_def grant_def Let_def decode_encode_update

lemma link_exec_step: "link_exec mc s a = s \<or> link_step mc s (link_exec mc s a)"
proof (cases a)
  case (ASend n)
  obtain c oc where r: "reserveSendCreditWithDeadline (l_snd s) False (int n) None 0 = (c, oc)" by fastforce
  show ?thesis
  proof (cases oc)
    case (Reserved k)
    show ?thesis
    proof (cases "0 < n \<and> n \<le> MaxPacketPayloadSize \<and> 0 \<le> k")
      case True
      then have "link_step mc s (s\<lparr>l_snd := c, l_data := l_data s @ [zeros (nat k)], l_written := l_written s @ zeros (nat k)\<rparr>)"
        using r Reserved by (intro send [of s n c k]) auto
      then show ?thesis using ASend r Reserved True by (simp add: link_exec_def)
    next
      case False
      then have "k < 0 \<or> \<not> (0 < n \<and> n \<le> MaxPacketPayloadSize)" by auto
      moreover have "\<not> k < 0"
        using r Reserved by (auto simp: reserveSendCreditWithDeadline_def Let_def split: if_splits option.splits)
      ultimately have "\<not> (0 < n \<and> n \<le> MaxPacketPayloadSize)" by blast
      then show ?thesis using ASend r Reserved by (auto simp: link_exec_def)
    qed
  qed (use ASend r in \<open>simp_all add: link_exec_def\<close>)
next
  case ADeliver
  then show ?thesis
    using deliver [where mc = mc and s = s and r = "(b, c)" for b c]
    by (auto simp: link_exec_def intro: reject split: list.split prod.split sum.split)
next
  case (AStatus b)
  then show ?thesis
    using status [where mc = mc and s = s and r = "(b, c)" for b c]
    by (auto simp: link_exec_def split: prod.split sum.split)
next
  case ARead
  then show ?thesis
    by (auto simp: link_exec_def intro: read split: prod.split read_outcome.split)
next
  case AUpdate
  then show ?thesis
    by (auto simp: link_exec_def intro: update split: list.split prod.split option.split)
qed

lemma link_exec_reach: "link_reach mc s t \<Longrightarrow> link_reach mc s (foldl (link_exec mc) t as)"
proof (induction as arbitrary: t)
  case (Cons a as)
  have "link_reach mc s (link_exec mc t a)"
    using link_exec_step [of mc t a] Cons.prems by (metis link_reach.step)
  then show ?case using Cons.IH by simp
qed simp

section \<open>Properties\<close>

text \<open>
  C1. In every interleaving of sends, deliveries, reads and window updates, with other channels
  using the same budget, the reader gets the bytes in the order they entered the queue, and
  without channel responses those are exactly the bytes written, none lost, none
  duplicated; and as long as the grant stays within the maximum window and no
  channel response was queued, no payload of the sender is ever refused.
\<close>

theorem link_safe:
  assumes "\<And>b. bp = Some b \<Longrightarrow> budget_inv b \<and> (\<exists>m. mc = Some m \<and> ChannelAllocation bp mc i = None)"
    and "link_reach mc (link_init i e1 bp mc e2) s"
  shows "l_entered s = l_read s @ concat (recvQueue (snd (l_rcv s))) \<and>
    (l_status s = 0 \<longrightarrow> l_written s = l_read s @ concat (recvQueue (snd (l_rcv s))) @ concat (l_data s)) \<and>
    (l_status s = 0 \<and> l_peak s \<le> FlowControlMaxWindowSize \<longrightarrow> \<not> l_rejected s)"
  using link_reach_inv [OF assms(2) link_init_inv [OF assms(1)]] by (auto simp: link_inv_def)

theorem link_safe_witness:
  "\<exists>s. link_reach None (link_init 8 (MathRand 0) None None (MathRand 0)) s \<and>
    l_written s = zeros 3 \<and> l_written s = l_read s @ concat (recvQueue (snd (l_rcv s))) @ concat (l_data s) \<and>
    \<not> l_rejected s"
proof -
  let ?i = "link_init 8 (MathRand 0) None None (MathRand 0)"
  let ?s = "foldl (link_exec None) ?i [ASend 3, ADeliver]"
  have r: "link_reach None ?i ?s" by (rule link_exec_reach [OF link_reach.start])
  have "l_status ?s = 0" "l_written ?s = zeros 3" "l_peak ?s \<le> FlowControlMaxWindowSize"
    by (simp_all add: link_eval)
  with r link_safe [OF _ r] show ?thesis by blast
qed

text \<open>
  C2. The two ends cannot starve each other, as long as the largest grant and the number of channel
  responses queued by the receiver together stay within the maximum window (beyond it the
  sender's clamp may cut credit): a sender without credit and with nothing in flight faces a
  receiver whose reader has data to take; and when that reader has taken everything and nothing is
  in flight, the sender holds at least three quarters of the grant.
\<close>

theorem link_no_starvation:
  assumes "\<And>b. bp = Some b \<Longrightarrow> budget_inv b \<and> (\<exists>m. mc = Some m \<and> ChannelAllocation bp mc i = None)"
    and "link_reach mc (link_init i e1 bp mc e2) s"
    and "l_peak s + int (l_status s) \<le> FlowControlMaxWindowSize" and "l_data s = []" and "l_upds s = []"
  shows "(sendCredit (l_snd s) = 0 \<longrightarrow> (\<exists>r d c. rcv_read mc (l_rcv s) f1 f2 = (r, ReadData d c) \<and> d \<noteq> [])) \<and>
    (recvQueue (snd (l_rcv s)) = [] \<longrightarrow> 3 * grant (snd (l_rcv s)) \<le> 4 * sendCredit (l_snd s))"
proof -
  have inv: "link_inv mc s" by (rule link_reach_inv [OF assms(2) link_init_inv [OF assms(1)]])
  then have eq: "sendCredit (l_snd s) = outstanding (snd (l_rcv s)) + int (l_status s)" and ok: "rcv_ok mc (l_rcv s)"
    using assms(3-5) by (auto simp: link_inv_def in_flight_def)
  have "\<exists>r d c. rcv_read mc (l_rcv s) f1 f2 = (r, ReadData d c) \<and> d \<noteq> []" if "sendCredit (l_snd s) = 0"
  proof -
    have out: "outstanding (snd (l_rcv s)) \<le> 0" using that eq by simp
    obtain r d c where rd: "rcv_read mc (l_rcv s) f1 f2 = (r, ReadData d c)"
      using cr.starved_readable [OF ok, of f1 f2] out by blast
    have "d \<in> set (recvQueue (snd (l_rcv s)))" using rcv_read_ok [OF ok rd] by auto
    then have "d \<noteq> []" using ok by (auto simp: rcv_ok_def chan_inv_def)
    with rd show ?thesis by blast
  qed
  moreover have "3 * grant (snd (l_rcv s)) \<le> 4 * sendCredit (l_snd s)" if "recvQueue (snd (l_rcv s)) = []"
    using that ok eq by (auto simp: rcv_ok_def chan_inv_def outstanding_def grant_def)
  ultimately show ?thesis by blast
qed

theorem link_no_starvation_witness:
  "\<exists>s. link_reach None (link_init 8 (MathRand 0) None None (MathRand 0)) s \<and> l_written s = zeros 3 \<and> l_status s = 1 \<and>
    3 * grant (snd (l_rcv s)) \<le> 4 * sendCredit (l_snd s)"
proof -
  let ?i = "link_init 8 (MathRand 0) None None (MathRand 0)"
  let ?s = "foldl (link_exec None) ?i [AStatus 0, ASend 3, ADeliver, ARead, ARead]"
  have r: "link_reach None ?i ?s" by (rule link_exec_reach [OF link_reach.start])
  have s: "l_peak ?s + int (l_status ?s) \<le> FlowControlMaxWindowSize" "l_data ?s = []" "l_upds ?s = []"
    "recvQueue (snd (l_rcv ?s)) = []" "l_written ?s = zeros 3" "l_status ?s = 1"
    by (simp_all add: link_eval)
  have "3 * grant (snd (l_rcv ?s)) \<le> 4 * sendCredit (l_snd ?s)"
    using link_no_starvation [OF _ r s(1-3), of "MathRand 0" "MathRand 0"] s(4) by blast
  with r s(5,6) show ?thesis by blast
qed

text \<open>
  C9. A channel response breaks the acceptance of an honest sender: the byte it queues is returned to the peer as credit when
  it is read although the peer never paid for it.  With a budget that allows no growth, one
  response and ordinary traffic bring an honest sender to a payload that its credit covers and
  that the receiver refuses, although the grant is still the initial window.
\<close>

theorem status_byte_overrun:
  "\<exists>s. link_reach (Some 1) (link_init 8 (MathRand 0) (Some (NewReceiveWindowBudget 0)) (Some 1) (MathRand 0)) s \<and>
    l_status s = 1 \<and> l_peak s = FlowControlInitialWindowSize \<and> 0 \<le> sendCredit (l_snd s) \<and> l_rejected s"
proof -
  let ?i = "link_init 8 (MathRand 0) (Some (NewReceiveWindowBudget 0)) (Some 1) (MathRand 0)"
  let ?a = "[AStatus 4, ARead, ASend 16383, ADeliver, ARead, AUpdate] @
    [ASend 32752, ASend 32752, ASend 32752, ASend 32752, ASend 32752, ASend 32752, ASend 32752, ASend 32752, ASend 129] @
    [ADeliver, ADeliver, ADeliver, ADeliver, ADeliver, ADeliver, ADeliver, ADeliver, ADeliver]"
  let ?s = "foldl (link_exec (Some 1)) ?i ?a"
  have "link_reach (Some 1) ?i ?s" by (rule link_exec_reach [OF link_reach.start])
  moreover have "l_status ?s = 1 \<and> l_peak ?s = FlowControlInitialWindowSize \<and> 0 \<le> sendCredit (l_snd ?s) \<and> l_rejected ?s"
    by (simp add: link_eval)
  ultimately show ?thesis by blast
qed

end
