(* ===== verification/MuxConn.thy ===== *)
theory MuxConn
  imports Channel
begin

text \<open>
  The multiplexed connection of \<^verbatim>\<open>pkg/mux\<close>: channel table and limits (\<^verbatim>\<open>channel.go\<close>), the
  packet queue (\<^verbatim>\<open>send_packet.go\<close>), close (\<^verbatim>\<open>lifecycle.go\<close>) and the invalid state
  (\<^verbatim>\<open>invalid.go\<close>).

  Channels are objects with identity (\<^verbatim>\<open>removeFromMux\<close> compares pointers), so they live in a
  store and the channel table holds addresses.  The budget the mux points to is part of the
  state; its other users are other muxes.  Callbacks into the client or server are
  recorded as events.  The ciphers, obfuscation headers and the socket are below this level:
  a packet is sent when it enters the write queue of the mux.
\<close>

section \<open>State\<close>

datatype invalid_reason =
  ReasonNone | ReasonHeaderMAC | ReasonPacketMAC | ReasonTimestampRepeat | ReasonTimestampFailed
| ReasonNoTimestamp | ReasonObfHeader | ReasonUserAuth | ReasonRequestDecode | ReasonChannelRange
| ReasonFlowControl | ReasonChannelResponse

datatype mux_err =
  ErrConnectionInvalid | ErrConnectionClosed | ErrMaxAllocations | ErrAllocationAge | ErrMaxConcurrent
| ErrInvalidChannelID | ErrChannelExists | ErrChannelUsed | ErrPayloadTooLarge | ErrNoMACKey | ErrNoObfPool
| ErrWriteQueueFull | ErrInvalidStatus | ErrEmptyRequest | ErrInvalidFlowControl | ErrInvalidWindowUpdate
| ErrInvalidChannelResponse | ErrInvalidKeepAlive | ErrChan chan_err

datatype mux_event =
  EvPacket byte bytes | EvReverseRoute bytes | EvKeepAlive duration bool | EvBalanceReply

record mux =
  mx_self :: nat
  mx_channels :: "(byte \<times> nat) list"
  mx_store :: "nat \<Rightarrow> chan option"
  mx_fresh :: nat
  mx_nextChannelID :: byte
  mx_allocCount :: int
  mx_maxAllocCount :: int
  mx_activeCount :: int
  mx_maxActiveCount :: int
  mx_createdAt :: time
  mx_maxAllocAge :: duration
  mx_lastPacket :: int
  mx_closed :: bool
  mx_writeQueue :: "(byte \<times> bytes) list"
  mx_hasMacKey :: bool
  mx_hasSendPool :: bool
  mx_onPacket :: bool
  mx_onKeepAlive :: bool
  mx_onReverseRoute :: bool
  mx_isServer :: bool
  mx_bytesSent :: u64
  mx_bytesReceived :: u64
  mx_balanceReplyThreshold :: byte
  mx_balanceReplyInFlight :: bool
  mx_lastData :: int
  mx_lastKeepAlive :: int
  mx_keepAliveInterval :: int
  mx_hasReceivedData :: bool
  mx_refreshKeepAliveBeforeData :: bool
  mx_firstPacketSentAt :: time
  mx_firstKeepAliveHit :: bool
  mx_invalidReason :: invalid_reason
  mx_invalidDrainRemaining :: int
  mx_invalidTimer :: bool
  mx_invalidDeadline :: time
  mx_hasSentTimestamp :: bool
  mx_hasReceivedTimestamp :: bool
  mx_usedChannelIDs :: "byte list"
  mx_budget :: budget_ptr
  mx_events :: "mux_event list"

text \<open>\<^verbatim>\<open>UnixNano\<close> and \<^verbatim>\<open>UnixMilli\<close> of a time counted from Go's zero time.\<close>

definition UnixNano :: "time \<Rightarrow> int" where
  "UnixNano t = t - 62135596800 * 1000000000"

definition UnixMilli :: "time \<Rightarrow> int" where
  "UnixMilli t = UnixNano t div 1000000"

text \<open>One random byte, or the \<^verbatim>\<open>math/rand\<close> fallback, reduced to a range.\<close>

definition byte_intn :: "entropy \<Rightarrow> int \<Rightarrow> int" where
  "byte_intn e span =
     (case e of CryptoRand w \<Rightarrow> uint (ucast w :: byte) mod span | MathRand n \<Rightarrow> int n mod span)"

definition randomKeepAliveInterval :: "entropy \<Rightarrow> int" where
  "randomKeepAliveInterval e =
     (let span = KeepAliveMaxInterval - KeepAliveMinInterval + 1
      in KeepAliveMinInterval + byte_intn e span)"

definition randomBalanceReplyThreshold :: "entropy \<Rightarrow> byte" where
  "randomBalanceReplyThreshold e = word_of_int (64 + byte_intn e 128)"

section \<open>Sending packets\<close>

definition muxWriteQueueSize :: int where
  "muxWriteQueueSize = MaxConfigurableChannelAllocations * 4"

definition IsInvalid :: "mux \<Rightarrow> bool" where
  "IsInvalid mx \<longleftrightarrow> mx_invalidReason mx \<noteq> ReasonNone"

definition IsClosed :: "mux \<Rightarrow> bool" where
  "IsClosed mx = mx_closed mx"

definition enqueueWriteRequest :: "mux \<Rightarrow> byte \<Rightarrow> bytes \<Rightarrow> mux \<times> mux_err option" where
  "enqueueWriteRequest mx channelID payload =
     (if mx_closed mx then (mx, Some ErrConnectionClosed)
      else if int (length (mx_writeQueue mx)) < muxWriteQueueSize
      then (mx\<lparr>mx_writeQueue := mx_writeQueue mx @ [(channelID, payload)]\<rparr>, None)
      else (mx, Some ErrWriteQueueFull))"

definition queuePacket :: "mux \<Rightarrow> byte \<Rightarrow> bytes \<Rightarrow> mux \<times> mux_err option" where
  "queuePacket mx channelID payload =
     (if MaxPacketPayloadSize < length payload then (mx, Some ErrPayloadTooLarge)
      else if \<not> mx_hasMacKey mx then (mx, Some ErrNoMACKey)
      else if \<not> mx_hasSendPool mx then (mx, Some ErrNoObfPool)
      else enqueueWriteRequest mx channelID payload)"

definition SendPacket :: "mux \<Rightarrow> byte \<Rightarrow> bytes \<Rightarrow> mux \<times> mux_err option" where
  "SendPacket mx channelID payload = queuePacket mx channelID payload"

definition sendWindowUpdate :: "mux \<Rightarrow> byte \<Rightarrow> int \<Rightarrow> mux \<times> mux_err option" where
  "sendWindowUpdate mx channelID credit =
     (let payload = encodeWindowUpdate channelID credit
      in if length payload = 0 then (mx, None)
         else SendPacket mx FlowControlChannelID payload)"

definition encodeChannelControl :: "byte \<Rightarrow> byte \<Rightarrow> bytes" where
  "encodeChannelControl channelID status = [channelID, status]"

definition sendChannelControl :: "mux \<Rightarrow> byte \<Rightarrow> byte \<Rightarrow> mux \<times> mux_err option" where
  "sendChannelControl mx channelID status =
     (if channelID < FirstChannelID then (mx, Some ErrInvalidChannelID)
      else if status \<noteq> ChannelResponseOK \<and> status \<noteq> ChannelResponseFailed \<and> status \<noteq> ChannelControlFIN
        \<and> status \<noteq> ChannelControlClose \<and> status \<noteq> ChannelResponseAccepted
      then (mx, Some ErrInvalidStatus)
      else SendPacket mx KeepAliveChannelID (encodeChannelControl channelID status))"

section \<open>Channel table and limits\<close>

definition maxChannelAllocationsLocked :: "mux \<Rightarrow> int" where
  "maxChannelAllocationsLocked mx =
     (if mx_maxAllocCount mx \<le> 0 then MaxChannelAllocations
      else if MaxConfigurableChannelAllocations < mx_maxAllocCount mx
      then MaxConfigurableChannelAllocations
      else mx_maxAllocCount mx)"

definition maxConcurrentChannelsLocked :: "mux \<Rightarrow> int" where
  "maxConcurrentChannelsLocked mx =
     (if mx_maxActiveCount mx \<le> 0 then MaxConcurrentChannels
      else if MaxConfigurableChannelAllocations < mx_maxActiveCount mx
      then MaxConfigurableChannelAllocations
      else mx_maxActiveCount mx)"

definition channelAllocationAgeExpiredLocked :: "mux \<Rightarrow> time \<Rightarrow> bool" where
  "channelAllocationAgeExpiredLocked mx now =
     (if mx_maxAllocAge mx \<le> 0 \<or> is_zero (mx_createdAt mx) then False
      else \<not> now < mx_createdAt mx + mx_maxAllocAge mx)"

definition CanAllocChannel :: "mux \<Rightarrow> time \<Rightarrow> bool" where
  "CanAllocChannel mx now \<longleftrightarrow>
     \<not> mx_closed mx \<and> \<not> IsInvalid mx \<and> mx_allocCount mx < maxChannelAllocationsLocked mx \<and>
     \<not> channelAllocationAgeExpiredLocked mx now \<and> mx_activeCount mx < maxConcurrentChannelsLocked mx"

record allocation_snapshot =
  as_Closed :: bool
  as_AllocCount :: int
  as_MaxAllocCount :: int
  as_ActiveCount :: int
  as_MaxActiveCount :: int
  as_AgeExpired :: bool

definition AllocationSnapshot :: "mux \<Rightarrow> time \<Rightarrow> allocation_snapshot" where
  "AllocationSnapshot mx now =
     \<lparr>as_Closed = mx_closed mx, as_AllocCount = mx_allocCount mx,
      as_MaxAllocCount = maxChannelAllocationsLocked mx, as_ActiveCount = mx_activeCount mx,
      as_MaxActiveCount = maxConcurrentChannelsLocked mx,
      as_AgeExpired = channelAllocationAgeExpiredLocked mx now\<rparr>"

definition SetMaxConcurrentChannels :: "mux \<Rightarrow> int \<Rightarrow> mux" where
  "SetMaxConcurrentChannels mx maxChannels =
     (if maxChannels \<le> 0 then mx\<lparr>mx_maxActiveCount := MaxConcurrentChannels\<rparr>
      else mx\<lparr>mx_maxActiveCount :=
        (if MaxConfigurableChannelAllocations < maxChannels
         then MaxConfigurableChannelAllocations else maxChannels)\<rparr>)"

definition SetMaxChannelAllocations :: "mux \<Rightarrow> int \<Rightarrow> mux" where
  "SetMaxChannelAllocations mx maxAllocations =
     (if maxAllocations \<le> 0 then mx\<lparr>mx_maxAllocCount := MaxChannelAllocations\<rparr>
      else mx\<lparr>mx_maxAllocCount :=
        (if MaxConfigurableChannelAllocations < maxAllocations
         then MaxConfigurableChannelAllocations else maxAllocations)\<rparr>)"

definition SetMaxChannelAllocationAge :: "mux \<Rightarrow> duration \<Rightarrow> time \<Rightarrow> mux" where
  "SetMaxChannelAllocationAge mx maxAge now =
     (if is_zero (mx_createdAt mx) then mx\<lparr>mx_createdAt := now, mx_maxAllocAge := maxAge\<rparr>
      else mx\<lparr>mx_maxAllocAge := maxAge\<rparr>)"

definition SetReceiveWindowBudget :: "mux \<Rightarrow> budget_ptr \<Rightarrow> mux" where
  "SetReceiveWindowBudget mx budget =
     (if length (mx_channels mx) \<noteq> 0 then mx else mx\<lparr>mx_budget := budget\<rparr>)"

text \<open>Adding a channel object under an id, shared by allocation and registration.\<close>

definition chan_at :: "mux \<Rightarrow> nat \<Rightarrow> chan" where
  "chan_at mx a = the (mx_store mx a)"

definition addChannel :: "mux \<Rightarrow> byte \<Rightarrow> entropy \<Rightarrow> mux \<times> nat" where
  "addChannel mx channelID e =
     (let (bp, ch) = newChannel (mx_budget mx) (Some (mx_self mx)) channelID e;
          a = mx_fresh mx
      in (mx\<lparr>mx_usedChannelIDs := List.insert channelID (mx_usedChannelIDs mx), mx_budget := bp,
             mx_store := (mx_store mx)(a \<mapsto> ch), mx_fresh := Suc a,
             mx_channels := AList.update channelID a (mx_channels mx),
             mx_allocCount := mx_allocCount mx + 1, mx_activeCount := mx_activeCount mx + 1\<rparr>, a))"

definition AllocChannel :: "mux \<Rightarrow> time \<Rightarrow> entropy \<Rightarrow> mux \<times> (mux_err + nat)" where
  "AllocChannel mx now e =
     (if IsInvalid mx then (mx, Inl ErrConnectionInvalid)
      else if mx_closed mx then (mx, Inl ErrConnectionClosed)
      else if maxChannelAllocationsLocked mx \<le> mx_allocCount mx then (mx, Inl ErrMaxAllocations)
      else if channelAllocationAgeExpiredLocked mx now then (mx, Inl ErrAllocationAge)
      else if maxConcurrentChannelsLocked mx \<le> mx_activeCount mx then (mx, Inl ErrMaxConcurrent)
      else
        (let channelID = mx_nextChannelID mx;
             (mx', a) = addChannel (mx\<lparr>mx_nextChannelID := mx_nextChannelID mx + 1\<rparr>) channelID e
         in (mx', Inr a)))"

definition RegisterRequestedChannel :: "mux \<Rightarrow> byte \<Rightarrow> entropy \<Rightarrow> mux \<times> (mux_err + nat)" where
  "RegisterRequestedChannel mx channelID e =
     (if IsInvalid mx then (mx, Inl ErrConnectionInvalid)
      else if channelID < FirstChannelID then (mx, Inl ErrInvalidChannelID)
      else if mx_closed mx then (mx, Inl ErrConnectionClosed)
      else if map_of (mx_channels mx) channelID \<noteq> None then (mx, Inl ErrChannelExists)
      else if channelID \<in> set (mx_usedChannelIDs mx) then (mx, Inl ErrChannelUsed)
      else (let (mx', a) = addChannel mx channelID e in (mx', Inr a)))"

section \<open>Channel operations through the mux\<close>

definition put_chan :: "nat \<Rightarrow> chan \<Rightarrow> budget_ptr \<Rightarrow> mux \<Rightarrow> mux" where
  "put_chan a ch bp mx = mx\<lparr>mx_store := (mx_store mx)(a \<mapsto> ch), mx_budget := bp\<rparr>"

definition mux_enqueue :: "mux \<Rightarrow> nat \<Rightarrow> bytes \<Rightarrow> entropy \<Rightarrow> mux \<times> chan_err option" where
  "mux_enqueue mx a payload e =
     (case enqueuePayload (mx_budget mx) (Some (mx_self mx)) (chan_at mx a) payload e of
        (bp, ch, Inl err) \<Rightarrow> (put_chan a ch bp mx, Some err)
      | (bp, ch, Inr extraCredit) \<Rightarrow>
          (let mx1 = put_chan a ch bp mx
           in (if 0 < extraCredit then fst (sendWindowUpdate mx1 (ch_ID ch) extraCredit) else mx1, None)))"

definition mux_read ::
  "mux \<Rightarrow> nat \<Rightarrow> time option \<Rightarrow> time \<Rightarrow> entropy \<Rightarrow> entropy \<Rightarrow> mux \<times> read_outcome" where
  "mux_read mx a deadline now e1 e2 =
     (case readWithDeadline (mx_budget mx) (Some (mx_self mx)) (chan_at mx a) deadline now e1 e2 of
        (bp, ch, ReadData d credit) \<Rightarrow>
          (let mx1 = put_chan a ch bp mx
           in (if 0 < credit then fst (sendWindowUpdate mx1 (ch_ID ch) credit) else mx1, ReadData d credit))
      | (bp, ch, r) \<Rightarrow> (put_chan a ch bp mx, r))"

definition removeFromMux :: "mux \<Rightarrow> nat \<Rightarrow> mux" where
  "removeFromMux mx a =
     (let i = ch_ID (chan_at mx a)
      in if map_of (mx_channels mx) i = Some a
         then mx\<lparr>mx_channels := AList.delete i (mx_channels mx), mx_activeCount := mx_activeCount mx - 1\<rparr>
         else mx)"

definition mux_markClosed :: "mux \<Rightarrow> nat \<Rightarrow> mux \<times> bool" where
  "mux_markClosed mx a =
     (case markClosed (mx_budget mx) (Some (mx_self mx)) (chan_at mx a) of
        (bp, ch, done) \<Rightarrow> (put_chan a ch bp mx, done))"

definition Channel_Close :: "mux \<Rightarrow> nat \<Rightarrow> mux" where
  "Channel_Close mx a =
     (case mux_markClosed mx a of (mx1, done) \<Rightarrow> if \<not> done then mx1 else removeFromMux mx1 a)"

definition sendClose :: "mux \<Rightarrow> nat \<Rightarrow> mux \<times> mux_err option" where
  "sendClose mx a =
     (case mux_markClosed mx a of
        (mx1, done) \<Rightarrow>
          if \<not> done then (mx1, None)
          else
            (let (mx2, err) = sendChannelControl mx1 (ch_ID (chan_at mx1 a)) ChannelControlClose
             in (removeFromMux mx2 a, err)))"

definition mux_sendFIN :: "mux \<Rightarrow> nat \<Rightarrow> mux \<times> mux_err option" where
  "mux_sendFIN mx a =
     (let ch = chan_at mx a
      in if closedFlag ch then (mx, Some (ErrChan ErrChannelClosed))
         else if localFIN ch then (mx, None)
         else
           (case sendChannelControl mx (ch_ID ch) ChannelControlFIN of
              (mx1, err) \<Rightarrow>
                (put_chan a (fst (sendFIN (chan_at mx1 a) (err \<noteq> None))) (mx_budget mx1) mx1, err)))"

text \<open>
  One chunk of \<^verbatim>\<open>writeWithDeadline\<close> on the mux: reserve credit, queue the packet, give the credit
  back when that fails.  The result is the number of bytes taken from the data.
\<close>

definition mux_write_chunk ::
  "mux \<Rightarrow> nat \<Rightarrow> bytes \<Rightarrow> time option \<Rightarrow> time \<Rightarrow> mux \<times> (mux_err + nat) option" where
  "mux_write_chunk mx a data deadline now =
     (case reserveSendCreditWithDeadline (chan_at mx a) (IsClosed mx)
             (int (min (length data) MaxPacketPayloadSize)) deadline now of
        (ch, Reserved n) \<Rightarrow>
          (let mx1 = put_chan a ch (mx_budget mx) mx
           in case SendPacket mx1 (ch_ID ch) (take (nat n) data) of
                (mx2, Some err) \<Rightarrow>
                  (put_chan a (addSendCredit (chan_at mx2 a) n) (mx_budget mx2) mx2, Some (Inl err))
              | (mx2, None) \<Rightarrow> (mx2, Some (Inr (nat n))))
      | (ch, ReserveErr err) \<Rightarrow> (mx, Some (Inl (ErrChan err)))
      | (ch, ReserveTimedOut) \<Rightarrow> (mx, Some (Inl (ErrChan ErrDeadlineExceeded)))
      | (ch, ReserveBlocked) \<Rightarrow> (mx, None))"

section \<open>Closing the mux\<close>

text \<open>
  \<^verbatim>\<open>Close\<close> closes every channel of the table without removing it, empties the table, and
  releases what is left in the budget.  It leaves \<^verbatim>\<open>activeCount\<close> as it was.
\<close>

definition close_channels :: "mux \<Rightarrow> mux" where
  "close_channels mx = foldl (\<lambda>m a. fst (mux_markClosed m a)) mx (map snd (mx_channels mx))"

definition Mux_Close :: "mux \<Rightarrow> mux" where
  "Mux_Close mx =
     (if mx_closed mx then mx
      else
        (let mx1 = mx\<lparr>mx_closed := True, mx_invalidTimer := False\<rparr>;
             mx2 = close_channels mx1;
             mx3 = mx2\<lparr>mx_channels := []\<rparr>
         in if mx_budget mx3 \<noteq> None
            then mx3\<lparr>mx_budget := RemoveMux (mx_budget mx3) (Some (mx_self mx3))\<rparr> else mx3))"

section \<open>Invalid state\<close>

text \<open>
  \<open>drain\<close> is the number of bytes \<^verbatim>\<open>randomPostTimestampInvalidDrainSize\<close> draws; it is computed
  from a floating-point logarithm and is an input here.
\<close>

definition SetInvalid :: "mux \<Rightarrow> invalid_reason \<Rightarrow> int \<Rightarrow> time \<Rightarrow> mux" where
  "SetInvalid mx reason drain now =
     (if mx_invalidReason mx \<noteq> ReasonNone then mx
      else
        (let authenticated = (mx_isServer mx \<and> mx_hasReceivedTimestamp mx);
             mx1 = (if authenticated \<and> reason \<noteq> ReasonNone
                    then mx\<lparr>mx_invalidDrainRemaining := drain, mx_lastPacket := UnixNano now,
                            mx_invalidTimer := False\<rparr>
                    else mx);
             mx2 = mx1\<lparr>mx_invalidReason := reason\<rparr>
         in if \<not> mx_isServer mx2 \<or> reason = ReasonNone then mx2
            else if authenticated
            then if mx_invalidDrainRemaining mx2 = 0 then Mux_Close mx2 else mx2
            else if mx_invalidDeadline mx2 - now \<le> 0 then Mux_Close mx2 else mx2))"

definition invalid_timer_fired :: "mux \<Rightarrow> mux" where
  "invalid_timer_fired mx =
     (let mx1 = mx\<lparr>mx_invalidTimer := False\<rparr>
      in if \<not> mx_hasReceivedTimestamp mx1 then Mux_Close mx1 else mx1)"

definition addBytesReceived :: "mux \<Rightarrow> int \<Rightarrow> mux" where
  "addBytesReceived mx n = mx\<lparr>mx_bytesReceived := mx_bytesReceived mx + word_of_int n\<rparr>"

text \<open>
  One round of the read loop in the invalid state: the socket returned \<open>n\<close> bytes, at most
  the buffer offered, and possibly an error.
\<close>

definition drain_buffer :: "mux \<Rightarrow> int" where
  "drain_buffer mx =
     (if mx_isServer mx \<and> mx_hasReceivedTimestamp mx \<and> mx_invalidDrainRemaining mx < 256
      then mx_invalidDrainRemaining mx else 256)"

definition drain_round :: "mux \<Rightarrow> int \<Rightarrow> bool \<Rightarrow> time \<Rightarrow> mux" where
  "drain_round mx n err now =
     (let bounded = (mx_isServer mx \<and> mx_hasReceivedTimestamp mx)
      in if bounded \<and> mx_invalidDrainRemaining mx \<le> 0 then Mux_Close mx
         else
           (let mx1 = addBytesReceived mx n
            in if bounded \<and> 0 < n
               then
                 (let mx2 = mx1\<lparr>mx_lastPacket := UnixNano now,
                                mx_invalidDrainRemaining := mx_invalidDrainRemaining mx1 - n\<rparr>
                  in if mx_invalidDrainRemaining mx2 \<le> 0 then Mux_Close mx2
                     else if err then Mux_Close mx2 else mx2)
               else if err then Mux_Close mx1 else mx1))"

section \<open>Creation\<close>

definition startInvalidDeadlineTimer :: "mux \<Rightarrow> time \<Rightarrow> mux" where
  "startInvalidDeadlineTimer mx now =
     (if mx_invalidDeadline mx - now \<le> 0 then Mux_Close mx else mx\<lparr>mx_invalidTimer := True\<rparr>)"

text \<open>
  The fields of this model at creation.  \<open>timeout\<close> is the key-derived invalid timeout and
  \<open>hasKey\<close> says whether a packet key was given.  The client has its header pool from the
  start; the server starts its deadline timer.
\<close>

definition NewMuxConnWithHandshake ::
  "nat \<Rightarrow> bool \<Rightarrow> bool \<Rightarrow> duration \<Rightarrow> time \<Rightarrow> entropy \<Rightarrow> entropy \<Rightarrow> mux" where
  "NewMuxConnWithHandshake self isServer hasKey timeout now e1 e2 =
     (let mx =
        \<lparr>mx_self = self, mx_channels = [], mx_store = (\<lambda>_. None), mx_fresh = 0,
         mx_nextChannelID = FirstChannelID, mx_allocCount = 0, mx_maxAllocCount = MaxChannelAllocations,
         mx_activeCount = 0, mx_maxActiveCount = MaxConcurrentChannels, mx_createdAt = now,
         mx_maxAllocAge = 0, mx_lastPacket = UnixNano now, mx_closed = False, mx_writeQueue = [],
         mx_hasMacKey = hasKey, mx_hasSendPool = (\<not> isServer), mx_onPacket = False, mx_onKeepAlive = False,
         mx_onReverseRoute = False, mx_isServer = isServer, mx_bytesSent = 0, mx_bytesReceived = 0,
         mx_balanceReplyThreshold = randomBalanceReplyThreshold e2, mx_balanceReplyInFlight = False,
         mx_lastData = UnixNano now, mx_lastKeepAlive = UnixNano now,
         mx_keepAliveInterval = randomKeepAliveInterval e1, mx_hasReceivedData = False,
         mx_refreshKeepAliveBeforeData = False, mx_firstPacketSentAt = zero_time, mx_firstKeepAliveHit = False,
         mx_invalidReason = ReasonNone, mx_invalidDrainRemaining = 0, mx_invalidTimer = False,
         mx_invalidDeadline = now + timeout, mx_hasSentTimestamp = False,
         mx_hasReceivedTimestamp = False, mx_usedChannelIDs = [],
         mx_budget = None, mx_events = []\<rparr>
      in if isServer then startInvalidDeadlineTimer mx now
         else mx\<lparr>mx_hasReceivedTimestamp := True\<rparr>)"

end
