(* ===== verification/MuxDispatch.thy ===== *)
theory MuxDispatch
  imports MuxConn
begin

text \<open>
  What a mux does with a received and authenticated packet: the end of \<^verbatim>\<open>readLoop\<close>
  (\<^verbatim>\<open>read_loop.go\<close>), the control messages (\<^verbatim>\<open>channel_response.go\<close>, \<^verbatim>\<open>flow_control.go\<close>,
  \<^verbatim>\<open>keepalive.go\<close>), timestamps (\<^verbatim>\<open>timestamp.go\<close>) and the keep-alive ticker.
\<close>

section \<open>Control messages\<close>

definition encodeChannelRequest :: "byte \<Rightarrow> byte \<Rightarrow> bytes \<Rightarrow> bytes" where
  "encodeChannelRequest channelID proxyLevel request = [channelID, proxyLevel] @ request"

definition DecodeChannelRequest :: "bytes \<Rightarrow> (byte \<times> byte \<times> bytes) option" where
  "DecodeChannelRequest payload =
     (if length payload < 3 then None
      else
        (let channelID = payload ! 0
         in if channelID < FirstChannelID then None
            else Some (channelID, payload ! 1, drop 2 payload)))"

definition SendChannelRequestWithProxyLevel ::
  "mux \<Rightarrow> byte \<Rightarrow> byte \<Rightarrow> bytes \<Rightarrow> mux \<times> mux_err option" where
  "SendChannelRequestWithProxyLevel mx channelID proxyLevel request =
     (if channelID < FirstChannelID then (mx, Some ErrInvalidChannelID)
      else if length request = 0 then (mx, Some ErrEmptyRequest)
      else SendPacket mx ChannelRequestChannelID (encodeChannelRequest channelID proxyLevel request))"

definition SendChannelRequest :: "mux \<Rightarrow> byte \<Rightarrow> bytes \<Rightarrow> mux \<times> mux_err option" where
  "SendChannelRequest mx channelID request = SendChannelRequestWithProxyLevel mx channelID 0 request"

definition decodeChannelControl :: "bytes \<Rightarrow> (byte \<times> byte) option" where
  "decodeChannelControl payload =
     (if length payload \<noteq> KeepAlivePayloadSize then None
      else
        (let channelID = payload ! 0
         in if channelID < FirstChannelID then None
            else
              (let status = payload ! 1
               in if status \<noteq> ChannelResponseOK \<and> status \<noteq> ChannelResponseFailed \<and>
                     status \<noteq> ChannelControlFIN \<and> status \<noteq> ChannelControlClose \<and>
                     status \<noteq> ChannelResponseAccepted
                  then None else Some (channelID, status))))"

definition SendChannelResponse :: "mux \<Rightarrow> byte \<Rightarrow> byte \<Rightarrow> mux \<times> mux_err option" where
  "SendChannelResponse mx channelID status =
     (if channelID < FirstChannelID then (mx, Some ErrInvalidChannelID)
      else if status \<noteq> ChannelResponseOK \<and> status \<noteq> ChannelResponseFailed \<and>
        status \<noteq> ChannelResponseAccepted
      then (mx, Some ErrInvalidStatus)
      else sendChannelControl mx channelID status)"

definition SendResponse :: "mux \<Rightarrow> nat \<Rightarrow> byte \<Rightarrow> mux \<times> mux_err option" where
  "SendResponse mx a status =
     (if closedFlag (chan_at mx a) then (mx, Some (ErrChan ErrChannelClosed))
      else SendChannelResponse mx (ch_ID (chan_at mx a)) status)"

definition handleChannelResponse :: "mux \<Rightarrow> bytes \<Rightarrow> entropy \<Rightarrow> mux \<times> mux_err option" where
  "handleChannelResponse mx payload e =
     (case decodeChannelControl payload of
        None \<Rightarrow> (mx, Some ErrInvalidChannelResponse)
      | Some (channelID, status) \<Rightarrow>
          (case map_of (mx_channels mx) channelID of
             None \<Rightarrow> (mx, None)
           | Some a \<Rightarrow>
               if status = ChannelResponseOK \<or> status = ChannelResponseFailed \<or>
                  status = ChannelResponseAccepted
               then
                 (case mux_enqueue mx a [status] e of
                    (mx1, Some err) \<Rightarrow> (mx1, if err = ErrChannelClosed then None else Some (ErrChan err))
                  | (mx1, None) \<Rightarrow> (mx1, None))
               else if status = ChannelControlFIN
               then (put_chan a (receiveFIN (chan_at mx a)) (mx_budget mx) mx, None)
               else if status = ChannelControlClose then (Channel_Close mx a, None)
               else (mx, None)))"

definition handleFlowControl :: "mux \<Rightarrow> bytes \<Rightarrow> mux \<times> mux_err option" where
  "handleFlowControl mx payload =
     (case decodeWindowUpdate payload of
        None \<Rightarrow> (mx, Some ErrInvalidFlowControl)
      | Some (channelID, credit) \<Rightarrow>
          if channelID < FirstChannelID \<or> credit = 0 then (mx, Some ErrInvalidWindowUpdate)
          else
            (case map_of (mx_channels mx) channelID of
               None \<Rightarrow> (mx, None)
             | Some a \<Rightarrow> (put_chan a (addSendCredit (chan_at mx a) (uint credit)) (mx_budget mx) mx, None)))"

section \<open>Keep-alive and activity\<close>

definition updatePacketTime :: "mux \<Rightarrow> time \<Rightarrow> entropy \<Rightarrow> mux" where
  "updatePacketTime mx now e =
     mx\<lparr>mx_lastPacket := UnixNano now, mx_lastKeepAlive := UnixNano now,
        mx_keepAliveInterval := randomKeepAliveInterval e\<rparr>"

definition elapsedSinceUnixNano :: "int \<Rightarrow> time \<Rightarrow> duration" where
  "elapsedSinceUnixNano value now = (if value \<le> 0 then 0 else UnixNano now - value)"

definition recordDataActivity :: "mux \<Rightarrow> byte \<Rightarrow> int \<Rightarrow> bool \<Rightarrow> time \<Rightarrow> mux" where
  "recordDataActivity mx channelID payloadLen received now =
     (if payloadLen \<le> 0 \<or> (channelID \<noteq> ChannelRequestChannelID \<and> channelID < FirstChannelID) then mx
      else
        (let mx1 = mx\<lparr>mx_lastData := UnixNano now\<rparr>
         in if received then mx1\<lparr>mx_hasReceivedData := True\<rparr> else mx1))"

definition IsIdle :: "mux \<Rightarrow> time \<Rightarrow> bool" where
  "IsIdle mx now \<longleftrightarrow> seconds SocketIdleTimeout < elapsedSinceUnixNano (mx_lastPacket mx) now"

definition encodeMuxKeepAlive :: "byte \<Rightarrow> bytes" where
  "encodeMuxKeepAlive mode = [KeepAliveMuxTarget, mode]"

definition markFirstPacketSent :: "mux \<Rightarrow> time \<Rightarrow> mux" where
  "markFirstPacketSent mx t =
     (if is_zero (mx_firstPacketSentAt mx) then mx\<lparr>mx_firstPacketSentAt := t\<rparr> else mx)"

definition firstKeepAlivePing :: "mux \<Rightarrow> time \<Rightarrow> mux \<times> duration \<times> bool" where
  "firstKeepAlivePing mx now =
     (if mx_firstKeepAliveHit mx \<or> is_zero (mx_firstPacketSentAt mx) then (mx, 0, False)
      else (mx\<lparr>mx_firstKeepAliveHit := True\<rparr>, now - mx_firstPacketSentAt mx, True))"

definition handleMuxKeepAlive :: "mux \<Rightarrow> time \<Rightarrow> mux" where
  "handleMuxKeepAlive mx now =
     (if \<not> mx_onKeepAlive mx then mx
      else
        (case firstKeepAlivePing mx now of
           (mx1, ping, ok) \<Rightarrow> mx1\<lparr>mx_events := mx_events mx1 @ [EvKeepAlive ping ok]\<rparr>))"

definition handleKeepAliveControl :: "mux \<Rightarrow> bytes \<Rightarrow> time \<Rightarrow> entropy \<Rightarrow> mux \<times> mux_err option" where
  "handleKeepAliveControl mx payload now e =
     (if length payload \<noteq> KeepAlivePayloadSize then (mx, Some ErrInvalidKeepAlive)
      else
        (let target = payload ! 0; v = payload ! 1
         in if target = KeepAliveMuxTarget
            then if v = KeepAliveModeNormal then (handleMuxKeepAlive mx now, None)
                 else if v = KeepAliveModeRefreshIdle
                 then ((updatePacketTime (mx\<lparr>mx_lastData := UnixNano now\<rparr>) now e)
                         \<lparr>mx_hasReceivedData := True\<rparr>, None)
                 else if v = KeepAliveModeAuthOK then (handleMuxKeepAlive mx now, None)
                 else (mx, Some ErrInvalidKeepAlive)
            else if FirstChannelID \<le> target then handleChannelResponse mx payload e
            else (mx, Some ErrInvalidKeepAlive)))"

definition sendKeepAlive :: "mux \<Rightarrow> mux \<times> mux_err option" where
  "sendKeepAlive mx =
     (if \<not> mx_hasReceivedData mx \<and> mx_refreshKeepAliveBeforeData mx
      then SendPacket mx KeepAliveChannelID (encodeMuxKeepAlive KeepAliveModeRefreshIdle)
      else SendPacket mx KeepAliveChannelID (encodeMuxKeepAlive KeepAliveModeNormal))"

text \<open>One tick of \<^verbatim>\<open>keepAliveLoop\<close>; the boolean says whether the loop goes on.\<close>

definition keepAliveTick :: "mux \<Rightarrow> time \<Rightarrow> mux \<times> bool" where
  "keepAliveTick mx now =
     (if mx_isServer mx \<and> mx_hasReceivedTimestamp mx \<and> mx_invalidReason mx \<noteq> ReasonNone then (mx, True)
      else if mx_closed mx then (mx, False)
      else if \<not> mx_hasReceivedData mx \<and> \<not> mx_refreshKeepAliveBeforeData mx then (mx, True)
      else if mx_hasReceivedData mx \<and> seconds NoDataTimeout < elapsedSinceUnixNano (mx_lastData mx) now
      then (Mux_Close mx, False)
      else if seconds (mx_keepAliveInterval mx) < elapsedSinceUnixNano (mx_lastKeepAlive mx) now
      then (case sendKeepAlive mx of
              (mx1, Some err) \<Rightarrow> (Mux_Close mx1, False)
            | (mx1, None) \<Rightarrow> (mx1, True))
      else (mx, True))"

definition shouldSendBalanceReply :: "mux \<Rightarrow> entropy \<Rightarrow> bool" where
  "shouldSendBalanceReply mx e \<longleftrightarrow> byte_intn e 256 < uint (mx_balanceReplyThreshold mx)"

text \<open>The reply itself is sent by another goroutine: an event here, a step below.\<close>

definition checkAndBalanceTraffic :: "mux \<Rightarrow> entropy \<Rightarrow> mux" where
  "checkAndBalanceTraffic mx e =
     (if mx_bytesSent mx * 3 < mx_bytesReceived mx \<and> shouldSendBalanceReply mx e
      then if \<not> mx_balanceReplyInFlight mx
           then mx\<lparr>mx_balanceReplyInFlight := True, mx_events := mx_events mx @ [EvBalanceReply]\<rparr>
           else mx
      else mx)"

definition balance_reply :: "mux \<Rightarrow> mux" where
  "balance_reply mx =
     (fst (SendPacket mx KeepAliveChannelID (encodeMuxKeepAlive KeepAliveModeNormal)))
       \<lparr>mx_balanceReplyInFlight := False\<rparr>"

section \<open>Timestamps\<close>

text \<open>The process-wide counters of \<^verbatim>\<open>nextClientTimestampMs\<close>, by client id; absent is 0.\<close>

definition nextClientTimestampMs ::
  "(bytes \<times> int) list \<Rightarrow> bytes \<Rightarrow> time \<Rightarrow> (bytes \<times> int) list \<times> int" where
  "nextClientTimestampMs counters i now =
     (let last = (case map_of counters i of None \<Rightarrow> 0 | Some n \<Rightarrow> n);
          ms = (if UnixMilli now \<le> last then last + 1 else UnixMilli now)
      in (AList.update i ms counters, ms))"

text \<open>
  The timestamp payload: the first 8 bytes of the handshake's timestamp id, or the process-wide
  client id when that is shorter, and the milliseconds.
\<close>

definition stampID :: "bytes \<Rightarrow> bytes \<Rightarrow> bytes" where
  "stampID timestampID clientID =
     (if ClientIDSize \<le> length timestampID then take ClientIDSize timestampID
      else take ClientIDSize clientID)"

definition timestampPayload :: "bytes \<Rightarrow> bytes \<Rightarrow> int \<Rightarrow> bytes" where
  "timestampPayload timestampID clientID ms = stampID timestampID clientID @ put64 (word_of_int ms)"

definition validateTimestamp :: "bytes \<Rightarrow> time \<Rightarrow> bool" where
  "validateTimestamp payload now =
     (if length payload \<noteq> TimestampPayloadSize then False
      else
        (let timestampMs = sint (get64 (drop ClientIDSize payload));
             nowMs = UnixMilli now;
             maxDriftMs = MaxTimeDrift div 1000000
         in \<not> (nowMs + maxDriftMs < timestampMs \<or> timestampMs < nowMs - maxDriftMs)))"

section \<open>Dispatch\<close>

text \<open>
  What the environment contributes to one packet: the time, the random draws, the size of a
  drain, and whether the crypto layer accepts the timestamp as the base of its send nonce.
\<close>

record packet_env =
  pe_now :: time
  pe_e1 :: entropy
  pe_e2 :: entropy
  pe_e3 :: entropy
  pe_drain :: int
  pe_nonceErr :: bool

definition dispatchTimestamp :: "mux \<Rightarrow> bytes \<Rightarrow> packet_env \<Rightarrow> mux" where
  "dispatchTimestamp mx payload pe =
     (if \<not> mx_isServer mx then mx
      else if mx_hasReceivedTimestamp mx then SetInvalid mx ReasonTimestampRepeat (pe_drain pe) (pe_now pe)
      else if \<not> validateTimestamp payload (pe_now pe)
      then SetInvalid mx ReasonTimestampFailed (pe_drain pe) (pe_now pe)
      else if pe_nonceErr pe then SetInvalid mx ReasonUserAuth (pe_drain pe) (pe_now pe)
      else
        (case SendPacket (mx\<lparr>mx_hasReceivedTimestamp := True\<rparr>) KeepAliveChannelID
                (encodeMuxKeepAlive KeepAliveModeAuthOK) of
           (mx1, Some err) \<Rightarrow> Mux_Close mx1
         | (mx1, None) \<Rightarrow> updatePacketTime mx1 (pe_now pe) (pe_e1 pe)))"

definition dispatchData :: "mux \<Rightarrow> byte \<Rightarrow> bytes \<Rightarrow> packet_env \<Rightarrow> mux" where
  "dispatchData mx channelID payload pe =
     (let mx1 = checkAndBalanceTraffic mx (pe_e2 pe);
          mx2 = recordDataActivity mx1 channelID (int (length payload)) True (pe_now pe)
      in case map_of (mx_channels mx2) channelID of
           Some a \<Rightarrow>
             (case mux_enqueue mx2 a payload (pe_e3 pe) of
                (mx3, Some err) \<Rightarrow>
                  if err = ErrChannelClosed then mx3
                  else SetInvalid mx3 ReasonFlowControl (pe_drain pe) (pe_now pe)
              | (mx3, None) \<Rightarrow> mx3)
         | None \<Rightarrow>
             if channelID \<in> set (mx_usedChannelIDs mx2) then mx2
             else SetInvalid mx2 ReasonChannelRange (pe_drain pe) (pe_now pe))"

definition dispatchPacket :: "mux \<Rightarrow> byte \<Rightarrow> bytes \<Rightarrow> packet_env \<Rightarrow> mux" where
  "dispatchPacket mx0 channelID payload pe =
     (if channelID = TimestampChannelID then dispatchTimestamp mx0 payload pe
      else
        (let mx = updatePacketTime mx0 (pe_now pe) (pe_e1 pe)
         in if channelID = KeepAliveChannelID
            then (case handleKeepAliveControl mx payload (pe_now pe) (pe_e3 pe) of
                    (mx1, Some err) \<Rightarrow> SetInvalid mx1 ReasonChannelResponse (pe_drain pe) (pe_now pe)
                  | (mx1, None) \<Rightarrow> mx1)
            else if mx_isServer mx \<and> \<not> mx_hasReceivedTimestamp mx
            then SetInvalid mx ReasonNoTimestamp (pe_drain pe) (pe_now pe)
            else if channelID = ChannelRequestChannelID
            then if \<not> mx_onPacket mx then SetInvalid mx ReasonChannelRange (pe_drain pe) (pe_now pe)
                 else
                   (let mx1 = recordDataActivity mx channelID (int (length payload)) True (pe_now pe)
                    in mx1\<lparr>mx_events := mx_events mx1 @ [EvPacket channelID payload]\<rparr>)
            else if channelID = ReverseRouteChannelID
            then if \<not> mx_onReverseRoute mx then SetInvalid mx ReasonChannelRange (pe_drain pe) (pe_now pe)
                 else mx\<lparr>mx_events := mx_events mx @ [EvReverseRoute payload]\<rparr>
            else if channelID = FlowControlChannelID
            then (case handleFlowControl mx payload of
                    (mx1, Some err) \<Rightarrow> SetInvalid mx1 ReasonFlowControl (pe_drain pe) (pe_now pe)
                  | (mx1, None) \<Rightarrow> mx1)
            else dispatchData mx channelID payload pe))"

text \<open>
  The read loop only reads a packet while the mux is neither closed nor invalid; otherwise it
  stops or drains.
\<close>

definition receivePacket :: "mux \<Rightarrow> byte \<Rightarrow> bytes \<Rightarrow> packet_env \<Rightarrow> mux" where
  "receivePacket mx channelID payload pe =
     (if mx_closed mx \<or> IsInvalid mx then mx else dispatchPacket mx channelID payload pe)"

section \<open>Writer\<close>

text \<open>
  One round of \<^verbatim>\<open>writeLoop\<close>: it takes a request and writes it; a failed write closes the mux.
  The first packet a client writes carries its timestamp.  The wire format is below this
  model; \<open>n\<close> is the number of bytes written.
\<close>

definition packet_sent :: "mux \<Rightarrow> byte \<Rightarrow> bytes \<Rightarrow> bool \<Rightarrow> int \<Rightarrow> time \<Rightarrow> entropy \<Rightarrow> mux \<times> bool" where
  "packet_sent mx channelID payload err n now e =
     (let first = (\<not> mx_isServer mx \<and> \<not> mx_hasSentTimestamp mx);
          mx1 = (if first then markFirstPacketSent mx now else mx)
      in if err then (mx1, False)
         else
           (let mx2 = mx1\<lparr>mx_bytesSent := mx_bytesSent mx1 + word_of_int n\<rparr>;
                mx3 = (if first then mx2\<lparr>mx_hasSentTimestamp := True\<rparr> else mx2)
            in (updatePacketTime (recordDataActivity mx3 channelID (int (length payload)) False now) now e, True)))"

definition writer_round :: "mux \<Rightarrow> bool \<Rightarrow> int \<Rightarrow> time \<Rightarrow> entropy \<Rightarrow> mux" where
  "writer_round mx err n now e =
     (case mx_writeQueue mx of
        [] \<Rightarrow> mx
      | (channelID, payload) # rest \<Rightarrow>
          (let mx1 = mx\<lparr>mx_writeQueue := rest\<rparr>
           in if mx_closed mx1 then mx1
              else
                (case packet_sent mx1 channelID payload err n now e of
                   (mx2, ok) \<Rightarrow> if ok then mx2 else Mux_Close mx2)))"

end
