(* ===== verification/MuxInv.thy ===== *)
theory MuxInv
  imports MuxDispatch
begin

text \<open>
  The invariant of a mux connection and its preservation: the channel table, the channel
  objects and the shared budget agree after every operation and every received packet.
\<close>

section \<open>Frames of the channel operations\<close>

lemma resize_frame:
  assumes "TryResizeChannel bp mc i n = (bp', ok)"
  shows "m \<noteq> mc \<or> j \<noteq> i \<Longrightarrow> ChannelAllocation bp' m j = ChannelAllocation bp m j"
    and "bp' = None \<longleftrightarrow> bp = None"
proof -
  have "(m \<noteq> mc \<or> j \<noteq> i \<longrightarrow> ChannelAllocation bp' m j = ChannelAllocation bp m j) \<and> (bp' = None \<longleftrightarrow> bp = None)"
  proof (cases bp)
    case None
    then show ?thesis using assms by (simp add: TryResizeChannel_def)
  next
    case (Some b)
    show ?thesis
    proof (cases "bp' = bp")
      case False
      then obtain mcv a where mc: "mc = Some mcv" and a: "map_of (b_muxes b) mcv = Some a"
        and bp': "\<exists>a' u. bp' = Some (b\<lparr>b_muxes := AList.update mcv (a\<lparr>ma_channels := AList.update i n (ma_channels a), ma_excess := a'\<rparr>) (b_muxes b), b_used := u\<rparr>)"
        using assms Some by (auto simp: TryResizeChannel_def Let_def split: option.splits if_splits)
      then show ?thesis using Some
        by (cases m) (auto simp: ChannelAllocation_def update_conv')
    qed (use Some in auto)
  qed
  then show "m \<noteq> mc \<or> j \<noteq> i \<Longrightarrow> ChannelAllocation bp' m j = ChannelAllocation bp m j"
    and "bp' = None \<longleftrightarrow> bp = None" by auto
qed

text \<open>An operation of channel \<open>i\<close> leaves every other allocation alone.\<close>

definition only_touches :: "mux_ptr \<Rightarrow> byte \<Rightarrow> budget_ptr \<Rightarrow> budget_ptr \<Rightarrow> bool" where
  "only_touches mc i bp bp' \<longleftrightarrow> (bp' = None \<longleftrightarrow> bp = None) \<and>
     (\<forall>m j. m \<noteq> mc \<or> j \<noteq> i \<longrightarrow> ChannelAllocation bp' m j = ChannelAllocation bp m j)"

lemma touches_refl [simp]: "only_touches mc i bp bp"
  by (simp add: only_touches_def)

lemma touches_resize: "TryResizeChannel bp mc i n = (bp', ok) \<Longrightarrow> only_touches mc i bp bp'"
  unfolding only_touches_def using resize_frame by blast

lemma touches_resize_fst [simp]: "only_touches mc i bp (fst (TryResizeChannel bp mc i n))"
  by (rule touches_resize [OF prod.collapse [symmetric]])

lemma touches_adjust:
  assumes "adjustReceiveWindowLocked bp mc ch n e = (bp', ch', x)"
  shows "only_touches mc (ch_ID ch) bp bp'"
  using assms
proof (cases rule: adjust_cases)
  case denied
  then show ?thesis by (auto intro: touches_resize)
next
  case grow
  then show ?thesis by (auto intro: touches_resize split: if_splits)
qed auto

lemma touches_enqueue:
  assumes "enqueuePayload bp mc ch p e = (bp', ch', r)"
  shows "only_touches mc (ch_ID ch) bp bp'"
proof -
  let ?c = "ch\<lparr>recvQueue := recvQueue ch @ [p], recvBuffered := recvBuffered ch + int (length p)\<rparr>"
  obtain b c x where adj: "adjustReceiveWindowLocked bp mc ?c (int (length p)) e = (b, c, x)"
    by (rule prod_cases3)
  then have "only_touches mc (ch_ID ch) bp b" using touches_adjust [OF adj] by simp
  with assms adj show ?thesis by (auto simp: enqueuePayload_def Let_def split: if_splits)
qed

lemma touches_release:
  assumes "releaseReceiveCredit bp mc ch n e1 e2 = (bp', ch', c)"
  shows "only_touches mc (ch_ID ch) bp bp'"
  using assms by (auto simp: releaseReceiveCredit_def Let_def split: if_splits)

lemma touches_read:
  assumes "readWithDeadline bp mc ch dl now e1 e2 = (bp', ch', r)"
  shows "only_touches mc (ch_ID ch) bp bp'"
proof (cases "recvQueue ch = []")
  case True
  then show ?thesis using assms reads_empty(3) [OF True, of bp mc dl now e1 e2] by auto
next
  case False
  let ?d = "hd (recvQueue ch)"
  let ?c = "ch\<lparr>recvQueue := tl (recvQueue ch), recvBuffered := recvBuffered ch - int (length ?d)\<rparr>"
  obtain b c x where rel: "releaseReceiveCredit bp mc ?c (int (length ?d)) e1 e2 = (b, c, x)"
    by (rule prod_cases3)
  then have "only_touches mc (ch_ID ch) bp b" using touches_release [OF rel] by simp
  with assms rel False show ?thesis
    by (auto simp: reads_take_queued(3) take_queued_def Let_def)
qed

section \<open>Invariant\<close>

text \<open>
  \<open>table_ok\<close> relates a list of table entries, the channel objects and the budget: an entry
  points to an open channel of that id which is charged for its window; an object not in the
  list is closed; an id not in the list has no allocation.
\<close>

definition open_chan :: "budget_ptr \<Rightarrow> nat \<Rightarrow> (nat \<Rightarrow> chan option) \<Rightarrow> byte \<Rightarrow> nat \<Rightarrow> bool" where
  "open_chan bp self st i a \<longleftrightarrow>
     (\<exists>ch. st a = Some ch \<and> ch_ID ch = i \<and> chan_inv ch \<and> \<not> closedFlag ch \<and> charged bp (Some self) ch)"

definition table_ok :: "mux \<Rightarrow> (byte \<times> nat) list \<Rightarrow> bool" where
  "table_ok mx L \<longleftrightarrow>
     distinct (keys L) \<and> distinct (map snd L) \<and>
     (\<forall>(i, a) \<in> set L. open_chan (mx_budget mx) (mx_self mx) (mx_store mx) i a \<and>
        FirstChannelID \<le> i \<and> i \<in> set (mx_usedChannelIDs mx)) \<and>
     (\<forall>a ch. mx_store mx a = Some ch \<longrightarrow>
        a < mx_fresh mx \<and> chan_inv ch \<and> (closedFlag ch \<or> (ch_ID ch, a) \<in> set L)) \<and>
     (\<forall>b. mx_budget mx = Some b \<longrightarrow> budget_inv b \<and>
        (\<forall>i. i \<notin> set (keys L) \<longrightarrow> ChannelAllocation (mx_budget mx) (Some (mx_self mx)) i = None))"

definition mux_ok :: "mux \<Rightarrow> bool" where
  "mux_ok mx \<longleftrightarrow> table_ok mx (mx_channels mx) \<and>
     (if mx_closed mx then mx_channels mx = [] else mx_activeCount mx = int (length (mx_channels mx)))"

lemma table_ok_cong:
  assumes "table_ok mx L" and "mx_self mx' = mx_self mx" and "mx_store mx' = mx_store mx"
    and "mx_fresh mx' = mx_fresh mx" and "mx_usedChannelIDs mx' = mx_usedChannelIDs mx"
    and "mx_budget mx' = mx_budget mx"
  shows "table_ok mx' L"
  using assms by (simp add: table_ok_def)

lemma mux_ok_cong:
  assumes "mux_ok mx" and "mx_self mx' = mx_self mx" and "mx_store mx' = mx_store mx"
    and "mx_fresh mx' = mx_fresh mx" and "mx_usedChannelIDs mx' = mx_usedChannelIDs mx"
    and "mx_budget mx' = mx_budget mx" and "mx_channels mx' = mx_channels mx"
    and "mx_closed mx' = mx_closed mx" and "mx_activeCount mx' = mx_activeCount mx"
  shows "mux_ok mx'"
  using assms table_ok_cong [of mx "mx_channels mx" mx'] by (simp add: mux_ok_def)

lemma table_entry:
  assumes "table_ok mx L" and "(i, a) \<in> set L"
  shows "ch_ID (chan_at mx a) = i" "mx_store mx a = Some (chan_at mx a)" "chan_inv (chan_at mx a)"
    "\<not> closedFlag (chan_at mx a)" "charged (mx_budget mx) (Some (mx_self mx)) (chan_at mx a)"
    "FirstChannelID \<le> i" "i \<in> set (mx_usedChannelIDs mx)" "a < mx_fresh mx"
  using assms by (auto simp: table_ok_def open_chan_def chan_at_def)

lemma table_inj:
  assumes "table_ok mx L" and "(i, a) \<in> set L" and "(j, c) \<in> set L"
  shows "a = c \<longleftrightarrow> i = j"
proof
  show "a = c \<Longrightarrow> i = j" using table_entry(1) [OF assms(1,2)] table_entry(1) [OF assms(1,3)] by simp
  assume "i = j"
  moreover have "distinct (keys L)" using assms(1) by (simp add: table_ok_def)
  ultimately show "a = c" using assms(2,3) by (metis map_of_eq_Some_iff option.inject)
qed

lemma charged_frame:
  assumes "charged bp mc ch" and "ch_ID ch \<noteq> i" and "only_touches mc i bp bp'"
    and "\<And>b. bp' = Some b \<Longrightarrow> budget_inv b"
  shows "charged bp' mc ch"
  using assms by (cases bp; cases bp') (auto simp: charged_def only_touches_def)

text \<open>Replacing the state of one open channel.\<close>

lemma table_put:
  assumes ok: "table_ok mx L" and ia: "(i, a) \<in> set L"
    and ch: "ch_ID ch = i" "chan_inv ch" "\<not> closedFlag ch" "charged bp (Some (mx_self mx)) ch"
    and tch: "only_touches (Some (mx_self mx)) i (mx_budget mx) bp"
  shows "table_ok (put_chan a ch bp mx) L"
proof -
  have bi: "budget_inv b" if "bp = Some b" for b using ch(4) that by (simp add: charged_def)
  have entry: "open_chan bp (mx_self mx) ((mx_store mx)(a \<mapsto> ch)) j c"
    if jc: "(j, c) \<in> set L" for j c
  proof (cases "c = a")
    case True
    have "j = i" using table_inj [OF ok ia jc] True by simp
    with True ch show ?thesis by (simp add: open_chan_def)
  next
    case False
    then have "j \<noteq> i" using table_inj [OF ok ia jc] by simp
    with False table_entry [OF ok jc] charged_frame [OF table_entry(5) [OF ok jc] _ tch bi] show ?thesis
      by (auto simp: open_chan_def)
  qed
  have none: "ChannelAllocation bp (Some (mx_self mx)) j = None" if "j \<notin> set (keys L)" "bp = Some b" for j b
  proof -
    have "j \<noteq> i" using that(1) ia by force
    moreover have "mx_budget mx \<noteq> None" using that(2) tch by (auto simp: only_touches_def)
    ultimately show ?thesis using ok tch that(1) by (auto simp: table_ok_def only_touches_def)
  qed
  show ?thesis
    using ok entry none bi ia ch(1,2) table_entry(8) [OF ok ia]
    by (auto simp: table_ok_def put_chan_def)
qed

lemma ok_put:
  assumes ok: "mux_ok mx" and "map_of (mx_channels mx) i = Some a"
    and "ch_ID ch = i" "chan_inv ch" "\<not> closedFlag ch" "charged bp (Some (mx_self mx)) ch"
    and "only_touches (Some (mx_self mx)) i (mx_budget mx) bp"
  shows "mux_ok (put_chan a ch bp mx)"
proof -
  have "table_ok (put_chan a ch bp mx) (mx_channels mx)"
    by (rule table_put [OF _ map_of_SomeD [OF assms(2)]]) (use assms in \<open>simp_all add: mux_ok_def\<close>)
  with ok show ?thesis by (simp add: mux_ok_def put_chan_def)
qed

section \<open>Operations on one channel\<close>

lemma SendPacket_queue:
  "fst (SendPacket mx i p) = mx\<lparr>mx_writeQueue := mx_writeQueue (fst (SendPacket mx i p))\<rparr>"
  by (simp add: SendPacket_def queuePacket_def enqueueWriteRequest_def)

lemma sendWindowUpdate_queue:
  "fst (sendWindowUpdate mx i c) = mx\<lparr>mx_writeQueue := mx_writeQueue (fst (sendWindowUpdate mx i c))\<rparr>"
  using SendPacket_queue by (simp add: sendWindowUpdate_def Let_def)

lemma sendChannelControl_queue:
  "fst (sendChannelControl mx i st) = mx\<lparr>mx_writeQueue := mx_writeQueue (fst (sendChannelControl mx i st))\<rparr>"
  using SendPacket_queue by (simp add: sendChannelControl_def)

lemma chan_at_simps [simp]:
  "chan_at (mx\<lparr>mx_writeQueue := q\<rparr>) = chan_at mx"
  "chan_at (put_chan a ch bp mx) = (chan_at mx)(a := ch)"
  by (auto simp: chan_at_def put_chan_def fun_eq_iff)

lemma send_fields [simp]:
  "mx_channels (fst (sendChannelControl mx i st)) = mx_channels mx"
  "mx_budget (fst (sendChannelControl mx i st)) = mx_budget mx"
  "chan_at (fst (sendChannelControl mx i st)) = chan_at mx"
  "mx_channels (fst (SendPacket mx i p)) = mx_channels mx"
  "mx_budget (fst (SendPacket mx i p)) = mx_budget mx"
  "chan_at (fst (SendPacket mx i p)) = chan_at mx"
  by (subst sendChannelControl_queue SendPacket_queue, simp)+

lemma put_fields [simp]:
  "mx_channels (put_chan a ch bp mx) = mx_channels mx" "mx_budget (put_chan a ch bp mx) = bp"
  "mx_self (put_chan a ch bp mx) = mx_self mx" "mx_closed (put_chan a ch bp mx) = mx_closed mx"
  by (simp_all add: put_chan_def)

lemma mux_ok_queue [simp]: "mux_ok (mx\<lparr>mx_writeQueue := q\<rparr>) \<longleftrightarrow> mux_ok mx"
  by (auto intro: mux_ok_cong)

lemma ok_send [simp]:
  "mux_ok (fst (SendPacket mx i p)) \<longleftrightarrow> mux_ok mx"
  "mux_ok (fst (sendWindowUpdate mx i c)) \<longleftrightarrow> mux_ok mx"
  "mux_ok (fst (sendChannelControl mx i st)) \<longleftrightarrow> mux_ok mx"
  by (subst SendPacket_queue sendWindowUpdate_queue sendChannelControl_queue, simp)+

lemma ok_entry:
  assumes "mux_ok mx" and "map_of (mx_channels mx) i = Some a"
  shows "ch_ID (chan_at mx a) = i" "mx_store mx a = Some (chan_at mx a)" "chan_inv (chan_at mx a)"
    "\<not> closedFlag (chan_at mx a)" "charged (mx_budget mx) (Some (mx_self mx)) (chan_at mx a)"
    "FirstChannelID \<le> i" "i \<in> set (mx_usedChannelIDs mx)"
  using table_entry [OF _ map_of_SomeD [OF assms(2)], of mx] assms(1) by (auto simp: mux_ok_def)

lemma enqueue_ok:
  assumes ok: "mux_ok mx" and a: "map_of (mx_channels mx) i = Some a"
  shows "mux_ok (fst (mux_enqueue mx a p e))"
proof -
  let ?c = "chan_at mx a"
  obtain bp ch r where enq: "enqueuePayload (mx_budget mx) (Some (mx_self mx)) ?c p e = (bp, ch, r)"
    by (rule prod_cases3)
  note en = ok_entry [OF ok a]
  have t: "only_touches (Some (mx_self mx)) i (mx_budget mx) bp" using touches_enqueue [OF enq] en(1) by simp
  have "ch_ID ch = i \<and> chan_inv ch \<and> \<not> closedFlag ch \<and> charged bp (Some (mx_self mx)) ch"
  proof -
    consider "p = []" | "p \<noteq> []" "\<not> accepts ?c p" | "p \<noteq> []" "accepts ?c p" by blast
    then show ?thesis
    proof cases
      case 1
      then show ?thesis using enq en by (simp add: enqueuePayload_def)
    next
      case 2
      then show ?thesis
        using enq en enqueue_rejected [OF 2 buffered_nonneg [OF en(3)], of "mx_budget mx" "Some (mx_self mx)" e]
        by auto
    next
      case 3
      then show ?thesis using enqueue_accepted [OF en(3,5) 3 enq] en by auto
    qed
  qed
  then have "mux_ok (put_chan a ch bp mx)" using ok_put [OF ok a _ _ _ _ t] by blast
  then show ?thesis using enq by (cases r) (auto simp: mux_enqueue_def Let_def)
qed

lemma read_ok_mux:
  assumes ok: "mux_ok mx" and a: "map_of (mx_channels mx) i = Some a"
  shows "mux_ok (fst (mux_read mx a dl now e1 e2))"
proof -
  let ?c = "chan_at mx a"
  obtain bp ch r where rd: "readWithDeadline (mx_budget mx) (Some (mx_self mx)) ?c dl now e1 e2 = (bp, ch, r)"
    by (rule prod_cases3)
  note en = ok_entry [OF ok a]
  have t: "only_touches (Some (mx_self mx)) i (mx_budget mx) bp" using touches_read [OF rd] en(1) by simp
  have "chan_ok (Some (mx_self mx)) (mx_budget mx, ?c)" using en by (simp add: chan_ok_def)
  from chan_do_ok [OF this, of "COpReadDeadline dl now e1 e2"] rd
  have "chan_ok (Some (mx_self mx)) (bp, ch) \<and> ch_ID ch = i" using en(1) by simp
  moreover have "closedFlag ch = closedFlag ?c"
  proof (cases "recvQueue ?c")
    case Nil
    then show ?thesis using rd reads_empty(3) [OF Nil, of "mx_budget mx" "Some (mx_self mx)" dl now e1 e2] by auto
  next
    case (Cons d q)
    then have "take_queued (mx_budget mx) (Some (mx_self mx)) ?c e1 e2 = (bp, ch, r)"
      using rd reads_take_queued(3) [of ?c] by simp
    from take_queued_effect [OF en(3,5) Cons this] show ?thesis by auto
  qed
  ultimately have "mux_ok (put_chan a ch bp mx)" using ok_put [OF ok a _ _ _ _ t] en(4) by (simp add: chan_ok_def)
  then show ?thesis using rd by (cases r) (auto simp: mux_read_def Let_def)
qed

lemma put_same_budget:
  assumes ok: "mux_ok mx" and a: "map_of (mx_channels mx) i = Some a"
    and "ch_ID ch = i" "chan_inv ch" "\<not> closedFlag ch" "grant ch = grant (chan_at mx a)"
  shows "mux_ok (put_chan a ch (mx_budget mx) mx)"
  using assms ok_entry [OF ok a] charged_cong [of "mx_budget mx" "Some (mx_self mx)" "chan_at mx a" ch]
  by (intro ok_put [OF ok a]) auto

lemma mark_closed_again:
  assumes "closedFlag (chan_at mx a)" and "mx_store mx a \<noteq> None"
  shows "mux_markClosed mx a = (mx, False)"
proof -
  have "(mx_store mx)(a \<mapsto> chan_at mx a) = mx_store mx"
    using assms(2) by (auto simp: chan_at_def fun_eq_iff)
  then show ?thesis using assms(1) by (simp add: mux_markClosed_def markClosed_def put_chan_def)
qed

lemma touches_remove:
  assumes "markClosed bp mc ch = (bp', ch', r)"
  shows "only_touches mc (ch_ID ch) bp bp'"
proof (cases "bp = None \<or> mc = None \<or> closedFlag ch")
  case True
  then have "bp' = bp" using assms by (auto simp: markClosed_def split: if_splits)
  then show ?thesis by simp
next
  case False
  then obtain b m where b: "bp = Some b" "mc = Some m" by auto
  have "ChannelAllocation (RemoveChannel (Some b) (Some m) (ch_ID ch)) x j = ChannelAllocation (Some b) x j"
    if "x \<noteq> Some m \<or> j \<noteq> ch_ID ch" for x j
  proof (cases "map_of (b_muxes b) m")
    case None
    then show ?thesis by (simp add: RemoveChannel_def)
  next
    case (Some al)
    show ?thesis
    proof (cases "map_of (ma_channels al) (ch_ID ch)")
      case None
      with Some show ?thesis by (simp add: RemoveChannel_def)
    next
      case (Some n)
      have rest: "map_of (ma_channels al) j = None"
        if "AList.delete (ch_ID ch) (ma_channels al) = []" "j \<noteq> ch_ID ch" for j
        using that map_of_delete_other [of "ch_ID ch" "ma_channels al"] by (metis fun_upd_other map_of.simps(1))
      with Some \<open>map_of (b_muxes b) m = Some al\<close> that show ?thesis
        by (cases x) (auto simp: RemoveChannel_def ChannelAllocation_def Let_def update_conv' map_of_delete_other)
    qed
  qed
  moreover have "RemoveChannel (Some b) (Some m) (ch_ID ch) \<noteq> None"
    by (auto simp: RemoveChannel_def Let_def split: option.splits)
  ultimately show ?thesis using assms b False by (auto simp: markClosed_def only_touches_def)
qed

text \<open>Closing an open channel takes its entry out of the list.\<close>

lemma table_close:
  assumes ok: "table_ok mx L" and ia: "(i, a) \<in> set L"
  shows "snd (mux_markClosed mx a)" and "table_ok (fst (mux_markClosed mx a)) (AList.delete i L)"
proof -
  note en = table_entry [OF ok ia]
  obtain bp ch r where mk: "markClosed (mx_budget mx) (Some (mx_self mx)) (chan_at mx a) = (bp, ch, r)"
    by (rule prod_cases3)
  note eff = markClosed_effect [OF en(3,4) mk]
  note t = touches_remove [OF mk, unfolded en(1)]
  show "snd (mux_markClosed mx a)" using mk eff by (simp add: mux_markClosed_def)
  let ?L = "AList.delete i L"
  have L: "set ?L = {p \<in> set L. fst p \<noteq> i}" by (auto simp: AList.delete_eq)
  have bi: "budget_inv b" if "bp = Some b" for b using eff en(5) that by auto
  have entry: "open_chan bp (mx_self mx) ((mx_store mx)(a \<mapsto> ch)) j c" if jc: "(j, c) \<in> set ?L" for j c
  proof -
    have jc': "(j, c) \<in> set L" "j \<noteq> i" using jc L by auto
    then have "c \<noteq> a" using table_inj [OF ok ia jc'(1)] by simp
    with jc' table_entry [OF ok jc'(1)] charged_frame [OF table_entry(5) [OF ok jc'(1)] _ t bi] show ?thesis
      by (auto simp: open_chan_def)
  qed
  have none: "ChannelAllocation bp (Some (mx_self mx)) j = None" if "j \<notin> set (keys ?L)" "bp = Some b" for j b
  proof (cases "j = i")
    case True
    then show ?thesis using eff en(1,5) by simp
  next
    case False
    have "mx_budget mx \<noteq> None" using that(2) t by (auto simp: only_touches_def)
    moreover have "j \<notin> set (keys L)" using that(1) False L by force
    ultimately show ?thesis using ok t False by (auto simp: table_ok_def only_touches_def)
  qed
  have objs: "c < mx_fresh mx \<and> chan_inv x \<and> (closedFlag x \<or> (ch_ID x, c) \<in> set ?L)"
    if "((mx_store mx)(a \<mapsto> ch)) c = Some x" for c x
  proof (cases "c = a")
    case True
    then show ?thesis using that eff en(8) by auto
  next
    case False
    then have o: "mx_store mx c = Some x" using that by simp
    then have "c < mx_fresh mx \<and> chan_inv x \<and> (closedFlag x \<or> (ch_ID x, c) \<in> set L)"
      using ok by (auto simp: table_ok_def)
    moreover have "ch_ID x \<noteq> i" if "(ch_ID x, c) \<in> set L" using table_inj [OF ok ia that] False by auto
    ultimately show ?thesis using L by auto
  qed
  have "distinct (keys ?L)" "distinct (map snd ?L)"
    using ok by (auto simp: table_ok_def AList.delete_eq distinct_map_filter)
  then show "table_ok (fst (mux_markClosed mx a)) ?L"
    using mk entry none objs bi L ok unfolding table_ok_def
    by (auto simp: mux_markClosed_def put_chan_def)
qed

lemma mark_fields [simp]:
  "mx_self (fst (mux_markClosed mx a)) = mx_self mx" "mx_channels (fst (mux_markClosed mx a)) = mx_channels mx"
  "mx_closed (fst (mux_markClosed mx a)) = mx_closed mx" "mx_fresh (fst (mux_markClosed mx a)) = mx_fresh mx"
  "mx_activeCount (fst (mux_markClosed mx a)) = mx_activeCount mx"
  "mx_usedChannelIDs (fst (mux_markClosed mx a)) = mx_usedChannelIDs mx"
  by (simp_all add: mux_markClosed_def put_chan_def split: prod.split)

lemma mark_ID:
  "mx_store mx a \<noteq> None \<Longrightarrow> ch_ID (chan_at (fst (mux_markClosed mx a)) a) = ch_ID (chan_at mx a)"
  by (auto simp: mux_markClosed_def markClosed_def put_chan_def chan_at_def)

text \<open>An object that is not in the table is closed, so every address has one of two states.\<close>

lemma object_cases:
  assumes "mux_ok mx" and "mx_store mx a \<noteq> None"
  obtains (closed) "closedFlag (chan_at mx a)"
  | (listed) "map_of (mx_channels mx) (ch_ID (chan_at mx a)) = Some a"
proof -
  have "closedFlag (chan_at mx a) \<or> (ch_ID (chan_at mx a), a) \<in> set (mx_channels mx)"
    using assms by (auto simp: mux_ok_def table_ok_def chan_at_def)
  moreover have "distinct (keys (mx_channels mx))" using assms(1) by (simp add: mux_ok_def table_ok_def)
  ultimately show ?thesis using that by (auto intro: map_of_is_SomeI)
qed

lemma delete_length:
  assumes "distinct (keys al)" and "map_of al k = Some v"
  shows "int (length (AList.delete k al)) = int (length al) - 1"
  using assms
proof (induction al)
  case (Cons p al)
  show ?case
  proof (cases "fst p = k")
    case True
    then have "k \<notin> set (keys al)" using Cons.prems(1) by auto
    then have "AList.delete k al = al" by (auto simp: AList.delete_eq filter_id_conv image_iff)
    with True show ?thesis by (cases p) simp
  next
    case False
    then show ?thesis using Cons by (cases p) auto
  qed
qed simp

lemma close_entry_ok:
  assumes ok: "mux_ok mx" and a: "map_of (mx_channels mx) i = Some a"
  shows "mux_ok (removeFromMux (fst (mux_markClosed mx a)) a)"
proof -
  have t: "table_ok mx (mx_channels mx)" using ok by (simp add: mux_ok_def)
  note en = ok_entry [OF ok a]
  let ?m = "fst (mux_markClosed mx a)"
  have id: "ch_ID (chan_at ?m a) = i" using mark_ID [of mx a] en(1,2) by simp
  then have eq: "removeFromMux ?m a =
      ?m\<lparr>mx_channels := AList.delete i (mx_channels mx), mx_activeCount := mx_activeCount mx - 1\<rparr>"
    using a by (simp add: removeFromMux_def Let_def)
  have "table_ok (removeFromMux ?m a) (AList.delete i (mx_channels mx))"
    by (rule table_ok_cong [OF table_close(2) [OF t map_of_SomeD [OF a]]]) (simp_all add: eq)
  moreover have "\<not> mx_closed mx" using ok a by (auto simp: mux_ok_def)
  ultimately show ?thesis
    using ok a delete_length [of "mx_channels mx" i a] t by (simp add: eq mux_ok_def table_ok_def)
qed

lemma Channel_Close_ok:
  assumes ok: "mux_ok mx" and st: "mx_store mx a \<noteq> None"
  shows "mux_ok (Channel_Close mx a)"
  using ok st
proof (cases rule: object_cases)
  case closed
  then show ?thesis using ok mark_closed_again [OF closed st] by (simp add: Channel_Close_def)
next
  case listed
  have "table_ok mx (mx_channels mx)" using ok by (simp add: mux_ok_def)
  from table_close(1) [OF this map_of_SomeD [OF listed]] close_entry_ok [OF ok listed] show ?thesis
    by (simp add: Channel_Close_def case_prod_unfold)
qed

lemma sendClose_ok:
  assumes ok: "mux_ok mx" and st: "mx_store mx a \<noteq> None"
  shows "mux_ok (fst (sendClose mx a))"
  using ok st
proof (cases rule: object_cases)
  case closed
  then show ?thesis using ok mark_closed_again [OF closed st] by (simp add: sendClose_def)
next
  case listed
  let ?m = "fst (mux_markClosed mx a)"
  let ?s = "fst (sendChannelControl ?m (ch_ID (chan_at ?m a)) ChannelControlClose)"
  have t: "table_ok mx (mx_channels mx)" using ok by (simp add: mux_ok_def)
  have "removeFromMux (?m\<lparr>mx_writeQueue := q\<rparr>) a = (removeFromMux ?m a)\<lparr>mx_writeQueue := q\<rparr>" for q
    by (simp add: removeFromMux_def Let_def)
  then have "mux_ok (removeFromMux ?s a)"
    using close_entry_ok [OF ok listed] by (subst sendChannelControl_queue) simp
  then show ?thesis using table_close(1) [OF t map_of_SomeD [OF listed]]
    by (simp add: sendClose_def case_prod_unfold Let_def)
qed

lemma sendFIN_ok:
  assumes ok: "mux_ok mx" and st: "mx_store mx a \<noteq> None"
  shows "mux_ok (fst (mux_sendFIN mx a))"
  using ok st
proof (cases rule: object_cases)
  case closed
  then show ?thesis using ok by (simp add: mux_sendFIN_def Let_def)
next
  case listed
  let ?c = "chan_at mx a"
  let ?s = "sendChannelControl mx (ch_ID ?c) ChannelControlFIN"
  have okq: "mux_ok (fst ?s)" using ok by simp
  have a: "map_of (mx_channels (fst ?s)) (ch_ID ?c) = Some a" using listed by simp
  note en = ok_entry [OF ok listed]
  have "mux_ok (put_chan a (fst (sendFIN ?c err)) (mx_budget (fst ?s)) (fst ?s))" for err
    using en by (intro put_same_budget [OF okq a]) (auto simp: sendFIN_def chan_inv_def)
  with ok show ?thesis by (simp add: mux_sendFIN_def Let_def case_prod_unfold)
qed

lemma write_chunk_ok:
  assumes ok: "mux_ok mx" and st: "mx_store mx a \<noteq> None" and ne: "data \<noteq> []"
  shows "mux_ok (fst (mux_write_chunk mx a data dl now))"
proof -
  let ?n = "int (min (length data) MaxPacketPayloadSize)"
  have n: "0 < ?n" using ne by (simp add: MaxPacketPayloadSize_value)
  obtain ch oc where rs: "reserveSendCreditWithDeadline (chan_at mx a) (IsClosed mx) ?n dl now = (ch, oc)"
    by fastforce
  show ?thesis
  proof (cases oc)
    case (Reserved k)
    have op: "\<not> closedFlag (chan_at mx a)"
      using rs Reserved n by (auto simp: reserveSendCreditWithDeadline_def Let_def split: if_splits option.splits)
    then have a: "map_of (mx_channels mx) (ch_ID (chan_at mx a)) = Some a"
      using object_cases [OF ok st] by blast
    note en = ok_entry [OF ok a]
    note rc = reserve_cases [OF en(3) n, of "IsClosed mx" dl now, unfolded rs Reserved prod.case reserve_outcome.case]
    let ?m = "put_chan a ch (mx_budget mx) mx"
    have m: "mux_ok ?m" using rc op by (intro put_same_budget [OF ok a]) auto
    let ?s = "SendPacket ?m (ch_ID ch) (take (nat k) data)"
    have idc: "ch_ID ch = ch_ID (chan_at mx a)" and clc: "\<not> closedFlag ch" and ic: "chan_inv ch" using rc op by auto
    have "mux_ok (put_chan a (addSendCredit ch k) (mx_budget (fst ?s)) (fst ?s))"
    proof (rule put_same_budget)
      show "mux_ok (fst ?s)" using m by simp
      show "map_of (mx_channels (fst ?s)) (ch_ID ch) = Some a" using a idc by simp
    qed (use idc clc ic in \<open>simp_all add: addSendCredit_inv\<close>)
    moreover have "mux_ok (fst ?s)" "chan_at (fst ?s) a = ch" using m by simp_all
    ultimately show ?thesis
      by (simp add: mux_write_chunk_def rs Reserved Let_def case_prod_unfold split: option.split)
  qed (use rs ok in \<open>simp_all add: mux_write_chunk_def\<close>)
qed

section \<open>Adding channels\<close>

lemma update_set_new: "k \<notin> set (keys al) \<Longrightarrow> set (AList.update k v al) = insert (k, v) (set al)"
  by (simp add: update_notin)

lemma addChannel_ok:
  assumes ok: "mux_ok mx" and new: "i \<notin> set (keys (mx_channels mx))" and i: "FirstChannelID \<le> i"
    and op: "\<not> mx_closed mx"
  shows "mux_ok (fst (addChannel mx i e))"
proof -
  obtain bp ch where nc: "newChannel (mx_budget mx) (Some (mx_self mx)) i e = (bp, ch)" by fastforce
  have t: "table_ok mx (mx_channels mx)" using ok by (simp add: mux_ok_def)
  have chg: "charged bp (Some (mx_self mx)) ch"
    by (rule newChannel_charged [OF nc]) (use t new in \<open>auto simp: table_ok_def\<close>)
  have bi: "budget_inv b" if "bp = Some b" for b using chg that by (simp add: charged_def)
  have tch: "only_touches (Some (mx_self mx)) i (mx_budget mx) bp"
  proof (cases "mx_budget mx")
    case None
    then show ?thesis using nc by (auto simp: newChannel_def Let_def)
  next
    case (Some b)
    then have inv: "budget_inv b" using t by (auto simp: table_ok_def)
    have bp: "bp = RegisterChannel (Some b) (Some (mx_self mx)) i" using nc Some by (auto simp: newChannel_def Let_def)
    obtain b' where b': "RegisterChannel (Some b) (Some (mx_self mx)) i = Some b'"
      "\<And>m j. ChannelAllocation (Some b') (Some m) j =
        (if m = mx_self mx \<and> j = i \<and> ChannelAllocation (Some b) (Some (mx_self mx)) i = None
         then Some FlowControlInitialWindowSize else ChannelAllocation (Some b) (Some m) j)"
      using register_effect [OF inv, of "mx_self mx" i] by blast
    have "ChannelAllocation (Some b') x j = ChannelAllocation (Some b) x j"
      if "x \<noteq> Some (mx_self mx) \<or> j \<noteq> i" for x j
      using that b'(2) by (cases x) (auto simp: ChannelAllocation_def)
    with b'(1) bp Some show ?thesis by (simp add: only_touches_def)
  qed
  let ?a = "mx_fresh mx"
  let ?L = "AList.update i ?a (mx_channels mx)"
  note ch = newChannel_inv(1-3) [OF nc]
  have L: "set ?L = insert (i, ?a) (set (mx_channels mx))" using new by (rule update_set_new)
  have entry: "open_chan bp (mx_self mx) ((mx_store mx)(?a \<mapsto> ch)) j c"
    if "(j, c) \<in> set (mx_channels mx)" for j c
  proof -
    have "j \<noteq> i" using that new by force
    moreover have "c \<noteq> ?a" using table_entry(8) [OF t that] by simp
    ultimately show ?thesis
      using table_entry [OF t that] charged_frame [OF table_entry(5) [OF t that] _ tch bi]
      by (auto simp: open_chan_def)
  qed
  have self: "open_chan bp (mx_self mx) ((mx_store mx)(?a \<mapsto> ch)) i ?a"
    using ch chg by (simp add: open_chan_def)
  have none: "ChannelAllocation bp (Some (mx_self mx)) j = None"
    if "j \<noteq> i" "j \<notin> set (keys (mx_channels mx))" "bp = Some b" for j b
  proof -
    have "mx_budget mx \<noteq> None" using that(3) tch by (auto simp: only_touches_def)
    then show ?thesis using t that tch by (auto simp: table_ok_def only_touches_def)
  qed
  have objs: "c < Suc ?a \<and> chan_inv x \<and> (closedFlag x \<or> (ch_ID x, c) \<in> set ?L)"
    if "((mx_store mx)(?a \<mapsto> ch)) c = Some x" for c x
  proof (cases "c = ?a")
    case True
    then show ?thesis using that ch L by auto
  next
    case False
    then have "c < ?a \<and> chan_inv x \<and> (closedFlag x \<or> (ch_ID x, c) \<in> set (mx_channels mx))"
      using that t by (auto simp: table_ok_def)
    then show ?thesis using L by auto
  qed
  have d1: "distinct (keys ?L)" using t by (simp add: table_ok_def distinct_update)
  have "?a \<notin> set (map snd (mx_channels mx))" using table_entry(8) [OF t] by fastforce
  then have d2: "distinct (map snd ?L)" using t new by (simp add: table_ok_def update_notin)
  have t': "table_ok (fst (addChannel mx i e)) ?L"
    unfolding table_ok_def
  proof (intro conjI)
    show "\<forall>(j, c) \<in> set ?L. open_chan (mx_budget (fst (addChannel mx i e))) (mx_self (fst (addChannel mx i e)))
          (mx_store (fst (addChannel mx i e))) j c \<and> FirstChannelID \<le> j \<and>
        j \<in> set (mx_usedChannelIDs (fst (addChannel mx i e)))"
      using nc L entry self i table_entry(6,7) [OF t] by (auto simp: addChannel_def Let_def)
    show "\<forall>c x. mx_store (fst (addChannel mx i e)) c = Some x \<longrightarrow>
        c < mx_fresh (fst (addChannel mx i e)) \<and> chan_inv x \<and> (closedFlag x \<or> (ch_ID x, c) \<in> set ?L)"
      using nc objs by (simp add: addChannel_def Let_def)
    show "\<forall>b. mx_budget (fst (addChannel mx i e)) = Some b \<longrightarrow> budget_inv b \<and>
        (\<forall>j. j \<notin> set (keys ?L) \<longrightarrow> ChannelAllocation (mx_budget (fst (addChannel mx i e)))
          (Some (mx_self (fst (addChannel mx i e)))) j = None)"
      using nc bi none L by (auto simp: addChannel_def Let_def)
  qed (fact d1 d2)+
  show ?thesis
    using t' ok op new nc by (simp add: mux_ok_def addChannel_def Let_def length_update)
qed

section \<open>Close and the invalid state\<close>

lemma close_loop:
  assumes "table_ok mx L"
  shows "table_ok (foldl (\<lambda>m a. fst (mux_markClosed m a)) mx (map snd L)) []"
  using assms
proof (induction L arbitrary: mx)
  case (Cons p L)
  obtain i a where p: "p = (i, a)" by (cases p)
  have "i \<notin> set (keys L)" using Cons.prems p by (simp add: table_ok_def)
  then have "AList.delete i (p # L) = L"
    using p by (auto simp: AList.delete_eq filter_id_conv image_iff)
  then have "table_ok (fst (mux_markClosed mx a)) L"
    using table_close(2) [OF Cons.prems, of i a] p by simp
  from Cons.IH [OF this] p show ?case by simp
qed simp

lemma foldl_mark_fields [simp]:
  "mx_self (foldl (\<lambda>m a. fst (mux_markClosed m a)) mx as) = mx_self mx"
  "mx_channels (foldl (\<lambda>m a. fst (mux_markClosed m a)) mx as) = mx_channels mx"
  "mx_closed (foldl (\<lambda>m a. fst (mux_markClosed m a)) mx as) = mx_closed mx"
  "mx_activeCount (foldl (\<lambda>m a. fst (mux_markClosed m a)) mx as) = mx_activeCount mx"
  by (induction as arbitrary: mx) auto

lemma closed_empty: "chan_inv ch \<Longrightarrow> closedFlag ch \<Longrightarrow> recvQueue ch = []"
  by (simp add: chan_inv_def)

lemma table_empty:
  assumes "table_ok mx []"
  shows "mx_store mx a = Some ch \<Longrightarrow> closedFlag ch \<and> recvQueue ch = []"
    and "ChannelAllocation (mx_budget mx) (Some (mx_self mx)) i = None"
proof -
  show "mx_store mx a = Some ch \<Longrightarrow> closedFlag ch \<and> recvQueue ch = []"
    using assms by (auto simp: table_ok_def closed_empty)
  show "ChannelAllocation (mx_budget mx) (Some (mx_self mx)) i = None"
    using assms by (cases "mx_budget mx") (auto simp: table_ok_def ChannelAllocation_def [of None])
qed

lemma Mux_Close_effect:
  assumes ok: "mux_ok mx"
  shows "mux_ok (Mux_Close mx) \<and> mx_closed (Mux_Close mx) \<and> mx_channels (Mux_Close mx) = [] \<and>
    mx_self (Mux_Close mx) = mx_self mx \<and>
    (\<forall>a ch. mx_store (Mux_Close mx) a = Some ch \<longrightarrow> closedFlag ch \<and> recvQueue ch = []) \<and>
    (\<forall>i. ChannelAllocation (mx_budget (Mux_Close mx)) (Some (mx_self mx)) i = None)"
proof (cases "mx_closed mx")
  case True
  then have "Mux_Close mx = mx" by (simp add: Mux_Close_def)
  moreover have "table_ok mx []" using ok True by (auto simp: mux_ok_def)
  ultimately show ?thesis using ok True table_empty [of mx] by (simp add: mux_ok_def)
next
  case False
  let ?m1 = "mx\<lparr>mx_closed := True, mx_invalidTimer := False\<rparr>"
  let ?m2 = "close_channels ?m1"
  have "table_ok ?m1 (mx_channels ?m1)"
    using table_ok_cong [of mx "mx_channels mx" ?m1] ok by (simp add: mux_ok_def)
  from close_loop [OF this] have t2: "table_ok ?m2 []" by (simp add: close_channels_def)
  have self: "mx_self ?m2 = mx_self mx" "mx_closed ?m2" by (simp_all add: close_channels_def)
  let ?m3 = "?m2\<lparr>mx_channels := []\<rparr>"
  have t3: "table_ok ?m3 []" by (rule table_ok_cong [OF t2]) simp_all
  show ?thesis
  proof (cases "mx_budget ?m2")
    case None
    then have "Mux_Close mx = ?m3" using False by (simp add: Mux_Close_def Let_def)
    with t3 self None table_empty [OF t3] show ?thesis
      by (simp add: mux_ok_def)
  next
    case (Some b)
    then have inv: "budget_inv b" using t2 by (simp add: table_ok_def)
    obtain b' where b': "RemoveMux (Some b) (Some (mx_self mx)) = Some b'" "budget_inv b'"
      "\<forall>m j. ChannelAllocation (Some b') (Some m) j =
        (if m = mx_self mx then None else ChannelAllocation (Some b) (Some m) j)"
      using remove_mux_effect [OF inv, of "mx_self mx"] by blast
    have "Mux_Close mx = ?m3\<lparr>mx_budget := Some b'\<rparr>"
      using False Some b'(1) self by (simp add: Mux_Close_def Let_def)
    moreover have "table_ok (?m3\<lparr>mx_budget := Some b'\<rparr>) []"
      using t3 self b' by (auto simp: table_ok_def)
    ultimately show ?thesis using self table_empty [of "?m3\<lparr>mx_budget := Some b'\<rparr>"]
      by (simp add: mux_ok_def)
  qed
qed

lemma Mux_Close_ok: "mux_ok mx \<Longrightarrow> mux_ok (Mux_Close mx)"
  using Mux_Close_effect by blast

text \<open>Fields the invariant does not see.\<close>

lemma mux_ok_fields [simp]:
  "mux_ok (mx\<lparr>mx_nextChannelID := v1\<rparr>) = mux_ok mx" "mux_ok (mx\<lparr>mx_lastPacket := v2\<rparr>) = mux_ok mx"
  "mux_ok (mx\<lparr>mx_lastData := v3\<rparr>) = mux_ok mx" "mux_ok (mx\<lparr>mx_lastKeepAlive := v4\<rparr>) = mux_ok mx"
  "mux_ok (mx\<lparr>mx_keepAliveInterval := v5\<rparr>) = mux_ok mx" "mux_ok (mx\<lparr>mx_hasReceivedData := v6\<rparr>) = mux_ok mx"
  "mux_ok (mx\<lparr>mx_events := v7\<rparr>) = mux_ok mx" "mux_ok (mx\<lparr>mx_invalidReason := v8\<rparr>) = mux_ok mx"
  "mux_ok (mx\<lparr>mx_invalidDrainRemaining := v9\<rparr>) = mux_ok mx" "mux_ok (mx\<lparr>mx_invalidTimer := w1\<rparr>) = mux_ok mx"
  "mux_ok (mx\<lparr>mx_hasReceivedTimestamp := w2\<rparr>) = mux_ok mx" "mux_ok (mx\<lparr>mx_bytesReceived := w3\<rparr>) = mux_ok mx"
  "mux_ok (mx\<lparr>mx_bytesSent := w4\<rparr>) = mux_ok mx" "mux_ok (mx\<lparr>mx_balanceReplyInFlight := w5\<rparr>) = mux_ok mx"
  "mux_ok (mx\<lparr>mx_firstKeepAliveHit := w6\<rparr>) = mux_ok mx" "mux_ok (mx\<lparr>mx_firstPacketSentAt := w7\<rparr>) = mux_ok mx"
  "mux_ok (mx\<lparr>mx_hasSentTimestamp := w8\<rparr>) = mux_ok mx"
  by (simp_all add: mux_ok_def table_ok_def)

lemma SetInvalid_cases:
  obtains (sticky) "mx_invalidReason mx \<noteq> ReasonNone" "SetInvalid mx reason drain now = mx"
  | (fresh) mx2 where "mx_invalidReason mx = ReasonNone"
      "mx2 = (if mx_isServer mx \<and> mx_hasReceivedTimestamp mx \<and> reason \<noteq> ReasonNone
        then mx\<lparr>mx_invalidDrainRemaining := drain, mx_lastPacket := UnixNano now, mx_invalidTimer := False\<rparr>
        else mx)\<lparr>mx_invalidReason := reason\<rparr>"
      "SetInvalid mx reason drain now = mx2 \<or> SetInvalid mx reason drain now = Mux_Close mx2"
proof (cases "mx_invalidReason mx = ReasonNone")
  case False
  then show ?thesis by (intro sticky) (simp_all add: SetInvalid_def)
next
  case True
  let ?m = "(if mx_isServer mx \<and> mx_hasReceivedTimestamp mx \<and> reason \<noteq> ReasonNone
        then mx\<lparr>mx_invalidDrainRemaining := drain, mx_lastPacket := UnixNano now, mx_invalidTimer := False\<rparr>
        else mx)\<lparr>mx_invalidReason := reason\<rparr>"
  have "SetInvalid mx reason drain now = ?m \<or> SetInvalid mx reason drain now = Mux_Close ?m"
    unfolding SetInvalid_def Let_def conj_assoc by (simp only: True if_False simp_thms split: if_split)
  with True show ?thesis by (rule fresh [OF _ refl])
qed

lemma SetInvalid_ok:
  assumes "mux_ok mx"
  shows "mux_ok (SetInvalid mx reason drain now)"
proof (rule SetInvalid_cases [of mx reason drain now])
  fix mx2
  assume m: "mx2 = (if mx_isServer mx \<and> mx_hasReceivedTimestamp mx \<and> reason \<noteq> ReasonNone
        then mx\<lparr>mx_invalidDrainRemaining := drain, mx_lastPacket := UnixNano now, mx_invalidTimer := False\<rparr>
        else mx)\<lparr>mx_invalidReason := reason\<rparr>"
    and r: "SetInvalid mx reason drain now = mx2 \<or> SetInvalid mx reason drain now = Mux_Close mx2"
  have "mux_ok mx2" using assms unfolding m by simp
  then show ?thesis using r Mux_Close_ok by metis
qed (use assms in simp)

lemma drain_round_ok: "mux_ok mx \<Longrightarrow> mux_ok (drain_round mx n err now)"
  by (simp add: drain_round_def addBytesReceived_def Let_def Mux_Close_ok)

section \<open>Received packets\<close>

lemma updatePacketTime_ok [simp]: "mux_ok (updatePacketTime mx now e) = mux_ok mx"
  by (simp add: updatePacketTime_def)

lemma recordDataActivity_ok [simp]: "mux_ok (recordDataActivity mx i n r now) = mux_ok mx"
  by (simp add: recordDataActivity_def Let_def)

lemma checkAndBalanceTraffic_ok [simp]: "mux_ok (checkAndBalanceTraffic mx e) = mux_ok mx"
  by (simp add: checkAndBalanceTraffic_def)

lemma handleMuxKeepAlive_ok [simp]: "mux_ok (handleMuxKeepAlive mx now) = mux_ok mx"
  by (simp add: handleMuxKeepAlive_def firstKeepAlivePing_def)

lemma handleChannelResponse_ok:
  assumes ok: "mux_ok mx"
  shows "mux_ok (fst (handleChannelResponse mx payload e))"
proof (cases "decodeChannelControl payload")
  case (Some d)
  obtain i st where d: "d = (i, st)" by (cases d)
  show ?thesis
  proof (cases "map_of (mx_channels mx) i")
    case (Some a)
    note en = ok_entry [OF ok Some]
    have fin: "mux_ok (put_chan a (receiveFIN (chan_at mx a)) (mx_budget mx) mx)"
      using en by (intro put_same_budget [OF ok Some]) (auto simp: receiveFIN_def chan_inv_def)
    have "mux_ok (fst (mux_enqueue mx a [st] e))" by (rule enqueue_ok [OF ok Some])
    moreover have "mux_ok (Channel_Close mx a)" using en(2) by (intro Channel_Close_ok [OF ok]) simp
    ultimately show ?thesis
      using \<open>decodeChannelControl payload = Some d\<close> d Some ok fin
      by (auto simp: handleChannelResponse_def split: prod.split option.split)
  qed (use \<open>decodeChannelControl payload = Some d\<close> d ok in \<open>simp add: handleChannelResponse_def\<close>)
qed (use ok in \<open>simp add: handleChannelResponse_def\<close>)

lemma handleFlowControl_ok:
  assumes ok: "mux_ok mx"
  shows "mux_ok (fst (handleFlowControl mx payload))"
proof -
  have "mux_ok (put_chan a (addSendCredit (chan_at mx a) c) (mx_budget mx) mx)"
    if "map_of (mx_channels mx) i = Some a" for i a c
    using ok_entry [OF ok that] by (intro put_same_budget [OF ok that]) (auto simp: addSendCredit_inv)
  with ok show ?thesis by (auto simp: handleFlowControl_def split: option.split prod.split)
qed

lemma handleKeepAliveControl_ok:
  "mux_ok mx \<Longrightarrow> mux_ok (fst (handleKeepAliveControl mx payload now e))"
  using handleChannelResponse_ok by (simp add: handleKeepAliveControl_def Let_def)

lemma dispatchData_ok:
  assumes ok: "mux_ok mx"
  shows "mux_ok (dispatchData mx i payload pe)"
proof -
  let ?m = "recordDataActivity (checkAndBalanceTraffic mx (pe_e2 pe)) i (int (length payload)) True (pe_now pe)"
  have m: "mux_ok ?m" using ok by simp
  have "mux_ok (fst (mux_enqueue ?m a payload (pe_e3 pe)))" if "map_of (mx_channels ?m) i = Some a" for a
    by (rule enqueue_ok [OF m that])
  with m show ?thesis
    by (auto simp: dispatchData_def Let_def SetInvalid_ok case_prod_unfold split: option.split)
qed

lemma dispatchTimestamp_ok:
  assumes ok: "mux_ok mx"
  shows "mux_ok (dispatchTimestamp mx payload pe)"
proof -
  have "mux_ok (fst (SendPacket (mx\<lparr>mx_hasReceivedTimestamp := True\<rparr>) i p))" for i p using ok by simp
  with ok show ?thesis
    by (auto simp: dispatchTimestamp_def SetInvalid_ok Mux_Close_ok case_prod_unfold split: option.split)
qed

lemma dispatchPacket_ok:
  assumes ok: "mux_ok mx"
  shows "mux_ok (dispatchPacket mx i payload pe)"
proof -
  let ?m = "updatePacketTime mx (pe_now pe) (pe_e1 pe)"
  have m: "mux_ok ?m" using ok by simp
  note handleKeepAliveControl_ok [OF m] handleFlowControl_ok [OF m] dispatchData_ok [OF m] dispatchTimestamp_ok [OF ok]
  with m show ?thesis
    by (auto simp: dispatchPacket_def Let_def SetInvalid_ok case_prod_unfold split: option.split)
qed

lemma receivePacket_ok: "mux_ok mx \<Longrightarrow> mux_ok (receivePacket mx i payload pe)"
  by (simp add: receivePacket_def dispatchPacket_ok)

lemma keepAliveTick_ok: "mux_ok mx \<Longrightarrow> mux_ok (fst (keepAliveTick mx now))"
proof -
  assume ok: "mux_ok mx"
  then have "mux_ok (fst (sendKeepAlive mx))" by (simp add: sendKeepAlive_def)
  with ok show ?thesis
    by (auto simp: keepAliveTick_def Mux_Close_ok case_prod_unfold split: option.split)
qed

lemma balance_reply_ok: "mux_ok mx \<Longrightarrow> mux_ok (balance_reply mx)"
  by (simp add: balance_reply_def)

lemma writer_round_ok: "mux_ok mx \<Longrightarrow> mux_ok (writer_round mx err n now e)"
  by (auto simp: writer_round_def packet_sent_def markFirstPacketSent_def Let_def Mux_Close_ok split: list.split)

end
