(* ===== verification/NetConn.thy ===== *)
theory NetConn
  imports MuxInv
begin

text \<open>
  \<^verbatim>\<open>pkg/mux/netconn.go\<close>: a channel as a \<^verbatim>\<open>net.Conn\<close>.  The record has the address of the
  channel in the mux store, the rest of a payload that did not fit the last read buffer,
  and the two deadlines.  The mutexes order calls and are not modelled; waking a waiting
  reader or writer after a deadline change means that its next round sees the new deadline.

  The theorems at the end show that reads return the delivered bytes in order whatever the
  buffer sizes, and say exactly when a read makes progress, ends, times out or waits.
\<close>

section \<open>Model\<close>

record netconn =
  nc_ch :: nat
  nc_buffer :: bytes
  nc_readDeadline :: time
  nc_writeDeadline :: time

datatype nc_err = NetConnTimeout string | NetConnErr chan_err

datatype nc_read = NcGot bytes | NcFail nc_err | NcWaits

definition NewNetConn :: "nat \<Rightarrow> netconn" where
  "NewNetConn a = \<lparr>nc_ch = a, nc_buffer = [], nc_readDeadline = zero_time, nc_writeDeadline = zero_time\<rparr>"

definition currentReadDeadline :: "netconn \<Rightarrow> time" where
  "currentReadDeadline nc = nc_readDeadline nc"

definition currentWriteDeadline :: "netconn \<Rightarrow> time" where
  "currentWriteDeadline nc = nc_writeDeadline nc"

text \<open>
  \<open>len\<close> is the length of the caller's buffer; the bytes returned are those copied into it.
\<close>

definition nc_Read ::
  "mux \<Rightarrow> netconn \<Rightarrow> nat \<Rightarrow> time \<Rightarrow> entropy \<Rightarrow> entropy \<Rightarrow> mux \<times> netconn \<times> nc_read" where
  "nc_Read mx nc len now e1 e2 =
     (if nc_buffer nc \<noteq> []
      then (mx, nc\<lparr>nc_buffer := drop len (nc_buffer nc)\<rparr>, NcGot (take len (nc_buffer nc)))
      else
        (case mux_read mx (nc_ch nc) (Some (currentReadDeadline nc)) now e1 e2 of
           (mx1, ReadBlocked) \<Rightarrow> (mx1, nc, NcWaits)
         | (mx1, ReadTimedOut) \<Rightarrow> (mx1, nc, NcFail (NetConnTimeout ''read''))
         | (mx1, ReadErr err) \<Rightarrow> (mx1, nc, NcFail (NetConnErr err))
         | (mx1, ReadData data credit) \<Rightarrow>
             if data = [] then (mx1, nc, NcFail (NetConnErr ErrEOF))
             else (mx1,
                   if min len (length data) < length data then nc\<lparr>nc_buffer := drop len data\<rparr> else nc,
                   NcGot (take len data))))"

text \<open>
  A write runs rounds of the channel's write loop; each round carries what
  \<^verbatim>\<open>currentWriteDeadline\<close> returned then.
\<close>

definition nc_Write ::
  "netconn \<Rightarrow> chan \<Rightarrow> bytes \<Rightarrow> time \<Rightarrow> bool \<Rightarrow> write_round list
    \<Rightarrow> chan \<times> bytes list \<times> (nat \<times> nc_err option) option" where
  "nc_Write nc ch b now sendErr rs =
     (case writeWithDeadline ch b (Some (currentWriteDeadline nc)) now sendErr rs of
        (ch', sent, None) \<Rightarrow> (ch', sent, None)
      | (ch', sent, Some r) \<Rightarrow>
          (ch', sent,
           Some (w_offset r,
                 if w_timedOut r then Some (NetConnTimeout ''write'')
                 else map_option NetConnErr (w_err r))))"

definition nc_Close :: "mux \<Rightarrow> netconn \<Rightarrow> mux \<times> mux_err option" where
  "nc_Close mx nc = sendClose mx (nc_ch nc)"

definition nc_CloseWrite :: "mux \<Rightarrow> netconn \<Rightarrow> mux \<times> mux_err option" where
  "nc_CloseWrite mx nc = mux_sendFIN mx (nc_ch nc)"

definition nc_Finalize :: "mux \<Rightarrow> netconn \<Rightarrow> mux" where
  "nc_Finalize mx nc = Channel_Close mx (nc_ch nc)"

definition nc_SetDeadline :: "netconn \<Rightarrow> time \<Rightarrow> netconn" where
  "nc_SetDeadline nc t = nc\<lparr>nc_readDeadline := t, nc_writeDeadline := t\<rparr>"

definition nc_SetReadDeadline :: "netconn \<Rightarrow> time \<Rightarrow> netconn" where
  "nc_SetReadDeadline nc t = nc\<lparr>nc_readDeadline := t\<rparr>"

definition nc_SetWriteDeadline :: "netconn \<Rightarrow> time \<Rightarrow> netconn" where
  "nc_SetWriteDeadline nc t = nc\<lparr>nc_writeDeadline := t\<rparr>"

section \<open>The receive queue under the channel operations\<close>

text \<open>The part of a channel that a reader sees: the queue and the two ends of the stream.\<close>

definition rx :: "chan \<Rightarrow> bytes list \<times> bool \<times> bool" where
  "rx ch = (recvQueue ch, closedFlag ch, remoteWriteClosed ch)"

lemma rx_adjust:
  assumes "adjustReceiveWindowLocked bp mc ch n e = (bp', ch', x)"
  shows "rx ch' = rx ch"
  using assms by (cases rule: adjust_cases) (auto simp: rx_def)

lemma rx_release:
  assumes "releaseReceiveCredit bp mc ch n e1 e2 = (bp', ch', x)"
  shows "rx ch' = rx ch"
  using assms by (auto simp: releaseReceiveCredit_def Let_def rx_def split: if_splits)

lemma store_send [simp]:
  "mx_store (fst (sendWindowUpdate mx i c)) = mx_store mx"
  by (simp add: sendWindowUpdate_def SendPacket_def queuePacket_def enqueueWriteRequest_def Let_def)

lemma rx_enqueue:
  assumes "mux_enqueue mx a p e = (mx', r)"
  shows "rx (chan_at mx' a) = rx (chan_at mx a) \<and> (r = None \<longrightarrow> p = []) \<or>
    p \<noteq> [] \<and> \<not> closedFlag (chan_at mx a) \<and> r = None \<and>
    rx (chan_at mx' a) = (recvQueue (chan_at mx a) @ [p], closedFlag (chan_at mx a), remoteWriteClosed (chan_at mx a))"
proof -
  let ?c = "chan_at mx a"
  let ?c1 = "?c\<lparr>recvQueue := recvQueue ?c @ [p], recvBuffered := recvBuffered ?c + int (length p)\<rparr>"
  obtain bp ch x where adj: "adjustReceiveWindowLocked (mx_budget mx) (Some (mx_self mx)) ?c1 (int (length p)) e = (bp, ch, x)"
    by (rule prod_cases3)
  have ch: "rx ch = (recvQueue ?c @ [p], closedFlag ?c, remoteWriteClosed ?c)"
    using rx_adjust [OF adj] by (simp add: rx_def)
  show ?thesis
    using assms adj ch
    by (auto simp: mux_enqueue_def enqueuePayload_def Let_def chan_at_def put_chan_def split: if_splits)
qed

lemma rx_read:
  assumes "mux_read mx a dl now e1 e2 = (mx', r)"
  shows "(case r of
      ReadData d c \<Rightarrow> recvQueue (chan_at mx a) = d # tl (recvQueue (chan_at mx a)) \<and>
        rx (chan_at mx' a) = (tl (recvQueue (chan_at mx a)), closedFlag (chan_at mx a), remoteWriteClosed (chan_at mx a))
    | ReadErr err \<Rightarrow> recvQueue (chan_at mx a) = [] \<and> rx (chan_at mx' a) = rx (chan_at mx a) \<and>
        err = (if closedFlag (chan_at mx a) then ErrChannelClosed else ErrEOF) \<and>
        (closedFlag (chan_at mx a) \<or> remoteWriteClosed (chan_at mx a))
    | ReadTimedOut \<Rightarrow> recvQueue (chan_at mx a) = [] \<and> rx (chan_at mx' a) = rx (chan_at mx a) \<and>
        \<not> closedFlag (chan_at mx a) \<and> \<not> remoteWriteClosed (chan_at mx a) \<and>
        (\<exists>d. dl = Some d \<and> \<not> is_zero d \<and> d \<le> now)
    | ReadBlocked \<Rightarrow> recvQueue (chan_at mx a) = [] \<and> rx (chan_at mx' a) = rx (chan_at mx a) \<and>
        \<not> closedFlag (chan_at mx a) \<and> \<not> remoteWriteClosed (chan_at mx a) \<and>
        \<not> (\<exists>d. dl = Some d \<and> \<not> is_zero d \<and> d \<le> now))"
proof (cases "recvQueue (chan_at mx a)")
  case Nil
  then show ?thesis
    using assms
    by (auto simp: mux_read_def readWithDeadline_def chan_at_def put_chan_def rx_def
        split: if_splits option.splits)
next
  case (Cons d q)
  let ?c = "chan_at mx a"
  let ?c1 = "?c\<lparr>recvQueue := q, recvBuffered := recvBuffered ?c - int (length d)\<rparr>"
  obtain bp ch x where rel: "releaseReceiveCredit (mx_budget mx) (Some (mx_self mx)) ?c1 (int (length d)) e1 e2 = (bp, ch, x)"
    by (rule prod_cases3)
  have ch: "rx ch = (q, closedFlag ?c, remoteWriteClosed ?c)"
    using rx_release [OF rel] by (simp add: rx_def)
  show ?thesis
    using assms rel ch Cons
    by (auto simp: mux_read_def readWithDeadline_def take_queued_def Let_def chan_at_def put_chan_def)
qed

lemma rx_closed:
  "rx (chan_at (fst (mux_markClosed mx a)) a) =
     (if closedFlag (chan_at mx a) then rx (chan_at mx a) else ([], True, remoteWriteClosed (chan_at mx a)))"
  by (auto simp: mux_markClosed_def markClosed_def chan_at_def put_chan_def rx_def)

lemma store_removeFromMux [simp]: "mx_store (removeFromMux mx a) = mx_store mx"
  by (simp add: removeFromMux_def Let_def)

lemma store_sendChannelControl [simp]: "mx_store (fst (sendChannelControl mx i s)) = mx_store mx"
  by (simp add: sendChannelControl_def SendPacket_def queuePacket_def enqueueWriteRequest_def)

lemma chan_at_same:
  "chan_at (removeFromMux mx b) a = chan_at mx a" "chan_at (fst (sendChannelControl mx i s)) a = chan_at mx a"
  by (simp_all add: chan_at_def)

lemma rx_Close:
  "rx (chan_at (Channel_Close mx a) a) = rx (chan_at (fst (mux_markClosed mx a)) a)"
  "rx (chan_at (fst (sendClose mx a)) a) = rx (chan_at (fst (mux_markClosed mx a)) a)"
  by (simp_all add: Channel_Close_def sendClose_def case_prod_unfold Let_def chan_at_same)

lemma rx_FIN: "rx (chan_at (fst (mux_sendFIN mx a)) a) = rx (chan_at mx a)"
  by (simp add: mux_sendFIN_def case_prod_unfold Let_def sendFIN_def chan_at_same rx_def)

section \<open>Runs\<close>

text \<open>
  What can happen to the read side of a \<^verbatim>\<open>NetConn\<close>: payloads are delivered to its channel, the
  peer half-closes, the client reads with buffers of any length, moves its deadlines, and closes.
  The run keeps the bytes the channel accepted and the bytes the reads returned.
\<close>

datatype nc_op =
  NDeliver bytes entropy | NFin | NRead nat time entropy entropy | NSetDeadline time
| NSetReadDeadline time | NSetWriteDeadline time | NClose | NCloseWrite | NFinalize

record nc_state =
  ns_mux :: mux
  ns_nc :: netconn
  ns_in :: bytes
  ns_out :: bytes

definition got :: "nc_read \<Rightarrow> bytes" where
  "got r = (case r of NcGot d \<Rightarrow> d | _ \<Rightarrow> [])"

fun nc_do :: "nc_state \<Rightarrow> nc_op \<Rightarrow> nc_state" where
  "nc_do s (NDeliver p e) =
     (case mux_enqueue (ns_mux s) (nc_ch (ns_nc s)) p e of
        (mx, r) \<Rightarrow> s\<lparr>ns_mux := mx, ns_in := ns_in s @ (if r = None then p else [])\<rparr>)"
| "nc_do s NFin =
     (let mx = ns_mux s; a = nc_ch (ns_nc s)
      in s\<lparr>ns_mux := put_chan a (receiveFIN (chan_at mx a)) (mx_budget mx) mx\<rparr>)"
| "nc_do s (NRead len now e1 e2) =
     (case nc_Read (ns_mux s) (ns_nc s) len now e1 e2 of
        (mx, nc, r) \<Rightarrow> s\<lparr>ns_mux := mx, ns_nc := nc, ns_out := ns_out s @ got r\<rparr>)"
| "nc_do s (NSetDeadline t) = s\<lparr>ns_nc := nc_SetDeadline (ns_nc s) t\<rparr>"
| "nc_do s (NSetReadDeadline t) = s\<lparr>ns_nc := nc_SetReadDeadline (ns_nc s) t\<rparr>"
| "nc_do s (NSetWriteDeadline t) = s\<lparr>ns_nc := nc_SetWriteDeadline (ns_nc s) t\<rparr>"
| "nc_do s NClose = s\<lparr>ns_mux := fst (nc_Close (ns_mux s) (ns_nc s))\<rparr>"
| "nc_do s NCloseWrite = s\<lparr>ns_mux := fst (nc_CloseWrite (ns_mux s) (ns_nc s))\<rparr>"
| "nc_do s NFinalize = s\<lparr>ns_mux := nc_Finalize (ns_mux s) (ns_nc s)\<rparr>"

definition nc_start :: "mux \<Rightarrow> nat \<Rightarrow> nc_state" where
  "nc_start mx a = \<lparr>ns_mux = mx, ns_nc = NewNetConn a, ns_in = [], ns_out = []\<rparr>"

definition unread :: "mux \<Rightarrow> netconn \<Rightarrow> bytes" where
  "unread mx nc = nc_buffer nc @ concat (recvQueue (chan_at mx (nc_ch nc)))"

definition rx_ok :: "bytes list \<times> bool \<times> bool \<Rightarrow> bool" where
  "rx_ok = (\<lambda>(q, closed, fin). [] \<notin> set q \<and> (closed \<longrightarrow> q = []))"

definition stream_ok :: "nc_state \<Rightarrow> bool" where
  "stream_ok s \<longleftrightarrow>
     (let ch = chan_at (ns_mux s) (nc_ch (ns_nc s))
      in rx_ok (rx ch) \<and> (\<exists>lost. ns_in s = ns_out s @ unread (ns_mux s) (ns_nc s) @ lost \<and>
           (\<not> closedFlag ch \<longrightarrow> lost = [])))"

text \<open>One read, branch by branch.\<close>

lemma nc_Read_cases:
  assumes ok: "rx_ok (rx (chan_at mx (nc_ch nc)))" and rd: "nc_Read mx nc len now e1 e2 = (mx', nc', r)"
  shows "nc_ch nc' = nc_ch nc \<and> rx_ok (rx (chan_at mx' (nc_ch nc))) \<and>
    closedFlag (chan_at mx' (nc_ch nc)) = closedFlag (chan_at mx (nc_ch nc)) \<and>
    unread mx nc = got r @ unread mx' nc' \<and>
    (case r of
       NcGot d \<Rightarrow> unread mx nc \<noteq> [] \<and> length d \<le> len \<and> (0 < len \<longrightarrow> d \<noteq> [])
     | NcFail err \<Rightarrow> unread mx nc = [] \<and>
         err = (if closedFlag (chan_at mx (nc_ch nc)) then NetConnErr ErrChannelClosed
                else if remoteWriteClosed (chan_at mx (nc_ch nc)) then NetConnErr ErrEOF
                else NetConnTimeout ''read'') \<and>
         (closedFlag (chan_at mx (nc_ch nc)) \<or> remoteWriteClosed (chan_at mx (nc_ch nc)) \<or>
          nc_readDeadline nc \<noteq> 0 \<and> nc_readDeadline nc \<le> now)
     | NcWaits \<Rightarrow> unread mx nc = [] \<and> \<not> closedFlag (chan_at mx (nc_ch nc)) \<and>
         \<not> remoteWriteClosed (chan_at mx (nc_ch nc)) \<and>
         (nc_readDeadline nc = 0 \<or> now < nc_readDeadline nc))"
proof (cases "nc_buffer nc = []")
  case False
  then show ?thesis using assms
    by (auto simp: nc_Read_def unread_def got_def)
next
  case True
  obtain mx1 ro where mr: "mux_read mx (nc_ch nc) (Some (nc_readDeadline nc)) now e1 e2 = (mx1, ro)"
    by fastforce
  note rx = rx_read [OF mr]
  show ?thesis
  proof (cases ro)
    case (ReadData d c)
    with rx obtain rest where q: "recvQueue (chan_at mx (nc_ch nc)) = d # rest" by auto
    with ok have "d \<noteq> []" by (auto simp: rx_ok_def rx_def)
    with q ReadData rx rd mr True ok show ?thesis
      by (auto simp: nc_Read_def currentReadDeadline_def unread_def got_def rx_def rx_ok_def)
  qed (use rx rd mr True ok in \<open>auto simp: nc_Read_def currentReadDeadline_def unread_def got_def rx_def is_zero_def zero_time_def\<close>)
qed

lemma stream_same:
  assumes "stream_ok s" and "rx (chan_at mx' (nc_ch (ns_nc s))) = rx (chan_at (ns_mux s) (nc_ch (ns_nc s)))"
    and "nc_ch nc' = nc_ch (ns_nc s)" and "nc_buffer nc' = nc_buffer (ns_nc s)"
  shows "stream_ok (s\<lparr>ns_mux := mx', ns_nc := nc'\<rparr>)"
  using assms by (auto simp: stream_ok_def Let_def unread_def rx_def)

lemma stream_closed:
  assumes "stream_ok s"
    and "rx (chan_at mx' (nc_ch (ns_nc s))) = rx (chan_at (fst (mux_markClosed (ns_mux s) (nc_ch (ns_nc s)))) (nc_ch (ns_nc s)))"
  shows "stream_ok (s\<lparr>ns_mux := mx'\<rparr>)"
  using assms(1) assms(2) [unfolded rx_closed]
  by (auto simp: stream_ok_def Let_def unread_def rx_def rx_ok_def split: if_splits)

lemma nc_do_ok:
  assumes ok: "stream_ok s"
  shows "stream_ok (nc_do s op)" and "nc_ch (ns_nc (nc_do s op)) = nc_ch (ns_nc s)"
proof -
  let ?a = "nc_ch (ns_nc s)" and ?mx = "ns_mux s"
  have "stream_ok (nc_do s op) \<and> nc_ch (ns_nc (nc_do s op)) = ?a"
  proof (cases op)
    case (NDeliver p e)
    obtain mx' r where q: "mux_enqueue ?mx ?a p e = (mx', r)" by fastforce
    from rx_enqueue [OF q] ok show ?thesis
      by (auto simp: NDeliver q stream_ok_def Let_def unread_def rx_def rx_ok_def)
  next
    case (NRead len now e1 e2)
    obtain mx' nc' r where rd: "nc_Read ?mx (ns_nc s) len now e1 e2 = (mx', nc', r)" by (rule prod_cases3)
    have "rx_ok (rx (chan_at ?mx ?a))" using ok by (simp add: stream_ok_def Let_def)
    from nc_Read_cases [OF this rd] ok show ?thesis
      by (auto simp: NRead rd stream_ok_def Let_def)
  next
    case NFin
    then show ?thesis using ok
      by (auto simp: receiveFIN_def stream_ok_def Let_def unread_def rx_def rx_ok_def)
  next
    case NClose
    show ?thesis using stream_closed [OF ok rx_Close(2)] by (simp add: NClose nc_Close_def)
  next
    case NFinalize
    show ?thesis using stream_closed [OF ok rx_Close(1)] by (simp add: NFinalize nc_Finalize_def)
  next
    case NCloseWrite
    show ?thesis using stream_same [OF ok rx_FIN refl refl] by (simp add: NCloseWrite nc_CloseWrite_def)
  qed (use stream_same [OF ok refl] in
      \<open>auto simp: nc_SetDeadline_def nc_SetReadDeadline_def nc_SetWriteDeadline_def stream_ok_def unread_def Let_def\<close>)
  then show "stream_ok (nc_do s op)" and "nc_ch (ns_nc (nc_do s op)) = ?a" by auto
qed

lemma nc_run_ok:
  assumes "stream_ok s"
  shows "stream_ok (foldl nc_do s ops)" and "nc_ch (ns_nc (foldl nc_do s ops)) = nc_ch (ns_nc s)"
  using assms by (induction ops arbitrary: s) (simp_all add: nc_do_ok)

lemma nc_start_ok:
  assumes "AllocChannel mx now e = (mx', Inr a)"
  shows "stream_ok (nc_start mx' a)"
  using assms
  by (auto simp: AllocChannel_def addChannel_def newChannel_def nc_start_def stream_ok_def chan_at_def
      NewNetConn_def unread_def rx_def rx_ok_def Let_def split: if_splits prod.splits)

lemma nc_drain:
  assumes "stream_ok s" and "0 < len" and "length (unread (ns_mux s) (ns_nc s)) \<le> n"
  shows "ns_out (foldl nc_do s (replicate n (NRead len now e1 e2))) = ns_out s @ unread (ns_mux s) (ns_nc s)"
  using assms(1,3)
proof (induction n arbitrary: s)
  case (Suc n)
  obtain mx' nc' r where rd: "nc_Read (ns_mux s) (ns_nc s) len now e1 e2 = (mx', nc', r)" by (rule prod_cases3)
  let ?s = "nc_do s (NRead len now e1 e2)"
  have "rx_ok (rx (chan_at (ns_mux s) (nc_ch (ns_nc s))))"
    using Suc.prems by (simp add: stream_ok_def Let_def)
  note c = nc_Read_cases [OF this rd]
  have s: "?s = s\<lparr>ns_mux := mx', ns_nc := nc', ns_out := ns_out s @ got r\<rparr>" by (simp add: rd)
  have u: "unread (ns_mux s) (ns_nc s) = got r @ unread mx' nc'" using c by simp
  moreover have "unread (ns_mux s) (ns_nc s) = [] \<or> got r \<noteq> []"
    using c \<open>0 < len\<close> by (auto simp: got_def split: nc_read.splits)
  ultimately have "length (unread mx' nc') \<le> n"
    using Suc.prems(2) by (cases "got r") auto
  then show ?case
    using Suc.IH [of ?s] nc_do_ok(1) [OF Suc.prems(1), of "NRead len now e1 e2"] u
    by (simp add: rd)
qed simp

section \<open>Properties\<close>

text \<open>
  A \<^verbatim>\<open>NetConn\<close> is a byte stream: after any sequence of deliveries, half-closes, reads with
  buffers of any length, deadline changes and closes, what the channel accepted is what the
  reads returned, then the unread bytes, then bytes lost by a local close; on an open channel
  nothing is lost, and reading on with a non-empty buffer returns every unread byte.
\<close>

theorem netconn_stream:
  assumes "AllocChannel mx now0 e = (mx0, Inr a)" and "s = foldl nc_do (nc_start mx0 a) ops"
  shows "(\<exists>lost. ns_in s = ns_out s @ unread (ns_mux s) (ns_nc s) @ lost \<and>
      (\<not> closedFlag (chan_at (ns_mux s) a) \<longrightarrow> lost = [])) \<and>
    (0 < len \<and> \<not> closedFlag (chan_at (ns_mux s) a) \<longrightarrow>
      ns_out (foldl nc_do s (replicate (length (unread (ns_mux s) (ns_nc s))) (NRead len now e1 e2))) = ns_in s)"
proof -
  have ok: "stream_ok s" and a: "nc_ch (ns_nc s) = a"
    using nc_run_ok [OF nc_start_ok [OF assms(1)]] assms(2) by (simp_all add: nc_start_def NewNetConn_def)
  from ok obtain lost where l: "ns_in s = ns_out s @ unread (ns_mux s) (ns_nc s) @ lost"
    "\<not> closedFlag (chan_at (ns_mux s) a) \<longrightarrow> lost = []"
    by (auto simp: stream_ok_def Let_def a)
  with nc_drain [OF ok _ order_refl, of len now e1 e2] show ?thesis by auto
qed

definition nc_demo_mux :: mux where
  "nc_demo_mux = fst (AllocChannel (NewMuxConnWithHandshake 1 False True 5 7 (MathRand 0) (MathRand 0)) 7 (MathRand 0))"

lemmas nc_eval = nc_demo_mux_def AllocChannel_def NewMuxConnWithHandshake_def addChannel_def newChannel_def
  IsInvalid_def maxChannelAllocationsLocked_def maxConcurrentChannelsLocked_def MaxChannelAllocations_def
  MaxConcurrentChannels_def MaxConfigurableChannelAllocations_def channelAllocationAgeExpiredLocked_def Let_def

lemma nc_demo_alloc:
  "AllocChannel (NewMuxConnWithHandshake 1 False True 5 7 (MathRand 0) (MathRand 0)) 7 (MathRand 0) = (nc_demo_mux, Inr 0)"
  by (simp add: nc_eval)

theorem netconn_stream_witness:
  "ns_out (foldl nc_do (nc_start nc_demo_mux 0)
     (NDeliver [1, 2, 3] (MathRand 0) # replicate 3 (NRead 2 9 (MathRand 0) (MathRand 0)))) = [1, 2, 3]"
proof -
  let ?s = "foldl nc_do (nc_start nc_demo_mux 0) [NDeliver [1, 2, 3] (MathRand 0)]"
  have s: "\<not> closedFlag (chan_at (ns_mux ?s) 0)" "ns_in ?s = [1, 2, 3]" "unread (ns_mux ?s) (ns_nc ?s) = [1, 2, 3]"
    by (simp_all add: nc_start_def NewNetConn_def mux_enqueue_def enqueuePayload_def nc_eval chan_at_def put_chan_def
        recvAllowedWindowLocked_def recvWindowLocked_def flow_index_defs flowControlWindowForIndex_def
        adjustReceiveWindowLocked_def countPayload_def flow_window_defs unread_def)
  then show ?thesis
    using netconn_stream [OF nc_demo_alloc refl, of "[NDeliver [1, 2, 3] (MathRand 0)]" 2 9 "MathRand 0" "MathRand 0"]
    by (simp add: numeral_3_eq_3 del: nc_do.simps)
qed

text \<open>
  A read returns bytes exactly while bytes are unread, at most as many as fit the buffer and
  at least one if the buffer is not empty, and they are the next bytes of the stream.  Only when
  everything is read does it fail: with the closed error on a closed channel, with \<^verbatim>\<open>io.EOF\<close>
  after the peer's FIN, and with a timeout once the read deadline has passed; otherwise it waits.
\<close>

theorem netconn_read_exact:
  assumes "AllocChannel mx now0 e = (mx0, Inr a)" and "s = foldl nc_do (nc_start mx0 a) ops"
    and "ch = chan_at (ns_mux s) a" and "nc_Read (ns_mux s) (ns_nc s) len now e1 e2 = (mx', nc', r)"
  shows "unread (ns_mux s) (ns_nc s) = got r @ unread mx' nc' \<and>
    (case r of
       NcGot d \<Rightarrow> unread (ns_mux s) (ns_nc s) \<noteq> [] \<and> length d \<le> len \<and> (0 < len \<longrightarrow> d \<noteq> [])
     | NcFail err \<Rightarrow> unread (ns_mux s) (ns_nc s) = [] \<and>
         err = (if closedFlag ch then NetConnErr ErrChannelClosed
                else if remoteWriteClosed ch then NetConnErr ErrEOF else NetConnTimeout ''read'') \<and>
         (closedFlag ch \<or> remoteWriteClosed ch \<or>
          nc_readDeadline (ns_nc s) \<noteq> 0 \<and> nc_readDeadline (ns_nc s) \<le> now)
     | NcWaits \<Rightarrow> unread (ns_mux s) (ns_nc s) = [] \<and> \<not> closedFlag ch \<and> \<not> remoteWriteClosed ch \<and>
         (nc_readDeadline (ns_nc s) = 0 \<or> now < nc_readDeadline (ns_nc s)))"
proof -
  have ok: "rx_ok (rx (chan_at (ns_mux s) (nc_ch (ns_nc s))))" and a: "nc_ch (ns_nc s) = a"
    using nc_run_ok [OF nc_start_ok [OF assms(1)], of ops] assms(2)
    by (simp_all add: stream_ok_def Let_def nc_start_def NewNetConn_def)
  from nc_Read_cases [OF ok assms(4)] show ?thesis unfolding a assms(3) by simp
qed

theorem netconn_read_exact_witness:
  "\<exists>mx' nc'. nc_Read (ns_mux (nc_do (nc_start nc_demo_mux 0) NFin)) (ns_nc (nc_do (nc_start nc_demo_mux 0) NFin)) 4 9
      (MathRand 0) (MathRand 0) = (mx', nc', NcFail (NetConnErr ErrEOF)) \<and> unread mx' nc' = []"
proof -
  let ?s = "foldl nc_do (nc_start nc_demo_mux 0) [NFin]"
  obtain mx' nc' r where rd: "nc_Read (ns_mux ?s) (ns_nc ?s) 4 9 (MathRand 0) (MathRand 0) = (mx', nc', r)"
    by (rule prod_cases3)
  then have r: "r = NcFail (NetConnErr ErrEOF)"
    by (simp add: nc_start_def NewNetConn_def nc_Read_def mux_read_def readWithDeadline_def nc_eval chan_at_def
        receiveFIN_def put_chan_def)
  from netconn_read_exact [OF nc_demo_alloc refl refl rd] rd r show ?thesis
    by (auto simp: got_def simp del: nc_do.simps)
qed

end
