(* ===== verification/TrafficMeter.thy ===== *)
theory TrafficMeter
  imports MuxConn
begin

text \<open>
  \<^verbatim>\<open>pkg/mux/traffic_meter.go\<close>: per-second traffic buckets and the speed score computed from
  them.  A mux has its own buckets and an optional shared meter, which then takes all the
  traffic.  The counters are 64-bit and wrap; the clock is an argument of every operation.

  The theorems show what the buckets are after any sequence of records under a clock that
  does not go back, and that the score is the best average over three consecutive buckets.
\<close>

section \<open>Model\<close>

record trafficBucket =
  tb_sec :: int
  tb_sent :: u64
  tb_received :: u64
  tb_sentPackets :: u64
  tb_receivedPackets :: u64

type_synonym meter_ptr = "trafficBucket list option"

record mux_traffic =
  mt_meter :: meter_ptr
  mt_buckets :: "trafficBucket list"

definition minTrafficBucketPackets :: u64 where "minTrafficBucketPackets = 8"
definition minTrafficBucketBytes :: u64 where "minTrafficBucketBytes = 32 * 1024"
definition maxTrafficBucketAge :: duration where "maxTrafficBucketAge = seconds (10 * 60)"

text \<open>\<^verbatim>\<open>Unix\<close> of a time counted in nanoseconds from Go's zero time.\<close>

definition Unix :: "time \<Rightarrow> int" where
  "Unix t = t div 1000000000 - 62135596800"

definition directionBytes :: "trafficBucket \<Rightarrow> bool \<Rightarrow> u64" where
  "directionBytes b sent = (if sent then tb_sent b else tb_received b)"

definition directionQualified :: "trafficBucket \<Rightarrow> bool \<Rightarrow> bool" where
  "directionQualified b sent =
     (if sent
      then minTrafficBucketPackets \<le> tb_sentPackets b \<or> minTrafficBucketBytes < tb_sent b
      else minTrafficBucketPackets \<le> tb_receivedPackets b \<or> minTrafficBucketBytes < tb_received b)"

definition bucketQualified :: "trafficBucket \<Rightarrow> bool" where
  "bucketQualified b \<longleftrightarrow> directionQualified b True \<or> directionQualified b False"

fun keepFrom :: "trafficBucket list \<Rightarrow> int \<Rightarrow> nat" where
  "keepFrom [] cutoff = 0"
| "keepFrom (b # bs) cutoff = (if tb_sec b < cutoff then Suc (keepFrom bs cutoff) else 0)"

definition pruneTrafficBuckets :: "trafficBucket list \<Rightarrow> time \<Rightarrow> trafficBucket list" where
  "pruneTrafficBuckets buckets now =
     (let cutoff = Unix now - maxTrafficBucketAge div 1000000000;
          k = keepFrom buckets cutoff
      in if k = 0 then buckets else drop k buckets)"

fun bestWindow :: "u64 list \<Rightarrow> u64 \<Rightarrow> u64" where
  "bestWindow (a # b # c # vs) best =
     (let avg = (0 + a + b + c) div 3
      in bestWindow (b # c # vs) (if best < avg then avg else best))"
| "bestWindow _ best = best"

definition bestDirectionAverage :: "trafficBucket list \<Rightarrow> bool \<Rightarrow> u64" where
  "bestDirectionAverage buckets sent =
     (let vs = map (\<lambda>b. directionBytes b sent) (filter (\<lambda>b. directionQualified b sent) buckets)
      in if length vs = 0 then 0
         else if length vs < 3 then foldl (+) 0 vs div of_nat (length vs)
         else bestWindow vs 0)"

definition maxUint64 :: "u64 \<Rightarrow> u64 \<Rightarrow> u64" where
  "maxUint64 a b = (if b < a then a else b)"

definition score :: "trafficBucket list \<Rightarrow> u64" where
  "score bs = maxUint64 (bestDirectionAverage bs True) (bestDirectionAverage bs False)"

definition Meter_SpeedScore :: "meter_ptr \<Rightarrow> time \<Rightarrow> meter_ptr \<times> u64" where
  "Meter_SpeedScore tm now =
     (case tm of
        None \<Rightarrow> (None, 0)
      | Some bs \<Rightarrow> (let bs' = pruneTrafficBuckets bs now in (Some bs', score bs')))"

definition SpeedScore :: "mux_traffic \<Rightarrow> time \<Rightarrow> mux_traffic \<times> u64" where
  "SpeedScore mc now =
     (if mt_meter mc \<noteq> None
      then (case Meter_SpeedScore (mt_meter mc) now of (tm, v) \<Rightarrow> (mc\<lparr>mt_meter := tm\<rparr>, v))
      else (let bs = pruneTrafficBuckets (mt_buckets mc) now in (mc\<lparr>mt_buckets := bs\<rparr>, score bs)))"

definition NewTrafficMeter :: meter_ptr where
  "NewTrafficMeter = Some []"

definition SetTrafficMeter :: "mux_traffic \<Rightarrow> meter_ptr \<Rightarrow> mux_traffic" where
  "SetTrafficMeter mc meter = mc\<lparr>mt_meter := meter\<rparr>"

text \<open>The part the two \<^verbatim>\<open>recordTraffic\<close> methods share, under their locks.\<close>

definition addTraffic ::
  "trafficBucket list \<Rightarrow> int \<Rightarrow> u64 \<Rightarrow> u64 \<Rightarrow> u64 \<Rightarrow> u64 \<Rightarrow> trafficBucket list" where
  "addTraffic buckets sec sent received sentPackets receivedPackets =
     (if buckets \<noteq> [] \<and> tb_sec (last buckets) = sec
      then
        (let b = last buckets
         in buckets[length buckets - 1 :=
              b\<lparr>tb_sent := tb_sent b + sent, tb_received := tb_received b + received,
                tb_sentPackets := tb_sentPackets b + sentPackets,
                tb_receivedPackets := tb_receivedPackets b + receivedPackets\<rparr>])
      else
        (let bs1 = (if buckets \<noteq> [] \<and> \<not> bucketQualified (last buckets)
                    then take (length buckets - 1) buckets else buckets);
             bs2 = bs1 @ [\<lparr>tb_sec = sec, tb_sent = sent, tb_received = received,
                           tb_sentPackets = sentPackets, tb_receivedPackets = receivedPackets\<rparr>]
         in if 30 < length bs2 then take 30 (drop (length bs2 - 30) bs2) else bs2))"

definition Meter_recordTraffic ::
  "meter_ptr \<Rightarrow> time \<Rightarrow> u64 \<Rightarrow> u64 \<Rightarrow> u64 \<Rightarrow> u64 \<Rightarrow> meter_ptr" where
  "Meter_recordTraffic tm now sent received sentPackets receivedPackets =
     (case tm of
        None \<Rightarrow> None
      | Some bs \<Rightarrow>
          if sent = 0 \<and> received = 0 \<and> sentPackets = 0 \<and> receivedPackets = 0 then Some bs
          else Some (addTraffic bs (Unix now) sent received sentPackets receivedPackets))"

definition recordTraffic :: "mux_traffic \<Rightarrow> time \<Rightarrow> u64 \<Rightarrow> u64 \<Rightarrow> u64 \<Rightarrow> u64 \<Rightarrow> mux_traffic" where
  "recordTraffic mc now sent received sentPackets receivedPackets =
     (if mt_meter mc \<noteq> None
      then mc\<lparr>mt_meter := Meter_recordTraffic (mt_meter mc) now sent received sentPackets receivedPackets\<rparr>
      else if sent = 0 \<and> received = 0 \<and> sentPackets = 0 \<and> receivedPackets = 0 then mc
      else mc\<lparr>mt_buckets := addTraffic (mt_buckets mc) (Unix now) sent received sentPackets receivedPackets\<rparr>)"

section \<open>Buckets\<close>

lemma prune_dropWhile:
  "pruneTrafficBuckets bs now = dropWhile (\<lambda>b. tb_sec b < Unix now - 600) bs"
proof -
  have "drop (keepFrom bs c) bs = dropWhile (\<lambda>b. tb_sec b < c) bs" for c
    by (induction bs) auto
  then show ?thesis
    by (auto simp: pruneTrafficBuckets_def Let_def maxTrafficBucketAge_def seconds_def)
       (metis drop0)
qed

lemma dropWhile_suffix: "\<exists>k. dropWhile P xs = drop k xs"
  by (metis dropWhile_eq_drop)

definition new_bucket :: "int \<Rightarrow> u64 \<Rightarrow> u64 \<Rightarrow> u64 \<Rightarrow> u64 \<Rightarrow> trafficBucket" where
  "new_bucket sec s r sp rp =
     \<lparr>tb_sec = sec, tb_sent = s, tb_received = r, tb_sentPackets = sp, tb_receivedPackets = rp\<rparr>"

definition grown :: "trafficBucket \<Rightarrow> u64 \<Rightarrow> u64 \<Rightarrow> u64 \<Rightarrow> u64 \<Rightarrow> trafficBucket" where
  "grown b s r sp rp =
     b\<lparr>tb_sent := tb_sent b + s, tb_received := tb_received b + r,
       tb_sentPackets := tb_sentPackets b + sp, tb_receivedPackets := tb_receivedPackets b + rp\<rparr>"

text \<open>The two shapes of the result: the last bucket grows, or a new one follows kept ones.\<close>

lemma addTraffic_cases:
  obtains (same) bs0 b where "bs = bs0 @ [b]" "tb_sec b = sec"
      "addTraffic bs sec s r sp rp = bs0 @ [grown b s r sp rp]"
  | (new) k bs0 where "bs = [] \<or> tb_sec (last bs) \<noteq> sec" "bs0 = bs \<or> (bs \<noteq> [] \<and> \<not> bucketQualified (last bs) \<and> bs0 = butlast bs)"
      "bs = [] \<or> bs0 = butlast bs \<or> bucketQualified (last bs)"
      "addTraffic bs sec s r sp rp = drop k bs0 @ [new_bucket sec s r sp rp]" "k = length bs0 - 29"
proof (cases "bs \<noteq> [] \<and> tb_sec (last bs) = sec")
  case True
  then obtain bs0 b where "bs = bs0 @ [b]" by (metis append_butlast_last_id)
  with True show thesis
    by (intro same [of bs0 b]) (auto simp: addTraffic_def Let_def grown_def)
next
  case False
  define bs0 where "bs0 = (if bs \<noteq> [] \<and> \<not> bucketQualified (last bs) then butlast bs else bs)"
  have "addTraffic bs sec s r sp rp = drop (length bs0 - 29) bs0 @ [new_bucket sec s r sp rp]"
    using False by (auto simp: addTraffic_def Let_def new_bucket_def bs0_def butlast_conv_take)
  then show thesis
    using False by (intro new [of bs0]) (auto simp: bs0_def)
qed

section \<open>Runs\<close>

datatype meter_op = TRecord time u64 u64 u64 u64 | TScore time

fun op_time :: "meter_op \<Rightarrow> time" where
  "op_time (TRecord now _ _ _ _) = now"
| "op_time (TScore now) = now"

fun mt_do :: "mux_traffic \<Rightarrow> meter_op \<Rightarrow> mux_traffic" where
  "mt_do mc (TRecord now s r sp rp) = recordTraffic mc now s r sp rp"
| "mt_do mc (TScore now) = fst (SpeedScore mc now)"

text \<open>The buckets in use: those of the shared meter, if there is one.\<close>

definition active :: "mux_traffic \<Rightarrow> trafficBucket list" where
  "active mc = (case mt_meter mc of None \<Rightarrow> mt_buckets mc | Some bs \<Rightarrow> bs)"

fun bs_do :: "trafficBucket list \<Rightarrow> meter_op \<Rightarrow> trafficBucket list" where
  "bs_do bs (TRecord now s r sp rp) =
     (if s = 0 \<and> r = 0 \<and> sp = 0 \<and> rp = 0 then bs else addTraffic bs (Unix now) s r sp rp)"
| "bs_do bs (TScore now) = pruneTrafficBuckets bs now"

lemma active_do [simp]: "active (mt_do mc op) = bs_do (active mc) op"
  by (cases op) (auto simp: active_def recordTraffic_def Meter_recordTraffic_def SpeedScore_def
      Meter_SpeedScore_def Let_def)

lemma active_run: "active (foldl mt_do mc ops) = foldl bs_do (active mc) ops"
  by (induction ops arbitrary: mc) simp_all

text \<open>What was recorded, second by second.\<close>

fun traffic_at :: "(u64 \<times> u64 \<times> u64 \<times> u64 \<Rightarrow> u64) \<Rightarrow> int \<Rightarrow> meter_op list \<Rightarrow> u64" where
  "traffic_at f sec [] = 0"
| "traffic_at f sec (TRecord now s r sp rp # ops) =
     (if Unix now = sec then f (s, r, sp, rp) else 0) + traffic_at f sec ops"
| "traffic_at f sec (TScore now # ops) = traffic_at f sec ops"

lemma traffic_at_append: "traffic_at f sec (xs @ ys) = traffic_at f sec xs + traffic_at f sec ys"
  by (induction f sec xs rule: traffic_at.induct) (simp_all add: algebra_simps)

definition sums_of :: "meter_op list \<Rightarrow> trafficBucket \<Rightarrow> bool" where
  "sums_of ops b \<longleftrightarrow>
     tb_sent b = traffic_at fst (tb_sec b) ops \<and>
     tb_received b = traffic_at (fst \<circ> snd) (tb_sec b) ops \<and>
     tb_sentPackets b = traffic_at (fst \<circ> snd \<circ> snd) (tb_sec b) ops \<and>
     tb_receivedPackets b = traffic_at (snd \<circ> snd \<circ> snd) (tb_sec b) ops"

definition shape_ok :: "trafficBucket list \<Rightarrow> bool" where
  "shape_ok bs \<longleftrightarrow> length bs \<le> 30 \<and> (\<forall>b \<in> set (butlast bs). bucketQualified b)"

fun sec_of :: "meter_op \<Rightarrow> int list" where
  "sec_of (TRecord now s r sp rp) = (if s = 0 \<and> r = 0 \<and> sp = 0 \<and> rp = 0 then [] else [Unix now])"
| "sec_of (TScore now) = []"

definition recorded :: "meter_op list \<Rightarrow> int set" where
  "recorded ops = set (concat (map sec_of ops))"

definition sums_ok :: "meter_op list \<Rightarrow> time \<Rightarrow> trafficBucket list \<Rightarrow> bool" where
  "sums_ok ops now bs \<longleftrightarrow>
     sorted_wrt (<) (map tb_sec bs) \<and> (\<forall>b \<in> set bs. sums_of ops b \<and> tb_sec b \<le> Unix now) \<and>
     (\<forall>sec \<in> recorded ops. sec \<le> Unix now \<and> (sec = Unix now \<longrightarrow> bs \<noteq> [] \<and> tb_sec (last bs) = sec))"

lemma Unix_mono: "s \<le> t \<Longrightarrow> Unix s \<le> Unix t"
  by (simp add: Unix_def zdiv_mono1)

lemma shape_add: "shape_ok bs \<Longrightarrow> shape_ok (addTraffic bs sec s r sp rp)"
proof (cases bs sec s r sp rp rule: addTraffic_cases)
  case (new k bs0)
  assume ok: "shape_ok bs"
  have "\<forall>b \<in> set bs0. bucketQualified b"
  proof (cases "bs = []")
    case False
    then have "set bs = insert (last bs) (set (butlast bs))"
      by (metis append_butlast_last_id set_append list.simps(15) empty_set Un_insert_right sup_bot_right)
    with new ok False show ?thesis by (auto simp: shape_ok_def)
  qed (use new in auto)
  with new show ?thesis by (auto simp: shape_ok_def dest: in_set_dropD)
qed (auto simp: shape_ok_def)

lemma shape_drop: "shape_ok bs \<Longrightarrow> shape_ok (drop k bs)"
  by (auto simp: shape_ok_def butlast_drop dest: in_set_dropD)

lemma shape_do: "shape_ok bs \<Longrightarrow> shape_ok (bs_do bs op)"
  by (cases op) (auto simp: shape_add prune_dropWhile dropWhile_eq_drop intro: shape_drop)

lemma shape_run: "shape_ok bs \<Longrightarrow> shape_ok (foldl bs_do bs ops)"
  by (induction ops arbitrary: bs) (simp_all add: shape_do)

lemma traffic_none: "sec \<notin> recorded ops \<Longrightarrow> f (0, 0, 0, 0) = 0 \<Longrightarrow> traffic_at f sec ops = 0"
  by (induction f sec ops rule: traffic_at.induct) (auto simp: recorded_def split: if_splits)

lemma recorded_snoc:
  "recorded (ops @ [TScore t]) = recorded ops"
  "recorded (ops @ [TRecord t s r sp rp]) =
     (if s = 0 \<and> r = 0 \<and> sp = 0 \<and> rp = 0 then recorded ops else insert (Unix t) (recorded ops))"
  by (auto simp: recorded_def)

lemma sums_of_snoc:
  "sums_of (ops @ [TScore t]) b = sums_of ops b"
  "tb_sec b \<noteq> Unix t \<or> (s = 0 \<and> r = 0 \<and> sp = 0 \<and> rp = 0) \<Longrightarrow> sums_of (ops @ [TRecord t s r sp rp]) b = sums_of ops b"
  "tb_sec b = Unix t \<Longrightarrow> sums_of ops b \<Longrightarrow> sums_of (ops @ [TRecord t s r sp rp]) (grown b s r sp rp)"
  "Unix t \<notin> recorded ops \<Longrightarrow> sums_of (ops @ [TRecord t s r sp rp]) (new_bucket (Unix t) s r sp rp)"
  by (auto simp: sums_of_def traffic_at_append grown_def new_bucket_def traffic_none)

lemma recorded_later:
  assumes "sums_ok ops t bs" and "t \<le> now" and "sec \<in> recorded ops"
  shows "sec \<le> Unix now" and "sec = Unix now \<Longrightarrow> bs \<noteq> [] \<and> tb_sec (last bs) = sec"
  using assms Unix_mono [OF assms(2)] by (fastforce simp: sums_ok_def)+

lemma bucket_later: "sums_ok ops t bs \<Longrightarrow> t \<le> now \<Longrightarrow> b \<in> set bs \<Longrightarrow> tb_sec b \<le> Unix now"
  using Unix_mono by (fastforce simp: sums_ok_def)

lemma sums_prune:
  assumes "sums_ok ops t bs" and "t \<le> now"
  shows "sums_ok (ops @ [TScore now]) now (pruneTrafficBuckets bs now)"
proof -
  let ?P = "\<lambda>b. tb_sec b < Unix now - 600"
  obtain k where k: "dropWhile ?P bs = drop k bs" using dropWhile_suffix by blast
  have "dropWhile ?P bs \<noteq> [] \<and> last (dropWhile ?P bs) = last bs" if "bs \<noteq> []" "tb_sec (last bs) = Unix now"
  proof -
    have "last bs \<in> set bs \<and> \<not> ?P (last bs)" using that by simp
    then have "dropWhile ?P bs \<noteq> []" by (meson dropWhile_eq_Nil_conv)
    then show ?thesis by (metis k last_drop drop_eq_Nil not_le)
  qed
  with recorded_later [OF assms] have "\<forall>sec \<in> recorded ops. sec \<le> Unix now \<and>
      (sec = Unix now \<longrightarrow> dropWhile ?P bs \<noteq> [] \<and> tb_sec (last (dropWhile ?P bs)) = sec)" by auto
  moreover have "sorted_wrt (<) (map tb_sec (dropWhile ?P bs))"
    using assms(1) by (simp add: k sums_ok_def drop_map [symmetric] sorted_wrt_drop)
  ultimately show ?thesis
    using assms(1) bucket_later [OF assms]
    by (auto simp: sums_ok_def prune_dropWhile recorded_snoc sums_of_snoc dest: set_dropWhileD)
qed

lemma sums_add:
  assumes ok: "sums_ok ops t bs" and t: "t \<le> now" and nz: "\<not> (s = 0 \<and> r = 0 \<and> sp = 0 \<and> rp = 0)"
  shows "sums_ok (ops @ [TRecord now s r sp rp]) now (addTraffic bs (Unix now) s r sp rp)"
proof (cases bs "Unix now" s r sp rp rule: addTraffic_cases)
  case (same bs0 b)
  then have lt: "\<And>c. c \<in> set bs0 \<Longrightarrow> tb_sec c < Unix now"
    using ok by (auto simp: sums_ok_def sorted_wrt_append)
  have "sums_of (ops @ [TRecord now s r sp rp]) c" if "c \<in> set bs0" for c
    using ok same that lt [OF that] by (subst sums_of_snoc(2)) (auto simp: sums_ok_def)
  moreover have "tb_sec (grown b s r sp rp) = tb_sec b" by (simp add: grown_def)
  ultimately show ?thesis
    using ok same lt recorded_later [OF ok t] sums_of_snoc(3) [of b now ops s r sp rp]
    by (fastforce simp: sums_ok_def sorted_wrt_append recorded_snoc nz less_imp_le)
next
  case (new k bs0)
  have sorted: "sorted_wrt (<) (map tb_sec bs)" using ok by (simp add: sums_ok_def)
  have lt: "tb_sec c < Unix now" if c: "c \<in> set bs" for c
  proof -
    obtain xs l where bs: "bs = xs @ [l]" using c by (cases bs rule: rev_cases) auto
    have "\<forall>x \<in> set xs. tb_sec x < tb_sec l" using sorted by (simp add: bs sorted_wrt_append)
    then have "tb_sec c \<le> tb_sec (last bs)" using that by (auto simp: bs less_imp_le)
    moreover have "tb_sec (last bs) \<le> Unix now" using bucket_later [OF ok t, of "last bs"] by (simp add: bs)
    moreover have "tb_sec (last bs) \<noteq> Unix now" using new(1) that by auto
    ultimately show ?thesis by linarith
  qed
  have sub: "set (drop k bs0) \<subseteq> set bs"
    using new(2) by (auto dest!: in_set_dropD in_set_butlastD)
  have "sorted_wrt (<) (map tb_sec bs0)"
    using new(2) sorted by (auto simp: butlast_conv_take take_map [symmetric] sorted_wrt_take)
  then have "sorted_wrt (<) (map tb_sec (drop k bs0))" by (simp add: drop_map [symmetric] sorted_wrt_drop)
  moreover have "Unix now \<notin> recorded ops" using recorded_later(2) [OF ok t] new(1) by auto
  moreover have "sums_of (ops @ [TRecord now s r sp rp]) c" if "c \<in> set bs" for c
    using ok that lt [OF that] by (subst sums_of_snoc(2)) (auto simp: sums_ok_def)
  moreover have "tb_sec (new_bucket (Unix now) s r sp rp) = Unix now" by (simp add: new_bucket_def)
  ultimately show ?thesis
    unfolding new(4) using sub lt recorded_later [OF ok t] sums_of_snoc(4)
    by (auto simp: sums_ok_def sorted_wrt_append recorded_snoc nz less_imp_le)
qed

lemma sums_do:
  assumes "sums_ok ops t bs" and "t \<le> op_time op"
  shows "sums_ok (ops @ [op]) (op_time op) (bs_do bs op)"
proof (cases op)
  case (TRecord now s r sp rp)
  show ?thesis
  proof (cases "s = 0 \<and> r = 0 \<and> sp = 0 \<and> rp = 0")
    case True
    have "sums_of (ops @ [TRecord now s r sp rp]) b = sums_of ops b" for b
      using True by (intro sums_of_snoc(2)) simp
    with True TRecord assms show ?thesis
      using recorded_later [OF assms] bucket_later [OF assms]
      by (auto simp: sums_ok_def recorded_snoc)
  qed (use TRecord assms sums_add in auto)
qed (use assms sums_prune in auto)

lemma sums_run:
  assumes "sorted (map op_time ops)" and "ops \<noteq> []"
  shows "sums_ok ops (op_time (last ops)) (foldl bs_do [] ops)"
  using assms
proof (induction ops rule: rev_induct)
  case (snoc op ops)
  show ?case
  proof (cases "ops = []")
    case True
    have "sums_ok [] (op_time op) []" by (simp add: sums_ok_def recorded_def)
    from sums_do [OF this] True show ?thesis by simp
  next
    case False
    then have "op_time (last ops) \<le> op_time op" using snoc.prems by (simp add: sorted_append)
    with snoc False sums_do show ?thesis by (simp add: sorted_append)
  qed
qed simp

section \<open>Score\<close>

text \<open>The reference: averages of the consecutive triples of a list, in natural numbers.\<close>

fun triple_averages :: "nat list \<Rightarrow> nat list" where
  "triple_averages (a # b # c # vs) = (a + b + c) div 3 # triple_averages (b # c # vs)"
| "triple_averages _ = []"

definition reference_average :: "nat list \<Rightarrow> nat" where
  "reference_average vs =
     (if length vs < 3 then sum_list vs div length vs else Max (set (triple_averages vs)))"

definition direction_values :: "trafficBucket list \<Rightarrow> bool \<Rightarrow> nat list" where
  "direction_values bs sent =
     map (\<lambda>b. unat (directionBytes b sent)) (filter (\<lambda>b. directionQualified b sent) bs)"

lemma unat_triple:
  fixes a b c :: u64
  assumes "unat a < 2 ^ 62" "unat b < 2 ^ 62" "unat c < 2 ^ 62"
  shows "unat ((0 + a + b + c) div 3) = (unat a + unat b + unat c) div 3"
proof -
  have "unat (a + b) = unat a + unat b" using assms by (subst unat_add_lem [symmetric]) simp
  moreover from this have "unat (a + b + c) = unat a + unat b + unat c"
    using assms by (subst unat_add_lem [THEN iffD1]) simp_all
  ultimately show ?thesis by (simp add: unat_div)
qed

lemma bestWindow_Max:
  assumes "\<forall>v \<in> set vs. unat v < 2 ^ 62"
  shows "unat (bestWindow vs best) = Max (insert (unat best) (set (triple_averages (map unat vs))))"
  using assms
proof (induction vs best rule: bestWindow.induct)
  case (1 a b c vs best)
  let ?T = "set (triple_averages (map unat (b # c # vs)))"
  define avg where "avg = (0 + a + b + c) div 3"
  define m where "m = (if best < avg then avg else best)"
  have avg: "unat avg = (unat a + unat b + unat c) div 3"
    unfolding avg_def using 1(2) by (intro unat_triple) auto
  have m: "unat m = max (unat best) (unat avg)"
    by (simp add: m_def word_less_nat_alt max_def)
  have "unat (bestWindow (b # c # vs) m) = Max (insert (unat m) ?T)"
    using 1(1) [OF avg_def] 1(2) by (simp only: m_def) simp
  also have "\<dots> = Max (insert (unat best) (insert (unat avg) ?T))"
    by (cases "?T = {}") (simp_all add: m max.assoc)
  finally have "unat (bestWindow (a # b # c # vs) best) = Max (insert (unat best) (insert (unat avg) ?T))"
    by (simp only: bestWindow.simps(1) Let_def m_def avg_def)
  then show ?case by (simp add: avg)
qed simp_all

lemma foldl_sum_unat:
  fixes a :: u64
  assumes "unat a + sum_list (map unat vs) < 2 ^ 64"
  shows "unat (foldl (+) a vs) = unat a + sum_list (map unat vs)"
  using assms
proof (induction vs arbitrary: a)
  case (Cons v vs)
  then have "unat (a + v) = unat a + unat v" by (subst unat_add_lem [symmetric]) simp
  with Cons show ?case by simp
qed simp

lemma bestDirectionAverage_reference:
  assumes "\<forall>v \<in> set (direction_values bs sent). v < 2 ^ 62"
  shows "unat (bestDirectionAverage bs sent) = reference_average (direction_values bs sent)"
proof -
  define vs where "vs = map (\<lambda>b. directionBytes b sent) (filter (\<lambda>b. directionQualified b sent) bs)"
  have dv: "direction_values bs sent = map unat vs" by (simp add: direction_values_def vs_def)
  have small: "\<forall>v \<in> set vs. unat v < 2 ^ 62" using assms by (simp add: dv)
  consider "vs = []" | a where "vs = [a]" | a b where "vs = [a, b]" | a b c ws where "vs = a # b # c # ws"
    by (metis neq_Nil_conv)
  then show ?thesis
  proof cases
    case (3 a b)
    then have "unat (a + b) = unat a + unat b" using small by (subst unat_add_lem [symmetric]) simp
    with 3 show ?thesis
      by (simp add: bestDirectionAverage_def reference_average_def dv vs_def [symmetric] Let_def unat_div numeral_2_eq_2 [symmetric])
  next
    case (4 a b c ws)
    then show ?thesis
      using bestWindow_Max [OF small, of 0]
      by (simp add: bestDirectionAverage_def reference_average_def dv vs_def [symmetric] Let_def del: bestWindow.simps)
  qed (simp_all add: bestDirectionAverage_def reference_average_def dv vs_def [symmetric] Let_def)
qed

section \<open>Properties\<close>

text \<open>
  Whatever is recorded and asked of a mux that starts without buckets, it keeps at most thirty
  of them and all but the newest carry enough traffic to count.  If the clock does not go back,
  the seconds increase strictly and every bucket has exactly the bytes and packets recorded in
  its second, modulo 64-bit wrap-around; a non-empty record is in the last bucket.
\<close>

theorem traffic_buckets_exact:
  assumes "active mc = []" and "bs = active (foldl mt_do mc ops)"
  shows "length bs \<le> 30 \<and> (\<forall>b \<in> set (butlast bs). bucketQualified b) \<and>
    (sorted (map op_time ops) \<longrightarrow>
      sorted_wrt (<) (map tb_sec bs) \<and>
      (\<forall>b \<in> set bs.
        tb_sent b = traffic_at fst (tb_sec b) ops \<and>
        tb_received b = traffic_at (fst \<circ> snd) (tb_sec b) ops \<and>
        tb_sentPackets b = traffic_at (fst \<circ> snd \<circ> snd) (tb_sec b) ops \<and>
        tb_receivedPackets b = traffic_at (snd \<circ> snd \<circ> snd) (tb_sec b) ops) \<and>
      (\<forall>now s r sp rp ops'. ops = ops' @ [TRecord now s r sp rp] \<and> (s \<noteq> 0 \<or> r \<noteq> 0 \<or> sp \<noteq> 0 \<or> rp \<noteq> 0) \<longrightarrow>
        bs \<noteq> [] \<and> tb_sec (last bs) = Unix now))"
proof -
  have bs: "bs = foldl bs_do [] ops" using assms by (simp add: active_run)
  have "shape_ok []" by (simp add: shape_ok_def)
  then have shape: "shape_ok bs" using shape_run bs by blast
  moreover have "sums_ok ops (op_time (last ops)) bs" if "sorted (map op_time ops)" "ops \<noteq> []"
    using sums_run [OF that] bs by simp
  ultimately show ?thesis
    using bs by (cases "ops = []") (auto simp: shape_ok_def sums_ok_def sums_of_def recorded_snoc)
qed

theorem traffic_buckets_exact_witness:
  "length (active (foldl mt_do \<lparr>mt_meter = NewTrafficMeter, mt_buckets = []\<rparr> [TRecord 7 1 0 1 0, TRecord 8 2 0 1 0])) \<le> 30"
  using traffic_buckets_exact [of "\<lparr>mt_meter = NewTrafficMeter, mt_buckets = []\<rparr>" _
      "[TRecord 7 1 0 1 0, TRecord 8 2 0 1 0]"]
  by (simp add: active_def NewTrafficMeter_def)

text \<open>
  The speed score of a mux equals the reference: in each direction the average of its counting
  buckets of the last ten minutes if they are fewer than three, else the best average of three
  consecutive ones, and of the two directions the better one.  Buckets below \<open>2 ^ 62\<close> bytes make
  the 64-bit sums exact.
\<close>

theorem speed_score_reference:
  assumes "\<forall>b \<in> set (active mc). unat (tb_sent b) < 2 ^ 62 \<and> unat (tb_received b) < 2 ^ 62"
    and "sorted (map tb_sec (active mc))"
  shows "unat (snd (SpeedScore mc now)) =
    max (reference_average (direction_values (filter (\<lambda>b. Unix now - 600 \<le> tb_sec b) (active mc)) True))
        (reference_average (direction_values (filter (\<lambda>b. Unix now - 600 \<le> tb_sec b) (active mc)) False))"
proof -
  have "dropWhile (\<lambda>b. tb_sec b < c) bs = filter (\<lambda>b. c \<le> tb_sec b) bs"
    if "sorted (map tb_sec bs)" for bs :: "trafficBucket list" and c
    using that by (induction bs) (auto intro!: filter_True [symmetric])
  from this [OF assms(2)] have prune: "pruneTrafficBuckets (active mc) now = filter (\<lambda>b. Unix now - 600 \<le> tb_sec b) (active mc)"
    by (simp add: prune_dropWhile)
  have "snd (SpeedScore mc now) = score (pruneTrafficBuckets (active mc) now)"
    by (auto simp: SpeedScore_def Meter_SpeedScore_def active_def Let_def)
  moreover have "unat (maxUint64 a b) = max (unat a) (unat b)" for a b
    by (simp add: maxUint64_def word_less_nat_alt max_def)
  moreover have "\<forall>v \<in> set (direction_values (filter P (active mc)) d). v < 2 ^ 62" for P d
    using assms(1) by (auto simp: direction_values_def directionBytes_def)
  ultimately show ?thesis
    by (simp add: score_def prune bestDirectionAverage_reference)
qed

theorem speed_score_reference_witness:
  "unat (snd (SpeedScore \<lparr>mt_meter = None, mt_buckets = [new_bucket 0 90 3 8 1]\<rparr> (62135596800 * 1000000000))) = 90"
  by (subst speed_score_reference)
     (simp_all add: active_def new_bucket_def Unix_def direction_values_def directionQualified_def
       directionBytes_def reference_average_def minTrafficBucketPackets_def minTrafficBucketBytes_def)

end
