(* ===== verification/IpText.thy ===== *)
theory IpText
  imports Prelude
begin

text \<open>
  IP addresses as the sources use them through Go's \<^verbatim>\<open>net\<close> package: \<^verbatim>\<open>net.ParseIP\<close>,
  \<^verbatim>\<open>IP.String\<close>, \<^verbatim>\<open>IP.To4\<close> and \<^verbatim>\<open>IP.To16\<close>, written out after the standard library.  An
  \<^verbatim>\<open>net.IP\<close> is a list of bytes, of length 4 or 16 in what the sources build; nil is None.

  The theorem is the round trip the proxy's address fields rely on: the text of an address
  parses back to that address, in 16-byte form.
\<close>

section \<open>Bytes and strings\<close>

definition char_of_byte :: "byte \<Rightarrow> char" where
  "char_of_byte b = char_of (unat b)"

definition byte_of_char :: "char \<Rightarrow> byte" where
  "byte_of_char c = word_of_nat (of_char c)"

definition string_of_bytes :: "bytes \<Rightarrow> string" where
  "string_of_bytes bs = map char_of_byte bs"

definition bytes_of_string :: "string \<Rightarrow> bytes" where
  "bytes_of_string s = map byte_of_char s"

lemma char_byte_inverse [simp]: "char_of_byte (byte_of_char c) = c" "byte_of_char (char_of_byte b) = b"
proof -
  have "of_char c < (256 :: nat)" by simp
  then show "char_of_byte (byte_of_char c) = c"
    by (simp add: char_of_byte_def byte_of_char_def unat_of_nat take_bit_eq_mod)
  have "unat b < 256" using unsigned_less [of b] by simp
  then show "byte_of_char (char_of_byte b) = b"
    by (simp add: char_of_byte_def byte_of_char_def take_bit_eq_mod)
qed

lemma string_bytes_inverse [simp, wire_simps]:
  "string_of_bytes (bytes_of_string s) = s" "bytes_of_string (string_of_bytes bs) = bs"
  by (simp_all add: string_of_bytes_def bytes_of_string_def comp_def)

lemma string_bytes_length [simp, wire_simps]:
  "length (string_of_bytes bs) = length bs" "length (bytes_of_string s) = length s"
  by (simp_all add: string_of_bytes_def bytes_of_string_def)

lemma word_bounds: "unat (b :: byte) \<le> 255" "unat (w :: u16) \<le> 65535"
  using unsigned_less [of b, where ?'a = nat] unsigned_less [of w, where ?'a = nat] by simp_all

section \<open>Parsing\<close>

definition dec_digit :: "char \<Rightarrow> nat option" where
  "dec_digit c =
     (let n = of_char c in if 48 \<le> n \<and> n \<le> (57::nat) then Some (n - 48) else None)"

definition hex_digit :: "char \<Rightarrow> nat option" where
  "hex_digit c =
     (let n = of_char c
      in if 48 \<le> n \<and> n \<le> (57::nat) then Some (n - 48)
         else if 97 \<le> n \<and> n \<le> 102 then Some (n - 97 + 10)
         else if 65 \<le> n \<and> n \<le> 70 then Some (n - 65 + 10)
         else None)"

text \<open>
  The dotted form: \<open>start\<close> says that a field starts here, then the value and the digits of the
  current field, then the fields before it.
\<close>

fun parseIPv4Fields :: "string \<Rightarrow> bool \<Rightarrow> nat \<Rightarrow> nat \<Rightarrow> bytes \<Rightarrow> bytes option" where
  "parseIPv4Fields [] start v digLen fields =
     (if length fields < 3 then None else Some (fields @ [word_of_nat v]))"
| "parseIPv4Fields (c # s) start v digLen fields =
     (case dec_digit c of
        Some d \<Rightarrow>
          if digLen = 1 \<and> v = 0 then None
          else if 255 < v * 10 + d then None
          else parseIPv4Fields s False (v * 10 + d) (digLen + 1) fields
      | None \<Rightarrow>
          if c \<noteq> CHR ''.'' then None
          else if start \<or> s = [] then None
          else if length fields = 3 then None
          else parseIPv4Fields s True 0 0 (fields @ [word_of_nat v]))"

fun hex_run :: "string \<Rightarrow> nat \<Rightarrow> nat \<Rightarrow> (nat \<times> nat \<times> string) option" where
  "hex_run [] off acc = Some (off, acc, [])"
| "hex_run (c # s) off acc =
     (case hex_digit c of
        None \<Rightarrow> Some (off, acc, c # s)
      | Some d \<Rightarrow>
          if 3 < off then None
          else if 65535 < acc * 16 + d then None
          else hex_run s (off + 1) (acc * 16 + d))"

text \<open>The groups of an IPv6 text: what is left, the bytes so far and the place of the ellipsis.\<close>

function parse6_groups :: "string \<Rightarrow> bytes \<Rightarrow> nat option \<Rightarrow> (string \<times> bytes \<times> nat option) option" where
  "parse6_groups s ip ellipsis =
     (if 16 \<le> length ip then Some (s, ip, ellipsis)
      else
        (case hex_run s 0 0 of
           None \<Rightarrow> None
         | Some (off, acc, r) \<Rightarrow>
             if off = 0 then None
             else if r \<noteq> [] \<and> hd r = CHR ''.''
             then if ellipsis = None \<and> length ip \<noteq> 12 then None
                  else if 16 < length ip + 4 then None
                  else (case parseIPv4Fields s True 0 0 [] of
                          None \<Rightarrow> None
                        | Some fields \<Rightarrow> Some ([], ip @ fields, ellipsis))
             else
               (let ip' = ip @ put16 (word_of_nat acc)
                in if r = [] then Some ([], ip', ellipsis)
                   else if hd r \<noteq> CHR '':'' then None
                   else if length r = 1 then None
                   else if hd (tl r) = CHR '':''
                   then if ellipsis \<noteq> None then None
                        else if tl (tl r) = [] then Some ([], ip', Some (length ip'))
                        else parse6_groups (tl (tl r)) ip' (Some (length ip'))
                   else parse6_groups (tl r) ip' ellipsis)))"
  by pat_completeness auto
termination by (relation "measure (\<lambda>(s, ip, e). 16 - length ip)") auto

declare parse6_groups.simps [simp del]

definition parseIPv6 :: "string \<Rightarrow> bytes option" where
  "parseIPv6 t =
     (if CHR ''%'' \<in> set t then None
      else
        (let lead = (2 \<le> length t \<and> t ! 0 = CHR '':'' \<and> t ! 1 = CHR '':'');
             s = (if lead then drop 2 t else t)
         in if lead \<and> s = [] then Some (replicate 16 0)
            else
              (case parse6_groups s [] (if lead then Some 0 else None) of
                 None \<Rightarrow> None
               | Some (rest, ip, ellipsis) \<Rightarrow>
                   if rest \<noteq> [] then None
                   else if length ip < 16
                   then (case ellipsis of
                           None \<Rightarrow> None
                         | Some e \<Rightarrow> Some (take e ip @ replicate (16 - length ip) 0 @ drop e ip))
                   else if ellipsis \<noteq> None then None
                   else Some ip)))"

definition v4_in_v6 :: bytes where
  "v4_in_v6 = [0, 0, 0, 0, 0, 0, 0, 0, 0, 0, 0xff, 0xff]"

definition ParseIP :: "string \<Rightarrow> bytes option" where
  "ParseIP s =
     (case find (\<lambda>c. c = CHR ''.'' \<or> c = CHR '':'' \<or> c = CHR ''%'') s of
        None \<Rightarrow> None
      | Some c \<Rightarrow>
          if c = CHR ''.'' then map_option ((@) v4_in_v6) (parseIPv4Fields s True 0 0 [])
          else if c = CHR '':'' then parseIPv6 s
          else None)"

definition To4 :: "bytes \<Rightarrow> bytes option" where
  "To4 ip =
     (if length ip = 4 then Some ip
      else if length ip = 16 \<and> take 12 ip = v4_in_v6 then Some (drop 12 ip)
      else None)"

definition To16 :: "bytes \<Rightarrow> bytes option" where
  "To16 ip =
     (if length ip = 4 then Some (v4_in_v6 @ ip)
      else if length ip = 16 then Some ip else None)"

section \<open>Printing\<close>

definition digit_char :: "nat \<Rightarrow> char" where
  "digit_char d = (if d < 10 then char_of (48 + d) else char_of (97 + (d - 10)))"

definition dec_text :: "byte \<Rightarrow> string" where
  "dec_text b =
     (let x = unat b
      in (if 100 \<le> x then [digit_char (x div 100)] else []) @
         (if 10 \<le> x then [digit_char (x div 10 mod 10)] else []) @ [digit_char (x mod 10)])"

fun nat_text :: "nat \<Rightarrow> string" where
  "nat_text n = (if n < 10 then [digit_char n] else nat_text (n div 10) @ [digit_char (n mod 10)])"

declare nat_text.simps [simp del]

definition hex_text :: "u16 \<Rightarrow> string" where
  "hex_text w =
     (let x = unat w
      in (if 0x1000 \<le> x then [digit_char (x div 0x1000)] else []) @
         (if 0x100 \<le> x then [digit_char (x div 0x100 mod 16)] else []) @
         (if 0x10 \<le> x then [digit_char (x div 0x10 mod 16)] else []) @ [digit_char (x mod 16)])"

fun join_text :: "char \<Rightarrow> string list \<Rightarrow> string" where
  "join_text c [] = []"
| "join_text c [s] = s"
| "join_text c (s # t # ss) = s @ c # join_text c (t # ss)"

fun groups_of :: "bytes \<Rightarrow> u16 list" where
  "groups_of (a # b # bs) = get16 [a, b] # groups_of bs"
| "groups_of _ = []"

definition zero_run :: "u16 list \<Rightarrow> nat \<Rightarrow> nat" where
  "zero_run gs i = length (takeWhile (\<lambda>g. g = 0) (drop i gs))"

text \<open>The first longest run of at least two zero groups is printed as the ellipsis.\<close>

definition best_run :: "u16 list \<Rightarrow> nat \<times> nat" where
  "best_run gs =
     foldl (\<lambda>(s, l) i. if 2 \<le> zero_run gs i \<and> l < zero_run gs i then (i, zero_run gs i) else (s, l))
       (0, 0) [0..<length gs]"

definition text6 :: "bytes \<Rightarrow> string" where
  "text6 ip =
     (let gs = groups_of ip; (s, l) = best_run gs
      in if l = 0 then join_text (CHR '':'') (map hex_text gs)
         else join_text (CHR '':'') (map hex_text (take s gs)) @ '':'' @ '':'' @
              join_text (CHR '':'') (map hex_text (drop (s + l) gs)))"

text \<open>Lengths other than 4 and 16 print as \<^verbatim>\<open><nil>\<close> or a hex dump; the sources never build them.\<close>

definition hex_dump :: "bytes \<Rightarrow> string" where
  "hex_dump bs = concat (map (\<lambda>b. [digit_char (unat b div 16), digit_char (unat b mod 16)]) bs)"

definition IP_String :: "bytes \<Rightarrow> string" where
  "IP_String ip =
     (if ip = [] then ''<nil>''
      else if length ip \<noteq> 4 \<and> length ip \<noteq> 16 then ''?'' @ hex_dump ip
      else case To4 ip of
        Some p4 \<Rightarrow> join_text (CHR ''.'') (map dec_text p4)
      | None \<Rightarrow> text6 ip)"

section \<open>Digits\<close>

lemma dec_digit_char: "d < 10 \<Longrightarrow> dec_digit (digit_char d) = Some d"
  by (simp add: dec_digit_def digit_char_def take_bit_eq_mod)

lemma hex_digit_char: "d < 16 \<Longrightarrow> hex_digit (digit_char d) = Some d"
  by (simp add: hex_digit_def digit_char_def take_bit_eq_mod)

lemma digit_char_plain:
  "d < 16 \<Longrightarrow> digit_char d \<notin> {CHR ''.'', CHR '':'', CHR ''%''}"
  using hex_digit_char [of d] by (auto simp: hex_digit_def)

lemma no_digit [simp]: "dec_digit (CHR ''.'') = None" "hex_digit (CHR '':'') = None"
  by (simp_all add: dec_digit_def hex_digit_def)

lemma dec_text_plain: "set (dec_text b) \<inter> {CHR ''.'', CHR '':'', CHR ''%''} = {}"
proof -
  have "unat b < 256" using unsigned_less [of b] by simp
  then have "unat b div 100 < 16" "unat b div 10 mod 10 < 16" "unat b mod 10 < 16" by auto
  note digit_char_plain [OF this(1)] digit_char_plain [OF this(2)] digit_char_plain [OF this(3)]
  then show ?thesis unfolding dec_text_def Let_def by auto
qed

lemma hex_text_plain: "set (hex_text w) \<inter> {CHR ''.'', CHR '':'', CHR ''%''} = {}"
proof -
  have "unat w < 65536" using unsigned_less [of w] by simp
  then have "unat w div 0x1000 < 16" "unat w div 0x100 mod 16 < 16" "unat w div 0x10 mod 16 < 16" "unat w mod 16 < 16"
    by auto
  note digit_char_plain [OF this(1)] digit_char_plain [OF this(2)] digit_char_plain [OF this(3)]
    digit_char_plain [OF this(4)]
  then show ?thesis unfolding hex_text_def Let_def by auto
qed

lemma text_nonempty [simp]: "dec_text b \<noteq> []" "hex_text w \<noteq> []"
  by (simp_all add: dec_text_def hex_text_def Let_def)

section \<open>Dotted addresses\<close>

lemma parse_dec_text:
  "parseIPv4Fields (dec_text b @ s) True 0 0 fields =
     parseIPv4Fields s False (unat b) (length (dec_text b)) fields"
proof -
  define x where "x = unat b"
  have x: "x < 256" using unsigned_less [of b] by (simp add: x_def)
  consider "x < 10" | "10 \<le> x" "x < 100" | "100 \<le> x" by linarith
  then show ?thesis
  proof cases
    case 1
    then show ?thesis
      by (simp add: dec_text_def Let_def x_def [symmetric] dec_digit_char)
  next
    case 2
    then have d: "x div 10 mod 10 = x div 10" "x div 10 \<le> 255" "x div 10 < 10" "x div 10 * 10 + x mod 10 = x"
      by auto
    with 2 x show ?thesis
      by (auto simp: dec_text_def Let_def x_def [symmetric] dec_digit_char)
  next
    case 3
    have "x div 100 = x div 10 div 10" by (simp add: div_mult2_eq [symmetric])
    then have "x div 100 * 10 + x div 10 mod 10 = x div 10" by (metis div_mult_mod_eq)
    moreover have "x div 100 < 10" "x div 10 * 10 + x mod 10 = x" "x div 10 \<le> 255" "x div 10 \<noteq> 0"
      using 3 x by auto
    ultimately show ?thesis using 3 x
      by (auto simp: dec_text_def Let_def x_def [symmetric] dec_digit_char)
  qed
qed

lemma parse_dot:
  "s \<noteq> [] \<Longrightarrow> length fields \<noteq> 3 \<Longrightarrow>
    parseIPv4Fields (CHR ''.'' # s) False v n fields = parseIPv4Fields s True 0 0 (fields @ [word_of_nat v])"
  by simp

lemma parse_dotted:
  "parseIPv4Fields (join_text (CHR ''.'') (map dec_text [a, b, c, d])) True 0 0 [] = Some [a, b, c, d]"
  using parse_dec_text [of d "[]"] by (simp add: parse_dec_text parse_dot)

lemma find_plain:
  "set s \<inter> {CHR ''.'', CHR '':'', CHR ''%''} = {} \<Longrightarrow>
    find (\<lambda>c. c = CHR ''.'' \<or> c = CHR '':'' \<or> c = CHR ''%'') (s @ t) =
    find (\<lambda>c. c = CHR ''.'' \<or> c = CHR '':'' \<or> c = CHR ''%'') t"
  by (induction s) auto

lemma ParseIP_dotted:
  assumes "length p4 = 4"
  shows "ParseIP (join_text (CHR ''.'') (map dec_text p4)) = Some (v4_in_v6 @ p4)"
proof -
  obtain a b c d where p4: "p4 = [a, b, c, d]"
    using assms by (auto simp: numeral_eq_Suc length_Suc_conv)
  show ?thesis
    using parse_dotted [of a b c d] find_plain [OF dec_text_plain, of a]
    by (simp add: ParseIP_def p4)
qed

section \<open>Colon-separated groups\<close>

definition seg_bytes :: "u16 list \<Rightarrow> bytes" where
  "seg_bytes gs = concat (map put16 gs)"

lemma seg_bytes_simps [simp]:
  "seg_bytes [] = []" "seg_bytes (g # gs) = put16 g @ seg_bytes gs" "seg_bytes (gs @ hs) = seg_bytes gs @ seg_bytes hs"
  "length (seg_bytes gs) = 2 * length gs"
  by (induction gs) (simp_all add: seg_bytes_def)

lemma hex_run_text:
  assumes "s = [] \<or> hex_digit (hd s) = None"
  shows "hex_run (hex_text w @ s) 0 0 = Some (length (hex_text w), unat w, s)"
proof -
  have stop: "hex_run s n v = Some (n, v, s)" for n v using assms by (cases s) auto
  define x where "x = unat w"
  have x: "x < 65536" using unsigned_less [of w] by (simp add: x_def)
  have "x div 0x100 = x div 0x10 div 16" "x div 0x1000 = x div 0x100 div 16"
    by (simp_all add: div_mult2_eq [symmetric])
  then have parts: "x div 0x10 * 16 + x mod 16 = x" "x div 0x100 * 16 + x div 0x10 mod 16 = x div 0x10"
    "x div 0x1000 * 16 + x div 0x100 mod 16 = x div 0x100"
    by (metis div_mult_mod_eq)+
  consider "x < 0x10" | "0x10 \<le> x" "x < 0x100" | "0x100 \<le> x" "x < 0x1000" | "0x1000 \<le> x" by linarith
  then show ?thesis
  proof cases
    case 1
    then show ?thesis by (simp add: hex_text_def Let_def x_def [symmetric] hex_digit_char stop)
  next
    case 2
    then have "x div 0x10 mod 16 = x div 0x10" by simp
    with 2 parts x show ?thesis by (simp add: hex_text_def Let_def x_def [symmetric] hex_digit_char stop)
  next
    case 3
    then have "x div 0x100 mod 16 = x div 0x100" "x div 0x100 < 16" by auto
    with 3 parts x show ?thesis by (simp add: hex_text_def Let_def x_def [symmetric] hex_digit_char stop)
  next
    case 4
    then have "x div 0x1000 < 16" "x div 0x100 \<le> 65535" "x div 0x10 \<le> 65535" "x div 0x1000 \<le> 65535" using x by auto
    with 4 parts x show ?thesis by (simp add: hex_text_def Let_def x_def [symmetric] hex_digit_char stop)
  qed
qed

lemma hex_text_then:
  "s = [] \<or> hex_digit (hd s) = None \<Longrightarrow> length ip < 16 \<Longrightarrow> s = [] \<or> hd s \<noteq> CHR ''.'' \<Longrightarrow>
    parse6_groups (hex_text w @ s) ip ellipsis =
      (if s = [] then Some ([], ip @ put16 w, ellipsis)
       else if hd s \<noteq> CHR '':'' then None
       else if length s = 1 then None
       else if hd (tl s) = CHR '':''
       then if ellipsis \<noteq> None then None
            else if tl (tl s) = [] then Some ([], ip @ put16 w, Some (length ip + 2))
            else parse6_groups (tl (tl s)) (ip @ put16 w) (Some (length ip + 2))
       else parse6_groups (tl s) (ip @ put16 w) ellipsis)"
  by (subst parse6_groups.simps) (auto simp: hex_run_text Let_def)

lemma join_hex_head:
  "gs \<noteq> [] \<Longrightarrow> join_text (CHR '':'') (map hex_text gs) \<noteq> [] \<and>
    hd (join_text (CHR '':'') (map hex_text gs)) \<notin> {CHR ''.'', CHR '':'', CHR ''%''}"
proof -
  assume "gs \<noteq> []"
  then obtain g hs where gs: "gs = g # hs" by (cases gs) auto
  have "hd (hex_text g) \<in> set (hex_text g)" by simp
  with hex_text_plain [of g] have "hd (hex_text g) \<notin> {CHR ''.'', CHR '':'', CHR ''%''}"
    by (metis IntI empty_iff)
  then show ?thesis by (cases hs) (auto simp: gs)
qed

lemma parse_joined:
  assumes "gs \<noteq> []" and "length ip + 2 * length gs \<le> 16"
  shows "parse6_groups (join_text (CHR '':'') (map hex_text gs)) ip e = Some ([], ip @ seg_bytes gs, e)"
  using assms
proof (induction gs arbitrary: ip)
  case (Cons g gs)
  show ?case
  proof (cases gs)
    case Nil
    then show ?thesis using hex_text_then [of "[]" ip g e] Cons.prems by simp
  next
    case (Cons h hs)
    let ?t = "join_text (CHR '':'') (map hex_text gs)"
    have t: "?t \<noteq> []" "hd ?t \<noteq> CHR '':''" using join_hex_head [of gs] Cons by auto
    have "join_text (CHR '':'') (map hex_text (g # gs)) = hex_text g @ CHR '':'' # ?t" by (simp add: Cons)
    moreover have "parse6_groups (hex_text g @ CHR '':'' # ?t) ip e = parse6_groups ?t (ip @ put16 g) e"
      using t Cons.prems by (subst hex_text_then) auto
    ultimately show ?thesis using Cons.IH [of "ip @ put16 g"] Cons.prems Cons by (simp only:) simp
  qed
qed simp

lemma parse_ellipsis:
  assumes "gs \<noteq> []" and "length ip + 2 * length gs < 16"
  shows "parse6_groups (join_text (CHR '':'') (map hex_text gs) @ '':'' @ '':'' @ t) ip None =
    (let ip' = ip @ seg_bytes gs
     in if t = [] then Some ([], ip', Some (length ip')) else parse6_groups t ip' (Some (length ip')))"
  using assms
proof (induction gs arbitrary: ip)
  case (Cons g gs)
  show ?case
  proof (cases gs)
    case Nil
    then show ?thesis using Cons.prems by (simp add: hex_text_then Let_def)
  next
    case (Cons h hs)
    let ?t = "join_text (CHR '':'') (map hex_text gs) @ '':'' @ '':'' @ t"
    have t: "?t \<noteq> []" "hd ?t \<noteq> CHR '':''" using join_hex_head [of gs] Cons by auto
    have "join_text (CHR '':'') (map hex_text (g # gs)) @ '':'' @ '':'' @ t = hex_text g @ CHR '':'' # ?t"
      by (simp add: Cons)
    moreover have "parse6_groups (hex_text g @ CHR '':'' # ?t) ip None = parse6_groups ?t (ip @ put16 g) None"
      using t Cons.prems by (subst hex_text_then) auto
    ultimately show ?thesis
      using Cons.IH [of "ip @ put16 g"] Cons.prems Cons by (simp only:) (simp add: Let_def)
  qed
qed simp

lemma join_set: "set (join_text c ss) \<subseteq> insert c (\<Union> (set ` set ss))"
  by (induction c ss rule: join_text.induct) auto

lemma join_hex_set:
  "CHR ''%'' \<notin> set (join_text (CHR '':'') (map hex_text gs))"
  "CHR ''.'' \<notin> set (join_text (CHR '':'') (map hex_text gs))"
proof -
  have "CHR ''%'' \<notin> set (hex_text g)" "CHR ''.'' \<notin> set (hex_text g)" for g
    using hex_text_plain [of g] by auto
  then show "CHR ''%'' \<notin> set (join_text (CHR '':'') (map hex_text gs))"
    and "CHR ''.'' \<notin> set (join_text (CHR '':'') (map hex_text gs))"
    using join_set [of "CHR '':''" "map hex_text gs"] by auto
qed

lemma parseIPv6_plain:
  assumes "length gs = 8"
  shows "parseIPv6 (join_text (CHR '':'') (map hex_text gs)) = Some (seg_bytes gs)"
proof -
  let ?t = "join_text (CHR '':'') (map hex_text gs)"
  have "gs \<noteq> []" using assms by auto
  then have "?t ! 0 \<noteq> CHR '':''" using join_hex_head [of gs] by (metis hd_conv_nth insertCI)
  then show ?thesis
    using parse_joined [OF \<open>gs \<noteq> []\<close>, of "[]" None] assms
    by (simp add: parseIPv6_def join_hex_set Let_def)
qed

lemma parseIPv6_ellipsis:
  assumes "length pre + l + length post = 8" and "2 \<le> l"
  shows "parseIPv6 (join_text (CHR '':'') (map hex_text pre) @ '':'' @ '':'' @
      join_text (CHR '':'') (map hex_text post)) = Some (seg_bytes pre @ replicate (2 * l) 0 @ seg_bytes post)"
proof -
  let ?p = "join_text (CHR '':'') (map hex_text pre)" and ?q = "join_text (CHR '':'') (map hex_text post)"
  have mod: "CHR ''%'' \<notin> set (?p @ '':'' @ '':'' @ ?q)" by (simp add: join_hex_set)
  have l: "16 - (2 * length pre + 2 * length post) = 2 * l" using assms by simp
  have q: "?q = [] \<longleftrightarrow> post = []" using join_hex_head [of post] by (cases "post = []") auto
  have post: "post \<noteq> [] \<Longrightarrow> parse6_groups ?q (seg_bytes pre) (Some (2 * length pre)) =
      Some ([], seg_bytes pre @ seg_bytes post, Some (2 * length pre))"
    using assms by (intro parse_joined) auto
  show ?thesis
  proof (cases "pre = []")
    case True
    then show ?thesis
      using mod post q l assms by (cases "post = []") (auto simp: parseIPv6_def Let_def numeral_eq_Suc)
  next
    case False
    then have "?p \<noteq> []" "?p ! 0 \<noteq> CHR '':''" using join_hex_head [of pre] by (auto simp: hd_conv_nth [symmetric])
    then have lead: "(?p @ '':'' @ '':'' @ ?q) ! 0 \<noteq> CHR '':''" by (simp add: nth_append)
    have "parse6_groups (?p @ '':'' @ '':'' @ ?q) [] None =
        Some ([], seg_bytes pre @ seg_bytes post, Some (2 * length pre))"
      using parse_ellipsis [OF False, of "[]" ?q] assms post q by (cases "post = []") (auto simp: Let_def)
    with mod lead l assms show ?thesis by (simp add: parseIPv6_def Let_def)
  qed
qed

lemma best_run_zero:
  assumes "best_run gs = (s, l)"
  shows "l = 0 \<or> 2 \<le> l \<and> s + l \<le> length gs \<and> gs = take s gs @ replicate l 0 @ drop (s + l) gs"
proof -
  define P where "P = (\<lambda>(s, l). l = 0 \<or> 2 \<le> l \<and> l = zero_run gs s)"
  have "P (foldl (\<lambda>(s, l) i. if 2 \<le> zero_run gs i \<and> l < zero_run gs i then (i, zero_run gs i) else (s, l)) sl is)"
    if "P sl" for sl "is"
    using that
  proof (induction "is" arbitrary: sl)
    case (Cons i "is")
    have "P ((\<lambda>(s, l) i. if 2 \<le> zero_run gs i \<and> l < zero_run gs i then (i, zero_run gs i) else (s, l)) sl i)"
      using Cons.prems by (auto simp: P_def split: if_splits)
    from Cons.IH [OF this] show ?case by simp
  qed simp
  from this [of "(0, 0)" "[0..<length gs]"] have "P (s, l)" using assms by (simp add: best_run_def P_def)
  moreover have "s + l \<le> length gs \<and> gs = take s gs @ replicate l 0 @ drop (s + l) gs"
    if "l = zero_run gs s" "2 \<le> l"
  proof -
    let ?z = "takeWhile (\<lambda>g. g = 0) (drop s gs)"
    have z: "?z = replicate l 0"
      using that(1) by (simp add: zero_run_def replicate_eqI) (metis (mono_tags) replicate_eqI set_takeWhileD)
    have "drop l (drop s gs) = dropWhile (\<lambda>g. g = 0) (drop s gs)"
      by (simp only: that(1) zero_run_def dropWhile_eq_drop)
    then have "drop s gs = ?z @ drop l (drop s gs)" by simp
    with z have "gs = take s gs @ replicate l 0 @ drop (s + l) gs"
      by (metis append_take_drop_id drop_drop add.commute)
    moreover have "l \<le> length (drop s gs)" by (simp only: that(1) zero_run_def length_takeWhile_le)
    ultimately show ?thesis using that(2) by auto
  qed
  ultimately show ?thesis by (auto simp: P_def)
qed

lemma groups_seg: "even (length ip) \<Longrightarrow> seg_bytes (groups_of ip) = ip \<and> length (groups_of ip) = length ip div 2"
proof (induction ip rule: groups_of.induct)
  case (1 a b bs)
  then show ?case by (simp add: put_get)
qed auto

lemma parse_text6:
  assumes "length ip = 16"
  shows "parseIPv6 (text6 ip) = Some ip" and "CHR ''.'' \<notin> set (text6 ip)" and "CHR ''%'' \<notin> set (text6 ip)"
    and "CHR '':'' \<in> set (text6 ip)"
proof -
  define gs where "gs = groups_of ip"
  have gs: "seg_bytes gs = ip" "length gs = 8" using groups_seg [of ip] assms by (simp_all add: gs_def)
  obtain s l where run: "best_run gs = (s, l)" by fastforce
  have zeros: "seg_bytes (replicate n 0) = replicate (2 * n) 0" for n
    by (induction n) (simp_all add: put16_def)
  have "parseIPv6 (text6 ip) = Some ip \<and> CHR ''.'' \<notin> set (text6 ip) \<and> CHR ''%'' \<notin> set (text6 ip) \<and>
      CHR '':'' \<in> set (text6 ip)"
  proof (cases "l = 0")
    case True
    have "CHR '':'' \<in> set (join_text (CHR '':'') (map hex_text gs))"
      using gs(2) by (cases gs rule: list.exhaust [case_product list.exhaust, of _ "tl gs"]) auto
    with True run gs show ?thesis
      by (simp add: text6_def gs_def [symmetric] parseIPv6_plain join_hex_set)
  next
    case False
    then have z: "2 \<le> l" "s + l \<le> length gs" "gs = take s gs @ replicate l 0 @ drop (s + l) gs"
      using best_run_zero [OF run] by auto
    have "seg_bytes (take s gs) @ replicate (2 * l) 0 @ seg_bytes (drop (s + l) gs) = ip"
      using gs(1) z(3) by (metis seg_bytes_simps(3) zeros)
    with z gs False run show ?thesis
      using parseIPv6_ellipsis [of "take s gs" l "drop (s + l) gs"]
      by (simp add: text6_def gs_def [symmetric] join_hex_set)
  qed
  then show "parseIPv6 (text6 ip) = Some ip" and "CHR ''.'' \<notin> set (text6 ip)" and "CHR ''%'' \<notin> set (text6 ip)"
    and "CHR '':'' \<in> set (text6 ip)" by auto
qed

lemma find_colon:
  assumes "CHR ''.'' \<notin> set s" and "CHR ''%'' \<notin> set s" and "CHR '':'' \<in> set s"
  shows "find (\<lambda>c. c = CHR ''.'' \<or> c = CHR '':'' \<or> c = CHR ''%'') s = Some (CHR '':'')"
  using assms by (induction s) auto

lemma ParseIP_String:
  assumes "length ip = 4 \<or> length ip = 16"
  shows "ParseIP (IP_String ip) = To16 ip"
proof (cases "To4 ip")
  case (Some p4)
  then have "length p4 = 4" "To16 ip = Some (v4_in_v6 @ p4)"
    using assms by (auto simp: To4_def To16_def split: if_splits) (metis append_take_drop_id)
  with Some assms show ?thesis by (auto simp: IP_String_def ParseIP_dotted)
next
  case None
  then have "length ip = 16" "To16 ip = Some ip" using assms by (auto simp: To4_def To16_def)
  with None show ?thesis
    by (auto simp: IP_String_def ParseIP_def find_colon parse_text6)
qed

lemma To4_length: "To4 ip = Some p \<Longrightarrow> length p = 4"
  by (auto simp: To4_def v4_in_v6_def split: if_splits)

lemma To16_length: "To16 ip = Some p \<Longrightarrow> length p = 16"
  by (auto simp: To16_def v4_in_v6_def split: if_splits)

lemma To16_idem: "To16 ip = Some p \<Longrightarrow> To16 p = Some p"
  by (auto simp: To16_def v4_in_v6_def split: if_splits)

lemma To4_To16: "To16 ip = Some p \<Longrightarrow> To4 p = To4 ip"
  by (auto simp: To16_def To4_def v4_in_v6_def split: if_splits)

end
