(* ===== verification/Socks5.thy ===== *)
theory Socks5
  imports IpText
begin

text \<open>
  \<^verbatim>\<open>pkg/socks5/socks5.go\<close>: the SOCKS5 greeting and request of a local client, the request
  format carried in a channel request, and the two UDP datagram formats, the SOCKS5 one of the
  client and the one carried in a channel with its length-prefixed frames.

  A connection that is read is the list of bytes it will still deliver before its end; what is
  written to it is returned.  A nil slice, the error result of the encoders, is the empty list.
\<close>

section \<open>Connections\<close>

datatype socks_err =
  IoEOF | IoUnexpectedEOF | IoWrite | UnsupportedVersion | NoAuthMethod | UnsupportedCommand
| UnsupportedAddrType | TooShort | EmptyBody | InvalidReserved

definition ReadFull :: "nat \<Rightarrow> bytes \<Rightarrow> (socks_err + bytes) \<times> bytes" where
  "ReadFull n inp =
     (if n \<le> length inp then (Inr (take n inp), drop n inp)
      else (Inl (if inp = [] then IoEOF else IoUnexpectedEOF), []))"

section \<open>Constants and requests\<close>

definition Socks5Version :: byte where "Socks5Version = 0x05"
definition NoAuth :: byte where "NoAuth = 0x00"
definition CmdConnect :: byte where "CmdConnect = 0x01"
definition CmdUDPAssociate :: byte where "CmdUDPAssociate = 0x03"
definition AtypIPv4 :: byte where "AtypIPv4 = 0x01"
definition AtypDomain :: byte where "AtypDomain = 0x03"
definition AtypIPv6 :: byte where "AtypIPv6 = 0x04"

lemmas socks_defs = Socks5Version_def NoAuth_def CmdConnect_def CmdUDPAssociate_def
  AtypIPv4_def AtypDomain_def AtypIPv6_def

record Request =
  rq_Version :: byte
  rq_Cmd :: byte
  rq_AddrType :: byte
  rq_DstAddr :: string
  rq_DstPort :: u16
  rq_ConnType :: byte

definition new_Request :: Request where
  "new_Request = \<lparr>rq_Version = 0, rq_Cmd = 0, rq_AddrType = 0, rq_DstAddr = [], rq_DstPort = 0, rq_ConnType = 0\<rparr>"

text \<open>
  A handler returns what it wrote, its result and the input it left.  \<open>werr\<close> says whether a write
  fails; then nothing is written.
\<close>

definition HandshakeAfterVersion :: "bool \<Rightarrow> bytes \<Rightarrow> byte \<Rightarrow> bytes \<times> socks_err option \<times> bytes" where
  "HandshakeAfterVersion werr inp version =
     (if version \<noteq> Socks5Version then ([], Some UnsupportedVersion, inp)
      else
        (case ReadFull 1 inp of
           (Inl err, rest) \<Rightarrow> ([], Some err, rest)
         | (Inr count, rest) \<Rightarrow>
             (case ReadFull (unat (count ! 0)) rest of
                (Inl err, rest') \<Rightarrow> ([], Some err, rest')
              | (Inr methods, rest') \<Rightarrow>
                  if \<not> list_ex (\<lambda>method. method = NoAuth) methods
                  then (if werr then [] else [Socks5Version, 0xFF], Some NoAuthMethod, rest')
                  else if werr then ([], Some IoWrite, rest')
                  else ([Socks5Version, NoAuth], None, rest'))))"

definition Handshake :: "bool \<Rightarrow> bytes \<Rightarrow> bytes \<times> socks_err option \<times> bytes" where
  "Handshake werr inp =
     (case ReadFull 1 inp of
        (Inl err, rest) \<Rightarrow> ([], Some err, rest)
      | (Inr version, rest) \<Rightarrow> HandshakeAfterVersion werr rest (version ! 0))"

text \<open>The reply \<^verbatim>\<open>SendReply\<close> writes; no bind address is None.\<close>

definition SendReply :: "byte \<Rightarrow> bytes option \<Rightarrow> u16 \<Rightarrow> bytes" where
  "SendReply rep bindAddr bindPort =
     (let to4 = Option.bind bindAddr To4; to16 = Option.bind bindAddr To16;
          replyLen = (if bindAddr \<noteq> None \<and> to4 = None \<and> to16 \<noteq> None then 22 else 10);
          reply = replicate replyLen 0;
          reply1 = reply[0 := Socks5Version, 1 := rep, 2 := 0]
      in if bindAddr = None
         then take 8 (reply1[3 := AtypIPv4]) @ put16 bindPort
         else case to4 of
           Some ip4 \<Rightarrow> take 4 (reply1[3 := AtypIPv4]) @ ip4 @ put16 bindPort
         | None \<Rightarrow>
             (case to16 of
                Some ip16 \<Rightarrow> take 4 (reply1[3 := AtypIPv6]) @ ip16 @ put16 bindPort
              | None \<Rightarrow> take 8 (reply1[3 := AtypIPv4]) @ put16 bindPort))"

definition read_address :: "byte \<Rightarrow> bytes \<Rightarrow> (socks_err + string) \<times> bytes" where
  "read_address addrType inp =
     (if addrType = AtypIPv4
      then (case ReadFull 4 inp of
              (Inl err, rest) \<Rightarrow> (Inl err, rest)
            | (Inr addr, rest) \<Rightarrow> (Inr (IP_String addr), rest))
      else if addrType = AtypDomain
      then (case ReadFull 1 inp of
              (Inl err, rest) \<Rightarrow> (Inl err, rest)
            | (Inr lenBuf, rest) \<Rightarrow>
                (case ReadFull (unat (lenBuf ! 0)) rest of
                   (Inl err, rest') \<Rightarrow> (Inl err, rest')
                 | (Inr domain, rest') \<Rightarrow> (Inr (string_of_bytes domain), rest')))
      else if addrType = AtypIPv6
      then (case ReadFull 16 inp of
              (Inl err, rest) \<Rightarrow> (Inl err, rest)
            | (Inr addr, rest) \<Rightarrow> (Inr (IP_String addr), rest))
      else (Inl UnsupportedAddrType, inp))"

definition ReadRequest :: "bool \<Rightarrow> bytes \<Rightarrow> bytes \<times> (socks_err + Request) \<times> bytes" where
  "ReadRequest werr inp =
     (case ReadFull 4 inp of
        (Inl err, rest) \<Rightarrow> ([], Inl err, rest)
      | (Inr buf, rest) \<Rightarrow>
          if buf ! 0 \<noteq> Socks5Version then ([], Inl UnsupportedVersion, rest)
          else if buf ! 1 \<noteq> CmdConnect \<and> buf ! 1 \<noteq> CmdUDPAssociate
          then (if werr then [] else SendReply 0x07 None 0, Inl UnsupportedCommand, rest)
          else
            (let req = new_Request\<lparr>rq_Version := buf ! 0, rq_Cmd := buf ! 1, rq_AddrType := buf ! 3\<rparr>
             in case read_address (rq_AddrType req) rest of
                  (Inl err, rest') \<Rightarrow>
                    (if err = UnsupportedAddrType \<and> \<not> werr then SendReply 0x08 None 0 else [], Inl err, rest')
                | (Inr addr, rest') \<Rightarrow>
                    (case ReadFull 2 rest' of
                       (Inl err, rest'') \<Rightarrow> ([], Inl err, rest'')
                     | (Inr portBuf, rest'') \<Rightarrow>
                         ([], Inr (req\<lparr>rq_DstAddr := addr, rq_DstPort := get16 portBuf\<rparr>), rest''))))"

definition TargetAddr :: "Request \<Rightarrow> string" where
  "TargetAddr r = rq_DstAddr r @ '':'' @ nat_text (unat (rq_DstPort r))"

text \<open>
  The address bytes \<^verbatim>\<open>Request.Encode\<close> and \<^verbatim>\<open>UDPRequest.Encode\<close> append; None where they return nil.
  An unknown address type appends nothing.
\<close>

definition encode_address :: "byte \<Rightarrow> string \<Rightarrow> bytes option" where
  "encode_address addrType dstAddr =
     (if addrType = AtypIPv4
      then (case ParseIP dstAddr of None \<Rightarrow> None | Some ip \<Rightarrow> To4 ip)
      else if addrType = AtypDomain
      then Some (word_of_nat (length dstAddr) # bytes_of_string dstAddr)
      else if addrType = AtypIPv6
      then (case ParseIP dstAddr of None \<Rightarrow> None | Some ip \<Rightarrow> To16 ip)
      else Some [])"

definition Request_Encode :: "Request \<Rightarrow> bytes" where
  "Request_Encode r =
     (case encode_address (rq_AddrType r) (rq_DstAddr r) of
        None \<Rightarrow> []
      | Some addr \<Rightarrow> [rq_ConnType r, rq_AddrType r] @ addr @ put16 (rq_DstPort r))"

text \<open>
  The address at an offset, as \<^verbatim>\<open>DecodeRequest\<close> and \<^verbatim>\<open>ParseUDPRequest\<close> read it: the text and the
  offset after it.  The callers have checked that the byte at the offset exists.
\<close>

definition decode_address :: "byte \<Rightarrow> bytes \<Rightarrow> nat \<Rightarrow> socks_err + string \<times> nat" where
  "decode_address addrType data offset =
     (if addrType = AtypIPv4
      then if length data < offset + 4 + 2 then Inl TooShort
           else Inr (IP_String (take 4 (drop offset data)), offset + 4)
      else if addrType = AtypDomain
      then (let domainLen = unat (data ! offset); offset' = offset + 1
            in if length data < offset' + domainLen + 2 then Inl TooShort
               else Inr (string_of_bytes (take domainLen (drop offset' data)), offset' + domainLen))
      else if addrType = AtypIPv6
      then if length data < offset + 16 + 2 then Inl TooShort
           else Inr (IP_String (take 16 (drop offset data)), offset + 16)
      else Inl UnsupportedAddrType)"

definition DecodeRequest :: "bytes \<Rightarrow> socks_err + Request" where
  "DecodeRequest data =
     (if length data < 4 then Inl TooShort
      else
        (let req = new_Request\<lparr>rq_ConnType := data ! 0, rq_AddrType := data ! 1\<rparr>
         in case decode_address (rq_AddrType req) data 2 of
              Inl err \<Rightarrow> Inl err
            | Inr (addr, offset) \<Rightarrow>
                Inr (req\<lparr>rq_DstAddr := addr, rq_DstPort := get16 (take 2 (drop offset data))\<rparr>)))"

section \<open>Datagrams\<close>

record UDPRequest =
  ur_Frag :: byte
  ur_AddrType :: byte
  ur_DstAddr :: string
  ur_DstPort :: u16
  ur_Data :: bytes

definition EncodeChannelPacket :: "UDPRequest option \<Rightarrow> bytes" where
  "EncodeChannelPacket ro =
     (case ro of
        None \<Rightarrow> []
      | Some r \<Rightarrow>
          (let tail = put16 (ur_DstPort r) @ ur_Data r
           in if ur_AddrType r = AtypIPv4
              then (case Option.bind (ParseIP (ur_DstAddr r)) To4 of
                      None \<Rightarrow> [] | Some ip4 \<Rightarrow> [ur_AddrType r] @ ip4 @ tail)
              else if ur_AddrType r = AtypDomain
              then if length (ur_DstAddr r) = 0 \<or> 255 < length (ur_DstAddr r) then []
                   else [ur_AddrType r] @ (word_of_nat (length (ur_DstAddr r)) # bytes_of_string (ur_DstAddr r)) @ tail
              else if ur_AddrType r = AtypIPv6
              then (case ParseIP (ur_DstAddr r) of
                      None \<Rightarrow> []
                    | Some ip \<Rightarrow> if To4 ip \<noteq> None then [] else [ur_AddrType r] @ the (To16 ip) @ tail)
              else []))"

definition EncodeChannelFrame :: "UDPRequest option \<Rightarrow> bytes" where
  "EncodeChannelFrame r =
     (let body = EncodeChannelPacket r
      in if length body = 0 \<or> 65535 < length body then []
         else put16 (word_of_nat (length body)) @ body)"

definition ParseUDPChannelPacket :: "bytes \<Rightarrow> socks_err + UDPRequest" where
  "ParseUDPChannelPacket data =
     (if length data < 1 then Inl TooShort
      else
        (let addrType = data ! 0;
             finish = (\<lambda>addr offset. Inr \<lparr>ur_Frag = 0, ur_AddrType = addrType, ur_DstAddr = addr,
                ur_DstPort = get16 (take 2 (drop offset data)), ur_Data = drop (offset + 2) data\<rparr>)
         in if addrType = AtypIPv4
            then if length data < 1 + 4 + 2 then Inl TooShort
                 else finish (IP_String (take 4 (drop 1 data))) (1 + 4)
            else if addrType = AtypDomain
            then if length data < 1 + 1 then Inl TooShort
                 else
                   (let domainLen = unat (data ! 1)
                    in if domainLen = 0 \<or> length data < 2 + domainLen + 2 then Inl TooShort
                       else finish (string_of_bytes (take domainLen (drop 2 data))) (2 + domainLen))
            else if addrType = AtypIPv6
            then if length data < 1 + 16 + 2 then Inl TooShort
                 else finish (IP_String (take 16 (drop 1 data))) (1 + 16)
            else Inl UnsupportedAddrType))"

definition ReadUDPChannelFrame :: "bytes \<Rightarrow> (socks_err + UDPRequest) \<times> bytes" where
  "ReadUDPChannelFrame inp =
     (case ReadFull 2 inp of
        (Inl err, rest) \<Rightarrow> (Inl err, rest)
      | (Inr lengthBuf, rest) \<Rightarrow>
          (let bodyLen = unat (get16 lengthBuf)
           in if bodyLen = 0 then (Inl EmptyBody, rest)
              else
                (case ReadFull bodyLen rest of
                   (Inl err, rest') \<Rightarrow> (Inl err, rest')
                 | (Inr body, rest') \<Rightarrow> (ParseUDPChannelPacket body, rest'))))"

definition ParseUDPRequest :: "bytes \<Rightarrow> socks_err + UDPRequest" where
  "ParseUDPRequest data =
     (if length data < 10 then Inl TooShort
      else if data ! 0 \<noteq> 0 \<or> data ! 1 \<noteq> 0 then Inl InvalidReserved
      else
        (case decode_address (data ! 3) data 4 of
           Inl err \<Rightarrow> Inl err
         | Inr (addr, offset) \<Rightarrow>
             Inr \<lparr>ur_Frag = data ! 2, ur_AddrType = data ! 3, ur_DstAddr = addr,
                  ur_DstPort = get16 (take 2 (drop offset data)), ur_Data = drop (offset + 2) data\<rparr>))"

definition UDPRequest_Encode :: "UDPRequest \<Rightarrow> bytes" where
  "UDPRequest_Encode r =
     (case encode_address (ur_AddrType r) (ur_DstAddr r) of
        None \<Rightarrow> []
      | Some addr \<Rightarrow> [0, 0, ur_Frag r, ur_AddrType r] @ addr @ put16 (ur_DstPort r) @ ur_Data r)"

definition UDP_TargetAddr :: "UDPRequest \<Rightarrow> string" where
  "UDP_TargetAddr r = ur_DstAddr r @ '':'' @ nat_text (unat (ur_DstPort r))"

section \<open>Addresses\<close>

text \<open>The addresses the readers produce: printed IPs of the right length, and domains of a byte length.\<close>

definition addr_ok :: "byte \<Rightarrow> string \<Rightarrow> bool" where
  "addr_ok t a \<longleftrightarrow>
     t = AtypIPv4 \<and> (\<exists>ip. length ip = 4 \<and> a = IP_String ip) \<or>
     t = AtypDomain \<and> length a \<le> 255 \<or>
     t = AtypIPv6 \<and> (\<exists>ip. length ip = 16 \<and> a = IP_String ip)"

lemma addr_cases:
  assumes "addr_ok t a"
  obtains (v4) ip where "t = AtypIPv4" "length ip = 4" "a = IP_String ip" "ParseIP a = Some (v4_in_v6 @ ip)"
  | (domain) "t = AtypDomain" "length a \<le> 255"
  | (v6) ip where "t = AtypIPv6" "length ip = 16" "a = IP_String ip" "ParseIP a = Some ip"
proof -
  have "length ip = 4 \<Longrightarrow> ParseIP (IP_String ip) = Some (v4_in_v6 @ ip)" for ip
    by (simp add: ParseIP_String To16_def)
  moreover have "length ip = 16 \<Longrightarrow> ParseIP (IP_String ip) = Some ip" for ip
    by (simp add: ParseIP_String To16_def)
  ultimately show thesis using assms v4 domain v6 unfolding addr_ok_def by blast
qed

lemma addr_okI:
  "length ip = 4 \<Longrightarrow> addr_ok AtypIPv4 (IP_String ip)" "length ip = 16 \<Longrightarrow> addr_ok AtypIPv6 (IP_String ip)"
  "length a \<le> 255 \<Longrightarrow> addr_ok AtypDomain a"
  by (auto simp: addr_ok_def)

lemma To4_mapped [simp]: "length ip = 4 \<Longrightarrow> To4 (v4_in_v6 @ ip) = Some ip"
  by (simp add: To4_def v4_in_v6_def)

lemma byte_length: "n \<le> 255 \<Longrightarrow> unat (word_of_nat n :: byte) = n"
  by (simp add: unat_of_nat take_bit_eq_mod)

lemma encode_decode_address:
  assumes "addr_ok t a"
  shows "\<exists>bs. encode_address t a = Some bs \<and> bs \<noteq> [] \<and>
    (\<forall>pre post. 2 \<le> length post \<longrightarrow> decode_address t (pre @ bs @ post) (length pre) = Inr (a, length pre + length bs))"
  using assms
proof (cases rule: addr_cases)
  case (v4 ip)
  then show ?thesis by (auto simp: encode_address_def decode_address_def socks_defs)
next
  case domain
  then show ?thesis
    by (auto simp: encode_address_def decode_address_def socks_defs byte_length nth_append Let_def)
next
  case (v6 ip)
  then have "To16 ip = Some ip" by (simp add: To16_def)
  with v6 show ?thesis by (auto simp: encode_address_def decode_address_def socks_defs)
qed

lemma encode_printed:
  "length ip = 4 \<Longrightarrow> encode_address AtypIPv4 (IP_String ip) = Some ip"
  "length ip = 16 \<Longrightarrow> encode_address AtypIPv6 (IP_String ip) = Some ip"
  by (simp_all add: encode_address_def socks_defs ParseIP_String To16_def)

lemma encode_domain: "encode_address AtypDomain a = Some (word_of_nat (length a) # bytes_of_string a)"
  by (simp add: encode_address_def socks_defs)

lemma decode_encode_address:
  assumes "decode_address t data off = Inr (a, off')" and "off < length data"
  shows "addr_ok t a" and "encode_address t a = Some (take (off' - off) (drop off data))"
    and "off < off'" and "off' + 2 \<le> length data"
proof -
  consider "t = AtypIPv4" | "t = AtypDomain" | "t = AtypIPv6"
    using assms by (auto simp: decode_address_def split: if_splits)
  then have "addr_ok t a \<and> encode_address t a = Some (take (off' - off) (drop off data)) \<and> off < off' \<and> off' + 2 \<le> length data"
  proof cases
    case 1
    with assms have "6 + off \<le> length data" "a = IP_String (take 4 (drop off data))" "off' = off + 4"
      by (auto simp: decode_address_def socks_defs split: if_splits)
    then show ?thesis using 1 by (simp add: addr_okI encode_printed)
  next
    case 2
    define n where "n = unat (data ! off)"
    have n: "n \<le> 255" by (simp add: n_def word_bounds)
    with 2 assms have d: "off + 1 + n + 2 \<le> length data" "a = string_of_bytes (take n (drop (off + 1) data))" "off' = off + 1 + n"
      by (auto simp: decode_address_def socks_defs n_def Let_def split: if_splits)
    then have "encode_address t a = Some (data ! off # take n (drop (off + 1) data))"
      using 2 by (simp add: encode_domain) (simp add: n_def)
    also have "\<dots> = Some (take (Suc n) (drop off data))" using assms(2) by (simp add: Cons_nth_drop_Suc [symmetric])
    finally show ?thesis using d 2 n by (simp add: addr_okI)
  next
    case 3
    with assms have "18 + off \<le> length data" "a = IP_String (take 16 (drop off data))" "off' = off + 16"
      by (auto simp: decode_address_def socks_defs split: if_splits)
    then show ?thesis using 3 by (simp add: addr_okI encode_printed)
  qed
  then show "addr_ok t a" and "encode_address t a = Some (take (off' - off) (drop off data))"
    and "off < off'" and "off' + 2 \<le> length data" by auto
qed

lemma ReadFull_cases:
  assumes "ReadFull n inp = (r, rest)"
  shows "(\<exists>bs. r = Inr bs \<and> length bs = n \<and> inp = bs @ rest) \<or> (\<exists>e. r = Inl e \<and> length inp < n)"
  using assms by (auto simp: ReadFull_def split: if_splits)

lemma ReadFull_append [simp]: "length bs = n \<Longrightarrow> ReadFull n (bs @ rest) = (Inr bs, rest)"
  by (simp add: ReadFull_def)

lemma read_address_ok:
  assumes "read_address t inp = (Inr a, rest)"
  shows "addr_ok t a" and "\<exists>bs. encode_address t a = Some bs \<and> inp = bs @ rest"
proof -
  consider "t = AtypIPv4" | "t = AtypDomain" | "t = AtypIPv6"
    using assms by (auto simp: read_address_def split: if_splits)
  then have "addr_ok t a \<and> (\<exists>bs. encode_address t a = Some bs \<and> inp = bs @ rest)"
  proof cases
    case 2
    with assms obtain l rest1 dom where r: "ReadFull 1 inp = (Inr l, rest1)" "ReadFull (unat (l ! 0)) rest1 = (Inr dom, rest)"
        "a = string_of_bytes dom"
      by (auto simp: read_address_def socks_defs split: sum.splits prod.splits)
    then obtain n where n: "l = [n]" "inp = n # rest1" "rest1 = dom @ rest" "length dom = unat n"
      using ReadFull_cases [OF r(1)] ReadFull_cases [OF r(2)] by (auto simp: length_Suc_conv)
    with r 2 word_bounds(1) [of n] show ?thesis by (simp add: addr_okI encode_domain)
  qed (use assms in \<open>auto simp: read_address_def socks_defs encode_printed [unfolded socks_defs]
      addr_okI [unfolded socks_defs] split: sum.splits prod.splits dest!: ReadFull_cases\<close>)
  then show "addr_ok t a" and "\<exists>bs. encode_address t a = Some bs \<and> inp = bs @ rest" by auto
qed

section \<open>Requests\<close>

lemma decode_encode_request:
  assumes "addr_ok (rq_AddrType r) (rq_DstAddr r)"
  shows "DecodeRequest (Request_Encode r @ extra) = Inr (r\<lparr>rq_Version := 0, rq_Cmd := 0\<rparr>)"
proof -
  obtain bs where bs: "encode_address (rq_AddrType r) (rq_DstAddr r) = Some bs" "bs \<noteq> []"
    and dec: "\<And>pre post. 2 \<le> length post \<Longrightarrow>
      decode_address (rq_AddrType r) (pre @ bs @ post) (length pre) = Inr (rq_DstAddr r, length pre + length bs)"
    using encode_decode_address [OF assms] by auto
  have "decode_address (rq_AddrType r) (rq_ConnType r # rq_AddrType r # bs @ put16 (rq_DstPort r) @ extra) 2 =
      Inr (rq_DstAddr r, 2 + length bs)"
    using dec [of "put16 (rq_DstPort r) @ extra" "[rq_ConnType r, rq_AddrType r]"] by (simp add: numeral_2_eq_2)
  moreover have "0 < length bs" using bs(2) by simp
  ultimately show ?thesis
    by (simp add: Request_Encode_def DecodeRequest_def bs new_Request_def)
qed

lemma request_relay:
  assumes "ReadRequest werr inp = (out, Inr r, rest)"
  shows "out = [] \<and> rq_Version r = Socks5Version \<and> (rq_Cmd r = CmdConnect \<or> rq_Cmd r = CmdUDPAssociate) \<and>
    (\<exists>rsv addr. encode_address (rq_AddrType r) (rq_DstAddr r) = Some addr \<and>
      inp = [rq_Version r, rq_Cmd r, rsv, rq_AddrType r] @ addr @ put16 (rq_DstPort r) @ rest) \<and>
    DecodeRequest (Request_Encode (r\<lparr>rq_ConnType := t\<rparr>) @ extra) =
      Inr (r\<lparr>rq_Version := 0, rq_Cmd := 0, rq_ConnType := t\<rparr>)"
proof -
  obtain buf rest1 where b: "ReadFull 4 inp = (Inr buf, rest1)"
    using assms by (auto simp: ReadRequest_def split: sum.splits prod.splits)
  have ver: "buf ! 0 = Socks5Version" "buf ! 1 = CmdConnect \<or> buf ! 1 = CmdUDPAssociate"
    using assms b by (auto simp: ReadRequest_def split: if_splits)
  obtain a rest2 where a: "read_address (buf ! 3) rest1 = (Inr a, rest2)"
    using assms b ver by (auto simp: ReadRequest_def Let_def split: sum.splits prod.splits if_splits)
  obtain port where p: "ReadFull 2 rest2 = (Inr port, rest)"
    and r: "out = []" "r = new_Request\<lparr>rq_Version := buf ! 0, rq_Cmd := buf ! 1, rq_AddrType := buf ! 3,
      rq_DstAddr := a, rq_DstPort := get16 port\<rparr>"
    using assms b ver a by (auto simp: ReadRequest_def Let_def split: sum.splits prod.splits if_splits)
  have "length buf = 4" "inp = buf @ rest1" using ReadFull_cases [OF b] by auto
  then obtain v c rsv t4 where buf: "buf = [v, c, rsv, t4]" by (auto simp: numeral_eq_Suc length_Suc_conv)
  have port: "rest2 = port @ rest" "put16 (get16 port) = port" using ReadFull_cases [OF p] by (auto simp: put_get)
  obtain bs where bs: "encode_address t4 a = Some bs" "rest1 = bs @ rest2"
    using read_address_ok(2) [OF a] buf by auto
  have "addr_ok (rq_AddrType (r\<lparr>rq_ConnType := t\<rparr>)) (rq_DstAddr (r\<lparr>rq_ConnType := t\<rparr>))"
    using read_address_ok(1) [OF a] r(2) by simp
  from decode_encode_request [OF this] show ?thesis
    using r ver buf bs port \<open>inp = buf @ rest1\<close> by (simp add: new_Request_def)
qed

section \<open>Datagram formats\<close>

text \<open>
  The targets a channel packet can carry: a domain may not be empty, and an IPv6 address may not
  be an IPv4-mapped one.
\<close>

definition udp_target_ok :: "byte \<Rightarrow> string \<Rightarrow> bool" where
  "udp_target_ok t a \<longleftrightarrow> addr_ok t a \<and> a \<noteq> [] \<and> \<not> (t = AtypIPv6 \<and> (\<exists>ip. ParseIP a = Some ip \<and> To4 ip \<noteq> None))"

lemma packet_bytes:
  assumes "udp_target_ok (ur_AddrType u) (ur_DstAddr u)"
  shows "\<exists>addr. encode_address (ur_AddrType u) (ur_DstAddr u) = Some addr \<and> length addr \<le> 256 \<and>
    EncodeChannelPacket (Some u) = ur_AddrType u # addr @ put16 (ur_DstPort u) @ ur_Data u \<and>
    (\<forall>tail. 2 \<le> length tail \<longrightarrow> ParseUDPChannelPacket (ur_AddrType u # addr @ tail) =
      Inr \<lparr>ur_Frag = 0, ur_AddrType = ur_AddrType u, ur_DstAddr = ur_DstAddr u,
           ur_DstPort = get16 (take 2 tail), ur_Data = drop 2 tail\<rparr>)"
proof -
  have "addr_ok (ur_AddrType u) (ur_DstAddr u)" using assms by (simp add: udp_target_ok_def)
  then show ?thesis
  proof (cases rule: addr_cases)
    case (v4 ip)
    then show ?thesis
      by (auto simp: encode_address_def EncodeChannelPacket_def ParseUDPChannelPacket_def socks_defs)
  next
    case domain
    then show ?thesis using assms
      by (auto simp: encode_address_def EncodeChannelPacket_def ParseUDPChannelPacket_def socks_defs
          udp_target_ok_def byte_length Let_def)
  next
    case (v6 ip)
    then have "To4 ip = None" "To16 ip = Some ip" using assms by (auto simp: udp_target_ok_def To16_def)
    with v6 show ?thesis
      by (intro exI [of _ ip]) (simp add: encode_printed EncodeChannelPacket_def ParseUDPChannelPacket_def socks_defs
          encode_printed [unfolded socks_defs])
  qed
qed

lemma packet_refused:
  assumes "addr_ok (ur_AddrType u) (ur_DstAddr u)" and "\<not> udp_target_ok (ur_AddrType u) (ur_DstAddr u)"
  shows "EncodeChannelPacket (Some u) = []"
proof -
  have "IP_String ip \<noteq> []" if "length ip = 4 \<or> length ip = 16" for ip
    using ParseIP_String [OF that] that by (auto simp: ParseIP_def To16_def split: if_splits)
  from assms(1) this assms(2) show ?thesis
    by (cases rule: addr_cases) (auto simp: EncodeChannelPacket_def udp_target_ok_def socks_defs addr_okI [unfolded socks_defs])
qed

lemma packet_roundtrip:
  assumes "udp_target_ok (ur_AddrType u) (ur_DstAddr u)"
  shows "ParseUDPChannelPacket (EncodeChannelPacket (Some u)) = Inr (u\<lparr>ur_Frag := 0\<rparr>)"
    and "EncodeChannelPacket (Some u) \<noteq> []"
  using packet_bytes [OF assms] by auto

lemma frame_roundtrip:
  assumes "EncodeChannelFrame (Some u) \<noteq> []" and "udp_target_ok (ur_AddrType u) (ur_DstAddr u)"
  shows "ReadUDPChannelFrame (EncodeChannelFrame (Some u) @ rest) = (Inr (u\<lparr>ur_Frag := 0\<rparr>), rest)"
proof -
  let ?b = "EncodeChannelPacket (Some u)"
  have b: "?b \<noteq> []" "length ?b \<le> 65535"
    using assms(1) by (auto simp: EncodeChannelFrame_def Let_def split: if_splits)
  then have "EncodeChannelFrame (Some u) = put16 (word_of_nat (length ?b)) @ ?b" by (simp add: EncodeChannelFrame_def Let_def)
  moreover have "unat (word_of_nat (length ?b) :: u16) = length ?b"
    using b(2) by (simp add: unat_of_nat take_bit_eq_mod)
  ultimately show ?thesis using b packet_roundtrip [OF assms(2)]
    by (simp add: ReadUDPChannelFrame_def Let_def)
qed

fun read_frames :: "nat \<Rightarrow> bytes \<Rightarrow> (socks_err + UDPRequest) list \<times> bytes" where
  "read_frames 0 inp = ([], inp)"
| "read_frames (Suc n) inp =
     (case ReadUDPChannelFrame inp of
        (r, rest) \<Rightarrow> (case read_frames n rest of (rs, rest') \<Rightarrow> (r # rs, rest')))"

text \<open>
  The datagrams of a channel survive the byte stream: a frame is written exactly when the target
  can be carried and the packet fits 65535 bytes, and reading as many frames as were
  written from the concatenated frames returns the datagrams in order, with their targets, ports
  and data, and leaves the bytes after them, however the stream was cut into mux packets.
\<close>

theorem udp_frame_stream:
  assumes "\<forall>u \<in> set us. addr_ok (ur_AddrType u) (ur_DstAddr u)"
    and "vs = filter (\<lambda>u. EncodeChannelFrame (Some u) \<noteq> []) us"
  shows "read_frames (length vs) (concat (map (\<lambda>u. EncodeChannelFrame (Some u)) us) @ rest) =
      (map (\<lambda>u. Inr (u\<lparr>ur_Frag := 0\<rparr>)) vs, rest) \<and>
    (\<forall>u \<in> set us. u \<in> set vs \<longleftrightarrow>
      udp_target_ok (ur_AddrType u) (ur_DstAddr u) \<and> length (EncodeChannelPacket (Some u)) \<le> 65535)"
proof -
  have sent: "EncodeChannelFrame (Some u) \<noteq> [] \<longleftrightarrow>
      udp_target_ok (ur_AddrType u) (ur_DstAddr u) \<and> length (EncodeChannelPacket (Some u)) \<le> 65535" if "u \<in> set us" for u
    using assms(1) that packet_refused [of u] packet_roundtrip(2) [of u] by (auto simp: EncodeChannelFrame_def Let_def)
  have "read_frames (length vs) (concat (map (\<lambda>u. EncodeChannelFrame (Some u)) us) @ rest) =
      (map (\<lambda>u. Inr (u\<lparr>ur_Frag := 0\<rparr>)) vs, rest)"
    unfolding assms(2) using sent
  proof (induction us)
    case (Cons u us)
    then show ?case
      using frame_roundtrip [of u] by (cases "EncodeChannelFrame (Some u) = []") simp_all
  qed simp
  then show ?thesis using sent assms(2) by auto
qed

definition demo_datagram :: UDPRequest where
  "demo_datagram = \<lparr>ur_Frag = 0, ur_AddrType = AtypDomain, ur_DstAddr = ''a'', ur_DstPort = 53, ur_Data = [1, 2]\<rparr>"

theorem udp_frame_stream_witness:
  "read_frames 2 (EncodeChannelFrame (Some demo_datagram) @ EncodeChannelFrame (Some demo_datagram) @ [9]) =
     ([Inr demo_datagram, Inr demo_datagram], [9])"
proof -
  have "EncodeChannelFrame (Some demo_datagram) \<noteq> []"
    by (simp add: EncodeChannelFrame_def EncodeChannelPacket_def demo_datagram_def socks_defs)
  moreover have "\<forall>u \<in> set [demo_datagram, demo_datagram]. addr_ok (ur_AddrType u) (ur_DstAddr u)"
    by (simp add: demo_datagram_def addr_ok_def)
  moreover have "demo_datagram\<lparr>ur_Frag := 0\<rparr> = demo_datagram" by (simp add: demo_datagram_def)
  ultimately show ?thesis
    using udp_frame_stream [of "[demo_datagram, demo_datagram]" _ "[9]", OF _ refl] by (simp add: numeral_2_eq_2)
qed

text \<open>
  SOCKS5 datagrams: what \<^verbatim>\<open>Encode\<close> prints \<^verbatim>\<open>ParseUDPRequest\<close> reads back, unless it is shorter than
  the ten bytes the parser insists on; and what the parser accepts is exactly a printed datagram
  with zero reserved bytes, so nothing of a datagram is lost or invented.
\<close>

theorem udp_datagram_roundtrip:
  assumes "addr_ok (ur_AddrType u) (ur_DstAddr u)"
  shows "ParseUDPRequest (UDPRequest_Encode u) =
      (if length (UDPRequest_Encode u) < 10 then Inl TooShort else Inr u) \<and>
    (\<forall>data v. ParseUDPRequest data = Inr v \<longrightarrow> UDPRequest_Encode v = data \<and> addr_ok (ur_AddrType v) (ur_DstAddr v))"
proof (intro conjI allI impI)
  obtain bs where bs: "encode_address (ur_AddrType u) (ur_DstAddr u) = Some bs"
    and dec: "\<And>pre post. 2 \<le> length post \<Longrightarrow>
      decode_address (ur_AddrType u) (pre @ bs @ post) (length pre) = Inr (ur_DstAddr u, length pre + length bs)"
    using encode_decode_address [OF assms] by auto
  have "decode_address (ur_AddrType u) (0 # 0 # ur_Frag u # ur_AddrType u # bs @ put16 (ur_DstPort u) @ ur_Data u) 4 =
      Inr (ur_DstAddr u, 4 + length bs)"
    using dec [of "put16 (ur_DstPort u) @ ur_Data u" "[0, 0, ur_Frag u, ur_AddrType u]"] by (simp add: numeral_eq_Suc)
  then show "ParseUDPRequest (UDPRequest_Encode u) = (if length (UDPRequest_Encode u) < 10 then Inl TooShort else Inr u)"
    by (simp add: UDPRequest_Encode_def ParseUDPRequest_def bs numeral_eq_Suc)
next
  fix data v
  assume p: "ParseUDPRequest data = Inr v"
  then have len: "10 \<le> length data" "data ! 0 = 0" "data ! 1 = 0"
    by (auto simp: ParseUDPRequest_def split: if_splits)
  then obtain a off where d: "decode_address (data ! 3) data 4 = Inr (a, off)"
    and v: "v = \<lparr>ur_Frag = data ! 2, ur_AddrType = data ! 3, ur_DstAddr = a,
      ur_DstPort = get16 (take 2 (drop off data)), ur_Data = drop (off + 2) data\<rparr>"
    using p by (auto simp: ParseUDPRequest_def split: sum.splits)
  note e = decode_encode_address [OF d]
  have off: "off + 2 \<le> length data" "4 < off" using e len by auto
  have "data = take 4 data @ take (off - 4) (drop 4 data) @ take 2 (drop off data) @ drop (off + 2) data"
    using off by (metis (no_types, lifting) append_take_drop_id drop_drop add.commute le_add_diff_inverse2 less_imp_le)
  moreover have "take 4 data = [0, 0, data ! 2, data ! 3]"
    using len by (intro nth_equalityI) (auto simp: less_Suc_eq numeral_eq_Suc)
  moreover have "put16 (get16 (take 2 (drop off data))) = take 2 (drop off data)" using off by (simp add: put_get)
  ultimately show "UDPRequest_Encode v = data" using e(2) len v by (simp add: UDPRequest_Encode_def)
  show "addr_ok (ur_AddrType v) (ur_DstAddr v)" using e(1) len v by simp
qed

theorem udp_datagram_roundtrip_witness:
  "ParseUDPRequest (UDPRequest_Encode demo_datagram) = Inr demo_datagram"
  using udp_datagram_roundtrip [of demo_datagram]
  by (simp add: demo_datagram_def addr_ok_def UDPRequest_Encode_def encode_domain)

text \<open>
  The greeting succeeds exactly for version 5 with the no-authentication method among the announced
  ones and a working connection; it then consumes exactly the greeting and answers \<open>05 00\<close>.  A client
  without that method gets \<open>05 FF\<close>; every other failure writes nothing.
\<close>

theorem socks_handshake_exact:
  assumes "Handshake werr inp = (out, r, rest)"
  shows "(r = None \<longleftrightarrow> \<not> werr \<and> (\<exists>n methods. length methods = unat n \<and> NoAuth \<in> set methods \<and>
      inp = Socks5Version # n # methods @ rest)) \<and>
    (r = None \<longrightarrow> out = [Socks5Version, NoAuth]) \<and>
    (r = Some NoAuthMethod \<and> \<not> werr \<longrightarrow> out = [Socks5Version, 0xFF]) \<and>
    (r \<noteq> None \<and> r \<noteq> Some NoAuthMethod \<longrightarrow> out = [])"
proof (cases "length inp < 2 \<or> hd inp \<noteq> Socks5Version")
  case True
  then show ?thesis using assms
    by (cases inp) (auto simp: Handshake_def HandshakeAfterVersion_def ReadFull_def split: if_splits)
next
  case False
  then obtain n xs where inp: "inp = Socks5Version # n # xs" by (cases inp rule: list.exhaust [case_product list.exhaust, of _ "tl inp"]) auto
  have "\<exists>methods. length methods = unat n \<and> xs = methods @ rest" if "unat n \<le> length xs" "rest = drop (unat n) xs"
    using that by (metis append_take_drop_id length_take min.absorb2)
  then show ?thesis using assms
    by (auto simp: inp Handshake_def HandshakeAfterVersion_def ReadFull_def list_ex_iff split: if_splits)
qed

theorem socks_handshake_exact_witness:
  "Handshake False [5, 2, 1, 0, 9] = ([5, 0], None, [9])"
proof -
  obtain out r rest where h: "Handshake False [5, 2, 1, 0, 9] = (out, r, rest)" by (rule prod_cases3)
  then have "rest = [9]"
    by (simp add: Handshake_def HandshakeAfterVersion_def ReadFull_def socks_defs)
  then have "\<exists>n methods. length methods = unat n \<and> NoAuth \<in> set methods \<and>
      [5, 2, 1, 0, 9] = Socks5Version # (n :: byte) # methods @ rest"
    by (intro exI [of _ 2] exI [of _ "[1, 0]"]) (simp add: socks_defs)
  with socks_handshake_exact [OF h] h \<open>rest = [9]\<close> show ?thesis by (auto simp: socks_defs)
qed

end
