(* ===== verification/Socks4.thy ===== *)
theory Socks4
  imports Socks5
begin

text \<open>
  \<^verbatim>\<open>pkg/socks4/socks4.go\<close>: the SOCKS4 and SOCKS4a CONNECT request and its reply.
\<close>

datatype socks4_err =
  S4Io socks_err | S4TooLong string nat | S4EmptyDomain | ErrCommandNotSupported byte

definition Socks4_Version :: byte where "Socks4_Version = 0x04"
definition Socks4_CmdConnect :: byte where "Socks4_CmdConnect = 0x01"
definition ReplyGranted :: byte where "ReplyGranted = 0x5a"
definition ReplyRejected :: byte where "ReplyRejected = 0x5b"
definition maxUserIDLen :: nat where "maxUserIDLen = 255"
definition maxDomainLen :: nat where "maxDomainLen = 255"

record Request4 =
  r4_Cmd :: byte
  r4_DstAddr :: string
  r4_DstPort :: u16
  r4_UserID :: string
  r4_SOCKS4a :: bool

fun readCString_loop :: "bytes \<Rightarrow> nat \<Rightarrow> string \<Rightarrow> bytes \<Rightarrow> (socks4_err + string) \<times> bytes" where
  "readCString_loop [] maxLen fieldName value =
     (if maxLen < length value then (Inl (S4TooLong fieldName maxLen), []) else (Inl (S4Io IoEOF), []))"
| "readCString_loop (b # inp) maxLen fieldName value =
     (if maxLen < length value then (Inl (S4TooLong fieldName maxLen), b # inp)
      else if b = 0 then (Inr (string_of_bytes value), inp)
      else if length value = maxLen then (Inl (S4TooLong fieldName maxLen), inp)
      else readCString_loop inp maxLen fieldName (value @ [b]))"

definition readCString :: "bytes \<Rightarrow> nat \<Rightarrow> string \<Rightarrow> (socks4_err + string) \<times> bytes" where
  "readCString inp maxLen fieldName = readCString_loop inp maxLen fieldName []"

definition ReadRequestAfterVersion :: "bytes \<Rightarrow> (socks4_err + Request4) \<times> bytes" where
  "ReadRequestAfterVersion inp =
     (case ReadFull 7 inp of
        (Inl err, rest) \<Rightarrow> (Inl (S4Io err), rest)
      | (Inr fixed, rest) \<Rightarrow>
          (case readCString rest maxUserIDLen ''user ID'' of
             (Inl err, rest1) \<Rightarrow> (Inl err, rest1)
           | (Inr userID, rest1) \<Rightarrow>
               (let req = \<lparr>r4_Cmd = fixed ! 0, r4_DstAddr = [], r4_DstPort = get16 (take 2 (drop 1 fixed)),
                           r4_UserID = userID, r4_SOCKS4a = False\<rparr>;
                    (target, rest2) =
                      (if fixed ! 3 = 0 \<and> fixed ! 4 = 0 \<and> fixed ! 5 = 0 \<and> fixed ! 6 \<noteq> 0
                       then (case readCString rest1 maxDomainLen ''domain'' of
                               (Inl err, rest2) \<Rightarrow> (Inl err, rest2)
                             | (Inr domain, rest2) \<Rightarrow>
                                 if domain = [] then (Inl S4EmptyDomain, rest2)
                                 else (Inr (req\<lparr>r4_DstAddr := domain, r4_SOCKS4a := True\<rparr>), rest2))
                       else (Inr (req\<lparr>r4_DstAddr :=
                               IP_String (v4_in_v6 @ [fixed ! 3, fixed ! 4, fixed ! 5, fixed ! 6])\<rparr>), rest1))
                in case target of
                     Inl err \<Rightarrow> (Inl err, rest2)
                   | Inr r \<Rightarrow>
                       if r4_Cmd r \<noteq> Socks4_CmdConnect
                       then (Inl (ErrCommandNotSupported (r4_Cmd r)), rest2)
                       else (Inr r, rest2))))"

definition Socks4_SendReply :: "byte \<Rightarrow> bytes option \<Rightarrow> u16 \<Rightarrow> bytes" where
  "Socks4_SendReply code bindAddr bindPort =
     [0, code] @ put16 bindPort @
     (case Option.bind bindAddr To4 of Some ip4 \<Rightarrow> ip4 | None \<Rightarrow> [0, 0, 0, 0])"

section \<open>Zero-terminated strings\<close>

lemma readCString_loop_reads:
  assumes "0 \<notin> set bs" and "length v + length bs \<le> maxLen"
  shows "readCString_loop (bs @ 0 # rest) maxLen fn v = (Inr (string_of_bytes (v @ bs)), rest)"
  using assms by (induction bs arbitrary: v) auto

lemma readCString_loop_inv:
  assumes "readCString_loop inp maxLen fn v = (Inr s, rest)" and "length v \<le> maxLen"
  shows "\<exists>bs. inp = bs @ 0 # rest \<and> 0 \<notin> set bs \<and> s = string_of_bytes (v @ bs) \<and> length (v @ bs) \<le> maxLen"
  using assms
proof (induction inp maxLen fn v rule: readCString_loop.induct)
  case (2 b inp maxLen fn v)
  show ?case
  proof (cases "b = 0")
    case True
    with 2 show ?thesis by auto
  next
    case False
    with 2 have "length v \<noteq> maxLen" by auto
    with 2 False obtain bs where "inp = bs @ 0 # rest" "0 \<notin> set bs" "s = string_of_bytes ((v @ [b]) @ bs)"
        "length ((v @ [b]) @ bs) \<le> maxLen" by auto
    with False show ?thesis by (intro exI [of _ "b # bs"]) auto
  qed
qed (auto split: if_splits)

text \<open>What is read is exactly a zero-terminated string within the limit.\<close>

lemma readCString_exact:
  "readCString inp maxLen fn = (Inr s, rest) \<longleftrightarrow>
     inp = bytes_of_string s @ 0 # rest \<and> 0 \<notin> set (bytes_of_string s) \<and> length s \<le> maxLen"
proof
  assume "readCString inp maxLen fn = (Inr s, rest)"
  with readCString_loop_inv [of inp maxLen fn "[]" s rest]
  show "inp = bytes_of_string s @ 0 # rest \<and> 0 \<notin> set (bytes_of_string s) \<and> length s \<le> maxLen"
    by (auto simp: readCString_def)
next
  assume "inp = bytes_of_string s @ 0 # rest \<and> 0 \<notin> set (bytes_of_string s) \<and> length s \<le> maxLen"
  with readCString_loop_reads [of "bytes_of_string s" "[]" maxLen rest fn]
  show "readCString inp maxLen fn = (Inr s, rest)" by (simp add: readCString_def)
qed

end
