(* ===== verification/UdpFragments.thy ===== *)
theory UdpFragments
  imports Socks5
begin

text \<open>
  \<^verbatim>\<open>pkg/socks5/udp_fragments.go\<close>: reassembly of SOCKS5 UDP fragments.  The record is the Go
  struct; a running timer is the generation its callback captured.  A timer that was stopped too
  late still runs its callback, so an expiry may come with any generation.

  The theorems: a returned datagram is exactly an unbroken run of fragments numbered from one,
  and every datagram cut into at most 127 fragments comes back whole.
\<close>

section \<open>Model\<close>

record reasm =
  rs_timeout :: duration
  rs_timer :: "u64 option"
  rs_generation :: u64
  rs_highestFrag :: byte
  rs_addrType :: byte
  rs_dstAddr :: string
  rs_dstPort :: u16
  rs_maxData :: int
  rs_data :: bytes

datatype frag_err =
  NilFragment | FragmentZero | NoFirstFragment byte | TargetChanged | UnexpectedFragment byte byte
| TooManyFragments | PayloadExceeds int | InvalidTarget

definition udpFragmentReassemblyTimeout :: duration where "udpFragmentReassemblyTimeout = seconds 5"
definition maxUDPDatagramPayload :: int where "maxUDPDatagramPayload = 65507"

definition newUDPFragmentReassembler :: "duration \<Rightarrow> reasm" where
  "newUDPFragmentReassembler timeout =
     \<lparr>rs_timeout = timeout, rs_timer = None, rs_generation = 0, rs_highestFrag = 0, rs_addrType = 0,
      rs_dstAddr = [], rs_dstPort = 0, rs_maxData = 0, rs_data = []\<rparr>"

definition NewUDPFragmentReassembler :: reasm where
  "NewUDPFragmentReassembler = newUDPFragmentReassembler udpFragmentReassemblyTimeout"

definition clearStateLocked :: "reasm \<Rightarrow> reasm" where
  "clearStateLocked r =
     r\<lparr>rs_highestFrag := 0, rs_addrType := 0, rs_dstAddr := [], rs_dstPort := 0, rs_maxData := 0, rs_data := []\<rparr>"

definition clearLocked :: "reasm \<Rightarrow> reasm" where
  "clearLocked r = clearStateLocked (r\<lparr>rs_generation := rs_generation r + 1, rs_timer := None\<rparr>)"

definition startTimerLocked :: "reasm \<Rightarrow> reasm" where
  "startTimerLocked r =
     (let generation = rs_generation r + 1
      in r\<lparr>rs_generation := generation, rs_timer := Some generation\<rparr>)"

text \<open>How long that timer runs, and its callback.\<close>

definition timer_timeout :: "reasm \<Rightarrow> duration" where
  "timer_timeout r = (if rs_timeout r \<le> 0 then udpFragmentReassemblyTimeout else rs_timeout r)"

definition timer_expired :: "reasm \<Rightarrow> u64 \<Rightarrow> reasm" where
  "timer_expired r generation =
     (if rs_generation r \<noteq> generation then r else (clearStateLocked r)\<lparr>rs_timer := None\<rparr>)"

definition appendDataLocked :: "reasm \<Rightarrow> bytes \<Rightarrow> reasm \<times> frag_err option" where
  "appendDataLocked r data =
     (if rs_maxData r - int (length (rs_data r)) < int (length data)
      then (r, Some (PayloadExceeds (rs_maxData r)))
      else (r\<lparr>rs_data := rs_data r @ data\<rparr>, None))"

definition sameUDPFragmentTarget :: "UDPRequest \<Rightarrow> byte \<Rightarrow> string \<Rightarrow> u16 \<Rightarrow> bool" where
  "sameUDPFragmentTarget req addrType dstAddr dstPort \<longleftrightarrow>
     ur_AddrType req = addrType \<and> ur_DstAddr req = dstAddr \<and> ur_DstPort req = dstPort"

definition udpFragmentDataLimit :: "UDPRequest \<Rightarrow> frag_err + int" where
  "udpFragmentDataLimit req =
     (let header = EncodeChannelPacket (Some \<lparr>ur_Frag = 0, ur_AddrType = ur_AddrType req,
            ur_DstAddr = ur_DstAddr req, ur_DstPort = ur_DstPort req, ur_Data = []\<rparr>)
      in if length header = 0 then Inl InvalidTarget
         else
           (let limit = 65535 - int (length header)
            in Inr (if maxUDPDatagramPayload < limit then maxUDPDatagramPayload else limit)))"

definition fragNum :: "UDPRequest \<Rightarrow> byte" where
  "fragNum req = ur_Frag req AND 0x7f"

definition isLast :: "UDPRequest \<Rightarrow> bool" where
  "isLast req \<longleftrightarrow> ur_Frag req AND 0x80 \<noteq> 0"

text \<open>The part of \<^verbatim>\<open>Push\<close> that takes a fragment in: the new state, or the error to return.\<close>

definition accept_fragment :: "reasm \<Rightarrow> UDPRequest \<Rightarrow> reasm \<times> frag_err option" where
  "accept_fragment r req =
     (if fragNum req = 1
      then
        (let r1 = clearLocked r
         in case udpFragmentDataLimit req of
              Inl err \<Rightarrow> (r1, Some err)
            | Inr maxData \<Rightarrow>
                (let r2 = r1\<lparr>rs_addrType := ur_AddrType req, rs_dstAddr := ur_DstAddr req,
                             rs_dstPort := ur_DstPort req, rs_maxData := maxData, rs_highestFrag := fragNum req\<rparr>
                 in case appendDataLocked r2 (ur_Data req) of
                      (r3, Some err) \<Rightarrow> (clearLocked r3, Some err)
                    | (r3, None) \<Rightarrow> (startTimerLocked r3, None)))
      else if rs_highestFrag r = 0 then (r, Some (NoFirstFragment (fragNum req)))
      else if \<not> sameUDPFragmentTarget req (rs_addrType r) (rs_dstAddr r) (rs_dstPort r)
      then (clearLocked r, Some TargetChanged)
      else
        (let expected = rs_highestFrag r + 1
         in if fragNum req \<noteq> expected then (clearLocked r, Some (UnexpectedFragment (fragNum req) expected))
            else
              (case appendDataLocked (r\<lparr>rs_highestFrag := fragNum req\<rparr>) (ur_Data req) of
                 (r1, Some err) \<Rightarrow> (clearLocked r1, Some err)
               | (r1, None) \<Rightarrow> (r1, None))))"

definition Push :: "reasm \<Rightarrow> UDPRequest option \<Rightarrow> reasm \<times> (frag_err + UDPRequest option)" where
  "Push r ro =
     (case ro of
        None \<Rightarrow> (r, Inl NilFragment)
      | Some req \<Rightarrow>
          if ur_Frag req = 0 then (clearLocked r, Inr (Some req))
          else if fragNum req = 0 then (clearLocked r, Inl FragmentZero)
          else
            (case accept_fragment r req of
               (r1, Some err) \<Rightarrow> (r1, Inl err)
             | (r1, None) \<Rightarrow>
                 if \<not> isLast req
                 then if fragNum req = 127 then (clearLocked r1, Inl TooManyFragments) else (r1, Inr None)
                 else
                   (clearLocked (r1\<lparr>rs_data := []\<rparr>),
                    Inr (Some \<lparr>ur_Frag = 0, ur_AddrType = rs_addrType r1, ur_DstAddr = rs_dstAddr r1,
                               ur_DstPort = rs_dstPort r1, ur_Data = rs_data r1\<rparr>))))"

definition reasm_Close :: "reasm \<Rightarrow> reasm" where
  "reasm_Close r = clearLocked r"

section \<open>The fragments held\<close>

definition same_target :: "UDPRequest \<Rightarrow> UDPRequest \<Rightarrow> bool" where
  "same_target u v \<longleftrightarrow>
     ur_AddrType u = ur_AddrType v \<and> ur_DstAddr u = ur_DstAddr v \<and> ur_DstPort u = ur_DstPort v"

text \<open>A list of fragments numbered from one, for one target, within the data limit of that target.\<close>

definition sequence_ok :: "UDPRequest list \<Rightarrow> bool" where
  "sequence_ok fs \<longleftrightarrow>
     fs \<noteq> [] \<and> map (unat \<circ> fragNum) fs = [1..<Suc (length fs)] \<and>
     (\<forall>f \<in> set fs. same_target f (hd fs)) \<and>
     (\<exists>limit. udpFragmentDataLimit (hd fs) = Inr limit \<and> int (length (concat (map ur_Data fs))) \<le> limit)"

definition holds :: "reasm \<Rightarrow> UDPRequest list \<Rightarrow> bool" where
  "holds r fs \<longleftrightarrow>
     unat (rs_highestFrag r) = length fs \<and> rs_data r = concat (map ur_Data fs) \<and>
     (fs \<noteq> [] \<longrightarrow> sequence_ok fs \<and> length fs < 127 \<and> (\<forall>f \<in> set fs. \<not> isLast f) \<and>
        rs_addrType r = ur_AddrType (hd fs) \<and> rs_dstAddr r = ur_DstAddr (hd fs) \<and>
        rs_dstPort r = ur_DstPort (hd fs) \<and> udpFragmentDataLimit (hd fs) = Inr (rs_maxData r))"

lemma holds_clear [simp]: "holds (clearLocked r) []"
  by (simp add: holds_def clearLocked_def clearStateLocked_def)

lemma unat_byte_nonzero: "b \<noteq> 0 \<Longrightarrow> 0 < unat (b :: byte)"
  by (simp add: unat_eq_0 neq0_conv [symmetric])

lemma unat_inj: "unat (a :: byte) = unat b \<Longrightarrow> a = b"
  by (rule unsigned_word_eqI)

lemma fragNum_bound: "unat (fragNum f) \<le> 127"
proof -
  have "fragNum f = take_bit 7 (ur_Frag f)"
    by (simp add: fragNum_def take_bit_eq_mask mask_eq_exp_minus_1)
  then have "unat (fragNum f) = take_bit 7 (unat (ur_Frag f))" by (simp add: unsigned_take_bit_eq)
  then show ?thesis using take_bit_nat_less_exp [of 7 "unat (ur_Frag f)"] by simp
qed

lemma limit_same: "same_target f g \<Longrightarrow> udpFragmentDataLimit f = udpFragmentDataLimit g"
  by (simp add: udpFragmentDataLimit_def same_target_def)

text \<open>Accepting the next fragment extends the fragments held; anything else drops or ignores them.\<close>

lemma accept_extends:
  assumes h: "holds r fs" and acc: "accept_fragment r f = (r1, None)" and nz: "fragNum f \<noteq> 0"
  shows "\<exists>gs. (gs = [] \<and> fragNum f = 1 \<or> gs = fs \<and> fs \<noteq> []) \<and> sequence_ok (gs @ [f]) \<and>
    unat (rs_highestFrag r1) = length (gs @ [f]) \<and> rs_data r1 = concat (map ur_Data (gs @ [f])) \<and>
    rs_addrType r1 = ur_AddrType (hd (gs @ [f])) \<and> rs_dstAddr r1 = ur_DstAddr (hd (gs @ [f])) \<and>
    rs_dstPort r1 = ur_DstPort (hd (gs @ [f])) \<and> udpFragmentDataLimit (hd (gs @ [f])) = Inr (rs_maxData r1) \<and>
    (\<forall>g \<in> set gs. \<not> isLast g)"
proof (cases "fragNum f = 1")
  case True
  then obtain lim where lim: "udpFragmentDataLimit f = Inr lim" "int (length (ur_Data f)) \<le> lim"
    and r1: "rs_highestFrag r1 = fragNum f" "rs_data r1 = ur_Data f" "rs_addrType r1 = ur_AddrType f"
      "rs_dstAddr r1 = ur_DstAddr f" "rs_dstPort r1 = ur_DstPort f" "rs_maxData r1 = lim"
    using acc
    by (auto simp: accept_fragment_def appendDataLocked_def startTimerLocked_def Let_def
        clearLocked_def clearStateLocked_def split: sum.splits if_splits)
  have "sequence_ok [f]" using lim True by (simp add: sequence_ok_def same_target_def)
  with True lim r1 show ?thesis by (intro exI [of _ "[]"]) simp
next
  case False
  then have hf: "rs_highestFrag r \<noteq> 0" and tgt: "sameUDPFragmentTarget f (rs_addrType r) (rs_dstAddr r) (rs_dstPort r)"
    and num: "fragNum f = rs_highestFrag r + 1" and fit: "int (length (rs_data r)) + int (length (ur_Data f)) \<le> rs_maxData r"
    and r1: "r1 = r\<lparr>rs_highestFrag := fragNum f, rs_data := rs_data r @ ur_Data f\<rparr>"
    using acc by (auto simp: accept_fragment_def appendDataLocked_def Let_def split: if_splits)
  have fs: "fs \<noteq> []" using h hf unat_byte_nonzero [OF hf] by (auto simp: holds_def)
  with h have len: "length fs < 127" "unat (rs_highestFrag r) = length fs" and ok: "sequence_ok fs"
    by (auto simp: holds_def)
  have n: "unat (fragNum f) = Suc (length fs)"
    using len unfolding num by (subst unat_word_ariths) simp
  have "same_target f (hd fs)" using tgt h fs by (simp add: sameUDPFragmentTarget_def holds_def same_target_def)
  moreover have "udpFragmentDataLimit (hd fs) = Inr (rs_maxData r)" "rs_data r = concat (map ur_Data fs)"
    using h fs by (auto simp: holds_def)
  ultimately have "sequence_ok (fs @ [f])"
    using ok fs n fit by (auto simp: sequence_ok_def)
  with fs h n r1 show ?thesis by (intro exI [of _ fs]) (auto simp: holds_def)
qed

lemma accept_rejects:
  assumes "holds r fs" and "accept_fragment r f = (r1, Some err)"
  shows "holds r1 []"
proof -
  have "rs_highestFrag r = 0 \<Longrightarrow> holds r []" using assms(1) by (auto simp: holds_def)
  with assms(2) show ?thesis
    by (auto simp: accept_fragment_def appendDataLocked_def Let_def split: sum.splits if_splits)
qed

lemma Push_step:
  assumes h: "holds r fs" and ps: "Push r (Some f) = (r', res)"
  shows "\<exists>fs'. holds r' fs' \<and> (fs' = [] \<or> fs' = [f] \<or> fs' = fs @ [f])"
    and "res = Inr (Some c) \<Longrightarrow> ur_Frag f \<noteq> 0 \<Longrightarrow>
      \<exists>gs. (gs = [] \<or> gs = fs) \<and> sequence_ok (gs @ [f]) \<and> isLast f \<and> (\<forall>g \<in> set gs. \<not> isLast g) \<and>
        c = (hd (gs @ [f]))\<lparr>ur_Frag := 0, ur_Data := concat (map ur_Data (gs @ [f]))\<rparr>"
proof -
  have "(\<exists>fs'. holds r' fs' \<and> (fs' = [] \<or> fs' = [f] \<or> fs' = fs @ [f])) \<and>
    (res = Inr (Some c) \<and> ur_Frag f \<noteq> 0 \<longrightarrow>
      (\<exists>gs. (gs = [] \<or> gs = fs) \<and> sequence_ok (gs @ [f]) \<and> isLast f \<and> (\<forall>g \<in> set gs. \<not> isLast g) \<and>
        c = (hd (gs @ [f]))\<lparr>ur_Frag := 0, ur_Data := concat (map ur_Data (gs @ [f]))\<rparr>))"
  proof (cases "ur_Frag f = 0 \<or> fragNum f = 0")
    case True
    then show ?thesis using ps by (auto simp: Push_def intro: exI [of _ "[]"] split: if_splits)
  next
    case False
    obtain r1 e where acc: "accept_fragment r f = (r1, e)" by fastforce
    show ?thesis
    proof (cases e)
      case (Some err)
      with accept_rejects [OF h] acc ps False show ?thesis by (auto simp: Push_def)
    next
      case None
      with acc False obtain gs where gs: "gs = [] \<or> gs = fs" "sequence_ok (gs @ [f])"
        "unat (rs_highestFrag r1) = length (gs @ [f])" "rs_data r1 = concat (map ur_Data (gs @ [f]))"
        "rs_addrType r1 = ur_AddrType (hd (gs @ [f]))" "rs_dstAddr r1 = ur_DstAddr (hd (gs @ [f]))"
        "rs_dstPort r1 = ur_DstPort (hd (gs @ [f]))" "udpFragmentDataLimit (hd (gs @ [f])) = Inr (rs_maxData r1)"
        "\<forall>g \<in> set gs. \<not> isLast g"
        using accept_extends [OF h, of f r1] by blast
      have num: "unat (fragNum f) = length (gs @ [f])" using gs(2) by (auto simp: sequence_ok_def)
      show ?thesis
      proof (cases "isLast f")
        case True
        then have "r' = clearLocked (r1\<lparr>rs_data := []\<rparr>)"
          and res: "res = Inr (Some \<lparr>ur_Frag = 0, ur_AddrType = rs_addrType r1, ur_DstAddr = rs_dstAddr r1,
            ur_DstPort = rs_dstPort r1, ur_Data = rs_data r1\<rparr>)"
          using ps acc None False by (auto simp: Push_def)
        then have "holds r' []" by simp
        moreover have "c = (hd (gs @ [f]))\<lparr>ur_Frag := 0, ur_Data := concat (map ur_Data (gs @ [f]))\<rparr>"
          if "res = Inr (Some c)" using that res gs(4-7) by (cases "hd (gs @ [f])") simp
        ultimately show ?thesis using gs(1,2,9) True by blast
      next
        case no: False
        show ?thesis
        proof (cases "fragNum f = 127")
          case True
          with no ps acc None False show ?thesis by (auto simp: Push_def intro!: exI [of _ "[]"])
        next
          case False
          have "fragNum f = 127" if "unat (fragNum f) = 127" using that by (intro unat_inj) simp
          then have "unat (fragNum f) \<noteq> 127" using False by blast
          with fragNum_bound [of f] num have "length (gs @ [f]) < 127" by linarith
          with gs no have "holds r1 (gs @ [f])" by (auto simp: holds_def)
          with gs(1) False no ps acc None \<open>\<not> (ur_Frag f = 0 \<or> fragNum f = 0)\<close> show ?thesis
            by (auto simp: Push_def)
        qed
      qed
    qed
  qed
  then show "\<exists>fs'. holds r' fs' \<and> (fs' = [] \<or> fs' = [f] \<or> fs' = fs @ [f])"
    and "res = Inr (Some c) \<Longrightarrow> ur_Frag f \<noteq> 0 \<Longrightarrow>
      \<exists>gs. (gs = [] \<or> gs = fs) \<and> sequence_ok (gs @ [f]) \<and> isLast f \<and> (\<forall>g \<in> set gs. \<not> isLast g) \<and>
        c = (hd (gs @ [f]))\<lparr>ur_Frag := 0, ur_Data := concat (map ur_Data (gs @ [f]))\<rparr>" by auto
qed

section \<open>Runs\<close>

datatype reasm_op = FPush "UDPRequest option" | FTimer u64 | FClose

fun reasm_do :: "reasm \<times> UDPRequest list \<Rightarrow> reasm_op \<Rightarrow> reasm \<times> UDPRequest list" where
  "reasm_do (r, pushed) (FPush None) = (fst (Push r None), pushed)"
| "reasm_do (r, pushed) (FPush (Some f)) = (fst (Push r (Some f)), pushed @ [f])"
| "reasm_do (r, pushed) (FTimer g) = (timer_expired r g, pushed)"
| "reasm_do (r, pushed) FClose = (reasm_Close r, pushed)"

definition reasm_ok :: "reasm \<times> UDPRequest list \<Rightarrow> bool" where
  "reasm_ok = (\<lambda>(r, pushed). \<exists>pre fs. pushed = pre @ fs \<and> holds r fs)"

lemma reasm_do_ok: "reasm_ok st \<Longrightarrow> reasm_ok (reasm_do st op)"
proof (induction st op rule: reasm_do.induct)
  case (2 r pushed f)
  then obtain pre fs where p: "pushed = pre @ fs" "holds r fs" by (auto simp: reasm_ok_def)
  obtain r' res where ps: "Push r (Some f) = (r', res)" by fastforce
  from Push_step(1) [OF p(2) ps] obtain fs' where fs': "holds r' fs'" "fs' = [] \<or> fs' = [f] \<or> fs' = fs @ [f]" by blast
  then have "\<exists>pre'. pushed @ [f] = pre' @ fs'" using p(1) by auto
  with fs' ps show ?case by (auto simp: reasm_ok_def)
next
  case (3 r pushed g)
  have "holds ((clearStateLocked r)\<lparr>rs_timer := None\<rparr>) []" by (simp add: holds_def clearStateLocked_def)
  then have "reasm_ok ((clearStateLocked r)\<lparr>rs_timer := None\<rparr>, pushed)" by (auto simp: reasm_ok_def)
  with 3 show ?case by (simp add: timer_expired_def)
next
  case (4 r pushed)
  have "pushed = pushed @ [] \<and> holds (clearLocked r) []" by simp
  then show ?case unfolding reasm_ok_def reasm_do.simps reasm_Close_def prod.case by blast
qed (auto simp: reasm_ok_def Push_def)

lemma reasm_run_ok: "reasm_ok st \<Longrightarrow> reasm_ok (foldl reasm_do st ops)"
  by (induction ops arbitrary: st) (simp_all add: reasm_do_ok)

lemma reasm_new_ok: "reasm_ok (NewUDPFragmentReassembler, [])"
  by (simp add: reasm_ok_def NewUDPFragmentReassembler_def newUDPFragmentReassembler_def holds_def)

text \<open>The header of a channel packet does not depend on the data, which follows it.\<close>

lemma packet_header:
  "EncodeChannelPacket (Some u) =
     (let h = EncodeChannelPacket (Some (u\<lparr>ur_Frag := 0, ur_Data := []\<rparr>)) in if h = [] then [] else h @ ur_Data u)"
  by (auto simp: EncodeChannelPacket_def Let_def split: option.splits)

lemma limit_frame:
  assumes "udpFragmentDataLimit u = Inr limit" and "int (length (ur_Data u)) \<le> limit"
  shows "EncodeChannelFrame (Some u) \<noteq> []"
proof -
  let ?h = "EncodeChannelPacket (Some (u\<lparr>ur_Frag := 0, ur_Data := []\<rparr>))"
  have u: "u\<lparr>ur_Frag := 0, ur_Data := []\<rparr> =
      \<lparr>ur_Frag = 0, ur_AddrType = ur_AddrType u, ur_DstAddr = ur_DstAddr u, ur_DstPort = ur_DstPort u, ur_Data = []\<rparr>"
    by simp
  have "?h \<noteq> []" "length ?h + length (ur_Data u) \<le> 65535"
    using assms unfolding u by (auto simp: udpFragmentDataLimit_def Let_def split: if_splits)
  moreover from this have "EncodeChannelPacket (Some u) = ?h @ ur_Data u"
    by (subst packet_header) (simp add: Let_def)
  ultimately show ?thesis by (simp add: EncodeChannelFrame_def Let_def)
qed

section \<open>Properties\<close>

text \<open>
  C16. Whatever was pushed before, in any order, with expiries and closes in between, a datagram that
  the reassembler completes is exactly the last fragments pushed: numbered one to \<open>n\<close> without a gap,
  at most 127, all for the same target, only the last marked as such.  Its data is theirs in order,
  and it always fits a channel frame.
\<close>

theorem reassembly_sound:
  assumes "(r, pushed) = foldl reasm_do (NewUDPFragmentReassembler, []) ops"
    and "Push r (Some f) = (r', Inr (Some c))" and "ur_Frag f \<noteq> 0"
  shows "\<exists>pre fs. pushed @ [f] = pre @ fs \<and> fs \<noteq> [] \<and> last fs = f \<and> length fs \<le> 127 \<and>
    map (unat \<circ> fragNum) fs = [1..<Suc (length fs)] \<and> (\<forall>g \<in> set fs. same_target g c) \<and>
    isLast f \<and> (\<forall>g \<in> set (butlast fs). \<not> isLast g) \<and>
    ur_Frag c = 0 \<and> ur_Data c = concat (map ur_Data fs) \<and> EncodeChannelFrame (Some c) \<noteq> []"
proof -
  from reasm_run_ok [OF reasm_new_ok, of ops] assms(1) obtain pre fs where p: "pushed = pre @ fs" "holds r fs"
    by (auto simp: reasm_ok_def)
  from Push_step(2) [OF p(2) assms(2) refl assms(3)] obtain gs where
    gs: "gs = [] \<or> gs = fs" "sequence_ok (gs @ [f])" "isLast f" "\<forall>g \<in> set gs. \<not> isLast g"
      "c = (hd (gs @ [f]))\<lparr>ur_Frag := 0, ur_Data := concat (map ur_Data (gs @ [f]))\<rparr>"
    by blast
  from gs(1) p(1) obtain pre' where "pushed @ [f] = pre' @ gs @ [f]" by auto
  moreover have "unat (fragNum f) = length (gs @ [f])" using gs(2) by (auto simp: sequence_ok_def)
  then have "length (gs @ [f]) \<le> 127" using fragNum_bound [of f] by linarith
  moreover have "\<forall>g \<in> set (gs @ [f]). same_target g c"
    using gs(2,5) by (simp add: sequence_ok_def same_target_def)
  moreover have "EncodeChannelFrame (Some c) \<noteq> []"
  proof -
    obtain limit where "udpFragmentDataLimit (hd (gs @ [f])) = Inr limit" "int (length (concat (map ur_Data (gs @ [f])))) \<le> limit"
      using gs(2) by (auto simp: sequence_ok_def)
    moreover have "same_target c (hd (gs @ [f]))" using gs(5) by (simp add: same_target_def)
    ultimately show ?thesis using limit_same [of c] gs(5) by (intro limit_frame) auto
  qed
  ultimately show ?thesis using gs(2,3,4,5)
    by (intro exI [of _ pre'] exI [of _ "gs @ [f]"]) (auto simp: sequence_ok_def butlast_append)
qed

text \<open>A datagram cut into fragments from number \<open>k\<close> on.\<close>

definition fragment :: "UDPRequest \<Rightarrow> nat \<Rightarrow> bool \<Rightarrow> bytes \<Rightarrow> UDPRequest" where
  "fragment u k final d = u\<lparr>ur_Frag := word_of_nat k OR (if final then 0x80 else 0), ur_Data := d\<rparr>"

fun fragments :: "UDPRequest \<Rightarrow> nat \<Rightarrow> bytes list \<Rightarrow> UDPRequest list" where
  "fragments u k [] = []"
| "fragments u k (d # ds) = fragment u k (ds = []) d # fragments u (Suc k) ds"

fun push_all :: "reasm \<Rightarrow> UDPRequest list \<Rightarrow> reasm \<times> (frag_err + UDPRequest option) list" where
  "push_all r [] = (r, [])"
| "push_all r (f # fs) = (case Push r (Some f) of (r1, res) \<Rightarrow> (case push_all r1 fs of (r2, rs) \<Rightarrow> (r2, res # rs)))"

lemma fragment_number:
  assumes "1 \<le> k" and "k \<le> 127"
  shows "fragNum (fragment u k final d) = word_of_nat k" and "isLast (fragment u k final d) = final"
    and "ur_Frag (fragment u k final d) \<noteq> 0" and "(word_of_nat k :: byte) \<noteq> 0"
proof -
  let ?w = "word_of_nat k :: byte"
  have "unat ?w = k" using assms by (simp add: byte_length)
  then show nz: "?w \<noteq> 0" using assms by auto
  have "take_bit 7 ?w = ?w"
    using \<open>unat ?w = k\<close> assms by (intro unat_inj) (simp add: unsigned_take_bit_eq take_bit_nat_eq_self)
  then have w: "?w AND 0x7f = ?w" by (simp add: take_bit_eq_mask mask_eq_exp_minus_1)
  then have "?w AND 0x80 = (?w AND 0x7f) AND 0x80" by simp
  then have w2: "?w AND 0x80 = 0" by (simp add: and.assoc)
  show num: "fragNum (fragment u k final d) = ?w" using w by (simp add: fragNum_def fragment_def bit.conj_disj_distrib2)
  show "isLast (fragment u k final d) = final" using w2 by (simp add: isLast_def fragment_def bit.conj_disj_distrib2)
  show "ur_Frag (fragment u k final d) \<noteq> 0" using num nz by (auto simp: fragNum_def)
qed

definition collecting :: "reasm \<Rightarrow> UDPRequest \<Rightarrow> nat \<Rightarrow> bytes \<Rightarrow> int \<Rightarrow> bool" where
  "collecting r u k acc limit \<longleftrightarrow>
     rs_highestFrag r = word_of_nat k \<and> rs_data r = acc \<and> rs_maxData r = limit \<and>
     rs_addrType r = ur_AddrType u \<and> rs_dstAddr r = ur_DstAddr u \<and> rs_dstPort r = ur_DstPort u"

lemma Push_collects:
  assumes "accept_fragment r (fragment u k final d) = (r1, None)" and "collecting r1 u k acc limit"
    and "1 \<le> k" and "k \<le> 127" and "final \<or> k < 127"
  shows "Push r (Some (fragment u k final d)) =
    (if final then (clearLocked (r1\<lparr>rs_data := []\<rparr>), Inr (Some (u\<lparr>ur_Frag := 0, ur_Data := acc\<rparr>)))
     else (r1, Inr None))"
proof -
  have "k = 127" if "(word_of_nat k :: byte) = 127"
  proof -
    have "unat (word_of_nat k :: byte) = 127" using that by simp
    with byte_length [of k] assms(4) show ?thesis by simp
  qed
  with assms fragment_number(1-3) [OF assms(3,4), of u final d] fragment_number(4) [OF assms(3,4)] show ?thesis
    by (auto simp: Push_def collecting_def)
qed

lemma push_rest:
  assumes "collecting r u k acc limit" and "1 \<le> k" and "k + length ds \<le> 127" and "ds \<noteq> []"
    and "int (length acc + length (concat ds)) \<le> limit"
  shows "\<exists>r'. push_all r (fragments u (Suc k) ds) =
    (clearLocked r', replicate (length ds - 1) (Inr None) @ [Inr (Some (u\<lparr>ur_Frag := 0, ur_Data := acc @ concat ds\<rparr>))])"
  using assms
proof (induction ds arbitrary: r k acc)
  case (Cons d ds)
  let ?f = "fragment u (Suc k) (ds = []) d"
  let ?r1 = "r\<lparr>rs_highestFrag := word_of_nat (Suc k), rs_data := acc @ d\<rparr>"
  have k: "1 \<le> Suc k" "Suc k \<le> 127" using Cons.prems by auto
  note num = fragment_number [OF k]
  have one: "(word_of_nat (Suc k) :: byte) \<noteq> 1"
  proof
    assume "(word_of_nat (Suc k) :: byte) = 1"
    then have "unat (word_of_nat (Suc k) :: byte) = 1" by simp
    with byte_length [of "Suc k"] k Cons.prems(2) show False by simp
  qed
  have "(word_of_nat k :: byte) \<noteq> 0" using fragment_number(4) [of k] Cons.prems by auto
  then have acc: "accept_fragment r ?f = (?r1, None)"
    using Cons.prems num one
    by (auto simp: accept_fragment_def collecting_def sameUDPFragmentTarget_def appendDataLocked_def Let_def)
       (simp_all add: fragment_def)
  have col: "collecting ?r1 u (Suc k) (acc @ d) limit" using Cons.prems(1) by (simp add: collecting_def)
  show ?case
  proof (cases ds)
    case Nil
    then show ?thesis using Push_collects [OF acc col k] by auto
  next
    case (Cons e es)
    then have "Suc k < 127" using Cons.prems(3) by simp
    then have "Push r (Some ?f) = (?r1, Inr None)" using Push_collects [OF acc col k] Cons by simp
    moreover obtain r' where "push_all ?r1 (fragments u (Suc (Suc k)) ds) =
        (clearLocked r', replicate (length ds - 1) (Inr None) @
          [Inr (Some (u\<lparr>ur_Frag := 0, ur_Data := (acc @ d) @ concat ds\<rparr>))])"
      using Cons.IH [OF col] Cons.prems Cons by auto
    ultimately show ?thesis using Cons by (auto simp: replicate_append_same)
  qed
qed simp

lemma push_fragments:
  assumes "udpFragmentDataLimit u = Inr limit" and "int (length (concat ds)) \<le> limit"
    and "ds \<noteq> []" and "length ds \<le> 127"
  shows "\<exists>r'. push_all r (fragments u 1 ds) =
      (r', replicate (length ds - 1) (Inr None) @ [Inr (Some (u\<lparr>ur_Frag := 0, ur_Data := concat ds\<rparr>))]) \<and>
    rs_highestFrag r' = 0 \<and> rs_data r' = [] \<and> rs_timer r' = None"
proof -
  obtain d es where ds: "ds = d # es" using assms(3) by (cases ds) auto
  let ?f = "fragment u 1 (es = []) d"
  define r1 where "r1 = startTimerLocked ((clearLocked r)\<lparr>rs_addrType := ur_AddrType u, rs_dstAddr := ur_DstAddr u,
      rs_dstPort := ur_DstPort u, rs_maxData := limit, rs_highestFrag := 1, rs_data := d\<rparr>)"
  have num: "fragNum ?f = 1" using fragment_number(1) [of 1 u "es = []" d] by simp
  have "same_target ?f u" by (simp add: same_target_def fragment_def)
  then have "udpFragmentDataLimit ?f = Inr limit" using limit_same assms(1) by metis
  with num have acc: "accept_fragment r ?f = (r1, None)"
    using assms(2) ds
    by (auto simp: accept_fragment_def appendDataLocked_def Let_def r1_def fragment_def clearLocked_def clearStateLocked_def)
  have col: "collecting r1 u 1 d limit" by (simp add: collecting_def r1_def startTimerLocked_def Let_def)
  have "\<exists>r'. push_all r (fragments u 1 ds) =
      (clearLocked r', replicate (length ds - 1) (Inr None) @ [Inr (Some (u\<lparr>ur_Frag := 0, ur_Data := concat ds\<rparr>))])"
  proof (cases "es = []")
    case True
    then show ?thesis using Push_collects [OF acc col] ds by auto
  next
    case False
    then have "Push r (Some ?f) = (r1, Inr None)" using Push_collects [OF acc col] by simp
    moreover obtain r' where "push_all r1 (fragments u (Suc 1) es) =
        (clearLocked r', replicate (length es - 1) (Inr None) @ [Inr (Some (u\<lparr>ur_Frag := 0, ur_Data := d @ concat es\<rparr>))])"
      using push_rest [OF col, of es] False assms ds by auto
    ultimately show ?thesis using False ds by (cases es) auto
  qed
  then show "\<exists>r'. push_all r (fragments u 1 ds) =
      (r', replicate (length ds - 1) (Inr None) @ [Inr (Some (u\<lparr>ur_Frag := 0, ur_Data := concat ds\<rparr>))]) \<and>
    rs_highestFrag r' = 0 \<and> rs_data r' = [] \<and> rs_timer r' = None"
    by (auto simp: clearLocked_def clearStateLocked_def)
qed

text \<open>
  Every datagram with a valid target that is within the payload limit of its target comes back whole:
  cut in any way into 1 to 127 fragments and pushed in order, whatever the reassembler held before,
  all but the last push return nothing, the last returns the datagram, and the reassembler is empty
  again.  An expiry of an earlier timer in between changes nothing.
\<close>

theorem reassembly_complete:
  assumes "udpFragmentDataLimit u = Inr limit" and "int (length (concat ds)) \<le> limit"
    and "ds \<noteq> []" and "length ds \<le> 127"
  shows "(\<exists>r'. push_all r (fragments u 1 ds) =
      (r', replicate (length ds - 1) (Inr None) @ [Inr (Some (u\<lparr>ur_Frag := 0, ur_Data := concat ds\<rparr>))]) \<and>
      rs_highestFrag r' = 0 \<and> rs_data r' = [] \<and> rs_timer r' = None) \<and>
    (rs_generation r0 \<noteq> g \<longrightarrow> timer_expired r0 g = r0)"
  using push_fragments [OF assms, of r] by (simp add: timer_expired_def)

lemma demo_limit: "udpFragmentDataLimit demo_datagram = Inr 65507"
  by (simp add: udpFragmentDataLimit_def EncodeChannelPacket_def demo_datagram_def socks_defs maxUDPDatagramPayload_def)

theorem reassembly_complete_witness:
  "snd (push_all NewUDPFragmentReassembler (fragments demo_datagram 1 [[1], [2, 3]])) =
     [Inr None, Inr (Some (demo_datagram\<lparr>ur_Frag := 0, ur_Data := [1, 2, 3]\<rparr>))]"
proof -
  obtain r' where "push_all NewUDPFragmentReassembler (fragments demo_datagram 1 [[1], [2, 3]]) =
      (r', replicate 1 (Inr None) @ [Inr (Some (demo_datagram\<lparr>ur_Frag := 0, ur_Data := concat [[1], [2, 3]]\<rparr>))])"
    using reassembly_complete [OF demo_limit, of "[[1], [2, 3]]" NewUDPFragmentReassembler undefined 0]
    by (auto simp del: push_all.simps fragments.simps)
  then show ?thesis by (simp del: push_all.simps fragments.simps)
qed

theorem reassembly_sound_witness:
  "\<exists>r' c. Push (fst (Push NewUDPFragmentReassembler (Some (fragment demo_datagram 1 False [1]))))
      (Some (fragment demo_datagram 2 True [2])) = (r', Inr (Some c)) \<and> ur_Data c = [1, 2] \<and> EncodeChannelFrame (Some c) \<noteq> []"
proof -
  let ?f = "fragment demo_datagram 1 False [1]" and ?g = "fragment demo_datagram 2 True [2]"
  define r pushed where "r = fst (Push NewUDPFragmentReassembler (Some ?f))" and "pushed = [?f]"
  have run: "(r, pushed) = foldl reasm_do (NewUDPFragmentReassembler, []) [FPush (Some ?f)]"
    by (simp add: r_def pushed_def)
  obtain r' c where p: "Push r (Some ?g) = (r', Inr (Some c))" "c = demo_datagram\<lparr>ur_Frag := 0, ur_Data := [1, 2]\<rparr>"
    using push_fragments [OF demo_limit, of "[[1], [2]]" NewUDPFragmentReassembler]
    by (auto simp: r_def numeral_2_eq_2 split: prod.splits)
  have "ur_Frag ?g \<noteq> 0" using fragment_number(3) [of 2] by simp
  from reassembly_sound [OF run p(1) this] p show ?thesis by (auto simp: r_def)
qed

end
