(* ===== verification/ClientSocks.thy ===== *)
theory ClientSocks
  imports Socks4 UdpFragments
begin

text \<open>
  The local side of the client, from \<^verbatim>\<open>cmd/client/main.go\<close>: reading the request of a SOCKS4,
  SOCKS4a or SOCKS5 client, answering it, and the two directions of a UDP association between the
  local socket and the channel.  Log output is not modelled; sockets are the bytes and datagrams
  they deliver.
\<close>

section \<open>Local requests\<close>

datatype local_err = LocalSocks5 socks_err | LocalSocks4 socks4_err | LocalVersion byte

definition isEOFError :: "socks4_err \<Rightarrow> bool" where
  "isEOFError err \<longleftrightarrow> err = S4Io IoEOF \<or> err = S4Io IoUnexpectedEOF"

definition readLocalSocksRequest :: "bool \<Rightarrow> bytes \<Rightarrow> bytes \<times> byte \<times> (local_err + Request) \<times> bytes" where
  "readLocalSocksRequest werr inp =
     (case ReadFull 1 inp of
        (Inl err, rest) \<Rightarrow> ([], 0, Inl (LocalSocks5 err), rest)
      | (Inr version, rest) \<Rightarrow>
          (let v = version ! 0
           in if v = Socks4_Version
              then (case ReadRequestAfterVersion rest of
                      (Inl err, rest1) \<Rightarrow>
                        (if isEOFError err \<or> werr then [] else Socks4_SendReply ReplyRejected None 0,
                         v, Inl (LocalSocks4 err), rest1)
                    | (Inr req, rest1) \<Rightarrow>
                        ([], v,
                         Inr (new_Request\<lparr>rq_Version := v, rq_Cmd := CmdConnect,
                                rq_AddrType := (if r4_SOCKS4a req then AtypDomain else AtypIPv4),
                                rq_DstAddr := r4_DstAddr req, rq_DstPort := r4_DstPort req\<rparr>),
                         rest1))
              else if v = Socks5Version
              then (case HandshakeAfterVersion werr rest v of
                      (out, Some err, rest1) \<Rightarrow> (out, v, Inl (LocalSocks5 err), rest1)
                    | (out, None, rest1) \<Rightarrow>
                        (case ReadRequest werr rest1 of
                           (out1, Inl err, rest2) \<Rightarrow> (out @ out1, v, Inl (LocalSocks5 err), rest2)
                         | (out1, Inr req, rest2) \<Rightarrow> (out @ out1, v, Inr req, rest2)))
              else ([], v, Inl (LocalVersion v), rest)))"

definition sendLocalSocksReply :: "byte \<Rightarrow> byte \<Rightarrow> bytes option \<Rightarrow> u16 \<Rightarrow> bytes" where
  "sendLocalSocksReply protocol socks5Reply bindAddr bindPort =
     (if protocol = Socks4_Version
      then Socks4_SendReply (if socks5Reply = 0 then ReplyGranted else ReplyRejected) bindAddr bindPort
      else SendReply socks5Reply bindAddr bindPort)"

section \<open>UDP associations\<close>

record UDPAddr =
  ua_IP :: bytes
  ua_Port :: int
  ua_Zone :: string

text \<open>\<^verbatim>\<open>IP.Equal\<close>: an IPv4 address and its IPv4-mapped form are equal.\<close>

definition IP_Equal :: "bytes \<Rightarrow> bytes \<Rightarrow> bool" where
  "IP_Equal a b =
     (if length a = length b then a = b
      else if length a = 4 \<and> length b = 16 then b = v4_in_v6 @ a
      else if length a = 16 \<and> length b = 4 then a = v4_in_v6 @ b
      else False)"

definition cloneUDPAddr :: "UDPAddr option \<Rightarrow> UDPAddr option" where
  "cloneUDPAddr addr = addr"

definition udpAddrEqual :: "UDPAddr option \<Rightarrow> UDPAddr option \<Rightarrow> bool" where
  "udpAddrEqual a b =
     (case (a, b) of
        (Some x, Some y) \<Rightarrow> ua_Port x = ua_Port y \<and> ua_Zone x = ua_Zone y \<and> IP_Equal (ua_IP x) (ua_IP y)
      | _ \<Rightarrow> False)"

definition accept_source :: "UDPAddr option \<Rightarrow> UDPAddr option \<Rightarrow> UDPAddr option \<times> bool" where
  "accept_source source addr =
     (if addr = None then (source, False)
      else if source = None then (cloneUDPAddr addr, True)
      else (source, udpAddrEqual source addr))"

text \<open>The local TCP address of the SOCKS connection; None if it is not a TCP address.\<close>

definition IsUnspecified :: "bytes \<Rightarrow> bool" where
  "IsUnspecified ip \<longleftrightarrow> IP_Equal ip [0, 0, 0, 0] \<or> IP_Equal ip (replicate 16 0)"

definition udpAssociateBindAddr :: "(bytes option \<times> string) option \<Rightarrow> UDPAddr" where
  "udpAssociateBindAddr localAddr =
     (let (ip, zone) =
        (case localAddr of
           Some (Some tcpIP, tcpZone) \<Rightarrow>
             if \<not> IsUnspecified tcpIP then (tcpIP, tcpZone) else (v4_in_v6 @ [127, 0, 0, 1], [])
         | _ \<Rightarrow> (v4_in_v6 @ [127, 0, 0, 1], []))
      in case To4 ip of
           Some ip4 \<Rightarrow> \<lparr>ua_IP = ip4, ua_Port = 0, ua_Zone = []\<rparr>
         | None \<Rightarrow> \<lparr>ua_IP = ip, ua_Port = 0, ua_Zone = zone\<rparr>)"

record udp_assoc =
  as_source :: "UDPAddr option"
  as_reasm :: reasm
  as_lastActivity :: time

definition new_assoc :: "time \<Rightarrow> udp_assoc" where
  "new_assoc now = \<lparr>as_source = None, as_reasm = NewUDPFragmentReassembler, as_lastActivity = now\<rparr>"

text \<open>
  One datagram of the local socket: the new state, and the datagram and the frame that are written to
  the channel, if any.
\<close>

definition udp_up ::
  "udp_assoc \<Rightarrow> bytes \<Rightarrow> UDPAddr option \<Rightarrow> time \<Rightarrow> udp_assoc \<times> (UDPRequest \<times> bytes) option" where
  "udp_up a buf addr now =
     (case ParseUDPRequest buf of
        Inl err \<Rightarrow> (a, None)
      | Inr udpReq \<Rightarrow>
          (case accept_source (as_source a) addr of
             (src, False) \<Rightarrow> (a\<lparr>as_source := src\<rparr>, None)
           | (src, True) \<Rightarrow>
               (let a1 = a\<lparr>as_source := src, as_lastActivity := now\<rparr>
                in case Push (as_reasm a1) (Some udpReq) of
                     (r, Inl err) \<Rightarrow> (a1\<lparr>as_reasm := r\<rparr>, None)
                   | (r, Inr None) \<Rightarrow> (a1\<lparr>as_reasm := r\<rparr>, None)
                   | (r, Inr (Some u)) \<Rightarrow>
                       (let packet = EncodeChannelFrame (Some u)
                        in (a1\<lparr>as_reasm := r\<rparr>, if length packet = 0 then None else Some (u, packet))))))"

text \<open>One datagram of the channel: what is sent to the local client, and where.\<close>

definition udp_down :: "udp_assoc \<Rightarrow> UDPRequest \<Rightarrow> time \<Rightarrow> udp_assoc \<times> (bytes \<times> UDPAddr) option" where
  "udp_down a udpResp now =
     (let a1 = a\<lparr>as_lastActivity := now\<rparr>
      in case cloneUDPAddr (as_source a1) of
           None \<Rightarrow> (a1, None)
         | Some targetAddr \<Rightarrow> (a1, Some (UDPRequest_Encode udpResp, targetAddr)))"

definition udp_idle :: "udp_assoc \<Rightarrow> time \<Rightarrow> duration \<Rightarrow> bool" where
  "udp_idle a now idleTimeout \<longleftrightarrow> idleTimeout \<le> now - as_lastActivity a"

section \<open>Requests reach the server unchanged\<close>

lemma printed_mapped: "length ip = 4 \<Longrightarrow> IP_String (v4_in_v6 @ ip) = IP_String ip"
  by (auto simp: IP_String_def To4_def v4_in_v6_def)

lemma handshake_ok:
  assumes "HandshakeAfterVersion werr inp v = (out, None, rest)"
  shows "\<exists>n methods. length methods = unat n \<and> NoAuth \<in> set methods \<and> inp = n # methods @ rest \<and>
    out = [Socks5Version, NoAuth]"
proof (cases inp)
  case (Cons n xs)
  with assms have "unat n \<le> length xs" "NoAuth \<in> set (take (unat n) xs)" "rest = drop (unat n) xs"
    "out = [Socks5Version, NoAuth]"
    by (auto simp: HandshakeAfterVersion_def ReadFull_def list_ex_iff split: if_splits)
  with Cons show ?thesis by (intro exI [of _ n] exI [of _ "take (unat n) xs"]) simp
qed (use assms in \<open>auto simp: HandshakeAfterVersion_def ReadFull_def split: if_splits\<close>)

lemma request4_ok:
  assumes "ReadRequestAfterVersion inp = (Inr q, rest)"
  shows "\<exists>ip user tail. length ip = 4 \<and> 0 \<notin> set user \<and>
    inp = [Socks4_CmdConnect] @ put16 (r4_DstPort q) @ ip @ user @ 0 # tail \<and>
    (if r4_SOCKS4a q
     then take 3 ip = [0, 0, 0] \<and> r4_DstAddr q \<noteq> [] \<and> length (r4_DstAddr q) \<le> 255 \<and>
       tail = bytes_of_string (r4_DstAddr q) @ 0 # rest
     else r4_DstAddr q = IP_String ip \<and> tail = rest)"
proof -
  obtain fixed rest0 where f: "ReadFull 7 inp = (Inr fixed, rest0)"
    using assms by (auto simp: ReadRequestAfterVersion_def split: sum.splits prod.splits)
  then have "length fixed = 7" "inp = fixed @ rest0" using ReadFull_cases [OF f] by auto
  then obtain c p1 p2 a b d e where fx: "fixed = [c, p1, p2, a, b, d, e]" and inp: "inp = [c, p1, p2, a, b, d, e] @ rest0"
    by (auto simp: numeral_eq_Suc length_Suc_conv)
  obtain user rest1 where u: "readCString rest0 maxUserIDLen ''user ID'' = (Inr user, rest1)"
    using assms f by (auto simp: ReadRequestAfterVersion_def split: sum.splits prod.splits)
  then have us: "rest0 = bytes_of_string user @ 0 # rest1" "0 \<notin> set (bytes_of_string user)"
    by (auto simp: readCString_exact)
  have port: "put16 (get16 [p1, p2]) = [p1, p2]" by (simp add: put_get)
  show ?thesis
  proof (cases "a = 0 \<and> b = 0 \<and> d = 0 \<and> e \<noteq> 0")
    case True
    then obtain dom where dm: "readCString rest1 maxDomainLen ''domain'' = (Inr dom, rest)" "dom \<noteq> []"
      and q: "q = \<lparr>r4_Cmd = c, r4_DstAddr = dom, r4_DstPort = get16 [p1, p2], r4_UserID = user, r4_SOCKS4a = True\<rparr>"
        "c = Socks4_CmdConnect"
      using assms f u fx
      by (auto simp: ReadRequestAfterVersion_def Let_def split: sum.splits prod.splits if_splits)
    with us inp port True show ?thesis
      by (intro exI [of _ "[a, b, d, e]"] exI [of _ "bytes_of_string user"] exI [of _ rest1])
         (auto simp: readCString_exact maxDomainLen_def)
  next
    case False
    then have q: "q = \<lparr>r4_Cmd = c, r4_DstAddr = IP_String (v4_in_v6 @ [a, b, d, e]), r4_DstPort = get16 [p1, p2],
        r4_UserID = user, r4_SOCKS4a = False\<rparr>" "c = Socks4_CmdConnect" "rest1 = rest"
      using assms f u fx
      by (auto simp: ReadRequestAfterVersion_def Let_def split: sum.splits prod.splits if_splits)
    with us inp port show ?thesis
      by (intro exI [of _ "[a, b, d, e]"] exI [of _ "bytes_of_string user"] exI [of _ rest]) (simp add: printed_mapped)
  qed
qed

text \<open>
  C13. What a local client asks for is what the server gets.  A request read from a SOCKS4, SOCKS4a or
  SOCKS5 client consumes exactly the bytes of its greeting and request; encoded into a channel
  request with a connection type and decoded at the server, also with bytes following it, it
  gives the same address type, address and port: IPv4 and IPv6 addresses, IPv4-mapped ones
  included, and domains of up to 255 bytes.
\<close>

theorem local_request_relay:
  assumes "readLocalSocksRequest werr inp = (out, v, Inr r, rest)"
  shows "rq_Version r = v \<and>
    DecodeRequest (Request_Encode (r\<lparr>rq_ConnType := t\<rparr>) @ extra) =
      Inr (r\<lparr>rq_Version := 0, rq_Cmd := 0, rq_ConnType := t\<rparr>) \<and>
    (v = Socks4_Version \<and> out = [] \<and> rq_Cmd r = CmdConnect \<and>
      (\<exists>ip user tail. length ip = 4 \<and> 0 \<notin> set user \<and>
        inp = [v, CmdConnect] @ put16 (rq_DstPort r) @ ip @ user @ 0 # tail \<and>
        (rq_AddrType r = AtypDomain \<and> take 3 ip = [0, 0, 0] \<and> rq_DstAddr r \<noteq> [] \<and>
           tail = bytes_of_string (rq_DstAddr r) @ 0 # rest \<or>
         rq_AddrType r = AtypIPv4 \<and> rq_DstAddr r = IP_String ip \<and> tail = rest)) \<or>
     v = Socks5Version \<and> out = [Socks5Version, NoAuth] \<and> (rq_Cmd r = CmdConnect \<or> rq_Cmd r = CmdUDPAssociate) \<and>
      (\<exists>n methods rsv addr. length methods = unat n \<and> NoAuth \<in> set methods \<and>
        encode_address (rq_AddrType r) (rq_DstAddr r) = Some addr \<and>
        inp = [v, n] @ methods @ [v, rq_Cmd r, rsv, rq_AddrType r] @ addr @ put16 (rq_DstPort r) @ rest))"
proof -
  obtain rest0 where inp: "inp = v # rest0" and v: "v = Socks4_Version \<or> v = Socks5Version"
    using assms
    by (cases inp) (auto simp: readLocalSocksRequest_def ReadFull_def Let_def split: sum.splits prod.splits option.splits if_splits)
  show ?thesis
  proof (cases "v = Socks4_Version")
    case True
    then obtain q where q: "ReadRequestAfterVersion rest0 = (Inr q, rest)"
      and r: "out = []" "r = new_Request\<lparr>rq_Version := v, rq_Cmd := CmdConnect,
          rq_AddrType := (if r4_SOCKS4a q then AtypDomain else AtypIPv4),
          rq_DstAddr := r4_DstAddr q, rq_DstPort := r4_DstPort q\<rparr>"
      using assms inp
      by (auto simp: readLocalSocksRequest_def ReadFull_def Let_def split: sum.splits prod.splits)
    from request4_ok [OF q] obtain ip user tail where u: "length ip = 4" "0 \<notin> set user"
        "rest0 = [Socks4_CmdConnect] @ put16 (r4_DstPort q) @ ip @ user @ 0 # tail"
      and tgt: "if r4_SOCKS4a q then take 3 ip = [0, 0, 0] \<and> r4_DstAddr q \<noteq> [] \<and> length (r4_DstAddr q) \<le> 255 \<and>
           tail = bytes_of_string (r4_DstAddr q) @ 0 # rest
         else r4_DstAddr q = IP_String ip \<and> tail = rest"
      by blast
    have "addr_ok (rq_AddrType (r\<lparr>rq_ConnType := t\<rparr>)) (rq_DstAddr (r\<lparr>rq_ConnType := t\<rparr>))"
      using tgt u(1) r(2) by (auto simp: addr_okI split: if_splits)
    note dec = decode_encode_request [OF this, of extra]
    have cmd: "Socks4_CmdConnect = CmdConnect" by (simp add: Socks4_CmdConnect_def CmdConnect_def)
    have "\<exists>ip user tail. length ip = 4 \<and> 0 \<notin> set user \<and>
        inp = [v, CmdConnect] @ put16 (rq_DstPort r) @ ip @ user @ 0 # tail \<and>
        (rq_AddrType r = AtypDomain \<and> take 3 ip = [0, 0, 0] \<and> rq_DstAddr r \<noteq> [] \<and>
           tail = bytes_of_string (rq_DstAddr r) @ 0 # rest \<or>
         rq_AddrType r = AtypIPv4 \<and> rq_DstAddr r = IP_String ip \<and> tail = rest)"
      using tgt u inp r(2)
      by (intro exI [of _ ip] exI [of _ user] exI [of _ tail]) (auto simp: cmd split: if_splits)
    with dec True r show ?thesis by (simp add: new_Request_def)
  next
    case False
    then have five: "v = Socks5Version" using v by simp
    obtain o1 rest1 o2 where h: "HandshakeAfterVersion werr rest0 v = (o1, None, rest1)"
      and q: "ReadRequest werr rest1 = (o2, Inr r, rest)" and out: "out = o1 @ o2"
      using assms inp False five
      by (auto simp: readLocalSocksRequest_def ReadFull_def Let_def split: sum.splits prod.splits option.splits)
    from h obtain n methods where m: "length methods = unat n" "NoAuth \<in> set methods" "rest0 = n # methods @ rest1"
        "o1 = [Socks5Version, NoAuth]"
      using handshake_ok by blast
    from request_relay [OF q, of t extra] m inp out five show ?thesis by auto
  qed
qed

definition demo_socks4a :: bytes where
  "demo_socks4a = [4, 1, 0, 80, 0, 0, 0, 1, 0, 97, 0]"

theorem local_request_relay_witness:
  "\<exists>r. readLocalSocksRequest False demo_socks4a = ([], 4, Inr r, []) \<and> rq_DstAddr r = ''a'' \<and>
    DecodeRequest (Request_Encode (r\<lparr>rq_ConnType := 1\<rparr>) @ [7]) = Inr (r\<lparr>rq_Version := 0, rq_Cmd := 0, rq_ConnType := 1\<rparr>)"
proof -
  define r where "r = new_Request\<lparr>rq_Version := 4, rq_Cmd := 1, rq_AddrType := 3, rq_DstAddr := ''a'', rq_DstPort := 80\<rparr>"
  have rd: "readLocalSocksRequest False demo_socks4a = ([], 4, Inr r, [])"
    by (simp add: readLocalSocksRequest_def demo_socks4a_def ReadFull_def socks_defs r_def new_Request_def
        Socks4_Version_def ReadRequestAfterVersion_def readCString_def maxUserIDLen_def maxDomainLen_def
        Socks4_CmdConnect_def get16_def be_word_def string_of_bytes_def char_of_byte_def char_of_def bit_0)
  from local_request_relay [OF rd, of 1 "[7]"] rd show ?thesis by (auto simp: r_def)
qed

section \<open>Datagrams reach the server unchanged\<close>

record raw_datagram =
  rd_buf :: bytes
  rd_from :: "UDPAddr option"
  rd_at :: time

text \<open>The datagrams of the local socket one after the other, with expiries of the reassembly timer.\<close>

datatype udp_event = UDatagram raw_datagram | UExpire u64

fun udp_event_do :: "udp_assoc \<Rightarrow> udp_event \<Rightarrow> udp_assoc \<times> (UDPRequest \<times> bytes) list" where
  "udp_event_do a (UDatagram d) =
     (case udp_up a (rd_buf d) (rd_from d) (rd_at d) of
        (a', None) \<Rightarrow> (a', []) | (a', Some w) \<Rightarrow> (a', [w]))"
| "udp_event_do a (UExpire g) = (a\<lparr>as_reasm := timer_expired (as_reasm a) g\<rparr>, [])"

fun udp_run :: "udp_assoc \<Rightarrow> udp_event list \<Rightarrow> udp_assoc \<times> (UDPRequest \<times> bytes) list" where
  "udp_run a [] = (a, [])"
| "udp_run a (e # es) =
     (case udp_event_do a e of (a1, ws) \<Rightarrow> (case udp_run a1 es of (a2, ws') \<Rightarrow> (a2, ws @ ws')))"

definition assoc_ok :: "udp_assoc \<Rightarrow> bool" where
  "assoc_ok a \<longleftrightarrow> (\<exists>fs. holds (as_reasm a) fs \<and> (\<forall>f \<in> set fs. addr_ok (ur_AddrType f) (ur_DstAddr f)))"

definition sent_ok :: "UDPRequest \<times> bytes \<Rightarrow> bool" where
  "sent_ok w \<longleftrightarrow> snd w = EncodeChannelFrame (Some (fst w)) \<and> snd w \<noteq> [] \<and> ur_Frag (fst w) = 0 \<and>
     addr_ok (ur_AddrType (fst w)) (ur_DstAddr (fst w))"

lemma parsed_addr: "ParseUDPRequest buf = Inr u \<Longrightarrow> addr_ok (ur_AddrType u) (ur_DstAddr u)"
  by (auto simp: ParseUDPRequest_def intro: decode_encode_address(1) split: if_splits sum.splits prod.splits)

lemma udp_up_ok:
  assumes ok: "assoc_ok a" and up: "udp_up a buf addr now = (a', w)"
  shows "assoc_ok a'" and "w = Some x \<Longrightarrow> sent_ok x"
proof -
  have "assoc_ok a' \<and> (w = Some x \<longrightarrow> sent_ok x)"
  proof (cases "ParseUDPRequest buf")
    case (Inl e)
    then show ?thesis using assms by (simp add: udp_up_def)
  next
    case (Inr u)
    obtain src b where acc: "accept_source (as_source a) addr = (src, b)" by fastforce
    show ?thesis
    proof (cases b)
      case False
      then show ?thesis using assms Inr acc by (auto simp: udp_up_def assoc_ok_def)
    next
      case True
      obtain fs where fs: "holds (as_reasm a) fs" "\<forall>f \<in> set fs. addr_ok (ur_AddrType f) (ur_DstAddr f)"
        using ok by (auto simp: assoc_ok_def)
      obtain r res where ps: "Push (as_reasm a) (Some u) = (r, res)" by fastforce
      have u: "addr_ok (ur_AddrType u) (ur_DstAddr u)" by (rule parsed_addr [OF Inr])
      from Push_step(1) [OF fs(1) ps] fs(2) u
      have r: "\<exists>fs'. holds r fs' \<and> (\<forall>f \<in> set fs'. addr_ok (ur_AddrType f) (ur_DstAddr f))"
        by (metis UnE empty_iff list.set(1,2) set_append singletonD)
      have c: "ur_Frag c = 0 \<and> addr_ok (ur_AddrType c) (ur_DstAddr c)" if "res = Inr (Some c)" for c
      proof (cases "ur_Frag u = 0")
        case True
        then show ?thesis using ps that u by (auto simp: Push_def)
      next
        case False
        from Push_step(2) [OF fs(1) ps that False] obtain gs where "gs = [] \<or> gs = fs"
            "c = (hd (gs @ [u]))\<lparr>ur_Frag := 0, ur_Data := concat (map ur_Data (gs @ [u]))\<rparr>" by blast
        with fs(2) u show ?thesis by (cases gs) auto
      qed
      from assms Inr acc True ps r c show ?thesis
        by (auto simp: udp_up_def Let_def assoc_ok_def sent_ok_def split: sum.splits option.splits if_splits)
    qed
  qed
  then show "assoc_ok a'" and "w = Some x \<Longrightarrow> sent_ok x" by auto
qed

lemma udp_event_ok:
  assumes "assoc_ok a" and "udp_event_do a e = (a', ws)"
  shows "assoc_ok a'" and "\<forall>w \<in> set ws. sent_ok w"
proof -
  have "assoc_ok a' \<and> (\<forall>w \<in> set ws. sent_ok w)"
  proof (cases e)
    case (UDatagram d)
    obtain a1 w where "udp_up a (rd_buf d) (rd_from d) (rd_at d) = (a1, w)" by fastforce
    with udp_up_ok [OF assms(1) this] UDatagram assms(2) show ?thesis by (cases w) auto
  next
    case (UExpire g)
    have "holds ((clearStateLocked r)\<lparr>rs_timer := None\<rparr>) []" for r by (simp add: holds_def clearStateLocked_def)
    then have "assoc_ok (a\<lparr>as_reasm := (clearStateLocked (as_reasm a))\<lparr>rs_timer := None\<rparr>\<rparr>)"
      unfolding assoc_ok_def by (intro exI [of _ "[]"]) simp
    with UExpire assms show ?thesis by (auto simp: timer_expired_def split: if_splits)
  qed
  then show "assoc_ok a'" and "\<forall>w \<in> set ws. sent_ok w" by auto
qed

lemma udp_run_ok: "assoc_ok a \<Longrightarrow> udp_run a es = (a', ws) \<Longrightarrow> assoc_ok a' \<and> (\<forall>w \<in> set ws. sent_ok w)"
proof (induction es arbitrary: a ws)
  case (Cons e es)
  obtain a1 ws1 where e: "udp_event_do a e = (a1, ws1)" by fastforce
  obtain ws2 where r: "udp_run a1 es = (a', ws2)" "ws = ws1 @ ws2"
    using Cons.prems(2) e by (auto split: prod.splits)
  from Cons.IH [OF udp_event_ok(1) [OF Cons.prems(1) e] r(1)] udp_event_ok(2) [OF Cons.prems(1) e] r(2)
  show ?case by auto
qed simp

text \<open>
  The well-formed datagrams of the source of the association, in the order of their arrival: the first sender of a
  well-formed datagram is the source.
\<close>

fun source_datagrams :: "UDPAddr option \<Rightarrow> udp_event list \<Rightarrow> UDPRequest list" where
  "source_datagrams src [] = []"
| "source_datagrams src (UExpire g # es) = source_datagrams src es"
| "source_datagrams src (UDatagram d # es) =
     (case (ParseUDPRequest (rd_buf d), rd_from d) of
        (Inr u, Some s) \<Rightarrow>
          if src = None then u # source_datagrams (Some s) es
          else if udpAddrEqual src (Some s) then u # source_datagrams src es
          else source_datagrams src es
      | _ \<Rightarrow> source_datagrams src es)"

text \<open>A whole datagram as it is, or all fragments of one in their order.\<close>

definition makes :: "UDPRequest list \<Rightarrow> UDPRequest \<Rightarrow> bool" where
  "makes gs c \<longleftrightarrow>
     gs = [c] \<and> ur_Frag c = 0 \<or>
     sequence_ok gs \<and> isLast (last gs) \<and> (\<forall>g \<in> set (butlast gs). \<not> isLast g) \<and>
       c = (hd gs)\<lparr>ur_Frag := 0, ur_Data := concat (map ur_Data gs)\<rparr>"

text \<open>What arrived, cut into segments: a segment makes a datagram or is dropped, and then no whole datagram that can be sent is in it.\<close>

definition segments_ok :: "(UDPRequest list \<times> UDPRequest option) list \<Rightarrow> bool" where
  "segments_ok ps \<longleftrightarrow>
     (\<forall>(gs, c) \<in> set ps. case c of
        Some u \<Rightarrow> makes gs u
      | None \<Rightarrow> \<forall>u \<in> set gs. ur_Frag u = 0 \<longrightarrow> EncodeChannelFrame (Some u) = [])"

lemma segments_Cons [simp]: "segments_ok [] = True"
  "segments_ok ((gs, c) # ps) \<longleftrightarrow>
     (case c of Some u \<Rightarrow> makes gs u | None \<Rightarrow> \<forall>u \<in> set gs. ur_Frag u = 0 \<longrightarrow> EncodeChannelFrame (Some u) = []) \<and> segments_ok ps"
  by (auto simp: segments_ok_def)

lemma sequence_fragments: "sequence_ok fs \<Longrightarrow> f \<in> set fs \<Longrightarrow> ur_Frag f \<noteq> 0"
proof
  assume h: "sequence_ok fs" "f \<in> set fs" "ur_Frag f = 0"
  have "unat (fragNum f) \<in> set (map (unat \<circ> fragNum) fs)" using h(2) by simp
  moreover have "map (unat \<circ> fragNum) fs = [1..<Suc (length fs)]" using h(1) by (simp add: sequence_ok_def)
  ultimately have "1 \<le> unat (fragNum f)" by (metis atLeastLessThan_iff set_upt)
  then show False using h(3) by (simp add: fragNum_def)
qed

lemma held_fragments: "holds r fs \<Longrightarrow> f \<in> set fs \<Longrightarrow> ur_Frag f \<noteq> 0"
  using sequence_fragments by (cases fs) (auto simp: holds_def)

text \<open>Whole datagrams that fit a frame are all sent, and nothing else.\<close>

lemma whole_segments:
  "segments_ok ps \<Longrightarrow> \<forall>u \<in> set (concat (map fst ps)). ur_Frag u = 0 \<and> EncodeChannelFrame (Some u) \<noteq> [] \<Longrightarrow>
    List.map_filter snd ps = concat (map fst ps)"
proof (induction ps)
  case (Cons p ps)
  obtain gs c where p: "p = (gs, c)" by fastforce
  have "gs = (case c of None \<Rightarrow> [] | Some u \<Rightarrow> [u])"
  proof (cases c)
    case None
    then show ?thesis using Cons.prems p by (cases gs) auto
  next
    case (Some u)
    have "\<not> sequence_ok gs"
      using sequence_fragments [of gs "hd gs"] Cons.prems(2) p by (cases gs) (auto simp: sequence_ok_def)
    then show ?thesis using Some Cons.prems(1) p by (auto simp: makes_def)
  qed
  moreover have "List.map_filter snd ps = concat (map fst ps)" using Cons p by simp
  ultimately show ?case using p by (cases c) (simp_all add: map_filter_simps)
qed (simp add: map_filter_simps)

lemma push_done: "Push r (Some f) = (r', Inr (Some c)) \<Longrightarrow> holds r' []"
  by (auto simp: Push_def split: if_splits prod.splits option.splits)

text \<open>One accepted datagram: the segments it ends, the datagram they make, and the fragments held afterwards.\<close>

lemma push_segments:
  assumes h: "holds r fs" and ps: "Push r (Some f) = (r', res)"
  shows "\<exists>qs fs'. fs @ [f] = concat (map fst qs) @ fs' \<and> holds r' fs' \<and> segments_ok qs \<and>
    List.map_filter snd qs = (case res of Inr (Some c) \<Rightarrow> if EncodeChannelFrame (Some c) = [] then [] else [c] | _ \<Rightarrow> [])"
proof -
  note held = held_fragments [OF h]
  show ?thesis
  proof (cases "\<exists>c. res = Inr (Some c)")
    case True
    then obtain c where c: "res = Inr (Some c)" by blast
    let ?o = "if EncodeChannelFrame (Some c) = [] then None else Some c"
    have r': "holds r' []" using push_done ps c by blast
    have "\<exists>gs. (gs = [] \<or> gs = fs) \<and> makes (gs @ [f]) c \<and> (ur_Frag f = 0 \<longrightarrow> c = f)"
    proof (cases "ur_Frag f = 0")
      case True
      then have "c = f" using ps c by (simp add: Push_def)
      with True show ?thesis by (intro exI [of _ "[]"]) (simp add: makes_def)
    next
      case False
      from Push_step(2) [OF h ps c False] show ?thesis using False by (auto simp: makes_def)
    qed
    then obtain gs where gs: "gs = [] \<or> gs = fs" "makes (gs @ [f]) c" "ur_Frag f = 0 \<longrightarrow> c = f" by blast
    define qs where "qs = (if gs = [] then [(fs, None), ([f], ?o)] else [(fs @ [f], ?o)])"
    have "fs @ [f] = concat (map fst qs) @ []" "segments_ok qs" "List.map_filter snd qs = (if EncodeChannelFrame (Some c) = [] then [] else [c])"
      using gs held by (auto simp: qs_def map_filter_simps)
    with r' c show ?thesis by fastforce
  next
    case False
    then have f: "ur_Frag f \<noteq> 0" using ps by (auto simp: Push_def split: if_splits)
    from Push_step(1) [OF h ps] obtain fs' where fs': "holds r' fs'" "fs' = [] \<or> fs' = [f] \<or> fs' = fs @ [f]" by blast
    define qs :: "(UDPRequest list \<times> UDPRequest option) list" where
      "qs = (if fs' = fs @ [f] then [] else if fs' = [f] then [(fs, None)] else [(fs @ [f], None)])"
    have "fs @ [f] = concat (map fst qs) @ fs'" "segments_ok qs" "List.map_filter snd qs = []"
      using fs'(2) f held by (auto simp: qs_def map_filter_simps)
    with fs'(1) False show ?thesis by (fastforce split: sum.split option.split)
  qed
qed

lemma udp_event_segments:
  assumes h: "holds (as_reasm a) fs" and e: "udp_event_do a ev = (a1, ws)"
  shows "\<exists>qs fs'. fs @ source_datagrams (as_source a) [ev] = concat (map fst qs) @ fs' \<and> holds (as_reasm a1) fs' \<and> segments_ok qs \<and>
    List.map_filter snd qs = map fst ws \<and> source_datagrams (as_source a) (ev # es) = source_datagrams (as_source a) [ev] @ source_datagrams (as_source a1) es"
proof (cases ev)
  case (UExpire g)
  have "holds (as_reasm a1) fs \<or> holds (as_reasm a1) []"
    using h e UExpire by (cases "rs_generation (as_reasm a) = g") (auto simp: timer_expired_def holds_def clearStateLocked_def)
  then show ?thesis
  proof
    assume "holds (as_reasm a1) fs"
    then show ?thesis using e UExpire by (intro exI [of _ "[]"] exI [of _ fs]) (auto simp: map_filter_simps)
  next
    assume "holds (as_reasm a1) []"
    then show ?thesis
      using e UExpire held_fragments [OF h] by (intro exI [of _ "[(fs, None)]"] exI [of _ "[]"]) (auto simp: map_filter_simps)
  qed
next
  case (UDatagram d)
  show ?thesis
  proof (cases "\<exists>u s. ParseUDPRequest (rd_buf d) = Inr u \<and> rd_from d = Some s \<and> (as_source a = None \<or> udpAddrEqual (as_source a) (Some s))")
    case False
    then have "as_source a1 = as_source a" "as_reasm a1 = as_reasm a" "ws = []" "source_datagrams (as_source a) [ev] = []"
      "source_datagrams (as_source a) (ev # es) = source_datagrams (as_source a) es"
      using e UDatagram by (auto simp: udp_up_def accept_source_def split: sum.splits option.splits if_splits)
    then show ?thesis using h by (intro exI [of _ "[]"] exI [of _ fs]) (simp add: map_filter_simps)
  next
    case True
    then obtain u s where u: "ParseUDPRequest (rd_buf d) = Inr u" "rd_from d = Some s" "as_source a = None \<or> udpAddrEqual (as_source a) (Some s)"
      by blast
    obtain r res where ps: "Push (as_reasm a) (Some u) = (r, res)" by fastforce
    have eq: "as_reasm a1 = r" "as_source a1 = (if as_source a = None then Some s else as_source a)"
      "map fst ws = (case res of Inr (Some c) \<Rightarrow> if EncodeChannelFrame (Some c) = [] then [] else [c] | _ \<Rightarrow> [])"
      using e UDatagram u ps
      by (auto simp: udp_up_def accept_source_def cloneUDPAddr_def Let_def split: sum.splits option.splits if_splits)
    have "source_datagrams (as_source a) [ev] = [u]" "source_datagrams (as_source a) (ev # es) = [u] @ source_datagrams (as_source a1) es"
      using u UDatagram eq(2) by auto
    with push_segments [OF h ps] eq show ?thesis by simp
  qed
qed

lemma udp_run_segments:
  assumes "holds (as_reasm a) fs" and "udp_run a es = (a', ws)"
  shows "\<exists>ps fs'. fs @ source_datagrams (as_source a) es = concat (map fst ps) @ fs' \<and> holds (as_reasm a') fs' \<and> segments_ok ps \<and>
    List.map_filter snd ps = map fst ws"
  using assms
proof (induction es arbitrary: a fs ws)
  case Nil
  then show ?case by (intro exI [of _ "[]"] exI [of _ fs]) (simp add: map_filter_simps)
next
  case (Cons e es)
  obtain a1 ws1 where e: "udp_event_do a e = (a1, ws1)" by fastforce
  obtain ws2 where r: "udp_run a1 es = (a', ws2)" "ws = ws1 @ ws2" using Cons.prems(2) e by (auto split: prod.splits)
  from udp_event_segments [OF Cons.prems(1) e, of es] obtain qs f1 where q: "fs @ source_datagrams (as_source a) [e] = concat (map fst qs) @ f1"
      "holds (as_reasm a1) f1" "segments_ok qs" "List.map_filter snd qs = map fst ws1"
      "source_datagrams (as_source a) (e # es) = source_datagrams (as_source a) [e] @ source_datagrams (as_source a1) es" by blast
  from Cons.IH [OF q(2) r(1)] obtain ps f2 where p: "f1 @ source_datagrams (as_source a1) es = concat (map fst ps) @ f2"
      "holds (as_reasm a') f2" "segments_ok ps" "List.map_filter snd ps = map fst ws2" by blast
  have "fs @ source_datagrams (as_source a) (e # es) = concat (map fst (qs @ ps)) @ f2" using q(1,5) p(1) by (metis append_assoc concat_append map_append)
  moreover have "segments_ok (qs @ ps)" using q(3) p(3) by (auto simp: segments_ok_def)
  moreover have "List.map_filter snd (qs @ ps) = map fst ws" using q(4) p(4) r(2) by (simp add: List.map_filter_def)
  ultimately show ?case using p(2) by blast
qed

text \<open>
  C14. The datagrams of a UDP association survive the way to the server.  Whatever arrives on the local socket, from
  whomever, whole or in fragments, with reassembly expiries in between: the well-formed datagrams of its source, in the
  order of their arrival, fall into consecutive segments, each of which is a whole datagram, or all fragments of one in
  their order, or is dropped (a rest of fragments may still be held), and a whole datagram is dropped only if it fits no
  frame; and the server reads from the channel exactly the datagrams of these segments in order and the bytes after them,
  a reassembled one with the data of its fragments put together.
\<close>

theorem udp_relay_end_to_end:
  assumes "udp_run (new_assoc t0) es = (a, ws)"
  shows "\<exists>ps held. source_datagrams None es = concat (map fst ps) @ held \<and> (\<forall>u \<in> set held. ur_Frag u \<noteq> 0) \<and>
    (\<forall>(gs, c) \<in> set ps. case c of Some u \<Rightarrow> makes gs u
       | None \<Rightarrow> \<forall>u \<in> set gs. ur_Frag u = 0 \<longrightarrow> EncodeChannelFrame (Some u) = []) \<and>
    read_frames (length ws) (concat (map snd ws) @ rest) = (map Inr (List.map_filter snd ps), rest)"
proof -
  have h: "holds (as_reasm (new_assoc t0)) []"
    by (simp add: new_assoc_def NewUDPFragmentReassembler_def newUDPFragmentReassembler_def holds_def)
  then have "assoc_ok (new_assoc t0)" by (auto simp: assoc_ok_def intro: exI [of _ "[]"])
  from udp_run_ok [OF this assms] have ws: "\<forall>w \<in> set ws. sent_ok w" by blast
  have rd: "read_frames (length ws) (concat (map snd ws) @ rest) = (map (Inr \<circ> fst) ws, rest)"
    using ws
  proof (induction ws)
    case (Cons w ws)
    then have w: "snd w = EncodeChannelFrame (Some (fst w))" "EncodeChannelFrame (Some (fst w)) \<noteq> []" "ur_Frag (fst w) = 0"
      "addr_ok (ur_AddrType (fst w)) (ur_DstAddr (fst w))" by (auto simp: sent_ok_def)
    then have "EncodeChannelPacket (Some (fst w)) \<noteq> []" by (auto simp: EncodeChannelFrame_def)
    then have "udp_target_ok (ur_AddrType (fst w)) (ur_DstAddr (fst w))" using packet_refused [OF w(4)] by blast
    moreover have "fst w\<lparr>ur_Frag := 0\<rparr> = fst w" using w(3) by (cases "fst w") simp
    ultimately show ?case
      using Cons frame_roundtrip [OF w(2), of "concat (map snd ws) @ rest"] w by simp
  qed simp
  from udp_run_segments [OF h assms] obtain ps held where p: "source_datagrams None es = concat (map fst ps) @ held"
      "holds (as_reasm a) held" "segments_ok ps" "List.map_filter snd ps = map fst ws"
    by (auto simp: new_assoc_def)
  have "read_frames (length ws) (concat (map snd ws) @ rest) = (map Inr (List.map_filter snd ps), rest)"
    unfolding rd p(4) by simp
  then show ?thesis using p(1,3) held_fragments [OF p(2)] unfolding segments_ok_def by blast
qed

definition demo_addr :: UDPAddr where
  "demo_addr = \<lparr>ua_IP = [127, 0, 0, 1], ua_Port = 5000, ua_Zone = []\<rparr>"

definition demo_raw :: udp_event where
  "demo_raw = UDatagram \<lparr>rd_buf = [0, 0, 0, 3, 1, 97, 0, 53, 1, 2], rd_from = Some demo_addr, rd_at = 5\<rparr>"

lemma demo_parsed: "ParseUDPRequest [0, 0, 0, 3, 1, 97, 0, 53, 1, 2] = Inr demo_datagram"
  by (simp add: ParseUDPRequest_def decode_address_def socks_defs demo_datagram_def get16_def be_word_def
      string_of_bytes_def char_of_byte_def char_of_def bit_0)

lemma demo_udp_run:
  "udp_run (new_assoc 0) [demo_raw] =
     (\<lparr>as_source = Some demo_addr, as_reasm = clearLocked NewUDPFragmentReassembler, as_lastActivity = 5\<rparr>,
      [(demo_datagram, EncodeChannelFrame (Some demo_datagram))])"
proof -
  have "EncodeChannelFrame (Some demo_datagram) \<noteq> []" "ur_Frag demo_datagram = 0"
    by (simp_all add: EncodeChannelFrame_def EncodeChannelPacket_def demo_datagram_def socks_defs)
  then show ?thesis
    by (simp add: demo_raw_def new_assoc_def udp_up_def demo_parsed accept_source_def cloneUDPAddr_def Push_def Let_def)
qed

theorem udp_relay_end_to_end_witness:
  "\<exists>a ws. udp_run (new_assoc 0) [demo_raw] = (a, ws) \<and> source_datagrams None [demo_raw] = [demo_datagram] \<and>
    read_frames (length ws) (concat (map snd ws) @ [9]) = ([Inr demo_datagram], [9])"
proof -
  let ?ws = "[(demo_datagram, EncodeChannelFrame (Some demo_datagram))]"
  have acc: "source_datagrams None [demo_raw] = [demo_datagram]" by (simp add: demo_raw_def demo_parsed)
  have fits: "EncodeChannelFrame (Some demo_datagram) \<noteq> []" "ur_Frag demo_datagram = 0"
    by (simp_all add: EncodeChannelFrame_def EncodeChannelPacket_def demo_datagram_def socks_defs)
  from udp_relay_end_to_end [OF demo_udp_run, of "[9]"] obtain ps held where p:
      "[demo_datagram] = concat (map fst ps) @ held" "\<forall>u \<in> set held. ur_Frag u \<noteq> 0"
      "\<forall>(gs, c) \<in> set ps. case c of Some u \<Rightarrow> makes gs u | None \<Rightarrow> \<forall>u \<in> set gs. ur_Frag u = 0 \<longrightarrow> EncodeChannelFrame (Some u) = []"
      "read_frames (length ?ws) (concat (map snd ?ws) @ [9]) = (map Inr (List.map_filter snd ps), [9])"
    unfolding acc by blast
  have "held = []" using p(1,2) fits(2) by (cases held) (auto simp: Cons_eq_append_conv)
  then have "List.map_filter snd ps = [demo_datagram]"
    using whole_segments [OF p(3) [folded segments_ok_def]] p(1) fits by (metis append_Nil2 empty_iff empty_set set_ConsD)
  with p(4) acc demo_udp_run show ?thesis by auto
qed

lemma other_source_ignored:
  "as_source a = Some s \<Longrightarrow> \<not> udpAddrEqual (Some s) addr \<Longrightarrow> udp_up a buf addr now = (a, None)"
  by (auto simp: udp_up_def accept_source_def split: sum.splits)

lemma source_kept:
  "udp_up a buf addr now = (a', w) \<Longrightarrow> as_source a = Some s \<Longrightarrow> as_source a' = Some s"
  by (auto simp: udp_up_def accept_source_def Let_def split: sum.splits option.splits prod.splits bool.splits if_splits)

lemma source_kept_event:
  assumes "udp_event_do a e = (a', ws)" and "as_source a = Some s"
  shows "as_source a' = Some s"
proof (cases e)
  case (UDatagram d)
  obtain a1 w where u: "udp_up a (rd_buf d) (rd_from d) (rd_at d) = (a1, w)" by fastforce
  from source_kept [OF this assms(2)] u UDatagram assms(1) show ?thesis by (cases w) auto
qed (use assms in auto)

fun from_source :: "UDPAddr \<Rightarrow> udp_event \<Rightarrow> bool" where
  "from_source s (UDatagram d) = udpAddrEqual (Some s) (rd_from d)"
| "from_source s (UExpire g) = True"

text \<open>
  C15. An association is pinned to its first sender: the first sender of a well-formed datagram becomes
  its source and stays it; from then on datagrams of other senders have no effect at all, neither on
  the state nor on what is sent, and every response of the server goes to that source.
\<close>

theorem udp_source_pinned:
  assumes "as_source a = Some s" and "udp_run a es = (a', ws)"
  shows "as_source a' = Some s \<and> udp_run a (filter (from_source s) es) = (a', ws) \<and>
    (\<forall>resp now. snd (udp_down a' resp now) = Some (UDPRequest_Encode resp, s)) \<and>
    (\<forall>b buf v addr now. as_source b = None \<and> ParseUDPRequest buf = Inr v \<longrightarrow>
      as_source (fst (udp_up b buf (Some addr) now)) = Some addr)"
proof -
  have "as_source a' = Some s \<and> udp_run a (filter (from_source s) es) = (a', ws)"
    using assms
  proof (induction es arbitrary: a ws)
    case (Cons e es)
    obtain a1 ws1 where e: "udp_event_do a e = (a1, ws1)" by fastforce
    obtain ws2 where r: "udp_run a1 es = (a', ws2)" "ws = ws1 @ ws2"
      using Cons.prems(2) e by (auto split: prod.splits)
    note IH = Cons.IH [OF source_kept_event [OF e Cons.prems(1)] r(1)]
    show ?case
    proof (cases "from_source s e")
      case True
      then show ?thesis using IH e r(2) by simp
    next
      case False
      then obtain d where "e = UDatagram d" "\<not> udpAddrEqual (Some s) (rd_from d)" by (cases e) auto
      with other_source_ignored [OF Cons.prems(1)] e have "a1 = a" "ws1 = []" by auto
      with IH r(2) False show ?thesis by simp
    qed
  qed simp
  then show ?thesis
    by (auto simp: udp_down_def cloneUDPAddr_def udp_up_def accept_source_def Let_def
        split: sum.splits option.splits prod.splits if_splits)
qed

theorem udp_source_pinned_witness:
  "as_source (fst (udp_run (fst (udp_run (new_assoc 0) [demo_raw])) [UDatagram \<lparr>rd_buf = [1], rd_from = None, rd_at = 6\<rparr>])) =
    Some demo_addr"
proof -
  let ?a = "fst (udp_run (new_assoc 0) [demo_raw])"
  obtain a' ws where r: "udp_run ?a [UDatagram \<lparr>rd_buf = [1], rd_from = None, rd_at = 6\<rparr>] = (a', ws)" by fastforce
  have "as_source ?a = Some demo_addr" by (simp only: demo_udp_run fst_conv udp_assoc.simps)
  from udp_source_pinned [OF this r] have "as_source a' = Some demo_addr" by blast
  then show ?thesis by (simp only: r fst_conv)
qed

end
