(* ===== verification/GoStrings.thy ===== *)
theory GoStrings
  imports IpText "HOL-Library.List_Lexorder" "HOL-Library.Char_ord" "HOL-Library.Sublist"
begin

text \<open>
  The parts of Go's \<^verbatim>\<open>strings\<close>, \<^verbatim>\<open>strconv\<close>, \<^verbatim>\<open>sort\<close> and \<^verbatim>\<open>net/netip\<close> packages that the
  server's rules use.  Strings are byte strings; lower-casing and white space are the ASCII ones
  (the rules and targets are host names, addresses and keywords).  On bytes from \<^verbatim>\<open>0x80\<close> on Go
  lower-cases letters of other scripts, replaces invalid UTF-8 and trims further spaces;
  \<open>ToLower\<close>, \<open>EqualFold\<close> and \<open>TrimSpace\<close> model ASCII texts only.  Go compares strings by bytes,
  which is the lexicographic order on lists of characters.
\<close>

section \<open>Strings\<close>

definition is_space :: "char \<Rightarrow> bool" where
  "is_space c \<longleftrightarrow> (let n = of_char c :: nat in n = 32 \<or> 9 \<le> n \<and> n \<le> 13)"

definition TrimSpace :: "string \<Rightarrow> string" where
  "TrimSpace s = rev (dropWhile is_space (rev (dropWhile is_space s)))"

definition lower :: "char \<Rightarrow> char" where
  "lower c = (let n = of_char c :: nat in if 65 \<le> n \<and> n \<le> 90 then char_of (n + 32) else c)"

definition ToLower :: "string \<Rightarrow> string" where
  "ToLower s = map lower s"

definition EqualFold :: "string \<Rightarrow> string \<Rightarrow> bool" where
  "EqualFold s t \<longleftrightarrow> ToLower s = ToLower t"

definition HasPrefix :: "string \<Rightarrow> string \<Rightarrow> bool" where
  "HasPrefix s p \<longleftrightarrow> take (length p) s = p"

definition TrimPrefix :: "string \<Rightarrow> string \<Rightarrow> string" where
  "TrimPrefix s p = (if HasPrefix s p then drop (length p) s else s)"

definition HasSuffix :: "string \<Rightarrow> string \<Rightarrow> bool" where
  "HasSuffix s p \<longleftrightarrow> HasPrefix (rev s) (rev p)"

definition TrimSuffix :: "string \<Rightarrow> string \<Rightarrow> string" where
  "TrimSuffix s p = (if HasSuffix s p then take (length s - length p) s else s)"

text \<open>\<^verbatim>\<open>strings.LastIndex\<close> of a one-byte string, and \<^verbatim>\<open>strings.Split\<close> at one byte.\<close>

fun LastIndex :: "string \<Rightarrow> char \<Rightarrow> nat option" where
  "LastIndex [] c = None"
| "LastIndex (x # s) c =
     (case LastIndex s c of
        Some i \<Rightarrow> Some (Suc i)
      | None \<Rightarrow> if x = c then Some 0 else None)"

fun Split :: "string \<Rightarrow> char \<Rightarrow> string list" where
  "Split [] c = [[]]"
| "Split (x # s) c =
     (if x = c then [] # Split s c
      else (case Split s c of [] \<Rightarrow> [[x]] | p # ps \<Rightarrow> (x # p) # ps))"

text \<open>\<^verbatim>\<open>strconv.Atoi\<close>: an optional sign and at least one digit.\<close>

fun digits :: "string \<Rightarrow> int \<Rightarrow> int option" where
  "digits [] n = Some n"
| "digits (c # s) n = (case dec_digit c of None \<Rightarrow> None | Some d \<Rightarrow> digits s (n * 10 + int d))"

definition Atoi :: "string \<Rightarrow> int option" where
  "Atoi s =
     (case s of
        [] \<Rightarrow> None
      | c # t \<Rightarrow>
          if c = CHR ''-'' then (if t = [] then None else map_option uminus (digits t 0))
          else if c = CHR ''+'' then (if t = [] then None else digits t 0)
          else digits s 0)"

lemma HasPrefix_iff: "HasPrefix s p \<longleftrightarrow> prefix p s"
  unfolding HasPrefix_def by (metis append_eq_conv_conj prefix_def)

lemma LastIndex_bound: "LastIndex s c = Some i \<Longrightarrow> i < length s \<and> s ! i = c \<and> c \<notin> set (drop (Suc i) s)"
proof (induction s c arbitrary: i rule: LastIndex.induct)
  case (2 x s c)
  then show ?case
  proof (cases "LastIndex s c")
    case None
    have "c \<notin> set s"
      using None by (induction s c rule: LastIndex.induct) (auto split: option.splits if_splits)
    with None "2.prems" show ?thesis by (auto split: if_splits)
  qed auto
qed simp

section \<open>Order of strings\<close>

lemma prefix_le: "prefix p (s :: string) \<Longrightarrow> p \<le> s"
proof (induction p arbitrary: s)
  case (Cons a p)
  then show ?case by (cases s) auto
qed simp

text \<open>Between a prefix of a string and the string, every string has that prefix.\<close>

lemma prefix_between:
  assumes "prefix p t" and "p \<le> q" and "q \<le> (t :: string)"
  shows "prefix p q"
  using assms
proof (induction p arbitrary: q t)
  case (Cons x p)
  then obtain t' where t: "t = x # t'" "prefix p t'" by (cases t) auto
  from Cons.prems(2) obtain y q' where q: "q = y # q'" by (cases q) auto
  have "x = y" "p \<le> q'" "q' \<le> t'" using Cons.prems(2,3) by (auto simp: t q)
  with Cons.IH [OF t(2)] show ?case by (simp add: q)
qed simp

section \<open>Addresses of net/netip\<close>

text \<open>An IPv4 address has four bytes, an IPv6 address sixteen and a zone, which may be empty.\<close>

datatype naddr = A4 bytes | A6 bytes string

definition ParseAddr :: "string \<Rightarrow> naddr option" where
  "ParseAddr s =
     (case find (\<lambda>c. c = CHR ''.'' \<or> c = CHR '':'' \<or> c = CHR ''%'') s of
        None \<Rightarrow> None
      | Some c \<Rightarrow>
          if c = CHR ''.'' then map_option A4 (parseIPv4Fields s True 0 0 [])
          else if c = CHR '':''
          then
            (let body = takeWhile (\<lambda>x. x \<noteq> CHR ''%'') s; rest = drop (length body) s
             in if rest = [] then map_option (\<lambda>ip. A6 ip []) (parseIPv6 body)
                else if tl rest = [] then None
                else map_option (\<lambda>ip. A6 ip (tl rest)) (parseIPv6 body))
          else None)"

definition Is4 :: "naddr \<Rightarrow> bool" where
  "Is4 a = (case a of A4 _ \<Rightarrow> True | A6 _ _ \<Rightarrow> False)"

definition Is6 :: "naddr \<Rightarrow> bool" where
  "Is6 a = (case a of A4 _ \<Rightarrow> False | A6 _ _ \<Rightarrow> True)"

definition Unmap :: "naddr \<Rightarrow> naddr" where
  "Unmap a = (case a of A4 ip \<Rightarrow> A4 ip | A6 ip z \<Rightarrow> if take 12 ip = v4_in_v6 then A4 (drop 12 ip) else A6 ip z)"

definition As16 :: "naddr \<Rightarrow> bytes" where
  "As16 a = (case a of A4 ip \<Rightarrow> v4_in_v6 @ ip | A6 ip z \<Rightarrow> ip)"

definition dotted :: "bytes \<Rightarrow> string" where
  "dotted ip = join_text (CHR ''.'') (map dec_text ip)"

definition Addr_String :: "naddr \<Rightarrow> string" where
  "Addr_String a =
     (case a of
        A4 ip \<Rightarrow> dotted ip
      | A6 ip z \<Rightarrow>
          (if take 12 ip = v4_in_v6 then ''::ffff:'' @ dotted (drop 12 ip) else text6 ip) @
          (if z = [] then [] else ''%'' @ z))"

definition AddrFromSlice :: "bytes \<Rightarrow> naddr option" where
  "AddrFromSlice ip = (if length ip = 4 then Some (A4 ip) else if length ip = 16 then Some (A6 ip []) else None)"

text \<open>A prefix: an address and a number of bits, at most the width of the address.\<close>

datatype nprefix = Prefix (Prefix_Addr: naddr) (Prefix_Bits: nat)

definition ParsePrefix :: "string \<Rightarrow> nprefix option" where
  "ParsePrefix s =
     (case LastIndex s (CHR ''/'') of
        None \<Rightarrow> None
      | Some i \<Rightarrow>
          (case ParseAddr (take i s) of
             None \<Rightarrow> None
           | Some ip \<Rightarrow>
               (let zoned = (case ip of A6 _ z \<Rightarrow> z \<noteq> [] | A4 _ \<Rightarrow> False);
                    bitsStr = drop (Suc i) s;
                    maxBits = (if Is6 ip then 128 else 32)
                in if zoned then None
                   else if 1 < length bitsStr \<and> \<not> (CHR ''1'' \<le> hd bitsStr \<and> hd bitsStr \<le> CHR ''9'') then None
                   else
                     (case Atoi bitsStr of
                        None \<Rightarrow> None
                      | Some bits \<Rightarrow> if bits < 0 \<or> maxBits < bits then None else Some (Prefix ip (nat bits))))))"

text \<open>
  The loops \<^verbatim>\<open>for bit := bits; bit < n; bit++\<close> that clear and set single bits of a byte array,
  the most significant bit of the first byte being bit 0.
\<close>

definition clear_bits :: "nat \<Rightarrow> nat \<Rightarrow> bytes \<Rightarrow> bytes" where
  "clear_bits bits n ip =
     foldl (\<lambda>out bit. out[bit div 8 := out ! (bit div 8) AND NOT (push_bit (7 - bit mod 8) 1)]) ip [bits..<n]"

definition set_bits_from :: "nat \<Rightarrow> nat \<Rightarrow> bytes \<Rightarrow> bytes" where
  "set_bits_from bits n ip =
     foldl (\<lambda>out bit. out[bit div 8 := out ! (bit div 8) OR push_bit (7 - bit mod 8) 1]) ip [bits..<n]"

definition Masked :: "nprefix \<Rightarrow> nprefix" where
  "Masked p =
     (case Prefix_Addr p of
        A4 ip \<Rightarrow> Prefix (A4 (clear_bits (Prefix_Bits p) (8 * length ip) ip)) (Prefix_Bits p)
      | A6 ip z \<Rightarrow> Prefix (A6 (clear_bits (Prefix_Bits p) (8 * length ip) ip) []) (Prefix_Bits p))"

end
