(* ===== verification/Intervals.thy ===== *)
theory Intervals
  imports Prelude "HOL-Library.Product_Lexorder"
begin

text \<open>
  Merged interval lists, the structure behind the address and port rules of the server.  A client
  sorts closed intervals by their start, merges neighbours that overlap or touch, and looks a value
  up by binary search on the ends.  The locale states what the three implementations (32-bit
  addresses, 128-bit addresses, ports) share; its lemmas show that merging keeps what is covered and
  that the search decides it.
\<close>

locale interval_list =
  fixes lo hi :: "'i \<Rightarrow> 'a::linorder"
    and widen :: "'i \<Rightarrow> 'a \<Rightarrow> 'i"
    and touches :: "'i \<Rightarrow> 'i \<Rightarrow> bool"
    and merge_into :: "'i \<Rightarrow> 'i list \<Rightarrow> 'i list"
  assumes lo_widen: "lo (widen i x) = lo i"
    and hi_widen: "hi (widen i x) = x"
    and touches_near: "touches l i \<Longrightarrow> lo i \<le> hi l \<or> (\<forall>x. hi l < x \<longrightarrow> lo i \<le> x)"
    and apart: "\<not> touches l i \<Longrightarrow> hi l < lo i"
    and merge_Nil: "merge_into l [] = [l]"
    and merge_Cons: "merge_into l (i # is) =
      (if touches l i then merge_into (if hi l < hi i then widen l (hi i) else l) is else l # merge_into i is)"
begin

definition covers :: "'i list \<Rightarrow> 'a \<Rightarrow> bool" where
  "covers xs x \<longleftrightarrow> (\<exists>i \<in> set xs. lo i \<le> x \<and> x \<le> hi i)"

definition separated :: "'i list \<Rightarrow> bool" where
  "separated xs \<longleftrightarrow> sorted_wrt (\<lambda>a b. hi a < lo b) xs \<and> (\<forall>i \<in> set xs. lo i \<le> hi i)"

lemma covers_Cons: "covers (i # xs) x \<longleftrightarrow> lo i \<le> x \<and> x \<le> hi i \<or> covers xs x"
  by (auto simp: covers_def)

lemma joined:
  assumes "lo l \<le> hi l" and "lo i \<le> hi i" and "lo l \<le> lo i" and "touches l i"
  shows "lo l \<le> x \<and> x \<le> max (hi l) (hi i) \<longleftrightarrow> lo l \<le> x \<and> x \<le> hi l \<or> lo i \<le> x \<and> x \<le> hi i"
  using touches_near [OF assms(4)] assms(1-3) by (cases "x \<le> hi l") (auto simp: le_max_iff_disj not_le)

lemma merge_into_ok:
  assumes "\<forall>i \<in> set (l # is). lo i \<le> hi i" and "sorted (map lo (l # is))"
  shows "separated (merge_into l is)" and "covers (merge_into l is) x \<longleftrightarrow> covers (l # is) x"
    and "\<forall>i \<in> set (merge_into l is). lo l \<le> lo i"
proof -
  have "separated (merge_into l is) \<and> (\<forall>x. covers (merge_into l is) x \<longleftrightarrow> covers (l # is) x) \<and>
      (\<forall>i \<in> set (merge_into l is). lo l \<le> lo i)"
    using assms
  proof (induction "is" arbitrary: l)
    case Nil
    then show ?case by (simp add: merge_Nil separated_def)
  next
    case (Cons i "is")
    show ?case
    proof (cases "touches l i")
      case True
      let ?m = "if hi l < hi i then widen l (hi i) else l"
      have m: "lo ?m = lo l" "hi ?m = max (hi l) (hi i)" by (auto simp: lo_widen hi_widen max_def)
      have "lo l \<le> lo i" "lo l \<le> hi l" "lo i \<le> hi i" using Cons.prems by auto
      note j = joined [OF this(2,3,1) True]
      have "lo ?m \<le> hi ?m" using \<open>lo l \<le> hi l\<close> by (simp only: m le_max_iff_disj simp_thms)
      then have "(\<forall>k \<in> set (?m # is). lo k \<le> hi k) \<and> sorted (map lo (?m # is))"
        using Cons.prems m(1) by (auto simp: lo_widen)
      then have IH: "separated (merge_into ?m is)" "\<And>x. covers (merge_into ?m is) x \<longleftrightarrow> covers (?m # is) x"
        "\<forall>k \<in> set (merge_into ?m is). lo ?m \<le> lo k"
        using Cons.IH [of ?m] by blast+
      have "covers (?m # is) x \<longleftrightarrow> covers (l # i # is) x" for x
        unfolding covers_Cons m using j by blast
      then have c: "\<forall>x. covers (merge_into ?m is) x \<longleftrightarrow> covers (l # i # is) x" using IH(2) by blast
      have "\<forall>k \<in> set (merge_into ?m is). lo l \<le> lo k" using IH(3) unfolding m(1) .
      moreover have "merge_into l (i # is) = merge_into ?m is" using True by (subst merge_Cons) (rule if_P)
      ultimately show ?thesis using IH(1) c by presburger
    next
      case False
      have "(\<forall>k \<in> set (i # is). lo k \<le> hi k) \<and> sorted (map lo (i # is))" using Cons.prems by auto
      then have IH: "separated (merge_into i is)" "\<And>x. covers (merge_into i is) x \<longleftrightarrow> covers (i # is) x"
        "\<forall>k \<in> set (merge_into i is). lo i \<le> lo k"
        using Cons.IH [of i] by blast+
      have "hi l < lo k" if "k \<in> set (merge_into i is)" for k
        using apart [OF False] IH(3) that by fastforce
      moreover have "lo l \<le> lo i" "lo l \<le> hi l" using Cons.prems by auto
      ultimately show ?thesis
        using IH False by (auto simp: merge_Cons separated_def covers_Cons)
    qed
  qed
  then show "separated (merge_into l is)" and "covers (merge_into l is) x \<longleftrightarrow> covers (l # is) x"
    and "\<forall>i \<in> set (merge_into l is). lo l \<le> lo i" by auto
qed

text \<open>The binary search on the ends finds the only interval that can contain the value.\<close>

lemma separated_nth:
  assumes "separated xs" and "a < b" and "b < length xs"
  shows "hi (xs ! a) < hi (xs ! b)" and "hi (xs ! a) < lo (xs ! b)"
proof -
  have "hi (xs ! a) < lo (xs ! b)" "lo (xs ! b) \<le> hi (xs ! b)"
    using assms by (auto simp: separated_def sorted_wrt_iff_nth_less)
  then show "hi (xs ! a) < hi (xs ! b)" and "hi (xs ! a) < lo (xs ! b)" by auto
qed

lemma search_covers:
  assumes "separated xs" and "idx = sort_Search (length xs) (\<lambda>i. x \<le> hi (xs ! i))"
  shows "idx < length xs \<and> lo (xs ! idx) \<le> x \<longleftrightarrow> covers xs x"
proof -
  have mono: "x \<le> hi (xs ! b)" if "a \<le> b" "b < length xs" "x \<le> hi (xs ! a)" for a b
    using separated_nth(1) [OF assms(1), of a b] that by (cases "a = b") auto
  have s: "\<And>a. a < idx \<Longrightarrow> \<not> x \<le> hi (xs ! a)" "idx < length xs \<Longrightarrow> x \<le> hi (xs ! idx)"
    unfolding assms(2) using sort_Search_spec(2,3) [of "length xs" "\<lambda>i. x \<le> hi (xs ! i)"] mono by blast+
  show ?thesis
  proof
    assume "idx < length xs \<and> lo (xs ! idx) \<le> x"
    moreover from this have "x \<le> hi (xs ! idx)" using s(2) by blast
    ultimately show "covers xs x" unfolding covers_def by (intro bexI [of _ "xs ! idx"]) auto
  next
    assume "covers xs x"
    then obtain k where k: "k < length xs" "lo (xs ! k) \<le> x" "x \<le> hi (xs ! k)"
      by (auto simp: covers_def in_set_conv_nth)
    have "idx \<le> k" using s(1) [of k] k(3) by (meson not_le)
    moreover have "\<not> idx < k"
    proof
      assume "idx < k"
      then have "idx < length xs" using k by simp
      then have "x \<le> hi (xs ! idx)" using s(2) by blast
      with separated_nth(2) [OF assms(1) \<open>idx < k\<close> k(1)] k(2) show False by order
    qed
    ultimately show "idx < length xs \<and> lo (xs ! idx) \<le> x" using k by auto
  qed
qed

text \<open>Sorting by start and end, merging and searching decides whether some interval covers the value.\<close>

lemma sort_merge_search:
  assumes "\<forall>i \<in> set xs. lo i \<le> hi i"
    and "ys = (case sort_key (\<lambda>i. (lo i, hi i)) xs of [] \<Rightarrow> [] | i # rest \<Rightarrow> merge_into i rest)"
    and "idx = sort_Search (length ys) (\<lambda>i. x \<le> hi (ys ! i))"
  shows "idx < length ys \<and> lo (ys ! idx) \<le> x \<longleftrightarrow> covers xs x"
proof -
  let ?s = "sort_key (\<lambda>i. (lo i, hi i)) xs"
  have "sorted_wrt (\<lambda>a b. (lo a, hi a) \<le> (lo b, hi b)) ?s"
    using sorted_sort_key [of "\<lambda>i. (lo i, hi i)" xs] by (simp add: sorted_map)
  then have "sorted_wrt (\<lambda>a b. lo a \<le> lo b) ?s"
    by (rule sorted_wrt_mono_rel [rotated]) (auto simp: less_eq_prod_def less_imp_le)
  then have s: "sorted (map lo ?s)" by (simp add: sorted_map)
  have v: "\<forall>i \<in> set ?s. lo i \<le> hi i" using assms(1) by simp
  have "separated ys \<and> (covers ys x \<longleftrightarrow> covers ?s x)"
  proof (cases ?s)
    case Nil
    then show ?thesis by (simp add: assms(2) separated_def)
  next
    case (Cons i rest)
    with v s show ?thesis using merge_into_ok(1,2) [of i rest] by (simp add: assms(2))
  qed
  moreover have "covers ?s x \<longleftrightarrow> covers xs x" by (simp add: covers_def)
  ultimately show ?thesis using search_covers [OF _ assms(3)] by blast
qed

end

text \<open>A prefix of a word as the interval of the words that share it.\<close>

lemma word_prefix_interval:
  fixes a w :: "'a::len word"
  assumes "k \<le> LENGTH('a)"
  shows "a AND NOT (mask k) \<le> w \<and> w \<le> a OR mask k \<longleftrightarrow> drop_bit k w = drop_bit k a"
proof -
  define q where "q = unat a div 2 ^ k"
  have low: "unat (a AND NOT (mask k)) = q * 2 ^ k"
  proof -
    have "a AND NOT (mask k) = push_bit k (drop_bit k a)"
      by (rule bit_word_eqI) (auto simp: bit_simps)
    moreover have "unat (push_bit k (drop_bit k a)) = q * 2 ^ k"
    proof -
      have "unat (drop_bit k a) = q" unfolding q_def unat_drop_bit_eq by (simp add: drop_bit_eq_div)
      moreover have "q * 2 ^ k \<le> unat a" by (simp add: q_def)
      then have "q * 2 ^ k < 2 ^ LENGTH('a)" using unsigned_less [of a, where ?'a = nat] by linarith
      ultimately show ?thesis
        unfolding unsigned_push_bit_eq by (simp add: push_bit_eq_mult take_bit_eq_mod del: push_bit_of_nat)
    qed
    ultimately show ?thesis by simp
  qed
  have high: "unat (a OR mask k) = q * 2 ^ k + (2 ^ k - 1)"
  proof -
    have "a OR mask k = (a AND NOT (mask k)) OR mask k" by (rule bit_word_eqI) (auto simp: bit_simps)
    also have "\<dots> = (a AND NOT (mask k)) + mask k"
      by (rule disjunctive_add [symmetric]) (auto simp: bit_simps)
    finally have "unat (a OR mask k) = unat ((a AND NOT (mask k)) + mask k)" by simp
    moreover have "unat (mask k :: 'a word) = 2 ^ k - 1"
    proof -
      have "(mask k :: 'a word) = word_of_nat (mask k)" by (rule bit_word_eqI) (simp add: bit_simps)
      then have "unat (mask k :: 'a word) = take_bit LENGTH('a) (mask k)" by (simp only: unsigned_of_nat of_nat_id)
      then show ?thesis using take_bit_of_mask [of "LENGTH('a)" k, where ?'a = nat] min_absorb2 [OF assms] mask_nat_def [of k] by metis
    qed
    moreover have "q * 2 ^ k + (2 ^ k - 1) < 2 ^ LENGTH('a)"
    proof -
      have "q < 2 ^ (LENGTH('a) - k)"
        unfolding q_def using unsigned_less [of a, where ?'a = nat] assms
        by (simp add: less_mult_imp_div_less power_add [symmetric])
      then have "Suc q * 2 ^ k \<le> 2 ^ (LENGTH('a) - k) * 2 ^ k" by (intro mult_right_mono) auto
      also have "\<dots> = 2 ^ LENGTH('a)" using assms by (simp add: power_add [symmetric])
      finally have "q * 2 ^ k + 2 ^ k \<le> 2 ^ LENGTH('a)" by simp
      moreover have "(0 :: nat) < 2 ^ k" by simp
      ultimately show ?thesis by linarith
    qed
    ultimately show ?thesis using low by (subst (asm) unat_add_lem [THEN iffD1]) simp_all
  qed
  have "a AND NOT (mask k) \<le> w \<and> w \<le> a OR mask k \<longleftrightarrow> q * 2 ^ k \<le> unat w \<and> unat w \<le> q * 2 ^ k + (2 ^ k - 1)"
    by (simp add: word_le_nat_alt low high)
  also have "\<dots> \<longleftrightarrow> unat w div 2 ^ k = q"
  proof -
    have pos: "(0 :: nat) < 2 ^ k" by simp
    have "unat w \<le> q * 2 ^ k + (2 ^ k - 1) \<longleftrightarrow> unat w < Suc q * 2 ^ k" using pos by (simp; linarith)
    then show ?thesis
      by (metis pos div_less_iff_less_mult less_eq_div_iff_mult_less_eq less_Suc_eq_le order_antisym order_refl)
  qed
  also have "\<dots> \<longleftrightarrow> drop_bit k w = drop_bit k a"
  proof
    assume "unat w div 2 ^ k = q"
    then have "unat (drop_bit k w) = unat (drop_bit k a)"
      unfolding q_def unat_drop_bit_eq by (simp add: drop_bit_eq_div)
    then show "drop_bit k w = drop_bit k a" by (rule unsigned_word_eqI)
  next
    assume "drop_bit k w = drop_bit k a"
    then have "unat (drop_bit k w) = unat (drop_bit k a)" by simp
    then show "unat w div 2 ^ k = q" unfolding q_def unat_drop_bit_eq by (simp add: drop_bit_eq_div)
  qed
  finally show ?thesis .
qed

end
