(* ===== verification/IpRules.thy ===== *)
theory IpRules
  imports GoStrings Intervals "HOL-Library.Product_Lexorder"
begin

text \<open>
  The address rules of \<^verbatim>\<open>cmd/server/reverse_route.go\<close>: sets of CIDR prefixes, each with or
  without a range of ports, for IPv4 (32-bit words) and IPv6 (pairs of 64-bit words).  Prefixes
  without ports become intervals that are sorted, merged and searched by bisection; prefixes with
  ports are kept in a map from the number of bits and the masked address to merged port ranges.

  The three interval lists interpret \<open>interval_list\<close>.  The section on bits relates masked byte
  arrays, words and intervals to the plain meaning of a prefix, that the first bits agree.
\<close>

section \<open>Ports\<close>

record portRange =
  p_start :: u16
  p_end :: u16

definition contains :: "portRange \<Rightarrow> u16 \<Rightarrow> bool" where
  "contains p port \<longleftrightarrow> p_start p \<le> port \<and> port \<le> p_end p"

definition any_port :: portRange where
  "any_port = \<lparr>p_start = 0, p_end = 65535\<rparr>"

definition touches_ports :: "portRange \<Rightarrow> portRange \<Rightarrow> bool" where
  "touches_ports l item \<longleftrightarrow>
     p_start item \<le> p_end l \<or> p_end l \<noteq> 65535 \<and> p_start item = p_end l + 1"

fun merge_ports_into :: "portRange \<Rightarrow> portRange list \<Rightarrow> portRange list" where
  "merge_ports_into l [] = [l]"
| "merge_ports_into l (item # items) =
     (if touches_ports l item
      then merge_ports_into (if p_end l < p_end item then l\<lparr>p_end := p_end item\<rparr> else l) items
      else l # merge_ports_into item items)"

definition mergePortRanges :: "portRange list \<Rightarrow> portRange list" where
  "mergePortRanges ins =
     (case sort_key (\<lambda>p. (p_start p, p_end p)) ins of
        [] \<Rightarrow> []
      | p # ps \<Rightarrow> merge_ports_into p ps)"

definition matchPortRanges :: "portRange list \<Rightarrow> u16 \<Rightarrow> bool" where
  "matchPortRanges ins port =
     (let idx = sort_Search (length ins) (\<lambda>i. port \<le> p_end (ins ! i))
      in idx < length ins \<and> p_start (ins ! idx) \<le> port)"

section \<open>IPv4 rules\<close>

record ipInterval4 =
  i4_start :: u32
  i4_end :: u32

record ipRuleSet4 =
  any4 :: "ipInterval4 list"
  port4 :: "nat \<rightharpoonup> (u32 \<rightharpoonup> portRange list)"

text \<open>
  The two levels of maps of the port rules, for any type of key: an absent map or key reads as the
  empty list, as in Go.
\<close>

definition port_ranges :: "(nat \<rightharpoonup> ('k \<rightharpoonup> portRange list)) \<Rightarrow> nat \<Rightarrow> 'k \<Rightarrow> portRange list" where
  "port_ranges m bits key =
     (case m bits of None \<Rightarrow> [] | Some inner \<Rightarrow> (case inner key of None \<Rightarrow> [] | Some ranges \<Rightarrow> ranges))"

definition add_port :: "(nat \<rightharpoonup> ('k \<rightharpoonup> portRange list)) \<Rightarrow> nat \<Rightarrow> 'k \<Rightarrow> portRange \<Rightarrow> (nat \<rightharpoonup> ('k \<rightharpoonup> portRange list))" where
  "add_port m bits key pr =
     (let inner = (case m bits of None \<Rightarrow> Map.empty | Some inner \<Rightarrow> inner)
      in m(bits \<mapsto> inner(key \<mapsto> port_ranges m bits key @ [pr])))"

definition compile_ports :: "(nat \<rightharpoonup> ('k \<rightharpoonup> portRange list)) \<Rightarrow> (nat \<rightharpoonup> ('k \<rightharpoonup> portRange list))" where
  "compile_ports m = (\<lambda>bits. map_option (\<lambda>inner key. map_option mergePortRanges (inner key)) (m bits))"

definition ipv4ToUint32 :: "naddr \<Rightarrow> u32" where
  "ipv4ToUint32 addr = get32 (drop 12 (As16 addr))"

definition ipv4Range :: "u32 \<Rightarrow> nat \<Rightarrow> u32 \<times> u32" where
  "ipv4Range addr bits =
     (if bits = 0 then (0, - 1)
      else
        (let m = push_bit (32 - bits) (- 1); start = addr AND m
         in (start, start OR NOT m)))"

definition add4 :: "ipRuleSet4 \<Rightarrow> nprefix \<Rightarrow> portRange \<Rightarrow> bool \<Rightarrow> ipRuleSet4" where
  "add4 s p pr hasPort =
     (let addr = ipv4ToUint32 (Prefix_Addr (Masked p)); bits = Prefix_Bits p
      in if \<not> hasPort
         then (let (start, end') = ipv4Range addr bits
               in s\<lparr>any4 := any4 s @ [\<lparr>i4_start = start, i4_end = end'\<rparr>]\<rparr>)
         else s\<lparr>port4 := add_port (port4 s) bits addr pr\<rparr>)"

definition touches4 :: "ipInterval4 \<Rightarrow> ipInterval4 \<Rightarrow> bool" where
  "touches4 l item \<longleftrightarrow> i4_start item \<le> i4_end l \<or> i4_end l \<noteq> - 1 \<and> i4_start item = i4_end l + 1"

fun merge4_into :: "ipInterval4 \<Rightarrow> ipInterval4 list \<Rightarrow> ipInterval4 list" where
  "merge4_into l [] = [l]"
| "merge4_into l (item # items) =
     (if touches4 l item
      then merge4_into (if i4_end l < i4_end item then l\<lparr>i4_end := i4_end item\<rparr> else l) items
      else l # merge4_into item items)"

definition mergeIPv4Intervals :: "ipInterval4 list \<Rightarrow> ipInterval4 list" where
  "mergeIPv4Intervals ins = (case ins of [] \<Rightarrow> [] | i # rest \<Rightarrow> merge4_into i rest)"

definition matchIPv4Intervals :: "ipInterval4 list \<Rightarrow> u32 \<Rightarrow> bool" where
  "matchIPv4Intervals ins ip =
     (let idx = sort_Search (length ins) (\<lambda>i. ip \<le> i4_end (ins ! i))
      in idx < length ins \<and> i4_start (ins ! idx) \<le> ip)"

definition compile4 :: "ipRuleSet4 \<Rightarrow> ipRuleSet4" where
  "compile4 s =
     s\<lparr>any4 := mergeIPv4Intervals (sort_key (\<lambda>i. (i4_start i, i4_end i)) (any4 s)),
       port4 := compile_ports (port4 s)\<rparr>"

definition matches4 :: "ipRuleSet4 \<Rightarrow> naddr \<Rightarrow> u16 \<Rightarrow> bool" where
  "matches4 s addr port =
     (let ip = ipv4ToUint32 addr
      in matchIPv4Intervals (any4 s) ip \<or>
         (\<exists>bits \<in> set (rev [0..<33]). matchPortRanges (port_ranges (port4 s) bits (fst (ipv4Range ip bits))) port))"

section \<open>IPv6 rules\<close>

datatype uint128 = Uint128 (hi64: u64) (lo64: u64)

definition compareUint128 :: "uint128 \<Rightarrow> uint128 \<Rightarrow> int" where
  "compareUint128 a b =
     (if hi64 a < hi64 b then - 1
      else if hi64 a > hi64 b then 1
      else if lo64 a < lo64 b then - 1
      else if lo64 a > lo64 b then 1
      else 0)"

instantiation uint128 :: linorder
begin

definition less_eq_uint128 :: "uint128 \<Rightarrow> uint128 \<Rightarrow> bool" where
  "less_eq_uint128 a b \<longleftrightarrow> compareUint128 a b \<le> 0"

definition less_uint128 :: "uint128 \<Rightarrow> uint128 \<Rightarrow> bool" where
  "less_uint128 a b \<longleftrightarrow> compareUint128 a b < 0"

instance
  by standard (auto simp: less_eq_uint128_def less_uint128_def compareUint128_def
      intro: uint128.expand split: if_splits)

end

definition isMaxUint128 :: "uint128 \<Rightarrow> bool" where
  "isMaxUint128 v \<longleftrightarrow> hi64 v = - 1 \<and> lo64 v = - 1"

definition addUint128 :: "uint128 \<Rightarrow> u64 \<Rightarrow> uint128" where
  "addUint128 v n =
     (let lo = lo64 v + n in Uint128 (if lo < lo64 v then hi64 v + 1 else hi64 v) lo)"

record ipInterval6 =
  i6_start :: uint128
  i6_end :: uint128

record ipRuleSet6 =
  any6 :: "ipInterval6 list"
  port6 :: "nat \<rightharpoonup> (bytes \<rightharpoonup> portRange list)"

definition bytesToUint128 :: "bytes \<Rightarrow> uint128" where
  "bytesToUint128 b = Uint128 (get64 (take 8 b)) (get64 (drop 8 b))"

definition maskIPv6 :: "naddr \<Rightarrow> nat \<Rightarrow> bytes" where
  "maskIPv6 addr bits = clear_bits bits 128 (As16 addr)"

definition ipv6Range :: "naddr \<Rightarrow> nat \<Rightarrow> uint128 \<times> uint128" where
  "ipv6Range addr bits =
     (let startBytes = maskIPv6 addr bits; endBytes = set_bits_from bits 128 startBytes
      in (bytesToUint128 startBytes, bytesToUint128 endBytes))"

definition ipv6ToUint128 :: "naddr \<Rightarrow> uint128" where
  "ipv6ToUint128 addr = bytesToUint128 (As16 addr)"

definition add6 :: "ipRuleSet6 \<Rightarrow> nprefix \<Rightarrow> portRange \<Rightarrow> bool \<Rightarrow> ipRuleSet6" where
  "add6 s p pr hasPort =
     (let (start, end') = ipv6Range (Prefix_Addr (Masked p)) (Prefix_Bits p)
      in if \<not> hasPort then s\<lparr>any6 := any6 s @ [\<lparr>i6_start = start, i6_end = end'\<rparr>]\<rparr>
         else s\<lparr>port6 := add_port (port6 s) (Prefix_Bits p) (As16 (Prefix_Addr (Masked p))) pr\<rparr>)"

definition touches6 :: "ipInterval6 \<Rightarrow> ipInterval6 \<Rightarrow> bool" where
  "touches6 l item =
     (let adjacent = (\<not> isMaxUint128 (i6_end l) \<and> compareUint128 (i6_start item) (addUint128 (i6_end l) 1) = 0)
      in compareUint128 (i6_start item) (i6_end l) \<le> 0 \<or> adjacent)"

fun merge6_into :: "ipInterval6 \<Rightarrow> ipInterval6 list \<Rightarrow> ipInterval6 list" where
  "merge6_into l [] = [l]"
| "merge6_into l (item # items) =
     (if touches6 l item
      then merge6_into (if compareUint128 (i6_end item) (i6_end l) > 0 then l\<lparr>i6_end := i6_end item\<rparr> else l) items
      else l # merge6_into item items)"

definition mergeIPv6Intervals :: "ipInterval6 list \<Rightarrow> ipInterval6 list" where
  "mergeIPv6Intervals ins = (case ins of [] \<Rightarrow> [] | i # rest \<Rightarrow> merge6_into i rest)"

definition matchIPv6Intervals :: "ipInterval6 list \<Rightarrow> uint128 \<Rightarrow> bool" where
  "matchIPv6Intervals ins ip =
     (let idx = sort_Search (length ins) (\<lambda>i. compareUint128 (i6_end (ins ! i)) ip \<ge> 0)
      in idx < length ins \<and> compareUint128 (i6_start (ins ! idx)) ip \<le> 0)"

definition compile6 :: "ipRuleSet6 \<Rightarrow> ipRuleSet6" where
  "compile6 s =
     s\<lparr>any6 := mergeIPv6Intervals (sort_key (\<lambda>i. (i6_start i, i6_end i)) (any6 s)),
       port6 := compile_ports (port6 s)\<rparr>"

definition matches6 :: "ipRuleSet6 \<Rightarrow> naddr \<Rightarrow> u16 \<Rightarrow> bool" where
  "matches6 s addr port \<longleftrightarrow>
     matchIPv6Intervals (any6 s) (ipv6ToUint128 addr) \<or>
     (\<exists>bits \<in> set (rev [0..<129]). matchPortRanges (port_ranges (port6 s) bits (maskIPv6 addr bits)) port)"

section \<open>Bits of an address\<close>

text \<open>Bit \<open>i\<close> of an address, counted from the most significant one, and agreement on the first \<open>k\<close>.\<close>

definition addr_bit :: "bytes \<Rightarrow> nat \<Rightarrow> bool" where
  "addr_bit ip i = bit (ip ! (i div 8)) (7 - i mod 8)"

definition same_prefix :: "nat \<Rightarrow> bytes \<Rightarrow> bytes \<Rightarrow> bool" where
  "same_prefix k a b \<longleftrightarrow> (\<forall>i < k. addr_bit a i = addr_bit b i)"

lemma bit_be_word_le:
  assumes "n < 8 * length bs" and "8 * length bs \<le> LENGTH('a)"
  shows "bit (be_word bs :: 'a::len word) n = addr_bit bs (8 * length bs - 1 - n)"
  using assms
proof (induction bs arbitrary: n rule: rev_induct)
  case (snoc b bs)
  show ?case
  proof (cases "n < 8")
    case True
    have "(8 * length (bs @ [b]) - 1 - n) div 8 = length bs" "(8 * length (bs @ [b]) - 1 - n) mod 8 = 7 - n"
      using True by (auto simp: div_nat_eqI mod_nat_eqI)
    with True snoc.prems show ?thesis by (simp add: addr_bit_def bit_simps)
  next
    case False
    have e: "8 * length (bs @ [b]) - 1 - n = 8 * length bs - 1 - (n - 8)" using False by simp
    have "(8 * length bs - 1 - (n - 8)) div 8 < length bs" using False snoc.prems by (simp add: div_less_iff_less_mult)
    then have "addr_bit (bs @ [b]) (8 * length bs - 1 - (n - 8)) = addr_bit bs (8 * length bs - 1 - (n - 8))"
      by (simp add: addr_bit_def nth_append)
    moreover have "bit (be_word bs :: 'a word) (n - 8) = addr_bit bs (8 * length bs - 1 - (n - 8))"
      using snoc False by auto
    moreover have "\<not> bit b n" using False bit_imp_le_length [of b n] by auto
    ultimately show ?thesis using False snoc.prems unfolding e by (simp add: bit_simps)
  qed
qed simp

lemma bit_be_word:
  assumes "8 * length bs = LENGTH('a)" and "n < 8 * length bs"
  shows "bit (be_word bs :: 'a::len word) n = addr_bit bs (8 * length bs - 1 - n)"
  using assms by (simp add: bit_be_word_le)

lemma same_prefix_drop_bit:
  assumes "8 * length a = LENGTH('a)" and "length b = length a" and "k \<le> 8 * length a"
  shows "drop_bit (LENGTH('a) - k) (be_word a :: 'a::len word) = drop_bit (LENGTH('a) - k) (be_word b) \<longleftrightarrow> same_prefix k a b"
proof -
  have ab: "8 * length b = LENGTH('a)" using assms by simp
  have *: "bit (be_word c :: 'a word) (LENGTH('a) - k + n) = addr_bit c (k - 1 - n)"
    if "n < k" "8 * length c = LENGTH('a)" for c n
  proof -
    have "LENGTH('a) - k + n < 8 * length c" "8 * length c - 1 - (LENGTH('a) - k + n) = k - 1 - n"
      using that assms by auto
    then show ?thesis using bit_be_word [OF that(2), of "LENGTH('a) - k + n"] by simp
  qed
  have out: "\<not> bit (be_word c :: 'a word) (LENGTH('a) - k + n)" if "\<not> n < k" for c n
    using that assms bit_imp_le_length [of "be_word c :: 'a word" "LENGTH('a) - k + n"] by auto
  have "drop_bit (LENGTH('a) - k) (be_word a :: 'a word) = drop_bit (LENGTH('a) - k) (be_word b) \<longleftrightarrow>
      (\<forall>n. bit (be_word a :: 'a word) (LENGTH('a) - k + n) = bit (be_word b :: 'a word) (LENGTH('a) - k + n))"
  proof
    assume "\<forall>n. bit (be_word a :: 'a word) (LENGTH('a) - k + n) = bit (be_word b :: 'a word) (LENGTH('a) - k + n)"
    then show "drop_bit (LENGTH('a) - k) (be_word a :: 'a word) = drop_bit (LENGTH('a) - k) (be_word b)"
      by (intro bit_word_eqI) (simp add: bit_drop_bit_eq)
  next
    assume eq: "drop_bit (LENGTH('a) - k) (be_word a :: 'a word) = drop_bit (LENGTH('a) - k) (be_word b)"
    have "bit (drop_bit (LENGTH('a) - k) (be_word a :: 'a word)) n = bit (drop_bit (LENGTH('a) - k) (be_word b :: 'a word)) n" for n
      by (simp only: eq)
    then show "\<forall>n. bit (be_word a :: 'a word) (LENGTH('a) - k + n) = bit (be_word b :: 'a word) (LENGTH('a) - k + n)"
      by (simp add: bit_drop_bit_eq)
  qed
  also have "\<dots> \<longleftrightarrow> (\<forall>n < k. addr_bit a (k - 1 - n) = addr_bit b (k - 1 - n))"
    using * out assms(1) ab by blast
  also have "\<dots> \<longleftrightarrow> same_prefix k a b"
  proof
    assume r: "\<forall>n < k. addr_bit a (k - 1 - n) = addr_bit b (k - 1 - n)"
    show "same_prefix k a b" unfolding same_prefix_def
    proof (intro allI impI)
      fix i assume "i < k"
      then have "k - 1 - i < k" "k - 1 - (k - 1 - i) = i" by auto
      with r show "addr_bit a i = addr_bit b i" by metis
    qed
  qed (auto simp: same_prefix_def)
  finally show ?thesis .
qed

text \<open>The two loops over single bits.\<close>

lemma bit_position:
  assumes "i div 8 = e div (8 :: nat)"
  shows "7 - i mod 8 = 7 - e mod 8 \<longleftrightarrow> i = e"
proof -
  have "i mod 8 \<le> 7" "e mod 8 \<le> 7" by (auto simp: less_Suc_eq_le [symmetric])
  then have "7 - i mod 8 = 7 - e mod 8 \<longleftrightarrow> i mod 8 = e mod 8" by auto
  then show ?thesis using assms by (metis div_mult_mod_eq)
qed

lemma addr_bit_update:
  assumes "n div 8 < length out"
  shows "addr_bit (out[n div 8 := b]) i = (if i div 8 = n div 8 then bit b (7 - i mod 8) else addr_bit out i)"
  using assms by (auto simp: addr_bit_def)

lemma addr_bit_here: "i div 8 = n div 8 \<Longrightarrow> bit (out ! (n div 8)) (7 - i mod 8) = addr_bit out i"
  by (simp add: addr_bit_def)

lemma clear_bits_ok:
  assumes "n \<le> 8 * length ip"
  shows "length (clear_bits k n ip) = length ip"
    and "i < 8 * length ip \<Longrightarrow> addr_bit (clear_bits k n ip) i \<longleftrightarrow> addr_bit ip i \<and> \<not> (k \<le> i \<and> i < n)"
proof -
  have "length (clear_bits k n ip) = length ip \<and>
      (i < 8 * length ip \<longrightarrow> addr_bit (clear_bits k n ip) i = (addr_bit ip i \<and> \<not> (k \<le> i \<and> i < n)))"
    using assms
  proof (induction n)
    case (Suc n)
    have "n div 8 < length ip" using Suc.prems by (simp add: div_less_iff_less_mult)
    with Suc have l: "n div 8 < length (clear_bits k n ip)" by simp
    have m: "bit (push_bit (7 - n mod 8) (1 :: byte)) (7 - i mod 8) \<longleftrightarrow> i = n" if "i div 8 = n div 8"
      using bit_position [OF that] by (auto simp: bit_simps)
    show ?case
    proof (cases "k \<le> n")
      case True
      then have "clear_bits k (Suc n) ip = (clear_bits k n ip)[n div 8 := clear_bits k n ip ! (n div 8) AND NOT (push_bit (7 - n mod 8) 1)]"
        by (simp add: clear_bits_def)
      then show ?thesis using Suc m True
        by (cases "i div 8 = n div 8") (auto simp: addr_bit_update [OF l] addr_bit_here bit_and_iff bit_or_iff bit_not_iff less_Suc_eq)
    next
      case False
      then show ?thesis using Suc by (auto simp: clear_bits_def)
    qed
  qed (simp add: clear_bits_def)
  then show "length (clear_bits k n ip) = length ip"
    and "i < 8 * length ip \<Longrightarrow> addr_bit (clear_bits k n ip) i \<longleftrightarrow> addr_bit ip i \<and> \<not> (k \<le> i \<and> i < n)" by auto
qed

lemma set_bits_from_ok:
  assumes "n \<le> 8 * length ip"
  shows "length (set_bits_from k n ip) = length ip"
    and "i < 8 * length ip \<Longrightarrow> addr_bit (set_bits_from k n ip) i \<longleftrightarrow> addr_bit ip i \<or> k \<le> i \<and> i < n"
proof -
  have "length (set_bits_from k n ip) = length ip \<and>
      (i < 8 * length ip \<longrightarrow> addr_bit (set_bits_from k n ip) i = (addr_bit ip i \<or> k \<le> i \<and> i < n))"
    using assms
  proof (induction n)
    case (Suc n)
    have "n div 8 < length ip" using Suc.prems by (simp add: div_less_iff_less_mult)
    with Suc have l: "n div 8 < length (set_bits_from k n ip)" by simp
    have m: "bit (push_bit (7 - n mod 8) (1 :: byte)) (7 - i mod 8) \<longleftrightarrow> i = n" if "i div 8 = n div 8"
      using bit_position [OF that] by (auto simp: bit_simps)
    show ?case
    proof (cases "k \<le> n")
      case True
      then have "set_bits_from k (Suc n) ip = (set_bits_from k n ip)[n div 8 := set_bits_from k n ip ! (n div 8) OR push_bit (7 - n mod 8) 1]"
        by (simp add: set_bits_from_def)
      then show ?thesis using Suc m True
        by (cases "i div 8 = n div 8") (auto simp: addr_bit_update [OF l] addr_bit_here bit_and_iff bit_or_iff bit_not_iff less_Suc_eq)
    next
      case False
      then show ?thesis using Suc by (auto simp: set_bits_from_def)
    qed
  qed (simp add: set_bits_from_def)
  then show "length (set_bits_from k n ip) = length ip"
    and "i < 8 * length ip \<Longrightarrow> addr_bit (set_bits_from k n ip) i \<longleftrightarrow> addr_bit ip i \<or> k \<le> i \<and> i < n" by auto
qed

section \<open>Merged intervals\<close>

lemma next_word: "hi < x \<Longrightarrow> hi + 1 \<le> (x :: 'a::len word)"
  by (metis add.commute inc_le)

interpretation ports: interval_list p_start p_end "\<lambda>p x. p\<lparr>p_end := x\<rparr>" touches_ports merge_ports_into
  by unfold_locales (auto simp: touches_ports_def not_le next_word)

interpretation iv4: interval_list i4_start i4_end "\<lambda>p x. p\<lparr>i4_end := x\<rparr>" touches4 merge4_into
  by unfold_locales (auto simp: touches4_def not_le next_word)

lemma compare_order [simp]:
  "compareUint128 a b \<le> 0 \<longleftrightarrow> a \<le> b" "compareUint128 a b < 0 \<longleftrightarrow> a < b"
  "compareUint128 a b \<ge> 0 \<longleftrightarrow> b \<le> a" "compareUint128 a b > 0 \<longleftrightarrow> b < a" "compareUint128 a b = 0 \<longleftrightarrow> a = b"
  by (auto simp: less_eq_uint128_def less_uint128_def compareUint128_def intro: uint128.expand split: if_splits)

text \<open>A pair of 64-bit words as one 128-bit word; the code's comparison and successor are those of the word.\<close>

definition wide :: "uint128 \<Rightarrow> 128 word" where
  "wide v = push_bit 64 (ucast (hi64 v)) OR ucast (lo64 v)"

lemma unat_wide: "unat (wide v) = unat (hi64 v) * 2 ^ 64 + unat (lo64 v)"
proof -
  have b: "unat (hi64 v) < 2 ^ 64" "unat (lo64 v) < 2 ^ 64"
    using unsigned_less [of "hi64 v", where ?'a = nat] unsigned_less [of "lo64 v", where ?'a = nat] by simp_all
  have "wide v = push_bit 64 (ucast (hi64 v)) + ucast (lo64 v)"
    unfolding wide_def
    by (rule disjunctive_add [symmetric]) (auto simp: bit_simps dest: bit_imp_le_length)
  also have "unat \<dots> = (unat (hi64 v) * 2 ^ 64 + unat (lo64 v)) mod 2 ^ 128"
    using b by (simp add: unat_word_ariths unsigned_push_bit_eq unsigned_ucast_eq push_bit_eq_mult take_bit_eq_mod)
  also have "\<dots> = unat (hi64 v) * 2 ^ 64 + unat (lo64 v)" using b by (intro mod_less) (simp; linarith)
  finally show ?thesis .
qed

lemma wide_le: "wide a \<le> wide b \<longleftrightarrow> a \<le> b"
proof -
  have b: "unat (lo64 v) < 2 ^ 64" for v
    using unsigned_less [of "lo64 v", where ?'a = nat] by simp
  have "unat (hi64 a) * 2 ^ 64 + unat (lo64 a) \<le> unat (hi64 b) * 2 ^ 64 + unat (lo64 b) \<longleftrightarrow>
      unat (hi64 a) < unat (hi64 b) \<or> unat (hi64 a) = unat (hi64 b) \<and> unat (lo64 a) \<le> unat (lo64 b)"
    using b [of a] b [of b] by (simp; linarith)
  then show ?thesis
    by (auto simp: word_le_nat_alt unat_wide less_eq_uint128_def compareUint128_def word_less_nat_alt
        dest: unsigned_word_eqI split: if_splits)
qed

lemma wide_inject: "wide a = wide b \<longleftrightarrow> a = b"
  using wide_le [of a b] wide_le [of b a] by auto

lemma wide_less: "wide a < wide b \<longleftrightarrow> a < b"
  using wide_le [of b a] by auto

lemma wide_add1:
  assumes "\<not> isMaxUint128 v"
  shows "wide (addUint128 v 1) = wide v + 1"
proof -
  have b: "unat (hi64 v) < 2 ^ 64" "unat (lo64 v) < 2 ^ 64"
    using unsigned_less [of "hi64 v", where ?'a = nat] unsigned_less [of "lo64 v", where ?'a = nat] by simp_all
  have m: "unat (- 1 :: u64) = 2 ^ 64 - 1" by (simp add: unsigned_minus_1_eq_mask mask_eq_exp_minus_1)
  have "unat (wide (addUint128 v 1)) = unat (wide v) + 1"
  proof (cases "lo64 v = - 1")
    case True
    then have h: "hi64 v \<noteq> - 1" using assms by (simp add: isMaxUint128_def)
    then have "unat (hi64 v) \<noteq> 2 ^ 64 - 1" by (metis m unsigned_word_eqI)
    then have "unat (hi64 v + 1) = unat (hi64 v) + 1" using b by (simp add: unat_word_ariths)
    moreover have "(0 :: u64) < - 1" by (simp add: word_less_nat_alt m)
    ultimately show ?thesis using True m by (simp add: unat_wide addUint128_def)
  next
    case False
    then have "unat (lo64 v) \<noteq> 2 ^ 64 - 1" by (metis m unsigned_word_eqI)
    then have "unat (lo64 v + 1) = unat (lo64 v) + 1" using b by (simp add: unat_word_ariths)
    then show ?thesis by (simp add: unat_wide addUint128_def word_less_nat_alt)
  qed
  moreover have "unat (wide (addUint128 v 1)) < 2 ^ 128"
    using unsigned_less [of "wide (addUint128 v 1)", where ?'a = nat] by simp
  ultimately show ?thesis by (intro unsigned_word_eqI [where ?'a = nat]) (simp add: unat_word_ariths)
qed

interpretation iv6: interval_list i6_start i6_end "\<lambda>p x. p\<lparr>i6_end := x\<rparr>" touches6 merge6_into
proof unfold_locales
  fix l i assume t: "touches6 l i"
  show "i6_start i \<le> i6_end l \<or> (\<forall>x. i6_end l < x \<longrightarrow> i6_start i \<le> x)"
  proof (cases "i6_start i \<le> i6_end l")
    case False
    with t have "\<not> isMaxUint128 (i6_end l)" "i6_start i = addUint128 (i6_end l) 1"
      by (auto simp: touches6_def)
    then show ?thesis by (metis wide_add1 wide_le wide_less next_word)
  qed simp
qed (auto simp: touches6_def)

lemma matchPortRanges_merged:
  assumes "\<forall>p \<in> set ps. p_start p \<le> p_end p"
  shows "matchPortRanges (mergePortRanges ps) port \<longleftrightarrow> (\<exists>p \<in> set ps. contains p port)"
  using ports.sort_merge_search [OF assms mergePortRanges_def refl, of port]
  by (simp add: matchPortRanges_def ports.covers_def contains_def Let_def)

lemma match4_merged:
  assumes "\<forall>i \<in> set xs. i4_start i \<le> i4_end i"
  shows "matchIPv4Intervals (mergeIPv4Intervals (sort_key (\<lambda>i. (i4_start i, i4_end i)) xs)) ip \<longleftrightarrow>
    (\<exists>i \<in> set xs. i4_start i \<le> ip \<and> ip \<le> i4_end i)"
  using iv4.sort_merge_search [OF assms refl refl, of ip]
  by (simp add: matchIPv4Intervals_def mergeIPv4Intervals_def iv4.covers_def Let_def)

lemma match6_merged:
  assumes "\<forall>i \<in> set xs. i6_start i \<le> i6_end i"
  shows "matchIPv6Intervals (mergeIPv6Intervals (sort_key (\<lambda>i. (i6_start i, i6_end i)) xs)) ip \<longleftrightarrow>
    (\<exists>i \<in> set xs. i6_start i \<le> ip \<and> ip \<le> i6_end i)"
  using iv6.sort_merge_search [OF assms refl refl, of ip]
  by (simp add: matchIPv6Intervals_def mergeIPv6Intervals_def iv6.covers_def Let_def)

section \<open>Prefixes\<close>

text \<open>
  What a prefix means: an address of the same family whose first bits are those of the prefix.  A
  rule adds a port range or allows every port.
\<close>

fun naddr_ok :: "naddr \<Rightarrow> bool" where
  "naddr_ok (A4 ip) \<longleftrightarrow> length ip = 4"
| "naddr_ok (A6 ip z) \<longleftrightarrow> length ip = 16"

definition prefix_ok :: "nprefix \<Rightarrow> bool" where
  "prefix_ok p \<longleftrightarrow> naddr_ok (Prefix_Addr p) \<and> Prefix_Bits p \<le> (if Is4 (Prefix_Addr p) then 32 else 128)"

definition prefix_contains :: "nprefix \<Rightarrow> naddr \<Rightarrow> bool" where
  "prefix_contains p a \<longleftrightarrow>
     (case (Prefix_Addr p, a) of
        (A4 q, A4 ip) \<Rightarrow> same_prefix (Prefix_Bits p) q ip
      | (A6 q _, A6 ip _) \<Rightarrow> same_prefix (Prefix_Bits p) q ip
      | _ \<Rightarrow> False)"

definition ip_rule_hit :: "nprefix \<times> portRange \<times> bool \<Rightarrow> naddr \<Rightarrow> u16 \<Rightarrow> bool" where
  "ip_rule_hit r a port = (let (p, pr, hasPort) = r in prefix_contains p a \<and> (hasPort \<longrightarrow> contains pr port))"

lemma same_prefix_refl [simp]: "same_prefix k a a"
  by (simp add: same_prefix_def)

lemma same_prefix_clear:
  assumes "n = 8 * length a" and "k \<le> n"
  shows "same_prefix k (clear_bits k n a) b \<longleftrightarrow> same_prefix k a b"
  using assms clear_bits_ok(2) [of n a _ k] by (auto simp: same_prefix_def)

lemma bytes_eq_iff_bits:
  assumes "length a = length b"
  shows "a = b \<longleftrightarrow> same_prefix (8 * length a) a b"
proof
  assume r: "same_prefix (8 * length a) a b"
  show "a = b"
  proof (rule nth_equalityI)
    fix j assume "j < length a"
    show "a ! j = b ! j"
    proof (rule bit_word_eqI)
      fix m assume "m < LENGTH(8)"
      then have m: "m < 8" by simp
      then have "8 * j + (7 - m) < 8 * length a" "(8 * j + (7 - m)) div 8 = j" "(8 * j + (7 - m)) mod 8 = 7 - m" "7 - (7 - m) = m"
        using \<open>j < length a\<close> by (simp_all add: mod_nat_eqI)
      with r show "bit (a ! j) m = bit (b ! j) m" unfolding same_prefix_def addr_bit_def by metis
    qed
  qed (rule assms)
qed simp

lemma clear_bits_eq_iff:
  assumes "length a = length b" and "n = 8 * length a" and "k \<le> n"
  shows "clear_bits k n a = clear_bits k n b \<longleftrightarrow> same_prefix k a b"
proof -
  have l: "length (clear_bits k n a) = length a" "length (clear_bits k n b) = length a"
    using assms by (simp_all add: clear_bits_ok)
  have "clear_bits k n a = clear_bits k n b \<longleftrightarrow> same_prefix n (clear_bits k n a) (clear_bits k n b)"
    using bytes_eq_iff_bits [of "clear_bits k n a" "clear_bits k n b"] l assms by simp
  also have "\<dots> \<longleftrightarrow> same_prefix k a b"
  proof -
    have "addr_bit (clear_bits k n a) i = addr_bit (clear_bits k n b) i \<longleftrightarrow> (i < k \<longrightarrow> addr_bit a i = addr_bit b i)" if "i < n" for i
      using clear_bits_ok(2) [of n a i k] clear_bits_ok(2) [of n b i k] assms that by auto
    then show ?thesis using assms(3) unfolding same_prefix_def by (metis order_less_le_trans)
  qed
  finally show ?thesis .
qed

lemma be_word_clear:
  assumes "8 * length ip = LENGTH('a)" and "k \<le> LENGTH('a)"
  shows "(be_word (clear_bits k (LENGTH('a)) ip) :: 'a::len word) = be_word ip AND NOT (mask (LENGTH('a) - k))"
proof (rule bit_word_eqI)
  fix n assume n: "n < LENGTH('a)"
  have "8 * length (clear_bits k (LENGTH('a)) ip) = LENGTH('a)" using assms by (simp add: clear_bits_ok)
  then show "bit (be_word (clear_bits k (LENGTH('a)) ip) :: 'a word) n = bit (be_word ip AND NOT (mask (LENGTH('a) - k)) :: 'a word) n"
    using assms n clear_bits_ok(2) [of "LENGTH('a)" ip "LENGTH('a) - 1 - n" k]
    by (auto simp: bit_be_word bit_simps)
qed

lemma be_word_set:
  assumes "8 * length ip = LENGTH('a)" and "k \<le> LENGTH('a)"
  shows "(be_word (set_bits_from k (LENGTH('a)) ip) :: 'a::len word) = be_word ip OR mask (LENGTH('a) - k)"
proof (rule bit_word_eqI)
  fix n assume n: "n < LENGTH('a)"
  have "8 * length (set_bits_from k (LENGTH('a)) ip) = LENGTH('a)" using assms by (simp add: set_bits_from_ok)
  then show "bit (be_word (set_bits_from k (LENGTH('a)) ip) :: 'a word) n = bit (be_word ip OR mask (LENGTH('a) - k) :: 'a word) n"
    using assms n set_bits_from_ok(2) [of "LENGTH('a)" ip "LENGTH('a) - 1 - n" k]
    by (auto simp: bit_be_word bit_simps)
qed

lemma be_word_inject:
  assumes "8 * length a = LENGTH('a)" and "length b = length a"
  shows "(be_word a :: 'a::len word) = be_word b \<longleftrightarrow> a = b"
  using same_prefix_drop_bit [where ?'a = 'a, of a b "8 * length a"] assms bytes_eq_iff_bits [of a b] by auto

lemma get_whole:
  "length ip = 4 \<Longrightarrow> get32 ip = be_word ip" "length ip = 8 \<Longrightarrow> get64 ip = be_word ip"
  by (simp_all add: get32_def get64_def)

lemma ipv4Range_eq:
  assumes "k \<le> 32"
  shows "ipv4Range a k = (a AND NOT (mask (32 - k)), a OR mask (32 - k))"
proof -
  have "push_bit (32 - k) (- 1) = NOT (mask (32 - k) :: u32)" by (simp add: mask_eq_exp_minus_1 not_eq_complement push_bit_eq_mult)
  moreover have "(a AND NOT (mask (32 - k))) OR mask (32 - k) = a OR mask (32 - k)"
    by (rule bit_word_eqI) (auto simp: bit_simps)
  moreover have "(mask 32 :: u32) = - 1" by (rule bit_word_eqI) (simp add: bit_simps)
  ultimately show ?thesis by (auto simp: ipv4Range_def Let_def)
qed

lemma range4:
  assumes "length ip = 4" and "length q = 4" and "k \<le> 32"
  shows "fst (ipv4Range (get32 q) k) \<le> get32 ip \<and> get32 ip \<le> snd (ipv4Range (get32 q) k) \<longleftrightarrow> same_prefix k q ip"
    and "fst (ipv4Range (get32 ip) k) = get32 (clear_bits k 32 ip)"
    and "fst (ipv4Range (get32 q) k) \<le> snd (ipv4Range (get32 q) k)"
proof -
  have i: "get32 q = be_word q" "get32 ip = be_word ip" "length (clear_bits k 32 ip) = 4"
    using assms by (simp_all add: get_whole clear_bits_ok)
  have "fst (ipv4Range (get32 q) k) \<le> get32 ip \<and> get32 ip \<le> snd (ipv4Range (get32 q) k) \<longleftrightarrow>
      drop_bit (32 - k) (get32 ip) = drop_bit (32 - k) (get32 q)"
    using word_prefix_interval [of "32 - k" "get32 q" "get32 ip"] assms by (simp add: ipv4Range_eq)
  then show "fst (ipv4Range (get32 q) k) \<le> get32 ip \<and> get32 ip \<le> snd (ipv4Range (get32 q) k) \<longleftrightarrow> same_prefix k q ip"
    using same_prefix_drop_bit [where ?'a = 32, of q ip k] assms i by auto
  show "fst (ipv4Range (get32 ip) k) = get32 (clear_bits k 32 ip)"
    using be_word_clear [where ?'a = 32, of ip k] assms i by (simp add: ipv4Range_eq get_whole)
  show "fst (ipv4Range (get32 q) k) \<le> snd (ipv4Range (get32 q) k)"
    using word_prefix_interval [of "32 - k" "get32 q" "get32 q"] assms by (auto simp: ipv4Range_eq intro: order_trans)
qed

lemma wide_bytes:
  assumes "length b = 16"
  shows "wide (bytesToUint128 b) = be_word b"
proof -
  have "be_word (xs @ ys) = (push_bit (8 * length ys) (be_word xs) OR be_word ys :: 128 word)" for xs ys :: bytes
    by (induction ys rule: rev_induct)
      (auto simp: append_assoc [symmetric] push_bit_or push_bit_push_bit or.assoc simp del: append_assoc)
  from this [of "take 8 b" "drop 8 b"] have "(be_word b :: 128 word) = push_bit 64 (be_word (take 8 b)) OR be_word (drop 8 b)"
    using assms by simp
  moreover have "ucast (be_word c :: u64) = (be_word c :: 128 word)" if "length c = 8" for c
  proof (rule bit_word_eqI)
    fix n
    show "bit (ucast (be_word c :: u64) :: 128 word) n = bit (be_word c :: 128 word) n"
    proof (cases "n < 64")
      case True
      then show ?thesis
        using that bit_be_word_le [where ?'a = 64, of n c] bit_be_word_le [where ?'a = 128, of n c] by (simp add: bit_simps)
    next
      case False
      then have "\<not> bit (be_word c :: u64) n" "\<not> bit (be_word c :: 128 word) n"
        using be_word_bit [of c n, where ?'a = 64] be_word_bit [of c n, where ?'a = 128] that by auto
      then show ?thesis by (simp add: bit_simps)
    qed
  qed
  ultimately show ?thesis using assms by (simp add: wide_def bytesToUint128_def get64_def)
qed

lemma range6:
  assumes "length ip = 16" and "length q = 16" and "k \<le> 128"
  shows "fst (ipv6Range (A6 q z) k) \<le> bytesToUint128 ip \<and> bytesToUint128 ip \<le> snd (ipv6Range (A6 q z) k) \<longleftrightarrow> same_prefix k q ip"
    and "fst (ipv6Range (A6 q z) k) \<le> snd (ipv6Range (A6 q z) k)"
proof -
  let ?q = "be_word q :: 128 word"
  have l: "length (clear_bits k 128 q) = 16" "length (set_bits_from k 128 (clear_bits k 128 q)) = 16"
    using assms by (simp_all add: clear_bits_ok set_bits_from_ok)
  have m: "(?q AND NOT (mask (128 - k))) OR mask (128 - k) = ?q OR mask (128 - k)"
    by (rule bit_word_eqI) (auto simp: bit_simps)
  have lo: "wide (fst (ipv6Range (A6 q z) k)) = ?q AND NOT (mask (128 - k))"
    using assms l be_word_clear [where ?'a = 128, of q k]
    by (simp add: ipv6Range_def maskIPv6_def As16_def wide_bytes Let_def)
  have hi: "wide (snd (ipv6Range (A6 q z) k)) = ?q OR mask (128 - k)"
    using assms l be_word_clear [where ?'a = 128, of q k] be_word_set [where ?'a = 128, of "clear_bits k 128 q" k] m
    by (simp add: ipv6Range_def maskIPv6_def As16_def wide_bytes Let_def)
  have w: "wide (bytesToUint128 ip) = be_word ip" using assms by (simp add: wide_bytes)
  have "wide (fst (ipv6Range (A6 q z) k)) \<le> wide (bytesToUint128 ip) \<and> wide (bytesToUint128 ip) \<le> wide (snd (ipv6Range (A6 q z) k)) \<longleftrightarrow> same_prefix k q ip"
    unfolding lo hi w using word_prefix_interval [of "128 - k" ?q "be_word ip"] same_prefix_drop_bit [where ?'a = 128, of q ip k] assms
    by auto
  then show "fst (ipv6Range (A6 q z) k) \<le> bytesToUint128 ip \<and> bytesToUint128 ip \<le> snd (ipv6Range (A6 q z) k) \<longleftrightarrow> same_prefix k q ip"
    by (simp only: wide_le)
  have "wide (fst (ipv6Range (A6 q z) k)) \<le> wide (snd (ipv6Range (A6 q z) k))"
    unfolding lo hi using word_prefix_interval [of "128 - k" ?q ?q] by (auto intro: order_trans)
  then show "fst (ipv6Range (A6 q z) k) \<le> snd (ipv6Range (A6 q z) k)" by (simp only: wide_le)
qed

section \<open>Rule sets\<close>

text \<open>
  What both rule sets promise the route rules: a set that is built by adding rules and then
  compiled matches exactly the addresses and ports of its rules.
\<close>

locale ip_rule_set =
  fixes family :: "naddr \<Rightarrow> bool"
    and valid :: "'s \<Rightarrow> bool"
    and hit :: "'s \<Rightarrow> naddr \<Rightarrow> u16 \<Rightarrow> bool"
    and add :: "'s \<Rightarrow> nprefix \<Rightarrow> portRange \<Rightarrow> bool \<Rightarrow> 's"
    and compile :: "'s \<Rightarrow> 's"
    and matches :: "'s \<Rightarrow> naddr \<Rightarrow> u16 \<Rightarrow> bool"
  assumes add_valid: "prefix_ok p \<Longrightarrow> family (Prefix_Addr p) \<Longrightarrow> p_start pr \<le> p_end pr \<Longrightarrow> valid s \<Longrightarrow> valid (add s p pr hasPort)"
    and add_hit: "prefix_ok p \<Longrightarrow> family (Prefix_Addr p) \<Longrightarrow> naddr_ok a \<Longrightarrow> family a \<Longrightarrow>
      hit (add s p pr hasPort) a port \<longleftrightarrow> hit s a port \<or> ip_rule_hit (p, pr, hasPort) a port"
    and compile_matches: "valid s \<Longrightarrow> naddr_ok a \<Longrightarrow> family a \<Longrightarrow> matches (compile s) a port \<longleftrightarrow> hit s a port"
begin

definition rule_ok :: "nprefix \<times> portRange \<times> bool \<Rightarrow> bool" where
  "rule_ok r \<longleftrightarrow> (let (p, pr, hasPort) = r in prefix_ok p \<and> family (Prefix_Addr p) \<and> p_start pr \<le> p_end pr)"

lemma matches_added:
  assumes "valid s" and "list_all rule_ok rs" and "naddr_ok a" and "family a"
  shows "matches (compile (foldl (\<lambda>s (p, pr, hasPort). add s p pr hasPort) s rs)) a port \<longleftrightarrow>
    hit s a port \<or> (\<exists>r \<in> set rs. ip_rule_hit r a port)"
  using assms
proof (induction rs arbitrary: s)
  case Nil
  then show ?case by (simp add: compile_matches)
next
  case (Cons r rs)
  obtain p pr h where r: "r = (p, pr, h)" by (cases r)
  have "prefix_ok p" "family (Prefix_Addr p)" "p_start pr \<le> p_end pr"
    using Cons.prems by (auto simp: r rule_ok_def)
  then show ?case
    using Cons add_valid [of p pr s h] add_hit [of p a s pr h port] by (auto simp: r)
qed

end

lemma port_ranges_add: "port_ranges (add_port m bits key pr) b k =
    port_ranges m b k @ (if b = bits \<and> k = key then [pr] else [])"
  by (auto simp: port_ranges_def add_port_def Let_def split: option.splits)

lemma port_ranges_compile: "port_ranges (compile_ports m) b k = mergePortRanges (port_ranges m b k)"
  by (auto simp: port_ranges_def compile_ports_def mergePortRanges_def split: option.splits)

definition ports_ok :: "(nat \<rightharpoonup> ('k \<rightharpoonup> portRange list)) \<Rightarrow> bool" where
  "ports_ok m \<longleftrightarrow> (\<forall>b k. \<forall>p \<in> set (port_ranges m b k). p_start p \<le> p_end p)"

lemma ports_ok_add: "ports_ok m \<Longrightarrow> p_start pr \<le> p_end pr \<Longrightarrow> ports_ok (add_port m bits key pr)"
  by (auto simp: ports_ok_def port_ranges_add)

lemma ports_ok_match:
  "ports_ok m \<Longrightarrow> matchPortRanges (port_ranges (compile_ports m) b k) port \<longleftrightarrow> (\<exists>p \<in> set (port_ranges m b k). contains p port)"
  by (simp add: port_ranges_compile matchPortRanges_merged ports_ok_def)

definition valid4 :: "ipRuleSet4 \<Rightarrow> bool" where
  "valid4 s \<longleftrightarrow> (\<forall>i \<in> set (any4 s). i4_start i \<le> i4_end i) \<and> ports_ok (port4 s)"

definition hit4 :: "ipRuleSet4 \<Rightarrow> naddr \<Rightarrow> u16 \<Rightarrow> bool" where
  "hit4 s a port \<longleftrightarrow>
     (\<exists>i \<in> set (any4 s). i4_start i \<le> ipv4ToUint32 a \<and> ipv4ToUint32 a \<le> i4_end i) \<or>
     (\<exists>b \<le> 32. \<exists>p \<in> set (port_ranges (port4 s) b (fst (ipv4Range (ipv4ToUint32 a) b))). contains p port)"

definition valid6 :: "ipRuleSet6 \<Rightarrow> bool" where
  "valid6 s \<longleftrightarrow> (\<forall>i \<in> set (any6 s). i6_start i \<le> i6_end i) \<and> ports_ok (port6 s)"

definition hit6 :: "ipRuleSet6 \<Rightarrow> naddr \<Rightarrow> u16 \<Rightarrow> bool" where
  "hit6 s a port \<longleftrightarrow>
     (\<exists>i \<in> set (any6 s). i6_start i \<le> ipv6ToUint128 a \<and> ipv6ToUint128 a \<le> i6_end i) \<or>
     (\<exists>b \<le> 128. \<exists>p \<in> set (port_ranges (port6 s) b (maskIPv6 a b)). contains p port)"

lemma uint32_A4 [simp]: "ipv4ToUint32 (A4 ip) = get32 ip"
  by (simp add: ipv4ToUint32_def As16_def v4_in_v6_def)

lemma every_bits: "set (rev [0..<33]) = {..32}" "set (rev [0..<129]) = {..128}"
  by (simp_all only: set_rev set_upt) auto

interpretation rules4: ip_rule_set Is4 valid4 hit4 add4 compile4 matches4
proof unfold_locales
  fix p :: nprefix and pr :: portRange and s hp
  assume "prefix_ok p" "Is4 (Prefix_Addr p)" "p_start pr \<le> p_end pr" "valid4 s"
  then obtain q k where p: "p = Prefix (A4 q) k" and q: "length q = 4" "k \<le> 32" 
    by (cases p; cases "Prefix_Addr p") (auto simp: prefix_ok_def Is4_def)
  then have c: "length (clear_bits k 32 q) = 4" by (simp add: clear_bits_ok)
  then show "valid4 (add4 s p pr hp)"
    using \<open>valid4 s\<close> \<open>p_start pr \<le> p_end pr\<close> p q range4(3) [OF c c, of k]
    by (auto simp: valid4_def add4_def Masked_def ports_ok_add Let_def split: prod.splits)
next
  fix p :: nprefix and pr :: portRange and a s hp port
  assume "prefix_ok p" "Is4 (Prefix_Addr p)" "naddr_ok a" "Is4 a"
  then obtain q k ip where p: "p = Prefix (A4 q) k" and q: "length q = 4" "k \<le> 32" and a: "a = A4 ip" "length ip = 4"
    by (cases p; cases "Prefix_Addr p"; cases a) (auto simp: prefix_ok_def Is4_def)
  then have c: "length (clear_bits k 32 q) = 4" "length (clear_bits k 32 ip) = 4" by (simp_all add: clear_bits_ok)
  have s: "same_prefix k (clear_bits k 32 q) ip \<longleftrightarrow> same_prefix k q ip" using q by (simp add: same_prefix_clear)
  have key: "fst (ipv4Range (get32 ip) k) = get32 (clear_bits k 32 q) \<longleftrightarrow> same_prefix k q ip"
    using range4(2) [OF a(2) q] clear_bits_eq_iff [of ip q 32 k] be_word_inject [where ?'a = 32, of "clear_bits k 32 ip" "clear_bits k 32 q"] a q c
    by (auto simp: get_whole same_prefix_def)
  show "hit4 (add4 s p pr hp) a port \<longleftrightarrow> hit4 s a port \<or> ip_rule_hit (p, pr, hp) a port"
  proof (cases hp)
    case True
    then show ?thesis using q key
      by (auto simp: hit4_def add4_def p a Masked_def Let_def port_ranges_add ip_rule_hit_def prefix_contains_def)
  next
    case False
    then show ?thesis using q range4(1) [OF a(2) c(1) q(2)] s
      by (auto simp: hit4_def add4_def p a Masked_def Let_def ip_rule_hit_def prefix_contains_def split: prod.splits)
  qed
next
  fix s a port
  assume "valid4 s"
  then show "matches4 (compile4 s) a port \<longleftrightarrow> hit4 s a port"
    unfolding matches4_def hit4_def every_bits Let_def
    by (simp add: compile4_def valid4_def match4_merged ports_ok_match Bex_def)
qed

interpretation rules6: ip_rule_set Is6 valid6 hit6 add6 compile6 matches6
proof unfold_locales
  fix p :: nprefix and pr :: portRange and s hp
  assume "prefix_ok p" "Is6 (Prefix_Addr p)" "p_start pr \<le> p_end pr" "valid6 s"
  then obtain q z k where p: "p = Prefix (A6 q z) k" and q: "length q = 16" "k \<le> 128" 
    by (cases p; cases "Prefix_Addr p") (auto simp: prefix_ok_def Is6_def Is4_def)
  then have c: "length (clear_bits k 128 q) = 16" by (simp add: clear_bits_ok)
  then show "valid6 (add6 s p pr hp)"
    using \<open>valid6 s\<close> \<open>p_start pr \<le> p_end pr\<close> p q range6(2) [OF c c, of k "[]"]
    by (auto simp: valid6_def add6_def Masked_def ports_ok_add Let_def split: prod.splits)
next
  fix p :: nprefix and pr :: portRange and a s hp port
  assume "prefix_ok p" "Is6 (Prefix_Addr p)" "naddr_ok a" "Is6 a"
  then obtain q z k ip z' where p: "p = Prefix (A6 q z) k" and q: "length q = 16" "k \<le> 128" and a: "a = A6 ip z'" "length ip = 16"
    by (cases p; cases "Prefix_Addr p"; cases a) (auto simp: prefix_ok_def Is6_def Is4_def)
  then have c: "length (clear_bits k 128 q) = 16" by (simp add: clear_bits_ok)
  have s: "same_prefix k (clear_bits k 128 q) ip \<longleftrightarrow> same_prefix k q ip" using q by (simp add: same_prefix_clear)
  have key: "clear_bits k 128 ip = clear_bits k 128 q \<longleftrightarrow> same_prefix k q ip"
    using clear_bits_eq_iff [of ip q 128 k] a q by (auto simp: same_prefix_def)
  show "hit6 (add6 s p pr hp) a port \<longleftrightarrow> hit6 s a port \<or> ip_rule_hit (p, pr, hp) a port"
  proof (cases hp)
    case True
    then show ?thesis using q key
      by (auto simp: hit6_def add6_def p a Masked_def As16_def maskIPv6_def port_ranges_add ip_rule_hit_def
          prefix_contains_def split: prod.splits)
  next
    case False
    then show ?thesis using q range6(1) [OF a(2) c(1) q(2), of "[]"] s
      by (auto simp: hit6_def add6_def p a Masked_def ipv6ToUint128_def As16_def ip_rule_hit_def
          prefix_contains_def split: prod.splits)
  qed
next
  fix s a port
  assume "valid6 s"
  then show "matches6 (compile6 s) a port \<longleftrightarrow> hit6 s a port"
    unfolding matches6_def hit6_def every_bits
    by (simp add: compile6_def valid6_def match6_merged ports_ok_match Bex_def)
qed

end
