(* ===== verification/RouteRules.thy ===== *)
theory RouteRules
  imports IpRules Socks5
begin

text \<open>
  The rule sets of \<^verbatim>\<open>cmd/server/reverse_route.go\<close> that both the reverse routes and the access
  control list use: the text of a rule, domain rules over reversed host names, address rules, the
  target of a request, and the table of reverse routes of the connected clients.
\<close>

datatype route_error =
    EmptyPort | InvalidPortRange | PortOutOfRange | RangeEndBeforeStart
  | MissingSlash | WildcardPort | InvalidDomainRule | InvalidCIDR | InvalidIPRule | InvalidPrefix96
  | AcceptRoute route_error | RejectRoute route_error

section \<open>Texts of rules\<close>

definition parsePort :: "string \<Rightarrow> route_error + u16" where
  "parsePort raw =
     (case Atoi raw of
        None \<Rightarrow> Inl PortOutOfRange
      | Some n \<Rightarrow> if n < 0 \<or> 65535 < n then Inl PortOutOfRange else Inr (word_of_int n))"

definition parsePortRange :: "string \<Rightarrow> route_error + portRange" where
  "parsePortRange raw =
     (if raw = [] then Inl EmptyPort
      else
        (let parts = Split raw (CHR ''~'')
         in if 2 < length parts then Inl InvalidPortRange
            else
              (case parsePort (parts ! 0) of
                 Inl e \<Rightarrow> Inl e
               | Inr start \<Rightarrow>
                   if length parts = 2
                   then (case parsePort (parts ! 1) of
                           Inl e \<Rightarrow> Inl e
                         | Inr end' \<Rightarrow>
                             if end' < start then Inl RangeEndBeforeStart
                             else Inr \<lparr>p_start = start, p_end = end'\<rparr>)
                   else Inr \<lparr>p_start = start, p_end = start\<rparr>)))"

definition splitCIDRPort :: "string \<Rightarrow> route_error + string \<times> portRange \<times> bool" where
  "splitCIDRPort raw =
     (case LastIndex raw (CHR ''/'') of
        None \<Rightarrow> Inl MissingSlash
      | Some slash \<Rightarrow>
          (let afterSlash = drop (slash + 1) raw
           in case LastIndex afterSlash (CHR '':'') of
                None \<Rightarrow> Inr (raw, any_port, False)
              | Some colon \<Rightarrow>
                  (case parsePortRange (drop (colon + 1) afterSlash) of
                     Inl e \<Rightarrow> Inl e
                   | Inr pr \<Rightarrow> Inr (take (slash + 1 + colon) raw, pr, True))))"

definition splitDomainPort :: "string \<Rightarrow> route_error + string \<times> portRange \<times> bool" where
  "splitDomainPort raw0 =
     (let raw = TrimSpace raw0; none = \<lparr>p_start = 0, p_end = 0\<rparr>
      in case LastIndex raw (CHR '':'') of
           None \<Rightarrow> Inr (raw, none, False)
         | Some colon \<Rightarrow>
             (let ports = drop (colon + 1) raw
              in if ports = [] then Inr (raw, none, False)
                 else if \<not> list_all (\<lambda>ch. dec_digit ch \<noteq> None \<or> ch = CHR ''~'') ports then Inr (raw, none, False)
                 else (case parsePortRange ports of
                         Inl e \<Rightarrow> Inl e
                       | Inr pr \<Rightarrow> Inr (take colon raw, pr, True))))"

section \<open>Domain rules\<close>

text \<open>\<^verbatim>\<open>reverseDomain\<close> swaps the bytes from both ends until the indices meet.\<close>

function swap_ends :: "string \<Rightarrow> nat \<Rightarrow> int \<Rightarrow> string" where
  "swap_ends b i j =
     (if int i < j then swap_ends (b[i := b ! nat j, nat j := b ! i]) (i + 1) (j - 1) else b)"
  by pat_completeness auto
termination by (relation "measure (\<lambda>(b, i, j). nat (j - int i))") auto

declare swap_ends.simps [simp del]

definition reverseDomain :: "string \<Rightarrow> string" where
  "reverseDomain host = swap_ends host 0 (int (length host) - 1)"

record domainPortRule =
  dp_value :: string
  dp_ports :: portRange

record domainRules =
  matchAll :: bool
  exactAny :: "string list"
  suffixAny :: "string list"
  exactPort :: "domainPortRule list"
  suffixPort :: "domainPortRule list"

definition domains_add :: "domainRules \<Rightarrow> string \<Rightarrow> route_error + domainRules" where
  "domains_add r raw =
     (case splitDomainPort raw of
        Inl e \<Rightarrow> Inl e
      | Inr (host0, pr, hasPort) \<Rightarrow>
          (let host1 = TrimSpace (ToLower host0)
           in if host1 = ''*'' then (if hasPort then Inl WildcardPort else Inr (r\<lparr>matchAll := True\<rparr>))
              else
                (let suffix1 = HasPrefix host1 ''*.'';
                     host2 = (if suffix1 then ''.'' @ TrimPrefix host1 ''*.'' else host1);
                     suffix = (suffix1 \<or> HasPrefix host2 ''.'');
                     host3 = (if HasPrefix host2 ''.'' then TrimPrefix host2 ''.'' else host2);
                     host = TrimSuffix host3 ''.''
                 in if host = [] \<or> ParseIP host \<noteq> None then Inl InvalidDomainRule
                    else
                      (let rv = reverseDomain host @ (if suffix then ''.'' else [])
                       in Inr (if hasPort
                               then (if suffix
                                     then r\<lparr>suffixPort := suffixPort r @ [\<lparr>dp_value = rv, dp_ports = pr\<rparr>]\<rparr>
                                     else r\<lparr>exactPort := exactPort r @ [\<lparr>dp_value = rv, dp_ports = pr\<rparr>]\<rparr>)
                               else if suffix then r\<lparr>suffixAny := suffixAny r @ [rv]\<rparr>
                               else r\<lparr>exactAny := exactAny r @ [rv]\<rparr>)))))"

text \<open>The loop that keeps a value when it differs from the last one kept.\<close>

definition drop_repeats :: "'a list \<Rightarrow> 'a list" where
  "drop_repeats values = foldl (\<lambda>out v. if out = [] \<or> last out \<noteq> v then out @ [v] else out) [] values"

definition uniqueSortedStrings :: "string list \<Rightarrow> string list" where
  "uniqueSortedStrings values = drop_repeats (sort values)"

definition containsSorted :: "string list \<Rightarrow> string \<Rightarrow> bool" where
  "containsSorted values target =
     (let idx = sort_Search (length values) (\<lambda>i. target \<le> values ! i)
      in idx < length values \<and> values ! idx = target)"

definition prefixInSorted :: "string list \<Rightarrow> string \<Rightarrow> bool" where
  "prefixInSorted pfxs target =
     (let idx = sort_Search (length pfxs) (\<lambda>i. target \<le> pfxs ! i)
      in idx < length pfxs \<and> HasPrefix target (pfxs ! idx) \<or>
         0 < idx \<and> HasPrefix target (pfxs ! (idx - 1)))"

definition domainSuffixCovered :: "string \<Rightarrow> string list \<Rightarrow> bool" where
  "domainSuffixCovered v sfxs = list_ex (\<lambda>suffix. HasPrefix v suffix) sfxs"

definition compileDomainPortRules :: "domainPortRule list \<Rightarrow> string list \<Rightarrow> string list \<Rightarrow> domainPortRule list" where
  "compileDomainPortRules rules exacts sfxs =
     (let filtered = filter (\<lambda>r. \<not> (containsSorted exacts (dp_value r) \<or> domainSuffixCovered (dp_value r) sfxs)) rules
      in drop_repeats (sort_key (\<lambda>r. (dp_value r, p_start (dp_ports r), p_end (dp_ports r))) filtered))"

definition domains_compile :: "domainRules \<Rightarrow> domainRules" where
  "domains_compile r =
     (let r1 = r\<lparr>exactAny := uniqueSortedStrings (exactAny r)\<rparr>;
          r2 = r1\<lparr>suffixAny := uniqueSortedStrings (suffixAny r1)\<rparr>;
          r3 = r2\<lparr>exactPort := compileDomainPortRules (exactPort r2) (exactAny r2) (suffixAny r2)\<rparr>
      in r3\<lparr>suffixPort := compileDomainPortRules (suffixPort r3) [] (suffixAny r3)\<rparr>)"

definition domains_match :: "domainRules \<Rightarrow> string \<Rightarrow> u16 \<Rightarrow> bool" where
  "domains_match r revHost port =
     (if matchAll r \<and> revHost \<noteq> [] then True
      else if containsSorted (exactAny r) revHost \<or> prefixInSorted (suffixAny r) revHost then True
      else if list_ex (\<lambda>rule. dp_value rule = revHost \<and> contains (dp_ports rule) port) (exactPort r) then True
      else list_ex (\<lambda>rule. HasPrefix revHost (dp_value rule) \<and> contains (dp_ports rule) port) (suffixPort r))"

section \<open>Rule sets\<close>

record routeRuleSet =
  domains :: domainRules
  ipv4 :: ipRuleSet4
  ipv6 :: ipRuleSet6

definition empty_rules :: routeRuleSet where
  "empty_rules =
     \<lparr>domains = \<lparr>matchAll = False, exactAny = [], suffixAny = [], exactPort = [], suffixPort = []\<rparr>,
      ipv4 = \<lparr>any4 = [], port4 = Map.empty\<rparr>, ipv6 = \<lparr>any6 = [], port6 = Map.empty\<rparr>\<rparr>"

definition addIPRule :: "routeRuleSet \<Rightarrow> string \<Rightarrow> route_error + routeRuleSet" where
  "addIPRule s raw =
     (case splitCIDRPort raw of
        Inl e \<Rightarrow> Inl e
      | Inr (cidr, pr, hasPort) \<Rightarrow>
          (case ParsePrefix cidr of
             None \<Rightarrow> Inl InvalidCIDR
           | Some p0 \<Rightarrow>
               (let p = Masked p0
                in if Is4 (Prefix_Addr p) then Inr (s\<lparr>ipv4 := add4 (ipv4 s) p pr hasPort\<rparr>)
                   else if Is6 (Prefix_Addr p) then Inr (s\<lparr>ipv6 := add6 (ipv6 s) p pr hasPort\<rparr>)
                   else Inl InvalidIPRule)))"

definition addIPv6Prefix96 :: "routeRuleSet \<Rightarrow> string \<Rightarrow> route_error + routeRuleSet" where
  "addIPv6Prefix96 s raw =
     (case ParsePrefix (TrimSpace raw) of
        None \<Rightarrow> Inl InvalidPrefix96
      | Some p \<Rightarrow>
          if \<not> Is6 (Prefix_Addr p) \<or> Prefix_Bits p \<noteq> 96 then Inl InvalidPrefix96
          else Inr (s\<lparr>ipv6 := add6 (ipv6 s) (Masked p) any_port False\<rparr>))"

fun add_rules :: "routeRuleSet \<Rightarrow> string list \<Rightarrow> route_error + routeRuleSet" where
  "add_rules s [] = Inr s"
| "add_rules s (raw0 # rules) =
     (let raw = TrimSpace raw0
      in if raw = [] then add_rules s rules
         else if CHR ''/'' \<in> set raw
         then (case addIPRule s raw of Inl e \<Rightarrow> Inl e | Inr s' \<Rightarrow> add_rules s' rules)
         else (case domains_add (domains s) raw of Inl e \<Rightarrow> Inl e | Inr d \<Rightarrow> add_rules (s\<lparr>domains := d\<rparr>) rules))"

definition compile_all :: "routeRuleSet \<Rightarrow> routeRuleSet" where
  "compile_all s = s\<lparr>domains := domains_compile (domains s), ipv4 := compile4 (ipv4 s), ipv6 := compile6 (ipv6 s)\<rparr>"

definition compileRouteRuleSet :: "string list \<Rightarrow> string \<Rightarrow> route_error + routeRuleSet" where
  "compileRouteRuleSet rules ipv6Prefix96 =
     (case add_rules empty_rules rules of
        Inl e \<Rightarrow> Inl e
      | Inr s \<Rightarrow>
          if TrimSpace ipv6Prefix96 \<noteq> []
          then (case addIPv6Prefix96 s ipv6Prefix96 of Inl e \<Rightarrow> Inl e | Inr s' \<Rightarrow> Inr (compile_all s'))
          else Inr (compile_all s))"

record routeTarget =
  t_host :: string
  t_revHost :: string
  t_port :: u16
  t_addr :: "naddr option"

definition makeRouteTarget :: "Request \<Rightarrow> routeTarget" where
  "makeRouteTarget req =
     (let host = TrimSuffix (ToLower (TrimSpace (rq_DstAddr req))) ''.'';
          target = \<lparr>t_host = host, t_revHost = reverseDomain host, t_port = rq_DstPort req, t_addr = None\<rparr>
      in case ParseAddr host of
           None \<Rightarrow> target
         | Some addr0 \<Rightarrow>
             (let addr = Unmap addr0; h = Addr_String addr
              in target\<lparr>t_host := h, t_revHost := reverseDomain h, t_addr := Some addr\<rparr>))"

definition route_matches :: "routeRuleSet \<Rightarrow> routeTarget \<Rightarrow> bool" where
  "route_matches s target =
     (case t_addr target of
        Some addr \<Rightarrow>
          if Is4 addr then matches4 (ipv4 s) addr (t_port target)
          else Is6 addr \<and> matches6 (ipv6 s) addr (t_port target)
      | None \<Rightarrow> domains_match (domains s) (t_revHost target) (t_port target))"

section \<open>Sorted strings\<close>

lemma swap_ends_nth:
  assumes "int i + j = int (length b) - 1" and "k < length b"
  shows "length (swap_ends b i j) = length b"
    and "swap_ends b i j ! k = (if int i \<le> int k \<and> int k \<le> j then b ! (length b - 1 - k) else b ! k)"
proof -
  have "length (swap_ends b i j) = length b \<and>
      (\<forall>k < length b. swap_ends b i j ! k = (if int i \<le> int k \<and> int k \<le> j then b ! (length b - 1 - k) else b ! k))"
    using assms(1)
  proof (induction b i j rule: swap_ends.induct)
    case (1 b i j)
    show ?case
    proof (cases "int i < j")
      case False
      then have "k < length b \<Longrightarrow> int i \<le> int k \<Longrightarrow> int k \<le> j \<Longrightarrow> length b - 1 - k = k" for k
        using "1.prems" by auto
      with False show ?thesis by (auto simp: swap_ends.simps [of b i j])
    next
      case True
      let ?b = "b[i := b ! nat j, nat j := b ! i]"
      have j: "nat j = length b - 1 - i" "i < length b" "nat j < length b" using True "1.prems" by auto
      have IH: "length (swap_ends ?b (i + 1) (j - 1)) = length b"
        "k < length b \<Longrightarrow> swap_ends ?b (i + 1) (j - 1) ! k =
          (if int (i + 1) \<le> int k \<and> int k \<le> j - 1 then ?b ! (length b - 1 - k) else ?b ! k)" for k
        using "1.IH" [OF True] "1.prems" by auto
      have "swap_ends ?b (i + 1) (j - 1) ! k = (if int i \<le> int k \<and> int k \<le> j then b ! (length b - 1 - k) else b ! k)"
        if "k < length b" for k
      proof -
        consider "k = i" | "k = nat j" | "int (i + 1) \<le> int k" "int k \<le> j - 1" | "k < i \<or> nat j < k" by linarith
        then show ?thesis
        proof cases
          case 3
          then have "length b - 1 - k \<noteq> i" "length b - 1 - k \<noteq> nat j" using True j that by linarith+
          with 3 show ?thesis using IH(2) [OF that] by simp
        next
          case 1
          then show ?thesis using IH(2) [OF that] True j by simp
        next
          case 2
          then have "length b - 1 - k = i" "int k = j" using True j by auto
          then show ?thesis using IH(2) [OF that] True 2 j(3) by simp
        next
          case 4
          then show ?thesis using IH(2) [OF that] True j by auto
        qed
      qed
      then show ?thesis using IH(1) True by (simp add: swap_ends.simps [of b i j])
    qed
  qed
  then show "length (swap_ends b i j) = length b"
    and "swap_ends b i j ! k = (if int i \<le> int k \<and> int k \<le> j then b ! (length b - 1 - k) else b ! k)"
    using assms(2) by auto
qed

lemma reverseDomain_rev [simp]: "reverseDomain host = rev host"
proof (cases "host = []")
  case True
  then show ?thesis by (simp add: reverseDomain_def swap_ends.simps)
next
  case False
  have "length (reverseDomain host) = length host"
    using swap_ends_nth(1) [of 0 "int (length host) - 1" host 0] False by (simp add: reverseDomain_def)
  moreover have "reverseDomain host ! k = rev host ! k" if "k < length host" for k
    using swap_ends_nth(2) [of 0 "int (length host) - 1" host k] that by (simp add: reverseDomain_def rev_nth)
  ultimately show ?thesis by (intro nth_equalityI) auto
qed

lemma drop_repeats_eq [simp]: "drop_repeats xs = remdups_adj xs"
proof -
  have "foldl (\<lambda>out v. if out = [] \<or> last out \<noteq> v then out @ [v] else out) (out @ [a]) xs = out @ remdups_adj (a # xs)" for out a and xs :: "'a list"
    by (induction xs arbitrary: out a) (auto simp flip: append_assoc)
  from this [of "[]"] show ?thesis by (cases xs) (simp_all add: drop_repeats_def)
qed

lemma uniqueSortedStrings_ok:
  "set (uniqueSortedStrings xs) = set xs" "sorted (uniqueSortedStrings xs)"
  by (simp_all add: uniqueSortedStrings_def sorted_remdups_adj)

lemma search_string:
  assumes "sorted (xs :: string list)" and "idx = sort_Search (length xs) (\<lambda>i. t \<le> xs ! i)"
  shows "idx \<le> length xs" and "\<And>a. a < idx \<Longrightarrow> xs ! a < t" and "\<And>a. idx \<le> a \<Longrightarrow> a < length xs \<Longrightarrow> t \<le> xs ! a"
proof -
  have mono: "t \<le> xs ! b" if "a \<le> b" "b < length xs" "t \<le> xs ! a" for a b
    using sorted_nth_mono [OF assms(1) that(1,2)] that(3) by (rule order_trans [rotated])
  show "idx \<le> length xs" unfolding assms(2) by (rule sort_Search_le)
  show "\<And>a. a < idx \<Longrightarrow> xs ! a < t"
    unfolding assms(2) using sort_Search_spec(2) [of "length xs" "\<lambda>i. t \<le> xs ! i"] mono by (meson not_le)
  have "idx < length xs \<Longrightarrow> t \<le> xs ! idx"
    unfolding assms(2) using sort_Search_spec(3) [of "length xs" "\<lambda>i. t \<le> xs ! i"] mono by blast
  then show "\<And>a. idx \<le> a \<Longrightarrow> a < length xs \<Longrightarrow> t \<le> xs ! a" using mono by (meson order_le_less_trans)
qed

lemma containsSorted_iff:
  assumes "sorted xs"
  shows "containsSorted xs t \<longleftrightarrow> t \<in> set xs"
proof
  assume "t \<in> set xs"
  then obtain k where k: "k < length xs" "xs ! k = t" by (auto simp: in_set_conv_nth)
  define idx where "idx = sort_Search (length xs) (\<lambda>i. t \<le> xs ! i)"
  note s = search_string [OF assms idx_def]
  have "idx \<le> k" using s(2) [of k] k by (meson less_irrefl not_le)
  moreover from this have "xs ! idx \<le> t" "t \<le> xs ! idx"
    using sorted_nth_mono [OF assms, of idx k] s(3) [of idx] k by auto
  ultimately show "containsSorted xs t" using k by (simp add: containsSorted_def Let_def flip: idx_def)
qed (metis containsSorted_def nth_mem)

lemma prefixInSorted_sound: "prefixInSorted xs t \<Longrightarrow> \<exists>p \<in> set xs. prefix p t"
proof -
  define idx where "idx = sort_Search (length xs) (\<lambda>i. t \<le> xs ! i)"
  assume "prefixInSorted xs t"
  then consider "idx < length xs" "prefix (xs ! idx) t" | "0 < idx" "prefix (xs ! (idx - 1)) t"
    unfolding prefixInSorted_def Let_def HasPrefix_iff idx_def by (elim disjE conjE) auto
  moreover have "idx \<le> length xs" unfolding idx_def by (rule sort_Search_le)
  ultimately show ?thesis by cases (auto intro!: bexI [OF _ nth_mem])
qed

text \<open>
  The search only looks at the two neighbours of the place of the target.  That finds a prefix when
  no entry is a prefix of another one.
\<close>

definition no_nesting :: "string list \<Rightarrow> bool" where
  "no_nesting xs \<longleftrightarrow> (\<forall>p \<in> set xs. \<forall>q \<in> set xs. prefix p q \<longrightarrow> p = q)"

lemma prefixInSorted_complete:
  assumes "sorted xs" and "no_nesting xs" and "p \<in> set xs" and "prefix p t"
  shows "prefixInSorted xs t"
proof -
  obtain k where k: "k < length xs" "xs ! k = p" using assms(3) by (auto simp: in_set_conv_nth)
  define idx where "idx = sort_Search (length xs) (\<lambda>i. t \<le> xs ! i)"
  note s = search_string [OF assms(1) idx_def]
  show ?thesis
  proof (cases "k < idx")
    case True
    then have "p \<le> xs ! (idx - 1)" "xs ! (idx - 1) < t" "idx - 1 < length xs"
      using sorted_nth_mono [OF assms(1), of k "idx - 1"] s(1) s(2) [of "idx - 1"] k by auto
    then have "prefix p (xs ! (idx - 1))" using prefix_between [OF assms(4)] by simp
    then have "xs ! (idx - 1) = p"
      using assms(2,3) nth_mem [OF \<open>idx - 1 < length xs\<close>] unfolding no_nesting_def by metis
    then show ?thesis using True assms(4) by (simp add: prefixInSorted_def Let_def HasPrefix_iff flip: idx_def)
  next
    case False
    then have "t \<le> p" using s(3) [of k] k by simp
    then have "p = t" using prefix_le [OF assms(4)] by simp
    moreover have "xs ! idx = t"
      using sorted_nth_mono [OF assms(1), of idx k] s(3) [of idx] False k \<open>p = t\<close> by simp
    ultimately show ?thesis using False k by (simp add: prefixInSorted_def Let_def HasPrefix_iff flip: idx_def)
  qed
qed

section \<open>What domain rules mean\<close>

text \<open>
  The meaning of the text of one domain rule: \<open>*\<close> stands for every host, a leading dot or
  \<open>*.\<close> for the hosts below a domain, anything else for the host itself; a port or a range of
  ports restricts the rule.
\<close>

definition domain_rule_hit :: "string \<Rightarrow> string \<Rightarrow> u16 \<Rightarrow> bool" where
  "domain_rule_hit raw host port =
     (case splitDomainPort raw of
        Inl _ \<Rightarrow> False
      | Inr (name0, pr, hasPort) \<Rightarrow>
          (let name1 = TrimSpace (ToLower name0);
               name2 = (if HasPrefix name1 ''*.'' then TrimPrefix name1 ''*'' else name1);
               name = TrimSuffix (TrimPrefix name2 ''.'') ''.''
           in if name1 = ''*'' then host \<noteq> []
              else (if HasPrefix name2 ''.'' then HasSuffix host (''.'' @ name) else host = name) \<and>
                   (hasPort \<longrightarrow> contains pr port)))"

definition domains_hit :: "domainRules \<Rightarrow> string \<Rightarrow> u16 \<Rightarrow> bool" where
  "domains_hit r revHost port \<longleftrightarrow>
     matchAll r \<and> revHost \<noteq> [] \<or> revHost \<in> set (exactAny r) \<or> (\<exists>p \<in> set (suffixAny r). prefix p revHost) \<or>
     (\<exists>d \<in> set (exactPort r). dp_value d = revHost \<and> contains (dp_ports d) port) \<or>
     (\<exists>d \<in> set (suffixPort r). prefix (dp_value d) revHost \<and> contains (dp_ports d) port)"

lemma star_dot: "HasPrefix h ''*.'' \<Longrightarrow> ''.'' @ TrimPrefix h ''*.'' = TrimPrefix h ''*'' \<and> HasPrefix (TrimPrefix h ''*'') ''.''"
  by (auto simp: HasPrefix_iff TrimPrefix_def prefix_def)

lemma domains_add_hit:
  assumes "domains_add r raw = Inr r'"
  shows "domains_hit r' (rev host) port \<longleftrightarrow> domains_hit r (rev host) port \<or> domain_rule_hit raw host port"
proof -
  obtain h0 pr hp where h: "splitDomainPort raw = Inr (h0, pr, hp)"
    using assms by (auto simp: domains_add_def split: sum.splits)
  define h1 where "h1 = TrimSpace (ToLower h0)"
  show ?thesis
  proof (cases "h1 = ''*''")
    case True
    then show ?thesis
      using assms by (auto simp: domains_add_def domain_rule_hit_def domains_hit_def h Let_def simp flip: h1_def split: if_splits)
  next
    case False
    define h2 where "h2 = (if HasPrefix h1 ''*.'' then TrimPrefix h1 ''*'' else h1)"
    define name where "name = TrimSuffix (TrimPrefix h2 ''.'') ''.''"
    have e: "(if HasPrefix h1 ''*.'' then ''.'' @ TrimPrefix h1 ''*.'' else h1) = h2"
      "HasPrefix h1 ''*.'' \<or> HasPrefix h2 ''.'' \<longleftrightarrow> HasPrefix h2 ''.''"
      "(if HasPrefix h2 ''.'' then TrimPrefix h2 ''.'' else h2) = TrimPrefix h2 ''.''"
      using star_dot [of h1] by (auto simp: h2_def TrimPrefix_def)
    have d: "domain_rule_hit raw host port \<longleftrightarrow>
        (if HasPrefix h2 ''.'' then prefix (rev name @ ''.'') (rev host) else rev host = rev name) \<and> (hp \<longrightarrow> contains pr port)"
      using False unfolding domain_rule_hit_def h Let_def sum.case prod.case h1_def [symmetric] h2_def [symmetric] name_def [symmetric]
      by (auto simp: HasSuffix_def HasPrefix_iff)
    let ?rv = "rev name @ (if HasPrefix h2 ''.'' then ''.'' else [])"
    have "r' = (if hp
        then (if HasPrefix h2 ''.''
              then r\<lparr>suffixPort := suffixPort r @ [\<lparr>dp_value = ?rv, dp_ports = pr\<rparr>]\<rparr>
              else r\<lparr>exactPort := exactPort r @ [\<lparr>dp_value = ?rv, dp_ports = pr\<rparr>]\<rparr>)
        else if HasPrefix h2 ''.'' then r\<lparr>suffixAny := suffixAny r @ [?rv]\<rparr>
        else r\<lparr>exactAny := exactAny r @ [?rv]\<rparr>)"
      using assms False unfolding domains_add_def h Let_def sum.case prod.case h1_def [symmetric] e name_def [symmetric] reverseDomain_rev
      by (simp split: if_splits)
    then show ?thesis unfolding d by (auto simp: domains_hit_def)
  qed
qed

lemma sort_key_set_repeats: "set (drop_repeats (sort_key f xs)) = set xs"
  by simp

lemma compiled_ports:
  "d \<in> set (compileDomainPortRules rules exacts sfxs) \<longleftrightarrow>
     d \<in> set rules \<and> \<not> containsSorted exacts (dp_value d) \<and> \<not> (\<exists>p \<in> set sfxs. prefix p (dp_value d))"
  by (auto simp: compileDomainPortRules_def domainSuffixCovered_def list_ex_iff HasPrefix_iff)

lemma domains_compile_fields:
  "matchAll (domains_compile r) = matchAll r"
  "exactAny (domains_compile r) = uniqueSortedStrings (exactAny r)"
  "suffixAny (domains_compile r) = uniqueSortedStrings (suffixAny r)"
  "exactPort (domains_compile r) = compileDomainPortRules (exactPort r) (uniqueSortedStrings (exactAny r)) (uniqueSortedStrings (suffixAny r))"
  "suffixPort (domains_compile r) = compileDomainPortRules (suffixPort r) [] (uniqueSortedStrings (suffixAny r))"
  by (simp_all add: domains_compile_def Let_def)

lemma domains_match_sound: "domains_match (domains_compile r) revHost port \<Longrightarrow> domains_hit r revHost port"
  by (auto simp: domains_match_def domains_hit_def domains_compile_fields list_ex_iff compiled_ports
      containsSorted_iff uniqueSortedStrings_ok HasPrefix_iff dest: prefixInSorted_sound split: if_splits)

lemma domains_match_complete:
  assumes "no_nesting (suffixAny r)" and "domains_hit r revHost port"
  shows "domains_match (domains_compile r) revHost port"
proof -
  have n: "no_nesting (uniqueSortedStrings (suffixAny r))"
    using assms(1) by (simp add: no_nesting_def uniqueSortedStrings_ok)
  have s: "prefixInSorted (uniqueSortedStrings (suffixAny r)) revHost" if "p \<in> set (suffixAny r)" "prefix p revHost" for p
    using prefixInSorted_complete [OF _ n, of p revHost] that by (simp add: uniqueSortedStrings_ok)
  from assms(2) consider "matchAll r" "revHost \<noteq> []" | "revHost \<in> set (exactAny r)"
    | p where "p \<in> set (suffixAny r)" "prefix p revHost"
    | d where "d \<in> set (exactPort r)" "dp_value d = revHost" "contains (dp_ports d) port"
    | d where "d \<in> set (suffixPort r)" "prefix (dp_value d) revHost" "contains (dp_ports d) port"
    unfolding domains_hit_def by blast
  then show ?thesis
  proof cases
    case (4 d)
    show ?thesis
    proof (cases "revHost \<in> set (exactAny r) \<or> (\<exists>p \<in> set (suffixAny r). prefix p revHost)")
      case False
      then have "d \<in> set (exactPort (domains_compile r))"
        using 4 by (auto simp: domains_compile_fields compiled_ports containsSorted_iff uniqueSortedStrings_ok)
      then show ?thesis using 4 by (auto simp: domains_match_def list_ex_iff)
    qed (auto simp: domains_match_def domains_compile_fields containsSorted_iff uniqueSortedStrings_ok dest: s)
  next
    case (5 d)
    show ?thesis
    proof (cases "\<exists>p \<in> set (suffixAny r). prefix p revHost")
      case False
      then have "\<not> prefix p (dp_value d)" if "p \<in> set (suffixAny r)" for p
        using that 5(2) prefix_order.order_trans by blast
      then have "d \<in> set (suffixPort (domains_compile r))"
        using 5(1) by (auto simp: domains_compile_fields compiled_ports containsSorted_iff uniqueSortedStrings_ok)
      then show ?thesis using 5 by (auto simp: domains_match_def list_ex_iff HasPrefix_iff)
    qed (auto simp: domains_match_def domains_compile_fields dest: s)
  qed (auto simp: domains_match_def domains_compile_fields containsSorted_iff uniqueSortedStrings_ok dest: s)
qed

section \<open>What a rule set means\<close>

lemma parseIPv4Fields_length:
  "parseIPv4Fields s start v d fs = Some ip \<Longrightarrow> length fs \<le> 3 \<Longrightarrow> length ip = 4"
  by (induction s start v d fs rule: parseIPv4Fields.induct) (auto split: option.splits if_splits)

lemma parse6_groups_length:
  "parse6_groups s ip e = Some (r, ip', e') \<Longrightarrow> even (length ip) \<Longrightarrow> length ip \<le> 16 \<Longrightarrow> length ip' \<le> 16"
proof (induction s ip e rule: parse6_groups.induct)
  case (1 s ip e)
  show ?case
  proof (cases "16 \<le> length ip")
    case True
    then show ?thesis using "1.prems" by (simp add: parse6_groups.simps [of s ip e])
  next
    case False
    then have "length ip + 2 \<le> 16" using "1.prems"(2) by presburger
    moreover obtain off acc t where t: "hex_run s 0 0 = Some (off, acc, t)" "off \<noteq> 0"
      using "1.prems"(1) False by (auto simp: parse6_groups.simps [of s ip e] split: option.splits if_splits)
    ultimately show ?thesis
      using "1.prems" "1.IH"(1) [OF False t(1) refl refl t(2)] "1.IH"(2) [OF False t(1) refl refl t(2)] False t
      by (auto simp: parse6_groups.simps [of s ip e] Let_def dest: parseIPv4Fields_length split: option.splits if_splits)
  qed
qed

lemma parseIPv6_length: "parseIPv6 s = Some ip \<Longrightarrow> length ip = 16"
  using parse6_groups_length by (fastforce simp: parseIPv6_def Let_def split: if_splits option.splits)

lemma ParseAddr_ok: "ParseAddr s = Some a \<Longrightarrow> naddr_ok a"
  by (auto simp: ParseAddr_def Let_def dest: parseIPv4Fields_length parseIPv6_length split: option.splits if_splits)

lemma Unmap_ok: "naddr_ok a \<Longrightarrow> naddr_ok (Unmap a)"
  by (cases a) (auto simp: Unmap_def)

lemma ParsePrefix_ok: "ParsePrefix s = Some p \<Longrightarrow> prefix_ok p"
  by (auto simp: ParsePrefix_def prefix_ok_def Let_def Is4_def Is6_def dest!: ParseAddr_ok split: option.splits if_splits naddr.splits)

lemma Masked_props:
  assumes "prefix_ok p"
  shows "prefix_ok (Masked p)" "Is4 (Prefix_Addr (Masked p)) = Is4 (Prefix_Addr p)"
    "Is6 (Prefix_Addr (Masked p)) = Is6 (Prefix_Addr p)" "ip_rule_hit (Masked p, pr, hp) a port = ip_rule_hit (p, pr, hp) a port"
  using assms
  by (cases p; cases "Prefix_Addr p"; cases a;
      auto simp: Masked_def prefix_ok_def Is4_def Is6_def clear_bits_ok ip_rule_hit_def prefix_contains_def same_prefix_clear)+

lemma parsePortRange_ok: "parsePortRange raw = Inr pr \<Longrightarrow> p_start pr \<le> p_end pr"
  by (auto simp: parsePortRange_def Let_def split: if_splits sum.splits)

lemma splitCIDRPort_ok: "splitCIDRPort raw = Inr (c, pr, hp) \<Longrightarrow> p_start pr \<le> p_end pr"
  by (auto simp: splitCIDRPort_def Let_def any_port_def dest: parsePortRange_ok split: option.splits sum.splits)

definition ip_text_hit :: "string \<Rightarrow> naddr \<Rightarrow> u16 \<Rightarrow> bool" where
  "ip_text_hit raw a port =
     (case splitCIDRPort raw of
        Inl _ \<Rightarrow> False
      | Inr (cidr, pr, hasPort) \<Rightarrow>
          (case ParsePrefix cidr of None \<Rightarrow> False | Some p \<Rightarrow> ip_rule_hit (p, pr, hasPort) a port))"

text \<open>A rule with a slash is for addresses, one without for names.\<close>

definition route_rule_hit :: "string \<Rightarrow> routeTarget \<Rightarrow> bool" where
  "route_rule_hit raw0 t =
     (let raw = TrimSpace raw0
      in raw \<noteq> [] \<and>
         (case t_addr t of
            Some a \<Rightarrow> CHR ''/'' \<in> set raw \<and> ip_text_hit raw a (t_port t)
          | None \<Rightarrow> CHR ''/'' \<notin> set raw \<and> domain_rule_hit raw (t_host t) (t_port t)))"

definition prefix96_hit :: "string \<Rightarrow> routeTarget \<Rightarrow> bool" where
  "prefix96_hit raw t =
     (case (t_addr t, ParsePrefix (TrimSpace raw)) of
        (Some a, Some p) \<Rightarrow> prefix_contains p a
      | _ \<Rightarrow> False)"

definition rules_hit :: "routeRuleSet \<Rightarrow> routeTarget \<Rightarrow> bool" where
  "rules_hit s t =
     (case t_addr t of
        Some a \<Rightarrow> if Is4 a then hit4 (ipv4 s) a (t_port t) else hit6 (ipv6 s) a (t_port t)
      | None \<Rightarrow> domains_hit (domains s) (t_revHost t) (t_port t))"

definition rules_valid :: "routeRuleSet \<Rightarrow> bool" where
  "rules_valid s \<longleftrightarrow> valid4 (ipv4 s) \<and> valid6 (ipv6 s)"

definition target_ok :: "routeTarget \<Rightarrow> bool" where
  "target_ok t \<longleftrightarrow> t_revHost t = rev (t_host t) \<and> (\<forall>a. t_addr t = Some a \<longrightarrow> naddr_ok a)"

lemma makeRouteTarget_ok: "target_ok (makeRouteTarget req)"
  by (auto simp: target_ok_def makeRouteTarget_def Let_def dest: ParseAddr_ok Unmap_ok split: option.splits)

lemma Is6_not4: "Is6 a \<longleftrightarrow> \<not> Is4 a"
  by (cases a) (simp_all add: Is4_def Is6_def)

lemma addIPRule_hit:
  assumes "addIPRule s raw = Inr s'" and "rules_valid s" and "target_ok t"
  shows "rules_valid s'" and "domains s' = domains s"
    and "rules_hit s' t \<longleftrightarrow> rules_hit s t \<or> (case t_addr t of Some a \<Rightarrow> ip_text_hit raw a (t_port t) | None \<Rightarrow> False)"
proof -
  obtain c pr hp p where c: "splitCIDRPort raw = Inr (c, pr, hp)" and p: "ParsePrefix c = Some p"
    using assms(1) by (auto simp: addIPRule_def split: sum.splits option.splits)
  note ok = ParsePrefix_ok [OF p] and pr = splitCIDRPort_ok [OF c]
  have s': "s' = (if Is4 (Prefix_Addr p) then s\<lparr>ipv4 := add4 (ipv4 s) (Masked p) pr hp\<rparr>
      else s\<lparr>ipv6 := add6 (ipv6 s) (Masked p) pr hp\<rparr>)"
    using assms(1) c p ok by (auto simp: addIPRule_def Masked_props Is6_not4 Let_def split: if_splits)
  then show "rules_valid s'"
    using rules4.add_valid [of "Masked p" pr "ipv4 s" hp] rules6.add_valid [of "Masked p" pr "ipv6 s" hp] assms(2) ok pr
    by (simp add: rules_valid_def Masked_props Is6_not4)
  show "domains s' = domains s" by (simp add: s')
  show "rules_hit s' t \<longleftrightarrow> rules_hit s t \<or> (case t_addr t of Some a \<Rightarrow> ip_text_hit raw a (t_port t) | None \<Rightarrow> False)"
  proof (cases "t_addr t")
    case None
    then show ?thesis by (simp add: rules_hit_def s')
  next
    case (Some a)
    have a: "naddr_ok a" using assms(3) Some by (simp add: target_ok_def)
    have other: "\<not> ip_rule_hit (p, pr, hp) a (t_port t)" if "Is4 a \<noteq> Is4 (Prefix_Addr p)"
      using that by (cases a; cases "Prefix_Addr p") (auto simp: ip_rule_hit_def prefix_contains_def Is4_def)
    show ?thesis
      using rules4.add_hit [of "Masked p" a "ipv4 s" pr hp "t_port t"] rules6.add_hit [of "Masked p" a "ipv6 s" pr hp "t_port t"] ok a other
      by (auto simp: rules_hit_def Some s' Masked_props Is6_not4 ip_text_hit_def c p)
  qed
qed

lemma add_rules_hit:
  assumes "add_rules s rules = Inr s'" and "rules_valid s" and "target_ok t"
  shows "rules_valid s' \<and> (rules_hit s' t \<longleftrightarrow> rules_hit s t \<or> (\<exists>raw \<in> set rules. route_rule_hit raw t))"
  using assms
proof (induction s rules rule: add_rules.induct)
  case (2 s raw0 rules)
  define raw where "raw = TrimSpace raw0"
  consider "raw = []" | "raw \<noteq> []" "CHR ''/'' \<in> set raw" | "raw \<noteq> []" "CHR ''/'' \<notin> set raw" by blast
  then show ?case
  proof cases
    case 1
    then show ?thesis using 2 by (auto simp: raw_def route_rule_hit_def)
  next
    case 2
    then obtain s1 where s1: "addIPRule s raw = Inr s1" "add_rules s1 rules = Inr s'"
      using "2.prems"(1) by (auto simp: Let_def simp flip: raw_def split: sum.splits)
    have h: "route_rule_hit raw0 t \<longleftrightarrow> (case t_addr t of Some a \<Rightarrow> ip_text_hit raw a (t_port t) | None \<Rightarrow> False)"
      using 2 by (auto simp: route_rule_hit_def Let_def simp flip: raw_def split: option.splits)
    show ?thesis
      using "2.IH"(2) [OF raw_def 2 s1] addIPRule_hit [OF s1(1) "2.prems"(2,3)] "2.prems"(3) h by auto
  next
    case 3
    then obtain d where d: "domains_add (domains s) raw = Inr d" "add_rules (s\<lparr>domains := d\<rparr>) rules = Inr s'"
      using "2.prems"(1) by (auto simp: Let_def simp flip: raw_def split: sum.splits)
    have h: "route_rule_hit raw0 t \<longleftrightarrow> (case t_addr t of Some a \<Rightarrow> False | None \<Rightarrow> domain_rule_hit raw (t_host t) (t_port t))"
      using 3 by (auto simp: route_rule_hit_def Let_def simp flip: raw_def split: option.splits)
    have "rules_hit (s\<lparr>domains := d\<rparr>) t \<longleftrightarrow> rules_hit s t \<or> route_rule_hit raw0 t"
      using domains_add_hit [OF d(1), of "t_host t" "t_port t"] "2.prems"(3) h
      by (auto simp: rules_hit_def target_ok_def split: option.splits)
    moreover have "rules_valid (s\<lparr>domains := d\<rparr>)" using "2.prems"(2) by (simp add: rules_valid_def)
    ultimately show ?thesis using "2.IH"(3) [OF raw_def 3 d] "2.prems"(3) by auto
  qed
qed simp

lemma rules_valid_empty: "rules_valid empty_rules" and rules_hit_empty: "\<not> rules_hit empty_rules t"
  by (auto simp: rules_valid_def empty_rules_def valid4_def valid6_def ports_ok_def port_ranges_def rules_hit_def
      hit4_def hit6_def domains_hit_def split: option.splits)

lemma addIPv6Prefix96_hit:
  assumes "addIPv6Prefix96 s raw = Inr s'" and "rules_valid s" and "target_ok t"
  shows "rules_valid s'" and "domains s' = domains s" and "rules_hit s' t \<longleftrightarrow> rules_hit s t \<or> prefix96_hit raw t"
proof -
  obtain p where p: "ParsePrefix (TrimSpace raw) = Some p" "Is6 (Prefix_Addr p)"
    and s': "s' = s\<lparr>ipv6 := add6 (ipv6 s) (Masked p) any_port False\<rparr>"
    using assms(1) by (auto simp: addIPv6Prefix96_def split: option.splits if_splits)
  note ok = ParsePrefix_ok [OF p(1)]
  show "rules_valid s'" "domains s' = domains s"
    using rules6.add_valid [of "Masked p" any_port "ipv6 s" False] assms(2) ok p(2)
    by (simp_all add: s' rules_valid_def Masked_props any_port_def)
  show "rules_hit s' t \<longleftrightarrow> rules_hit s t \<or> prefix96_hit raw t"
  proof (cases "t_addr t")
    case None
    then show ?thesis by (simp add: rules_hit_def s' prefix96_hit_def)
  next
    case (Some a)
    have a: "naddr_ok a" using assms(3) Some by (simp add: target_ok_def)
    have "\<not> prefix_contains p a" if "Is4 a"
      using that p(2) by (cases a; cases "Prefix_Addr p") (auto simp: prefix_contains_def Is4_def Is6_def)
    then show ?thesis
      using rules6.add_hit [of "Masked p" a "ipv6 s" any_port False "t_port t"] ok a p Masked_props(4) [OF ok, of any_port False a "t_port t"]
      by (auto simp: rules_hit_def Some s' Masked_props(1,2) Is6_not4 prefix96_hit_def ip_rule_hit_def)
  qed
qed

lemma compiled_hit:
  assumes "compileRouteRuleSet rules p96 = Inr set'" and "target_ok t"
  obtains s where "rules_valid s" "set' = compile_all s"
    "rules_hit s t \<longleftrightarrow> (\<exists>raw \<in> set rules. route_rule_hit raw t) \<or> TrimSpace p96 \<noteq> [] \<and> prefix96_hit p96 t"
proof -
  obtain s0 where s0: "add_rules empty_rules rules = Inr s0"
    using assms(1) by (auto simp: compileRouteRuleSet_def split: sum.splits)
  note h0 = add_rules_hit [OF s0 rules_valid_empty assms(2)]
  show thesis
  proof (cases "TrimSpace p96 = []")
    case True
    then show ?thesis using that [of s0] h0 assms(1) s0 by (simp add: compileRouteRuleSet_def rules_hit_empty)
  next
    case False
    then obtain s1 where s1: "addIPv6Prefix96 s0 p96 = Inr s1" "set' = compile_all s1"
      using assms(1) s0 by (auto simp: compileRouteRuleSet_def split: sum.splits)
    show ?thesis
      using that [OF _ s1(2)] addIPv6Prefix96_hit [OF s1(1) _ assms(2)] h0 False by (auto simp: rules_hit_empty)
  qed
qed

lemma matches_address:
  assumes "rules_valid s" and "target_ok t" and "t_addr t = Some a"
  shows "route_matches (compile_all s) t \<longleftrightarrow> rules_hit s t"
  using assms rules4.compile_matches [of "ipv4 s" a "t_port t"] rules6.compile_matches [of "ipv6 s" a "t_port t"]
  by (auto simp: route_matches_def rules_hit_def compile_all_def rules_valid_def target_ok_def Is6_not4)

lemma address_target:
  assumes "compileRouteRuleSet rules p96 = Inr set'" and "target_ok t" and "t_addr t = Some a"
  shows "route_matches set' t \<longleftrightarrow>
    (\<exists>raw \<in> set rules. route_rule_hit raw t) \<or> TrimSpace p96 \<noteq> [] \<and> prefix96_hit p96 t"
  using compiled_hit [OF assms(1,2)] matches_address [OF _ assms(2,3)] by metis

lemma domain_target:
  assumes "compileRouteRuleSet rules p96 = Inr set'" and "target_ok t" and "t_addr t = None"
  shows "route_matches set' t \<Longrightarrow> \<exists>raw \<in> set rules. route_rule_hit raw t"
    and "no_nesting (suffixAny (domains set')) \<Longrightarrow> \<exists>raw \<in> set rules. route_rule_hit raw t \<Longrightarrow> route_matches set' t"
proof -
  obtain s where s: "set' = compile_all s"
    and h: "rules_hit s t \<longleftrightarrow> (\<exists>raw \<in> set rules. route_rule_hit raw t)"
    using compiled_hit [OF assms(1,2)] assms(3) by (metis option.simps(4) prefix96_hit_def case_prod_conv)
  have n: "no_nesting (suffixAny (domains set')) \<longleftrightarrow> no_nesting (suffixAny (domains s))"
    by (simp add: s compile_all_def domains_compile_fields no_nesting_def uniqueSortedStrings_ok)
  have r: "rules_hit s t \<longleftrightarrow> domains_hit (domains s) (t_revHost t) (t_port t)"
    "route_matches set' t \<longleftrightarrow> domains_match (domains_compile (domains s)) (t_revHost t) (t_port t)"
    using assms(3) by (simp_all add: rules_hit_def route_matches_def s compile_all_def)
  show "route_matches set' t \<Longrightarrow> \<exists>raw \<in> set rules. route_rule_hit raw t"
    using domains_match_sound unfolding h [symmetric] r .
  show "no_nesting (suffixAny (domains set')) \<Longrightarrow> \<exists>raw \<in> set rules. route_rule_hit raw t \<Longrightarrow> route_matches set' t"
    using domains_match_complete unfolding h [symmetric] r n .
qed

text \<open>Rule sets without an IPv6 prefix, as the access control list compiles them.\<close>

lemma rules_exact:
  assumes "compileRouteRuleSet rules [] = Inr set'" and "target_ok t"
    and "t_addr t \<noteq> None \<or> no_nesting (suffixAny (domains set'))"
  shows "route_matches set' t \<longleftrightarrow> (\<exists>raw \<in> set rules. route_rule_hit raw t)"
proof (cases "t_addr t")
  case None
  then show ?thesis using domain_target [OF assms(1,2)] assms(3) by blast
next
  case (Some a)
  then show ?thesis using address_target [OF assms(1,2)] by (simp add: TrimSpace_def)
qed

text \<open>
  C17. Address rules.  Whatever list of rules compiles, a request for an IP address is matched
  exactly when one of the rules is a prefix that contains the address, in its first bits, and
  whose ports, if it names any, contain the port of the request, or when the address is below the
  configured IPv6 prefix.  Sorting, merging and the two searches lose and add nothing, at every
  prefix length and at the ends of the address space.
\<close>

theorem address_rules_exact:
  assumes "compileRouteRuleSet rules p96 = Inr set'" and "t_addr (makeRouteTarget req) = Some a"
  shows "route_matches set' (makeRouteTarget req) \<longleftrightarrow>
    (\<exists>raw \<in> set rules. route_rule_hit raw (makeRouteTarget req)) \<or>
    TrimSpace p96 \<noteq> [] \<and> prefix96_hit p96 (makeRouteTarget req)"
  by (rule address_target [OF assms(1) makeRouteTarget_ok assms(2)])

text \<open>
  C18. Domain rules.  A request for a host name is matched only when one of the rules means that
  name, or the name is below one of its domains, with a port the rule allows.  The converse holds
  when no domain of a rule without ports lies below another one.
\<close>

theorem domain_rules_match:
  assumes "compileRouteRuleSet rules p96 = Inr set'" and "t_addr (makeRouteTarget req) = None"
  shows "(route_matches set' (makeRouteTarget req) \<longrightarrow> (\<exists>raw \<in> set rules. route_rule_hit raw (makeRouteTarget req))) \<and>
    (no_nesting (suffixAny (domains set')) \<longrightarrow>
      (\<exists>raw \<in> set rules. route_rule_hit raw (makeRouteTarget req)) \<longrightarrow> route_matches set' (makeRouteTarget req))"
  using domain_target [OF assms(1) makeRouteTarget_ok assms(2)] by blast

text \<open>Facts that evaluate the texts of the examples.\<close>

lemmas text_eval = TrimSpace_def is_space_def ToLower_def lower_def TrimSuffix_def TrimPrefix_def HasSuffix_def HasPrefix_def
  ParseAddr_def ParseIP_def dec_digit_def splitDomainPort_def Let_def

lemma example_prefix:
  "TrimSpace [] = []" "TrimSpace ''10.0.0.0/8'' = ''10.0.0.0/8''" "splitCIDRPort ''10.0.0.0/8'' = Inr (''10.0.0.0/8'', any_port, False)"
  "ParsePrefix ''10.0.0.0/8'' = Some (Prefix (A4 [10, 0, 0, 0]) 8)"
  by (simp_all add: ParsePrefix_def ParseAddr_def dec_digit_def Is6_def Atoi_def less_eq_char_def splitCIDRPort_def
      TrimSpace_def is_space_def)

theorem address_rules_exact_witness:
  "\<exists>set'. compileRouteRuleSet [''10.0.0.0/8''] [] = Inr set' \<and>
     route_matches set' (makeRouteTarget (new_Request\<lparr>rq_DstAddr := ''10.1.2.3'', rq_DstPort := 80\<rparr>))"
proof -
  let ?t = "makeRouteTarget (new_Request\<lparr>rq_DstAddr := ''10.1.2.3'', rq_DstPort := 80\<rparr>)"
  obtain set' where c: "compileRouteRuleSet [''10.0.0.0/8''] [] = Inr set'"
    by (simp add: compileRouteRuleSet_def example_prefix addIPRule_def Masked_def Is4_def)
  have a: "t_addr ?t = Some (A4 [10, 1, 2, 3])" "t_port ?t = 80"
    by (simp_all add: makeRouteTarget_def text_eval Unmap_def)
  have "same_prefix 8 [10, 0, 0, 0] [10, 1, 2, 3]" by (auto simp: same_prefix_def addr_bit_def)
  then have "route_rule_hit ''10.0.0.0/8'' ?t"
    by (simp add: route_rule_hit_def example_prefix a ip_text_hit_def ip_rule_hit_def prefix_contains_def)
  then show ?thesis using address_rules_exact [OF c a(1)] c by auto
qed

lemma example_domains:
  "\<exists>s. compileRouteRuleSet [''.com''] [] = Inr s \<and> suffixAny (domains s) = [''moc.'']"
  "\<exists>s. compileRouteRuleSet [''.com'', ''.a.com''] [] = Inr s \<and>
     domains s = \<lparr>matchAll = False, exactAny = [], suffixAny = [''moc.'', ''moc.a.''], exactPort = [], suffixPort = []\<rparr>"
  by (simp_all add: compileRouteRuleSet_def domains_add_def text_eval empty_rules_def compile_all_def domains_compile_def
      uniqueSortedStrings_def compileDomainPortRules_def less_char_def less_eq_char_def)

lemma example_host:
  "t_addr (makeRouteTarget (new_Request\<lparr>rq_DstAddr := ''b.com'', rq_DstPort := p\<rparr>)) = None"
  "t_host (makeRouteTarget (new_Request\<lparr>rq_DstAddr := ''b.com'', rq_DstPort := p\<rparr>)) = ''b.com''"
  "t_revHost (makeRouteTarget (new_Request\<lparr>rq_DstAddr := ''b.com'', rq_DstPort := p\<rparr>)) = ''moc.b''"
  by (simp_all add: makeRouteTarget_def text_eval)

lemma example_hit: "route_rule_hit ''.com'' (makeRouteTarget (new_Request\<lparr>rq_DstAddr := ''b.com'', rq_DstPort := p\<rparr>))"
  by (simp add: route_rule_hit_def example_host domain_rule_hit_def) (simp add: text_eval)

theorem domain_rules_match_witness:
  "\<exists>set'. compileRouteRuleSet [''.com''] [] = Inr set' \<and>
     route_matches set' (makeRouteTarget (new_Request\<lparr>rq_DstAddr := ''b.com'', rq_DstPort := 80\<rparr>))"
proof -
  obtain set' where c: "compileRouteRuleSet [''.com''] [] = Inr set'" and n: "suffixAny (domains set') = [''moc.'']"
    using example_domains(1) by blast
  have "no_nesting (suffixAny (domains set'))" by (simp add: n no_nesting_def)
  then show ?thesis using domain_rules_match [OF c example_host(1)] example_hit c by auto
qed

text \<open>
  C19. The converse fails when domains are nested: with the rules \<^verbatim>\<open>.com\<close> and \<^verbatim>\<open>.a.com\<close> the search for
  \<^verbatim>\<open>b.com\<close> looks at \<^verbatim>\<open>.a.com\<close> only, so a host that the first rule covers is not matched, although
  it is matched by the first rule alone.
\<close>

theorem nested_suffix_missed:
  "\<exists>set'. compileRouteRuleSet [''.com'', ''.a.com''] [] = Inr set' \<and>
     route_rule_hit ''.com'' (makeRouteTarget (new_Request\<lparr>rq_DstAddr := ''b.com'', rq_DstPort := p\<rparr>)) \<and>
     \<not> route_matches set' (makeRouteTarget (new_Request\<lparr>rq_DstAddr := ''b.com'', rq_DstPort := p\<rparr>))"
proof -
  obtain set' where c: "compileRouteRuleSet [''.com'', ''.a.com''] [] = Inr set'"
    and d: "domains set' = \<lparr>matchAll = False, exactAny = [], suffixAny = [''moc.'', ''moc.a.''], exactPort = [], suffixPort = []\<rparr>"
    using example_domains(2) by blast
  have "sort_Search (Suc (Suc 0)) (\<lambda>i. ''moc.b'' \<le> [''moc.'', ''moc.a.''] ! i) = 2" "sort_Search 0 f = 0" for f
    by (simp_all add: sort_Search_def search_between.simps less_char_def less_eq_char_def)
  then have "\<not> route_matches set' (makeRouteTarget (new_Request\<lparr>rq_DstAddr := ''b.com'', rq_DstPort := p\<rparr>))"
    by (simp add: route_matches_def example_host domains_match_def d containsSorted_def prefixInSorted_def HasPrefix_def Let_def)
  with c example_hit show ?thesis by blast
qed

section \<open>The table of reverse routes\<close>

record compiledReverseRoute =
  accept_rules :: routeRuleSet
  reject_rules :: routeRuleSet
  priority :: u32

text \<open>A connection is a number here; what an entry holds of it is its identity.\<close>

record reverseRouteEntry =
  e_mc :: nat
  e_route :: compiledReverseRoute

definition DefaultReverseRoutePriority :: u32 where
  "DefaultReverseRoutePriority = 256"

definition PriorityValue :: "u32 option \<Rightarrow> u32" where
  "PriorityValue p = (case p of None \<Rightarrow> DefaultReverseRoutePriority | Some v \<Rightarrow> v)"

record ReverseRouteConfig =
  c_Accept :: "string list"
  c_Reject :: "string list"
  c_IPv6Prefix96 :: string
  c_Priority :: "u32 option"

definition compileReverseRouteConfig :: "ReverseRouteConfig \<Rightarrow> route_error + compiledReverseRoute" where
  "compileReverseRouteConfig cfg =
     (case compileRouteRuleSet (c_Accept cfg) (c_IPv6Prefix96 cfg) of
        Inl e \<Rightarrow> Inl (AcceptRoute e)
      | Inr accept \<Rightarrow>
          (case compileRouteRuleSet (c_Reject cfg) [] of
             Inl e \<Rightarrow> Inl (RejectRoute e)
           | Inr reject \<Rightarrow>
               Inr \<lparr>accept_rules = accept, reject_rules = reject, priority = PriorityValue (c_Priority cfg)\<rparr>))"

text \<open>The index of the first entry that does not come before the new route, or the length.\<close>

fun insert_at :: "u32 \<Rightarrow> reverseRouteEntry list \<Rightarrow> nat" where
  "insert_at prio [] = 0"
| "insert_at prio (current # out) = (if prio \<le> priority (e_route current) then 0 else Suc (insert_at prio out))"

definition register :: "reverseRouteEntry list \<Rightarrow> nat \<Rightarrow> compiledReverseRoute \<Rightarrow> reverseRouteEntry list" where
  "register entries mc route =
     (let out = filter (\<lambda>entry. e_mc entry \<noteq> mc) entries;
          insertAt = insert_at (priority route) out
      in take insertAt out @ [\<lparr>e_mc = mc, e_route = route\<rparr>] @ drop insertAt out)"

definition removeMux :: "reverseRouteEntry list \<Rightarrow> nat \<Rightarrow> reverseRouteEntry list" where
  "removeMux entries mc = filter (\<lambda>entry. e_mc entry \<noteq> mc) entries"

definition matchEntries :: "reverseRouteEntry list \<Rightarrow> Request \<Rightarrow> reverseRouteEntry list" where
  "matchEntries entries req =
     (let target = makeRouteTarget req
      in filter (\<lambda>entry. \<not> route_matches (reject_rules (e_route entry)) target \<and>
                        route_matches (accept_rules (e_route entry)) target) entries)"

definition match_entry :: "reverseRouteEntry list \<Rightarrow> Request \<Rightarrow> reverseRouteEntry option" where
  "match_entry entries req = (case matchEntries entries req of [] \<Rightarrow> None | e # _ \<Rightarrow> Some e)"

datatype route_op = Register nat compiledReverseRoute | Remove nat

fun table_step :: "reverseRouteEntry list \<Rightarrow> route_op \<Rightarrow> reverseRouteEntry list" where
  "table_step entries (Register mc route) = register entries mc route"
| "table_step entries (Remove mc) = removeMux entries mc"

text \<open>
  The specification keeps the current registrations alone, the newest first; the table is that list
  sorted by priority, where the sort keeps the order of equal priorities.
\<close>

fun spec_step :: "reverseRouteEntry list \<Rightarrow> route_op \<Rightarrow> reverseRouteEntry list" where
  "spec_step regs (Register mc route) = \<lparr>e_mc = mc, e_route = route\<rparr> # filter (\<lambda>e. e_mc e \<noteq> mc) regs"
| "spec_step regs (Remove mc) = filter (\<lambda>e. e_mc e \<noteq> mc) regs"

lemma register_insort:
  "register entries mc route =
     insort_key (\<lambda>e. priority (e_route e)) \<lparr>e_mc = mc, e_route = route\<rparr> (filter (\<lambda>e. e_mc e \<noteq> mc) entries)"
proof -
  have "take (insert_at (priority route) out) out @ [\<lparr>e_mc = mc, e_route = route\<rparr>] @ drop (insert_at (priority route) out) out =
      insort_key (\<lambda>e. priority (e_route e)) \<lparr>e_mc = mc, e_route = route\<rparr> out" for out
    by (induction out) simp_all
  then show ?thesis by (simp add: register_def Let_def)
qed

lemma table_step_refines:
  "table_step (sort_key (\<lambda>e. priority (e_route e)) regs) op = sort_key (\<lambda>e. priority (e_route e)) (spec_step regs op)"
  by (cases op) (simp_all add: register_insort removeMux_def filter_sort)

text \<open>
  C20. After any sequence of registrations and disconnections the table holds the last
  registration of every connection that is still there, sorted by priority, and among equal
  priorities the newest registration first; so a request goes to the first of these whose reject
  rules do not match and whose accept rules do.
\<close>

theorem reverse_routes_by_priority:
  "foldl table_step [] ops = sort_key (\<lambda>e. priority (e_route e)) (foldl spec_step [] ops) \<and>
   match_entry (foldl table_step [] ops) req =
     find (\<lambda>e. \<not> route_matches (reject_rules (e_route e)) (makeRouteTarget req) \<and>
               route_matches (accept_rules (e_route e)) (makeRouteTarget req))
       (sort_key (\<lambda>e. priority (e_route e)) (foldl spec_step [] ops)) \<and>
   distinct (map e_mc (foldl spec_step [] ops))"
proof -
  have t: "foldl table_step [] ops = sort_key (\<lambda>e. priority (e_route e)) (foldl spec_step [] ops)"
    by (induction ops rule: rev_induct) (simp_all add: table_step_refines)
  have "distinct (map e_mc (spec_step regs op))" if "distinct (map e_mc regs)" for regs op
    using that by (cases op) (auto simp: distinct_map_filter)
  then have d: "distinct (map e_mc (foldl spec_step [] ops))"
    by (induction ops rule: rev_induct) simp_all
  have "(case filter P xs of [] \<Rightarrow> None | e # _ \<Rightarrow> Some e) = find P xs" for P and xs :: "reverseRouteEntry list"
    by (induction xs) auto
  with t d show ?thesis by (simp add: match_entry_def matchEntries_def Let_def)
qed

end
