(* ===== verification/LruCache.thy ===== *)
theory LruCache
  imports Prelude
begin

text \<open>
  The TTL/LRU cache of \<^verbatim>\<open>pkg/lrucache/lrucache.go\<close>.

  The Go cache is a map from keys to elements of a doubly linked list whose elements hold
  the entries.  The model keeps that shape: list elements are addresses in an explicit
  store, the map holds addresses, the list is a list of addresses from front (most
  recently used) to back.  The abstract cache is the list of entries in that order, and
  every operation refines an operation on it; the invariant says that map, list and
  store agree, that keys are distinct and that the size limit holds.

  A pointer to a cache is an option: \<open>None\<close> is the nil receiver every exported method
  checks for.  The eviction loop of \<^verbatim>\<open>Put\<close> is a partial function, so that its termination
  is a theorem.
\<close>

section \<open>State\<close>

record ('k, 'v) entry =
  ent_key :: 'k
  ent_value :: 'v
  ent_lastSeen :: time

record ('k, 'v) cache =
  c_ttl :: duration
  c_maxSize :: int
  c_items :: "('k \<times> nat) list"
  c_lru :: "nat list"
  c_store :: "nat \<Rightarrow> ('k, 'v) entry option"
  c_fresh :: nat

definition ent_at :: "('k, 'v) cache \<Rightarrow> nat \<Rightarrow> ('k, 'v) entry" where
  "ent_at c a = the (c_store c a)"

section \<open>Operations\<close>

definition cache_New :: "duration \<Rightarrow> int \<Rightarrow> ('k, 'v) cache" where
  "cache_New ttl maxSize =
     \<lparr>c_ttl = ttl, c_maxSize = (if maxSize \<le> 0 then 1 else maxSize),
      c_items = [], c_lru = [], c_store = (\<lambda>_. None), c_fresh = 0\<rparr>"

definition expiredLocked :: "('k, 'v) cache \<Rightarrow> ('k, 'v) entry \<Rightarrow> time \<Rightarrow> bool" where
  "expiredLocked c ent now \<longleftrightarrow> 0 < c_ttl c \<and> c_ttl c < now - ent_lastSeen ent"

definition removeElementLocked :: "('k, 'v) cache \<Rightarrow> nat \<Rightarrow> ('k, 'v) cache" where
  "removeElementLocked c a =
     c\<lparr>c_items := AList.delete (ent_key (ent_at c a)) (c_items c),
       c_lru := remove1 a (c_lru c)\<rparr>"

text \<open>\<^verbatim>\<open>list.MoveToFront\<close> and \<^verbatim>\<open>list.PushFront\<close>; the latter allocates a fresh element.\<close>

definition moveToFront :: "nat \<Rightarrow> ('k, 'v) cache \<Rightarrow> ('k, 'v) cache" where
  "moveToFront a c = c\<lparr>c_lru := a # remove1 a (c_lru c)\<rparr>"

definition pushFront :: "('k, 'v) entry \<Rightarrow> ('k, 'v) cache \<Rightarrow> ('k, 'v) cache" where
  "pushFront ent c =
     c\<lparr>c_store := (c_store c)(c_fresh c \<mapsto> ent), c_lru := c_fresh c # c_lru c,
       c_fresh := Suc (c_fresh c)\<rparr>"

definition cache_get ::
  "('k, 'v) cache \<Rightarrow> 'k \<Rightarrow> bool \<Rightarrow> time \<Rightarrow> ('k, 'v) cache \<times> 'v option" where
  "cache_get c key refreshTTL now =
     (case map_of (c_items c) key of
        None \<Rightarrow> (c, None)
      | Some a \<Rightarrow>
          (let ent = ent_at c a
           in if expiredLocked c ent now then (removeElementLocked c a, None)
              else
                (let c1 = (if refreshTTL
                           then c\<lparr>c_store := (c_store c)(a \<mapsto> ent\<lparr>ent_lastSeen := now\<rparr>)\<rparr>
                           else c)
                 in (moveToFront a c1, Some (ent_value ent)))))"

fun prune_from :: "time \<Rightarrow> nat list \<Rightarrow> ('k, 'v) cache \<Rightarrow> ('k, 'v) cache" where
  "prune_from now [] c = c"
| "prune_from now (a # as) c =
     prune_from now as
       (if expiredLocked c (ent_at c a) now then removeElementLocked c a else c)"

definition pruneExpiredLocked :: "('k, 'v) cache \<Rightarrow> time \<Rightarrow> ('k, 'v) cache" where
  "pruneExpiredLocked c now =
     (if c_ttl c \<le> 0 then c else prune_from now (rev (c_lru c)) c)"

definition removeOldestLocked :: "('k, 'v) cache \<Rightarrow> ('k, 'v) cache" where
  "removeOldestLocked c =
     (if c_lru c = [] then c else removeElementLocked c (last (c_lru c)))"

partial_function (option) evict :: "('k, 'v) cache \<Rightarrow> ('k, 'v) cache option" where
  "evict c =
     (if c_maxSize c < int (length (c_items c)) then evict (removeOldestLocked c) else Some c)"

definition cache_put :: "('k, 'v) cache \<Rightarrow> 'k \<Rightarrow> 'v \<Rightarrow> time \<Rightarrow> ('k, 'v) cache option" where
  "cache_put c0 key v now =
     (let c = pruneExpiredLocked c0 now
      in case map_of (c_items c) key of
           Some a \<Rightarrow>
             Some (moveToFront a
               (c\<lparr>c_store := (c_store c)(a \<mapsto> (ent_at c a)\<lparr>ent_value := v, ent_lastSeen := now\<rparr>)\<rparr>))
         | None \<Rightarrow>
             (let a = c_fresh c;
                  c1 = pushFront \<lparr>ent_key = key, ent_value = v, ent_lastSeen = now\<rparr> c
              in evict (c1\<lparr>c_items := AList.update key a (c_items c1)\<rparr>)))"

definition cache_delete :: "('k, 'v) cache \<Rightarrow> 'k \<Rightarrow> ('k, 'v) cache" where
  "cache_delete c key =
     (case map_of (c_items c) key of None \<Rightarrow> c | Some a \<Rightarrow> removeElementLocked c a)"

definition cache_take :: "('k, 'v) cache \<Rightarrow> 'k \<Rightarrow> time \<Rightarrow> ('k, 'v) cache \<times> 'v option" where
  "cache_take c key now =
     (case map_of (c_items c) key of
        None \<Rightarrow> (c, None)
      | Some a \<Rightarrow>
          (let ent = ent_at c a
           in if expiredLocked c ent now then (removeElementLocked c a, None)
              else (removeElementLocked c a, Some (ent_value ent))))"

definition cache_clear :: "('k, 'v) cache \<Rightarrow> ('k, 'v) cache" where
  "cache_clear c = c\<lparr>c_items := [], c_lru := []\<rparr>"

definition cache_len :: "('k, 'v) cache \<Rightarrow> time \<Rightarrow> ('k, 'v) cache \<times> int" where
  "cache_len c now =
     (let c' = pruneExpiredLocked c now in (c', int (length (c_items c'))))"

text \<open>The exported methods, with their nil checks.\<close>

type_synonym ('k, 'v) cache_ptr = "('k, 'v) cache option"

definition cache_Get ::
  "('k, 'v) cache_ptr \<Rightarrow> 'k \<Rightarrow> time \<Rightarrow> ('k, 'v) cache_ptr \<times> 'v option" where
  "cache_Get p key now =
     (case p of None \<Rightarrow> (None, None)
      | Some c \<Rightarrow> (case cache_get c key True now of (c', r) \<Rightarrow> (Some c', r)))"

definition cache_GetNoRefresh ::
  "('k, 'v) cache_ptr \<Rightarrow> 'k \<Rightarrow> time \<Rightarrow> ('k, 'v) cache_ptr \<times> 'v option" where
  "cache_GetNoRefresh p key now =
     (case p of None \<Rightarrow> (None, None)
      | Some c \<Rightarrow> (case cache_get c key False now of (c', r) \<Rightarrow> (Some c', r)))"

definition cache_Put ::
  "('k, 'v) cache_ptr \<Rightarrow> 'k \<Rightarrow> 'v \<Rightarrow> time \<Rightarrow> ('k, 'v) cache_ptr option" where
  "cache_Put p key v now =
     (case p of None \<Rightarrow> Some None | Some c \<Rightarrow> map_option Some (cache_put c key v now))"

definition cache_Delete :: "('k, 'v) cache_ptr \<Rightarrow> 'k \<Rightarrow> ('k, 'v) cache_ptr" where
  "cache_Delete p key = map_option (\<lambda>c. cache_delete c key) p"

definition cache_Take ::
  "('k, 'v) cache_ptr \<Rightarrow> 'k \<Rightarrow> time \<Rightarrow> ('k, 'v) cache_ptr \<times> 'v option" where
  "cache_Take p key now =
     (case p of None \<Rightarrow> (None, None)
      | Some c \<Rightarrow> (case cache_take c key now of (c', r) \<Rightarrow> (Some c', r)))"

definition cache_Clear :: "('k, 'v) cache_ptr \<Rightarrow> ('k, 'v) cache_ptr" where
  "cache_Clear p = map_option cache_clear p"

definition cache_Len :: "('k, 'v) cache_ptr \<Rightarrow> time \<Rightarrow> ('k, 'v) cache_ptr \<times> int" where
  "cache_Len p now =
     (case p of None \<Rightarrow> (None, 0)
      | Some c \<Rightarrow> (case cache_len c now of (c', n) \<Rightarrow> (Some c', n)))"

section \<open>Abstract cache\<close>

text \<open>The entries from most to least recently used, and the operations on them.\<close>

definition entries :: "('k, 'v) cache \<Rightarrow> ('k, 'v) entry list" where
  "entries c = map (ent_at c) (c_lru c)"

definition stale :: "duration \<Rightarrow> time \<Rightarrow> ('k, 'v) entry \<Rightarrow> bool" where
  "stale ttl now e \<longleftrightarrow> 0 < ttl \<and> ttl < now - ent_lastSeen e"

definition without :: "'k \<Rightarrow> ('k, 'v) entry list \<Rightarrow> ('k, 'v) entry list" where
  "without key es = filter (\<lambda>e. ent_key e \<noteq> key) es"

definition spec_get ::
  "duration \<Rightarrow> 'k \<Rightarrow> bool \<Rightarrow> time \<Rightarrow> ('k, 'v) entry list \<Rightarrow> ('k, 'v) entry list \<times> 'v option" where
  "spec_get ttl key refresh now es =
     (case find (\<lambda>e. ent_key e = key) es of
        None \<Rightarrow> (es, None)
      | Some e \<Rightarrow>
          if stale ttl now e then (without key es, None)
          else ((if refresh then e\<lparr>ent_lastSeen := now\<rparr> else e) # without key es, Some (ent_value e)))"

definition spec_put ::
  "duration \<Rightarrow> int \<Rightarrow> 'k \<Rightarrow> 'v \<Rightarrow> time \<Rightarrow> ('k, 'v) entry list \<Rightarrow> ('k, 'v) entry list" where
  "spec_put ttl maxSize key v now es =
     take (nat maxSize)
       (\<lparr>ent_key = key, ent_value = v, ent_lastSeen = now\<rparr>
        # without key (filter (\<lambda>e. \<not> stale ttl now e) es))"

section \<open>Invariant\<close>

definition cache_wf :: "('k, 'v) cache \<Rightarrow> bool" where
  "cache_wf c \<longleftrightarrow>
     distinct (keys (c_items c)) \<and> distinct (c_lru c) \<and>
     (\<forall>a \<in> set (c_lru c). a < c_fresh c \<and> c_store c a \<noteq> None) \<and>
     set (c_items c) = (\<lambda>a. (ent_key (ent_at c a), a)) ` set (c_lru c)"

definition cache_inv :: "('k, 'v) cache \<Rightarrow> bool" where
  "cache_inv c \<longleftrightarrow> cache_wf c \<and> 1 \<le> c_maxSize c \<and> int (length (c_items c)) \<le> c_maxSize c"

lemma wf_lookup:
  assumes "cache_wf c"
  shows "map_of (c_items c) k = Some a \<longleftrightarrow> a \<in> set (c_lru c) \<and> ent_key (ent_at c a) = k"
  using assms by (auto simp: cache_wf_def map_of_eq_Some_iff)

lemma wf_lookup_None:
  assumes "cache_wf c"
  shows "map_of (c_items c) k = None \<longleftrightarrow> k \<notin> ent_key ` set (entries c)"
proof (cases "map_of (c_items c) k")
  case None
  then show ?thesis using wf_lookup [OF assms, of k] by (auto simp: entries_def)
next
  case (Some a)
  then have "a \<in> set (c_lru c) \<and> ent_key (ent_at c a) = k" using wf_lookup [OF assms] by blast
  with Some show ?thesis by (auto simp: entries_def)
qed

lemma wf_inj:
  assumes "cache_wf c" and "a \<in> set (c_lru c)" and "b \<in> set (c_lru c)"
    and "ent_key (ent_at c a) = ent_key (ent_at c b)"
  shows "a = b"
  using wf_lookup [OF assms(1)] assms(2-4) by (metis option.inject)

lemma wf_distinct_keys: "cache_wf c \<Longrightarrow> distinct (map ent_key (entries c))"
  by (auto simp: entries_def distinct_map cache_wf_def inj_on_def
      intro: wf_inj [unfolded cache_wf_def])

lemma wf_length:
  assumes "cache_wf c"
  shows "length (c_items c) = length (entries c)"
proof -
  have "length (c_items c) = card (set (c_items c))"
    using assms by (metis cache_wf_def distinct_card distinct_map)
  also have "\<dots> = card (set (c_lru c))"
    using assms by (simp add: cache_wf_def card_image inj_on_def)
  also have "\<dots> = length (entries c)"
    using assms by (simp add: cache_wf_def distinct_card entries_def)
  finally show ?thesis .
qed

lemma wf_find:
  assumes "cache_wf c" and "map_of (c_items c) k = Some a"
  shows "find (\<lambda>e. ent_key e = k) (entries c) = Some (ent_at c a)"
proof -
  have a: "a \<in> set (c_lru c)" "ent_key (ent_at c a) = k"
    using assms(2) wf_lookup [OF assms(1), of k a] by simp_all
  then have "find (\<lambda>e. ent_key e = k) (entries c) \<noteq> None"
    by (auto simp: find_None_iff entries_def)
  then obtain e where e: "find (\<lambda>e. ent_key e = k) (entries c) = Some e"
    by blast
  then have "e \<in> set (entries c)" "ent_key e = k"
    by (auto simp: find_Some_iff)
  then obtain b where "b \<in> set (c_lru c)" "ent_at c b = e" "ent_key e = k"
    by (auto simp: entries_def)
  with a wf_inj [OF assms(1)] e show ?thesis by metis
qed

lemma set_delete: "set (AList.delete k al) = {p \<in> set al. fst p \<noteq> k}"
  by (auto simp: AList.delete_eq)

lemma find_None_notin: "k \<notin> ent_key ` set es \<Longrightarrow> find (\<lambda>e. ent_key e = k) es = None"
  by (auto simp: find_None_iff)

lemma without_notin [simp]: "k \<notin> ent_key ` set es \<Longrightarrow> without k es = es"
  by (auto simp: without_def filter_id_conv)

lemma remove1_without:
  assumes "distinct as" and "a \<in> set as"
    and "\<And>b. b \<in> set as \<Longrightarrow> ent_key (f b) = ent_key (f a) \<Longrightarrow> b = a"
  shows "map f (remove1 a as) = without (ent_key (f a)) (map f as)"
proof -
  have "map f (filter (\<lambda>b. b \<noteq> a) as) = map f (filter (\<lambda>b. ent_key (f b) \<noteq> ent_key (f a)) as)"
    using assms by (intro arg_cong [where f = "map f"] filter_cong) auto
  then show ?thesis
    using assms by (simp add: distinct_remove1_removeAll removeAll_filter_not_eq without_def
        filter_map comp_def eq_commute [of a])
qed

lemma wf_remove1:
  assumes "cache_wf c" and "a \<in> set (c_lru c)"
  shows "map (ent_at c) (remove1 a (c_lru c)) = without (ent_key (ent_at c a)) (entries c)"
  unfolding entries_def
proof (rule remove1_without)
  show "distinct (c_lru c)" using assms(1) by (simp add: cache_wf_def)
  show "a \<in> set (c_lru c)" by fact
  show "\<And>b. b \<in> set (c_lru c) \<Longrightarrow> ent_key (ent_at c b) = ent_key (ent_at c a) \<Longrightarrow> b = a"
    using wf_inj [OF assms(1)] assms(2) by blast
qed

lemma wf_same_key:
  assumes "cache_wf c" and "a \<in> set (c_lru c)" and "e \<in> set (entries c)"
    and "ent_key e = ent_key (ent_at c a)"
  shows "e = ent_at c a"
  using assms wf_inj [OF assms(1)] by (fastforce simp: entries_def)

section \<open>Each operation keeps the invariant and refines its abstract operation\<close>

lemma ent_at_simps [simp]:
  "ent_at (c\<lparr>c_items := is\<rparr>) = ent_at c" "ent_at (c\<lparr>c_lru := as\<rparr>) = ent_at c"
  "ent_at (c\<lparr>c_fresh := n\<rparr>) = ent_at c"
  "ent_at (c\<lparr>c_store := (c_store c)(a \<mapsto> e)\<rparr>) = (ent_at c)(a := e)"
  by (auto simp: ent_at_def fun_eq_iff)

lemma entries_simps [simp]:
  "entries (c\<lparr>c_lru := as\<rparr>) = map (ent_at c) as" "entries (c\<lparr>c_items := is\<rparr>) = entries c"
  by (simp_all add: entries_def)

lemma removeElement_wf:
  assumes "cache_wf c" and "a \<in> set (c_lru c)"
  shows "cache_wf (removeElementLocked c a)"
    and "entries (removeElementLocked c a) = without (ent_key (ent_at c a)) (entries c)"
proof -
  have inj: "\<And>b. b \<in> set (c_lru c) \<Longrightarrow> ent_key (ent_at c b) = ent_key (ent_at c a) \<Longrightarrow> b = a"
    using wf_inj [OF assms(1)] assms(2) by blast
  show "cache_wf (removeElementLocked c a)"
    using assms inj
    by (auto simp: cache_wf_def removeElementLocked_def distinct_delete set_delete)
  show "entries (removeElementLocked c a) = without (ent_key (ent_at c a)) (entries c)"
    using wf_remove1 [OF assms] by (simp add: entries_def removeElementLocked_def)
qed

lemma removeElement_config [simp]:
  "c_ttl (removeElementLocked c a) = c_ttl c" "c_maxSize (removeElementLocked c a) = c_maxSize c"
  "c_fresh (removeElementLocked c a) = c_fresh c" "ent_at (removeElementLocked c a) = ent_at c"
  "c_lru (removeElementLocked c a) = remove1 a (c_lru c)"
  by (simp_all add: removeElementLocked_def)

lemma moveToFront_wf:
  assumes "cache_wf c" and "a \<in> set (c_lru c)"
    and "c' = c \<or> (\<exists>e. c' = c\<lparr>c_store := (c_store c)(a \<mapsto> e)\<rparr> \<and> ent_key e = ent_key (ent_at c a))"
  shows "cache_wf (moveToFront a c')"
    and "entries (moveToFront a c') = ent_at c' a # without (ent_key (ent_at c a)) (entries c)"
proof -
  have lru: "c_lru c' = c_lru c" and items: "c_items c' = c_items c" and fresh: "c_fresh c' = c_fresh c"
    and keys: "\<And>b. ent_key (ent_at c' b) = ent_key (ent_at c b)"
    and ents: "\<And>b. b \<noteq> a \<Longrightarrow> ent_at c' b = ent_at c b"
    and store: "\<And>b. c_store c b \<noteq> None \<Longrightarrow> c_store c' b \<noteq> None"
    using assms(3) by auto
  have set: "set (a # remove1 a (c_lru c)) = set (c_lru c)"
    using assms by (auto simp: cache_wf_def)
  show "cache_wf (moveToFront a c')"
    using assms(1,2) set store by (auto simp: cache_wf_def moveToFront_def lru items fresh keys)
  have "map (ent_at c') (remove1 a (c_lru c)) = map (ent_at c) (remove1 a (c_lru c))"
    using assms(1) by (auto simp: cache_wf_def intro: ents)
  then show "entries (moveToFront a c') = ent_at c' a # without (ent_key (ent_at c a)) (entries c)"
    using wf_remove1 [OF assms(1,2)] by (simp add: moveToFront_def lru)
qed

lemma config_simps [simp]:
  "c_ttl (moveToFront a c) = c_ttl c" "c_maxSize (moveToFront a c) = c_maxSize c"
  "c_ttl (pushFront e c) = c_ttl c" "c_maxSize (pushFront e c) = c_maxSize c"
  by (simp_all add: moveToFront_def pushFront_def)

lemma expired_stale: "expiredLocked c e now \<longleftrightarrow> stale (c_ttl c) now e"
  by (simp add: expiredLocked_def stale_def)

lemma prune_from_wf:
  assumes "cache_wf c" and "set as \<subseteq> set (c_lru c)" and "distinct as"
  shows "cache_wf (prune_from now as c) \<and> c_ttl (prune_from now as c) = c_ttl c \<and>
    c_maxSize (prune_from now as c) = c_maxSize c \<and>
    entries (prune_from now as c) =
      filter (\<lambda>e. \<not> (stale (c_ttl c) now e \<and> ent_key e \<in> ent_key ` ent_at c ` set as)) (entries c)"
  using assms
proof (induction as arbitrary: c)
  case Nil
  then show ?case by (simp add: filter_True)
next
  case (Cons a as)
  show ?case
  proof (cases "expiredLocked c (ent_at c a) now")
    case True
    let ?c = "removeElementLocked c a"
    have a: "a \<in> set (c_lru c)" using Cons.prems by simp
    have "set as \<subseteq> set (c_lru ?c)"
      using Cons.prems by (auto simp: cache_wf_def)
    then show ?thesis
      using Cons.IH [of ?c] removeElement_wf [OF Cons.prems(1) a] Cons.prems True
        wf_same_key [OF Cons.prems(1) a]
      by (fastforce simp: without_def expired_stale intro!: filter_cong)
  next
    case False
    then have "e \<in> set (entries c) \<Longrightarrow> stale (c_ttl c) now e \<Longrightarrow> ent_key e \<noteq> ent_key (ent_at c a)" for e
      using wf_same_key [of c a e] Cons.prems by (auto simp: expired_stale)
    with Cons False show ?thesis
      by (auto intro!: filter_cong)
  qed
qed

lemma prune_wf:
  assumes "cache_wf c"
  shows "cache_wf (pruneExpiredLocked c now)"
    and "c_ttl (pruneExpiredLocked c now) = c_ttl c"
    and "c_maxSize (pruneExpiredLocked c now) = c_maxSize c"
    and "entries (pruneExpiredLocked c now) = filter (\<lambda>e. \<not> stale (c_ttl c) now e) (entries c)"
proof -
  have "distinct (rev (c_lru c))" using assms by (simp add: cache_wf_def)
  note * = prune_from_wf [OF assms _ this, of now]
  show "cache_wf (pruneExpiredLocked c now)" "c_ttl (pruneExpiredLocked c now) = c_ttl c"
    "c_maxSize (pruneExpiredLocked c now) = c_maxSize c"
    using * assms by (auto simp: pruneExpiredLocked_def)
  show "entries (pruneExpiredLocked c now) = filter (\<lambda>e. \<not> stale (c_ttl c) now e) (entries c)"
    using * by (auto simp: pruneExpiredLocked_def stale_def filter_id_conv entries_def
        intro!: filter_cong)
qed

lemma prune_inv:
  assumes "cache_inv c"
  shows "cache_inv (pruneExpiredLocked c now)"
proof -
  have wf: "cache_wf c" using assms by (simp add: cache_inv_def)
  have "length (c_items (pruneExpiredLocked c now)) \<le> length (c_items c)"
    using prune_wf [OF wf] by (simp add: wf_length wf)
  with assms prune_wf [OF wf] show ?thesis by (auto simp: cache_inv_def)
qed

lemma evict_wf:
  assumes "cache_wf c" and "1 \<le> c_maxSize c"
  shows "\<exists>c'. evict c = Some c' \<and> cache_inv c' \<and> c_ttl c' = c_ttl c \<and> c_maxSize c' = c_maxSize c \<and>
    entries c' = take (nat (c_maxSize c)) (entries c)"
  using assms
proof (induction "length (c_lru c)" arbitrary: c rule: less_induct)
  case less
  show ?case
  proof (cases "c_maxSize c < int (length (c_items c))")
    case False
    then have "evict c = Some c" by (simp add: evict.simps)
    moreover have "take (nat (c_maxSize c)) (entries c) = entries c"
      using False less.prems by (simp add: wf_length)
    ultimately show ?thesis using less.prems False by (auto simp: cache_inv_def)
  next
    case True
    let ?b = "last (c_lru c)"
    have ne: "c_lru c \<noteq> []" using True less.prems by (auto simp: wf_length entries_def)
    let ?c = "removeElementLocked c ?b"
    have b: "?b \<in> set (c_lru c)" using ne by simp
    have wf: "cache_wf ?c" using removeElement_wf(1) [OF less.prems(1) b] .
    have "remove1 ?b (c_lru c) = butlast (c_lru c)"
      using ne less.prems(1) by (metis append_butlast_last_id cache_wf_def distinct_append
          disjoint_insert(1) list.simps(15) remove1.simps(2) remove1_append append_Nil2)
    then have ents: "entries ?c = butlast (entries c)"
      by (simp add: entries_def map_butlast)
    have step: "evict c = evict ?c"
      using True ne by (simp add: evict.simps [of c] removeOldestLocked_def)
    have "length (c_lru ?c) < length (c_lru c)"
      using ne by (simp add: length_remove1)
    then obtain c' where c': "evict ?c = Some c'" "cache_inv c'" "c_ttl c' = c_ttl c"
      "c_maxSize c' = c_maxSize c" "entries c' = take (nat (c_maxSize c)) (entries ?c)"
      using less.hyps [of ?c] wf less.prems(2) by auto
    moreover have "take (nat (c_maxSize c)) (butlast (entries c)) = take (nat (c_maxSize c)) (entries c)"
      using True less.prems by (simp add: wf_length take_butlast)
    ultimately show ?thesis using step ents by auto
  qed
qed

text \<open>Lookup, insertion, deletion and the atomic take, over the abstract entries.\<close>

lemma get_refines:
  assumes "cache_inv c"
  shows "cache_inv (fst (cache_get c k r now)) \<and>
    (entries (fst (cache_get c k r now)), snd (cache_get c k r now)) =
      spec_get (c_ttl c) k r now (entries c) \<and>
    c_ttl (fst (cache_get c k r now)) = c_ttl c \<and>
    c_maxSize (fst (cache_get c k r now)) = c_maxSize c"
proof -
  have wf: "cache_wf c" using assms by (simp add: cache_inv_def)
  show ?thesis
  proof (cases "map_of (c_items c) k")
    case None
    then show ?thesis
      using assms wf_lookup_None [OF wf, of k] by (simp add: cache_get_def None spec_get_def find_None_notin)
  next
    case (Some a)
    then have a: "a \<in> set (c_lru c)" "ent_key (ent_at c a) = k"
      using wf_lookup [OF wf] by auto
    have less: "length (without k es) \<le> length es" for es :: "('a, 'b) entry list"
      by (simp add: without_def)
    show ?thesis
    proof (cases "expiredLocked c (ent_at c a) now")
      case True
      then show ?thesis
        using assms Some removeElement_wf [OF wf a(1)] a(2) wf_find [OF wf Some] less [of "entries c"]
        by (auto simp: cache_get_def spec_get_def Let_def expired_stale cache_inv_def wf_length)
    next
      case False
      let ?c1 = "if r then c\<lparr>c_store := (c_store c)(a \<mapsto> (ent_at c a)\<lparr>ent_lastSeen := now\<rparr>)\<rparr> else c"
      have get: "cache_get c k r now = (moveToFront a ?c1, Some (ent_value (ent_at c a)))"
        using False Some by (simp add: cache_get_def Let_def)
      have mf: "cache_wf (moveToFront a ?c1)"
        "entries (moveToFront a ?c1) = ent_at ?c1 a # without (ent_key (ent_at c a)) (entries c)"
        by (rule moveToFront_wf [OF wf a(1)]; auto)+
      have "length (c_items (moveToFront a ?c1)) = length (c_items c)"
        by (simp add: moveToFront_def)
      then show ?thesis
        using assms get mf a(2) wf_find [OF wf Some] False
        by (auto simp: spec_get_def expired_stale cache_inv_def)
    qed
  qed
qed

lemma put_refines:
  assumes "cache_inv c"
  shows "\<exists>c'. cache_put c k v now = Some c' \<and> cache_inv c' \<and>
    entries c' = spec_put (c_ttl c) (c_maxSize c) k v now (entries c) \<and>
    c_ttl c' = c_ttl c \<and> c_maxSize c' = c_maxSize c"
proof -
  let ?p = "pruneExpiredLocked c now"
  let ?new = "\<lparr>ent_key = k, ent_value = v, ent_lastSeen = now\<rparr>"
  have wf: "cache_wf c" using assms by (simp add: cache_inv_def)
  have inv: "cache_inv ?p" by (rule prune_inv [OF assms])
  have pwf: "cache_wf ?p" by (rule prune_wf [OF wf])
  show ?thesis
  proof (cases "map_of (c_items ?p) k")
    case (Some a)
    then have a: "a \<in> set (c_lru ?p)" "ent_key (ent_at ?p a) = k"
      using wf_lookup [OF pwf] by auto
    let ?c1 = "?p\<lparr>c_store := (c_store ?p)(a \<mapsto> (ent_at ?p a)\<lparr>ent_value := v, ent_lastSeen := now\<rparr>)\<rparr>"
    have mf: "cache_wf (moveToFront a ?c1)"
      "entries (moveToFront a ?c1) = ent_at ?c1 a # without (ent_key (ent_at ?p a)) (entries ?p)"
      by (rule moveToFront_wf [OF pwf a(1)]; auto)+
    have put: "cache_put c k v now = Some (moveToFront a ?c1)"
      using Some by (simp add: cache_put_def Let_def)
    have new: "(ent_at ?p a)\<lparr>ent_value := v, ent_lastSeen := now\<rparr> = ?new" using a(2) by simp
    have items: "length (c_items (moveToFront a ?c1)) = length (c_items ?p)"
      by (simp add: moveToFront_def)
    have "length (entries (moveToFront a ?c1)) \<le> nat (c_maxSize c)"
      using wf_length [OF mf(1)] items inv prune_wf(3) [OF wf, of now]
      by (auto simp: cache_inv_def le_nat_iff)
    moreover have "entries (moveToFront a ?c1) =
        ?new # without k (filter (\<lambda>e. \<not> stale (c_ttl c) now e) (entries c))"
      using mf(2) a(2) prune_wf(4) [OF wf, of now] by (simp add: new)
    ultimately have "spec_put (c_ttl c) (c_maxSize c) k v now (entries c) = entries (moveToFront a ?c1)"
      unfolding spec_put_def by (metis take_all)
    moreover have "cache_inv (moveToFront a ?c1)"
      using mf(1) inv items by (simp add: cache_inv_def)
    ultimately show ?thesis
      using put prune_wf(2,3) [OF wf, of now] by simp
  next
    case None
    let ?a = "c_fresh ?p"
    let ?c1 = "pushFront ?new ?p"
    let ?c2 = "?c1\<lparr>c_items := AList.update k ?a (c_items ?c1)\<rparr>"
    have k: "k \<notin> ent_key ` set (entries ?p)" using None wf_lookup_None [OF pwf] by simp
    have fresh: "?a \<notin> set (c_lru ?p)" using pwf by (auto simp: cache_wf_def)
    have ents: "entries ?c2 = ?new # entries ?p"
      using fresh by (auto simp: pushFront_def entries_def)
    have items: "c_items ?c2 = c_items ?p @ [(k, ?a)]"
      using None by (simp add: pushFront_def update_notin map_of_eq_None_iff)
    have "cache_wf ?c2"
      using pwf fresh k None unfolding cache_wf_def items
      by (auto simp: pushFront_def map_of_eq_None_iff entries_def image_iff)
    then obtain c' where "evict ?c2 = Some c'" "cache_inv c'" "c_ttl c' = c_ttl ?c2"
      "c_maxSize c' = c_maxSize ?c2" "entries c' = take (nat (c_maxSize ?c2)) (entries ?c2)"
      using evict_wf [of ?c2] inv by (auto simp: cache_inv_def)
    moreover have "cache_put c k v now = evict ?c2"
      by (simp add: cache_put_def Let_def None)
    ultimately show ?thesis
      using ents k prune_wf [OF wf, of now] by (simp add: spec_put_def)
  qed
qed

lemma new_inv: "cache_inv (cache_New ttl maxSize) \<and> entries (cache_New ttl maxSize) = []"
  by (simp add: cache_New_def cache_inv_def cache_wf_def entries_def)

lemma delete_refines:
  assumes "cache_inv c"
  shows "cache_inv (cache_delete c k) \<and> entries (cache_delete c k) = without k (entries c) \<and>
    c_ttl (cache_delete c k) = c_ttl c \<and> c_maxSize (cache_delete c k) = c_maxSize c"
proof -
  have wf: "cache_wf c" using assms by (simp add: cache_inv_def)
  show ?thesis
  proof (cases "map_of (c_items c) k")
    case None
    then show ?thesis
      using assms wf_lookup_None [OF wf, of k] by (simp add: cache_delete_def None)
  next
    case (Some a)
    then have a: "a \<in> set (c_lru c)" "ent_key (ent_at c a) = k"
      using wf_lookup [OF wf] by auto
    have "length (without k (entries c)) \<le> length (entries c)"
      by (simp add: without_def)
    then show ?thesis
      using assms Some removeElement_wf [OF wf a(1)] a(2)
      by (auto simp: cache_delete_def cache_inv_def wf_length)
  qed
qed

lemma take_refines:
  assumes "cache_inv c"
  shows "fst (cache_take c k now) = cache_delete c k"
    and "snd (cache_take c k now) = snd (spec_get (c_ttl c) k False now (entries c))"
proof -
  have wf: "cache_wf c" using assms by (simp add: cache_inv_def)
  show "fst (cache_take c k now) = cache_delete c k"
    by (simp add: cache_take_def cache_delete_def Let_def split: option.splits)
  show "snd (cache_take c k now) = snd (spec_get (c_ttl c) k False now (entries c))"
  proof (cases "map_of (c_items c) k")
    case None
    then show ?thesis
      using wf_lookup_None [OF wf, of k] by (simp add: cache_take_def None spec_get_def find_None_notin)
  next
    case (Some a)
    then show ?thesis
      using wf_find [OF wf Some] by (simp add: cache_take_def spec_get_def Let_def expired_stale)
  qed
qed

lemma clear_inv: "cache_inv c \<Longrightarrow> cache_inv (cache_clear c) \<and> entries (cache_clear c) = []"
  by (simp add: cache_clear_def cache_inv_def cache_wf_def entries_def)

lemma len_refines:
  assumes "cache_inv c"
  shows "snd (cache_len c now) = int (length (filter (\<lambda>e. \<not> stale (c_ttl c) now e) (entries c)))"
  using assms prune_wf [of c now] wf_length [of "pruneExpiredLocked c now"]
  by (simp add: cache_len_def Let_def cache_inv_def)

section \<open>The contract clients rely on\<close>

text \<open>
  What a reader at time \<open>now\<close> gets for a key, and the laws of the operations over it.
  The caches of the program (connect cache, DNS cache, pending DNS queries, fake DNS
  names and addresses) are clients of this interface.
\<close>

definition cache_lookup :: "('k, 'v) cache \<Rightarrow> 'k \<Rightarrow> time \<Rightarrow> 'v option" where
  "cache_lookup c k now =
     (case find (\<lambda>e. ent_key e = k) (entries c) of
        None \<Rightarrow> None
      | Some e \<Rightarrow> if stale (c_ttl c) now e then None else Some (ent_value e))"

definition fresh_for :: "duration \<Rightarrow> time \<Rightarrow> time \<Rightarrow> bool" where
  "fresh_for ttl stored now \<longleftrightarrow> ttl \<le> 0 \<or> now - stored \<le> ttl"

locale ttl_cache =
  fixes invar :: "'c \<Rightarrow> bool"
    and ttl :: "'c \<Rightarrow> duration"
    and lookup :: "'c \<Rightarrow> 'k \<Rightarrow> time \<Rightarrow> 'v option"
    and get :: "'c \<Rightarrow> 'k \<Rightarrow> bool \<Rightarrow> time \<Rightarrow> 'c \<times> 'v option"
    and put :: "'c \<Rightarrow> 'k \<Rightarrow> 'v \<Rightarrow> time \<Rightarrow> 'c option"
    and del :: "'c \<Rightarrow> 'k \<Rightarrow> 'c"
  assumes get_value: "invar c \<Longrightarrow> snd (get c k r now) = lookup c k now"
    and get_invar: "invar c \<Longrightarrow> invar (fst (get c k r now))"
    and get_other: "invar c \<Longrightarrow> k' \<noteq> k \<Longrightarrow> lookup (fst (get c k r now)) k' now' = lookup c k' now'"
    and get_self: "invar c \<Longrightarrow> now \<le> now' \<Longrightarrow> lookup (fst (get c k False now)) k now' = lookup c k now'"
    and get_sound: "invar c \<Longrightarrow> lookup (fst (get c k r now)) k now' = Some v \<Longrightarrow> lookup c k now = Some v"
    and put_returns: "invar c \<Longrightarrow> \<exists>c'. put c k v now = Some c' \<and> invar c' \<and> ttl c' = ttl c"
    and put_self: "invar c \<Longrightarrow> put c k v now = Some c' \<Longrightarrow>
      lookup c' k now' = (if fresh_for (ttl c) now now' then Some v else None)"
    and put_other: "invar c \<Longrightarrow> put c k v now = Some c' \<Longrightarrow> k' \<noteq> k \<Longrightarrow>
      lookup c' k' now' = Some w \<Longrightarrow> lookup c k' now' = Some w"
    and del_invar: "invar c \<Longrightarrow> invar (del c k)"
    and del_lookup: "invar c \<Longrightarrow> lookup (del c k) k' now = (if k' = k then None else lookup c k' now)"
begin

text \<open>
  A client that only stores values with \<open>P key value\<close> only ever reads such values back,
  at whatever time it reads.
\<close>

definition holds :: "('k \<Rightarrow> 'v \<Rightarrow> bool) \<Rightarrow> 'c \<Rightarrow> bool" where
  "holds P c \<longleftrightarrow> (\<forall>k v now. lookup c k now = Some v \<longrightarrow> P k v)"

lemma holds_put: "invar c \<Longrightarrow> holds P c \<Longrightarrow> P k v \<Longrightarrow> put c k v now = Some c' \<Longrightarrow> holds P c'"
  unfolding holds_def using put_self put_other by (metis option.distinct(1) option.inject)

lemma holds_get: "invar c \<Longrightarrow> holds P c \<Longrightarrow> holds P (fst (get c k r now))"
  unfolding holds_def using get_other get_sound by metis

lemma holds_del: "invar c \<Longrightarrow> holds P c \<Longrightarrow> holds P (del c k)"
  unfolding holds_def using del_lookup by (metis option.distinct(1))

lemma holds_read: "invar c \<Longrightarrow> holds P c \<Longrightarrow> snd (get c k r now) = Some v \<Longrightarrow> P k v"
  unfolding holds_def using get_value by metis

lemma read_after_put:
  "invar c \<Longrightarrow> put c k v now = Some c' \<Longrightarrow> fresh_for (ttl c) now now' \<Longrightarrow>
    snd (get c' k r now') = Some v"
  using put_self get_value put_returns by (metis option.inject)

end

lemma find_other:
  "k' \<noteq> k \<Longrightarrow> find (\<lambda>e. ent_key e = k') (without k es) = find (\<lambda>e. ent_key e = k') es"
  by (induction es) (auto simp: without_def)

lemma find_without_self: "find (\<lambda>e. ent_key e = k) (without k es) = None"
  by (auto simp: find_None_iff without_def)

lemma find_take_Some:
  "find P (take n es) = Some e \<Longrightarrow> find P es = Some e"
  by (induction es arbitrary: n) (auto simp: take_Cons split: nat.splits if_splits)

lemma find_SomeD: "find P es = Some e \<Longrightarrow> e \<in> set es \<and> P e"
  by (auto simp: find_Some_iff)

lemma find_filter_fresh:
  assumes "distinct (map ent_key es)" and "find (\<lambda>e. ent_key e = k) (filter Q es) = Some e"
  shows "find (\<lambda>e. ent_key e = k) es = Some e"
  using assms
proof (induction es)
  case (Cons x es)
  show ?case
  proof (cases "Q x")
    case True
    with Cons show ?thesis by (auto split: if_splits)
  next
    case False
    with Cons have rest: "find (\<lambda>e. ent_key e = k) es = Some e" by simp
    then have "ent_key e \<in> ent_key ` set es \<and> ent_key e = k" by (auto simp: find_Some_iff)
    with Cons.prems(1) have "ent_key x \<noteq> k" by auto
    with rest show ?thesis by simp
  qed
qed simp

lemma get_lookup_other:
  assumes "cache_inv c" and "k' \<noteq> k"
  shows "cache_lookup (fst (cache_get c k r now)) k' now' = cache_lookup c k' now'"
proof -
  have eq: "entries (fst (cache_get c k r now)) = fst (spec_get (c_ttl c) k r now (entries c))"
    "c_ttl (fst (cache_get c k r now)) = c_ttl c"
    using get_refines [OF assms(1), of k r now] by (metis fst_conv)+
  have "find (\<lambda>e. ent_key e = k') (fst (spec_get (c_ttl c) k r now (entries c))) =
      find (\<lambda>e. ent_key e = k') (entries c)"
  proof (cases "find (\<lambda>e. ent_key e = k) (entries c)")
    case (Some e)
    then have "ent_key e = k" by (blast dest: find_SomeD)
    with Some assms(2) show ?thesis by (simp add: spec_get_def find_other)
  qed (simp add: spec_get_def)
  then show ?thesis unfolding cache_lookup_def eq by simp
qed

lemma get_lookup_self:
  assumes "cache_inv c"
  shows "snd (cache_get c k r now) = cache_lookup c k now"
    and "now \<le> now' \<Longrightarrow> cache_lookup (fst (cache_get c k False now)) k now' = cache_lookup c k now'"
    and "cache_lookup (fst (cache_get c k r now)) k now' = Some v \<Longrightarrow> cache_lookup c k now = Some v"
proof -
  have eq: "entries (fst (cache_get c k r now)) = fst (spec_get (c_ttl c) k r now (entries c))"
    "c_ttl (fst (cache_get c k r now)) = c_ttl c"
    "snd (cache_get c k r now) = snd (spec_get (c_ttl c) k r now (entries c))" for r
    using get_refines [OF assms, of k r now] by (metis fst_conv snd_conv)+
  show "snd (cache_get c k r now) = cache_lookup c k now"
    by (simp add: eq spec_get_def cache_lookup_def split: option.splits)
  have self: "cache_lookup (fst (cache_get c k r now)) k now' =
      (if cache_lookup c k now = None then None
       else if r then (if stale (c_ttl c) now' \<lparr>ent_key = k, ent_value = the (cache_lookup c k now),
              ent_lastSeen = now\<rparr> then None else cache_lookup c k now)
       else cache_lookup c k now')" for r
  proof (cases "find (\<lambda>e. ent_key e = k) (entries c)")
    case None
    then show ?thesis unfolding cache_lookup_def eq by (simp add: spec_get_def)
  next
    case (Some e)
    then have "ent_key e = k" by (blast dest: find_SomeD)
    with Some show ?thesis
      unfolding cache_lookup_def eq by (simp add: spec_get_def find_without_self stale_def)
  qed
  show "now \<le> now' \<Longrightarrow> cache_lookup (fst (cache_get c k False now)) k now' = cache_lookup c k now'"
    by (auto simp: self) (auto simp: cache_lookup_def stale_def split: option.splits if_splits)
  show "cache_lookup (fst (cache_get c k r now)) k now' = Some v \<Longrightarrow> cache_lookup c k now = Some v"
    by (auto simp: self split: if_splits) (auto simp: cache_lookup_def split: option.splits if_splits)
qed

lemma put_lookup:
  assumes "cache_inv c" and "cache_put c k v now = Some c'"
  shows "cache_lookup c' k now' = (if fresh_for (c_ttl c) now now' then Some v else None)"
    and "k' \<noteq> k \<Longrightarrow> cache_lookup c' k' now' = Some w \<Longrightarrow> cache_lookup c k' now' = Some w"
proof -
  have eq: "entries c' = spec_put (c_ttl c) (c_maxSize c) k v now (entries c)" "c_ttl c' = c_ttl c"
    and inv: "cache_inv c'"
    using put_refines [OF assms(1), of k v now] assms(2) by auto
  have pos: "0 < nat (c_maxSize c)" using assms(1) by (simp add: cache_inv_def)
  obtain n where n: "nat (c_maxSize c) = Suc n" using pos gr0_implies_Suc by blast
  show "cache_lookup c' k now' = (if fresh_for (c_ttl c) now now' then Some v else None)"
    unfolding cache_lookup_def eq spec_put_def n by (simp add: stale_def fresh_for_def)
  assume k': "k' \<noteq> k" and "cache_lookup c' k' now' = Some w"
  then obtain e where e: "find (\<lambda>e. ent_key e = k') (entries c') = Some e"
    and fresh: "\<not> stale (c_ttl c) now' e" "w = ent_value e"
    by (auto simp: cache_lookup_def eq(2) split: option.splits if_splits)
  have "find (\<lambda>e. ent_key e = k') (\<lparr>ent_key = k, ent_value = v, ent_lastSeen = now\<rparr> #
      without k (filter (\<lambda>e. \<not> stale (c_ttl c) now e) (entries c))) = Some e"
    using e unfolding eq spec_put_def by (rule find_take_Some)
  then have kept: "find (\<lambda>e. ent_key e = k') (filter (\<lambda>e. \<not> stale (c_ttl c) now e) (entries c)) = Some e"
    using k' by (simp add: find_other)
  have "distinct (map ent_key (entries c))"
    using assms(1) by (simp add: cache_inv_def wf_distinct_keys)
  then have "find (\<lambda>e. ent_key e = k') (entries c) = Some e"
    using kept by (rule find_filter_fresh)
  then show "cache_lookup c k' now' = Some w"
    using fresh by (simp add: cache_lookup_def)
qed

interpretation lru: ttl_cache cache_inv c_ttl cache_lookup cache_get cache_put cache_delete
proof (unfold_locales, goal_cases)
  case (1 c k r now)
  then show ?case by (rule get_lookup_self)
next
  case (2 c k r now)
  then show ?case using get_refines [of c k r now] by simp
next
  case (3 c k' k r now now')
  then show ?case by (rule get_lookup_other)
next
  case (4 c now now' k)
  then show ?case by (rule get_lookup_self)
next
  case (5 c k r now now' v)
  then show ?case by (rule get_lookup_self(3))
next
  case (6 c k v now)
  then show ?case using put_refines [of c k v now] by auto
next
  case (7 c k v now c' now')
  then show ?case by (rule put_lookup(1))
next
  case (8 c k v now c' k' now' w)
  show ?case by (rule put_lookup(2) [OF 8])
next
  case (9 c k)
  then show ?case using delete_refines [of c k] by simp
next
  case (10 c k k' now)
  then show ?case
    using delete_refines [of c k]
    by (simp add: cache_lookup_def find_other find_without_self split: option.split)
qed

section \<open>Runs of the cache and its eviction order\<close>

text \<open>
  A run of exported operations on a non-nil cache, each with the time it reads.  \<open>None\<close>
  is an eviction loop that does not end.
\<close>

datatype ('k, 'v) cache_op =
  OpGet 'k | OpGetNoRefresh 'k | OpPut 'k 'v | OpDelete 'k | OpTake 'k | OpLen

fun op_keys :: "('k, 'v) cache_op \<Rightarrow> 'k set" where
  "op_keys (OpGet k) = {k}"
| "op_keys (OpGetNoRefresh k) = {k}"
| "op_keys (OpPut k v) = {k}"
| "op_keys (OpDelete k) = {k}"
| "op_keys (OpTake k) = {k}"
| "op_keys OpLen = {}"

fun cache_do :: "('k, 'v) cache_ptr \<Rightarrow> ('k, 'v) cache_op \<Rightarrow> time \<Rightarrow> ('k, 'v) cache_ptr option" where
  "cache_do p (OpGet k) now = Some (fst (cache_Get p k now))"
| "cache_do p (OpGetNoRefresh k) now = Some (fst (cache_GetNoRefresh p k now))"
| "cache_do p (OpPut k v) now = cache_Put p k v now"
| "cache_do p (OpDelete k) now = Some (cache_Delete p k)"
| "cache_do p (OpTake k) now = Some (fst (cache_Take p k now))"
| "cache_do p OpLen now = Some (fst (cache_Len p now))"

fun cache_run :: "('k, 'v) cache_ptr \<Rightarrow> (('k, 'v) cache_op \<times> time) list \<Rightarrow> ('k, 'v) cache_ptr option" where
  "cache_run p [] = Some p"
| "cache_run p ((op, now) # ops) = Option.bind (cache_do p op now) (\<lambda>p'. cache_run p' ops)"

lemma case_prod_fst_snd: "(case p of (a, b) \<Rightarrow> f a b) = f (fst p) (snd p)"
  by (cases p) simp

lemma len_inv:
  assumes "cache_inv c"
  shows "cache_inv (fst (cache_len c now)) \<and>
    entries (fst (cache_len c now)) = filter (\<lambda>e. \<not> stale (c_ttl c) now e) (entries c) \<and>
    c_ttl (fst (cache_len c now)) = c_ttl c \<and> c_maxSize (fst (cache_len c now)) = c_maxSize c"
proof -
  have wf: "cache_wf c" using assms by (simp add: cache_inv_def)
  note pr = prune_wf [OF wf, of now]
  have "length (c_items (pruneExpiredLocked c now)) \<le> length (c_items c)"
    using wf_length [OF wf] wf_length [of "pruneExpiredLocked c now"] pr by simp
  with assms pr show ?thesis by (auto simp: cache_len_def Let_def cache_inv_def)
qed

definition spec_do ::
  "duration \<Rightarrow> int \<Rightarrow> ('k, 'v) cache_op \<Rightarrow> time \<Rightarrow> ('k, 'v) entry list \<Rightarrow> ('k, 'v) entry list" where
  "spec_do ttl maxSize op now es =
     (case op of
        OpGet k \<Rightarrow> fst (spec_get ttl k True now es)
      | OpGetNoRefresh k \<Rightarrow> fst (spec_get ttl k False now es)
      | OpPut k v \<Rightarrow> spec_put ttl maxSize k v now es
      | OpDelete k \<Rightarrow> without k es
      | OpTake k \<Rightarrow> without k es
      | OpLen \<Rightarrow> filter (\<lambda>e. \<not> stale ttl now e) es)"

lemma do_refines:
  assumes "cache_inv c"
  shows "\<exists>c'. cache_do (Some c) op now = Some (Some c') \<and> cache_inv c' \<and>
    entries c' = spec_do (c_ttl c) (c_maxSize c) op now (entries c) \<and>
    c_ttl c' = c_ttl c \<and> c_maxSize c' = c_maxSize c"
proof (cases op)
  case (OpGet k)
  then show ?thesis using get_refines [OF assms, of k True now]
    by (cases "cache_get c k True now") (auto simp: spec_do_def cache_Get_def dest: arg_cong [where f = fst])
next
  case (OpGetNoRefresh k)
  then show ?thesis using get_refines [OF assms, of k False now]
    by (cases "cache_get c k False now")
      (auto simp: spec_do_def cache_GetNoRefresh_def dest: arg_cong [where f = fst])
next
  case (OpPut k v)
  then show ?thesis using put_refines [OF assms, of k v now] by (auto simp: spec_do_def cache_Put_def)
next
  case (OpDelete k)
  then show ?thesis using delete_refines [OF assms, of k] by (simp add: spec_do_def cache_Delete_def)
next
  case (OpTake k)
  then show ?thesis using delete_refines [OF assms, of k] take_refines(1) [OF assms, of k now]
    by (simp add: spec_do_def cache_Take_def case_prod_fst_snd)
next
  case OpLen
  then show ?thesis using len_inv [OF assms, of now]
    by (simp add: spec_do_def cache_Len_def case_prod_fst_snd)
qed

text \<open>
  \<open>kept_behind e T es\<close>: the entry is in the list and everything in front of it has a key
  of \<open>T\<close>.  An operation on another key keeps this, with that key added to \<open>T\<close>, as long as
  the keys of \<open>T\<close> and the entry itself fit and the entry does not expire.
\<close>

definition kept_behind :: "('k, 'v) entry \<Rightarrow> 'k set \<Rightarrow> ('k, 'v) entry list \<Rightarrow> bool" where
  "kept_behind e T es \<longleftrightarrow> (\<exists>xs ys. es = xs @ e # ys \<and> ent_key ` set xs \<subseteq> T)"

lemma kept_filter: "kept_behind e T es \<Longrightarrow> Q e \<Longrightarrow> kept_behind e T (filter Q es)"
  unfolding kept_behind_def by fastforce

lemma kept_without: "kept_behind e T es \<Longrightarrow> k \<noteq> ent_key e \<Longrightarrow> kept_behind e T (without k es)"
  unfolding without_def by (rule kept_filter) auto

lemma kept_Cons: "kept_behind e T es \<Longrightarrow> kept_behind e (insert (ent_key x) T) (x # es)"
proof -
  assume "kept_behind e T es"
  then obtain xs ys where "es = xs @ e # ys" "ent_key ` set xs \<subseteq> T"
    unfolding kept_behind_def by blast
  then have "x # es = (x # xs) @ e # ys \<and> ent_key ` set (x # xs) \<subseteq> insert (ent_key x) T" by auto
  then show ?thesis unfolding kept_behind_def by blast
qed

lemma kept_mono: "kept_behind e T es \<Longrightarrow> T \<subseteq> T' \<Longrightarrow> kept_behind e T' es"
  unfolding kept_behind_def by blast

lemma kept_take:
  assumes "kept_behind e T es" and "distinct (map ent_key es)" and "finite T" and "card T < n"
  shows "kept_behind e T (take n es)"
proof -
  obtain xs ys where es: "es = xs @ e # ys" "ent_key ` set xs \<subseteq> T"
    using assms(1) unfolding kept_behind_def by blast
  have "length xs = card (ent_key ` set xs)"
    using assms(2) es(1) distinct_card [of "map ent_key xs"] by simp
  also have "\<dots> \<le> card T" using es(2) assms(3) by (rule card_mono [rotated])
  finally have "length xs < n" using assms(4) by simp
  then obtain m where "n - length xs = Suc m" by (metis Suc_diff_Suc)
  with es have "take n es = xs @ e # take m ys" using \<open>length xs < n\<close> by simp
  with es(2) show ?thesis unfolding kept_behind_def by blast
qed

lemma distinct_keys_filter: "distinct (map ent_key es) \<Longrightarrow> distinct (map ent_key (filter Q es))"
  by (rule distinct_map_filter)

lemma kept_spec_do:
  assumes kept: "kept_behind e T es" and dist: "distinct (map ent_key es)"
    and fin: "finite T" and room: "card (T \<union> op_keys op) < nat maxSize"
    and fresh: "\<not> stale ttl now e" and other: "ent_key e \<notin> op_keys op"
  shows "kept_behind e (T \<union> op_keys op) (spec_do ttl maxSize op now es)"
proof -
  have drop: "kept_behind e (insert k T) (without k es)" if "ent_key e \<noteq> k" for k
    using kept_mono [OF kept_without [OF kept that [symmetric]], of "insert k T"] by auto
  have get: "kept_behind e (insert k T) (fst (spec_get ttl k r now es))" if "k \<noteq> ent_key e" for k r
  proof (cases "find (\<lambda>e. ent_key e = k) es")
    case None
    then show ?thesis using kept by (auto simp: spec_get_def intro: kept_mono)
  next
    case (Some x)
    then have x: "ent_key x = k" by (auto simp: find_Some_iff)
    have w: "kept_behind e T (without k es)" using kept that by (rule kept_without)
    have "kept_behind e (insert k T) ((if r then x\<lparr>ent_lastSeen := now\<rparr> else x) # without k es)"
      using kept_Cons [OF w, of "if r then x\<lparr>ent_lastSeen := now\<rparr> else x"] x by (simp split: if_splits)
    moreover have "kept_behind e (insert k T) (without k es)" using w by (auto intro: kept_mono)
    ultimately show ?thesis using Some by (simp add: spec_get_def)
  qed
  show ?thesis
  proof (cases op)
    case (OpPut k v)
    let ?es = "without k (filter (\<lambda>e. \<not> stale ttl now e) es)"
    let ?new = "\<lparr>ent_key = k, ent_value = v, ent_lastSeen = now\<rparr>"
    have "kept_behind e T ?es"
      using kept_without kept_filter [OF kept] fresh other OpPut by fastforce
    then have "kept_behind e (insert k T) (?new # ?es)" using kept_Cons [of e T ?es ?new] by simp
    moreover have "distinct (map ent_key (?new # ?es))"
      using dist by (auto simp: without_def intro!: distinct_map_filter)
    ultimately show ?thesis
      using kept_take [of e "insert k T" "?new # ?es" "nat maxSize"] fin room OpPut
      by (simp add: spec_do_def spec_put_def)
  next
    case OpLen
    then show ?thesis using kept_filter [OF kept] fresh by (simp add: spec_do_def)
  qed (use get drop other in \<open>auto simp: spec_do_def\<close>)
qed

text \<open>
  \<open>unexpired\<close>: at none of the times has an entry seen at \<open>t0\<close> outlived the TTL.
\<close>

definition unexpired :: "duration \<Rightarrow> time \<Rightarrow> time list \<Rightarrow> bool" where
  "unexpired ttl t0 ts \<longleftrightarrow> list_all (\<lambda>t. fresh_for ttl t0 t) ts"

lemma run_keeps:
  assumes "cache_inv c" and "kept_behind e T (entries c)" and "finite T"
    and "ent_key e \<notin> (\<Union>(op, _) \<in> set ops. op_keys op)"
    and "card (T \<union> (\<Union>(op, _) \<in> set ops. op_keys op)) < nat (c_maxSize c)"
    and "unexpired (c_ttl c) (ent_lastSeen e) (map snd ops)"
  shows "\<exists>c' T'. cache_run (Some c) ops = Some (Some c') \<and> cache_inv c' \<and>
    kept_behind e T' (entries c') \<and> c_ttl c' = c_ttl c"
  using assms
proof (induction ops arbitrary: c T)
  case Nil
  then show ?case by auto
next
  case (Cons p ops)
  obtain op now where p: "p = (op, now)" by (cases p)
  obtain c' where c': "cache_do (Some c) op now = Some (Some c')" "cache_inv c'"
    "entries c' = spec_do (c_ttl c) (c_maxSize c) op now (entries c)"
    "c_ttl c' = c_ttl c" "c_maxSize c' = c_maxSize c"
    using do_refines [OF Cons.prems(1)] by blast
  have finU: "finite (T \<union> (\<Union>(op, _) \<in> set ops. op_keys op) \<union> op_keys op)"
  proof -
    have "finite (op_keys o')" for o' :: "('a, 'b) cache_op" by (cases o') auto
    then show ?thesis using Cons.prems(3) by auto
  qed
  have "card (T \<union> op_keys op) \<le> card (T \<union> (\<Union>(op, _) \<in> set (p # ops). op_keys op))"
    using finU by (intro card_mono) (auto simp: p Un_ac)
  then have "kept_behind e (T \<union> op_keys op) (entries c')"
    unfolding c'(3) using Cons.prems p
    by (intro kept_spec_do)
      (auto simp: cache_inv_def wf_distinct_keys unexpired_def stale_def fresh_for_def)
  moreover have "card (T \<union> op_keys op \<union> (\<Union>(op, _) \<in> set ops. op_keys op)) < nat (c_maxSize c')"
    using Cons.prems(5) p c'(5) by (simp add: Un_ac)
  ultimately have "\<exists>c'' T'. cache_run (Some c') ops = Some (Some c'') \<and> cache_inv c'' \<and>
    kept_behind e T' (entries c'') \<and> c_ttl c'' = c_ttl c'"
    using Cons.prems p c' finU by (intro Cons.IH) (auto simp: unexpired_def)
  then show ?case using c' p by auto
qed

lemma find_after: "\<forall>x \<in> set xs. \<not> P x \<Longrightarrow> P e \<Longrightarrow> find P (xs @ e # ys) = Some e"
  by (induction xs) auto

lemma kept_find:
  assumes "kept_behind e T es" and "distinct (map ent_key es)"
  shows "find (\<lambda>x. ent_key x = ent_key e) es = Some e"
proof -
  obtain xs ys where es: "es = xs @ e # ys"
    using assms(1) unfolding kept_behind_def by blast
  then have "ent_key e \<notin> ent_key ` set xs" using assms(2) by auto
  then show ?thesis unfolding es by (intro find_after) (metis image_eqI)+
qed

section \<open>Properties\<close>

text \<open>
  C8. \<^verbatim>\<open>Put\<close> always returns (its eviction loop ends), keeps the agreement of map, list and
  entries and the size limit, and refines the abstract insertion: expired entries go, the
  new entry comes first, and only the least recently used entries beyond the limit are dropped.
\<close>

theorem Put_refines:
  assumes "cache_inv c"
  shows "\<exists>c'. cache_Put (Some c) k v now = Some (Some c') \<and> cache_inv c' \<and>
    entries c' = spec_put (c_ttl c) (c_maxSize c) k v now (entries c)"
  using put_refines [OF assms, of k v now] by (auto simp: cache_Put_def)

definition demo_cache :: "(nat, nat) cache" where
  "demo_cache = the (the (cache_Put (the (cache_Put (Some (cache_New 10 2)) 1 100 5)) 2 200 6))"

lemma demo_cache_facts:
  "cache_inv demo_cache" "c_ttl demo_cache = 10" "c_maxSize demo_cache = 2"
proof -
  let ?n = "cache_New 10 2 :: (nat, nat) cache"
  have n: "cache_inv ?n" "c_ttl ?n = 10" "c_maxSize ?n = 2"
    by (simp_all add: new_inv) (simp_all add: cache_New_def)
  obtain a where a: "cache_put ?n 1 100 5 = Some a" "cache_inv a" "c_ttl a = 10" "c_maxSize a = 2"
    using put_refines [OF n(1), of 1 100 5] n by auto
  obtain b where b: "cache_put a 2 200 6 = Some b" "cache_inv b" "c_ttl b = 10" "c_maxSize b = 2"
    using put_refines [OF a(2), of 2 200 6] a by auto
  have "demo_cache = b" using a(1) b(1) by (simp add: demo_cache_def cache_Put_def)
  with b show "cache_inv demo_cache" "c_ttl demo_cache = 10" "c_maxSize demo_cache = 2" by simp_all
qed

theorem Put_refines_witness:
  "\<exists>c'. cache_Put (Some demo_cache) 3 300 7 = Some (Some c') \<and> cache_inv c' \<and>
    entries c' = spec_put (c_ttl demo_cache) (c_maxSize demo_cache) 3 300 7 (entries demo_cache)"
  using Put_refines [OF demo_cache_facts(1)] .

text \<open>
  A value put into the cache is found by a later \<^verbatim>\<open>Get\<close> and by a later \<^verbatim>\<open>GetNoRefresh\<close>
  after any run of operations on other keys, as long as the TTL has not passed at any point
  and the run touches fewer keys than the cache holds entries: eviction is least recently used.
\<close>

theorem Put_Get_lru:
  assumes "cache_inv c" and "cache_Put (Some c) k v t0 = Some p"
    and "k \<notin> (\<Union>(op, _) \<in> set ops. op_keys op)"
    and "card (\<Union>(op, _) \<in> set ops. op_keys op) < nat (c_maxSize c)"
    and "unexpired (c_ttl c) t0 (map snd ops @ [now])"
  shows "\<exists>p'. cache_run p ops = Some p' \<and>
    snd (cache_Get p' k now) = Some v \<and> snd (cache_GetNoRefresh p' k now) = Some v"
proof -
  let ?e = "\<lparr>ent_key = k, ent_value = v, ent_lastSeen = t0\<rparr>"
  obtain c1 where c1: "p = Some c1" "cache_inv c1" "c_ttl c1 = c_ttl c" "c_maxSize c1 = c_maxSize c"
    "entries c1 = spec_put (c_ttl c) (c_maxSize c) k v t0 (entries c)"
    using put_refines [OF assms(1), of k v t0] assms(2) by (auto simp: cache_Put_def)
  have "0 < nat (c_maxSize c)" using assms(1) by (simp add: cache_inv_def)
  then have "kept_behind ?e {} (entries c1)"
    unfolding c1(5) spec_put_def kept_behind_def by (cases "nat (c_maxSize c)") auto
  then obtain c' T' where c': "cache_run (Some c1) ops = Some (Some c')" "cache_inv c'"
    "kept_behind ?e T' (entries c')" "c_ttl c' = c_ttl c1"
    using run_keeps [OF c1(2), of ?e "{}" ops] assms(3-5) c1(3,4) by (auto simp: unexpired_def)
  have "find (\<lambda>x. ent_key x = k) (entries c') = Some ?e"
    using kept_find [OF c'(3)] c'(2) by (simp add: cache_inv_def wf_distinct_keys)
  then have "cache_lookup c' k now = Some v"
    using assms(5) c'(4) c1(3) by (auto simp: cache_lookup_def unexpired_def stale_def fresh_for_def)
  then show ?thesis
    using lru.get_value [OF c'(2)] c'(1) c1(1)
    by (auto simp: cache_Get_def cache_GetNoRefresh_def case_prod_fst_snd)
qed

theorem Put_Get_lru_witness:
  "\<exists>p p'. cache_Put (Some demo_cache) 3 300 7 = Some p \<and>
    cache_run p [(OpPut 4 400, 8), (OpLen, 9)] = Some p' \<and>
    snd (cache_Get p' 3 16) = Some 300 \<and> snd (cache_GetNoRefresh p' 3 16) = Some 300"
proof -
  obtain p where p: "cache_Put (Some demo_cache) 3 300 7 = Some p"
    using put_refines [OF demo_cache_facts(1), of 3 300 7] by (auto simp: cache_Put_def)
  show ?thesis
    using Put_Get_lru [OF demo_cache_facts(1) p, of "[(OpPut 4 400, 8), (OpLen, 9)]" 16] p demo_cache_facts(2,3)
    by (auto simp: unexpired_def fresh_for_def)
qed

text \<open>
  Expiry: what \<^verbatim>\<open>Get\<close> returns is a value that was put under that key and is not older
  than the TTL counted from its last use, \<^verbatim>\<open>GetNoRefresh\<close> does not prolong the life of an
  entry, and \<^verbatim>\<open>Take\<close> returns the same value and leaves the key absent at every time.
\<close>

theorem Get_Take_expiry:
  assumes "cache_inv c" and "now \<le> now'"
  shows "snd (cache_Get (Some c) k now) = cache_lookup c k now \<and>
    snd (cache_Get (fst (cache_GetNoRefresh (Some c) k now)) k now') = cache_lookup c k now' \<and>
    snd (cache_Take (Some c) k now) = cache_lookup c k now \<and>
    snd (cache_Get (fst (cache_Take (Some c) k now)) k now') = None"
proof (intro conjI)
  show "snd (cache_Get (Some c) k now) = cache_lookup c k now"
    using lru.get_value [OF assms(1)] by (simp add: cache_Get_def case_prod_fst_snd)
  show "snd (cache_Get (fst (cache_GetNoRefresh (Some c) k now)) k now') = cache_lookup c k now'"
    using lru.get_value [OF lru.get_invar [OF assms(1)]] lru.get_self [OF assms]
    by (simp add: cache_Get_def cache_GetNoRefresh_def case_prod_fst_snd)
  show "snd (cache_Take (Some c) k now) = cache_lookup c k now"
    using take_refines(2) [OF assms(1), of k now]
    by (simp add: cache_Take_def case_prod_fst_snd spec_get_def cache_lookup_def split: option.split)
  show "snd (cache_Get (fst (cache_Take (Some c) k now)) k now') = None"
    using lru.get_value [OF lru.del_invar [OF assms(1)]] lru.del_lookup [OF assms(1)]
      take_refines(1) [OF assms(1)]
    by (simp add: cache_Get_def cache_Take_def case_prod_fst_snd)
qed

theorem Get_Take_expiry_witness:
  "snd (cache_Get (Some demo_cache) 1 15) = cache_lookup demo_cache 1 15 \<and>
   snd (cache_Get (fst (cache_GetNoRefresh (Some demo_cache) 1 15)) 1 16) = cache_lookup demo_cache 1 16 \<and>
   snd (cache_Take (Some demo_cache) 1 15) = cache_lookup demo_cache 1 15 \<and>
   snd (cache_Get (fst (cache_Take (Some demo_cache) 1 15)) 1 16) = None"
  using Get_Take_expiry [OF demo_cache_facts(1), of 15 16 1] by simp

end
