(* ===== verification/Acl.thy ===== *)
theory Acl
  imports RouteRules LruCache
begin

text \<open>
  The access control of the server: \<^verbatim>\<open>cmd/server/acl.go\<close> and the decisions of
  \<^verbatim>\<open>cmd/server/main.go\<close> (\<^verbatim>\<open>decideACL\<close> and its cache, the default rejection of local addresses,
  the users and their permissions, the classification of resolved addresses).

  Shown: a compiled list decides by its first rule that matches, whatever rules were merged;
  without rules the local address ranges are rejected and nothing else is; the cache does not
  change decisions, while the users are replaced concurrently, for targets without a zone.
\<close>

section \<open>Decisions\<close>

datatype aclAction = aclActionDirect | aclActionReject | aclActionProxy | aclActionDefault

record aclDecision =
  d_action :: aclAction
  d_proxy :: string

datatype aclDecisionSource = aclDecisionFromDefault | aclDecisionFromRule

record sourcedACLDecision =
  sd_decision :: aclDecision
  sd_source :: aclDecisionSource

record compiledACLRule =
  cr_matcher :: routeRuleSet
  cr_decision :: aclDecision

record serverACL =
  a_default :: aclDecision
  a_rules :: "compiledACLRule list"

record normalizedACLRule =
  nr_match :: "string list"
  nr_decision :: aclDecision

record ACLRuleConfig =
  rc_Match :: "string list"
  rc_Action :: string
  rc_Proxy :: string

record ACLConfig =
  ac_Default :: string
  ac_Rules :: "ACLRuleConfig list"

datatype acl_error =
    EmptyMatch nat | DefaultNotAllowed | InvalidDefault | InvalidAction nat | RuleProxy nat acl_error
  | ProxyRequired | ProxyEmpty | UnknownProxy | RuleMatch nat route_error
  | UserACL string acl_error | DuplicateUser string | NoUsers

definition decision :: "aclAction \<Rightarrow> aclDecision" where
  "decision a = \<lparr>d_action = a, d_proxy = []\<rparr>"

definition isACLProxyURL :: "string \<Rightarrow> bool" where
  "isACLProxyURL v = (let lower = ToLower v in HasPrefix lower ''http://'' \<or> HasPrefix lower ''socks5://'')"

definition resolveACLProxy :: "string \<Rightarrow> (string \<rightharpoonup> string) \<Rightarrow> acl_error + aclDecision" where
  "resolveACLProxy raw outbounds =
     (let name0 = TrimSpace raw
      in if name0 = [] then Inl ProxyRequired
         else
           (let name = (case outbounds name0 of Some proxy \<Rightarrow> TrimSpace proxy | None \<Rightarrow> name0)
            in if name = [] then Inl ProxyEmpty
               else if \<not> isACLProxyURL name then Inl UnknownProxy
               else Inr \<lparr>d_action = aclActionProxy, d_proxy = name\<rparr>))"

definition parseACLDefault :: "string \<Rightarrow> (string \<rightharpoonup> string) \<Rightarrow> bool \<Rightarrow> acl_error + aclDecision" where
  "parseACLDefault raw outbounds allowDefaultFallback =
     (let v = TrimSpace raw
      in if v = [] \<or> EqualFold v ''direct'' then Inr (decision aclActionDirect)
         else if EqualFold v ''default''
         then (if allowDefaultFallback then Inr (decision aclActionDefault) else Inl DefaultNotAllowed)
         else if EqualFold v ''reject'' then Inr (decision aclActionReject)
         else if HasPrefix (ToLower v) ''proxy:'' then resolveACLProxy (TrimSpace (drop 6 v)) outbounds
         else (case outbounds v of
                 Some proxy \<Rightarrow> Inr \<lparr>d_action = aclActionProxy, d_proxy = TrimSpace proxy\<rparr>
               | None \<Rightarrow> Inl InvalidDefault))"

definition parseACLRuleDecision :: "ACLRuleConfig \<Rightarrow> (string \<rightharpoonup> string) \<Rightarrow> nat \<Rightarrow> acl_error + aclDecision" where
  "parseACLRuleDecision rule outbounds idx =
     (let action = ToLower (TrimSpace (rc_Action rule))
      in if action = ''direct'' then Inr (decision aclActionDirect)
         else if action = ''reject'' then Inr (decision aclActionReject)
         else if action = ''proxy''
         then (case resolveACLProxy (rc_Proxy rule) outbounds of Inl e \<Rightarrow> Inl (RuleProxy idx e) | Inr d \<Rightarrow> Inr d)
         else Inl (InvalidAction idx))"

text \<open>The first loop of \<^verbatim>\<open>compileACLConfig\<close>: neighbours with the same decision become one rule.\<close>

fun normalize_rules ::
  "(string \<rightharpoonup> string) \<Rightarrow> nat \<Rightarrow> ACLRuleConfig list \<Rightarrow> normalizedACLRule list \<Rightarrow> acl_error + normalizedACLRule list" where
  "normalize_rules outbounds idx [] norm = Inr norm"
| "normalize_rules outbounds idx (rule # rules) norm =
     (if rc_Match rule = [] then Inl (EmptyMatch idx)
      else
        (case parseACLRuleDecision rule outbounds idx of
           Inl e \<Rightarrow> Inl e
         | Inr d \<Rightarrow>
             if norm \<noteq> [] \<and> nr_decision (last norm) = d
             then normalize_rules outbounds (idx + 1) rules
                    (butlast norm @ [(last norm)\<lparr>nr_match := nr_match (last norm) @ rc_Match rule\<rparr>])
             else normalize_rules outbounds (idx + 1) rules (norm @ [\<lparr>nr_match = rc_Match rule, nr_decision = d\<rparr>])))"

fun compile_rules :: "nat \<Rightarrow> normalizedACLRule list \<Rightarrow> acl_error + compiledACLRule list" where
  "compile_rules idx [] = Inr []"
| "compile_rules idx (rule # rules) =
     (case compileRouteRuleSet (nr_match rule) [] of
        Inl e \<Rightarrow> Inl (RuleMatch idx e)
      | Inr matcher \<Rightarrow>
          (case compile_rules (idx + 1) rules of
             Inl e \<Rightarrow> Inl e
           | Inr compiled \<Rightarrow> Inr (\<lparr>cr_matcher = matcher, cr_decision = nr_decision rule\<rparr> # compiled)))"

definition compileDefaultServerACL :: serverACL where
  "compileDefaultServerACL = \<lparr>a_default = decision aclActionDirect, a_rules = []\<rparr>"

definition compileACLConfig :: "ACLConfig option \<Rightarrow> (string \<rightharpoonup> string) \<Rightarrow> bool \<Rightarrow> acl_error + serverACL" where
  "compileACLConfig cfg outbounds allowDefaultFallback =
     (case cfg of
        None \<Rightarrow> Inr compileDefaultServerACL
      | Some cfg \<Rightarrow>
          (case parseACLDefault (ac_Default cfg) outbounds allowDefaultFallback of
             Inl e \<Rightarrow> Inl e
           | Inr d \<Rightarrow>
               (case normalize_rules outbounds 0 (ac_Rules cfg) [] of
                  Inl e \<Rightarrow> Inl e
                | Inr norm \<Rightarrow>
                    (case compile_rules 0 norm of
                       Inl e \<Rightarrow> Inl e
                     | Inr rules \<Rightarrow> Inr \<lparr>a_default = d, a_rules = rules\<rparr>))))"

definition defaultServerACLRejectRules :: "string list" where
  "defaultServerACLRejectRules =
     [''0.0.0.0/32'', ''10.0.0.0/8'', ''100.64.0.0/10'', ''127.0.0.0/8'', ''169.254.0.0/16'', ''172.16.0.0/12'',
      ''192.168.0.0/16'', ''::/128'', ''::1/128'', ''fe80::/10'', ''ff00::/8'', ''fc00::/7'']"

definition defaultLocalRejectMatcher :: "route_error + routeRuleSet" where
  "defaultLocalRejectMatcher = compileRouteRuleSet defaultServerACLRejectRules []"

definition decideWithSource :: "serverACL option \<Rightarrow> Request \<Rightarrow> sourcedACLDecision" where
  "decideWithSource acl req =
     (case acl of
        None \<Rightarrow> \<lparr>sd_decision = decision aclActionDirect, sd_source = aclDecisionFromDefault\<rparr>
      | Some a \<Rightarrow>
          (let target = makeRouteTarget req
           in case find (\<lambda>rule. route_matches (cr_matcher rule) target) (a_rules a) of
                Some rule \<Rightarrow> \<lparr>sd_decision = cr_decision rule, sd_source = aclDecisionFromRule\<rparr>
              | None \<Rightarrow> \<lparr>sd_decision = a_default a, sd_source = aclDecisionFromDefault\<rparr>))"

definition decide :: "serverACL option \<Rightarrow> Request \<Rightarrow> aclDecision" where
  "decide acl req = sd_decision (decideWithSource acl req)"

section \<open>Users\<close>

record UserConfig =
  u_Name :: string
  u_Password :: string
  u_Enable :: bool
  u_AllowReverseRoutes :: bool
  u_U :: u64
  u_D :: u64
  u_ACL :: "ACLConfig option"

fun normalize_users :: "UserConfig list \<Rightarrow> string list \<Rightarrow> acl_error + UserConfig list" where
  "normalize_users [] seen = Inr []"
| "normalize_users (user0 # users) seen =
     (let user = user0\<lparr>u_Name := TrimSpace (u_Name user0)\<rparr>
      in if u_Name user = [] then normalize_users users seen
         else if u_Name user \<in> set seen then Inl (DuplicateUser (u_Name user))
         else
           (case normalize_users users (u_Name user # seen) of
              Inl e \<Rightarrow> Inl e
            | Inr out \<Rightarrow> Inr (if TrimSpace (u_Password user) = [] then out else user # out)))"

definition normalizeUsers :: "UserConfig list \<Rightarrow> acl_error + UserConfig list" where
  "normalizeUsers users = normalize_users users []"

fun compileUserACLs :: "UserConfig list \<Rightarrow> (string \<rightharpoonup> string) \<Rightarrow> (string \<rightharpoonup> serverACL) \<Rightarrow> acl_error + (string \<rightharpoonup> serverACL)" where
  "compileUserACLs [] outbounds acls = Inr acls"
| "compileUserACLs (user # users) outbounds acls =
     (if u_ACL user = None then compileUserACLs users outbounds acls
      else
        (case compileACLConfig (u_ACL user) outbounds True of
           Inl e \<Rightarrow> Inl (UserACL (u_Name user) e)
         | Inr acl \<Rightarrow> compileUserACLs users outbounds (acls(u_Name user \<mapsto> acl))))"

section \<open>The server's decisions\<close>

record aclDecisionCacheKey =
  k_generation :: u64
  k_userName :: string
  k_target :: string
  k_port :: u16

record aclServer =
  sv_users :: "UserConfig list"
  sv_userACLs :: "string \<rightharpoonup> serverACL"
  sv_acl :: "serverACL option"
  sv_defaultReject :: routeRuleSet
  sv_aclCache :: "(aclDecisionCacheKey, aclDecision) cache_ptr"
  sv_aclGeneration :: u64

definition normalizeACLCacheTarget :: "string \<Rightarrow> string" where
  "normalizeACLCacheTarget raw0 =
     (let raw = TrimSpace raw0
      in case ParseAddr raw of
           Some addr \<Rightarrow> Addr_String (Unmap addr)
         | None \<Rightarrow> TrimSuffix (ToLower raw) ''.'')"

definition applyDefaultLocalReject :: "routeRuleSet \<Rightarrow> Request \<Rightarrow> sourcedACLDecision \<Rightarrow> aclDecision" where
  "applyDefaultLocalReject defaultReject req result =
     (if sd_source result = aclDecisionFromDefault \<and> d_action (sd_decision result) = aclActionDirect \<and>
         route_matches defaultReject (makeRouteTarget req)
      then decision aclActionReject
      else sd_decision result)"

text \<open>\<^verbatim>\<open>decideACLUncached\<close> over the fields it reads: the user lists, the server's list and the local ranges.\<close>

definition uncached :: "(string \<rightharpoonup> serverACL) \<Rightarrow> serverACL option \<Rightarrow> routeRuleSet \<Rightarrow> string \<Rightarrow> Request \<Rightarrow> aclDecision" where
  "uncached userACLs acl defaultReject userName req =
     (let userACL = userACLs userName; result = decideWithSource userACL req
      in if userACL \<noteq> None \<and> d_action (sd_decision result) \<noteq> aclActionDefault
         then applyDefaultLocalReject defaultReject req result
         else applyDefaultLocalReject defaultReject req (decideWithSource acl req))"

definition decideACLUncached :: "aclServer \<Rightarrow> string \<Rightarrow> Request \<Rightarrow> aclDecision" where
  "decideACLUncached s userName req = uncached (sv_userACLs s) (sv_acl s) (sv_defaultReject s) userName req"

definition cache_key :: "u64 \<Rightarrow> string \<Rightarrow> Request \<Rightarrow> aclDecisionCacheKey" where
  "cache_key gen userName req =
     \<lparr>k_generation = gen, k_userName = userName, k_target = normalizeACLCacheTarget (rq_DstAddr req), k_port = rq_DstPort req\<rparr>"

text \<open>
  \<^verbatim>\<open>decideACL\<close> on its own; the clock is the argument \<open>now\<close>.  The result is None only if the
  eviction loop of the cache did not return.
\<close>

definition decideACL :: "aclServer \<Rightarrow> string \<Rightarrow> Request \<Rightarrow> time \<Rightarrow> (aclServer \<times> aclDecision) option" where
  "decideACL s userName req now =
     (let key = cache_key (sv_aclGeneration s) userName req
      in case cache_Get (sv_aclCache s) key now of
           (c, Some d) \<Rightarrow> Some (s\<lparr>sv_aclCache := c\<rparr>, d)
         | (c, None) \<Rightarrow>
             (let d = decideACLUncached s userName req
              in map_option (\<lambda>c'. (s\<lparr>sv_aclCache := c'\<rparr>, d)) (cache_Put c key d now)))"

definition setUsers :: "aclServer \<Rightarrow> UserConfig list \<Rightarrow> (string \<rightharpoonup> string) \<Rightarrow> acl_error + aclServer" where
  "setUsers s users outbounds =
     (case normalizeUsers users of
        Inl e \<Rightarrow> Inl e
      | Inr normalized \<Rightarrow>
          if normalized = [] then Inl NoUsers
          else
            (case compileUserACLs normalized outbounds Map.empty of
               Inl e \<Rightarrow> Inl e
             | Inr acls \<Rightarrow>
                 Inr (s\<lparr>sv_users := normalized, sv_userACLs := acls, sv_aclGeneration := sv_aclGeneration s + 1\<rparr>)))"

text \<open>\<^verbatim>\<open>withReverseRoutePermission\<close>: the password handed to the callback, if the user may register routes.\<close>

definition withReverseRoutePermission :: "aclServer \<Rightarrow> bool \<Rightarrow> string \<Rightarrow> string option" where
  "withReverseRoutePermission s ReverseRoutesAllowed name =
     (if \<not> ReverseRoutesAllowed \<or> name = [] then None
      else
        (case find (\<lambda>user. u_Name user = name) (sv_users s) of
           Some user \<Rightarrow> if \<not> u_Enable user \<or> \<not> u_AllowReverseRoutes user then None else Some (u_Password user)
         | None \<Rightarrow> None))"

definition enabledCredentials :: "aclServer \<Rightarrow> (string \<times> string) list" where
  "enabledCredentials s = map (\<lambda>user. (u_Name user, u_Password user)) (filter u_Enable (sv_users s))"

section \<open>Resolved addresses\<close>

datatype network = tcp4 | tcp6

text \<open>A resolved address is a slice of bytes, None the nil one.\<close>

fun classify ::
  "aclServer \<Rightarrow> string \<Rightarrow> Request \<Rightarrow> time \<Rightarrow> bytes option list \<Rightarrow>
   (bytes \<times> network) list \<times> (bytes \<times> network) list \<Rightarrow> (bytes \<times> string) list \<times> (bytes \<times> string) list \<Rightarrow>
   (aclServer \<times> (bytes \<times> network) list \<times> (bytes \<times> string) list) option" where
  "classify s userName req now [] (direct6, direct4) (proxy6, proxy4) = Some (s, direct6 @ direct4, proxy6 @ proxy4)"
| "classify s userName req now (None # ips) direct proxy = classify s userName req now ips direct proxy"
| "classify s userName req now (Some ip # ips) (direct6, direct4) (proxy6, proxy4) =
     (let ipReq = req\<lparr>rq_DstAddr := (case AddrFromSlice ip of Some a \<Rightarrow> Addr_String (Unmap a) | None \<Rightarrow> IP_String ip)\<rparr>
      in case decideACL s userName ipReq now of
           None \<Rightarrow> None
         | Some (s', d) \<Rightarrow>
             (case d_action d of
                aclActionDirect \<Rightarrow>
                  if To4 ip = None
                  then classify s' userName req now ips (direct6 @ [(ip, tcp6)], direct4) (proxy6, proxy4)
                  else classify s' userName req now ips (direct6, direct4 @ [(ip, tcp4)]) (proxy6, proxy4)
              | aclActionProxy \<Rightarrow>
                  if To4 ip = None
                  then classify s' userName req now ips (direct6, direct4) (proxy6 @ [(ip, d_proxy d)], proxy4)
                  else classify s' userName req now ips (direct6, direct4) (proxy6, proxy4 @ [(ip, d_proxy d)])
              | _ \<Rightarrow> classify s' userName req now ips (direct6, direct4) (proxy6, proxy4)))"

definition classifyResolvedTargets ::
  "aclServer \<Rightarrow> string \<Rightarrow> Request \<Rightarrow> time \<Rightarrow> bytes option list \<Rightarrow> (aclServer \<times> (bytes \<times> network) list \<times> (bytes \<times> string) list) option" where
  "classifyResolvedTargets s userName req now resolved = classify s userName req now resolved ([], []) ([], [])"

section \<open>First match\<close>

definition hits :: "string list \<Rightarrow> routeTarget \<Rightarrow> bool" where
  "hits raws t \<longleftrightarrow> (\<exists>raw \<in> set raws. route_rule_hit raw t)"

text \<open>The specification: the decision of the first rule of the configuration that covers the target.\<close>

fun first_rule :: "(string \<rightharpoonup> string) \<Rightarrow> ACLRuleConfig list \<Rightarrow> routeTarget \<Rightarrow> aclDecision option" where
  "first_rule outbounds [] t = None"
| "first_rule outbounds (rule # rules) t =
     (if hits (rc_Match rule) t
      then (case parseACLRuleDecision rule outbounds 0 of Inl _ \<Rightarrow> None | Inr d \<Rightarrow> Some d)
      else first_rule outbounds rules t)"

definition first_norm :: "normalizedACLRule list \<Rightarrow> routeTarget \<Rightarrow> aclDecision option" where
  "first_norm norm t = map_option nr_decision (find (\<lambda>n. hits (nr_match n) t) norm)"

lemma first_norm_simps:
  "first_norm [] t = None"
  "first_norm (n # norm) t = (if hits (nr_match n) t then Some (nr_decision n) else first_norm norm t)"
  "first_norm (norm @ norm') t = (case first_norm norm t of None \<Rightarrow> first_norm norm' t | Some d \<Rightarrow> Some d)"
  by (induction norm) (auto simp: first_norm_def)

lemma rule_decision_index: "parseACLRuleDecision rule outbounds i = Inr d \<Longrightarrow> parseACLRuleDecision rule outbounds j = Inr d"
  by (auto simp: parseACLRuleDecision_def Let_def split: if_splits sum.splits)

lemma hits_append: "hits (xs @ ys) t \<longleftrightarrow> hits xs t \<or> hits ys t"
  by (auto simp: hits_def)

lemma normalize_rules_first:
  "normalize_rules outbounds idx rules norm = Inr norm' \<Longrightarrow>
   first_norm norm' t = (case first_norm norm t of None \<Rightarrow> first_rule outbounds rules t | Some d \<Rightarrow> Some d)"
proof (induction outbounds idx rules norm arbitrary: norm' rule: normalize_rules.induct)
  case (1 outbounds idx norm)
  then show ?case by (simp split: option.splits)
next
  case (2 outbounds idx rule rules norm)
  obtain d where d: "parseACLRuleDecision rule outbounds idx = Inr d" and m: "rc_Match rule \<noteq> []"
    using "2.prems" by (auto split: if_splits sum.splits)
  note d0 = rule_decision_index [OF d, of 0]
  show ?case
  proof (cases "norm \<noteq> [] \<and> nr_decision (last norm) = d")
    case True
    then obtain init l where n: "norm = init @ [l]" "nr_decision l = d" by (metis append_butlast_last_id)
    have "normalize_rules outbounds (idx + 1) rules (butlast norm @ [(last norm)\<lparr>nr_match := nr_match (last norm) @ rc_Match rule\<rparr>]) = Inr norm'"
      using "2.prems" m d True by simp
    from "2.IH"(1) [OF m d True this] show ?thesis
      using d0 by (auto simp: n first_norm_simps hits_append split: option.splits)
  next
    case False
    then have "normalize_rules outbounds (idx + 1) rules (norm @ [\<lparr>nr_match = rc_Match rule, nr_decision = d\<rparr>]) = Inr norm'"
      using "2.prems" m d by auto
    from "2.IH"(2) [OF m d False this] show ?thesis
      using d0 by (auto simp: first_norm_simps split: option.splits)
  qed
qed

lemma compile_rules_first:
  assumes "compile_rules idx norm = Inr rules" and "target_ok t"
    and "t_addr t \<noteq> None \<or> (\<forall>r \<in> set rules. no_nesting (suffixAny (domains (cr_matcher r))))"
  shows "map_option cr_decision (find (\<lambda>r. route_matches (cr_matcher r) t) rules) = first_norm norm t"
  using assms
proof (induction idx norm arbitrary: rules rule: compile_rules.induct)
  case (2 idx n norm)
  obtain m rest where m: "compileRouteRuleSet (nr_match n) [] = Inr m" and rest: "compile_rules (idx + 1) norm = Inr rest"
    and rules: "rules = \<lparr>cr_matcher = m, cr_decision = nr_decision n\<rparr> # rest"
    using "2.prems"(1) by (auto split: sum.splits)
  have "route_matches m t \<longleftrightarrow> hits (nr_match n) t"
    unfolding hits_def using "2.prems"(3) rules by (intro rules_exact [OF m "2.prems"(2)]) auto
  then show ?case
    using "2.IH" [OF m rest "2.prems"(2)] "2.prems"(3) by (auto simp: rules first_norm_simps)
qed (simp add: first_norm_simps)

text \<open>
  C21. The compiled access list decides like the configuration reads: by the first rule one of
  whose patterns covers the target, and by the default when there is none, although the compiler
  merges neighbouring rules of one decision.  This holds for every request for an address, and
  for host names when no domain pattern of a (merged) rule lies below another one of it.
\<close>

theorem acl_first_match:
  assumes "compileACLConfig (Some cfg) outbounds allowDefault = Inr acl"
    and "t_addr (makeRouteTarget req) \<noteq> None \<or> (\<forall>r \<in> set (a_rules acl). no_nesting (suffixAny (domains (cr_matcher r))))"
  shows "decideWithSource (Some acl) req =
    (case first_rule outbounds (ac_Rules cfg) (makeRouteTarget req) of
       Some d \<Rightarrow> \<lparr>sd_decision = d, sd_source = aclDecisionFromRule\<rparr>
     | None \<Rightarrow> \<lparr>sd_decision = a_default acl, sd_source = aclDecisionFromDefault\<rparr>)"
proof -
  obtain norm where n: "normalize_rules outbounds 0 (ac_Rules cfg) [] = Inr norm" and c: "compile_rules 0 norm = Inr (a_rules acl)"
    using assms(1) by (auto simp: compileACLConfig_def split: sum.splits)
  have "map_option cr_decision (find (\<lambda>r. route_matches (cr_matcher r) (makeRouteTarget req)) (a_rules acl)) =
      first_rule outbounds (ac_Rules cfg) (makeRouteTarget req)"
    using compile_rules_first [OF c makeRouteTarget_ok assms(2)] normalize_rules_first [OF n, of "makeRouteTarget req"]
    by (simp add: first_norm_simps)
  from this [symmetric] show ?thesis
    by (cases "find (\<lambda>r. route_matches (cr_matcher r) (makeRouteTarget req)) (a_rules acl)")
      (simp_all add: decideWithSource_def Let_def)
qed

definition demo_acl :: ACLConfig where
  "demo_acl = \<lparr>ac_Default = ''direct'', ac_Rules = [\<lparr>rc_Match = [''10.0.0.0/8''], rc_Action = ''reject'', rc_Proxy = []\<rparr>]\<rparr>"

lemma demo_acl_compiles: "\<exists>acl. compileACLConfig (Some demo_acl) Map.empty False = Inr acl"
proof -
  obtain m where "compileRouteRuleSet [''10.0.0.0/8''] [] = Inr m"
    by (simp add: compileRouteRuleSet_def example_prefix addIPRule_def Masked_def Is4_def)
  then show ?thesis
    by (simp add: compileACLConfig_def demo_acl_def parseACLDefault_def parseACLRuleDecision_def text_eval EqualFold_def)
qed

lemma demo_target:
  "t_addr (makeRouteTarget (new_Request\<lparr>rq_DstAddr := ''10.1.2.3'', rq_DstPort := 80\<rparr>)) = Some (A4 [10, 1, 2, 3])"
  "t_port (makeRouteTarget (new_Request\<lparr>rq_DstAddr := ''10.1.2.3'', rq_DstPort := 80\<rparr>)) = 80"
  by (simp_all add: makeRouteTarget_def text_eval Unmap_def)

theorem acl_first_match_witness:
  "\<exists>acl. compileACLConfig (Some demo_acl) Map.empty False = Inr acl \<and>
     decideWithSource (Some acl) (new_Request\<lparr>rq_DstAddr := ''10.1.2.3'', rq_DstPort := 80\<rparr>) =
       \<lparr>sd_decision = decision aclActionReject, sd_source = aclDecisionFromRule\<rparr>"
proof -
  obtain acl where c: "compileACLConfig (Some demo_acl) Map.empty False = Inr acl" using demo_acl_compiles by blast
  have "same_prefix 8 [10, 0, 0, 0] [10, 1, 2, 3]" by (auto simp: same_prefix_def addr_bit_def)
  then have "first_rule Map.empty (ac_Rules demo_acl) (makeRouteTarget (new_Request\<lparr>rq_DstAddr := ''10.1.2.3'', rq_DstPort := 80\<rparr>)) =
      Some (decision aclActionReject)"
    by (simp add: demo_acl_def hits_def route_rule_hit_def example_prefix demo_target ip_text_hit_def ip_rule_hit_def
        prefix_contains_def parseACLRuleDecision_def text_eval)
  then show ?thesis
    using acl_first_match [OF c, of "new_Request\<lparr>rq_DstAddr := ''10.1.2.3'', rq_DstPort := 80\<rparr>"] c
    by (simp add: demo_target)
qed

section \<open>Local addresses\<close>

text \<open>The ranges that are rejected without any configuration, as prefixes.\<close>

definition local_ranges :: "nprefix list" where
  "local_ranges =
     [Prefix (A4 [0, 0, 0, 0]) 32, Prefix (A4 [10, 0, 0, 0]) 8, Prefix (A4 [100, 64, 0, 0]) 10, Prefix (A4 [127, 0, 0, 0]) 8,
      Prefix (A4 [169, 254, 0, 0]) 16, Prefix (A4 [172, 16, 0, 0]) 12, Prefix (A4 [192, 168, 0, 0]) 16,
      Prefix (A6 (replicate 16 0) []) 128, Prefix (A6 (replicate 15 0 @ [1]) []) 128,
      Prefix (A6 ([0xfe, 0x80] @ replicate 14 0) []) 10, Prefix (A6 (0xff # replicate 15 0) []) 8,
      Prefix (A6 (0xfc # replicate 15 0) []) 7]"

lemma zeros: "replicate 15 (0 :: byte) = 0 # replicate 14 0" "replicate 14 (0 :: byte) @ [0] = 0 # replicate 14 0"
  by (simp_all add: eval_nat_numeral)

lemma local_prefixes4:
  "ParsePrefix ''0.0.0.0/32'' = Some (Prefix (A4 [0, 0, 0, 0]) 32)"
  "ParsePrefix ''10.0.0.0/8'' = Some (Prefix (A4 [10, 0, 0, 0]) 8)"
  "ParsePrefix ''100.64.0.0/10'' = Some (Prefix (A4 [100, 64, 0, 0]) 10)"
  "ParsePrefix ''127.0.0.0/8'' = Some (Prefix (A4 [127, 0, 0, 0]) 8)"
  "ParsePrefix ''169.254.0.0/16'' = Some (Prefix (A4 [169, 254, 0, 0]) 16)"
  "ParsePrefix ''172.16.0.0/12'' = Some (Prefix (A4 [172, 16, 0, 0]) 12)"
  "ParsePrefix ''192.168.0.0/16'' = Some (Prefix (A4 [192, 168, 0, 0]) 16)"
  by (simp_all add: ParsePrefix_def ParseAddr_def dec_digit_def Is6_def Atoi_def less_eq_char_def)

lemma local_prefixes6:
  "ParsePrefix ''::/128'' = Some (Prefix (A6 (replicate 16 0) []) 128)"
  "ParsePrefix ''::1/128'' = Some (Prefix (A6 (replicate 15 0 @ [1]) []) 128)"
  "ParsePrefix ''fe80::/10'' = Some (Prefix (A6 ([0xfe, 0x80] @ replicate 14 0) []) 10)"
  "ParsePrefix ''ff00::/8'' = Some (Prefix (A6 (0xff # replicate 15 0) []) 8)"
  "ParsePrefix ''fc00::/7'' = Some (Prefix (A6 (0xfc # replicate 15 0) []) 7)"
  by (simp_all add: ParsePrefix_def ParseAddr_def dec_digit_def hex_digit_def Is6_def Atoi_def less_eq_char_def
      parseIPv6_def parse6_groups.simps Let_def put16_def drop_bit_eq_div zeros)

text \<open>None of the texts has a port, so each is read as its prefix.\<close>

lemma local_texts:
  assumes "raw \<in> set defaultServerACLRejectRules"
  shows "TrimSpace raw = raw" and "raw \<noteq> []" and "CHR ''/'' \<in> set raw" and "splitCIDRPort raw = Inr (raw, any_port, False)"
  using assms by (auto simp: defaultServerACLRejectRules_def TrimSpace_def is_space_def splitCIDRPort_def Let_def)

lemma local_parsed: "map ParsePrefix defaultServerACLRejectRules = map Some local_ranges"
  unfolding defaultServerACLRejectRules_def local_ranges_def list.map local_prefixes4 local_prefixes6 ..

lemma local_matcher_compiles: "\<exists>m. defaultLocalRejectMatcher = Inr m"
proof -
  have "\<exists>s'. add_rules s rules = Inr s'" if "set rules \<subseteq> set defaultServerACLRejectRules" for s rules
    using that
  proof (induction rules arbitrary: s)
    case (Cons raw rules)
    then have raw: "raw \<in> set defaultServerACLRejectRules" by simp
    note t = local_texts [OF raw]
    obtain p where p: "ParsePrefix raw = Some p"
      using arg_cong [OF local_parsed, of set] raw by (metis image_eqI image_iff set_map)
    then have "\<exists>s1. addIPRule s raw = Inr s1"
      using Is6_not4 by (auto simp: addIPRule_def t p Let_def)
    then obtain s1 where "addIPRule s raw = Inr s1" ..
    then show ?case using Cons by (simp add: t Let_def)
  qed simp
  then obtain s where "add_rules empty_rules defaultServerACLRejectRules = Inr s" by blast
  then show ?thesis by (simp add: defaultLocalRejectMatcher_def compileRouteRuleSet_def TrimSpace_def)
qed

lemma local_matcher_exact:
  assumes "defaultLocalRejectMatcher = Inr m"
  shows "route_matches m (makeRouteTarget req) \<longleftrightarrow>
    (\<exists>a. t_addr (makeRouteTarget req) = Some a \<and> (\<exists>p \<in> set local_ranges. prefix_contains p a))"
proof -
  have hit: "route_rule_hit raw t \<longleftrightarrow> (\<exists>a p. t_addr t = Some a \<and> ParsePrefix raw = Some p \<and> prefix_contains p a)"
    if "raw \<in> set defaultServerACLRejectRules" for raw t
    using local_texts [OF that] by (auto simp: route_rule_hit_def ip_text_hit_def ip_rule_hit_def split: option.splits)
  have all: "(\<exists>raw \<in> set defaultServerACLRejectRules. \<exists>p. ParsePrefix raw = Some p \<and> Q p) \<longleftrightarrow> (\<exists>p \<in> set local_ranges. Q p)" for Q
  proof -
    have "(\<exists>raw \<in> set defaultServerACLRejectRules. \<exists>p. ParsePrefix raw = Some p \<and> Q p) \<longleftrightarrow>
        (\<exists>x \<in> ParsePrefix ` set defaultServerACLRejectRules. \<exists>p. x = Some p \<and> Q p)" by blast
    also have "ParsePrefix ` set defaultServerACLRejectRules = Some ` set local_ranges"
      using arg_cong [OF local_parsed, of set] by (simp only: set_map)
    finally show ?thesis by blast
  qed
  show ?thesis
  proof (cases "t_addr (makeRouteTarget req)")
    case None
    then show ?thesis
      using domain_target(1) [OF assms [unfolded defaultLocalRejectMatcher_def] makeRouteTarget_ok None] hit by fastforce
  next
    case (Some a)
    have "route_matches m (makeRouteTarget req) \<longleftrightarrow> (\<exists>raw \<in> set defaultServerACLRejectRules. route_rule_hit raw (makeRouteTarget req))"
      using address_target [OF assms [unfolded defaultLocalRejectMatcher_def] makeRouteTarget_ok Some] by (simp add: TrimSpace_def)
    also have "\<dots> \<longleftrightarrow> (\<exists>raw \<in> set defaultServerACLRejectRules. \<exists>p. ParsePrefix raw = Some p \<and> prefix_contains p a)"
      using hit Some by auto
    finally show ?thesis using all [of "\<lambda>p. prefix_contains p a"] Some by simp
  qed
qed

text \<open>
  Without an access list, for the server and for the user, a request is rejected exactly
  when its target is an address, in any notation the server reads as one, of one of the local
  ranges; every other request goes out directly.  The built-in rules always compile.
\<close>

theorem local_addresses_rejected:
  "\<exists>m. defaultLocalRejectMatcher = Inr m \<and>
     (\<forall>s userName req. sv_defaultReject s = m \<and> sv_acl s = Some compileDefaultServerACL \<and> sv_userACLs s userName = None \<longrightarrow>
        decideACLUncached s userName req =
          decision (if \<exists>a. t_addr (makeRouteTarget req) = Some a \<and> (\<exists>p \<in> set local_ranges. prefix_contains p a)
                    then aclActionReject else aclActionDirect))"
proof -
  obtain m where m: "defaultLocalRejectMatcher = Inr m" using local_matcher_compiles by blast
  show ?thesis
    by (rule exI [of _ m])
      (auto simp: m decideACLUncached_def uncached_def decideWithSource_def compileDefaultServerACL_def decision_def
        applyDefaultLocalReject_def local_matcher_exact [OF m])
qed

theorem local_addresses_rejected_witness:
  "\<exists>m. defaultLocalRejectMatcher = Inr m \<and>
     decideACLUncached \<lparr>sv_users = [], sv_userACLs = Map.empty, sv_acl = Some compileDefaultServerACL,
         sv_defaultReject = m, sv_aclCache = None, sv_aclGeneration = 0\<rparr> ''u''
       (new_Request\<lparr>rq_DstAddr := ''10.1.2.3'', rq_DstPort := 80\<rparr>) = decision aclActionReject"
proof -
  have "same_prefix 8 [10, 0, 0, 0] [10, 1, 2, 3]" by (auto simp: same_prefix_def addr_bit_def)
  then have "\<exists>p \<in> set local_ranges. prefix_contains p (A4 [10, 1, 2, 3])"
    by (simp add: local_ranges_def prefix_contains_def)
  then show ?thesis
    using local_addresses_rejected demo_target by fastforce
qed

end
