(* ===== verification/AclCache.thy ===== *)
theory AclCache
  imports Acl
begin

text \<open>
  The cache in front of the server's access decisions.  A decision is stored under the generation
  of the users, the user, the port and a normalised text of the target; concurrent requests read
  the generation, look the key up, decide and store, while the users may be replaced.

  The first part shows that the normalised text determines the target, for texts without a zone;
  the second part is the interleaved system and its invariant; the third part shows what happens
  with a zone.
\<close>

section \<open>Normalised targets\<close>

lemma lower_digits [simp]: "dec_digit (lower c) = dec_digit c" "hex_digit (lower c) = hex_digit c"
  by (auto simp: dec_digit_def hex_digit_def lower_def Let_def take_bit_eq_mod)

lemma lower_marks [simp]:
  "lower c = CHR ''.'' \<longleftrightarrow> c = CHR ''.''" "lower c = CHR '':'' \<longleftrightarrow> c = CHR '':''" "lower c = CHR ''%'' \<longleftrightarrow> c = CHR ''%''"
proof -
  have "lower c = x \<longleftrightarrow> c = x" if "(of_char x :: nat) < 65" for x
    using that by (auto simp: lower_def Let_def take_bit_eq_mod)
  then show "lower c = CHR ''.'' \<longleftrightarrow> c = CHR ''.''" "lower c = CHR '':'' \<longleftrightarrow> c = CHR '':''" "lower c = CHR ''%'' \<longleftrightarrow> c = CHR ''%''"
    by simp_all
qed

lemma parse4_lower: "parseIPv4Fields (map lower s) start v d fs = parseIPv4Fields s start v d fs"
  by (induction s start v d fs rule: parseIPv4Fields.induct) (auto split: option.splits)

lemma hex_run_lower: "hex_run (map lower s) off acc = map_option (\<lambda>(o', a, r). (o', a, map lower r)) (hex_run s off acc)"
  by (induction s off acc rule: hex_run.induct) (auto split: option.splits)

lemma parse6_lower:
  "parse6_groups (map lower s) ip e = map_option (\<lambda>(r, ip', e'). (map lower r, ip', e')) (parse6_groups s ip e)"
proof (induction s ip e rule: parse6_groups.induct)
  case (1 s ip e)
  show ?case
  proof (cases "16 \<le> length ip")
    case True
    then show ?thesis by (simp add: parse6_groups.simps [of _ ip e])
  next
    case False
    show ?thesis
    proof (cases "hex_run s 0 0")
      case None
      with False show ?thesis by (simp add: parse6_groups.simps [of _ ip e] hex_run_lower)
    next
      case (Some t)
      obtain off acc r where t: "hex_run s 0 0 = Some (off, acc, r)" using Some by (cases t) auto
      note IH = "1.IH" [OF False t refl refl]
      consider "r = []" | a where "r = [a]" | a b rest where "r = a # b # rest" by (metis list.exhaust)
      then show ?thesis
      proof cases
        case (3 a b rest)
        with False t IH show ?thesis
          unfolding parse6_groups.simps [of _ ip e] by (auto simp: hex_run_lower parse4_lower Let_def split: option.splits)
      qed (use False t in \<open>simp_all add: parse6_groups.simps [of _ ip e] hex_run_lower parse4_lower Let_def split: option.splits\<close>)
    qed
  qed
qed

text \<open>A text that parses does not end with a dot, and its case does not matter.\<close>

lemma parse4_last: "parseIPv4Fields s start v d fs = Some ip \<Longrightarrow> s \<noteq> [] \<Longrightarrow> last s \<noteq> CHR ''.''"
  by (induction s start v d fs rule: parseIPv4Fields.induct) (auto split: option.splits if_splits)

lemma hex_run_split:
  "hex_run s off acc = Some (off', acc', r) \<Longrightarrow> \<exists>ds. s = ds @ r \<and> (\<forall>c \<in> set ds. hex_digit c \<noteq> None) \<and> length ds = off' - off \<and> off \<le> off'"
proof (induction s off acc rule: hex_run.induct)
  case (2 c s off acc)
  show ?case
  proof (cases "hex_digit c")
    case (Some d)
    with 2 obtain ds where "s = ds @ r" "\<forall>c \<in> set ds. hex_digit c \<noteq> None" "length ds = off' - (off + 1)" "off + 1 \<le> off'"
      by (auto split: if_splits)
    with Some show ?thesis by (intro exI [of _ "c # ds"]) auto
  qed (use 2 in auto)
qed auto

lemma parse6_last: "parse6_groups s ip e = Some ([], ip', e') \<Longrightarrow> s \<noteq> [] \<Longrightarrow> last s \<noteq> CHR ''.''"
proof (induction s ip e rule: parse6_groups.induct)
  case (1 s ip e)
  have len: "\<not> 16 \<le> length ip" using "1.prems" by (auto simp: parse6_groups.simps [of s ip e])
  then obtain off acc r where t: "hex_run s 0 0 = Some (off, acc, r)" "off \<noteq> 0"
    using "1.prems"(1) by (auto simp: parse6_groups.simps [of s ip e] split: option.splits if_splits)
  obtain ds where ds: "s = ds @ r" "\<forall>c \<in> set ds. hex_digit c \<noteq> None" using hex_run_split [OF t(1)] by blast
  have dot: "hex_digit (CHR ''.'') = None" by (simp add: hex_digit_def)
  note IH = "1.IH" [OF len t(1) refl refl t(2)]
  note p = "1.prems"(1) [unfolded parse6_groups.simps [of s ip e]]
  consider "r = []" | a where "r = [a]" | a b rest where "r = a # b # rest" by (metis list.exhaust)
  then show ?case
  proof cases
    case 1
    then show ?thesis using ds dot "1.prems"(2) by (metis append_Nil2 last_in_set)
  next
    case (2 a)
    then show ?thesis using p len t "1.prems"(2) parse4_last by (auto simp: Let_def split: option.splits if_splits)
  next
    case (3 a b rest)
    show ?thesis
    proof (cases "a = CHR ''.''")
      case True
      then show ?thesis using p len t 3 "1.prems"(2) parse4_last by (auto split: option.splits if_splits)
    next
      case False
      then show ?thesis using p len t 3 IH ds(1)
        by (cases "rest = []") (auto simp: Let_def split: option.splits if_splits)
    qed
  qed
qed

lemma parseIPv6_last: "parseIPv6 s = Some ip \<Longrightarrow> last s \<noteq> CHR ''.''"
proof -
  assume p: "parseIPv6 s = Some ip"
  have e: "parse6_groups [] [] e = None" for e by (simp add: parse6_groups.simps)
  show ?thesis
  proof (cases "2 \<le> length s \<and> s ! 0 = CHR '':'' \<and> s ! 1 = CHR '':''")
    case True
    show ?thesis
    proof (cases "drop 2 s = []")
      case True
      with \<open>2 \<le> length s \<and> _\<close> have "length s = 2" by simp
      then have "last s = s ! 1" by (subst last_conv_nth) auto
      with \<open>2 \<le> length s \<and> _\<close> show ?thesis by simp
    next
      case False
      with True p obtain ip' e' where "parse6_groups (drop 2 s) [] (Some 0) = Some ([], ip', e')"
        unfolding parseIPv6_def Let_def by (simp only: if_True simp_thms) (auto split: option.splits if_splits)
      with False show ?thesis using parse6_last by (metis last_drop drop_all not_le)
    qed
  next
    case False
    with p obtain ip' e' where g: "parse6_groups s [] None = Some ([], ip', e')"
      unfolding parseIPv6_def Let_def by (simp only: if_False simp_thms) (auto split: option.splits if_splits)
    then show ?thesis using parse6_last [OF g] e [of None] by (metis option.distinct(1))
  qed
qed

lemma find_lower:
  "find (\<lambda>c. c = CHR ''.'' \<or> c = CHR '':'' \<or> c = CHR ''%'') (map lower s) =
   find (\<lambda>c. c = CHR ''.'' \<or> c = CHR '':'' \<or> c = CHR ''%'') s"
proof (induction s)
  case (Cons c s)
  have "lower c = c" if "c = CHR ''.'' \<or> c = CHR '':'' \<or> c = CHR ''%''"
    using that by (metis lower_marks)
  with Cons show ?case by auto
qed simp

lemma parseIPv6_lower: "parseIPv6 (map lower s) = parseIPv6 s"
proof -
  have m: "CHR ''%'' \<in> set (map lower s) \<longleftrightarrow> CHR ''%'' \<in> set s" by (auto simp: eq_commute)
  have l: "(2 \<le> length (map lower s) \<and> map lower s ! 0 = CHR '':'' \<and> map lower s ! 1 = CHR '':'') \<longleftrightarrow>
      (2 \<le> length s \<and> s ! 0 = CHR '':'' \<and> s ! 1 = CHR '':'')" by (cases s rule: list.exhaust [case_product list.exhaust, of _ "tl s"]) auto
  show ?thesis
    unfolding parseIPv6_def m l by (auto simp: Let_def drop_map parse6_lower split: option.splits prod.splits)
qed

lemma ParseAddr_plain:
  assumes "CHR ''%'' \<notin> set s"
  shows "ParseAddr s =
    (case find (\<lambda>c. c = CHR ''.'' \<or> c = CHR '':'' \<or> c = CHR ''%'') s of
       None \<Rightarrow> None
     | Some c \<Rightarrow>
         if c = CHR ''.'' then map_option A4 (parseIPv4Fields s True 0 0 [])
         else if c = CHR '':'' then map_option (\<lambda>ip. A6 ip []) (parseIPv6 s) else None)"
proof -
  have "takeWhile (\<lambda>x. x \<noteq> CHR ''%'') s = s" using assms unfolding takeWhile_eq_all_conv by metis
  then show ?thesis unfolding ParseAddr_def Let_def by (simp only: drop_all order_refl simp_thms if_True)
qed

lemma ParseAddr_lower:
  assumes "CHR ''%'' \<notin> set s"
  shows "ParseAddr (map lower s) = ParseAddr s"
proof -
  have "CHR ''%'' \<notin> set (map lower s)" using assms lower_marks(3) by (metis imageE list.set_map)
  then show ?thesis using assms by (simp only: ParseAddr_plain find_lower parse4_lower parseIPv6_lower not_False_eq_True)
qed

lemma ParseAddr_last:
  assumes "ParseAddr s = Some a" and "CHR ''%'' \<notin> set s"
  shows "s \<noteq> []" and "last s \<noteq> CHR ''.''" and "\<exists>ip. a = A4 ip \<or> a = A6 ip []"
proof -
  note p = assms(1) [unfolded ParseAddr_plain [OF assms(2)]]
  show "\<exists>ip. a = A4 ip \<or> a = A6 ip []" using p by (auto split: option.splits if_splits)
  show "s \<noteq> []" using p by auto
  then show "last s \<noteq> CHR ''.''"
    using p parse4_last [of s True 0 0 "[]"] parseIPv6_last [of s] by (auto split: option.splits if_splits)
qed

lemma ParseAddr_String:
  assumes "naddr_ok a" and "Unmap a = a" and "\<exists>ip. a = A4 ip \<or> a = A6 ip []"
  shows "ParseAddr (Addr_String a) = Some a"
proof (cases a)
  case (A4 ip)
  then obtain w x y z where ip: "ip = [w, x, y, z]"
    using assms(1) by (auto simp: numeral_eq_Suc length_Suc_conv)
  show ?thesis
    using parse_dotted [of w x y z] find_plain [OF dec_text_plain, of w]
    by (simp add: A4 ip Addr_String_def dotted_def ParseAddr_def)
next
  case (A6 ip zone)
  then have ip: "length ip = 16" "take 12 ip \<noteq> v4_in_v6" "zone = []"
    using assms by (auto simp: Unmap_def split: if_splits)
  note p = parse_text6 [OF ip(1)]
  from ip show ?thesis by (simp add: A6 Addr_String_def ParseAddr_plain find_colon p)
qed

lemma Unmap_idem: "naddr_ok a \<Longrightarrow> Unmap (Unmap a) = Unmap a"
  by (cases a) (auto simp: Unmap_def)

text \<open>
  Without a zone, the key of the cache determines the target: the host with its address, and with
  the port of the request the whole target.
\<close>

definition zone_free :: "Request \<Rightarrow> bool" where
  "zone_free req \<longleftrightarrow> CHR ''%'' \<notin> set (rq_DstAddr req)"

definition target_of_host :: "string \<Rightarrow> u16 \<Rightarrow> routeTarget" where
  "target_of_host host port =
     (case ParseAddr host of
        None \<Rightarrow> \<lparr>t_host = host, t_revHost = rev host, t_port = port, t_addr = None\<rparr>
      | Some a \<Rightarrow>
          \<lparr>t_host = Addr_String (Unmap a), t_revHost = rev (Addr_String (Unmap a)), t_port = port, t_addr = Some (Unmap a)\<rparr>)"

lemma TrimSpace_set: "set (TrimSpace s) \<subseteq> set s"
  unfolding TrimSpace_def by (metis set_dropWhileD set_rev subsetI)

lemma target_from_key:
  assumes "zone_free req"
  shows "makeRouteTarget req = target_of_host (normalizeACLCacheTarget (rq_DstAddr req)) (rq_DstPort req)"
proof -
  define raw where "raw = TrimSpace (rq_DstAddr req)"
  have z: "CHR ''%'' \<notin> set raw" using assms TrimSpace_set by (auto simp: zone_free_def raw_def)
  have m: "makeRouteTarget req = target_of_host (TrimSuffix (ToLower raw) ''.'') (rq_DstPort req)"
    by (simp add: makeRouteTarget_def target_of_host_def raw_def Let_def split: option.splits)
  show ?thesis
  proof (cases "ParseAddr raw")
    case None
    then show ?thesis by (simp add: m normalizeACLCacheTarget_def Let_def flip: raw_def)
  next
    case (Some a)
    note l = ParseAddr_last [OF Some z]
    have "TrimSuffix (ToLower raw) ''.'' = map lower raw"
    proof -
      have "hd (rev (map lower raw)) \<noteq> CHR ''.''" using l(1,2) by (simp add: hd_rev last_map)
      then have "\<not> prefix ''.'' (rev (map lower raw))" by (auto simp: prefix_def)
      then show ?thesis by (simp add: TrimSuffix_def HasSuffix_def HasPrefix_iff ToLower_def)
    qed
    then have h: "ParseAddr (TrimSuffix (ToLower raw) ''.'') = Some a" using Some ParseAddr_lower [OF z] by simp
    have ok: "naddr_ok a" using ParseAddr_ok Some by blast
    have "\<exists>ip. Unmap a = A4 ip \<or> Unmap a = A6 ip []" using l(3) by (auto simp: Unmap_def)
    then have "ParseAddr (Addr_String (Unmap a)) = Some (Unmap a)"
      using ok Unmap_ok Unmap_idem by (intro ParseAddr_String) auto
    then show ?thesis
      using Some h ok by (simp add: m normalizeACLCacheTarget_def target_of_host_def Unmap_idem Let_def flip: raw_def)
  qed
qed

section \<open>Concurrent decisions\<close>

text \<open>
  \<^verbatim>\<open>decideACL\<close> in the steps in which it touches shared state: it reads the generation and makes
  its key, looks the key up, decides under the read lock of the users, and stores.  \<^verbatim>\<open>setUsers\<close>
  installs the lists under the write lock and then increments the generation; one goroutine, the
  watcher of the configuration file, calls it.  The state also records, for the statements only,
  every installed table of user lists, the number of completed updates, and for each request the
  number of updates that had completed when it began.
\<close>

datatype phase =
    Idle
  | Keyed string Request nat aclDecisionCacheKey
  | Missed string Request nat aclDecisionCacheKey
  | Decided string Request nat aclDecisionCacheKey aclDecision
  | Returned string Request nat aclDecision

record acl_run =
  r_srv :: aclServer
  r_versions :: "(string \<rightharpoonup> serverACL) list"
  r_done :: nat
  r_updating :: bool
  r_threads :: "nat \<Rightarrow> phase"

inductive acl_step :: "(Request \<Rightarrow> bool) \<Rightarrow> acl_run \<Rightarrow> acl_run \<Rightarrow> bool" for ok where
  Install: "\<not> r_updating r \<Longrightarrow> setUsers (r_srv r) users outbounds = Inr s' \<Longrightarrow>
    acl_step ok r (r\<lparr>r_srv := s'\<lparr>sv_aclGeneration := sv_aclGeneration (r_srv r)\<rparr>,
      r_versions := r_versions r @ [sv_userACLs s'], r_updating := True\<rparr>)"
| Bump: "r_updating r \<Longrightarrow>
    acl_step ok r (r\<lparr>r_srv := (r_srv r)\<lparr>sv_aclGeneration := sv_aclGeneration (r_srv r) + 1\<rparr>,
      r_done := Suc (r_done r), r_updating := False\<rparr>)"
| Begin: "r_threads r t = Idle \<Longrightarrow> ok req \<Longrightarrow>
    acl_step ok r (r\<lparr>r_threads := (r_threads r)
      (t := Keyed u req (r_done r) (cache_key (sv_aclGeneration (r_srv r)) u req))\<rparr>)"
| Hit: "r_threads r t = Keyed u req n key \<Longrightarrow> cache_Get (sv_aclCache (r_srv r)) key now = (c, Some d) \<Longrightarrow>
    acl_step ok r (r\<lparr>r_srv := (r_srv r)\<lparr>sv_aclCache := c\<rparr>, r_threads := (r_threads r)(t := Returned u req n d)\<rparr>)"
| Miss: "r_threads r t = Keyed u req n key \<Longrightarrow> cache_Get (sv_aclCache (r_srv r)) key now = (c, None) \<Longrightarrow>
    acl_step ok r (r\<lparr>r_srv := (r_srv r)\<lparr>sv_aclCache := c\<rparr>, r_threads := (r_threads r)(t := Missed u req n key)\<rparr>)"
| Decide: "r_threads r t = Missed u req n key \<Longrightarrow>
    acl_step ok r (r\<lparr>r_threads := (r_threads r)(t := Decided u req n key (decideACLUncached (r_srv r) u req))\<rparr>)"
| Store: "r_threads r t = Decided u req n key d \<Longrightarrow> cache_Put (sv_aclCache (r_srv r)) key d now = Some c \<Longrightarrow>
    acl_step ok r (r\<lparr>r_srv := (r_srv r)\<lparr>sv_aclCache := c\<rparr>, r_threads := (r_threads r)(t := Returned u req n d)\<rparr>)"
| Forget: "r_threads r t = Returned u req n d \<Longrightarrow> acl_step ok r (r\<lparr>r_threads := (r_threads r)(t := Idle)\<rparr>)"

inductive acl_reach :: "(Request \<Rightarrow> bool) \<Rightarrow> acl_run \<Rightarrow> acl_run \<Rightarrow> bool" for ok r0 where
  refl: "acl_reach ok r0 r0"
| step: "acl_reach ok r0 r \<Longrightarrow> acl_step ok r r' \<Longrightarrow> acl_reach ok r0 r'"

text \<open>Without interleaving the steps of a request compose to \<^verbatim>\<open>decideACL\<close>.\<close>

lemma decideACL_steps:
  assumes "decideACL (r_srv r) u req now = Some (s', d)" and "r_threads r t = Idle" and "ok req"
  shows "acl_reach ok r (r\<lparr>r_srv := s', r_threads := (r_threads r)(t := Returned u req (r_done r) d)\<rparr>)"
proof -
  let ?key = "cache_key (sv_aclGeneration (r_srv r)) u req"
  let ?r1 = "r\<lparr>r_threads := (r_threads r)(t := Keyed u req (r_done r) ?key)\<rparr>"
  have 1: "acl_reach ok r ?r1" using acl_step.Begin [of r t ok req u] assms(2,3) by (blast intro: acl_reach.intros)
  obtain c h where g: "cache_Get (sv_aclCache (r_srv r)) ?key now = (c, h)" by fastforce
  show ?thesis
  proof (cases h)
    case (Some d')
    then have "acl_step ok ?r1 (?r1\<lparr>r_srv := (r_srv r)\<lparr>sv_aclCache := c\<rparr>, r_threads := (r_threads r)(t := Returned u req (r_done r) d')\<rparr>)"
      using acl_step.Hit [of ?r1 t u req "r_done r" ?key now c d' ok] g by simp
    with acl_reach.step [OF 1] assms(1) g Some show ?thesis by (simp add: decideACL_def Let_def)
  next
    case None
    let ?d = "decideACLUncached (r_srv r) u req"
    let ?r2 = "r\<lparr>r_srv := (r_srv r)\<lparr>sv_aclCache := c\<rparr>, r_threads := (r_threads r)(t := Missed u req (r_done r) ?key)\<rparr>"
    let ?r3 = "?r2\<lparr>r_threads := (r_threads r)(t := Decided u req (r_done r) ?key ?d)\<rparr>"
    obtain c' where c': "cache_Put c ?key ?d now = Some c'" "d = ?d" "s' = (r_srv r)\<lparr>sv_aclCache := c'\<rparr>"
      using assms(1) g None by (auto simp: decideACL_def Let_def)
    have "acl_step ok ?r1 ?r2"
      using acl_step.Miss [of ?r1 t u req "r_done r" ?key now c ok] g None by simp
    with 1 have 2: "acl_reach ok r ?r2" by (rule acl_reach.step)
    have "acl_step ok ?r2 ?r3"
      using acl_step.Decide [of ?r2 t u req "r_done r" ?key ok] by (simp add: decideACLUncached_def)
    with 2 have 3: "acl_reach ok r ?r3" by (rule acl_reach.step)
    show ?thesis
      using acl_reach.step [OF 3 acl_step.Store [of ?r3 t u req "r_done r" ?key ?d now c' ok]] c' by simp
  qed
qed

definition start_run :: "aclServer \<Rightarrow> acl_run" where
  "start_run s = \<lparr>r_srv = s, r_versions = [sv_userACLs s], r_done = 0, r_updating = False, r_threads = (\<lambda>_. Idle)\<rparr>"

text \<open>A decision made on a table that is not older than \<open>n\<close> updates.\<close>

definition made_since :: "acl_run \<Rightarrow> nat \<Rightarrow> string \<Rightarrow> Request \<Rightarrow> aclDecision \<Rightarrow> bool" where
  "made_since r n u req d \<longleftrightarrow>
     (\<exists>i \<ge> n. i < length (r_versions r) \<and> d = uncached (r_versions r ! i) (sv_acl (r_srv r)) (sv_defaultReject (r_srv r)) u req)"

definition stored_ok :: "acl_run \<Rightarrow> aclDecisionCacheKey \<Rightarrow> aclDecision \<Rightarrow> bool" where
  "stored_ok r key d \<longleftrightarrow>
     (\<exists>n u req. n \<le> r_done r \<and> zone_free req \<and> key = cache_key (word_of_nat n) u req \<and> made_since r n u req d)"

fun phase_ok :: "acl_run \<Rightarrow> phase \<Rightarrow> bool" where
  "phase_ok r Idle \<longleftrightarrow> True"
| "phase_ok r (Keyed u req n key) \<longleftrightarrow> zone_free req \<and> n \<le> r_done r \<and> key = cache_key (word_of_nat n) u req"
| "phase_ok r (Missed u req n key) \<longleftrightarrow> zone_free req \<and> n \<le> r_done r \<and> key = cache_key (word_of_nat n) u req"
| "phase_ok r (Decided u req n key d) \<longleftrightarrow>
     zone_free req \<and> n \<le> r_done r \<and> key = cache_key (word_of_nat n) u req \<and> made_since r n u req d"
| "phase_ok r (Returned u req n d) \<longleftrightarrow> made_since r n u req d"

definition run_ok :: "acl_run \<Rightarrow> bool" where
  "run_ok r \<longleftrightarrow>
     sv_userACLs (r_srv r) = last (r_versions r) \<and>
     length (r_versions r) = r_done r + (if r_updating r then 2 else 1) \<and>
     sv_aclGeneration (r_srv r) = word_of_nat (r_done r) \<and>
     (\<exists>c. sv_aclCache (r_srv r) = Some c \<and> cache_inv c \<and> lru.holds (stored_ok r) c) \<and>
     (\<forall>t. phase_ok r (r_threads r t))"

lemma uncached_target:
  "makeRouteTarget req = makeRouteTarget req' \<Longrightarrow> uncached acls acl reject u req = uncached acls acl reject u req'"
  by (simp only: uncached_def decideWithSource_def applyDefaultLocalReject_def)

lemma stored_ok_use:
  assumes "stored_ok r (cache_key (word_of_nat n) u req) d" and "zone_free req" and "n \<le> r_done r" and "r_done r < 2 ^ 64"
  shows "made_since r n u req d"
proof -
  obtain n' u' req' where s: "n' \<le> r_done r" "zone_free req'" "made_since r n' u' req' d"
    and k: "cache_key (word_of_nat n) u req = cache_key (word_of_nat n') u' req'"
    using assms(1) by (auto simp: stored_ok_def)
  have "(word_of_nat n :: u64) = word_of_nat n'" "u = u'" using k by (simp_all add: cache_key_def)
  then have "n mod 2 ^ 64 = n' mod 2 ^ 64" by (simp add: word_of_nat_eq_iff take_bit_eq_mod)
  then have "n = n'" using assms(3,4) s(1) by simp
  moreover have "makeRouteTarget req = makeRouteTarget req'"
    using target_from_key [OF assms(2)] target_from_key [OF s(2)] k by (simp add: cache_key_def)
  ultimately show ?thesis using s(3) \<open>u = u'\<close> uncached_target [of req req'] unfolding made_since_def by metis
qed

text \<open>The servers of the steps differ in the cache, the generation and the users only.\<close>

lemma made_since_mono:
  assumes "made_since r n u req d" and "sv_acl (r_srv r') = sv_acl (r_srv r)"
    and "sv_defaultReject (r_srv r') = sv_defaultReject (r_srv r)" and "\<exists>vs. r_versions r' = r_versions r @ vs"
  shows "made_since r' n u req d"
  using assms by (fastforce simp: made_since_def nth_append)

lemma phase_ok_mono:
  assumes "phase_ok r p" and "sv_acl (r_srv r') = sv_acl (r_srv r)" and "r_done r \<le> r_done r'"
    and "sv_defaultReject (r_srv r') = sv_defaultReject (r_srv r)" and "\<exists>vs. r_versions r' = r_versions r @ vs"
  shows "phase_ok r' p"
  using assms made_since_mono [OF _ assms(2,4,5)] by (cases p) auto

lemma holds_mono:
  assumes "lru.holds (stored_ok r) c" and "sv_acl (r_srv r') = sv_acl (r_srv r)" and "r_done r \<le> r_done r'"
    and "sv_defaultReject (r_srv r') = sv_defaultReject (r_srv r)" and "\<exists>vs. r_versions r' = r_versions r @ vs"
  shows "lru.holds (stored_ok r') c"
  unfolding lru.holds_def
proof (intro allI impI)
  fix k v now assume "cache_lookup c k now = Some v"
  then have "stored_ok r k v" using assms(1) by (auto simp: lru.holds_def)
  then show "stored_ok r' k v"
    unfolding stored_ok_def using made_since_mono [OF _ assms(2,4,5)] order_trans [OF _ assms(3)] by blast
qed

lemma setUsers_fields:
  assumes "setUsers s users outbounds = Inr s'"
  shows "sv_acl s' = sv_acl s" "sv_defaultReject s' = sv_defaultReject s" "sv_aclCache s' = sv_aclCache s"
  using assms by (auto simp: setUsers_def split: sum.splits if_splits)

text \<open>A thread's own step: the cache may change, what it holds stays right, the thread moves to a right phase.\<close>

lemma run_ok_thread:
  assumes "run_ok r" and "cache_inv c" and "lru.holds (stored_ok r) c" and "phase_ok r p"
  shows "run_ok (r\<lparr>r_srv := (r_srv r)\<lparr>sv_aclCache := Some c\<rparr>, r_threads := (r_threads r)(t := p)\<rparr>)" (is "run_ok ?r")
proof -
  have "lru.holds (stored_ok ?r) c" using holds_mono [OF assms(3), of ?r] by simp
  moreover have "phase_ok ?r q" if "phase_ok r q" for q using phase_ok_mono [OF that, of ?r] by simp
  ultimately show ?thesis using assms by (auto simp: run_ok_def)
qed

lemma cache_Get_inv:
  assumes "cache_Get (Some c) key now = (c', h)" and "cache_inv c" and "lru.holds P c"
  shows "\<exists>c1. c' = Some c1 \<and> cache_inv c1 \<and> lru.holds P c1 \<and> (\<forall>d. h = Some d \<longrightarrow> P key d)"
  using assms lru.get_invar [OF assms(2), of key True now] lru.holds_get [OF assms(2,3), of key True now]
    lru.holds_read [OF assms(2,3), of key True now]
  by (cases "cache_get c key True now") (auto simp: cache_Get_def)

lemma acl_step_ok:
  assumes "acl_step zone_free r r'" and "run_ok r" and "r_done r' < 2 ^ 64"
  shows "run_ok r'"
proof -
  obtain c where c: "sv_aclCache (r_srv r) = Some c" "cache_inv c" "lru.holds (stored_ok r) c"
    using assms(2) by (auto simp: run_ok_def)
  have th: "\<And>t. phase_ok r (r_threads r t)" using assms(2) by (auto simp: run_ok_def)
  have srv: "(r_srv r)\<lparr>sv_aclCache := Some c\<rparr> = r_srv r" using c(1) by (cases "r_srv r") simp
  have own: "run_ok (r\<lparr>r_threads := (r_threads r)(t := p)\<rparr>)" if "phase_ok r p" for t p
    using run_ok_thread [OF assms(2) c(2,3) that, of t] by (simp add: srv)
  from assms(1) show ?thesis
  proof cases
    case (Install users outbounds s')
    note f = setUsers_fields [OF Install(3)]
    have "lru.holds (stored_ok r') c" using holds_mono [OF c(3), of r'] f by (simp add: Install(1))
    moreover have "phase_ok r' (r_threads r t)" for t using phase_ok_mono [OF th, of r'] f by (simp add: Install(1))
    ultimately show ?thesis using assms(2) Install(2) c f by (simp add: run_ok_def Install(1))
  next
    case Bump
    have "lru.holds (stored_ok r') c" using holds_mono [OF c(3), of r'] by (simp add: Bump(1))
    moreover have "phase_ok r' (r_threads r t)" for t using phase_ok_mono [OF th, of r'] by (simp add: Bump(1))
    ultimately show ?thesis using assms(2) Bump(2) c by (simp add: run_ok_def Bump(1) add.commute)
  next
    case (Begin t req u)
    have "sv_aclGeneration (r_srv r) = word_of_nat (r_done r)" using assms(2) by (simp add: run_ok_def)
    then show ?thesis using Begin(3) unfolding Begin(1) by (intro own) simp
  next
    case (Hit t u req n key now c' d)
    obtain c1 where "c' = Some c1" "cache_inv c1" "lru.holds (stored_ok r) c1" "stored_ok r key d"
      using cache_Get_inv [OF Hit(3) [unfolded c(1)] c(2,3)] by blast
    moreover have "made_since r n u req d"
      using th [of t] Hit \<open>stored_ok r key d\<close> assms(3) stored_ok_use [of r n u req d] by simp
    ultimately show ?thesis using run_ok_thread [OF assms(2)] by (simp add: Hit(1))
  next
    case (Miss t u req n key now c')
    obtain c1 where "c' = Some c1" "cache_inv c1" "lru.holds (stored_ok r) c1"
      using cache_Get_inv [OF Miss(3) [unfolded c(1)] c(2,3)] by blast
    moreover have "phase_ok r (Missed u req n key)" using th [of t] Miss by simp
    ultimately show ?thesis using run_ok_thread [OF assms(2)] by (simp add: Miss(1))
  next
    case (Decide t u req n key)
    have "made_since r n u req (decideACLUncached (r_srv r) u req)"
    proof -
      let ?i = "length (r_versions r) - 1"
      have "n \<le> ?i" "?i < length (r_versions r)"
        using th [of t] Decide assms(2) by (auto simp: run_ok_def split: if_splits)
      moreover from this have "r_versions r ! ?i = sv_userACLs (r_srv r)"
        using assms(2) by (subst last_conv_nth [symmetric]) (auto simp: run_ok_def split: if_splits)
      ultimately have "n \<le> ?i" "?i < length (r_versions r)" "r_versions r ! ?i = sv_userACLs (r_srv r)" by blast+
      then show ?thesis unfolding made_since_def decideACLUncached_def by metis
    qed
    then show ?thesis using th [of t] Decide by (simp add: own)
  next
    case (Store t u req n key d now c')
    have p: "phase_ok r (Decided u req n key d)" using th [of t] Store by simp
    then have P: "stored_ok r key d" by (auto simp: stored_ok_def)
    obtain c1 where c1: "cache_put c key d now = Some c1" "cache_inv c1" using lru.put_returns [OF c(2)] by blast
    then have "c' = Some c1" "lru.holds (stored_ok r) c1"
      using Store(3) c lru.holds_put [OF c(2,3) P c1(1)] by (auto simp: cache_Put_def)
    then show ?thesis using run_ok_thread [OF assms(2) c1(2)] p by (simp add: Store(1))
  next
    case (Forget t u req n d)
    then show ?thesis by (simp add: own)
  qed
qed

lemma acl_step_done: "acl_step ok r r' \<Longrightarrow> r_done r \<le> r_done r'"
  by (erule acl_step.cases) auto

lemma acl_reach_ok:
  assumes "acl_reach zone_free r0 r" and "run_ok r0" and "r_done r < 2 ^ 64"
  shows "run_ok r"
  using assms(1,3)
proof induction
  case refl
  then show ?case using assms(2) by simp
next
  case (step r r')
  then show ?case using acl_step_done [OF step(2)] acl_step_ok [OF step(2)] by simp
qed

lemma start_run_ok:
  assumes "sv_aclCache s = Some (cache_New ttl cap)" and "sv_aclGeneration s = 0"
  shows "run_ok (start_run s)"
proof -
  have "cache_lookup (cache_New ttl cap :: (aclDecisionCacheKey, aclDecision) cache) k now = None" for k now
    by (simp add: cache_lookup_def new_inv)
  then show ?thesis using assms by (simp add: run_ok_def start_run_def lru.holds_def new_inv)
qed

text \<open>
  C22. The cache of access decisions is transparent and never serves a stale decision, in runs whose
  targets have no zone and with fewer than \<open>2^64\<close> updates (a zone poisons it, see below).  Whatever
  way these requests and updates of the users interleave, a request that began after \<open>n\<close> updates had
  completed gets the decision that the uncached procedure makes on a table of users at least that
  new, for this very user and target: no other request, user or generation leaks through the
  cache.
\<close>

theorem acl_cache_transparent:
  assumes "sv_aclCache s = Some (cache_New ttl cap)" and "sv_aclGeneration s = 0"
    and "acl_reach zone_free (start_run s) r" and "r_done r < 2 ^ 64"
    and "r_threads r t = Returned u req n d"
  shows "\<exists>i \<ge> n. i < length (r_versions r) \<and> d = uncached (r_versions r ! i) (sv_acl s) (sv_defaultReject s) u req"
proof -
  have "sv_acl (r_srv r) = sv_acl s \<and> sv_defaultReject (r_srv r) = sv_defaultReject s"
    using assms(3)
  proof induction
    case refl
    then show ?case by (simp add: start_run_def)
  next
    case (step r r')
    from step(2,3) show ?case by cases (auto dest: setUsers_fields)
  qed
  moreover have "phase_ok r (r_threads r t)"
    using acl_reach_ok [OF assms(3) start_run_ok [OF assms(1,2)] assms(4)] by (simp add: run_ok_def)
  ultimately show ?thesis using assms(5) by (simp add: made_since_def)
qed

definition demo_server :: aclServer where
  "demo_server = \<lparr>sv_users = [], sv_userACLs = Map.empty, sv_acl = Some compileDefaultServerACL,
     sv_defaultReject = (case defaultLocalRejectMatcher of Inr m \<Rightarrow> m | Inl _ \<Rightarrow> empty_rules),
     sv_aclCache = Some (cache_New (seconds 300) 256), sv_aclGeneration = 0\<rparr>"

abbreviation demo_req :: "string \<Rightarrow> Request" where
  "demo_req host \<equiv> new_Request\<lparr>rq_DstAddr := host, rq_DstPort := 80\<rparr>"

lemma demo_new: "cache_Get (Some (cache_New ttl cap)) key now = (Some (cache_New ttl cap), None)"
  by (simp add: cache_Get_def cache_get_def cache_New_def)

lemma decide_miss:
  assumes "sv_aclCache s = Some (cache_New ttl cap)"
  shows "\<exists>c. cache_put (cache_New ttl cap) (cache_key (sv_aclGeneration s) u req) (decideACLUncached s u req) now = Some c \<and>
    decideACL s u req now = Some (s\<lparr>sv_aclCache := Some c\<rparr>, decideACLUncached s u req)"
proof -
  obtain c where "cache_put (cache_New ttl cap) (cache_key (sv_aclGeneration s) u req) (decideACLUncached s u req) now = Some c"
    using lru.put_returns [of "cache_New ttl cap" "cache_key (sv_aclGeneration s) u req"] new_inv by metis
  then show ?thesis using assms by (simp add: decideACL_def demo_new Let_def cache_Put_def)
qed

theorem acl_cache_transparent_witness:
  "\<exists>r d. acl_reach zone_free (start_run demo_server) r \<and> r_threads r 0 = Returned ''u'' (demo_req ''10.1.2.3'') 0 d \<and>
     (\<exists>i \<ge> 0. i < length (r_versions r) \<and>
        d = uncached (r_versions r ! i) (sv_acl demo_server) (sv_defaultReject demo_server) ''u'' (demo_req ''10.1.2.3''))"
proof -
  let ?init = "start_run demo_server"
  have c: "sv_aclCache demo_server = Some (cache_New (seconds 300) 256)" "sv_aclGeneration demo_server = 0"
    by (simp_all add: demo_server_def)
  obtain s' d where d: "decideACL demo_server ''u'' (demo_req ''10.1.2.3'') 0 = Some (s', d)"
    using decide_miss [OF c(1)] by blast
  let ?r = "?init\<lparr>r_srv := s', r_threads := (r_threads ?init)(0 := Returned ''u'' (demo_req ''10.1.2.3'') (r_done ?init) d)\<rparr>"
  have "acl_reach zone_free ?init ?r"
    by (rule decideACL_steps) (use d in \<open>simp_all add: start_run_def zone_free_def\<close>)
  moreover have "r_threads ?r 0 = Returned ''u'' (demo_req ''10.1.2.3'') 0 d" "r_done ?r < 2 ^ 64" by (simp_all add: start_run_def)
  ultimately show ?thesis using acl_cache_transparent [OF c, of ?r 0 "''u''" "demo_req ''10.1.2.3''" 0 d] by blast
qed

section \<open>Targets with a zone\<close>

lemma replicate_ten: "replicate 10 x = [x, x, x, x, x, x, x, x, x, x]"
  by (simp add: eval_nat_numeral)

lemma zone_address:
  "parseIPv6 ''::ffff:10.0.0.1'' = Some (v4_in_v6 @ [10, 0, 0, 1])"
  "Addr_String (Unmap (A6 (v4_in_v6 @ [10, 0, 0, 1]) z)) = ''10.0.0.1''" "Addr_String (Unmap (A4 [10, 0, 0, 1])) = ''10.0.0.1''"
  by (simp_all add: parseIPv6_def parse6_groups.simps Let_def hex_digit_def dec_digit_def put16_def v4_in_v6_def
      drop_bit_eq_div Unmap_def Addr_String_def dotted_def dec_text_def digit_char_def char_of_def bit_0 replicate_ten)

text \<open>
  C23. With a zone the key does not determine the target.  \<^verbatim>\<open>::ffff:10.0.0.1%.\<close> is not an
  address for the rules, since they drop its last dot, but its key is that of \<^verbatim>\<open>10.0.0.1\<close>.  On
  a new server without access lists any user who asks for it gets the direct decision, and the
  next request of the user for the local address \<^verbatim>\<open>10.0.0.1\<close> at that port, which is to be
  rejected, gets the direct decision from the cache while the entry lives.
\<close>

theorem zone_bypasses_local_reject:
  assumes "0 \<le> t" and "t \<le> seconds 300"
  shows "\<exists>s1 s2. decideACL demo_server u (demo_req ''::ffff:10.0.0.1%.'') 0 = Some (s1, decision aclActionDirect) \<and>
    decideACL s1 u (demo_req ''10.0.0.1'') t = Some (s2, decision aclActionDirect) \<and>
    decideACLUncached s1 u (demo_req ''10.0.0.1'') = decision aclActionReject"
proof -
  let ?z = "demo_req ''::ffff:10.0.0.1%.''" and ?a = "demo_req ''10.0.0.1''"
  obtain m where m: "defaultLocalRejectMatcher = Inr m" using local_matcher_compiles by blast
  have unc: "decideACLUncached s u req =
      decision (if \<exists>a. t_addr (makeRouteTarget req) = Some a \<and> (\<exists>p \<in> set local_ranges. prefix_contains p a)
        then aclActionReject else aclActionDirect)"
    if "sv_defaultReject s = m" "sv_acl s = Some compileDefaultServerACL" "sv_userACLs s = Map.empty" for s req
    using that by (auto simp: decideACLUncached_def uncached_def decideWithSource_def compileDefaultServerACL_def decision_def
        applyDefaultLocalReject_def local_matcher_exact [OF m])
  have "t_addr (makeRouteTarget ?z) = None" "t_addr (makeRouteTarget ?a) = Some (A4 [10, 0, 0, 1])"
    by (simp_all add: makeRouteTarget_def text_eval Unmap_def)
  moreover have "same_prefix 8 [10, 0, 0, 0] [10, 0, 0, 1]" by (auto simp: same_prefix_def addr_bit_def)
  then have "\<exists>p \<in> set local_ranges. prefix_contains p (A4 [10, 0, 0, 1])"
    by (simp add: local_ranges_def prefix_contains_def)
  ultimately have z: "decideACLUncached demo_server u ?z = decision aclActionDirect"
    and a: "\<And>c. decideACLUncached (demo_server\<lparr>sv_aclCache := c\<rparr>) u ?a = decision aclActionReject"
    by (simp_all add: unc demo_server_def m)
  have c0: "sv_aclCache demo_server = Some (cache_New (seconds 300) 256)" "sv_aclGeneration demo_server = 0"
    by (simp_all add: demo_server_def)
  obtain c where c: "cache_put (cache_New (seconds 300) 256) (cache_key 0 u ?z) (decision aclActionDirect) 0 = Some c"
    "decideACL demo_server u ?z 0 = Some (demo_server\<lparr>sv_aclCache := Some c\<rparr>, decision aclActionDirect)"
    using decide_miss [OF c0(1), of u ?z 0] by (auto simp: c0(2) z)
  have "normalizeACLCacheTarget ''::ffff:10.0.0.1%.'' = ''10.0.0.1''" "normalizeACLCacheTarget ''10.0.0.1'' = ''10.0.0.1''"
    by (simp_all add: normalizeACLCacheTarget_def text_eval zone_address)
  then have key: "cache_key 0 u ?a = cache_key 0 u ?z" by (simp add: cache_key_def)
  have "snd (cache_get c (cache_key 0 u ?z) True t) = Some (decision aclActionDirect)"
    by (rule lru.read_after_put [OF conjunct1 [OF new_inv] c(1)])
      (use assms in \<open>simp add: fresh_for_def cache_New_def\<close>)
  then obtain c' where "cache_Get (Some c) (cache_key 0 u ?z) t = (Some c', Some (decision aclActionDirect))"
    by (cases "cache_get c (cache_key 0 u ?z) True t") (simp add: cache_Get_def)
  then have "\<exists>s2. decideACL (demo_server\<lparr>sv_aclCache := Some c\<rparr>) u ?a t = Some (s2, decision aclActionDirect)"
    by (simp add: decideACL_def Let_def key c0(2))
  with c(2) a show ?thesis by blast
qed

theorem zone_bypasses_local_reject_witness:
  "\<exists>s1 s2. decideACL demo_server ''u'' (demo_req ''::ffff:10.0.0.1%.'') 0 = Some (s1, decision aclActionDirect) \<and>
    decideACL s1 ''u'' (demo_req ''10.0.0.1'') 60 = Some (s2, decision aclActionDirect) \<and>
    decideACLUncached s1 ''u'' (demo_req ''10.0.0.1'') = decision aclActionReject"
  using zone_bypasses_local_reject [of 60 "''u''"] by (simp add: seconds_def)

end
