(* ===== verification/ObfPool.thy ===== *)
theory ObfPool
  imports Constants GoStrings "HOL-Library.Multiset"
begin

text \<open>
  The obfuscation pools of \<^verbatim>\<open>pkg/obfheader/obfheader.go\<close>, first part: the PCG32 generator, the
  layout of headers that is derived from the server key, the padding tables and the pool that is
  derived from the epoch.  Everything is drawn from the generator in the order of the source, so
  that two sides with the same key and epoch have the same pool.

  SHA-256 is a parameter.  The logarithmic draws go through floating-point functions of the Go
  library: the parameter \<open>expo\<close> stands for \<^verbatim>\<open>floor(exp(u*(log max - log min) + log min))\<close> at
  the draw \<open>u\<close>, any function; the clamping of its result is modelled.  Layouts and pools are
  kept in process-wide maps; they are functions of their keys, so the maps are left out.
\<close>

section \<open>PCG32\<close>

datatype HeaderType =
  HeaderTypePrintable | HeaderTypeAny | HeaderTypeUpper | HeaderTypeTitle | HeaderTypeLower | HeaderTypeAlnum

definition ParseHeaderType :: "string \<Rightarrow> HeaderType option" where
  "ParseHeaderType v =
     (let s = TrimSpace v
      in if s = [] \<or> s = ''printable'' then Some HeaderTypePrintable
         else if s = ''any'' then Some HeaderTypeAny
         else if s = ''ALPHABET'' then Some HeaderTypeUpper
         else if s = ''Alphabet'' then Some HeaderTypeTitle
         else if s = ''alphabet'' then Some HeaderTypeLower
         else if s = ''alnum'' then Some HeaderTypeAlnum
         else None)"

record pcg32 =
  pcg_state :: u64
  pcg_inc :: u64

definition pcgMult :: u64 where "pcgMult = 6364136223846793005"
definition pcgDefaultSeq :: u64 where "pcgDefaultSeq = 0xda3e39cb94b95bdb"

text \<open>\<^verbatim>\<open>bits.RotateLeft32(x, -r)\<close>.\<close>

definition rotate_right32 :: "u32 \<Rightarrow> nat \<Rightarrow> u32" where
  "rotate_right32 x r = (let s = (32 - r) mod 32 in push_bit s x OR drop_bit (32 - s) x)"

definition pcg_next :: "pcg32 \<Rightarrow> u32 \<times> pcg32" where
  "pcg_next p =
     (let oldstate = pcg_state p;
          xorshifted = (ucast (drop_bit 27 (drop_bit 18 oldstate XOR oldstate)) :: u32);
          rot = unat (drop_bit 59 oldstate)
      in (rotate_right32 xorshifted rot, p\<lparr>pcg_state := oldstate * pcgMult + pcg_inc p\<rparr>))"

definition seedRNG :: "u64 \<Rightarrow> u64 \<Rightarrow> pcg32" where
  "seedRNG seed seq =
     (let p0 = \<lparr>pcg_state = 0, pcg_inc = push_bit 1 seq OR 1\<rparr>;
          p1 = snd (pcg_next p0);
          p2 = p1\<lparr>pcg_state := pcg_state p1 + seed\<rparr>
      in snd (pcg_next p2))"

definition newPCG32 :: "u64 \<Rightarrow> pcg32" where
  "newPCG32 seed = seedRNG seed pcgDefaultSeq"

text \<open>A draw modulo \<open>n\<close>.\<close>

definition draw :: "nat \<Rightarrow> pcg32 \<Rightarrow> nat \<times> pcg32" where
  "draw n p = (let (r, p') = pcg_next p in (unat r mod n, p'))"

definition randomHeaderLen :: "pcg32 \<Rightarrow> nat \<Rightarrow> nat \<Rightarrow> nat \<times> pcg32" where
  "randomHeaderLen p minLen maxLen = (let (d, p') = draw (maxLen - minLen + 1) p in (d + minLen, p'))"

definition chooseSize :: "pcg32 \<Rightarrow> nat list \<Rightarrow> nat \<times> pcg32" where
  "chooseSize p sizes = (let (d, p') = draw (length sizes) p in (sizes ! d, p'))"

definition alnum_text :: string where
  "alnum_text = ''ABCDEFGHIJKLMNOPQRSTUVWXYZabcdefghijklmnopqrstuvwxyz0123456789''"

definition rng_byte :: "HeaderType \<Rightarrow> nat \<Rightarrow> u32 \<Rightarrow> byte" where
  "rng_byte ht i r =
     (case ht of
        HeaderTypeAny \<Rightarrow> ucast r
      | HeaderTypeUpper \<Rightarrow> word_of_nat (unat r mod 26 + 65)
      | HeaderTypeTitle \<Rightarrow> if i = 0 then word_of_nat (unat r mod 26 + 65) else word_of_nat (unat r mod 26 + 97)
      | HeaderTypeLower \<Rightarrow> word_of_nat (unat r mod 26 + 97)
      | HeaderTypeAlnum \<Rightarrow> byte_of_char (alnum_text ! (unat r mod length alnum_text))
      | HeaderTypePrintable \<Rightarrow> word_of_nat (unat r mod 0x5e + 0x21))"

fun rng_bytes_from :: "pcg32 \<Rightarrow> nat \<Rightarrow> nat \<Rightarrow> HeaderType \<Rightarrow> bytes \<times> pcg32" where
  "rng_bytes_from p i 0 ht = ([], p)"
| "rng_bytes_from p i (Suc n) ht =
     (let (r, p1) = pcg_next p; (bs, p2) = rng_bytes_from p1 (i + 1) n ht in (rng_byte ht i r # bs, p2))"

definition rngBytes :: "pcg32 \<Rightarrow> nat \<Rightarrow> HeaderType \<Rightarrow> bytes \<times> pcg32" where
  "rngBytes p n ht = rng_bytes_from p 0 n ht"

text \<open>The logarithmic draws, with the value of the floating-point expression from \<open>expo\<close>.\<close>

definition logUniformExclusive :: "(u32 \<Rightarrow> int \<Rightarrow> int \<Rightarrow> int) \<Rightarrow> u32 \<Rightarrow> int \<Rightarrow> int \<Rightarrow> int" where
  "logUniformExclusive expo u minInclusive maxExclusive =
     (if maxExclusive \<le> minInclusive then minInclusive
      else
        (let v = expo u minInclusive maxExclusive
         in if v < minInclusive then minInclusive else if maxExclusive \<le> v then maxExclusive - 1 else v))"

definition logUniformInclusive :: "(u32 \<Rightarrow> int \<Rightarrow> int \<Rightarrow> int) \<Rightarrow> u32 \<Rightarrow> int \<Rightarrow> int \<Rightarrow> int" where
  "logUniformInclusive expo u mn mx =
     (if mn \<le> 0
      then logUniformExclusive expo u (mn + PaddingLogOffset) (mx + 1 + PaddingLogOffset) - PaddingLogOffset
      else logUniformExclusive expo u mn (mx + 1))"

definition logUniformUint :: "(u32 \<Rightarrow> int \<Rightarrow> int \<Rightarrow> int) \<Rightarrow> pcg32 \<Rightarrow> nat \<Rightarrow> u32 \<times> pcg32" where
  "logUniformUint expo p size' =
     (let (u, p') = pcg_next p; maxExclusive = 2 ^ (size' * 8)
      in (word_of_int (logUniformExclusive expo u 10 (maxExclusive + 10) - 10), p'))"

definition pcgLogUniformRange :: "(u32 \<Rightarrow> int \<Rightarrow> int \<Rightarrow> int) \<Rightarrow> pcg32 \<Rightarrow> int \<Rightarrow> int \<Rightarrow> u16 \<times> pcg32" where
  "pcgLogUniformRange expo p mn mx =
     (if mx \<le> mn then (word_of_int mn, p)
      else (let (u, p') = pcg_next p in (word_of_int (logUniformInclusive expo u mn mx), p')))"

text \<open>The first \<open>k\<close> steps of a Fisher-Yates shuffle.\<close>

fun shuffle_from :: "nat \<Rightarrow> nat \<Rightarrow> 'a list \<Rightarrow> pcg32 \<Rightarrow> 'a list \<times> pcg32" where
  "shuffle_from i 0 xs p = (xs, p)"
| "shuffle_from i (Suc k) xs p =
     (let (d, p') = draw (length xs - i) p; j = i + d
      in shuffle_from (i + 1) k (xs[i := xs ! j, j := xs ! i]) p')"

section \<open>Layout\<close>

datatype versionKind = versionNone | versionUint32 | versionInt16Triple | versionString

datatype handshakeFieldKind =
    handshakeFieldLen | handshakeFieldFixID | handshakeFieldEpochID | handshakeFieldClientID | handshakeFieldIncID
  | handshakeFieldPacketID | handshakeFieldUTC | handshakeFieldID1 | handshakeFieldID2

record handshakeField =
  f_Kind :: handshakeFieldKind
  f_Size :: nat
  f_Value :: u32

record handshakeLayout =
  l_MagicLen :: nat
  l_VersionKind :: versionKind
  l_VersionLen :: nat
  l_VersionSegments :: "nat list"
  l_LenOffset :: u16
  l_Fields :: "handshakeField list"
  l_DataMagicLen :: nat
  l_DataHasLen :: bool
  l_DataHasID :: bool
  l_DataFields :: "handshakeFieldKind list"

definition version_kind :: "nat \<Rightarrow> versionKind" where
  "version_kind d = (if d = 0 then versionNone else if d = 1 then versionUint32 else if d = 2 then versionInt16Triple else versionString)"

definition field_candidates :: "handshakeFieldKind list" where
  "field_candidates =
     [handshakeFieldLen, handshakeFieldFixID, handshakeFieldEpochID, handshakeFieldClientID, handshakeFieldIncID,
      handshakeFieldPacketID, handshakeFieldUTC, handshakeFieldID1, handshakeFieldID2]"

text \<open>One field of the layout; the length field also sets the offset of the layout.\<close>

definition make_field ::
  "(u32 \<Rightarrow> int \<Rightarrow> int \<Rightarrow> int) \<Rightarrow> handshakeFieldKind \<Rightarrow> pcg32 \<Rightarrow> u16 \<Rightarrow> handshakeField \<times> u16 \<times> pcg32" where
  "make_field expo kind p lenOffset =
     (case kind of
        handshakeFieldLen \<Rightarrow>
          (let (d, p') = draw 64 p; off = (word_of_nat d :: u16)
           in (\<lparr>f_Kind = kind, f_Size = 2, f_Value = ucast off\<rparr>, off, p'))
      | handshakeFieldPacketID \<Rightarrow> (\<lparr>f_Kind = kind, f_Size = DataObfPacketIDSize, f_Value = 0\<rparr>, lenOffset, p)
      | handshakeFieldEpochID \<Rightarrow>
          (let (sz, p') = chooseSize p [2, 4] in (\<lparr>f_Kind = kind, f_Size = sz, f_Value = 0\<rparr>, lenOffset, p'))
      | handshakeFieldClientID \<Rightarrow>
          (let (sz, p') = chooseSize p [2, 4] in (\<lparr>f_Kind = kind, f_Size = sz, f_Value = 0\<rparr>, lenOffset, p'))
      | handshakeFieldIncID \<Rightarrow> (\<lparr>f_Kind = kind, f_Size = 2, f_Value = 0\<rparr>, lenOffset, p)
      | handshakeFieldUTC \<Rightarrow> (\<lparr>f_Kind = kind, f_Size = 4, f_Value = 0\<rparr>, lenOffset, p)
      | _ \<Rightarrow>
          (let (sz, p1) = chooseSize p [1, 2, 4]; (v, p2) = logUniformUint expo p1 sz
           in (\<lparr>f_Kind = kind, f_Size = sz, f_Value = v\<rparr>, lenOffset, p2)))"

fun make_fields ::
  "(u32 \<Rightarrow> int \<Rightarrow> int \<Rightarrow> int) \<Rightarrow> handshakeFieldKind list \<Rightarrow> pcg32 \<Rightarrow> u16 \<Rightarrow> handshakeField list \<times> u16 \<times> pcg32" where
  "make_fields expo [] p off = ([], off, p)"
| "make_fields expo (k # ks) p off =
     (let (f, off1, p1) = make_field expo k p off; (fs, off2, p2) = make_fields expo ks p1 off1
      in (f # fs, off2, p2))"

definition isDataField :: "handshakeFieldKind \<Rightarrow> bool" where
  "isDataField k \<longleftrightarrow> k = handshakeFieldLen \<or> k = handshakeFieldPacketID"

definition generateHandshakeLayout ::
  "(bytes \<Rightarrow> bytes) \<Rightarrow> (u32 \<Rightarrow> int \<Rightarrow> int \<Rightarrow> int) \<Rightarrow> string \<Rightarrow> handshakeLayout" where
  "generateHandshakeLayout sha256 expo serverKey =
     (let sum = sha256 (bytes_of_string serverKey);
          p0 = seedRNG (get64 (take 8 sum)) (get64 (take 8 (drop 8 sum)));
          (magicLen, p1) = randomHeaderLen p0 HandshakeObfHeaderMinLen HandshakeObfMagicMaxLen;
          (vk, p2) = draw 4 p1; kind = version_kind vk;
          (s1, p3) = draw 2 p2; (s2, p4) = draw 2 p3; (s3, p5) = draw 2 p4;
          (versionLen, p6) =
            (case kind of
               versionString \<Rightarrow> (let (d, p') = draw 4 p5 in (d + 5, p'))
             | versionUint32 \<Rightarrow> (4, p5)
             | versionInt16Triple \<Rightarrow> (6, p5)
             | versionNone \<Rightarrow> (0, p5));
          (candidates, p7) = shuffle_from 0 (length field_candidates) field_candidates p6;
          (count, p8) = draw 4 p7;
          (fields, lenOffset, p9) = make_fields expo (take count candidates) p8 0;
          kinds = map f_Kind fields;
          dataFields = filter isDataField kinds;
          dataFieldBytes = length dataFields * DataObfPacketIDSize;
          dataMagicMaxLen0 = DataObfHeaderSize - dataFieldBytes;
          dataMagicMaxLen = (if dataFields \<noteq> [] \<and> 4 < dataMagicMaxLen0 then 4 else dataMagicMaxLen0);
          (dataMagicLen, p10) = randomHeaderLen p9 DataObfHeaderMinLen dataMagicMaxLen
      in \<lparr>l_MagicLen = magicLen, l_VersionKind = kind, l_VersionLen = versionLen,
          l_VersionSegments = [s1 + 1, s2 + 1, s3 + 1], l_LenOffset = lenOffset, l_Fields = fields,
          l_DataMagicLen = dataMagicLen, l_DataHasLen = (handshakeFieldLen \<in> set kinds),
          l_DataHasID = (handshakeFieldPacketID \<in> set kinds), l_DataFields = dataFields\<rparr>)"

section \<open>Pool\<close>

record header =
  h_Len :: nat
  h_Head :: bytes
  h_LenOffset :: u16

record Pool =
  p_HandshakeHeader :: header
  p_DataMagicLen :: nat
  p_DataHeaderHasLen :: bool
  p_DataHeaderHasID :: bool
  p_Threshold :: nat
  p_SmallGroup :: "header list"
  p_LargeGroup :: "header list"
  p_PaddingThreshold :: "nat list"
  p_PaddingSize :: "u16 list list"
  p_PaddingRowLimit :: "nat list"
  p_MinPadding :: u16
  p_MaxPadding :: u16
  p_InvalidDrainLogOffset :: nat
  p_dataHeaderSet :: "bytes set"
  p_dataLenOffsets :: "bytes \<rightharpoonup> u16"
  p_dataFields :: "handshakeFieldKind list"

text \<open>
  The loop that draws a data header until its bytes are new.  Nothing bounds it, so it is a partial
  function: None is a generator that never gives a new header.
\<close>

definition draw_header :: "HeaderType \<Rightarrow> nat \<Rightarrow> pcg32 \<Rightarrow> header \<times> pcg32" where
  "draw_header ht magicLen p =
     (let (hlen, p1) = randomHeaderLen p DataObfHeaderMinLen magicLen;
          (bs, p2) = rngBytes p1 hlen ht;
          head = bs @ replicate (magicLen - hlen) 0;
          (off, p3) = draw 18 p2
      in (\<lparr>h_Len = magicLen, h_Head = head, h_LenOffset = word_of_nat off\<rparr>, p3))"

partial_function (option) fresh_header :: "HeaderType \<Rightarrow> nat \<Rightarrow> bytes list \<Rightarrow> pcg32 \<Rightarrow> (header \<times> pcg32) option" where
  "fresh_header ht magicLen seen p =
     (let (h, p') = draw_header ht magicLen p
      in if h_Head h \<in> set seen then fresh_header ht magicLen seen p' else Some (h, p'))"

fun data_headers :: "HeaderType \<Rightarrow> nat \<Rightarrow> nat \<Rightarrow> bytes list \<Rightarrow> pcg32 \<Rightarrow> (header list \<times> pcg32) option" where
  "data_headers ht magicLen 0 seen p = Some ([], p)"
| "data_headers ht magicLen (Suc n) seen p =
     (case fresh_header ht magicLen seen p of
        None \<Rightarrow> None
      | Some (h, p1) \<Rightarrow>
          (case data_headers ht magicLen n (h_Head h # seen) p1 of
             None \<Rightarrow> None
           | Some (hs, p2) \<Rightarrow> Some (h # hs, p2)))"

fun draw_row :: "(u32 \<Rightarrow> int \<Rightarrow> int \<Rightarrow> int) \<Rightarrow> nat \<Rightarrow> pcg32 \<Rightarrow> u16 list \<times> pcg32" where
  "draw_row expo 0 p = ([], p)"
| "draw_row expo (Suc n) p =
     (let (v, p1) = pcgLogUniformRange expo p 0 (int MaxDataPaddingSize); (vs, p2) = draw_row expo n p1
      in (v # vs, p2))"

fun draw_limits :: "nat \<Rightarrow> pcg32 \<Rightarrow> nat list \<times> pcg32" where
  "draw_limits 0 p = ([], p)"
| "draw_limits (Suc n) p = (let (d, p1) = draw 128 p; (ds, p2) = draw_limits n p1 in (d # ds, p2))"

definition generatePaddingTables ::
  "(u32 \<Rightarrow> int \<Rightarrow> int \<Rightarrow> int) \<Rightarrow> pcg32 \<Rightarrow> nat list \<times> u16 list list \<times> nat list \<times> u16 \<times> u16 \<times> pcg32" where
  "generatePaddingTables expo p0 =
     (let values = [MinPacketSize..<NoPaddingThreshold + 1];
          (shuffled, p1) = shuffle_from 0 PaddingShuffleCount values p0;
          thresholds = 0 # sort (take PaddingShuffleCount shuffled);
          (row0, p2) = draw_row expo PaddingBucketCount p1;
          (row1, p3) = draw_row expo PaddingBucketCount p2;
          (limits, p4) = draw_limits PaddingBucketCount p3;
          (mn, p5) = pcg_next p4;
          (mx, p6) = draw (MaxPaddingMax - MaxPaddingMin + 1) p5
      in (thresholds, [row0, row1], limits,
          word_of_nat (MinPaddingMin + unat (ucast mn :: byte)), word_of_nat (MaxPaddingMin + mx), p6))"

definition GeneratePoolWithKey ::
  "(bytes \<Rightarrow> bytes) \<Rightarrow> (u32 \<Rightarrow> int \<Rightarrow> int \<Rightarrow> int) \<Rightarrow> u64 \<Rightarrow> HeaderType \<Rightarrow> string \<Rightarrow> Pool option" where
  "GeneratePoolWithKey sha256 expo v ht serverKey =
     (let p0 = newPCG32 v;
          layout = generateHandshakeLayout sha256 expo serverKey;
          (hsHead, p1) = rngBytes p0 HandshakeObfMagicMaxLen ht;
          (hsOff, p2) = draw 65 p1;
          (dn, p3) = draw 64 p2; n = dn + 16;
          (dt, p4) = draw 449 p3; threshold = dt + 64
      in case data_headers ht (l_DataMagicLen layout) n [] p4 of
           None \<Rightarrow> None
         | Some (dataHdrs, p5) \<Rightarrow>
             (let half = n div 2;
                  (pt, ps, pl, mn, mx, p6) = generatePaddingTables expo p5;
                  (dd, p7) = draw 64 p6
              in Some
                \<lparr>p_HandshakeHeader = \<lparr>h_Len = HandshakeObfMagicMaxLen, h_Head = hsHead, h_LenOffset = word_of_nat hsOff\<rparr>,
                 p_DataMagicLen = l_DataMagicLen layout, p_DataHeaderHasLen = l_DataHasLen layout,
                 p_DataHeaderHasID = l_DataHasID layout, p_Threshold = threshold,
                 p_SmallGroup = take half dataHdrs, p_LargeGroup = drop half dataHdrs,
                 p_PaddingThreshold = pt, p_PaddingSize = ps, p_PaddingRowLimit = pl, p_MinPadding = mn, p_MaxPadding = mx,
                 p_InvalidDrainLogOffset = dd + 1,
                 p_dataHeaderSet = set (map h_Head dataHdrs),
                 p_dataLenOffsets = map_of (rev (map (\<lambda>h. (h_Head h, h_LenOffset h)) dataHdrs)),
                 p_dataFields = l_DataFields layout\<rparr>))"

section \<open>Draws\<close>

lemma draw_bound: "0 < n \<Longrightarrow> fst (draw n p) < n"
  by (simp add: draw_def split_beta)

lemma randomHeaderLen_bound:
  "mn \<le> mx \<Longrightarrow> mn \<le> fst (randomHeaderLen p mn mx) \<and> fst (randomHeaderLen p mn mx) \<le> mx"
  using draw_bound [of "mx - mn + 1" p] by (auto simp: randomHeaderLen_def split_beta)

lemma chooseSize_mem: "sizes \<noteq> [] \<Longrightarrow> fst (chooseSize p sizes) \<in> set sizes"
  using draw_bound [of "length sizes" p] by (simp add: chooseSize_def split_beta)

lemma logUniformExclusive_bound:
  "mn < mx \<Longrightarrow> mn \<le> logUniformExclusive expo u mn mx \<and> logUniformExclusive expo u mn mx < mx"
  by (auto simp: logUniformExclusive_def Let_def)

lemma logUniformUint_bound:
  assumes "s \<in> {1, 2, 4}"
  shows "unat (fst (logUniformUint expo p s)) < 2 ^ (8 * s)"
proof -
  define v where "v = logUniformExclusive expo (fst (pcg_next p)) 10 (2 ^ (s * 8) + 10) - 10"
  have b: "0 \<le> v" "v < 2 ^ (8 * s)"
    using logUniformExclusive_bound [of 10 "2 ^ (s * 8) + 10" expo "fst (pcg_next p)"] by (simp_all add: v_def mult.commute)
  have "(2 :: int) ^ (8 * s) \<le> 2 ^ 32" using assms by (intro power_increasing) auto
  with b have "uint (word_of_int v :: u32) = v" by (simp add: unsigned_of_int take_bit_int_eq_self)
  then have "int (unat (word_of_int v :: u32)) < int (2 ^ (8 * s))" using b by simp
  then show ?thesis by (simp only: logUniformUint_def split_beta Let_def fst_conv of_nat_less_iff v_def)
qed

lemma shuffle_mset:
  "i + k \<le> length xs \<Longrightarrow> mset (fst (shuffle_from i k xs p)) = mset xs"
proof (induction k arbitrary: i xs p)
  case (Suc k)
  obtain d p' where d: "draw (length xs - i) p = (d, p')" by fastforce
  have "d < length xs - i" using draw_bound [of "length xs - i" p] d Suc.prems by simp
  then have "mset (xs[i := xs ! (i + d), i + d := xs ! i]) = mset xs"
    using mset_swap [of "i + d" xs i] by simp
  with Suc.IH [of "i + 1" "xs[i := xs ! (i + d), i + d := xs ! i]" p'] Suc.prems d show ?case by (simp add: Let_def)
qed simp

lemma rng_bytes_length: "length (fst (rng_bytes_from p i n ht)) = n"
  by (induction n arbitrary: p i) (simp_all add: split_beta)

lemma rngBytes_length [simp]: "length (fst (rngBytes p n ht)) = n"
  by (simp add: rngBytes_def rng_bytes_length)

section \<open>Well-formed layouts\<close>

fun version_len_ok :: "versionKind \<Rightarrow> nat \<Rightarrow> bool" where
  "version_len_ok versionNone n \<longleftrightarrow> n = 0"
| "version_len_ok versionUint32 n \<longleftrightarrow> n = 4"
| "version_len_ok versionInt16Triple n \<longleftrightarrow> n = 6"
| "version_len_ok versionString n \<longleftrightarrow> 5 \<le> n \<and> n \<le> 8"

definition field_ok :: "handshakeField \<Rightarrow> bool" where
  "field_ok f \<longleftrightarrow> f_Size f \<in> {1, 2, 4} \<and> unat (f_Value f) < 2 ^ (8 * f_Size f) \<and>
     (f_Kind f = handshakeFieldLen \<longrightarrow> f_Size f = 2) \<and> (f_Kind f = handshakeFieldUTC \<longrightarrow> f_Size f = 4)"

definition layout_ok :: "handshakeLayout \<Rightarrow> bool" where
  "layout_ok l \<longleftrightarrow>
     3 \<le> l_MagicLen l \<and> l_MagicLen l \<le> 8 \<and> version_len_ok (l_VersionKind l) (l_VersionLen l) \<and>
     length (l_VersionSegments l) = 3 \<and> (\<forall>n \<in> set (l_VersionSegments l). n \<in> {1, 2}) \<and>
     unat (l_LenOffset l) < 64 \<and> length (l_Fields l) \<le> 3 \<and> list_all field_ok (l_Fields l) \<and>
     distinct (map f_Kind (l_Fields l)) \<and>
     l_DataFields l = filter isDataField (map f_Kind (l_Fields l)) \<and>
     l_DataHasLen l = (handshakeFieldLen \<in> set (l_DataFields l)) \<and>
     l_DataHasID l = (handshakeFieldPacketID \<in> set (l_DataFields l)) \<and>
     2 \<le> l_DataMagicLen l \<and> l_DataMagicLen l + 2 * length (l_DataFields l) \<le> DataObfHeaderSize"

lemma make_field_ok:
  assumes "make_field expo k p off = (f, off', p')" and "unat off < 64"
  shows "field_ok f" and "f_Kind f = k" and "unat off' < 64"
proof -
  have d: "unat (word_of_nat (fst (draw 64 p)) :: u16) < 64"
    using draw_bound [of 64 p] by (simp add: unat_of_nat take_bit_eq_mod)
  have u: "unat (ucast (word_of_nat (fst (draw 64 p)) :: u16) :: u32) < 65536"
    using d by (simp add: unsigned_ucast_eq take_bit_eq_mod)
  have c: "fst (chooseSize p [1, 2, 4]) \<in> {1, 2, 4}" "fst (chooseSize p [2, 4]) \<in> {2, 4}"
    using chooseSize_mem [of "[1, 2, 4]" p] chooseSize_mem [of "[2, 4]" p] by simp_all
  note l = logUniformUint_bound [OF c(1), of expo "snd (chooseSize p [1, 2, 4])"]
  show "field_ok f" and "f_Kind f = k" and "unat off' < 64"
    using assms d u c l
    by (cases k; auto simp: make_field_def field_ok_def split_beta Let_def DataObfPacketIDSize_def)+
qed

lemma make_fields_ok:
  "make_fields expo ks p off = (fs, off', p') \<Longrightarrow> unat off < 64 \<Longrightarrow>
    list_all field_ok fs \<and> map f_Kind fs = ks \<and> unat off' < 64"
proof (induction ks arbitrary: p off fs off' p')
  case (Cons k ks)
  obtain f off1 p1 where f: "make_field expo k p off = (f, off1, p1)" by (metis prod_cases3)
  obtain fs' off2 p2 where fs': "make_fields expo ks p1 off1 = (fs', off2, p2)" by (metis prod_cases3)
  show ?case using Cons.prems make_field_ok [OF f] Cons.IH [OF fs'] f fs' by auto
qed simp

lemma generateHandshakeLayout_ok: "layout_ok (generateHandshakeLayout sha256 expo serverKey)"
proof -
  define sum where "sum = sha256 (bytes_of_string serverKey)"
  define p0 where "p0 = seedRNG (get64 (take 8 sum)) (get64 (take 8 (drop 8 sum)))"
  obtain magicLen p1 where m: "randomHeaderLen p0 HandshakeObfHeaderMinLen HandshakeObfMagicMaxLen = (magicLen, p1)" by fastforce
  obtain vk p2 where vk: "draw 4 p1 = (vk, p2)" by fastforce
  obtain s1 p3 where s1: "draw 2 p2 = (s1, p3)" by fastforce
  obtain s2 p4 where s2: "draw 2 p3 = (s2, p4)" by fastforce
  obtain s3 p5 where s3: "draw 2 p4 = (s3, p5)" by fastforce
  define kind where "kind = version_kind vk"
  obtain vl p6 where vl: "(case kind of versionString \<Rightarrow> (let (d, p') = draw 4 p5 in (d + 5, p'))
      | versionUint32 \<Rightarrow> (4, p5) | versionInt16Triple \<Rightarrow> (6, p5) | versionNone \<Rightarrow> (0, p5)) = (vl, p6)" by fastforce
  obtain cs p7 where cs: "shuffle_from 0 (length field_candidates) field_candidates p6 = (cs, p7)" by fastforce
  obtain n p8 where n: "draw 4 p7 = (n, p8)" by fastforce
  obtain fs off p9 where fs: "make_fields expo (take n cs) p8 0 = (fs, off, p9)" by (metis prod_cases3)
  define df where "df = filter isDataField (map f_Kind fs)"
  define mx0 where "mx0 = DataObfHeaderSize - length df * DataObfPacketIDSize"
  define mx where "mx = (if df \<noteq> [] \<and> 4 < mx0 then 4 else mx0)"
  obtain dm p10 where dm: "randomHeaderLen p9 DataObfHeaderMinLen mx = (dm, p10)" by fastforce
  have eq: "generateHandshakeLayout sha256 expo serverKey =
      \<lparr>l_MagicLen = magicLen, l_VersionKind = kind, l_VersionLen = vl, l_VersionSegments = [s1 + 1, s2 + 1, s3 + 1],
       l_LenOffset = off, l_Fields = fs, l_DataMagicLen = dm, l_DataHasLen = (handshakeFieldLen \<in> set (map f_Kind fs)),
       l_DataHasID = (handshakeFieldPacketID \<in> set (map f_Kind fs)), l_DataFields = df\<rparr>"
    unfolding generateHandshakeLayout_def Let_def sum_def [symmetric] p0_def [symmetric] m vk s1 s2 s3 prod.case
      kind_def [symmetric] vl [unfolded Let_def] cs n fs df_def [symmetric] mx0_def [symmetric] mx_def [symmetric] dm ..
  have f: "list_all field_ok fs" "map f_Kind fs = take n cs" "unat off < 64" using make_fields_ok [OF fs] by auto
  have "mset cs = mset field_candidates" using shuffle_mset [of 0 "length field_candidates" field_candidates p6] cs by simp
  moreover have "distinct field_candidates" by (simp add: field_candidates_def)
  ultimately have "distinct cs" by (metis mset_eq_imp_distinct_iff)
  then have dk: "distinct (map f_Kind fs)" using f(2) by simp
  have "set df \<subseteq> {handshakeFieldLen, handshakeFieldPacketID}" "distinct df"
    using dk by (auto simp: df_def isDataField_def)
  then have "length df \<le> card {handshakeFieldLen, handshakeFieldPacketID}" by (metis card_mono distinct_card finite.emptyI finite.insertI)
  then have ldf: "length df \<le> 2" by simp
  then have "2 \<le> mx" "mx + 2 * length df \<le> 6" by (auto simp: mx_def mx0_def obf_consts)
  then have dml: "2 \<le> dm" "dm + 2 * length df \<le> 6"
    using randomHeaderLen_bound [of DataObfHeaderMinLen mx p9] dm by (auto simp: obf_consts)
  have b: "vk < 4" "s1 < 2" "s2 < 2" "s3 < 2" "n < 4"
    using draw_bound [of 4 p1] draw_bound [of 2 p2] draw_bound [of 2 p3] draw_bound [of 2 p4] draw_bound [of 4 p7]
    by (simp_all add: vk s1 s2 s3 n)
  have "version_len_ok kind vl"
    using vl draw_bound [of 4 p5] by (cases kind) (auto simp: split_beta)
  moreover have "3 \<le> magicLen \<and> magicLen \<le> 8"
    using randomHeaderLen_bound [of HandshakeObfHeaderMinLen HandshakeObfMagicMaxLen p0] m by (simp add: obf_consts)
  moreover have "length fs \<le> 3" using arg_cong [OF f(2), of length] b(5) by simp
  moreover have "s1 + 1 \<in> {1, 2} \<and> s2 + 1 \<in> {1, 2} \<and> s3 + 1 \<in> {1, 2}" using b by auto
  moreover have "handshakeFieldLen \<in> set (map f_Kind fs) \<longleftrightarrow> handshakeFieldLen \<in> set df"
    "handshakeFieldPacketID \<in> set (map f_Kind fs) \<longleftrightarrow> handshakeFieldPacketID \<in> set df"
    by (auto simp: df_def isDataField_def)
  ultimately show ?thesis
    unfolding eq layout_ok_def using f(1,3) dk dml by (simp add: df_def DataObfHeaderSize_def)
qed

section \<open>Well-formed pools\<close>

definition header_ok :: "nat \<Rightarrow> header \<Rightarrow> bool" where
  "header_ok n h \<longleftrightarrow> h_Len h = n \<and> length (h_Head h) = n \<and> unat (h_LenOffset h) \<le> 17"

definition data_header_list :: "Pool \<Rightarrow> header list" where
  "data_header_list pool = p_SmallGroup pool @ p_LargeGroup pool"

definition padding_tables_ok :: "nat list \<Rightarrow> u16 list list \<Rightarrow> nat list \<Rightarrow> u16 \<Rightarrow> u16 \<Rightarrow> bool" where
  "padding_tables_ok pt ps pl mn mx \<longleftrightarrow>
     length pt = PaddingBucketCount \<and> sorted pt \<and> distinct pt \<and> pt ! 0 = 0 \<and> (\<forall>t \<in> set pt. t \<le> NoPaddingThreshold) \<and>
     length ps = 2 \<and> (\<forall>row \<in> set ps. length row = PaddingBucketCount \<and> (\<forall>v \<in> set row. unat v \<le> MaxDataPaddingSize)) \<and>
     length pl = PaddingBucketCount \<and> (\<forall>n \<in> set pl. n < 128) \<and>
     MinPaddingMin \<le> unat mn \<and> unat mn \<le> MinPaddingMin + 255 \<and> MaxPaddingMin \<le> unat mx \<and> unat mx \<le> MaxPaddingMax"

definition fields_ok :: "nat \<Rightarrow> handshakeFieldKind list \<Rightarrow> bool" where
  "fields_ok n fs \<longleftrightarrow> 2 \<le> n \<and> n + 2 * length fs \<le> DataObfHeaderSize \<and> distinct fs \<and> list_all isDataField fs"

definition headers_ok :: "Pool \<Rightarrow> bool" where
  "headers_ok pool \<longleftrightarrow>
     list_all (header_ok (p_DataMagicLen pool)) (data_header_list pool) \<and> distinct (map h_Head (data_header_list pool)) \<and>
     8 \<le> length (p_SmallGroup pool) \<and> 8 \<le> length (p_LargeGroup pool) \<and>
     p_dataHeaderSet pool = h_Head ` set (data_header_list pool) \<and> dom (p_dataLenOffsets pool) = p_dataHeaderSet pool \<and>
     (\<forall>h \<in> set (data_header_list pool). p_dataLenOffsets pool (h_Head h) = Some (h_LenOffset h))"

definition pool_ok :: "Pool \<Rightarrow> bool" where
  "pool_ok pool \<longleftrightarrow>
     length (h_Head (p_HandshakeHeader pool)) = HandshakeObfMagicMaxLen \<and> h_Len (p_HandshakeHeader pool) = HandshakeObfMagicMaxLen \<and>
     unat (h_LenOffset (p_HandshakeHeader pool)) \<le> 64 \<and>
     fields_ok (p_DataMagicLen pool) (p_dataFields pool) \<and>
     p_DataHeaderHasLen pool = (handshakeFieldLen \<in> set (p_dataFields pool)) \<and>
     p_DataHeaderHasID pool = (handshakeFieldPacketID \<in> set (p_dataFields pool)) \<and>
     64 \<le> p_Threshold pool \<and> p_Threshold pool \<le> 512 \<and> headers_ok pool \<and>
     padding_tables_ok (p_PaddingThreshold pool) (p_PaddingSize pool) (p_PaddingRowLimit pool) (p_MinPadding pool) (p_MaxPadding pool) \<and>
     1 \<le> p_InvalidDrainLogOffset pool \<and> p_InvalidDrainLogOffset pool \<le> 64"

lemma draw_header_ok:
  assumes "draw_header ht n p = (h, p')" and "2 \<le> n"
  shows "header_ok n h"
proof -
  obtain hlen p1 where h: "randomHeaderLen p DataObfHeaderMinLen n = (hlen, p1)" by fastforce
  obtain bs p2 where b: "rngBytes p1 hlen ht = (bs, p2)" by fastforce
  obtain off p3 where o: "draw 18 p2 = (off, p3)" by fastforce
  have "hlen \<le> n" using randomHeaderLen_bound [of DataObfHeaderMinLen n p] h assms(2) by (simp add: obf_consts)
  moreover have "length bs = hlen" using rngBytes_length [of p1 hlen ht] b by simp
  moreover have "off < 18" using draw_bound [of 18 p2] o by simp
  moreover from this have "unat (word_of_nat off :: u16) = off" by (simp add: unat_of_nat take_bit_eq_mod)
  ultimately show ?thesis using assms(1) by (auto simp: draw_header_def h b o header_ok_def)
qed

lemma fresh_header_raw:
  assumes "fresh_header ht n seen p = Some r"
  shows "h_Head (fst r) \<notin> set seen \<and> (\<exists>q p'. draw_header ht n q = (fst r, p'))"
proof (rule fresh_header.raw_induct [OF _ assms])
  fix f :: "HeaderType \<Rightarrow> nat \<Rightarrow> bytes list \<Rightarrow> pcg32 \<Rightarrow> (header \<times> pcg32) option" and ht n seen p r
  assume IH: "\<And>ht n seen p r. f ht n seen p = Some r \<Longrightarrow> h_Head (fst r) \<notin> set seen \<and> (\<exists>q p'. draw_header ht n q = (fst r, p'))"
    and f: "(let (h, p') = draw_header ht n p in if h_Head h \<in> set seen then f ht n seen p' else Some (h, p')) = Some r"
  show "h_Head (fst r) \<notin> set seen \<and> (\<exists>q p'. draw_header ht n q = (fst r, p'))"
  proof (cases "draw_header ht n p")
    case d: (Pair h p')
    show ?thesis
    proof (cases "h_Head h \<in> set seen")
      case True
      then show ?thesis using IH f unfolding d by simp
    next
      case False
      then have "r = (h, p')" using f unfolding d by simp
      with False d show ?thesis by auto
    qed
  qed
qed

lemma fresh_header_ok:
  assumes "fresh_header ht n seen p = Some (h, p')" and "2 \<le> n"
  shows "h_Head h \<notin> set seen" and "header_ok n h"
  using fresh_header_raw [OF assms(1)] draw_header_ok [OF _ assms(2)] by auto

lemma data_headers_ok:
  "data_headers ht n k seen p = Some (hs, p') \<Longrightarrow> 2 \<le> n \<Longrightarrow>
    length hs = k \<and> list_all (header_ok n) hs \<and> distinct (map h_Head hs) \<and> set (map h_Head hs) \<inter> set seen = {}"
proof (induction k arbitrary: seen p hs p')
  case (Suc k)
  obtain h p1 where h: "fresh_header ht n seen p = Some (h, p1)"
    using Suc.prems(1) by (auto split: option.splits)
  obtain hs' p2 where hs': "data_headers ht n k (h_Head h # seen) p1 = Some (hs', p2)"
    using Suc.prems(1) h by (auto split: option.splits)
  have "hs = h # hs'" using Suc.prems(1) h hs' by simp
  then show ?case using fresh_header_ok [OF h Suc.prems(2)] Suc.IH [OF hs' Suc.prems(2)] by auto
qed simp

lemma draw_row_ok:
  "length (fst (draw_row expo n p)) = n \<and> (\<forall>v \<in> set (fst (draw_row expo n p)). unat v \<le> MaxDataPaddingSize)"
proof (induction n arbitrary: p)
  case (Suc n)
  define v where "v = logUniformExclusive expo (fst (pcg_next p)) 10 522 - 10"
  have "0 \<le> v" "v < 512" using logUniformExclusive_bound [of 10 522 expo "fst (pcg_next p)"] by (simp_all add: v_def)
  then have "uint (word_of_int v :: u16) = v" by (simp add: unsigned_of_int take_bit_int_eq_self)
  then have "int (unat (word_of_int v :: u16)) \<le> 511" using \<open>v < 512\<close> by simp
  then have "unat (word_of_int v :: u16) \<le> 511" by linarith
  moreover have "fst (pcgLogUniformRange expo p 0 (int MaxDataPaddingSize)) = word_of_int v"
    by (simp add: pcgLogUniformRange_def logUniformInclusive_def split_beta obf_consts v_def)
  ultimately show ?case using Suc.IH by (auto simp: split_beta obf_consts)
qed simp

lemma draw_limits_ok: "length (fst (draw_limits n p)) = n \<and> (\<forall>d \<in> set (fst (draw_limits n p)). d < 128)"
  by (induction n arbitrary: p) (auto simp: split_beta draw_bound)

lemma generatePaddingTables_ok:
  assumes "generatePaddingTables expo p0 = (pt, ps, pl, mn, mx, p')"
  shows "padding_tables_ok pt ps pl mn mx"
proof -
  define vs where "vs = [MinPacketSize..<NoPaddingThreshold + 1]"
  obtain sh p1 where sh: "shuffle_from 0 PaddingShuffleCount vs p0 = (sh, p1)" by fastforce
  obtain row0 p2 where r0: "draw_row expo PaddingBucketCount p1 = (row0, p2)" by fastforce
  obtain row1 p3 where r1: "draw_row expo PaddingBucketCount p2 = (row1, p3)" by fastforce
  obtain limits p4 where li: "draw_limits PaddingBucketCount p3 = (limits, p4)" by fastforce
  obtain mn' p5 where n: "pcg_next p4 = (mn', p5)" by fastforce
  obtain mx' p6 where x: "draw (MaxPaddingMax - MaxPaddingMin + 1) p5 = (mx', p6)" by fastforce
  define sel where "sel = take PaddingShuffleCount sh"
  have eq: "pt = 0 # sort sel" "ps = [row0, row1]" "pl = limits"
      "mn = word_of_nat (MinPaddingMin + unat (ucast mn' :: byte))" "mx = word_of_nat (MaxPaddingMin + mx')"
    using assms unfolding generatePaddingTables_def Let_def vs_def [symmetric] sh r0 r1 li n x prod.case sel_def prod.inject
    by blast+
  have lv: "length vs = NoPaddingThreshold + 1 - MinPacketSize" unfolding vs_def by (rule length_upt)
  then have ls: "PaddingShuffleCount \<le> length vs" unfolding lv by (simp add: obf_consts MaxPacketSize_def)
  have dv: "distinct vs" "set vs = {MinPacketSize..<NoPaddingThreshold + 1}"
    unfolding vs_def by (rule distinct_upt, rule set_upt)
  from ls have m: "mset sh = mset vs" using shuffle_mset [of 0 PaddingShuffleCount vs p0] sh by simp
  then have "distinct sh" "set sh = set vs" "length sh = length vs"
    using dv(1) by (metis mset_eq_imp_distinct_iff, metis mset_eq_setD, metis mset_eq_length)
  then have sel: "distinct sel" "set sel \<subseteq> set vs" "length sel = PaddingShuffleCount"
    using ls by (auto simp: sel_def dest: in_set_takeD)
  moreover have "0 < MinPacketSize" by (simp add: obf_consts)
  ultimately have t: "\<forall>t \<in> set sel. 0 < t \<and> t \<le> NoPaddingThreshold" using dv(2) \<open>0 < MinPacketSize\<close> by fastforce
  have "mx' < MaxPaddingMax - MaxPaddingMin + 1" using draw_bound [of "MaxPaddingMax - MaxPaddingMin + 1" p5] x by simp
  then have mx: "unat mx = MaxPaddingMin + mx'" "mx' \<le> MaxPaddingMax - MaxPaddingMin"
    unfolding eq unat_of_nat take_bit_eq_mod by (simp_all add: obf_consts)
  have "unat (ucast mn' :: byte) < 256" using unsigned_less [of "ucast mn' :: byte"] by simp
  then have mn: "unat mn = MinPaddingMin + unat (ucast mn' :: byte)" "unat (ucast mn' :: byte) \<le> 255"
    unfolding eq unat_of_nat take_bit_eq_mod by (simp_all add: obf_consts)
  have "length row0 = PaddingBucketCount \<and> (\<forall>v \<in> set row0. unat v \<le> MaxDataPaddingSize)"
    "length row1 = PaddingBucketCount \<and> (\<forall>v \<in> set row1. unat v \<le> MaxDataPaddingSize)"
    "length limits = PaddingBucketCount \<and> (\<forall>d \<in> set limits. d < 128)"
    using draw_row_ok [of expo PaddingBucketCount p1] draw_row_ok [of expo PaddingBucketCount p2]
      draw_limits_ok [of PaddingBucketCount p3] by (simp_all add: r0 r1 li)
  moreover have "length pt = PaddingBucketCount" using sel(3) by (simp add: eq obf_consts)
  moreover have "sorted pt" "distinct pt" "pt ! 0 = 0" "\<forall>t \<in> set pt. t \<le> NoPaddingThreshold"
    using sel(1) t by (auto simp: eq)
  ultimately show ?thesis
    unfolding padding_tables_ok_def mn(1) mx(1) using mn(2) mx(2) by (auto simp: eq(2,3) obf_consts)
qed

lemma pool_ok_headers:
  assumes "list_all (header_ok n) hs" and "distinct (map h_Head hs)" and "k \<le> length hs" and "8 \<le> k" and "k + 8 \<le> length hs"
    and "p_DataMagicLen pool = n" and "p_SmallGroup pool = take k hs" and "p_LargeGroup pool = drop k hs"
    and "p_dataHeaderSet pool = set (map h_Head hs)"
    and "p_dataLenOffsets pool = map_of (rev (map (\<lambda>h. (h_Head h, h_LenOffset h)) hs))"
  shows "headers_ok pool"
proof -
  let ?al = "rev (map (\<lambda>h. (h_Head h, h_LenOffset h)) hs)"
  have "map fst ?al = rev (map h_Head hs)" by (simp add: rev_map comp_def)
  then have "distinct (map fst ?al)" using assms(2) by (metis distinct_rev)
  then have "\<forall>h \<in> set hs. map_of ?al (h_Head h) = Some (h_LenOffset h)"
    by (intro ballI map_of_is_SomeI) auto
  moreover have "dom (map_of ?al) = h_Head ` set hs" by (simp add: dom_map_of_conv_image_fst image_image)
  ultimately show ?thesis using assms by (simp add: headers_ok_def data_header_list_def del: map_of_eq_None_iff)
qed

lemma layout_fields_ok:
  assumes "layout_ok l" shows "fields_ok (l_DataMagicLen l) (l_DataFields l)"
  using assms by (auto simp: layout_ok_def fields_ok_def list_all_iff)

lemma GeneratePool_ok:
  assumes "GeneratePoolWithKey sha256 expo v ht serverKey = Some pool"
  shows "pool_ok pool"
proof -
  define l where "l = generateHandshakeLayout sha256 expo serverKey"
  have lok: "layout_ok l" unfolding l_def by (rule generateHandshakeLayout_ok)
  then have l2: "2 \<le> l_DataMagicLen l" by (simp add: layout_ok_def)
  obtain hsHead p1 where h: "rngBytes (newPCG32 v) HandshakeObfMagicMaxLen ht = (hsHead, p1)" by fastforce
  obtain hsOff p2 where o: "draw 65 p1 = (hsOff, p2)" by fastforce
  obtain dn p3 where dn: "draw 64 p2 = (dn, p3)" by fastforce
  obtain dt p4 where dt: "draw 449 p3 = (dt, p4)" by fastforce
  obtain hs p5 where hs: "data_headers ht (l_DataMagicLen l) (dn + 16) [] p4 = Some (hs, p5)"
    using assms unfolding GeneratePoolWithKey_def Let_def h o dn dt prod.case l_def [symmetric] by (auto split: option.splits)
  obtain pt ps pl mn mx p6 where t: "generatePaddingTables expo p5 = (pt, ps, pl, mn, mx, p6)" by (metis prod_cases6)
  obtain dd p7 where dd: "draw 64 p6 = (dd, p7)" by fastforce
  have eq: "pool =
      \<lparr>p_HandshakeHeader = \<lparr>h_Len = HandshakeObfMagicMaxLen, h_Head = hsHead, h_LenOffset = word_of_nat hsOff\<rparr>,
       p_DataMagicLen = l_DataMagicLen l, p_DataHeaderHasLen = l_DataHasLen l,
       p_DataHeaderHasID = l_DataHasID l, p_Threshold = dt + 64,
       p_SmallGroup = take ((dn + 16) div 2) hs, p_LargeGroup = drop ((dn + 16) div 2) hs,
       p_PaddingThreshold = pt, p_PaddingSize = ps, p_PaddingRowLimit = pl, p_MinPadding = mn, p_MaxPadding = mx,
       p_InvalidDrainLogOffset = dd + 1, p_dataHeaderSet = set (map h_Head hs),
       p_dataLenOffsets = map_of (rev (map (\<lambda>h. (h_Head h, h_LenOffset h)) hs)), p_dataFields = l_DataFields l\<rparr>"
    using assms unfolding GeneratePoolWithKey_def Let_def h o dn dt prod.case l_def [symmetric] hs option.case t dd
    by (simp only: option.inject)
  have b: "hsOff < 65" "dt < 449" "dd < 64"
    using draw_bound [of 65 p1] draw_bound [of 449 p3] draw_bound [of 64 p6] by (simp_all add: o dt dd)
  have ho: "unat (word_of_nat hsOff :: u16) \<le> 64" using b(1) by (simp add: unat_of_nat take_bit_eq_mod)
  have lh: "length hsHead = HandshakeObfMagicMaxLen" using rngBytes_length [of "newPCG32 v" HandshakeObfMagicMaxLen ht] h by simp
  have H: "length hs = dn + 16" "list_all (header_ok (l_DataMagicLen l)) hs" "distinct (map h_Head hs)"
    using data_headers_ok [OF hs l2] by auto
  have "headers_ok pool"
    by (rule pool_ok_headers [OF H(2,3), where k = "(dn + 16) div 2"]) (simp_all add: H(1) eq)
  then show ?thesis
    using generatePaddingTables_ok [OF t] layout_fields_ok [OF lok] lok b ho lh
    by (simp add: pool_ok_def eq layout_ok_def)
qed

end
