(* ===== verification/ObfHeader.thy ===== *)
theory ObfHeader
  imports ObfPool
begin

text \<open>
  The obfuscation headers of \<^verbatim>\<open>pkg/obfheader/obfheader.go\<close>, second part: the 40-byte prefix of the first
  packet, which names the epoch and is authenticated by it, the six-byte headers of the later packets, the server's search
  for the pool of a first packet with its cache of pools, and the padding tables.

  The cryptographic primitives are parameters.  The functions read the clock and draw random bytes; the time is an argument,
  and a source of random bytes is a function from positions to bytes.  The choice of a header within the two groups goes
  through floating-point functions; the arguments \<open>large\<close> and \<open>idx\<close> of \<open>SelectHeaderWithContext\<close> are the
  results of these draws, and the clamping of the index is modelled.  A nil pool is None.
\<close>

section \<open>Keys and epochs\<close>

text \<open>\<^verbatim>\<open>strings.Cut\<close> at a dot, and the salt that names the protocol generation (\<^verbatim>\<open>pkg/version\<close>).\<close>

definition Cut_dot :: "string \<Rightarrow> (string \<times> string) option" where
  "Cut_dot s = (let a = takeWhile (\<lambda>c. c \<noteq> CHR ''.'') s in if length a = length s then None else Some (a, drop (length a + 1) s))"

definition Version :: string where "Version = ''2.5.6''"

definition ProtocolSalt :: string where
  "ProtocolSalt =
     (case Cut_dot Version of
        None \<Rightarrow> Version @ '':''
      | Some (major, rest) \<Rightarrow>
          major @ ''.'' @ (case Cut_dot rest of None \<Rightarrow> rest | Some (minor, _) \<Rightarrow> minor) @ '':'')"

definition Salt :: string where "Salt = ProtocolSalt"

record primitives =
  pr_sha256 :: "bytes \<Rightarrow> bytes"
  pr_hmac :: "bytes \<Rightarrow> bytes \<Rightarrow> bytes"
  pr_pbkdf2 :: "bytes \<Rightarrow> string \<Rightarrow> nat \<Rightarrow> nat \<Rightarrow> bytes"
  pr_keystream :: "bytes \<Rightarrow> bytes \<Rightarrow> nat \<Rightarrow> byte"
  pr_expo :: "u32 \<Rightarrow> int \<Rightarrow> int \<Rightarrow> int"

text \<open>What is used of the primitives: the lengths of their outputs.\<close>

definition primitives_ok :: "primitives \<Rightarrow> bool" where
  "primitives_ok pr \<longleftrightarrow> (\<forall>k d. length (pr_hmac pr k d) = 32) \<and> (\<forall>p s i n. length (pr_pbkdf2 pr p s i n) = n)"

definition DeriveK :: "primitives \<Rightarrow> string \<Rightarrow> u64 \<times> u64" where
  "DeriveK pr key =
     (let derived = pr_pbkdf2 pr (bytes_of_string key) Salt ServerKeyDerivationIterations 16
      in (get64 (take 8 derived), get64 (drop 8 derived)))"

definition computeEpoch :: "u64 \<Rightarrow> int \<Rightarrow> u64" where
  "computeEpoch k utcSec = (word_of_int utcSec + k) div 86400 div 16"

definition computeVFromEpoch :: "primitives \<Rightarrow> u64 \<Rightarrow> u64 \<Rightarrow> u64" where
  "computeVFromEpoch pr epoch k2 = get64 (take 8 (pr_sha256 pr (put64 epoch))) XOR k2"

definition candidateHandshakeEpochs :: "u64 \<Rightarrow> u64 list" where
  "candidateHandshakeEpochs epoch = (if epoch = 0 then [0, 1] else [epoch, epoch - 1, epoch + 1])"

definition candidateHandshakeVs :: "primitives \<Rightarrow> u64 \<Rightarrow> u64 \<Rightarrow> u64 list" where
  "candidateHandshakeVs pr epoch k2 = map (\<lambda>e. computeVFromEpoch pr e k2) (candidateHandshakeEpochs epoch)"

section \<open>The first header: writing\<close>

record HandshakeContext =
  hc_RawEpoch :: u64
  hc_TimestampPadding :: u16
  hc_ClientID :: u32
  hc_IncID :: u32
  hc_PacketID :: u16
  hc_UTCSeconds :: u32

record HandshakeInfo =
  hi_HasTimestampPaddingLen :: bool
  hi_TimestampPaddingLen :: u16

text \<open>\<^verbatim>\<open>copy(dst[off:], src)\<close>.\<close>

definition copy_at :: "bytes \<Rightarrow> nat \<Rightarrow> bytes \<Rightarrow> bytes" where
  "copy_at dst off src = take off dst @ take (length dst - off) src @ drop (off + length src) dst"

definition writeUintBE :: "bytes \<Rightarrow> u32 \<Rightarrow> bytes" where
  "writeUintBE dst v =
     (if length dst = 1 then [ucast v]
      else if length dst = 2 then put16 (ucast v)
      else if length dst = 4 then put32 v
      else dst)"

definition readUintBE :: "bytes \<Rightarrow> u32" where
  "readUintBE src =
     (if length src = 1 then ucast (src ! 0)
      else if length src = 2 then ucast (get16 src)
      else if length src = 4 then get32 src
      else 0)"

definition truncateUint :: "u64 \<Rightarrow> nat \<Rightarrow> u32" where
  "truncateUint v n =
     (if n = 1 then ucast (v AND 0xff)
      else if n = 2 then ucast (v AND 0xffff)
      else if n = 4 then ucast (v AND 0xffffffff)
      else 0)"

text \<open>
  The decimal digits of the epoch, cut into segments.  \<^verbatim>\<open>Atoi\<close> of a string of digits does not fail; its error is
  dropped by the source, which is 0 here.
\<close>

fun cut_segments :: "string \<Rightarrow> nat \<Rightarrow> nat list \<Rightarrow> nat list" where
  "cut_segments digits' off [] = []"
| "cut_segments digits' off (l # ls) =
     (case Atoi (take l (drop off digits')) of Some n \<Rightarrow> nat n | None \<Rightarrow> 0) # cut_segments digits' (off + l) ls"

definition epochDecimalSegments :: "u64 \<Rightarrow> nat list \<Rightarrow> nat list" where
  "epochDecimalSegments epoch lens =
     (let total = sum_list lens; ds = nat_text (unat (epoch mod 10 ^ total))
      in cut_segments (replicate (total - length ds) (CHR ''0'') @ ds) 0 lens)"

definition epochVersionString :: "u64 \<Rightarrow> nat list \<Rightarrow> string" where
  "epochVersionString epoch lens = join_text (CHR ''.'') (map nat_text (epochDecimalSegments epoch lens))"

definition writeVersion :: "bytes \<Rightarrow> handshakeLayout \<Rightarrow> u64 \<Rightarrow> bytes" where
  "writeVersion dst layout epoch =
     (case l_VersionKind layout of
        versionNone \<Rightarrow> dst
      | versionUint32 \<Rightarrow> copy_at dst 0 (put32 (ucast epoch))
      | versionInt16Triple \<Rightarrow>
          copy_at dst 0 (concat (map (\<lambda>s. put16 (word_of_nat s)) (epochDecimalSegments epoch (l_VersionSegments layout))))
      | versionString \<Rightarrow>
          copy_at (replicate (length dst) 0) 0 (bytes_of_string (epochVersionString epoch (l_VersionSegments layout))))"

definition handshake_field_value :: "handshakeField \<Rightarrow> handshakeLayout \<Rightarrow> HandshakeContext \<Rightarrow> u32" where
  "handshake_field_value f layout ctx =
     (case f_Kind f of
        handshakeFieldLen \<Rightarrow> ucast (hc_TimestampPadding ctx) + ucast (l_LenOffset layout)
      | handshakeFieldFixID \<Rightarrow> f_Value f
      | handshakeFieldID1 \<Rightarrow> f_Value f
      | handshakeFieldID2 \<Rightarrow> f_Value f
      | handshakeFieldEpochID \<Rightarrow> ucast (hc_RawEpoch ctx)
      | handshakeFieldClientID \<Rightarrow> hc_ClientID ctx
      | handshakeFieldIncID \<Rightarrow> hc_IncID ctx
      | handshakeFieldPacketID \<Rightarrow> ucast (hc_PacketID ctx)
      | handshakeFieldUTC \<Rightarrow> hc_UTCSeconds ctx)"

definition writeHandshakeField :: "bytes \<Rightarrow> handshakeField \<Rightarrow> handshakeLayout \<Rightarrow> HandshakeContext \<Rightarrow> bytes" where
  "writeHandshakeField dst f layout ctx = writeUintBE dst (handshake_field_value f layout ctx)"

text \<open>\<^verbatim>\<open>slice b i n\<close> is \<^verbatim>\<open>b[i:i+n]\<close>.\<close>

definition slice :: "bytes \<Rightarrow> nat \<Rightarrow> nat \<Rightarrow> bytes" where
  "slice b i n = take n (drop i b)"

fun write_fields :: "bytes \<Rightarrow> nat \<Rightarrow> handshakeField list \<Rightarrow> handshakeLayout \<Rightarrow> HandshakeContext \<Rightarrow> bytes" where
  "write_fields hdr offset [] layout ctx = hdr"
| "write_fields hdr offset (f # fs) layout ctx =
     (if length hdr < offset + f_Size f then hdr
      else
        write_fields (copy_at hdr offset (writeHandshakeField (slice hdr offset (f_Size f)) f layout ctx))
          (offset + f_Size f) fs layout ctx)"

definition writeHandshakeHead :: "bytes \<Rightarrow> Pool \<Rightarrow> handshakeLayout \<Rightarrow> HandshakeContext \<Rightarrow> bytes" where
  "writeHandshakeHead hdr pool layout ctx =
     (let hdr1 = copy_at hdr 0 (take (l_MagicLen layout) (h_Head (p_HandshakeHeader pool)));
          offset = l_MagicLen layout;
          hdr2 = copy_at hdr1 offset (writeVersion (slice hdr1 offset (l_VersionLen layout)) layout (hc_RawEpoch ctx))
      in write_fields hdr2 (offset + l_VersionLen layout) (l_Fields layout) layout ctx)"

definition handshakeHeaderAuth :: "primitives \<Rightarrow> u64 \<Rightarrow> bytes \<Rightarrow> bytes" where
  "handshakeHeaderAuth pr v hdr = take HandshakeObfHeaderAuthSize (pr_hmac pr (put64 v) hdr)"

definition getHandshakeLayout :: "primitives \<Rightarrow> string \<Rightarrow> handshakeLayout" where
  "getHandshakeLayout pr serverKey = generateHandshakeLayout (pr_sha256 pr) (pr_expo pr) serverKey"

definition SelectHandshakeHeaderWithContext ::
  "primitives \<Rightarrow> (nat \<Rightarrow> byte) \<Rightarrow> Pool \<Rightarrow> u64 \<Rightarrow> string \<Rightarrow> HandshakeContext \<Rightarrow> bytes" where
  "SelectHandshakeHeaderWithContext pr rnd pool v serverKey ctx =
     (let hdr = writeHandshakeHead (map rnd [0..<HandshakeObfHeaderSize]) pool (getHandshakeLayout pr serverKey) ctx
      in hdr @ handshakeHeaderAuth pr v hdr)"

section \<open>The first header: checking\<close>

definition matchHeader :: "header \<Rightarrow> bytes \<Rightarrow> bool" where
  "matchHeader h hdr \<longleftrightarrow> h_Len h \<le> length hdr \<and> list_all (\<lambda>i. hdr ! i = h_Head h ! i) [0..<h_Len h]"

definition validateVersion :: "bytes \<Rightarrow> handshakeLayout \<Rightarrow> u64 \<Rightarrow> bool" where
  "validateVersion got layout epoch =
     (case l_VersionKind layout of
        versionNone \<Rightarrow> length got = 0
      | versionUint32 \<Rightarrow> length got = 4 \<and> get32 got = ucast epoch
      | versionInt16Triple \<Rightarrow>
          length got = 6 \<and>
          (let segments = epochDecimalSegments epoch (l_VersionSegments layout)
           in list_all (\<lambda>i. get16 (slice got (i * 2) 2) = word_of_nat (segments ! i)) [0..<length segments])
      | versionString \<Rightarrow>
          got = copy_at (replicate (l_VersionLen layout) 0) 0
            (bytes_of_string (epochVersionString epoch (l_VersionSegments layout))))"

definition validate_field :: "handshakeLayout \<Rightarrow> u64 \<Rightarrow> int \<Rightarrow> handshakeField \<Rightarrow> u32 \<Rightarrow> HandshakeInfo \<Rightarrow> HandshakeInfo option" where
  "validate_field layout epoch now f v info =
     (case f_Kind f of
        handshakeFieldLen \<Rightarrow>
          if v < ucast (l_LenOffset layout) \<or> 0xffff < v then None
          else Some (info\<lparr>hi_HasTimestampPaddingLen := True, hi_TimestampPaddingLen := ucast (v - ucast (l_LenOffset layout))\<rparr>)
      | handshakeFieldFixID \<Rightarrow> if v \<noteq> f_Value f then None else Some info
      | handshakeFieldID1 \<Rightarrow> if v \<noteq> f_Value f then None else Some info
      | handshakeFieldID2 \<Rightarrow> if v \<noteq> f_Value f then None else Some info
      | handshakeFieldEpochID \<Rightarrow> if v \<noteq> truncateUint epoch (f_Size f) then None else Some info
      | handshakeFieldUTC \<Rightarrow>
          (let utc = uint v; maxDriftSec = MaxTimeDrift div 1000000000
           in if utc < now - maxDriftSec \<or> now + maxDriftSec < utc then None else Some info)
      | handshakeFieldClientID \<Rightarrow> Some info
      | handshakeFieldIncID \<Rightarrow> Some info
      | handshakeFieldPacketID \<Rightarrow> Some info)"

fun validate_fields ::
  "bytes \<Rightarrow> nat \<Rightarrow> handshakeField list \<Rightarrow> handshakeLayout \<Rightarrow> u64 \<Rightarrow> int \<Rightarrow> HandshakeInfo \<Rightarrow> HandshakeInfo option" where
  "validate_fields hdr offset [] layout epoch now info = Some info"
| "validate_fields hdr offset (f # fs) layout epoch now info =
     (if length hdr < offset + f_Size f then None
      else
        (case validate_field layout epoch now f (readUintBE (slice hdr offset (f_Size f))) info of
           None \<Rightarrow> None
         | Some info' \<Rightarrow> validate_fields hdr (offset + f_Size f) fs layout epoch now info'))"

definition no_info :: HandshakeInfo where
  "no_info = \<lparr>hi_HasTimestampPaddingLen = False, hi_TimestampPaddingLen = 0\<rparr>"

definition validateHandshakeHead :: "Pool \<Rightarrow> handshakeLayout \<Rightarrow> bytes \<Rightarrow> u64 \<Rightarrow> int \<Rightarrow> HandshakeInfo option" where
  "validateHandshakeHead pool layout hdr epoch now =
     (if \<not> matchHeader \<lparr>h_Len = l_MagicLen layout, h_Head = take (l_MagicLen layout) (h_Head (p_HandshakeHeader pool)), h_LenOffset = 0\<rparr> hdr
      then None
      else if length hdr < l_MagicLen layout + l_VersionLen layout then None
      else if \<not> validateVersion (slice hdr (l_MagicLen layout) (l_VersionLen layout)) layout epoch then None
      else validate_fields hdr (l_MagicLen layout + l_VersionLen layout) (l_Fields layout) layout epoch now no_info)"

definition ValidateHandshakeHeaderAuth :: "primitives \<Rightarrow> u64 \<Rightarrow> bytes \<Rightarrow> bool" where
  "ValidateHandshakeHeaderAuth pr v rcvdHdr \<longleftrightarrow>
     length rcvdHdr = HandshakeObfPrefixSize \<and>
     handshakeHeaderAuth pr v (take HandshakeObfHeaderSize rcvdHdr) = drop HandshakeObfHeaderSize rcvdHdr"

definition ValidateHandshakeHeader :: "Pool \<Rightarrow> bytes \<Rightarrow> bool" where
  "ValidateHandshakeHeader pool hdr = matchHeader (p_HandshakeHeader pool) hdr"

section \<open>Finding the pool of a first packet\<close>

record cachedPool =
  cp_epoch :: u64
  cp_v :: u64
  cp_pool :: Pool

text \<open>
  The cache of pools, by server key and header type; a missing entry is an empty one.  A call that takes the lock of the
  entry runs to its end before another one, so that a call is one step.
\<close>

type_synonym pool_cache = "string \<Rightarrow> HeaderType \<Rightarrow> u64 \<rightharpoonup> Pool"

fun fill_pools ::
  "primitives \<Rightarrow> string \<Rightarrow> HeaderType \<Rightarrow> u64 \<Rightarrow> u64 list \<Rightarrow> (u64 \<rightharpoonup> Pool) \<Rightarrow> (cachedPool list \<times> (u64 \<rightharpoonup> Pool)) option" where
  "fill_pools pr password ht k2 [] byV = Some ([], byV)"
| "fill_pools pr password ht k2 (epoch # es) byV =
     (let v = computeVFromEpoch pr epoch k2
      in case (case byV v of
                 Some pool \<Rightarrow> Some (pool, byV)
               | None \<Rightarrow>
                   (case GeneratePoolWithKey (pr_sha256 pr) (pr_expo pr) v ht password of
                      None \<Rightarrow> None
                    | Some pool \<Rightarrow> Some (pool, byV(v \<mapsto> pool)))) of
           None \<Rightarrow> None
         | Some (pool, byV1) \<Rightarrow>
             (case fill_pools pr password ht k2 es byV1 of
                None \<Rightarrow> None
              | Some (cs, byV2) \<Rightarrow> Some (\<lparr>cp_epoch = epoch, cp_v = v, cp_pool = pool\<rparr> # cs, byV2)))"

definition cachedHandshakePools ::
  "primitives \<Rightarrow> pool_cache \<Rightarrow> string \<Rightarrow> HeaderType \<Rightarrow> u64 \<Rightarrow> u64 \<Rightarrow> (cachedPool list \<times> pool_cache) option" where
  "cachedHandshakePools pr cache password ht currentEpoch k2 =
     (let byV = cache password ht |` set (candidateHandshakeVs pr currentEpoch k2)
      in case fill_pools pr password ht k2 (candidateHandshakeEpochs currentEpoch) byV of
           None \<Rightarrow> None
         | Some (cs, byV') \<Rightarrow> Some (cs, cache(password := (cache password)(ht := byV'))))"

fun first_valid ::
  "primitives \<Rightarrow> handshakeLayout \<Rightarrow> bytes \<Rightarrow> int \<Rightarrow> cachedPool list \<Rightarrow> (Pool \<times> u64 \<times> HandshakeInfo) option" where
  "first_valid pr layout rcvdHdr now [] = None"
| "first_valid pr layout rcvdHdr now (c # cs) =
     (if \<not> ValidateHandshakeHeaderAuth pr (cp_v c) rcvdHdr then first_valid pr layout rcvdHdr now cs
      else
        (case validateHandshakeHead (cp_pool c) layout (take HandshakeObfHeaderSize rcvdHdr) (cp_epoch c) now of
           Some info \<Rightarrow> Some (cp_pool c, cp_v c, info)
         | None \<Rightarrow> first_valid pr layout rcvdHdr now cs))"

text \<open>The outer option is the termination of the generator, the inner one the boolean of the source.\<close>

definition FindPoolForHandshakeWithInfo ::
  "primitives \<Rightarrow> pool_cache \<Rightarrow> string \<Rightarrow> bytes \<Rightarrow> HeaderType \<Rightarrow> int \<Rightarrow> ((Pool \<times> u64 \<times> HandshakeInfo) option \<times> pool_cache) option" where
  "FindPoolForHandshakeWithInfo pr cache password rcvdHdr ht now =
     (if length rcvdHdr \<noteq> HandshakeObfPrefixSize then Some (None, cache)
      else
        (let (k, k2) = DeriveK pr password
         in case cachedHandshakePools pr cache password ht (computeEpoch k now) k2 of
              None \<Rightarrow> None
            | Some (cs, cache') \<Rightarrow> Some (first_valid pr (getHandshakeLayout pr password) rcvdHdr now cs, cache')))"

definition HandshakePrefilterSize :: "primitives \<Rightarrow> string \<Rightarrow> nat" where
  "HandshakePrefilterSize pr serverKey =
     (let layout = getHandshakeLayout pr serverKey; n = l_MagicLen layout + l_VersionLen layout
      in if HandshakeObfMagicMaxLen < n then HandshakeObfMagicMaxLen else n)"

definition prefix_matches :: "handshakeLayout \<Rightarrow> bytes \<Rightarrow> nat \<Rightarrow> cachedPool \<Rightarrow> bool" where
  "prefix_matches layout pfx wantLen c \<longleftrightarrow>
     take (l_MagicLen layout) pfx = take (l_MagicLen layout) (h_Head (p_HandshakeHeader (cp_pool c))) \<and>
     (let versionPrefixLen = wantLen - l_MagicLen layout
      in versionPrefixLen = 0 \<or>
         drop (l_MagicLen layout) pfx =
           take versionPrefixLen (writeVersion (replicate (l_VersionLen layout) 0) layout (cp_epoch c)))"

definition MayMatchHandshakePrefix ::
  "primitives \<Rightarrow> pool_cache \<Rightarrow> string \<Rightarrow> bytes \<Rightarrow> HeaderType \<Rightarrow> int \<Rightarrow> (bool \<times> pool_cache) option" where
  "MayMatchHandshakePrefix pr cache serverKey pfx ht now =
     (let wantLen = HandshakePrefilterSize pr serverKey
      in if length pfx \<noteq> wantLen then Some (False, cache)
         else
           (let (k, k2) = DeriveK pr serverKey
            in case cachedHandshakePools pr cache serverKey ht (computeEpoch k now) k2 of
                 None \<Rightarrow> None
               | Some (cs, cache') \<Rightarrow> Some (list_ex (prefix_matches (getHandshakeLayout pr serverKey) pfx wantLen) cs, cache')))"

section \<open>Length values\<close>

definition HeaderLenValueWithOffset :: "u16 \<Rightarrow> u16 \<Rightarrow> u16" where
  "HeaderLenValueWithOffset wireSize offset = (if wireSize < offset then 0 else wireSize - offset)"

definition addHeaderLenOffset :: "u16 \<Rightarrow> u16 \<Rightarrow> u16 option" where
  "addHeaderLenOffset v offset =
     (let sz = (ucast v :: u32) + ucast offset in if 0xffff < sz then None else Some (ucast sz))"

definition HandshakeHeaderLenValue :: "Pool option \<Rightarrow> u16 \<Rightarrow> u16" where
  "HandshakeHeaderLenValue pool wireSize =
     (case pool of None \<Rightarrow> wireSize | Some p \<Rightarrow> HeaderLenValueWithOffset wireSize (h_LenOffset (p_HandshakeHeader p)))"

definition HandshakeHeaderBoundarySize :: "Pool option \<Rightarrow> u16 \<Rightarrow> u16 option" where
  "HandshakeHeaderBoundarySize pool lenValue =
     (case pool of None \<Rightarrow> Some lenValue | Some p \<Rightarrow> addHeaderLenOffset lenValue (h_LenOffset (p_HandshakeHeader p)))"

section \<open>Later headers\<close>

record DataHeaderContext =
  dc_LenValue :: u16
  dc_WireSize :: u16
  dc_PacketID :: u16

fun write_data_fields :: "bytes \<Rightarrow> nat \<Rightarrow> handshakeFieldKind list \<Rightarrow> u16 \<Rightarrow> u16 \<Rightarrow> bytes \<times> nat" where
  "write_data_fields hdr offset [] lenValue packetID = (hdr, offset)"
| "write_data_fields hdr offset (k # ks) lenValue packetID =
     (case k of
        handshakeFieldLen \<Rightarrow> write_data_fields (copy_at hdr offset (put16 lenValue)) (offset + PacketLengthSize) ks lenValue packetID
      | handshakeFieldPacketID \<Rightarrow>
          write_data_fields (copy_at hdr offset (put16 packetID)) (offset + DataObfPacketIDSize) ks lenValue packetID
      | _ \<Rightarrow> write_data_fields hdr offset ks lenValue packetID)"

definition sampleCDF :: "nat \<Rightarrow> nat \<Rightarrow> nat" where
  "sampleCDF n idx = (if n \<le> idx then n - 1 else idx)"

definition SelectHeaderWithContext :: "Pool \<Rightarrow> bool \<Rightarrow> nat \<Rightarrow> (nat \<Rightarrow> byte) \<Rightarrow> DataHeaderContext \<Rightarrow> bytes" where
  "SelectHeaderWithContext pool large idx rnd ctx =
     (let group = (if large then p_LargeGroup pool else p_SmallGroup pool);
          h = group ! sampleCDF (length group) idx;
          lenOffset = (case p_dataLenOffsets pool (take (h_Len h) (h_Head h)) of Some mapped \<Rightarrow> mapped | None \<Rightarrow> h_LenOffset h);
          lenValue =
            (if 0 < dc_WireSize ctx then HeaderLenValueWithOffset (dc_WireSize ctx) lenOffset else dc_LenValue ctx);
          hdr0 = copy_at (replicate DataObfHeaderSize 0) 0 (take (h_Len h) (h_Head h));
          (hdr1, offset) = write_data_fields hdr0 (h_Len h) (p_dataFields pool) lenValue (dc_PacketID ctx)
      in take offset hdr1 @ map rnd [0..<DataObfHeaderSize - offset])"

definition SelectHeader :: "Pool \<Rightarrow> bool \<Rightarrow> nat \<Rightarrow> (nat \<Rightarrow> byte) \<Rightarrow> u16 \<Rightarrow> bytes" where
  "SelectHeader pool large idx rnd lenValue =
     SelectHeaderWithContext pool large idx rnd \<lparr>dc_LenValue = lenValue, dc_WireSize = 0, dc_PacketID = 0\<rparr>"

fun field_offset :: "handshakeFieldKind \<Rightarrow> nat \<Rightarrow> handshakeFieldKind list \<Rightarrow> nat option" where
  "field_offset kind offset [] = None"
| "field_offset kind offset (k # ks) =
     (case k of
        handshakeFieldLen \<Rightarrow> if kind = k then Some offset else field_offset kind (offset + PacketLengthSize) ks
      | handshakeFieldPacketID \<Rightarrow> if kind = k then Some offset else field_offset kind (offset + DataObfPacketIDSize) ks
      | _ \<Rightarrow> field_offset kind offset ks)"

definition dataFieldOffset :: "Pool option \<Rightarrow> handshakeFieldKind \<Rightarrow> nat option" where
  "dataFieldOffset pool kind = (case pool of None \<Rightarrow> None | Some p \<Rightarrow> field_offset kind (p_DataMagicLen p) (p_dataFields p))"

definition DataHeaderLenOffset :: "Pool option \<Rightarrow> nat option" where
  "DataHeaderLenOffset pool = dataFieldOffset pool handshakeFieldLen"

definition DataHeaderPacketIDOffset :: "Pool option \<Rightarrow> nat option" where
  "DataHeaderPacketIDOffset pool = dataFieldOffset pool handshakeFieldPacketID"

definition DataHeaderLenValue :: "Pool option \<Rightarrow> bytes \<Rightarrow> u16 \<Rightarrow> u16 option" where
  "DataHeaderLenValue pool hdr wireSize =
     (case pool of
        None \<Rightarrow> None
      | Some p \<Rightarrow>
          if length hdr < p_DataMagicLen p then None
          else map_option (HeaderLenValueWithOffset wireSize) (p_dataLenOffsets p (take (p_DataMagicLen p) hdr)))"

definition DataHeaderBoundarySize :: "Pool option \<Rightarrow> bytes \<Rightarrow> u16 option" where
  "DataHeaderBoundarySize pool hdr =
     (case pool of
        None \<Rightarrow> None
      | Some p \<Rightarrow>
          if \<not> p_DataHeaderHasLen p \<or> length hdr < p_DataMagicLen p then None
          else
            (case DataHeaderLenOffset pool of
               None \<Rightarrow> None
             | Some fieldOffset \<Rightarrow>
                 if length hdr < fieldOffset + PacketLengthSize then None
                 else
                   (case p_dataLenOffsets p (take (p_DataMagicLen p) hdr) of
                      None \<Rightarrow> None
                    | Some lenOffset \<Rightarrow> addHeaderLenOffset (get16 (slice hdr fieldOffset PacketLengthSize)) lenOffset)))"

definition ValidateHeaderPaddingLen :: "Pool option \<Rightarrow> bytes \<Rightarrow> u16 \<Rightarrow> bool" where
  "ValidateHeaderPaddingLen pool hdr wireSize =
     (case pool of
        None \<Rightarrow> True
      | Some p \<Rightarrow>
          if \<not> p_DataHeaderHasLen p then True
          else
            (case DataHeaderLenOffset pool of
               None \<Rightarrow> True
             | Some offset \<Rightarrow>
                 if length hdr < offset + PacketLengthSize then False
                 else DataHeaderLenValue pool hdr wireSize = Some (get16 (slice hdr offset PacketLengthSize))))"

text \<open>
  The check of a later header looks its magic up in the set of the pool.  A pool without the set, which the generator does
  not return, is checked by a scan of the two groups.
\<close>

definition ValidateHeader :: "Pool option \<Rightarrow> bytes \<Rightarrow> bool" where
  "ValidateHeader pool hdr =
     (case pool of
        None \<Rightarrow> False
      | Some p \<Rightarrow> if length hdr < p_DataMagicLen p then False else take (p_DataMagicLen p) hdr \<in> p_dataHeaderSet p)"

definition ValidateHeader_scan :: "Pool option \<Rightarrow> bytes \<Rightarrow> bool" where
  "ValidateHeader_scan pool hdr =
     (case pool of
        None \<Rightarrow> False
      | Some p \<Rightarrow>
          if length hdr < p_DataMagicLen p then False
          else if list_ex (\<lambda>h. matchHeader h hdr) (p_SmallGroup p) then True
          else list_ex (\<lambda>h. matchHeader h hdr) (p_LargeGroup p))"

section \<open>Padding of data packets\<close>

definition paddingSizeRow :: "byte \<Rightarrow> int \<Rightarrow> nat" where
  "paddingSizeRow lastPayloadByte rowLimit0 =
     (let rowLimit1 = (if rowLimit0 < 0 then 0 else rowLimit0);
          rowLimit = (if 256 < rowLimit1 then 256 else rowLimit1)
      in if uint lastPayloadByte \<le> rowLimit then 0 else 1)"

definition PaddingForPayload :: "Pool option \<Rightarrow> bytes \<Rightarrow> u16" where
  "PaddingForPayload pool payload =
     (case pool of
        None \<Rightarrow> 0
      | Some p \<Rightarrow>
          if length (p_PaddingThreshold p) \<noteq> PaddingBucketCount then 0
          else
            (let payloadLen = length payload
             in if payloadLen = 0 then 0
                else
                  (let found = sort_Search (length (p_PaddingThreshold p)) (\<lambda>i. payloadLen \<le> p_PaddingThreshold p ! i);
                       idx = (if PaddingBucketCount \<le> found then PaddingBucketCount - 1 else found)
                   in p_PaddingSize p ! paddingSizeRow (payload ! (payloadLen - 1)) (int (p_PaddingRowLimit p ! idx)) ! idx)))"

section \<open>Later headers: properties\<close>

lemma copy_at_append:
  "length pre = off \<Longrightarrow> copy_at (pre @ mid @ post) off src = pre @ src @ post" if "length mid = length src"
  using that by (simp add: copy_at_def)

lemma slice_append [simp]: "slice (pre @ mid @ post) (length pre) (length mid) = mid"
  by (simp add: slice_def)

definition data_field_bytes :: "u16 \<Rightarrow> u16 \<Rightarrow> handshakeFieldKind \<Rightarrow> bytes" where
  "data_field_bytes lenValue packetID k = put16 (if k = handshakeFieldLen then lenValue else packetID)"

lemma length_data_field_bytes [simp]: "length (data_field_bytes l i k) = 2"
  by (simp add: data_field_bytes_def)

lemma write_data_fields_eq:
  "list_all isDataField ks \<Longrightarrow> 2 * length ks \<le> length rest \<Longrightarrow>
    write_data_fields (pre @ rest) (length pre) ks l i =
      (pre @ concat (map (data_field_bytes l i) ks) @ drop (2 * length ks) rest, length pre + 2 * length ks)"
proof (induction ks arbitrary: pre rest)
  case (Cons k ks)
  obtain a b rest' where r: "rest = [a, b] @ rest'"
    using Cons.prems(2) by (cases rest; cases "tl rest") auto
  have "copy_at (pre @ [a, b] @ rest') (length pre) (data_field_bytes l i k) = pre @ data_field_bytes l i k @ rest'"
    by (rule copy_at_append) simp_all
  moreover have "k = handshakeFieldLen \<or> k = handshakeFieldPacketID" using Cons.prems(1) by (simp add: isDataField_def)
  ultimately have "write_data_fields (pre @ rest) (length pre) (k # ks) l i =
      write_data_fields ((pre @ data_field_bytes l i k) @ rest') (length (pre @ data_field_bytes l i k)) ks l i"
    by (auto simp: r data_field_bytes_def PacketLengthSize_def DataObfPacketIDSize_def)
  also have "\<dots> = (pre @ concat (map (data_field_bytes l i) (k # ks)) @ drop (2 * length (k # ks)) rest,
      length pre + 2 * length (k # ks))"
    using Cons.IH [of rest' "pre @ data_field_bytes l i k"] Cons.prems by (simp add: r)
  finally show ?case .
qed simp

lemma field_offset_slice:
  "list_all isDataField ks \<Longrightarrow> kind \<in> set ks \<Longrightarrow>
    \<exists>off. field_offset kind (length pre) ks = Some off \<and> off + 2 \<le> length pre + 2 * length ks \<and>
      slice (pre @ concat (map (data_field_bytes l i) ks) @ rest) off 2 = data_field_bytes l i kind"
proof (induction ks arbitrary: pre)
  case (Cons k ks)
  have k: "k = handshakeFieldLen \<or> k = handshakeFieldPacketID" using Cons.prems(1) by (simp add: isDataField_def)
  show ?case
  proof (cases "kind = k")
    case True
    have "field_offset kind (length pre) (k # ks) = Some (length pre)" using k True by auto
    moreover have "slice (pre @ data_field_bytes l i k @ concat (map (data_field_bytes l i) ks) @ rest) (length pre) 2 =
        data_field_bytes l i kind"
      using slice_append [of pre "data_field_bytes l i k" "concat (map (data_field_bytes l i) ks) @ rest"] True by simp
    ultimately show ?thesis by simp
  next
    case False
    have "field_offset kind (length pre) (k # ks) = field_offset kind (length (pre @ data_field_bytes l i k)) ks"
      using k False by (auto simp: PacketLengthSize_def DataObfPacketIDSize_def)
    then show ?thesis using Cons.IH [of "pre @ data_field_bytes l i k"] Cons.prems False by auto
  qed
qed simp

lemma pool_ok_fields:
  assumes "pool_ok pool"
  shows "list_all isDataField (p_dataFields pool)" and "p_DataMagicLen pool + 2 * length (p_dataFields pool) \<le> 6"
    and "p_DataHeaderHasLen pool \<longleftrightarrow> handshakeFieldLen \<in> set (p_dataFields pool)"
    and "p_DataHeaderHasID pool \<longleftrightarrow> handshakeFieldPacketID \<in> set (p_dataFields pool)"
  using assms by (simp_all add: pool_ok_def fields_ok_def DataObfHeaderSize_def)

lemma selected_header:
  assumes "pool_ok pool"
  obtains h where "h \<in> set (data_header_list pool)"
    and "(let group = (if large then p_LargeGroup pool else p_SmallGroup pool) in group ! sampleCDF (length group) idx) = h"
    and "length (h_Head h) = p_DataMagicLen pool" and "h_Len h = p_DataMagicLen pool" and "unat (h_LenOffset h) \<le> 17"
    and "p_dataLenOffsets pool (h_Head h) = Some (h_LenOffset h)" and "h_Head h \<in> p_dataHeaderSet pool"
proof -
  let ?g = "if large then p_LargeGroup pool else p_SmallGroup pool"
  have H: "headers_ok pool" using assms by (simp add: pool_ok_def)
  then have "0 < length ?g" by (auto simp: headers_ok_def)
  then have "sampleCDF (length ?g) idx < length ?g" by (auto simp: sampleCDF_def)
  then have m: "?g ! sampleCDF (length ?g) idx \<in> set (data_header_list pool)"
    by (auto simp: data_header_list_def dest: nth_mem split: if_splits)
  with H have "header_ok (p_DataMagicLen pool) (?g ! sampleCDF (length ?g) idx)" by (simp add: headers_ok_def list_all_iff)
  with H m show thesis by (intro that [OF m]) (auto simp: header_ok_def headers_ok_def Let_def)
qed

text \<open>The shape of a selected header.\<close>

lemma SelectHeader_shape:
  assumes "pool_ok pool"
  shows "\<exists>h \<in> set (data_header_list pool). length (h_Head h) = p_DataMagicLen pool \<and> unat (h_LenOffset h) \<le> 17 \<and>
    p_dataLenOffsets pool (h_Head h) = Some (h_LenOffset h) \<and> h_Head h \<in> p_dataHeaderSet pool \<and>
    SelectHeaderWithContext pool large idx rnd ctx =
      h_Head h @
      concat (map (data_field_bytes
        (if 0 < dc_WireSize ctx then HeaderLenValueWithOffset (dc_WireSize ctx) (h_LenOffset h) else dc_LenValue ctx)
        (dc_PacketID ctx)) (p_dataFields pool)) @
      map rnd [0..<DataObfHeaderSize - (p_DataMagicLen pool + 2 * length (p_dataFields pool))]"
proof -
  obtain h where h: "h \<in> set (data_header_list pool)"
      "(let group = (if large then p_LargeGroup pool else p_SmallGroup pool) in group ! sampleCDF (length group) idx) = h"
      "length (h_Head h) = p_DataMagicLen pool" "h_Len h = p_DataMagicLen pool" "unat (h_LenOffset h) \<le> 17"
      "p_dataLenOffsets pool (h_Head h) = Some (h_LenOffset h)" "h_Head h \<in> p_dataHeaderSet pool"
    using selected_header [OF assms] by metis
  define lv where
    "lv = (if 0 < dc_WireSize ctx then HeaderLenValueWithOffset (dc_WireSize ctx) (h_LenOffset h) else dc_LenValue ctx)"
  define fs where "fs = p_dataFields pool"
  define body where "body = concat (map (data_field_bytes lv (dc_PacketID ctx)) fs)"
  define zs where "zs = replicate (6 - length (h_Head h)) (0 :: byte)"
  have fl: "list_all isDataField fs" "length (h_Head h) + 2 * length fs \<le> 6"
    using pool_ok_fields [OF assms] h(3) by (auto simp: fs_def)
  have c: "copy_at (replicate DataObfHeaderSize 0) 0 (h_Head h) = h_Head h @ zs"
    using fl(2) by (simp add: copy_at_def DataObfHeaderSize_def zs_def)
  have w: "write_data_fields (h_Head h @ zs) (length (h_Head h)) fs lv (dc_PacketID ctx) =
      (h_Head h @ body @ drop (2 * length fs) zs, length (h_Head h) + 2 * length fs)"
    unfolding body_def by (rule write_data_fields_eq) (use fl in \<open>simp_all add: zs_def\<close>)
  have lb: "length body = 2 * length fs" unfolding body_def by (induction fs) simp_all
  have g: "(if large then p_LargeGroup pool else p_SmallGroup pool) !
      sampleCDF (length (if large then p_LargeGroup pool else p_SmallGroup pool)) idx = h"
    using h(2) by (simp only: Let_def)
  have t: "take (h_Len h) (h_Head h) = h_Head h" by (simp add: h(3,4))
  have "SelectHeaderWithContext pool large idx rnd ctx =
      h_Head h @ body @ map rnd [0..<DataObfHeaderSize - (length (h_Head h) + 2 * length fs)]"
    unfolding SelectHeaderWithContext_def Let_def g t
    unfolding h(6) option.case lv_def [symmetric] c fs_def [symmetric] h(4) h(3) [symmetric] w prod.case
    by (simp add: lb)
  then have "SelectHeaderWithContext pool large idx rnd ctx =
      h_Head h @ concat (map (data_field_bytes
        (if 0 < dc_WireSize ctx then HeaderLenValueWithOffset (dc_WireSize ctx) (h_LenOffset h) else dc_LenValue ctx)
        (dc_PacketID ctx)) (p_dataFields pool)) @
      map rnd [0..<DataObfHeaderSize - (p_DataMagicLen pool + 2 * length (p_dataFields pool))]"
    unfolding body_def lv_def fs_def h(3) .
  with h show ?thesis by blast
qed

lemma ucast_up_down [simp]: "(ucast (ucast w :: u32) :: u16) = w"
  by (rule bit_word_eqI) (auto simp: bit_simps dest: bit_imp_le_length)

lemma header_boundary:
  assumes "unat offset \<le> unat wire"
  shows "addHeaderLenOffset (HeaderLenValueWithOffset wire offset) offset = Some wire"
proof -
  have le: "offset \<le> wire" using assms by (simp add: word_le_nat_alt)
  then have n: "unat (wire - offset) = unat wire - unat offset" by (rule unat_sub)
  have b: "unat wire < 65536" "unat offset < 65536" using unsigned_less [of wire] unsigned_less [of offset] by simp_all
  then have "unat (ucast (wire - offset) + ucast offset :: u32) = unat wire"
    using assms by (simp add: unat_word_ariths unsigned_ucast_eq take_bit_nat_eq_self n)
  then have e: "(ucast (wire - offset) + ucast offset :: u32) = ucast wire"
    using b by (simp add: word_unat_eq_iff unsigned_ucast_eq take_bit_nat_eq_self)
  have "\<not> (0xffff :: u32) < ucast wire"
    using b by (simp add: word_less_nat_alt unsigned_ucast_eq take_bit_nat_eq_self)
  then show ?thesis using leD [OF le] by (simp add: HeaderLenValueWithOffset_def addHeaderLenOffset_def Let_def e)
qed

lemma SelectHeader_length:
  assumes "pool_ok pool" shows "length (SelectHeaderWithContext pool large idx rnd ctx) = DataObfHeaderSize"
proof -
  obtain h :: header and lv where "length (h_Head h) = p_DataMagicLen pool" and
    s: "SelectHeaderWithContext pool large idx rnd ctx =
      h_Head h @ concat (map (data_field_bytes lv (dc_PacketID ctx)) (p_dataFields pool)) @
      map rnd [0..<DataObfHeaderSize - (p_DataMagicLen pool + 2 * length (p_dataFields pool))]"
    using SelectHeader_shape [OF assms, of large idx rnd ctx] by blast
  moreover have "length (concat (map (data_field_bytes lv (dc_PacketID ctx)) (p_dataFields pool))) = 2 * length (p_dataFields pool)"
    by (induction "p_dataFields pool") (simp_all add: length_concat comp_def sum_list_triv)
  ultimately show ?thesis using pool_ok_fields(2) [OF assms] by (simp add: DataObfHeaderSize_def)
qed

lemma SelectHeader_valid:
  assumes "pool_ok pool" shows "ValidateHeader (Some pool) (SelectHeaderWithContext pool large idx rnd ctx)"
proof -
  obtain h :: header and rest where "length (h_Head h) = p_DataMagicLen pool" "h_Head h \<in> p_dataHeaderSet pool"
    "SelectHeaderWithContext pool large idx rnd ctx = h_Head h @ rest"
    using SelectHeader_shape [OF assms, of large idx rnd ctx] by blast
  then show ?thesis by (simp add: ValidateHeader_def)
qed

text \<open>A field of a selected header is found where it was written.\<close>

lemma SelectHeader_field:
  assumes "pool_ok pool" and "kind \<in> set (p_dataFields pool)"
  shows "\<exists>(h :: header) off. dataFieldOffset (Some pool) kind = Some off \<and> off + 2 \<le> DataObfHeaderSize \<and> unat (h_LenOffset h) \<le> 17 \<and>
    p_dataLenOffsets pool (take (p_DataMagicLen pool) (SelectHeaderWithContext pool large idx rnd ctx)) = Some (h_LenOffset h) \<and>
    get16 (slice (SelectHeaderWithContext pool large idx rnd ctx) off 2) =
      (if kind = handshakeFieldLen
       then if 0 < dc_WireSize ctx then HeaderLenValueWithOffset (dc_WireSize ctx) (h_LenOffset h) else dc_LenValue ctx
       else dc_PacketID ctx)"
proof -
  obtain h :: header where h: "length (h_Head h) = p_DataMagicLen pool" "unat (h_LenOffset h) \<le> 17"
      "p_dataLenOffsets pool (h_Head h) = Some (h_LenOffset h)"
    and s: "SelectHeaderWithContext pool large idx rnd ctx =
      h_Head h @
      concat (map (data_field_bytes
        (if 0 < dc_WireSize ctx then HeaderLenValueWithOffset (dc_WireSize ctx) (h_LenOffset h) else dc_LenValue ctx)
        (dc_PacketID ctx)) (p_dataFields pool)) @
      map rnd [0..<DataObfHeaderSize - (p_DataMagicLen pool + 2 * length (p_dataFields pool))]"
    using SelectHeader_shape [OF assms(1), of large idx rnd ctx] by blast
  obtain off where off: "field_offset kind (length (h_Head h)) (p_dataFields pool) = Some off"
      "off + 2 \<le> length (h_Head h) + 2 * length (p_dataFields pool)"
      "slice (SelectHeaderWithContext pool large idx rnd ctx) off 2 = data_field_bytes
        (if 0 < dc_WireSize ctx then HeaderLenValueWithOffset (dc_WireSize ctx) (h_LenOffset h) else dc_LenValue ctx)
        (dc_PacketID ctx) kind"
    unfolding s using field_offset_slice [OF pool_ok_fields(1) [OF assms(1)] assms(2)] by blast
  have "p_dataLenOffsets pool (take (p_DataMagicLen pool) (SelectHeaderWithContext pool large idx rnd ctx)) = Some (h_LenOffset h)"
    unfolding s using h by simp
  moreover have "off + 2 \<le> DataObfHeaderSize" using off(2) pool_ok_fields(2) [OF assms(1)] h(1) by (simp add: DataObfHeaderSize_def)
  ultimately show ?thesis
    using off(1) h(1,2) by (intro exI [of _ h] exI [of _ off]) (simp add: dataFieldOffset_def data_field_bytes_def off(3))
qed

lemma SelectHeader_boundary:
  assumes "pool_ok pool" and "p_DataHeaderHasLen pool" and "17 \<le> unat (dc_WireSize ctx)"
  shows "DataHeaderBoundarySize (Some pool) (SelectHeaderWithContext pool large idx rnd ctx) = Some (dc_WireSize ctx)"
proof -
  have k: "handshakeFieldLen \<in> set (p_dataFields pool)" using assms pool_ok_fields(3) by blast
  have w: "0 < dc_WireSize ctx" using assms(3) by (simp add: word_less_nat_alt)
  have m: "p_DataMagicLen pool \<le> 6" using pool_ok_fields(2) [OF assms(1)] by simp
  obtain h :: header and off where f: "dataFieldOffset (Some pool) handshakeFieldLen = Some off" "off + 2 \<le> DataObfHeaderSize"
      "unat (h_LenOffset h) \<le> 17"
      "p_dataLenOffsets pool (take (p_DataMagicLen pool) (SelectHeaderWithContext pool large idx rnd ctx)) = Some (h_LenOffset h)"
      "get16 (slice (SelectHeaderWithContext pool large idx rnd ctx) off 2) = HeaderLenValueWithOffset (dc_WireSize ctx) (h_LenOffset h)"
    using SelectHeader_field [OF assms(1) k, of large idx rnd ctx] w by auto
  have "addHeaderLenOffset (HeaderLenValueWithOffset (dc_WireSize ctx) (h_LenOffset h)) (h_LenOffset h) = Some (dc_WireSize ctx)"
    by (rule header_boundary) (use f(3) assms(3) in simp)
  then show ?thesis
    using f(2) m assms(2) SelectHeader_length [OF assms(1), of large idx rnd ctx]
    by (simp add: DataHeaderBoundarySize_def DataHeaderLenOffset_def PacketLengthSize_def DataObfHeaderSize_def f(1,4,5))
qed

lemma SelectHeader_padding_len:
  assumes "pool_ok pool" and "0 < dc_WireSize ctx"
  shows "ValidateHeaderPaddingLen (Some pool) (SelectHeaderWithContext pool large idx rnd ctx) (dc_WireSize ctx)"
proof (cases "handshakeFieldLen \<in> set (p_dataFields pool)")
  case True
  have m: "p_DataMagicLen pool \<le> 6" using pool_ok_fields(2) [OF assms(1)] by simp
  obtain h :: header and off where f: "dataFieldOffset (Some pool) handshakeFieldLen = Some off" "off + 2 \<le> DataObfHeaderSize"
      "p_dataLenOffsets pool (take (p_DataMagicLen pool) (SelectHeaderWithContext pool large idx rnd ctx)) = Some (h_LenOffset h)"
      "get16 (slice (SelectHeaderWithContext pool large idx rnd ctx) off 2) = HeaderLenValueWithOffset (dc_WireSize ctx) (h_LenOffset h)"
    using SelectHeader_field [OF assms(1) True, of large idx rnd ctx] assms(2) by auto
  show ?thesis
    using f(2) m SelectHeader_length [OF assms(1), of large idx rnd ctx]
    by (simp add: ValidateHeaderPaddingLen_def DataHeaderLenOffset_def DataHeaderLenValue_def PacketLengthSize_def
      DataObfHeaderSize_def f(1,3,4))
qed (use assms pool_ok_fields(3) [OF assms(1)] in \<open>simp add: ValidateHeaderPaddingLen_def\<close>)

lemma matchHeader_take: "length (h_Head h) = h_Len h \<Longrightarrow> matchHeader h hdr \<longleftrightarrow> h_Len h \<le> length hdr \<and> take (h_Len h) hdr = h_Head h"
  by (auto simp: matchHeader_def list_all_iff list_eq_iff_nth_eq)

text \<open>The lookup in the set is the scan of the groups.\<close>

lemma ValidateHeader_eq_scan:
  assumes "pool_ok pool" shows "ValidateHeader (Some pool) hdr = ValidateHeader_scan (Some pool) hdr"
proof -
  have H: "\<forall>h \<in> set (data_header_list pool). h_Len h = p_DataMagicLen pool \<and> length (h_Head h) = h_Len h"
    "p_dataHeaderSet pool = h_Head ` set (data_header_list pool)"
    using assms by (auto simp: pool_ok_def headers_ok_def list_all_iff header_ok_def)
  then have "list_ex (\<lambda>h. matchHeader h hdr) (data_header_list pool) \<longleftrightarrow>
      p_DataMagicLen pool \<le> length hdr \<and> take (p_DataMagicLen pool) hdr \<in> p_dataHeaderSet pool"
    by (fastforce simp: list_ex_iff matchHeader_take)
  then show ?thesis by (auto simp: ValidateHeader_def ValidateHeader_scan_def data_header_list_def)
qed

lemma paddingSizeRow_less: "paddingSizeRow b l < 2"
  by (simp add: paddingSizeRow_def Let_def)

text \<open>The padding table is looked up at the first threshold that is not below the length.\<close>

lemma PaddingForPayload_bound:
  assumes "pool_ok pool"
  shows "unat (PaddingForPayload (Some pool) payload) \<le> MaxDataPaddingSize"
proof (cases "payload = []")
  case False
  define f where "f = sort_Search (length (p_PaddingThreshold pool)) (\<lambda>i. length payload \<le> p_PaddingThreshold pool ! i)"
  define idx where "idx = (if PaddingBucketCount \<le> f then PaddingBucketCount - 1 else f)"
  define row where "row = p_PaddingSize pool ! paddingSizeRow (payload ! (length payload - 1)) (int (p_PaddingRowLimit pool ! idx))"
  have P: "padding_tables_ok (p_PaddingThreshold pool) (p_PaddingSize pool) (p_PaddingRowLimit pool) (p_MinPadding pool) (p_MaxPadding pool)"
    using assms by (simp add: pool_ok_def)
  have "row \<in> set (p_PaddingSize pool)" unfolding row_def
    by (rule nth_mem) (use P paddingSizeRow_less in \<open>simp add: padding_tables_ok_def\<close>)
  then have "length row = PaddingBucketCount" "\<forall>v \<in> set row. unat v \<le> MaxDataPaddingSize" using P by (auto simp: padding_tables_ok_def)
  moreover have "idx < PaddingBucketCount" by (simp add: idx_def PaddingBucketCount_def)
  moreover have "PaddingForPayload (Some pool) payload = row ! idx"
    using P False by (simp add: PaddingForPayload_def Let_def row_def idx_def f_def padding_tables_ok_def)
  ultimately show ?thesis by simp
qed (simp add: PaddingForPayload_def)

end
