(* ===== verification/CryptoConn.thy ===== *)
theory CryptoConn
  imports ObfHeader
begin

text \<open>
  The encrypted connection of \<^verbatim>\<open>pkg/crypto/crypto.go\<close>: the client nonce with the tag that names the user, the
  two XChaCha20 streams and their derivation on both sides, and the reads and writes of the stream; and the replay cache
  of nonces of \<^verbatim>\<open>cmd/server/main.go\<close>, which the connection sees through an interface.

  The key stream, PBKDF2 and HMAC are parameters.  A cipher stream is its key, its nonce and the number of bytes it has
  consumed.  The bytes that the peer has sent and that are not read yet are an argument of the reads; a read returns at
  least one of them, or fails when there are none and the peer is gone.
\<close>

section \<open>Streams\<close>

text \<open>
  A key stream and the position in it.  The position is unbounded; the 32-bit block counter of the library, with which it
  panics after 256 GiB of one direction, is not modelled.
\<close>

record cstream =
  st_key :: bytes
  st_nonce :: bytes
  st_pos :: nat

definition XORKeyStream :: "primitives \<Rightarrow> cstream \<Rightarrow> bytes \<Rightarrow> bytes \<times> cstream" where
  "XORKeyStream pr st b =
     (map (\<lambda>i. b ! i XOR pr_keystream pr (st_key st) (st_nonce st) (st_pos st + i)) [0..<length b],
      st\<lparr>st_pos := st_pos st + length b\<rparr>)"

definition NonceSize :: nat where "NonceSize = 24"
definition ClientNonceRandomLen :: nat where "ClientNonceRandomLen = 16"
definition UserNonceAuthTagLen :: nat where "UserNonceAuthTagLen = NonceSize - ClientNonceRandomLen"
definition nonceAuthSalt :: string where "nonceAuthSalt = ''auth:''"
definition KeySize :: nat where "KeySize = 32"

datatype crypto_error = ErrEOF | ErrUserAuthFailed | ErrCipher | ErrNoKey | ErrClientNonce | ErrTimestampSize | ErrCount

definition DeriveKey :: "primitives \<Rightarrow> bytes \<Rightarrow> nat \<Rightarrow> bytes" where
  "DeriveKey pr secret keyLen =
     (if keyLen = 0 then [] else pr_pbkdf2 pr secret Salt UserPasswordDerivationIterations keyLen)"

text \<open>The cipher takes keys of 32 bytes and nonces of 12 or 24 bytes.\<close>

definition newXChaCha20Stream :: "primitives \<Rightarrow> bytes \<Rightarrow> bytes \<Rightarrow> cstream option" where
  "newXChaCha20Stream pr key nonce =
     (let streamKey = DeriveKey pr key KeySize
      in if length streamKey = KeySize \<and> (length nonce = NonceSize \<or> length nonce = 12)
         then Some \<lparr>st_key = streamKey, st_nonce = nonce, st_pos = 0\<rparr> else None)"

section \<open>Users and nonces\<close>

record UserCredential =
  uc_Name :: string
  uc_Password :: string

definition epochSeedPrefix :: "u64 \<Rightarrow> bytes" where
  "epochSeedPrefix v = put64 v"

definition BuildUserSecret :: "bytes \<Rightarrow> bytes \<Rightarrow> bytes" where
  "BuildUserSecret pre password = pre @ password"

definition nonceUserAuthTag :: "primitives \<Rightarrow> string \<Rightarrow> bytes \<Rightarrow> bytes \<Rightarrow> bytes" where
  "nonceUserAuthTag pr name userSecret noncePrefix =
     (let authInput = bytes_of_string name @ bytes_of_string [CHR 0x0A] @ userSecret;
          authKey = pr_pbkdf2 pr authInput nonceAuthSalt UserPasswordDerivationIterations 32
      in take UserNonceAuthTagLen (pr_hmac pr authKey noncePrefix))"

text \<open>The random part of the nonce is an argument.\<close>

definition makeClientNonce :: "primitives \<Rightarrow> (nat \<Rightarrow> byte) \<Rightarrow> string \<Rightarrow> bytes \<Rightarrow> bytes" where
  "makeClientNonce pr rnd name userSecret =
     (let random = map rnd [0..<ClientNonceRandomLen] in random @ nonceUserAuthTag pr name userSecret random)"

fun matchNonceUser :: "primitives \<Rightarrow> UserCredential list \<Rightarrow> bytes \<Rightarrow> bytes \<Rightarrow> (UserCredential \<times> bytes) option" where
  "matchNonceUser pr [] epochPrefix nonce = None"
| "matchNonceUser pr (user # users) epochPrefix nonce =
     (let userSecret = BuildUserSecret epochPrefix (bytes_of_string (uc_Password user))
      in if nonceUserAuthTag pr (uc_Name user) userSecret (take ClientNonceRandomLen nonce) =
            take UserNonceAuthTagLen (drop ClientNonceRandomLen nonce)
         then Some (user, userSecret)
         else matchNonceUser pr users epochPrefix nonce)"

definition derivedServerNonce :: "bytes \<Rightarrow> bytes \<Rightarrow> crypto_error + bytes" where
  "derivedServerNonce clientNonce timestampPayload =
     (if length clientNonce \<noteq> NonceSize then Inl ErrClientNonce
      else if length timestampPayload \<noteq> TimestampPayloadSize then Inl ErrTimestampSize
      else
        (let timestamp = drop ClientIDSize timestampPayload; start = NonceSize - TimestampSize
         in Inr (take start clientNonce @ map (\<lambda>i. clientNonce ! (start + i) XOR timestamp ! i) [0..<TimestampSize])))"

section \<open>Connections\<close>

record CryptoConn =
  cc_encStream :: "cstream option"
  cc_decStream :: "cstream option"
  cc_sendNonce :: bytes
  cc_localNonce :: bytes
  cc_peerNonce :: bytes
  cc_recvNonce :: bool
  cc_users :: "UserCredential list"
  cc_authUser :: string
  cc_authSecret :: bytes
  cc_epochPrefix :: bytes

definition newCryptoConnWithSecret :: "primitives \<Rightarrow> bytes \<Rightarrow> bytes \<Rightarrow> bytes \<Rightarrow> crypto_error + CryptoConn" where
  "newCryptoConnWithSecret pr userSecret sendNonce epochPrefix =
     (let conn = (\<lambda>enc. \<lparr>cc_encStream = enc, cc_decStream = None, cc_sendNonce = sendNonce, cc_localNonce = sendNonce,
                    cc_peerNonce = [], cc_recvNonce = False, cc_users = [], cc_authUser = [], cc_authSecret = userSecret,
                    cc_epochPrefix = epochPrefix\<rparr>)
      in if sendNonce \<noteq> []
         then (case newXChaCha20Stream pr userSecret sendNonce of None \<Rightarrow> Inl ErrCipher | Some st \<Rightarrow> Inr (conn (Some st)))
         else Inr (conn None))"

definition NewClientCryptoConn :: "primitives \<Rightarrow> (nat \<Rightarrow> byte) \<Rightarrow> string \<Rightarrow> bytes \<Rightarrow> u64 \<Rightarrow> crypto_error + CryptoConn" where
  "NewClientCryptoConn pr rnd name password epochSeed =
     (let epochPrefix = epochSeedPrefix epochSeed; userSecret = BuildUserSecret epochPrefix password;
          sendNonce = makeClientNonce pr rnd name userSecret
      in newCryptoConnWithSecret pr userSecret sendNonce epochPrefix)"

definition NewServerCryptoConn :: "UserCredential list \<Rightarrow> CryptoConn" where
  "NewServerCryptoConn users =
     \<lparr>cc_encStream = None, cc_decStream = None, cc_sendNonce = [], cc_localNonce = [], cc_peerNonce = [], cc_recvNonce = False,
      cc_users = users, cc_authUser = [], cc_authSecret = [], cc_epochPrefix = []\<rparr>"

definition SetEpochSeed :: "CryptoConn \<Rightarrow> u64 \<Rightarrow> CryptoConn" where
  "SetEpochSeed cc v = cc\<lparr>cc_epochPrefix := epochSeedPrefix v\<rparr>"

definition setSecret :: "primitives \<Rightarrow> CryptoConn \<Rightarrow> bytes \<Rightarrow> crypto_error + CryptoConn" where
  "setSecret pr cc userSecret =
     (if cc_sendNonce cc \<noteq> []
      then (case newXChaCha20Stream pr userSecret (cc_sendNonce cc) of
              None \<Rightarrow> Inl ErrCipher
            | Some st \<Rightarrow> Inr (cc\<lparr>cc_encStream := Some st, cc_authSecret := userSecret\<rparr>))
      else Inr (cc\<lparr>cc_authSecret := userSecret\<rparr>))"

text \<open>
  The first read takes the nonce of the peer: a server finds its user and asks the replay cache, whose operation is the
  argument \<open>add\<close> (None for a connection without a cache).  The changes of the connection before a failure stay.
\<close>

definition receive_nonce ::
  "primitives \<Rightarrow> ('c \<Rightarrow> bytes \<Rightarrow> bool \<times> 'c) option \<Rightarrow> CryptoConn \<Rightarrow> 'c \<Rightarrow> bytes \<Rightarrow> crypto_error option \<times> CryptoConn \<times> 'c" where
  "receive_nonce pr add cc0 cache nonce =
     (let cc1 = cc0\<lparr>cc_peerNonce := nonce\<rparr>;
          (err, cc2, cache2) =
            (if cc_users cc1 = [] then (None, cc1, cache)
             else
               (case matchNonceUser pr (cc_users cc1) (cc_epochPrefix cc1) nonce of
                  None \<Rightarrow> (Some ErrUserAuthFailed, cc1, cache)
                | Some (user, userSecret) \<Rightarrow>
                    (let (fresh, cache') = (case add of None \<Rightarrow> (True, cache) | Some f \<Rightarrow> f cache nonce)
                     in if \<not> fresh then (Some ErrUserAuthFailed, cc1, cache')
                        else
                          (case setSecret pr cc1 userSecret of
                             Inl e \<Rightarrow> (Some e, cc1, cache')
                           | Inr cc' \<Rightarrow> (None, cc'\<lparr>cc_authUser := uc_Name user\<rparr>, cache')))))
      in case err of
           Some e \<Rightarrow> (Some e, cc2, cache2)
         | None \<Rightarrow>
             if cc_authSecret cc2 = [] then (Some ErrUserAuthFailed, cc2, cache2)
             else
               (case newXChaCha20Stream pr (cc_authSecret cc2) nonce of
                  None \<Rightarrow> (Some ErrCipher, cc2, cache2)
                | Some st \<Rightarrow> (None, cc2\<lparr>cc_decStream := Some st, cc_recvNonce := True\<rparr>, cache2)))"

text \<open>
  One read of at most \<open>n\<close> bytes, of which the network returns \<open>got\<close>; the result is the plain text and the cipher text.
\<close>

definition ReadEncrypted ::
  "primitives \<Rightarrow> ('c \<Rightarrow> bytes \<Rightarrow> bool \<times> 'c) option \<Rightarrow> CryptoConn \<Rightarrow> 'c \<Rightarrow> bytes \<Rightarrow> nat \<Rightarrow> nat \<Rightarrow>
     (crypto_error + bytes \<times> bytes) \<times> CryptoConn \<times> 'c \<times> bytes" where
  "ReadEncrypted pr add cc cache inp n got =
     (let (err, cc1, cache1, inp1) =
        (if cc_recvNonce cc then (None, cc, cache, inp)
         else if length inp < NonceSize then (Some ErrEOF, cc, cache, [])
         else
           (case receive_nonce pr add cc cache (take NonceSize inp) of
              (err, cc', cache') \<Rightarrow> (err, cc', cache', drop NonceSize inp)))
      in case err of
           Some e \<Rightarrow> (Inl e, cc1, cache1, inp1)
         | None \<Rightarrow>
             if inp1 = [] then (Inl ErrEOF, cc1, cache1, inp1)
             else
               (let m = min (max 1 (min got n)) (length inp1); encrypted = take m inp1
                in case cc_decStream cc1 of
                     None \<Rightarrow> (Inl ErrNoKey, cc1, cache1, drop m inp1)
                   | Some st \<Rightarrow>
                       (let (plain, st') = XORKeyStream pr st encrypted
                        in (Inr (plain, encrypted), cc1\<lparr>cc_decStream := Some st'\<rparr>, cache1, drop m inp1))))"

text \<open>\<open>readEncryptedFull\<close> of \<^verbatim>\<open>pkg/mux/read_loop.go\<close>; \<open>sched\<close> gives the size of each read.\<close>

function readEncryptedFull ::
  "primitives \<Rightarrow> ('c \<Rightarrow> bytes \<Rightarrow> bool \<times> 'c) option \<Rightarrow> (nat \<Rightarrow> nat) \<Rightarrow> CryptoConn \<Rightarrow> 'c \<Rightarrow> bytes \<Rightarrow> nat \<Rightarrow>
     (crypto_error + bytes \<times> bytes) \<times> CryptoConn \<times> 'c \<times> bytes" where
  "readEncryptedFull pr add sched cc cache inp n =
     (if n = 0 then (Inr ([], []), cc, cache, inp)
      else
        (case ReadEncrypted pr add cc cache inp n (sched n) of
           (Inl e, cc1, cache1, inp1) \<Rightarrow> (Inl e, cc1, cache1, inp1)
         | (Inr (plain, encrypted), cc1, cache1, inp1) \<Rightarrow>
             if plain = [] then (Inl ErrEOF, cc1, cache1, inp1)
             else
               (case readEncryptedFull pr add sched cc1 cache1 inp1 (n - length plain) of
                  (Inl e, r) \<Rightarrow> (Inl e, r)
                | (Inr (p, c), r) \<Rightarrow> (Inr (plain @ p, encrypted @ c), r))))"
  by pat_completeness auto
termination
  by (relation "measure (\<lambda>(pr, add, sched, cc, cache, inp, n). n)") auto

declare readEncryptedFull.simps [simp del]

definition DecryptInPlace :: "primitives \<Rightarrow> CryptoConn \<Rightarrow> bytes \<Rightarrow> crypto_error + bytes \<times> CryptoConn" where
  "DecryptInPlace pr cc b =
     (if b = [] then Inr ([], cc)
      else
        (case cc_decStream cc of
           None \<Rightarrow> Inl ErrUserAuthFailed
         | Some st \<Rightarrow> (let (plain, st') = XORKeyStream pr st b in Inr (plain, cc\<lparr>cc_decStream := Some st'\<rparr>))))"

definition SetDerivedSendNonceFromTimestamp :: "primitives \<Rightarrow> CryptoConn \<Rightarrow> bytes \<Rightarrow> crypto_error + CryptoConn" where
  "SetDerivedSendNonceFromTimestamp pr cc timestampPayload =
     (if cc_encStream cc \<noteq> None then Inr cc
      else if cc_authSecret cc = [] then Inl ErrUserAuthFailed
      else
        (case derivedServerNonce (cc_peerNonce cc) timestampPayload of
           Inl e \<Rightarrow> Inl e
         | Inr nonce \<Rightarrow>
             (case newXChaCha20Stream pr (cc_authSecret cc) nonce of
                None \<Rightarrow> Inl ErrCipher
              | Some st \<Rightarrow> Inr (cc\<lparr>cc_encStream := Some st, cc_localNonce := nonce\<rparr>))))"

definition SetDerivedReceiveNonceFromTimestamp :: "primitives \<Rightarrow> CryptoConn \<Rightarrow> bytes \<Rightarrow> crypto_error + CryptoConn" where
  "SetDerivedReceiveNonceFromTimestamp pr cc timestampPayload =
     (if cc_recvNonce cc then Inr cc
      else if cc_authSecret cc = [] then Inl ErrUserAuthFailed
      else
        (case derivedServerNonce (cc_localNonce cc) timestampPayload of
           Inl e \<Rightarrow> Inl e
         | Inr nonce \<Rightarrow>
             (case newXChaCha20Stream pr (cc_authSecret cc) nonce of
                None \<Rightarrow> Inl ErrCipher
              | Some st \<Rightarrow> Inr (cc\<lparr>cc_peerNonce := nonce, cc_decStream := Some st, cc_recvNonce := True\<rparr>))))"

definition EncryptForWrite :: "primitives \<Rightarrow> CryptoConn \<Rightarrow> bytes \<Rightarrow> crypto_error + bytes \<times> CryptoConn" where
  "EncryptForWrite pr cc b =
     (case cc_encStream cc of
        None \<Rightarrow> Inl ErrNoKey
      | Some st \<Rightarrow> (let (encrypted, st') = XORKeyStream pr st b in Inr (encrypted, cc\<lparr>cc_encStream := Some st'\<rparr>)))"

definition TakeSendNonce :: "CryptoConn \<Rightarrow> bytes \<times> CryptoConn" where
  "TakeSendNonce cc = (cc_sendNonce cc, cc\<lparr>cc_sendNonce := []\<rparr>)"

definition PendingSendNonceLen :: "CryptoConn \<Rightarrow> nat" where
  "PendingSendNonceLen cc = length (cc_sendNonce cc)"

text \<open>The direct writes: each record is a plain prefix and an encrypted payload; the first one carries the nonce.\<close>

fun encrypt_records :: "primitives \<Rightarrow> cstream \<Rightarrow> bytes list \<Rightarrow> bytes list \<times> cstream" where
  "encrypt_records pr st [] = ([], st)"
| "encrypt_records pr st (b # bs) =
     (let (c, st1) = XORKeyStream pr st b; (cs, st2) = encrypt_records pr st1 bs in (c # cs, st2))"

definition writeEncryptedRecords :: "primitives \<Rightarrow> CryptoConn \<Rightarrow> bytes list \<Rightarrow> bytes list \<Rightarrow> crypto_error + bytes \<times> CryptoConn" where
  "writeEncryptedRecords pr cc pres payloads =
     (if length pres \<noteq> length payloads then Inl ErrCount
      else
        (case cc_encStream cc of
           None \<Rightarrow> Inl ErrNoKey
         | Some st \<Rightarrow>
             (let (cs, st') = encrypt_records pr st payloads;
                  cc1 = cc\<lparr>cc_encStream := Some st'\<rparr>
              in case zip pres cs of
                   [] \<Rightarrow> Inr ([], cc1)
                 | (p, c) # rest \<Rightarrow> Inr (p @ cc_sendNonce cc @ c @ concat (map (\<lambda>(p, c). p @ c) rest), cc1\<lparr>cc_sendNonce := []\<rparr>))))"

definition crypto_Write :: "primitives \<Rightarrow> CryptoConn \<Rightarrow> bytes \<Rightarrow> crypto_error + bytes \<times> CryptoConn" where
  "crypto_Write pr cc b = writeEncryptedRecords pr cc [[]] [b]"

section \<open>Stream lemmas\<close>

lemma XOR_length [simp]: "length (fst (XORKeyStream pr st b)) = length b"
  by (simp add: XORKeyStream_def)

lemma XOR_state: "snd (XORKeyStream pr st b) = st\<lparr>st_pos := st_pos st + length b\<rparr>"
  by (simp add: XORKeyStream_def)

lemma XOR_involution: "XORKeyStream pr st (fst (XORKeyStream pr st b)) = (b, snd (XORKeyStream pr st b))"
  by (auto simp: XORKeyStream_def xor.assoc intro!: nth_equalityI)

lemma XOR_append:
  "XORKeyStream pr st (a @ b) =
    (fst (XORKeyStream pr st a) @ fst (XORKeyStream pr (snd (XORKeyStream pr st a)) b),
     snd (XORKeyStream pr (snd (XORKeyStream pr st a)) b))"
  by (auto simp: XORKeyStream_def nth_append add.assoc intro!: nth_equalityI)

lemma XOR_Nil [simp]: "XORKeyStream pr st [] = ([], st)"
  by (simp add: XORKeyStream_def)

text \<open>
  Once the nonce is there, a full read is independent of the sizes of the reads: it takes the next bytes of the input and
  decrypts them with the next bytes of the key stream.
\<close>

lemma ReadEncrypted_stream:
  assumes "cc_recvNonce cc" and "cc_decStream cc = Some st" and "inp \<noteq> []" and "m = min (max 1 (min got n)) (length inp)"
  shows "ReadEncrypted pr add cc cache inp n got =
    (Inr (fst (XORKeyStream pr st (take m inp)), take m inp),
     cc\<lparr>cc_decStream := Some (snd (XORKeyStream pr st (take m inp)))\<rparr>, cache, drop m inp)"
  using assms(1-3) unfolding assms(4) by (simp add: ReadEncrypted_def Let_def split_beta)

lemma readEncryptedFull_stream:
  assumes "cc_recvNonce cc" and "cc_decStream cc = Some st" and "n \<le> length inp"
  shows "readEncryptedFull pr add sched cc cache inp n =
    (Inr (fst (XORKeyStream pr st (take n inp)), take n inp),
     cc\<lparr>cc_decStream := Some (snd (XORKeyStream pr st (take n inp)))\<rparr>, cache, drop n inp)"
  using assms
proof (induction pr add sched cc cache inp n arbitrary: st rule: readEncryptedFull.induct)
  case (1 pr add sched cc cache inp n)
  show ?case
  proof (cases "n = 0")
    case True
    then show ?thesis using "1.prems"(2) by (simp add: readEncryptedFull.simps)
  next
    case False
    define m where "m = min (max 1 (min (sched n) n)) (length inp)"
    have m: "0 < m" "m \<le> n" "m \<le> length inp" using False "1.prems"(3) by (auto simp: m_def)
    define st1 where "st1 = snd (XORKeyStream pr st (take m inp))"
    define cc1 where "cc1 = cc\<lparr>cc_decStream := Some st1\<rparr>"
    have r: "ReadEncrypted pr add cc cache inp n (sched n) =
        (Inr (fst (XORKeyStream pr st (take m inp)), take m inp), cc1, cache, drop m inp)"
      unfolding cc1_def st1_def by (rule ReadEncrypted_stream [OF "1.prems"(1,2) _ m_def]) (use m in auto)
    have lm: "length (fst (XORKeyStream pr st (take m inp))) = m" using m by simp
    then have ne: "fst (XORKeyStream pr st (take m inp)) \<noteq> []" using m(1) by (metis less_numeral_extra(3) list.size(3))
    have ih: "readEncryptedFull pr add sched cc1 cache (drop m inp) (n - m) =
        (Inr (fst (XORKeyStream pr st1 (take (n - m) (drop m inp))), take (n - m) (drop m inp)),
         cc1\<lparr>cc_decStream := Some (snd (XORKeyStream pr st1 (take (n - m) (drop m inp))))\<rparr>, cache, drop (n - m) (drop m inp))"
      using "1.IH" [OF False r [symmetric] refl refl refl refl ne, of st1] "1.prems" m unfolding lm by (simp add: cc1_def)
    have t: "take n inp = take m inp @ take (n - m) (drop m inp)" using m take_add [of m "n - m" inp] by simp
    have "readEncryptedFull pr add sched cc cache inp n =
        (Inr (fst (XORKeyStream pr st (take m inp)) @ fst (XORKeyStream pr st1 (take (n - m) (drop m inp))), take n inp),
         cc1\<lparr>cc_decStream := Some (snd (XORKeyStream pr st1 (take (n - m) (drop m inp))))\<rparr>, cache, drop n inp)"
      by (subst readEncryptedFull.simps) (use False m in \<open>simp add: r ne ih t lm del: XOR_length\<close>)
    then show ?thesis unfolding t XOR_append st1_def cc1_def by simp
  qed
qed

lemma readEncryptedFull_eof:
  assumes "cc_recvNonce cc" and "cc_decStream cc = Some st" and "length inp < n"
  shows "\<exists>r. readEncryptedFull pr add sched cc cache inp n = (Inl ErrEOF, r)"
  using assms
proof (induction pr add sched cc cache inp n arbitrary: st rule: readEncryptedFull.induct)
  case (1 pr add sched cc cache inp n)
  show ?case
  proof (cases "inp = []")
    case True
    then show ?thesis using "1.prems" by (subst readEncryptedFull.simps) (simp add: ReadEncrypted_def)
  next
    case False
    define m where "m = min (max 1 (min (sched n) n)) (length inp)"
    have m: "0 < m" "m \<le> length inp" using False by (auto simp: m_def Suc_leI)
    have n0: "n \<noteq> 0" using "1.prems"(3) by simp
    define st1 where "st1 = snd (XORKeyStream pr st (take m inp))"
    define cc1 where "cc1 = cc\<lparr>cc_decStream := Some st1\<rparr>"
    have r: "ReadEncrypted pr add cc cache inp n (sched n) =
        (Inr (fst (XORKeyStream pr st (take m inp)), take m inp), cc1, cache, drop m inp)"
      unfolding cc1_def st1_def by (rule ReadEncrypted_stream [OF "1.prems"(1,2) False m_def])
    have lm: "length (fst (XORKeyStream pr st (take m inp))) = m" using m by simp
    then have ne: "fst (XORKeyStream pr st (take m inp)) \<noteq> []" using m(1) by (metis less_numeral_extra(3) list.size(3))
    have "length (drop m inp) < n - m" using "1.prems"(3) m by simp
    then obtain a b c where "readEncryptedFull pr add sched cc1 cache (drop m inp) (n - m) = (Inl ErrEOF, a, b, c)"
      using "1.IH" [OF n0 r [symmetric] refl refl refl refl ne, of st1] "1.prems" m unfolding lm by (auto simp: cc1_def)
    then show ?thesis by (subst readEncryptedFull.simps) (use n0 in \<open>simp add: r ne lm del: XOR_length\<close>)
  qed
qed

section \<open>Users and derived nonces\<close>

lemma matchNonceUser_hit:
  assumes "primitives_ok pr" and "user \<in> set users"
    and "nonce = makeClientNonce pr rnd (uc_Name user) (BuildUserSecret epochPrefix (bytes_of_string (uc_Password user)))"
    and "\<forall>u \<in> set (takeWhile (\<lambda>u. u \<noteq> user) users).
      nonceUserAuthTag pr (uc_Name u) (BuildUserSecret epochPrefix (bytes_of_string (uc_Password u))) (take 16 nonce) \<noteq> drop 16 nonce"
  shows "matchNonceUser pr users epochPrefix nonce = Some (user, BuildUserSecret epochPrefix (bytes_of_string (uc_Password user)))"
proof -
  have l: "length (nonceUserAuthTag pr nm s p) = 8" for nm s p
    using assms(1) by (simp add: nonceUserAuthTag_def Let_def primitives_ok_def UserNonceAuthTagLen_def NonceSize_def ClientNonceRandomLen_def)
  have n: "take 16 nonce = map rnd [0..<16]" "length nonce = 24"
    "drop 16 nonce = nonceUserAuthTag pr (uc_Name user) (BuildUserSecret epochPrefix (bytes_of_string (uc_Password user))) (take 16 nonce)"
    by (simp_all add: assms(3) makeClientNonce_def Let_def ClientNonceRandomLen_def l)
  show ?thesis
    using assms(2,4)
  proof (induction users)
    case (Cons u us)
    then show ?case
      using n by (cases "u = user") (auto simp: ClientNonceRandomLen_def UserNonceAuthTagLen_def NonceSize_def Let_def l)
  qed simp
qed

lemma length_makeClientNonce:
  "primitives_ok pr \<Longrightarrow> length (makeClientNonce pr rnd name secret) = NonceSize"
  by (simp add: makeClientNonce_def nonceUserAuthTag_def Let_def primitives_ok_def UserNonceAuthTagLen_def NonceSize_def ClientNonceRandomLen_def)

lemma newXChaCha20Stream_ok:
  "primitives_ok pr \<Longrightarrow> length nonce = NonceSize \<Longrightarrow>
    newXChaCha20Stream pr key nonce = Some \<lparr>st_key = DeriveKey pr key KeySize, st_nonce = nonce, st_pos = 0\<rparr>"
  by (simp add: newXChaCha20Stream_def DeriveKey_def primitives_ok_def KeySize_def Let_def)

lemma derivedServerNonce_length:
  "derivedServerNonce nonce ts = Inr r \<Longrightarrow> length r = NonceSize"
  by (auto simp: derivedServerNonce_def Let_def NonceSize_def TimestampSize_def split: if_splits)

text \<open>The reply nonce differs from the nonce it is derived from exactly when the time stamp is not zero.\<close>

lemma derivedServerNonce_fresh:
  assumes "derivedServerNonce nonce ts = Inr r"
  shows "r = nonce \<longleftrightarrow> get64 (drop ClientIDSize ts) = 0"
proof -
  have l: "length nonce = 24" "length ts = 16" and r: "r = take 16 nonce @ map (\<lambda>i. nonce ! (16 + i) XOR drop 8 ts ! i) [0..<8]"
    using assms by (auto simp: derivedServerNonce_def Let_def NonceSize_def TimestampSize_def TimestampPayloadSize_def ClientIDSize_def split: if_splits)
  have "r = nonce \<longleftrightarrow> r = take 16 nonce @ drop 16 nonce" unfolding append_take_drop_id ..
  also have "\<dots> \<longleftrightarrow> map (\<lambda>i. nonce ! (16 + i) XOR drop 8 ts ! i) [0..<8] = drop 16 nonce"
    unfolding r by (simp only: same_append_eq)
  also have "\<dots> \<longleftrightarrow> (\<forall>i < 8. nonce ! (16 + i) XOR drop 8 ts ! i = nonce ! (16 + i))"
    using l by (auto simp: list_eq_iff_nth_eq)
  also have "\<dots> \<longleftrightarrow> (\<forall>i < 8. drop 8 ts ! i = 0)"
  proof -
    have "y = 0" if "x XOR y = x" for x y :: byte
    proof -
      have "x XOR (x XOR y) = x XOR x" using that by simp
      then show "y = 0" unfolding xor.assoc [symmetric] by simp
    qed
    then show ?thesis by auto
  qed
  also have "\<dots> \<longleftrightarrow> drop 8 ts = replicate 8 0" using l by (auto simp: list_eq_iff_nth_eq)
  also have "\<dots> \<longleftrightarrow> get64 (drop 8 ts) = 0"
  proof
    assume "get64 (drop 8 ts) = 0"
    then have "put64 0 = drop 8 ts" using put_get(3) [of "drop 8 ts"] l by simp
    then show "drop 8 ts = replicate 8 0" by (simp add: put64_def eval_nat_numeral)
  next
    assume "drop 8 ts = replicate 8 0"
    moreover have "get64 (replicate 8 0) = 0" by code_simp
    ultimately show "get64 (drop 8 ts) = 0" by simp
  qed
  finally show ?thesis by (simp add: ClientIDSize_def)
qed

section \<open>The interface of the replay cache\<close>

text \<open>
  The connection asks the cache to add a nonce and is told whether it was absent.  The laws: the answer is whether the
  nonce was not yet seen, and afterwards exactly it is seen in addition.
\<close>

locale nonce_cache =
  fixes add :: "'c \<Rightarrow> bytes \<Rightarrow> bool \<times> 'c" and seen :: "'c \<Rightarrow> bytes \<Rightarrow> bool"
  assumes add_answer: "fst (add c n) \<longleftrightarrow> \<not> seen c n"
    and add_seen: "seen (snd (add c n)) m \<longleftrightarrow> m = n \<or> seen c m"
begin

text \<open>A server connection never accepts a nonce that was seen, and afterwards every accepted nonce is seen.\<close>

lemma accepted_fresh:
  assumes "receive_nonce pr (Some add) cc cache nonce = (None, cc', cache')" and "cc_users cc \<noteq> []"
  shows "\<not> seen cache nonce" and "seen cache' nonce"
proof -
  obtain fresh c where a: "add cache nonce = (fresh, c)" by fastforce
  have "fresh \<and> cache' = c"
    using assms by (auto simp: receive_nonce_def a Let_def split: option.splits prod.splits sum.splits if_splits)
  then show "\<not> seen cache nonce" "seen cache' nonce" using add_answer [of cache nonce] add_seen [of cache nonce nonce] a by auto
qed

lemma seen_rejected:
  assumes "seen cache nonce" and "cc_users cc \<noteq> []"
  shows "fst (receive_nonce pr (Some add) cc cache nonce) = Some ErrUserAuthFailed"
proof -
  obtain c where "add cache nonce = (False, c)" using add_answer [of cache nonce] assms(1) by (cases "add cache nonce") auto
  then show ?thesis using assms(2) by (auto simp: receive_nonce_def Let_def split: option.splits)
qed

end

text \<open>\<^verbatim>\<open>nonceReplayCache\<close> of the server: two generations of nonces.\<close>

record nonceReplayCache =
  nc_active :: "bytes set"
  nc_previous :: "bytes set"

definition newNonceReplayCache :: nonceReplayCache where
  "newNonceReplayCache = \<lparr>nc_active = {}, nc_previous = {}\<rparr>"

definition AddIfAbsent :: "nonceReplayCache \<Rightarrow> bytes \<Rightarrow> bool \<times> nonceReplayCache" where
  "AddIfAbsent c nonce =
     (if nonce \<in> nc_active c then (False, c)
      else if nonce \<in> nc_previous c then (False, c)
      else (True, c\<lparr>nc_active := insert nonce (nc_active c)\<rparr>))"

definition Rotate :: "nonceReplayCache \<Rightarrow> nonceReplayCache" where
  "Rotate c = \<lparr>nc_active = {}, nc_previous = nc_active c\<rparr>"

definition nonce_seen :: "nonceReplayCache \<Rightarrow> bytes \<Rightarrow> bool" where
  "nonce_seen c n \<longleftrightarrow> n \<in> nc_active c \<or> n \<in> nc_previous c"

interpretation replay: nonce_cache AddIfAbsent nonce_seen
  by unfold_locales (auto simp: AddIfAbsent_def nonce_seen_def)

end
