(* ===== verification/Replay.thy ===== *)
theory Replay
  imports CryptoConn MuxDispatch
begin

text \<open>
  The protection against replayed first packets: a server accepts one when its nonce is new for the replay cache and its
  time stamp is within five minutes of the clock, and the cache drops a nonce at the second rotation after it was added.
  The events of a server, in the order in which they happen, are the ticks that rotate the cache
  (\<^verbatim>\<open>nonceCacheRotateLoop\<close> of \<^verbatim>\<open>cmd/server/main.go\<close>) and the first packets that arrive; a first packet
  stands here for its nonce, which a replay repeats together with the payload that it protects.
\<close>

datatype server_event = Tick time | Hello bytes bytes time

fun event_time :: "server_event \<Rightarrow> time" where
  "event_time (Tick t) = t"
| "event_time (Hello n p t) = t"

text \<open>The nonce is added when it is read; the time stamp is checked when its packet has been read.\<close>

definition hello_accepted :: "nonceReplayCache \<Rightarrow> bytes \<Rightarrow> bytes \<Rightarrow> time \<Rightarrow> bool \<times> nonceReplayCache" where
  "hello_accepted c nonce payload t =
     (let (fresh, c') = AddIfAbsent c nonce in (fresh \<and> validateTimestamp payload t, c'))"

fun cache_after :: "nonceReplayCache \<Rightarrow> server_event list \<Rightarrow> nonceReplayCache" where
  "cache_after c [] = c"
| "cache_after c (Tick t # es) = cache_after (Rotate c) es"
| "cache_after c (Hello n p t # es) = cache_after (snd (hello_accepted c n p t)) es"

fun tick_times :: "server_event list \<Rightarrow> time list" where
  "tick_times [] = []"
| "tick_times (Tick t # es) = t # tick_times es"
| "tick_times (Hello n p t # es) = tick_times es"

lemma hello_cache: "snd (hello_accepted c n p t) = snd (AddIfAbsent c n)"
  by (simp add: hello_accepted_def split_beta)

text \<open>A nonce stays seen until the second tick.\<close>

lemma seen_until:
  "n \<in> nc_active c \<and> length (tick_times es) \<le> 1 \<or> n \<in> nc_previous c \<and> tick_times es = [] \<Longrightarrow> nonce_seen (cache_after c es) n"
proof (induction c es rule: cache_after.induct)
  case (2 c t es)
  then show ?case by (auto simp: Rotate_def)
next
  case (3 c m p t es)
  have "nc_active c \<subseteq> nc_active (snd (hello_accepted c m p t))" "nc_previous (snd (hello_accepted c m p t)) = nc_previous c"
    by (auto simp: hello_cache AddIfAbsent_def)
  with 3 show ?case by auto
qed (auto simp: nonce_seen_def)

lemma tick_times_set: "t \<in> set (tick_times es) \<Longrightarrow> \<exists>e \<in> set es. event_time e = t"
  by (induction es rule: tick_times.induct) auto

lemma two_ticks:
  assumes "2 \<le> length (tick_times mid)" and "sorted_wrt (\<lambda>a b. a + d \<le> b) (tick_times mid)"
    and "\<forall>e \<in> set mid. t1 \<le> event_time e \<and> event_time e \<le> t2"
  shows "t1 + d \<le> t2"
proof -
  obtain a b ts where ts: "tick_times mid = a # b # ts"
    using assms(1) by (cases "tick_times mid"; cases "tl (tick_times mid)") auto
  then have "t1 \<le> a" "b \<le> t2" using tick_times_set [of a mid] tick_times_set [of b mid] assms(3) by auto
  moreover have "a + d \<le> b" using assms(2) ts by simp
  ultimately show ?thesis by simp
qed

text \<open>
  C27. A first packet that has been accepted is not accepted again if its time stamp is strictly before the server's clock
  at the first time, in milliseconds: with ticks at least five minutes apart, the cache keeps the nonce at least until the time stamp has expired,
  whatever other first packets arrive in between.
\<close>

theorem replay_rejected:
  assumes "fst (hello_accepted c nonce payload t1)"
    and "c' = cache_after (snd (hello_accepted c nonce payload t1)) mid"
    and "\<forall>e \<in> set mid. t1 \<le> event_time e \<and> event_time e \<le> t2" and "t1 \<le> t2"
    and "sorted_wrt (\<lambda>a b. a + MaxTimeDrift \<le> b) (tick_times mid)"
    and "sint (get64 (drop ClientIDSize payload)) < UnixMilli t1"
  shows "\<not> fst (hello_accepted c' nonce payload t2)"
proof
  assume acc: "fst (hello_accepted c' nonce payload t2)"
  have "nonce \<in> nc_active (snd (hello_accepted c nonce payload t1))"
    using assms(1) by (auto simp: hello_accepted_def AddIfAbsent_def split: if_splits)
  moreover have "\<not> nonce_seen c' nonce" using acc replay.add_answer [of c' nonce] by (auto simp: hello_accepted_def split_beta)
  ultimately have "2 \<le> length (tick_times mid)" using seen_until [of nonce _ mid] assms(2) by fastforce
  then have "t1 + MaxTimeDrift \<le> t2" by (rule two_ticks [OF _ assms(5,3)])
  then have "UnixMilli t1 + 300000 \<le> UnixMilli t2"
    by (simp add: UnixMilli_def UnixNano_def MaxTimeDrift_def seconds_def ReplayWindowSeconds_def)
  moreover have "UnixMilli t2 - 300000 \<le> sint (get64 (drop ClientIDSize payload))"
    using acc by (auto simp: hello_accepted_def split_beta validateTimestamp_def Let_def MaxTimeDrift_def seconds_def ReplayWindowSeconds_def split: if_splits)
  ultimately show False using assms(6) by simp
qed

definition sample_time :: time where "sample_time = seconds (62135596800 + 1700000000)"

definition sample_stamp :: "int \<Rightarrow> bytes" where
  "sample_stamp ms = replicate 8 0 @ put64 (word_of_int ms)"

lemma sample_stamp_time:
  "sint (get64 (drop ClientIDSize (sample_stamp 1699999999000))) = 1699999999000"
  "sint (get64 (drop ClientIDSize (sample_stamp 1700000060000))) = 1700000060000"
  by (simp_all add: sample_stamp_def ClientIDSize_def)

lemma sample_stamp_length: "length (sample_stamp ms) = TimestampPayloadSize"
  by (simp add: sample_stamp_def TimestampPayloadSize_def ClientIDSize_def TimestampSize_def)

lemmas stamp_eval = hello_accepted_def AddIfAbsent_def validateTimestamp_def sample_stamp_length sample_stamp_time UnixMilli_def
  UnixNano_def sample_time_def seconds_def MaxTimeDrift_def ReplayWindowSeconds_def newNonceReplayCache_def Rotate_def

theorem replay_rejected_witness:
  "\<not> fst (hello_accepted
     (cache_after (snd (hello_accepted newNonceReplayCache [7] (sample_stamp 1699999999000) sample_time)) [Tick (sample_time + seconds 1)])
     [7] (sample_stamp 1699999999000) (sample_time + seconds 200))"
  by (rule replay_rejected [of _ _ _ sample_time _ "[Tick (sample_time + seconds 1)]", OF _ refl])
    (simp_all add: stamp_eval)

text \<open>The second tick drops a nonce that has not been added again.\<close>

lemma forgotten:
  "\<forall>n p t. Hello n p t \<in> set es \<longrightarrow> n \<noteq> nonce \<Longrightarrow>
    2 \<le> length (tick_times es) \<or> 1 \<le> length (tick_times es) \<and> nonce \<notin> nc_active c \<or> nonce \<notin> nc_active c \<and> nonce \<notin> nc_previous c \<Longrightarrow>
    \<not> nonce_seen (cache_after c es) nonce"
proof (induction c es rule: cache_after.induct)
  case (2 c t es)
  have "\<not> nonce_seen (cache_after (Rotate c) es) nonce"
    by (rule "2.IH") (use "2.prems" in \<open>auto simp: Rotate_def\<close>)
  then show ?case by simp
next
  case (3 c m p t es)
  have "m \<noteq> nonce" using "3.prems"(1) by auto
  then have "nonce \<in> nc_active (snd (hello_accepted c m p t)) \<longleftrightarrow> nonce \<in> nc_active c"
    "nc_previous (snd (hello_accepted c m p t)) = nc_previous c" by (auto simp: hello_cache AddIfAbsent_def)
  then have "\<not> nonce_seen (cache_after (snd (hello_accepted c m p t)) es) nonce"
    by (intro "3.IH") (use "3.prems" in auto)
  then show ?case by simp
qed (auto simp: nonce_seen_def)

text \<open>
  C28. The cache forgets too early for a client whose clock is ahead.  Let a first packet be accepted, with a time stamp that
  is not before the next tick of the cache.  After that tick and the one five minutes later, whatever other first
  packets arrive, the same packet is accepted again at every time until its time stamp expires, and it has not expired at
  the second tick.
\<close>

theorem replay_of_early_clock_accepted:
  assumes "fst (hello_accepted c nonce payload t1)"
    and "c' = cache_after (snd (hello_accepted c nonce payload t1)) mid"
    and "tick_times mid = [tick, tick + MaxTimeDrift]" and "t1 \<le> tick"
    and "\<forall>n p t. Hello n p t \<in> set mid \<longrightarrow> n \<noteq> nonce"
    and "stamp = sint (get64 (drop ClientIDSize payload))" and "UnixMilli tick \<le> stamp"
    and "tick + MaxTimeDrift \<le> t2" and "UnixMilli t2 \<le> stamp + 300000"
  shows "fst (hello_accepted c' nonce payload t2) \<and> UnixMilli (tick + MaxTimeDrift) \<le> stamp + 300000"
proof -
  have v: "length payload = TimestampPayloadSize" "stamp \<le> UnixMilli t1 + 300000"
    using assms(1,6)
    by (auto simp: hello_accepted_def split_beta validateTimestamp_def Let_def MaxTimeDrift_def seconds_def ReplayWindowSeconds_def split: if_splits)
  have "t1 \<le> t2" using assms(4,8) by (simp add: MaxTimeDrift_def seconds_def ReplayWindowSeconds_def)
  then have "UnixMilli t1 \<le> UnixMilli t2" by (simp add: UnixMilli_def UnixNano_def zdiv_mono1)
  then have "validateTimestamp payload t2"
    using v assms(6,9) by (auto simp: validateTimestamp_def Let_def MaxTimeDrift_def seconds_def ReplayWindowSeconds_def)
  moreover have "\<not> nonce_seen c' nonce" unfolding assms(2) by (rule forgotten [OF assms(5)]) (simp add: assms(3))
  then have "fst (AddIfAbsent c' nonce)" using replay.add_answer by blast
  moreover have "UnixMilli (tick + MaxTimeDrift) \<le> stamp + 300000"
    using assms(7) by (simp add: UnixMilli_def UnixNano_def MaxTimeDrift_def seconds_def ReplayWindowSeconds_def)
  ultimately show ?thesis by (simp add: hello_accepted_def split_beta)
qed

theorem replay_of_early_clock_accepted_witness:
  "let (ok1, c1) = hello_accepted newNonceReplayCache [7] (sample_stamp 1700000060000) sample_time;
       c2 = cache_after c1 [Tick (sample_time + seconds 1), Tick (sample_time + seconds 301)]
   in ok1 \<and> fst (hello_accepted c2 [7] (sample_stamp 1700000060000) (sample_time + seconds 330))"
proof -
  let ?h = "hello_accepted newNonceReplayCache [7] (sample_stamp 1700000060000) sample_time"
  let ?mid = "[Tick (sample_time + seconds 1), Tick (sample_time + seconds 301)]"
  have ok: "fst ?h" by (simp add: stamp_eval)
  have t: "tick_times ?mid = [sample_time + seconds 1, sample_time + seconds 1 + MaxTimeDrift]"
    by (simp add: seconds_def MaxTimeDrift_def ReplayWindowSeconds_def)
  have "fst (hello_accepted (cache_after (snd ?h) ?mid) [7] (sample_stamp 1700000060000) (sample_time + seconds 330))"
    using replay_of_early_clock_accepted [OF ok refl t, of 1700000060000 "sample_time + seconds 330"] by (simp add: stamp_eval)
  with ok show ?thesis by (simp add: split_beta)
qed

end
