(* ===== verification/PacketCodec.thy ===== *)
theory PacketCodec
  imports CryptoConn MuxDispatch
begin

text \<open>
  The packets on the wire: \<^verbatim>\<open>pkg/mux/packet_codec.go\<close>, \<^verbatim>\<open>padding.go\<close>, \<^verbatim>\<open>auth.go\<close>, the sending half of
  \<^verbatim>\<open>send_packet.go\<close> and the reading half of \<^verbatim>\<open>read_loop.go\<close>, up to the point where a packet that was
  read and checked is dispatched.  A packet is a plain obfuscation header, the encrypted header and payload, a plain
  padding and a MAC; large paddings contain a chain of fake headers.

  Random bytes come from one source \<open>ce_rnd\<close> and a position in it, which the functions pass on.  The floating-point
  choice of a header group and index is the parameter \<open>ce_pick\<close> on the random numbers that the source draws for it.
  The state is the part of \<^verbatim>\<open>MuxConn\<close> that these functions use.
\<close>

section \<open>Random draws\<close>

record codec_env =
  ce_pr :: primitives
  ce_rnd :: "nat \<Rightarrow> byte"
  ce_pick :: "Pool \<Rightarrow> nat \<Rightarrow> u32 \<Rightarrow> u32 \<Rightarrow> bool \<times> nat"

definition rand_Read :: "codec_env \<Rightarrow> nat \<Rightarrow> nat \<Rightarrow> bytes" where
  "rand_Read ce pos n = map (\<lambda>i. ce_rnd ce (pos + i)) [0..<n]"

definition randomUint16Range :: "codec_env \<Rightarrow> nat \<Rightarrow> nat \<Rightarrow> nat \<Rightarrow> u16 \<times> nat" where
  "randomUint16Range ce minInclusive maxExclusive pos =
     (if maxExclusive \<le> minInclusive then (word_of_nat minInclusive, pos)
      else
        (let span = maxExclusive - minInclusive
         in (word_of_nat (minInclusive + unat (get32 (rand_Read ce pos 4)) mod span), pos + 4)))"

definition randomLogUniformExclusive :: "codec_env \<Rightarrow> u32 \<Rightarrow> int \<Rightarrow> int \<Rightarrow> int" where
  "randomLogUniformExclusive ce u minInclusive maxExclusive =
     (if maxExclusive \<le> minInclusive then minInclusive
      else
        (let v = pr_expo (ce_pr ce) u minInclusive maxExclusive
         in if v < minInclusive then minInclusive else if maxExclusive \<le> v then maxExclusive - 1 else v))"

definition randomLogUniformInclusive :: "codec_env \<Rightarrow> u32 \<Rightarrow> int \<Rightarrow> int \<Rightarrow> int \<Rightarrow> int" where
  "randomLogUniformInclusive ce u mn mx offset =
     (if mn \<le> 0 then randomLogUniformExclusive ce u (mn + offset) (mx + 1 + offset) - offset
      else randomLogUniformExclusive ce u mn (mx + 1))"

definition randomLogUniformPaddingRange :: "codec_env \<Rightarrow> int \<Rightarrow> int \<Rightarrow> nat \<Rightarrow> u16 \<times> nat" where
  "randomLogUniformPaddingRange ce mn mx pos =
     (if mx \<le> mn then (word_of_int mn, pos)
      else (word_of_int (randomLogUniformInclusive ce (get32 (rand_Read ce pos 4)) mn mx PaddingLogOffset), pos + 4))"

text \<open>A selected header takes eight random bytes for the choice and at most six for its tail.\<close>

definition select_header :: "codec_env \<Rightarrow> Pool \<Rightarrow> nat \<Rightarrow> DataHeaderContext \<Rightarrow> nat \<Rightarrow> bytes \<times> nat" where
  "select_header ce pool payloadSize ctx pos =
     (let (large, idx) = ce_pick ce pool payloadSize (get32 (rand_Read ce pos 4)) (get32 (rand_Read ce (pos + 4) 4))
      in (SelectHeaderWithContext pool large idx (\<lambda>i. ce_rnd ce (pos + 8 + i)) ctx, pos + 8 + DataObfHeaderSize))"

section \<open>Sizes\<close>

definition packetHasPaddingSizeField :: "byte \<Rightarrow> nat \<Rightarrow> bool" where
  "packetHasPaddingSizeField channelID payloadLen \<longleftrightarrow> channelID < FirstChannelID \<or> payloadLen = 0"

definition saturatedPacketSize :: "nat \<Rightarrow> u16" where
  "saturatedPacketSize n = (if 0xffff < n then 0xffff else word_of_nat n)"

definition packetWireSize :: "nat \<Rightarrow> nat \<Rightarrow> nat \<Rightarrow> u16 \<Rightarrow> u16" where
  "packetWireSize obfHeaderLen nonceLen payloadLen paddingSize =
     saturatedPacketSize (obfHeaderLen + nonceLen + HeaderSize + payloadLen + unat paddingSize + PacketMACSize)"

definition packetObfBoundarySize :: "nat \<Rightarrow> nat \<Rightarrow> nat \<Rightarrow> u16 \<Rightarrow> u16 \<Rightarrow> u16" where
  "packetObfBoundarySize obfHeaderLen nonceLen payloadLen paddingSize paddingSplit =
     (if 0 < paddingSplit then saturatedPacketSize (obfHeaderLen + nonceLen + HeaderSize + payloadLen + unat paddingSplit)
      else packetWireSize obfHeaderLen nonceLen payloadLen paddingSize)"

section \<open>Padding\<close>

definition fakePaddingSplitValue :: "codec_env \<Rightarrow> u16 \<Rightarrow> nat \<Rightarrow> u16 \<times> nat" where
  "fakePaddingSplitValue ce paddingSize pos =
     (if unat paddingSize \<le> FakePaddingThreshold then (0, pos)
      else randomUint16Range ce FakePaddingSplitMin FakePaddingSplitMaxExclusive pos)"

definition timestampPaddingSplitValue :: "codec_env \<Rightarrow> u16 \<Rightarrow> nat \<Rightarrow> u16 \<times> nat" where
  "timestampPaddingSplitValue ce paddingSize pos =
     (let (split, pos1) = fakePaddingSplitValue ce paddingSize pos
      in if 0 < split then (split, pos1)
         else if unat paddingSize \<le> 512 \<or> FakePaddingThreshold < unat paddingSize then (0, pos1)
         else if 0xc0 \<le> rand_Read ce pos1 1 ! 0 then (0, pos1 + 1)
         else randomUint16Range ce FakePaddingSplitMin (unat paddingSize div 2 + 1) (pos1 + 1))"

text \<open>
  The two mutually recursive fillers, on the length of the part to be filled; the packet ids of the fake headers are
  counted.
\<close>

function (sequential) fillPlainPadding ::
    "codec_env \<Rightarrow> Pool option \<Rightarrow> nat \<Rightarrow> u16 \<Rightarrow> nat \<Rightarrow> u16 \<Rightarrow> bytes \<times> nat \<times> u16"
  and fillFakePaddingPacket :: "codec_env \<Rightarrow> Pool option \<Rightarrow> nat \<Rightarrow> nat \<Rightarrow> u16 \<Rightarrow> bytes \<times> nat \<times> u16" where
  "fillPlainPadding ce pool n firstSplit pos packetID =
     (if n = 0 then ([], pos, packetID)
      else if firstSplit = 0 \<and> n \<le> FakePaddingThreshold \<or> pool = None then (rand_Read ce pos n, pos + n, packetID)
      else
        (let (split0, pos1) =
               (if firstSplit = 0 then randomUint16Range ce FakePaddingSplitMin FakePaddingSplitMaxExclusive pos else (firstSplit, pos));
             split = (if n < unat split0 then n else unat split0);
             (rest, pos2, packetID') = fillFakePaddingPacket ce pool (n - split) (pos1 + split) packetID
         in (rand_Read ce pos1 split @ rest, pos2, packetID')))"
| "fillFakePaddingPacket ce pool n pos packetID =
     (if n = 0 then ([], pos, packetID)
      else if n < DataObfHeaderSize \<or> pool = None then (rand_Read ce pos n, pos + n, packetID)
      else
        (let (nextSplit, boundarySize, pos1) =
               (if FakePaddingThreshold < n
                then
                  (let (s, p) = randomUint16Range ce FakePaddingSplitMin FakePaddingSplitMaxExclusive pos
                   in (s, saturatedPacketSize (DataObfHeaderSize + unat s), p))
                else (0, saturatedPacketSize (n + PacketMACSize), pos));
             (hdr, pos2) =
               select_header ce (the pool) n \<lparr>dc_LenValue = 0, dc_WireSize = boundarySize, dc_PacketID = packetID\<rparr> pos1
         in if 0 < nextSplit
            then
              (let (body, pos3, packetID') = fillPlainPadding ce pool (n - DataObfHeaderSize) nextSplit pos2 (packetID + 1)
               in (hdr @ body, pos3, packetID'))
            else (hdr @ rand_Read ce pos2 (n - DataObfHeaderSize), pos2 + (n - DataObfHeaderSize), packetID + 1)))"
  by pat_completeness auto
termination
  by (relation "measure (\<lambda>x. case x of Inl (ce, pool, n, s, pos, i) \<Rightarrow> 2 * n + 1 | Inr (ce, pool, n, pos, i) \<Rightarrow> 2 * n)")
    (auto simp: DataObfHeaderSize_def)

declare fillPlainPadding.simps [simp del] fillFakePaddingPacket.simps [simp del]

definition calculatePadding :: "codec_env \<Rightarrow> Pool option \<Rightarrow> byte \<Rightarrow> bytes \<Rightarrow> nat \<Rightarrow> u16 \<times> nat" where
  "calculatePadding ce pool channelID payload pos =
     (if channelID < FirstChannelID \<or> length payload = 0
      then
        (let (mn, mx) = (case pool of None \<Rightarrow> (0, int MaxPaddingMax) | Some p \<Rightarrow> (uint (p_MinPadding p), uint (p_MaxPadding p)))
         in randomLogUniformPaddingRange ce mn mx pos)
      else if NoPaddingThreshold < length payload then (0, pos)
      else (PaddingForPayload pool payload, pos))"

section \<open>Checking the boundaries\<close>

text \<open>
  The walk along the fake headers, which only a debugging receiver makes.  None is the panic of a slice that leaves the
  padding.
\<close>

function validate_chain :: "Pool option \<Rightarrow> bytes \<Rightarrow> nat \<Rightarrow> nat \<Rightarrow> nat \<Rightarrow> bool option" where
  "validate_chain pool padding paddingStart fullWireSize current =
     (if current < paddingStart \<or> paddingStart + length padding < current + DataObfHeaderSize then None
      else
        (let fakeHeader = slice padding (current - paddingStart) DataObfHeaderSize
         in if \<not> ValidateHeader pool fakeHeader then Some False
            else
              (case pool of
                 None \<Rightarrow> Some True
               | Some p \<Rightarrow>
                   if \<not> p_DataHeaderHasLen p then Some True
                   else
                     (case DataHeaderBoundarySize pool fakeHeader of
                        None \<Rightarrow> Some False
                      | Some boundarySize \<Rightarrow>
                          if boundarySize = 0 then Some False
                          else
                            (let next = current + unat boundarySize
                             in if next = fullWireSize then Some True
                                else if next \<le> current \<or> fullWireSize < next then Some False
                                else validate_chain pool padding paddingStart fullWireSize next)))))"
  by pat_completeness auto
termination
  by (relation "measure (\<lambda>(pool, padding, s, full, cur). full - cur)") auto

declare validate_chain.simps [simp del]

definition validateObfBoundary :: "Pool option \<Rightarrow> bytes \<Rightarrow> nat \<Rightarrow> nat \<Rightarrow> nat \<Rightarrow> bool \<Rightarrow> bool option" where
  "validateObfBoundary pool padding paddingStart fullWireSize firstBoundary verifyFakeHeaders =
     (if firstBoundary = fullWireSize then Some True
      else
        (let paddingEnd = paddingStart + length padding
         in if firstBoundary < paddingStart \<or> paddingEnd < firstBoundary + DataObfHeaderSize then Some False
            else if \<not> verifyFakeHeaders then Some True
            else validate_chain pool padding paddingStart fullWireSize firstBoundary))"

definition validateDataObfBoundary :: "Pool option \<Rightarrow> bytes \<Rightarrow> bytes \<Rightarrow> nat \<Rightarrow> nat \<Rightarrow> bool \<Rightarrow> bool option" where
  "validateDataObfBoundary pool hdr padding paddingStart fullWireSize verifyFakeHeaders =
     (case pool of
        None \<Rightarrow> Some True
      | Some p \<Rightarrow>
          if \<not> p_DataHeaderHasLen p then Some True
          else
            (case DataHeaderBoundarySize pool hdr of
               None \<Rightarrow> Some False
             | Some boundarySize \<Rightarrow>
                 validateObfBoundary pool padding paddingStart fullWireSize (unat boundarySize) verifyFakeHeaders))"

section \<open>State\<close>

record codec =
  kd_isServer :: bool
  kd_debug :: bool
  kd_conn :: CryptoConn
  kd_sendObfPool :: "Pool option"
  kd_recvObfPool :: "Pool option"
  kd_macKey :: bytes
  kd_userName :: string
  kd_headerKey :: string
  kd_headerType :: HeaderType
  kd_obfV :: u64
  kd_obfEpoch :: u64
  kd_obfPacketID :: u16
  kd_hsInfo :: HandshakeInfo
  kd_invalidDrainLogOffset :: nat
  kd_hasSentTimestamp :: bool
  kd_hasReceivedTimestamp :: bool
  kd_HeaderClientID :: u32
  kd_IncID :: u32

definition muxMACSalt :: string where "muxMACSalt = ''mux-mac:''"

definition deriveMuxMACKey :: "primitives \<Rightarrow> bytes \<Rightarrow> bytes" where
  "deriveMuxMACKey pr key = pr_pbkdf2 pr key muxMACSalt UserPasswordDerivationIterations 32"

definition truncatedMAC :: "primitives \<Rightarrow> bytes \<Rightarrow> bytes \<Rightarrow> nat \<Rightarrow> bytes" where
  "truncatedMAC pr macKey d n = take n (pr_hmac pr macKey d)"

definition ensureAuthenticatedUser :: "primitives \<Rightarrow> codec \<Rightarrow> codec" where
  "ensureAuthenticatedUser pr kd =
     (if cc_authUser (kd_conn kd) = [] then kd
      else if cc_authSecret (kd_conn kd) = [] then kd
      else
        (let kd1 = (if kd_userName kd = [] then kd\<lparr>kd_userName := cc_authUser (kd_conn kd)\<rparr> else kd)
         in if kd_macKey kd1 = [] then kd1\<lparr>kd_macKey := deriveMuxMACKey pr (cc_authSecret (kd_conn kd))\<rparr> else kd1))"

definition ObfPoolFromUserPassword :: "primitives \<Rightarrow> codec \<Rightarrow> string \<Rightarrow> Pool option" where
  "ObfPoolFromUserPassword pr kd password =
     GeneratePoolWithKey (pr_sha256 pr) (pr_expo pr) (get64 (take 8 (pr_sha256 pr (bytes_of_string password))))
       (kd_headerType kd) (kd_headerKey kd)"

section \<open>Building and sending\<close>

record wirePacket =
  wp_obfHdr :: bytes
  wp_encrypted :: bytes
  wp_padding :: bytes
  wp_mac :: bytes

text \<open>The fields of the header in front of its MAC, and the size of that MAC.\<close>

definition header_fields :: "byte \<Rightarrow> nat \<Rightarrow> u16 \<Rightarrow> bytes" where
  "header_fields channelID payloadLen paddingSize =
     channelID # put16 (word_of_nat payloadLen) @
     (if packetHasPaddingSizeField channelID payloadLen then put16 paddingSize else [])"

definition header_mac_size :: "byte \<Rightarrow> nat \<Rightarrow> nat" where
  "header_mac_size channelID payloadLen =
     (if packetHasPaddingSizeField channelID payloadLen then PaddingHeaderMACSize else HeaderMACSize)"

definition buildPlainPacketParts ::
  "codec_env \<Rightarrow> bytes \<Rightarrow> Pool option \<Rightarrow> bytes \<Rightarrow> byte \<Rightarrow> bytes \<Rightarrow> u16 \<Rightarrow> u16 \<Rightarrow> nat \<Rightarrow> u16 \<Rightarrow> bytes \<times> bytes \<times> nat \<times> u16" where
  "buildPlainPacketParts ce macKey pool obfHdr channelID payload paddingSize firstPaddingSplit pos packetID =
     (let fs = header_fields channelID (length payload) paddingSize;
          plain = fs @ truncatedMAC (ce_pr ce) macKey (obfHdr @ fs) (header_mac_size channelID (length payload)) @ payload
      in if 0 < paddingSize
         then (let (padding, pos', packetID') = fillPlainPadding ce pool (unat paddingSize) firstPaddingSplit pos packetID
               in (plain, padding, pos', packetID'))
         else (plain, [], pos, packetID))"

text \<open>The older form without encryption, which the tests of the source use.\<close>

definition buildPacket :: "codec_env \<Rightarrow> bytes \<Rightarrow> Pool option \<Rightarrow> bytes \<Rightarrow> byte \<Rightarrow> bytes \<Rightarrow> bool \<Rightarrow> nat \<Rightarrow> u16 \<Rightarrow> bytes \<times> nat \<times> u16" where
  "buildPacket ce macKey pool obfHdr channelID payload addPadding pos packetID =
     (let (paddingSize, pos1) = (if addPadding then calculatePadding ce pool channelID payload pos else (0, pos));
          (plain, padding, pos2, packetID') = buildPlainPacketParts ce macKey pool obfHdr channelID payload paddingSize 0 pos1 packetID
      in (plain @ padding @ truncatedMAC (ce_pr ce) macKey (obfHdr @ plain @ padding) PacketMACSize, pos2, packetID'))"

definition buildWirePacketWithPadding ::
  "codec_env \<Rightarrow> codec \<Rightarrow> Pool option \<Rightarrow> bytes \<Rightarrow> byte \<Rightarrow> bytes \<Rightarrow> u16 \<Rightarrow> u16 \<Rightarrow> nat \<Rightarrow> crypto_error + wirePacket \<times> codec \<times> nat" where
  "buildWirePacketWithPadding ce kd pool obfHdr channelID payload paddingSize firstPaddingSplit pos =
     (let (plain, padding, pos', packetID') =
            buildPlainPacketParts ce (kd_macKey kd) pool obfHdr channelID payload paddingSize firstPaddingSplit pos (kd_obfPacketID kd)
      in case EncryptForWrite (ce_pr ce) (kd_conn kd) plain of
           Inl e \<Rightarrow> Inl e
         | Inr (encrypted, conn) \<Rightarrow>
             Inr (\<lparr>wp_obfHdr = obfHdr, wp_encrypted = encrypted, wp_padding = padding,
                   wp_mac = truncatedMAC (ce_pr ce) (kd_macKey kd) (obfHdr @ encrypted @ padding) PacketMACSize\<rparr>,
                  kd\<lparr>kd_conn := conn, kd_obfPacketID := packetID'\<rparr>, pos'))"

definition packet_bytes :: "wirePacket \<Rightarrow> bytes" where
  "packet_bytes p = wp_obfHdr p @ wp_encrypted p @ wp_padding p @ wp_mac p"

definition wire_data :: "bytes \<Rightarrow> wirePacket list \<Rightarrow> bytes" where
  "wire_data nonce packets =
     (case packets of
        [] \<Rightarrow> []
      | p # ps \<Rightarrow> wp_obfHdr p @ nonce @ wp_encrypted p @ wp_padding p @ wp_mac p @ concat (map packet_bytes ps))"

datatype send_error = SendNoPool | SendCrypto crypto_error | SendWrite | SendBadRequest

text \<open>The write itself succeeds or fails, which the environment decides by \<open>writeOk\<close>.\<close>

definition writeWirePackets :: "codec \<Rightarrow> wirePacket list \<Rightarrow> bool \<Rightarrow> (send_error + bytes) \<times> codec" where
  "writeWirePackets kd packets writeOk =
     (let (nonce, conn) = TakeSendNonce (kd_conn kd); kd1 = kd\<lparr>kd_conn := conn\<rparr>
      in if writeOk then (Inr (wire_data nonce packets), kd1) else (Inl SendWrite, kd1))"

definition nextObfPacketID :: "codec \<Rightarrow> u16 \<times> codec" where
  "nextObfPacketID kd = (kd_obfPacketID kd, kd\<lparr>kd_obfPacketID := kd_obfPacketID kd + 1\<rparr>)"

text \<open>A packet with a later header.\<close>

definition build_data_packet ::
  "codec_env \<Rightarrow> codec \<Rightarrow> Pool \<Rightarrow> nat \<Rightarrow> byte \<Rightarrow> bytes \<Rightarrow> u16 \<Rightarrow> u16 \<Rightarrow> nat \<Rightarrow> crypto_error + wirePacket \<times> codec \<times> nat" where
  "build_data_packet ce kd pool nonceLen channelID payload paddingSize paddingSplit pos =
     (let (pid, kd1) = nextObfPacketID kd;
          (dataHdr, pos1) = select_header ce pool (length payload)
            \<lparr>dc_LenValue = 0, dc_WireSize = packetObfBoundarySize DataObfHeaderSize nonceLen (length payload) paddingSize paddingSplit,
             dc_PacketID = pid\<rparr> pos
      in buildWirePacketWithPadding ce kd1 (Some pool) dataHdr channelID payload paddingSize paddingSplit pos1)"

text \<open>The first packet of a client, with the time stamp and the first header.\<close>

definition build_timestamp_packet ::
  "codec_env \<Rightarrow> codec \<Rightarrow> Pool \<Rightarrow> bytes \<Rightarrow> u32 \<Rightarrow> nat \<Rightarrow> crypto_error + wirePacket \<times> codec \<times> nat" where
  "build_timestamp_packet ce kd pool tsPayload utc pos =
     (let (tsPadding, pos1) = calculatePadding ce (Some pool) TimestampChannelID tsPayload pos;
          (tsPaddingSplit, pos2) = timestampPaddingSplitValue ce tsPadding pos1;
          tsBoundarySize = packetObfBoundarySize HandshakeObfPrefixSize NonceSize (length tsPayload) tsPadding tsPaddingSplit;
          tsHeaderPadding = HandshakeHeaderLenValue (Some pool) tsBoundarySize;
          (pid, kd1) = nextObfPacketID kd;
          handshakeHdr = SelectHandshakeHeaderWithContext (ce_pr ce) (\<lambda>i. ce_rnd ce (pos2 + i)) pool (kd_obfV kd1) (kd_headerKey kd1)
            \<lparr>hc_RawEpoch = kd_obfEpoch kd1, hc_TimestampPadding = tsHeaderPadding, hc_ClientID = kd_HeaderClientID kd1,
             hc_IncID = kd_IncID kd1, hc_PacketID = pid, hc_UTCSeconds = utc\<rparr>
      in buildWirePacketWithPadding ce kd1 (Some pool) handshakeHdr TimestampChannelID tsPayload tsPadding tsPaddingSplit
           (pos2 + HandshakeObfHeaderSize))"

definition store_next_pool :: "codec \<Rightarrow> Pool option \<Rightarrow> codec" where
  "store_next_pool kd nextPool =
     (case nextPool of None \<Rightarrow> kd | Some p \<Rightarrow> kd\<lparr>kd_sendObfPool := Some p, kd_recvObfPool := Some p\<rparr>)"

definition sendPacketNow ::
  "codec_env \<Rightarrow> codec \<Rightarrow> byte \<Rightarrow> bytes \<Rightarrow> Pool option \<Rightarrow> bytes \<Rightarrow> u32 \<Rightarrow> bool \<Rightarrow> nat \<Rightarrow> (send_error + bytes) \<times> codec \<times> nat" where
  "sendPacketNow ce kd channelID payload nextPool tsPayload utc writeOk pos =
     (case kd_sendObfPool kd of
        None \<Rightarrow> (Inl SendNoPool, kd, pos)
      | Some pool \<Rightarrow>
          (let (paddingSize, pos1) = calculatePadding ce (Some pool) channelID payload pos;
               (paddingSplit, pos2) = fakePaddingSplitValue ce paddingSize pos1
           in if \<not> kd_isServer kd \<and> \<not> kd_hasSentTimestamp kd
              then
                (case SetDerivedReceiveNonceFromTimestamp (ce_pr ce) (kd_conn kd) tsPayload of
                   Inl e \<Rightarrow> (Inl (SendCrypto e), kd, pos2)
                 | Inr conn \<Rightarrow>
                     (case build_timestamp_packet ce (kd\<lparr>kd_conn := conn\<rparr>) pool tsPayload utc pos2 of
                        Inl e \<Rightarrow> (Inl (SendCrypto e), kd\<lparr>kd_conn := conn\<rparr>, pos2)
                      | Inr (tsPacket, kd1, pos3) \<Rightarrow>
                          (case build_data_packet ce kd1 pool 0 channelID payload paddingSize paddingSplit pos3 of
                             Inl e \<Rightarrow> (Inl (SendCrypto e), kd1, pos3)
                           | Inr (packet, kd2, pos4) \<Rightarrow>
                               (case writeWirePackets kd2 [tsPacket, packet] writeOk of
                                  (Inl e, kd3) \<Rightarrow> (Inl e, kd3, pos4)
                                | (Inr out, kd3) \<Rightarrow> (Inr out, store_next_pool (kd3\<lparr>kd_hasSentTimestamp := True\<rparr>) nextPool, pos4)))))
              else
                (case build_data_packet ce kd pool (if kd_isServer kd then PendingSendNonceLen (kd_conn kd) else 0)
                        channelID payload paddingSize paddingSplit pos2 of
                   Inl e \<Rightarrow> (Inl (SendCrypto e), kd, pos2)
                 | Inr (packet, kd1, pos3) \<Rightarrow>
                     (case writeWirePackets kd1 [packet] writeOk of
                        (Inl e, kd2) \<Rightarrow> (Inl e, kd2, pos3)
                      | (Inr out, kd2) \<Rightarrow> (Inr out, store_next_pool kd2 nextPool, pos3)))))"

section \<open>Reading\<close>

text \<open>
  One round of the read loop up to the dispatch.  The environment gives the sizes of the reads and the time.  The outcome is
  the packet with its size on the wire, an invalid state with its reason, the end of the connection, or a panic.  The number
  of bytes that are counted as received is the number of bytes taken from the input.
\<close>

datatype read_outcome = ReadPacket byte bytes nat | ReadInvalid invalid_reason | ReadClosed | ReadPanic

record 'c read_state =
  rs_kd :: codec
  rs_cache :: 'c
  rs_pools :: pool_cache
  rs_inp :: bytes

definition readRawFull :: "bytes \<Rightarrow> nat \<Rightarrow> (bytes \<times> bytes) option" where
  "readRawFull inp n = (if length inp < n then None else Some (take n inp, drop n inp))"

text \<open>The obfuscation header: a first header is searched for, a later one is looked up.\<close>

definition check_obf_header ::
  "primitives \<Rightarrow> codec \<Rightarrow> pool_cache \<Rightarrow> bytes \<Rightarrow> time \<Rightarrow> ((Pool \<times> codec) option \<times> pool_cache) option" where
  "check_obf_header pr kd pools obfHdr now =
     (case kd_recvObfPool kd of
        Some pool \<Rightarrow> Some (if ValidateHeader (Some pool) obfHdr then Some (pool, kd) else None, pools)
      | None \<Rightarrow>
          (case FindPoolForHandshakeWithInfo pr pools (kd_headerKey kd) obfHdr (kd_headerType kd) (UnixNano now div 1000000000) of
             None \<Rightarrow> None
           | Some (None, pools') \<Rightarrow> Some (None, pools')
           | Some (Some (pool, v, info), pools') \<Rightarrow>
               Some (Some (pool,
                 kd\<lparr>kd_obfV := v, kd_hsInfo := info, kd_invalidDrainLogOffset := p_InvalidDrainLogOffset pool,
                   kd_conn := SetEpochSeed (kd_conn kd) v, kd_recvObfPool := Some pool, kd_sendObfPool := Some pool\<rparr>), pools')))"

definition valid_boundary ::
  "codec \<Rightarrow> Pool \<Rightarrow> bool \<Rightarrow> byte \<Rightarrow> bytes \<Rightarrow> bytes \<Rightarrow> nat \<Rightarrow> u16 \<Rightarrow> bool option" where
  "valid_boundary kd pool isHandshakeObf channelID obfHdr padding paddingStart wireSize =
     (if isHandshakeObf \<and> kd_isServer kd \<and> \<not> kd_hasReceivedTimestamp kd \<and> channelID = TimestampChannelID \<and>
         hi_HasTimestampPaddingLen (kd_hsInfo kd)
      then
        (case HandshakeHeaderBoundarySize (Some pool) (hi_TimestampPaddingLen (kd_hsInfo kd)) of
           None \<Rightarrow> Some False
         | Some boundarySize \<Rightarrow>
             validateObfBoundary (Some pool) padding paddingStart (unat wireSize) (unat boundarySize) (kd_debug kd))
      else if \<not> isHandshakeObf
      then validateDataObfBoundary (Some pool) obfHdr padding paddingStart (unat wireSize) (kd_debug kd)
      else Some True)"

text \<open>Payload, padding and MAC, after the header has been read and checked.\<close>

definition read_body ::
  "primitives \<Rightarrow> codec \<Rightarrow> Pool \<Rightarrow> bool \<Rightarrow> nat \<Rightarrow> bytes \<Rightarrow> bytes \<Rightarrow> byte \<Rightarrow> nat \<Rightarrow> u16 \<Rightarrow> bytes \<Rightarrow> read_outcome \<times> codec \<times> bytes" where
  "read_body pr kd pool isHandshakeObf nonceLen obfHdr encryptedHeader channelID payloadLen headerPadding inp0 =
     (case readRawFull inp0 payloadLen of
        None \<Rightarrow> (ReadClosed, kd, [])
      | Some (encryptedPayload, inp1) \<Rightarrow>
          (let early = (0 < payloadLen \<and> FirstChannelID \<le> channelID \<and> payloadLen \<le> NoPaddingThreshold)
           in case (if early then DecryptInPlace pr (kd_conn kd) encryptedPayload else Inr (encryptedPayload, kd_conn kd)) of
                Inl e \<Rightarrow> (ReadInvalid ReasonUserAuth, kd, inp1)
              | Inr (payload1, conn1) \<Rightarrow>
                  (let kd1 = kd\<lparr>kd_conn := conn1\<rparr>;
                       paddingSize = (if early then PaddingForPayload (Some pool) payload1 else headerPadding)
                   in case readRawFull inp1 (unat paddingSize) of
                        None \<Rightarrow> (ReadClosed, kd1, [])
                      | Some (padding, inp2) \<Rightarrow>
                          (case readRawFull inp2 PacketMACSize of
                             None \<Rightarrow> (ReadClosed, kd1, [])
                           | Some (packetMACBytes, inp3) \<Rightarrow>
                               if truncatedMAC pr (kd_macKey kd) (obfHdr @ encryptedHeader @ encryptedPayload @ padding) PacketMACSize \<noteq> packetMACBytes
                               then (ReadInvalid ReasonPacketMAC, kd1, inp3)
                               else
                                 (case (if 0 < length encryptedPayload \<and> \<not> early then DecryptInPlace pr conn1 encryptedPayload
                                        else Inr (payload1, conn1)) of
                                    Inl e \<Rightarrow> (ReadInvalid ReasonUserAuth, kd1, inp3)
                                  | Inr (payload2, conn2) \<Rightarrow>
                                      (let kd2 = kd1\<lparr>kd_conn := conn2\<rparr>;
                                           wireSize = packetWireSize (length obfHdr) nonceLen payloadLen paddingSize;
                                           paddingStart = length obfHdr + nonceLen + HeaderSize + payloadLen
                                       in case valid_boundary kd2 pool isHandshakeObf channelID obfHdr padding paddingStart wireSize of
                                            None \<Rightarrow> (ReadPanic, kd2, inp3)
                                          | Some False \<Rightarrow> (ReadInvalid ReasonObfHeader, kd2, inp3)
                                          | Some True \<Rightarrow> (ReadPacket channelID payload2 (unat wireSize), kd2, inp3)))))))"

text \<open>The encrypted header with the nonce, if it is still to come, and what follows.\<close>

definition read_after_obf ::
  "primitives \<Rightarrow> ('c \<Rightarrow> bytes \<Rightarrow> bool \<times> 'c) option \<Rightarrow> (nat \<Rightarrow> nat) \<Rightarrow> Pool \<Rightarrow> bool \<Rightarrow> bytes \<Rightarrow> 'c read_state \<Rightarrow> read_outcome \<times> 'c read_state" where
  "read_after_obf pr add sched pool isHandshakeObf obfHdr rs =
     (let kd = rs_kd rs; hadRecvNonce = cc_recvNonce (kd_conn kd);
          (res, conn1, cache1, inp1) = readEncryptedFull pr add sched (kd_conn kd) (rs_cache rs) (rs_inp rs) HeaderSize;
          kd1 = kd\<lparr>kd_conn := conn1\<rparr>; rs1 = rs\<lparr>rs_kd := kd1, rs_cache := cache1, rs_inp := inp1\<rparr>
      in case res of
           Inl e \<Rightarrow> (if e = ErrUserAuthFailed then ReadInvalid ReasonUserAuth else ReadClosed, rs1)
         | Inr (hdr, encryptedHeader) \<Rightarrow>
             (let kd2 = ensureAuthenticatedUser pr kd1;
                  channelID = hdr ! 0; payloadLen = unat (get16 (slice hdr 1 2));
                  hasField = packetHasPaddingSizeField channelID payloadLen;
                  headerPadding = (if hasField then get16 (slice hdr 3 2) else 0);
                  macOffset = ChannelIDSize + PacketLengthSize + (if hasField then PaddingSizeLen else 0);
                  macSize = header_mac_size channelID payloadLen;
                  nonceLen = (if \<not> hadRecvNonce \<and> cc_recvNonce conn1 then NonceSize else 0)
              in if truncatedMAC pr (kd_macKey kd2) (obfHdr @ take macOffset hdr) macSize \<noteq> slice hdr macOffset macSize
                 then (ReadInvalid ReasonHeaderMAC, rs1\<lparr>rs_kd := kd2\<rparr>)
                 else
                   (case read_body pr kd2 pool isHandshakeObf nonceLen obfHdr encryptedHeader channelID payloadLen headerPadding inp1 of
                      (out, kd3, inp2) \<Rightarrow> (out, rs1\<lparr>rs_kd := kd3, rs_inp := inp2\<rparr>))))"

definition read_packet ::
  "primitives \<Rightarrow> ('c \<Rightarrow> bytes \<Rightarrow> bool \<times> 'c) option \<Rightarrow> (nat \<Rightarrow> nat) \<Rightarrow> time \<Rightarrow> 'c read_state \<Rightarrow> (read_outcome \<times> 'c read_state) option" where
  "read_packet pr add sched now rs =
     (let kd = rs_kd rs; isHandshakeObf = (kd_recvObfPool kd = None);
          obfHdrLen = (if isHandshakeObf then HandshakeObfPrefixSize else DataObfHeaderSize)
      in case readRawFull (rs_inp rs) obfHdrLen of
           None \<Rightarrow> Some (ReadClosed, rs\<lparr>rs_inp := []\<rparr>)
         | Some (obfHdr, inp1) \<Rightarrow>
             (case check_obf_header pr kd (rs_pools rs) obfHdr now of
                None \<Rightarrow> None
              | Some (None, pools) \<Rightarrow> Some (ReadInvalid ReasonObfHeader, rs\<lparr>rs_pools := pools, rs_inp := inp1\<rparr>)
              | Some (Some (pool, kd1), pools) \<Rightarrow>
                  Some (read_after_obf pr add sched pool isHandshakeObf obfHdr (rs\<lparr>rs_kd := kd1, rs_pools := pools, rs_inp := inp1\<rparr>))))"

text \<open>Reading until the input is used up or something other than a packet is met; every round takes input.\<close>

fun read_packets ::
  "nat \<Rightarrow> primitives \<Rightarrow> ('c \<Rightarrow> bytes \<Rightarrow> bool \<times> 'c) option \<Rightarrow> (nat \<Rightarrow> nat) \<Rightarrow> time \<Rightarrow> 'c read_state \<Rightarrow>
     ((byte \<times> bytes) list \<times> 'c read_state) option" where
  "read_packets 0 pr add sched now rs = Some ([], rs)"
| "read_packets (Suc k) pr add sched now rs =
     (case read_packet pr add sched now rs of
        Some (ReadPacket channelID payload n, rs1) \<Rightarrow>
          (case read_packets k pr add sched now rs1 of
             None \<Rightarrow> None
           | Some (ps, rs2) \<Rightarrow> Some ((channelID, payload) # ps, rs2))
      | _ \<Rightarrow> None)"

end
