(* ===== verification/PacketWire.thy ===== *)
theory PacketWire
  imports PacketCodec
begin

text \<open>
  What is sent is what is read: the fake headers in the padding always pass the receiver's walk along them, a packet is
  read back with its channel and payload and leaves the two ends in step, and so is every sequence of packets.
\<close>

section \<open>Draws\<close>

lemma length_rand_Read [simp]: "length (rand_Read ce pos n) = n"
  by (simp add: rand_Read_def)

lemma randomUint16Range_bounds:
  assumes "mn < mx" and "mx \<le> 65536"
  shows "mn \<le> unat (fst (randomUint16Range ce mn mx pos))" and "unat (fst (randomUint16Range ce mn mx pos)) < mx"
proof -
  have m: "unat (get32 (rand_Read ce pos 4)) mod (mx - mn) < mx - mn" using assms(1) by simp
  then have "mn + unat (get32 (rand_Read ce pos 4)) mod (mx - mn) < 65536" using assms by linarith
  then have "unat (word_of_nat (mn + unat (get32 (rand_Read ce pos 4)) mod (mx - mn)) :: u16) =
      mn + unat (get32 (rand_Read ce pos 4)) mod (mx - mn)"
    unfolding unat_of_nat by (intro mod_less) simp
  moreover have "mn + unat (get32 (rand_Read ce pos 4)) mod (mx - mn) < mx" using m by linarith
  ultimately show "mn \<le> unat (fst (randomUint16Range ce mn mx pos))" "unat (fst (randomUint16Range ce mn mx pos)) < mx"
    using assms(1) by (simp_all add: randomUint16Range_def Let_def)
qed

lemma split_bounds:
  "256 \<le> unat (fst (randomUint16Range ce FakePaddingSplitMin FakePaddingSplitMaxExclusive pos))"
  "unat (fst (randomUint16Range ce FakePaddingSplitMin FakePaddingSplitMaxExclusive pos)) < 1280"
  using randomUint16Range_bounds [of 256 1280 ce pos] by (simp_all add: FakePaddingSplitMin_def FakePaddingSplitMaxExclusive_def)

lemma select_header_props:
  assumes "pool_ok pool" and "select_header ce pool m ctx pos = (hdr, pos')"
  shows "length hdr = 6" and "ValidateHeader (Some pool) hdr"
    and "p_DataHeaderHasLen pool \<Longrightarrow> 17 \<le> unat (dc_WireSize ctx) \<Longrightarrow> DataHeaderBoundarySize (Some pool) hdr = Some (dc_WireSize ctx)"
  using assms(2) SelectHeader_length [OF assms(1)] SelectHeader_valid [OF assms(1)] SelectHeader_boundary [OF assms(1)]
  by (auto simp: select_header_def split_beta Let_def DataObfHeaderSize_def)

section \<open>Lengths of paddings\<close>

lemma plain_length:
  assumes "\<And>m pos i. m \<le> n \<Longrightarrow> length (fst (fillFakePaddingPacket ce pool m pos i)) = m"
  shows "length (fst (fillPlainPadding ce pool n firstSplit pos packetID)) = n"
  by (subst fillPlainPadding.simps) (auto simp: Let_def split_beta assms)

lemma fake_length:
  assumes "pool_ok pool"
  shows "length (fst (fillFakePaddingPacket ce (Some pool) n pos packetID)) = n"
proof (induction n arbitrary: pos packetID rule: less_induct)
  case (less n)
  have h: "length (fst (select_header ce pool m ctx p)) = 6" for m ctx p
    using select_header_props(1) [OF assms] by (metis prod.collapse)
  have "length (fst (fillPlainPadding ce (Some pool) (n - 6) s p i)) = n - 6" if "6 \<le> n" for s p i
    by (rule plain_length) (use less.IH that in auto)
  then show ?case by (subst fillFakePaddingPacket.simps) (auto simp: Let_def split_beta h DataObfHeaderSize_def)
qed

lemma fill_length:
  "pool_ok pool \<Longrightarrow> length (fst (fillPlainPadding ce (Some pool) n firstSplit pos packetID)) = n"
  by (rule plain_length) (rule fake_length)

section \<open>The chain of fake headers\<close>

lemma saturated_small: "n < 65536 \<Longrightarrow> unat (saturatedPacketSize n) = n"
  unfolding saturatedPacketSize_def by (simp add: unat_of_nat)

text \<open>The walk of the receiver starts at the first fake header and ends at the end of the packet.\<close>

lemma chain_valid:
  assumes "pool_ok pool"
  shows "13 \<le> n \<Longrightarrow> n < 65000 \<Longrightarrow> fillFakePaddingPacket ce (Some pool) n pos packetID = (F, r) \<Longrightarrow>
    validate_chain (Some pool) (A @ F) S (S + length A + n + PacketMACSize) (S + length A) = Some True"
proof (induction n arbitrary: pos packetID F r A rule: less_induct)
  case (less n)
  define big where "big \<longleftrightarrow> FakePaddingThreshold < n"
  obtain s p where sp: "randomUint16Range ce FakePaddingSplitMin FakePaddingSplitMaxExclusive pos = (s, p)" by fastforce
  have s: "256 \<le> unat s" "unat s < 1280" using split_bounds [of ce pos] sp by simp_all
  define bs where "bs = (if big then saturatedPacketSize (DataObfHeaderSize + unat s) else saturatedPacketSize (n + PacketMACSize))"
  define ctx where "ctx = \<lparr>dc_LenValue = 0, dc_WireSize = bs, dc_PacketID = packetID\<rparr>"
  obtain hdr pos2 where h: "select_header ce pool n ctx (if big then p else pos) = (hdr, pos2)" by fastforce
  have bsv: "unat bs = (if big then 6 + unat s else n + 4)"
    using s less.prems(2) by (simp add: bs_def saturated_small DataObfHeaderSize_def PacketMACSize_def)
  then have b17: "17 \<le> unat (dc_WireSize ctx)" using s less.prems(1) by (simp add: ctx_def)
  note H = select_header_props [OF assms h]
  obtain body where F: "F = hdr @ body" and body: "big \<Longrightarrow> \<exists>r'. fillPlainPadding ce (Some pool) (n - 6) s pos2 (packetID + 1) = (body, r')"
    and lb: "length body = n - 6"
  proof (cases big)
    case True
    obtain b x y where f: "fillPlainPadding ce (Some pool) (n - 6) s pos2 (packetID + 1) = (b, x, y)" by (metis prod_cases3)
    have "0 < s" using s by (simp add: word_less_nat_alt)
    then have "F = hdr @ b"
      using less.prems(1,3) True h f unfolding fillFakePaddingPacket.simps [of ce "Some pool" n]
      by (simp add: big_def sp ctx_def bs_def DataObfHeaderSize_def split: if_splits)
    moreover have "length b = n - 6" using fill_length [OF assms, of ce "n - 6" s pos2 "packetID + 1"] f by simp
    ultimately show thesis using that f by blast
  next
    case False
    then have "F = hdr @ rand_Read ce pos2 (n - 6)"
      using less.prems(1,3) h unfolding fillFakePaddingPacket.simps [of ce "Some pool" n]
      by (simp add: big_def ctx_def bs_def DataObfHeaderSize_def split: if_splits)
    then show thesis using that False by auto
  qed
  have sl: "slice (A @ F) (S + length A - S) DataObfHeaderSize = hdr"
    using H(1) slice_append [of A hdr body] by (simp add: F DataObfHeaderSize_def)
  have inside: "\<not> (S + length A < S \<or> S + length (A @ F) < S + length A + DataObfHeaderSize)"
    using lb H(1) less.prems(1) by (simp add: F DataObfHeaderSize_def)
  show ?case
  proof (cases "p_DataHeaderHasLen pool")
    case False
    then show ?thesis by (subst validate_chain.simps) (use inside sl H(2) in \<open>simp add: Let_def\<close>)
  next
    case True
    have bd: "DataHeaderBoundarySize (Some pool) hdr = Some bs" using H(3) [OF True b17] by (simp add: ctx_def)
    have nz: "bs \<noteq> 0" using b17 by (auto simp: ctx_def)
    show ?thesis
    proof (cases big)
      case False
      then have "unat bs = n + 4" by (simp add: bsv)
      then show ?thesis by (subst validate_chain.simps) (use inside sl H(2) True bd nz in \<open>simp add: Let_def PacketMACSize_def\<close>)
    next
      case big: True
      have u: "unat bs = 6 + unat s" using big by (simp add: bsv)
      have n: "1500 < n" using big by (simp add: big_def FakePaddingThreshold_def)
      obtain r' where f: "fillPlainPadding ce (Some pool) (n - 6) s pos2 (packetID + 1) = (body, r')" using body big by blast
      have "s \<noteq> 0" using s by auto
      obtain rest r'' where g: "fillFakePaddingPacket ce (Some pool) (n - 6 - unat s) (pos2 + unat s) (packetID + 1) = (rest, r'')" by (metis surj_pair)
      have bd2: "body = rand_Read ce pos2 (unat s) @ rest"
      proof -
        have "\<not> n - 6 < unat s" "n - 6 \<noteq> 0" using n s by simp_all
        then show ?thesis
          using f \<open>s \<noteq> 0\<close> g unfolding fillPlainPadding.simps [of ce "Some pool" "n - 6"] by (simp add: Let_def split_beta)
      qed
      let ?A = "A @ hdr @ rand_Read ce pos2 (unat s)"
      have v: "validate_chain (Some pool) (?A @ rest) S (S + length ?A + (n - 6 - unat s) + PacketMACSize) (S + length ?A) = Some True"
        by (rule less.IH [OF _ _ _ g]) (use n s less.prems(2) in simp_all)
      have e: "S + length ?A = S + length A + unat bs" "S + length A + unat bs + (n - 6 - unat s) = S + length A + n"
        using H(1) u n s by simp_all
      have next_ok: "validate_chain (Some pool) (A @ F) S (S + length A + n + PacketMACSize) (S + length A + unat bs) = Some True"
        using v unfolding e F bd2 by (simp only: append_assoc)
      show ?thesis
        by (subst validate_chain.simps)
          (use inside sl H(2) True bd nz next_ok u n s in \<open>simp add: Let_def PacketMACSize_def\<close>)
    qed
  qed
qed

section \<open>Boundaries of packets\<close>

definition split_ok :: "u16 \<Rightarrow> u16 \<Rightarrow> bool" where
  "split_ok paddingSize split \<longleftrightarrow>
     split = 0 \<and> unat paddingSize \<le> 1500 \<or> 256 \<le> unat split \<and> unat split + 13 \<le> unat paddingSize"

lemma fakePaddingSplitValue_ok: "split_ok paddingSize (fst (fakePaddingSplitValue ce paddingSize pos))"
  using split_bounds [of ce pos] by (auto simp: split_ok_def fakePaddingSplitValue_def FakePaddingThreshold_def)

lemma timestampPaddingSplitValue_ok: "split_ok paddingSize (fst (timestampPaddingSplitValue ce paddingSize pos))"
proof -
  obtain split pos1 where f: "fakePaddingSplitValue ce paddingSize pos = (split, pos1)" by fastforce
  note s = fakePaddingSplitValue_ok [of paddingSize ce pos, unfolded f fst_conv]
  show ?thesis
  proof (cases "split = 0 \<and> 512 < unat paddingSize \<and> unat paddingSize \<le> 1500 \<and> \<not> 0xc0 \<le> rand_Read ce pos1 1 ! 0")
    case True
    then have "unat paddingSize div 2 + 1 \<le> 65536" "256 < unat paddingSize div 2 + 1" by auto
    note b = randomUint16Range_bounds [OF this(2,1), of ce "pos1 + 1"]
    have "timestampPaddingSplitValue ce paddingSize pos = randomUint16Range ce 256 (unat paddingSize div 2 + 1) (pos1 + 1)"
      using True by (simp add: timestampPaddingSplitValue_def f FakePaddingThreshold_def FakePaddingSplitMin_def)
    then show ?thesis using b True unfolding split_ok_def by auto
  next
    case False
    then have "fst (timestampPaddingSplitValue ce paddingSize pos) = split"
      using s by (auto simp: timestampPaddingSplitValue_def f FakePaddingThreshold_def word_gt_0)
    then show ?thesis using s by simp
  qed
qed

lemma boundary_valid:
  assumes "pool_ok pool" and "split_ok paddingSize split"
    and "H + N + HeaderSize + len + unat paddingSize + PacketMACSize < 65000"
    and "padding = (if 0 < paddingSize then fst (fillPlainPadding ce (Some pool) (unat paddingSize) split pos packetID) else [])"
  shows "length padding = unat paddingSize"
    and "validateObfBoundary (Some pool) padding (H + N + HeaderSize + len) (unat (packetWireSize H N len paddingSize))
      (unat (packetObfBoundarySize H N len paddingSize split)) verify = Some True"
proof -
  define S where "S = H + N + HeaderSize + len"
  define n where "n = unat paddingSize"
  have z: "paddingSize = 0 \<longleftrightarrow> n = 0" by (simp add: n_def unat_eq_0)
  show len: "length padding = unat paddingSize"
    using assms(4) fill_length [OF assms(1), of ce "unat paddingSize" split pos packetID] z by (simp add: n_def word_gt_0)
  have w: "unat (packetWireSize H N len paddingSize) = S + n + PacketMACSize"
    unfolding packetWireSize_def using assms(3) by (subst saturated_small) (simp_all add: S_def n_def)
  show "validateObfBoundary (Some pool) padding (H + N + HeaderSize + len) (unat (packetWireSize H N len paddingSize))
      (unat (packetObfBoundarySize H N len paddingSize split)) verify = Some True"
  proof (cases "split = 0")
    case True
    then show ?thesis by (simp add: validateObfBoundary_def packetObfBoundarySize_def)
  next
    case False
    then have s: "256 \<le> unat split" "unat split + 13 \<le> n" using assms(2) by (auto simp: split_ok_def n_def)
    have b: "unat (packetObfBoundarySize H N len paddingSize split) = S + unat split"
      using False s assms(3) by (simp add: packetObfBoundarySize_def word_gt_0 S_def n_def saturated_small)
    obtain F r where F: "fillFakePaddingPacket ce (Some pool) (n - unat split) (pos + unat split) packetID = (F, r)" by (metis surj_pair)
    have "\<not> n < unat split" "n \<noteq> 0" using s by simp_all
    then have p: "padding = rand_Read ce pos (unat split) @ F"
      using assms(4) F False z unfolding n_def [symmetric] fillPlainPadding.simps [of ce "Some pool" n]
      by (simp add: Let_def split_beta word_gt_0)
    have "validate_chain (Some pool) (rand_Read ce pos (unat split) @ F) S
        (S + length (rand_Read ce pos (unat split)) + (n - unat split) + PacketMACSize) (S + length (rand_Read ce pos (unat split))) = Some True"
      by (rule chain_valid [OF assms(1) _ _ F]) (use s assms(3) in \<open>simp_all add: n_def\<close>)
    then have "validate_chain (Some pool) padding S (S + n + PacketMACSize) (S + unat split) = Some True"
      using s by (simp add: p)
    moreover have "S + unat split \<noteq> S + n + PacketMACSize" "\<not> S + n < S + unat split + DataObfHeaderSize"
      using s by (simp_all add: DataObfHeaderSize_def)
    ultimately show ?thesis
      unfolding validateObfBoundary_def w b S_def [symmetric] Let_def len n_def [symmetric] by simp
  qed
qed

section \<open>Padding sizes\<close>

lemma randomLogUniform_bounds:
  assumes "mn < mx" and "0 < mn" and "mx < 65536"
  shows "mn \<le> uint (fst (randomLogUniformPaddingRange ce mn mx pos))" and "uint (fst (randomLogUniformPaddingRange ce mn mx pos)) \<le> mx"
proof -
  define v where "v = randomLogUniformInclusive ce (get32 (rand_Read ce pos 4)) mn mx PaddingLogOffset"
  have "mn \<le> v" "v \<le> mx"
    using assms by (auto simp: v_def randomLogUniformInclusive_def randomLogUniformExclusive_def Let_def)
  moreover from this have "uint (word_of_int v :: u16) = v" using assms by (simp add: unsigned_of_int take_bit_int_eq_self)
  ultimately show "mn \<le> uint (fst (randomLogUniformPaddingRange ce mn mx pos))" "uint (fst (randomLogUniformPaddingRange ce mn mx pos)) \<le> mx"
    using assms(1) by (simp_all add: randomLogUniformPaddingRange_def v_def)
qed

lemma unat_uint_le: "n \<le> unat w \<longleftrightarrow> int n \<le> uint w" "unat w \<le> n \<longleftrightarrow> uint w \<le> int n"
  unfolding unat_eq_nat_uint using uint_ge_0 [of w] by linarith+

text \<open>A packet without a payload or on a special channel gets at least sixteen bytes of padding.\<close>

lemma calculatePadding_bounds:
  assumes "pool_ok pool"
  shows "unat (fst (calculatePadding ce (Some pool) channelID payload pos)) \<le> 8191"
    and "packetHasPaddingSizeField channelID (length payload) \<Longrightarrow> 16 \<le> unat (fst (calculatePadding ce (Some pool) channelID payload pos))"
proof -
  have T: "padding_tables_ok (p_PaddingThreshold pool) (p_PaddingSize pool) (p_PaddingRowLimit pool) (p_MinPadding pool) (p_MaxPadding pool)"
    using assms by (simp add: pool_ok_def)
  then have mm: "16 \<le> uint (p_MinPadding pool)" "uint (p_MinPadding pool) \<le> 271" "4096 \<le> uint (p_MaxPadding pool)" "uint (p_MaxPadding pool) \<le> 8191"
    unfolding padding_tables_ok_def unat_uint_le by (simp_all add: obf_consts)
  note r = randomLogUniform_bounds [of "uint (p_MinPadding pool)" "uint (p_MaxPadding pool)" ce pos]
  have sp: "16 \<le> unat (fst (calculatePadding ce (Some pool) channelID payload pos)) \<and> unat (fst (calculatePadding ce (Some pool) channelID payload pos)) \<le> 8191"
    if "channelID < FirstChannelID \<or> length payload = 0"
    using that r mm unfolding unat_uint_le by (simp add: calculatePadding_def Let_def)
  then show "packetHasPaddingSizeField channelID (length payload) \<Longrightarrow> 16 \<le> unat (fst (calculatePadding ce (Some pool) channelID payload pos))"
    by (simp add: packetHasPaddingSizeField_def)
  show "unat (fst (calculatePadding ce (Some pool) channelID payload pos)) \<le> 8191"
    using sp PaddingForPayload_bound [OF assms, of payload]
    by (cases "channelID < FirstChannelID \<or> length payload = 0") (auto simp: calculatePadding_def MaxDataPaddingSize_def)
qed

section \<open>Reading back\<close>

lemma length_header_fields:
  "length (header_fields c n p) + header_mac_size c n = HeaderSize"
  "length (header_fields c n p) = ChannelIDSize + PacketLengthSize + (if packetHasPaddingSizeField c n then PaddingSizeLen else 0)"
  by (simp_all add: header_fields_def header_mac_size_def obf_consts)

lemma header_read:
  assumes "n < 65536" and "hdr = header_fields c n p @ mac" and "length mac = header_mac_size c n"
  shows "hdr ! 0 = c" and "unat (get16 (slice hdr 1 2)) = n"
    and "packetHasPaddingSizeField c n \<Longrightarrow> get16 (slice hdr 3 2) = p"
    and "take (ChannelIDSize + PacketLengthSize + (if packetHasPaddingSizeField c n then PaddingSizeLen else 0)) hdr = header_fields c n p"
    and "slice hdr (ChannelIDSize + PacketLengthSize + (if packetHasPaddingSizeField c n then PaddingSizeLen else 0)) (header_mac_size c n) = mac"
proof -
  show "hdr ! 0 = c" by (simp add: assms(2) header_fields_def)
  have "slice hdr 1 2 = put16 (word_of_nat n)" by (simp add: assms(2) header_fields_def slice_def)
  then show "unat (get16 (slice hdr 1 2)) = n" using assms(1) by (simp add: unat_of_nat)
  show "packetHasPaddingSizeField c n \<Longrightarrow> get16 (slice hdr 3 2) = p"
    by (simp add: assms(2) header_fields_def slice_def)
  show "take (ChannelIDSize + PacketLengthSize + (if packetHasPaddingSizeField c n then PaddingSizeLen else 0)) hdr = header_fields c n p"
    unfolding length_header_fields(2) [symmetric, of c n p] assms(2) by simp
  show "slice hdr (ChannelIDSize + PacketLengthSize + (if packetHasPaddingSizeField c n then PaddingSizeLen else 0)) (header_mac_size c n) = mac"
    unfolding length_header_fields(2) [symmetric, of c n p] assms(2) slice_def using assms(3) by simp
qed

text \<open>The padding size that the receiver finds, from the header or from the payload.\<close>

definition padding_agrees :: "Pool \<Rightarrow> byte \<Rightarrow> bytes \<Rightarrow> u16 \<Rightarrow> bool" where
  "padding_agrees pool channelID payload paddingSize \<longleftrightarrow>
     (if payload \<noteq> [] \<and> FirstChannelID \<le> channelID \<and> length payload \<le> NoPaddingThreshold
      then paddingSize = PaddingForPayload (Some pool) payload
      else packetHasPaddingSizeField channelID (length payload) \<or> paddingSize = 0)"

lemma calculatePadding_agrees: "padding_agrees pool channelID payload (fst (calculatePadding ce (Some pool) channelID payload pos))"
  by (auto simp: padding_agrees_def calculatePadding_def packetHasPaddingSizeField_def not_less)

lemma readRawFull_append [simp]: "length a = n \<Longrightarrow> readRawFull (a @ b) n = Some (a, b)"
  by (simp add: readRawFull_def)

lemma readRawFull_0 [simp]: "readRawFull b 0 = Some ([], b)"
  by (simp add: readRawFull_def)

lemma DecryptInPlace_XOR:
  "cc_decStream cc = Some st \<Longrightarrow> DecryptInPlace pr cc (fst (XORKeyStream pr st b)) = Inr (b, cc\<lparr>cc_decStream := Some (snd (XORKeyStream pr st b))\<rparr>)"
proof (cases "b = []")
  case False
  then have "fst (XORKeyStream pr st b) \<noteq> []" by (metis XOR_length length_0_conv)
  moreover assume "cc_decStream cc = Some st"
  ultimately show ?thesis by (simp add: DecryptInPlace_def XOR_involution)
qed (simp add: DecryptInPlace_def)

lemma read_body_ok:
  assumes st: "cc_decStream (kd_conn kd) = Some st" and enc: "encP = fst (XORKeyStream pr st payload)"
    and agree: "padding_agrees pool channelID payload paddingSize"
    and hp: "headerPadding = (if packetHasPaddingSizeField channelID (length payload) then paddingSize else 0)"
    and lp: "length padding = unat paddingSize"
    and mac: "mac = truncatedMAC pr (kd_macKey kd) (obfHdr @ encH @ encP @ padding) PacketMACSize" and lm: "length mac = PacketMACSize"
    and conn: "conn = (kd_conn kd)\<lparr>cc_decStream := Some (snd (XORKeyStream pr st payload))\<rparr>"
    and bd: "valid_boundary (kd\<lparr>kd_conn := conn\<rparr>) pool isH channelID obfHdr padding (length obfHdr + nonceLen + HeaderSize + length payload)
      (packetWireSize (length obfHdr) nonceLen (length payload) paddingSize) = Some True"
  shows "read_body pr kd pool isH nonceLen obfHdr encH channelID (length payload) headerPadding (encP @ padding @ mac @ rest) =
    (ReadPacket channelID payload (unat (packetWireSize (length obfHdr) nonceLen (length payload) paddingSize)), kd\<lparr>kd_conn := conn\<rparr>, rest)"
proof -
  have le: "length encP = length payload" by (simp add: enc)
  have dec: "DecryptInPlace pr (kd_conn kd) encP = Inr (payload, conn)" unfolding enc conn by (rule DecryptInPlace_XOR [OF st])
  define early where "early \<longleftrightarrow> 0 < length payload \<and> FirstChannelID \<le> channelID \<and> length payload \<le> NoPaddingThreshold"
  show ?thesis
  proof (cases early)
    case True
    then have ps: "PaddingForPayload (Some pool) payload = paddingSize" using agree by (auto simp: early_def padding_agrees_def)
    have e: "payload \<noteq> []" "FirstChannelID \<le> channelID" "length payload \<le> NoPaddingThreshold" using True by (auto simp: early_def)
    show ?thesis by (simp add: read_body_def e le dec ps lp mac [symmetric] lm bd Let_def)
  next
    case False
    then have ps: "headerPadding = paddingSize" using agree hp by (auto simp: early_def padding_agrees_def split: if_splits)
    show ?thesis
    proof (cases "payload = []")
      case True
      then have "encP = []" "conn = kd_conn kd" using le st by (simp_all add: conn)
      then show ?thesis
        using True bd mac lm lp by (simp add: read_body_def ps Let_def)
    next
      case ne: False
      have e: "(FirstChannelID \<le> channelID \<and> length payload \<le> NoPaddingThreshold) = False" using False ne by (simp add: early_def)
      have "encP \<noteq> []" using ne le by auto
      then show ?thesis by (simp add: read_body_def ne e le dec ps lp mac [symmetric] lm bd Let_def)
    qed
  qed
qed

lemma ensure_conn [simp]: "kd_conn (ensureAuthenticatedUser pr kd) = kd_conn kd"
  "kd_recvObfPool (ensureAuthenticatedUser pr kd) = kd_recvObfPool kd" "kd_sendObfPool (ensureAuthenticatedUser pr kd) = kd_sendObfPool kd"
  "kd_isServer (ensureAuthenticatedUser pr kd) = kd_isServer kd" "kd_hsInfo (ensureAuthenticatedUser pr kd) = kd_hsInfo kd"
  "kd_debug (ensureAuthenticatedUser pr kd) = kd_debug kd"
  "kd_hasReceivedTimestamp (ensureAuthenticatedUser pr kd) = kd_hasReceivedTimestamp kd"
  "kd_hasSentTimestamp (ensureAuthenticatedUser pr kd) = kd_hasSentTimestamp kd"
  by (simp_all add: ensureAuthenticatedUser_def Let_def)

lemma ensure_macKey: "kd_macKey kd \<noteq> [] \<Longrightarrow> kd_macKey (ensureAuthenticatedUser pr kd) = kd_macKey kd"
  by (simp add: ensureAuthenticatedUser_def Let_def)

lemma length_truncatedMAC: "primitives_ok pr \<Longrightarrow> n \<le> 32 \<Longrightarrow> length (truncatedMAC pr k d n) = n"
  by (simp add: truncatedMAC_def primitives_ok_def)

lemma header_mac_size_le: "header_mac_size c n \<le> 32"
  by (simp add: header_mac_size_def obf_consts)

lemma read_after_obf_ok:
  assumes pr: "primitives_ok pr"
    and R: "readEncryptedFull pr add sched (kd_conn (rs_kd rs)) (rs_cache rs) (rs_inp rs) HeaderSize =
      (Inr (hdr, encH), conn1, cache1, encP @ padding @ mac @ rest)"
    and kd2: "kd2 = ensureAuthenticatedUser pr ((rs_kd rs)\<lparr>kd_conn := conn1\<rparr>)"
    and hdr: "hdr = header_fields c (length payload) paddingSize @
      truncatedMAC pr (kd_macKey kd2) (obfHdr @ header_fields c (length payload) paddingSize) (header_mac_size c (length payload))"
    and len: "length payload < 65536" and st: "cc_decStream conn1 = Some st" and enc: "encP = fst (XORKeyStream pr st payload)"
    and agree: "padding_agrees pool c payload paddingSize" and lp: "length padding = unat paddingSize"
    and mac: "mac = truncatedMAC pr (kd_macKey kd2) (obfHdr @ encH @ encP @ padding) PacketMACSize"
    and nl: "nonceLen = (if \<not> cc_recvNonce (kd_conn (rs_kd rs)) \<and> cc_recvNonce conn1 then NonceSize else 0)"
    and conn2: "conn2 = conn1\<lparr>cc_decStream := Some (snd (XORKeyStream pr st payload))\<rparr>"
    and bd: "valid_boundary (kd2\<lparr>kd_conn := conn2\<rparr>) pool isH c obfHdr padding (length obfHdr + nonceLen + HeaderSize + length payload)
      (packetWireSize (length obfHdr) nonceLen (length payload) paddingSize) = Some True"
  shows "read_after_obf pr add sched pool isH obfHdr rs =
    (ReadPacket c payload (unat (packetWireSize (length obfHdr) nonceLen (length payload) paddingSize)),
     rs\<lparr>rs_kd := kd2\<lparr>kd_conn := conn2\<rparr>, rs_cache := cache1, rs_inp := rest\<rparr>)"
proof -
  define n where "n = length payload"
  define off where "off = ChannelIDSize + PacketLengthSize + (if packetHasPaddingSizeField c n then PaddingSizeLen else 0)"
  define hmac where "hmac = truncatedMAC pr (kd_macKey kd2) (obfHdr @ header_fields c n paddingSize) (header_mac_size c n)"
  have lh: "length hmac = header_mac_size c n"
    unfolding hmac_def by (rule length_truncatedMAC [OF pr header_mac_size_le])
  have h: "hdr = header_fields c n paddingSize @ hmac" unfolding hdr hmac_def n_def ..
  have n: "n < 65536" using len by (simp add: n_def)
  note H = header_read [OF n h lh, folded off_def]
  have kc: "kd_conn kd2 = conn1" by (simp add: kd2)
  have lm: "length mac = PacketMACSize" unfolding mac by (rule length_truncatedMAC [OF pr]) (simp add: PacketMACSize_def)
  have body: "read_body pr kd2 pool isH nonceLen obfHdr encH c n (if packetHasPaddingSizeField c n then paddingSize else 0)
      (encP @ padding @ mac @ rest) =
      (ReadPacket c payload (unat (packetWireSize (length obfHdr) nonceLen n paddingSize)), kd2\<lparr>kd_conn := conn2\<rparr>, rest)"
    unfolding n_def by (rule read_body_ok [OF _ enc agree refl lp mac lm]) (use st conn2 bd in \<open>simp_all add: kc\<close>)
  have hp: "(if packetHasPaddingSizeField c n then get16 (slice hdr 3 2) else 0) = (if packetHasPaddingSizeField c n then paddingSize else 0)"
    using H(3) by simp
  show ?thesis
    unfolding read_after_obf_def Let_def R prod.case sum.case kd2 [symmetric] H(1,2)
    unfolding off_def [symmetric] H(4,5) hmac_def [symmetric] hp nl [symmetric] body prod.case
    by (simp add: n_def [symmetric])
qed

text \<open>The two ends of an established direction are in step.\<close>

definition in_step :: "codec \<Rightarrow> codec \<Rightarrow> bool" where
  "in_step s r \<longleftrightarrow>
     (\<exists>pool st. kd_sendObfPool s = Some pool \<and> kd_recvObfPool r = Some pool \<and> pool_ok pool \<and>
        cc_encStream (kd_conn s) = Some st \<and> cc_decStream (kd_conn r) = Some st) \<and>
     kd_macKey s = kd_macKey r \<and> kd_macKey r \<noteq> [] \<and> cc_sendNonce (kd_conn s) = [] \<and> cc_recvNonce (kd_conn r) \<and>
     (kd_isServer s \<or> kd_hasSentTimestamp s)"

text \<open>The receiver after a packet, with the decryption stream at its new position.\<close>

definition after_read :: "primitives \<Rightarrow> codec \<Rightarrow> cstream \<Rightarrow> codec" where
  "after_read pr kd st = (ensureAuthenticatedUser pr kd)\<lparr>kd_conn := (kd_conn kd)\<lparr>cc_decStream := Some st\<rparr>\<rparr>"

lemma boundary_large:
  assumes pool: "pool_ok pool" and ps: "paddingSize = fst (calculatePadding ce (Some pool) c payload pos0)" and sp: "split_ok paddingSize split"
    and small: "DataObfHeaderSize + 0 + HeaderSize + length payload + unat paddingSize + PacketMACSize < 65000"
  shows "17 \<le> unat (packetObfBoundarySize DataObfHeaderSize 0 (length payload) paddingSize split)"
proof (cases "split = 0")
  case True
  have "1 \<le> length payload + unat paddingSize"
    using calculatePadding_bounds(2) [OF pool, of c payload ce pos0] ps
    by (cases "payload = []") (auto simp: packetHasPaddingSizeField_def Suc_le_eq)
  then show ?thesis
    using True small saturated_small [of "DataObfHeaderSize + 0 + HeaderSize + length payload + unat paddingSize + PacketMACSize"]
    by (simp add: packetObfBoundarySize_def packetWireSize_def obf_consts)
next
  case False
  then show ?thesis using sp small saturated_small [of "DataObfHeaderSize + 0 + HeaderSize + length payload + unat split"]
    by (simp add: packetObfBoundarySize_def word_gt_0 split_ok_def obf_consts)
qed

text \<open>The parts of a built packet: the stream position moves over header and payload, the padding and the MACs follow.\<close>

lemma built_packet_shape:
  assumes pool: "pool_ok pool" and s: "cc_encStream (kd_conn s) = Some st"
    and b: "buildWirePacketWithPadding ce s (Some pool) obfHdr c payload paddingSize split pos = Inr (wp, s', pos')"
    and fs: "fs = header_fields c (length payload) paddingSize"
    and hmac: "hmac = truncatedMAC (ce_pr ce) (kd_macKey s) (obfHdr @ fs) (header_mac_size c (length payload))"
    and stH: "stH = snd (XORKeyStream (ce_pr ce) st (fs @ hmac))"
    and encH: "encH = fst (XORKeyStream (ce_pr ce) st (fs @ hmac))" and encP: "encP = fst (XORKeyStream (ce_pr ce) stH payload)"
  shows "wp_obfHdr wp = obfHdr" and "wp_encrypted wp = encH @ encP"
    and "\<exists>p i. wp_padding wp = (if 0 < paddingSize then fst (fillPlainPadding ce (Some pool) (unat paddingSize) split p i) else [])"
    and "wp_mac wp = truncatedMAC (ce_pr ce) (kd_macKey s) (obfHdr @ encH @ encP @ wp_padding wp) PacketMACSize"
    and "kd_conn s' = (kd_conn s)\<lparr>cc_encStream := Some (snd (XORKeyStream (ce_pr ce) stH payload))\<rparr>"
    and "s' = s\<lparr>kd_conn := kd_conn s', kd_obfPacketID := kd_obfPacketID s'\<rparr>"
proof -
  have X: "XORKeyStream (ce_pr ce) st (fs @ hmac @ payload) = (encH @ encP, snd (XORKeyStream (ce_pr ce) stH payload))"
    using XOR_append [of "ce_pr ce" st "fs @ hmac" payload] by (simp add: encH encP stH)
  define fill where "fill = fillPlainPadding ce (Some pool) (unat paddingSize) split pos (kd_obfPacketID s)"
  define padding where "padding = (if 0 < paddingSize then fst fill else [])"
  have parts: "buildPlainPacketParts ce (kd_macKey s) (Some pool) obfHdr c payload paddingSize split pos (kd_obfPacketID s) =
      (fs @ hmac @ payload, padding, if 0 < paddingSize then snd fill else (pos, kd_obfPacketID s))"
    by (simp add: buildPlainPacketParts_def Let_def fs hmac padding_def fill_def split_beta)
  obtain p i where pi: "(if 0 < paddingSize then snd fill else (pos, kd_obfPacketID s)) = (p, i)" by fastforce
  have B: "wp = \<lparr>wp_obfHdr = obfHdr, wp_encrypted = encH @ encP, wp_padding = padding,
      wp_mac = truncatedMAC (ce_pr ce) (kd_macKey s) (obfHdr @ encH @ encP @ padding) PacketMACSize\<rparr>"
    "s' = s\<lparr>kd_conn := (kd_conn s)\<lparr>cc_encStream := Some (snd (XORKeyStream (ce_pr ce) stH payload))\<rparr>, kd_obfPacketID := i\<rparr>"
    using b by (simp_all add: buildWirePacketWithPadding_def parts pi EncryptForWrite_def s X)
  then show "wp_obfHdr wp = obfHdr" "wp_encrypted wp = encH @ encP"
    "wp_mac wp = truncatedMAC (ce_pr ce) (kd_macKey s) (obfHdr @ encH @ encP @ wp_padding wp) PacketMACSize"
    "kd_conn s' = (kd_conn s)\<lparr>cc_encStream := Some (snd (XORKeyStream (ce_pr ce) stH payload))\<rparr>"
    "s' = s\<lparr>kd_conn := kd_conn s', kd_obfPacketID := kd_obfPacketID s'\<rparr>" by simp_all
  show "\<exists>p i. wp_padding wp = (if 0 < paddingSize then fst (fillPlainPadding ce (Some pool) (unat paddingSize) split p i) else [])"
    using B(1) unfolding padding_def fill_def by auto
qed

lemma built_packet_length:
  assumes pr: "primitives_ok (ce_pr ce)" and pool: "pool_ok pool" and s: "cc_encStream (kd_conn s) = Some st"
    and b: "buildWirePacketWithPadding ce s (Some pool) obfHdr c payload paddingSize split pos = Inr (wp, s', pos')"
  shows "length (packet_bytes wp) = length obfHdr + HeaderSize + length payload + unat paddingSize + PacketMACSize"
proof -
  note W = built_packet_shape [OF pool s b refl refl refl refl refl]
  have "length (wp_padding wp) = unat paddingSize" using W(3) fill_length [OF pool] by (auto simp: word_gt_0)
  moreover have "length (wp_mac wp) = PacketMACSize" unfolding W(4) by (rule length_truncatedMAC [OF pr]) (simp add: PacketMACSize_def)
  moreover have "length (wp_encrypted wp) = HeaderSize + length payload"
    unfolding W(2) using length_truncatedMAC [OF pr header_mac_size_le] length_header_fields(1) [of c "length payload" paddingSize] by simp
  ultimately show ?thesis by (simp add: packet_bytes_def W(1))
qed

text \<open>
  Reading a built packet, behind its obfuscation header.  The hypothesis on \<open>readEncryptedFull\<close> is what holds for a
  receiver whose decryption stream is at the position of the sender, after the nonce if it is still to come.
\<close>

lemma built_packet_read:
  assumes pr: "primitives_ok (ce_pr ce)" and pool: "pool_ok pool" and len: "length payload < 65536"
    and agree: "padding_agrees pool c payload paddingSize" and s: "cc_encStream (kd_conn s) = Some st"
    and b: "buildWirePacketWithPadding ce s (Some pool) obfHdr c payload paddingSize split pos = Inr (wp, s', pos')"
    and inp: "rs_inp rs = nonce @ wp_encrypted wp @ wp_padding wp @ wp_mac wp @ rest"
    and RD: "\<And>inp. HeaderSize \<le> length inp \<Longrightarrow>
      readEncryptedFull (ce_pr ce) add sched (kd_conn (rs_kd rs)) (rs_cache rs) (nonce @ inp) HeaderSize =
        (Inr (fst (XORKeyStream (ce_pr ce) st (take HeaderSize inp)), take HeaderSize inp),
         conn\<lparr>cc_decStream := Some (snd (XORKeyStream (ce_pr ce) st (take HeaderSize inp)))\<rparr>, cache1, drop HeaderSize inp)"
    and key: "kd_macKey (ensureAuthenticatedUser (ce_pr ce) ((rs_kd rs)\<lparr>kd_conn := conn\<rparr>)) = kd_macKey s"
    and nl: "nonceLen = (if \<not> cc_recvNonce (kd_conn (rs_kd rs)) \<and> cc_recvNonce conn then NonceSize else 0)"
    and BD: "\<And>kd. kd_isServer kd = kd_isServer (rs_kd rs) \<Longrightarrow> kd_debug kd = kd_debug (rs_kd rs) \<Longrightarrow> kd_hsInfo kd = kd_hsInfo (rs_kd rs) \<Longrightarrow>
      kd_hasReceivedTimestamp kd = kd_hasReceivedTimestamp (rs_kd rs) \<Longrightarrow>
      valid_boundary kd pool isH c obfHdr (wp_padding wp) (length obfHdr + nonceLen + HeaderSize + length payload)
        (packetWireSize (length obfHdr) nonceLen (length payload) paddingSize) = Some True"
  shows "read_after_obf (ce_pr ce) add sched pool isH obfHdr rs =
    (ReadPacket c payload (unat (packetWireSize (length obfHdr) nonceLen (length payload) paddingSize)),
     rs\<lparr>rs_kd := after_read (ce_pr ce) ((rs_kd rs)\<lparr>kd_conn := conn\<rparr>) (the (cc_encStream (kd_conn s'))), rs_cache := cache1, rs_inp := rest\<rparr>)"
proof -
  let ?pr = "ce_pr ce" and ?n = "length payload"
  define fs where "fs = header_fields c ?n paddingSize"
  define hmac where "hmac = truncatedMAC ?pr (kd_macKey s) (obfHdr @ fs) (header_mac_size c ?n)"
  define stH where "stH = snd (XORKeyStream ?pr st (fs @ hmac))"
  define encH where "encH = fst (XORKeyStream ?pr st (fs @ hmac))"
  define encP where "encP = fst (XORKeyStream ?pr stH payload)"
  note W = built_packet_shape [OF pool s b fs_def hmac_def stH_def encH_def encP_def]
  have lH: "length encH = HeaderSize"
    unfolding encH_def using length_truncatedMAC [OF pr header_mac_size_le] length_header_fields(1) [of c ?n paddingSize]
    by (simp add: fs_def hmac_def)
  define kd2 where "kd2 = ensureAuthenticatedUser ?pr ((rs_kd rs)\<lparr>kd_conn := conn\<lparr>cc_decStream := Some stH\<rparr>\<rparr>)"
  have ens: "kd2 = (ensureAuthenticatedUser ?pr ((rs_kd rs)\<lparr>kd_conn := conn\<rparr>))\<lparr>kd_conn := conn\<lparr>cc_decStream := Some stH\<rparr>\<rparr>"
    by (simp add: kd2_def ensureAuthenticatedUser_def Let_def)
  have k2: "kd_macKey kd2 = kd_macKey s" using key by (simp add: ens)
  have lp: "length (wp_padding wp) = unat paddingSize"
    using W(3) fill_length [OF pool] by (auto simp: word_gt_0)
  have R: "readEncryptedFull ?pr add sched (kd_conn (rs_kd rs)) (rs_cache rs) (rs_inp rs) HeaderSize =
      (Inr (fs @ hmac, encH), conn\<lparr>cc_decStream := Some stH\<rparr>, cache1, encP @ wp_padding wp @ wp_mac wp @ rest)"
    unfolding inp W(2) using RD [of "encH @ encP @ wp_padding wp @ wp_mac wp @ rest"] lH XOR_involution [of ?pr st "fs @ hmac"]
    by (simp add: encH_def stH_def)
  have "read_after_obf ?pr add sched pool isH obfHdr rs =
      (ReadPacket c payload (unat (packetWireSize (length obfHdr) nonceLen ?n paddingSize)),
       rs\<lparr>rs_kd := kd2\<lparr>kd_conn := conn\<lparr>cc_decStream := Some (snd (XORKeyStream ?pr stH payload))\<rparr>\<rparr>, rs_cache := cache1, rs_inp := rest\<rparr>)"
  proof (rule read_after_obf_ok [OF pr R kd2_def _ len _ _ agree lp])
    show "valid_boundary (kd2\<lparr>kd_conn := conn\<lparr>cc_decStream := Some (snd (XORKeyStream ?pr stH payload))\<rparr>\<rparr>) pool isH c obfHdr (wp_padding wp)
      (length obfHdr + nonceLen + HeaderSize + ?n) (packetWireSize (length obfHdr) nonceLen ?n paddingSize) = Some True"
      by (rule BD) (simp_all add: kd2_def)
  qed (simp_all add: fs_def hmac_def k2 W(4) encP_def nl)
  moreover have "kd2\<lparr>kd_conn := conn\<lparr>cc_decStream := Some (snd (XORKeyStream ?pr stH payload))\<rparr>\<rparr> =
      after_read ?pr ((rs_kd rs)\<lparr>kd_conn := conn\<rparr>) (the (cc_encStream (kd_conn s')))"
    by (simp add: ens after_read_def W(5))
  ultimately show ?thesis by simp
qed

text \<open>One packet, built with a later header.\<close>

lemma data_packet_read:
  assumes pr: "primitives_ok (ce_pr ce)" and pool: "pool_ok pool" and len: "length payload \<le> MaxPacketPayloadSize"
    and ps: "paddingSize = fst (calculatePadding ce (Some pool) c payload pos0)" and sp: "split_ok paddingSize split"
    and s: "cc_encStream (kd_conn s) = Some st" and r: "cc_decStream (kd_conn (rs_kd rs)) = Some st" "cc_recvNonce (kd_conn (rs_kd rs))"
    and key: "kd_macKey s = kd_macKey (rs_kd rs)" "kd_macKey (rs_kd rs) \<noteq> []"
    and rp: "kd_recvObfPool (rs_kd rs) = Some pool" and inp: "rs_inp rs = packet_bytes wp @ rest"
    and b: "build_data_packet ce s pool 0 c payload paddingSize split pos = Inr (wp, s', pos')"
  shows "read_packet (ce_pr ce) add sched now rs = Some (ReadPacket c payload (length (packet_bytes wp)),
      rs\<lparr>rs_kd := after_read (ce_pr ce) (rs_kd rs) (the (cc_encStream (kd_conn s'))), rs_inp := rest\<rparr>)"
    and "\<exists>st'. kd_conn s' = (kd_conn s)\<lparr>cc_encStream := Some st'\<rparr>"
    and "s' = s\<lparr>kd_conn := kd_conn s', kd_obfPacketID := kd_obfPacketID s'\<rparr>"
proof -
  let ?pr = "ce_pr ce" and ?n = "length payload"
  define s1 where "s1 = s\<lparr>kd_obfPacketID := kd_obfPacketID s + 1\<rparr>"
  obtain dataHdr pos1 where dh: "select_header ce pool ?n
      \<lparr>dc_LenValue = 0, dc_WireSize = packetObfBoundarySize DataObfHeaderSize 0 ?n paddingSize split, dc_PacketID = kd_obfPacketID s\<rparr> pos = (dataHdr, pos1)"
    by fastforce
  note DH = select_header_props [OF pool dh]
  have b1: "buildWirePacketWithPadding ce s1 (Some pool) dataHdr c payload paddingSize split pos1 = Inr (wp, s', pos')"
    using b by (simp add: build_data_packet_def nextObfPacketID_def dh s1_def)
  have es: "cc_encStream (kd_conn s1) = Some st" using s by (simp add: s1_def)
  note W = built_packet_shape [OF pool es b1 refl refl refl refl refl]
  have small: "DataObfHeaderSize + 0 + HeaderSize + ?n + unat paddingSize + PacketMACSize < 65000"
    using len calculatePadding_bounds(1) [OF pool, of ce c payload pos0] ps by (simp add: obf_consts MaxPacketSize_def)
  obtain p i where pd: "wp_padding wp = (if 0 < paddingSize then fst (fillPlainPadding ce (Some pool) (unat paddingSize) split p i) else [])"
    using W(3) by blast
  note B = boundary_valid [OF pool sp small pd]
  have b17: "17 \<le> unat (packetObfBoundarySize DataObfHeaderSize 0 ?n paddingSize split)"
    by (rule boundary_large [OF pool ps sp small])
  have l6: "length dataHdr = DataObfHeaderSize" using DH(1) by (simp add: DataObfHeaderSize_def)
  define rs' where "rs' = rs\<lparr>rs_kd := rs_kd rs, rs_pools := rs_pools rs, rs_inp := wp_encrypted wp @ wp_padding wp @ wp_mac wp @ rest\<rparr>"
  have rk: "(rs_kd rs')\<lparr>kd_conn := kd_conn (rs_kd rs)\<rparr> = rs_kd rs" by (simp add: rs'_def)
  have agree: "padding_agrees pool c payload paddingSize" unfolding ps by (rule calculatePadding_agrees)
  have n16: "?n < 65536" using len by (simp add: obf_consts)
  have A: "read_after_obf ?pr add sched pool False dataHdr rs' =
      (ReadPacket c payload (unat (packetWireSize (length dataHdr) 0 ?n paddingSize)),
       rs'\<lparr>rs_kd := after_read ?pr ((rs_kd rs')\<lparr>kd_conn := kd_conn (rs_kd rs)\<rparr>) (the (cc_encStream (kd_conn s'))), rs_cache := rs_cache rs, rs_inp := rest\<rparr>)"
  proof (rule built_packet_read [where nonce = "[]", OF pr pool n16 agree es b1], goal_cases)
    case (2 i)
    then show ?case using readEncryptedFull_stream [OF r(2,1), of HeaderSize i ?pr add sched "rs_cache rs"] by (simp add: rs'_def)
  next
    case 3
    then show ?case unfolding rk using ensure_macKey [OF key(2)] key(1) by (simp add: s1_def)
  next
    case (5 kd)
    then show ?case using DH(3) b17 B(2) [of "kd_debug kd"] by (simp add: valid_boundary_def validateDataObfBoundary_def l6)
  qed (use r(2) in \<open>simp_all add: rs'_def\<close>)
  have l: "length (packet_bytes wp) = length dataHdr + HeaderSize + ?n + unat paddingSize + PacketMACSize"
    by (rule built_packet_length [OF pr pool es b1])
  have in2: "rs_inp rs = dataHdr @ wp_encrypted wp @ wp_padding wp @ wp_mac wp @ rest" by (simp add: inp packet_bytes_def W(1))
  have "read_packet ?pr add sched now rs = Some (read_after_obf ?pr add sched pool False dataHdr rs')"
    using DH(2) l6 by (simp add: read_packet_def Let_def rp in2 check_obf_header_def rs'_def)
  moreover have "unat (packetWireSize (length dataHdr) 0 ?n paddingSize) = length (packet_bytes wp)"
    unfolding packetWireSize_def l l6 using small by (subst saturated_small) simp_all
  moreover have "rs'\<lparr>rs_kd := x, rs_cache := rs_cache rs, rs_inp := rest\<rparr> = rs\<lparr>rs_kd := x, rs_inp := rest\<rparr>" for x
    by (cases rs) (simp add: rs'_def)
  ultimately show "read_packet ?pr add sched now rs = Some (ReadPacket c payload (length (packet_bytes wp)),
      rs\<lparr>rs_kd := after_read ?pr (rs_kd rs) (the (cc_encStream (kd_conn s'))), rs_inp := rest\<rparr>)" using A unfolding rk by simp
  show "\<exists>st'. kd_conn s' = (kd_conn s)\<lparr>cc_encStream := Some st'\<rparr>" using W(5) by (auto simp: s1_def)
  show "s' = s\<lparr>kd_conn := kd_conn s', kd_obfPacketID := kd_obfPacketID s'\<rparr>" by (subst W(6)) (simp add: s1_def)
qed

lemma build_data_packet_succeeds:
  "cc_encStream (kd_conn s) = Some st \<Longrightarrow> \<exists>wp s' pos'. build_data_packet ce s pool n c payload paddingSize split pos = Inr (wp, s', pos')"
  by (simp add: build_data_packet_def nextObfPacketID_def buildWirePacketWithPadding_def EncryptForWrite_def Let_def split: prod.splits)

text \<open>
  What sending and reading leave as it was: a sender keeps what it receives with, a receiver keeps what it sends with.
\<close>

definition send_same :: "codec \<Rightarrow> codec \<Rightarrow> bool" where
  "send_same s s' \<longleftrightarrow>
     kd_sendObfPool s' = kd_sendObfPool s \<and> kd_recvObfPool s' = kd_recvObfPool s \<and> kd_macKey s' = kd_macKey s \<and>
     cc_decStream (kd_conn s') = cc_decStream (kd_conn s) \<and> cc_recvNonce (kd_conn s') = cc_recvNonce (kd_conn s) \<and>
     kd_headerKey s' = kd_headerKey s \<and> kd_headerType s' = kd_headerType s"

definition read_same :: "codec \<Rightarrow> codec \<Rightarrow> bool" where
  "read_same r r' \<longleftrightarrow>
     kd_sendObfPool r' = kd_sendObfPool r \<and> kd_recvObfPool r' = kd_recvObfPool r \<and> kd_macKey r' = kd_macKey r \<and>
     cc_encStream (kd_conn r') = cc_encStream (kd_conn r) \<and> cc_sendNonce (kd_conn r') = cc_sendNonce (kd_conn r) \<and>
     kd_isServer r' = kd_isServer r \<and> kd_hasSentTimestamp r' = kd_hasSentTimestamp r \<and>
     kd_headerKey r' = kd_headerKey r \<and> kd_headerType r' = kd_headerType r"

lemma same_refl [simp]: "send_same s s" "read_same r r"
  by (simp_all add: send_same_def read_same_def)

lemma same_trans: "send_same s t \<Longrightarrow> send_same t u \<Longrightarrow> send_same s u" "read_same s t \<Longrightarrow> read_same t u \<Longrightarrow> read_same s u"
  by (simp_all add: send_same_def read_same_def)

lemma other_direction: "in_step r s \<Longrightarrow> send_same s s' \<Longrightarrow> read_same r r' \<Longrightarrow> in_step r' s'"
  by (simp add: in_step_def send_same_def read_same_def)

lemma after_read_same: "kd_macKey r \<noteq> [] \<Longrightarrow> read_same r (after_read pr r st)"
  by (simp add: read_same_def after_read_def ensureAuthenticatedUser_def Let_def)

text \<open>One call of \<open>sendPacketNow\<close> and one round of the read loop.\<close>

lemma mux_packet_roundtrip:
  assumes pr: "primitives_ok (ce_pr ce)" and step: "in_step s (rs_kd rs)" and len: "length payload \<le> MaxPacketPayloadSize"
  shows "\<exists>out s' pos' r'. sendPacketNow ce s c payload None ts utc True pos = (Inr out, s', pos') \<and>
    read_packet (ce_pr ce) add sched now (rs\<lparr>rs_inp := out @ rest\<rparr>) =
      Some (ReadPacket c payload (length out), rs\<lparr>rs_kd := r', rs_inp := rest\<rparr>) \<and> in_step s' r' \<and>
    r' = after_read (ce_pr ce) (rs_kd rs) (the (cc_encStream (kd_conn s'))) \<and> send_same s s' \<and> read_same (rs_kd rs) r'"
proof -
  from step obtain pool st where S: "kd_sendObfPool s = Some pool" "kd_recvObfPool (rs_kd rs) = Some pool" "pool_ok pool"
      "cc_encStream (kd_conn s) = Some st" "cc_decStream (kd_conn (rs_kd rs)) = Some st"
      "kd_macKey s = kd_macKey (rs_kd rs)" "kd_macKey (rs_kd rs) \<noteq> []" "cc_sendNonce (kd_conn s) = []" "cc_recvNonce (kd_conn (rs_kd rs))"
      "kd_isServer s \<or> kd_hasSentTimestamp s" by (auto simp: in_step_def)
  obtain paddingSize pos1 where ps: "calculatePadding ce (Some pool) c payload pos = (paddingSize, pos1)" by fastforce
  obtain split pos2 where sp: "fakePaddingSplitValue ce paddingSize pos1 = (split, pos2)" by fastforce
  obtain wp s1 pos3 where b: "build_data_packet ce s pool 0 c payload paddingSize split pos2 = Inr (wp, s1, pos3)"
    using build_data_packet_succeeds [OF S(4)] by blast
  have so: "split_ok paddingSize split" using fakePaddingSplitValue_ok [of paddingSize ce pos1] sp by simp
  define rs1 where "rs1 = rs\<lparr>rs_inp := packet_bytes wp @ rest\<rparr>"
  have ps': "paddingSize = fst (calculatePadding ce (Some pool) c payload pos)" by (simp add: ps)
  have R: "read_packet (ce_pr ce) add sched now rs1 = Some (ReadPacket c payload (length (packet_bytes wp)),
      rs1\<lparr>rs_kd := after_read (ce_pr ce) (rs_kd rs1) (the (cc_encStream (kd_conn s1))), rs_inp := rest\<rparr>)"
    and R2: "\<exists>st'. kd_conn s1 = (kd_conn s)\<lparr>cc_encStream := Some st'\<rparr>" "s1 = s\<lparr>kd_conn := kd_conn s1, kd_obfPacketID := kd_obfPacketID s1\<rparr>"
    by (rule data_packet_read [where rs = rs1 and rest = rest, OF pr S(3) len ps' so S(4) _ _ _ _ _ _ b]; use S in \<open>simp add: rs1_def\<close>)+
  obtain st' where c1: "kd_conn s1 = (kd_conn s)\<lparr>cc_encStream := Some st'\<rparr>" using R2(1) by blast
  define s' where "s' = s1\<lparr>kd_conn := (kd_conn s1)\<lparr>cc_sendNonce := []\<rparr>\<rparr>"
  define r' where "r' = after_read (ce_pr ce) (rs_kd rs) (the (cc_encStream (kd_conn s')))"
  have "PendingSendNonceLen (kd_conn s) = 0" using S(8) by (simp add: PendingSendNonceLen_def)
  then have send: "sendPacketNow ce s c payload None ts utc True pos = (Inr (packet_bytes wp), s', pos3)"
    using S(10) c1 S(8) by (auto simp: sendPacketNow_def S(1) ps sp b writeWirePackets_def TakeSendNonce_def s'_def
        wire_data_def packet_bytes_def store_next_pool_def)
  have f: "kd_sendObfPool s1 = kd_sendObfPool s" "kd_macKey s1 = kd_macKey s" "kd_isServer s1 = kd_isServer s"
    "kd_hasSentTimestamp s1 = kd_hasSentTimestamp s" by (subst R2(2), simp)+
  have "in_step s' r'"
    using S c1 f ensure_macKey [OF S(7), of "ce_pr ce"] unfolding in_step_def s'_def r'_def after_read_def by simp
  moreover have "rs1\<lparr>rs_kd := x, rs_inp := rest\<rparr> = rs\<lparr>rs_kd := x, rs_inp := rest\<rparr>" for x by (cases rs) (simp add: rs1_def)
  moreover have "after_read (ce_pr ce) (rs_kd rs1) (the (cc_encStream (kd_conn s1))) = r'" by (simp add: r'_def s'_def rs1_def)
  moreover have "send_same s s'" unfolding s'_def by (subst R2(2)) (use c1 in \<open>simp add: send_same_def\<close>)
  ultimately show ?thesis using send R after_read_same [OF S(7)] unfolding rs1_def r'_def by metis
qed

fun send_all :: "codec_env \<Rightarrow> codec \<Rightarrow> (byte \<times> bytes) list \<Rightarrow> nat \<Rightarrow> (bytes \<times> codec \<times> nat) option" where
  "send_all ce kd [] pos = Some ([], kd, pos)"
| "send_all ce kd ((c, payload) # ps) pos =
     (case sendPacketNow ce kd c payload None [] 0 True pos of
        (Inl e, _) \<Rightarrow> None
      | (Inr out, kd1, pos1) \<Rightarrow>
          (case send_all ce kd1 ps pos1 of
             None \<Rightarrow> None
           | Some (out', kd2, pos2) \<Rightarrow> Some (out @ out', kd2, pos2)))"

lemma stream_roundtrip:
  assumes pr: "primitives_ok (ce_pr ce)"
  shows "in_step s (rs_kd rs) \<Longrightarrow> \<forall>(c, payload) \<in> set ps. length payload \<le> MaxPacketPayloadSize \<Longrightarrow>
    \<exists>out s' pos' r'. send_all ce s ps pos = Some (out, s', pos') \<and>
      read_packets (length ps) (ce_pr ce) add sched now (rs\<lparr>rs_inp := out @ rest\<rparr>) = Some (ps, rs\<lparr>rs_kd := r', rs_inp := rest\<rparr>) \<and>
      in_step s' r' \<and> send_same s s' \<and> read_same (rs_kd rs) r'"
proof (induction ps arbitrary: s rs pos)
  case Nil
  have "rs\<lparr>rs_inp := rest\<rparr> = rs\<lparr>rs_kd := rs_kd rs, rs_inp := rest\<rparr>" by (cases rs) simp
  with Nil.prems(1) show ?case by (auto intro: exI [of _ "rs_kd rs"])
next
  case (Cons p ps)
  obtain c payload where p: "p = (c, payload)" by fastforce
  have len: "length payload \<le> MaxPacketPayloadSize" using Cons.prems(2) p by simp
  note P = mux_packet_roundtrip [OF pr Cons.prems(1) len, of c "[]" 0 pos add sched now]
  obtain out s1 pos1 where send: "sendPacketNow ce s c payload None [] 0 True pos = (Inr out, s1, pos1)" and same1: "send_same s s1"
    using P by blast
  define r1 where "r1 = after_read (ce_pr ce) (rs_kd rs) (the (cc_encStream (kd_conn s1)))"
  have rd: "read_packet (ce_pr ce) add sched now (rs\<lparr>rs_inp := out @ rest'\<rparr>) =
      Some (ReadPacket c payload (length out), rs\<lparr>rs_kd := r1, rs_inp := rest'\<rparr>) \<and> in_step s1 r1 \<and> read_same (rs_kd rs) r1" for rest'
    using P [of rest'] send by (auto simp: r1_def)
  obtain out2 s2 pos2 r2 where ih: "send_all ce s1 ps pos1 = Some (out2, s2, pos2)"
      "read_packets (length ps) (ce_pr ce) add sched now ((rs\<lparr>rs_kd := r1\<rparr>)\<lparr>rs_inp := out2 @ rest\<rparr>) =
        Some (ps, (rs\<lparr>rs_kd := r1\<rparr>)\<lparr>rs_kd := r2, rs_inp := rest\<rparr>)" "in_step s2 r2" "send_same s1 s2" "read_same r1 r2"
    using Cons.IH [of s1 "rs\<lparr>rs_kd := r1\<rparr>" pos1] rd Cons.prems(2) by auto
  have "read_packets (length (p # ps)) (ce_pr ce) add sched now (rs\<lparr>rs_inp := (out @ out2) @ rest\<rparr>) =
      Some (p # ps, rs\<lparr>rs_kd := r2, rs_inp := rest\<rparr>)"
    using rd [of "out2 @ rest"] ih(2) by (simp add: p)
  moreover have "send_all ce s (p # ps) pos = Some (out @ out2, s2, pos2)" by (simp add: p send ih(1))
  ultimately show ?case using ih(3) same_trans(1) [OF same1 ih(4)] same_trans(2) [OF _ ih(5)] rd by blast
qed

end
