(* ===== verification/ObfSample.thy ===== *)
theory ObfSample
  imports ObfHeader
begin

text \<open>
  A concrete run of the pool generator, for the statements about generated pools: the generator is evaluated on natural
  numbers, and the layout of one key and the headers of one seed are computed.
\<close>

section \<open>Evaluation\<close>

text \<open>The generator on natural numbers, for concrete runs.\<close>

definition pcg_at :: "nat \<Rightarrow> nat \<Rightarrow> pcg32" where
  "pcg_at s i = \<lparr>pcg_state = word_of_nat s, pcg_inc = word_of_nat i\<rparr>"

definition pcg_out :: "nat \<Rightarrow> nat" where
  "pcg_out s =
     (let x = ((s div 2 ^ 18 XOR s) div 2 ^ 27) mod 2 ^ 32; r = s div 2 ^ 59; k = (32 - r) mod 32
      in (x * 2 ^ k) mod 2 ^ 32 OR x div 2 ^ (32 - k))"

lemma unat_drop_bit: "unat (drop_bit k w) = unat w div 2 ^ k"
proof -
  have "take_bit LENGTH('a) (unat (w :: 'a :: len word)) = unat w" by (rule take_bit_nat_eq_self) (rule unsigned_less)
  then have "drop_bit k (take_bit LENGTH('a) (unat w)) = drop_bit k (unat w)" by simp
  then show ?thesis by (simp add: unsigned_drop_bit_eq drop_bit_eq_div [where 'a = nat])
qed

lemma pcg_out: "unat (fst (pcg_next p)) = pcg_out (unat (pcg_state p))"
proof -
  define x where "x = (ucast (drop_bit 27 (drop_bit 18 (pcg_state p) XOR pcg_state p)) :: u32)"
  define r where "r = unat (drop_bit 59 (pcg_state p))"
  have x: "unat x = (unat (pcg_state p) div 2 ^ 18 XOR unat (pcg_state p)) div 2 ^ 27 mod 2 ^ 32"
    unfolding x_def unsigned_ucast_eq unat_drop_bit unsigned_xor_eq take_bit_eq_mod by (simp only: len_of_numeral_defs) simp
  have r: "r = unat (pcg_state p) div 2 ^ 59" unfolding r_def by (rule unat_drop_bit)
  have "fst (pcg_next p) = push_bit ((32 - r) mod 32) x OR drop_bit (32 - (32 - r) mod 32) x"
    unfolding pcg_next_def rotate_right32_def Let_def x_def r_def by (simp only: fst_conv)
  also have "unat \<dots> = pcg_out (unat (pcg_state p))"
    unfolding pcg_out_def Let_def x [symmetric] r [symmetric] unsigned_or_eq unat_drop_bit unsigned_push_bit_eq
      push_bit_eq_mult [where 'a = nat] take_bit_eq_mod by simp
  finally show ?thesis .
qed

lemma len64: "LENGTH(64) = 64" by simp

lemma pcg_at_state: "s < 2 ^ 64 \<Longrightarrow> unat (pcg_state (pcg_at s i)) = s"
  unfolding pcg_at_def pcg32.simps unat_of_nat by (simp only: mod_less len64)

lemma pcg_at_wrap: "(word_of_nat (n mod 2 ^ 64) :: u64) = word_of_nat n"
  using word_of_nat_eq_iff [of "n mod 2 ^ 64" n, where 'a = 64] unfolding take_bit_eq_mod len64 mod_mod_trivial by blast

lemma pcg_next_at:
  assumes "s < 2 ^ 64"
  shows "pcg_next (pcg_at s i) = (word_of_nat (pcg_out s), pcg_at ((s * 6364136223846793005 + i) mod 2 ^ 64) i)"
proof -
  have "fst (pcg_next (pcg_at s i)) = word_of_nat (pcg_out s)"
    using pcg_out [of "pcg_at s i"] unfolding pcg_at_state [OF assms] by (metis of_nat_unat ucast_id)
  moreover have "snd (pcg_next (pcg_at s i)) = pcg_at ((s * 6364136223846793005 + i) mod 2 ^ 64) i"
    unfolding pcg_at_def pcg_at_wrap by (simp add: pcg_next_def pcgMult_def Let_def)
  ultimately show ?thesis by (metis prod.collapse)
qed

lemma rng_bytes_from_eval:
  "rng_bytes_from p i n ht =
    (if n = 0 then ([], p)
     else (let (r, p1) = pcg_next p; (bs, p2) = rng_bytes_from p1 (i + 1) (n - 1) ht in (rng_byte ht i r # bs, p2)))"
  by (cases n) simp_all

lemma shuffle_from_eval:
  "shuffle_from i n xs p =
    (if n = 0 then (xs, p)
     else (let (d, p') = draw (length xs - i) p; j = i + d in shuffle_from (i + 1) (n - 1) (xs[i := xs ! j, j := xs ! i]) p'))"
  by (cases n) simp_all

lemma data_headers_eval:
  "data_headers ht magicLen n seen p =
    (if n = 0 then Some ([], p)
     else (case fresh_header ht magicLen seen p of
        None \<Rightarrow> None
      | Some (h, p1) \<Rightarrow>
          (case data_headers ht magicLen (n - 1) (h_Head h # seen) p1 of
             None \<Rightarrow> None
           | Some (hs, p2) \<Rightarrow> Some (h # hs, p2))))"
  by (cases n) (simp_all only: data_headers.simps if_True if_False nat.distinct diff_Suc_1 simp_thms)

lemma shuffle_from_9: "length xs = 9 \<Longrightarrow> shuffle_from i n xs p =
    (if n = 0 then (xs, p)
     else (let (d, p') = draw (9 - i) p; j = i + d in shuffle_from (i + 1) (n - 1) (xs[i := xs ! j, j := xs ! i]) p'))"
  by (simp add: shuffle_from_eval [of i n])

lemma length_field_candidates: "length field_candidates = 9" by (simp add: field_candidates_def)

lemmas draw_eval = pcg_next_at pcg_out_def Let_def draw_def randomHeaderLen_def chooseSize_def rngBytes_def rng_bytes_from_eval
  rng_byte_def obf_consts numeral_2_eq_2 [symmetric]

definition sample_sha :: "bytes \<Rightarrow> bytes" where "sample_sha b = replicate 32 34"
definition sample_expo :: "u32 \<Rightarrow> int \<Rightarrow> int \<Rightarrow> int" where "sample_expo u mn mx = mn"

lemma data_headers_split:
  assumes "data_headers ht m a seen p = Some (hs, p1)" and "data_headers ht m b (rev (map h_Head hs) @ seen) p1 = Some (hs', p2)"
  shows "data_headers ht m (a + b) seen p = Some (hs @ hs', p2)"
  using assms
proof (induction a arbitrary: seen p hs)
  case (Suc a)
  obtain h q where h: "fresh_header ht m seen p = Some (h, q)" using Suc.prems(1) by (auto split: option.splits)
  obtain hs0 q' where hs0: "data_headers ht m a (h_Head h # seen) q = Some (hs0, q')"
    using Suc.prems(1) h by (auto split: option.splits)
  have "hs = h # hs0" "q' = p1" using Suc.prems(1) h hs0 by simp_all
  then show ?case using Suc.IH [OF hs0 [unfolded \<open>q' = p1\<close>]] Suc.prems(2) h by simp
qed simp

text \<open>A run: the layout of a key with both data fields, and the first sixteen headers of a seed.\<close>

lemma sample_seeds:
  "newPCG32 167 = pcg_at 11069832218498679357 13005396917011789751"
  "seedRNG 2459565876494606882 2459565876494606882 = pcg_at 8737613487297289568 4919131752989213765"
  by (simp_all add: newPCG32_def seedRNG_def pcg_next_def pcgMult_def Let_def pcgDefaultSeq_def pcg_at_def)

lemma sample_sum: "get64 (replicate 8 34) = 2459565876494606882"
  by code_simp

lemma sample_layout:
  "generateHandshakeLayout sample_sha sample_expo [] =
     \<lparr>l_MagicLen = 3, l_VersionKind = versionString, l_VersionLen = 7, l_VersionSegments = [2, 1, 2], l_LenOffset = 53,
      l_Fields = [\<lparr>f_Kind = handshakeFieldPacketID, f_Size = 2, f_Value = 0\<rparr>,
        \<lparr>f_Kind = handshakeFieldLen, f_Size = 2, f_Value = 53\<rparr>,
        \<lparr>f_Kind = handshakeFieldClientID, f_Size = 2, f_Value = 0\<rparr>],
      l_DataMagicLen = 2, l_DataHasLen = True, l_DataHasID = True,
      l_DataFields = [handshakeFieldPacketID, handshakeFieldLen]\<rparr>"
  by (simp add: generateHandshakeLayout_def sample_sha_def sample_sum sample_seeds draw_eval field_candidates_def shuffle_from_9
    length_field_candidates version_kind_def isDataField_def make_field_def cong: prod.case_cong_weak option.case_cong_weak)

lemma sample_draws:
  "rngBytes (newPCG32 167) 8 HeaderTypeAny = ([127, 2, 16, 50, 164, 185, 141, 24], pcg_at 7898887929379881285 13005396917011789751)"
  "draw 65 (pcg_at 7898887929379881285 13005396917011789751) = (26, pcg_at 1619274371667340248 13005396917011789751)"
  "draw 64 (pcg_at 1619274371667340248 13005396917011789751) = (0, pcg_at 13330364003622491311 13005396917011789751)"
  "draw 449 (pcg_at 13330364003622491311 13005396917011789751) = (336, pcg_at 5365469980401118074 13005396917011789751)"
  by (simp_all add: sample_seeds draw_eval cong: prod.case_cong_weak)

lemma sample_headers_1:
  "data_headers HeaderTypeAny 2 4 [] (pcg_at 5365469980401118074 13005396917011789751) =
     Some ([\<lparr>h_Len = 2, h_Head = [65, 22], h_LenOffset = 17\<rparr>,
       \<lparr>h_Len = 2, h_Head = [47, 194], h_LenOffset = 2\<rparr>,
       \<lparr>h_Len = 2, h_Head = [137, 224], h_LenOffset = 8\<rparr>,
       \<lparr>h_Len = 2, h_Head = [45, 202], h_LenOffset = 6\<rparr>], pcg_at 10683505848604133322 13005396917011789751)"
  by (simp add: draw_eval data_headers_eval fresh_header.simps draw_header_def cong: prod.case_cong_weak option.case_cong_weak)

lemma sample_headers_2:
  "data_headers HeaderTypeAny 2 4 [[45, 202], [137, 224], [47, 194], [65, 22]] (pcg_at 10683505848604133322 13005396917011789751) =
     Some ([\<lparr>h_Len = 2, h_Head = [199, 248], h_LenOffset = 9\<rparr>,
       \<lparr>h_Len = 2, h_Head = [185, 237], h_LenOffset = 2\<rparr>,
       \<lparr>h_Len = 2, h_Head = [131, 192], h_LenOffset = 2\<rparr>,
       \<lparr>h_Len = 2, h_Head = [75, 153], h_LenOffset = 2\<rparr>], pcg_at 6179553262035589146 13005396917011789751)"
  by (simp add: draw_eval data_headers_eval fresh_header.simps draw_header_def cong: prod.case_cong_weak option.case_cong_weak)

lemma sample_headers_3:
  "data_headers HeaderTypeAny 2 4 [[75, 153], [131, 192], [185, 237], [199, 248], [45, 202], [137, 224], [47, 194], [65, 22]] (pcg_at 6179553262035589146 13005396917011789751) =
     Some ([\<lparr>h_Len = 2, h_Head = [26, 7], h_LenOffset = 6\<rparr>,
       \<lparr>h_Len = 2, h_Head = [6, 128], h_LenOffset = 13\<rparr>,
       \<lparr>h_Len = 2, h_Head = [254, 23], h_LenOffset = 10\<rparr>,
       \<lparr>h_Len = 2, h_Head = [102, 45], h_LenOffset = 3\<rparr>], pcg_at 10105098634013809770 13005396917011789751)"
  by (simp add: draw_eval data_headers_eval fresh_header.simps draw_header_def cong: prod.case_cong_weak option.case_cong_weak)

lemma sample_headers_4:
  "data_headers HeaderTypeAny 2 4 [[102, 45], [254, 23], [6, 128], [26, 7], [75, 153], [131, 192], [185, 237], [199, 248], [45, 202], [137, 224], [47, 194], [65, 22]] (pcg_at 10105098634013809770 13005396917011789751) =
     Some ([\<lparr>h_Len = 2, h_Head = [112, 198], h_LenOffset = 9\<rparr>,
       \<lparr>h_Len = 2, h_Head = [237, 158], h_LenOffset = 6\<rparr>,
       \<lparr>h_Len = 2, h_Head = [43, 186], h_LenOffset = 0\<rparr>,
       \<lparr>h_Len = 2, h_Head = [194, 199], h_LenOffset = 12\<rparr>], pcg_at 17516321150532244666 13005396917011789751)"
  by (simp add: draw_eval data_headers_eval fresh_header.simps draw_header_def cong: prod.case_cong_weak option.case_cong_weak)

lemma sample_headers: "\<exists>hs p. data_headers HeaderTypeAny 2 16 [] (pcg_at 5365469980401118074 13005396917011789751) = Some (hs, p)"
proof -
  have "\<exists>hs p. data_headers HeaderTypeAny 2 (4 + (4 + (4 + 4))) [] (pcg_at 5365469980401118074 13005396917011789751) = Some (hs, p)"
    by (intro exI, rule data_headers_split [OF sample_headers_1], rule data_headers_split, simp, rule sample_headers_2,
      rule data_headers_split, simp, rule sample_headers_3, simp, rule sample_headers_4)
  then show ?thesis by simp
qed

lemma sample_pool: "\<exists>pool. GeneratePoolWithKey sample_sha sample_expo 167 HeaderTypeAny [] = Some pool"
proof -
  obtain hs p where "data_headers HeaderTypeAny 2 16 [] (pcg_at 5365469980401118074 13005396917011789751) = Some (hs, p)" using sample_headers by blast
  then show ?thesis
    by (simp add: GeneratePoolWithKey_def sample_layout HandshakeObfMagicMaxLen_def sample_draws split_beta Let_def)
qed

text \<open>
  C26. Every pool that the generator returns is well formed: the data headers have the magic length of the layout, are
  pairwise different and form the two groups, and the lookup tables hold exactly them with length offsets of at most 17; the
  magic and the optional fields fit the six header bytes; the flags agree with the fields; the padding table has 256
  increasing thresholds starting at 0, every padding is at most 511, the row limits are below 128 and the bounds of the
  random padding and the drain offset are in range.
\<close>

theorem generated_pool_ok:
  assumes "GeneratePoolWithKey sha256 expo v ht serverKey = Some pool"
  shows "pool_ok pool"
  by (rule GeneratePool_ok [OF assms])

theorem generated_pool_ok_witness:
  "\<exists>pool. GeneratePoolWithKey sample_sha sample_expo 167 HeaderTypeAny [] = Some pool \<and> pool_ok pool"
  using sample_pool generated_pool_ok by blast

text \<open>
  A later header that the sender selects is read back by the receiver, whichever header of the pool the random choice
  takes: it has six bytes and passes the check, the boundary size that it carries is the wire size that was put in, for
  every size of at least 17 bytes (no packet is smaller), the packet id is found where the receiver looks for it, and the
  check of the length value accepts it.
\<close>

theorem data_header_roundtrip:
  assumes "pool_ok pool" and "17 \<le> unat (dc_WireSize ctx)"
    and hdr_def: "hdr = SelectHeaderWithContext pool large idx rnd ctx"
  shows "length hdr = DataObfHeaderSize \<and> ValidateHeader (Some pool) hdr \<and>
    (p_DataHeaderHasLen pool \<longrightarrow> DataHeaderBoundarySize (Some pool) hdr = Some (dc_WireSize ctx)) \<and>
    (p_DataHeaderHasID pool \<longrightarrow>
      (\<exists>off. DataHeaderPacketIDOffset (Some pool) = Some off \<and> off + 2 \<le> length hdr \<and> get16 (slice hdr off 2) = dc_PacketID ctx)) \<and>
    ValidateHeaderPaddingLen (Some pool) hdr (dc_WireSize ctx)"
proof -
  have "0 < dc_WireSize ctx" using assms(2) by (simp add: word_less_nat_alt)
  moreover have "\<exists>off. DataHeaderPacketIDOffset (Some pool) = Some off \<and> off + 2 \<le> length hdr \<and> get16 (slice hdr off 2) = dc_PacketID ctx"
    if "p_DataHeaderHasID pool"
    using SelectHeader_field [OF assms(1), of handshakeFieldPacketID large idx rnd ctx] that pool_ok_fields(4) [OF assms(1)]
    by (auto simp: DataHeaderPacketIDOffset_def hdr_def SelectHeader_length [OF assms(1)])
  ultimately show ?thesis
    using SelectHeader_length SelectHeader_valid SelectHeader_boundary SelectHeader_padding_len assms(1,2)
    unfolding hdr_def by blast
qed

theorem data_header_roundtrip_witness:
  "\<exists>pool. pool_ok pool \<and> p_DataHeaderHasLen pool \<and>
    DataHeaderBoundarySize (Some pool) (SelectHeaderWithContext pool True 3 (\<lambda>_. 9) \<lparr>dc_LenValue = 0, dc_WireSize = 300, dc_PacketID = 7\<rparr>) =
      Some 300"
proof -
  obtain pool where p: "GeneratePoolWithKey sample_sha sample_expo 167 HeaderTypeAny [] = Some pool" using sample_pool by blast
  then have "p_DataHeaderHasLen pool"
    by (auto simp: GeneratePoolWithKey_def sample_layout Let_def split_beta split: option.splits)
  with data_header_roundtrip [OF GeneratePool_ok [OF p], of "\<lparr>dc_LenValue = 0, dc_WireSize = 300, dc_PacketID = 7\<rparr>" _ True 3 "\<lambda>_. 9", OF _ refl]
    GeneratePool_ok [OF p] show ?thesis by auto
qed

text \<open>
  The receiver's check of a later header by a lookup in the precomputed set gives the same answer as the scan of the
  two groups of headers, on every input.
\<close>

theorem header_lookup_is_scan:
  assumes "pool_ok pool"
  shows "ValidateHeader (Some pool) hdr = ValidateHeader_scan (Some pool) hdr"
  by (rule ValidateHeader_eq_scan [OF assms])

theorem header_lookup_is_scan_witness:
  "\<exists>pool. pool_ok pool \<and> ValidateHeader (Some pool) [1, 2, 3, 4, 5, 6] = ValidateHeader_scan (Some pool) [1, 2, 3, 4, 5, 6]"
  using sample_pool GeneratePool_ok header_lookup_is_scan by blast

end
