(* ===== verification/ObfHandshake.thy ===== *)
theory ObfHandshake
  imports ObfSample
begin

text \<open>
  The first header between client and server: what the client writes for its epoch is accepted by the server, whose
  clock may be in the neighbouring epoch, with the length value the client put in; the prefilter on the first bytes does
  not turn it away; and the cache of pools is transparent.
\<close>

section \<open>Fields\<close>

definition field_bytes :: "handshakeLayout \<Rightarrow> HandshakeContext \<Rightarrow> handshakeField \<Rightarrow> bytes" where
  "field_bytes layout ctx f = writeUintBE (replicate (f_Size f) 0) (handshake_field_value f layout ctx)"

definition fields_size :: "handshakeField list \<Rightarrow> nat" where
  "fields_size fs = sum_list (map f_Size fs)"

lemma length_field_bytes [simp]: "field_ok f \<Longrightarrow> length (field_bytes layout ctx f) = f_Size f"
  by (auto simp: field_bytes_def writeUintBE_def field_ok_def)

lemma length_fields_bytes:
  "list_all field_ok fs \<Longrightarrow> length (concat (map (field_bytes layout ctx) fs)) = fields_size fs"
  by (induction fs) (simp_all add: fields_size_def)

lemma write_field_eq: "field_ok f \<Longrightarrow> length dst = f_Size f \<Longrightarrow> writeHandshakeField dst f layout ctx = field_bytes layout ctx f"
  by (auto simp: writeHandshakeField_def field_bytes_def writeUintBE_def field_ok_def)

lemma write_fields_eq:
  "list_all field_ok fs \<Longrightarrow> fields_size fs \<le> length rest \<Longrightarrow>
    write_fields (pre @ rest) (length pre) fs layout ctx =
      pre @ concat (map (field_bytes layout ctx) fs) @ drop (fields_size fs) rest"
proof (induction fs arbitrary: pre rest)
  case (Cons f fs)
  let ?b = "field_bytes layout ctx f" and ?m = "take (f_Size f) rest" and ?r = "drop (f_Size f) rest"
  have ok: "field_ok f" and le: "f_Size f \<le> length rest" using Cons.prems by (simp_all add: fields_size_def)
  then have lm: "length ?m = length ?b" by simp
  have s: "slice (pre @ rest) (length pre) (f_Size f) = ?m" by (simp add: slice_def)
  have "copy_at (pre @ ?m @ ?r) (length pre) ?b = pre @ ?b @ ?r" by (rule copy_at_append [OF lm refl])
  then have "write_fields (pre @ rest) (length pre) (f # fs) layout ctx =
      write_fields ((pre @ ?b) @ ?r) (length (pre @ ?b)) fs layout ctx"
    using ok le write_field_eq [OF ok, of ?m layout ctx] by (simp add: s)
  also have "\<dots> = pre @ concat (map (field_bytes layout ctx) (f # fs)) @ drop (fields_size (f # fs)) rest"
    using Cons.IH [of ?r "pre @ ?b"] Cons.prems by (simp add: fields_size_def add.commute)
  finally show ?case .
qed (simp add: fields_size_def)

lemma read_write_uint:
  assumes "n \<in> {1, 2, 4}"
  shows "readUintBE (writeUintBE (replicate n 0) v) = take_bit (8 * n) v"
proof -
  have "(ucast (ucast v :: byte) :: u32) = take_bit 8 v" "(ucast (ucast v :: u16) :: u32) = take_bit 16 v"
    by (rule bit_word_eqI; auto simp: bit_simps dest: bit_imp_le_length)+
  then show ?thesis using assms by (auto simp: readUintBE_def writeUintBE_def)
qed

text \<open>What the server reads of a field, when the length value and the clock are in range.\<close>

definition info_after :: "handshakeLayout \<Rightarrow> HandshakeContext \<Rightarrow> HandshakeInfo \<Rightarrow> HandshakeInfo" where
  "info_after layout ctx info =
     (if handshakeFieldLen \<in> f_Kind ` set (l_Fields layout)
      then \<lparr>hi_HasTimestampPaddingLen = True, hi_TimestampPaddingLen = hc_TimestampPadding ctx\<rparr> else info)"

definition context_ok :: "handshakeLayout \<Rightarrow> HandshakeContext \<Rightarrow> int \<Rightarrow> bool" where
  "context_ok layout ctx now \<longleftrightarrow>
     unat (hc_TimestampPadding ctx) + unat (l_LenOffset layout) < 65536 \<and> \<bar>uint (hc_UTCSeconds ctx) - now\<bar> \<le> 300"

lemma word_take_small: "unat (w :: 'a::len word) < 2 ^ n \<Longrightarrow> take_bit n w = w"
  by (simp add: word_unat_eq_iff unsigned_take_bit_eq take_bit_nat_eq_self)

lemma field_accepted:
  assumes "field_ok f" and "context_ok layout ctx now" and "layout_ok layout"
  shows "validate_field layout (hc_RawEpoch ctx) now f (readUintBE (field_bytes layout ctx f)) info =
    Some (if f_Kind f = handshakeFieldLen
      then \<lparr>hi_HasTimestampPaddingLen = True, hi_TimestampPaddingLen = hc_TimestampPadding ctx\<rparr> else info)"
proof -
  have n: "f_Size f \<in> {1, 2, 4}" using assms(1) by (simp add: field_ok_def)
  then have r: "readUintBE (field_bytes layout ctx f) = take_bit (8 * f_Size f) (handshake_field_value f layout ctx)"
    unfolding field_bytes_def by (rule read_write_uint)
  have fixed: "take_bit (8 * f_Size f) (f_Value f) = f_Value f"
    using assms(1) by (intro word_take_small) (simp add: field_ok_def)
  let ?tp = "hc_TimestampPadding ctx" and ?lo = "l_LenOffset layout"
  have tp: "unat (ucast ?tp + ucast ?lo :: u32) = unat ?tp + unat ?lo"
  proof -
    have "unat ?tp < 65536" "unat ?lo < 65536" using unsigned_less [of ?tp] unsigned_less [of ?lo] by simp_all
    then show ?thesis by (simp add: unat_word_ariths unsigned_ucast_eq take_bit_nat_eq_self)
  qed
  have len: "take_bit 16 (ucast ?tp + ucast ?lo :: u32) = ucast ?tp + ucast ?lo"
    using assms(2) by (intro word_take_small) (simp add: tp context_ok_def)
  have tp_back: "(ucast ((ucast ?tp + ucast ?lo) - ucast ?lo :: u32) :: u16) = ?tp"
    by simp
  have rng: "\<not> (ucast ?tp + ucast ?lo :: u32) < ucast ?lo" "\<not> 0xffff < (ucast ?tp + ucast ?lo :: u32)"
    using assms(2) unsigned_less [of ?lo] by (simp_all add: word_less_nat_alt tp context_ok_def unsigned_ucast_eq take_bit_nat_eq_self)
  have ep: "take_bit (8 * f_Size f) (ucast (hc_RawEpoch ctx) :: u32) = truncateUint (hc_RawEpoch ctx) (f_Size f)"
  proof -
    have "(ucast (v AND 0xff) :: u32) = take_bit 8 (ucast v)" "(ucast (v AND 0xffff) :: u32) = take_bit 16 (ucast v)"
      "(ucast (v AND 0xffffffff) :: u32) = ucast v" for v :: u64
    proof -
      have m: "v AND 0xff = take_bit 8 v" "v AND 0xffff = take_bit 16 v" "v AND 0xffffffff = take_bit 32 v"
        by (simp_all add: take_bit_eq_mask mask_numeral)
      show "(ucast (v AND 0xff) :: u32) = take_bit 8 (ucast v)" "(ucast (v AND 0xffff) :: u32) = take_bit 16 (ucast v)"
        "(ucast (v AND 0xffffffff) :: u32) = ucast v"
        unfolding m by (rule bit_word_eqI; auto simp: bit_simps dest: bit_imp_le_length)+
    qed
    then show ?thesis using n by (auto simp: truncateUint_def)
  qed
  have drift: "MaxTimeDrift div 1000000000 = 300" by (simp add: MaxTimeDrift_def seconds_def ReplayWindowSeconds_def)
  show ?thesis
    using assms(1,2) unfolding r
    by (cases "f_Kind f") (auto simp: validate_field_def handshake_field_value_def fixed len ep drift rng context_ok_def field_ok_def Let_def)
qed

lemma validate_fields_eq:
  "list_all field_ok fs \<Longrightarrow> context_ok layout ctx now \<Longrightarrow> layout_ok layout \<Longrightarrow>
    validate_fields (pre @ concat (map (field_bytes layout ctx) fs) @ rest) (length pre) fs layout (hc_RawEpoch ctx) now info =
      Some (if handshakeFieldLen \<in> f_Kind ` set fs
        then \<lparr>hi_HasTimestampPaddingLen = True, hi_TimestampPaddingLen = hc_TimestampPadding ctx\<rparr> else info)"
proof (induction fs arbitrary: pre info)
  case (Cons f fs)
  let ?b = "field_bytes layout ctx f" and ?r = "concat (map (field_bytes layout ctx) fs) @ rest"
  have ok: "field_ok f" using Cons.prems(1) by simp
  have "slice (pre @ ?b @ ?r) (length pre) (f_Size f) = ?b"
    using slice_append [of pre ?b ?r] ok by simp
  then have "validate_fields (pre @ concat (map (field_bytes layout ctx) (f # fs)) @ rest) (length pre) (f # fs) layout (hc_RawEpoch ctx) now info =
      validate_fields ((pre @ ?b) @ ?r) (length (pre @ ?b)) fs layout (hc_RawEpoch ctx) now
        (if f_Kind f = handshakeFieldLen
         then \<lparr>hi_HasTimestampPaddingLen = True, hi_TimestampPaddingLen = hc_TimestampPadding ctx\<rparr> else info)"
    using ok field_accepted [OF ok Cons.prems(2,3), of info] by simp
  also have "\<dots> = Some (if handshakeFieldLen \<in> f_Kind ` set (f # fs)
        then \<lparr>hi_HasTimestampPaddingLen = True, hi_TimestampPaddingLen = hc_TimestampPadding ctx\<rparr> else info)"
    using Cons.IH [of "pre @ ?b"] Cons.prems by auto
  finally show ?case .
qed simp

section \<open>Version\<close>

lemma length_cut_segments [simp]: "length (cut_segments ds off lens) = length lens"
  by (induction lens arbitrary: off) simp_all

lemma length_epochDecimalSegments [simp]: "length (epochDecimalSegments epoch lens) = length lens"
  by (simp add: epochDecimalSegments_def Let_def)

lemma length_copy_at: "off \<le> length dst \<Longrightarrow> length (copy_at dst off src) = length dst"
  by (simp add: copy_at_def min_def)

lemma triple_bytes:
  assumes "length xs = 3"
  shows "length (concat (map (\<lambda>s. put16 (word_of_nat s)) xs)) = 6"
    and "list_all (\<lambda>i. get16 (slice (concat (map (\<lambda>s. put16 (word_of_nat s)) xs)) (i * 2) 2) = word_of_nat (xs ! i)) [0..<3]"
proof -
  obtain a b c where xs: "xs = [a, b, c]" using assms by (auto simp: length_Suc_conv numeral_3_eq_3)
  show "length (concat (map (\<lambda>s. put16 (word_of_nat s)) xs)) = 6" by (simp add: xs)
  show "list_all (\<lambda>i. get16 (slice (concat (map (\<lambda>s. put16 (word_of_nat s)) xs)) (i * 2) 2) = word_of_nat (xs ! i)) [0..<3]"
    by (simp add: xs upt_rec slice_def)
qed

lemma version_accepted:
  assumes "layout_ok layout" and "length dst = l_VersionLen layout"
  shows "length (writeVersion dst layout epoch) = l_VersionLen layout" and "validateVersion (writeVersion dst layout epoch) layout epoch"
proof -
  have ok: "version_len_ok (l_VersionKind layout) (l_VersionLen layout)" "length (l_VersionSegments layout) = 3"
    using assms(1) by (simp_all add: layout_ok_def)
  note t = triple_bytes [of "epochDecimalSegments epoch (l_VersionSegments layout)"]
  show "length (writeVersion dst layout epoch) = l_VersionLen layout"
    using assms(2) by (simp add: writeVersion_def length_copy_at split: versionKind.splits)
  show "validateVersion (writeVersion dst layout epoch) layout epoch"
    using ok assms(2) t
    by (auto simp: validateVersion_def writeVersion_def copy_at_def Let_def split: versionKind.splits)
qed

section \<open>The whole head\<close>

lemma fields_size_bound: "list_all field_ok fs \<Longrightarrow> fields_size fs \<le> 4 * length fs"
  by (induction fs) (auto simp: fields_size_def field_ok_def)

lemma layout_size:
  assumes "layout_ok layout"
  shows "l_MagicLen layout + l_VersionLen layout + fields_size (l_Fields layout) \<le> 32" and "l_MagicLen layout \<le> 8"
proof -
  have "l_VersionLen layout \<le> 8"
    using assms by (cases "l_VersionKind layout") (auto simp: layout_ok_def)
  moreover have "fields_size (l_Fields layout) \<le> 12"
    using fields_size_bound [of "l_Fields layout"] assms by (simp add: layout_ok_def)
  ultimately show "l_MagicLen layout + l_VersionLen layout + fields_size (l_Fields layout) \<le> 32" "l_MagicLen layout \<le> 8"
    using assms by (simp_all add: layout_ok_def)
qed

lemma head_shape:
  assumes "layout_ok layout" and "pool_ok pool" and "length hdr = 32"
  shows "\<exists>ver rest. length ver = l_VersionLen layout \<and> validateVersion ver layout (hc_RawEpoch ctx) \<and>
    ver = writeVersion (slice hdr (l_MagicLen layout) (l_VersionLen layout)) layout (hc_RawEpoch ctx) \<and>
    writeHandshakeHead hdr pool layout ctx =
      take (l_MagicLen layout) (h_Head (p_HandshakeHeader pool)) @ ver @ concat (map (field_bytes layout ctx) (l_Fields layout)) @ rest \<and>
    length (writeHandshakeHead hdr pool layout ctx) = 32"
proof -
  define m where "m = l_MagicLen layout"
  define n where "n = l_VersionLen layout"
  define magic where "magic = take m (h_Head (p_HandshakeHeader pool))"
  have sz: "m + n + fields_size (l_Fields layout) \<le> 32" "m \<le> 8" using layout_size [OF assms(1)] by (simp_all add: m_def n_def)
  have fok: "list_all field_ok (l_Fields layout)" using assms(1) by (simp add: layout_ok_def)
  have lm: "length magic = m" using sz(2) assms(2) by (simp add: magic_def pool_ok_def HandshakeObfMagicMaxLen_def)
  define mid where "mid = take n (drop m hdr)"
  define post where "post = drop n (drop m hdr)"
  have "length magic \<le> 32" using sz lm by simp
  then have hdr1: "copy_at hdr 0 magic = magic @ mid @ post"
    unfolding mid_def post_def append_take_drop_id by (simp add: copy_at_def assms(3) lm)
  have lmid: "length mid = n" using sz by (simp add: mid_def assms(3))
  define ver where "ver = writeVersion mid layout (hc_RawEpoch ctx)"
  have V: "length ver = n" "validateVersion ver layout (hc_RawEpoch ctx)"
    unfolding ver_def n_def by (rule version_accepted [OF assms(1)], use lmid n_def in simp)+
  have sl: "slice (magic @ mid @ post) m n = mid" using slice_append [of magic mid post] by (simp add: lm lmid)
  have c2: "copy_at (magic @ mid @ post) m ver = magic @ ver @ post"
    using copy_at_append [of mid ver magic m post] by (simp add: lmid V(1) lm)
  have "write_fields ((magic @ ver) @ post) (length (magic @ ver)) (l_Fields layout) layout ctx =
      (magic @ ver) @ concat (map (field_bytes layout ctx) (l_Fields layout)) @ drop (fields_size (l_Fields layout)) post"
    by (rule write_fields_eq [OF fok]) (use sz in \<open>simp add: post_def assms(3)\<close>)
  then have w: "writeHandshakeHead hdr pool layout ctx =
      magic @ ver @ concat (map (field_bytes layout ctx) (l_Fields layout)) @ drop (fields_size (l_Fields layout)) post"
    unfolding writeHandshakeHead_def Let_def m_def [symmetric] n_def [symmetric] magic_def [symmetric] hdr1 sl
      ver_def [symmetric] c2 by (simp add: lm V(1))
  moreover have "length (writeHandshakeHead hdr pool layout ctx) = 32"
    unfolding w using sz length_fields_bytes [OF fok] by (simp add: lm V(1) post_def assms(3))
  moreover have "ver = writeVersion (slice hdr m n) layout (hc_RawEpoch ctx)" by (simp add: ver_def slice_def mid_def)
  ultimately show ?thesis using V unfolding m_def n_def magic_def by blast
qed

lemma head_accepted:
  assumes "layout_ok layout" and "pool_ok pool" and "length hdr = 32" and "context_ok layout ctx now"
  shows "validateHandshakeHead pool layout (writeHandshakeHead hdr pool layout ctx) (hc_RawEpoch ctx) now =
    Some (info_after layout ctx no_info)"
proof -
  define magic where "magic = take (l_MagicLen layout) (h_Head (p_HandshakeHeader pool))"
  obtain ver rest where s: "length ver = l_VersionLen layout" "validateVersion ver layout (hc_RawEpoch ctx)"
      "writeHandshakeHead hdr pool layout ctx = magic @ ver @ concat (map (field_bytes layout ctx) (l_Fields layout)) @ rest"
    using head_shape [OF assms(1-3), of ctx] unfolding magic_def by blast
  have lm: "length magic = l_MagicLen layout"
    using layout_size [OF assms(1)] assms(2) by (simp add: magic_def pool_ok_def HandshakeObfMagicMaxLen_def)
  have fok: "list_all field_ok (l_Fields layout)" using assms(1) by (simp add: layout_ok_def)
  have "validate_fields ((magic @ ver) @ concat (map (field_bytes layout ctx) (l_Fields layout)) @ rest) (length (magic @ ver))
      (l_Fields layout) layout (hc_RawEpoch ctx) now no_info = Some (info_after layout ctx no_info)"
    unfolding info_after_def by (rule validate_fields_eq [OF fok assms(4,1)])
  moreover have "slice (magic @ ver @ concat (map (field_bytes layout ctx) (l_Fields layout)) @ rest) (l_MagicLen layout) (l_VersionLen layout) = ver"
    using slice_append [of magic ver] by (simp only: lm s(1))
  moreover have "matchHeader \<lparr>h_Len = l_MagicLen layout, h_Head = magic, h_LenOffset = 0\<rparr> (magic @ ver @ concat (map (field_bytes layout ctx) (l_Fields layout)) @ rest)"
    by (subst matchHeader_take) (use lm in simp_all)
  ultimately show ?thesis
    unfolding validateHandshakeHead_def s(3) magic_def [symmetric] using s(1,2) by (simp add: lm)
qed

section \<open>The cache of pools\<close>

definition pool_of :: "primitives \<Rightarrow> string \<Rightarrow> HeaderType \<Rightarrow> u64 \<Rightarrow> Pool option" where
  "pool_of pr password ht v = GeneratePoolWithKey (pr_sha256 pr) (pr_expo pr) v ht password"

definition cache_ok :: "primitives \<Rightarrow> pool_cache \<Rightarrow> bool" where
  "cache_ok pr cache \<longleftrightarrow> (\<forall>password ht. cache password ht \<subseteq>\<^sub>m pool_of pr password ht)"

definition candidate :: "primitives \<Rightarrow> string \<Rightarrow> HeaderType \<Rightarrow> u64 \<Rightarrow> u64 \<Rightarrow> cachedPool" where
  "candidate pr password ht k2 e =
     (let v = computeVFromEpoch pr e k2 in \<lparr>cp_epoch = e, cp_v = v, cp_pool = the (pool_of pr password ht v)\<rparr>)"

lemma fill_pools_spec:
  "byV \<subseteq>\<^sub>m pool_of pr password ht \<Longrightarrow> \<forall>e \<in> set es. pool_of pr password ht (computeVFromEpoch pr e k2) \<noteq> None \<Longrightarrow>
    \<exists>byV'. fill_pools pr password ht k2 es byV = Some (map (candidate pr password ht k2) es, byV') \<and>
      byV' \<subseteq>\<^sub>m pool_of pr password ht \<and> dom byV' = dom byV \<union> (\<lambda>e. computeVFromEpoch pr e k2) ` set es"
proof (induction es arbitrary: byV)
  case (Cons e es)
  define v where "v = computeVFromEpoch pr e k2"
  obtain pool where p: "pool_of pr password ht v = Some pool" using Cons.prems(2) by (auto simp: v_def)
  define byV1 where "byV1 = byV(v \<mapsto> pool)"
  have same: "byV = byV1" if "byV v = Some q" for q
    using that Cons.prems(1) p unfolding byV1_def map_le_def by (metis domI fun_upd_triv option.inject)
  have "byV1 \<subseteq>\<^sub>m pool_of pr password ht" using Cons.prems(1) p by (auto simp: byV1_def map_le_def)
  then obtain byV2 where r: "fill_pools pr password ht k2 es byV1 = Some (map (candidate pr password ht k2) es, byV2)"
      "byV2 \<subseteq>\<^sub>m pool_of pr password ht" "dom byV2 = dom byV1 \<union> (\<lambda>e. computeVFromEpoch pr e k2) ` set es"
    using Cons.IH [of byV1] Cons.prems(2) by auto
  have "(case byV v of Some pool \<Rightarrow> Some (pool, byV)
      | None \<Rightarrow> (case GeneratePoolWithKey (pr_sha256 pr) (pr_expo pr) v ht password of
          None \<Rightarrow> None | Some pool \<Rightarrow> Some (pool, byV(v \<mapsto> pool)))) = Some (pool, byV1)"
    using p same byV1_def by (cases "byV v") (auto simp: pool_of_def, metis fun_upd_same option.inject)
  then have "fill_pools pr password ht k2 (e # es) byV = Some (map (candidate pr password ht k2) (e # es), byV2)"
    unfolding fill_pools.simps Let_def v_def [symmetric] by (simp add: r(1) candidate_def Let_def v_def [symmetric] p)
  moreover have "dom byV2 = dom byV \<union> (\<lambda>e. computeVFromEpoch pr e k2) ` set (e # es)" using r(3) by (auto simp: byV1_def v_def)
  ultimately show ?case using r(2) by blast
qed simp

lemma cachedHandshakePools_spec:
  assumes "cache_ok pr cache"
    and "\<forall>e \<in> set (candidateHandshakeEpochs epoch). pool_of pr password ht (computeVFromEpoch pr e k2) \<noteq> None"
  shows "\<exists>cache'. cachedHandshakePools pr cache password ht epoch k2 =
      Some (map (candidate pr password ht k2) (candidateHandshakeEpochs epoch), cache') \<and> cache_ok pr cache' \<and>
    dom (cache' password ht) = set (candidateHandshakeVs pr epoch k2)"
proof -
  have "cache password ht |` set (candidateHandshakeVs pr epoch k2) \<subseteq>\<^sub>m pool_of pr password ht"
    using assms(1) unfolding cache_ok_def map_le_def by (metis domI domIff restrict_in restrict_out)
  from fill_pools_spec [OF this assms(2)] obtain byV' where
    "fill_pools pr password ht k2 (candidateHandshakeEpochs epoch) (cache password ht |` set (candidateHandshakeVs pr epoch k2)) =
      Some (map (candidate pr password ht k2) (candidateHandshakeEpochs epoch), byV')"
    "byV' \<subseteq>\<^sub>m pool_of pr password ht"
    "dom byV' = dom (cache password ht |` set (candidateHandshakeVs pr epoch k2)) \<union>
      (\<lambda>e. computeVFromEpoch pr e k2) ` set (candidateHandshakeEpochs epoch)" by blast
  then show ?thesis
    using assms(1) by (auto simp: cachedHandshakePools_def cache_ok_def candidateHandshakeVs_def)
qed

section \<open>Acceptance\<close>

lemma first_valid_hit:
  assumes "e \<in> set es" and "\<forall>e' \<in> set (takeWhile (\<lambda>x. x \<noteq> e) es). \<not> ValidateHandshakeHeaderAuth pr (computeVFromEpoch pr e' k2) hdr"
    and "ValidateHandshakeHeaderAuth pr (computeVFromEpoch pr e k2) hdr"
    and "validateHandshakeHead (cp_pool (candidate pr password ht k2 e)) layout (take HandshakeObfHeaderSize hdr) e now = Some info"
  shows "first_valid pr layout hdr now (map (candidate pr password ht k2) es) =
    Some (cp_pool (candidate pr password ht k2 e), computeVFromEpoch pr e k2, info)"
  using assms
proof (induction es)
  case (Cons x es)
  have c: "cp_v (candidate pr password ht k2 x) = computeVFromEpoch pr x k2" "cp_epoch (candidate pr password ht k2 x) = x" for x
    by (simp_all add: candidate_def Let_def)
  show ?case
  proof (cases "x = e")
    case True
    then show ?thesis using Cons.prems(3,4) by (simp add: c)
  next
    case False
    then show ?thesis using Cons by (simp add: c)
  qed
qed simp

lemma prefix_auth:
  assumes "primitives_ok pr" and "length head = 32"
  shows "length (head @ handshakeHeaderAuth pr v head) = HandshakeObfPrefixSize"
    and "take HandshakeObfHeaderSize (head @ handshakeHeaderAuth pr v head) = head"
    and "ValidateHandshakeHeaderAuth pr w (head @ handshakeHeaderAuth pr v head) \<longleftrightarrow>
      handshakeHeaderAuth pr w head = handshakeHeaderAuth pr v head"
  using assms by (auto simp: obf_consts handshakeHeaderAuth_def primitives_ok_def ValidateHandshakeHeaderAuth_def)

text \<open>A first packet of the client: the pool of its epoch, the head and the tag.\<close>

lemma handshake_found:
  fixes rnd :: "nat \<Rightarrow> byte"
  assumes pr: "primitives_ok pr" and cache: "cache_ok pr cache" and k: "DeriveK pr password = (k, k2)"
    and ready: "\<forall>e \<in> set (candidateHandshakeEpochs (computeEpoch k now)). pool_of pr password ht (computeVFromEpoch pr e k2) \<noteq> None"
    and e: "hc_RawEpoch ctx \<in> set (candidateHandshakeEpochs (computeEpoch k now))"
    and v: "v = computeVFromEpoch pr (hc_RawEpoch ctx) k2" and pool: "pool_of pr password ht v = Some pool"
    and ctx: "context_ok (getHandshakeLayout pr password) ctx now"
    and head: "head = writeHandshakeHead (map rnd [0..<HandshakeObfHeaderSize]) pool (getHandshakeLayout pr password) ctx"
    and tag: "\<forall>e' \<in> set (takeWhile (\<lambda>x. x \<noteq> hc_RawEpoch ctx) (candidateHandshakeEpochs (computeEpoch k now))).
      handshakeHeaderAuth pr (computeVFromEpoch pr e' k2) head \<noteq> handshakeHeaderAuth pr v head"
  shows "\<exists>cache'. FindPoolForHandshakeWithInfo pr cache password (SelectHandshakeHeaderWithContext pr rnd pool v password ctx) ht now =
      Some (Some (pool, v, info_after (getHandshakeLayout pr password) ctx no_info), cache') \<and> cache_ok pr cache' \<and>
    dom (cache' password ht) = set (candidateHandshakeVs pr (computeEpoch k now) k2)"
proof -
  define layout where "layout = getHandshakeLayout pr password"
  have lok: "layout_ok layout" unfolding layout_def getHandshakeLayout_def by (rule generateHandshakeLayout_ok)
  have pok: "pool_ok pool" using pool unfolding pool_of_def by (rule GeneratePool_ok)
  have r: "length (map rnd [0..<HandshakeObfHeaderSize]) = 32" by (simp add: HandshakeObfHeaderSize_def)
  have lh: "length head = 32" unfolding head layout_def [symmetric] using head_shape [OF lok pok r, of ctx] by blast
  have s: "SelectHandshakeHeaderWithContext pr rnd pool v password ctx = head @ handshakeHeaderAuth pr v head"
    by (simp add: SelectHandshakeHeaderWithContext_def Let_def head)
  note a = prefix_auth [OF pr lh]
  have acc: "validateHandshakeHead pool layout head (hc_RawEpoch ctx) now = Some (info_after layout ctx no_info)"
    unfolding head layout_def [symmetric] using ctx by (intro head_accepted [OF lok pok r]) (simp add: layout_def)
  have c: "cp_pool (candidate pr password ht k2 (hc_RawEpoch ctx)) = pool" using pool by (simp add: candidate_def Let_def v [symmetric])
  have f: "first_valid pr layout (head @ handshakeHeaderAuth pr v head) now (map (candidate pr password ht k2) (candidateHandshakeEpochs (computeEpoch k now))) =
      Some (cp_pool (candidate pr password ht k2 (hc_RawEpoch ctx)), computeVFromEpoch pr (hc_RawEpoch ctx) k2, info_after layout ctx no_info)"
    by (rule first_valid_hit [OF e]) (use tag acc in \<open>simp_all add: a v [symmetric] c del: take_append\<close>)
  obtain cache' where "cachedHandshakePools pr cache password ht (computeEpoch k now) k2 =
      Some (map (candidate pr password ht k2) (candidateHandshakeEpochs (computeEpoch k now)), cache')"
      "cache_ok pr cache'" "dom (cache' password ht) = set (candidateHandshakeVs pr (computeEpoch k now) k2)"
    using cachedHandshakePools_spec [OF cache ready] by blast
  then show ?thesis
    unfolding s FindPoolForHandshakeWithInfo_def layout_def [symmetric] using f a(1) by (simp add: k c v [symmetric])
qed

section \<open>Epochs\<close>

lemma unat_computeEpoch:
  assumes "0 \<le> t" and "nat t + unat k < 2 ^ 64"
  shows "unat (computeEpoch k t) = (nat t + unat k) div 1382400"
proof -
  have "(word_of_int t :: u64) = word_of_nat (nat t)" using assms(1) by (simp add: of_nat_nat)
  then have "word_of_int t + k = (word_of_nat (nat t + unat k) :: u64)" by simp
  moreover have "unat (word_of_nat (nat t + unat k) :: u64) = nat t + unat k"
    using assms(2) unfolding unat_of_nat by simp
  ultimately have s: "unat (word_of_int t + k) = nat t + unat k" by simp
  have "unat (computeEpoch k t) = unat (word_of_int t + k) div 86400 div 16"
    unfolding computeEpoch_def unat_div_distrib by simp
  then show ?thesis by (simp add: s div_mult2_eq [symmetric])
qed

lemma epochs_adjacent:
  assumes "0 \<le> tc" "0 \<le> ts" "nat tc + unat k < 2 ^ 64" "nat ts + unat k < 2 ^ 64" and "\<bar>tc - ts\<bar> \<le> 1382400"
  shows "computeEpoch k tc \<in> set (candidateHandshakeEpochs (computeEpoch k ts))"
proof -
  define c where "c = unat (computeEpoch k tc)"
  define s where "s = unat (computeEpoch k ts)"
  have cs: "c = (nat tc + unat k) div 1382400" "s = (nat ts + unat k) div 1382400"
    using unat_computeEpoch assms by (simp_all add: c_def s_def)
  then have d: "c = s \<or> c + 1 = s \<or> c = s + 1" using assms(1,2,5) by linarith
  have w: "computeEpoch k tc = word_of_nat c" "computeEpoch k ts = word_of_nat s" by (simp_all add: c_def s_def)
  have "s < 2 ^ 64" using unsigned_less [of "computeEpoch k ts"] by (simp add: s_def)
  then have "word_of_nat s = (0 :: u64) \<longleftrightarrow> s = 0" by (auto simp: word_of_nat_eq_0_iff dest: dvd_imp_le)
  with d show ?thesis unfolding w candidateHandshakeEpochs_def by auto
qed

section \<open>Prefilter\<close>

lemma writeVersion_indep:
  assumes "layout_ok layout" "length dst = l_VersionLen layout" "length dst' = l_VersionLen layout"
  shows "writeVersion dst layout epoch = writeVersion dst' layout epoch"
proof -
  have "version_len_ok (l_VersionKind layout) (l_VersionLen layout)" "length (l_VersionSegments layout) = 3"
    using assms(1) by (simp_all add: layout_ok_def)
  with assms(2,3) triple_bytes(1) [of "epochDecimalSegments epoch (l_VersionSegments layout)"] show ?thesis
    by (auto simp: writeVersion_def copy_at_def split: versionKind.splits)
qed

lemma prefilter_passes:
  assumes "layout_ok layout" and "pool_ok (cp_pool c)" and "length hdr = 32" and "cp_epoch c = hc_RawEpoch ctx"
    and "n = min 8 (l_MagicLen layout + l_VersionLen layout)"
  shows "prefix_matches layout (take n (writeHandshakeHead hdr (cp_pool c) layout ctx)) n c"
proof -
  define magic where "magic = take (l_MagicLen layout) (h_Head (p_HandshakeHeader (cp_pool c)))"
  obtain ver rest where s: "length ver = l_VersionLen layout"
      "ver = writeVersion (slice hdr (l_MagicLen layout) (l_VersionLen layout)) layout (hc_RawEpoch ctx)"
      "writeHandshakeHead hdr (cp_pool c) layout ctx = magic @ ver @ rest"
    using head_shape [OF assms(1-3), of ctx] unfolding magic_def by blast
  have lm: "length magic = l_MagicLen layout" "l_MagicLen layout \<le> 8"
    using layout_size [OF assms(1)] assms(2) by (simp_all add: magic_def pool_ok_def HandshakeObfMagicMaxLen_def)
  have "ver = writeVersion (replicate (l_VersionLen layout) 0) layout (hc_RawEpoch ctx)"
    unfolding s(2) by (rule writeVersion_indep [OF assms(1)]) (use layout_size [OF assms(1)] assms(3) in \<open>simp_all add: slice_def\<close>)
  then have "drop (l_MagicLen layout) (take n (magic @ ver @ rest)) =
      take (n - l_MagicLen layout) (writeVersion (replicate (l_VersionLen layout) 0) layout (cp_epoch c))"
    using assms(4,5) lm s(1) by (simp add: drop_take)
  moreover have "take (l_MagicLen layout) (take n (magic @ ver @ rest)) = magic"
    using lm assms(5) by simp
  ultimately show ?thesis unfolding prefix_matches_def s(3) magic_def [symmetric] by (simp add: Let_def)
qed

section \<open>Properties\<close>

text \<open>
  A client and a server whose clocks differ by at most sixteen days agree on the epoch: the epoch of the client's
  clock is among the two or three epochs that the server tries, as long as the sum of key and time does not wrap.
\<close>

theorem client_epoch_tried:
  assumes "0 \<le> tc" and "0 \<le> ts" and "nat tc + unat k < 2 ^ 64" and "nat ts + unat k < 2 ^ 64" and "\<bar>tc - ts\<bar> \<le> 16 * 86400"
  shows "computeEpoch k tc \<in> set (candidateHandshakeEpochs (computeEpoch k ts))"
  by (rule epochs_adjacent) (use assms in simp_all)

theorem client_epoch_tried_witness:
  "computeEpoch 77 1700000000 \<in> set (candidateHandshakeEpochs (computeEpoch 77 1701000000))"
  by (rule client_epoch_tried) simp_all

text \<open>
  A first packet of a client with the server key is recognised by the server.  The client writes the head for its
  epoch, which is one of those the server tries, with a clock within five minutes and a length value that fits; the pools
  of these epochs can be generated; and no epoch that is tried before has the same eight-byte tag.  Then the search returns
  the client's pool and seed and the length value that the client wrote, if the layout has a length field; and the cache
  of pools, which held only generated pools, holds only generated pools, for exactly the epochs tried.
\<close>

theorem handshake_header_accepted:
  fixes rnd :: "nat \<Rightarrow> byte"
  assumes "primitives_ok pr" and "cache_ok pr cache" and "DeriveK pr password = (k, k2)"
    and "\<forall>e \<in> set (candidateHandshakeEpochs (computeEpoch k now)).
      GeneratePoolWithKey (pr_sha256 pr) (pr_expo pr) (computeVFromEpoch pr e k2) ht password \<noteq> None"
    and "hc_RawEpoch ctx \<in> set (candidateHandshakeEpochs (computeEpoch k now))"
    and "v = computeVFromEpoch pr (hc_RawEpoch ctx) k2"
    and "GeneratePoolWithKey (pr_sha256 pr) (pr_expo pr) v ht password = Some pool"
    and "layout = getHandshakeLayout pr password"
    and "unat (hc_TimestampPadding ctx) + unat (l_LenOffset layout) < 65536" and "\<bar>uint (hc_UTCSeconds ctx) - now\<bar> \<le> 300"
    and "head = writeHandshakeHead (map rnd [0..<HandshakeObfHeaderSize]) pool layout ctx"
    and "\<forall>e' \<in> set (takeWhile (\<lambda>x. x \<noteq> hc_RawEpoch ctx) (candidateHandshakeEpochs (computeEpoch k now))).
      handshakeHeaderAuth pr (computeVFromEpoch pr e' k2) head \<noteq> handshakeHeaderAuth pr v head"
  shows "\<exists>info cache'.
      FindPoolForHandshakeWithInfo pr cache password (SelectHandshakeHeaderWithContext pr rnd pool v password ctx) ht now =
        Some (Some (pool, v, info), cache') \<and>
      hi_HasTimestampPaddingLen info = (handshakeFieldLen \<in> f_Kind ` set (l_Fields layout)) \<and>
      (hi_HasTimestampPaddingLen info \<longrightarrow> hi_TimestampPaddingLen info = hc_TimestampPadding ctx) \<and>
      cache_ok pr cache' \<and> dom (cache' password ht) = set (candidateHandshakeVs pr (computeEpoch k now) k2)"
  using handshake_found [of pr cache password k k2 now ht ctx v pool head rnd] assms
  by (auto simp: pool_of_def context_ok_def info_after_def no_info_def)

definition sample_primitives :: primitives where
  "sample_primitives =
     \<lparr>pr_sha256 = sample_sha, pr_hmac = (\<lambda>k d. replicate 32 0),
      pr_pbkdf2 = (\<lambda>p s i n. take n (replicate 8 0 @ put64 2459565876494606981) @ replicate (n - 16) 0),
      pr_keystream = (\<lambda>k n i. word_of_nat i), pr_expo = sample_expo\<rparr>"

definition sample_context :: HandshakeContext where
  "sample_context = \<lparr>hc_RawEpoch = 1229, hc_TimestampPadding = 400, hc_ClientID = 5, hc_IncID = 6, hc_PacketID = 7, hc_UTCSeconds = 1700000100\<rparr>"

lemma sample_keys:
  "DeriveK sample_primitives [] = (0, 2459565876494606981)"
  "computeVFromEpoch sample_primitives e 2459565876494606981 = 167"
  "computeEpoch 0 1700000000 = 1229" "primitives_ok sample_primitives"
proof -
  have z: "get64 (replicate 8 0) = 0" by code_simp
  show "DeriveK sample_primitives [] = (0, 2459565876494606981)"
    by (simp add: DeriveK_def sample_primitives_def Let_def z)
  show "computeVFromEpoch sample_primitives e 2459565876494606981 = 167"
    by (simp add: computeVFromEpoch_def sample_primitives_def sample_sha_def sample_sum)
  show "computeEpoch 0 1700000000 = 1229" by (simp add: computeEpoch_def)
  show "primitives_ok sample_primitives" by (simp add: primitives_ok_def sample_primitives_def min_def)
qed

theorem handshake_header_accepted_witness:
  "\<exists>pool info cache'.
    FindPoolForHandshakeWithInfo sample_primitives (\<lambda>_ _. Map.empty) []
      (SelectHandshakeHeaderWithContext sample_primitives (\<lambda>_. 9) pool 167 [] sample_context) HeaderTypeAny 1700000000 =
      Some (Some (pool, 167, info), cache') \<and> hi_TimestampPaddingLen info = 400"
proof -
  obtain pool where p: "GeneratePoolWithKey sample_sha sample_expo 167 HeaderTypeAny [] = Some pool" using sample_pool by blast
  have s: "pr_sha256 sample_primitives = sample_sha" "pr_expo sample_primitives = sample_expo" by (simp_all add: sample_primitives_def)
  have l: "getHandshakeLayout sample_primitives [] = generateHandshakeLayout sample_sha sample_expo []"
    by (simp add: getHandshakeLayout_def s)
  have c: "cache_ok sample_primitives (\<lambda>_ _. Map.empty)" by (simp add: cache_ok_def)
  have "\<exists>info cache'.
      FindPoolForHandshakeWithInfo sample_primitives (\<lambda>_ _. Map.empty) []
        (SelectHandshakeHeaderWithContext sample_primitives (\<lambda>_. 9) pool 167 [] sample_context) HeaderTypeAny 1700000000 =
        Some (Some (pool, 167, info), cache') \<and>
      hi_HasTimestampPaddingLen info = (handshakeFieldLen \<in> f_Kind ` set (l_Fields (getHandshakeLayout sample_primitives []))) \<and>
      (hi_HasTimestampPaddingLen info \<longrightarrow> hi_TimestampPaddingLen info = hc_TimestampPadding sample_context) \<and>
      cache_ok sample_primitives cache' \<and>
      dom (cache' [] HeaderTypeAny) = set (candidateHandshakeVs sample_primitives (computeEpoch 0 1700000000) 2459565876494606981)"
    by (rule handshake_header_accepted [OF sample_keys(4) c sample_keys(1) _ _ _ _ refl _ _ refl])
      (simp_all add: sample_keys s p sample_context_def candidateHandshakeEpochs_def l sample_layout)
  then show ?thesis by (auto simp: l sample_layout sample_context_def)
qed

text \<open>
  The prefilter that the server applies to the first bytes of a connection does not turn away a genuine first packet:
  the leading bytes of a head that a client wrote for one of the epochs tried pass the test for every pool cache.
\<close>

theorem prefilter_no_false_negative:
  fixes rnd :: "nat \<Rightarrow> byte"
  assumes "primitives_ok pr" and "cache_ok pr cache" and "DeriveK pr password = (k, k2)"
    and "\<forall>e \<in> set (candidateHandshakeEpochs (computeEpoch k now)).
      GeneratePoolWithKey (pr_sha256 pr) (pr_expo pr) (computeVFromEpoch pr e k2) ht password \<noteq> None"
    and "hc_RawEpoch ctx \<in> set (candidateHandshakeEpochs (computeEpoch k now))"
    and "v = computeVFromEpoch pr (hc_RawEpoch ctx) k2"
    and "GeneratePoolWithKey (pr_sha256 pr) (pr_expo pr) v ht password = Some pool"
  shows "\<exists>cache'. MayMatchHandshakePrefix pr cache password
      (take (HandshakePrefilterSize pr password) (SelectHandshakeHeaderWithContext pr rnd pool v password ctx)) ht now = Some (True, cache') \<and>
    cache_ok pr cache'"
proof -
  define layout where "layout = getHandshakeLayout pr password"
  have lok: "layout_ok layout" unfolding layout_def getHandshakeLayout_def by (rule generateHandshakeLayout_ok)
  have pok: "pool_ok pool" using assms(7) by (rule GeneratePool_ok)
  have r: "length (map rnd [0..<HandshakeObfHeaderSize]) = 32" by (simp add: HandshakeObfHeaderSize_def)
  define head where "head = writeHandshakeHead (map rnd [0..<HandshakeObfHeaderSize]) pool layout ctx"
  have lh: "length head = 32" unfolding head_def using head_shape [OF lok pok r, of ctx] by blast
  define n where "n = min 8 (l_MagicLen layout + l_VersionLen layout)"
  have n: "HandshakePrefilterSize pr password = n"
    by (simp add: HandshakePrefilterSize_def layout_def [symmetric] n_def Let_def HandshakeObfMagicMaxLen_def min_def)
  have t: "take n (SelectHandshakeHeaderWithContext pr rnd pool v password ctx) = take n head"
    by (simp add: SelectHandshakeHeaderWithContext_def Let_def layout_def [symmetric] head_def [symmetric] lh n_def)
  have c: "cp_pool (candidate pr password ht k2 (hc_RawEpoch ctx)) = pool" "cp_epoch (candidate pr password ht k2 (hc_RawEpoch ctx)) = hc_RawEpoch ctx"
    using assms(6,7) by (simp_all add: candidate_def Let_def pool_of_def)
  have "prefix_matches layout (take n head) n (candidate pr password ht k2 (hc_RawEpoch ctx))"
    using prefilter_passes [OF lok, of "candidate pr password ht k2 (hc_RawEpoch ctx)" "map rnd [0..<HandshakeObfHeaderSize]" ctx n] pok r
    by (simp add: c head_def n_def)
  then have ex: "list_ex (prefix_matches layout (take n head) n) (map (candidate pr password ht k2) (candidateHandshakeEpochs (computeEpoch k now)))"
    using assms(5) by (auto simp: list_ex_iff)
  obtain cache' where "cachedHandshakePools pr cache password ht (computeEpoch k now) k2 =
      Some (map (candidate pr password ht k2) (candidateHandshakeEpochs (computeEpoch k now)), cache')" "cache_ok pr cache'"
    using cachedHandshakePools_spec [OF assms(2)] assms(4) unfolding pool_of_def by blast
  with ex show ?thesis
    by (simp add: MayMatchHandshakePrefix_def n t assms(3) layout_def [symmetric] lh) (simp add: n_def)
qed

theorem prefilter_no_false_negative_witness:
  "\<exists>pool cache'. MayMatchHandshakePrefix sample_primitives (\<lambda>_ _. Map.empty) []
    (take (HandshakePrefilterSize sample_primitives []) (SelectHandshakeHeaderWithContext sample_primitives (\<lambda>_. 9) pool 167 [] sample_context))
    HeaderTypeAny 1700000000 = Some (True, cache')"
proof -
  obtain pool where p: "GeneratePoolWithKey sample_sha sample_expo 167 HeaderTypeAny [] = Some pool" using sample_pool by blast
  have s: "pr_sha256 sample_primitives = sample_sha" "pr_expo sample_primitives = sample_expo" by (simp_all add: sample_primitives_def)
  have c: "cache_ok sample_primitives (\<lambda>_ _. Map.empty)" by (simp add: cache_ok_def)
  have "\<exists>cache'. MayMatchHandshakePrefix sample_primitives (\<lambda>_ _. Map.empty) []
      (take (HandshakePrefilterSize sample_primitives []) (SelectHandshakeHeaderWithContext sample_primitives (\<lambda>_. 9) pool 167 [] sample_context))
      HeaderTypeAny 1700000000 = Some (True, cache') \<and> cache_ok sample_primitives cache'"
    by (rule prefilter_no_false_negative [OF sample_keys(4) c sample_keys(1)])
      (simp_all add: sample_keys s p sample_context_def candidateHandshakeEpochs_def)
  then show ?thesis by blast
qed

end
