(* ===== verification/FirstPacket.thy ===== *)
theory FirstPacket
  imports PacketWire ObfHandshake
begin

text \<open>
  The first packets of a connection, from the dialling client (\<^verbatim>\<open>cmd/client/mux_pool.go\<close> and
  \<^verbatim>\<open>NewMuxConnWithHandshake\<close>) to the server: the server finds the epoch, the user and the streams, reads the time
  stamp and the first data packet, and both directions are in step.
\<close>

section \<open>Both ends\<close>

text \<open>The codec part of a new connection; None is the generator of the pool that does not end.\<close>

definition new_codec ::
  "primitives \<Rightarrow> CryptoConn \<Rightarrow> bool \<Rightarrow> string \<Rightarrow> bytes \<Rightarrow> HeaderType \<Rightarrow> u64 \<Rightarrow> u64 \<Rightarrow> u32 \<Rightarrow> u32 \<Rightarrow> bool \<Rightarrow> codec option" where
  "new_codec pr conn isServer headerKey packetKey headerType obfV rawEpoch headerClientID incID debug =
     (let kd = \<lparr>kd_isServer = isServer, kd_debug = debug, kd_conn = conn, kd_sendObfPool = None, kd_recvObfPool = None,
            kd_macKey = (if packetKey \<noteq> [] then deriveMuxMACKey pr packetKey else []), kd_userName = [],
            kd_headerKey = headerKey, kd_headerType = headerType, kd_obfV = 0, kd_obfEpoch = rawEpoch, kd_obfPacketID = 0,
            kd_hsInfo = no_info, kd_invalidDrainLogOffset = 0, kd_hasSentTimestamp = False, kd_hasReceivedTimestamp = \<not> isServer,
            kd_HeaderClientID = headerClientID, kd_IncID = incID\<rparr>
      in if isServer then Some kd
         else
           (case GeneratePoolWithKey (pr_sha256 pr) (pr_expo pr) obfV headerType headerKey of
              None \<Rightarrow> None
            | Some pool \<Rightarrow> Some (kd\<lparr>kd_obfV := obfV, kd_sendObfPool := Some pool, kd_recvObfPool := Some pool\<rparr>)))"

text \<open>The connection of a client that dials at the time \<open>utcSec\<close>, the clock less the configured offset.\<close>

definition client_codec ::
  "primitives \<Rightarrow> (nat \<Rightarrow> byte) \<Rightarrow> string \<Rightarrow> string \<Rightarrow> string \<Rightarrow> HeaderType \<Rightarrow> int \<Rightarrow> bytes \<Rightarrow> u32 \<Rightarrow> bool \<Rightarrow> (crypto_error + codec) option" where
  "client_codec pr rnd key name password headerType utcSec clientID incID debug =
     (let (k, k2) = DeriveK pr key; rawEpoch = computeEpoch k utcSec; obfV = computeVFromEpoch pr rawEpoch k2
      in case NewClientCryptoConn pr rnd name (bytes_of_string password) obfV of
           Inl e \<Rightarrow> Some (Inl e)
         | Inr conn \<Rightarrow>
             map_option Inr (new_codec pr conn False key (cc_authSecret conn) headerType obfV rawEpoch (get32 (take 4 clientID)) incID debug))"

definition server_codec :: "primitives \<Rightarrow> UserCredential list \<Rightarrow> string \<Rightarrow> HeaderType \<Rightarrow> bool \<Rightarrow> codec option" where
  "server_codec pr users key headerType debug =
     new_codec pr (NewServerCryptoConn users) True key [] headerType 0 0 0 0 debug"

text \<open>
  The time stamp packet at the server (\<open>dispatchTimestamp\<close>): a second one or one that is not within five minutes of the
  clock makes the connection invalid, and otherwise the reply stream is derived.
\<close>

definition accept_timestamp :: "primitives \<Rightarrow> codec \<Rightarrow> bytes \<Rightarrow> time \<Rightarrow> invalid_reason + codec" where
  "accept_timestamp pr kd payload now =
     (if kd_hasReceivedTimestamp kd then Inl ReasonTimestampRepeat
      else if \<not> validateTimestamp payload now then Inl ReasonTimestampFailed
      else
        (case SetDerivedSendNonceFromTimestamp pr (kd_conn kd) payload of
           Inl e \<Rightarrow> Inl ReasonUserAuth
         | Inr conn \<Rightarrow> Inr (kd\<lparr>kd_conn := conn, kd_hasReceivedTimestamp := True\<rparr>)))"

section \<open>The nonce\<close>

lemma readEncryptedFull_nonce:
  assumes "\<not> cc_recvNonce cc" and "length nonce = NonceSize" and "receive_nonce pr add cc cache nonce = (None, cc1, cache1)"
    and "cc_recvNonce cc1" and "0 < n"
  shows "readEncryptedFull pr add sched cc cache (nonce @ inp) n = readEncryptedFull pr add sched cc1 cache1 inp n"
proof -
  have "ReadEncrypted pr add cc cache (nonce @ inp) n g = ReadEncrypted pr add cc1 cache1 inp n g" for g
    using assms by (simp add: ReadEncrypted_def)
  then show ?thesis using assms(5) by (simp add: readEncryptedFull.simps [of pr add sched cc] readEncryptedFull.simps [of pr add sched cc1])
qed

lemma receive_nonce_server:
  assumes "primitives_ok pr" and "cc_users cc \<noteq> []" and "cc_sendNonce cc = []" and "length nonce = NonceSize"
    and "matchNonceUser pr (cc_users cc) (cc_epochPrefix cc) nonce = Some (user, secret)" and "secret \<noteq> []"
    and "f cache nonce = (True, cache1)"
  shows "receive_nonce pr (Some f) cc cache nonce =
    (None, cc\<lparr>cc_peerNonce := nonce, cc_authSecret := secret, cc_authUser := uc_Name user,
       cc_decStream := Some \<lparr>st_key = DeriveKey pr secret KeySize, st_nonce = nonce, st_pos = 0\<rparr>, cc_recvNonce := True\<rparr>, cache1)"
  using assms newXChaCha20Stream_ok [OF assms(1,4), of secret]
  by (simp add: receive_nonce_def setSecret_def Let_def)

lemma NewClientCryptoConn_ok:
  assumes "primitives_ok pr" and "secret = BuildUserSecret (epochSeedPrefix v) password"
  shows "NewClientCryptoConn pr rnd name password v = Inr
    \<lparr>cc_encStream = Some \<lparr>st_key = DeriveKey pr secret KeySize, st_nonce = makeClientNonce pr rnd name secret, st_pos = 0\<rparr>,
     cc_decStream = None, cc_sendNonce = makeClientNonce pr rnd name secret, cc_localNonce = makeClientNonce pr rnd name secret,
     cc_peerNonce = [], cc_recvNonce = False, cc_users = [], cc_authUser = [], cc_authSecret = secret, cc_epochPrefix = epochSeedPrefix v\<rparr>"
proof -
  have "makeClientNonce pr rnd name secret \<noteq> []"
    using length_makeClientNonce [OF assms(1), of rnd name secret] by (auto simp: NonceSize_def)
  then show ?thesis
    using newXChaCha20Stream_ok [OF assms(1) length_makeClientNonce [OF assms(1)], of secret rnd name secret]
    by (simp add: NewClientCryptoConn_def newCryptoConnWithSecret_def Let_def assms(2))
qed

lemma derivedServerNonce_total:
  "length nonce = NonceSize \<Longrightarrow> length ts = TimestampPayloadSize \<Longrightarrow> \<exists>r. derivedServerNonce nonce ts = Inr r"
  by (simp add: derivedServerNonce_def Let_def)

section \<open>The time stamp packet\<close>

text \<open>The sizes of the first packet: the length value fits its field, and the boundary comes back from it.\<close>

lemma timestamp_boundary:
  assumes pool: "pool_ok pool" and lts: "length ts = TimestampPayloadSize"
    and ps: "paddingSize = fst (calculatePadding ce (Some pool) TimestampChannelID ts pos0)" and sp: "split_ok paddingSize split"
    and bs: "bs = packetObfBoundarySize HandshakeObfPrefixSize NonceSize (length ts) paddingSize split"
  shows "HandshakeObfPrefixSize + NonceSize + HeaderSize + length ts + unat paddingSize + PacketMACSize < 65000"
    and "HandshakeHeaderBoundarySize (Some pool) (HandshakeHeaderLenValue (Some pool) bs) = Some bs"
    and "unat (HandshakeHeaderLenValue (Some pool) bs) < 65000"
proof -
  have p: "unat paddingSize \<le> 8191" using calculatePadding_bounds(1) [OF pool] ps by simp
  note c = obf_consts NonceSize_def lts TimestampPayloadSize_def ClientIDSize_def TimestampSize_def
  show small: "HandshakeObfPrefixSize + NonceSize + HeaderSize + length ts + unat paddingSize + PacketMACSize < 65000"
    using p by (simp add: c)
  have spl: "unat split \<le> unat paddingSize" using sp by (auto simp: split_ok_def)
  have b: "86 \<le> unat bs" "unat bs < 65000"
    using small spl p saturated_small [of "HandshakeObfPrefixSize + NonceSize + HeaderSize + length ts + unat split"]
      saturated_small [of "HandshakeObfPrefixSize + NonceSize + HeaderSize + length ts + unat paddingSize + PacketMACSize"]
    by (auto simp: bs packetObfBoundarySize_def packetWireSize_def c)
  have o: "unat (h_LenOffset (p_HandshakeHeader pool)) \<le> 64" using pool by (simp add: pool_ok_def)
  then show "HandshakeHeaderBoundarySize (Some pool) (HandshakeHeaderLenValue (Some pool) bs) = Some bs"
    using header_boundary [of "h_LenOffset (p_HandshakeHeader pool)" bs] b by (simp add: HandshakeHeaderBoundarySize_def HandshakeHeaderLenValue_def)
  have "h_LenOffset (p_HandshakeHeader pool) \<le> bs" using o b by (simp add: word_le_nat_alt)
  then show "unat (HandshakeHeaderLenValue (Some pool) bs) < 65000"
    using b unat_sub [OF \<open>h_LenOffset (p_HandshakeHeader pool) \<le> bs\<close>]
    by (auto simp: HandshakeHeaderLenValue_def HeaderLenValueWithOffset_def)
qed

lemma wire_data_first: "wire_data nonce (p # ps) = wp_obfHdr p @ nonce @ wp_encrypted p @ wp_padding p @ wp_mac p @ concat (map packet_bytes ps)"
  by (simp add: wire_data_def)

text \<open>The server reads the time stamp packet of a client whose head it recognises.\<close>

lemma timestamp_packet_read:
  assumes pr: "primitives_ok (ce_pr ce)" and pool: "pool_ok pool" and lts: "length ts = TimestampPayloadSize"
    and b: "build_timestamp_packet ce s pool ts utc pos = Inr (wp, s', pos')"
    and s: "cc_encStream (kd_conn s) = Some st"
    and inp: "rs_inp rs = wp_obfHdr wp @ nonce @ wp_encrypted wp @ wp_padding wp @ wp_mac wp @ rest"
    and fresh: "kd_recvObfPool (rs_kd rs) = None" "\<not> cc_recvNonce (kd_conn (rs_kd rs))"
    and lo: "length (wp_obfHdr wp) = HandshakeObfPrefixSize"
    and find: "check_obf_header (ce_pr ce) (rs_kd rs) (rs_pools rs) (wp_obfHdr wp) now = Some (Some (pool, kd1), pools)"
    and info: "hi_HasTimestampPaddingLen (kd_hsInfo kd1) \<Longrightarrow> hi_TimestampPaddingLen (kd_hsInfo kd1) =
      HandshakeHeaderLenValue (Some pool) (packetObfBoundarySize HandshakeObfPrefixSize NonceSize (length ts)
        (fst (calculatePadding ce (Some pool) TimestampChannelID ts pos))
        (fst (timestampPaddingSplitValue ce (fst (calculatePadding ce (Some pool) TimestampChannelID ts pos)) (snd (calculatePadding ce (Some pool) TimestampChannelID ts pos)))))"
    and nonce: "length nonce = NonceSize" "receive_nonce (ce_pr ce) add (kd_conn kd1) (rs_cache rs) nonce = (None, conn1, cache1)"
    and k1: "\<not> cc_recvNonce (kd_conn kd1)" and c1: "cc_decStream conn1 = Some st" "cc_recvNonce conn1"
    and key: "kd_macKey (ensureAuthenticatedUser (ce_pr ce) (kd1\<lparr>kd_conn := conn1\<rparr>)) = kd_macKey s"
  shows "\<exists>n. read_packet (ce_pr ce) add sched now rs = Some (ReadPacket TimestampChannelID ts n,
      rs\<lparr>rs_kd := after_read (ce_pr ce) (kd1\<lparr>kd_conn := conn1\<rparr>) (the (cc_encStream (kd_conn s'))), rs_cache := cache1, rs_pools := pools, rs_inp := rest\<rparr>)"
    and "\<exists>st'. kd_conn s' = (kd_conn s)\<lparr>cc_encStream := Some st'\<rparr>"
    and "s' = s\<lparr>kd_conn := kd_conn s', kd_obfPacketID := kd_obfPacketID s'\<rparr>"
proof -
  let ?pr = "ce_pr ce"
  obtain paddingSize pos1 where ps: "calculatePadding ce (Some pool) TimestampChannelID ts pos = (paddingSize, pos1)" by fastforce
  obtain split pos2 where sp: "timestampPaddingSplitValue ce paddingSize pos1 = (split, pos2)" by fastforce
  have so: "split_ok paddingSize split" using timestampPaddingSplitValue_ok [of paddingSize ce pos1] sp by simp
  define bs where "bs = packetObfBoundarySize HandshakeObfPrefixSize NonceSize (length ts) paddingSize split"
  have ps': "paddingSize = fst (calculatePadding ce (Some pool) TimestampChannelID ts pos)" by (simp add: ps)
  note T = timestamp_boundary [OF pool lts ps' so bs_def]
  define s1 where "s1 = s\<lparr>kd_obfPacketID := kd_obfPacketID s + 1\<rparr>"
  have es: "cc_encStream (kd_conn s1) = Some st" using s by (simp add: s1_def)
  obtain obfHdr where b1: "buildWirePacketWithPadding ce s1 (Some pool) obfHdr TimestampChannelID ts paddingSize split (pos2 + HandshakeObfHeaderSize) = Inr (wp, s', pos')"
    using b by (auto simp: build_timestamp_packet_def ps sp nextObfPacketID_def Let_def s1_def)
  note W = built_packet_shape [OF pool es b1 refl refl refl refl refl]
  obtain p i where pd: "wp_padding wp = (if 0 < paddingSize then fst (fillPlainPadding ce (Some pool) (unat paddingSize) split p i) else [])"
    using W(3) by blast
  note B = boundary_valid [OF pool so T(1) pd]
  define rs' where "rs' = rs\<lparr>rs_kd := kd1, rs_pools := pools, rs_inp := nonce @ wp_encrypted wp @ wp_padding wp @ wp_mac wp @ rest\<rparr>"
  have agree: "padding_agrees pool TimestampChannelID ts paddingSize" unfolding ps' by (rule calculatePadding_agrees)
  have n16: "length ts < 65536" by (simp add: lts TimestampPayloadSize_def ClientIDSize_def TimestampSize_def)
  have "read_after_obf ?pr add sched pool True obfHdr rs' =
      (ReadPacket TimestampChannelID ts (unat (packetWireSize (length obfHdr) NonceSize (length ts) paddingSize)),
       rs'\<lparr>rs_kd := after_read ?pr ((rs_kd rs')\<lparr>kd_conn := conn1\<rparr>) (the (cc_encStream (kd_conn s'))), rs_cache := cache1, rs_inp := rest\<rparr>)"
  proof (rule built_packet_read [where nonce = nonce, OF pr pool n16 agree es b1], goal_cases)
    case (2 i)
    have "0 < HeaderSize" by (simp add: obf_consts)
    from readEncryptedFull_nonce [OF k1 nonce c1(2) this, of sched i] readEncryptedFull_stream [OF c1(2,1) 2, of ?pr add sched cache1]
    show ?case by (simp add: rs'_def)
  next
    case (5 kd)
    then show ?case
      using info T(2) B(2) [of "kd_debug kd1"] lo W(1) by (auto simp: valid_boundary_def rs'_def ps sp bs_def)
  qed (use key k1 c1(2) in \<open>simp_all add: rs'_def s1_def\<close>)
  moreover have "read_packet ?pr add sched now rs = Some (read_after_obf ?pr add sched pool True obfHdr rs')"
    using lo find by (simp add: read_packet_def Let_def fresh inp rs'_def W(1))
  moreover have "rs'\<lparr>rs_kd := x, rs_cache := cache1, rs_inp := rest\<rparr> = rs\<lparr>rs_kd := x, rs_cache := cache1, rs_pools := pools, rs_inp := rest\<rparr>" for x
    by (cases rs) (simp add: rs'_def)
  ultimately show "\<exists>n. read_packet ?pr add sched now rs = Some (ReadPacket TimestampChannelID ts n,
      rs\<lparr>rs_kd := after_read ?pr (kd1\<lparr>kd_conn := conn1\<rparr>) (the (cc_encStream (kd_conn s'))), rs_cache := cache1, rs_pools := pools, rs_inp := rest\<rparr>)"
    by (simp add: rs'_def)
  show "\<exists>st'. kd_conn s' = (kd_conn s)\<lparr>cc_encStream := Some st'\<rparr>" using W(5) by (auto simp: s1_def)
  show "s' = s\<lparr>kd_conn := kd_conn s', kd_obfPacketID := kd_obfPacketID s'\<rparr>" by (subst W(6)) (simp add: s1_def)
qed

text \<open>What building a packet does to the sender: the stream moves on and packet ids are used up.\<close>

lemma built_packet_state:
  assumes "pool_ok pool" and "cc_encStream (kd_conn s) = Some st"
    and "buildWirePacketWithPadding ce s1 (Some pool) obfHdr c payload paddingSize split pos = Inr (wp, s', pos')"
    and "s1 = s\<lparr>kd_obfPacketID := i\<rparr>"
  shows "wp_obfHdr wp = obfHdr" and "\<exists>st'. kd_conn s' = (kd_conn s)\<lparr>cc_encStream := Some st'\<rparr>"
    and "s' = s\<lparr>kd_conn := kd_conn s', kd_obfPacketID := kd_obfPacketID s'\<rparr>"
proof -
  have es: "cc_encStream (kd_conn s1) = Some st" using assms(2,4) by simp
  note W = built_packet_shape [OF assms(1) es assms(3) refl refl refl refl refl]
  show "wp_obfHdr wp = obfHdr" by (rule W(1))
  show "\<exists>st'. kd_conn s' = (kd_conn s)\<lparr>cc_encStream := Some st'\<rparr>" using W(5) assms(4) by auto
  show "s' = s\<lparr>kd_conn := kd_conn s', kd_obfPacketID := kd_obfPacketID s'\<rparr>" by (subst W(6)) (simp add: assms(4))
qed

lemma data_packet_state:
  assumes "pool_ok pool" and "cc_encStream (kd_conn s) = Some st"
    and "build_data_packet ce s pool n c payload paddingSize split pos = Inr (wp, s', pos')"
  shows "\<exists>st'. kd_conn s' = (kd_conn s)\<lparr>cc_encStream := Some st'\<rparr>"
    and "s' = s\<lparr>kd_conn := kd_conn s', kd_obfPacketID := kd_obfPacketID s'\<rparr>"
  using assms(3) built_packet_state(2,3) [OF assms(1,2) _ refl]
  by (auto simp: build_data_packet_def nextObfPacketID_def Let_def split: prod.splits)

text \<open>The first header of the time stamp packet, with the draws it is made from.\<close>

definition stamp_boundary :: "codec_env \<Rightarrow> Pool \<Rightarrow> bytes \<Rightarrow> nat \<Rightarrow> u16" where
  "stamp_boundary ce pool ts pos =
     (let (tsPadding, pos1) = calculatePadding ce (Some pool) TimestampChannelID ts pos;
          (tsPaddingSplit, pos2) = timestampPaddingSplitValue ce tsPadding pos1
      in HandshakeHeaderLenValue (Some pool) (packetObfBoundarySize HandshakeObfPrefixSize NonceSize (length ts) tsPadding tsPaddingSplit))"

lemma timestamp_packet_state:
  assumes "pool_ok pool" and "cc_encStream (kd_conn s) = Some st" and "build_timestamp_packet ce s pool ts utc pos = Inr (wp, s', pos')"
  shows "\<exists>rnd. wp_obfHdr wp = SelectHandshakeHeaderWithContext (ce_pr ce) rnd pool (kd_obfV s) (kd_headerKey s)
      \<lparr>hc_RawEpoch = kd_obfEpoch s, hc_TimestampPadding = stamp_boundary ce pool ts pos, hc_ClientID = kd_HeaderClientID s,
       hc_IncID = kd_IncID s, hc_PacketID = kd_obfPacketID s, hc_UTCSeconds = utc\<rparr>"
    and "\<exists>st'. kd_conn s' = (kd_conn s)\<lparr>cc_encStream := Some st'\<rparr>"
    and "s' = s\<lparr>kd_conn := kd_conn s', kd_obfPacketID := kd_obfPacketID s'\<rparr>"
proof -
  obtain a p1 where a: "calculatePadding ce (Some pool) TimestampChannelID ts pos = (a, p1)" by fastforce
  obtain b p2 where b: "timestampPaddingSplitValue ce a p1 = (b, p2)" by fastforce
  define hdr where "hdr = SelectHandshakeHeaderWithContext (ce_pr ce) (\<lambda>i. ce_rnd ce (p2 + i)) pool (kd_obfV s) (kd_headerKey s)
      \<lparr>hc_RawEpoch = kd_obfEpoch s, hc_TimestampPadding = stamp_boundary ce pool ts pos, hc_ClientID = kd_HeaderClientID s,
       hc_IncID = kd_IncID s, hc_PacketID = kd_obfPacketID s, hc_UTCSeconds = utc\<rparr>"
  have "buildWirePacketWithPadding ce (s\<lparr>kd_obfPacketID := kd_obfPacketID s + 1\<rparr>) (Some pool) hdr TimestampChannelID ts a b
      (p2 + HandshakeObfHeaderSize) = Inr (wp, s', pos')"
    using assms(3) by (simp add: build_timestamp_packet_def a b nextObfPacketID_def hdr_def stamp_boundary_def Let_def)
  note W = built_packet_state [OF assms(1,2) this refl]
  show "\<exists>rnd. wp_obfHdr wp = SelectHandshakeHeaderWithContext (ce_pr ce) rnd pool (kd_obfV s) (kd_headerKey s)
      \<lparr>hc_RawEpoch = kd_obfEpoch s, hc_TimestampPadding = stamp_boundary ce pool ts pos, hc_ClientID = kd_HeaderClientID s,
       hc_IncID = kd_IncID s, hc_PacketID = kd_obfPacketID s, hc_UTCSeconds = utc\<rparr>"
    using W(1) unfolding hdr_def by blast
  show "\<exists>st'. kd_conn s' = (kd_conn s)\<lparr>cc_encStream := Some st'\<rparr>" "s' = s\<lparr>kd_conn := kd_conn s', kd_obfPacketID := kd_obfPacketID s'\<rparr>"
    by (fact W(2,3))+
qed

lemma build_timestamp_succeeds:
  "cc_encStream (kd_conn s) = Some st \<Longrightarrow> \<exists>wp s' pos'. build_timestamp_packet ce s pool ts utc pos = Inr (wp, s', pos')"
  by (simp add: build_timestamp_packet_def nextObfPacketID_def buildWirePacketWithPadding_def EncryptForWrite_def Let_def split: prod.splits)

lemma stamp_boundary_small:
  assumes "pool_ok pool" and "length ts = TimestampPayloadSize"
  shows "unat (stamp_boundary ce pool ts pos) < 65000"
proof -
  obtain a p1 where a: "calculatePadding ce (Some pool) TimestampChannelID ts pos = (a, p1)" by fastforce
  obtain b p2 where b: "timestampPaddingSplitValue ce a p1 = (b, p2)" by fastforce
  have "split_ok a b" using timestampPaddingSplitValue_ok [of a ce p1] b by simp
  from timestamp_boundary(3) [OF assms _ this refl, of ce pos] show ?thesis by (simp add: stamp_boundary_def a b)
qed

section \<open>The first flight\<close>

text \<open>The client: its state, and its first call of \<open>sendPacketNow\<close>.\<close>

lemma client_codec_state:
  assumes pr: "primitives_ok pr" and cl: "client_codec pr rnd key name password ht utcSec clientID incID debug = Some (Inr cl)"
    and k: "DeriveK pr key = (k, k2)" and v: "v = computeVFromEpoch pr (computeEpoch k utcSec) k2"
    and secret: "secret = BuildUserSecret (epochSeedPrefix v) (bytes_of_string password)" and nonce: "nonce = makeClientNonce pr rnd name secret"
  shows "\<exists>pool. GeneratePoolWithKey (pr_sha256 pr) (pr_expo pr) v ht key = Some pool \<and> kd_sendObfPool cl = Some pool \<and> kd_recvObfPool cl = Some pool"
    and "kd_macKey cl = deriveMuxMACKey pr secret" "kd_obfV cl = v" "kd_obfEpoch cl = computeEpoch k utcSec" "kd_headerKey cl = key"
      "\<not> kd_isServer cl" "\<not> kd_hasSentTimestamp cl"
    and "kd_conn cl = \<lparr>cc_encStream = Some \<lparr>st_key = DeriveKey pr secret KeySize, st_nonce = nonce, st_pos = 0\<rparr>,
      cc_decStream = None, cc_sendNonce = nonce, cc_localNonce = nonce, cc_peerNonce = [], cc_recvNonce = False, cc_users = [],
      cc_authUser = [], cc_authSecret = secret, cc_epochPrefix = epochSeedPrefix v\<rparr>"
  using cl NewClientCryptoConn_ok [OF pr secret, of rnd name]
  by (auto simp: client_codec_def k v [symmetric] nonce new_codec_def Let_def secret BuildUserSecret_def epochSeedPrefix_def put64_def
      split: option.splits)

lemma first_send:
  assumes pr: "primitives_ok (ce_pr ce)" and pool: "pool_ok pool" and lts: "length ts = TimestampPayloadSize"
    and cl: "kd_sendObfPool cl = Some pool" "\<not> kd_isServer cl" "\<not> kd_hasSentTimestamp cl"
    and conn: "cc_encStream (kd_conn cl) = Some st" "\<not> cc_recvNonce (kd_conn cl)" "cc_authSecret (kd_conn cl) = secret" "secret \<noteq> []"
      "cc_localNonce (kd_conn cl) = nonce" "cc_sendNonce (kd_conn cl) = nonce" "length nonce = NonceSize"
    and s0: "s0 = cl\<lparr>kd_conn := (kd_conn cl)\<lparr>cc_peerNonce := sn, cc_decStream := Some \<lparr>st_key = DeriveKey (ce_pr ce) secret KeySize,
      st_nonce = sn, st_pos = 0\<rparr>, cc_recvNonce := True\<rparr>\<rparr>"
    and sn: "derivedServerNonce nonce ts = Inr sn"
  obtains split pos2 wp1 s1 pos3 wp2 s2 pos4 where
    "split_ok (fst (calculatePadding ce (Some pool) c payload pos)) split"
    "build_timestamp_packet ce s0 pool ts utc pos2 = Inr (wp1, s1, pos3)"
    "build_data_packet ce s1 pool 0 c payload (fst (calculatePadding ce (Some pool) c payload pos)) split pos3 = Inr (wp2, s2, pos4)"
    "sendPacketNow ce cl c payload None ts utc True pos = (Inr (wire_data nonce [wp1, wp2]),
      s2\<lparr>kd_conn := (kd_conn s2)\<lparr>cc_sendNonce := []\<rparr>, kd_hasSentTimestamp := True\<rparr>, pos4)"
proof -
  obtain paddingSize pos1 where ps: "calculatePadding ce (Some pool) c payload pos = (paddingSize, pos1)" by fastforce
  obtain split pos2 where sp: "fakePaddingSplitValue ce paddingSize pos1 = (split, pos2)" by fastforce
  have e0: "cc_encStream (kd_conn s0) = Some st" using conn(1) by (simp add: s0)
  obtain wp1 s1 pos3 where b1: "build_timestamp_packet ce s0 pool ts utc pos2 = Inr (wp1, s1, pos3)"
    using build_timestamp_succeeds [OF e0] by blast
  obtain st1 where c1: "kd_conn s1 = (kd_conn s0)\<lparr>cc_encStream := Some st1\<rparr>" using timestamp_packet_state(2) [OF pool e0 b1] by blast
  then have e1: "cc_encStream (kd_conn s1) = Some st1" by simp
  obtain wp2 s2 pos4 where b2: "build_data_packet ce s1 pool 0 c payload paddingSize split pos3 = Inr (wp2, s2, pos4)"
    using build_data_packet_succeeds [OF e1] by blast
  obtain st2 where c2: "kd_conn s2 = (kd_conn s1)\<lparr>cc_encStream := Some st2\<rparr>" using data_packet_state(1) [OF pool e1 b2] by blast
  have d: "SetDerivedReceiveNonceFromTimestamp (ce_pr ce) (kd_conn cl) ts = Inr (kd_conn s0)"
    using conn sn newXChaCha20Stream_ok [OF pr derivedServerNonce_length [OF sn], of secret]
    by (simp add: SetDerivedReceiveNonceFromTimestamp_def s0)
  have n: "cc_sendNonce (kd_conn s2) = nonce" using conn(6) by (simp add: c2 c1 s0)
  have s0': "cl\<lparr>kd_conn := kd_conn s0\<rparr> = s0" by (simp add: s0)
  have "sendPacketNow ce cl c payload None ts utc True pos = (Inr (wire_data nonce [wp1, wp2]),
      s2\<lparr>kd_conn := (kd_conn s2)\<lparr>cc_sendNonce := []\<rparr>, kd_hasSentTimestamp := True\<rparr>, pos4)"
    using cl by (simp add: sendPacketNow_def ps sp d s0' b1 b2 writeWirePackets_def TakeSendNonce_def n store_next_pool_def)
  moreover have "split_ok paddingSize split" using fakePaddingSplitValue_ok [of paddingSize ce pos1] sp by simp
  ultimately show thesis using that [of split pos2 wp1 s1 pos3 wp2 s2 pos4] b1 b2 by (simp add: ps)
qed

text \<open>The server that finds the pool, the seed and the user.\<close>

lemma handshake_header_length:
  assumes pr: "primitives_ok pr" and pok: "pool_ok pool"
  shows "length (SelectHandshakeHeaderWithContext pr rnd pool v key ctx) = HandshakeObfPrefixSize"
proof -
  have lok: "layout_ok (getHandshakeLayout pr key)" unfolding getHandshakeLayout_def by (rule generateHandshakeLayout_ok)
  have r: "length (map rnd [0..<HandshakeObfHeaderSize]) = 32" by (simp add: HandshakeObfHeaderSize_def)
  have "length (writeHandshakeHead (map rnd [0..<HandshakeObfHeaderSize]) pool (getHandshakeLayout pr key) ctx) = 32"
    using head_shape [OF lok pok r, of ctx] by blast
  from prefix_auth(1) [OF pr this, of v] show ?thesis by (simp add: SelectHandshakeHeaderWithContext_def Let_def)
qed

lemma server_finds_client:
  fixes rnd :: "nat \<Rightarrow> byte"
  assumes pr: "primitives_ok pr" and cache: "cache_ok pr pools" and k: "DeriveK pr key = (k, k2)"
    and ready: "\<forall>e \<in> set (candidateHandshakeEpochs (computeEpoch k nowSec)). pool_of pr key ht (computeVFromEpoch pr e k2) \<noteq> None"
    and e: "hc_RawEpoch ctx \<in> set (candidateHandshakeEpochs (computeEpoch k nowSec))"
    and v: "v = computeVFromEpoch pr (hc_RawEpoch ctx) k2" and pool: "pool_of pr key ht v = Some pool"
    and small: "unat (hc_TimestampPadding ctx) < 65000" and utc: "\<bar>uint (hc_UTCSeconds ctx) - nowSec\<bar> \<le> 300"
    and hdr: "hdr = SelectHandshakeHeaderWithContext pr rnd pool v key ctx"
    and tag: "\<forall>e' \<in> set (takeWhile (\<lambda>x. x \<noteq> hc_RawEpoch ctx) (candidateHandshakeEpochs (computeEpoch k nowSec))).
      handshakeHeaderAuth pr (computeVFromEpoch pr e' k2) (take HandshakeObfHeaderSize hdr) \<noteq> handshakeHeaderAuth pr v (take HandshakeObfHeaderSize hdr)"
    and sv: "server_codec pr users key ht debug = Some sv" and now: "UnixNano now div 1000000000 = nowSec"
  shows "\<exists>info pools'. check_obf_header pr sv pools hdr now = Some (Some (pool,
      sv\<lparr>kd_obfV := v, kd_hsInfo := info, kd_invalidDrainLogOffset := p_InvalidDrainLogOffset pool,
        kd_conn := SetEpochSeed (kd_conn sv) v, kd_recvObfPool := Some pool, kd_sendObfPool := Some pool\<rparr>), pools') \<and>
      (hi_HasTimestampPaddingLen info \<longrightarrow> hi_TimestampPaddingLen info = hc_TimestampPadding ctx) \<and> cache_ok pr pools'"
proof -
  define layout where "layout = getHandshakeLayout pr key"
  have lok: "layout_ok layout" unfolding layout_def getHandshakeLayout_def by (rule generateHandshakeLayout_ok)
  have pok: "pool_ok pool" using pool unfolding pool_of_def by (rule GeneratePool_ok)
  have r: "length (map rnd [0..<HandshakeObfHeaderSize]) = 32" by (simp add: HandshakeObfHeaderSize_def)
  define head where "head = writeHandshakeHead (map rnd [0..<HandshakeObfHeaderSize]) pool layout ctx"
  have lh: "length head = 32" unfolding head_def using head_shape [OF lok pok r, of ctx] by blast
  have h: "hdr = head @ handshakeHeaderAuth pr v head"
    by (simp add: hdr SelectHandshakeHeaderWithContext_def Let_def head_def layout_def)
  note a = prefix_auth [OF pr lh, of v]
  have "context_ok layout ctx nowSec" using small utc lok by (simp add: context_ok_def layout_ok_def)
  then obtain pools' where "FindPoolForHandshakeWithInfo pr pools key hdr ht nowSec = Some (Some (pool, v, info_after layout ctx no_info), pools')"
      "cache_ok pr pools'"
    using handshake_found [OF pr cache k ready e v pool _ head_def [unfolded layout_def]] tag a(2) h
    unfolding hdr layout_def by (metis (no_types, lifting))
  then show "\<exists>info pools'. check_obf_header pr sv pools hdr now = Some (Some (pool,
      sv\<lparr>kd_obfV := v, kd_hsInfo := info, kd_invalidDrainLogOffset := p_InvalidDrainLogOffset pool,
        kd_conn := SetEpochSeed (kd_conn sv) v, kd_recvObfPool := Some pool, kd_sendObfPool := Some pool\<rparr>), pools') \<and>
      (hi_HasTimestampPaddingLen info \<longrightarrow> hi_TimestampPaddingLen info = hc_TimestampPadding ctx) \<and> cache_ok pr pools'"
    using sv by (auto simp: check_obf_header_def server_codec_def new_codec_def now info_after_def no_info_def)
qed

text \<open>The server's state after the first packet, and the reply stream.\<close>

lemma server_after_timestamp:
  assumes pr: "primitives_ok pr" and sv: "server_codec pr users key ht debug = Some sv" and us: "users \<noteq> []"
    and m: "matchNonceUser pr users (epochSeedPrefix v) nonce = Some (user, secret)" and sec: "secret \<noteq> []" and name: "uc_Name user \<noteq> []"
    and nonce: "length nonce = NonceSize" and fresh: "f cache nonce = (True, cache1)" and sn: "derivedServerNonce nonce ts = Inr sn"
    and valid: "validateTimestamp ts tnow"
    and kd1: "kd1 = sv\<lparr>kd_obfV := v, kd_hsInfo := info, kd_invalidDrainLogOffset := off,
        kd_conn := SetEpochSeed (kd_conn sv) v, kd_recvObfPool := Some pool, kd_sendObfPool := Some pool\<rparr>"
    and conn1: "conn1 = (kd_conn kd1)\<lparr>cc_peerNonce := nonce, cc_authSecret := secret, cc_authUser := uc_Name user,
       cc_decStream := Some \<lparr>st_key = DeriveKey pr secret KeySize, st_nonce = nonce, st_pos = 0\<rparr>, cc_recvNonce := True\<rparr>"
  shows "receive_nonce pr (Some f) (kd_conn kd1) cache nonce = (None, conn1, cache1)"
    and "kd_macKey (ensureAuthenticatedUser pr (kd1\<lparr>kd_conn := conn1\<rparr>)) = deriveMuxMACKey pr secret"
    and "kd_userName (ensureAuthenticatedUser pr (kd1\<lparr>kd_conn := conn1\<rparr>)) = uc_Name user"
    and "\<not> cc_recvNonce (kd_conn kd1)" and "kd_recvObfPool sv = None" "\<not> cc_recvNonce (kd_conn sv)"
    and "accept_timestamp pr (after_read pr (kd1\<lparr>kd_conn := conn1\<rparr>) st) ts tnow = Inr (kd1\<lparr>kd_conn := conn1\<lparr>cc_decStream := Some st,
        cc_encStream := Some \<lparr>st_key = DeriveKey pr secret KeySize, st_nonce = sn, st_pos = 0\<rparr>, cc_localNonce := sn\<rparr>,
        kd_userName := uc_Name user, kd_macKey := deriveMuxMACKey pr secret, kd_hasReceivedTimestamp := True\<rparr>)"
    and "cc_sendNonce (kd_conn kd1) = []" "kd_isServer kd1"
proof -
  have s: "kd_conn sv = NewServerCryptoConn users" "kd_macKey sv = []" "kd_userName sv = []" "kd_recvObfPool sv = None" "kd_isServer sv"
    "\<not> kd_hasReceivedTimestamp sv"
    using sv by (auto simp: server_codec_def new_codec_def)
  show "receive_nonce pr (Some f) (kd_conn kd1) cache nonce = (None, conn1, cache1)"
    unfolding conn1 by (rule receive_nonce_server [where user = user and secret = secret])
      (use pr us m sec nonce fresh in \<open>simp_all add: kd1 s NewServerCryptoConn_def SetEpochSeed_def\<close>)
  show "kd_macKey (ensureAuthenticatedUser pr (kd1\<lparr>kd_conn := conn1\<rparr>)) = deriveMuxMACKey pr secret"
    and "kd_userName (ensureAuthenticatedUser pr (kd1\<lparr>kd_conn := conn1\<rparr>)) = uc_Name user"
    using name sec by (simp_all add: ensureAuthenticatedUser_def conn1 kd1 s Let_def)
  show "\<not> cc_recvNonce (kd_conn kd1)" "kd_recvObfPool sv = None" "\<not> cc_recvNonce (kd_conn sv)" "cc_sendNonce (kd_conn kd1) = []" "kd_isServer kd1"
    by (simp_all add: kd1 s NewServerCryptoConn_def SetEpochSeed_def)
  show "accept_timestamp pr (after_read pr (kd1\<lparr>kd_conn := conn1\<rparr>) st) ts tnow = Inr (kd1\<lparr>kd_conn := conn1\<lparr>cc_decStream := Some st,
        cc_encStream := Some \<lparr>st_key = DeriveKey pr secret KeySize, st_nonce = sn, st_pos = 0\<rparr>, cc_localNonce := sn\<rparr>,
        kd_userName := uc_Name user, kd_macKey := deriveMuxMACKey pr secret, kd_hasReceivedTimestamp := True\<rparr>)"
    using name sec sn valid newXChaCha20Stream_ok [OF pr derivedServerNonce_length [OF sn], of secret]
    by (simp add: accept_timestamp_def after_read_def ensureAuthenticatedUser_def conn1 kd1 s Let_def
        SetDerivedSendNonceFromTimestamp_def NewServerCryptoConn_def SetEpochSeed_def)
qed

text \<open>The server reads both packets once it has found the pool and the user.\<close>

lemma flight_read:
  fixes ce :: codec_env
  defines "pr \<equiv> ce_pr ce"
  assumes pr: "primitives_ok (ce_pr ce)" and pok: "pool_ok pool" and lts: "length ts = TimestampPayloadSize" and len: "length payload \<le> MaxPacketPayloadSize"
    and so: "split_ok (fst (calculatePadding ce (Some pool) c payload pos)) split"
    and b1: "build_timestamp_packet ce s0 pool ts utc pos2 = Inr (wp1, s1, pos3)"
    and b2: "build_data_packet ce s1 pool 0 c payload (fst (calculatePadding ce (Some pool) c payload pos)) split pos3 = Inr (wp2, s2, pos4)"
    and e0: "cc_encStream (kd_conn s0) = Some \<lparr>st_key = DeriveKey (ce_pr ce) secret KeySize, st_nonce = nonce, st_pos = 0\<rparr>"
    and s0: "kd_macKey s0 = deriveMuxMACKey (ce_pr ce) secret" "kd_sendObfPool s0 = Some pool" "kd_recvObfPool s0 = Some pool"
      "cc_decStream (kd_conn s0) = Some \<lparr>st_key = DeriveKey (ce_pr ce) secret KeySize, st_nonce = sn, st_pos = 0\<rparr>" "cc_recvNonce (kd_conn s0)"
    and sn: "derivedServerNonce nonce ts = Inr sn" and ln: "length nonce = NonceSize" and sec: "secret \<noteq> []" and name: "uc_Name user \<noteq> []"
    and server: "server_codec (ce_pr ce) users key ht sdebug = Some sv"
    and m: "matchNonceUser (ce_pr ce) users (epochSeedPrefix v) nonce = Some (user, secret)"
    and fresh: "f rcache nonce = (True, rcache1)" and lo: "length (wp_obfHdr wp1) = HandshakeObfPrefixSize"
    and find: "check_obf_header (ce_pr ce) sv pools (wp_obfHdr wp1) now = Some (Some (pool,
      sv\<lparr>kd_obfV := v, kd_hsInfo := info, kd_invalidDrainLogOffset := p_InvalidDrainLogOffset pool,
        kd_conn := SetEpochSeed (kd_conn sv) v, kd_recvObfPool := Some pool, kd_sendObfPool := Some pool\<rparr>), pools1)"
    and info: "hi_HasTimestampPaddingLen info \<longrightarrow> hi_TimestampPaddingLen info = stamp_boundary ce pool ts pos2"
    and valid: "validateTimestamp ts tnow"
    and cl: "cl' = s2\<lparr>kd_conn := (kd_conn s2)\<lparr>cc_sendNonce := []\<rparr>, kd_hasSentTimestamp := True\<rparr>"
  shows "\<exists>n sv1 inp1 sv2 m sv3.
    read_packet pr (Some f) sched now \<lparr>rs_kd = sv, rs_cache = rcache, rs_pools = pools, rs_inp = wire_data nonce [wp1, wp2] @ rest\<rparr> =
      Some (ReadPacket TimestampChannelID ts n, \<lparr>rs_kd = sv1, rs_cache = rcache1, rs_pools = pools1, rs_inp = inp1\<rparr>) \<and>
    kd_userName sv1 = uc_Name user \<and> accept_timestamp pr sv1 ts tnow = Inr sv2 \<and>
    read_packet pr (Some f) sched2 now2 \<lparr>rs_kd = sv2, rs_cache = rcache1, rs_pools = pools1, rs_inp = inp1\<rparr> =
      Some (ReadPacket c payload m, \<lparr>rs_kd = sv3, rs_cache = rcache1, rs_pools = pools1, rs_inp = rest\<rparr>) \<and>
    in_step cl' sv3 \<and> in_step sv3 cl'"
  unfolding pr_def
proof -
  let ?pr = "ce_pr ce"
  let ?st = "\<lparr>st_key = DeriveKey ?pr secret KeySize, st_nonce = nonce, st_pos = 0\<rparr>"
  define kd1 where "kd1 = sv\<lparr>kd_obfV := v, kd_hsInfo := info, kd_invalidDrainLogOffset := p_InvalidDrainLogOffset pool,
        kd_conn := SetEpochSeed (kd_conn sv) v, kd_recvObfPool := Some pool, kd_sendObfPool := Some pool\<rparr>"
  define conn1 where "conn1 = (kd_conn kd1)\<lparr>cc_peerNonce := nonce, cc_authSecret := secret, cc_authUser := uc_Name user,
       cc_decStream := Some ?st, cc_recvNonce := True\<rparr>"
  have k1: "kd_hsInfo kd1 = info" "cc_decStream conn1 = Some ?st" "cc_recvNonce conn1" "cc_sendNonce conn1 = cc_sendNonce (kd_conn kd1)"
    by (simp_all add: kd1_def conn1_def)
  have us: "users \<noteq> []" using m by auto
  note S = server_after_timestamp [where f = f and cache = rcache, OF pr server us m sec name ln fresh sn valid kd1_def conn1_def]
  obtain st1 where c1: "kd_conn s1 = (kd_conn s0)\<lparr>cc_encStream := Some st1\<rparr>" using timestamp_packet_state(2) [OF pok e0 b1] by blast
  have e1: "cc_encStream (kd_conn s1) = Some st1" by (simp add: c1)
  define sv1 where "sv1 = after_read ?pr (kd1\<lparr>kd_conn := conn1\<rparr>) st1"
  define inp1 where "inp1 = packet_bytes wp2 @ rest"
  have read1: "\<exists>n. read_packet ?pr (Some f) sched now \<lparr>rs_kd = sv, rs_cache = rcache, rs_pools = pools, rs_inp = wire_data nonce [wp1, wp2] @ rest\<rparr> =
      Some (ReadPacket TimestampChannelID ts n, \<lparr>rs_kd = sv1, rs_cache = rcache1, rs_pools = pools1, rs_inp = inp1\<rparr>)"
    using timestamp_packet_read(1) [OF pr pok lts b1 e0, of "\<lparr>rs_kd = sv, rs_cache = rcache, rs_pools = pools, rs_inp = wire_data nonce [wp1, wp2] @ rest\<rparr>" nonce
        inp1 now kd1 pools1 "Some f" conn1 rcache1 sched] find info S lo ln k1
    by (simp add: e1 sv1_def inp1_def wire_data_first kd1_def [symmetric] conn1_def [symmetric] s0 stamp_boundary_def split_beta)
  define sv2 where "sv2 = kd1\<lparr>kd_conn := conn1\<lparr>cc_decStream := Some st1,
        cc_encStream := Some \<lparr>st_key = DeriveKey ?pr secret KeySize, st_nonce = sn, st_pos = 0\<rparr>, cc_localNonce := sn\<rparr>,
        kd_userName := uc_Name user, kd_macKey := deriveMuxMACKey ?pr secret, kd_hasReceivedTimestamp := True\<rparr>"
  have acc: "accept_timestamp ?pr sv1 ts tnow = Inr sv2" unfolding sv1_def sv2_def by (rule S(7))
  have key: "deriveMuxMACKey ?pr secret \<noteq> []" using pr by (metis deriveMuxMACKey_def primitives_ok_def list.size(3) zero_neq_numeral)
  have s1: "kd_macKey s1 = deriveMuxMACKey ?pr secret" "kd_sendObfPool s1 = Some pool" "kd_recvObfPool s1 = Some pool"
    by (subst timestamp_packet_state(3) [OF pok e0 b1], simp add: s0)+
  define sv3 where "sv3 = after_read ?pr sv2 (the (cc_encStream (kd_conn s2)))"
  have read2: "read_packet ?pr (Some f) sched2 now2 \<lparr>rs_kd = sv2, rs_cache = rcache1, rs_pools = pools1, rs_inp = inp1\<rparr> =
      Some (ReadPacket c payload (length (packet_bytes wp2)), \<lparr>rs_kd = sv3, rs_cache = rcache1, rs_pools = pools1, rs_inp = rest\<rparr>)"
    using data_packet_read(1) [where rs = "\<lparr>rs_kd = sv2, rs_cache = rcache1, rs_pools = pools1, rs_inp = inp1\<rparr>" and rest = rest,
        OF pr pok len refl so e1 _ _ _ _ _ _ b2, of "Some f" sched2 now2] key s1 k1
    by (simp add: sv2_def sv3_def inp1_def kd1_def)
  note D = data_packet_state [OF pok e1 b2]
  obtain st2 where c2: "kd_conn s2 = (kd_conn s1)\<lparr>cc_encStream := Some st2\<rparr>" using D(1) by blast
  have s2: "kd_macKey s2 = deriveMuxMACKey ?pr secret" "kd_sendObfPool s2 = Some pool" "kd_recvObfPool s2 = Some pool"
    by (subst D(2), simp add: s1)+
  have "in_step cl' sv3 \<and> in_step sv3 cl'"
    using s2 pok key S(8,9) k1
    by (simp add: in_step_def cl sv3_def after_read_def ensure_macKey sv2_def c2 c1 kd1_def s0)
  moreover have "kd_userName sv1 = uc_Name user" using S(3) by (simp add: sv1_def after_read_def)
  ultimately show "\<exists>n sv1 inp1 sv2 m sv3.
    read_packet ?pr (Some f) sched now \<lparr>rs_kd = sv, rs_cache = rcache, rs_pools = pools, rs_inp = wire_data nonce [wp1, wp2] @ rest\<rparr> =
      Some (ReadPacket TimestampChannelID ts n, \<lparr>rs_kd = sv1, rs_cache = rcache1, rs_pools = pools1, rs_inp = inp1\<rparr>) \<and>
    kd_userName sv1 = uc_Name user \<and> accept_timestamp ?pr sv1 ts tnow = Inr sv2 \<and>
    read_packet ?pr (Some f) sched2 now2 \<lparr>rs_kd = sv2, rs_cache = rcache1, rs_pools = pools1, rs_inp = inp1\<rparr> =
      Some (ReadPacket c payload m, \<lparr>rs_kd = sv3, rs_cache = rcache1, rs_pools = pools1, rs_inp = rest\<rparr>) \<and>
    in_step cl' sv3 \<and> in_step sv3 cl'" using read1 acc read2 by blast
qed

lemma flight:
  fixes rnd :: "nat \<Rightarrow> byte"
  assumes pr: "primitives_ok (ce_pr ce)" and keys: "DeriveK (ce_pr ce) key = (k, k2)"
    and client: "client_codec (ce_pr ce) rnd key (uc_Name user) (uc_Password user) ht utcSec clientID incID cdebug = Some (Inr cl)"
    and lts: "length ts = TimestampPayloadSize" and len: "length payload \<le> MaxPacketPayloadSize"
    and sent: "sendPacketNow ce cl c payload None ts utc True pos = (res, cl', pos')"
    and server: "server_codec (ce_pr ce) users key ht sdebug = Some sv" and user: "user \<in> set users" "uc_Name user \<noteq> []"
    and cache: "cache_ok (ce_pr ce) pools"
    and ready: "\<forall>e \<in> set (candidateHandshakeEpochs (computeEpoch k nowSec)). pool_of (ce_pr ce) key ht (computeVFromEpoch (ce_pr ce) e k2) \<noteq> None"
    and epoch: "computeEpoch k utcSec \<in> set (candidateHandshakeEpochs (computeEpoch k nowSec))"
    and clock: "UnixNano now div 1000000000 = nowSec" "\<bar>uint utc - nowSec\<bar> \<le> 300"
    and v: "v = computeVFromEpoch (ce_pr ce) (computeEpoch k utcSec) k2"
    and secret: "secret = BuildUserSecret (epochSeedPrefix v) (bytes_of_string (uc_Password user))"
    and nonce: "nonce = makeClientNonce (ce_pr ce) rnd (uc_Name user) secret"
    and tag: "\<And>e' out. e' \<in> set (takeWhile (\<lambda>x. x \<noteq> computeEpoch k utcSec) (candidateHandshakeEpochs (computeEpoch k nowSec))) \<Longrightarrow> res = Inr out \<Longrightarrow>
      handshakeHeaderAuth (ce_pr ce) (computeVFromEpoch (ce_pr ce) e' k2) (take HandshakeObfHeaderSize out) \<noteq>
        handshakeHeaderAuth (ce_pr ce) v (take HandshakeObfHeaderSize out)"
    and utag: "\<forall>u \<in> set (takeWhile (\<lambda>u. u \<noteq> user) users).
      nonceUserAuthTag (ce_pr ce) (uc_Name u) (BuildUserSecret (epochSeedPrefix v) (bytes_of_string (uc_Password u))) (take 16 nonce) \<noteq> drop 16 nonce"
    and fresh: "f rcache nonce = (True, rcache1)" and valid: "validateTimestamp ts tnow"
  shows "\<exists>out n sv1 pools1 inp1 sv2 m sv3. res = Inr out \<and>
    read_packet (ce_pr ce) (Some f) sched now \<lparr>rs_kd = sv, rs_cache = rcache, rs_pools = pools, rs_inp = out @ rest\<rparr> =
      Some (ReadPacket TimestampChannelID ts n, \<lparr>rs_kd = sv1, rs_cache = rcache1, rs_pools = pools1, rs_inp = inp1\<rparr>) \<and>
    kd_userName sv1 = uc_Name user \<and> cache_ok (ce_pr ce) pools1 \<and> accept_timestamp (ce_pr ce) sv1 ts tnow = Inr sv2 \<and>
    read_packet (ce_pr ce) (Some f) sched2 now2 \<lparr>rs_kd = sv2, rs_cache = rcache1, rs_pools = pools1, rs_inp = inp1\<rparr> =
      Some (ReadPacket c payload m, \<lparr>rs_kd = sv3, rs_cache = rcache1, rs_pools = pools1, rs_inp = rest\<rparr>) \<and>
    in_step cl' sv3 \<and> in_step sv3 cl'"
proof -
  let ?pr = "ce_pr ce"
  note C = client_codec_state [OF pr client keys v secret nonce]
  obtain pool where pool: "GeneratePoolWithKey (pr_sha256 ?pr) (pr_expo ?pr) v ht key = Some pool" "kd_sendObfPool cl = Some pool" "kd_recvObfPool cl = Some pool"
    using C(1) by blast
  have pok: "pool_ok pool" using pool(1) by (rule GeneratePool_ok)
  have ln: "length nonce = NonceSize" using length_makeClientNonce [OF pr] nonce by simp
  have sec: "secret \<noteq> []" by (simp add: secret BuildUserSecret_def epochSeedPrefix_def put64_def)
  obtain sn where sn: "derivedServerNonce nonce ts = Inr sn" using derivedServerNonce_total [OF ln lts] by blast
  let ?st = "\<lparr>st_key = DeriveKey ?pr secret KeySize, st_nonce = nonce, st_pos = 0\<rparr>"
  define s0 where "s0 = cl\<lparr>kd_conn := (kd_conn cl)\<lparr>cc_peerNonce := sn, cc_decStream := Some \<lparr>st_key = DeriveKey ?pr secret KeySize,
      st_nonce = sn, st_pos = 0\<rparr>, cc_recvNonce := True\<rparr>\<rparr>"
  obtain split pos2 wp1 s1 pos3 wp2 s2 pos4 where
    so: "split_ok (fst (calculatePadding ce (Some pool) c payload pos)) split" and
    b1: "build_timestamp_packet ce s0 pool ts utc pos2 = Inr (wp1, s1, pos3)" and
    b2: "build_data_packet ce s1 pool 0 c payload (fst (calculatePadding ce (Some pool) c payload pos)) split pos3 = Inr (wp2, s2, pos4)" and
    send: "sendPacketNow ce cl c payload None ts utc True pos = (Inr (wire_data nonce [wp1, wp2]),
      s2\<lparr>kd_conn := (kd_conn s2)\<lparr>cc_sendNonce := []\<rparr>, kd_hasSentTimestamp := True\<rparr>, pos4)"
    by (rule first_send [OF pr pok lts pool(2) C(6,7) _ _ _ sec _ _ ln s0_def sn, where c = c and payload = payload and pos = pos and utc = utc and st = ?st]) (simp_all add: C(8))
  define out where "out = wire_data nonce [wp1, wp2]"
  have res: "res = Inr out" and cl': "cl' = s2\<lparr>kd_conn := (kd_conn s2)\<lparr>cc_sendNonce := []\<rparr>, kd_hasSentTimestamp := True\<rparr>"
    using send sent by (simp_all add: out_def)
  have e0: "cc_encStream (kd_conn s0) = Some ?st" by (simp add: s0_def C(8))
  note T = timestamp_packet_state [OF pok e0 b1]
  obtain r where hdr: "wp_obfHdr wp1 = SelectHandshakeHeaderWithContext ?pr r pool v key
      \<lparr>hc_RawEpoch = computeEpoch k utcSec, hc_TimestampPadding = stamp_boundary ce pool ts pos2, hc_ClientID = kd_HeaderClientID s0,
       hc_IncID = kd_IncID s0, hc_PacketID = kd_obfPacketID s0, hc_UTCSeconds = utc\<rparr>"
    using T(1) by (auto simp: s0_def C(3-5))
  define ctx where "ctx = \<lparr>hc_RawEpoch = computeEpoch k utcSec, hc_TimestampPadding = stamp_boundary ce pool ts pos2, hc_ClientID = kd_HeaderClientID s0,
       hc_IncID = kd_IncID s0, hc_PacketID = kd_obfPacketID s0, hc_UTCSeconds = utc\<rparr>"
  have ctx: "hc_RawEpoch ctx = computeEpoch k utcSec" "hc_TimestampPadding ctx = stamp_boundary ce pool ts pos2" "hc_UTCSeconds ctx = utc"
    by (simp_all add: ctx_def)
  have small: "unat (hc_TimestampPadding ctx) < 65000" unfolding ctx by (rule stamp_boundary_small [OF pok lts])
  have lo: "length (wp_obfHdr wp1) = HandshakeObfPrefixSize" unfolding hdr by (rule handshake_header_length [OF pr pok])
  then have tl: "take HandshakeObfHeaderSize out = take HandshakeObfHeaderSize (wp_obfHdr wp1)"
    by (simp add: out_def wire_data_def HandshakeObfPrefixSize_def)
  have F: "\<exists>info pools'. check_obf_header ?pr sv pools (wp_obfHdr wp1) now = Some (Some (pool,
      sv\<lparr>kd_obfV := v, kd_hsInfo := info, kd_invalidDrainLogOffset := p_InvalidDrainLogOffset pool,
        kd_conn := SetEpochSeed (kd_conn sv) v, kd_recvObfPool := Some pool, kd_sendObfPool := Some pool\<rparr>), pools') \<and>
      (hi_HasTimestampPaddingLen info \<longrightarrow> hi_TimestampPaddingLen info = hc_TimestampPadding ctx) \<and> cache_ok ?pr pools'"
    by (rule server_finds_client [OF pr cache keys ready _ _ _ small _ hdr [folded ctx_def] _ server clock(1)])
      (use epoch v pool(1) clock(2) tag [OF _ res] in \<open>simp_all add: ctx pool_of_def tl\<close>)
  obtain info pools1 where find: "check_obf_header ?pr sv pools (wp_obfHdr wp1) now = Some (Some (pool,
      sv\<lparr>kd_obfV := v, kd_hsInfo := info, kd_invalidDrainLogOffset := p_InvalidDrainLogOffset pool,
        kd_conn := SetEpochSeed (kd_conn sv) v, kd_recvObfPool := Some pool, kd_sendObfPool := Some pool\<rparr>), pools1)"
      "hi_HasTimestampPaddingLen info \<longrightarrow> hi_TimestampPaddingLen info = stamp_boundary ce pool ts pos2" "cache_ok ?pr pools1"
    using F unfolding ctx by blast
  have m: "matchNonceUser ?pr users (epochSeedPrefix v) nonce = Some (user, secret)"
    unfolding secret by (rule matchNonceUser_hit [OF pr user(1) _ utag]) (simp add: nonce secret)
  have s0: "kd_macKey s0 = deriveMuxMACKey ?pr secret" "kd_sendObfPool s0 = Some pool" "kd_recvObfPool s0 = Some pool"
      "cc_decStream (kd_conn s0) = Some \<lparr>st_key = DeriveKey ?pr secret KeySize, st_nonce = sn, st_pos = 0\<rparr>" "cc_recvNonce (kd_conn s0)"
    by (simp_all add: s0_def C pool)
  note R = flight_read [where f = f and rcache = rcache, OF pr pok lts len so b1 b2 e0 s0 sn ln sec user(2) server m fresh lo find(1,2) valid cl', folded out_def]
  show ?thesis using R [of sched rest sched2 now2] res find(3) by blast
qed

section \<open>Properties\<close>

text \<open>
  C24. The first flight of a client is understood by the server.  The client dials with the server key and the name and
  password of a user of the server; its epoch is one of those the server tries, its clock is within five minutes; the server's
  pools can be generated, no epoch tried before gives the same eight-byte tag and no user listed before the same nonce
  tag; the nonce has not been seen; and the time stamp is within five minutes of the server's clock when it is
  checked.  Then the first call of \<open>sendPacketNow\<close> succeeds, for every payload of a packet, and
  whatever the random choices, the sizes of the reads and the bytes that follow: the server reads the time stamp packet,
  knows the user, remembers the nonce, accepts the time stamp, derives the reply stream, and reads the data packet with the payload, using up
  exactly the bytes sent.  After that both directions of the connection are in step.
\<close>

theorem first_flight:
  fixes rnd :: "nat \<Rightarrow> byte"
  assumes "primitives_ok (ce_pr ce)" and "DeriveK (ce_pr ce) key = (k, k2)"
    and "client_codec (ce_pr ce) rnd key (uc_Name user) (uc_Password user) ht utcSec clientID incID cdebug = Some (Inr cl)"
    and "length ts = TimestampPayloadSize" and "length payload \<le> MaxPacketPayloadSize"
    and "sendPacketNow ce cl c payload None ts utc True pos = (res, cl', pos')"
    and "server_codec (ce_pr ce) users key ht sdebug = Some sv" and "user \<in> set users" and "uc_Name user \<noteq> []"
    and "cache_ok (ce_pr ce) pools"
    and "\<forall>e \<in> set (candidateHandshakeEpochs (computeEpoch k nowSec)).
      GeneratePoolWithKey (pr_sha256 (ce_pr ce)) (pr_expo (ce_pr ce)) (computeVFromEpoch (ce_pr ce) e k2) ht key \<noteq> None"
    and "computeEpoch k utcSec \<in> set (candidateHandshakeEpochs (computeEpoch k nowSec))"
    and "UnixNano now div 1000000000 = nowSec" and "\<bar>uint utc - nowSec\<bar> \<le> 300"
    and "v = computeVFromEpoch (ce_pr ce) (computeEpoch k utcSec) k2"
    and "secret = BuildUserSecret (epochSeedPrefix v) (bytes_of_string (uc_Password user))"
    and "nonce = makeClientNonce (ce_pr ce) rnd (uc_Name user) secret"
    and "\<forall>e' \<in> set (takeWhile (\<lambda>x. x \<noteq> computeEpoch k utcSec) (candidateHandshakeEpochs (computeEpoch k nowSec))). \<forall>out. res = Inr out \<longrightarrow>
      handshakeHeaderAuth (ce_pr ce) (computeVFromEpoch (ce_pr ce) e' k2) (take HandshakeObfHeaderSize out) \<noteq>
        handshakeHeaderAuth (ce_pr ce) v (take HandshakeObfHeaderSize out)"
    and "\<forall>u \<in> set (takeWhile (\<lambda>u. u \<noteq> user) users).
      nonceUserAuthTag (ce_pr ce) (uc_Name u) (BuildUserSecret (epochSeedPrefix v) (bytes_of_string (uc_Password u))) (take 16 nonce) \<noteq> drop 16 nonce"
    and "\<not> nonce_seen seen nonce" and "validateTimestamp ts tnow"
  shows "\<exists>out n sv1 seen1 pools1 inp1 sv2 m sv3. res = Inr out \<and>
    read_packet (ce_pr ce) (Some AddIfAbsent) sched now \<lparr>rs_kd = sv, rs_cache = seen, rs_pools = pools, rs_inp = out @ rest\<rparr> =
      Some (ReadPacket TimestampChannelID ts n, \<lparr>rs_kd = sv1, rs_cache = seen1, rs_pools = pools1, rs_inp = inp1\<rparr>) \<and>
    kd_userName sv1 = uc_Name user \<and> nonce_seen seen1 nonce \<and> cache_ok (ce_pr ce) pools1 \<and> accept_timestamp (ce_pr ce) sv1 ts tnow = Inr sv2 \<and>
    read_packet (ce_pr ce) (Some AddIfAbsent) sched2 now2 \<lparr>rs_kd = sv2, rs_cache = seen1, rs_pools = pools1, rs_inp = inp1\<rparr> =
      Some (ReadPacket c payload m, \<lparr>rs_kd = sv3, rs_cache = seen1, rs_pools = pools1, rs_inp = rest\<rparr>) \<and>
    in_step cl' sv3 \<and> in_step sv3 cl'"
proof -
  obtain seen1 where a: "AddIfAbsent seen nonce = (True, seen1)" "nonce_seen seen1 nonce"
    using assms(20) by (auto simp: AddIfAbsent_def nonce_seen_def)
  note F = flight [where f = AddIfAbsent and rcache = seen and nonce = nonce, OF assms(1-10) _ assms(12-17) _ assms(19) a(1) assms(21)]
  show ?thesis using F [of sched rest sched2 now2] assms(11,18) a(2) unfolding pool_of_def by blast
qed

text \<open>
  C25. Packets of an established direction arrive as they were sent.  If sender and receiver are in step, any sequence of
  payloads of at most the packet size on any channels is sent without an error, and the read loop, which gets the bytes in
  pieces of any sizes, reads back exactly these channels and payloads in order and no byte of what follows; header MACs,
  packet MACs, paddings, obfuscation headers and the chains of fake headers in the paddings all pass, with and without the
  debug checks; the two ends are in step again, and so is the other direction if it was.
\<close>

theorem packet_stream_roundtrip:
  assumes "primitives_ok (ce_pr ce)" and "in_step s (rs_kd rs)" and "\<forall>(c, payload) \<in> set ps. length payload \<le> MaxPacketPayloadSize"
  shows "\<exists>out s' pos' r'. send_all ce s ps pos = Some (out, s', pos') \<and>
      read_packets (length ps) (ce_pr ce) add sched now (rs\<lparr>rs_inp := out @ rest\<rparr>) = Some (ps, rs\<lparr>rs_kd := r', rs_inp := rest\<rparr>) \<and>
      in_step s' r' \<and> (in_step (rs_kd rs) s \<longrightarrow> in_step r' s')"
  using stream_roundtrip [OF assms, of pos add sched now rest] other_direction by blast

text \<open>A run on sample primitives, whose tags and hashes are constant.\<close>

definition sample_env :: codec_env where
  "sample_env = \<lparr>ce_pr = sample_primitives, ce_rnd = (\<lambda>i. word_of_nat i), ce_pick = (\<lambda>_ _ _ _. (False, 0))\<rparr>"

definition sample_user :: UserCredential where
  "sample_user = \<lparr>uc_Name = ''u'', uc_Password = ''p''\<rparr>"

definition sample_now :: time where
  "sample_now = (62135596800 + 1700000000) * 1000000000"

definition sample_ts :: bytes where
  "sample_ts = replicate 8 1 @ put64 1700000100000"

lemma sample_client:
  "\<exists>cl. client_codec (ce_pr sample_env) (\<lambda>_. 9) [] (uc_Name sample_user) (uc_Password sample_user) HeaderTypeAny 1700000000 (replicate 8 1) 5 False = Some (Inr cl)"
proof -
  obtain pool where p: "GeneratePoolWithKey sample_sha sample_expo 167 HeaderTypeAny [] = Some pool" using sample_pool by blast
  have s: "pr_sha256 sample_primitives = sample_sha" "pr_expo sample_primitives = sample_expo" by (simp_all add: sample_primitives_def)
  show ?thesis
    using NewClientCryptoConn_ok [OF sample_keys(4) refl, of "\<lambda>_. 9" "uc_Name sample_user" "bytes_of_string (uc_Password sample_user)" 167] p
    by (simp add: client_codec_def sample_env_def sample_keys Let_def new_codec_def s)
qed

lemma sample_flight_hyps:
  "primitives_ok (ce_pr sample_env)" "DeriveK (ce_pr sample_env) [] = (0, 2459565876494606981)"
  "cache_ok (ce_pr sample_env) (\<lambda>_ _. Map.empty)"
  "\<forall>e \<in> set (candidateHandshakeEpochs (computeEpoch 0 1700000000)).
      GeneratePoolWithKey (pr_sha256 (ce_pr sample_env)) (pr_expo (ce_pr sample_env)) (computeVFromEpoch (ce_pr sample_env) e 2459565876494606981) HeaderTypeAny [] \<noteq> None"
  "computeEpoch 0 1700000000 \<in> set (candidateHandshakeEpochs (computeEpoch 0 1700000000))"
  "takeWhile (\<lambda>x. x \<noteq> computeEpoch 0 1700000000) (candidateHandshakeEpochs (computeEpoch 0 1700000000)) = []"
  "UnixNano sample_now div 1000000000 = 1700000000"
proof -
  obtain pool where "GeneratePoolWithKey sample_sha sample_expo 167 HeaderTypeAny [] = Some pool" using sample_pool by blast
  then show "\<forall>e \<in> set (candidateHandshakeEpochs (computeEpoch 0 1700000000)).
      GeneratePoolWithKey (pr_sha256 (ce_pr sample_env)) (pr_expo (ce_pr sample_env)) (computeVFromEpoch (ce_pr sample_env) e 2459565876494606981) HeaderTypeAny [] \<noteq> None"
    by (simp add: sample_env_def sample_keys) (simp add: sample_primitives_def)
qed (simp_all add: sample_env_def sample_keys cache_ok_def candidateHandshakeEpochs_def UnixNano_def sample_now_def)

theorem first_flight_witness:
  "\<exists>cl sv out cl' pos' n sv1 seen1 pools1 inp1 sv2 m sv3.
    sendPacketNow sample_env cl 9 [1, 2, 3] None sample_ts 1700000100 True 0 = (Inr out, cl', pos') \<and>
    read_packet (ce_pr sample_env) (Some AddIfAbsent) (\<lambda>_. 1) sample_now \<lparr>rs_kd = sv, rs_cache = newNonceReplayCache, rs_pools = (\<lambda>_ _. Map.empty), rs_inp = out @ [7]\<rparr> =
      Some (ReadPacket TimestampChannelID sample_ts n, \<lparr>rs_kd = sv1, rs_cache = seen1, rs_pools = pools1, rs_inp = inp1\<rparr>) \<and>
    kd_userName sv1 = uc_Name sample_user \<and> accept_timestamp (ce_pr sample_env) sv1 sample_ts sample_now = Inr sv2 \<and>
    read_packet (ce_pr sample_env) (Some AddIfAbsent) (\<lambda>_. 1) sample_now \<lparr>rs_kd = sv2, rs_cache = seen1, rs_pools = pools1, rs_inp = inp1\<rparr> =
      Some (ReadPacket 9 [1, 2, 3] m, \<lparr>rs_kd = sv3, rs_cache = seen1, rs_pools = pools1, rs_inp = [7]\<rparr>) \<and>
    in_step cl' sv3 \<and> in_step sv3 cl'"
proof -
  obtain cl where cl: "client_codec (ce_pr sample_env) (\<lambda>_. 9) [] (uc_Name sample_user) (uc_Password sample_user) HeaderTypeAny 1700000000 (replicate 8 1) 5 False = Some (Inr cl)"
    using sample_client by blast
  obtain res cl' pos' where send: "sendPacketNow sample_env cl 9 [1, 2, 3] None sample_ts 1700000100 True 0 = (res, cl', pos')"
    by (metis surj_pair)
  obtain sv where sv: "server_codec (ce_pr sample_env) [sample_user] [] HeaderTypeAny True = Some sv" by (simp add: server_codec_def new_codec_def)
  note h = sample_flight_hyps
  have l: "length (sample_ts) = TimestampPayloadSize" "length [1 :: byte, 2, 3] \<le> MaxPacketPayloadSize"
    "sample_user \<in> set [sample_user]" "uc_Name sample_user \<noteq> []" "\<bar>uint (1700000100 :: u32) - 1700000000\<bar> \<le> 300"
    "\<not> nonce_seen newNonceReplayCache x" "validateTimestamp sample_ts sample_now" for x
    by (simp_all add: sample_ts_def sample_now_def validateTimestamp_def UnixMilli_def UnixNano_def MaxTimeDrift_def ReplayWindowSeconds_def
        seconds_def TimestampPayloadSize_def ClientIDSize_def TimestampSize_def MaxPacketSize_def obf_consts sample_user_def
        nonce_seen_def newNonceReplayCache_def)
  note W = first_flight [OF h(1,2) cl l(1,2) send sv l(3,4) h(3,4,5,7) l(5) refl refl refl _ _ l(6,7), of "\<lambda>_. 1" "[7]" "\<lambda>_. 1" sample_now]
  show ?thesis using W send h(6) by simp blast
qed

text \<open>An end that is in step with itself.\<close>

definition sample_codec :: "Pool \<Rightarrow> codec" where
  "sample_codec pool =
     (let st = \<lparr>st_key = [], st_nonce = [], st_pos = 0\<rparr>
      in (the (server_codec (ce_pr sample_env) [sample_user] [] HeaderTypeAny False))
        \<lparr>kd_sendObfPool := Some pool, kd_recvObfPool := Some pool, kd_macKey := [1],
         kd_conn := (NewServerCryptoConn [sample_user])\<lparr>cc_encStream := Some st, cc_decStream := Some st, cc_recvNonce := True\<rparr>\<rparr>)"

lemma sample_codec_in_step: "pool_ok pool \<Longrightarrow> in_step (sample_codec pool) (sample_codec pool)"
  by (simp add: in_step_def sample_codec_def Let_def server_codec_def new_codec_def NewServerCryptoConn_def)

theorem packet_stream_roundtrip_witness:
  "\<exists>s r out s' pos' r'. in_step s r \<and> send_all sample_env s [(9, [1, 2]), (3, []), (12, replicate 100 0)] 0 = Some (out, s', pos') \<and>
    read_packets 3 (ce_pr sample_env) (Some AddIfAbsent) (\<lambda>_. 2) sample_now
      \<lparr>rs_kd = r, rs_cache = newNonceReplayCache, rs_pools = (\<lambda>_ _. Map.empty), rs_inp = out @ [5]\<rparr> =
      Some ([(9, [1, 2]), (3, []), (12, replicate 100 0)], \<lparr>rs_kd = r', rs_cache = newNonceReplayCache, rs_pools = (\<lambda>_ _. Map.empty), rs_inp = [5]\<rparr>)"
proof -
  obtain pool where p: "GeneratePoolWithKey sample_sha sample_expo 167 HeaderTypeAny [] = Some pool" using sample_pool by blast
  define kd where "kd = sample_codec pool"
  have k: "in_step kd kd" unfolding kd_def by (rule sample_codec_in_step [OF GeneratePool_ok [OF p]])
  note W = packet_stream_roundtrip [of sample_env kd "\<lparr>rs_kd = kd, rs_cache = newNonceReplayCache, rs_pools = (\<lambda>_ _. Map.empty), rs_inp = []\<rparr>"
      "[(9, [1, 2]), (3, []), (12, replicate 100 0)]" 0 "Some AddIfAbsent" "\<lambda>_. 2" sample_now "[5]"]
  have "\<forall>(c, payload) \<in> set [(9 :: byte, [1, 2 :: byte]), (3, []), (12, replicate 100 0)]. length payload \<le> MaxPacketPayloadSize"
    by (simp add: MaxPacketSize_def obf_consts)
  with W k sample_flight_hyps(1) show ?thesis by (simp add: numeral_3_eq_3) blast
qed

text \<open>
  C29. With the debug checks on, a peer that has been authenticated can make the check of the fake headers read outside
  the padding, which is a run-time panic of the process: for every well-formed pool whose later headers carry a length, and
  every padding of at least 24 bytes, a padding that begins with one header whose length value points to the last
  byte of the padding is accepted as a start and then sliced out of range.
\<close>

theorem fake_header_chain_overrun:
  assumes "pool_ok pool" and "p_DataHeaderHasLen pool" and "24 \<le> n" and "n < 65536"
    and "hdr = SelectHeaderWithContext pool large idx rnd \<lparr>dc_LenValue = 0, dc_WireSize = word_of_nat (n - 1), dc_PacketID = pid\<rparr>"
  shows "validateObfBoundary (Some pool) (hdr @ replicate (n - 6) 0) paddingStart (paddingStart + n + PacketMACSize) paddingStart True = None"
proof -
  have w: "unat (word_of_nat (n - 1) :: u16) = n - 1" using assms(4) by (simp add: unat_of_nat take_bit_nat_eq_self)
  have l: "length hdr = 6" using SelectHeader_length [OF assms(1)] assms(5) by (simp add: obf_consts)
  have v: "ValidateHeader (Some pool) hdr" unfolding assms(5) by (rule SelectHeader_valid [OF assms(1)])
  have b: "DataHeaderBoundarySize (Some pool) hdr = Some (word_of_nat (n - 1))"
    using SelectHeader_boundary [OF assms(1,2)] assms(3) w unfolding assms(5) by simp
  have nz: "(word_of_nat (n - 1) :: u16) \<noteq> 0" using w assms(3) by auto
  have s: "slice (hdr @ replicate (n - 6) 0) 0 DataObfHeaderSize = hdr" using l by (simp add: slice_def obf_consts)
  show ?thesis
    using assms(2,3) l v b nz w s
    by (simp add: validateObfBoundary_def Let_def obf_consts validate_chain.simps) arith
qed

theorem fake_header_chain_overrun_witness:
  "\<exists>pool hdr. pool_ok pool \<and> validateObfBoundary (Some pool) (hdr @ replicate 94 0) 40 (40 + 100 + PacketMACSize) 40 True = None"
proof -
  obtain pool where p: "GeneratePoolWithKey sample_sha sample_expo 167 HeaderTypeAny [] = Some pool" using sample_pool by blast
  then have "p_DataHeaderHasLen pool"
    by (auto simp: GeneratePoolWithKey_def sample_layout Let_def split_beta split: option.splits)
  from fake_header_chain_overrun [OF GeneratePool_ok [OF p] this, of 100, OF _ _ refl, of False 0 "\<lambda>_. 9" 7 40]
  have "validateObfBoundary (Some pool) (SelectHeaderWithContext pool False 0 (\<lambda>_. 9) \<lparr>dc_LenValue = 0, dc_WireSize = word_of_nat (100 - 1), dc_PacketID = 7\<rparr> @
      replicate 94 0) 40 (40 + 100 + PacketMACSize) 40 True = None" by simp
  with GeneratePool_ok [OF p] show ?thesis by blast
qed

end
