(* ===== verification/Accept.thy ===== *)
theory Accept
  imports FirstPacket
begin

text \<open>
  What the server does with the first bytes of a connection (\<^verbatim>\<open>routeOrWrapConnection\<close> and
  \<^verbatim>\<open>prefixedConn\<close> of \<^verbatim>\<open>cmd/server/main.go\<close>): a connection that does not look like a client is passed
  on, whole, to the forward address, if there is one; otherwise the bytes that were read are put back in front.

  Shown: a genuine client is never passed on, and no byte of a connection is lost.
\<close>

section \<open>Model\<close>

record prefixedConn =
  pc_prefix :: bytes
  pc_conn :: bytes

text \<open>\<open>n\<close> is the size of the buffer and \<open>avail\<close> what the socket has ready at most.\<close>

definition prefixed_Read :: "prefixedConn \<Rightarrow> nat \<Rightarrow> nat \<Rightarrow> bytes \<times> prefixedConn" where
  "prefixed_Read c n avail =
     (if pc_prefix c \<noteq> [] then (take n (pc_prefix c), c\<lparr>pc_prefix := drop n (pc_prefix c)\<rparr>)
      else (take (min n avail) (pc_conn c), c\<lparr>pc_conn := drop (min n avail) (pc_conn c)\<rparr>))"

text \<open>
  What becomes of a connection: closed because the first bytes do not come, passed on with the bytes read so far in front
  of the rest, or kept as a client connection.
\<close>

datatype accepted = ConnClosed | ConnForwarded bytes bytes | ConnKept prefixedConn

text \<open>
  \<open>input\<close> has all the bytes that the peer sends before it ends the connection or the deadline passes.  The clock is read
  for each of the two tests; None is a generator of pools that does not end.
\<close>

definition routeOrWrapConnection ::
  "primitives \<Rightarrow> pool_cache \<Rightarrow> string \<Rightarrow> HeaderType \<Rightarrow> string \<Rightarrow> int \<Rightarrow> int \<Rightarrow> bytes \<Rightarrow> (accepted \<times> pool_cache) option" where
  "routeOrWrapConnection pr cache key ht addr now1 now2 input =
     (let forwardAddr = TrimSpace addr; usePrefilter = (forwardAddr \<noteq> []);
          readSize = (if usePrefilter then HandshakePrefilterSize pr key else HandshakeObfPrefixSize)
      in if length input < readSize then Some (ConnClosed, cache)
         else
           (let pre = take readSize input; rest = drop readSize input
            in case (if usePrefilter then MayMatchHandshakePrefix pr cache key pre ht now1 else Some (True, cache)) of
                 None \<Rightarrow> None
               | Some (False, cache1) \<Rightarrow> Some (ConnForwarded pre rest, cache1)
               | Some (True, cache1) \<Rightarrow>
                   if length input < HandshakeObfPrefixSize then Some (ConnClosed, cache1)
                   else
                     (let pre2 = take HandshakeObfPrefixSize input; rest2 = drop HandshakeObfPrefixSize input
                      in case FindPoolForHandshakeWithInfo pr cache1 key pre2 ht now2 of
                           None \<Rightarrow> None
                         | Some (Some found, cache2) \<Rightarrow> Some (ConnKept \<lparr>pc_prefix = pre2, pc_conn = rest2\<rparr>, cache2)
                         | Some (None, cache2) \<Rightarrow>
                             if forwardAddr = [] then Some (ConnKept \<lparr>pc_prefix = pre2, pc_conn = rest2\<rparr>, cache2)
                             else Some (ConnForwarded pre2 rest2, cache2))))"

fun prefixed_reads :: "prefixedConn \<Rightarrow> (nat \<times> nat) list \<Rightarrow> bytes \<times> prefixedConn" where
  "prefixed_reads c [] = ([], c)"
| "prefixed_reads c ((n, avail) # ns) = (let (d, c1) = prefixed_Read c n avail; (ds, c2) = prefixed_reads c1 ns in (d @ ds, c2))"

section \<open>Properties\<close>

lemma prefixed_reads_all: "prefixed_reads c ns = (d, c') \<Longrightarrow> d @ pc_prefix c' @ pc_conn c' = pc_prefix c @ pc_conn c"
proof (induction c ns arbitrary: d rule: prefixed_reads.induct)
  case (2 c n avail ns)
  obtain d1 c1 where r: "prefixed_Read c n avail = (d1, c1)" by fastforce
  obtain ds where s: "prefixed_reads c1 ns = (ds, c')" "d = d1 @ ds" using 2(2) r by (auto simp: Let_def split: prod.splits)
  have "d1 @ pc_prefix c1 @ pc_conn c1 = pc_prefix c @ pc_conn c"
    using r by (auto simp: prefixed_Read_def simp flip: append_assoc split: if_splits)
  then show ?case using 2(1) [OF r [symmetric] refl s(1)] s(2) by simp
qed simp

text \<open>
  No byte is lost: a connection that is passed on arrives with exactly the bytes that the peer sent; one that is kept is
  read, by reads of any sizes, as exactly these bytes; and it is closed only if there is no whole first header.
\<close>

lemma first_bytes_lossless:
  assumes "routeOrWrapConnection pr cache key ht addr now1 now2 input = Some (res, cache')"
  shows "case res of
      ConnClosed \<Rightarrow> length input < HandshakeObfPrefixSize
    | ConnForwarded p rest \<Rightarrow> TrimSpace addr \<noteq> [] \<and> p @ rest = input
    | ConnKept c \<Rightarrow> pc_prefix c @ pc_conn c = input"
proof -
  have "HandshakePrefilterSize pr key \<le> 8" by (simp add: HandshakePrefilterSize_def Let_def HandshakeObfMagicMaxLen_def)
  then have "HandshakePrefilterSize pr key \<le> HandshakeObfPrefixSize" by (simp add: HandshakeObfPrefixSize_def HandshakeObfHeaderSize_def)
  then show ?thesis using assms by (auto simp: routeOrWrapConnection_def Let_def split: if_splits option.splits bool.splits prod.splits)
qed

text \<open>
  C33. A genuine client with a good clock is not passed on to the forward address.  A connection that begins with the first
  header of a client with the server key, for an epoch that the server tries at both readings of its clock, with a time
  within 300 seconds of the second reading and a
  length value in range, and with no epoch tried before that gives the same tag, passes the test of its first bytes and
  the search for its pool, whatever the forward address
  is and whatever pools the cache holds, if the pools of the epochs can be generated; it is kept, and reads of any sizes
  return exactly what the client sent.  (A client whose clock is further off is passed on like any stranger.)
\<close>

theorem genuine_client_kept:
  fixes rnd :: "nat \<Rightarrow> byte"
  assumes pr: "primitives_ok pr" and cache: "cache_ok pr cache" and k: "DeriveK pr key = (k, k2)"
    and pools: "\<And>now e. now \<in> {now1, now2} \<Longrightarrow> e \<in> set (candidateHandshakeEpochs (computeEpoch k now)) \<Longrightarrow>
      GeneratePoolWithKey (pr_sha256 pr) (pr_expo pr) (computeVFromEpoch pr e k2) ht key \<noteq> None"
    and e: "\<And>now. now \<in> {now1, now2} \<Longrightarrow> hc_RawEpoch ctx \<in> set (candidateHandshakeEpochs (computeEpoch k now))"
    and v: "v = computeVFromEpoch pr (hc_RawEpoch ctx) k2" and pool: "GeneratePoolWithKey (pr_sha256 pr) (pr_expo pr) v ht key = Some pool"
    and len: "unat (hc_TimestampPadding ctx) + unat (l_LenOffset (getHandshakeLayout pr key)) < 65536"
    and clock: "\<bar>uint (hc_UTCSeconds ctx) - now2\<bar> \<le> 300"
    and head: "head = writeHandshakeHead (map rnd [0..<HandshakeObfHeaderSize]) pool (getHandshakeLayout pr key) ctx"
    and tag: "\<And>e'. e' \<in> set (takeWhile (\<lambda>x. x \<noteq> hc_RawEpoch ctx) (candidateHandshakeEpochs (computeEpoch k now2))) \<Longrightarrow>
      handshakeHeaderAuth pr (computeVFromEpoch pr e' k2) head \<noteq> handshakeHeaderAuth pr v head"
    and input: "input = SelectHandshakeHeaderWithContext pr rnd pool v key ctx @ rest"
  shows "\<exists>c cache'. routeOrWrapConnection pr cache key ht addr now1 now2 input = Some (ConnKept c, cache') \<and>
    (\<forall>ns d c'. prefixed_reads c ns = (d, c') \<longrightarrow> d @ pc_prefix c' @ pc_conn c' = input)"
proof -
  let ?h = "SelectHandshakeHeaderWithContext pr rnd pool v key ctx" and ?n = "HandshakePrefilterSize pr key"
  have lh: "length ?h = HandshakeObfPrefixSize" by (rule handshake_header_length [OF pr GeneratePool_ok [OF pool]])
  have n: "?n \<le> HandshakeObfPrefixSize"
    by (simp add: HandshakePrefilterSize_def Let_def HandshakeObfMagicMaxLen_def HandshakeObfPrefixSize_def HandshakeObfHeaderSize_def)
  have r: "\<forall>e \<in> set (candidateHandshakeEpochs (computeEpoch k now1)).
      GeneratePoolWithKey (pr_sha256 pr) (pr_expo pr) (computeVFromEpoch pr e k2) ht key \<noteq> None"
    "hc_RawEpoch ctx \<in> set (candidateHandshakeEpochs (computeEpoch k now1))"
    "\<forall>e \<in> set (candidateHandshakeEpochs (computeEpoch k now2)).
      GeneratePoolWithKey (pr_sha256 pr) (pr_expo pr) (computeVFromEpoch pr e k2) ht key \<noteq> None"
    "hc_RawEpoch ctx \<in> set (candidateHandshakeEpochs (computeEpoch k now2))"
    "\<forall>e' \<in> set (takeWhile (\<lambda>x. x \<noteq> hc_RawEpoch ctx) (candidateHandshakeEpochs (computeEpoch k now2))).
      handshakeHeaderAuth pr (computeVFromEpoch pr e' k2) head \<noteq> handshakeHeaderAuth pr v head"
    using pools e tag by auto
  obtain cache1 where m: "MayMatchHandshakePrefix pr cache key (take ?n ?h) ht now1 = Some (True, cache1)" "cache_ok pr cache1"
    using prefilter_no_false_negative [OF pr cache k r(1,2) v pool, of rnd] by auto
  have f: "\<exists>found cache2. FindPoolForHandshakeWithInfo pr c key ?h ht now2 = Some (Some found, cache2)" if "cache_ok pr c" for c
    using handshake_header_accepted [OF pr that k r(3,4) v pool refl len clock head r(5)] by auto
  have "\<exists>c cache'. routeOrWrapConnection pr cache key ht addr now1 now2 input = Some (ConnKept c, cache')"
    using f [OF cache] f [OF m(2)] m(1) lh n by (auto simp: routeOrWrapConnection_def Let_def input)
  then obtain c cache' where res: "routeOrWrapConnection pr cache key ht addr now1 now2 input = Some (ConnKept c, cache')" by blast
  have "pc_prefix c @ pc_conn c = input" using first_bytes_lossless [OF res] by simp
  then show ?thesis using res prefixed_reads_all [of c] by auto
qed

theorem genuine_client_kept_witness:
  "\<exists>pool c cache'. routeOrWrapConnection sample_primitives (\<lambda>_ _. Map.empty) [] HeaderTypeAny ''h:1'' 1700000000 1700000000
      (SelectHandshakeHeaderWithContext sample_primitives (\<lambda>_. 9) pool 167 [] sample_context @ [1, 2, 3]) = Some (ConnKept c, cache')"
proof -
  obtain pool where p: "GeneratePoolWithKey sample_sha sample_expo 167 HeaderTypeAny [] = Some pool" using sample_pool by blast
  have s: "pr_sha256 sample_primitives = sample_sha" "pr_expo sample_primitives = sample_expo" by (simp_all add: sample_primitives_def)
  have l: "getHandshakeLayout sample_primitives [] = generateHandshakeLayout sample_sha sample_expo []"
    by (simp add: getHandshakeLayout_def s)
  have c: "cache_ok sample_primitives (\<lambda>_ _. Map.empty)" by (simp add: cache_ok_def)
  have "\<exists>c cache'. routeOrWrapConnection sample_primitives (\<lambda>_ _. Map.empty) [] HeaderTypeAny ''h:1'' 1700000000 1700000000
      (SelectHandshakeHeaderWithContext sample_primitives (\<lambda>_. 9) pool 167 [] sample_context @ [1, 2, 3]) = Some (ConnKept c, cache') \<and>
      (\<forall>ns d c'. prefixed_reads c ns = (d, c') \<longrightarrow>
        d @ pc_prefix c' @ pc_conn c' = SelectHandshakeHeaderWithContext sample_primitives (\<lambda>_. 9) pool 167 [] sample_context @ [1, 2, 3])"
    by (rule genuine_client_kept [OF sample_keys(4) c sample_keys(1) _ _ _ _ _ _ refl _ refl])
      (simp_all add: sample_keys s p sample_context_def candidateHandshakeEpochs_def l sample_layout)
  then show ?thesis by blast
qed

end
