(* ===== verification/ServerHealth.thy ===== *)
theory ServerHealth
  imports GoStrings MuxConn Complex_Main "HOL-Library.Multiset"
begin

text \<open>
  How the client judges its servers (\<^verbatim>\<open>cmd/client/server_state.go\<close>): failures with growing retry delays,
  penalties that decay, and the order in which servers are tried.  Floating-point scores and weights are real numbers
  here, with the logarithms as arguments; the decay of a penalty is the exact double product, since its rounding decides
  when a penalty is gone.
\<close>

section \<open>Constants and state\<close>

definition initialServerSpeedScore :: u64 where "initialServerSpeedScore = 1048576"
definition defaultServerRTT :: duration where "defaultServerRTT = 100000000"
definition serverHealthDecayInterval :: duration where "serverHealthDecayInterval = seconds 300"
definition serverErrorDedupWindow :: duration where "serverErrorDedupWindow = seconds 2"
definition maxServerRTTSamples :: nat where "maxServerRTTSamples = 5"
definition muxDropPenalty :: int where "muxDropPenalty = -15"
definition maxMuxResponseTimeouts :: int where "maxMuxResponseTimeouts = 8"
definition writeTimeoutPenalty :: int where "writeTimeoutPenalty = -30"

definition dialRetryDelays :: "duration list" where
  "dialRetryDelays = map seconds [2, 5, 15, 60, 120]"

definition badResponseRetryDelays :: "duration list" where
  "badResponseRetryDelays = map seconds [10, 25, 75, 300, 600]"

definition noResponseRetryDelays :: "duration list" where
  "noResponseRetryDelays = map seconds [30, 60, 120, 300, 600]"

lemmas health_consts = initialServerSpeedScore_def defaultServerRTT_def serverHealthDecayInterval_def serverErrorDedupWindow_def
  maxServerRTTSamples_def muxDropPenalty_def maxMuxResponseTimeouts_def writeTimeoutPenalty_def dialRetryDelays_def
  badResponseRetryDelays_def noResponseRetryDelays_def

datatype serverHealthClass = serverHealthGood | serverHealthDegraded | serverHealthDialFailed | serverHealthBadResponse | serverHealthNoResponse

record serverIdentity =
  si_addr :: string
  si_port :: string
  si_key :: string

text \<open>A zero time is the number 0.\<close>

record serverHealth =
  sh_healthPenalty :: int
  sh_class :: serverHealthClass
  sh_failureCount :: int
  sh_nextRetry :: time
  sh_lastSpeed :: u64
  sh_recentRTTs :: "duration list"
  sh_hasConnected :: bool
  sh_lastError :: string
  sh_lastErrorTime :: "string \<rightharpoonup> time"
  sh_lastDecay :: time

record ServerEntry =
  se_ServerAddr :: string
  se_Key :: string

text \<open>A server of the configuration; \<open>ss_id\<close> stands for the pointer.\<close>

record clientServerState =
  ss_id :: nat
  ss_identity :: serverIdentity

type_synonym health_stats = "serverIdentity \<rightharpoonup> serverHealth"

definition newServerHealth :: "time \<Rightarrow> serverHealth" where
  "newServerHealth now =
     \<lparr>sh_healthPenalty = 0, sh_class = serverHealthGood, sh_failureCount = 0, sh_nextRetry = 0, sh_lastSpeed = initialServerSpeedScore,
      sh_recentRTTs = [], sh_hasConnected = False, sh_lastError = [], sh_lastErrorTime = Map.empty, sh_lastDecay = now\<rparr>"

text \<open>\<^verbatim>\<open>net.SplitHostPort\<close>.\<close>

definition SplitHostPort :: "string \<Rightarrow> (string \<times> string) option" where
  "SplitHostPort hp =
     (case LastIndex hp (CHR '':'') of
        None \<Rightarrow> None
      | Some i \<Rightarrow>
          (let port = drop (Suc i) hp
           in if hp \<noteq> [] \<and> hd hp = CHR 0x5B
              then
                (let close = length (takeWhile (\<lambda>c. c \<noteq> CHR 0x5D) hp)
                 in if close = length hp \<or> Suc close \<noteq> i then None
                    else if CHR 0x5B \<in> set (drop 1 hp) \<or> CHR 0x5D \<in> set (drop (Suc close) hp) then None
                    else Some (take (close - 1) (drop 1 hp), port))
              else if CHR '':'' \<in> set (take i hp) then None
              else if CHR 0x5B \<in> set hp \<or> CHR 0x5D \<in> set hp then None
              else Some (take i hp, port)))"

definition makeServerIdentity :: "ServerEntry \<Rightarrow> serverIdentity" where
  "makeServerIdentity srv =
     (let addr = TrimSpace (se_ServerAddr srv)
      in case SplitHostPort addr of
           Some (host, port) \<Rightarrow> \<lparr>si_addr = TrimSpace host, si_port = TrimSpace port, si_key = TrimSpace (se_Key srv)\<rparr>
         | None \<Rightarrow> \<lparr>si_addr = addr, si_port = [], si_key = TrimSpace (se_Key srv)\<rparr>)"

section \<open>Decay\<close>

text \<open>
  \<open>round53\<close> rounds to the 53 significant bits of a double, ties to even; 0.7 is 6305039478318694 / 2^53 there.  The
  product is rounded and then cut off towards zero.
\<close>

fun bit_len :: "nat \<Rightarrow> nat" where
  "bit_len n = (if n = 0 then 0 else Suc (bit_len (n div 2)))"

declare bit_len.simps [simp del]

definition round53 :: "nat \<Rightarrow> nat" where
  "round53 n =
     (let e = bit_len n - 53
      in if e = 0 then n
         else (let q = n div 2 ^ e; r = n mod 2 ^ e; h = 2 ^ (e - 1)
               in (if h < r \<or> r = h \<and> odd q then q + 1 else q) * 2 ^ e))"

definition decay_penalty :: "int \<Rightarrow> int" where
  "decay_penalty p = sgn p * int (round53 (round53 (nat \<bar>p\<bar>) * 6305039478318694) div 2 ^ 53)"

function decay_loop :: "serverHealth \<Rightarrow> time \<Rightarrow> serverHealth" where
  "decay_loop h now =
     (if serverHealthDecayInterval \<le> now - sh_lastDecay h
      then decay_loop (h\<lparr>sh_healthPenalty := decay_penalty (sh_healthPenalty h), sh_lastDecay := sh_lastDecay h + serverHealthDecayInterval\<rparr>) now
      else h)"
  by pat_completeness auto
termination
  by (relation "measure (\<lambda>(h, now). nat (now - sh_lastDecay h))") (auto simp: serverHealthDecayInterval_def seconds_def)

declare decay_loop.simps [simp del]

definition decayServerHealthLocked :: "serverHealth \<Rightarrow> time \<Rightarrow> serverHealth" where
  "decayServerHealthLocked h now =
     (if sh_lastDecay h = 0 then h\<lparr>sh_lastDecay := now\<rparr>
      else
        (let h1 = decay_loop h now
         in if sh_class h1 = serverHealthDegraded \<and> 0 \<le> sh_healthPenalty h1
            then h1\<lparr>sh_class := serverHealthGood, sh_healthPenalty := 0\<rparr> else h1))"

section \<open>Failures and successes\<close>

definition statsForLocked :: "health_stats \<Rightarrow> serverIdentity \<Rightarrow> time \<Rightarrow> serverHealth" where
  "statsForLocked st i now = (case st i of None \<Rightarrow> newServerHealth now | Some h \<Rightarrow> h)"

definition decayServerHealth :: "health_stats \<Rightarrow> time \<Rightarrow> health_stats" where
  "decayServerHealth st now = (\<lambda>i. map_option (\<lambda>h. decayServerHealthLocked h now) (st i))"

definition recordServerErrorTimeLocked :: "serverHealth \<Rightarrow> string \<Rightarrow> time \<Rightarrow> serverHealth \<times> bool" where
  "recordServerErrorTimeLocked h kind now =
     (h\<lparr>sh_lastErrorTime := (sh_lastErrorTime h)(kind \<mapsto> now)\<rparr>,
      case sh_lastErrorTime h kind of None \<Rightarrow> True | Some t \<Rightarrow> serverErrorDedupWindow \<le> now - t)"

definition serverHealthClassName :: "serverHealthClass \<Rightarrow> string" where
  "serverHealthClassName c =
     (case c of
        serverHealthDialFailed \<Rightarrow> ''dial_failed'' | serverHealthBadResponse \<Rightarrow> ''bad_response''
      | serverHealthNoResponse \<Rightarrow> ''no_response'' | serverHealthDegraded \<Rightarrow> ''degraded'' | serverHealthGood \<Rightarrow> ''good'')"

definition retryDelay :: "duration list \<Rightarrow> int \<Rightarrow> duration" where
  "retryDelay delays n =
     (if n \<le> 0 \<or> delays = [] then 0
      else (let idx = nat (n - 1) in delays ! (if length delays \<le> idx then length delays - 1 else idx)))"

definition recordServerHardFailureLocked :: "serverHealth \<Rightarrow> serverHealthClass \<Rightarrow> string \<Rightarrow> duration list \<Rightarrow> time \<Rightarrow> serverHealth" where
  "recordServerHardFailureLocked h c reason delays now =
     (case recordServerErrorTimeLocked h (''hard:'' @ serverHealthClassName c @ '':'' @ reason) now of
        (h1, False) \<Rightarrow> h1\<lparr>sh_lastError := reason\<rparr>
      | (h1, True) \<Rightarrow>
          (let h2 = decayServerHealthLocked h1 now;
               h3 = (if sh_class h2 = c then h2\<lparr>sh_failureCount := sh_failureCount h2 + 1\<rparr> else h2\<lparr>sh_class := c, sh_failureCount := 1\<rparr>)
           in h3\<lparr>sh_nextRetry := now + retryDelay delays (sh_failureCount h3), sh_lastError := reason\<rparr>))"

definition recordServerDegradedLocked :: "serverHealth \<Rightarrow> int \<Rightarrow> string \<Rightarrow> time \<Rightarrow> serverHealth" where
  "recordServerDegradedLocked h penalty reason now =
     (case recordServerErrorTimeLocked h (''degraded:'' @ reason) now of
        (h1, False) \<Rightarrow> h1\<lparr>sh_lastError := reason\<rparr>
      | (h1, True) \<Rightarrow>
          (let h2 = (if sh_class h1 = serverHealthGood \<or> sh_class h1 = serverHealthDegraded then h1\<lparr>sh_class := serverHealthDegraded\<rparr> else h1)
           in h2\<lparr>sh_healthPenalty := sh_healthPenalty h2 + penalty, sh_lastError := reason\<rparr>))"

definition recordConnectedServerTransientFailureLocked :: "serverHealth \<Rightarrow> int \<Rightarrow> string \<Rightarrow> time \<Rightarrow> serverHealth" where
  "recordConnectedServerTransientFailureLocked h penalty reason now =
     (case recordServerErrorTimeLocked h (''transient:'' @ reason) now of
        (h1, False) \<Rightarrow> h1\<lparr>sh_lastError := reason\<rparr>
      | (h1, True) \<Rightarrow>
          (let h2 = decayServerHealthLocked h1 now
           in h2\<lparr>sh_class := serverHealthDegraded, sh_failureCount := 0, sh_nextRetry := 0,
                 sh_healthPenalty := sh_healthPenalty h2 + penalty, sh_lastError := reason\<rparr>))"

definition recordServerDialFailed :: "health_stats \<Rightarrow> serverIdentity \<Rightarrow> string \<Rightarrow> time \<Rightarrow> health_stats" where
  "recordServerDialFailed st i reason now =
     st(i \<mapsto> recordServerHardFailureLocked (statsForLocked st i now) serverHealthDialFailed reason dialRetryDelays now)"

definition recordServerNoResponse :: "health_stats \<Rightarrow> serverIdentity \<Rightarrow> string \<Rightarrow> time \<Rightarrow> health_stats" where
  "recordServerNoResponse st i reason now =
     st(i \<mapsto> recordServerHardFailureLocked (statsForLocked st i now) serverHealthNoResponse reason noResponseRetryDelays now)"

definition recordServerBadResponse :: "health_stats \<Rightarrow> serverIdentity \<Rightarrow> string \<Rightarrow> time \<Rightarrow> health_stats" where
  "recordServerBadResponse st i reason now =
     st(i \<mapsto> recordServerHardFailureLocked (statsForLocked st i now) serverHealthBadResponse reason badResponseRetryDelays now)"

definition recordServerDegraded :: "health_stats \<Rightarrow> serverIdentity \<Rightarrow> int \<Rightarrow> string \<Rightarrow> time \<Rightarrow> health_stats" where
  "recordServerDegraded st i penalty reason now =
     st(i \<mapsto> recordServerDegradedLocked (decayServerHealthLocked (statsForLocked st i now) now) penalty reason now)"

text \<open>\<open>received\<close> is the number of bytes that the connection has received.\<close>

definition recordMuxResponseTimeout :: "health_stats \<Rightarrow> serverIdentity \<Rightarrow> u64 \<Rightarrow> string \<Rightarrow> time \<Rightarrow> health_stats" where
  "recordMuxResponseTimeout st i received reason now =
     (let h = statsForLocked st i now
      in st(i \<mapsto>
           (if received = 0
            then if \<not> sh_hasConnected h then recordServerHardFailureLocked h serverHealthNoResponse reason noResponseRetryDelays now
                 else recordConnectedServerTransientFailureLocked h writeTimeoutPenalty reason now
            else recordServerDegradedLocked (decayServerHealthLocked h now) writeTimeoutPenalty reason now)))"

definition healthy_again :: "serverHealth \<Rightarrow> serverHealth" where
  "healthy_again h =
     h\<lparr>sh_class := serverHealthGood, sh_failureCount := 0, sh_nextRetry := 0, sh_healthPenalty := 0, sh_hasConnected := True,
       sh_lastError := [], sh_lastErrorTime := Map.empty\<rparr>"

definition markServerConnected :: "health_stats \<Rightarrow> serverIdentity \<Rightarrow> time \<Rightarrow> health_stats" where
  "markServerConnected st i now = st(i \<mapsto> healthy_again (statsForLocked st i now))"

definition recordServerRTT :: "health_stats \<Rightarrow> serverIdentity \<Rightarrow> duration \<Rightarrow> time \<Rightarrow> health_stats" where
  "recordServerRTT st i rtt now =
     (if rtt \<le> 0 then st
      else
        (let h = healthy_again (statsForLocked st i now); rtts = sh_recentRTTs h @ [rtt]
         in st(i \<mapsto> h\<lparr>sh_recentRTTs :=
              (if maxServerRTTSamples < length rtts then drop (length rtts - maxServerRTTSamples) rtts else rtts)\<rparr>)))"

definition recordServerSpeed :: "health_stats \<Rightarrow> serverIdentity \<Rightarrow> u64 \<Rightarrow> time \<Rightarrow> health_stats" where
  "recordServerSpeed st i speed now =
     (if speed = 0 then st else st(i \<mapsto> (healthy_again (statsForLocked st i now))\<lparr>sh_lastSpeed := speed\<rparr>))"

definition updateServerSpeed :: "health_stats \<Rightarrow> serverIdentity \<Rightarrow> u64 \<Rightarrow> time \<Rightarrow> health_stats" where
  "updateServerSpeed st i speed now =
     (if speed = 0 then st else st(i \<mapsto> (statsForLocked st i now)\<lparr>sh_lastSpeed := speed\<rparr>))"

definition recordMuxClosed :: "health_stats \<Rightarrow> serverIdentity \<Rightarrow> bool \<Rightarrow> int \<Rightarrow> time \<Rightarrow> health_stats" where
  "recordMuxClosed st i intentionalClose active now =
     (if intentionalClose then st
      else if 1 < active then recordServerDegraded st i (muxDropPenalty * 2) ''mux closed with multiple active channels'' now
      else if 0 < active then recordServerDegraded st i muxDropPenalty ''mux closed with active channel'' now
      else st)"

section \<open>Ranking\<close>

definition serverCanRetry :: "serverHealth \<Rightarrow> time \<Rightarrow> bool" where
  "serverCanRetry h now \<longleftrightarrow> sh_nextRetry h = 0 \<or> \<not> now < sh_nextRetry h"

definition normalizedHealthClass :: "serverHealth \<Rightarrow> serverHealthClass" where
  "normalizedHealthClass h =
     (if sh_class h = serverHealthGood \<and> sh_healthPenalty h < 0 then serverHealthDegraded
      else if sh_class h = serverHealthDegraded \<and> 0 \<le> sh_healthPenalty h then serverHealthGood
      else sh_class h)"

definition serverHealthRank :: "serverHealth \<Rightarrow> int" where
  "serverHealthRank h =
     (case normalizedHealthClass h of
        serverHealthNoResponse \<Rightarrow> 0 | serverHealthBadResponse \<Rightarrow> 1 | serverHealthDialFailed \<Rightarrow> 2 | serverHealthDegraded \<Rightarrow> 3
      | serverHealthGood \<Rightarrow> 4)"

definition healthSpeedScore :: "serverHealth \<Rightarrow> u64" where
  "healthSpeedScore h =
     (if \<not> sh_hasConnected h then initialServerSpeedScore else if sh_lastSpeed h = 0 then 1 else sh_lastSpeed h)"

definition averageServerRTT :: "serverHealth \<Rightarrow> duration" where
  "averageServerRTT h =
     (if sh_recentRTTs h = [] then defaultServerRTT else sum_list (sh_recentRTTs h) div int (length (sh_recentRTTs h)))"

definition healthSortScore :: "(real \<Rightarrow> real) \<Rightarrow> serverHealth \<Rightarrow> real" where
  "healthSortScore lg h = real (unat (healthSpeedScore h)) / lg (real_of_int (averageServerRTT h) / 1000000 + 2)"

definition server_less :: "(real \<Rightarrow> real) \<Rightarrow> serverHealth \<Rightarrow> serverHealth \<Rightarrow> bool" where
  "server_less lg l r =
     (if serverHealthRank l \<noteq> serverHealthRank r then serverHealthRank r < serverHealthRank l
      else if sh_healthPenalty l \<noteq> sh_healthPenalty r then sh_healthPenalty r < sh_healthPenalty l
      else healthSortScore lg r < healthSortScore lg l)"

text \<open>A stable sort: an element goes behind those that do not come after it.\<close>

fun insert_stable :: "('a \<Rightarrow> 'a \<Rightarrow> bool) \<Rightarrow> 'a \<Rightarrow> 'a list \<Rightarrow> 'a list" where
  "insert_stable lt x [] = [x]"
| "insert_stable lt x (y # ys) = (if lt y x then y # insert_stable lt x ys else x # y # ys)"

definition SliceStable :: "('a \<Rightarrow> 'a \<Rightarrow> bool) \<Rightarrow> 'a list \<Rightarrow> 'a list" where
  "SliceStable lt xs = foldr (insert_stable lt) xs []"

fun pick_weighted :: "(clientServerState \<times> real) list \<Rightarrow> real \<Rightarrow> clientServerState option" where
  "pick_weighted [] target = None"
| "pick_weighted ((s, w) # ws) target = (if target < w then Some s else pick_weighted ws (target - w))"

text \<open>\<open>log1p\<close> and the random sample are arguments; \<open>below_one\<close> is the largest number below 1.\<close>

definition selectCoolingServer ::
  "(real \<Rightarrow> real) \<Rightarrow> real \<Rightarrow> (clientServerState \<times> time) list \<Rightarrow> time \<Rightarrow> real \<Rightarrow> clientServerState option" where
  "selectCoolingServer log1p below_one cands now sample =
     (if cands = [] then None
      else
        (case find (\<lambda>(s, nextRetry). nextRetry - now \<le> 0) cands of
           Some (s, _) \<Rightarrow> Some s
         | None \<Rightarrow>
             (let ws = map (\<lambda>(s, nextRetry). (s, 1 / log1p (real_of_int (nextRetry - now) / 1000000000))) cands;
                  smp = (if sample < 0 then 0 else if 1 \<le> sample then below_one else sample)
              in case pick_weighted ws (smp * sum_list (map snd ws)) of
                   Some s \<Rightarrow> Some s
                 | None \<Rightarrow> Some (fst (last cands)))))"

text \<open>The health of every server is brought up to date, those that have to wait are set aside.\<close>

fun scan_servers ::
  "health_stats \<Rightarrow> clientServerState list \<Rightarrow> time \<Rightarrow> health_stats \<times> clientServerState list \<times> (clientServerState \<times> time) list" where
  "scan_servers st [] now = (st, [], [])"
| "scan_servers st (s # ss) now =
     (let h = decayServerHealthLocked (statsForLocked st (ss_identity s) now) now;
          (st', cands, cooling) = scan_servers (st(ss_identity s \<mapsto> h)) ss now
      in if \<not> serverCanRetry h now then (st', cands, (s, sh_nextRetry h) # cooling) else (st', s # cands, cooling))"

text \<open>The shuffle is an argument, a permutation of its list.\<close>

definition sortedServerCandidates ::
  "(real \<Rightarrow> real) \<Rightarrow> (real \<Rightarrow> real) \<Rightarrow> real \<Rightarrow> (clientServerState list \<Rightarrow> clientServerState list) \<Rightarrow> real \<Rightarrow>
     health_stats \<Rightarrow> clientServerState list \<Rightarrow> time \<Rightarrow> health_stats \<times> clientServerState list" where
  "sortedServerCandidates lg log1p below_one shuffle sample st servers now =
     (if length servers = 1 then (st, servers)
      else
        (let (st1, cands, cooling) = scan_servers st servers now;
             cands1 = (if cands = []
                       then (case selectCoolingServer log1p below_one cooling now sample of None \<Rightarrow> [] | Some s \<Rightarrow> [s])
                       else cands)
         in (st1, SliceStable (\<lambda>l r. server_less lg (statsForLocked st1 (ss_identity l) now) (statsForLocked st1 (ss_identity r) now))
                    (shuffle cands1))))"

section \<open>Decay of penalties\<close>

lemma bit_len_small [simp]: "bit_len 0 = 0" "bit_len (Suc 0) = 1"
  by (simp_all add: bit_len.simps [of 0] bit_len.simps [of "Suc 0"])

lemma bit_len_bounds: "n \<noteq> 0 \<Longrightarrow> 2 ^ (bit_len n - 1) \<le> n \<and> n < 2 ^ bit_len n \<and> 0 < bit_len n"
proof (induction n rule: bit_len.induct)
  case (1 n)
  show ?case
  proof (cases "n div 2 = 0")
    case True
    with 1(2) have "n = 1" by presburger
    then show ?thesis by simp
  next
    case False
    from 1(1) [OF 1(2) False] obtain k where k: "bit_len (n div 2) = Suc k" "2 ^ k \<le> n div 2" "n div 2 < 2 ^ Suc k"
      by (cases "bit_len (n div 2)") auto
    have "bit_len n = Suc (Suc k)" using 1(2) k(1) by (simp add: bit_len.simps [of n])
    moreover have "2 * 2 ^ k \<le> n" "n < 2 * 2 ^ Suc k" using k(2,3) by linarith+
    ultimately show ?thesis by simp
  qed
qed

text \<open>Rounding to 53 bits adds at most one part in 2^53.\<close>

lemma round53_le: "round53 n * 2 ^ 53 \<le> n * (2 ^ 53 + 1)"
proof (cases "bit_len n - 53 = 0")
  case True
  then show ?thesis by (simp add: round53_def Let_def)
next
  case False
  then obtain k where k: "bit_len n = Suc k + 53" by (metis add.commute diff_is_0_eq le_add_diff_inverse2 nat_le_linear not0_implies_Suc)
  then have "n \<noteq> 0" by (cases "n = 0") auto
  from bit_len_bounds [OF this] k have lo: "2 ^ (k + 53) \<le> n" by (simp add: add.commute)
  define q where "q = n div 2 ^ Suc k"
  define r where "r = n mod 2 ^ Suc k"
  have n: "n = q * 2 ^ Suc k + r" unfolding q_def r_def by (rule div_mult_mod_eq [symmetric])
  have "round53 n \<le> n + 2 ^ k"
  proof (cases "2 ^ k < r \<or> r = 2 ^ k \<and> odd q")
    case True
    then have "round53 n = (q + 1) * 2 ^ Suc k" "2 ^ k \<le> r" using k by (auto simp: round53_def Let_def q_def r_def)
    then show ?thesis using n by simp
  next
    case False
    then have "round53 n = q * 2 ^ Suc k" using k by (simp add: round53_def Let_def q_def r_def)
    then show ?thesis using n by simp
  qed
  then have "round53 n * 2 ^ 53 \<le> n * 2 ^ 53 + 2 ^ (k + 53)" by (simp add: power_add add_mult_distrib)
  then show ?thesis using lo by (simp add: algebra_simps)
qed

lemma decay_smaller:
  assumes "p \<noteq> 0" and "\<bar>p\<bar> < 2 ^ 53"
  shows "\<bar>decay_penalty p\<bar> < \<bar>p\<bar>"
proof -
  define m where "m = nat \<bar>p\<bar>"
  have m: "0 < m" "m < 2 ^ 53" "int m = \<bar>p\<bar>" using assms by (simp_all add: m_def nat_less_iff)
  have "bit_len m \<le> 53"
  proof (rule ccontr)
    assume "\<not> bit_len m \<le> 53"
    then have "(2::nat) ^ 53 \<le> 2 ^ (bit_len m - 1)" by (intro power_increasing) auto
    with bit_len_bounds [of m] m show False by linarith
  qed
  then have r: "round53 m = m" by (simp add: round53_def Let_def)
  have "round53 (m * 6305039478318694) * 2 ^ 53 \<le> m * 6305039478318694 * (2 ^ 53 + 1)" by (rule round53_le)
  also have "\<dots> < m * 2 ^ 53 * 2 ^ 53" using m(1) by simp
  finally have "round53 (m * 6305039478318694) < m * 2 ^ 53" by simp
  then have "round53 (m * 6305039478318694) div 2 ^ 53 < m" by (simp add: div_less_iff_less_mult)
  then show ?thesis using m assms(1) by (simp add: decay_penalty_def m_def [symmetric] r abs_mult)
qed

lemma decay_sign: "p \<le> 0 \<Longrightarrow> decay_penalty p \<le> 0"
  by (simp add: decay_penalty_def sgn_if)

lemma decay_loop_class: "sh_class (decay_loop h now) = sh_class h"
  by (induction h now rule: decay_loop.induct) (subst decay_loop.simps, simp)

lemma decay_loop_zero:
  "sh_healthPenalty h \<le> 0 \<Longrightarrow> - sh_healthPenalty h < 2 ^ 53 \<Longrightarrow>
    - sh_healthPenalty h * serverHealthDecayInterval \<le> now - sh_lastDecay h \<Longrightarrow> sh_healthPenalty (decay_loop h now) = 0"
proof (induction h now rule: decay_loop.induct)
  case (1 h now)
  define p where "p = sh_healthPenalty h"
  define d where "d = serverHealthDecayInterval"
  have d: "0 < d" by (simp add: d_def health_consts seconds_def)
  have p: "p \<le> 0" "- p < 2 ^ 53" "- p * d \<le> now - sh_lastDecay h" using 1(2-) by (simp_all add: p_def d_def)
  have q: "decay_penalty p \<le> 0" "p \<noteq> 0 \<Longrightarrow> - decay_penalty p < - p" "p = 0 \<Longrightarrow> decay_penalty p = 0"
    using decay_smaller [of p] decay_sign [of p] p by (auto simp: decay_penalty_def)
  show ?case
  proof (cases "d \<le> now - sh_lastDecay h")
    case True
    have "- decay_penalty p * d \<le> now - (sh_lastDecay h + d)"
    proof (cases "p = 0")
      case False
      then have "(- decay_penalty p + 1) * d \<le> - p * d" using q(2) d by (intro mult_right_mono) auto
      then show ?thesis using p(3) by (simp add: algebra_simps)
    qed (use q(3) True in simp)
    moreover have "- decay_penalty p < 2 ^ 53" using q p(2) by fastforce
    ultimately show ?thesis
      using 1(1) True q(1) by (subst decay_loop.simps) (simp add: p_def d_def)
  next
    case False
    then have "p = 0" using p d mult_right_mono [of 1 "- p" d] by (cases "p = 0") auto
    then show ?thesis using False by (subst decay_loop.simps) (simp add: p_def d_def)
  qed
qed

text \<open>
  A penalty is forgotten.  A server that was only degraded, with any penalty that a double holds exactly, counts as
  good again, with no penalty, after at most one decay interval of five minutes for each point of the penalty; each
  interval takes away at least one point although the product with 0.7 is rounded to a double.
\<close>

theorem penalty_forgotten:
  assumes "sh_class h = serverHealthDegraded" and "sh_healthPenalty h \<le> 0" and "- sh_healthPenalty h < 2 ^ 53" and "sh_lastDecay h \<noteq> 0"
    and "- sh_healthPenalty h * serverHealthDecayInterval \<le> now - sh_lastDecay h"
  shows "sh_class (decayServerHealthLocked h now) = serverHealthGood \<and> sh_healthPenalty (decayServerHealthLocked h now) = 0 \<and>
    serverHealthRank (decayServerHealthLocked h now) = 4"
  using decay_loop_zero [OF assms(2,3,5)] assms(1,4)
  by (simp add: decayServerHealthLocked_def Let_def decay_loop_class serverHealthRank_def normalizedHealthClass_def)

theorem penalty_forgotten_witness:
  "sh_class (decayServerHealthLocked ((newServerHealth (seconds 1))\<lparr>sh_class := serverHealthDegraded, sh_healthPenalty := -30\<rparr>) (seconds 9001)) = serverHealthGood"
  using penalty_forgotten [of "(newServerHealth (seconds 1))\<lparr>sh_class := serverHealthDegraded, sh_healthPenalty := -30\<rparr>" "seconds 9001"]
  by (simp add: newServerHealth_def health_consts seconds_def)

section \<open>Retry delays\<close>

text \<open>Failures of one class and reason at the given times.\<close>

fun hard_failures :: "serverHealth \<Rightarrow> serverHealthClass \<Rightarrow> string \<Rightarrow> duration list \<Rightarrow> time list \<Rightarrow> serverHealth" where
  "hard_failures h c reason delays [] = h"
| "hard_failures h c reason delays (t # ts) = hard_failures (recordServerHardFailureLocked h c reason delays t) c reason delays ts"

lemma hard_failures_snoc:
  "hard_failures h c reason delays (ts @ [t]) = recordServerHardFailureLocked (hard_failures h c reason delays ts) c reason delays t"
  by (induction ts arbitrary: h) auto

lemma decay_loop_fields:
  "sh_failureCount (decay_loop h now) = sh_failureCount h" "sh_lastErrorTime (decay_loop h now) = sh_lastErrorTime h"
  by (induction h now rule: decay_loop.induct; subst decay_loop.simps, simp)+

lemma decay_keeps:
  "sh_failureCount (decayServerHealthLocked h now) = sh_failureCount h" "sh_lastErrorTime (decayServerHealthLocked h now) = sh_lastErrorTime h"
  "sh_class h \<noteq> serverHealthDegraded \<Longrightarrow> sh_class (decayServerHealthLocked h now) = sh_class h"
  by (simp_all add: decayServerHealthLocked_def Let_def decay_loop_fields decay_loop_class)

lemma hard_failures_state:
  assumes c: "c \<notin> {serverHealthGood, serverHealthDegraded}" and new: "sh_class h \<noteq> c" "sh_lastErrorTime h = Map.empty"
  shows "ts \<noteq> [] \<Longrightarrow> sorted_wrt (\<lambda>a b. a + serverErrorDedupWindow \<le> b) ts \<Longrightarrow> h' = hard_failures h c reason delays ts \<Longrightarrow>
    sh_class h' = c \<and> sh_failureCount h' = int (length ts) \<and> sh_nextRetry h' = last ts + retryDelay delays (int (length ts)) \<and>
    sh_lastErrorTime h' (''hard:'' @ serverHealthClassName c @ '':'' @ reason) = Some (last ts)"
proof (induction ts arbitrary: h' rule: rev_induct)
  case (snoc t ts)
  let ?k = "''hard:'' @ serverHealthClassName c @ '':'' @ reason"
  define h1 where "h1 = hard_failures h c reason delays ts"
  have e: "sh_class (decayServerHealthLocked (h1\<lparr>sh_lastErrorTime := m\<rparr>) t) = c \<longleftrightarrow> ts \<noteq> []" for m
  proof (cases "ts = []")
    case True
    then show ?thesis
      using c new(1) by (auto simp: h1_def decayServerHealthLocked_def Let_def decay_loop_class split: if_splits)
  next
    case False
    then have "sh_class h1 = c" using snoc.IH [OF False _ h1_def] snoc.prems(2) by (simp add: sorted_wrt_append)
    then show ?thesis using False c decay_keeps(3) [of "h1\<lparr>sh_lastErrorTime := m\<rparr>" t] by simp
  qed
  have w: "case sh_lastErrorTime h1 ?k of None \<Rightarrow> True | Some s \<Rightarrow> serverErrorDedupWindow \<le> t - s"
  proof (cases "ts = []")
    case True
    then show ?thesis using new(2) by (simp add: h1_def)
  next
    case False
    then have "sh_lastErrorTime h1 ?k = Some (last ts)" using snoc.IH [OF False _ h1_def] snoc.prems(2) by (simp add: sorted_wrt_append)
    moreover have "last ts + serverErrorDedupWindow \<le> t" using snoc.prems(2) False by (simp add: sorted_wrt_append)
    ultimately show ?thesis by simp
  qed
  have f: "ts \<noteq> [] \<Longrightarrow> sh_failureCount h1 = int (length ts)"
    using snoc.IH [OF _ _ h1_def] snoc.prems(2) by (simp add: sorted_wrt_append)
  show ?case
    using e [of "(sh_lastErrorTime h1)(?k \<mapsto> t)"] w f
    unfolding snoc.prems(3) hard_failures_snoc h1_def [symmetric]
    by (cases "ts = []") (auto simp: recordServerHardFailureLocked_def recordServerErrorTimeLocked_def Let_def decay_keeps add.commute split: option.splits)
qed simp

text \<open>
  C34. The retry gate follows its schedule.  From a server that was just connected (or never failed), any number of
  failures of one class and for one reason, each at least two seconds after the one before, close the gate
  \<^verbatim>\<open>serverCanRetry\<close> exactly for the delay of the schedule that
  belongs to their number, the last one from the fifth failure on, counted from the last failure; its
  rank is that of a failed server; and one successful contact opens the gate at once and forgets the failures.  (The gate
  is not the whole selection: a server that waits is still tried when it is the only one or when all servers wait.)
\<close>

theorem backoff_schedule:
  assumes "(c, delays) \<in> {(serverHealthDialFailed, dialRetryDelays), (serverHealthBadResponse, badResponseRetryDelays), (serverHealthNoResponse, noResponseRetryDelays)}"
    and "h = healthy_again h0" and "ts \<noteq> []" and "sorted_wrt (\<lambda>a b. a + serverErrorDedupWindow \<le> b) ts" and "0 < last ts"
    and "h' = hard_failures h c reason delays ts"
  shows "(serverCanRetry h' now \<longleftrightarrow> last ts + delays ! min (length ts - 1) 4 \<le> now) \<and> sh_class h' = c \<and> serverHealthRank h' < 3 \<and>
    serverCanRetry (healthy_again h') now \<and> serverHealthRank (healthy_again h') = 4"
proof -
  have c: "c \<notin> {serverHealthGood, serverHealthDegraded}" "sh_class h \<noteq> c" "sh_lastErrorTime h = Map.empty"
    using assms(1,2) by (auto simp: healthy_again_def)
  note H = hard_failures_state [OF c assms(3,4,6)]
  have l: "length delays = 5" "\<forall>d \<in> set delays. 0 < d" using assms(1) by (auto simp: health_consts seconds_def)
  have "0 < int (length ts)" using assms(3) by simp
  then have r: "retryDelay delays (int (length ts)) = delays ! min (length ts - 1) 4"
    using l(1) by (cases ts) (auto simp: retryDelay_def Let_def min_def)
  have "0 < delays ! min (length ts - 1) 4" using l by simp
  then show ?thesis
    using H r assms(1,5) by (auto simp: serverCanRetry_def serverHealthRank_def normalizedHealthClass_def healthy_again_def)
qed

theorem backoff_schedule_witness:
  "\<not> serverCanRetry (hard_failures (healthy_again (newServerHealth 1)) serverHealthDialFailed ''refused'' dialRetryDelays [seconds 10, seconds 20, seconds 40]) (seconds 54) \<and>
    serverCanRetry (hard_failures (healthy_again (newServerHealth 1)) serverHealthDialFailed ''refused'' dialRetryDelays [seconds 10, seconds 20, seconds 40]) (seconds 55)"
  using backoff_schedule [of serverHealthDialFailed dialRetryDelays _ "newServerHealth 1" "[seconds 10, seconds 20, seconds 40]", OF _ refl _ _ _ refl, of "''refused''" "seconds 54"]
    backoff_schedule [of serverHealthDialFailed dialRetryDelays _ "newServerHealth 1" "[seconds 10, seconds 20, seconds 40]", OF _ refl _ _ _ refl, of "''refused''" "seconds 55"]
  by (simp add: health_consts seconds_def)

section \<open>The order of the servers\<close>

text \<open>The contract of a comparison for a stable sort, and what the sort gives then.\<close>

locale strict_weak =
  fixes lt :: "'a \<Rightarrow> 'a \<Rightarrow> bool"
  assumes asym: "lt x y \<Longrightarrow> \<not> lt y x" and negtrans: "\<not> lt x y \<Longrightarrow> \<not> lt y z \<Longrightarrow> \<not> lt x z"
begin

lemma insert_sorted:
  "sorted_wrt (\<lambda>a b. \<not> lt b a) ys \<Longrightarrow> sorted_wrt (\<lambda>a b. \<not> lt b a) (insert_stable lt x ys) \<and> set (insert_stable lt x ys) = insert x (set ys)"
proof (induction ys)
  case (Cons y ys)
  then have y: "\<forall>z \<in> set ys. \<not> lt z y" and IH: "sorted_wrt (\<lambda>a b. \<not> lt b a) (insert_stable lt x ys)" "set (insert_stable lt x ys) = insert x (set ys)"
    by simp_all
  show ?case
  proof (cases "lt y x")
    case True
    then show ?thesis using y IH asym by auto
  next
    case False
    then have "\<not> lt z x" if "z \<in> set ys" for z using y that negtrans [of z y x] by blast
    then show ?thesis using False Cons.prems by simp
  qed
qed simp

lemma sort_sorted: "sorted_wrt (\<lambda>a b. \<not> lt b a) (SliceStable lt xs) \<and> set (SliceStable lt xs) = set xs"
  by (induction xs) (auto simp: SliceStable_def insert_sorted)

end

lemma server_less_weak:
  "server_less lg l r \<Longrightarrow> \<not> server_less lg r l" "\<not> server_less lg x y \<Longrightarrow> \<not> server_less lg y z \<Longrightarrow> \<not> server_less lg x z"
  by (auto simp: server_less_def split: if_splits)

interpretation by_health: strict_weak "\<lambda>l r. server_less lg (f l) (f r)"
  by unfold_locales (use server_less_weak in blast)+

lemma mset_insert_stable: "mset (insert_stable lt x ys) = add_mset x (mset ys)"
  by (induction ys) auto

lemma mset_SliceStable: "mset (SliceStable lt xs) = mset xs"
  by (induction xs) (simp_all add: SliceStable_def mset_insert_stable)

definition can_try :: "health_stats \<Rightarrow> time \<Rightarrow> clientServerState \<Rightarrow> bool" where
  "can_try st now s = serverCanRetry (statsForLocked st (ss_identity s) now) now"

lemma decay_nextRetry: "sh_nextRetry (decayServerHealthLocked h now) = sh_nextRetry h"
proof -
  have "sh_nextRetry (decay_loop h now) = sh_nextRetry h"
    by (induction h now rule: decay_loop.induct) (subst decay_loop.simps, simp)
  then show ?thesis by (simp add: decayServerHealthLocked_def Let_def)
qed

lemma can_try_update:
  "can_try (st(ss_identity s \<mapsto> decayServerHealthLocked (statsForLocked st (ss_identity s) now) now)) now = can_try st now"
  by (auto simp: can_try_def statsForLocked_def serverCanRetry_def decay_nextRetry fun_eq_iff split: option.splits)

lemma scan_servers_spec:
  "scan_servers st ss now = (st', cands, cooling) \<Longrightarrow>
    cands = filter (can_try st now) ss \<and> map fst cooling = filter (\<lambda>s. \<not> can_try st now s) ss"
proof (induction ss arbitrary: st cands cooling)
  case (Cons s ss)
  let ?h = "decayServerHealthLocked (statsForLocked st (ss_identity s) now) now"
  obtain c1 k1 where s1: "scan_servers (st(ss_identity s \<mapsto> ?h)) ss now = (st', c1, k1)"
    using Cons.prems by (cases "scan_servers (st(ss_identity s \<mapsto> ?h)) ss now") (auto simp: Let_def split: if_splits)
  have h: "serverCanRetry ?h now = can_try st now s" by (simp add: can_try_def serverCanRetry_def decay_nextRetry)
  note IH = Cons.IH [OF s1, unfolded can_try_update]
  show ?case
    using Cons.prems unfolding scan_servers.simps Let_def s1 prod.case h by (cases "can_try st now s") (use IH in auto)
qed simp

lemma pick_weighted_in: "pick_weighted ws t = Some s \<Longrightarrow> s \<in> fst ` set ws"
  by (induction ws t rule: pick_weighted.induct) (auto split: if_splits)

lemma cooling_choice:
  assumes "cands \<noteq> []"
  shows "\<exists>s. selectCoolingServer lp b cands now sample = Some s \<and> s \<in> fst ` set cands"
proof -
  let ?ws = "map (\<lambda>(s, nextRetry). (s, 1 / lp (real_of_int (nextRetry - now) / 1000000000))) cands"
  have "fst ` set ?ws = fst ` set cands" by force
  then have p: "pick_weighted ?ws t = Some s \<Longrightarrow> s \<in> fst ` set cands" for t s using pick_weighted_in [of ?ws t s] by simp
  show ?thesis
  proof (cases "find (\<lambda>(s, nextRetry). nextRetry - now \<le> 0) cands")
    case None
    have l: "fst (last cands) \<in> fst ` set cands" using assms by simp
    show ?thesis unfolding selectCoolingServer_def None Let_def using assms p l
      by (simp split: option.split)
  next
    case (Some x)
    then have "x \<in> set cands" by (metis find_Some_iff nth_mem)
    then have "fst x \<in> fst ` set cands" by simp
    moreover have "selectCoolingServer lp b cands now sample = Some (fst x)"
      using assms unfolding selectCoolingServer_def Some by (simp add: split_beta)
    ultimately show ?thesis by blast
  qed
qed

text \<open>
  The order in which servers are tried.  Whatever the health records, the shuffle and the random sample: if there is a
  server at all, one is tried, and only configured servers are; a single server is tried even while it has to wait; with
  several, exactly those that need not wait are tried, each once, or one that waits if all do; and they come in an order in
  which no server is before one of a better rank, or of the same rank and a smaller penalty, or with both equal and a
  higher score.
\<close>

theorem server_order:
  assumes "servers \<noteq> []" and "\<And>xs. mset (shuffle xs) = mset xs"
    and "sortedServerCandidates lg log1p below_one shuffle sample st servers now = (st1, cs)"
  shows "cs \<noteq> [] \<and> set cs \<subseteq> set servers \<and>
    (if length servers = 1 then cs = servers
     else if \<exists>s \<in> set servers. can_try st now s then mset cs = mset (filter (can_try st now) servers) else length cs = 1) \<and>
    sorted_wrt (\<lambda>l r. \<not> server_less lg (statsForLocked st1 (ss_identity r) now) (statsForLocked st1 (ss_identity l) now)) cs"
proof (cases "length servers = 1")
  case True
  then show ?thesis using assms by (auto simp: sortedServerCandidates_def length_Suc_conv)
next
  case False
  obtain st2 cands cooling where sc: "scan_servers st servers now = (st2, cands, cooling)" by (metis surj_pair)
  note C = scan_servers_spec [OF sc]
  define cands1 where "cands1 = (if cands = [] then (case selectCoolingServer log1p below_one cooling now sample of None \<Rightarrow> [] | Some s \<Rightarrow> [s]) else cands)"
  define lt where "lt = (\<lambda>(l :: clientServerState) (r :: clientServerState). server_less lg (statsForLocked st2 (ss_identity l) now) (statsForLocked st2 (ss_identity r) now))"
  have cs: "st1 = st2" "cs = SliceStable lt (shuffle cands1)"
    using assms(3) False unfolding sortedServerCandidates_def sc prod.case Let_def cands1_def [symmetric] lt_def by auto
  have m: "mset cs = mset cands1" by (simp add: cs mset_SliceStable assms(2))
  have sorted: "sorted_wrt (\<lambda>l r. \<not> lt r l) cs" unfolding cs lt_def using by_health.sort_sorted [of lg "\<lambda>s. statsForLocked st2 (ss_identity s) now" "shuffle cands1"] by blast
  have e: "cands = [] \<longleftrightarrow> \<not> (\<exists>s \<in> set servers. can_try st now s)" using C by (auto simp: filter_empty_conv)
  show ?thesis
  proof (cases "cands = []")
    case True
    then have "map fst cooling = servers" using C e by (auto simp: filter_id_conv)
    then obtain s where s: "selectCoolingServer log1p below_one cooling now sample = Some s" "s \<in> set servers"
      using cooling_choice [of cooling] assms(1) by (metis list.map_disc_iff set_map)
    then have "mset cs = {#s#}" using m True by (simp add: cands1_def)
    then have "cs = [s]" by simp
    then show ?thesis using s(2) False True e by simp
  next
    case ne: False
    then have "mset cs = mset (filter (can_try st now) servers)" using m C by (simp add: cands1_def)
    moreover have "set cs = set cands" using m ne by (metis cands1_def set_mset_mset)
    ultimately show ?thesis using ne False e sorted C by (auto simp: lt_def cs(1))
  qed
qed

definition sample_servers :: "clientServerState list" where
  "sample_servers = map (\<lambda>n. \<lparr>ss_id = n, ss_identity = \<lparr>si_addr = replicate n CHR ''a'', si_port = ''443'', si_key = ''k''\<rparr>\<rparr>) [1, 2]"

theorem server_order_witness:
  "\<exists>st1 cs. sortedServerCandidates (\<lambda>x. x) (\<lambda>x. x) 0 rev 0 Map.empty sample_servers 7 = (st1, cs) \<and> mset cs = mset sample_servers"
proof -
  obtain st1 cs where s: "sortedServerCandidates (\<lambda>x. x) (\<lambda>x. x) 0 rev 0 Map.empty sample_servers 7 = (st1, cs)" by fastforce
  have "sample_servers \<noteq> []" "length sample_servers \<noteq> 1" "\<exists>x. x \<in> set sample_servers" by (simp_all add: sample_servers_def) blast
  moreover have "can_try Map.empty 7 = (\<lambda>_. True)"
    by (simp add: can_try_def statsForLocked_def serverCanRetry_def newServerHealth_def fun_eq_iff)
  ultimately have "mset cs = mset sample_servers" using server_order [OF _ _ s] by (auto split: if_splits)
  with s show ?thesis by blast
qed

end
