(* ===== verification/MuxRuns.thy ===== *)
theory MuxRuns
  imports MuxInv
begin

text \<open>
  Runs of a mux: its own operations, received packets, the ticker, the writer and the timers
  in any order, while other muxes use the shared budget.  The initiator allocates channel ids
  itself, the acceptor registers the ids its peer requests, and a mux with reverse routes does
  both.  The code does not keep the two apart: the only step left out of a run is the allocation
  of an id that the table holds already, and the last property shows what that step does.
\<close>

section \<open>Steps\<close>

datatype role = Initiator | Acceptor | Both

inductive mux_step :: "role \<Rightarrow> mux \<Rightarrow> mux \<Rightarrow> bool" for role where
  st_alloc: "role = Initiator \<or> role = Both \<and> map_of (mx_channels mx) (mx_nextChannelID mx) = None \<Longrightarrow> mux_step role mx (fst (AllocChannel mx now e))"
| st_register: "role \<noteq> Initiator \<Longrightarrow> mux_step role mx (fst (RegisterRequestedChannel mx i e))"
| st_receive: "mux_step role mx (receivePacket mx i payload pe)"
| st_read: "mx_store mx a \<noteq> None \<Longrightarrow> mux_step role mx (fst (mux_read mx a dl now e1 e2))"
| st_write: "mx_store mx a \<noteq> None \<Longrightarrow> data \<noteq> [] \<Longrightarrow> mux_step role mx (fst (mux_write_chunk mx a data dl now))"
| st_close: "mx_store mx a \<noteq> None \<Longrightarrow> mux_step role mx (Channel_Close mx a)"
| st_abort: "mx_store mx a \<noteq> None \<Longrightarrow> mux_step role mx (fst (sendClose mx a))"
| st_fin: "mx_store mx a \<noteq> None \<Longrightarrow> mux_step role mx (fst (mux_sendFIN mx a))"
| st_send: "mux_step role mx (fst (SendPacket mx i payload))"
| st_tick: "mux_step role mx (fst (keepAliveTick mx now))"
| st_drain: "IsInvalid mx \<Longrightarrow> \<not> mx_closed mx \<Longrightarrow> 0 \<le> n \<Longrightarrow> n \<le> drain_buffer mx \<Longrightarrow>
    mux_step role mx (drain_round mx n err now)"
| st_writer: "mux_step role mx (writer_round mx err n now e)"
| st_timer: "mux_step role mx (invalid_timer_fired mx)"
| st_balance: "mx_balanceReplyInFlight mx \<Longrightarrow> mux_step role mx (balance_reply mx)"
| st_invalid: "reason \<noteq> ReasonNone \<Longrightarrow> mux_step role mx (SetInvalid mx reason drain now)"
| st_limits: "mux_step role mx (SetMaxConcurrentChannels mx n)"
| st_allocs: "mux_step role mx (SetMaxChannelAllocations mx n)"
| st_mux_close: "mux_step role mx (Mux_Close mx)"
| st_others: "mx_budget mx = Some b \<Longrightarrow> budget_inv b' \<Longrightarrow>
    (\<And>i. ChannelAllocation (Some b') (Some (mx_self mx)) i = ChannelAllocation (Some b) (Some (mx_self mx)) i) \<Longrightarrow>
    mux_step role mx (mx\<lparr>mx_budget := Some b'\<rparr>)"

inductive mux_reach :: "role \<Rightarrow> mux \<Rightarrow> mux \<Rightarrow> bool" for role mx where
  start: "mux_reach role mx mx"
| step: "mux_reach role mx t \<Longrightarrow> mux_step role t u \<Longrightarrow> mux_reach role mx u"

section \<open>Channel ids\<close>

text \<open>
  Only \<^verbatim>\<open>addChannel\<close> touches the id bookkeeping; the initiator's ids are the numbers from 8
  up, one per allocation.
\<close>

definition ids :: "mux \<Rightarrow> byte list \<times> byte \<times> int" where
  "ids mx = (mx_usedChannelIDs mx, mx_nextChannelID mx, mx_allocCount mx)"

definition ids_ok :: "mux \<Rightarrow> bool" where
  "ids_ok mx \<longleftrightarrow> 0 \<le> mx_allocCount mx \<and> mx_allocCount mx \<le> MaxConfigurableChannelAllocations \<and>
     uint (mx_nextChannelID mx) = 8 + mx_allocCount mx \<and>
     (\<forall>i \<in> set (mx_usedChannelIDs mx). 8 \<le> uint i \<and> uint i < 8 + mx_allocCount mx)"

text \<open>On a mux that does both, the counter is behind the number of channels there were.\<close>

definition next_ok :: "mux \<Rightarrow> bool" where
  "next_ok mx \<longleftrightarrow> 8 \<le> uint (mx_nextChannelID mx) \<and> uint (mx_nextChannelID mx) \<le> 8 + mx_allocCount mx"

lemma ids_ok_ids: "ids mx' = ids mx \<Longrightarrow> ids_ok mx \<Longrightarrow> ids_ok mx'" "ids mx' = ids mx \<Longrightarrow> next_ok mx \<Longrightarrow> next_ok mx'"
  by (simp_all add: ids_def ids_ok_def next_ok_def)

lemma ids_put [simp]: "ids (put_chan a ch bp mx) = ids mx"
  by (simp add: ids_def put_chan_def)

lemma ids_fields [simp]:
  "ids (mx\<lparr>mx_writeQueue := v0\<rparr>) = ids mx" "ids (mx\<lparr>mx_lastPacket := v2\<rparr>) = ids mx"
  "ids (mx\<lparr>mx_lastData := v3\<rparr>) = ids mx" "ids (mx\<lparr>mx_lastKeepAlive := v4\<rparr>) = ids mx"
  "ids (mx\<lparr>mx_keepAliveInterval := v5\<rparr>) = ids mx" "ids (mx\<lparr>mx_hasReceivedData := v6\<rparr>) = ids mx"
  "ids (mx\<lparr>mx_events := v7\<rparr>) = ids mx" "ids (mx\<lparr>mx_invalidReason := v8\<rparr>) = ids mx"
  "ids (mx\<lparr>mx_invalidDrainRemaining := v9\<rparr>) = ids mx" "ids (mx\<lparr>mx_invalidTimer := w1\<rparr>) = ids mx"
  "ids (mx\<lparr>mx_hasReceivedTimestamp := w2\<rparr>) = ids mx" "ids (mx\<lparr>mx_bytesReceived := w3\<rparr>) = ids mx"
  "ids (mx\<lparr>mx_bytesSent := w4\<rparr>) = ids mx" "ids (mx\<lparr>mx_balanceReplyInFlight := w5\<rparr>) = ids mx"
  "ids (mx\<lparr>mx_firstKeepAliveHit := w6\<rparr>) = ids mx" "ids (mx\<lparr>mx_firstPacketSentAt := w7\<rparr>) = ids mx"
  "ids (mx\<lparr>mx_hasSentTimestamp := w8\<rparr>) = ids mx" "ids (mx\<lparr>mx_channels := x1\<rparr>) = ids mx"
  "ids (mx\<lparr>mx_activeCount := x2\<rparr>) = ids mx" "ids (mx\<lparr>mx_budget := x3\<rparr>) = ids mx"
  "ids (mx\<lparr>mx_closed := x4\<rparr>) = ids mx" "ids (mx\<lparr>mx_maxAllocCount := x5\<rparr>) = ids mx"
  "ids (mx\<lparr>mx_maxActiveCount := x6\<rparr>) = ids mx"
  by (simp_all add: ids_def)

lemma ids_send [simp]:
  "ids (fst (SendPacket mx i p)) = ids mx" "ids (fst (sendWindowUpdate mx i c)) = ids mx"
  "ids (fst (sendChannelControl mx i st)) = ids mx"
  by (subst SendPacket_queue sendWindowUpdate_queue sendChannelControl_queue, simp)+

lemma ids_channel_ops [simp]:
  "ids (fst (mux_markClosed mx a)) = ids mx" "ids (removeFromMux mx a) = ids mx"
  "ids (Channel_Close mx a) = ids mx" "ids (fst (sendClose mx a)) = ids mx"
  "ids (fst (mux_sendFIN mx a)) = ids mx" "ids (fst (mux_enqueue mx a p e)) = ids mx"
  "ids (fst (mux_read mx a dl now e1 e2)) = ids mx" "ids (fst (mux_write_chunk mx a data dl now)) = ids mx"
proof -
  show m: "ids (fst (mux_markClosed mx a)) = ids mx" for mx
    by (simp add: mux_markClosed_def split: prod.split)
  show r: "ids (removeFromMux mx a) = ids mx" for mx
    by (simp add: removeFromMux_def Let_def)
  show "ids (Channel_Close mx a) = ids mx"
    by (simp add: Channel_Close_def case_prod_unfold m r)
  show "ids (fst (sendClose mx a)) = ids mx"
    by (simp add: sendClose_def case_prod_unfold Let_def m r)
  show "ids (fst (mux_sendFIN mx a)) = ids mx"
    by (simp add: mux_sendFIN_def Let_def case_prod_unfold)
  show "ids (fst (mux_enqueue mx a p e)) = ids mx"
    by (simp add: mux_enqueue_def Let_def split: prod.split sum.split)
  show "ids (fst (mux_read mx a dl now e1 e2)) = ids mx"
    by (simp add: mux_read_def Let_def split: prod.split read_outcome.split)
  show "ids (fst (mux_write_chunk mx a data dl now)) = ids mx"
    by (simp add: mux_write_chunk_def Let_def case_prod_unfold split: reserve_outcome.split option.split)
qed

lemma ids_close [simp]: "ids (Mux_Close mx) = ids mx"
proof -
  have "ids (foldl (\<lambda>m a. fst (mux_markClosed m a)) mx as) = ids mx" for mx as
    by (induction as arbitrary: mx) auto
  then show ?thesis by (simp add: Mux_Close_def Let_def close_channels_def)
qed

lemma ids_invalid [simp]: "ids (SetInvalid mx reason drain now) = ids mx"
  by (rule SetInvalid_cases [of mx reason drain now]) auto

lemma ids_activity [simp]:
  "ids (updatePacketTime mx now e) = ids mx" "ids (recordDataActivity mx i n r now) = ids mx"
  "ids (checkAndBalanceTraffic mx e) = ids mx" "ids (handleMuxKeepAlive mx now) = ids mx"
  by (simp_all add: updatePacketTime_def recordDataActivity_def checkAndBalanceTraffic_def
      handleMuxKeepAlive_def firstKeepAlivePing_def Let_def)

lemma ids_handlers [simp]:
  "ids (fst (handleChannelResponse mx p e)) = ids mx" "ids (fst (handleFlowControl mx p)) = ids mx"
  "ids (fst (handleKeepAliveControl mx p now e)) = ids mx"
proof -
  show c: "ids (fst (handleChannelResponse mx p e)) = ids mx"
    by (simp add: handleChannelResponse_def case_prod_unfold split: option.split)
  show "ids (fst (handleFlowControl mx p)) = ids mx"
    by (simp add: handleFlowControl_def case_prod_unfold split: option.split)
  show "ids (fst (handleKeepAliveControl mx p now e)) = ids mx"
    by (simp add: handleKeepAliveControl_def Let_def c)
qed

lemma ids_receive [simp]: "ids (receivePacket mx i payload pe) = ids mx"
proof -
  have "ids (dispatchData mx i payload pe) = ids mx" for mx
    by (simp add: dispatchData_def Let_def case_prod_unfold split: option.split)
  moreover have "ids (dispatchTimestamp mx payload pe) = ids mx"
    by (simp add: dispatchTimestamp_def case_prod_unfold split: option.split)
  ultimately show ?thesis
    by (simp add: receivePacket_def dispatchPacket_def Let_def case_prod_unfold split: option.split)
qed

lemma ids_rest [simp]:
  "ids (fst (keepAliveTick mx now)) = ids mx" "ids (drain_round mx n err now) = ids mx"
  "ids (writer_round mx err n now e) = ids mx" "ids (invalid_timer_fired mx) = ids mx"
  "ids (balance_reply mx) = ids mx" "ids (SetMaxConcurrentChannels mx k) = ids mx"
  "ids (SetMaxChannelAllocations mx k) = ids mx"
  by (simp_all add: keepAliveTick_def sendKeepAlive_def drain_round_def addBytesReceived_def
      writer_round_def packet_sent_def markFirstPacketSent_def invalid_timer_fired_def balance_reply_def
      SetMaxConcurrentChannels_def SetMaxChannelAllocations_def Let_def case_prod_unfold
      split: option.split list.split)

section \<open>Invariant of runs\<close>

lemma max_allocations: "maxChannelAllocationsLocked mx \<le> MaxConfigurableChannelAllocations"
  by (simp add: maxChannelAllocationsLocked_def MaxConfigurableChannelAllocations_def MaxChannelAllocations_def)

lemma AllocChannel_success:
  assumes "AllocChannel mx now e = (mx', Inr a)"
  shows "CanAllocChannel mx now" and "a = mx_fresh mx"
    and "mx' = fst (addChannel (mx\<lparr>mx_nextChannelID := mx_nextChannelID mx + 1\<rparr>) (mx_nextChannelID mx) e)"
  using assms
  by (auto simp: AllocChannel_def CanAllocChannel_def Let_def addChannel_def not_le split: if_splits prod.splits)

lemma AllocChannel_can:
  "CanAllocChannel mx now \<Longrightarrow> \<exists>mx'. AllocChannel mx now e = (mx', Inr (mx_fresh mx))"
  by (auto simp: AllocChannel_def CanAllocChannel_def Let_def addChannel_def split: prod.splits)

lemma AllocChannel_error:
  assumes "\<not> CanAllocChannel mx now"
  shows "\<exists>err. AllocChannel mx now e = (mx, Inl err)"
  using assms by (auto simp: AllocChannel_def CanAllocChannel_def not_less)

lemma fresh_id:
  assumes "mux_ok mx" and "ids_ok mx"
  shows "mx_nextChannelID mx \<notin> set (keys (mx_channels mx))" "mx_nextChannelID mx \<notin> set (mx_usedChannelIDs mx)"
    "FirstChannelID \<le> mx_nextChannelID mx"
proof -
  show u: "mx_nextChannelID mx \<notin> set (mx_usedChannelIDs mx)" using assms(2) by (force simp: ids_ok_def)
  then show "mx_nextChannelID mx \<notin> set (keys (mx_channels mx))"
    using assms(1) by (auto simp: mux_ok_def table_ok_def)
  show "FirstChannelID \<le> mx_nextChannelID mx"
    using assms(2) by (simp add: ids_ok_def FirstChannelID_def word_le_def)
qed

lemma AllocChannel_table:
  assumes ok: "mux_ok mx" "next_ok mx" and free: "map_of (mx_channels mx) (mx_nextChannelID mx) = None"
    and al: "AllocChannel mx now e = (mx', Inr a)"
  shows "mux_ok mx' \<and> next_ok mx'"
proof -
  let ?m = "mx\<lparr>mx_nextChannelID := mx_nextChannelID mx + 1\<rparr>"
  note suc = AllocChannel_success [OF al]
  have can: "mx_allocCount mx < 224" "\<not> mx_closed mx"
    using suc(1) max_allocations [of mx] by (auto simp: CanAllocChannel_def MaxConfigurableChannelAllocations_def)
  have "mux_ok mx'" unfolding suc(3)
    by (rule addChannel_ok)
      (use ok free can in \<open>auto simp: map_of_eq_None_iff next_ok_def FirstChannelID_def word_le_def\<close>)
  moreover have "uint (mx_nextChannelID mx + 1) = uint (mx_nextChannelID mx) + 1"
    using can ok(2) by (auto simp: next_ok_def uint_word_ariths)
  then have "next_ok mx'"
    using ok(2) unfolding suc(3) by (auto simp: next_ok_def addChannel_def Let_def case_prod_unfold)
  ultimately show ?thesis by simp
qed

lemma next_ok_register: "next_ok mx \<Longrightarrow> next_ok (fst (RegisterRequestedChannel mx i e))"
  by (auto simp: next_ok_def RegisterRequestedChannel_def addChannel_def Let_def case_prod_unfold)

lemma AllocChannel_ok:
  assumes ok: "mux_ok mx" "ids_ok mx" and al: "AllocChannel mx now e = (mx', Inr a)"
  shows "mux_ok mx' \<and> ids_ok mx' \<and> map_of (mx_channels mx') (mx_nextChannelID mx) = Some a \<and>
    ch_ID (chan_at mx' a) = mx_nextChannelID mx \<and> mx_activeCount mx' = mx_activeCount mx + 1 \<and>
    mx_usedChannelIDs mx' = List.insert (mx_nextChannelID mx) (mx_usedChannelIDs mx)"
proof -
  let ?m = "mx\<lparr>mx_nextChannelID := mx_nextChannelID mx + 1\<rparr>"
  note suc = AllocChannel_success [OF al]
  have can: "mx_allocCount mx < MaxConfigurableChannelAllocations" "\<not> mx_closed mx"
    using suc(1) max_allocations [of mx] by (auto simp: CanAllocChannel_def)
  have "mux_ok mx'" unfolding suc(3)
    by (rule addChannel_ok) (use ok fresh_id [OF ok] can in simp_all)
  moreover have nx: "uint (mx_nextChannelID mx + 1) = uint (mx_nextChannelID mx) + 1"
    using can ok(2) by (auto simp: ids_ok_def MaxConfigurableChannelAllocations_def uint_word_ariths)
  have "ids_ok mx'"
    using ok(2) can nx unfolding suc(3)
    by (auto simp: ids_ok_def addChannel_def Let_def case_prod_unfold set_insert)
  moreover obtain bp ch where nc: "newChannel (mx_budget mx) (Some (mx_self mx)) (mx_nextChannelID mx) e = (bp, ch)"
    by fastforce
  have "map_of (mx_channels mx') (mx_nextChannelID mx) = Some a"
    "ch_ID (chan_at mx' a) = mx_nextChannelID mx" "mx_activeCount mx' = mx_activeCount mx + 1"
    "mx_usedChannelIDs mx' = List.insert (mx_nextChannelID mx) (mx_usedChannelIDs mx)"
    unfolding suc(2,3) using nc newChannel_inv(2) [OF nc]
    by (simp_all add: addChannel_def Let_def update_conv' chan_at_def)
  ultimately show ?thesis by simp
qed

lemma Register_ok:
  assumes ok: "mux_ok mx"
  shows "mux_ok (fst (RegisterRequestedChannel mx i e))"
proof (cases "\<exists>a. snd (RegisterRequestedChannel mx i e) = Inr a")
  case True
  then have c: "\<not> mx_closed mx" "\<not> i < FirstChannelID" "map_of (mx_channels mx) i = None"
    and eq: "RegisterRequestedChannel mx i e = (let (mx', a) = addChannel mx i e in (mx', Inr a))"
    by (auto simp: RegisterRequestedChannel_def split: if_splits)
  have "mux_ok (fst (addChannel mx i e))"
    by (rule addChannel_ok) (use ok c in \<open>auto simp: map_of_eq_None_iff\<close>)
  then show ?thesis by (simp add: eq case_prod_unfold Let_def)
next
  case False
  then have "fst (RegisterRequestedChannel mx i e) = mx"
    by (auto simp: RegisterRequestedChannel_def Let_def case_prod_unfold split: if_splits)
  with ok show ?thesis by simp
qed

lemma closed_read:
  assumes ok: "mux_ok mx" and st: "mx_store mx a \<noteq> None"
  shows "mux_ok (fst (mux_read mx a dl now e1 e2))"
  using ok st
proof (cases rule: object_cases)
  case closed
  have "recvQueue (chan_at mx a) = []"
    using ok st closed closed_empty by (auto simp: mux_ok_def table_ok_def chan_at_def)
  with closed have "readWithDeadline (mx_budget mx) (Some (mx_self mx)) (chan_at mx a) dl now e1 e2 =
      (mx_budget mx, chan_at mx a, ReadErr ErrChannelClosed)"
    by (simp add: readWithDeadline_def)
  moreover have "(mx_store mx)(a \<mapsto> chan_at mx a) = mx_store mx"
    using st by (auto simp: chan_at_def fun_eq_iff)
  ultimately show ?thesis using ok by (simp add: mux_read_def put_chan_def)
next
  case listed
  then show ?thesis by (rule read_ok_mux [OF ok])
qed

lemma others_ok:
  assumes ok: "mux_ok mx" and b: "mx_budget mx = Some b" "budget_inv b'"
    and same: "\<And>i. ChannelAllocation (Some b') (Some (mx_self mx)) i = ChannelAllocation (Some b) (Some (mx_self mx)) i"
  shows "mux_ok (mx\<lparr>mx_budget := Some b'\<rparr>)"
proof -
  have "charged (Some b') (Some (mx_self mx)) ch" if "charged (Some b) (Some (mx_self mx)) ch" for ch
    using that b(2) same by (simp add: charged_def)
  then have "open_chan (Some b') (mx_self mx) st i a" if "open_chan (Some b) (mx_self mx) st i a" for st i a
    using that by (auto simp: open_chan_def)
  with ok b same show ?thesis by (auto simp: mux_ok_def table_ok_def)
qed

definition run_ok :: "role \<Rightarrow> mux \<Rightarrow> bool" where
  "run_ok role mx \<longleftrightarrow> mux_ok mx \<and> next_ok mx \<and> (role = Initiator \<longrightarrow> ids_ok mx)"

lemma mux_step_ok:
  assumes "mux_step role mx mx'" and "run_ok role mx"
  shows "run_ok role mx'"
  using assms
proof (cases rule: mux_step.cases)
  case (st_alloc now e)
  show ?thesis
  proof (cases "CanAllocChannel mx now")
    case True
    then obtain m where al: "AllocChannel mx now e = (m, Inr (mx_fresh mx))" using AllocChannel_can by blast
    moreover have "map_of (mx_channels mx) (mx_nextChannelID mx) = None"
      using st_alloc(2) fresh_id(1) [of mx] assms(2) by (auto simp: run_ok_def map_of_eq_None_iff)
    ultimately have "mux_ok m \<and> next_ok m" using AllocChannel_table assms(2) unfolding run_ok_def by blast
    moreover have "role = Initiator \<longrightarrow> ids_ok m" using AllocChannel_ok [OF _ _ al] assms(2) by (simp add: run_ok_def)
    ultimately show ?thesis using al st_alloc(1) by (simp add: run_ok_def)
  next
    case False
    with AllocChannel_error [OF False, of e] st_alloc assms(2) show ?thesis by auto
  qed
next
  case (st_register i e)
  with assms(2) Register_ok [of mx i e] next_ok_register show ?thesis by (simp add: run_ok_def)
next
  case (st_receive i payload pe)
  with assms(2) receivePacket_ok show ?thesis by (auto simp: run_ok_def intro: ids_ok_ids)
next
  case (st_read a dl now e1 e2)
  with assms(2) closed_read show ?thesis by (auto simp: run_ok_def intro: ids_ok_ids)
next
  case (st_write a data dl now)
  with assms(2) write_chunk_ok show ?thesis by (auto simp: run_ok_def intro: ids_ok_ids)
next
  case (st_close a)
  with assms(2) Channel_Close_ok show ?thesis by (auto simp: run_ok_def intro: ids_ok_ids)
next
  case (st_abort a)
  with assms(2) sendClose_ok show ?thesis by (auto simp: run_ok_def intro: ids_ok_ids)
next
  case (st_fin a)
  with assms(2) sendFIN_ok show ?thesis by (auto simp: run_ok_def intro: ids_ok_ids)
next
  case (st_send i payload)
  with assms(2) show ?thesis by (auto simp: run_ok_def intro: ids_ok_ids)
next
  case (st_tick now)
  with assms(2) keepAliveTick_ok show ?thesis by (auto simp: run_ok_def intro: ids_ok_ids)
next
  case (st_drain n err now)
  with assms(2) drain_round_ok show ?thesis by (auto simp: run_ok_def intro: ids_ok_ids)
next
  case (st_writer err n now e)
  with assms(2) writer_round_ok show ?thesis by (auto simp: run_ok_def intro: ids_ok_ids)
next
  case st_timer
  then show ?thesis using assms(2) Mux_Close_ok ids_ok_ids [of "invalid_timer_fired mx" mx]
    by (simp add: run_ok_def) (simp add: invalid_timer_fired_def Let_def)
next
  case st_balance
  with assms(2) balance_reply_ok show ?thesis by (auto simp: run_ok_def intro: ids_ok_ids)
next
  case (st_invalid reason drain now)
  with assms(2) SetInvalid_ok show ?thesis by (auto simp: run_ok_def intro: ids_ok_ids)
next
  case (st_limits n)
  then have "mux_ok mx'" using assms(2) by (auto simp: run_ok_def SetMaxConcurrentChannels_def intro: mux_ok_cong)
  with st_limits assms(2) show ?thesis by (auto simp: run_ok_def intro: ids_ok_ids)
next
  case (st_allocs n)
  then have "mux_ok mx'" using assms(2) by (auto simp: run_ok_def SetMaxChannelAllocations_def intro: mux_ok_cong)
  with st_allocs assms(2) show ?thesis by (auto simp: run_ok_def intro: ids_ok_ids)
next
  case st_mux_close
  with assms(2) Mux_Close_ok show ?thesis by (auto simp: run_ok_def intro: ids_ok_ids)
next
  case (st_others b b')
  with assms(2) others_ok [of mx b b'] show ?thesis by (auto simp: run_ok_def intro: ids_ok_ids)
qed

lemma mux_reach_ok:
  assumes "mux_reach role mx mx'" and "run_ok role mx"
  shows "run_ok role mx'"
  using assms by (induction rule: mux_reach.induct) (auto intro: mux_step_ok)

text \<open>A new mux with a budget that holds nothing for it.\<close>

definition new_mux :: "nat \<Rightarrow> bool \<Rightarrow> bool \<Rightarrow> duration \<Rightarrow> time \<Rightarrow> entropy \<Rightarrow> entropy \<Rightarrow> budget_ptr \<Rightarrow> mux" where
  "new_mux self isServer hasKey timeout now e1 e2 bp =
     SetReceiveWindowBudget (NewMuxConnWithHandshake self isServer hasKey timeout now e1 e2) bp"

lemma new_mux_ok:
  assumes "\<And>b i. bp = Some b \<Longrightarrow> budget_inv b \<and> ChannelAllocation bp (Some self) i = None"
  shows "run_ok role (new_mux self isServer hasKey timeout now e1 e2 bp)"
  using assms
  by (auto simp: run_ok_def new_mux_def SetReceiveWindowBudget_def NewMuxConnWithHandshake_def Let_def
      startInvalidDeadlineTimer_def Mux_Close_def close_channels_def mux_ok_def table_ok_def ids_ok_def
      next_ok_def FirstChannelID_def MaxConfigurableChannelAllocations_def)

section \<open>Properties\<close>

text \<open>
  C3. In every run of a mux in which it does not allocate an id that its table holds already (the
  code does not exclude this on a mux that both allocates and registers, see the end of this
  section), whatever it receives and whatever other muxes do with the shared budget: every
  entry of its channel table is an open channel of that id, registered with the budget for
  exactly the window it may fill; every other channel object is closed and empty; no other id of
  this mux is charged; and until the mux is closed its active count is the number of table entries.
\<close>

theorem mux_table_invariant:
  assumes "\<And>b i. bp = Some b \<Longrightarrow> budget_inv b \<and> ChannelAllocation bp (Some self) i = None"
    and "mux_reach role (new_mux self isServer hasKey timeout now e1 e2 bp) mx"
  shows "distinct (keys (mx_channels mx)) \<and>
    (\<forall>i a. map_of (mx_channels mx) i = Some a \<longrightarrow> FirstChannelID \<le> i \<and>
      (\<exists>ch. mx_store mx a = Some ch \<and> ch_ID ch = i \<and> \<not> closedFlag ch \<and>
        (mx_budget mx \<noteq> None \<longrightarrow>
          ChannelAllocation (mx_budget mx) (Some (mx_self mx)) i = Some (recvAllowedWindowLocked ch)))) \<and>
    (\<forall>a ch. mx_store mx a = Some ch \<longrightarrow> map_of (mx_channels mx) (ch_ID ch) \<noteq> Some a \<longrightarrow>
      closedFlag ch \<and> recvQueue ch = []) \<and>
    (\<forall>i. map_of (mx_channels mx) i = None \<longrightarrow> ChannelAllocation (mx_budget mx) (Some (mx_self mx)) i = None) \<and>
    (\<not> mx_closed mx \<longrightarrow> mx_activeCount mx = int (length (mx_channels mx)))"
proof -
  have ok: "mux_ok mx"
    using mux_reach_ok [OF assms(2) new_mux_ok [OF assms(1)]] by (simp add: run_ok_def)
  have d: "distinct (keys (mx_channels mx))" using ok by (simp add: mux_ok_def table_ok_def)
  have entry: "FirstChannelID \<le> i \<and> (\<exists>ch. mx_store mx a = Some ch \<and> ch_ID ch = i \<and> \<not> closedFlag ch \<and>
        (mx_budget mx \<noteq> None \<longrightarrow>
          ChannelAllocation (mx_budget mx) (Some (mx_self mx)) i = Some (recvAllowedWindowLocked ch)))"
    if "map_of (mx_channels mx) i = Some a" for i a
    using ok_entry [OF ok that] by (cases "mx_budget mx") (auto simp: charged_def)
  have off: "closedFlag ch \<and> recvQueue ch = []"
    if "mx_store mx a = Some ch" "map_of (mx_channels mx) (ch_ID ch) \<noteq> Some a" for a ch
  proof -
    have "chan_inv ch \<and> (closedFlag ch \<or> (ch_ID ch, a) \<in> set (mx_channels mx))"
      using ok that(1) by (auto simp: mux_ok_def table_ok_def)
    moreover have "(ch_ID ch, a) \<notin> set (mx_channels mx)" using that(2) d by auto
    ultimately show ?thesis using closed_empty by blast
  qed
  have none: "ChannelAllocation (mx_budget mx) (Some (mx_self mx)) i = None"
    if "map_of (mx_channels mx) i = None" for i
    using ok that
    by (cases "mx_budget mx") (auto simp: mux_ok_def table_ok_def map_of_eq_None_iff ChannelAllocation_def [of None])
  show ?thesis using d entry off none ok by (auto simp: mux_ok_def)
qed

definition demo_mux :: mux where
  "demo_mux = new_mux 1 False True 0 1 (MathRand 0) (MathRand 0) (Some (NewReceiveWindowBudget 0))"

lemma demo_budget: "Some (NewReceiveWindowBudget 0) = Some b \<Longrightarrow>
    budget_inv b \<and> ChannelAllocation (Some (NewReceiveWindowBudget 0)) (Some 1) i = None"
  using new_budget_inv [of 0] by (auto simp: ChannelAllocation_def NewReceiveWindowBudget_def)

lemmas demo_eval = demo_mux_def new_mux_def NewMuxConnWithHandshake_def SetReceiveWindowBudget_def Let_def
  RegisterRequestedChannel_def AllocChannel_def IsInvalid_def maxChannelAllocationsLocked_def
  maxConcurrentChannelsLocked_def channelAllocationAgeExpiredLocked_def addChannel_def newChannel_def
  MaxChannelAllocations_def MaxConcurrentChannels_def MaxConfigurableChannelAllocations_def FirstChannelID_def

theorem mux_table_invariant_witness:
  "\<exists>mx. mux_reach Both demo_mux mx \<and>
    mx = fst (AllocChannel (fst (RegisterRequestedChannel demo_mux 9 (MathRand 0))) 2 (MathRand 0)) \<and>
    mx_activeCount mx = 2 \<and> mx_activeCount mx = int (length (mx_channels mx))"
proof -
  let ?r = "fst (RegisterRequestedChannel demo_mux 9 (MathRand 0))"
  let ?m = "fst (AllocChannel ?r 2 (MathRand 0))"
  have "mux_reach Both demo_mux ?r" by (rule mux_reach.step [OF mux_reach.start st_register]) simp
  moreover have "map_of (mx_channels ?r) (mx_nextChannelID ?r) = None" by (simp add: demo_eval)
  ultimately have r: "mux_reach Both demo_mux ?m" by (intro mux_reach.step [OF _ st_alloc]) simp_all
  have f: "\<not> mx_closed ?m" "mx_activeCount ?m = 2" by (simp_all add: demo_eval)
  have "mx_activeCount ?m = int (length (mx_channels ?m))"
    using mux_table_invariant [OF demo_budget r [unfolded demo_mux_def]] f(1) unfolding demo_mux_def by blast
  with r f(2) show ?thesis by blast
qed

text \<open>
  C10. Channel ids: on a mux that only allocates channels and registers none, as the muxes of a
  client do, an allocation succeeds exactly when
  \<^verbatim>\<open>CanAllocChannel\<close> says so; the id is one that was never used on this mux, the 8-bit counter
  does not wrap, and the limits on allocations and on concurrent channels hold afterwards.
\<close>

theorem alloc_fresh_id:
  assumes "\<And>b i. bp = Some b \<Longrightarrow> budget_inv b \<and> ChannelAllocation bp (Some self) i = None"
    and "mux_reach Initiator (new_mux self isServer hasKey timeout now0 e1 e2 bp) mx"
  shows "if CanAllocChannel mx now
    then \<exists>mx' a. AllocChannel mx now e = (mx', Inr a) \<and>
      (let i = ch_ID (chan_at mx' a) in
        i \<notin> set (mx_usedChannelIDs mx) \<and> i \<in> set (mx_usedChannelIDs mx') \<and>
        uint i = 8 + mx_allocCount mx \<and> map_of (mx_channels mx') i = Some a) \<and>
      mx_allocCount mx' \<le> maxChannelAllocationsLocked mx \<and> mx_activeCount mx' \<le> maxConcurrentChannelsLocked mx
    else \<exists>err. AllocChannel mx now e = (mx, Inl err)"
proof (cases "CanAllocChannel mx now")
  case True
  have ok: "mux_ok mx" "ids_ok mx"
    using mux_reach_ok [OF assms(2) new_mux_ok [OF assms(1)]] by (auto simp: run_ok_def)
  obtain mx' where al: "AllocChannel mx now e = (mx', Inr (mx_fresh mx))" using AllocChannel_can [OF True] by blast
  note r = AllocChannel_ok [OF ok al] and f = fresh_id [OF ok]
  have "mx_allocCount mx' = mx_allocCount mx + 1"
    unfolding AllocChannel_success(3) [OF al] by (simp add: addChannel_def Let_def case_prod_unfold)
  with True al r f ok(2) show ?thesis by (auto simp: CanAllocChannel_def ids_ok_def Let_def)
next
  case False
  with AllocChannel_error [OF False] show ?thesis by simp
qed

theorem alloc_fresh_id_witness:
  "\<exists>mx' a. AllocChannel demo_mux 2 (MathRand 0) = (mx', Inr a) \<and> uint (ch_ID (chan_at mx' a)) = 8"
proof -
  have "CanAllocChannel demo_mux 2" and z: "mx_allocCount demo_mux = 0"
    by (simp_all add: demo_mux_def new_mux_def NewMuxConnWithHandshake_def SetReceiveWindowBudget_def Let_def
        CanAllocChannel_def IsInvalid_def maxChannelAllocationsLocked_def maxConcurrentChannelsLocked_def
        channelAllocationAgeExpiredLocked_def MaxChannelAllocations_def MaxConcurrentChannels_def
        MaxConfigurableChannelAllocations_def)
  with alloc_fresh_id [OF demo_budget mux_reach.start, of False True 0 1 "MathRand 0" "MathRand 0" 2 "MathRand 0",
      folded demo_mux_def]
  show ?thesis by (auto simp: Let_def)
qed

text \<open>
  Closing a mux closes and empties every channel it ever had, empties its table and
  releases everything it holds in the shared budget, whatever state it was in; closing it
  again changes nothing.
\<close>

theorem mux_close_releases:
  assumes "\<And>b i. bp = Some b \<Longrightarrow> budget_inv b \<and> ChannelAllocation bp (Some self) i = None"
    and "mux_reach role (new_mux self isServer hasKey timeout now e1 e2 bp) mx"
  shows "mx_closed (Mux_Close mx) \<and> mx_channels (Mux_Close mx) = [] \<and>
    (\<forall>a ch. mx_store (Mux_Close mx) a = Some ch \<longrightarrow> closedFlag ch \<and> recvQueue ch = []) \<and>
    (\<forall>i. ChannelAllocation (mx_budget (Mux_Close mx)) (Some (mx_self mx)) i = None) \<and>
    Mux_Close (Mux_Close mx) = Mux_Close mx"
proof -
  have "mux_ok mx" using mux_reach_ok [OF assms(2) new_mux_ok [OF assms(1)]] by (simp add: run_ok_def)
  from Mux_Close_effect [OF this] show ?thesis by (auto simp: Mux_Close_def [of "Mux_Close mx"])
qed

theorem mux_close_releases_witness:
  "mx_channels (Mux_Close (fst (AllocChannel demo_mux 2 (MathRand 0)))) = []"
proof -
  have r: "mux_reach Initiator demo_mux (fst (AllocChannel demo_mux 2 (MathRand 0)))"
    by (rule mux_reach.step [OF mux_reach.start st_alloc [OF disjI1 [OF refl]]])
  show ?thesis
    using mux_close_releases [OF demo_budget r [unfolded demo_mux_def]] unfolding demo_mux_def by blast
qed

text \<open>
  C11. The authentication gate of the server: before a valid timestamp packet arrived, a packet on
  any channel other than keep-alive and timestamp reaches neither a channel nor a callback.
  It makes the mux invalid with the reason for it, and the mux is closed at once if its
  deadline has passed.
\<close>

theorem timestamp_gate:
  assumes "mx_isServer mx" and "\<not> mx_hasReceivedTimestamp mx" and "\<not> mx_closed mx" and "\<not> IsInvalid mx"
    and "i \<noteq> TimestampChannelID" and "i \<noteq> KeepAliveChannelID"
  shows "let mx' = receivePacket mx i payload pe in
    mx_invalidReason mx' = ReasonNoTimestamp \<and> mx_events mx' = mx_events mx \<and>
    mx_writeQueue mx' = mx_writeQueue mx \<and>
    (mx_closed mx' \<longleftrightarrow> mx_invalidDeadline mx \<le> pe_now pe) \<and>
    (\<not> mx_closed mx' \<longrightarrow> mx_store mx' = mx_store mx \<and> mx_channels mx' = mx_channels mx)"
proof -
  have keep: "mx_invalidReason (Mux_Close m) = mx_invalidReason m" "mx_events (Mux_Close m) = mx_events m"
    "mx_writeQueue (Mux_Close m) = mx_writeQueue m" "\<not> mx_closed m \<Longrightarrow> mx_closed (Mux_Close m)" for m
  proof -
    have "mx_invalidReason (foldl (\<lambda>m a. fst (mux_markClosed m a)) m as) = mx_invalidReason m"
      "mx_events (foldl (\<lambda>m a. fst (mux_markClosed m a)) m as) = mx_events m"
      "mx_writeQueue (foldl (\<lambda>m a. fst (mux_markClosed m a)) m as) = mx_writeQueue m" for m as
      by (induction as arbitrary: m) (simp_all add: mux_markClosed_def put_chan_def case_prod_unfold)
    then show "mx_invalidReason (Mux_Close m) = mx_invalidReason m" "mx_events (Mux_Close m) = mx_events m"
      "mx_writeQueue (Mux_Close m) = mx_writeQueue m" "\<not> mx_closed m \<Longrightarrow> mx_closed (Mux_Close m)"
      by (simp_all add: Mux_Close_def Let_def close_channels_def)
  qed
  let ?m = "(updatePacketTime mx (pe_now pe) (pe_e1 pe))\<lparr>mx_invalidReason := ReasonNoTimestamp\<rparr>"
  have "receivePacket mx i payload pe = (if mx_invalidDeadline mx \<le> pe_now pe then Mux_Close ?m else ?m)"
    using assms
    by (simp add: receivePacket_def dispatchPacket_def Let_def SetInvalid_def IsInvalid_def updatePacketTime_def)
  moreover have "mx_invalidReason ?m = ReasonNoTimestamp" "mx_events ?m = mx_events mx"
    "mx_writeQueue ?m = mx_writeQueue mx" "\<not> mx_closed ?m" "mx_store ?m = mx_store mx" "mx_channels ?m = mx_channels mx"
    using assms(3) by (simp_all add: updatePacketTime_def)
  ultimately show ?thesis using keep [of ?m] by (simp add: Let_def)
qed

definition demo_env :: packet_env where
  "demo_env = \<lparr>pe_now = 5, pe_e1 = MathRand 0, pe_e2 = MathRand 0, pe_e3 = MathRand 0,
     pe_drain = 10, pe_nonceErr = False\<rparr>"

definition demo_server :: mux where
  "demo_server = new_mux 2 True True 20 1 (MathRand 0) (MathRand 0) None"

lemma demo_server_fields:
  "mx_isServer demo_server" "\<not> mx_hasReceivedTimestamp demo_server" "\<not> mx_closed demo_server"
  "\<not> IsInvalid demo_server" "mx_events demo_server = []"
  by (simp_all add: demo_server_def new_mux_def NewMuxConnWithHandshake_def SetReceiveWindowBudget_def Let_def
      IsInvalid_def startInvalidDeadlineTimer_def)

theorem timestamp_gate_witness:
  "mx_invalidReason (receivePacket demo_server ChannelRequestChannelID [8, 0, 1] demo_env) = ReasonNoTimestamp \<and>
   mx_events (receivePacket demo_server ChannelRequestChannelID [8, 0, 1] demo_env) = []"
  using timestamp_gate [OF demo_server_fields(1-4), of ChannelRequestChannelID "[8, 0, 1]" demo_env]
    demo_server_fields(5)
  by (simp add: Let_def channel_id_defs)

text \<open>A sequence of drain rounds, the bytes they take and whether a read failed.\<close>

fun drain_run :: "mux \<Rightarrow> (int \<times> bool \<times> time) list \<Rightarrow> mux \<times> int \<times> bool" where
  "drain_run mx [] = (mx, 0, False)"
| "drain_run mx ((n, err, now) # rs) =
     (if mx_closed mx then (mx, 0, False)
      else
        (let k = max 0 (min n (drain_buffer mx))
         in case drain_run (drain_round mx k err now) rs of
              (mx', taken, failed) \<Rightarrow> (mx', k + taken, err \<or> failed)))"

text \<open>
  An authenticated connection that turned invalid reads at most the drain size drawn at that
  moment: over any sequence of reads, each within the buffer offered, the bytes taken from the
  socket never exceed it, and the mux is closed exactly when they reach it or a read failed.
\<close>

theorem drain_bounded:
  assumes "mx_isServer mx" and "mx_hasReceivedTimestamp mx" and "\<not> mx_closed mx"
    and "0 < mx_invalidDrainRemaining mx"
    and "drain_run mx rs = (mx', taken, failed)"
  shows "0 \<le> taken \<and> taken \<le> mx_invalidDrainRemaining mx \<and>
    (mx_closed mx' \<longleftrightarrow> taken = mx_invalidDrainRemaining mx \<or> failed) \<and>
    (\<not> mx_closed mx' \<longrightarrow> mx_invalidDrainRemaining mx' = mx_invalidDrainRemaining mx - taken)"
  using assms
proof (induction rs arbitrary: mx taken failed)
  case Nil
  then show ?case by simp
next
  case (Cons r rs)
  obtain n err now where r: "r = (n, err, now)" by (cases r)
  define k where "k = max 0 (min n (drain_buffer mx))"
  have k: "0 \<le> k" "k \<le> mx_invalidDrainRemaining mx"
    using Cons.prems(1,2,4) by (auto simp: k_def drain_buffer_def)
  let ?m = "drain_round mx k err now"
  obtain t f where rec: "drain_run ?m rs = (mx', t, f)" and tot: "taken = k + t" "failed = (err \<or> f)"
    using Cons.prems(3,5) r by (auto simp: k_def Let_def split: prod.splits)
  have cl: "mx_closed (Mux_Close x)" for x
    by (simp add: Mux_Close_def Let_def close_channels_def)
  have stop: "drain_run x rs = (x, 0, False)" if "mx_closed x" for x
    using that by (cases rs) auto
  show ?case
  proof (cases "k = mx_invalidDrainRemaining mx \<or> err")
    case True
    then have "mx_closed ?m"
      using Cons.prems(1,2,4) k cl by (auto simp: drain_round_def addBytesReceived_def Let_def)
    with stop [of ?m] rec tot True k show ?thesis by auto
  next
    case False
    then have m: "mx_isServer ?m" "mx_hasReceivedTimestamp ?m" "\<not> mx_closed ?m"
      "mx_invalidDrainRemaining ?m = mx_invalidDrainRemaining mx - k"
      using Cons.prems(1-4) k by (auto simp: drain_round_def addBytesReceived_def Let_def)
    moreover have "0 < mx_invalidDrainRemaining ?m" using m(4) k False by auto
    ultimately show ?thesis using Cons.IH [OF m(1-3) _ rec] tot False k(1) by auto
  qed
qed

theorem drain_bounded_witness:
  "\<exists>mx' taken failed. drain_run (demo_server\<lparr>mx_hasReceivedTimestamp := True, mx_invalidDrainRemaining := 300\<rparr>)
      [(256, False, 6), (100, False, 7)] = (mx', taken, failed) \<and> taken \<le> 300"
proof -
  let ?m = "demo_server\<lparr>mx_hasReceivedTimestamp := True, mx_invalidDrainRemaining := 300\<rparr>"
  obtain mx' taken failed where d: "drain_run ?m [(256, False, 6), (100, False, 7)] = (mx', taken, failed)"
    by (rule prod_cases3)
  from drain_bounded [OF _ _ _ _ d] demo_server_fields d show ?thesis by simp
qed

lemma length_update_known: "map_of al k \<noteq> None \<Longrightarrow> length (AList.update k v al) = length al"
  by (induction al) auto

text \<open>
  C12. The ids of the two roles are not separated.  On any mux that does both, when the id that the
  next allocation takes is in use by a channel the peer requested, the allocation succeeds all the
  same: the new channel has that id and replaces the other one in the table, the other one is still
  open but no packet reaches it, and the active count is one too high for good, since closing the
  replaced channel does not lower it.
\<close>

theorem mixed_roles_reuse_id:
  assumes "\<And>b i. bp = Some b \<Longrightarrow> budget_inv b \<and> ChannelAllocation bp (Some self) i = None"
    and "mux_reach role (new_mux self isServer hasKey timeout now0 e1 e2 bp) mx"
    and "map_of (mx_channels mx) (mx_nextChannelID mx) = Some a" and "CanAllocChannel mx now"
  shows "\<exists>mx' b. AllocChannel mx now e = (mx', Inr b) \<and> b \<noteq> a \<and> ch_ID (chan_at mx' b) = mx_nextChannelID mx \<and>
    map_of (mx_channels mx') (mx_nextChannelID mx) = Some b \<and> a \<notin> snd ` set (mx_channels mx') \<and>
    \<not> closedFlag (chan_at mx' a) \<and> mx_activeCount mx' = int (length (mx_channels mx')) + 1 \<and>
    mx_activeCount (Channel_Close mx' a) = mx_activeCount mx'"
proof -
  let ?i = "mx_nextChannelID mx"
  have ok: "mux_ok mx" using mux_reach_ok [OF assms(2) new_mux_ok [OF assms(1)]] by (simp add: run_ok_def)
  obtain mx' where al: "AllocChannel mx now e = (mx', Inr (mx_fresh mx))" using AllocChannel_can [OF assms(4)] by blast
  obtain bp' ch where nc: "newChannel (mx_budget mx) (Some (mx_self mx)) ?i e = (bp', ch)" by fastforce
  note en = ok_entry [OF ok assms(3)]
  have "(?i, a) \<in> set (mx_channels mx)" using assms(3) by (rule map_of_SomeD)
  moreover have "table_ok mx (mx_channels mx)" using ok by (simp add: mux_ok_def)
  ultimately have lt: "a < mx_fresh mx" and inj: "\<And>j. (j, a) \<in> set (mx_channels mx) \<Longrightarrow> j = ?i"
    using table_entry(8) table_inj by blast+
  have f: "mx_channels mx' = AList.update ?i (mx_fresh mx) (mx_channels mx)"
    "mx_store mx' = (mx_store mx)(mx_fresh mx \<mapsto> ch)" "mx_activeCount mx' = mx_activeCount mx + 1"
    unfolding AllocChannel_success(3) [OF al] using nc by (simp_all add: addChannel_def Let_def)
  have d: "distinct (keys (mx_channels mx))" using ok by (simp add: mux_ok_def table_ok_def)
  have len: "length (mx_channels mx') = length (mx_channels mx)"
    unfolding f(1) by (rule length_update_known) (simp add: assms(3))
  have act: "mx_activeCount mx = int (length (mx_channels mx))"
    using ok assms(4) by (simp add: mux_ok_def CanAllocChannel_def)
  have m': "map_of (mx_channels mx') ?i = Some (mx_fresh mx)" by (simp add: f(1) update_conv')
  have gone: "a \<notin> snd ` set (mx_channels mx')"
  proof
    assume "a \<in> snd ` set (mx_channels mx')"
    then obtain j where "map_of (mx_channels mx') j = Some a"
      using d by (auto simp: f(1) distinct_update)
    then show False using lt inj by (auto simp: f(1) update_conv' split: if_splits dest: map_of_SomeD)
  qed
  have c: "chan_at mx' a = chan_at mx a" "chan_at mx' (mx_fresh mx) = ch" using lt f(2) by (simp_all add: chan_at_def)
  have "mx_store mx' a \<noteq> None" using f(2) lt en(2) by simp
  from mark_ID [OF this] have "mx_activeCount (Channel_Close mx' a) = mx_activeCount mx'"
    using m' lt en(1) c by (auto simp: Channel_Close_def case_prod_unfold removeFromMux_def Let_def)
  then show ?thesis
    using al m' gone c en len act f(3) lt newChannel_inv(2) [OF nc] by (intro exI [of _ mx'] exI [of _ "mx_fresh mx"]) auto
qed

theorem mixed_roles_reuse_id_witness:
  "\<exists>mx a mx' b. RegisterRequestedChannel demo_mux 8 (MathRand 0) = (mx, Inr a) \<and> mux_reach Both demo_mux mx \<and>
    AllocChannel mx 2 (MathRand 0) = (mx', Inr b) \<and> b \<noteq> a \<and> ch_ID (chan_at mx' b) = 8 \<and>
    mx_activeCount (Channel_Close mx' a) = int (length (mx_channels mx')) + 1"
proof -
  let ?m = "fst (RegisterRequestedChannel demo_mux 8 (MathRand 0))"
  have r: "mux_reach Both demo_mux ?m" by (rule mux_reach.step [OF mux_reach.start st_register]) simp
  have h: "RegisterRequestedChannel demo_mux 8 (MathRand 0) = (?m, Inr 0)" "mx_nextChannelID ?m = 8"
    "map_of (mx_channels ?m) (mx_nextChannelID ?m) = Some 0" "CanAllocChannel ?m 2"
    by (simp_all add: demo_eval CanAllocChannel_def)
  from mixed_roles_reuse_id [OF demo_budget r [unfolded demo_mux_def] h(3,4) [unfolded demo_mux_def], of "MathRand 0"] h(1,2) r
  show ?thesis unfolding demo_mux_def [symmetric] by metis
qed

section \<open>Timestamps\<close>

text \<open>
  Timestamps: the values a client sends under one id strictly increase whatever the clock
  does, and the server accepts the timestamp packet built from one exactly when its own clock
  is within five minutes of it.
\<close>

theorem timestamp_exchange:
  assumes "nextClientTimestampMs cs i now = (cs', ms)" and "i = stampID tid cid" and "length cid = ClientIDSize"
    and "- (2 ^ 63) \<le> ms" and "ms < 2 ^ 63"
  shows "UnixMilli now \<le> ms \<and> map_of cs' i = Some ms \<and>
    (\<forall>now'. ms < snd (nextClientTimestampMs cs' i now')) \<and>
    (\<forall>j. j \<noteq> i \<longrightarrow> map_of cs' j = map_of cs j) \<and>
    (validateTimestamp (timestampPayload tid cid ms) t \<longleftrightarrow> \<bar>ms - UnixMilli t\<bar> \<le> 300000)"
proof -
  have ms: "ms = (let last = (case map_of cs i of None \<Rightarrow> 0 | Some n \<Rightarrow> n)
      in if UnixMilli now \<le> last then last + 1 else UnixMilli now)" and cs': "cs' = AList.update i ms cs"
    using assms(1) by (auto simp: nextClientTimestampMs_def Let_def)
  have "UnixMilli now \<le> ms" by (simp add: ms Let_def)
  moreover have "map_of cs' i = Some ms" "\<forall>j. j \<noteq> i \<longrightarrow> map_of cs' j = map_of cs j"
    by (simp_all add: cs' update_conv')
  moreover have "\<forall>now'. ms < snd (nextClientTimestampMs cs' i now')"
    by (simp add: nextClientTimestampMs_def Let_def cs' update_conv')
  moreover have "validateTimestamp (timestampPayload tid cid ms) t \<longleftrightarrow> \<bar>ms - UnixMilli t\<bar> \<le> 300000"
  proof -
    have "sint (word_of_int ms :: u64) = ms"
      using assms(4,5) by (simp add: sint_sbintrunc' signed_take_bit_int_eq_self)
    moreover have "length (stampID tid cid) = 8" using assms(3) by (simp add: stampID_def ClientIDSize_def)
    ultimately show ?thesis
      by (auto simp: validateTimestamp_def timestampPayload_def Let_def TimestampPayloadSize_def ClientIDSize_def
          TimestampSize_def MaxTimeDrift_def ReplayWindowSeconds_def seconds_def)
  qed
  ultimately show ?thesis by blast
qed

theorem timestamp_exchange_witness:
  "let (cs, ms) = nextClientTimestampMs [] [1, 2, 3, 4, 5, 6, 7, 8] (62135596800 * 1000000000 + 5000000) in
    ms = 5 \<and> ms < snd (nextClientTimestampMs cs [1, 2, 3, 4, 5, 6, 7, 8] 0)"
proof -
  obtain cs ms where n: "nextClientTimestampMs [] [1, 2, 3, 4, 5, 6, 7, 8] (62135596800 * 1000000000 + 5000000) = (cs, ms)"
    by fastforce
  then have "ms = 5" by (simp add: nextClientTimestampMs_def UnixMilli_def UnixNano_def Let_def)
  with timestamp_exchange [OF n, of "[]" "[1, 2, 3, 4, 5, 6, 7, 8]" 0] n show ?thesis
    by (simp add: ClientIDSize_def stampID_def)
qed

end
