(* ===== verification/MuxPool.thy ===== *)
theory MuxPool
  imports ServerHealth MuxRuns
begin

text \<open>
  The connections of the client (\<^verbatim>\<open>cmd/client/mux_pool.go\<close>): reuse of the best healthy connection, batches
  of requests that wait for one new connection, and closing of unused ones.  Connections and pending creations are
  pointers (numbers) into stores.  The speed score of a connection (\<^verbatim>\<open>SpeedScore\<close>) is an argument, by pointer.
\<close>

section \<open>State\<close>

definition tcpMuxCreationBatchSize :: nat where "tcpMuxCreationBatchSize = 16"

record clientMuxConn =
  cm_mc :: mux
  cm_serverIdentity :: serverIdentity
  cm_intentionalClose :: bool
  cm_serverAcked :: bool
  cm_responseTimeouts :: int

text \<open>The error of a creation is only present or absent here.\<close>

record tcpMuxCreation =
  tc_done :: bool
  tc_waiters :: nat
  tc_sealed :: bool
  tc_cm :: "nat option"
  tc_channels :: "nat list"
  tc_err :: bool

record client =
  cl_cms :: "nat \<Rightarrow> clientMuxConn"
  cl_muxConns :: "nat list"
  cl_stats :: health_stats
  cl_servers :: "clientServerState list"
  cl_tcpCreations :: "serverIdentity \<Rightarrow> nat list"
  cl_creations :: "nat \<rightharpoonup> tcpMuxCreation"
  cl_fresh :: nat

abbreviation mc_of :: "client \<Rightarrow> nat \<Rightarrow> mux" where
  "mc_of c p \<equiv> cm_mc (cl_cms c p)"

definition set_mc :: "client \<Rightarrow> nat \<Rightarrow> mux \<Rightarrow> client" where
  "set_mc c p mx = c\<lparr>cl_cms := (cl_cms c)(p := (cl_cms c p)\<lparr>cm_mc := mx\<rparr>)\<rparr>"

section \<open>Reuse of connections\<close>

definition existingMuxHealthy :: "client \<Rightarrow> serverIdentity \<Rightarrow> time \<Rightarrow> client \<times> bool" where
  "existingMuxHealthy c i now =
     (let h = decayServerHealthLocked (statsForLocked (cl_stats c) i now) now
      in (c\<lparr>cl_stats := (cl_stats c)(i \<mapsto> h)\<rparr>, normalizedHealthClass h = serverHealthGood \<and> serverCanRetry h now))"

fun prune_closed :: "client \<Rightarrow> nat list \<Rightarrow> time \<Rightarrow> client \<times> nat list" where
  "prune_closed c [] now = (c, [])"
| "prune_closed c (p # ps) now =
     (if IsClosed (mc_of c p)
      then prune_closed (c\<lparr>cl_stats := recordMuxClosed (cl_stats c) (cm_serverIdentity (cl_cms c p)) (cm_intentionalClose (cl_cms c p))
             (mx_activeCount (mc_of c p)) now\<rparr>) ps now
      else (let (c1, qs) = prune_closed c ps now in (c1, p # qs)))"

definition pruneClosedMuxConnsLocked :: "client \<Rightarrow> time \<Rightarrow> client" where
  "pruneClosedMuxConnsLocked c now = (case prune_closed c (cl_muxConns c) now of (c1, ps) \<Rightarrow> c1\<lparr>cl_muxConns := ps\<rparr>)"

definition singleServerMode :: "client \<Rightarrow> bool" where
  "singleServerMode c \<longleftrightarrow> length (cl_servers c) = 1"

definition usable :: "client \<Rightarrow> nat \<Rightarrow> time \<Rightarrow> client \<times> bool" where
  "usable c p now =
     (if \<not> CanAllocChannel (mc_of c p) now then (c, False)
      else if singleServerMode c then (c, True)
      else existingMuxHealthy c (cm_serverIdentity (cl_cms c p)) now)"

definition better :: "client \<Rightarrow> (nat \<Rightarrow> u64) \<Rightarrow> nat \<Rightarrow> nat option \<Rightarrow> bool" where
  "better c speed p best =
     (case best of
        None \<Rightarrow> True
      | Some b \<Rightarrow> speed b < speed p \<or> speed p = speed b \<and> mx_activeCount (mc_of c p) < mx_activeCount (mc_of c b))"

fun best_from :: "client \<Rightarrow> (nat \<Rightarrow> u64) \<Rightarrow> time \<Rightarrow> nat list \<Rightarrow> nat option \<Rightarrow> client \<times> nat option" where
  "best_from c speed now [] best = (c, best)"
| "best_from c speed now (p # ps) best =
     (case usable c p now of
        (c1, False) \<Rightarrow> best_from c1 speed now ps best
      | (c1, True) \<Rightarrow>
          (let c2 = c1\<lparr>cl_stats := updateServerSpeed (cl_stats c1) (cm_serverIdentity (cl_cms c1 p)) (speed p) now\<rparr>
           in best_from c2 speed now ps (if better c2 speed p best then Some p else best)))"

definition bestHealthyMuxLocked :: "client \<Rightarrow> (nat \<Rightarrow> u64) \<Rightarrow> time \<Rightarrow> client \<times> nat option" where
  "bestHealthyMuxLocked c speed now = best_from c speed now (cl_muxConns c) None"

definition removeMuxConnLocked :: "client \<Rightarrow> nat \<Rightarrow> client" where
  "removeMuxConnLocked c target = c\<lparr>cl_muxConns := filter (\<lambda>p. p \<noteq> target) (cl_muxConns c)\<rparr>"

definition close_intentionally :: "client \<Rightarrow> nat \<Rightarrow> client" where
  "close_intentionally c p =
     c\<lparr>cl_cms := (cl_cms c)(p := (cl_cms c p)\<lparr>cm_intentionalClose := True, cm_mc := Mux_Close (mc_of c p)\<rparr>)\<rparr>"

definition closeUnusedMux :: "client \<Rightarrow> nat \<Rightarrow> time \<Rightarrow> client" where
  "closeUnusedMux c p now =
     (if IsClosed (mc_of c p) \<or> mx_activeCount (mc_of c p) = 0 \<and> \<not> CanAllocChannel (mc_of c p) now then close_intentionally c p else c)"

text \<open>A channel lives in the store of its connection, so there is none to abort when there is no connection.\<close>

definition releaseMuxChannel :: "client \<Rightarrow> nat option \<Rightarrow> nat option \<Rightarrow> bool \<Rightarrow> time \<Rightarrow> client" where
  "releaseMuxChannel c cm channel closeMux now =
     (case cm of
        None \<Rightarrow> c
      | Some p \<Rightarrow>
          (let c1 = (case channel of None \<Rightarrow> c | Some a \<Rightarrow> set_mc c p (fst (sendClose (mc_of c p) a)))
           in if closeMux \<or> mx_activeCount (mc_of c1 p) = 0 \<and> \<not> CanAllocChannel (mc_of c1 p) now then close_intentionally c1 p else c1))"

lemma usable_keeps: "cl_muxConns (fst (usable c p now)) = cl_muxConns c" "cl_cms (fst (usable c p now)) = cl_cms c"
  "cl_servers (fst (usable c p now)) = cl_servers c"
  by (simp_all add: usable_def existingMuxHealthy_def Let_def)

lemma best_from_keeps:
  "best_from c speed now ps best = (c', r) \<Longrightarrow> cl_muxConns c' = cl_muxConns c \<and> cl_cms c' = cl_cms c \<and> cl_servers c' = cl_servers c \<and>
    (r = best \<or> (\<exists>p \<in> set ps. r = Some p))"
proof (induction ps arbitrary: c best)
  case (Cons p ps)
  obtain c1 u where u: "usable c p now = (c1, u)" by fastforce
  note k = usable_keeps [of c p now, unfolded u fst_conv]
  show ?case
  proof (cases u)
    case True
    show ?thesis using Cons.IH Cons.prems k u True by (fastforce simp: Let_def split: if_splits)
  next
    case False
    then show ?thesis using Cons.IH [of c1 best] Cons.prems k u by auto
  qed
qed simp

lemma try_smaller:
  assumes "(c1, Some p) = bestHealthyMuxLocked c speed now"
  shows "length (cl_muxConns (closeUnusedMux (removeMuxConnLocked (set_mc c1 p mx) p) p now)) < length (cl_muxConns c)"
proof -
  have "cl_muxConns c1 = cl_muxConns c" "p \<in> set (cl_muxConns c)"
    using best_from_keeps [of c speed now "cl_muxConns c" None c1 "Some p"] assms by (auto simp: bestHealthyMuxLocked_def)
  then show ?thesis
    by (auto simp: closeUnusedMux_def removeMuxConnLocked_def set_mc_def close_intentionally_def intro!: length_filter_less)
qed

text \<open>The loop ends because each round without success takes a connection out of the list.\<close>

function try_existing :: "client \<Rightarrow> (nat \<Rightarrow> u64) \<Rightarrow> time \<Rightarrow> entropy \<Rightarrow> client \<times> (nat \<times> nat) option" where
  "try_existing c speed now e =
     (case bestHealthyMuxLocked c speed now of
        (c1, None) \<Rightarrow> (c1, None)
      | (c1, Some p) \<Rightarrow>
          (case AllocChannel (mc_of c1 p) now e of
             (mx, Inr a) \<Rightarrow>
               ((set_mc c1 p mx)\<lparr>cl_stats := updateServerSpeed (cl_stats c1) (cm_serverIdentity (cl_cms c1 p)) (speed p) now\<rparr>, Some (p, a))
           | (mx, Inl err) \<Rightarrow> try_existing (closeUnusedMux (removeMuxConnLocked (set_mc c1 p mx) p) p now) speed now e))"
  by pat_completeness auto
termination
  by (relation "measure (\<lambda>(c, speed, now, e). length (cl_muxConns c))") (auto simp: try_smaller)

declare try_existing.simps [simp del]

definition tryExistingTCPChannel :: "client \<Rightarrow> (nat \<Rightarrow> u64) \<Rightarrow> time \<Rightarrow> entropy \<Rightarrow> client \<times> (nat \<times> nat) option" where
  "tryExistingTCPChannel c speed now e = try_existing (pruneClosedMuxConnsLocked c now) speed now e"

section \<open>Creation of connections\<close>

definition joinTCPMuxCreationLocked :: "client \<Rightarrow> serverIdentity \<Rightarrow> client \<times> nat \<times> nat \<times> bool" where
  "joinTCPMuxCreationLocked c i =
     (case find (\<lambda>p. \<not> tc_sealed (the (cl_creations c p)) \<and> tc_waiters (the (cl_creations c p)) < tcpMuxCreationBatchSize) (cl_tcpCreations c i) of
        Some p \<Rightarrow>
          (let cr = the (cl_creations c p); slot = tc_waiters cr
           in (c\<lparr>cl_creations := (cl_creations c)(p \<mapsto> cr\<lparr>tc_waiters := slot + 1\<rparr>)\<rparr>, p, slot, False))
      | None \<Rightarrow>
          (let p = cl_fresh c;
               cr = \<lparr>tc_done = False, tc_waiters = 1, tc_sealed = False, tc_cm = None, tc_channels = [], tc_err = False\<rparr>
           in (c\<lparr>cl_creations := (cl_creations c)(p \<mapsto> cr), cl_fresh := Suc p,
                 cl_tcpCreations := (cl_tcpCreations c)(i := cl_tcpCreations c i @ [p])\<rparr>, p, 0, True)))"

text \<open>The leader, once the connection is made or has failed: no more requests may join.\<close>

definition seal_creation :: "client \<Rightarrow> nat \<Rightarrow> client \<times> nat" where
  "seal_creation c p =
     (let cr = the (cl_creations c p) in (c\<lparr>cl_creations := (cl_creations c)(p \<mapsto> cr\<lparr>tc_sealed := True\<rparr>)\<rparr>, tc_waiters cr))"

text \<open>
  A channel for each request; if one cannot be had, those before it and the connection are closed.  The allocations of a
  batch are one step, although the read loop of the new connection already runs between them; what it receives then can
  close the connection, which is a failure of a later step, but allocates nothing on the connection of a client.
\<close>

fun reserve_channels :: "mux \<Rightarrow> nat \<Rightarrow> time \<Rightarrow> entropy \<Rightarrow> nat list \<Rightarrow> mux \<times> (mux_err + nat list)" where
  "reserve_channels mx 0 now e got = (mx, Inr got)"
| "reserve_channels mx (Suc n) now e got =
     (case AllocChannel mx now e of
        (mx1, Inr a) \<Rightarrow> reserve_channels mx1 n now e (got @ [a])
      | (mx1, Inl err) \<Rightarrow> (Mux_Close (foldl Channel_Close mx1 got), Inl err))"

text \<open>The result is published and the creation leaves the list of its server.\<close>

definition finish_creation :: "client \<Rightarrow> serverIdentity \<Rightarrow> nat \<Rightarrow> nat option \<Rightarrow> nat list \<Rightarrow> bool \<Rightarrow> client" where
  "finish_creation c i p cm channels err =
     (let c1 = (case cm of Some q \<Rightarrow> if err then c else c\<lparr>cl_muxConns := cl_muxConns c @ [q]\<rparr> | None \<Rightarrow> c);
          cr = the (cl_creations c1 p)
      in c1\<lparr>cl_creations := (cl_creations c1)(p \<mapsto> cr\<lparr>tc_done := True, tc_cm := cm, tc_channels := channels, tc_err := err\<rparr>),
            cl_tcpCreations := (cl_tcpCreations c1)(i := remove1 p (cl_tcpCreations c1 i))\<rparr>)"

text \<open>What a waiting request gets when the creation is done.\<close>

definition creation_result :: "client \<Rightarrow> nat \<Rightarrow> nat \<Rightarrow> (nat \<times> nat) option" where
  "creation_result c p slot =
     (let cr = the (cl_creations c p)
      in if tc_err cr then None
         else (case tc_cm cr of
                 None \<Rightarrow> None
               | Some q \<Rightarrow> if length (tc_channels cr) \<le> slot then None else Some (q, tc_channels cr ! slot)))"

section \<open>The best connection is reused\<close>

definition healthy_now :: "health_stats \<Rightarrow> serverIdentity \<Rightarrow> time \<Rightarrow> bool" where
  "healthy_now st i now \<longleftrightarrow>
     (let h = decayServerHealthLocked (statsForLocked st i now) now in normalizedHealthClass h = serverHealthGood \<and> serverCanRetry h now)"

text \<open>A connection that may take another channel and whose server is healthy, or the only one.\<close>

definition mux_usable :: "client \<Rightarrow> time \<Rightarrow> nat \<Rightarrow> bool" where
  "mux_usable c now p \<longleftrightarrow>
     CanAllocChannel (mc_of c p) now \<and> (singleServerMode c \<or> healthy_now (cl_stats c) (cm_serverIdentity (cl_cms c p)) now)"

lemma decay_loop_done:
  "now - sh_lastDecay (decay_loop h now) < serverHealthDecayInterval"
  by (induction h now rule: decay_loop.induct) (subst decay_loop.simps, simp)

lemma decay_loop_stop: "now - sh_lastDecay h < serverHealthDecayInterval \<Longrightarrow> decay_loop h now = h"
  by (subst decay_loop.simps) simp

lemma normalized_decay_again:
  "normalizedHealthClass (decayServerHealthLocked (decayServerHealthLocked h now) now) = normalizedHealthClass (decayServerHealthLocked h now)"
proof -
  have i: "0 < serverHealthDecayInterval" by (simp add: health_consts seconds_def)
  have "normalizedHealthClass (decayServerHealthLocked g now) = normalizedHealthClass g"
    if "sh_lastDecay g = 0 \<or> now - sh_lastDecay g < serverHealthDecayInterval" for g
    using that by (auto simp: decayServerHealthLocked_def normalizedHealthClass_def Let_def decay_loop_stop)
  moreover have "sh_lastDecay (decayServerHealthLocked h now) = 0 \<or> now - sh_lastDecay (decayServerHealthLocked h now) < serverHealthDecayInterval"
    using i decay_loop_done [of now h] by (simp add: decayServerHealthLocked_def Let_def)
  ultimately show ?thesis by blast
qed

lemma decay_loop_speed: "decay_loop (h\<lparr>sh_lastSpeed := v\<rparr>) now = (decay_loop h now)\<lparr>sh_lastSpeed := v\<rparr>"
proof (induction h now rule: decay_loop.induct)
  case (1 h now)
  have c: "h\<lparr>sh_lastSpeed := v, sh_healthPenalty := p, sh_lastDecay := t\<rparr> = h\<lparr>sh_healthPenalty := p, sh_lastDecay := t, sh_lastSpeed := v\<rparr>" for p t
    by simp
  show ?case by (subst (1 2) decay_loop.simps) (use 1 in \<open>simp add: c\<close>)
qed

lemma healthy_now_update:
  "healthy_now (st(i \<mapsto> decayServerHealthLocked (statsForLocked st i now) now)) j now = healthy_now st j now"
  "healthy_now (updateServerSpeed st i v now) j now = healthy_now st j now"
proof -
  have "decayServerHealthLocked (h\<lparr>sh_lastSpeed := v\<rparr>) now = (decayServerHealthLocked h now)\<lparr>sh_lastSpeed := v\<rparr>" for h
    by (simp add: decayServerHealthLocked_def Let_def decay_loop_speed)
  then have "normalizedHealthClass (decayServerHealthLocked (h\<lparr>sh_lastSpeed := v\<rparr>) now) = normalizedHealthClass (decayServerHealthLocked h now)"
      "serverCanRetry (decayServerHealthLocked (h\<lparr>sh_lastSpeed := v\<rparr>) now) now = serverCanRetry (decayServerHealthLocked h now) now" for h
    by (simp_all add: normalizedHealthClass_def serverCanRetry_def)
  then show "healthy_now (updateServerSpeed st i v now) j now = healthy_now st j now"
    by (auto simp: healthy_now_def updateServerSpeed_def statsForLocked_def Let_def)
  show "healthy_now (st(i \<mapsto> decayServerHealthLocked (statsForLocked st i now) now)) j now = healthy_now st j now"
    using normalized_decay_again
    by (auto simp: healthy_now_def statsForLocked_def Let_def serverCanRetry_def decay_nextRetry)
qed

lemma usable_spec:
  assumes "usable c p now = (c1, u)"
  shows "u = mux_usable c now p" and "mux_usable c1 now = mux_usable c now"
  using assms
  by (auto simp: usable_def existingMuxHealthy_def mux_usable_def singleServerMode_def healthy_now_update fun_eq_iff Let_def
      healthy_now_def [symmetric] split: if_splits) (auto simp: healthy_now_def Let_def)

text \<open>\<open>as_good c speed b p\<close>: the connection \<open>b\<close> is at least as good as \<open>p\<close>.\<close>

definition as_good :: "client \<Rightarrow> (nat \<Rightarrow> u64) \<Rightarrow> nat \<Rightarrow> nat \<Rightarrow> bool" where
  "as_good c speed b p \<longleftrightarrow>
     speed p < speed b \<or> speed p = speed b \<and> mx_activeCount (mc_of c b) \<le> mx_activeCount (mc_of c p)"

lemma as_good_order: "as_good c speed b b" "as_good c speed a b \<Longrightarrow> as_good c speed b p \<Longrightarrow> as_good c speed a p"
  "\<not> better c speed p (Some b) \<longleftrightarrow> as_good c speed b p"
  "better c speed p (Some b) \<Longrightarrow> as_good c speed p b"
  by (auto simp: as_good_def better_def not_less)

lemma better_cms: "cl_cms c' = cl_cms c \<Longrightarrow> better c' = better c" "cl_cms c' = cl_cms c \<Longrightarrow> as_good c' = as_good c"
  by (auto simp: better_def as_good_def fun_eq_iff split: option.split)

lemma best_from_spec:
  "best_from c speed now ps best = (c', r) \<Longrightarrow>
    (\<forall>p. p \<in> set ps \<and> mux_usable c now p \<or> best = Some p \<longrightarrow> (\<exists>b. r = Some b \<and> as_good c speed b p)) \<and>
    (r = best \<or> (\<exists>p \<in> set ps. mux_usable c now p \<and> r = Some p))"
proof (induction ps arbitrary: c best)
  case Nil
  then show ?case by (auto simp: as_good_order(1))
next
  case (Cons p ps)
  obtain c1 u where u: "usable c p now = (c1, u)" by fastforce
  note U = usable_spec [OF u]
  have k: "cl_cms c1 = cl_cms c" using usable_keeps(2) [of c p now] u by simp
  show ?case
  proof (cases u)
    case False
    have "best_from c1 speed now ps best = (c', r)" using Cons.prems u False by simp
    from Cons.IH [OF this] False U better_cms(2) [OF k] show ?thesis by auto
  next
    case True
    define c2 where "c2 = c1\<lparr>cl_stats := updateServerSpeed (cl_stats c1) (cm_serverIdentity (cl_cms c1 p)) (speed p) now\<rparr>"
    define nb where "nb = (if better c2 speed p best then Some p else best)"
    have k2: "cl_cms c2 = cl_cms c" using k by (simp add: c2_def)
    have "mux_usable c2 now = mux_usable c1 now"
      by (simp add: c2_def mux_usable_def singleServerMode_def healthy_now_update fun_eq_iff)
    then have U2: "mux_usable c2 now = mux_usable c now" using U(2) by simp
    have "best_from c2 speed now ps nb = (c', r)" using Cons.prems u True by (simp add: c2_def nb_def Let_def)
    note IH = Cons.IH [OF this, unfolded U2 better_cms(2) [OF k2]]
    have n: "\<exists>b. nb = Some b \<and> as_good c speed b p \<and> (\<forall>b0. best = Some b0 \<longrightarrow> as_good c speed b b0)"
      unfolding nb_def better_cms(1) [OF k2]
      by (cases best) (auto simp: as_good_def better_def not_less)
    then obtain b where b: "nb = Some b" "as_good c speed b p" "\<forall>b0. best = Some b0 \<longrightarrow> as_good c speed b b0" by blast
    obtain b' where b': "r = Some b'" "as_good c speed b' b" using IH b(1) by blast
    have "r = best \<or> (\<exists>q \<in> set (p # ps). mux_usable c now q \<and> r = Some q)"
      using IH U(1) True unfolding nb_def by (auto split: if_splits)
    moreover have "\<exists>b. r = Some b \<and> as_good c speed b q" if q: "q \<in> set (p # ps) \<and> mux_usable c now q \<or> best = Some q" for q
    proof -
      consider "q = p \<or> best = Some q" | "q \<in> set ps" "mux_usable c now q" using q by auto
      then show ?thesis
      proof cases
        case 1
        then have "as_good c speed b q" using b by blast
        then show ?thesis using as_good_order(2) [OF b'(2)] b'(1) by blast
      qed (use IH in blast)
    qed
    ultimately show ?thesis by blast
  qed
qed

lemma prune_closed_spec:
  "prune_closed c ps now = (c', qs) \<Longrightarrow> qs = filter (\<lambda>p. \<not> IsClosed (mc_of c p)) ps \<and> cl_cms c' = cl_cms c \<and> cl_servers c' = cl_servers c"
  by (induction c ps now arbitrary: qs rule: prune_closed.induct) (auto simp: Let_def split: if_splits prod.splits)

text \<open>
  A new request goes to the best connection there is.  After the closed connections have been dropped, a channel is
  taken from an existing connection exactly when one can take another channel and its server is healthy (or the only
  one); the chosen connection has the highest speed score of all of these and, among those with the same score, the
  fewest active channels; the channel is allocated on it, and no other connection is touched.
\<close>

theorem reuse_best:
  assumes "tryExistingTCPChannel c speed now e = (c', r)" and "c0 = pruneClosedMuxConnsLocked c now"
    and "usables = {p \<in> set (cl_muxConns c). \<not> IsClosed (mc_of c p) \<and> mux_usable c0 now p}"
  shows "(r = None \<longleftrightarrow> usables = {}) \<and> cl_muxConns c' = filter (\<lambda>p. \<not> IsClosed (mc_of c p)) (cl_muxConns c) \<and>
    (\<forall>p a. r = Some (p, a) \<longrightarrow> p \<in> usables \<and> (\<forall>q \<in> usables. as_good c speed p q) \<and>
      AllocChannel (mc_of c p) now e = (mc_of c' p, Inr a) \<and> (\<forall>q. q \<noteq> p \<longrightarrow> cl_cms c' q = cl_cms c q))"
proof -
  obtain cp ps where pc: "prune_closed c (cl_muxConns c) now = (cp, ps)" by fastforce
  note P = prune_closed_spec [OF pc]
  have c0: "c0 = cp\<lparr>cl_muxConns := ps\<rparr>" using assms(2) pc by (simp add: pruneClosedMuxConnsLocked_def)
  have k0: "cl_cms c0 = cl_cms c" "cl_muxConns c0 = filter (\<lambda>p. \<not> IsClosed (mc_of c p)) (cl_muxConns c)" using P by (simp_all add: c0)
  have u: "usables = {p \<in> set (cl_muxConns c0). mux_usable c0 now p}" using assms(3) k0(2) by auto
  obtain c1 b where bf: "best_from c0 speed now (cl_muxConns c0) None = (c1, b)" by fastforce
  note B = best_from_spec [OF bf] and K = best_from_keeps [OF bf]
  have t: "try_existing c0 speed now e = (c', r)" using assms(1,2) by (simp add: tryExistingTCPChannel_def)
  show ?thesis
  proof (cases b)
    case None
    then have "r = None" "c' = c1" using t bf by (simp_all add: try_existing.simps [of c0 speed now e] bestHealthyMuxLocked_def)
    moreover have "usables = {}" using B None u by auto
    ultimately show ?thesis using K k0 by simp
  next
    case (Some p)
    then have p: "p \<in> usables" "\<forall>q \<in> usables. as_good c speed p q"
      using B u better_cms(2) [OF k0(1)] by auto
    then have "CanAllocChannel (mc_of c p) now" using u k0(1) by (simp add: mux_usable_def)
    then obtain mx a where al: "AllocChannel (mc_of c p) now e = (mx, Inr a)" using AllocChannel_can by blast
    have "r = Some (p, a)" "c' = (set_mc c1 p mx)\<lparr>cl_stats := updateServerSpeed (cl_stats c1) (cm_serverIdentity (cl_cms c1 p)) (speed p) now\<rparr>"
      using t bf Some al K k0(1) by (simp_all add: try_existing.simps [of c0 speed now e] bestHealthyMuxLocked_def)
    then show ?thesis using p al K k0 by (auto simp: set_mc_def)
  qed
qed

section \<open>Batches of requests\<close>

lemma reserve_channels_success:
  "reserve_channels mx n now e got = (mx', Inr chans) \<Longrightarrow> chans = got @ [mx_fresh mx..<mx_fresh mx + n]"
proof (induction mx n now e got rule: reserve_channels.induct)
  case (2 mx n now e got)
  obtain mx1 r where a: "AllocChannel mx now e = (mx1, r)" by fastforce
  then obtain x where r: "r = Inr x" using 2(2) by (cases r) auto
  have "x = mx_fresh mx" "mx_fresh mx1 = Suc (mx_fresh mx)"
    using AllocChannel_success [OF a [unfolded r]] by (simp_all add: addChannel_def Let_def split_beta)
  then show ?case using 2(1) [OF a [symmetric] r] 2(2) a r by (simp add: upt_rec [of "mx_fresh mx"])
qed simp

text \<open>
  Everything that can happen to the creations, in any order.  The list has the requests that have joined: the creation,
  the slot and whether the request is the leader; \<open>ns\<close> has the number of requests that the leader saw when it closed the
  batch.  Other operations of the client do not touch the creations.
\<close>

inductive batch :: "client \<Rightarrow> (nat \<times> nat \<times> bool) list \<Rightarrow> (nat \<rightharpoonup> nat) \<Rightarrow> bool" where
  batch_start: "cl_creations c = Map.empty \<Longrightarrow> cl_tcpCreations c = (\<lambda>_. []) \<Longrightarrow> batch c [] Map.empty"
| batch_join: "batch c ws ns \<Longrightarrow> joinTCPMuxCreationLocked c i = (c', p, slot, leader) \<Longrightarrow> batch c' (ws @ [(p, slot, leader)]) ns"
| batch_seal: "batch c ws ns \<Longrightarrow> cl_creations c p = Some cr \<Longrightarrow> \<not> tc_sealed cr \<Longrightarrow> seal_creation c p = (c', n) \<Longrightarrow> batch c' ws (ns(p \<mapsto> n))"
| batch_dial_failed: "batch c ws ns \<Longrightarrow> p \<in> set (cl_tcpCreations c i) \<Longrightarrow> cl_creations c p = Some cr \<Longrightarrow> tc_sealed cr \<Longrightarrow> \<not> tc_done cr \<Longrightarrow>
    batch (finish_creation c i p None [] True) ws ns"
| batch_created: "batch c ws ns \<Longrightarrow> p \<in> set (cl_tcpCreations c i) \<Longrightarrow> cl_creations c p = Some cr \<Longrightarrow> tc_sealed cr \<Longrightarrow> \<not> tc_done cr \<Longrightarrow>
    ns p = Some n \<Longrightarrow> reserve_channels (mc_of c q) n now e [] = (mx, res) \<Longrightarrow>
    c' = (case res of Inr chans \<Rightarrow> finish_creation (set_mc c q mx) i p (Some q) chans False
          | Inl err \<Rightarrow> finish_creation (close_intentionally (set_mc c q mx) q) i p (Some q) [] True) \<Longrightarrow> batch c' ws ns"
| batch_other: "batch c ws ns \<Longrightarrow> cl_creations c' = cl_creations c \<Longrightarrow> cl_tcpCreations c' = cl_tcpCreations c \<Longrightarrow> cl_fresh c' = cl_fresh c \<Longrightarrow>
    batch c' ws ns"

definition slots :: "nat \<Rightarrow> (nat \<times> nat \<times> bool) list \<Rightarrow> (nat \<times> bool) list" where
  "slots p ws = map snd (filter (\<lambda>w. fst w = p) ws)"

definition creation_ok :: "(nat \<times> nat \<times> bool) list \<Rightarrow> (nat \<rightharpoonup> nat) \<Rightarrow> nat \<Rightarrow> tcpMuxCreation \<Rightarrow> bool" where
  "creation_ok ws ns p cr \<longleftrightarrow>
     0 < tc_waiters cr \<and> tc_waiters cr \<le> tcpMuxCreationBatchSize \<and>
     slots p ws = map (\<lambda>s. (s, s = 0)) [0..<tc_waiters cr] \<and> (tc_sealed cr \<longrightarrow> ns p = Some (tc_waiters cr)) \<and>
     (tc_done cr \<longrightarrow> tc_sealed cr \<and> (\<not> tc_err cr \<longrightarrow> tc_cm cr \<noteq> None \<and> length (tc_channels cr) = tc_waiters cr \<and> distinct (tc_channels cr)))"

definition batch_inv :: "client \<Rightarrow> (nat \<times> nat \<times> bool) list \<Rightarrow> (nat \<rightharpoonup> nat) \<Rightarrow> bool" where
  "batch_inv c ws ns \<longleftrightarrow>
     (\<forall>p. p \<ge> cl_fresh c \<longrightarrow> cl_creations c p = None) \<and> (\<forall>i. \<forall>p \<in> set (cl_tcpCreations c i). cl_creations c p \<noteq> None) \<and>
     (\<forall>p cr. cl_creations c p = Some cr \<longrightarrow> creation_ok ws ns p cr) \<and> (\<forall>p. cl_creations c p = None \<longrightarrow> slots p ws = [])"

lemma slots_snoc: "slots p (ws @ [(q, x)]) = slots p ws @ (if q = p then [x] else [])"
  by (simp add: slots_def)

lemma join_inv:
  assumes inv: "batch_inv c ws ns" and j: "joinTCPMuxCreationLocked c i = (c', p, slot, leader)"
  shows "batch_inv c' (ws @ [(p, slot, leader)]) ns"
proof (cases "find (\<lambda>p. \<not> tc_sealed (the (cl_creations c p)) \<and> tc_waiters (the (cl_creations c p)) < tcpMuxCreationBatchSize) (cl_tcpCreations c i)")
  case None
  then have c': "p = cl_fresh c" "slot = 0" "leader" "c' = c\<lparr>cl_creations := (cl_creations c)(p \<mapsto>
      \<lparr>tc_done = False, tc_waiters = 1, tc_sealed = False, tc_cm = None, tc_channels = [], tc_err = False\<rparr>), cl_fresh := Suc p,
      cl_tcpCreations := (cl_tcpCreations c)(i := cl_tcpCreations c i @ [p])\<rparr>"
    using j by (auto simp: joinTCPMuxCreationLocked_def Let_def)
  then have "slots p ws = []" using inv by (simp add: batch_inv_def)
  then show ?thesis
    using inv c' by (auto simp: batch_inv_def creation_ok_def slots_snoc tcpMuxCreationBatchSize_def)
next
  case (Some q)
  then have k: "q \<in> set (cl_tcpCreations c i)" "\<not> tc_sealed (the (cl_creations c q))" "tc_waiters (the (cl_creations c q)) < tcpMuxCreationBatchSize"
    by (auto simp: find_Some_iff)
  obtain cr where cr1: "cl_creations c q = Some cr" using inv k(1) unfolding batch_inv_def by blast
  then have cr: "cl_creations c q = Some cr" "\<not> tc_sealed cr" "tc_waiters cr < tcpMuxCreationBatchSize" using k by simp_all
  have c': "p = q" "slot = tc_waiters cr" "\<not> leader" "c' = c\<lparr>cl_creations := (cl_creations c)(q \<mapsto> cr\<lparr>tc_waiters := tc_waiters cr + 1\<rparr>)\<rparr>"
    using j Some cr(1) by (auto simp: joinTCPMuxCreationLocked_def Let_def)
  have ok: "creation_ok ws ns q cr" using inv cr(1) by (simp add: batch_inv_def)
  then have "creation_ok (ws @ [(p, slot, leader)]) ns q (cr\<lparr>tc_waiters := tc_waiters cr + 1\<rparr>)"
    using cr(2,3) c' by (simp add: creation_ok_def slots_snoc)
  then show ?thesis
    using inv c' by (auto simp: batch_inv_def slots_snoc creation_ok_def)
qed

lemma update_inv:
  assumes inv: "batch_inv c ws ns" and cr: "cl_creations c p = Some cr" and ok: "creation_ok ws ns' p cr'"
    and c': "cl_creations c' = (cl_creations c)(p \<mapsto> cr')" "cl_fresh c' = cl_fresh c" "\<And>i. set (cl_tcpCreations c' i) \<subseteq> set (cl_tcpCreations c i)"
    and ns: "\<And>q. q \<noteq> p \<Longrightarrow> ns' q = ns q"
  shows "batch_inv c' ws ns'"
proof -
  have "p < cl_fresh c" using inv cr by (metis batch_inv_def not_le option.distinct(1))
  then show ?thesis
    using inv ok c' ns cr by (fastforce simp: batch_inv_def creation_ok_def)
qed

lemma batch_invariant: "batch c ws ns \<Longrightarrow> batch_inv c ws ns"
proof (induction rule: batch.induct)
  case (batch_start c)
  then show ?case by (simp add: batch_inv_def slots_def)
next
  case (batch_join c ws ns i c' p slot leader)
  then show ?case using join_inv by blast
next
  case (batch_seal c ws ns p cr c' n)
  have "creation_ok ws ns p cr" using batch_seal by (simp add: batch_inv_def)
  then show ?case
    using batch_seal
    by (intro update_inv [where cr' = "cr\<lparr>tc_sealed := True\<rparr>" and p = p, OF batch_seal.IH batch_seal.hyps(2)])
      (auto simp: seal_creation_def creation_ok_def Let_def)
next
  case (batch_dial_failed c ws ns p i cr)
  have "creation_ok ws ns p cr" using batch_dial_failed by (simp add: batch_inv_def)
  then show ?case
    using batch_dial_failed set_remove1_subset [of p]
    by (intro update_inv [where cr' = "cr\<lparr>tc_done := True, tc_cm := None, tc_channels := [], tc_err := True\<rparr>" and p = p,
          OF batch_dial_failed.IH batch_dial_failed.hyps(3)])
      (auto simp: finish_creation_def creation_ok_def Let_def)
next
  case (batch_created c ws ns p i cr n q now e mx res c')
  have ok: "creation_ok ws ns p cr" using batch_created by (simp add: batch_inv_def)
  then have n: "n = tc_waiters cr" using batch_created.hyps by (simp add: creation_ok_def)
  define cr' where "cr' = cr\<lparr>tc_done := True, tc_cm := Some q, tc_channels := (case res of Inl _ \<Rightarrow> [] | Inr chans \<Rightarrow> chans), tc_err := isl res\<rparr>"
  have "creation_ok ws ns p cr'"
    using ok batch_created.hyps reserve_channels_success [of "mc_of c q" n now e "[]" mx] n
    by (cases res) (auto simp: creation_ok_def cr'_def)
  then show ?case
    using batch_created.hyps set_remove1_subset [of p]
    by (intro update_inv [where cr' = cr' and p = p, OF batch_created.IH batch_created.hyps(3)])
      (auto simp: finish_creation_def creation_ok_def Let_def cr'_def set_mc_def close_intentionally_def split: sum.splits)
next
  case (batch_other c ws ns c')
  then show ?case by (simp add: batch_inv_def)
qed

lemma slots_member:
  assumes "slots p ws = map (\<lambda>s. (s, s = 0)) [0..<n]" and "(p, s, l) \<in> set ws"
  shows "s < n" and "l = (s = 0)"
proof -
  have "(s, l) \<in> set (slots p ws)" using assms(2) by (force simp: slots_def)
  then show "s < n" "l = (s = 0)" using assms(1) by auto
qed

lemma slots_distinct:
  assumes "\<And>p. distinct (map fst (slots p ws))"
  shows "distinct (map (\<lambda>(p, s, l). (p, s)) ws)"
  using assms
proof (induction ws)
  case (Cons w ws)
  obtain p s l where w: "w = (p, s, l)" by (metis surj_pair)
  have "distinct (map fst (slots q ws))" for q using Cons.prems [of q] by (auto simp: slots_def split: if_splits)
  moreover have "(p, s) \<notin> (\<lambda>(p, s, l). (p, s)) ` set ws" using Cons.prems [of p] by (force simp: slots_def w)
  ultimately show ?case using Cons.IH by (simp add: w)
qed simp

text \<open>
  C35. Requests that wait for one new connection share it safely.  In every interleaving of requests that join, leaders that
  close a batch, connections that fail and connections whose channels are reserved: no two requests have the same slot
  of a batch, a batch has at most sixteen requests, and exactly the request in slot 0 is the leader that makes the
  connection; and when the creation has ended without an error, every request of the batch gets a connection and a
  channel, and different requests get different channels.
\<close>

theorem batch_served:
  assumes "batch c ws ns"
  shows "distinct (map (\<lambda>(p, s, l). (p, s)) ws) \<and>
    (\<forall>p s l. (p, s, l) \<in> set ws \<longrightarrow>
      (\<exists>cr. cl_creations c p = Some cr \<and> s < tc_waiters cr \<and> tc_waiters cr \<le> 16 \<and> l = (s = 0) \<and>
        (tc_done cr \<and> \<not> tc_err cr \<longrightarrow>
          (\<exists>q a. creation_result c p s = Some (q, a) \<and>
            (\<forall>s' l'. (p, s', l') \<in> set ws \<and> s' \<noteq> s \<longrightarrow> (\<exists>a'. creation_result c p s' = Some (q, a') \<and> a' \<noteq> a))))))"
proof -
  note inv = batch_invariant [OF assms]
  have ok: "creation_ok ws ns p cr" if "cl_creations c p = Some cr" for p cr using inv that by (simp add: batch_inv_def)
  have "distinct (map fst (slots p ws))" for p
    using inv ok [of p] by (cases "cl_creations c p") (auto simp: batch_inv_def creation_ok_def comp_def)
  then have d: "distinct (map (\<lambda>(p, s, l). (p, s)) ws)" by (rule slots_distinct)
  have "\<exists>cr. cl_creations c p = Some cr \<and> s < tc_waiters cr \<and> tc_waiters cr \<le> 16 \<and> l = (s = 0) \<and>
        (tc_done cr \<and> \<not> tc_err cr \<longrightarrow>
          (\<exists>q a. creation_result c p s = Some (q, a) \<and>
            (\<forall>s' l'. (p, s', l') \<in> set ws \<and> s' \<noteq> s \<longrightarrow> (\<exists>a'. creation_result c p s' = Some (q, a') \<and> a' \<noteq> a))))"
    if w: "(p, s, l) \<in> set ws" for p s l
  proof -
    have "slots p ws \<noteq> []" using w by (force simp: slots_def filter_empty_conv)
    then obtain cr where cr: "cl_creations c p = Some cr" using inv by (fastforce simp: batch_inv_def)
    note C = ok [OF cr, unfolded creation_ok_def]
    have sl: "slots p ws = map (\<lambda>s. (s, s = 0)) [0..<tc_waiters cr]" using C by blast
    have lt: "s' < tc_waiters cr" if "(p, s', l') \<in> set ws" for s' l' by (rule slots_member(1) [OF sl that])
    have "\<exists>q a. creation_result c p s = Some (q, a) \<and>
        (\<forall>s' l'. (p, s', l') \<in> set ws \<and> s' \<noteq> s \<longrightarrow> (\<exists>a'. creation_result c p s' = Some (q, a') \<and> a' \<noteq> a))" if "tc_done cr \<and> \<not> tc_err cr"
      using that C lt lt [OF w] cr by (fastforce simp: creation_result_def nth_eq_iff_index_eq)
    then show ?thesis using cr lt [OF w] slots_member(2) [OF sl w] C by (auto simp: tcpMuxCreationBatchSize_def)
  qed
  with d show ?thesis by blast
qed

definition sample_identity :: serverIdentity where
  "sample_identity = \<lparr>si_addr = ''h'', si_port = ''1'', si_key = ''k''\<rparr>"

definition sample_mux :: "int \<Rightarrow> mux" where
  "sample_mux maxActive = SetMaxConcurrentChannels (NewMuxConnWithHandshake 1 False True 5 7 (MathRand 0) (MathRand 0)) maxActive"

definition sample_client :: client where
  "sample_client =
     \<lparr>cl_cms = (\<lambda>_. \<lparr>cm_mc = sample_mux 32, cm_serverIdentity = sample_identity, cm_intentionalClose = False, cm_serverAcked = False, cm_responseTimeouts = 0\<rparr>),
      cl_muxConns = [3], cl_stats = Map.empty, cl_servers = [], cl_tcpCreations = (\<lambda>_. []), cl_creations = Map.empty, cl_fresh = 0\<rparr>"

theorem batch_served_witness:
  "\<exists>c. batch c [(0, 0, True), (0, 1, False)] Map.empty \<and> distinct (map (\<lambda>(p, s, l). (p, s)) [(0 :: nat, 0 :: nat, True), (0, 1, False)])"
proof -
  have "batch sample_client [] Map.empty" by (rule batch_start) (simp_all add: sample_client_def)
  then have "batch (fst (joinTCPMuxCreationLocked sample_client sample_identity)) ([] @ [(0, 0, True)]) Map.empty"
    by (rule batch_join [where i = sample_identity]) (simp add: joinTCPMuxCreationLocked_def sample_client_def Let_def)
  then have "batch (fst (joinTCPMuxCreationLocked (fst (joinTCPMuxCreationLocked sample_client sample_identity)) sample_identity)) (([] @ [(0, 0, True)]) @ [(0, 1, False)]) Map.empty"
    by (rule batch_join [where i = sample_identity]) (simp add: joinTCPMuxCreationLocked_def sample_client_def Let_def tcpMuxCreationBatchSize_def)
  with batch_served [OF this] show ?thesis by auto
qed

lemma sample_usable: "CanAllocChannel (sample_mux 32) 7" "IsClosed (sample_mux 32) = False" "healthy_now Map.empty sample_identity 7"
proof -
  show "CanAllocChannel (sample_mux 32) 7" "IsClosed (sample_mux 32) = False"
    by (simp_all add: sample_mux_def NewMuxConnWithHandshake_def SetMaxConcurrentChannels_def CanAllocChannel_def IsInvalid_def IsClosed_def
        maxChannelAllocationsLocked_def channelAllocationAgeExpiredLocked_def maxConcurrentChannelsLocked_def Let_def
        MaxConcurrentChannels_def MaxConfigurableChannelAllocations_def MaxChannelAllocations_def)
  have "decayServerHealthLocked (newServerHealth 7) 7 = newServerHealth 7"
    by (simp add: decayServerHealthLocked_def Let_def decay_loop_stop newServerHealth_def health_consts seconds_def)
  then show "healthy_now Map.empty sample_identity 7"
    by (simp add: healthy_now_def statsForLocked_def normalizedHealthClass_def serverCanRetry_def newServerHealth_def)
qed

theorem reuse_best_witness:
  "\<exists>c' p a. tryExistingTCPChannel sample_client (\<lambda>_. 5) 7 (MathRand 0) = (c', Some (p, a)) \<and> p = 3"
proof -
  obtain c' r where t: "tryExistingTCPChannel sample_client (\<lambda>_. 5) 7 (MathRand 0) = (c', r)" by fastforce
  have "pruneClosedMuxConnsLocked sample_client 7 = sample_client"
    using sample_usable(2) by (simp add: pruneClosedMuxConnsLocked_def sample_client_def)
  then have u: "{p \<in> set (cl_muxConns sample_client). \<not> IsClosed (mc_of sample_client p) \<and> mux_usable (pruneClosedMuxConnsLocked sample_client 7) 7 p} = {3}"
    using sample_usable by (auto simp: mux_usable_def) (auto simp: sample_client_def)
  note W = reuse_best [OF t refl refl, unfolded u]
  show ?thesis using W t by (cases r) auto
qed

lemma reserve_closed: "snd (reserve_channels mx n now e got) = Inl err \<Longrightarrow> mx_closed (fst (reserve_channels mx n now e got))"
proof (induction mx n now e got rule: reserve_channels.induct)
  case (2 mx n now e got)
  have "mx_closed (Mux_Close m)" for m
    by (simp add: Mux_Close_def Let_def close_channels_def)
  then show ?case using 2 by (auto split: prod.splits sum.splits)
qed simp

lemma reserve_within_limit:
  "reserve_channels mx n now e got = (mx', Inr chans) \<Longrightarrow> 0 < n \<Longrightarrow> mx_activeCount mx + int n \<le> maxConcurrentChannelsLocked mx"
proof (induction mx n now e got rule: reserve_channels.induct)
  case (2 mx n now e got)
  obtain mx1 r where a: "AllocChannel mx now e = (mx1, r)" by fastforce
  then obtain x where r: "r = Inr x" using 2(2) by (cases r) auto
  note S = AllocChannel_success [OF a [unfolded r]]
  have m: "mx_activeCount mx1 = mx_activeCount mx + 1" "maxConcurrentChannelsLocked mx1 = maxConcurrentChannelsLocked mx"
    by (simp_all add: S(3) addChannel_def Let_def split_beta maxConcurrentChannelsLocked_def)
  have "mx_activeCount mx < maxConcurrentChannelsLocked mx" using S(1) by (simp add: CanAllocChannel_def)
  then show ?case using 2(1) [OF a [symmetric] r] 2(2) a r m by (cases n) auto
qed simp

text \<open>
  C36. A batch may be larger than what its connection can carry, and then nobody is served.  Whenever the batch has more
  requests than the connection has room for active channels, the reservation fails as a whole and the connection is
  closed.  A limit of seven is accepted by the configuration, while a batch takes up to sixteen requests.
\<close>

theorem batch_over_limit:
  assumes "maxConcurrentChannelsLocked mx < mx_activeCount mx + int n" and "0 < n"
  shows "\<exists>err. snd (reserve_channels mx n now e []) = Inl err \<and> mx_closed (fst (reserve_channels mx n now e []))"
proof (cases "snd (reserve_channels mx n now e [])")
  case (Inl err)
  then show ?thesis using reserve_closed by blast
next
  case (Inr chans)
  then show ?thesis using reserve_within_limit [of mx n now e "[]" "fst (reserve_channels mx n now e [])" chans] assms by (simp add: prod_eq_iff)
qed

theorem batch_over_limit_witness:
  "8 \<le> tcpMuxCreationBatchSize \<and> mx_closed (fst (reserve_channels (sample_mux 7) 8 7 (MathRand 0) []))"
proof -
  have "maxConcurrentChannelsLocked (sample_mux 7) = 7" "mx_activeCount (sample_mux 7) = 0"
    by (simp_all add: sample_mux_def NewMuxConnWithHandshake_def SetMaxConcurrentChannels_def maxConcurrentChannelsLocked_def Let_def
        MaxConcurrentChannels_def MaxConfigurableChannelAllocations_def)
  then show ?thesis using batch_over_limit [of "sample_mux 7" 8 7 "MathRand 0"] by (simp add: tcpMuxCreationBatchSize_def)
qed

end
