(* ===== verification/ReverseControl.thy ===== *)
theory ReverseControl
  imports FirstPacket Acl
begin

text \<open>
  Registration of reverse routes (\<^verbatim>\<open>cmd/server/reverse_control.go\<close>): the update of a reverse upstream is cut into
  frames, the server puts them together for each connection, checks the permission, registers the routes, and both ends
  switch to the obfuscation pool of the user's password.  The requests to the writer of a connection
  (\<^verbatim>\<open>processWriteRequest\<close> of \<^verbatim>\<open>pkg/mux/send_packet.go\<close>) and \<^verbatim>\<open>SwitchObfPoolFromUserPassword\<close> of
  \<^verbatim>\<open>pkg/mux/auth.go\<close> are here because this is their only user.
\<close>

section \<open>Writer requests and the pool switch\<close>

datatype muxWriteRequest = muxWritePacket byte bytes "Pool option" | muxWriteSwitchSendPool "Pool option" | muxWriteBarrier

definition processWriteRequest ::
  "codec_env \<Rightarrow> codec \<Rightarrow> muxWriteRequest \<Rightarrow> bytes \<Rightarrow> u32 \<Rightarrow> bool \<Rightarrow> nat \<Rightarrow> (send_error + bytes) \<times> codec \<times> nat" where
  "processWriteRequest ce kd req tsPayload utc writeOk pos =
     (case req of
        muxWritePacket channelID payload nextPool \<Rightarrow> sendPacketNow ce kd channelID payload nextPool tsPayload utc writeOk pos
      | muxWriteSwitchSendPool None \<Rightarrow> (Inl SendBadRequest, kd, pos)
      | muxWriteSwitchSendPool (Some pool) \<Rightarrow> (Inr [], kd\<lparr>kd_sendObfPool := Some pool\<rparr>, pos)
      | muxWriteBarrier \<Rightarrow> (Inr [], kd, pos))"

text \<open>The receiver changes at once, the sender when the writer comes to the request; None is the generator that does not end.\<close>

definition SwitchObfPoolFromUserPassword :: "primitives \<Rightarrow> codec \<Rightarrow> string \<Rightarrow> (codec \<times> muxWriteRequest) option" where
  "SwitchObfPoolFromUserPassword pr kd password =
     (case ObfPoolFromUserPassword pr kd password of
        None \<Rightarrow> None
      | Some nextPool \<Rightarrow> Some (kd\<lparr>kd_recvObfPool := Some nextPool\<rparr>, muxWriteSwitchSendPool (Some nextPool)))"

section \<open>Frames\<close>

definition reverseRouteMinFragmentSize :: nat where "reverseRouteMinFragmentSize = 8 * 1024"
definition reverseRouteMaxFragmentSize :: nat where "reverseRouteMaxFragmentSize = 16 * 1024"
definition reverseRouteFrameHeaderSize :: nat where "reverseRouteFrameHeaderSize = 3"
definition reverseRouteMaxJSONSize :: nat where "reverseRouteMaxJSONSize = 1048576"

lemmas frame_consts = reverseRouteMinFragmentSize_def reverseRouteMaxFragmentSize_def reverseRouteFrameHeaderSize_def
  reverseRouteMaxJSONSize_def

datatype frame_error = FrameTooShort | InvalidMoreFlag | FragmentLengthMismatch | JSONTooLarge

text \<open>The buffers of the receiver, by connection.\<close>

type_synonym reverseRouteReceiver = "nat \<rightharpoonup> bytes"

definition newReverseRouteReceiver :: reverseRouteReceiver where
  "newReverseRouteReceiver = Map.empty"

definition recv_reset :: "reverseRouteReceiver \<Rightarrow> nat \<Rightarrow> reverseRouteReceiver" where
  "recv_reset r mc = r(mc := None)"

definition appendFrame :: "reverseRouteReceiver \<Rightarrow> nat \<Rightarrow> bytes \<Rightarrow> (frame_error + bytes option) \<times> reverseRouteReceiver" where
  "appendFrame r mc payload =
     (if length payload < reverseRouteFrameHeaderSize then (Inl FrameTooShort, r)
      else
        (let fragLen = unat (get16 (take 2 payload)); hasMore = payload ! 2
         in if hasMore \<noteq> 0 \<and> hasMore \<noteq> 1 then (Inl InvalidMoreFlag, r)
            else if length (drop 3 payload) \<noteq> fragLen then (Inl FragmentLengthMismatch, r)
            else
              (let buf = (case r mc of None \<Rightarrow> [] | Some b \<Rightarrow> b) @ drop 3 payload
               in if reverseRouteMaxJSONSize < length buf then (Inl JSONTooLarge, r(mc := None))
                  else if hasMore = 1 then (Inr None, r(mc \<mapsto> buf))
                  else (Inr (Some buf), r(mc := None)))))"

text \<open>
  The frames of an update: the payload, and whether more follow.  The source does not end for fragments of size 0, which
  \<open>randomReverseRouteFragmentSize\<close> never returns.
\<close>

function route_frames :: "nat \<Rightarrow> bytes \<Rightarrow> (bytes \<times> bool) list" where
  "route_frames split d =
     (if d = [] \<or> split = 0 then []
      else
        (let frag = take split d; rest = drop split d; hasMore = (rest \<noteq> [])
         in (put16 (word_of_nat (length frag)) @ [if hasMore then 1 else 0] @ frag, hasMore) # route_frames split rest))"
  by pat_completeness auto
termination
  by (relation "measure (\<lambda>(split, d). length d)") auto

declare route_frames.simps [simp del]

text \<open>The two random bytes, or the fallback generator.\<close>

definition randomReverseRouteFragmentSize :: "u16 option \<Rightarrow> nat \<Rightarrow> nat" where
  "randomReverseRouteFragmentSize b fallback =
     (let span = reverseRouteMaxFragmentSize - reverseRouteMinFragmentSize + 1
      in reverseRouteMinFragmentSize + (case b of None \<Rightarrow> fallback mod span | Some w \<Rightarrow> unat w mod span))"

fun queue_frames :: "('q \<Rightarrow> muxWriteRequest \<Rightarrow> bool \<times> 'q) \<Rightarrow> Pool \<Rightarrow> 'q \<Rightarrow> (bytes \<times> bool) list \<Rightarrow> bool \<times> 'q" where
  "queue_frames queue nextPool q [] = (True, q)"
| "queue_frames queue nextPool q ((payload, hasMore) # fs) =
     (case queue q (muxWritePacket ReverseRouteChannelID payload (if hasMore then None else Some nextPool)) of
        (False, q') \<Rightarrow> (False, q')
      | (True, q') \<Rightarrow> queue_frames queue nextPool q' fs)"

text \<open>The encoded update \<open>d\<close> and the queue of the writer are arguments.\<close>

definition sendReverseRouteUpdate ::
  "primitives \<Rightarrow> codec \<Rightarrow> ('q \<Rightarrow> muxWriteRequest \<Rightarrow> bool \<times> 'q) \<Rightarrow> bytes \<Rightarrow> string \<Rightarrow> nat \<Rightarrow> 'q \<Rightarrow> (bool \<times> 'q) option" where
  "sendReverseRouteUpdate pr kd queue d password split q =
     (if reverseRouteMaxJSONSize < length d then Some (False, q)
      else
        (case ObfPoolFromUserPassword pr kd password of
           None \<Rightarrow> None
         | Some nextPool \<Rightarrow> Some (queue_frames queue nextPool q (route_frames split d))))"

section \<open>The handler\<close>

record reverse_state =
  rv_recv :: reverseRouteReceiver
  rv_routes :: "reverseRouteEntry list"

text \<open>
  What the handler did: the registration is denied, the frame or the update is bad, more frames are awaited, the routes
  are registered, or the request to switch could not be queued.
\<close>

datatype route_outcome = RouteDenied | RouteInvalid | RouteMore | RouteRegistered | RouteSwitchFailed

definition configureReverseMuxCapacity :: "mux \<Rightarrow> mux" where
  "configureReverseMuxCapacity mx =
     SetMaxConcurrentChannels (SetMaxChannelAllocations mx MaxConfigurableChannelAllocations) MaxConfigurableChannelAllocations"

text \<open>\<open>drain\<close> is the drawn number of bytes that an invalid connection still reads (see \<open>SetInvalid\<close>).\<close>

definition denyReverseRouteRegistration :: "reverse_state \<Rightarrow> mux \<Rightarrow> nat \<Rightarrow> int \<Rightarrow> time \<Rightarrow> reverse_state \<times> mux" where
  "denyReverseRouteRegistration rv mx mc drain now = (rv\<lparr>rv_recv := recv_reset (rv_recv rv) mc\<rparr>, SetInvalid mx ReasonUserAuth drain now)"

text \<open>
  The users may change while the handler runs: \<open>s\<close> is the table at the first check and \<open>s'\<close> at the registration.  The
  decoder of the update and the queue of the writer are arguments.
\<close>

definition handleReverseRoutePacket ::
  "primitives \<Rightarrow> (bytes \<Rightarrow> ReverseRouteConfig option) \<Rightarrow> ('q \<Rightarrow> muxWriteRequest \<Rightarrow> bool \<times> 'q) \<Rightarrow> bool \<Rightarrow> aclServer \<Rightarrow> aclServer \<Rightarrow>
     nat \<Rightarrow> bytes \<Rightarrow> int \<Rightarrow> time \<Rightarrow> reverse_state \<times> codec \<times> mux \<times> 'q \<Rightarrow> (route_outcome \<times> reverse_state \<times> codec \<times> mux \<times> 'q) option" where
  "handleReverseRoutePacket pr unmarshal queue allowed s s' mc payload drain now st =
     (case st of (rv, kd, mx, q) \<Rightarrow>
        if withReverseRoutePermission s allowed (kd_userName kd) = None
        then (case denyReverseRouteRegistration rv mx mc drain now of (rv', mx') \<Rightarrow> Some (RouteDenied, rv', kd, mx', q))
        else
          (case appendFrame (rv_recv rv) mc payload of
             (Inl e, r) \<Rightarrow> Some (RouteInvalid, rv\<lparr>rv_recv := r\<rparr>, kd, SetInvalid mx ReasonRequestDecode drain now, q)
           | (Inr None, r) \<Rightarrow> Some (RouteMore, rv\<lparr>rv_recv := r\<rparr>, kd, mx, q)
           | (Inr (Some d), r) \<Rightarrow>
               (let rv1 = rv\<lparr>rv_recv := r\<rparr>
                in case unmarshal d of
                     None \<Rightarrow> Some (RouteInvalid, rv1, kd, SetInvalid mx ReasonRequestDecode drain now, q)
                   | Some update \<Rightarrow>
                       (case compileReverseRouteConfig update of
                          Inl e \<Rightarrow> Some (RouteInvalid, rv1, kd, SetInvalid mx ReasonRequestDecode drain now, q)
                        | Inr route \<Rightarrow>
                            (case withReverseRoutePermission s' allowed (kd_userName kd) of
                               None \<Rightarrow>
                                 (case denyReverseRouteRegistration rv1 mx mc drain now of (rv', mx') \<Rightarrow> Some (RouteDenied, rv', kd, mx', q))
                             | Some password \<Rightarrow>
                                 (let mx1 = configureReverseMuxCapacity mx;
                                      rv2 = rv1\<lparr>rv_routes := register (rv_routes rv1) mc route\<rparr>
                                  in case SwitchObfPoolFromUserPassword pr kd password of
                                       None \<Rightarrow> None
                                     | Some (kd1, req) \<Rightarrow>
                                         (case queue q req of
                                            (True, q1) \<Rightarrow> Some (RouteRegistered, rv2, kd1, mx1, q1)
                                          | (False, q1) \<Rightarrow>
                                              Some (RouteSwitchFailed, rv2\<lparr>rv_routes := removeMux (rv_routes rv2) mc\<rparr>,
                                                kd1, Mux_Close mx1, q1))))))))"

section \<open>Frames come back whole\<close>

lemma fragment_size: "randomReverseRouteFragmentSize b f \<in> {8192..16384}"
  using mod_less_divisor [of 8193 f] mod_less_divisor [of 8193 "unat (the b)"]
  by (auto simp: randomReverseRouteFragmentSize_def frame_consts Let_def split: option.split)

lemma appendFrame_other: "mc' \<noteq> mc \<Longrightarrow> snd (appendFrame r mc' p) mc = r mc"
  by (simp add: appendFrame_def Let_def)

lemma appendFrame_frame:
  assumes "length frag < 65536" and "b = (case r mc of None \<Rightarrow> [] | Some b \<Rightarrow> b)" and "length b + length frag \<le> reverseRouteMaxJSONSize"
  shows "appendFrame r mc (put16 (word_of_nat (length frag)) @ [if hasMore then 1 else 0] @ frag) =
    (if hasMore then (Inr None, r(mc \<mapsto> b @ frag)) else (Inr (Some (b @ frag)), r(mc := None)))"
proof -
  have "unat (word_of_nat (length frag) :: u16) = length frag" using assms(1) by (simp add: unat_of_nat take_bit_nat_eq_self)
  then show ?thesis
    using assms by (auto simp: appendFrame_def Let_def frame_consts nth_append not_less)
qed

fun recv_all :: "reverseRouteReceiver \<Rightarrow> (nat \<times> bytes) list \<Rightarrow> (nat \<times> (frame_error + bytes option)) list \<times> reverseRouteReceiver" where
  "recv_all r [] = ([], r)"
| "recv_all r ((mc, p) # es) =
     (let (x, r1) = appendFrame r mc p; (xs, r2) = recv_all r1 es in ((mc, x) # xs, r2))"

abbreviation of_mux :: "nat \<Rightarrow> (nat \<times> 'a) list \<Rightarrow> 'a list" where
  "of_mux mc es \<equiv> map snd (filter (\<lambda>e. fst e = mc) es)"

lemma recv_all_other: "of_mux mc es = [] \<Longrightarrow> of_mux mc (fst (recv_all r es)) = [] \<and> snd (recv_all r es) mc = r mc"
proof (induction es arbitrary: r)
  case (Cons e es)
  obtain m p where e: "e = (m, p)" by fastforce
  with Cons.prems have m: "m \<noteq> mc" "of_mux mc es = []" by (auto split: if_splits)
  obtain x r1 where a: "appendFrame r m p = (x, r1)" by fastforce
  have "r1 mc = r mc" using appendFrame_other [OF m(1), of r p] a by simp
  then show ?case using Cons.IH [OF m(2), of r1] m(1) by (simp add: e a split_beta)
qed simp

lemma frames_received:
  assumes split: "0 < split" "split < 65536"
  shows "d \<noteq> [] \<Longrightarrow> length b + length d \<le> reverseRouteMaxJSONSize \<Longrightarrow> b = (case r mc of None \<Rightarrow> [] | Some b \<Rightarrow> b) \<Longrightarrow>
    of_mux mc es = map fst (route_frames split d) \<Longrightarrow>
    of_mux mc (fst (recv_all r es)) = replicate (length (route_frames split d) - 1) (Inr None) @ [Inr (Some (b @ d))] \<and>
      snd (recv_all r es) mc = None"
proof (induction es arbitrary: r d b)
  case Nil
  then show ?case using split by (simp add: route_frames.simps [of split d] Let_def)
next
  case (Cons e es)
  obtain m p where e: "e = (m, p)" by fastforce
  obtain x r1 where a: "appendFrame r m p = (x, r1)" by fastforce
  show ?case
  proof (cases "m = mc")
    case False
    then have "r1 mc = r mc" using appendFrame_other [OF False, of r p] a by simp
    then show ?thesis using Cons.IH [OF Cons.prems(1,2), of r1] Cons.prems(3,4) False by (simp add: e a split_beta)
  next
    case True
    define frag where "frag = take split d"
    define rest where "rest = drop split d"
    have d: "d = frag @ rest" by (simp add: frag_def rest_def)
    have l: "length d = length frag + length rest" "length frag \<le> split" by (simp_all add: frag_def rest_def)
    have F: "route_frames split d = (put16 (word_of_nat (length frag)) @ [if rest \<noteq> [] then 1 else 0] @ frag, rest \<noteq> []) # route_frames split rest"
      using split Cons.prems(1) by (simp add: route_frames.simps [of split d] Let_def frag_def rest_def)
    have p: "p = put16 (word_of_nat (length frag)) @ [if rest \<noteq> [] then 1 else 0] @ frag" "of_mux mc es = map fst (route_frames split rest)"
      using Cons.prems(4) True by (simp_all add: e F)
    have A: "appendFrame r mc p = (if rest \<noteq> [] then (Inr None, r(mc \<mapsto> b @ frag)) else (Inr (Some (b @ frag)), r(mc := None)))"
      unfolding p(1) by (rule appendFrame_frame) (use split Cons.prems(2,3) l in simp_all)
    show ?thesis
    proof (cases "rest = []")
      case True
      then have "route_frames split rest = []" by (subst route_frames.simps) simp
      then show ?thesis using recv_all_other [of mc es r1] a A p(2) \<open>m = mc\<close> True F arg_cong [OF d, of "\<lambda>x. b @ x"] by (auto simp: e split_beta)
    next
      case False
      then have ne: "0 < length (route_frames split rest)" using split by (simp add: route_frames.simps [of split rest] Let_def)
      have "length (b @ frag) + length rest \<le> reverseRouteMaxJSONSize" using Cons.prems(2) l by simp
      moreover have r1: "x = Inr None" "r1 = r(mc \<mapsto> b @ frag)" using a A \<open>m = mc\<close> False by simp_all
      ultimately have "of_mux mc (fst (recv_all r1 es)) = replicate (length (route_frames split rest) - 1) (Inr None) @ [Inr (Some ((b @ frag) @ rest))] \<and>
          snd (recv_all r1 es) mc = None"
        by (intro Cons.IH [OF False _ _ p(2)]) simp_all
      then show ?thesis using a r1 \<open>m = mc\<close> ne F arg_cong [OF d, of "\<lambda>x. b @ x"]
        by (cases "length (route_frames split rest)") (simp_all add: e split_beta del: map_filter_map_filter)
    qed
  qed
qed

lemma frame_sizes:
  assumes "split \<le> 16384"
  shows "(p, m) \<in> set (route_frames split d) \<Longrightarrow> length p \<le> MaxPacketPayloadSize"
  using assms
proof (induction split d rule: route_frames.induct)
  case (1 split d)
  then show ?case
    by (subst (asm) (2) route_frames.simps) (auto simp: Let_def obf_consts MaxPacketSize_def split: if_splits)
qed

section \<open>The switch of the pool\<close>

text \<open>All but the last frame say that more follow.\<close>

lemma frames_shape:
  "0 < split \<Longrightarrow> d \<noteq> [] \<Longrightarrow> \<exists>ps p. route_frames split d = map (\<lambda>p. (p, True)) ps @ [(p, False)]"
proof (induction split d rule: route_frames.induct)
  case (1 split d)
  define rest where "rest = drop split d"
  obtain f where f: "route_frames split d = (f, rest \<noteq> []) # route_frames split rest"
    using 1(2,3) by (simp add: route_frames.simps [of split d] Let_def rest_def)
  show ?case
  proof (cases "rest = []")
    case True
    then have "route_frames split rest = []" by (subst route_frames.simps) simp
    then show ?thesis using f True by (intro exI [of _ "[]"] exI [of _ f]) simp
  next
    case False
    then obtain ps p where "route_frames split rest = map (\<lambda>p. (p, True)) ps @ [(p, False)]"
      using 1(1) [OF _ refl refl refl] 1(2,3) by (auto simp: rest_def)
    then show ?thesis using f False by (intro exI [of _ "f # ps"] exI [of _ p]) simp
  qed
qed

lemma queue_frames_append: "queue_frames (\<lambda>q r. (True, q @ [r])) pool q fs =
    (True, q @ map (\<lambda>(p, m). muxWritePacket ReverseRouteChannelID p (if m then None else Some pool)) fs)"
  by (induction fs arbitrary: q) auto

fun write_all :: "codec_env \<Rightarrow> codec \<Rightarrow> muxWriteRequest list \<Rightarrow> nat \<Rightarrow> (bytes \<times> codec \<times> nat) option" where
  "write_all ce kd [] pos = Some ([], kd, pos)"
| "write_all ce kd (r # rs) pos =
     (case processWriteRequest ce kd r [] 0 True pos of
        (Inl e, _) \<Rightarrow> None
      | (Inr out, kd1, pos1) \<Rightarrow>
          (case write_all ce kd1 rs pos1 of
             None \<Rightarrow> None
           | Some (out', kd2, pos2) \<Rightarrow> Some (out @ out', kd2, pos2)))"

lemma write_all_append:
  "write_all ce kd rs pos = Some (out, kd1, pos1) \<Longrightarrow> write_all ce kd1 rs' pos1 = Some (out', kd2, pos2) \<Longrightarrow>
    write_all ce kd (rs @ rs') pos = Some (out @ out', kd2, pos2)"
  by (induction rs arbitrary: kd pos out) (auto split: prod.splits sum.splits option.splits)

lemma write_all_send_all:
  "send_all ce kd (map (Pair c) ps) pos = Some x \<Longrightarrow> write_all ce kd (map (\<lambda>p. muxWritePacket c p None) ps) pos = Some x"
  by (induction ps arbitrary: kd pos x) (auto simp: processWriteRequest_def split: prod.splits sum.splits option.splits)

lemma read_packets_append:
  "read_packets m pr add sched now rs = Some (xs, rs1) \<Longrightarrow> read_packets n pr add sched now rs1 = Some (ys, rs2) \<Longrightarrow>
    read_packets (m + n) pr add sched now rs = Some (xs @ ys, rs2)"
  by (induction m arbitrary: rs xs) (auto split: prod.splits option.splits read_outcome.splits)

lemma sendPacketNow_next:
  assumes "sendPacketNow ce s c payload None ts utc True pos = (Inr out, s', pos')"
  shows "sendPacketNow ce s c payload (Some pool) ts utc True pos = (Inr out, s'\<lparr>kd_sendObfPool := Some pool, kd_recvObfPool := Some pool\<rparr>, pos')"
  using assms by (auto simp: sendPacketNow_def store_next_pool_def Let_def split: option.splits prod.splits if_splits sum.splits)

lemma pool_switched:
  assumes "in_step s r" and "pool_ok pool" and "s' = s\<lparr>kd_sendObfPool := Some pool, kd_recvObfPool := p1\<rparr>"
    and "r' = r\<lparr>kd_recvObfPool := Some pool, kd_sendObfPool := p2\<rparr>"
  shows "in_step s' r'"
  using assms by (auto simp: in_step_def)

lemma frames_transfer:
  assumes pr: "primitives_ok (ce_pr ce)" and step: "in_step up (rs_kd rs)"
    and len: "\<forall>(c, payload) \<in> set (map (Pair c) ps). length payload \<le> MaxPacketPayloadSize" "length p \<le> MaxPacketPayloadSize"
  shows "\<exists>out s2 pos' r2.
    write_all ce up (map (\<lambda>p. muxWritePacket c p None) ps @ [muxWritePacket c p (Some pool)]) pos =
      Some (out, s2\<lparr>kd_sendObfPool := Some pool, kd_recvObfPool := Some pool\<rparr>, pos') \<and>
    read_packets (length ps + 1) (ce_pr ce) add sched now (rs\<lparr>rs_inp := out @ rest\<rparr>) =
      Some (map (Pair c) (ps @ [p]), rs\<lparr>rs_kd := r2, rs_inp := rest\<rparr>) \<and>
    in_step s2 r2 \<and> send_same up s2 \<and> read_same (rs_kd rs) r2"
proof -
  let ?pr = "ce_pr ce"
  obtain out1 s1 pos1 where S1: "send_all ce up (map (Pair c) ps) pos = Some (out1, s1, pos1)"
    using stream_roundtrip [OF pr step len(1), of pos add sched now] by blast
  have R1: "\<exists>r1. read_packets (length ps) ?pr add sched now (rs\<lparr>rs_inp := out1 @ rest'\<rparr>) = Some (map (Pair c) ps, rs\<lparr>rs_kd := r1, rs_inp := rest'\<rparr>) \<and>
      in_step s1 r1 \<and> send_same up s1 \<and> read_same (rs_kd rs) r1" for rest'
    using stream_roundtrip [OF pr step len(1), of pos add sched now rest'] S1 by auto
  obtain out2 s2 pos2' where S2: "sendPacketNow ce s1 c p None [] 0 True pos1 = (Inr out2, s2, pos2')"
    using R1 mux_packet_roundtrip [OF pr _ len(2), where rs = "rs\<lparr>rs_kd := x\<rparr>" for x, simplified] by blast
  obtain r1 where r1: "read_packets (length ps) ?pr add sched now (rs\<lparr>rs_inp := out1 @ out2 @ rest\<rparr>) =
      Some (map (Pair c) ps, rs\<lparr>rs_kd := r1, rs_inp := out2 @ rest\<rparr>)" "in_step s1 r1" "send_same up s1" "read_same (rs_kd rs) r1"
    using R1 [of "out2 @ rest"] by blast
  obtain r2 where r2: "read_packet ?pr add sched now (rs\<lparr>rs_kd := r1, rs_inp := out2 @ rest\<rparr>) =
      Some (ReadPacket c p (length out2), rs\<lparr>rs_kd := r2, rs_inp := rest\<rparr>)" "in_step s2 r2" "send_same s1 s2" "read_same r1 r2"
    using mux_packet_roundtrip [OF pr _ len(2), where rs = "rs\<lparr>rs_kd := r1\<rparr>" and s = s1 and c = c and ts = "[]" and utc = 0 and pos = pos1 and rest = rest
        and add = add and sched = sched and now = now] r1(2) S2 by auto
  have W: "write_all ce up (map (\<lambda>p. muxWritePacket c p None) ps @ [muxWritePacket c p (Some pool)]) pos =
      Some (out1 @ out2, s2\<lparr>kd_sendObfPool := Some pool, kd_recvObfPool := Some pool\<rparr>, pos2')"
    by (rule write_all_append [OF write_all_send_all [OF S1]]) (simp add: processWriteRequest_def sendPacketNow_next [OF S2])
  have "read_packets 1 ?pr add sched now (rs\<lparr>rs_kd := r1, rs_inp := out2 @ rest\<rparr>) = Some ([(c, p)], rs\<lparr>rs_kd := r2, rs_inp := rest\<rparr>)"
    using r2(1) by simp
  note R = read_packets_append [OF r1(1) this]
  have same: "send_same up s2" "read_same (rs_kd rs) r2" using same_trans r1(3,4) r2(3,4) by blast+
  show ?thesis using W R r2(2) same by (intro exI [of _ "out1 @ out2"] exI [of _ s2] exI [of _ pos2'] exI [of _ r2]) simp
qed

text \<open>The upstream writes an update: all its frames are sent, and the server reads exactly these.\<close>

lemma update_written:
  assumes "primitives_ok (ce_pr ce)" and "in_step up (rs_kd rs)" and "d \<noteq> []" and "length d \<le> reverseRouteMaxJSONSize"
    and "split = randomReverseRouteFragmentSize b fallback" and "ObfPoolFromUserPassword (ce_pr ce) up password = Some pool"
  shows "\<exists>reqs out s2 pos' r2. sendReverseRouteUpdate (ce_pr ce) up (\<lambda>q r. (True, q @ [r])) d password split [] = Some (True, reqs) \<and>
    write_all ce up reqs pos = Some (out, s2\<lparr>kd_sendObfPool := Some pool, kd_recvObfPool := Some pool\<rparr>, pos') \<and>
    read_packets (length (route_frames split d)) (ce_pr ce) add sched now (rs\<lparr>rs_inp := out @ rest\<rparr>) =
      Some (map (Pair ReverseRouteChannelID \<circ> fst) (route_frames split d), rs\<lparr>rs_kd := r2, rs_inp := rest\<rparr>) \<and>
    in_step s2 r2 \<and> send_same up s2 \<and> read_same (rs_kd rs) r2"
proof -
  let ?pr = "ce_pr ce" and ?c = ReverseRouteChannelID
  have sp: "0 < split" "split \<le> 16384" using fragment_size [of b fallback] assms(5) by auto
  obtain ps p where fs: "route_frames split d = map (\<lambda>p. (p, True)) ps @ [(p, False)]" using frames_shape [OF sp(1) assms(3)] by blast
  have len: "\<forall>(c, payload) \<in> set (map (Pair ?c) ps). length payload \<le> MaxPacketPayloadSize" "length p \<le> MaxPacketPayloadSize"
    using frame_sizes [OF sp(2), of _ _ d] fs by auto
  let ?reqs = "map (\<lambda>p. muxWritePacket ?c p None) ps @ [muxWritePacket ?c p (Some pool)]"
  have send: "sendReverseRouteUpdate ?pr up (\<lambda>q r. (True, q @ [r])) d password split [] = Some (True, ?reqs)"
    using assms(4,6) by (simp add: sendReverseRouteUpdate_def queue_frames_append fs comp_def)
  have fr: "map (Pair ?c \<circ> fst) (route_frames split d) = map (Pair ?c) (ps @ [p])" "length (route_frames split d) = length ps + 1"
    by (simp_all add: fs comp_def)
  show ?thesis
    unfolding fr using send frames_transfer [OF assms(1,2) len, of pool pos add sched now rest] by blast
qed

text \<open>
  C30. An update of reverse routes arrives whole, and the pool is handed over.  Both directions between upstream and
  server are in step, both ends use the same server key and header type, and the server holds no frame of this connection.
  Then for every encoded update up to the size
  limit and every fragment size that the generator can return: all frames fit a packet and are written, the server reads
  exactly these packets and no byte more, and however the frames of other connections, good or bad, come between them, its
  receiver puts exactly the update together at the last frame and keeps no buffer of the connection.  When the server then
  switches to the pool of the same password, what it receives from the upstream is in step at
  once; what it sends is in step as soon as its writer has handled the request, if it has sent nothing since the upstream
  wrote the last frame (what it sends in between is the subject of \<open>handover_gap_refused\<close>).
\<close>

theorem reverse_pool_handover:
  assumes "primitives_ok (ce_pr ce)" and "in_step up (rs_kd rs)" and "in_step (rs_kd rs) up"
    and "kd_headerKey up = kd_headerKey (rs_kd rs)" and "kd_headerType up = kd_headerType (rs_kd rs)"
    and "d \<noteq> []" and "length d \<le> reverseRouteMaxJSONSize" and "split = randomReverseRouteFragmentSize b fallback"
    and "ObfPoolFromUserPassword (ce_pr ce) up password = Some pool" and "r mc = None"
  shows "\<exists>reqs out up' pos' frames sv sv1 req.
    sendReverseRouteUpdate (ce_pr ce) up (\<lambda>q r. (True, q @ [r])) d password split [] = Some (True, reqs) \<and>
    write_all ce up reqs pos = Some (out, up', pos') \<and>
    read_packets (length frames) (ce_pr ce) add sched now (rs\<lparr>rs_inp := out @ rest\<rparr>) =
      Some (map (Pair ReverseRouteChannelID) frames, rs\<lparr>rs_kd := sv, rs_inp := rest\<rparr>) \<and>
    (\<forall>es. of_mux mc es = frames \<longrightarrow>
      of_mux mc (fst (recv_all r es)) = replicate (length frames - 1) (Inr None) @ [Inr (Some d)] \<and> snd (recv_all r es) mc = None) \<and>
    SwitchObfPoolFromUserPassword (ce_pr ce) sv password = Some (sv1, req) \<and> in_step up' sv1 \<and>
    (\<exists>sv2. processWriteRequest ce sv1 req [] 0 True pos2 = (Inr [], sv2, pos2) \<and> in_step up' sv2 \<and> in_step sv2 up')"
proof -
  let ?pr = "ce_pr ce"
  have sp: "0 < split" "split \<le> 16384" using fragment_size [of b fallback] assms(8) by auto
  have pok: "pool_ok pool" using assms(9) unfolding ObfPoolFromUserPassword_def by (rule GeneratePool_ok)
  define frames where "frames = map fst (route_frames split d)"
  obtain reqs out s2 pos' r2 where
      send: "sendReverseRouteUpdate ?pr up (\<lambda>q r. (True, q @ [r])) d password split [] = Some (True, reqs)" and
      T: "write_all ce up reqs pos = Some (out, s2\<lparr>kd_sendObfPool := Some pool, kd_recvObfPool := Some pool\<rparr>, pos')"
      "read_packets (length frames) ?pr add sched now (rs\<lparr>rs_inp := out @ rest\<rparr>) =
        Some (map (Pair ReverseRouteChannelID) frames, rs\<lparr>rs_kd := r2, rs_inp := rest\<rparr>)"
      "in_step s2 r2" and same: "send_same up s2" "read_same (rs_kd rs) r2"
    using update_written [OF assms(1,2,6-9), of pos add sched now rest] by (auto simp: frames_def)
  define up' where "up' = s2\<lparr>kd_sendObfPool := Some pool, kd_recvObfPool := Some pool\<rparr>"
  have "in_step r2 s2" by (rule other_direction [OF assms(3) same])
  have "ObfPoolFromUserPassword ?pr r2 password = Some pool"
    using assms(4,5,9) same(2) by (simp add: ObfPoolFromUserPassword_def read_same_def)
  then have sw: "SwitchObfPoolFromUserPassword ?pr r2 password = Some (r2\<lparr>kd_recvObfPool := Some pool\<rparr>, muxWriteSwitchSendPool (Some pool))"
    by (simp add: SwitchObfPoolFromUserPassword_def)
  have st: "in_step up' (r2\<lparr>kd_recvObfPool := Some pool\<rparr>)" "in_step up' (r2\<lparr>kd_recvObfPool := Some pool, kd_sendObfPool := Some pool\<rparr>)"
      "in_step (r2\<lparr>kd_recvObfPool := Some pool, kd_sendObfPool := Some pool\<rparr>) up'"
    using pok T(3) \<open>in_step r2 s2\<close> by (auto simp: in_step_def up'_def)
  have "of_mux mc (fst (recv_all r es)) = replicate (length frames - 1) (Inr None) @ [Inr (Some d)] \<and> snd (recv_all r es) mc = None"
    if "of_mux mc es = frames" for es
    using frames_received [OF sp(1) _ assms(6), of "[]" r mc es] sp(2) assms(7,10) that by (simp add: frames_def)
  moreover have "processWriteRequest ce (r2\<lparr>kd_recvObfPool := Some pool\<rparr>) (muxWriteSwitchSendPool (Some pool)) [] 0 True pos2 =
      (Inr [], r2\<lparr>kd_recvObfPool := Some pool, kd_sendObfPool := Some pool\<rparr>, pos2)" by (simp add: processWriteRequest_def)
  ultimately show ?thesis using send T(1,2) sw st unfolding up'_def by blast
qed

lemma read_packet_header:
  assumes "read_packet pr add sched now rs = Some (ReadPacket c p n, rs')" and "kd_recvObfPool (rs_kd rs) = Some pool"
  shows "DataObfHeaderSize \<le> length (rs_inp rs) \<and> ValidateHeader (Some pool) (take DataObfHeaderSize (rs_inp rs))"
  using assms by (auto simp: read_packet_def check_obf_header_def readRawFull_def Let_def split: if_splits)

lemma read_packet_refused:
  assumes "kd_recvObfPool (rs_kd rs) = Some pool" and "DataObfHeaderSize \<le> length (rs_inp rs)"
    and "\<not> ValidateHeader (Some pool) (take DataObfHeaderSize (rs_inp rs))"
  shows "read_packet pr add sched now rs = Some (ReadInvalid ReasonObfHeader, rs\<lparr>rs_inp := drop DataObfHeaderSize (rs_inp rs)\<rparr>)"
  using assms by (simp add: read_packet_def check_obf_header_def readRawFull_def Let_def)

lemma other_pool_refused:
  assumes "ValidateHeader (Some old) hdr" and "p_DataMagicLen pool = p_DataMagicLen old" and "p_dataHeaderSet pool \<inter> p_dataHeaderSet old = {}"
  shows "\<not> ValidateHeader (Some pool) hdr"
  using assms by (auto simp: ValidateHeader_def split: if_splits)

text \<open>
  C39. The gap of the handover.  The upstream changes both of its pools when its writer has written the last frame of the
  update; the server changes the pool it sends with only when its own writer comes to the request.  A packet that the
  server sends in between, whatever its channel and payload, is one that the upstream would have read before; but if the
  two pools, which have magics of the same length, share no header, it is refused at its first six bytes, and the
  upstream's connection becomes invalid.
\<close>

theorem handover_gap_refused:
  assumes "primitives_ok (ce_pr ce)" and "in_step up r" and "in_step sv up"
    and "d \<noteq> []" and "length d \<le> reverseRouteMaxJSONSize" and "split = randomReverseRouteFragmentSize b fallback"
    and "ObfPoolFromUserPassword (ce_pr ce) up password = Some pool"
    and "kd_sendObfPool sv = Some old" and "p_DataMagicLen pool = p_DataMagicLen old" and "p_dataHeaderSet pool \<inter> p_dataHeaderSet old = {}"
    and "length payload \<le> MaxPacketPayloadSize"
  shows "\<exists>reqs out up' pos' out2 sv' pos2' up2.
    sendReverseRouteUpdate (ce_pr ce) up (\<lambda>q r. (True, q @ [r])) d password split [] = Some (True, reqs) \<and>
    write_all ce up reqs pos = Some (out, up', pos') \<and>
    sendPacketNow ce sv c payload None ts utc True posn = (Inr out2, sv', pos2') \<and>
    read_packet (ce_pr ce) add sched now (rs\<lparr>rs_kd := up, rs_inp := out2 @ rest\<rparr>) =
      Some (ReadPacket c payload (length out2), rs\<lparr>rs_kd := up2, rs_inp := rest\<rparr>) \<and>
    read_packet (ce_pr ce) add sched now (rs\<lparr>rs_kd := up', rs_inp := out2 @ rest\<rparr>) =
      Some (ReadInvalid ReasonObfHeader, rs\<lparr>rs_kd := up', rs_inp := drop DataObfHeaderSize (out2 @ rest)\<rparr>)"
proof -
  let ?pr = "ce_pr ce"
  obtain reqs out s2 pos' where send: "sendReverseRouteUpdate ?pr up (\<lambda>q r. (True, q @ [r])) d password split [] = Some (True, reqs)"
      and T: "write_all ce up reqs pos = Some (out, s2\<lparr>kd_sendObfPool := Some pool, kd_recvObfPool := Some pool\<rparr>, pos')"
    using update_written [of ce up "rs\<lparr>rs_kd := r\<rparr>" d split b fallback password pool pos add sched now rest] assms(1,2,4-7) by auto
  obtain out2 sv' pos2' up2 where S: "sendPacketNow ce sv c payload None ts utc True posn = (Inr out2, sv', pos2')"
      "read_packet ?pr add sched now (rs\<lparr>rs_kd := up, rs_inp := out2 @ rest\<rparr>) = Some (ReadPacket c payload (length out2), rs\<lparr>rs_kd := up2, rs_inp := rest\<rparr>)"
    using mux_packet_roundtrip [where s = sv and rs = "rs\<lparr>rs_kd := up\<rparr>" and c = c and ts = ts and utc = utc and pos = posn and rest = rest
        and add = add and sched = sched and now = now, OF assms(1) _ assms(11)] assms(3) by auto
  have "kd_recvObfPool up = Some old" using assms(3,8) by (auto simp: in_step_def)
  then have h: "DataObfHeaderSize \<le> length (out2 @ rest)" "\<not> ValidateHeader (Some pool) (take DataObfHeaderSize (out2 @ rest))"
    using read_packet_header [OF S(2), of old] other_pool_refused [OF _ assms(9,10)] by auto
  show ?thesis
    using send T S read_packet_refused [of "rs\<lparr>rs_kd := s2\<lparr>kd_sendObfPool := Some pool, kd_recvObfPool := Some pool\<rparr>, rs_inp := out2 @ rest\<rparr>" pool ?pr add sched now] h
    by fastforce
qed

definition password_env :: codec_env where
  "password_env = sample_env\<lparr>ce_pr := sample_primitives\<lparr>pr_sha256 := (\<lambda>d. if d = bytes_of_string ''p'' then put64 167 else sample_sha d)\<rparr>\<rparr>"

lemma password_pool:
  assumes "GeneratePoolWithKey sample_sha sample_expo 167 HeaderTypeAny [] = Some pool"
  shows "ObfPoolFromUserPassword (ce_pr password_env) (sample_codec pool') ''p'' = Some pool"
proof -
  have "bytes_of_string [] \<noteq> bytes_of_string ''p''" by (simp add: bytes_of_string_def)
  then have "generateHandshakeLayout (pr_sha256 (ce_pr password_env)) sample_expo [] = generateHandshakeLayout sample_sha sample_expo []"
    by (simp add: generateHandshakeLayout_def password_env_def)
  then show ?thesis
    using assms by (simp add: ObfPoolFromUserPassword_def password_env_def sample_primitives_def sample_codec_def server_codec_def new_codec_def Let_def GeneratePoolWithKey_def)
qed

theorem reverse_pool_handover_witness:
  "\<exists>pool reqs out up' pos' frames sv sv1 req.
    sendReverseRouteUpdate (ce_pr password_env) (sample_codec pool) (\<lambda>q r. (True, q @ [r])) [1, 2, 3] ''p'' 8192 [] = Some (True, reqs) \<and>
    write_all password_env (sample_codec pool) reqs 0 = Some (out, up', pos') \<and>
    read_packets (length frames) (ce_pr password_env) (Some AddIfAbsent) (\<lambda>_. 1) sample_now
      \<lparr>rs_kd = sample_codec pool, rs_cache = newNonceReplayCache, rs_pools = (\<lambda>_ _. Map.empty), rs_inp = out @ [5]\<rparr> =
      Some (map (Pair ReverseRouteChannelID) frames, \<lparr>rs_kd = sv, rs_cache = newNonceReplayCache, rs_pools = (\<lambda>_ _. Map.empty), rs_inp = [5]\<rparr>) \<and>
    of_mux 4 (fst (recv_all Map.empty ((9, [0]) # map (Pair 4) frames @ [(9, [])]))) = replicate (length frames - 1) (Inr None) @ [Inr (Some [1, 2, 3])] \<and>
    SwitchObfPoolFromUserPassword (ce_pr password_env) sv ''p'' = Some (sv1, req) \<and> in_step up' sv1"
proof -
  obtain pool where p: "GeneratePoolWithKey sample_sha sample_expo 167 HeaderTypeAny [] = Some pool" using sample_pool by blast
  have ok: "primitives_ok (ce_pr password_env)" using sample_keys(4) by (simp add: password_env_def primitives_ok_def)
  have k: "in_step (sample_codec pool) (sample_codec pool)" by (rule sample_codec_in_step [OF GeneratePool_ok [OF p]])
  note o = password_pool [OF p, of pool]
  note W = reverse_pool_handover [of password_env "sample_codec pool" "\<lparr>rs_kd = sample_codec pool, rs_cache = newNonceReplayCache, rs_pools = (\<lambda>_ _. Map.empty), rs_inp = []\<rparr>"
      "[1, 2, 3]" 8192 "Some 0" 0 "''p''" pool Map.empty 4 0 "Some AddIfAbsent" "\<lambda>_. 1" sample_now "[5]" 0]
  have other: "of_mux 4 ((9, [0]) # map (Pair 4) fs @ [(9, [])]) = fs" for fs :: "bytes list" by (simp add: filter_map comp_def)
  obtain reqs out up' pos' frames sv sv1 req where H:
      "sendReverseRouteUpdate (ce_pr password_env) (sample_codec pool) (\<lambda>q r. (True, q @ [r])) [1, 2, 3] ''p'' 8192 [] = Some (True, reqs)"
      "write_all password_env (sample_codec pool) reqs 0 = Some (out, up', pos')"
      "read_packets (length frames) (ce_pr password_env) (Some AddIfAbsent) (\<lambda>_. 1) sample_now
        \<lparr>rs_kd = sample_codec pool, rs_cache = newNonceReplayCache, rs_pools = (\<lambda>_ _. Map.empty), rs_inp = out @ [5]\<rparr> =
        Some (map (Pair ReverseRouteChannelID) frames, \<lparr>rs_kd = sv, rs_cache = newNonceReplayCache, rs_pools = (\<lambda>_ _. Map.empty), rs_inp = [5]\<rparr>)"
      "\<forall>es. of_mux 4 es = frames \<longrightarrow> of_mux 4 (fst (recv_all Map.empty es)) = replicate (length frames - 1) (Inr None) @ [Inr (Some [1, 2, 3])]"
      "SwitchObfPoolFromUserPassword (ce_pr password_env) sv ''p'' = Some (sv1, req)" "in_step up' sv1"
    using W ok k o by (simp add: randomReverseRouteFragmentSize_def frame_consts) blast
  from H(4) [rule_format, OF other] H(1-3,5,6) show ?thesis by blast
qed

text \<open>A pool of sixteen headers that the sample pool does not have.\<close>

definition other_headers :: "header list" where
  "other_headers = map (\<lambda>i. \<lparr>h_Len = 2, h_Head = [0, word_of_nat i], h_LenOffset = 0\<rparr>) [0..<16]"

definition other_pool :: "Pool \<Rightarrow> Pool" where
  "other_pool pool =
     pool\<lparr>p_SmallGroup := take 8 other_headers, p_LargeGroup := drop 8 other_headers,
       p_dataHeaderSet := h_Head ` set other_headers, p_dataLenOffsets := (\<lambda>b. if b \<in> h_Head ` set other_headers then Some 0 else None)\<rparr>"

lemma other_headers_eval: "map h_Head other_headers = map (\<lambda>i. [0, word_of_nat i]) [0..<16]" "length other_headers = 16"
  "distinct (map h_Head other_headers)" "list_all (header_ok 2) other_headers" "list_all (\<lambda>h. h_LenOffset h = 0) other_headers"
  "\<forall>x \<in> h_Head ` set other_headers. x ! 0 = 0"
  by (simp_all add: other_headers_def upt_conv_Cons header_ok_def)

lemma other_pool_ok: "pool_ok pool \<Longrightarrow> p_DataMagicLen pool = 2 \<Longrightarrow> pool_ok (other_pool pool)"
  using other_headers_eval
  by (auto simp: pool_ok_def other_pool_def headers_ok_def data_header_list_def list_all_iff)

lemma sample_header_bytes:
  "\<exists>hs p. data_headers HeaderTypeAny 2 16 [] (pcg_at 5365469980401118074 13005396917011789751) = Some (hs, p) \<and>
     list_all (\<lambda>h. h_Head h ! 0 \<noteq> 0) hs"
proof -
  have "\<exists>hs p. data_headers HeaderTypeAny 2 (4 + (4 + (4 + 4))) [] (pcg_at 5365469980401118074 13005396917011789751) = Some (hs, p) \<and>
      list_all (\<lambda>h. h_Head h ! 0 \<noteq> 0) hs"
    by (intro exI conjI, rule data_headers_split [OF sample_headers_1], rule data_headers_split, simp, rule sample_headers_2,
      rule data_headers_split, simp, rule sample_headers_3, simp, rule sample_headers_4) simp
  then show ?thesis by simp
qed

lemma sample_header_set:
  assumes "GeneratePoolWithKey sample_sha sample_expo 167 HeaderTypeAny [] = Some pool"
  shows "p_DataMagicLen pool = 2" "\<forall>x \<in> p_dataHeaderSet pool. x ! 0 \<noteq> 0"
proof -
  obtain hs p where "data_headers HeaderTypeAny 2 16 [] (pcg_at 5365469980401118074 13005396917011789751) = Some (hs, p)"
      "list_all (\<lambda>h. h_Head h ! 0 \<noteq> 0) hs"
    using sample_header_bytes by blast
  then show "p_DataMagicLen pool = 2" "\<forall>x \<in> p_dataHeaderSet pool. x ! 0 \<noteq> 0"
    using assms by (auto simp: GeneratePoolWithKey_def sample_layout HandshakeObfMagicMaxLen_def sample_draws split_beta Let_def list_all_iff)
qed

theorem handover_gap_refused_witness:
  "\<exists>pool sv reqs out up' pos' out2 sv' pos2'.
    sendReverseRouteUpdate (ce_pr password_env) sv (\<lambda>q r. (True, q @ [r])) [1, 2, 3] ''p'' 8192 [] = Some (True, reqs) \<and>
    ObfPoolFromUserPassword (ce_pr password_env) sv ''p'' = Some pool \<and> write_all password_env sv reqs 0 = Some (out, up', pos') \<and>
    sendPacketNow password_env sv 9 [7] None [] 0 True 0 = (Inr out2, sv', pos2') \<and>
    read_packet (ce_pr password_env) (Some AddIfAbsent) (\<lambda>_. 1) sample_now
      \<lparr>rs_kd = up', rs_cache = newNonceReplayCache, rs_pools = (\<lambda>_ _. Map.empty), rs_inp = out2\<rparr> =
      Some (ReadInvalid ReasonObfHeader, \<lparr>rs_kd = up', rs_cache = newNonceReplayCache, rs_pools = (\<lambda>_ _. Map.empty), rs_inp = drop DataObfHeaderSize out2\<rparr>)"
proof -
  obtain pool where p: "GeneratePoolWithKey sample_sha sample_expo 167 HeaderTypeAny [] = Some pool" using sample_pool by blast
  note m = sample_header_set [OF p]
  define old where "old = other_pool pool"
  have ok: "primitives_ok (ce_pr password_env)" using sample_keys(4) by (simp add: password_env_def primitives_ok_def)
  have k: "in_step (sample_codec old) (sample_codec old)"
    unfolding old_def by (rule sample_codec_in_step [OF other_pool_ok [OF GeneratePool_ok [OF p] m(1)]])
  have old: "kd_sendObfPool (sample_codec old) = Some old" "p_DataMagicLen pool = p_DataMagicLen old" "p_dataHeaderSet pool \<inter> p_dataHeaderSet old = {}"
    using m(2) other_headers_eval(6) by (auto simp: sample_codec_def old_def other_pool_def Let_def)
  note W = handover_gap_refused [where ce = password_env and up = "sample_codec old" and r = "sample_codec old" and sv = "sample_codec old"
      and d = "[1, 2, 3]" and split = 8192 and b = "Some 0" and fallback = 0 and password = "''p''" and pool = pool and old = old and payload = "[7]"
      and pos = 0 and c = 9 and ts = "[]" and utc = 0 and posn = 0 and add = "Some AddIfAbsent" and sched = "\<lambda>_. 1" and now = sample_now and rest = "[]"
      and rs = "\<lparr>rs_kd = sample_codec old, rs_cache = newNonceReplayCache, rs_pools = (\<lambda>_ _. Map.empty), rs_inp = []\<rparr>"]
  show ?thesis using W ok k password_pool [OF p, of old] old by (simp add: randomReverseRouteFragmentSize_def frame_consts obf_consts MaxPacketSize_def) blast
qed

end
