(* ===== verification/ServerPool.thy ===== *)
theory ServerPool
  imports ReverseControl MuxRuns
begin

text \<open>
  The connections of the server (\<^verbatim>\<open>cmd/server/main.go\<close>): the sweeps that collect traffic, drop idle
  connections and drop those of users that were disabled; the accounting of traffic by user; the periodic update of the
  configuration file; and the registration of reverse routes beside all of them.  Connections are pointers (numbers);
  the name of the user of a connection is the field \<^verbatim>\<open>userName\<close> of the mux.

  Shown, for every interleaving of these activities: traffic is billed exactly once, and the table of reverse routes
  has only routes of managed connections whose users have the permission.
\<close>

section \<open>State\<close>

record trafficSnapshot =
  ts_sent :: u64
  ts_received :: u64

record trafficDelta =
  td_u :: u64
  td_d :: u64

abbreviation no_snapshot :: trafficSnapshot where "no_snapshot \<equiv> \<lparr>ts_sent = 0, ts_received = 0\<rparr>"
abbreviation no_delta :: trafficDelta where "no_delta \<equiv> \<lparr>td_u = 0, td_d = 0\<rparr>"

record server_pool =
  sp_mux :: "nat \<Rightarrow> mux"
  sp_userName :: "nat \<Rightarrow> string"
  sp_muxConns :: "nat list"
  sp_connStats :: "nat \<rightharpoonup> trafficSnapshot"
  sp_pending :: "string \<rightharpoonup> trafficDelta"
  sp_reverse :: reverse_state
  sp_acl :: aclServer

definition TrafficSnapshot :: "mux \<Rightarrow> trafficSnapshot" where
  "TrafficSnapshot mx = \<lparr>ts_sent = mx_bytesSent mx, ts_received = mx_bytesReceived mx\<rparr>"

section \<open>Accounting\<close>

definition addPendingTraffic :: "server_pool \<Rightarrow> string \<Rightarrow> trafficDelta \<Rightarrow> server_pool" where
  "addPendingTraffic sp userName delta =
     (if userName = [] \<or> td_u delta = 0 \<and> td_d delta = 0 then sp
      else
        (let current = (case sp_pending sp userName of None \<Rightarrow> no_delta | Some c \<Rightarrow> c)
         in sp\<lparr>sp_pending := (sp_pending sp)(userName \<mapsto> \<lparr>td_u = td_u current + td_u delta, td_d = td_d current + td_d delta\<rparr>)\<rparr>))"

definition collectConnTrafficLocked :: "server_pool \<Rightarrow> nat \<Rightarrow> server_pool" where
  "collectConnTrafficLocked sp mc =
     (let userName = sp_userName sp mc
      in if userName = [] then sp
         else
           (let snap = TrafficSnapshot (sp_mux sp mc);
                last0 = (case sp_connStats sp mc of None \<Rightarrow> no_snapshot | Some l \<Rightarrow> l);
                lst = (if ts_sent snap < ts_sent last0 \<or> ts_received snap < ts_received last0 then no_snapshot else last0);
                delta = \<lparr>td_u = ts_received snap - ts_received lst, td_d = ts_sent snap - ts_sent lst\<rparr>
            in addPendingTraffic (sp\<lparr>sp_connStats := (sp_connStats sp)(mc \<mapsto> snap)\<rparr>) userName delta))"

definition pendingSnapshot :: "server_pool \<Rightarrow> string \<rightharpoonup> trafficDelta" where
  "pendingSnapshot sp =
     (\<lambda>name. case sp_pending sp name of None \<Rightarrow> None | Some delta \<Rightarrow> if td_u delta = 0 \<and> td_d delta = 0 then None else Some delta)"

text \<open>The order of the names does not matter: each one changes its own entry.\<close>

definition subtractPending :: "server_pool \<Rightarrow> (string \<rightharpoonup> trafficDelta) \<Rightarrow> server_pool" where
  "subtractPending sp snapshot =
     sp\<lparr>sp_pending := (\<lambda>name.
       case snapshot name of
         None \<Rightarrow> sp_pending sp name
       | Some written \<Rightarrow>
           (let current = (case sp_pending sp name of None \<Rightarrow> no_delta | Some c \<Rightarrow> c);
                u = (if td_u current \<le> td_u written then 0 else td_u current - td_u written);
                d = (if td_d current \<le> td_d written then 0 else td_d current - td_d written)
            in if u = 0 \<and> d = 0 then None else Some \<lparr>td_u = u, td_d = d\<rparr>))\<rparr>"

text \<open>The counters in the configuration; the names of normalized users are distinct.\<close>

definition add_traffic :: "(string \<rightharpoonup> trafficDelta) \<Rightarrow> UserConfig list \<Rightarrow> UserConfig list" where
  "add_traffic snapshot users =
     map (\<lambda>user. case snapshot (u_Name user) of
                   None \<Rightarrow> user
                 | Some delta \<Rightarrow> user\<lparr>u_U := u_U user + td_u delta, u_D := u_D user + td_d delta\<rparr>) users"

definition enabledUserSet :: "UserConfig list \<Rightarrow> string \<Rightarrow> bool" where
  "enabledUserSet users name \<longleftrightarrow> (\<exists>user \<in> set users. u_Enable user \<and> u_Name user = name)"

section \<open>Sweeps over the connections\<close>

definition forget_routes :: "server_pool \<Rightarrow> nat \<Rightarrow> server_pool" where
  "forget_routes sp mc =
     sp\<lparr>sp_reverse := \<lparr>rv_recv = recv_reset (rv_recv (sp_reverse sp)) mc, rv_routes = removeMux (rv_routes (sp_reverse sp)) mc\<rparr>\<rparr>"

definition drop_conn :: "server_pool \<Rightarrow> nat \<Rightarrow> server_pool" where
  "drop_conn sp mc =
     forget_routes (sp\<lparr>sp_mux := (sp_mux sp)(mc := Mux_Close (sp_mux sp mc)), sp_connStats := (sp_connStats sp)(mc := None)\<rparr>) mc"

datatype sweep = Collect | Cleanup time | Refresh "string \<Rightarrow> bool"

text \<open>The body of each loop: the new state, and whether the connection stays in the list.\<close>

definition visit :: "bool \<Rightarrow> sweep \<Rightarrow> server_pool \<Rightarrow> nat \<Rightarrow> server_pool \<times> bool" where
  "visit ReverseRoutesAllowed k sp mc =
     (case k of
        Collect \<Rightarrow> (collectConnTrafficLocked sp mc, True)
      | Cleanup now \<Rightarrow>
          (let sp1 = collectConnTrafficLocked sp mc
           in if IsClosed (sp_mux sp1 mc) \<or> IsIdle (sp_mux sp1 mc) now then (drop_conn sp1 mc, False) else (sp1, True))
      | Refresh enabled \<Rightarrow>
          (let userName = sp_userName sp mc
           in if userName \<noteq> [] \<and> \<not> enabled userName then (drop_conn (collectConnTrafficLocked sp mc) mc, False)
              else if userName \<noteq> [] \<and> withReverseRoutePermission (sp_acl sp) ReverseRoutesAllowed userName = None
              then (forget_routes sp mc, True)
              else (sp, True)))"

fun sweep_all :: "bool \<Rightarrow> sweep \<Rightarrow> server_pool \<Rightarrow> nat list \<Rightarrow> nat list \<Rightarrow> server_pool" where
  "sweep_all allowed k sp [] kept = sp\<lparr>sp_muxConns := kept\<rparr>"
| "sweep_all allowed k sp (mc # todo) kept =
     (case visit allowed k sp mc of (sp', keep) \<Rightarrow> sweep_all allowed k sp' todo (if keep then kept @ [mc] else kept))"

definition collectActiveTraffic :: "bool \<Rightarrow> server_pool \<Rightarrow> server_pool" where
  "collectActiveTraffic allowed sp = sweep_all allowed Collect sp (sp_muxConns sp) []"

definition cleanupIdleConnections :: "bool \<Rightarrow> time \<Rightarrow> server_pool \<Rightarrow> server_pool" where
  "cleanupIdleConnections allowed now sp = sweep_all allowed (Cleanup now) sp (sp_muxConns sp) []"

definition closeUnavailableConnections :: "bool \<Rightarrow> (string \<Rightarrow> bool) \<Rightarrow> server_pool \<Rightarrow> server_pool" where
  "closeUnavailableConnections allowed enabled sp = sweep_all allowed (Refresh enabled) sp (sp_muxConns sp) []"

section \<open>The update of the configuration file\<close>

text \<open>
  The loaded users and outbounds, or None when the file cannot be loaded; \<open>saveOk\<close> says whether it can be written.
  The result has the users that were written, if any, and whether there was an error.  The other fields of the file
  are written back as they were read.
\<close>

definition flushTraffic ::
  "bool \<Rightarrow> (UserConfig list \<times> (string \<rightharpoonup> string)) option \<Rightarrow> bool \<Rightarrow> server_pool \<Rightarrow> server_pool \<times> UserConfig list option \<times> bool" where
  "flushTraffic allowed loaded saveOk sp =
     (let sp1 = collectActiveTraffic allowed sp
      in case loaded of
           None \<Rightarrow> (sp1, None, False)
         | Some (cfgUsers, outbounds) \<Rightarrow>
             (case normalizeUsers cfgUsers of
                Inl e \<Rightarrow> (sp1, None, False)
              | Inr users \<Rightarrow>
                  (let sp2 = (case setUsers (sp_acl sp1) users outbounds of
                                Inl e \<Rightarrow> sp1
                              | Inr a \<Rightarrow> closeUnavailableConnections allowed (enabledUserSet users) (sp1\<lparr>sp_acl := a\<rparr>))
                   in if users = [] then (sp2, None, False)
                      else
                        (let snapshot = pendingSnapshot sp2
                         in if snapshot = Map.empty then (sp2, None, True)
                            else if \<not> saveOk then (sp2, None, False)
                            else (subtractPending sp2 snapshot, Some (add_traffic snapshot users), True)))))"


section \<open>Everything at once\<close>

text \<open>
  Where the goroutine of the periodic update is: collecting, between the steps, with the users it has read, with the
  snapshot it is about to save or has saved.
\<close>

datatype flush =
  FlushIdle
| FlushCollecting
| FlushCollected
| FlushLoaded "UserConfig list"
| FlushUsersSet "UserConfig list"
| FlushRefreshing "UserConfig list"
| FlushRefreshed "UserConfig list"
| FlushSaving "UserConfig list" "string \<rightharpoonup> trafficDelta"
| FlushSaved "string \<rightharpoonup> trafficDelta"

text \<open>
  Where the handler of a registration is, for each connection: the route is in the table and the request to switch pools
  is not queued yet (the lock on the users is held), or the request could not be queued.
\<close>

datatype handler = HandlerIdle | HandlerRegistered | HandlerFailed

record world =
  w_sp :: server_pool
  w_file :: "UserConfig list"
  w_sweep :: "(sweep \<times> nat list \<times> nat list) option"
  w_flush :: flush
  w_handler :: "nat \<Rightarrow> handler"
  w_all :: "nat list"
  w_read :: "nat \<Rightarrow> trafficSnapshot"

abbreviation same_counters :: "UserConfig list \<Rightarrow> UserConfig list \<Rightarrow> bool" where
  "same_counters us vs \<equiv> map (\<lambda>u. (u_Name u, u_U u, u_D u)) us = map (\<lambda>u. (u_Name u, u_U u, u_D u)) vs"

text \<open>
  The visits that have to read the counters of a connection: all but those that look for disabled users and keep the
  connection.  \<open>w_read\<close> is not a field of the server: it notes, for the statement, what a connection with a user had
  counted when it had its last visit of this kind, and nothing for a new connection.
\<close>

definition reading_visit :: "sweep \<Rightarrow> bool \<Rightarrow> bool" where
  "reading_visit k keep = (case k of Refresh enabled \<Rightarrow> \<not> keep | _ \<Rightarrow> True)"

text \<open>Which sweep may start, and where the goroutine of the update is then and when the sweep has ended.\<close>

inductive sweep_phase :: "sweep \<Rightarrow> flush \<Rightarrow> flush \<Rightarrow> flush \<Rightarrow> bool" where
  "sweep_phase Collect FlushIdle FlushCollecting FlushCollected"
| "sweep_phase (Refresh (enabledUserSet users)) (FlushUsersSet users) (FlushRefreshing users) (FlushRefreshed users)"
| "sweep_phase (Cleanup now) f f f"

inductive_cases sweep_phaseE: "sweep_phase k f f1 f2"

text \<open>
  The runs.  A sweep holds the lock on the list of connections, so there is one at a time and no connection is accepted
  meanwhile; its visits interleave with everything else.  Connections run by themselves: their counters grow, they may
  close at any time and never open again (this includes the close that a visit begins with, so that other activities may
  come between it and the rest of the visit).  The registration of a route holds the lock on the users until its request
  is queued or refused; a request on a closed connection is refused.  The administrator may edit the file, but not the
  names and the counters in it.
\<close>

inductive serves :: "bool \<Rightarrow> UserConfig list \<Rightarrow> world \<Rightarrow> bool" for allowed us where
  serves_start: "normalizeUsers us = Inr us \<Longrightarrow> sp_muxConns sp = [] \<Longrightarrow> sp_pending sp = Map.empty \<Longrightarrow> rv_routes (sp_reverse sp) = [] \<Longrightarrow>
    serves allowed us \<lparr>w_sp = sp, w_file = us, w_sweep = None, w_flush = FlushIdle, w_handler = (\<lambda>_. HandlerIdle), w_all = [],
      w_read = (\<lambda>_. no_snapshot)\<rparr>"
| serves_accept: "serves allowed us w \<Longrightarrow> w_sweep w = None \<Longrightarrow> mc \<notin> set (w_all w) \<Longrightarrow> TrafficSnapshot mx = no_snapshot \<Longrightarrow> sp = w_sp w \<Longrightarrow>
    serves allowed us (w\<lparr>w_sp := sp\<lparr>sp_mux := (sp_mux sp)(mc := mx), sp_userName := (sp_userName sp)(mc := []),
      sp_muxConns := sp_muxConns sp @ [mc], sp_connStats := (sp_connStats sp)(mc \<mapsto> no_snapshot)\<rparr>, w_all := w_all w @ [mc],
      w_read := (w_read w)(mc := no_snapshot)\<rparr>)"
| serves_user: "serves allowed us w \<Longrightarrow> mc \<in> set (w_all w) \<Longrightarrow> sp_userName (w_sp w) mc = [] \<Longrightarrow>
    serves allowed us (w\<lparr>w_sp := (w_sp w)\<lparr>sp_userName := (sp_userName (w_sp w))(mc := name)\<rparr>\<rparr>)"
| serves_mux: "serves allowed us w \<Longrightarrow> mx_bytesSent (sp_mux (w_sp w) mc) \<le> mx_bytesSent mx \<Longrightarrow>
    mx_bytesReceived (sp_mux (w_sp w) mc) \<le> mx_bytesReceived mx \<Longrightarrow> (mx_closed (sp_mux (w_sp w) mc) \<longrightarrow> mx_closed mx) \<Longrightarrow>
    serves allowed us (w\<lparr>w_sp := (w_sp w)\<lparr>sp_mux := (sp_mux (w_sp w))(mc := mx)\<rparr>\<rparr>)"
| serves_sweep: "serves allowed us w \<Longrightarrow> w_sweep w = None \<Longrightarrow> sweep_phase k (w_flush w) f f' \<Longrightarrow>
    serves allowed us (w\<lparr>w_sweep := Some (k, sp_muxConns (w_sp w), []), w_flush := f\<rparr>)"
| serves_visit: "serves allowed us w \<Longrightarrow> w_sweep w = Some (k, mc # todo, kept) \<Longrightarrow> visit allowed k (w_sp w) mc = (sp, keep) \<Longrightarrow>
    serves allowed us (w\<lparr>w_sp := sp, w_sweep := Some (k, todo, if keep then kept @ [mc] else kept),
      w_read := (if reading_visit k keep \<and> sp_userName (w_sp w) mc \<noteq> [] then (w_read w)(mc := TrafficSnapshot (sp_mux (w_sp w) mc)) else w_read w)\<rparr>)"
| serves_swept: "serves allowed us w \<Longrightarrow> w_sweep w = Some (k, [], kept) \<Longrightarrow> sweep_phase k f0 (w_flush w) f \<Longrightarrow>
    serves allowed us (w\<lparr>w_sp := (w_sp w)\<lparr>sp_muxConns := kept\<rparr>, w_sweep := None, w_flush := f\<rparr>)"
| serves_load: "serves allowed us w \<Longrightarrow> w_flush w = FlushCollected \<Longrightarrow> normalizeUsers (w_file w) = Inr users \<Longrightarrow>
    serves allowed us (w\<lparr>w_flush := FlushLoaded users\<rparr>)"
| serves_users: "serves allowed us w \<Longrightarrow> w_flush w = FlushLoaded users \<Longrightarrow> (\<forall>mc. w_handler w mc \<noteq> HandlerRegistered) \<Longrightarrow>
    setUsers (sp_acl (w_sp w)) users outbounds = Inr a \<Longrightarrow>
    serves allowed us (w\<lparr>w_sp := (w_sp w)\<lparr>sp_acl := a\<rparr>, w_flush := FlushUsersSet users\<rparr>)"
| serves_users_refused: "serves allowed us w \<Longrightarrow> w_flush w = FlushLoaded users \<Longrightarrow> setUsers (sp_acl (w_sp w)) users outbounds = Inl e \<Longrightarrow>
    serves allowed us (w\<lparr>w_flush := FlushRefreshed users\<rparr>)"
| serves_snapshot: "serves allowed us w \<Longrightarrow> w_flush w = FlushRefreshed users \<Longrightarrow>
    serves allowed us (w\<lparr>w_flush := FlushSaving users (pendingSnapshot (w_sp w))\<rparr>)"
| serves_save: "serves allowed us w \<Longrightarrow> w_flush w = FlushSaving users snapshot \<Longrightarrow>
    serves allowed us (w\<lparr>w_file := add_traffic snapshot users, w_flush := FlushSaved snapshot\<rparr>)"
| serves_subtract: "serves allowed us w \<Longrightarrow> w_flush w = FlushSaved snapshot \<Longrightarrow>
    serves allowed us (w\<lparr>w_sp := subtractPending (w_sp w) snapshot, w_flush := FlushIdle\<rparr>)"
| serves_give_up: "serves allowed us w \<Longrightarrow> w_flush w = FlushCollected \<or> w_flush w = FlushRefreshed users \<or> w_flush w = FlushSaving users snapshot \<Longrightarrow>
    serves allowed us (w\<lparr>w_flush := FlushIdle\<rparr>)"
| serves_edit: "serves allowed us w \<Longrightarrow> same_counters file (w_file w) \<Longrightarrow> normalizeUsers file = Inr file \<Longrightarrow> serves allowed us (w\<lparr>w_file := file\<rparr>)"
| serves_register: "serves allowed us w \<Longrightarrow> mc \<in> set (w_all w) \<Longrightarrow> w_handler w mc = HandlerIdle \<Longrightarrow> sp = w_sp w \<Longrightarrow>
    withReverseRoutePermission (sp_acl sp) allowed (sp_userName sp mc) = Some password \<Longrightarrow>
    serves allowed us (w\<lparr>w_sp := sp\<lparr>sp_reverse := (sp_reverse sp)\<lparr>rv_routes := register (rv_routes (sp_reverse sp)) mc route\<rparr>,
      sp_mux := (sp_mux sp)(mc := configureReverseMuxCapacity (sp_mux sp mc))\<rparr>, w_handler := (w_handler w)(mc := HandlerRegistered)\<rparr>)"
| serves_switched: "serves allowed us w \<Longrightarrow> w_handler w mc = HandlerRegistered \<Longrightarrow> \<not> mx_closed (sp_mux (w_sp w) mc) \<Longrightarrow>
    serves allowed us (w\<lparr>w_handler := (w_handler w)(mc := HandlerIdle)\<rparr>)"
| serves_switch_failed: "serves allowed us w \<Longrightarrow> w_handler w mc = HandlerRegistered \<Longrightarrow>
    serves allowed us (w\<lparr>w_handler := (w_handler w)(mc := HandlerFailed)\<rparr>)"
| serves_unregister: "serves allowed us w \<Longrightarrow> w_handler w mc = HandlerFailed \<Longrightarrow> sp = w_sp w \<Longrightarrow>
    serves allowed us (w\<lparr>w_sp := sp\<lparr>sp_reverse := (sp_reverse sp)\<lparr>rv_routes := removeMux (rv_routes (sp_reverse sp)) mc\<rparr>,
      sp_mux := (sp_mux sp)(mc := Mux_Close (sp_mux sp mc))\<rparr>, w_handler := (w_handler w)(mc := HandlerIdle)\<rparr>)"

text \<open>The connections the server manages: those in its list or, while a sweep rebuilds the list, those that it may still keep.\<close>

definition managed :: "world \<Rightarrow> nat list" where
  "managed w = (case w_sweep w of None \<Rightarrow> sp_muxConns (w_sp w) | Some (k, todo, kept) \<Rightarrow> kept @ todo)"


section \<open>Traffic is billed once\<close>

text \<open>Received bytes are what a user sent up (\<open>up = True\<close>), sent bytes what goes down.\<close>

definition count_of :: "bool \<Rightarrow> trafficSnapshot \<Rightarrow> u64" where
  "count_of up s = (if up then ts_received s else ts_sent s)"

definition part_of :: "bool \<Rightarrow> trafficDelta \<Rightarrow> u64" where
  "part_of up d = (if up then td_u d else td_d d)"

definition in_map :: "bool \<Rightarrow> (string \<rightharpoonup> trafficDelta) \<Rightarrow> string \<Rightarrow> u64" where
  "in_map up m name = (case m name of None \<Rightarrow> 0 | Some d \<Rightarrow> part_of up d)"

definition in_file :: "bool \<Rightarrow> UserConfig list \<Rightarrow> string \<Rightarrow> u64" where
  "in_file up us name = (case find (\<lambda>u. u_Name u = name) us of None \<Rightarrow> 0 | Some u \<Rightarrow> if up then u_U u else u_D u)"

abbreviation at_most :: "trafficSnapshot \<Rightarrow> trafficSnapshot \<Rightarrow> bool" where
  "at_most s t \<equiv> ts_sent s \<le> ts_sent t \<and> ts_received s \<le> ts_received t"

definition read_of :: "world \<Rightarrow> string \<Rightarrow> bool \<Rightarrow> (nat \<Rightarrow> trafficSnapshot) \<Rightarrow> nat" where
  "read_of w name up seen = (\<Sum>mc\<in>set (w_all w). if sp_userName (w_sp w) mc = name then unat (count_of up (seen mc)) else 0)"

definition reading :: "world \<Rightarrow> nat \<Rightarrow> trafficSnapshot" where
  "reading w mc = TrafficSnapshot (sp_mux (w_sp w) mc)"

lemma sum_conn_update:
  fixes f :: "nat \<Rightarrow> nat"
  assumes "finite S" and "mc \<in> S"
  shows "sum (f(mc := v)) S + f mc = sum f S + v"
proof -
  have "sum (f(mc := v)) (S - {mc}) = sum f (S - {mc})" by (rule sum.cong) auto
  then show ?thesis using assms by (simp add: sum.remove [of S mc])
qed

lemma read_of_update:
  assumes "mc \<in> set (w_all w)" and "sp_userName (w_sp w) mc = name"
  shows "read_of w name up (seen(mc := s)) + unat (count_of up (seen mc)) = read_of w name up seen + unat (count_of up s)"
proof -
  let ?f = "\<lambda>q. if sp_userName (w_sp w) q = name then unat (count_of up (seen q)) else 0"
  have "read_of w name up (seen(mc := s)) = sum (?f(mc := unat (count_of up s))) (set (w_all w))"
    using assms(2) unfolding read_of_def by (intro sum.cong) auto
  then show ?thesis using sum_conn_update [of "set (w_all w)" mc ?f "unat (count_of up s)"] assms by (simp add: read_of_def)
qed

lemma read_of_other: "sp_userName (w_sp w) mc \<noteq> name \<Longrightarrow> read_of w name up (seen(mc := s)) = read_of w name up seen"
  unfolding read_of_def by (rule sum.cong) auto

lemma read_of_mono:
  assumes "\<And>mc. at_most (seen mc) (seen' mc)"
  shows "read_of w name up seen \<le> read_of w name up seen'"
  unfolding read_of_def by (rule sum_mono) (use assms in \<open>auto simp: count_of_def word_le_nat_alt\<close>)

lemma mux_counters [simp]: "TrafficSnapshot (Mux_Close mx) = TrafficSnapshot mx"
  "TrafficSnapshot (configureReverseMuxCapacity mx) = TrafficSnapshot mx"
  "mx_closed (configureReverseMuxCapacity mx) = mx_closed mx" "mx_closed (Mux_Close mx)"
proof -
  have f: "mx_bytesSent (foldl (\<lambda>m a. fst (mux_markClosed m a)) mx as) = mx_bytesSent mx \<and>
      mx_bytesReceived (foldl (\<lambda>m a. fst (mux_markClosed m a)) mx as) = mx_bytesReceived mx" for as mx
    by (induction as arbitrary: mx) (auto simp: mux_markClosed_def put_chan_def Let_def split: prod.splits)
  then show "TrafficSnapshot (Mux_Close mx) = TrafficSnapshot mx"
    by (simp add: Mux_Close_def Let_def close_channels_def TrafficSnapshot_def split: option.split)
  show "mx_closed (Mux_Close mx)" by (simp add: Mux_Close_def Let_def close_channels_def split: option.split)
qed (simp_all add: configureReverseMuxCapacity_def SetMaxConcurrentChannels_def SetMaxChannelAllocations_def TrafficSnapshot_def Let_def)

lemma collect_pending:
  assumes "sp_connStats sp mc = Some l" and "at_most l (TrafficSnapshot (sp_mux sp mc))"
  shows "in_map up (sp_pending (collectConnTrafficLocked sp mc)) name =
    in_map up (sp_pending sp) name +
      (if sp_userName sp mc \<noteq> [] \<and> sp_userName sp mc = name then count_of up (TrafficSnapshot (sp_mux sp mc)) - count_of up l else 0)"
  using assms
  by (auto simp: collectConnTrafficLocked_def Let_def addPendingTraffic_def in_map_def part_of_def count_of_def not_less split: option.splits)

lemma collect_keeps [simp]:
  "sp_mux (collectConnTrafficLocked sp mc) = sp_mux sp" "sp_userName (collectConnTrafficLocked sp mc) = sp_userName sp"
  "sp_muxConns (collectConnTrafficLocked sp mc) = sp_muxConns sp" "sp_reverse (collectConnTrafficLocked sp mc) = sp_reverse sp"
  "sp_acl (collectConnTrafficLocked sp mc) = sp_acl sp"
  "sp_connStats (collectConnTrafficLocked sp mc) =
     (if sp_userName sp mc = [] then sp_connStats sp else (sp_connStats sp)(mc \<mapsto> TrafficSnapshot (sp_mux sp mc)))"
  by (simp_all add: collectConnTrafficLocked_def Let_def addPendingTraffic_def)

lemma visit_effect:
  assumes "visit allowed k sp mc = (sp', keep)"
  obtains sp1 where "sp1 = (if reading_visit k keep then collectConnTrafficLocked sp mc else sp)" "sp_pending sp' = sp_pending sp1" "sp_userName sp' = sp_userName sp"
    "sp_acl sp' = sp_acl sp" "sp_muxConns sp' = sp_muxConns sp" "\<And>q. TrafficSnapshot (sp_mux sp' q) = TrafficSnapshot (sp_mux sp q)"
    "sp_connStats sp' = (if keep then sp_connStats sp1 else (sp_connStats sp1)(mc := None))" "\<not> keep \<Longrightarrow> mx_closed (sp_mux sp' mc)"
    "\<And>q. mx_closed (sp_mux sp q) \<Longrightarrow> mx_closed (sp_mux sp' q)"
    "rv_routes (sp_reverse sp') = rv_routes (sp_reverse sp) \<and> keep \<or> rv_routes (sp_reverse sp') = removeMux (rv_routes (sp_reverse sp)) mc"
proof (cases k)
  case Collect
  then show ?thesis using assms by (intro that [of "collectConnTrafficLocked sp mc"]) (auto simp: visit_def reading_visit_def)
next
  case (Cleanup now)
  then show ?thesis using assms
    by (intro that [of "collectConnTrafficLocked sp mc"]) (auto simp: visit_def reading_visit_def drop_conn_def forget_routes_def Let_def split: if_splits)
next
  case (Refresh en)
  then show ?thesis using assms
    by (cases keep; intro that [of "if keep then sp else collectConnTrafficLocked sp mc"])
      (auto simp: visit_def reading_visit_def drop_conn_def forget_routes_def Let_def split: if_splits)
qed


definition pool_inv :: "world \<Rightarrow> bool" where
  "pool_inv w \<longleftrightarrow>
     distinct (managed w) \<and> set (managed w) \<subseteq> set (w_all w) \<and>
     (\<forall>mc \<in> set (w_all w). mc \<notin> set (managed w) \<longrightarrow> mx_closed (sp_mux (w_sp w) mc)) \<and>
     (\<forall>mc. w_handler w mc \<noteq> HandlerIdle \<longrightarrow> mc \<in> set (w_all w))"

lemma managed_update [simp]:
  "managed (w\<lparr>w_handler := h\<rparr>) = managed w" "managed (w\<lparr>w_file := fl\<rparr>) = managed w" "managed (w\<lparr>w_flush := f\<rparr>) = managed w"
  "managed (w\<lparr>w_all := a\<rparr>) = managed w" "managed (w\<lparr>w_read := rd\<rparr>) = managed w"
  "sp_muxConns sp = sp_muxConns (w_sp w) \<Longrightarrow> managed (w\<lparr>w_sp := sp\<rparr>) = managed w"
  by (simp_all add: managed_def split: option.split prod.split)

lemma pool_invariant: "serves allowed us w \<Longrightarrow> pool_inv w"
proof (induction rule: serves.induct)
  case (serves_visit w k mc todo kept sp keep)
  obtain sp1 where v: "sp_muxConns sp = sp_muxConns (w_sp w)" "\<not> keep \<Longrightarrow> mx_closed (sp_mux sp mc)"
    "\<And>q. mx_closed (sp_mux (w_sp w) q) \<Longrightarrow> mx_closed (sp_mux sp q)"
    using visit_effect [OF serves_visit.hyps(3)] by metis
  show ?case using serves_visit.IH serves_visit.hyps(2) v by (auto simp: pool_inv_def managed_def)
next
  case (serves_sweep w k f f')
  then show ?case by (simp add: pool_inv_def managed_def)
next
  case (serves_swept w k kept f0 f)
  then show ?case by (simp add: pool_inv_def managed_def)
next
  case (serves_accept w mc mx sp)
  then show ?case by (auto simp: pool_inv_def managed_def)
next
  case (serves_start sp)
  then show ?case by (simp add: pool_inv_def managed_def)
qed (auto simp: pool_inv_def subtractPending_def)


definition loaded_of :: "flush \<Rightarrow> UserConfig list option" where
  "loaded_of f =
     (case f of FlushLoaded users \<Rightarrow> Some users | FlushUsersSet users \<Rightarrow> Some users | FlushRefreshing users \<Rightarrow> Some users
      | FlushRefreshed users \<Rightarrow> Some users | FlushSaving users s \<Rightarrow> Some users | _ \<Rightarrow> None)"

definition snapshot_of :: "flush \<Rightarrow> (string \<rightharpoonup> trafficDelta) option" where
  "snapshot_of f = (case f of FlushSaving users s \<Rightarrow> Some s | FlushSaved s \<Rightarrow> Some s | _ \<Rightarrow> None)"

definition saved_of :: "flush \<Rightarrow> string \<rightharpoonup> trafficDelta" where
  "saved_of f = (case f of FlushSaved s \<Rightarrow> s | _ \<Rightarrow> Map.empty)"

lemmas phase_defs = loaded_of_def snapshot_of_def saved_of_def

lemma sweep_phase_same:
  assumes "sweep_phase k f f1 f2"
  shows "saved_of f1 = saved_of f" "saved_of f2 = saved_of f1" "snapshot_of f1 = snapshot_of f" "snapshot_of f2 = snapshot_of f1"
    "loaded_of f1 = loaded_of f" "loaded_of f2 = loaded_of f1"
  using assms by (auto elim!: sweep_phaseE simp: phase_defs)

lemma normalize_users_traffic:
  "normalize_users us seen = Inr us \<Longrightarrow> normalize_users (add_traffic s us) seen = Inr (add_traffic s us)"
proof (induction us arbitrary: seen)
  case (Cons u us)
  let ?u = "u\<lparr>u_Name := TrimSpace (u_Name u)\<rparr>"
  have len: "normalize_users vs sn = Inr ws \<Longrightarrow> length ws \<le> length vs" for vs sn ws
    by (induction vs arbitrary: sn ws) (auto simp: Let_def split: if_splits sum.splits, (fastforce dest: le_SucI)+)
  have "u_Name ?u \<noteq> []" "u_Name ?u \<notin> set seen" "TrimSpace (u_Password u) \<noteq> []"
    using Cons.prems len [of us] by (auto simp: Let_def split: if_splits sum.splits) (metis Suc_n_not_le_n length_Cons)+
  moreover from this have "?u = u" "normalize_users us (u_Name ?u # seen) = Inr us"
    using Cons.prems by (auto simp: Let_def split: if_splits sum.splits)
  moreover have "u_Name u = TrimSpace (u_Name u)" using \<open>?u = u\<close> by (metis UserConfig.select_convs(1) UserConfig.surjective UserConfig.update_convs(1))
  ultimately show ?case
    using Cons.IH [of "u_Name ?u # seen"] by (simp add: add_traffic_def Let_def split: option.split) 
qed (simp add: add_traffic_def)


lemma same_counters_names: "same_counters us vs \<Longrightarrow> map u_Name us = map u_Name vs"
proof -
  assume "same_counters us vs"
  then have "map fst (map (\<lambda>u. (u_Name u, u_U u, u_D u)) us) = map fst (map (\<lambda>u. (u_Name u, u_U u, u_D u)) vs)" by simp
  then show ?thesis by (simp add: comp_def)
qed

lemma add_traffic_names: "map u_Name (add_traffic s users) = map u_Name users"
  by (auto simp: add_traffic_def split: option.split)

lemma file_invariant:
  "serves allowed us w \<Longrightarrow> normalizeUsers (w_file w) = Inr (w_file w) \<and> map u_Name (w_file w) = map u_Name us \<and>
    (\<forall>users. loaded_of (w_flush w) = Some users \<longrightarrow> same_counters users (w_file w) \<and> normalizeUsers users = Inr users)"
proof (induction rule: serves.induct)
  case (serves_save w users s)
  have l: "same_counters users (w_file w)" "normalizeUsers users = Inr users" using serves_save by (simp_all add: phase_defs)
  then show ?case
    using serves_save.IH add_traffic_names [of s users] same_counters_names [OF l(1)] normalize_users_traffic [of users "[]" s]
    by (simp add: phase_defs normalizeUsers_def)
next
  case (serves_edit w fl)
  note e = serves_edit.hyps(2) and IH = serves_edit.IH
  show ?case using serves_edit.hyps(3) IH same_counters_names [OF e] by (auto simp: e)
next
  case (serves_sweep w k f f')
  then show ?case using sweep_phase_same [OF serves_sweep.hyps(3)] by simp
next
  case (serves_swept w k kept f0 f)
  then show ?case using sweep_phase_same [OF serves_swept.hyps(3)] by simp
qed (auto simp: phase_defs)


definition billing_inv :: "UserConfig list \<Rightarrow> string \<Rightarrow> world \<Rightarrow> bool" where
  "billing_inv us name w \<longleftrightarrow>
     (\<forall>mc \<in> set (managed w). sp_connStats (w_sp w) mc = Some (w_read w mc)) \<and> (\<forall>mc. at_most (w_read w mc) (reading w mc)) \<and>
     (\<forall>mc. sp_userName (w_sp w) mc = [] \<longrightarrow> w_read w mc = no_snapshot) \<and>
     (\<forall>up. unat (in_file up (w_file w) name) + unat (in_map up (sp_pending (w_sp w)) name) =
           unat (in_file up us name) + read_of w name up (w_read w) + unat (in_map up (saved_of (w_flush w)) name)) \<and>
     (\<forall>up. in_map up (saved_of (w_flush w)) name \<le> in_file up (w_file w) name) \<and>
     (\<forall>up s. snapshot_of (w_flush w) = Some s \<longrightarrow> in_map up s name \<le> in_map up (sp_pending (w_sp w)) name)"

definition small :: "UserConfig list \<Rightarrow> string \<Rightarrow> world \<Rightarrow> bool" where
  "small us name w \<longleftrightarrow> (\<forall>up. unat (in_file up us name) + read_of w name up (reading w) < 2 ^ 64)"

lemma read_of_cong:
  "w_all w' = w_all w \<Longrightarrow> sp_userName (w_sp w') = sp_userName (w_sp w) \<Longrightarrow> read_of w' name up seen = read_of w name up seen"
  by (simp add: read_of_def)

lemma small_before:
  assumes "small us name w'" and "w_all w' = w_all w" and "sp_userName (w_sp w') = sp_userName (w_sp w)"
    and "\<And>q. at_most (reading w q) (reading w' q)"
  shows "small us name w"
  using assms read_of_mono [of "reading w" "reading w'" w name]
  by (auto simp: small_def read_of_cong [OF assms(2,3)] intro: le_less_trans [OF add_left_mono])

lemma billing_transfer:
  assumes inv: "billing_inv us name w" and same: "w_all w' = w_all w" "w_read w' = w_read w" "sp_userName (w_sp w') = sp_userName (w_sp w)"
    and sp: "sp_pending (w_sp w') = sp_pending (w_sp w)" "sp_connStats (w_sp w') = sp_connStats (w_sp w)"
    and m: "set (managed w') \<subseteq> set (managed w)" and r: "\<And>q. at_most (reading w q) (reading w' q)"
    and fl: "\<And>up. in_file up (w_file w') name = in_file up (w_file w) name"
    and ph: "saved_of (w_flush w') = saved_of (w_flush w)" "snapshot_of (w_flush w') = None \<or> snapshot_of (w_flush w') = snapshot_of (w_flush w)"
  shows "billing_inv us name w'"
proof -
  have "at_most (w_read w mc) (reading w' mc)" for mc using inv r [of mc] by (force simp: billing_inv_def intro: order_trans)
  then show ?thesis using inv sp m fl ph same by (auto simp: billing_inv_def read_of_cong [OF same(1,3)] subset_iff)
qed

lemma billing_collect:
  assumes inv: "billing_inv us name w" and sm: "small us name w" and mc: "mc \<in> set (managed w)" "set (managed w) \<subseteq> set (w_all w)"
    and n: "name \<noteq> []" and seen': "seen' = (if sp_userName (w_sp w) mc = [] then w_read w else (w_read w)(mc := reading w mc))"
  shows "billing_inv us name (w\<lparr>w_sp := collectConnTrafficLocked (w_sp w) mc, w_read := seen'\<rparr>)"
proof -
  let ?sp = "w_sp w" and ?w = "w\<lparr>w_sp := collectConnTrafficLocked (w_sp w) mc, w_read := seen'\<rparr>" and ?seen = "w_read w"
  have l: "sp_connStats ?sp mc = Some (?seen mc)" "at_most (?seen mc) (TrafficSnapshot (sp_mux ?sp mc))"
    using inv mc(1) by (auto simp: billing_inv_def reading_def)
  note P = collect_pending [OF l]
  have rd: "reading ?w = reading w" by (simp add: reading_def fun_eq_iff)
  have mg: "managed ?w = managed w" by simp
  show ?thesis
  proof (cases "sp_userName ?sp mc = name")
    case False
    then have "in_map up (sp_pending (collectConnTrafficLocked ?sp mc)) name = in_map up (sp_pending ?sp) name" for up using P by simp
    moreover have "read_of ?w name up seen' = read_of w name up ?seen" for up
      using read_of_other [OF False] read_of_cong [of ?w w] by (simp add: seen')
    ultimately show ?thesis using inv by (auto simp: billing_inv_def rd mg seen' reading_def)
  next
    case True
    then have s': "seen' = ?seen(mc := reading w mc)" using seen' n by simp
    have le: "count_of up (?seen mc) \<le> count_of up (reading w mc)" for up using l(2) by (simp add: count_of_def reading_def)
    have in': "in_map up (sp_pending (collectConnTrafficLocked ?sp mc)) name =
        in_map up (sp_pending ?sp) name + (count_of up (reading w mc) - count_of up (?seen mc))" for up
      using P True n by (simp add: reading_def)
    have R: "read_of ?w name up seen' + unat (count_of up (?seen mc)) = read_of w name up ?seen + unat (count_of up (reading w mc))" for up
      using read_of_update [of mc w name up ?seen "reading w mc"] mc True read_of_cong [of ?w w] by (auto simp: s')
    have "\<And>q. at_most (seen' q) (reading w q)" using inv by (simp add: billing_inv_def s')
    then have B: "unat (in_file up us name) + read_of ?w name up seen' < 2 ^ 64" for up
      using sm read_of_mono [of seen' "reading w" ?w name up] read_of_cong [of ?w w]
      by (fastforce simp: small_def intro: le_less_trans [OF add_left_mono])
    have add: "unat (in_map up (sp_pending (collectConnTrafficLocked ?sp mc)) name) =
        unat (in_map up (sp_pending ?sp) name) + (unat (count_of up (reading w mc)) - unat (count_of up (?seen mc)))" for up
    proof -
      have d: "unat (count_of up (reading w mc) - count_of up (?seen mc)) = unat (count_of up (reading w mc)) - unat (count_of up (?seen mc))"
        using le [of up] by (rule unat_sub)
      have "unat (in_map up (saved_of (w_flush w)) name) \<le> unat (in_file up (w_file w) name)"
        "unat (in_file up (w_file w) name) + unat (in_map up (sp_pending ?sp) name) =
         unat (in_file up us name) + read_of w name up ?seen + unat (in_map up (saved_of (w_flush w)) name)"
        using inv by (auto simp: billing_inv_def word_le_nat_alt)
      then have "unat (in_map up (sp_pending ?sp) name) + unat (count_of up (reading w mc) - count_of up (?seen mc)) < 2 ^ 64"
        using R [of up] B [of up] le [of up] unfolding d word_le_nat_alt by linarith
      then have "unat (in_map up (sp_pending ?sp) name + (count_of up (reading w mc) - count_of up (?seen mc))) =
          unat (in_map up (sp_pending ?sp) name) + unat (count_of up (reading w mc) - count_of up (?seen mc))"
        by (subst unat_add_lem [symmetric]) simp
      then show ?thesis unfolding in' d .
    qed
    have "in_map up (sp_pending ?sp) name \<le> in_map up (sp_pending (collectConnTrafficLocked ?sp mc)) name" for up
      unfolding word_le_nat_alt add by simp
    then have "in_map up s name \<le> in_map up (sp_pending (collectConnTrafficLocked ?sp mc)) name" if "snapshot_of (w_flush w) = Some s" for up s
      using inv that unfolding billing_inv_def by (meson order_trans)
    moreover have "unat (in_file up (w_file w) name) + unat (in_map up (sp_pending (collectConnTrafficLocked ?sp mc)) name) =
        unat (in_file up us name) + read_of ?w name up seen' + unat (in_map up (saved_of (w_flush w)) name)" for up
    proof -
      have "unat (in_file up (w_file w) name) + unat (in_map up (sp_pending ?sp) name) =
         unat (in_file up us name) + read_of w name up ?seen + unat (in_map up (saved_of (w_flush w)) name)"
        using inv by (simp add: billing_inv_def)
      then show ?thesis using R [of up] le [of up] unfolding add word_le_nat_alt by linarith
    qed
    ultimately show ?thesis
      using inv n True unfolding billing_inv_def rd mg s' by (auto simp: reading_def)
  qed
qed


lemma in_file_same: "same_counters us vs \<Longrightarrow> in_file up us name = in_file up vs name"
proof (induction us arbitrary: vs)
  case (Cons u us)
  then show ?case by (cases vs) (auto simp: in_file_def)
qed (simp add: in_file_def)

lemma in_file_add:
  assumes "name \<in> u_Name ` set users"
  shows "in_file up (add_traffic s users) name = in_file up users name + in_map up s name"
  using assms
proof (induction users)
  case (Cons u users)
  have n: "u_Name (case s (u_Name u) of None \<Rightarrow> u | Some d \<Rightarrow> u\<lparr>u_U := u_U u + td_u d, u_D := u_D u + td_d d\<rparr>) = u_Name u"
    by (simp split: option.split)
  show ?case
  proof (cases "u_Name u = name")
    case True
    then show ?thesis by (simp add: in_file_def add_traffic_def n) (simp add: in_map_def part_of_def split: option.split)
  next
    case False
    then show ?thesis using Cons n by (simp add: in_file_def add_traffic_def)
  qed
qed simp

lemma in_map_subtract:
  assumes "in_map True s name \<le> in_map True (sp_pending sp) name" and "in_map False s name \<le> in_map False (sp_pending sp) name"
  shows "in_map up (sp_pending (subtractPending sp s)) name = in_map up (sp_pending sp) name - in_map up s name"
proof (cases "s name")
  case (Some d)
  let ?c = "case sp_pending sp name of None \<Rightarrow> no_delta | Some c \<Rightarrow> c"
  have i: "in_map b (sp_pending sp) name = part_of b ?c" for b by (simp add: in_map_def part_of_def split: option.split)
  have "(if td_u ?c \<le> td_u d then 0 else td_u ?c - td_u d) = td_u ?c - td_u d" "(if td_d ?c \<le> td_d d then 0 else td_d ?c - td_d d) = td_d ?c - td_d d"
    using assms Some by (auto simp: i in_map_def [of _ s] part_of_def)
  then show ?thesis
    unfolding i by (simp add: subtractPending_def in_map_def Some part_of_def Let_def)
qed (simp add: subtractPending_def in_map_def)

lemma snapshot_in_map: "in_map up (pendingSnapshot sp) name = in_map up (sp_pending sp) name"
  by (simp add: pendingSnapshot_def in_map_def part_of_def split: option.split)


lemma billing_quiet:
  assumes "small us name w \<Longrightarrow> billing_inv us name w" and "small us name w'"
    and "w_all w' = w_all w" "w_read w' = w_read w" "sp_userName (w_sp w') = sp_userName (w_sp w)"
    "sp_pending (w_sp w') = sp_pending (w_sp w)" "sp_connStats (w_sp w') = sp_connStats (w_sp w)"
    "set (managed w') \<subseteq> set (managed w)" "\<And>q. at_most (reading w q) (reading w' q)"
    "\<And>up. in_file up (w_file w') name = in_file up (w_file w) name"
    "saved_of (w_flush w') = saved_of (w_flush w)" "snapshot_of (w_flush w') = None \<or> snapshot_of (w_flush w') = snapshot_of (w_flush w)"
  shows "billing_inv us name w'"
  using assms(1) small_before [OF assms(2,3,5,9)] billing_transfer [OF _ assms(3-12)] by blast

lemma billing_visit:
  assumes inv: "billing_inv us name w" and sm: "small us name w" and p: "pool_inv w" and n: "name \<noteq> []"
    and k: "w_sweep w = Some (k, mc # todo, kept)" "visit allowed k (w_sp w) mc = (sp, keep)"
  shows "billing_inv us name (w\<lparr>w_sp := sp, w_sweep := Some (k, todo, if keep then kept @ [mc] else kept),
    w_read := (if reading_visit k keep \<and> sp_userName (w_sp w) mc \<noteq> [] then (w_read w)(mc := TrafficSnapshot (sp_mux (w_sp w) mc)) else w_read w)\<rparr>)"
    (is "billing_inv us name ?w")
proof -
  obtain sp1 where v: "sp1 = (if reading_visit k keep then collectConnTrafficLocked (w_sp w) mc else w_sp w)" "sp_pending sp = sp_pending sp1"
    "sp_userName sp = sp_userName (w_sp w)" "\<And>q. TrafficSnapshot (sp_mux sp q) = TrafficSnapshot (sp_mux (w_sp w) q)"
    "sp_connStats sp = (if keep then sp_connStats sp1 else (sp_connStats sp1)(mc := None))"
    using visit_effect [OF k(2)] by metis
  have m: "managed w = kept @ mc # todo" "managed ?w = (if keep then kept @ mc # todo else kept @ todo)" by (simp_all add: managed_def k(1))
  have mc: "mc \<in> set (managed w)" "set (managed w) \<subseteq> set (w_all w)" "mc \<notin> set (kept @ todo)"
    using p m by (auto simp: pool_inv_def)
  define w1 where "w1 = w\<lparr>w_sp := sp1, w_read := w_read ?w\<rparr>"
  have s1: "billing_inv us name w1"
    using v(1) inv billing_collect [OF inv sm mc(1,2) n refl]
    by (cases "reading_visit k keep"; cases "sp_userName (w_sp w) mc = []") (simp_all add: w1_def reading_def)
  have u1: "sp_userName sp1 = sp_userName (w_sp w)" "sp_mux sp1 = sp_mux (w_sp w)" "sp_muxConns sp1 = sp_muxConns (w_sp w)" using v(1) by auto
  have rd: "reading ?w = reading w1" using v(4) by (simp add: reading_def fun_eq_iff w1_def u1)
  have "managed w1 = managed w" using u1 by (simp add: w1_def)
  then show ?thesis
    using s1 v(2,3,5) m mc(3) u1(1) read_of_cong [of ?w w1 name] unfolding billing_inv_def rd by (auto simp: w1_def)
qed

lemma billing_invariant:
  "serves allowed us w \<Longrightarrow> name \<in> u_Name ` set us \<Longrightarrow> name \<noteq> [] \<Longrightarrow> small us name w \<Longrightarrow> billing_inv us name w"
proof (induction rule: serves.induct)
  case (serves_start sp)
  then show ?case by (simp add: billing_inv_def managed_def phase_defs in_map_def read_of_def count_of_def)
next
  case (serves_accept w mc mx sp)
  let ?w = "w\<lparr>w_sp := sp\<lparr>sp_mux := (sp_mux sp)(mc := mx), sp_userName := (sp_userName sp)(mc := []),
      sp_muxConns := sp_muxConns sp @ [mc], sp_connStats := (sp_connStats sp)(mc \<mapsto> no_snapshot)\<rparr>, w_all := w_all w @ [mc], w_read := (w_read w)(mc := no_snapshot)\<rparr>"
  have n0: "name \<noteq> []" by (rule serves_accept.prems(2))
  have R: "read_of ?w name up seen' = read_of w name up seen" if "\<And>q. q \<noteq> mc \<Longrightarrow> seen' q = seen q" for up seen seen'
    using serves_accept.hyps n0 that by (auto simp: read_of_def intro!: sum.cong)
  have "small us name w" using serves_accept.prems R [of "reading ?w" "reading w"] serves_accept.hyps(5) by (simp add: small_def reading_def)
  then have s: "billing_inv us name w" using serves_accept by blast
  then show ?case
    using serves_accept.hyps R [of "(w_read w)(mc := no_snapshot)" "w_read w"]
    by (auto simp: billing_inv_def managed_def reading_def)
next
  case (serves_user w mc n)
  let ?w = "w\<lparr>w_sp := (w_sp w)\<lparr>sp_userName := (sp_userName (w_sp w))(mc := n)\<rparr>\<rparr>"
  have "read_of w name up sn \<le> read_of ?w name up sn" for up sn
    using serves_user.prems(2) serves_user.hyps(3) by (auto simp: read_of_def intro!: sum_mono)
  moreover have "reading ?w = reading w" by (simp add: reading_def fun_eq_iff)
  ultimately have "small us name w" using serves_user.prems(3) unfolding small_def by (metis add_left_mono le_less_trans)
  then have s: "billing_inv us name w" using serves_user by blast
  have "read_of ?w name up (w_read w) = read_of w name up (w_read w)" for up
    using serves_user.prems(2) serves_user.hyps(3) s by (auto simp: read_of_def billing_inv_def count_of_def intro!: sum.cong)
  moreover have "managed ?w = managed w" by simp
  ultimately have "billing_inv us name ?w" using s serves_user.hyps(3) by (auto simp: billing_inv_def reading_def)
  then show ?case .
next
  case (serves_visit w k mc todo kept sp keep)
  have "sp_userName sp = sp_userName (w_sp w)" "\<And>q. TrafficSnapshot (sp_mux sp q) = TrafficSnapshot (sp_mux (w_sp w) q)"
    using visit_effect [OF serves_visit.hyps(3)] by metis+
  then have sm: "small us name w" using small_before [OF serves_visit.prems(3), of w] by (simp add: reading_def)
  then show ?case using serves_visit billing_visit [OF _ sm pool_invariant [OF serves_visit.hyps(1)]] by blast
next
  case (serves_save w users s)
  let ?w = "w\<lparr>w_file := add_traffic s users, w_flush := FlushSaved s\<rparr>"
  have sm: "small us name w" using small_before [OF serves_save.prems(3), of w] by (simp add: reading_def)
  then have b: "billing_inv us name w" using serves_save by blast
  note F = file_invariant [OF serves_save.hyps(1)]
  have l: "same_counters users (w_file w)" "map u_Name users = map u_Name us"
    using F serves_save.hyps(2) same_counters_names [of users "w_file w"] by (simp_all add: phase_defs)
  then have nu: "name \<in> u_Name ` set users" using serves_save.prems(1) by (metis image_set)
  have nf: "in_file up (add_traffic s users) name = in_file up (w_file w) name + in_map up s name" for up
    using in_file_add [OF nu] in_file_same [OF l(1)] by simp
  have eq: "unat (in_file up (w_file w) name) + unat (in_map up (sp_pending (w_sp w)) name) = unat (in_file up us name) + read_of w name up (w_read w)"
      "unat (in_map up s name) \<le> unat (in_map up (sp_pending (w_sp w)) name)" for up
    using b serves_save.hyps(2) by (auto simp: billing_inv_def phase_defs in_map_def word_le_nat_alt)
  have "read_of w name up (w_read w) \<le> read_of w name up (reading w)" for up using b by (intro read_of_mono) (simp add: billing_inv_def)
  then have "unat (in_file up (w_file w) name) + unat (in_map up s name) < 2 ^ 64" for up
    using sm eq [of up] unfolding small_def by (metis add_left_mono le_less_trans)
  then have add: "unat (in_file up (w_file w) name + in_map up s name) = unat (in_file up (w_file w) name) + unat (in_map up s name)" for up
    by (subst unat_add_lem [symmetric]) simp
  have "billing_inv us name ?w"
    using b eq add nf by (auto simp: billing_inv_def reading_def read_of_def phase_defs word_le_nat_alt)
  then show ?case .
next
  case (serves_subtract w s)
  let ?w = "w\<lparr>w_sp := subtractPending (w_sp w) s, w_flush := FlushIdle\<rparr>"
  have sm: "small us name w" using small_before [OF serves_subtract.prems(3), of w] by (simp add: reading_def subtractPending_def)
  then have b: "billing_inv us name w" using serves_subtract by blast
  then have le: "in_map up s name \<le> in_map up (sp_pending (w_sp w)) name" for up using serves_subtract.hyps(2) by (simp add: billing_inv_def phase_defs)
  have "unat (in_map up (sp_pending (subtractPending (w_sp w) s)) name) = unat (in_map up (sp_pending (w_sp w)) name) - unat (in_map up s name)" for up
    using in_map_subtract [OF le le, of up] unat_sub [OF le] by simp
  moreover have "sp_userName (subtractPending (w_sp w) s) = sp_userName (w_sp w)" "sp_connStats (subtractPending (w_sp w) s) = sp_connStats (w_sp w)"
    "sp_mux (subtractPending (w_sp w) s) = sp_mux (w_sp w)" "sp_muxConns (subtractPending (w_sp w) s) = sp_muxConns (w_sp w)"
    by (simp_all add: subtractPending_def)
  ultimately have "billing_inv us name ?w"
    using b le serves_subtract.hyps(2) by (auto simp: billing_inv_def reading_def read_of_def phase_defs in_map_def [of _ Map.empty] word_le_nat_alt)
  then show ?case .
next
  case (serves_snapshot w users)
  have "small us name w" using small_before [OF serves_snapshot.prems(3), of w] by (simp add: reading_def)
  then have "billing_inv us name w" using serves_snapshot by blast
  then have "billing_inv us name (w\<lparr>w_flush := FlushSaving users (pendingSnapshot (w_sp w))\<rparr>)"
    using serves_snapshot.hyps(2) by (auto simp: billing_inv_def reading_def read_of_def phase_defs snapshot_in_map)
  then show ?case .
next
  case (serves_mux w mc mx)
  show ?case
    by (rule billing_quiet [OF serves_mux.IH [OF serves_mux.prems(1,2)] serves_mux.prems(3)])
      (use serves_mux.hyps in \<open>auto simp: reading_def TrafficSnapshot_def\<close>)
next
  case (serves_sweep w k f f')
  show ?case
    by (rule billing_quiet [OF serves_sweep.IH [OF serves_sweep.prems(1,2)] serves_sweep.prems(3)])
      (use serves_sweep.hyps sweep_phase_same [OF serves_sweep.hyps(3)] in \<open>auto simp: reading_def managed_def\<close>)
next
  case (serves_swept w k kept f0 f)
  show ?case
    by (rule billing_quiet [OF serves_swept.IH [OF serves_swept.prems(1,2)] serves_swept.prems(3)])
      (use serves_swept.hyps sweep_phase_same [OF serves_swept.hyps(3)] in \<open>auto simp: reading_def managed_def\<close>)
next
  case (serves_load w users)
  show ?case
    by (rule billing_quiet [OF serves_load.IH [OF serves_load.prems(1,2)] serves_load.prems(3)])
      (use serves_load.hyps in \<open>auto simp: reading_def phase_defs\<close>)
next
  case (serves_users w users outbounds a)
  show ?case
    by (rule billing_quiet [OF serves_users.IH [OF serves_users.prems(1,2)] serves_users.prems(3)])
      (use serves_users.hyps in \<open>auto simp: reading_def phase_defs\<close>)
next
  case (serves_users_refused w users outbounds e)
  show ?case
    by (rule billing_quiet [OF serves_users_refused.IH [OF serves_users_refused.prems(1,2)] serves_users_refused.prems(3)])
      (use serves_users_refused.hyps in \<open>auto simp: reading_def phase_defs\<close>)
next
  case (serves_give_up w users snapshot)
  show ?case
    by (rule billing_quiet [OF serves_give_up.IH [OF serves_give_up.prems(1,2)] serves_give_up.prems(3)])
      (use serves_give_up.hyps in \<open>auto simp: reading_def phase_defs\<close>)
next
  case (serves_edit w fl)
  show ?case
    by (rule billing_quiet [OF serves_edit.IH [OF serves_edit.prems(1,2)] serves_edit.prems(3)])
      (use serves_edit.hyps in \<open>auto simp: reading_def phase_defs in_file_same [OF serves_edit.hyps(2)]\<close>)
next
  case (serves_register w mc sp password route)
  show ?case
    by (rule billing_quiet [OF serves_register.IH [OF serves_register.prems(1,2)] serves_register.prems(3)])
      (use serves_register.hyps in \<open>auto simp: reading_def phase_defs\<close>)
next
  case (serves_switched w mc)
  show ?case
    by (rule billing_quiet [OF serves_switched.IH [OF serves_switched.prems(1,2)] serves_switched.prems(3)])
      (use serves_switched.hyps in \<open>auto simp: reading_def phase_defs\<close>)
next
  case (serves_switch_failed w mc)
  show ?case
    by (rule billing_quiet [OF serves_switch_failed.IH [OF serves_switch_failed.prems(1,2)] serves_switch_failed.prems(3)])
      (use serves_switch_failed.hyps in \<open>auto simp: reading_def phase_defs\<close>)
next
  case (serves_unregister w mc sp)
  show ?case
    by (rule billing_quiet [OF serves_unregister.IH [OF serves_unregister.prems(1,2)] serves_unregister.prems(3)])
      (use serves_unregister.hyps in \<open>auto simp: reading_def phase_defs\<close>)
qed


section \<open>Routes belong to managed connections of permitted users\<close>

definition permitted :: "bool \<Rightarrow> world \<Rightarrow> nat \<Rightarrow> bool" where
  "permitted allowed w mc \<longleftrightarrow> withReverseRoutePermission (sp_acl (w_sp w)) allowed (sp_userName (w_sp w) mc) \<noteq> None"

text \<open>The connections that a change of the users has not reached yet.\<close>

definition to_visit :: "world \<Rightarrow> nat set" where
  "to_visit w =
     (case w_flush w of
        FlushUsersSet users \<Rightarrow> set (managed w)
      | FlushRefreshing users \<Rightarrow> (case w_sweep w of None \<Rightarrow> {} | Some (k, todo, kept) \<Rightarrow> set todo)
      | _ \<Rightarrow> {})"

definition route_inv :: "bool \<Rightarrow> world \<Rightarrow> bool" where
  "route_inv allowed w \<longleftrightarrow>
     (\<forall>mc \<in> e_mc ` set (rv_routes (sp_reverse (w_sp w))). mc \<in> set (w_all w) \<and> sp_userName (w_sp w) mc \<noteq> [] \<and>
        (w_handler w mc = HandlerRegistered \<longrightarrow> permitted allowed w mc) \<and>
        (w_handler w mc = HandlerIdle \<longrightarrow> mc \<in> set (managed w) \<and> (permitted allowed w mc \<or> mc \<in> to_visit w)))"

lemma table_members:
  "e_mc ` set (register es mc route) = insert mc (e_mc ` set es)" "e_mc ` set (removeMux es mc) = e_mc ` set es - {mc}"
proof -
  have "set (take n xs) \<union> set (drop n xs) = set xs" for n and xs :: "reverseRouteEntry list"
    by (metis append_take_drop_id set_append)
  then have "set (register es mc route) = insert \<lparr>e_mc = mc, e_route = route\<rparr> (set (filter (\<lambda>e. e_mc e \<noteq> mc) es))"
    by (auto simp: register_def Let_def)
  then show "e_mc ` set (register es mc route) = insert mc (e_mc ` set es)" by auto
  show "e_mc ` set (removeMux es mc) = e_mc ` set es - {mc}" by (auto simp: removeMux_def)
qed

lemma refreshing_sweep: "serves allowed us w \<Longrightarrow> w_flush w = FlushRefreshing users \<Longrightarrow> \<exists>en todo kept. w_sweep w = Some (Refresh en, todo, kept)"
  by (induction rule: serves.induct) (auto elim!: sweep_phaseE)

lemma visit_refresh:
  assumes "visit allowed (Refresh en) sp mc = (sp', keep)" and "sp_userName sp mc \<noteq> []" and "mc \<in> e_mc ` set (rv_routes (sp_reverse sp'))"
  shows "withReverseRoutePermission (sp_acl sp) allowed (sp_userName sp mc) \<noteq> None"
  using assms by (auto simp: visit_def drop_conn_def forget_routes_def removeMux_def Let_def split: if_splits)

lemma to_visit_update [simp]:
  "to_visit (w\<lparr>w_handler := h\<rparr>) = to_visit w" "sp_muxConns sp = sp_muxConns (w_sp w) \<Longrightarrow> to_visit (w\<lparr>w_sp := sp\<rparr>) = to_visit w"
  by (simp_all add: to_visit_def split: flush.split)

lemma route_invariant: "serves allowed us w \<Longrightarrow> route_inv allowed w"
proof (induction rule: serves.induct)
  case (serves_start sp)
  then show ?case by (simp add: route_inv_def)
next
  case (serves_visit w k mc todo kept sp keep)
  let ?w = "w\<lparr>w_sp := sp, w_sweep := Some (k, todo, if keep then kept @ [mc] else kept),
      w_read := (if reading_visit k keep \<and> sp_userName (w_sp w) mc \<noteq> [] then (w_read w)(mc := TrafficSnapshot (sp_mux (w_sp w) mc)) else w_read w)\<rparr>"
  let ?R = "\<lambda>sp. e_mc ` set (rv_routes (sp_reverse sp))"
  have v: "sp_userName sp = sp_userName (w_sp w)" "sp_acl sp = sp_acl (w_sp w)"
    "rv_routes (sp_reverse sp) = rv_routes (sp_reverse (w_sp w)) \<and> keep \<or> rv_routes (sp_reverse sp) = removeMux (rv_routes (sp_reverse (w_sp w))) mc"
    using visit_effect [OF serves_visit.hyps(3)] by metis+
  have r: "?R sp \<subseteq> ?R (w_sp w)" "mc \<in> ?R sp \<Longrightarrow> keep" using v(3) by (auto simp: removeMux_def)
  have p: "permitted allowed ?w = permitted allowed w" using v by (simp add: permitted_def fun_eq_iff)
  have m: "managed w = kept @ mc # todo" "managed ?w = (if keep then kept @ mc # todo else kept @ todo)"
    by (simp_all add: managed_def serves_visit.hyps(2))
  have "permitted allowed w q \<or> q \<in> to_visit ?w" if q: "q \<in> ?R sp" "permitted allowed w q \<or> q \<in> to_visit w" for q
  proof (cases "q = mc")
    case False
    then show ?thesis using q m serves_visit.hyps(2) by (auto simp: to_visit_def split: flush.splits)
  next
    case True
    show ?thesis
    proof (cases "\<exists>users. w_flush w = FlushRefreshing users")
      case True
      then obtain en where "k = Refresh en" using refreshing_sweep [OF serves_visit.hyps(1)] serves_visit.hyps(2) by fastforce
      moreover have "sp_userName (w_sp w) mc \<noteq> []" using serves_visit.IH q(1) r(1) \<open>q = mc\<close> by (auto simp: route_inv_def)
      ultimately show ?thesis using visit_refresh [of allowed en "w_sp w" mc sp keep] serves_visit.hyps(3) q(1) \<open>q = mc\<close> by (simp add: permitted_def)
    next
      case False
      then show ?thesis using q m r(2) \<open>q = mc\<close> by (auto simp: to_visit_def split: flush.splits)
    qed
  qed
  moreover have "q \<in> set (managed ?w)" if "q \<in> ?R sp" "q \<in> set (managed w)" for q
    using that r(2) m by (cases "q = mc") auto
  moreover have "q \<in> set (w_all w) \<and> sp_userName (w_sp w) q \<noteq> [] \<and> (w_handler w q = HandlerRegistered \<longrightarrow> permitted allowed w q) \<and>
      (w_handler w q = HandlerIdle \<longrightarrow> q \<in> set (managed w) \<and> (permitted allowed w q \<or> q \<in> to_visit w))" if "q \<in> ?R sp" for q
    using serves_visit.IH that r(1) unfolding route_inv_def by blast
  ultimately have "q \<in> set (w_all w) \<and> sp_userName sp q \<noteq> [] \<and> (w_handler w q = HandlerRegistered \<longrightarrow> permitted allowed ?w q) \<and>
      (w_handler w q = HandlerIdle \<longrightarrow> q \<in> set (managed ?w) \<and> (permitted allowed ?w q \<or> q \<in> to_visit ?w))" if "q \<in> ?R sp" for q
    using that unfolding p v(1) by blast
  then show ?case by (simp add: route_inv_def)
next
  case (serves_sweep w k f f')
  then show ?case by (auto simp: route_inv_def permitted_def to_visit_def managed_def elim!: sweep_phaseE split: flush.splits)
next
  case (serves_swept w k kept f0 f)
  then show ?case by (auto simp: route_inv_def permitted_def to_visit_def managed_def elim!: sweep_phaseE split: flush.splits)
next
  case (serves_accept w mc mx sp)
  then show ?case by (auto simp: route_inv_def permitted_def to_visit_def managed_def split: flush.splits)
next
  case (serves_user w mc name)
  then show ?case by (auto simp: route_inv_def permitted_def to_visit_def split: flush.splits)
next
  case (serves_switched w mc)
  then show ?case using pool_invariant [OF serves_switched.hyps(1)]
    by (auto simp: route_inv_def permitted_def to_visit_def pool_inv_def split: flush.splits)
next
  case (serves_register w mc sp password route)
  let ?w = "w\<lparr>w_sp := sp\<lparr>sp_reverse := (sp_reverse sp)\<lparr>rv_routes := register (rv_routes (sp_reverse sp)) mc route\<rparr>,
      sp_mux := (sp_mux sp)(mc := configureReverseMuxCapacity (sp_mux sp mc))\<rparr>, w_handler := (w_handler w)(mc := HandlerRegistered)\<rparr>"
  have t: "e_mc ` set (rv_routes (sp_reverse (w_sp ?w))) = insert mc (e_mc ` set (rv_routes (sp_reverse (w_sp w))))"
    using serves_register.hyps by (simp add: table_members)
  have "to_visit ?w = to_visit w" "permitted allowed ?w = permitted allowed w" "managed ?w = managed w"
    using serves_register.hyps by (simp_all add: permitted_def fun_eq_iff)
  moreover have "sp_userName sp mc \<noteq> []" using serves_register.hyps by (auto simp: withReverseRoutePermission_def)
  ultimately show ?case using serves_register unfolding route_inv_def t by (auto simp: permitted_def)
next
  case (serves_switch_failed w mc)
  have "to_visit (w\<lparr>w_handler := h\<rparr>) = to_visit w" "permitted allowed (w\<lparr>w_handler := h\<rparr>) = permitted allowed w" for h
    by (simp_all add: permitted_def fun_eq_iff)
  then show ?case using serves_switch_failed.IH by (simp add: route_inv_def)
next
  case (serves_unregister w mc sp)
  let ?w = "w\<lparr>w_sp := sp\<lparr>sp_reverse := (sp_reverse sp)\<lparr>rv_routes := removeMux (rv_routes (sp_reverse sp)) mc\<rparr>,
      sp_mux := (sp_mux sp)(mc := Mux_Close (sp_mux sp mc))\<rparr>, w_handler := (w_handler w)(mc := HandlerIdle)\<rparr>"
  have t: "e_mc ` set (rv_routes (sp_reverse (w_sp ?w))) = e_mc ` set (rv_routes (sp_reverse (w_sp w))) - {mc}"
    using serves_unregister.hyps by (simp add: table_members)
  have "to_visit ?w = to_visit w" "permitted allowed ?w = permitted allowed w" "managed ?w = managed w"
    using serves_unregister.hyps by (simp_all add: permitted_def fun_eq_iff)
  then show ?case using serves_unregister unfolding route_inv_def t by auto
qed (fastforce simp: route_inv_def permitted_def to_visit_def subtractPending_def split: flush.splits)+


section \<open>The properties\<close>

lemma normalize_users_spec:
  "normalize_users us seen = Inr out \<Longrightarrow>
    map u_Name out = map (\<lambda>u. TrimSpace (u_Name u)) (filter (\<lambda>u. TrimSpace (u_Name u) \<noteq> [] \<and> TrimSpace (u_Password u) \<noteq> []) us)"
  by (induction us arbitrary: seen out) (auto simp: Let_def split: if_splits sum.splits)

lemma normalize_users_named: "normalizeUsers us = Inr out \<Longrightarrow> [] \<notin> u_Name ` set out"
proof -
  assume "normalizeUsers us = Inr out"
  then have "set (map u_Name out) =
      set (map (\<lambda>u. TrimSpace (u_Name u)) (filter (\<lambda>u. TrimSpace (u_Name u) \<noteq> [] \<and> TrimSpace (u_Password u) \<noteq> []) us))"
    using normalize_users_spec [of us "[]" out] by (simp add: normalizeUsers_def)
  then show ?thesis by auto
qed

text \<open>
  C31. The traffic of a user is billed exactly once.  However the collection of traffic, the removal of idle connections and of
  those of disabled users, the update of the configuration file and the connections themselves interleave, the counter
  of a user in the file plus what is pending in memory is the counter the file had at the start plus, for each connection
  of the user, what it had counted when it was last read (\<open>w_read\<close>): at the last collection or search for idle
  connections that visited it, and at the latest at the visit that took it off the list, so that nothing counted until
  then is lost and nothing is added twice.  Between the save and the subtraction the saved amount is still pending as well.
  This holds for a user of the file as long as the user's total fits in 64 bits, and if nobody else changes the names and
  counters of the file while the server runs.
\<close>

theorem traffic_billed_once:
  assumes "serves allowed us w" and "name \<in> u_Name ` set us"
    and "\<And>up. unat (in_file up us name) + read_of w name up (reading w) < 2 ^ 64"
  shows "unat (in_file up (w_file w) name) + unat (in_map up (sp_pending (w_sp w)) name) =
       unat (in_file up us name) + read_of w name up (w_read w) + unat (in_map up (saved_of (w_flush w)) name) \<and>
    at_most (w_read w mc) (reading w mc) \<and> (mc \<in> set (managed w) \<longrightarrow> sp_connStats (w_sp w) mc = Some (w_read w mc))"
proof -
  note F = file_invariant [OF assms(1)]
  have "name \<in> u_Name ` set (w_file w)" using F assms(2) by (metis image_set)
  then have "name \<noteq> []" using F normalize_users_named by metis
  then have "billing_inv us name w"
    using billing_invariant [OF assms(1,2)] assms(3) by (auto simp: small_def)
  then show ?thesis unfolding billing_inv_def by blast
qed

definition sample_billed :: UserConfig where
  "sample_billed = \<lparr>u_Name = ''a'', u_Password = ''p'', u_Enable = True, u_AllowReverseRoutes = True, u_U = 10, u_D = 20, u_ACL = None\<rparr>"

definition sample_acl :: aclServer where
  "sample_acl = \<lparr>sv_users = [sample_billed], sv_userACLs = Map.empty, sv_acl = None, sv_defaultReject = empty_rules, sv_aclCache = None,
     sv_aclGeneration = 0\<rparr>"

definition sample_counted :: "u64 \<Rightarrow> u64 \<Rightarrow> mux" where
  "sample_counted sent received =
     (NewMuxConnWithHandshake 1 True True 5 7 (MathRand 0) (MathRand 0))\<lparr>mx_bytesSent := sent, mx_bytesReceived := received\<rparr>"

definition sample_pool :: server_pool where
  "sample_pool =
     \<lparr>sp_mux = (\<lambda>_. sample_counted 0 0), sp_userName = (\<lambda>_. []), sp_muxConns = [], sp_connStats = Map.empty, sp_pending = Map.empty,
      sp_reverse = \<lparr>rv_recv = Map.empty, rv_routes = []\<rparr>, sp_acl = sample_acl\<rparr>"

lemma sample_normalized: "normalizeUsers [sample_billed] = Inr [sample_billed]"
proof -
  have "TrimSpace ''a'' = ''a''" "TrimSpace ''p'' = ''p''" by code_simp+
  then show ?thesis by (simp add: normalizeUsers_def sample_billed_def Let_def)
qed

text \<open>A connection of the user has counted 5 bytes down and 7 up.\<close>

definition sample_world :: world where
  "sample_world =
     \<lparr>w_sp = sample_pool\<lparr>sp_mux := (sp_mux sample_pool)(0 := sample_counted 5 7), sp_userName := (sp_userName sample_pool)(0 := ''a''),
        sp_muxConns := [0], sp_connStats := [0 \<mapsto> no_snapshot]\<rparr>,
      w_file = [sample_billed], w_sweep = None, w_flush = FlushIdle, w_handler = (\<lambda>_. HandlerIdle), w_all = [0],
      w_read = (\<lambda>_. no_snapshot)\<rparr>"

lemma sample_serves: "serves True [sample_billed] sample_world"
proof -
  let ?w = "\<lparr>w_sp = sample_pool, w_file = [sample_billed], w_sweep = None, w_flush = FlushIdle, w_handler = (\<lambda>_. HandlerIdle), w_all = [],
      w_read = (\<lambda>_. no_snapshot)\<rparr>"
  have "serves True [sample_billed] ?w" by (rule serves_start [OF sample_normalized]) (simp_all add: sample_pool_def)
  from serves_accept [OF this, of 0 "sample_counted 0 0" sample_pool]
  have "serves True [sample_billed] (?w\<lparr>w_sp := sample_pool\<lparr>sp_mux := (sp_mux sample_pool)(0 := sample_counted 0 0),
      sp_userName := (sp_userName sample_pool)(0 := []), sp_muxConns := [0], sp_connStats := [0 \<mapsto> no_snapshot]\<rparr>, w_all := [0]\<rparr>)"
    by (simp add: sample_pool_def sample_counted_def TrafficSnapshot_def fun_upd_idem)
  from serves_mux [OF serves_user [OF this, of 0 "''a''"], of 0 "sample_counted 5 7"]
  show ?thesis by (simp add: sample_world_def sample_pool_def sample_counted_def)
qed

text \<open>The connection closes, and the search for idle connections takes it off the list.\<close>

theorem traffic_billed_once_witness:
  "\<exists>w. serves True [sample_billed] w \<and> managed w = [] \<and>
     unat (in_file True (w_file w) ''a'') + unat (in_map True (sp_pending (w_sp w)) ''a'') = 10 + 7"
proof -
  let ?sq = "(w_sp sample_world)\<lparr>sp_mux := (sp_mux (w_sp sample_world))(0 := Mux_Close (sample_counted 5 7))\<rparr>"
  let ?u = "sample_world\<lparr>w_sp := ?sq\<rparr>"
  let ?w = "?u\<lparr>w_sweep := Some (Cleanup 0, [0], []), w_flush := FlushIdle\<rparr>"
  let ?sp = "drop_conn (collectConnTrafficLocked ?sq 0) 0"
  let ?v = "?w\<lparr>w_sp := ?sp, w_sweep := Some (Cleanup 0, [], []), w_read := (\<lambda>_. no_snapshot)(0 := \<lparr>ts_sent = 5, ts_received = 7\<rparr>)\<rparr>"
  have c: "TrafficSnapshot (Mux_Close (sample_counted 5 7)) = \<lparr>ts_sent = 5, ts_received = 7\<rparr>" "mx_bytesSent (sample_counted 5 7) = 5"
      "mx_bytesReceived (sample_counted 5 7) = 7"
    unfolding mux_counters(1) by (simp_all add: sample_counted_def TrafficSnapshot_def)
  moreover from c(1) have "mx_bytesSent (Mux_Close (sample_counted 5 7)) = 5" "mx_bytesReceived (Mux_Close (sample_counted 5 7)) = 7"
    unfolding TrafficSnapshot_def by simp_all
  ultimately have "serves True [sample_billed] ?u"
    using serves_mux [OF sample_serves, of 0 "Mux_Close (sample_counted 5 7)"] by (simp add: sample_world_def)
  from serves_sweep [OF this, of "Cleanup 0" FlushIdle FlushIdle]
  have "serves True [sample_billed] ?w" by (simp add: sample_world_def sweep_phase.intros)
  moreover have "visit True (Cleanup 0) (w_sp ?w) 0 = (?sp, False)" by (simp add: visit_def IsClosed_def Let_def)
  ultimately have v: "serves True [sample_billed] ?v"
    using serves_visit [of True "[sample_billed]" ?w "Cleanup 0" 0 "[]" "[]" ?sp False] c by (simp add: reading_visit_def sample_world_def)
  have r: "reading ?v 0 = \<lparr>ts_sent = 5, ts_received = 7\<rparr>" "w_all ?v = [0]" "sp_userName (w_sp ?v) 0 = ''a''" "managed ?v = []" "w_file ?v = [sample_billed]"
    using c by (simp_all add: reading_def managed_def sample_world_def drop_conn_def forget_routes_def)
  have f: "in_file up [sample_billed] ''a'' = (if up then 10 else 20)" for up by (simp add: in_file_def sample_billed_def)
  have "unat (in_file up [sample_billed] ''a'') + read_of ?v ''a'' up (reading ?v) < 2 ^ 64" for up
    using r by (cases up) (simp_all add: read_of_def count_of_def f)
  then have s: "unat (in_file True (w_file ?v) ''a'') + unat (in_map True (sp_pending (w_sp ?v)) ''a'') =
       unat (in_file True [sample_billed] ''a'') + read_of ?v ''a'' True (w_read ?v) + unat (in_map True (saved_of (w_flush ?v)) ''a'')"
    using traffic_billed_once [OF v, of "''a''" True 0] by (simp add: sample_billed_def)
  have "read_of ?v ''a'' True (w_read ?v) = 7" using r by (simp add: read_of_def count_of_def)
  then show ?thesis using v s r(4) by (intro exI [of _ ?v]) (simp add: f phase_defs in_map_def [of _ Map.empty])
qed

text \<open>
  C32. The table of reverse routes is safe against changes of the users.  In every interleaving, a route whose registration
  has ended belongs to a connection that the server still manages, so that it is removed with it; and its user is
  enabled and allowed to register routes by the current users, unless a change of the users is being applied and has
  not reached the connection yet.
\<close>

theorem reverse_routes_permitted:
  assumes "serves allowed us w" and "e \<in> set (rv_routes (sp_reverse (w_sp w)))" and "w_handler w (e_mc e) = HandlerIdle"
  shows "e_mc e \<in> set (managed w) \<and> (e_mc e \<notin> to_visit w \<longrightarrow> permitted allowed w (e_mc e))"
  using route_invariant [OF assms(1)] assms(2,3) by (auto simp: route_inv_def)

theorem reverse_routes_permitted_witness:
  "\<exists>w e. serves True [sample_billed] w \<and> e \<in> set (rv_routes (sp_reverse (w_sp w))) \<and> permitted True w (e_mc e)"
proof -
  define route where "route = \<lparr>accept_rules = empty_rules, reject_rules = empty_rules, priority = 256\<rparr>"
  let ?sp = "w_sp sample_world" and ?e = "\<lparr>e_mc = 0, e_route = route\<rparr>"
  let ?w = "sample_world\<lparr>w_sp := ?sp\<lparr>sp_reverse := (sp_reverse ?sp)\<lparr>rv_routes := register (rv_routes (sp_reverse ?sp)) 0 route\<rparr>,
      sp_mux := (sp_mux ?sp)(0 := configureReverseMuxCapacity (sp_mux ?sp 0))\<rparr>, w_handler := (w_handler sample_world)(0 := HandlerRegistered)\<rparr>"
  have "withReverseRoutePermission (sp_acl ?sp) True (sp_userName ?sp 0) = Some ''p''"
    by (simp add: sample_world_def sample_pool_def sample_acl_def sample_billed_def withReverseRoutePermission_def)
  then have w: "serves True [sample_billed] ?w"
    by (intro serves_register [OF sample_serves]) (simp_all add: sample_world_def)
  have v: "serves True [sample_billed] (?w\<lparr>w_handler := (w_handler ?w)(0 := HandlerIdle)\<rparr>)"
    by (rule serves_switched [OF w])
      (simp_all add: sample_world_def sample_counted_def NewMuxConnWithHandshake_def startInvalidDeadlineTimer_def)
  have e: "?e \<in> set (rv_routes (sp_reverse (w_sp (?w\<lparr>w_handler := (w_handler ?w)(0 := HandlerIdle)\<rparr>))))"
    by (simp add: register_def Let_def)
  have "permitted True (?w\<lparr>w_handler := (w_handler ?w)(0 := HandlerIdle)\<rparr>) 0"
    using reverse_routes_permitted [OF v e] by (simp add: to_visit_def) (simp add: sample_world_def)
  then show ?thesis using v e by (metis reverseRouteEntry.select_convs(1))
qed

text \<open>
  The file is written with the normalized users: those without a name or without a password are removed from it.
\<close>

theorem flush_drops_blank_users:
  assumes "flushTraffic allowed (Some (cfgUsers, outbounds)) saveOk sp = (sp', Some users, ok)"
  shows "map u_Name users = map (\<lambda>u. TrimSpace (u_Name u)) (filter (\<lambda>u. TrimSpace (u_Name u) \<noteq> [] \<and> TrimSpace (u_Password u) \<noteq> []) cfgUsers)"
  using assms normalize_users_spec [of cfgUsers "[]"]
  by (auto simp: flushTraffic_def normalizeUsers_def Let_def add_traffic_names split: sum.splits if_splits)

end
