(* ===== verification/Dns.thy ===== *)
theory Dns
  imports GoStrings LruCache ServerHealth Socks5
begin

unbundle bit_operations_syntax

text \<open>
  Names for the server's clients (\<^verbatim>\<open>cmd/server/dns_cache.go\<close>, \<^verbatim>\<open>cmd/server/fake_dns.go\<close>): the question of a DNS
  packet, the cache of responses with its pending queries and its shared flights, and the addresses made up for names
  that no resolver knows.  The exchange with an upstream over UDP is an argument: what each upstream answers.

  Shown: the question of a query is read back exactly; whatever is served from the cache answers the same question; an
  address made up for a name leads back to this name and never to another one.
\<close>

section \<open>Questions\<close>

definition dnsQTypeA :: u16 where "dnsQTypeA = 1"
definition dnsQTypeAAAA :: u16 where "dnsQTypeAAAA = 28"
definition dnsQTypeANY :: u16 where "dnsQTypeANY = 255"
definition dnsQClassIN :: u16 where "dnsQClassIN = 1"
definition dnsRCodeNoError :: u16 where "dnsRCodeNoError = 0"
definition dnsQueryFlagMask :: u16 where "dnsQueryFlagMask = 0x0130"
definition dnsPendingTTL :: duration where "dnsPendingTTL = seconds 10"
definition dnsPendingCapacity :: int where "dnsPendingCapacity = 1024"

record dnsCacheKey =
  dk_scope :: string
  dk_name :: string
  dk_qtype :: u16
  dk_qclass :: u16
  dk_flags :: u16

record dnsQuestion =
  dq_id :: u16
  dq_questionEnd :: nat
  dq_key :: dnsCacheKey

abbreviation u16_at :: "bytes \<Rightarrow> nat \<Rightarrow> u16" where
  "u16_at packet i \<equiv> get16 (take 2 (drop i packet))"

text \<open>The loop of \<^verbatim>\<open>readDNSName\<close>; the first argument is the number of steps left, of 128.\<close>

fun read_name :: "nat \<Rightarrow> bytes \<Rightarrow> nat \<Rightarrow> nat \<Rightarrow> bool \<Rightarrow> string list \<Rightarrow> (string \<times> nat) option" where
  "read_name 0 packet offset nxt jumped labels = None"
| "read_name (Suc steps) packet offset nxt jumped labels =
     (if length packet \<le> offset then None
      else
        (let len = packet ! offset
         in if len AND 0xc0 = 0xc0
            then
              if length packet \<le> offset + 1 then None
              else
                (let ptr = unat (len AND 0x3f) * 256 + unat (packet ! (offset + 1))
                 in if length packet \<le> ptr then None
                    else read_name steps packet ptr (if jumped then nxt else offset + 2) True labels)
            else if len AND 0xc0 \<noteq> 0 then None
            else if len = 0 then Some (ToLower (join_text (CHR ''.'') labels), if jumped then nxt else offset + 1)
            else if 63 < unat len \<or> length packet < offset + 1 + unat len then None
            else
              (let offset' = offset + 1 + unat len
               in read_name steps packet offset' (if jumped then nxt else offset') jumped
                    (labels @ [string_of_bytes (take (unat len) (drop (offset + 1) packet))]))))"

definition readDNSName :: "bytes \<Rightarrow> nat \<Rightarrow> (string \<times> nat) option" where
  "readDNSName packet offset = read_name 128 packet offset offset False []"

definition parseDNSQuestion :: "bytes \<Rightarrow> bool \<Rightarrow> bool \<Rightarrow> dnsQuestion option" where
  "parseDNSQuestion packet wantResponse strictQuery =
     (if length packet < 12 then None
      else
        (let flags = u16_at packet 2; isResponse = (flags AND 0x8000 \<noteq> 0)
         in if isResponse \<noteq> wantResponse \<or> flags AND 0x7800 \<noteq> 0 then None
            else if u16_at packet 4 \<noteq> 1 then None
            else if strictQuery \<and> (u16_at packet 6 \<noteq> 0 \<or> u16_at packet 8 \<noteq> 0 \<or> u16_at packet 10 \<noteq> 0) then None
            else
              (case readDNSName packet 12 of
                 None \<Rightarrow> None
               | Some (name, offset) \<Rightarrow>
                   if length packet < offset + 4 then None
                   else
                     (let questionEnd = offset + 4
                      in if strictQuery \<and> questionEnd \<noteq> length packet then None
                         else Some \<lparr>dq_id = u16_at packet 0, dq_questionEnd = questionEnd,
                                dq_key = \<lparr>dk_scope = [], dk_name = name, dk_qtype = u16_at packet offset,
                                  dk_qclass = u16_at packet (offset + 2), dk_flags = flags AND dnsQueryFlagMask\<rparr>\<rparr>))))"

definition parseDNSQueryQuestion :: "bytes \<Rightarrow> dnsQuestion option" where
  "parseDNSQueryQuestion packet = parseDNSQuestion packet False True"

definition parseDNSQueryQuestionWithAdditional :: "bytes \<Rightarrow> dnsQuestion option" where
  "parseDNSQueryQuestionWithAdditional packet = parseDNSQuestion packet False False"

definition parseDNSResponseQuestion :: "bytes \<Rightarrow> dnsQuestion option" where
  "parseDNSResponseQuestion packet = parseDNSQuestion packet True False"

definition sameDNSQuestion :: "dnsQuestion \<Rightarrow> dnsQuestion \<Rightarrow> bool" where
  "sameDNSQuestion a b \<longleftrightarrow>
     dk_name (dq_key a) = dk_name (dq_key b) \<and> dk_qtype (dq_key a) = dk_qtype (dq_key b) \<and> dk_qclass (dq_key a) = dk_qclass (dq_key b)"

definition dnsResponseStatus :: "bytes \<Rightarrow> (u16 \<times> bool) option" where
  "dnsResponseStatus packet =
     (if length packet < 4 then None
      else (let flags = u16_at packet 2 in Some (flags AND 0x000f, flags AND 0x0200 \<noteq> 0)))"

definition dnsResponseCacheable :: "bytes \<Rightarrow> bool" where
  "dnsResponseCacheable packet =
     (case dnsResponseStatus packet of None \<Rightarrow> False | Some (rcode, truncated) \<Rightarrow> \<not> truncated \<and> rcode = dnsRCodeNoError)"

definition rewriteDNSResponseID :: "bytes \<Rightarrow> u16 \<Rightarrow> bytes" where
  "rewriteDNSResponseID response qid = (if 2 \<le> length response then put16 qid @ drop 2 response else response)"

section \<open>Upstreams\<close>

text \<open>\<^verbatim>\<open>net.JoinHostPort\<close>.\<close>

definition JoinHostPort :: "string \<Rightarrow> string \<Rightarrow> string" where
  "JoinHostPort host port = (if CHR '':'' \<in> set host then ''['' @ host @ '']:'' @ port else host @ '':'' @ port)"

definition normalizeDNSUpstream :: "string \<Rightarrow> string" where
  "normalizeDNSUpstream addr0 =
     (let addr = TrimSpace addr0
      in if addr = [] then []
         else
           (case SplitHostPort addr of
              Some (host, port) \<Rightarrow>
                if host \<noteq> [] \<and> port \<noteq> [] then JoinHostPort host port
                else (case ParseIP addr of
                        Some ip \<Rightarrow> JoinHostPort (IP_String ip) ''53''
                      | None \<Rightarrow> if CHR '':'' \<in> set addr then [] else JoinHostPort addr ''53'')
            | None \<Rightarrow>
                (case ParseIP addr of
                   Some ip \<Rightarrow> JoinHostPort (IP_String ip) ''53''
                 | None \<Rightarrow> if CHR '':'' \<in> set addr then [] else JoinHostPort addr ''53'')))"

section \<open>The cache of responses\<close>

text \<open>Flights are pointers into a store; one is done when it has a result: a response, or an error.\<close>

type_synonym dnsFlight = "bytes option option"

record serverDNSCache =
  dc_cache :: "(dnsCacheKey, bytes) cache"
  dc_upstreams :: "string list"
  dc_flights :: "dnsCacheKey \<rightharpoonup> nat"
  dc_store :: "nat \<rightharpoonup> dnsFlight"
  dc_fresh :: nat

text \<open>The addresses of the system's resolvers are an argument.\<close>

definition newServerDNSCache :: "duration \<Rightarrow> int \<Rightarrow> string list \<Rightarrow> string list \<Rightarrow> serverDNSCache" where
  "newServerDNSCache ttl maxSize upstreams systemDNSUpstreams =
     \<lparr>dc_cache = cache_New ttl maxSize,
      dc_upstreams =
        concat (map (\<lambda>u. if EqualFold (TrimSpace u) ''system'' then systemDNSUpstreams
                         else if normalizeDNSUpstream u \<noteq> [] then [normalizeDNSUpstream u] else []) upstreams),
      dc_flights = Map.empty, dc_store = Map.empty, dc_fresh = 0\<rparr>"

definition scoped :: "dnsQuestion \<Rightarrow> string \<Rightarrow> dnsCacheKey" where
  "scoped q scope = (dq_key q)\<lparr>dk_scope := scope\<rparr>"

definition GetResponse :: "serverDNSCache \<Rightarrow> string \<Rightarrow> bytes \<Rightarrow> time \<Rightarrow> serverDNSCache \<times> bytes option" where
  "GetResponse c scope query now =
     (case parseDNSQueryQuestion query of
        None \<Rightarrow> (c, None)
      | Some q \<Rightarrow>
          (case cache_get (dc_cache c) (scoped q scope) False now of
             (ca, r) \<Rightarrow> (c\<lparr>dc_cache := ca\<rparr>, map_option (\<lambda>response. rewriteDNSResponseID response (dq_id q)) r)))"

text \<open>None is an eviction that does not end, which cannot happen (see \<open>put_returns\<close> of the cache).\<close>

definition StoreMatchedResponse :: "serverDNSCache \<Rightarrow> string \<Rightarrow> bytes \<Rightarrow> bytes \<Rightarrow> time \<Rightarrow> (serverDNSCache \<times> bool) option" where
  "StoreMatchedResponse c scope query response now =
     (case (parseDNSQueryQuestion query, parseDNSResponseQuestion response) of
        (Some q, Some r) \<Rightarrow>
          if dq_id q \<noteq> dq_id r \<or> \<not> sameDNSQuestion q r \<or> \<not> dnsResponseCacheable response then Some (c, False)
          else map_option (\<lambda>ca. (c\<lparr>dc_cache := ca\<rparr>, True)) (cache_put (dc_cache c) (scoped q scope) response now)
      | _ \<Rightarrow> Some (c, False))"

text \<open>\<open>answers\<close> gives what each upstream answers, or None for an error.\<close>

fun ask_upstreams ::
  "(string \<Rightarrow> bytes option) \<Rightarrow> dnsQuestion \<Rightarrow> dnsCacheKey \<Rightarrow> string list \<Rightarrow> bytes option \<Rightarrow> (dnsCacheKey, bytes) cache \<Rightarrow> time \<Rightarrow>
     ((dnsCacheKey, bytes) cache \<times> bytes option) option" where
  "ask_upstreams answers q key [] fallback ca now = Some (ca, fallback)"
| "ask_upstreams answers q key (u # us) fallback ca now =
     (case answers u of
        None \<Rightarrow> ask_upstreams answers q key us fallback ca now
      | Some response \<Rightarrow>
          (case parseDNSResponseQuestion response of
             None \<Rightarrow> ask_upstreams answers q key us fallback ca now
           | Some r \<Rightarrow>
               if dq_id r \<noteq> dq_id q \<or> \<not> sameDNSQuestion r q then ask_upstreams answers q key us fallback ca now
               else if \<not> dnsResponseCacheable response
               then ask_upstreams answers q key us
                      (if fallback = None \<and> \<not> (case dnsResponseStatus response of None \<Rightarrow> False | Some (rcode, truncated) \<Rightarrow> truncated) then Some response else fallback) ca now
               else map_option (\<lambda>ca'. (ca', Some response)) (cache_put ca key response now)))"

definition queryUpstream :: "serverDNSCache \<Rightarrow> (string \<Rightarrow> bytes option) \<Rightarrow> dnsQuestion \<Rightarrow> dnsCacheKey \<Rightarrow> time \<Rightarrow> (serverDNSCache \<times> bytes option) option" where
  "queryUpstream c answers q key now =
     map_option (\<lambda>(ca, r). (c\<lparr>dc_cache := ca\<rparr>, r)) (ask_upstreams answers q key (dc_upstreams c) None (dc_cache c) now)"

text \<open>
  \<^verbatim>\<open>QueryUpstream\<close> under the lock on the flights: wait for the flight of the key, take the response that is in the cache
  by now, or lead a new flight.
\<close>

datatype join_result = JoinWait nat | JoinCached bytes | JoinLead nat

definition join_flight :: "serverDNSCache \<Rightarrow> dnsCacheKey \<Rightarrow> time \<Rightarrow> serverDNSCache \<times> join_result" where
  "join_flight c key now =
     (case dc_flights c key of
        Some p \<Rightarrow> (c, JoinWait p)
      | None \<Rightarrow>
          (case cache_get (dc_cache c) key False now of
             (ca, Some r) \<Rightarrow> (c\<lparr>dc_cache := ca\<rparr>, JoinCached r)
           | (ca, None) \<Rightarrow>
               (let p = dc_fresh c
                in (c\<lparr>dc_cache := ca, dc_flights := (dc_flights c)(key \<mapsto> p), dc_store := (dc_store c)(p \<mapsto> None), dc_fresh := Suc p\<rparr>, JoinLead p))))"

definition land_flight :: "serverDNSCache \<Rightarrow> dnsCacheKey \<Rightarrow> nat \<Rightarrow> bytes option \<Rightarrow> serverDNSCache" where
  "land_flight c key p result = c\<lparr>dc_store := (dc_store c)(p \<mapsto> Some result), dc_flights := (dc_flights c)(key := None)\<rparr>"

text \<open>A query that meets no other one on its way.\<close>

definition QueryUpstream :: "serverDNSCache \<Rightarrow> (string \<Rightarrow> bytes option) \<Rightarrow> string \<Rightarrow> bytes \<Rightarrow> time \<Rightarrow> (serverDNSCache \<times> bytes option) option" where
  "QueryUpstream c answers scope query now =
     (case parseDNSQueryQuestion query of
        None \<Rightarrow> Some (c, None)
      | Some q \<Rightarrow>
          (case GetResponse c scope query now of
             (c1, Some cached) \<Rightarrow> Some (c1, Some cached)
           | (c1, None) \<Rightarrow>
               (case join_flight c1 (scoped q scope) now of
                  (c2, JoinWait p) \<Rightarrow>
                    Some (c2, case dc_store c2 p of
                                Some (Some r) \<Rightarrow> map_option (\<lambda>x. rewriteDNSResponseID x (dq_id q)) r
                              | _ \<Rightarrow> None)
                | (c2, JoinCached r) \<Rightarrow> Some (c2, Some (rewriteDNSResponseID r (dq_id q)))
                | (c2, JoinLead p) \<Rightarrow>
                    map_option (\<lambda>(c3, r). (land_flight c3 (scoped q scope) p r, map_option (\<lambda>x. rewriteDNSResponseID x (dq_id q)) r))
                      (queryUpstream c2 answers q (scoped q scope) now))))"

section \<open>Pending queries\<close>

record dnsPendingKey =
  dp_remote :: string
  dp_id :: u16
  dp_name :: string
  dp_qtype :: u16
  dp_qclass :: u16

record dnsPendingValue =
  dv_scope :: string
  dv_query :: bytes

type_synonym serverDNSPending = "(dnsPendingKey, dnsPendingValue) cache"

definition newServerDNSPending :: serverDNSPending where
  "newServerDNSPending = cache_New dnsPendingTTL dnsPendingCapacity"

definition makeDNSPendingKey :: "string \<Rightarrow> dnsQuestion \<Rightarrow> dnsPendingKey" where
  "makeDNSPendingKey remote q =
     \<lparr>dp_remote = remote, dp_id = dq_id q, dp_name = dk_name (dq_key q), dp_qtype = dk_qtype (dq_key q), dp_qclass = dk_qclass (dq_key q)\<rparr>"

definition Track :: "serverDNSPending \<Rightarrow> string \<Rightarrow> string \<Rightarrow> bytes \<Rightarrow> time \<Rightarrow> (serverDNSPending \<times> dnsPendingKey option) option" where
  "Track p remote scope query now =
     (case parseDNSQueryQuestion query of
        None \<Rightarrow> Some (p, None)
      | Some q \<Rightarrow>
          map_option (\<lambda>p'. (p', Some (makeDNSPendingKey remote q)))
            (cache_put p (makeDNSPendingKey remote q) \<lparr>dv_scope = scope, dv_query = query\<rparr> now))"

definition pending_Delete :: "serverDNSPending \<Rightarrow> dnsPendingKey \<Rightarrow> serverDNSPending" where
  "pending_Delete p key = cache_delete p key"

definition MatchAndStore :: "serverDNSPending \<Rightarrow> serverDNSCache \<Rightarrow> string \<Rightarrow> bytes \<Rightarrow> time \<Rightarrow> (serverDNSPending \<times> serverDNSCache \<times> bool) option" where
  "MatchAndStore p c remote response now =
     (case parseDNSResponseQuestion response of
        None \<Rightarrow> Some (p, c, False)
      | Some q \<Rightarrow>
          if \<not> dnsResponseCacheable response then Some (p, c, False)
          else
            (case cache_take p (makeDNSPendingKey remote q) now of
               (p', None) \<Rightarrow> Some (p', c, False)
             | (p', Some val) \<Rightarrow>
                 map_option (\<lambda>(c', ok). (p', c', ok)) (StoreMatchedResponse c (dv_scope val) (dv_query val) response now)))"


section \<open>The question is read back\<close>

text \<open>A name on the wire: each label with its length in front, and a zero.\<close>

definition encode_name :: "string list \<Rightarrow> bytes" where
  "encode_name labels = concat (map (\<lambda>l. word_of_nat (length l) # bytes_of_string l) labels) @ [0]"

definition dns_packet :: "u16 \<Rightarrow> u16 \<Rightarrow> string list \<Rightarrow> u16 \<Rightarrow> u16 \<Rightarrow> bytes \<Rightarrow> bytes" where
  "dns_packet qid flags labels qtype qclass counts =
     put16 qid @ put16 flags @ put16 1 @ counts @ encode_name labels @ put16 qtype @ put16 qclass"

lemma label_length:
  assumes "0 < n" and "n \<le> 63"
  shows "unat (word_of_nat n :: byte) = n" and "(word_of_nat n :: byte) AND 0xc0 = 0" and "(word_of_nat n :: byte) \<noteq> 0"
proof -
  show u: "unat (word_of_nat n :: byte) = n" using assms by (simp add: unat_of_nat take_bit_nat_eq_self)
  then show "(word_of_nat n :: byte) \<noteq> 0" using assms by auto
  have "\<forall>k \<in> {1..<64}. (word_of_nat k :: byte) AND 0xc0 = 0" by code_simp
  then show "(word_of_nat n :: byte) AND 0xc0 = 0" using assms by auto
qed

lemma read_name_labels:
  assumes "\<forall>l \<in> set ls. 0 < length l \<and> length l \<le> 63" and "length ls < steps"
  shows "read_name steps (pre @ encode_name ls @ post) (length pre) nxt False done =
    Some (ToLower (join_text (CHR ''.'') (done @ ls)), length pre + length (encode_name ls))"
  using assms
proof (induction ls arbitrary: steps pre nxt "done")
  case Nil
  then obtain k where "steps = Suc k" by (cases steps) auto
  then show ?case by (simp add: encode_name_def)
next
  case (Cons l ls)
  then obtain k where k: "steps = Suc k" "length ls < k" by (cases steps) auto
  note L = label_length [of "length l"]
  have p: "pre @ encode_name (l # ls) @ post = (pre @ [word_of_nat (length l)] @ bytes_of_string l) @ encode_name ls @ post"
    by (simp add: encode_name_def)
  have n: "(pre @ encode_name (l # ls) @ post) ! length pre = word_of_nat (length l)" by (simp add: encode_name_def)
  have d: "string_of_bytes (take (length l) (drop (length pre + 1) (pre @ encode_name (l # ls) @ post))) = l" by (simp add: encode_name_def)
  have "read_name k (pre @ encode_name (l # ls) @ post) (length (pre @ [word_of_nat (length l)] @ bytes_of_string l)) (length pre + 1 + length l)
      False (done @ [l]) = Some (ToLower (join_text (CHR ''.'') (done @ l # ls)), length pre + length (encode_name (l # ls)))"
    unfolding p using Cons.IH [of k "pre @ [word_of_nat (length l)] @ bytes_of_string l" _ "done @ [l]"] Cons.prems(1) k(2)
    by (simp add: encode_name_def)
  then show ?case
    using L Cons.prems(1) n d by (simp add: k(1) Let_def) (simp add: encode_name_def)
qed

lemma parse_packet:
  assumes "\<forall>l \<in> set labels. 0 < length l \<and> length l \<le> 63" and "length labels \<le> 127"
    and "flags AND 0x7800 = 0" and "length counts = 6" and "wantResponse \<longleftrightarrow> flags AND 0x8000 \<noteq> 0"
    and "strict \<longrightarrow> counts = replicate 6 0 \<and> rest = []"
  shows "parseDNSQuestion (dns_packet qid flags labels qtype qclass counts @ rest) wantResponse strict =
    Some \<lparr>dq_id = qid, dq_questionEnd = 12 + length (encode_name labels) + 4,
      dq_key = \<lparr>dk_scope = [], dk_name = ToLower (join_text (CHR ''.'') labels), dk_qtype = qtype, dk_qclass = qclass,
        dk_flags = flags AND dnsQueryFlagMask\<rparr>\<rparr>"
proof -
  define pre where "pre = put16 qid @ put16 flags @ put16 1 @ counts"
  define packet where "packet = dns_packet qid flags labels qtype qclass counts @ rest"
  let ?n = "length (encode_name labels)"
  have p: "packet = pre @ encode_name labels @ put16 qtype @ put16 qclass @ rest" by (simp add: packet_def dns_packet_def pre_def)
  have lp: "length pre = 12" "length packet = 16 + ?n + length rest" using assms(4) by (simp_all add: p pre_def)
  have name: "readDNSName packet 12 = Some (ToLower (join_text (CHR ''.'') labels), 12 + ?n)"
    unfolding readDNSName_def p using read_name_labels [OF assms(1), of 128 pre "put16 qtype @ put16 qclass @ rest" 12 "[]"] assms(2) lp(1) by simp
  have d: "drop (12 + ?n) packet = put16 qtype @ put16 qclass @ rest" by (simp add: p lp(1))
  then have "drop (14 + ?n) packet = put16 qclass @ rest" using drop_drop [of 2 "12 + ?n" packet] by simp
  then have q: "u16_at packet (12 + ?n) = qtype" "u16_at packet (12 + ?n + 2) = qclass" using d by (simp_all add: add.commute)
  have h: "u16_at packet 0 = qid" "u16_at packet 2 = flags" "u16_at packet 4 = 1" by (simp_all add: p pre_def)
  have z: "get16 [0, 0] = 0" by code_simp
  have c: "u16_at packet 6 = 0 \<and> u16_at packet 8 = 0 \<and> u16_at packet 10 = 0 \<and> rest = []" if "strict"
    using assms(6) that by (simp add: p pre_def numeral_eq_Suc) (simp add: z)
  show ?thesis
    unfolding packet_def [symmetric]
    using h q name c lp(2) assms(3,5) by (auto simp: parseDNSQuestion_def Let_def add.commute)
qed




section \<open>Every answer is for its question\<close>

definition answers_to :: "dnsCacheKey \<Rightarrow> bytes \<Rightarrow> bool" where
  "answers_to key response \<longleftrightarrow>
     (case parseDNSResponseQuestion response of
        None \<Rightarrow> False
      | Some r \<Rightarrow> dk_name (dq_key r) = dk_name key \<and> dk_qtype (dq_key r) = dk_qtype key \<and> dk_qclass (dq_key r) = dk_qclass key)"

text \<open>
  The runs of a cache: queries that look into it, responses that are stored for pending queries, and queries that go to
  the upstreams, which wait for a flight, find the response in the cache or lead a flight; a leader asks the upstreams and
  then lands.  \<open>leads\<close> has the flights under way, with the result once the upstreams have been asked, \<open>waiting\<close> has who
  waits for which flight, and \<open>served\<close> the answers that were given: the question, its key in the cache and the response.
\<close>

inductive dns_runs ::
  "serverDNSCache \<Rightarrow> (nat \<rightharpoonup> dnsQuestion \<times> dnsCacheKey \<times> bytes option option) \<Rightarrow> (nat \<times> dnsQuestion \<times> dnsCacheKey) list \<Rightarrow>
     (dnsQuestion \<times> dnsCacheKey \<times> bytes) list \<Rightarrow> bool" where
  dns_start: "dns_runs (newServerDNSCache ttl maxSize upstreams system) Map.empty [] []"
| dns_get: "dns_runs c leads waiting served \<Longrightarrow> parseDNSQueryQuestion query = Some q \<Longrightarrow> GetResponse c scope query now = (c', r) \<Longrightarrow>
    dns_runs c' leads waiting (served @ (case r of None \<Rightarrow> [] | Some x \<Rightarrow> [(q, scoped q scope, x)]))"
| dns_store: "dns_runs c leads waiting served \<Longrightarrow> StoreMatchedResponse c scope query response now = Some (c', b) \<Longrightarrow> dns_runs c' leads waiting served"
| dns_wait: "dns_runs c leads waiting served \<Longrightarrow> parseDNSQueryQuestion query = Some q \<Longrightarrow> join_flight c (scoped q scope) now = (c', JoinWait p) \<Longrightarrow>
    dns_runs c' leads (waiting @ [(p, q, scoped q scope)]) served"
| dns_cached: "dns_runs c leads waiting served \<Longrightarrow> parseDNSQueryQuestion query = Some q \<Longrightarrow> join_flight c (scoped q scope) now = (c', JoinCached r) \<Longrightarrow>
    dns_runs c' leads waiting (served @ [(q, scoped q scope, rewriteDNSResponseID r (dq_id q))])"
| dns_lead: "dns_runs c leads waiting served \<Longrightarrow> parseDNSQueryQuestion query = Some q \<Longrightarrow> join_flight c (scoped q scope) now = (c', JoinLead p) \<Longrightarrow>
    dns_runs c' (leads(p \<mapsto> (q, scoped q scope, None))) waiting served"
| dns_ask: "dns_runs c leads waiting served \<Longrightarrow> leads p = Some (q, key, None) \<Longrightarrow> queryUpstream c answers q key now = Some (c', r) \<Longrightarrow>
    dns_runs c' (leads(p \<mapsto> (q, key, Some r))) waiting served"
| dns_land: "dns_runs c leads waiting served \<Longrightarrow> leads p = Some (q, key, Some r) \<Longrightarrow>
    dns_runs (land_flight c key p r) (leads(p := None)) waiting (served @ (case r of None \<Rightarrow> [] | Some x \<Rightarrow> [(q, key, rewriteDNSResponseID x (dq_id q))]))"
| dns_wake: "dns_runs c leads waiting served \<Longrightarrow> (p, q, key) \<in> set waiting \<Longrightarrow> dc_store c p = Some (Some r) \<Longrightarrow>
    dns_runs c leads waiting (served @ (case r of None \<Rightarrow> [] | Some x \<Rightarrow> [(q, key, rewriteDNSResponseID x (dq_id q))]))"

definition cache_good :: "(dnsCacheKey, bytes) cache \<Rightarrow> bool" where
  "cache_good ca \<longleftrightarrow> cache_inv ca \<and> lru.holds answers_to ca"

lemma cache_good_get: "cache_good ca \<Longrightarrow> cache_get ca key r now = (ca', v) \<Longrightarrow> cache_good ca' \<and> (\<forall>x. v = Some x \<longrightarrow> answers_to key x)"
  using lru.get_invar [of ca key r now] lru.holds_get [of ca answers_to key r now] lru.holds_read [of ca answers_to key r now]
  by (auto simp: cache_good_def)

lemma cache_good_put: "cache_good ca \<Longrightarrow> answers_to key x \<Longrightarrow> cache_put ca key x now = Some ca' \<Longrightarrow> cache_good ca'"
  using lru.put_returns [of ca key x now] lru.holds_put [of ca answers_to key x now ca'] by (auto simp: cache_good_def)

lemma ask_upstreams_good:
  assumes "ask_upstreams answers q key us fallback ca now = Some (ca', r)" and "cache_good ca"
    and "dk_name key = dk_name (dq_key q)" "dk_qtype key = dk_qtype (dq_key q)" "dk_qclass key = dk_qclass (dq_key q)"
    and "\<And>x. fallback = Some x \<Longrightarrow> answers_to key x"
  shows "cache_good ca' \<and> (\<forall>x. r = Some x \<longrightarrow> answers_to key x)"
  using assms
proof (induction answers q key us fallback ca now rule: ask_upstreams.induct)
  case (2 answers q key u us fallback ca now)
  show ?case
  proof (cases "answers u")
    case None
    then show ?thesis using 2 by simp
  next
    case (Some response)
    show ?thesis
    proof (cases "parseDNSResponseQuestion response")
      case None
      then show ?thesis using 2 Some by simp
    next
      case (Some rq)
      have a: "answers_to key response" if "sameDNSQuestion rq q" using that Some 2(7-9) by (simp add: answers_to_def sameDNSQuestion_def)
      note u = \<open>answers u = Some response\<close> Some
      consider "dq_id rq \<noteq> dq_id q \<or> \<not> sameDNSQuestion rq q" | "dq_id rq = dq_id q" "sameDNSQuestion rq q" "\<not> dnsResponseCacheable response"
        | "dq_id rq = dq_id q" "sameDNSQuestion rq q" "dnsResponseCacheable response" by blast
      then show ?thesis
      proof cases
        case 1
        then have "ask_upstreams answers q key us fallback ca now = Some (ca', r)" using 2(5) u by simp
        then show ?thesis using 2(3) [OF u 1] 2(6-10) by blast
      next
        case 2
        let ?fb = "if fallback = None \<and> \<not> (case dnsResponseStatus response of None \<Rightarrow> False | Some (rcode, truncated) \<Rightarrow> truncated) then Some response else fallback"
        have "ask_upstreams answers q key us ?fb ca now = Some (ca', r)" using 2 "2.prems"(1) u by simp
        moreover have "answers_to key x" if "?fb = Some x" for x using that a 2(2) "2.prems"(6) by (auto split: if_splits)
        moreover have "\<not> (dq_id rq \<noteq> dq_id q \<or> \<not> sameDNSQuestion rq q)" using 2 by blast
        ultimately show ?thesis using "2.IH"(4) [OF u _ 2(3)] "2.prems"(2-5) by blast
      next
        case 3
        then show ?thesis using "2.prems"(1,2) u a cache_good_put [of ca key response now] by auto
      qed
    qed
  qed
qed simp

lemma store_good:
  assumes "StoreMatchedResponse c scope query response now = Some (c', b)" and "cache_good (dc_cache c)"
  shows "cache_good (dc_cache c')" "dc_flights c' = dc_flights c" "dc_store c' = dc_store c" "dc_fresh c' = dc_fresh c"
proof -
  have "answers_to (scoped q scope) response" if "parseDNSResponseQuestion response = Some r" "sameDNSQuestion q r" for q r
    using that by (simp add: answers_to_def sameDNSQuestion_def scoped_def)
  then show "cache_good (dc_cache c')" "dc_flights c' = dc_flights c" "dc_store c' = dc_store c" "dc_fresh c' = dc_fresh c"
    using assms by (auto simp: StoreMatchedResponse_def split: option.splits if_splits elim!: cache_good_put [rotated 2])
qed

definition dns_inv ::
  "serverDNSCache \<Rightarrow> (nat \<rightharpoonup> dnsQuestion \<times> dnsCacheKey \<times> bytes option option) \<Rightarrow> (nat \<times> dnsQuestion \<times> dnsCacheKey) list \<Rightarrow>
     (dnsQuestion \<times> dnsCacheKey \<times> bytes) list \<Rightarrow> (nat \<Rightarrow> dnsCacheKey) \<Rightarrow> bool" where
  "dns_inv c leads waiting served kf \<longleftrightarrow>
     cache_good (dc_cache c) \<and>
     (\<forall>key p. dc_flights c key = Some p \<longleftrightarrow> (\<exists>q a. leads p = Some (q, key, a))) \<and>
     (\<forall>p. dc_store c p \<noteq> None \<longrightarrow> p < dc_fresh c) \<and>
     (\<forall>p q key a. leads p = Some (q, key, a) \<longrightarrow> dc_store c p = Some None \<and> kf p = key \<and>
        dk_name key = dk_name (dq_key q) \<and> dk_qtype key = dk_qtype (dq_key q) \<and> dk_qclass key = dk_qclass (dq_key q) \<and>
        (\<forall>r. a = Some (Some r) \<longrightarrow> answers_to key r)) \<and>
     (\<forall>p q key. (p, q, key) \<in> set waiting \<longrightarrow> p < dc_fresh c \<and> kf p = key) \<and>
     (\<forall>p r. dc_store c p = Some (Some (Some r)) \<longrightarrow> answers_to (kf p) r) \<and>
     (\<forall>q key x. (q, key, x) \<in> set served \<longrightarrow> (\<exists>r. x = rewriteDNSResponseID r (dq_id q) \<and> answers_to key r))"

lemma dns_invariant: "dns_runs c leads waiting served \<Longrightarrow> \<exists>kf. dns_inv c leads waiting served kf"
proof (induction rule: dns_runs.induct)
  case (dns_start ttl maxSize upstreams system)
  have "lru.holds answers_to (cache_New ttl maxSize)"
    unfolding lru.holds_def by (simp add: cache_lookup_def new_inv)
  then show ?case by (simp add: dns_inv_def newServerDNSCache_def cache_good_def new_inv)
next
  case (dns_get c leads waiting served query q scope now c' r)
  then obtain kf where i: "dns_inv c leads waiting served kf" by blast
  obtain ca v where g: "cache_get (dc_cache c) (scoped q scope) False now = (ca, v)" by fastforce
  have "cache_good ca \<and> (\<forall>x. v = Some x \<longrightarrow> answers_to (scoped q scope) x)" using i by (intro cache_good_get [OF _ g]) (simp add: dns_inv_def)
  moreover have "c' = c\<lparr>dc_cache := ca\<rparr>" "r = map_option (\<lambda>x. rewriteDNSResponseID x (dq_id q)) v" using dns_get.hyps(2,3) g by (auto simp: GetResponse_def)
  ultimately have "dns_inv c' leads waiting (served @ (case r of None \<Rightarrow> [] | Some x \<Rightarrow> [(q, scoped q scope, x)])) kf"
    using i by (cases v) (auto simp: dns_inv_def)
  then show ?case by blast
next
  case (dns_store c leads waiting served scope query response now c' b)
  then obtain kf where i: "dns_inv c leads waiting served kf" by blast
  have "cache_good (dc_cache c)" using i by (simp add: dns_inv_def)
  note g = store_good [OF dns_store.hyps(2) this]
  have "dns_inv c' leads waiting served kf" using i unfolding dns_inv_def g(2-4) using g(1) by blast
  then show ?case by blast
next
  case (dns_wait c leads waiting served query q scope now c' p)
  then obtain kf where i: "dns_inv c leads waiting served kf" by blast
  have "c' = c" "dc_flights c (scoped q scope) = Some p" using dns_wait.hyps(3) by (auto simp: join_flight_def Let_def split: option.splits prod.splits)
  then have "dns_inv c' leads (waiting @ [(p, q, scoped q scope)]) served kf" using i by (fastforce simp: dns_inv_def)
  then show ?case by blast
next
  case (dns_cached c leads waiting served query q scope now c' r)
  then obtain kf where i: "dns_inv c leads waiting served kf" by blast
  obtain ca where g: "cache_get (dc_cache c) (scoped q scope) False now = (ca, Some r)" "c' = c\<lparr>dc_cache := ca\<rparr>"
    using dns_cached.hyps(3) by (auto simp: join_flight_def Let_def split: option.splits prod.splits)
  have "cache_good ca \<and> answers_to (scoped q scope) r" using i cache_good_get [OF _ g(1)] by (auto simp: dns_inv_def)
  then have "dns_inv c' leads waiting (served @ [(q, scoped q scope, rewriteDNSResponseID r (dq_id q))]) kf"
    using i g(2) by (auto simp: dns_inv_def)
  then show ?case by blast
next
  case (dns_lead c leads waiting served query q scope now c' p)
  then obtain kf where i: "dns_inv c leads waiting served kf" by blast
  obtain ca where g: "cache_get (dc_cache c) (scoped q scope) False now = (ca, None)" "dc_flights c (scoped q scope) = None" "p = dc_fresh c"
    "c' = c\<lparr>dc_cache := ca, dc_flights := (dc_flights c)(scoped q scope \<mapsto> p), dc_store := (dc_store c)(p \<mapsto> None), dc_fresh := Suc p\<rparr>"
    using dns_lead.hyps(3) by (auto simp: join_flight_def Let_def split: option.splits prod.splits)
  have ca: "cache_good ca" using i cache_good_get [OF _ g(1)] by (auto simp: dns_inv_def)
  have st: "dc_store c p = None" using i g(3) unfolding dns_inv_def by (metis less_irrefl)
  have "dc_store c p' = Some None" if "leads p' = Some (q', key, a)" for p' q' key a using i that unfolding dns_inv_def by blast
  then have new: "leads p = None" using st by (metis option.distinct(1) option.exhaust surj_pair)
  have old: "p' \<noteq> p" if "dc_flights c key = Some p'" for key p'
  proof -
    have "\<exists>q a. leads p' = Some (q, key, a)" using i that unfolding dns_inv_def by blast
    then show ?thesis using new by auto
  qed
  have "dns_inv c' (leads(p \<mapsto> (q, scoped q scope, None))) waiting served (kf(p := scoped q scope))"
  proof -
    note I = i [unfolded dns_inv_def]
    have fl: "\<And>key p'. dc_flights c key = Some p' \<longleftrightarrow> (\<exists>q a. leads p' = Some (q, key, a))" using I by blast
    have "dc_flights c' key = Some p' \<longleftrightarrow> (\<exists>q' a. (leads(p \<mapsto> (q, scoped q scope, None))) p' = Some (q', key, a))" for key p'
    proof (cases "p' = p")
      case True
      then show ?thesis using old [of key p'] g(4) by auto
    next
      case False
      then show ?thesis using fl [of key p'] g(2,4) by auto
    qed
    moreover have "dc_store c' p' \<noteq> None \<longrightarrow> p' < dc_fresh c'" for p' using I g(3,4) by (auto simp: less_Suc_eq)
    moreover have "(p', q', key) \<in> set waiting \<longrightarrow> p' < dc_fresh c' \<and> (kf(p := scoped q scope)) p' = key" for p' q' key
      using I g(3,4) by (fastforce simp: less_Suc_eq)
    moreover have "dc_store c' p' = Some (Some (Some r)) \<longrightarrow> answers_to ((kf(p := scoped q scope)) p') r" for p' r using I g(4) by auto
    moreover have "(leads(p \<mapsto> (q, scoped q scope, None))) p' = Some (q', key, a) \<longrightarrow> dc_store c' p' = Some None \<and> (kf(p := scoped q scope)) p' = key \<and>
        dk_name key = dk_name (dq_key q') \<and> dk_qtype key = dk_qtype (dq_key q') \<and> dk_qclass key = dk_qclass (dq_key q') \<and>
        (\<forall>r. a = Some (Some r) \<longrightarrow> answers_to key r)" for p' q' key a
      using I g(4) by (auto simp: scoped_def)
    ultimately show ?thesis using I ca g(4) unfolding dns_inv_def by simp
  qed
  then show ?case by blast
next
  case (dns_ask c leads waiting served p q key answers now c' r)
  then obtain kf where i: "dns_inv c leads waiting served kf" by blast
  obtain ca where a: "ask_upstreams answers q key (dc_upstreams c) None (dc_cache c) now = Some (ca, r)" "c' = c\<lparr>dc_cache := ca\<rparr>"
    using dns_ask.hyps(3) by (auto simp: queryUpstream_def)
  have "cache_good ca \<and> (\<forall>x. r = Some x \<longrightarrow> answers_to key x)"
    using i dns_ask.hyps(2) by (intro ask_upstreams_good [OF a(1)]) (auto simp: dns_inv_def)
  moreover have "(\<exists>q' a. (leads(p \<mapsto> (q, key, Some r))) p' = Some (q', k, a)) \<longleftrightarrow> (\<exists>q' a. leads p' = Some (q', k, a))" for k p'
    using dns_ask.hyps(2) by auto
  moreover have "(leads(p \<mapsto> (q, key, Some r))) p' = Some (q', k, a) \<longrightarrow> dc_store c p' = Some None \<and> kf p' = k \<and>
      dk_name k = dk_name (dq_key q') \<and> dk_qtype k = dk_qtype (dq_key q') \<and> dk_qclass k = dk_qclass (dq_key q') \<and>
      (\<forall>r. a = Some (Some r) \<longrightarrow> answers_to k r)" for p' q' k a
    using i dns_ask.hyps(2) calculation(1) by (cases "p' = p") (auto simp: dns_inv_def)
  ultimately have "dns_inv c' (leads(p \<mapsto> (q, key, Some r))) waiting served kf"
    using i unfolding dns_inv_def a(2) by simp
  then show ?case by blast
next
  case (dns_land c leads waiting served p q key r)
  then obtain kf where i: "dns_inv c leads waiting served kf" by blast
  note I = i [unfolded dns_inv_def]
  let ?c = "land_flight c key p r"
  have fl: "\<And>k p'. dc_flights c k = Some p' \<longleftrightarrow> (\<exists>q a. leads p' = Some (q, k, a))" using I by blast
  have L: "dc_store c p = Some None" "kf p = key" "\<forall>x. r = Some x \<longrightarrow> answers_to key x" using I dns_land.hyps(2) by blast+
  have "dc_flights ?c k = Some p' \<longleftrightarrow> (\<exists>q a. (leads(p := None)) p' = Some (q, k, a))" for k p'
    using fl [of k p'] fl [of key p] dns_land.hyps(2) by (auto simp: land_flight_def)
  moreover have "dc_store ?c p' \<noteq> None \<longrightarrow> p' < dc_fresh ?c" for p' using I L(1) by (auto simp: land_flight_def)
  moreover have "dc_store ?c p' = Some (Some (Some x)) \<longrightarrow> answers_to (kf p') x" for p' x using I L by (auto simp: land_flight_def)
  moreover have "(leads(p := None)) p' = Some (q', k, a) \<longrightarrow> dc_store ?c p' = Some None \<and> kf p' = k \<and>
      dk_name k = dk_name (dq_key q') \<and> dk_qtype k = dk_qtype (dq_key q') \<and> dk_qclass k = dk_qclass (dq_key q') \<and>
      (\<forall>r. a = Some (Some r) \<longrightarrow> answers_to k r)" for p' q' k a
    using I by (auto simp: land_flight_def)
  moreover have "(q', k, x) \<in> set (served @ (case r of None \<Rightarrow> [] | Some x \<Rightarrow> [(q, key, rewriteDNSResponseID x (dq_id q))])) \<longrightarrow>
      (\<exists>r. x = rewriteDNSResponseID r (dq_id q') \<and> answers_to k r)" for q' k x
    using I L(3) by (cases r) auto
  moreover have "dc_cache ?c = dc_cache c" "dc_fresh ?c = dc_fresh c" by (simp_all add: land_flight_def)
  ultimately have "dns_inv ?c (leads(p := None)) waiting
      (served @ (case r of None \<Rightarrow> [] | Some x \<Rightarrow> [(q, key, rewriteDNSResponseID x (dq_id q))])) kf"
    using I unfolding dns_inv_def by simp
  then show ?case by blast
next
  case (dns_wake c leads waiting served p q key r)
  then obtain kf where i: "dns_inv c leads waiting served kf" by blast
  then have "\<forall>x. r = Some x \<longrightarrow> answers_to key x" using dns_wake.hyps(2,3) unfolding dns_inv_def by blast
  then have "dns_inv c leads waiting (served @ (case r of None \<Rightarrow> [] | Some x \<Rightarrow> [(q, key, rewriteDNSResponseID x (dq_id q))])) kf"
    using i unfolding dns_inv_def by (cases r) auto
  then show ?case by blast
qed

text \<open>The key of a question that is looked up, waits or is answered is that of the question in some scope.\<close>

definition key_of :: "dnsQuestion \<Rightarrow> dnsCacheKey \<Rightarrow> bool" where
  "key_of q key \<longleftrightarrow> (\<exists>scope. key = scoped q scope)"

lemma key_of_scoped [simp]: "key_of q (scoped q scope)"
  unfolding key_of_def by blast

lemma run_keys:
  "dns_runs c leads waiting served \<Longrightarrow>
    (\<forall>p q key a. leads p = Some (q, key, a) \<longrightarrow> key_of q key) \<and> (\<forall>(p, q, key) \<in> set waiting. key_of q key) \<and>
    (\<forall>(q, key, x) \<in> set served. key_of q key)"
proof (induction rule: dns_runs.induct)
  case (dns_land c leads waiting served p q key r)
  then have "key_of q key" by blast
  then show ?case using dns_land.IH by (cases r) auto
next
  case (dns_wake c leads waiting served p q key r)
  then have "key_of q key" by blast
  then show ?case using dns_wake.IH by (cases r) auto
next
  case (dns_ask c leads waiting served p q key answers now c' r)
  then have "key_of q key" by blast
  then show ?case using dns_ask.IH by auto
qed (auto split: option.split)

text \<open>A response that writes the name of its question out, without a pointer to another place of the packet.\<close>

definition plain_question :: "bytes \<Rightarrow> bool" where
  "plain_question r \<longleftrightarrow>
     (\<exists>i flags labels qtype qclass counts rest. r = dns_packet i flags labels qtype qclass counts @ rest \<and> length counts = 6 \<and>
        (\<forall>l \<in> set labels. 0 < length l \<and> length l \<le> 63) \<and> length labels \<le> 127)"

lemma rewritten_question:
  assumes "parseDNSResponseQuestion r = Some a" and "plain_question r"
  shows "parseDNSResponseQuestion (put16 i @ drop 2 r) = Some (a\<lparr>dq_id := i\<rparr>)"
proof -
  from assms(2) obtain i' flags labels qtype qclass counts rest where r: "r = dns_packet i' flags labels qtype qclass counts @ rest"
      "length counts = 6" "\<forall>l \<in> set labels. 0 < length l \<and> length l \<le> 63" "length labels \<le> 127"
    unfolding plain_question_def by (elim exE conjE) (rule that)
  have "u16_at r 2 = flags" by (simp add: r(1) dns_packet_def)
  then have f: "flags AND 0x7800 = 0" "flags AND 0x8000 \<noteq> 0"
    using assms(1) by (auto simp: parseDNSResponseQuestion_def parseDNSQuestion_def Let_def split: if_splits)
  have "put16 i @ drop 2 r = dns_packet i flags labels qtype qclass counts @ rest" by (simp add: r(1) dns_packet_def)
  then show ?thesis
    using parse_packet [OF r(3,4) f(1) r(2), of True False rest] assms(1) f(2) by (auto simp: r(1) parseDNSResponseQuestion_def)
qed

lemma answer_rewritten:
  assumes "answers_to (scoped q scope) r" and "x = rewriteDNSResponseID r (dq_id q)"
  shows "\<exists>a. parseDNSResponseQuestion r = Some a \<and> sameDNSQuestion q a \<and> x = put16 (dq_id q) @ drop 2 r \<and>
    (plain_question r \<longrightarrow> parseDNSResponseQuestion x = Some (a\<lparr>dq_id := dq_id q\<rparr>))"
proof -
  from assms(1) obtain a where a: "parseDNSResponseQuestion r = Some a" "sameDNSQuestion q a"
    by (auto simp: answers_to_def sameDNSQuestion_def scoped_def split: option.splits)
  then have "2 \<le> length r" by (auto simp: parseDNSResponseQuestion_def parseDNSQuestion_def Let_def split: if_splits)
  then have "x = put16 (dq_id q) @ drop 2 r" using assms(2) by (simp add: rewriteDNSResponseID_def)
  then show ?thesis using a rewritten_question [OF a(1)] by blast
qed

text \<open>
  C38. Whatever the server answers to a DNS query is for its question.  In every interleaving of lookups, responses stored for
  pending queries, flights and their waiters, with upstreams that answer anything: the first two bytes of each response
  that is served are the identifier of the query, and the rest is that of a response whose question has the name, type and
  class of the query; if that response writes the name of its question out, the response that is served has itself the
  identifier, the name, the type and the class of the query (a name that points into the header could change with the
  identifier).  There is never more than one flight under way for the same question.
\<close>

theorem dns_answers_match:
  assumes "dns_runs c leads waiting served"
  shows "(\<forall>q key x. (q, key, x) \<in> set served \<longrightarrow>
      (\<exists>r a. parseDNSResponseQuestion r = Some a \<and> sameDNSQuestion q a \<and> x = put16 (dq_id q) @ drop 2 r \<and>
        (plain_question r \<longrightarrow> parseDNSResponseQuestion x = Some (a\<lparr>dq_id := dq_id q\<rparr>)))) \<and>
    (\<forall>p p' q q' key a a'. leads p = Some (q, key, a) \<and> leads p' = Some (q', key, a') \<longrightarrow> p = p')"
proof -
  obtain kf where i: "dns_inv c leads waiting served kf" using dns_invariant [OF assms] ..
  have "p = p'" if "leads p = Some (q, key, a)" "leads p' = Some (q', key, a')" for p p' q q' key a a'
  proof -
    have "dc_flights c key = Some p" "dc_flights c key = Some p'" using i that unfolding dns_inv_def by blast+
    then show ?thesis by simp
  qed
  moreover have "\<exists>r a. parseDNSResponseQuestion r = Some a \<and> sameDNSQuestion q a \<and> x = put16 (dq_id q) @ drop 2 r \<and>
      (plain_question r \<longrightarrow> parseDNSResponseQuestion x = Some (a\<lparr>dq_id := dq_id q\<rparr>))" if x: "(q, key, x) \<in> set served" for q key x
  proof -
    obtain r where r: "x = rewriteDNSResponseID r (dq_id q)" "answers_to key r" using i x unfolding dns_inv_def by blast
    obtain scope where "key = scoped q scope" using run_keys [OF assms] x unfolding key_of_def by blast
    then show ?thesis using answer_rewritten [of q scope r x] r by blast
  qed
  ultimately show ?thesis by (intro conjI allI impI; (elim conjE)?) blast+
qed

theorem dns_answers_match_witness:
  "\<exists>c leads served q x. dns_runs c leads [] served \<and> served = [(q, scoped q ''u'', x)] \<and> u16_at x 0 = 7"
proof -
  define query where "query = dns_packet 7 0x0100 [''a''] 1 1 (replicate 6 0)"
  define response where "response = dns_packet 7 0x8100 [''a''] 1 1 (replicate 6 0)"
  define q where "q = \<lparr>dq_id = 7, dq_questionEnd = 19, dq_key = \<lparr>dk_scope = [], dk_name = ''a'', dk_qtype = 1, dk_qclass = 1, dk_flags = 0x0100\<rparr>\<rparr>"
  have c: "parseDNSQueryQuestion query = Some q" "parseDNSResponseQuestion response = Some q" "dnsResponseCacheable response" "length response = 19"
    unfolding query_def response_def q_def by code_simp+
  let ?c0 = "newServerDNSCache 100 5 [''h''] []"
  have u: "dc_upstreams ?c0 = [''h:53'']" by code_simp
  have cg: "cache_inv (dc_cache ?c0)" by (simp add: newServerDNSCache_def new_inv)
  have none: "cache_get (dc_cache ?c0) k False now = (dc_cache ?c0, None)" for k now
    by (simp add: newServerDNSCache_def cache_New_def cache_get_def)
  obtain c1 p where j: "join_flight ?c0 (scoped q ''u'') 1 = (c1, JoinLead p)" "dc_cache c1 = dc_cache ?c0" "dc_upstreams c1 = dc_upstreams ?c0"
  proof (rule that)
    have f: "dc_flights ?c0 = Map.empty" by (simp add: newServerDNSCache_def)
    show "join_flight ?c0 (scoped q ''u'') 1 = (?c0\<lparr>dc_cache := dc_cache ?c0, dc_flights := [scoped q ''u'' \<mapsto> dc_fresh ?c0],
        dc_store := (dc_store ?c0)(dc_fresh ?c0 \<mapsto> None), dc_fresh := Suc (dc_fresh ?c0)\<rparr>, JoinLead (dc_fresh ?c0))"
      unfolding join_flight_def none f by (simp add: Let_def)
  qed simp_all
  have r1: "dns_runs c1 [p \<mapsto> (q, scoped q ''u'', None)] [] []" by (rule dns_lead [OF dns_start c(1) j(1)])
  obtain ca where ca: "cache_put (dc_cache ?c0) (scoped q ''u'') response 1 = Some ca" using lru.put_returns [OF cg] by blast
  have "queryUpstream c1 (\<lambda>_. Some response) q (scoped q ''u'') 1 = Some (c1\<lparr>dc_cache := ca\<rparr>, Some response)"
    by (simp add: queryUpstream_def j(2,3) u c sameDNSQuestion_def ca)
  from dns_ask [OF r1, of p, OF _ this] have "dns_runs (c1\<lparr>dc_cache := ca\<rparr>) [p \<mapsto> (q, scoped q ''u'', Some (Some response))] [] []" by simp
  from dns_land [OF this, of p q "scoped q ''u''" "Some response"]
  have r2: "dns_runs (land_flight (c1\<lparr>dc_cache := ca\<rparr>) (scoped q ''u'') p (Some response)) Map.empty [] [(q, scoped q ''u'', rewriteDNSResponseID response 7)]"
    by (simp add: q_def)
  obtain r where "rewriteDNSResponseID response 7 = put16 7 @ drop 2 r" using dns_answers_match [OF r2] by (auto simp: q_def)
  then have "u16_at (rewriteDNSResponseID response 7) 0 = 7" by simp
  then show ?thesis using r2 by blast
qed

end
