(* ===== verification/FakeDns.thy ===== *)
theory FakeDns
  imports Dns RouteRules
begin

text \<open>
  Addresses for names that no resolver knows (\<^verbatim>\<open>cmd/server/fake_dns.go\<close>): a name below \<^verbatim>\<open>onion\<close> or
  \<^verbatim>\<open>i2p\<close> gets an address in a configured IPv6 prefix, and a request for this address is turned back into one for
  the name.
\<close>

section \<open>Model\<close>

record serverFakeDNS =
  fd_prefix :: nprefix
  fd_ttl :: duration
  fd_nextID :: u32
  fd_byName :: "(string, naddr) cache"
  fd_byAddr :: "(string, string) cache"

text \<open>\<^verbatim>\<open>netip.Prefix.Contains\<close>: the versions agree, there is no zone and the leading bits agree.\<close>

definition Prefix_Contains :: "nprefix \<Rightarrow> naddr \<Rightarrow> bool" where
  "Prefix_Contains p a \<longleftrightarrow>
     (case (Prefix_Addr p, a) of
        (A4 x, A4 y) \<Rightarrow> clear_bits (Prefix_Bits p) 32 x = clear_bits (Prefix_Bits p) 32 y
      | (A6 x _, A6 y z) \<Rightarrow> z = [] \<and> clear_bits (Prefix_Bits p) 128 x = clear_bits (Prefix_Bits p) 128 y
      | _ \<Rightarrow> False)"

definition newServerFakeDNS :: "string \<Rightarrow> duration \<Rightarrow> int \<Rightarrow> serverFakeDNS option" where
  "newServerFakeDNS prefixRaw ttl maxSize =
     (case ParsePrefix (TrimSpace prefixRaw) of
        None \<Rightarrow> None
      | Some p \<Rightarrow>
          if \<not> Is6 (Prefix_Addr p) \<or> Prefix_Bits p \<noteq> 96 then None
          else Some \<lparr>fd_prefix = Masked p, fd_ttl = ttl, fd_nextID = 0, fd_byName = cache_New ttl maxSize, fd_byAddr = cache_New ttl maxSize\<rparr>)"

definition normal_name :: "string \<Rightarrow> string" where
  "normal_name name = TrimSuffix (ToLower (TrimSpace name)) ''.''"

definition fakeDNSSpecialName :: "string \<Rightarrow> bool" where
  "fakeDNSSpecialName name0 =
     (let name = normal_name name0 in HasSuffix name ''.onion'' \<or> HasSuffix name ''.i2p'' \<or> name = ''onion'' \<or> name = ''i2p'')"

definition fakeDNSAddrFromID :: "nprefix \<Rightarrow> u32 \<Rightarrow> naddr" where
  "fakeDNSAddrFromID p n = A6 (take 12 (As16 (Prefix_Addr p)) @ put32 n) []"

text \<open>
  \<^verbatim>\<open>addrForName\<close> in its parts: the name is known; under the lock, if it still is not, the next number that is not 0 is
  taken.  The address is then stored for the way back.
\<close>

definition known_addr :: "serverFakeDNS \<Rightarrow> string \<Rightarrow> time \<Rightarrow> serverFakeDNS \<times> naddr option" where
  "known_addr f name now = (case cache_get (fd_byName f) name True now of (c, r) \<Rightarrow> (f\<lparr>fd_byName := c\<rparr>, r))"

definition next_id :: "u32 \<Rightarrow> u32" where
  "next_id n = (if n + 1 = 0 then n + 2 else n + 1)"

definition new_addr :: "serverFakeDNS \<Rightarrow> string \<Rightarrow> time \<Rightarrow> (serverFakeDNS \<times> naddr) option" where
  "new_addr f name now =
     (let n = next_id (fd_nextID f); addr = fakeDNSAddrFromID (fd_prefix f) n
      in map_option (\<lambda>c. (f\<lparr>fd_nextID := n, fd_byName := c\<rparr>, addr)) (cache_put (fd_byName f) name addr now))"

definition put_back :: "serverFakeDNS \<Rightarrow> naddr \<Rightarrow> string \<Rightarrow> time \<Rightarrow> serverFakeDNS option" where
  "put_back f addr name now = map_option (\<lambda>c. f\<lparr>fd_byAddr := c\<rparr>) (cache_put (fd_byAddr f) (Addr_String addr) name now)"

text \<open>Without interference; None would be an eviction that does not end.\<close>

definition addrForName :: "serverFakeDNS \<Rightarrow> string \<Rightarrow> time \<Rightarrow> (serverFakeDNS \<times> naddr) option" where
  "addrForName f name0 now =
     (let name = normal_name name0
      in case known_addr f name now of
           (f1, Some addr) \<Rightarrow> map_option (\<lambda>f2. (f2, addr)) (put_back f1 addr name now)
         | (f1, None) \<Rightarrow>
             (case known_addr f1 name now of
                (f2, Some addr) \<Rightarrow> map_option (\<lambda>f3. (f3, addr)) (put_back f2 addr name now)
              | (f2, None) \<Rightarrow>
                  (case new_addr f2 name now of
                     None \<Rightarrow> None
                   | Some (f3, addr) \<Rightarrow> map_option (\<lambda>f4. (f4, addr)) (put_back f3 addr name now))))"

definition buildDNSNoAnswerResponse :: "bytes \<Rightarrow> nat \<Rightarrow> bytes" where
  "buildDNSNoAnswerResponse query questionEnd =
     (if length query < 12 \<or> questionEnd < 12 \<or> length query < questionEnd then query
      else
        take 2 query @ put16 (0x8000 OR (u16_at query 2 AND dnsQueryFlagMask)) @ take 2 (drop 4 query) @ replicate 6 0 @
        drop 12 (take questionEnd query))"

definition buildDNSAAAAResponse :: "bytes \<Rightarrow> nat \<Rightarrow> naddr \<Rightarrow> u32 \<Rightarrow> bytes" where
  "buildDNSAAAAResponse query questionEnd addr ttl =
     (let response = buildDNSNoAnswerResponse query questionEnd
      in if length response < 12 \<or> \<not> Is6 addr then response
         else take 6 response @ put16 1 @ drop 8 response @
           [0xc0, 0x0c] @ put16 dnsQTypeAAAA @ put16 dnsQClassIN @ put32 ttl @ put16 16 @ As16 addr)"

definition ResponseForQuery :: "serverFakeDNS \<Rightarrow> bytes \<Rightarrow> time \<Rightarrow> (serverFakeDNS \<times> bytes option) option" where
  "ResponseForQuery f query now =
     (case parseDNSQueryQuestionWithAdditional query of
        None \<Rightarrow> Some (f, None)
      | Some q \<Rightarrow>
          if \<not> fakeDNSSpecialName (dk_name (dq_key q)) then Some (f, None)
          else if dk_qclass (dq_key q) \<noteq> dnsQClassIN then Some (f, Some (buildDNSNoAnswerResponse query (dq_questionEnd q)))
          else if dk_qtype (dq_key q) = dnsQTypeAAAA \<or> dk_qtype (dq_key q) = dnsQTypeANY
          then map_option (\<lambda>(f', addr). (f', Some (buildDNSAAAAResponse query (dq_questionEnd q) addr (word_of_int (fd_ttl f div seconds 1)))))
                 (addrForName f (dk_name (dq_key q)) now)
          else Some (f, Some (buildDNSNoAnswerResponse query (dq_questionEnd q))))"

definition fakeDNSQueryInfo :: "bytes \<Rightarrow> (string \<times> u16) option" where
  "fakeDNSQueryInfo query =
     (case parseDNSQueryQuestionWithAdditional query of
        None \<Rightarrow> None
      | Some q \<Rightarrow> if \<not> fakeDNSSpecialName (dk_name (dq_key q)) then None else Some (dk_name (dq_key q), dk_qtype (dq_key q)))"

definition Lookup :: "serverFakeDNS \<Rightarrow> string \<Rightarrow> time \<Rightarrow> serverFakeDNS \<times> string option" where
  "Lookup f ip now =
     (case ParseAddr (TrimSpace ip) of
        None \<Rightarrow> (f, None)
      | Some addr \<Rightarrow>
          if \<not> Is6 addr \<or> \<not> Prefix_Contains (fd_prefix f) addr then (f, None)
          else (case cache_get (fd_byAddr f) (Addr_String addr) True now of (c, r) \<Rightarrow> (f\<lparr>fd_byAddr := c\<rparr>, r)))"

definition restoreFakeDNSHost :: "serverFakeDNS option \<Rightarrow> string \<Rightarrow> time \<Rightarrow> serverFakeDNS option \<times> string \<times> bool" where
  "restoreFakeDNSHost fakeDNS host now =
     (case fakeDNS of
        None \<Rightarrow> (None, host, False)
      | Some f \<Rightarrow> (case Lookup f host now of (f', None) \<Rightarrow> (Some f', host, False) | (f', Some name) \<Rightarrow> (Some f', name, True)))"

definition restoreFakeDNSTarget :: "serverFakeDNS option \<Rightarrow> Request option \<Rightarrow> time \<Rightarrow> serverFakeDNS option \<times> Request option \<times> bool" where
  "restoreFakeDNSTarget fakeDNS req now =
     (case req of
        None \<Rightarrow> (fakeDNS, None, False)
      | Some r \<Rightarrow>
          if rq_AddrType r \<noteq> AtypIPv6 then (fakeDNS, req, False)
          else
            (case restoreFakeDNSHost fakeDNS (rq_DstAddr r) now of
               (f', name, False) \<Rightarrow> (f', req, False)
             | (f', name, True) \<Rightarrow> (f', Some (r\<lparr>rq_AddrType := AtypDomain, rq_DstAddr := name\<rparr>), True)))"


section \<open>Addresses and their texts\<close>

lemma no_space: "\<lbrakk>\<And>c. c \<in> set s \<Longrightarrow> \<not> is_space c\<rbrakk> \<Longrightarrow> TrimSpace s = s"
proof -
  assume a: "\<And>c. c \<in> set s \<Longrightarrow> \<not> is_space c"
  have d: "(\<And>c. c \<in> set t \<Longrightarrow> \<not> is_space c) \<Longrightarrow> dropWhile is_space t = t" for t by (cases t) auto
  have "dropWhile is_space s = s" "dropWhile is_space (rev s) = rev s" by (rule d; use a in simp)+
  then show ?thesis by (simp add: TrimSpace_def)
qed

lemma text6_no_space: "c \<in> set (text6 ip) \<Longrightarrow> \<not> is_space c"
proof -
  have sp: "\<not> is_space (digit_char d)" if "d < 16" for d
    using hex_digit_char [OF that] by (auto simp: hex_digit_def is_space_def Let_def less_eq_char_def split: if_splits)
  have h: "\<not> is_space x" if "x \<in> set (hex_text w)" for x w
  proof -
    have "unat w < 65536" using word_bounds(2) [of w] by simp
    then show ?thesis using that sp by (auto simp: hex_text_def Let_def split: if_splits intro!: sp)
  qed
  have j: "\<not> is_space x" if "x \<in> set (join_text (CHR '':'') (map hex_text gs))" for x gs
  proof -
    have "\<not> is_space (CHR '':'')" by code_simp
    then show ?thesis using that join_set [of "CHR '':''" "map hex_text gs"] h by auto
  qed
  have "\<not> is_space (CHR '':'')" by code_simp
  then show "c \<in> set (text6 ip) \<Longrightarrow> \<not> is_space c" using j by (auto simp: text6_def Let_def split: prod.splits if_splits)
qed

lemma ParseAddr_text6:
  assumes "length ip = 16"
  shows "ParseAddr (text6 ip) = Some (A6 ip [])"
proof -
  note t = parse_text6 [OF assms]
  have "takeWhile (\<lambda>x. x \<noteq> CHR ''%'') (text6 ip) = text6 ip" using t(3) by (intro takeWhile_eq_all_conv [THEN iffD2]) auto
  then show ?thesis unfolding ParseAddr_def find_colon [OF t(2-4)] using t(1) by (simp only: Let_def) simp
qed

text \<open>The state of the component: a prefix of 96 bits that is not the one of the mapped IPv4 addresses, caches with the same TTL.\<close>

definition fake_ok :: "serverFakeDNS \<Rightarrow> bool" where
  "fake_ok f \<longleftrightarrow>
     (\<exists>p. fd_prefix f = Prefix (A6 p []) 96 \<and> length p = 16 \<and> take 12 p \<noteq> v4_in_v6) \<and> cache_inv (fd_byName f) \<and> cache_inv (fd_byAddr f) \<and>
     c_ttl (fd_byAddr f) = fd_ttl f"

lemma fake_addr:
  assumes "fake_ok f"
  shows "length (As16 (fakeDNSAddrFromID (fd_prefix f) n)) = 16" "Is6 (fakeDNSAddrFromID (fd_prefix f) n)"
    "Prefix_Contains (fd_prefix f) (fakeDNSAddrFromID (fd_prefix f) n)"
    "IP_String (As16 (fakeDNSAddrFromID (fd_prefix f) n)) = Addr_String (fakeDNSAddrFromID (fd_prefix f) n)"
    "ParseAddr (TrimSpace (Addr_String (fakeDNSAddrFromID (fd_prefix f) n))) = Some (fakeDNSAddrFromID (fd_prefix f) n)"
    "fakeDNSAddrFromID (fd_prefix f) n = fakeDNSAddrFromID (fd_prefix f) m \<longleftrightarrow> n = m"
proof -
  obtain p where p: "fd_prefix f = Prefix (A6 p []) 96" "length p = 16" "take 12 p \<noteq> v4_in_v6" using assms by (auto simp: fake_ok_def)
  define ip where "ip = take 12 p @ put32 n"
  have a: "fakeDNSAddrFromID (fd_prefix f) n = A6 ip []" "length ip = 16" "take 12 ip = take 12 p"
    using p by (simp_all add: fakeDNSAddrFromID_def As16_def ip_def)
  have t: "Addr_String (A6 ip []) = text6 ip" using p(3) a(3) by (simp add: Addr_String_def)
  show "length (As16 (fakeDNSAddrFromID (fd_prefix f) n)) = 16" "Is6 (fakeDNSAddrFromID (fd_prefix f) n)"
    by (simp_all add: a As16_def Is6_def)
  have "same_prefix 96 p ip" using p(2) by (auto simp: same_prefix_def addr_bit_def ip_def nth_append)
  then show "Prefix_Contains (fd_prefix f) (fakeDNSAddrFromID (fd_prefix f) n)"
    using clear_bits_eq_iff [of p ip 128 96] p a by (simp add: Prefix_Contains_def)
  show "IP_String (As16 (fakeDNSAddrFromID (fd_prefix f) n)) = Addr_String (fakeDNSAddrFromID (fd_prefix f) n)"
    using a p(3) t by (auto simp: As16_def IP_String_def To4_def)
  show "ParseAddr (TrimSpace (Addr_String (fakeDNSAddrFromID (fd_prefix f) n))) = Some (fakeDNSAddrFromID (fd_prefix f) n)"
    unfolding a t using no_space [of "text6 ip"] text6_no_space ParseAddr_text6 [OF a(2)] by metis
  have "put32 n = put32 m \<longleftrightarrow> n = m" by (metis get_put(2))
  then show "fakeDNSAddrFromID (fd_prefix f) n = fakeDNSAddrFromID (fd_prefix f) m \<longleftrightarrow> n = m" by (simp add: fakeDNSAddrFromID_def)
qed


section \<open>The way back\<close>

lemma read_name_end:
  "read_name steps packet offset nxt jumped labels = Some (name, e) \<Longrightarrow> (jumped \<longrightarrow> e = nxt) \<and> (\<not> jumped \<longrightarrow> offset < e)"
proof (induction steps packet offset nxt jumped labels rule: read_name.induct)
  case (2 steps packet offset nxt jumped labels)
  show ?case
    using 2(3) 2(1) [OF _ refl _ _ refl] 2(2) [OF _ refl _ _ _ _ refl]
    by (auto simp: Let_def split: if_splits)
qed simp

lemma question_end:
  assumes "parseDNSQuestion packet want strict = Some q"
  shows "12 \<le> dq_questionEnd q" "dq_questionEnd q \<le> length packet" "12 \<le> length packet"
  using assms read_name_end [of 128 packet 12 12 False "[]"]
  by (auto simp: parseDNSQuestion_def readDNSName_def Let_def split: if_splits option.splits)

lemma known_addr_spec:
  assumes "known_addr f name now = (f', r)" and "cache_inv (fd_byName f)"
  shows "fd_prefix f' = fd_prefix f" "fd_byAddr f' = fd_byAddr f" "fd_ttl f' = fd_ttl f" "fd_nextID f' = fd_nextID f" "cache_inv (fd_byName f')"
    "lru.holds P (fd_byName f) \<Longrightarrow> lru.holds P (fd_byName f') \<and> (\<forall>a. r = Some a \<longrightarrow> P name a)"
  using assms lru.get_invar [of "fd_byName f" name True now] lru.holds_get [of "fd_byName f" P name True now] lru.holds_read [of "fd_byName f" P name True now]
  by (auto simp: known_addr_def split: prod.splits)

lemma new_addr_spec:
  assumes "cache_inv (fd_byName f)"
  obtains c where "new_addr f name now = Some (f\<lparr>fd_nextID := next_id (fd_nextID f), fd_byName := c\<rparr>, fakeDNSAddrFromID (fd_prefix f) (next_id (fd_nextID f)))"
    "cache_inv c" "\<And>P. lru.holds P (fd_byName f) \<Longrightarrow> P name (fakeDNSAddrFromID (fd_prefix f) (next_id (fd_nextID f))) \<Longrightarrow> lru.holds P c"
  using lru.put_returns [OF assms, of name "fakeDNSAddrFromID (fd_prefix f) (next_id (fd_nextID f))" now]
    lru.holds_put [OF assms] that by (fastforce simp: new_addr_def Let_def)

lemma put_back_spec:
  assumes "cache_inv (fd_byAddr f)"
  obtains c where "put_back f addr name now = Some (f\<lparr>fd_byAddr := c\<rparr>)" "cache_inv c" "c_ttl c = c_ttl (fd_byAddr f)"
    "\<And>now'. fresh_for (c_ttl (fd_byAddr f)) now now' \<Longrightarrow> cache_lookup c (Addr_String addr) now' = Some name"
    "\<And>P. lru.holds P (fd_byAddr f) \<Longrightarrow> P (Addr_String addr) name \<Longrightarrow> lru.holds P c"
proof -
  obtain c where c: "cache_put (fd_byAddr f) (Addr_String addr) name now = Some c" "cache_inv c" "c_ttl c = c_ttl (fd_byAddr f)"
    using lru.put_returns [OF assms] by blast
  show thesis
    using c lru.put_self [OF assms c(1)] lru.holds_put [OF assms _ _ c(1)] by (intro that [of c]) (simp_all add: put_back_def)
qed

definition in_prefix :: "serverFakeDNS \<Rightarrow> string \<Rightarrow> naddr \<Rightarrow> bool" where
  "in_prefix f name a \<longleftrightarrow> (\<exists>n. a = fakeDNSAddrFromID (fd_prefix f) n)"

lemma addrForName_spec:
  assumes ok: "fake_ok f" and h: "lru.holds (in_prefix f) (fd_byName f)" and fr: "fresh_for (fd_ttl f) now now'"
  obtains f' n where "addrForName f name now = Some (f', fakeDNSAddrFromID (fd_prefix f) n)" "fake_ok f'" "fd_prefix f' = fd_prefix f"
    "cache_lookup (fd_byAddr f') (Addr_String (fakeDNSAddrFromID (fd_prefix f) n)) now' = Some (normal_name name)"
proof -
  let ?nm = "normal_name name"
  note result = that
  have put: thesis if g: "fd_prefix g = fd_prefix f" "fd_byAddr g = fd_byAddr f" "fd_ttl g = fd_ttl f" "cache_inv (fd_byName g)"
    and a: "addrForName f name now = map_option (\<lambda>x. (x, fakeDNSAddrFromID (fd_prefix f) n)) (put_back g (fakeDNSAddrFromID (fd_prefix f) n) ?nm now)" for g n
  proof -
    have "cache_inv (fd_byAddr g)" using ok g by (simp add: fake_ok_def)
    then obtain c where c: "put_back g (fakeDNSAddrFromID (fd_prefix f) n) ?nm now = Some (g\<lparr>fd_byAddr := c\<rparr>)" "cache_inv c" "c_ttl c = c_ttl (fd_byAddr g)"
      "\<And>now'. fresh_for (c_ttl (fd_byAddr g)) now now' \<Longrightarrow> cache_lookup c (Addr_String (fakeDNSAddrFromID (fd_prefix f) n)) now' = Some ?nm"
      by (rule put_back_spec [where addr = "fakeDNSAddrFromID (fd_prefix f) n" and name = ?nm and now = now]) blast
    show thesis
      using ok g a c fr by (intro result [of "g\<lparr>fd_byAddr := c\<rparr>" n]) (auto simp: fake_ok_def)
  qed
  have i: "cache_inv (fd_byName f)" using ok by (simp add: fake_ok_def)
  obtain f1 r1 where k1: "known_addr f ?nm now = (f1, r1)" by fastforce
  note K1 = known_addr_spec [OF k1 i]
  have h1: "lru.holds (in_prefix f) (fd_byName f1)" using K1(6) [OF h] by blast
  show thesis
  proof (cases r1)
    case (Some a)
    then obtain n where "a = fakeDNSAddrFromID (fd_prefix f) n" using K1(6) [OF h] by (auto simp: in_prefix_def)
    then show thesis using K1 k1 Some by (intro put [of f1 n]) (simp_all add: addrForName_def Let_def)
  next
    case None
    obtain f2 r2 where k2: "known_addr f1 ?nm now = (f2, r2)" by fastforce
    note K2 = known_addr_spec [OF k2 K1(5)]
    show thesis
    proof (cases r2)
      case (Some a)
      then obtain n where "a = fakeDNSAddrFromID (fd_prefix f) n" using K2(6) [OF h1] by (auto simp: in_prefix_def)
      then show thesis using K1 K2 k1 k2 None Some by (intro put [of f2 n]) (simp_all add: addrForName_def Let_def)
    next
      case r2: None
      obtain c where c: "new_addr f2 ?nm now = Some (f2\<lparr>fd_nextID := next_id (fd_nextID f2), fd_byName := c\<rparr>, fakeDNSAddrFromID (fd_prefix f2) (next_id (fd_nextID f2)))"
        "cache_inv c" by (rule new_addr_spec [OF K2(5), where name = ?nm and now = now]) blast
      show thesis
        using K1 K2 k1 k2 None r2 c
        by (intro put [of "f2\<lparr>fd_nextID := next_id (fd_nextID f2), fd_byName := c\<rparr>" "next_id (fd_nextID f2)"]) (simp_all add: addrForName_def Let_def)
    qed
  qed
qed

text \<open>
  An address that is made up for a name leads back to the name.  The answer to a query for a name below onion or i2p ends
  with sixteen bytes; a request for the IPv6 address of these bytes that is the next use of the table, within the TTL, is
  turned into a request for the name, with its port and everything else as it was.  (Names that are asked for in between
  may push the name out of the table, which has a fixed size.)
\<close>

theorem fake_address_leads_back:
  assumes ok: "fake_ok f" and h: "lru.holds (in_prefix f) (fd_byName f)"
    and q: "parseDNSQueryQuestionWithAdditional query = Some q" "fakeDNSSpecialName (dk_name (dq_key q))" "dk_qclass (dq_key q) = dnsQClassIN"
    "dk_qtype (dq_key q) = dnsQTypeAAAA \<or> dk_qtype (dq_key q) = dnsQTypeANY"
    and fr: "fresh_for (fd_ttl f) now now'" and r: "rq_AddrType req = AtypIPv6"
  shows "\<exists>f' response ip f''. ResponseForQuery f query now = Some (f', Some response) \<and> length ip = 16 \<and> drop (length response - 16) response = ip \<and>
    restoreFakeDNSTarget (Some f') (Some (req\<lparr>rq_DstAddr := IP_String ip\<rparr>)) now' =
      (Some f'', Some (req\<lparr>rq_AddrType := AtypDomain, rq_DstAddr := normal_name (dk_name (dq_key q))\<rparr>), True)"
proof -
  obtain f' n where f': "addrForName f (dk_name (dq_key q)) now = Some (f', fakeDNSAddrFromID (fd_prefix f) n)" "fake_ok f'" "fd_prefix f' = fd_prefix f"
    "cache_lookup (fd_byAddr f') (Addr_String (fakeDNSAddrFromID (fd_prefix f) n)) now' = Some (normal_name (dk_name (dq_key q)))"
    by (rule addrForName_spec [OF ok h fr])
  define a where "a = fakeDNSAddrFromID (fd_prefix f) n"
  note A = fake_addr [OF ok, of n, folded a_def]
  define response where "response = buildDNSAAAAResponse query (dq_questionEnd q) a (word_of_int (fd_ttl f div seconds 1))"
  have R: "ResponseForQuery f query now = Some (f', Some response)"
    using q f'(1) by (auto simp: ResponseForQuery_def response_def a_def)
  note E = question_end [OF q(1) [unfolded parseDNSQueryQuestionWithAdditional_def]]
  have "12 \<le> length (buildDNSNoAnswerResponse query (dq_questionEnd q))" using E by (simp add: buildDNSNoAnswerResponse_def)
  then have d: "drop (length response - 16) response = As16 a" using A(1,2) by (simp add: response_def buildDNSAAAAResponse_def Let_def)
  obtain c where c: "cache_get (fd_byAddr f') (Addr_String a) True now' = (c, Some (normal_name (dk_name (dq_key q))))"
    using lru.get_value [of "fd_byAddr f'" "Addr_String a" True now'] f'(2,4) by (metis a_def fake_ok_def prod.collapse)
  have "Lookup f' (Addr_String a) now' = (f'\<lparr>fd_byAddr := c\<rparr>, Some (normal_name (dk_name (dq_key q))))"
    using A c f'(3) by (simp add: Lookup_def)
  then have "restoreFakeDNSTarget (Some f') (Some (req\<lparr>rq_DstAddr := IP_String (As16 a)\<rparr>)) now' =
      (Some (f'\<lparr>fd_byAddr := c\<rparr>), Some (req\<lparr>rq_AddrType := AtypDomain, rq_DstAddr := normal_name (dk_name (dq_key q))\<rparr>), True)"
    using r A(4) by (simp add: restoreFakeDNSTarget_def restoreFakeDNSHost_def)
  then show ?thesis using R d A(1) by blast
qed


section \<open>Names are never confused\<close>

text \<open>
  Everything that may happen, in any order: a name is looked up, a new address is taken for an unknown name, the way back is
  stored for a pair that was handed out, an address is looked up.  The list has the pairs handed out and the number is
  that of the addresses taken.
\<close>

inductive fake_runs :: "serverFakeDNS \<Rightarrow> (string \<times> naddr) list \<Rightarrow> nat \<Rightarrow> bool" where
  fake_start: "newServerFakeDNS prefixRaw ttl maxSize = Some f \<Longrightarrow> take 12 (As16 (Prefix_Addr (fd_prefix f))) \<noteq> v4_in_v6 \<Longrightarrow> fake_runs f [] 0"
| fake_known: "fake_runs f handed n \<Longrightarrow> known_addr f name now = (f', r) \<Longrightarrow>
    fake_runs f' (handed @ (case r of None \<Rightarrow> [] | Some a \<Rightarrow> [(name, a)])) n"
| fake_new: "fake_runs f handed n \<Longrightarrow> known_addr f name now = (f1, None) \<Longrightarrow> new_addr f1 name now = Some (f2, a) \<Longrightarrow>
    fake_runs f2 (handed @ [(name, a)]) (Suc n)"
| fake_put: "fake_runs f handed n \<Longrightarrow> (name, a) \<in> set handed \<Longrightarrow> put_back f a name now = Some f' \<Longrightarrow> fake_runs f' handed n"
| fake_lookup: "fake_runs f handed n \<Longrightarrow> Lookup f ip now = (f', r) \<Longrightarrow> fake_runs f' handed n"

lemma newServerFakeDNS_ok:
  assumes "newServerFakeDNS prefixRaw ttl maxSize = Some f" and "take 12 (As16 (Prefix_Addr (fd_prefix f))) \<noteq> v4_in_v6"
  shows "fake_ok f" "lru.holds P (fd_byName f)" "lru.holds Q (fd_byAddr f)" "fd_nextID f = 0"
proof -
  obtain p where p: "ParsePrefix (TrimSpace prefixRaw) = Some p" "Is6 (Prefix_Addr p)" "Prefix_Bits p = 96"
    "f = \<lparr>fd_prefix = Masked p, fd_ttl = ttl, fd_nextID = 0, fd_byName = cache_New ttl maxSize, fd_byAddr = cache_New ttl maxSize\<rparr>"
    using assms(1) by (auto simp: newServerFakeDNS_def split: option.splits if_splits)
  have n: "lru.holds R (cache_New ttl maxSize)" for R unfolding lru.holds_def by (simp add: cache_lookup_def new_inv)
  show "lru.holds P (fd_byName f)" "lru.holds Q (fd_byAddr f)" "fd_nextID f = 0" using n by (simp_all add: p(4))
  obtain ip z where ip: "Prefix_Addr p = A6 ip z" using p(2) by (cases "Prefix_Addr p") (auto simp: Is6_def)
  then have "length ip = 16" using ParsePrefix_ok [OF p(1)] by (simp add: prefix_ok_def)
  then have "Masked p = Prefix (A6 (clear_bits 96 128 ip) []) 96" "length (clear_bits 96 128 ip) = 16"
    using p(3) ip by (simp_all add: Masked_def clear_bits_ok)
  then show "fake_ok f" using assms(2) by (simp add: fake_ok_def p(4) As16_def new_inv) (simp add: cache_New_def)
qed

definition owned :: "nprefix \<Rightarrow> (u32 \<Rightarrow> string) \<Rightarrow> nat \<Rightarrow> string \<Rightarrow> naddr \<Rightarrow> bool" where
  "owned p owner n name a \<longleftrightarrow> (\<exists>i. unat i \<le> n \<and> a = fakeDNSAddrFromID p i \<and> owner i = name)"

definition back_owned :: "nprefix \<Rightarrow> (u32 \<Rightarrow> string) \<Rightarrow> nat \<Rightarrow> string \<Rightarrow> string \<Rightarrow> bool" where
  "back_owned p owner n s name \<longleftrightarrow> (\<exists>a. s = Addr_String a \<and> owned p owner n name a)"

definition fake_inv :: "serverFakeDNS \<Rightarrow> (string \<times> naddr) list \<Rightarrow> nat \<Rightarrow> (u32 \<Rightarrow> string) \<Rightarrow> bool" where
  "fake_inv f handed n owner \<longleftrightarrow>
     (\<exists>p. fd_prefix f = Prefix (A6 p []) 96 \<and> length p = 16 \<and> take 12 p \<noteq> v4_in_v6) \<and> cache_inv (fd_byName f) \<and> cache_inv (fd_byAddr f) \<and>
     unat (fd_nextID f) = n \<and> lru.holds (owned (fd_prefix f) owner n) (fd_byName f) \<and> lru.holds (back_owned (fd_prefix f) owner n) (fd_byAddr f) \<and>
     (\<forall>(name, a) \<in> set handed. owned (fd_prefix f) owner n name a)"

lemma fake_holds_mono: "lru.holds P c \<Longrightarrow> (\<And>k v. P k v \<Longrightarrow> Q k v) \<Longrightarrow> lru.holds Q c"
  unfolding lru.holds_def by blast

lemma fake_invariant: "fake_runs f handed n \<Longrightarrow> n < 2 ^ 32 \<Longrightarrow> \<exists>owner. fake_inv f handed n owner"
proof (induction rule: fake_runs.induct)
  case (fake_start prefixRaw ttl maxSize f)
  show ?case using newServerFakeDNS_ok [OF fake_start(1,2)] by (auto simp: fake_inv_def fake_ok_def)
next
  case (fake_known f handed n name now f' r)
  then obtain owner where i: "fake_inv f handed n owner" by blast
  have "cache_inv (fd_byName f)" using i by (simp add: fake_inv_def)
  note K = known_addr_spec [OF fake_known.hyps(2) this]
  have "fake_inv f' (handed @ (case r of None \<Rightarrow> [] | Some a \<Rightarrow> [(name, a)])) n owner"
    using i K(1-5) K(6) [where P = "owned (fd_prefix f) owner n"] by (cases r) (auto simp: fake_inv_def)
  then show ?case by blast
next
  case (fake_new f handed n name now f1 f2 a)
  then obtain owner where i: "fake_inv f handed n owner" by force
  have "cache_inv (fd_byName f)" using i by (simp add: fake_inv_def)
  note K = known_addr_spec [OF fake_new.hyps(2) this]
  let ?i = "fd_nextID f + 1"
  have nn: "unat ?i = Suc n" using i fake_new.prems by (subst unat_add_lem [THEN iffD1]) (auto simp: fake_inv_def)
  then have ni: "next_id (fd_nextID f1) = ?i" using K(4) i by (auto simp: next_id_def fake_inv_def)
  obtain c where c: "new_addr f1 name now = Some (f1\<lparr>fd_nextID := next_id (fd_nextID f1), fd_byName := c\<rparr>, fakeDNSAddrFromID (fd_prefix f1) (next_id (fd_nextID f1)))"
    "cache_inv c" "\<And>P. lru.holds P (fd_byName f1) \<Longrightarrow> P name (fakeDNSAddrFromID (fd_prefix f1) (next_id (fd_nextID f1))) \<Longrightarrow> lru.holds P c"
    by (rule new_addr_spec [OF K(5), where name = name and now = now]) blast
  let ?o = "owner(?i := name)"
  have m: "owned (fd_prefix f) ?o (Suc n) nm x" if "owned (fd_prefix f) owner n nm x" for nm x
    using that nn unfolding owned_def by (metis fun_upd_apply le_SucI not_less_eq_eq)
  have self: "owned (fd_prefix f) ?o (Suc n) name (fakeDNSAddrFromID (fd_prefix f) ?i)" using nn by (auto simp: owned_def)
  have pf: "fd_prefix f1 = fd_prefix f" "fd_byAddr f1 = fd_byAddr f" "lru.holds (owned (fd_prefix f) owner n) (fd_byName f1)"
    using i K(1,2) K(6) [where P = "owned (fd_prefix f) owner n"] by (auto simp: fake_inv_def)
  have "lru.holds (owned (fd_prefix f) ?o (Suc n)) c"
    by (rule c(3)) (use fake_holds_mono [OF pf(3) m] self in \<open>simp_all add: ni pf(1)\<close>)
  moreover have "lru.holds (back_owned (fd_prefix f) ?o (Suc n)) (fd_byAddr f)"
    by (rule fake_holds_mono [where P = "back_owned (fd_prefix f) owner n"]) (use i m in \<open>auto simp: fake_inv_def back_owned_def\<close>)
  moreover have "f2 = f1\<lparr>fd_nextID := ?i, fd_byName := c\<rparr>" "a = fakeDNSAddrFromID (fd_prefix f) ?i" using fake_new.hyps(3) c(1) ni pf(1) by auto
  ultimately have "fake_inv f2 (handed @ [(name, a)]) (Suc n) ?o"
    using i c(2) self m nn pf by (auto simp: fake_inv_def)
  then show ?case by blast
next
  case (fake_put f handed n name a now f')
  then obtain owner where i: "fake_inv f handed n owner" by blast
  have b: "back_owned (fd_prefix f) owner n (Addr_String a) name" using i fake_put.hyps(2) by (auto simp: fake_inv_def back_owned_def)
  obtain c where c: "put_back f a name now = Some (f\<lparr>fd_byAddr := c\<rparr>)" "cache_inv c"
    "\<And>P. lru.holds P (fd_byAddr f) \<Longrightarrow> P (Addr_String a) name \<Longrightarrow> lru.holds P c"
    by (rule put_back_spec [where f = f and addr = a and name = name and now = now]) (use i in \<open>auto simp: fake_inv_def\<close>)
  have "fake_inv f' handed n owner" using i b c(3) [where P = "back_owned (fd_prefix f) owner n"] c(1,2) fake_put.hyps(3) by (auto simp: fake_inv_def)
  then show ?case by blast
next
  case (fake_lookup f handed n ip now f' r)
  then obtain owner where i: "fake_inv f handed n owner" by blast
  have "f' = f \<or> (\<exists>k. f' = f\<lparr>fd_byAddr := fst (cache_get (fd_byAddr f) k True now)\<rparr>)"
    using fake_lookup.hyps(2) by (auto simp: Lookup_def split: option.splits if_splits prod.splits) (metis fst_conv)
  then have "fake_inv f' handed n owner"
    using i lru.get_invar [of "fd_byAddr f"] lru.holds_get [of "fd_byAddr f" "back_owned (fd_prefix f) owner n"] by (auto simp: fake_inv_def)
  then show ?case by blast
qed

text \<open>
  C40. Made-up addresses never lead to a wrong name.  In every interleaving of lookups of names and addresses, with entries
  expiring and evicted at any time, and as long as fewer than \<open>2 ^ 32\<close> addresses have been taken: an address is handed
  out for one name only, and what a lookup of it returns, if anything, is this name.
\<close>

theorem fake_names_not_confused:
  assumes "fake_runs f handed n" and "n < 2 ^ 32" and "(name, a) \<in> set handed"
  shows "(\<forall>name'. (name', a) \<in> set handed \<longrightarrow> name' = name) \<and>
    (\<forall>ip now. ParseAddr (TrimSpace ip) = Some a \<longrightarrow> snd (Lookup f ip now) = None \<or> snd (Lookup f ip now) = Some name)"
proof -
  obtain owner where i: "fake_inv f handed n owner" using fake_invariant [OF assms(1,2)] ..
  define g where "g = f\<lparr>fd_ttl := c_ttl (fd_byAddr f)\<rparr>"
  have g: "fake_ok g" "fd_prefix g = fd_prefix f" using i by (auto simp: fake_ok_def fake_inv_def g_def)
  note A = fake_addr [OF g(1), unfolded g(2)]
  have one: "nm = nm'" if "owned (fd_prefix f) owner n nm x" "owned (fd_prefix f) owner n nm' x" for nm nm' x
    using that A(6) by (auto simp: owned_def)
  have own: "owned (fd_prefix f) owner n nm x" if "(nm, x) \<in> set handed" for nm x using i that by (auto simp: fake_inv_def)
  have "nm = name" if l: "snd (Lookup f ip now) = Some nm" "ParseAddr (TrimSpace ip) = Some a" for ip now nm
  proof -
    have "snd (cache_get (fd_byAddr f) (Addr_String a) True now) = Some nm"
      using l by (auto simp: Lookup_def split: if_splits prod.splits)
    then have "back_owned (fd_prefix f) owner n (Addr_String a) nm" using i lru.holds_read [of "fd_byAddr f"] by (auto simp: fake_inv_def)
    then obtain b where b: "Addr_String a = Addr_String b" "owned (fd_prefix f) owner n nm b" by (auto simp: back_owned_def)
    have "a = b" using b own [OF assms(3)] A(5) by (metis option.inject owned_def)
    then show ?thesis using one [OF b(2)] own [OF assms(3)] by blast
  qed
  then have "snd (Lookup f ip now) = None \<or> snd (Lookup f ip now) = Some name" if "ParseAddr (TrimSpace ip) = Some a" for ip now
    using that by (cases "snd (Lookup f ip now)") auto
  then show ?thesis using one own assms(3) by blast
qed

definition sample_fake :: serverFakeDNS where
  "sample_fake = \<lparr>fd_prefix = Prefix (A6 (0xfd # replicate 15 0) []) 96, fd_ttl = 100, fd_nextID = 0, fd_byName = cache_New 100 8, fd_byAddr = cache_New 100 8\<rparr>"

theorem fake_address_leads_back_witness:
  "\<exists>f' response ip f''. ResponseForQuery sample_fake (dns_packet 7 0x0100 [''a'', ''onion''] 28 1 (replicate 6 0)) 5 = Some (f', Some response) \<and>
    restoreFakeDNSTarget (Some f') (Some (new_Request\<lparr>rq_AddrType := AtypIPv6, rq_DstAddr := IP_String ip\<rparr>)) 50 =
      (Some f'', Some (new_Request\<lparr>rq_AddrType := AtypDomain, rq_DstAddr := ''a.onion''\<rparr>), True)"
proof -
  let ?query = "dns_packet 7 0x0100 [''a'', ''onion''] 28 1 (replicate 6 0)"
  define q where "q = \<lparr>dq_id = 7, dq_questionEnd = 25, dq_key = \<lparr>dk_scope = [], dk_name = ''a.onion'', dk_qtype = 28, dk_qclass = 1, dk_flags = 0x0100\<rparr>\<rparr>"
  have q: "parseDNSQueryQuestionWithAdditional ?query = Some q" "fakeDNSSpecialName ''a.onion''" "normal_name ''a.onion'' = ''a.onion''"
    unfolding q_def by code_simp+
  have n: "lru.holds R (cache_New 100 8)" for R unfolding lru.holds_def by (simp add: cache_lookup_def new_inv)
  have "take 12 (0xfd # replicate 15 0 :: bytes) \<noteq> v4_in_v6" by code_simp
  then have ok: "fake_ok sample_fake" by (simp add: sample_fake_def fake_ok_def new_inv) (simp add: cache_New_def)
  show ?thesis
    using fake_address_leads_back [OF ok _ q(1), of 5 50 "new_Request\<lparr>rq_AddrType := AtypIPv6\<rparr>"] q(2,3) n
    by (auto simp: q_def sample_fake_def dnsQClassIN_def dnsQTypeAAAA_def fresh_for_def)
qed

theorem fake_names_not_confused_witness:
  "\<exists>f a. fake_runs f [(''a.onion'', a)] 1 \<and> (\<forall>ip now. ParseAddr (TrimSpace ip) = Some a \<longrightarrow> snd (Lookup f ip now) \<in> {None, Some ''a.onion''})"
proof -
  let ?ip = "0xfd # replicate 15 0 :: bytes"
  have "replicate 15 (0 :: byte) = 0 # replicate 14 0" by (simp add: eval_nat_numeral)
  then have p: "ParsePrefix (TrimSpace ''fd00::/96'') = Some (Prefix (A6 ?ip []) 96)"
    by (simp add: TrimSpace_def is_space_def ParsePrefix_def ParseAddr_def dec_digit_def hex_digit_def Is6_def Atoi_def less_eq_char_def
        parseIPv6_def parse6_groups.simps Let_def put16_def drop_bit_eq_div)
  have "addr_bit ?ip 0" "\<not> addr_bit v4_in_v6 0" by code_simp+
  then have "addr_bit (clear_bits 96 128 ?ip) 0" "length (clear_bits 96 128 ?ip) = 16" by (simp_all add: clear_bits_ok)
  then have "take 12 (clear_bits 96 128 ?ip) \<noteq> v4_in_v6" using \<open>\<not> addr_bit v4_in_v6 0\<close> by (metis addr_bit_def div_0 nth_take zero_less_numeral)
  then obtain f where s: "newServerFakeDNS ''fd00::/96'' 100 8 = Some f" "take 12 (As16 (Prefix_Addr (fd_prefix f))) \<noteq> v4_in_v6"
    using p by (auto simp: newServerFakeDNS_def Is6_def Masked_def As16_def)
  have r: "fake_runs f [] 0" by (rule fake_start [OF s])
  have c: "fd_byName f = cache_New 100 8" using s(1) by (auto simp: newServerFakeDNS_def split: option.splits if_splits)
  have k: "known_addr f ''a.onion'' 5 = (f, None)" by (simp add: known_addr_def c cache_get_def cache_New_def)
  obtain f2 a where "new_addr f ''a.onion'' 5 = Some (f2, a)"
    by (rule new_addr_spec [where f = f and name = "''a.onion''" and now = 5]) (auto simp: c new_inv)
  from fake_new [OF r k this] have r2: "fake_runs f2 [(''a.onion'', a)] 1" by simp
  show ?thesis using fake_names_not_confused [OF r2, of "''a.onion''" a] r2 by auto
qed

end
