(* ===== verification/ChannelRequests.thy ===== *)
theory ChannelRequests
  imports ReverseControl MuxRuns FakeDns
begin

text \<open>
  What the server does with a channel request (\<^verbatim>\<open>handleNewChannel\<close> and \<^verbatim>\<open>handleRegisteredChannel\<close> of
  \<^verbatim>\<open>cmd/server/main.go\<close>, \<^verbatim>\<open>reverse_forward.go\<close>, \<^verbatim>\<open>reverse_target.go\<close>, and the replacement of reverse connections of
  \<^verbatim>\<open>reverse_upstream.go\<close>): the request is decoded and registered, its target is mapped back to an IPv4 address or to a
  name, it is forwarded over the first reverse route that takes it, and otherwise it is decided by the access lists and
  the target is dialled.

  The other goroutines of the server act between any two steps of the handler: they are functions \<open>others\<close> on the state,
  restricted only by the relation \<open>ages\<close>, which every step of a mux is shown to satisfy, those of this handler included.
  Connections are pointers (numbers), an entry of the table is never a nil pointer.  Shown: whatever happens in between, no
  reverse channel is left open that is not relayed, the routes are tried in the order of the table, a target is only
  dialled after every route was tried and with a decision that allows it, and forwarding ends after sixteen hops.
\<close>

section \<open>State\<close>

record request_state =
  q_mux :: "nat \<Rightarrow> mux"
  q_userName :: "nat \<Rightarrow> string"
  q_reverse :: reverse_state
  q_upstreamIPv6 :: "nat \<rightharpoonup> nprefix"
  q_fakeDNS :: "serverFakeDNS option"
  q_acl :: aclServer

definition put_mux :: "nat \<Rightarrow> mux \<Rightarrow> request_state \<Rightarrow> request_state" where
  "put_mux mc mx st = st\<lparr>q_mux := (q_mux st)(mc := mx)\<rparr>"

definition targetConnectTimeout :: duration where
  "targetConnectTimeout = seconds 10"

section \<open>Targets behind a reverse upstream\<close>

definition registerReverseUpstreamPrefix :: "request_state \<Rightarrow> nat \<Rightarrow> string \<Rightarrow> request_state" where
  "registerReverseUpstreamPrefix st mc raw =
     (let raw = TrimSpace raw
      in if raw = [] then st
         else
           (case ParsePrefix raw of
              None \<Rightarrow> st
            | Some pfx \<Rightarrow>
                if \<not> Is6 (Prefix_Addr pfx) \<or> Prefix_Bits pfx \<noteq> 96 then st
                else st\<lparr>q_upstreamIPv6 := (q_upstreamIPv6 st)(mc \<mapsto> Masked pfx)\<rparr>))"

definition rewriteReverseMappedTarget :: "request_state \<Rightarrow> nat \<Rightarrow> Request option \<Rightarrow> Request option" where
  "rewriteReverseMappedTarget st mc req =
     (case req of
        None \<Rightarrow> None
      | Some r \<Rightarrow>
          if rq_AddrType r \<noteq> AtypIPv6 then req
          else
            (case q_upstreamIPv6 st mc of
               None \<Rightarrow> req
             | Some pfx \<Rightarrow>
                 (case ParseAddr (rq_DstAddr r) of
                    None \<Rightarrow> req
                  | Some addr \<Rightarrow>
                      if \<not> Is6 addr \<or> \<not> Prefix_Contains pfx addr then req
                      else
                        (let raw = As16 addr; ip4 = put32 (get32 (take 4 (drop 12 raw)))
                         in Some (r\<lparr>rq_AddrType := AtypIPv4, rq_DstAddr := IP_String ip4\<rparr>)))))"

section \<open>Forwarding over a reverse route\<close>

definition reverseMuxTemporarilyFull :: "mux \<Rightarrow> time \<Rightarrow> bool" where
  "reverseMuxTemporarilyFull mx now \<longleftrightarrow>
     (let snapshot = AllocationSnapshot mx now
      in \<not> as_Closed snapshot \<and> \<not> IsInvalid mx \<and> \<not> as_AgeExpired snapshot \<and>
         as_AllocCount snapshot < as_MaxAllocCount snapshot \<and> as_MaxActiveCount snapshot \<le> as_ActiveCount snapshot)"

definition reverseChannelFailureDisposition :: "mux \<Rightarrow> mux_err option \<Rightarrow> bool \<times> bool" where
  "reverseChannelFailureDisposition mx abortErr =
     (if IsClosed mx \<or> IsInvalid mx then (True, False)
      else if abortErr \<noteq> None then (True, True)
      else (False, False))"

definition removeReverseRouteMux :: "request_state \<Rightarrow> nat \<Rightarrow> bool \<Rightarrow> request_state" where
  "removeReverseRouteMux st mc closeMux =
     (let rv = q_reverse st;
          st1 = st\<lparr>q_reverse := \<lparr>rv_recv = recv_reset (rv_recv rv) mc, rv_routes = removeMux (rv_routes rv) mc\<rparr>\<rparr>
      in if closeMux \<and> \<not> IsInvalid (q_mux st1 mc) then put_mux mc (Mux_Close (q_mux st1 mc)) st1 else st1)"

text \<open>\<open>ReadWithTimeout\<close> of a channel of a mux, with the window update it sends.\<close>

definition mux_ReadWithTimeout ::
  "mux \<Rightarrow> nat \<Rightarrow> duration \<Rightarrow> bool \<Rightarrow> entropy \<Rightarrow> entropy \<Rightarrow> mux \<times> Channel.read_outcome" where
  "mux_ReadWithTimeout mx a timeout timedOut e1 e2 =
     (case ReadWithTimeout (mx_budget mx) (Some (mx_self mx)) (chan_at mx a) timeout timedOut e1 e2 of
        (bp, ch, ReadData d credit) \<Rightarrow>
          (let mx1 = put_chan a ch bp mx
           in (if 0 < credit then fst (sendWindowUpdate mx1 (ch_ID ch) credit) else mx1, ReadData d credit))
      | (bp, ch, r) \<Rightarrow> (put_chan a ch bp mx, r))"

text \<open>
  One round of the wait for the answer of the target: the time at which the rest of the timeout is computed, what the
  others do until the read returns, and whether its timer fired.  A wait with no further round is still going on.
\<close>

record read_round =
  rr_now :: time
  rr_others :: "request_state \<Rightarrow> request_state"
  rr_timedOut :: bool
  rr_e1 :: entropy
  rr_e2 :: entropy

datatype target_answer = Answer bytes | NoAnswer "chan_err option"

fun readReverseChannelTargetResponse ::
  "nat \<Rightarrow> nat \<Rightarrow> time \<Rightarrow> read_round list \<Rightarrow> request_state \<Rightarrow> request_state \<times> target_answer option" where
  "readReverseChannelTargetResponse mc a deadline [] st = (st, None)"
| "readReverseChannelTargetResponse mc a deadline (r # rs) st =
     (let remaining = deadline - rr_now r
      in if remaining \<le> 0 then (st, Some (NoAnswer None))
         else
           (let st1 = rr_others r st
            in case mux_ReadWithTimeout (q_mux st1 mc) a remaining (rr_timedOut r) (rr_e1 r) (rr_e2 r) of
                 (mx, ReadData response _) \<Rightarrow>
                   if length response = 1 \<and> response ! 0 = ChannelResponseAccepted
                   then readReverseChannelTargetResponse mc a deadline rs (put_mux mc mx st1)
                   else (put_mux mc mx st1, Some (Answer response))
               | (mx, ReadTimedOut) \<Rightarrow> (put_mux mc mx st1, Some (NoAnswer None))
               | (mx, ReadErr err) \<Rightarrow> (put_mux mc mx st1, Some (NoAnswer (Some err)))
               | (mx, ReadBlocked) \<Rightarrow> (put_mux mc mx st1, None)))"

text \<open>
  One entry of the table: the actions of the others before each step and the times and draws of the steps.  The fate of
  the attempt is to go on with the next entry, to wait still, to have refused the request, to have lost the client, or to
  relay the channel of the client to the one at this address of this mux.
\<close>

record attempt =
  at_others :: "nat \<Rightarrow> request_state \<Rightarrow> request_state"
  at_now :: "nat \<Rightarrow> time"
  at_e :: entropy
  at_reads :: "read_round list"

datatype fate = TryNext | Waiting | Refused | ClientLost | RelayTo nat nat

definition close_at :: "nat \<Rightarrow> nat \<Rightarrow> request_state \<Rightarrow> request_state" where
  "close_at mc a st = put_mux mc (Channel_Close (q_mux st mc) a) st"

text \<open>The entry can carry no channel: it is skipped as long as that may change, and removed otherwise.\<close>

definition no_capacity :: "nat \<Rightarrow> time \<Rightarrow> request_state \<Rightarrow> request_state" where
  "no_capacity mc now st =
     (if reverseMuxTemporarilyFull (q_mux st mc) now then st
      else removeReverseRouteMux st mc (mx_activeCount (q_mux st mc) = 0))"

text \<open>No answer came: the channel is closed or aborted, and a connection that is of no more use loses its route.\<close>

definition give_up :: "nat \<Rightarrow> nat \<Rightarrow> (request_state \<Rightarrow> request_state) \<Rightarrow> request_state \<Rightarrow> request_state" where
  "give_up mc a others st =
     (let (st1, abortErr) =
        (if IsClosed (q_mux st mc) \<or> IsInvalid (q_mux st mc) then (close_at mc a st, None)
         else case sendClose (q_mux st mc) a of (mx, err) \<Rightarrow> (put_mux mc mx st, err));
          st2 = others st1;
          (removeRoute, closeMux) = reverseChannelFailureDisposition (q_mux st2 mc) abortErr
      in if removeRoute then removeReverseRouteMux st2 mc closeMux else st2)"

text \<open>The answer of the target is passed on to the client, whose channel is \<open>ca\<close> of the mux \<open>cm\<close>.\<close>

definition pass_answer ::
  "nat \<Rightarrow> nat \<Rightarrow> nat \<Rightarrow> nat \<Rightarrow> bytes \<Rightarrow> (nat \<Rightarrow> request_state \<Rightarrow> request_state) \<Rightarrow> request_state \<Rightarrow> request_state \<times> fate" where
  "pass_answer cm ca mc a response others st =
     (if length response < 1 \<or> response ! 0 \<noteq> ChannelResponseOK
      then
        (let st1 = put_mux cm (fst (SendResponse (q_mux st cm) ca ChannelResponseFailed)) st;
             st2 = close_at mc a (others 6 st1)
         in (close_at cm ca (others 7 st2), Refused))
      else
        (case SendResponse (q_mux st cm) ca ChannelResponseOK of
           (mx, Some err) \<Rightarrow> (close_at cm ca (others 7 (close_at mc a (others 6 (put_mux cm mx st)))), ClientLost)
         | (mx, None) \<Rightarrow> (put_mux cm mx st, RelayTo mc a)))"

text \<open>A channel is open: the request is sent on it, one level deeper, and the answer is awaited.\<close>

definition use_channel ::
  "nat \<Rightarrow> nat \<Rightarrow> byte \<Rightarrow> bytes \<Rightarrow> nat \<Rightarrow> nat \<Rightarrow> attempt \<Rightarrow> request_state \<Rightarrow> request_state \<times> nat option \<times> fate" where
  "use_channel cm ca proxyLevel requestPayload mc a t st =
     (case SendChannelRequestWithProxyLevel (q_mux st mc) (ch_ID (chan_at (q_mux st mc) a)) (proxyLevel + 1) requestPayload of
        (mx, Some err) \<Rightarrow>
          (removeReverseRouteMux (close_at mc a (at_others t 4 (put_mux mc mx st))) mc True, Some a, TryNext)
      | (mx, None) \<Rightarrow>
          (case readReverseChannelTargetResponse mc a (at_now t 4 + targetConnectTimeout) (at_reads t)
                  (at_others t 4 (put_mux mc mx st)) of
             (st5, None) \<Rightarrow> (st5, Some a, Waiting)
           | (st5, Some (NoAnswer e)) \<Rightarrow> (give_up mc a (at_others t 6) (at_others t 5 st5), Some a, TryNext)
           | (st5, Some (Answer response)) \<Rightarrow>
               (case pass_answer cm ca mc a response (at_others t) (at_others t 5 st5) of (st6, f) \<Rightarrow> (st6, Some a, f))))"

definition try_entry ::
  "nat \<Rightarrow> nat \<Rightarrow> byte \<Rightarrow> bytes \<Rightarrow> nat \<Rightarrow> attempt \<Rightarrow> request_state \<Rightarrow> request_state \<times> nat option \<times> fate" where
  "try_entry cm ca proxyLevel requestPayload mc t st =
     (let st0 = at_others t 0 st
      in if IsClosed (q_mux st0 mc) \<or> IsInvalid (q_mux st0 mc)
         then (removeReverseRouteMux st0 mc False, None, TryNext)
         else
           (let st1 = at_others t 1 st0
            in if \<not> CanAllocChannel (q_mux st1 mc) (at_now t 1)
               then (no_capacity mc (at_now t 2) (at_others t 2 st1), None, TryNext)
               else
                 (let st2 = at_others t 2 st1
                  in case AllocChannel (q_mux st2 mc) (at_now t 2) (at_e t) of
                       (mx, Inl err) \<Rightarrow>
                         (no_capacity mc (at_now t 3) (at_others t 3 (put_mux mc mx st2)), None, TryNext)
                     | (mx, Inr a) \<Rightarrow>
                         use_channel cm ca proxyLevel requestPayload mc a t (at_others t 3 (put_mux mc mx st2)))))"

text \<open>
  The loop over the entries.  Beside the state and the fate of the request it yields the connections that were tried, each
  with the address of the channel that was opened on it.
\<close>

fun try_entries ::
  "nat \<Rightarrow> nat \<Rightarrow> byte \<Rightarrow> bytes \<Rightarrow> reverseRouteEntry list \<Rightarrow> attempt list \<Rightarrow> request_state \<Rightarrow>
     request_state \<times> (nat \<times> nat option) list \<times> fate" where
  "try_entries cm ca proxyLevel requestPayload [] ts st = (st, [], TryNext)"
| "try_entries cm ca proxyLevel requestPayload (e # es) [] st = (st, [], Waiting)"
| "try_entries cm ca proxyLevel requestPayload (e # es) (t # ts) st =
     (case try_entry cm ca proxyLevel requestPayload (e_mc e) t st of
        (st', opened, TryNext) \<Rightarrow>
          (case try_entries cm ca proxyLevel requestPayload es ts st' of
             (st'', tried, f) \<Rightarrow> (st'', (e_mc e, opened) # tried, f))
      | (st', opened, f) \<Rightarrow> (st', [(e_mc e, opened)], f))"

definition forwardViaReverseRoute ::
  "nat \<Rightarrow> nat \<Rightarrow> Request \<Rightarrow> byte \<Rightarrow> bytes \<Rightarrow> attempt list \<Rightarrow> request_state \<Rightarrow>
     request_state \<times> (nat \<times> nat option) list \<times> fate" where
  "forwardViaReverseRoute cm ca req proxyLevel requestPayload ts st =
     try_entries cm ca proxyLevel requestPayload (matchEntries (rv_routes (q_reverse st)) req) ts st"

section \<open>Requests\<close>

text \<open>
  A request on a mux.  The outcome is that the request cannot be decoded, that it made too many hops, that its channel is
  not registered, that its target cannot be decoded, that the client is lost, or that a goroutine goes on with it: the
  address of its channel, the request with its mapped target, its level and its bytes.
\<close>

datatype new_outcome =
  BadRequest | TooManyHops | NotRegistered mux_err | BadTarget socks_err | NotAccepted
| Started nat Request byte bytes

definition handleNewChannel ::
  "nat \<Rightarrow> bytes \<Rightarrow> time \<Rightarrow> entropy \<Rightarrow> int \<Rightarrow> request_state \<Rightarrow> request_state \<times> new_outcome" where
  "handleNewChannel mc payload now e drain st =
     (case DecodeChannelRequest payload of
        None \<Rightarrow> (put_mux mc (SetInvalid (q_mux st mc) ReasonRequestDecode drain now) st, BadRequest)
      | Some (channelID, proxyLevel, requestPayload) \<Rightarrow>
          if MaxProxyHopCount \<le> uint proxyLevel
          then (put_mux mc (fst (SendChannelResponse (q_mux st mc) channelID ChannelResponseFailed)) st, TooManyHops)
          else
            (case RegisterRequestedChannel (q_mux st mc) channelID e of
               (mx, Inl err) \<Rightarrow> (put_mux mc mx st, NotRegistered err)
             | (mx, Inr a) \<Rightarrow>
                 (let st1 = put_mux mc mx st
                  in case DecodeRequest requestPayload of
                       Inl err \<Rightarrow> (put_mux mc (SetInvalid mx ReasonRequestDecode drain now) st1, BadTarget err)
                     | Inr req \<Rightarrow>
                         (let mapped = rewriteReverseMappedTarget st1 mc (Some req);
                              (fakeDNS, restored, _) = restoreFakeDNSTarget (q_fakeDNS st1) mapped now;
                              st2 = st1\<lparr>q_fakeDNS := fakeDNS\<rparr>;
                              req' = the restored;
                              encoded = Request_Encode req';
                              requestPayload' = (if 0 < length encoded then encoded else requestPayload)
                          in case SendResponse mx a ChannelResponseAccepted of
                               (mx2, Some err) \<Rightarrow> (close_at mc a (put_mux mc mx2 st2), NotAccepted)
                             | (mx2, None) \<Rightarrow> (put_mux mc mx2 st2, Started a req' proxyLevel requestPayload')))))"

text \<open>
  The goroutine of a registered channel.  \<open>dialled\<close> says whether the target could be reached with the decision of the
  access lists; a UDP association and the relay to the target go on by themselves.  The result is None only if the cache
  of the decisions does not return.
\<close>

record handler_env =
  he_attempts :: "attempt list"
  he_others :: "nat \<Rightarrow> request_state \<Rightarrow> request_state"
  he_now :: time
  he_dialled :: "aclDecision \<Rightarrow> Request \<Rightarrow> bool"

datatype request_outcome = Forwarding fate | UdpAssociation | AclRejected | DialFailed | ReplyFailed | RelayTarget aclDecision

definition send_and_close :: "nat \<Rightarrow> nat \<Rightarrow> byte \<Rightarrow> (request_state \<Rightarrow> request_state) \<Rightarrow> request_state \<Rightarrow> request_state" where
  "send_and_close mc a status others st = close_at mc a (others (put_mux mc (fst (SendResponse (q_mux st mc) a status)) st))"

definition handleRegisteredChannel ::
  "nat \<Rightarrow> nat \<Rightarrow> Request \<Rightarrow> byte \<Rightarrow> bytes \<Rightarrow> handler_env \<Rightarrow> request_state \<Rightarrow>
     (request_state \<times> (nat \<times> nat option) list \<times> request_outcome) option" where
  "handleRegisteredChannel mc a req proxyLevel requestPayload he st =
     (case forwardViaReverseRoute mc a req proxyLevel requestPayload (he_attempts he) st of
        (st1, tried, TryNext) \<Rightarrow>
          if rq_ConnType req = ConnTypeUDP then Some (st1, tried, UdpAssociation)
          else
            (let st2 = he_others he 0 st1
             in case decideACL (q_acl st2) (q_userName st2 mc) req (he_now he) of
                  None \<Rightarrow> None
                | Some (acl, dec) \<Rightarrow>
                    (let st3 = he_others he 1 (st2\<lparr>q_acl := acl\<rparr>)
                     in if d_action dec = aclActionReject
                        then Some (send_and_close mc a ChannelResponseFailed (he_others he 2) st3, tried, AclRejected)
                        else if \<not> he_dialled he dec req
                        then Some (send_and_close mc a ChannelResponseFailed (he_others he 2) st3, tried, DialFailed)
                        else
                          (case SendResponse (q_mux st3 mc) a ChannelResponseOK of
                             (mx, Some err) \<Rightarrow> Some (close_at mc a (he_others he 2 (put_mux mc mx st3)), tried, ReplyFailed)
                           | (mx, None) \<Rightarrow> Some (put_mux mc mx st3, tried, RelayTarget dec))))
      | (st1, tried, f) \<Rightarrow> Some (st1, tried, Forwarding f))"

section \<open>Replacement of reverse connections\<close>

datatype reverseUpstreamReplacementReason =
  reverseUpstreamReplacementNone | reverseUpstreamReplacementClosed | reverseUpstreamReplacementAllocation
| reverseUpstreamReplacementAge | reverseUpstreamReplacementUnavailable

definition reverseUpstreamMaxPrimaryAge :: duration where
  "reverseUpstreamMaxPrimaryAge = seconds (24 * 60 * 60)"

definition reverseUpstreamMuxReplacementReason :: "mux option \<Rightarrow> duration \<Rightarrow> time \<Rightarrow> reverseUpstreamReplacementReason" where
  "reverseUpstreamMuxReplacementReason mc age now =
     (case mc of
        None \<Rightarrow> reverseUpstreamReplacementClosed
      | Some mx \<Rightarrow>
          if IsClosed mx then reverseUpstreamReplacementClosed
          else if maxChannelAllocationsLocked mx div 2 < mx_allocCount mx then reverseUpstreamReplacementAllocation
          else if reverseUpstreamMaxPrimaryAge \<le> age then reverseUpstreamReplacementAge
          else if \<not> CanAllocChannel mx now then reverseUpstreamReplacementUnavailable
          else reverseUpstreamReplacementNone)"

definition removeReverseUpstream :: "request_state \<Rightarrow> nat \<Rightarrow> request_state" where
  "removeReverseUpstream st mc = st\<lparr>q_upstreamIPv6 := (q_upstreamIPv6 st)(mc := None)\<rparr>"

section \<open>What the others may do\<close>

text \<open>Objects are never replaced and a closed channel stays closed.\<close>

definition ages :: "mux \<Rightarrow> mux \<Rightarrow> bool" where
  "ages mx mx' \<longleftrightarrow> mx_fresh mx \<le> mx_fresh mx' \<and>
     (\<forall>a < mx_fresh mx. closedFlag (chan_at mx a) \<longrightarrow> closedFlag (chan_at mx' a))"

lemma ages_refl [simp, intro]: "ages mx mx"
  by (simp add: ages_def)

lemma ages_trans [trans]: "ages mx my \<Longrightarrow> ages my mz \<Longrightarrow> ages mx mz"
  by (auto simp: ages_def)

lemma ages_same: "mx_store mx' = mx_store mx \<Longrightarrow> mx_fresh mx' = mx_fresh mx \<Longrightarrow> ages mx mx'"
  by (simp add: ages_def chan_at_def)

lemma ages_put: "(closedFlag (chan_at mx a) \<Longrightarrow> closedFlag ch) \<Longrightarrow> ages mx (put_chan a ch bp mx)"
  by (auto simp: ages_def put_chan_def chan_at_def)


lemma same_store_send [simp]:
  "mx_store (fst (SendPacket mx i p)) = mx_store mx" "mx_fresh (fst (SendPacket mx i p)) = mx_fresh mx"
  by (subst SendPacket_queue, simp)+

lemma ages_send [simp]:
  "ages mx (fst (SendPacket mx i p))" "ages mx (fst (sendWindowUpdate mx i c))" "ages mx (fst (sendChannelControl mx i s))"
  "ages mx (fst (SendResponse mx a s))" "ages mx (fst (SendChannelResponse mx i s))"
  "ages mx (fst (SendChannelRequestWithProxyLevel mx i l p))"
  by (auto simp: ages_def sendWindowUpdate_def sendChannelControl_def SendResponse_def SendChannelResponse_def
      SendChannelRequestWithProxyLevel_def Let_def chan_at_def)

lemma mark_closes: "closedFlag (chan_at (fst (mux_markClosed mx a)) a)"
  by (auto simp: mux_markClosed_def markClosed_def put_chan_def chan_at_def split: prod.split)

lemma ages_mark [simp]: "ages mx (fst (mux_markClosed mx a))"
  by (auto simp: mux_markClosed_def markClosed_def split: prod.split if_splits intro!: ages_put)

lemma ages_remove [simp]: "ages mx (removeFromMux mx a)"
  by (intro ages_same) (simp_all add: removeFromMux_def Let_def)

lemma closed_later: "ages mx mx' \<Longrightarrow> a < mx_fresh mx \<Longrightarrow> closedFlag (chan_at mx a) \<Longrightarrow> closedFlag (chan_at mx' a)"
  by (simp add: ages_def)

lemma remove_at [simp]: "chan_at (removeFromMux mx a) = chan_at mx"
  by (simp add: removeFromMux_def Let_def chan_at_def fun_eq_iff)

lemma ages_Channel_Close [simp]: "ages mx (Channel_Close mx a)"
  using ages_trans [OF ages_mark ages_remove] by (auto simp: Channel_Close_def case_prod_unfold)

lemma Channel_Close_closes: "closedFlag (chan_at (Channel_Close mx a) a)"
  using mark_closes by (auto simp: Channel_Close_def case_prod_unfold)

lemma ages_sendClose [simp]: "ages mx (fst (sendClose mx a))"
  using ages_trans [OF ages_mark ages_trans [OF ages_send(3) ages_remove]]
  by (auto simp: sendClose_def case_prod_unfold Let_def)

lemma sendClose_closes: "closedFlag (chan_at (fst (sendClose mx a)) a)"
  using mark_closes by (auto simp: sendClose_def case_prod_unfold Let_def)

lemma ages_Mux_Close [simp]: "ages mx (Mux_Close mx)"
proof -
  have "ages m (foldl (\<lambda>m a. fst (mux_markClosed m a)) m as)" for m as
    by (induction as arbitrary: m) (auto intro: ages_trans [OF ages_mark])
  note this [of "mx\<lparr>mx_closed := True, mx_invalidTimer := False\<rparr>" "map snd (mx_channels mx)"]
  then show ?thesis by (auto simp: Mux_Close_def Let_def close_channels_def ages_def chan_at_def)
qed

lemma ages_add: "ages mx (fst (addChannel mx i e))" "snd (addChannel mx i e) < mx_fresh (fst (addChannel mx i e))"
  by (auto simp: addChannel_def ages_def chan_at_def Let_def split: prod.split)

lemma ages_alloc [simp]: "ages mx (fst (AllocChannel mx now e))" "ages mx (fst (RegisterRequestedChannel mx i e))"
  using ages_add(1) [of "mx\<lparr>mx_nextChannelID := mx_nextChannelID mx + 1\<rparr>" "mx_nextChannelID mx" e] ages_add(1) [of mx i e]
  by (auto simp: AllocChannel_def RegisterRequestedChannel_def Let_def case_prod_unfold ages_def chan_at_def)

lemma alloc_fresh:
  "AllocChannel mx now e = (mx', Inr a) \<Longrightarrow> a < mx_fresh mx'" "RegisterRequestedChannel mx i e = (mx', Inr a) \<Longrightarrow> a < mx_fresh mx'"
  by (auto simp: AllocChannel_def RegisterRequestedChannel_def addChannel_def Let_def split: if_splits prod.splits)

lemma ages_invalid [simp]: "ages mx (SetInvalid mx reason drain now)"
proof -
  have *: "ages mx (Mux_Close m)" if "mx_store m = mx_store mx" "mx_fresh m = mx_fresh mx" for m
    using ages_trans [OF ages_same [OF that] ages_Mux_Close] .
  show ?thesis by (rule SetInvalid_cases [of mx reason drain now]) (auto intro!: * intro: ages_same)
qed


lemma ages_via: "mx_store m = mx_store mx \<Longrightarrow> mx_fresh m = mx_fresh mx \<Longrightarrow> ages m m' \<Longrightarrow> ages mx m'"
  by (simp add: ages_def chan_at_def)

lemma ages_to: "ages mx m \<Longrightarrow> mx_store m' = mx_store m \<Longrightarrow> mx_fresh m' = mx_fresh m \<Longrightarrow> ages mx m'"
  by (simp add: ages_def chan_at_def)

text \<open>The operations of a channel keep its flag, apart from closing it.\<close>

lemma flag_adjust: "adjustReceiveWindowLocked bp mc ch n e = (bp', ch', x) \<Longrightarrow> closedFlag ch' = closedFlag ch"
  by (auto simp: adjustReceiveWindowLocked_def resetReceiveWindowCountersLocked_def Let_def split: if_splits prod.splits)

lemma flag_enqueue: "enqueuePayload bp mc ch p e = (bp', ch', r) \<Longrightarrow> closedFlag ch' = closedFlag ch"
  by (auto simp: enqueuePayload_def Let_def split: if_splits prod.splits dest!: flag_adjust)

lemma flag_release: "releaseReceiveCredit bp mc ch n e1 e2 = (bp', ch', c) \<Longrightarrow> closedFlag ch' = closedFlag ch"
  by (auto simp: releaseReceiveCredit_def Let_def split: if_splits prod.splits)

lemma flag_take: "take_queued bp mc ch e1 e2 = (bp', ch', r) \<Longrightarrow> closedFlag ch' = closedFlag ch"
  by (auto simp: take_queued_def Let_def split: prod.splits dest!: flag_release)

lemma flag_read:
  "readWithDeadline bp mc ch dl now e1 e2 = (bp', ch', r) \<Longrightarrow> closedFlag ch' = closedFlag ch"
  "ReadWithTimeout bp mc ch t timedOut e1 e2 = (bp', ch', r) \<Longrightarrow> closedFlag ch' = closedFlag ch"
  by (auto simp: readWithDeadline_def ReadWithTimeout_def Channel_Read_def split: if_splits option.splits dest!: flag_take)

lemma flag_credit: "closedFlag (addSendCredit ch n) = closedFlag ch" "closedFlag (fst (sendFIN ch x)) = closedFlag ch"
  "closedFlag (receiveFIN ch) = closedFlag ch"
  by (auto simp: addSendCredit_def sendFIN_def receiveFIN_def Let_def)

lemma flag_reserve: "reserveSendCreditWithDeadline ch x n dl now = (ch', r) \<Longrightarrow> closedFlag ch' = closedFlag ch"
  by (auto simp: reserveSendCreditWithDeadline_def Let_def split: if_splits option.splits)

lemma ages_enqueue [simp]: "ages mx (fst (mux_enqueue mx a p e))"
  by (auto simp: mux_enqueue_def Let_def split: prod.split sum.split dest!: flag_enqueue intro!: ages_put
      intro: ages_trans [OF ages_put ages_send(2)])

lemma ages_read [simp]: "ages mx (fst (mux_read mx a dl now e1 e2))" "ages mx (fst (mux_ReadWithTimeout mx a t timedOut e1 e2))"
  by (auto simp: mux_read_def mux_ReadWithTimeout_def Let_def split: prod.split Channel.read_outcome.split dest!: flag_read
      intro!: ages_put intro: ages_trans [OF ages_put ages_send(2)])


lemma ages_fin [simp]: "ages mx (fst (mux_sendFIN mx a))"
  by (auto simp: mux_sendFIN_def Let_def case_prod_unfold intro!: ages_trans [OF ages_send(3) ages_put] simp: flag_credit)

lemma ages_chunk [simp]: "ages mx (fst (mux_write_chunk mx a data dl now))"
proof (cases "reserveSendCreditWithDeadline (chan_at mx a) (IsClosed mx) (int (min (length data) MaxPacketPayloadSize)) dl now")
  case (Pair ch r)
  note p = ages_put [of mx a ch "mx_budget mx", simplified flag_reserve [OF Pair], OF iffD1 [OF refl]]
  have c: "ages mx (put_chan a (addSendCredit ch n) bp m)" if "ages mx m" "chan_at m a = ch" for m n bp
    by (rule ages_trans [OF that(1) ages_put]) (use that(2) in \<open>simp add: flag_credit\<close>)
  show ?thesis
    using Pair p ages_trans [OF p ages_send(1)]
    by (auto simp: mux_write_chunk_def Let_def case_prod_unfold intro!: c split: reserve_outcome.split option.split)
qed

lemma ages_activity [simp]:
  "ages mx (updatePacketTime mx now e)" "ages mx (recordDataActivity mx i n r now)"
  "ages mx (checkAndBalanceTraffic mx e)" "ages mx (handleMuxKeepAlive mx now)" "ages mx (addBytesReceived mx k)"
  by (auto simp: updatePacketTime_def recordDataActivity_def checkAndBalanceTraffic_def addBytesReceived_def
      handleMuxKeepAlive_def firstKeepAlivePing_def Let_def intro!: ages_same)

lemma ages_handlers [simp]:
  "ages mx (fst (handleChannelResponse mx p e))" "ages mx (fst (handleFlowControl mx p))" "ages mx (fst (handleKeepAliveControl mx p now e))"
proof -
  show c: "ages mx (fst (handleChannelResponse mx p e))"
    by (auto simp: handleChannelResponse_def case_prod_unfold flag_credit intro!: ages_put split: option.split)
  show "ages mx (fst (handleFlowControl mx p))"
    by (auto simp: handleFlowControl_def case_prod_unfold flag_credit intro!: ages_put split: option.split)
  have "ages mx ((updatePacketTime (mx\<lparr>mx_lastData := UnixNano now\<rparr>) now e)\<lparr>mx_hasReceivedData := True\<rparr>)"
    by (intro ages_same) (simp_all add: updatePacketTime_def)
  with c show "ages mx (fst (handleKeepAliveControl mx p now e))" by (simp add: handleKeepAliveControl_def Let_def)
qed

lemma ages_dispatch: "ages mx (dispatchData mx i payload pe)" "ages mx (dispatchTimestamp mx payload pe)"
proof -
  let ?m = "recordDataActivity (checkAndBalanceTraffic mx (pe_e2 pe)) i (int (length payload)) True (pe_now pe)"
  have m: "ages mx ?m" by (rule ages_trans [OF ages_activity(3) ages_activity(2)])
  have e: "ages mx (fst (mux_enqueue ?m a payload (pe_e3 pe)))" for a by (rule ages_trans [OF m ages_enqueue])
  show "ages mx (dispatchData mx i payload pe)"
    using m e ages_trans [OF m ages_invalid] ages_trans [OF e ages_invalid]
    by (simp add: dispatchData_def Let_def case_prod_unfold split: option.split)
  have s: "ages mx (fst (SendPacket (mx\<lparr>mx_hasReceivedTimestamp := True\<rparr>) KeepAliveChannelID p))" for p
    by (rule ages_via [OF _ _ ages_send(1)]) simp_all
  show "ages mx (dispatchTimestamp mx payload pe)"
    using s ages_trans [OF s ages_Mux_Close] ages_trans [OF s ages_activity(1)]
    by (simp add: dispatchTimestamp_def case_prod_unfold split: option.split)
qed

lemma ages_receive [simp]: "ages mx (receivePacket mx i payload pe)"
proof -
  let ?m = "updatePacketTime mx (pe_now pe) (pe_e1 pe)"
  have m: "ages mx ?m" by simp
  have d: "ages mx (dispatchData ?m i payload pe)" by (rule ages_trans [OF m ages_dispatch(1)])
  have v: "ages mx (SetInvalid ?m r (pe_drain pe) (pe_now pe))" for r by (rule ages_trans [OF m ages_invalid])
  note h = ages_trans [OF m ages_handlers(2)] ages_trans [OF m ages_handlers(3)]
  have x: "ages mx (m'\<lparr>mx_events := v\<rparr>)" if "ages mx m'" for m' v by (rule ages_to [OF that]) simp_all
  show ?thesis
    using ages_dispatch(2) d v h h [THEN ages_trans, OF ages_invalid] x [OF m] x [OF ages_trans [OF m ages_activity(2)]]
    by (simp add: receivePacket_def dispatchPacket_def Let_def case_prod_unfold split: option.split)
qed

lemma ages_same_close: "mx_store m = mx_store mx \<Longrightarrow> mx_fresh m = mx_fresh mx \<Longrightarrow> ages mx (Mux_Close m)"
  by (rule ages_via [OF _ _ ages_Mux_Close])

lemma ages_rest [simp]:
  "ages mx (fst (keepAliveTick mx now))" "ages mx (drain_round mx n err now)" "ages mx (invalid_timer_fired mx)" "ages mx (balance_reply mx)"
proof -
  have "ages mx (fst (sendKeepAlive mx))" by (simp add: sendKeepAlive_def)
  then show "ages mx (fst (keepAliveTick mx now))"
    using ages_trans [OF _ ages_Mux_Close] by (auto simp: keepAliveTick_def case_prod_unfold split: option.split)
  show "ages mx (drain_round mx n err now)" "ages mx (invalid_timer_fired mx)"
    by (auto simp: drain_round_def invalid_timer_fired_def addBytesReceived_def Let_def intro!: ages_same_close intro: ages_same)
  show "ages mx (balance_reply mx)" by (rule ages_to [OF ages_send(1)]) (simp_all add: balance_reply_def)
qed

lemma packet_sent_same:
  "mx_store (fst (packet_sent mx i p err n now e)) = mx_store mx" "mx_fresh (fst (packet_sent mx i p err n now e)) = mx_fresh mx"
  by (simp_all add: packet_sent_def markFirstPacketSent_def updatePacketTime_def recordDataActivity_def Let_def)

lemma ages_writer [simp]: "ages mx (writer_round mx err n now e)"
  by (auto simp: writer_round_def Let_def case_prod_unfold packet_sent_same split: list.split
      intro!: ages_same_close intro: ages_same)

theorem step_ages: "mux_step role mx mx' \<Longrightarrow> ages mx mx'"
  by (induction rule: mux_step.induct)
    (simp_all add: SetMaxConcurrentChannels_def SetMaxChannelAllocations_def ages_same)


section \<open>One attempt\<close>

definition later :: "request_state \<Rightarrow> request_state \<Rightarrow> bool" where
  "later st st' \<longleftrightarrow> (\<forall>mc. ages (q_mux st mc) (q_mux st' mc))"

definition civil :: "(request_state \<Rightarrow> request_state) \<Rightarrow> bool" where
  "civil f \<longleftrightarrow> (\<forall>st. later st (f st))"

definition attempt_ok :: "attempt \<Rightarrow> bool" where
  "attempt_ok t \<longleftrightarrow> (\<forall>k. civil (at_others t k)) \<and> (\<forall>r \<in> set (at_reads t). civil (rr_others r))"

text \<open>The channel at an address exists, is closed, and was sent a status as the last packet of its mux.\<close>

definition known :: "request_state \<Rightarrow> nat \<Rightarrow> nat \<Rightarrow> bool" where
  "known st mc a \<longleftrightarrow> a < mx_fresh (q_mux st mc)"

definition shut :: "request_state \<Rightarrow> nat \<Rightarrow> nat \<Rightarrow> bool" where
  "shut st mc a \<longleftrightarrow> known st mc a \<and> closedFlag (chan_at (q_mux st mc) a)"

definition told :: "request_state \<Rightarrow> nat \<Rightarrow> nat \<Rightarrow> byte \<Rightarrow> bool" where
  "told st mc a status \<longleftrightarrow>
     \<not> closedFlag (chan_at (q_mux st mc) a) \<and>
     (\<exists>q. mx_writeQueue (q_mux st mc) = q @ [(KeepAliveChannelID, [ch_ID (chan_at (q_mux st mc) a), status])])"

lemma later_refl [simp, intro]: "later st st"
  by (simp add: later_def)

lemma later_trans [trans]: "later st su \<Longrightarrow> later su sv \<Longrightarrow> later st sv"
  using ages_trans by (fastforce simp: later_def)

lemma civilD [intro]: "civil f \<Longrightarrow> later st (f st)"
  by (simp add: civil_def)

lemma known_later: "later st st' \<Longrightarrow> known st mc a \<Longrightarrow> known st' mc a"
  by (auto simp: later_def known_def ages_def intro: less_le_trans)

lemma shut_later: "later st st' \<Longrightarrow> shut st mc a \<Longrightarrow> shut st' mc a"
  by (meson shut_def known_later later_def closed_later known_def)

lemma later_put: "ages (q_mux st mc) mx \<Longrightarrow> later st (put_mux mc mx st)"
  by (auto simp: later_def put_mux_def)

lemma q_mux_put [simp]: "q_mux (put_mux mc mx st) = (q_mux st)(mc := mx)"
  by (simp add: put_mux_def)

lemma later_close [simp]: "later st (close_at mc a st)"
  by (simp add: close_at_def later_put)

lemma close_shuts: "known st mc a \<Longrightarrow> shut (close_at mc a st) mc a"
  using known_later [OF later_close] Channel_Close_closes by (simp add: shut_def close_at_def)

lemma later_removeRoute [simp]: "later st (removeReverseRouteMux st mc c)"
  by (auto simp: removeReverseRouteMux_def Let_def later_def put_mux_def)

lemma later_no_capacity [simp]: "later st (no_capacity mc now st)"
  by (simp add: no_capacity_def)

lemma later_response:
  "\<forall>r \<in> set rs. civil (rr_others r) \<Longrightarrow> later st (fst (readReverseChannelTargetResponse mc a deadline rs st))"
proof (induction mc a deadline rs st rule: readReverseChannelTargetResponse.induct)
  case (2 mc a deadline r rs st)
  let ?s = "rr_others r st"
  have l: "later st ?s" using "2.prems" by (auto simp: civil_def)
  obtain mx o' where rd: "mux_ReadWithTimeout (q_mux ?s mc) a (deadline - rr_now r) (rr_timedOut r) (rr_e1 r) (rr_e2 r) = (mx, o')"
    by fastforce
  have "ages (q_mux ?s mc) mx" using ages_read(2) [of "q_mux ?s mc" a "deadline - rr_now r" "rr_timedOut r" "rr_e1 r" "rr_e2 r"] rd by simp
  then have p: "later st (put_mux mc mx ?s)" using later_trans [OF l later_put] by simp
  then show ?case
    using 2 rd later_trans [OF p] by (auto simp: Let_def split: Channel.read_outcome.split)
qed simp

lemma give_up_ok:
  assumes "civil f" and "known st mc a"
  shows "later st (give_up mc a f st)" "shut (give_up mc a f st) mc a"
proof -
  define sr where "sr = (if IsClosed (q_mux st mc) \<or> IsInvalid (q_mux st mc) then (close_at mc a st, None)
         else case sendClose (q_mux st mc) a of (mx, err) \<Rightarrow> (put_mux mc mx st, err))"
  have l: "later st (fst sr)" by (auto simp: sr_def later_put case_prod_unfold)
  have "shut (fst sr) mc a"
    using close_shuts [OF assms(2)] known_later [OF l assms(2)] sendClose_closes by (auto simp: sr_def shut_def case_prod_unfold)
  then have s: "shut (f (fst sr)) mc a" using shut_later civilD [OF assms(1)] by blast
  have l2: "later st (f (fst sr))" using later_trans [OF l civilD [OF assms(1)]] .
  have e: "give_up mc a f st = f (fst sr) \<or> (\<exists>c. give_up mc a f st = removeReverseRouteMux (f (fst sr)) mc c)"
    unfolding give_up_def sr_def [symmetric] by (auto simp: case_prod_unfold Let_def)
  show "later st (give_up mc a f st)" using e l2 later_trans [OF l2 later_removeRoute] by auto
  show "shut (give_up mc a f st) mc a" using e s shut_later [OF later_removeRoute] by auto
qed


lemma response_sent:
  assumes "SendResponse mx a status = (mx', None)"
  shows "mx_writeQueue mx' = mx_writeQueue mx @ [(KeepAliveChannelID, [ch_ID (chan_at mx a), status])]" "chan_at mx' = chan_at mx"
    "\<not> closedFlag (chan_at mx a)"
  using assms
  by (auto simp: SendResponse_def SendChannelResponse_def sendChannelControl_def SendPacket_def queuePacket_def enqueueWriteRequest_def
      encodeChannelControl_def chan_at_def split: if_splits)

lemma told_sent: "SendResponse (q_mux st mc) a status = (mx, None) \<Longrightarrow> told (put_mux mc mx st) mc a status"
  using response_sent by (simp add: told_def)

lemma later_respond: "SendResponse (q_mux st mc) a status = (mx, r) \<Longrightarrow> later st (put_mux mc mx st)"
  using ages_send(4) [of "q_mux st mc" a status] by (auto intro: later_put)

lemma close_both:
  assumes "civil f" and "civil g" and "later st su" and "known st mc a" and "known st cm ca"
  shows "later st (close_at cm ca (g (close_at mc a (f su))))" "shut (close_at cm ca (g (close_at mc a (f su)))) mc a"
    "shut (close_at cm ca (g (close_at mc a (f su)))) cm ca"
proof -
  let ?v = "close_at mc a (f su)"
  have l: "later st (f su)" using later_trans [OF assms(3) civilD [OF assms(1)]] .
  then have v: "later st (g ?v)" using later_trans later_close civilD [OF assms(2)] by metis
  show "later st (close_at cm ca (g ?v))" using later_trans [OF v later_close] .
  have "shut ?v mc a" using close_shuts known_later [OF l assms(4)] by blast
  then show "shut (close_at cm ca (g ?v)) mc a" using shut_later later_close civilD [OF assms(2)] by metis
  show "shut (close_at cm ca (g ?v)) cm ca" using close_shuts known_later [OF v assms(5)] by blast
qed

text \<open>What an attempt leaves behind: \<open>o'\<close> is the channel it opened and \<open>f\<close> its fate.\<close>

definition settled :: "nat \<Rightarrow> nat \<Rightarrow> nat \<Rightarrow> nat option \<Rightarrow> fate \<Rightarrow> request_state \<Rightarrow> bool" where
  "settled cm ca mc o' f st \<longleftrightarrow>
     (f = TryNext \<longrightarrow> (\<forall>a. o' = Some a \<longrightarrow> shut st mc a)) \<and>
     (f = Refused \<or> f = ClientLost \<longrightarrow> shut st cm ca \<and> (\<forall>a. o' = Some a \<longrightarrow> shut st mc a)) \<and>
     (\<forall>m a. f = RelayTo m a \<longrightarrow> m = mc \<and> o' = Some a \<and> told st cm ca ChannelResponseOK)"

lemma pass_answer_ok:
  assumes "\<And>k. civil (others k)" and "known st mc a" and "known st cm ca" and "pass_answer cm ca mc a d others st = (st', f)"
  shows "later st st'" "settled cm ca mc (Some a) f st'" "f \<noteq> TryNext" "f \<noteq> Waiting"
proof -
  obtain mx r where bad: "SendResponse (q_mux st cm) ca ChannelResponseFailed = (mx, r)" by fastforce
  obtain my u where ok: "SendResponse (q_mux st cm) ca ChannelResponseOK = (my, u)" by fastforce
  note b = close_both [OF assms(1) assms(1) later_respond [OF bad] assms(2,3)]
  note c = close_both [OF assms(1) assms(1) later_respond [OF ok] assms(2,3)]
  show "later st st'" "settled cm ca mc (Some a) f st'" "f \<noteq> TryNext" "f \<noteq> Waiting"
    using assms(4) b c later_respond [OF ok] ok told_sent
    by (auto simp: pass_answer_def bad settled_def Let_def split: if_splits option.splits)
qed

lemma use_channel_ok:
  assumes ok: "attempt_ok t" and kn: "known st cm ca" and l3: "later st s3" and ka: "known s3 mc a"
    and tr: "use_channel cm ca l p mc a t s3 = (st', o', f)"
  shows "later st st' \<and> settled cm ca mc o' f st'"
proof -
  have cv: "\<And>k su. later su (at_others t k su)" and cv': "\<And>k. civil (at_others t k)" using ok by (simp_all add: attempt_ok_def civil_def)
  let ?i = "ch_ID (chan_at (q_mux s3 mc) a)"
  let ?d = "at_now t 4 + targetConnectTimeout"
  obtain mx4 r where sd: "SendChannelRequestWithProxyLevel (q_mux s3 mc) ?i (l + 1) p = (mx4, r)" by fastforce
  have "ages (q_mux s3 mc) mx4" using ages_send(6) [of "q_mux s3 mc" ?i "l + 1" p] sd by simp
  then have q: "later s3 (put_mux mc mx4 s3)" by (rule later_put)
  define s4 where "s4 = at_others t 4 (put_mux mc mx4 s3)"
  have l34: "later s3 s4" unfolding s4_def using later_trans [OF q cv] .
  note tr' = tr [unfolded use_channel_def sd, folded s4_def]
  show ?thesis
  proof (cases r)
    case (Some err)
    let ?c = "close_at mc a s4"
    have "shut ?c mc a" using close_shuts known_later [OF l34 ka] by blast
    then have "shut (removeReverseRouteMux ?c mc True) mc a" by (rule shut_later [OF later_removeRoute])
    moreover have "later st (removeReverseRouteMux ?c mc True)"
      using later_trans [OF later_trans [OF l3 l34] later_trans [OF later_close later_removeRoute]] .
    ultimately show ?thesis using Some tr' by (auto simp: settled_def s4_def)
  next
    case None
    obtain s5 ans where rd: "readReverseChannelTargetResponse mc a ?d (at_reads t) s4 = (s5, ans)" by fastforce
    have "later s4 s5" using later_response [of "at_reads t" s4 mc a ?d] ok rd by (simp add: attempt_ok_def)
    then have l5: "later s3 s5" using later_trans [OF l34] by blast
    let ?u = "at_others t 5 s5"
    have lu: "later s3 ?u" using later_trans [OF l5 cv] .
    note ku = known_later [OF lu ka] known_later [OF later_trans [OF l3 lu] kn]
    note su = later_trans [OF l3 lu]
    show ?thesis
    proof (cases ans)
      case None
      then show ?thesis using tr' rd \<open>r = None\<close> later_trans [OF l3 l5] by (auto simp: settled_def s4_def)
    next
      case (Some y)
      show ?thesis
      proof (cases y)
        case (NoAnswer e)
        then show ?thesis
          using tr' rd \<open>r = None\<close> Some give_up_ok [OF cv' ku(1)] later_trans [OF su] by (auto simp: settled_def s4_def)
      next
        case (Answer d)
        obtain s6 g where pa: "pass_answer cm ca mc a d (at_others t) ?u = (s6, g)" by fastforce
        note g = pass_answer_ok [OF cv' ku pa]
        then show ?thesis using tr' rd \<open>r = None\<close> Some Answer pa later_trans [OF su g(1)] by (auto simp: s4_def)
      qed
    qed
  qed
qed

lemma try_entry_ok:
  assumes ok: "attempt_ok t" and kn: "known st cm ca" and tr: "try_entry cm ca l p mc t st = (st', o', f)"
  shows "later st st' \<and> settled cm ca mc o' f st'"
proof -
  have cv: "\<And>k su. later su (at_others t k su)" using ok by (simp add: attempt_ok_def civil_def)
  define s0 where "s0 = at_others t 0 st"
  define s1 where "s1 = at_others t 1 s0"
  define s2 where "s2 = at_others t 2 s1"
  have l0: "later st s0" and l1: "later st s1" and l2: "later st s2"
    using cv later_trans unfolding s0_def s1_def s2_def by blast+
  obtain mx x where al: "AllocChannel (q_mux s2 mc) (at_now t 2) (at_e t) = (mx, x)" by fastforce
  have "ages (q_mux s2 mc) mx" using ages_alloc(1) [of "q_mux s2 mc" "at_now t 2" "at_e t"] al by simp
  then have p2: "later st (put_mux mc mx s2)" using later_trans [OF l2 later_put] by blast
  define s3 where "s3 = at_others t 3 (put_mux mc mx s2)"
  have l3: "later st s3" using cv later_trans [OF p2] unfolding s3_def by blast
  note tr' = tr [unfolded try_entry_def Let_def, folded s0_def, folded s1_def, folded s2_def, unfolded al, simplified, folded s3_def]
  consider (gone) "IsClosed (q_mux s0 mc) \<or> IsInvalid (q_mux s0 mc)"
    | (full) "\<not> (IsClosed (q_mux s0 mc) \<or> IsInvalid (q_mux s0 mc))" "\<not> CanAllocChannel (q_mux s1 mc) (at_now t 1) \<or> (\<exists>err. x = Inl err)"
    | (opened) a where "\<not> (IsClosed (q_mux s0 mc) \<or> IsInvalid (q_mux s0 mc))" "CanAllocChannel (q_mux s1 mc) (at_now t 1)" "x = Inr a"
    by (cases x) auto
  then show ?thesis
  proof cases
    case gone
    then show ?thesis using tr' later_trans [OF l0 later_removeRoute] by (auto simp: settled_def)
  next
    case full
    then show ?thesis
      using tr' later_trans [OF l2 later_no_capacity] later_trans [OF l3 later_no_capacity] by (auto simp: settled_def s3_def split: if_splits)
  next
    case (opened a)
    have "known (put_mux mc mx s2) mc a" using alloc_fresh(1) [OF al [unfolded opened(3)]] by (simp add: known_def)
    then have ka: "known s3 mc a" using known_later cv unfolding s3_def by blast
    show ?thesis by (rule use_channel_ok [OF ok kn l3 ka]) (use opened tr' in \<open>simp add: s3_def\<close>)
  qed
qed


section \<open>A request\<close>

text \<open>
  The whole loop: every channel that was opened is shut, apart from the one that the client is relayed to and the one of
  an attempt that still waits.
\<close>

lemma try_entries_ok:
  assumes "\<forall>t \<in> set ts. attempt_ok t" and "known st cm ca"
    and "try_entries cm ca l p es ts st = (st', tried, f)"
  shows "later st st' \<and> prefix (map fst tried) (map e_mc es) \<and> (f = TryNext \<longrightarrow> map fst tried = map e_mc es) \<and>
    (f = Refused \<or> f = ClientLost \<longrightarrow> shut st' cm ca) \<and>
    (\<forall>m a. f = RelayTo m a \<longrightarrow> told st' cm ca ChannelResponseOK \<and> tried \<noteq> [] \<and> last tried = (m, Some a)) \<and>
    (\<forall>m a. (m, Some a) \<in> set tried \<longrightarrow> shut st' m a \<or> f = RelayTo m a \<or> f = Waiting \<and> last tried = (m, Some a))"
  using assms
proof (induction cm ca l p es ts st arbitrary: st' tried f rule: try_entries.induct)
  case (3 cm ca l p e es t ts st)
  obtain su o' g where tr: "try_entry cm ca l p (e_mc e) t st = (su, o', g)" by (rule prod_cases3)
  have s: "later st su" "settled cm ca (e_mc e) o' g su" using try_entry_ok [OF _ "3.prems"(2) tr] "3.prems"(1) by auto
  show ?case
  proof (cases "g = TryNext")
    case False
    then show ?thesis using "3.prems"(3) tr s by (cases g) (auto simp: settled_def)
  next
    case True
    obtain sv tried' f' where rec: "try_entries cm ca l p es ts su = (sv, tried', f')" by (rule prod_cases3)
    have eq: "st' = sv" "tried = (e_mc e, o') # tried'" "f = f'" using "3.prems"(3) tr rec True by simp_all
    have ih: "later su sv" "prefix (map fst tried') (map e_mc es)" "f' = TryNext \<longrightarrow> map fst tried' = map e_mc es"
      "f' = Refused \<or> f' = ClientLost \<longrightarrow> shut sv cm ca"
      "\<forall>m a. f' = RelayTo m a \<longrightarrow> told sv cm ca ChannelResponseOK \<and> tried' \<noteq> [] \<and> last tried' = (m, Some a)"
      "\<forall>m a. (m, Some a) \<in> set tried' \<longrightarrow> shut sv m a \<or> f' = RelayTo m a \<or> f' = Waiting \<and> last tried' = (m, Some a)"
      using "3.IH" [OF tr [symmetric] _ True _ known_later [OF s(1) "3.prems"(2)] rec] "3.prems"(1) by simp_all
    have "\<forall>a. o' = Some a \<longrightarrow> shut sv (e_mc e) a" using s(2) True shut_later [OF ih(1)] by (simp add: settled_def)
    then have "\<forall>m a. (m, Some a) \<in> set tried \<longrightarrow> shut sv m a \<or> f' = RelayTo m a \<or> f' = Waiting \<and> last tried = (m, Some a)"
      using ih(6) unfolding eq by (metis last_ConsR length_greater_0_conv length_pos_if_in_set prod.inject set_ConsD)
    then show ?thesis using ih later_trans [OF s(1) ih(1)] unfolding eq by (intro conjI) (simp_all add: eq)
  qed
qed auto


lemma send_and_close_shuts: "civil f \<Longrightarrow> known st mc a \<Longrightarrow> shut (send_and_close mc a status f st) mc a"
  using later_put [of st mc "fst (SendResponse (q_mux st mc) a status)"]
  unfolding send_and_close_def by (meson ages_send(4) civilD close_shuts known_later)

lemma send_and_close_later: "civil f \<Longrightarrow> later st (send_and_close mc a status f st)"
  using later_put [of st mc "fst (SendResponse (q_mux st mc) a status)"]
  unfolding send_and_close_def by (meson ages_send(4) civilD later_close later_trans)

text \<open>The handler after the reverse routes: the outcome, when the routes took nothing, and what it leaves behind.\<close>

lemma target_settled:
  assumes "\<forall>k. civil (he_others he k)" and "known s1 mc a"
    and "forwardViaReverseRoute mc a req l p (he_attempts he) st = (s1, tried, TryNext)"
    and "handleRegisteredChannel mc a req l p he st = Some (st', tried', out)"
  shows "later s1 st' \<and> tried' = tried \<and>
    (out = UdpAssociation \<or> out \<in> {AclRejected, DialFailed, ReplyFailed} \<and> shut st' mc a \<or>
     (\<exists>d (su :: request_state) acl. out = RelayTarget d \<and> told st' mc a ChannelResponseOK \<and> rq_ConnType req \<noteq> ConnTypeUDP \<and> he_dialled he d req \<and>
       d_action d \<noteq> aclActionReject \<and> decideACL (q_acl su) (q_userName su mc) req (he_now he) = Some (acl, d)))"
proof (cases "rq_ConnType req = ConnTypeUDP")
  case True
  then show ?thesis using assms by (auto simp: handleRegisteredChannel_def)
next
  case False
  have cv: "\<And>k. civil (he_others he k)" using assms(1) by simp
  define s2 where "s2 = he_others he 0 s1"
  have l2: "later s1 s2" unfolding s2_def using cv by blast
  obtain acl d where dec: "decideACL (q_acl s2) (q_userName s2 mc) req (he_now he) = Some (acl, d)"
    using assms(3,4) False by (auto simp: handleRegisteredChannel_def s2_def [symmetric] Let_def split: option.splits)
  define s3 where "s3 = he_others he 1 (s2\<lparr>q_acl := acl\<rparr>)"
  have "later s2 (s2\<lparr>q_acl := acl\<rparr>)" by (simp add: later_def)
  then have l3: "later s1 s3" unfolding s3_def using l2 cv later_trans by blast
  note k3 = known_later [OF l3 assms(2)]
  obtain mx r where ok: "SendResponse (q_mux s3 mc) a ChannelResponseOK = (mx, r)" by fastforce
  have l4: "later s3 (put_mux mc mx s3)" by (rule later_respond [OF ok])
  have l5: "later s3 (he_others he 2 (put_mux mc mx s3))" using later_trans [OF l4] cv by blast
  have run: "Some (st', tried', out) =
     (if d_action d = aclActionReject then Some (send_and_close mc a ChannelResponseFailed (he_others he 2) s3, tried, AclRejected)
      else if \<not> he_dialled he d req then Some (send_and_close mc a ChannelResponseFailed (he_others he 2) s3, tried, DialFailed)
      else case r of Some err \<Rightarrow> Some (close_at mc a (he_others he 2 (put_mux mc mx s3)), tried, ReplyFailed)
        | None \<Rightarrow> Some (put_mux mc mx s3, tried, RelayTarget d))"
    using assms(3,4) False dec ok by (simp add: handleRegisteredChannel_def s2_def [symmetric] s3_def [symmetric] Let_def del: One_nat_def cong: if_cong option.case_cong)
  have "\<exists>(su :: request_state) acl. decideACL (q_acl su) (q_userName su mc) req (he_now he) = Some (acl, d)" using dec by blast
  then show ?thesis
    using run False k3 cv ok told_sent send_and_close_shuts later_trans [OF l3 send_and_close_later] later_trans [OF l3 l4]
      later_trans [OF later_trans [OF l3 l5] later_close] close_shuts [OF known_later [OF l5 k3]]
    by (auto split: if_splits option.splits)
qed

text \<open>
  Whatever the other goroutines of the server do in between, a registered request is settled.  The reverse routes are
  tried in the order of the table, and every reverse channel that was opened is closed, unless the client is relayed to it
  or its answer is still awaited.  A request that is refused has its channel closed.  The client is relayed only after it
  was told so, to a reverse channel of the last route tried, or to the target: then every route that matches was tried and
  took nothing, the access lists did not reject the target, and it could be dialled.
\<close>

theorem request_settled:
  assumes "\<forall>t \<in> set (he_attempts he). attempt_ok t" and "\<forall>k. civil (he_others he k)" and "known st mc a"
    and "handleRegisteredChannel mc a req l p he st = Some (st', tried, out)"
    and "routes = map e_mc (matchEntries (rv_routes (q_reverse st)) req)"
  shows "prefix (map fst tried) routes \<and>
    (\<forall>m b. (m, Some b) \<in> set tried \<longrightarrow>
      shut st' m b \<or> out = Forwarding (RelayTo m b) \<or> out = Forwarding Waiting \<and> last tried = (m, Some b)) \<and>
    (out \<in> {Forwarding Refused, Forwarding ClientLost, AclRejected, DialFailed, ReplyFailed} \<longrightarrow> shut st' mc a) \<and>
    (\<forall>m b. out = Forwarding (RelayTo m b) \<longrightarrow> last tried = (m, Some b) \<and> told st' mc a ChannelResponseOK) \<and>
    (\<forall>d. out = RelayTarget d \<longrightarrow> map fst tried = routes \<and> told st' mc a ChannelResponseOK \<and>
      rq_ConnType req \<noteq> ConnTypeUDP \<and> he_dialled he d req \<and> d_action d \<noteq> aclActionReject \<and>
      (\<exists>(su :: request_state) acl. decideACL (q_acl su) (q_userName su mc) req (he_now he) = Some (acl, d)))"
proof -
  obtain s1 tr f where fw: "forwardViaReverseRoute mc a req l p (he_attempts he) st = (s1, tr, f)" by (rule prod_cases3)
  note r = try_entries_ok [OF assms(1,3) fw [unfolded forwardViaReverseRoute_def], folded assms(5)]
  show ?thesis
  proof (cases "f = TryNext")
    case True
    have "known s1 mc a" using known_later [OF _ assms(3)] r by blast
    note t = target_settled [OF assms(2) this fw [unfolded True] assms(4)]
    then have "\<forall>m b. (m, Some b) \<in> set tried \<longrightarrow> shut st' m b" using r shut_later unfolding True by blast
    with t r show ?thesis unfolding True by auto
  next
    case False
    then have "st' = s1" "tried = tr" "out = Forwarding f"
      using assms(4) fw by (auto simp: handleRegisteredChannel_def split: fate.splits)
    then show ?thesis using r by auto
  qed
qed

text \<open>
  Forwarding ends: a request goes on only with a level below sixteen, and the level it is forwarded with is one higher,
  without wrap-around, so that a loop of reverse routes is left at the sixteenth hop at the latest.
\<close>

theorem hop_bound:
  assumes "handleNewChannel mc payload now e drain st = (st', Started a req l p)"
  shows "uint l < MaxProxyHopCount \<and> uint (l + 1) = uint l + 1"
proof -
  have l: "uint l < MaxProxyHopCount"
    using assms by (auto simp: handleNewChannel_def Let_def split: option.splits prod.splits sum.splits if_splits)
  then have "uint l + 1 < 256" by (simp add: MaxProxyHopCount_def)
  then show ?thesis using l by (simp add: uint_word_ariths)
qed

end
