(* ===== verification/Spec2Isabelle.thy ===== *)
theory Spec2Isabelle
  imports FlowLink NetConn TrafficMeter ClientSocks AclCache Replay Accept MuxPool ServerPool FakeDns ChannelRequests
begin

text \<open>
  Verification of the blackhole proxy, a multiplexing SOCKS proxy in Go (\<^verbatim>\<open>src/pkg\<close> and \<^verbatim>\<open>src/cmd\<close>).

  \<^bold>\<open>The program.\<close>  A client (\<^verbatim>\<open>cmd/client\<close>) offers SOCKS4, SOCKS4a and SOCKS5 to local programs.  It
  keeps a pool of connections to its servers, orders the servers by their health and opens one channel of a multiplexed
  connection (mux, \<^verbatim>\<open>pkg/mux\<close>) for each local request.  A mux runs over an encrypted connection
  (\<^verbatim>\<open>pkg/crypto\<close>) whose packets begin with obfuscation headers drawn from pools that both ends generate from a
  key (\<^verbatim>\<open>pkg/obfheader\<close>).  The server (\<^verbatim>\<open>cmd/server\<close>) recognises a client by the header and the nonce of the
  first packet, passes anything else on to a forward address, decides each channel request by access lists, reaches the
  target directly or over a reverse route that another connection registered, and bills the traffic of its users.

  \<^bold>\<open>Shared theories.\<close>
  \<^item> \<open>Prelude\<close>: machine types, big-endian codecs, \<^verbatim>\<open>sort.Search\<close>, generic lemmas, the collections of
    facts.  \<open>Constants\<close>: \<^verbatim>\<open>pkg/constants\<close>.  \<open>GoStrings\<close>, \<open>IpText\<close>: the parts of Go's
    \<^verbatim>\<open>strings\<close>, \<^verbatim>\<open>strconv\<close>, \<^verbatim>\<open>net\<close> and \<^verbatim>\<open>net/netip\<close> that the code uses, with the round
    trips of addresses and their texts.  \<open>Intervals\<close>: the locale of merged interval lists.
  \<^item> \<open>LruCache\<close> (\<^verbatim>\<open>pkg/lrucache\<close>): the doubly linked list and the map over an explicit store of list
    elements, refined to a list of entries in the order of use.  Its lemmas are also the contract that the DNS caches and
    the access decisions rely on.

  \<^bold>\<open>Flow control and mux\<close> (\<^verbatim>\<open>pkg/mux\<close>).
  \<^item> \<open>WindowBudget\<close>: the budget that all receive windows of a process share.  \<open>FlowControl\<close>: window
    sizes, thresholds and the message of a window update.  \<open>Channel\<close>: one channel with its queue, adaptive window,
    credit, reads, writes and both kinds of close; every operation keeps the accounting of queue, window and budget.
  \<^item> \<open>MuxConn\<close>, \<open>MuxDispatch\<close>: the connection, its channel table, the control messages, keep-alive, time
    stamps, the invalid state, and what is done with an authenticated packet.  \<open>MuxInv\<close> and \<open>MuxRuns\<close>:
    the invariant of the table, the objects and the budget, kept by every step, and the runs of a mux in any order: of one
    that only allocates channels (a client), one that only registers those its peer requests, and one that does both (a
    server with reverse routes), where the case that an allocation takes an id in use is shown to break the invariant.
  \<^item> \<open>FlowLink\<close>: the two ends of a channel with the packets under way between them, as a step relation.  Nothing is
    lost, repeated or reordered, an honest sender is not refused, and neither end starves; the status byte of a channel
    response breaks the premise of the second statement, which is proved as well.
  \<^item> \<open>NetConn\<close>: the adapter to \<^verbatim>\<open>net.Conn\<close>.  \<open>TrafficMeter\<close>: buckets of a second and the speed score.

  \<^bold>\<open>Wire format.\<close>
  \<^item> \<open>ObfPool\<close>, \<open>ObfHeader\<close>, \<open>ObfHandshake\<close>, \<open>ObfSample\<close> (\<^verbatim>\<open>pkg/obfheader\<close>,
    \<^verbatim>\<open>pkg/version\<close>): the generator, the pools, the headers of first and later packets, epochs, the search for the
    pool with its cache and the prefilter; generated pools are well formed and a header is accepted across an epoch.
  \<^item> \<open>CryptoConn\<close> (\<^verbatim>\<open>pkg/crypto\<close>): nonces that name the user, key streams, reply nonces.
  \<^item> \<open>PacketCodec\<close>, \<open>PacketWire\<close> (\<^verbatim>\<open>packet_codec.go\<close>, \<^verbatim>\<open>padding.go\<close>, \<^verbatim>\<open>auth.go\<close>,
    \<^verbatim>\<open>send_packet.go\<close>, \<^verbatim>\<open>read_loop.go\<close> of \<^verbatim>\<open>pkg/mux\<close>): packets with their MACs, paddings and fake
    headers, and that what is written is what is read.  \<open>FirstPacket\<close>: the two ends of a new connection from the
    dialling client to the accepted time stamp.  \<open>Replay\<close>: the two generations of nonces of the server.
    \<open>Accept\<close>: the choice between a client and the forward address on the first bytes.

  \<^bold>\<open>Client.\<close>
  \<^item> \<open>Socks4\<close>, \<open>Socks5\<close>, \<open>UdpFragments\<close> (\<^verbatim>\<open>pkg/socks4\<close>, \<^verbatim>\<open>pkg/socks5\<close>) and
    \<open>ClientSocks\<close> (\<^verbatim>\<open>cmd/client/main.go\<close>): local requests, the request that a channel carries, UDP
    associations and the reassembly of fragments; requests and datagrams arrive at the server as the local program sent
    them.
  \<^item> \<open>ServerHealth\<close> (\<^verbatim>\<open>server_state.go\<close>): failures, retry delays, penalties, the order of the servers.
    \<open>MuxPool\<close> (\<^verbatim>\<open>mux_pool.go\<close>): reuse of connections and batches of requests that wait for a new one, as a
    step relation.

  \<^bold>\<open>Server.\<close>
  \<^item> \<open>IpRules\<close>, \<open>RouteRules\<close> (\<^verbatim>\<open>reverse_route.go\<close>): address, port and domain rules, compiled rule
    sets, the table of reverse routes.  \<open>Acl\<close>, \<open>AclCache\<close> (\<^verbatim>\<open>acl.go\<close>, \<^verbatim>\<open>main.go\<close>): access
    lists, users, decisions and their cache under concurrent changes of the users.
  \<^item> \<open>ReverseControl\<close> (\<^verbatim>\<open>reverse_control.go\<close>, \<^verbatim>\<open>reverse_upstream.go\<close>): frames of a registration,
    their reassembly, the handler, and the switch of both ends to the pool of the user; a packet sent in the gap between
    the two switches is shown to be refused.
  \<^item> \<open>ChannelRequests\<close> (\<^verbatim>\<open>main.go\<close>, \<^verbatim>\<open>reverse_forward.go\<close>, \<^verbatim>\<open>reverse_target.go\<close>,
    \<^verbatim>\<open>reverse_upstream.go\<close>): the handler of a channel request with the others acting between its steps: the mapping
    of the target, the loop over the reverse routes, the decision and the dialling.  Every channel that is opened and not
    relayed is closed again, a target is dialled only when no route took the request and the decision allows it, and a
    request is forwarded at most sixteen times.
  \<^item> \<open>ServerPool\<close> (\<^verbatim>\<open>main.go\<close>): the managed connections, sweeps, pending traffic and the update of the
    configuration file, as a step relation over all interleavings.
  \<^item> \<open>Dns\<close>, \<open>FakeDns\<close> (\<^verbatim>\<open>dns_cache.go\<close>, \<^verbatim>\<open>fake_dns.go\<close>): DNS questions, the cache, pending
    queries, flights that several queries share, and made-up addresses for names that no resolver knows.

  \<^bold>\<open>How code becomes definitions.\<close>  A struct is a record with the fields of the source, a mutex-protected method is
  one definition, and a method that releases its mutex is cut there into several definitions, which are separate steps of
  the relation that models the interleavings.  Errors are values of a sum or option type, a \<^verbatim>\<open>nil\<close> pointer is
  \<^const>\<open>None\<close>.  Integers keep their width (words) where the code may wrap and are integers with stated bounds
  elsewhere.  Goroutines appear as steps: the reader, the writer, tickers and timers of a mux may act at any moment.

  \<^bold>\<open>Simplifications.\<close>  A read of a channel takes the payload and returns the credit in one step, and so does the
  close of a channel with its removal, where the code takes two locks one after the other; the allocations of a batch of
  requests are one step; the search for the pool of a first header uses one reading of the clock where the code makes
  several.  Lower-casing, folding and trimming of texts are modelled on ASCII, and the DNS statements are restricted to
  such labels.  The position in a key stream is unbounded.  The administrator may edit the configuration file while the
  server runs, but not the names and counters in it; users that are removed from the file lose their pending traffic in
  the code, which the billing statement leaves aside.

  \<^bold>\<open>Interfaces.\<close>  Locales state what one component relies on: merged interval lists and the address rules over
  them, a cache with a time to live, the shared budget as its clients use it, the receiving end of a flow-controlled link,
  the nonce check of an encrypted connection, a strict weak order of candidates.  Each is interpreted on the definitions of
  the component that provides it, and the properties rest on the facts of these interpretations.

  \<^bold>\<open>Parameters.\<close>  The HMAC, the hash, the key derivation and the XChaCha20 key stream are arguments; the hypotheses
  on them give the sizes of their results, and in the statements that need it that one tag or nonce differs from another.
  Random bytes, random choices and the clock are arguments of each operation, hence arbitrary.  Floating-point exponential
  and logarithm are the arguments \<open>expo\<close> and \<open>lg\<close>.  The JSON codec of a registration, the answers of a DNS
  upstream and the content of the configuration file at a reload are inputs.

  \<^bold>\<open>Bounds and termination.\<close>  Loops are structural recursions or functions with a measure.  The two loops whose
  end the code does not make obvious, the eviction of the cache and the search for a fresh header, are option-valued with
  \<^const>\<open>None\<close> for a loop that does not end: \<open>Put\<close> is proved to return, and the statements on generated
  pools speak of the pool that was returned, with a generated pool computed in \<open>ObfSample\<close>.  A loop that waits gets the
  list of the rounds it is woken in, and a write completes within one round for each byte when credit arrives.  The only
  counter is the one of the code itself, the 128 steps of \<^verbatim>\<open>readDNSName\<close>.

  \<^bold>\<open>Not modelled.\<close>  Socket I/O, dialling and proxies (\<^verbatim>\<open>pkg/proxydial\<close>), TCP and UDP relays between a
  channel and a socket, the parsing of the configuration (\<^verbatim>\<open>pkg/config\<close>), log lines and dumps
  (\<^verbatim>\<open>pkg/debugdump\<close>), start-up and signals, the system resolver, and the test and HTTP programs
  (\<^verbatim>\<open>cmd/test\<close>, \<^verbatim>\<open>cmd/test_udp_dns\<close>, \<^verbatim>\<open>cmd/httpclient\<close>).  Timing within one step and data races on
  fields that the code leaves unprotected are outside a model of interleaved steps.
\<close>

end
